(* ===== verification/Prelude.thy ===== *)
theory Prelude
  imports Main "HOL-Library.Word" "HOL-Library.List_Lexorder"
begin

text \<open>
  Shared ground of the development: the machine types of the code, byte strings and their
  little-endian reading, raw memory blocks read and written at an offset, and three-way
  comparison as \<^verbatim>\<open>compare\<close> of \<^verbatim>\<open>compiler.hh\<close> returns it.

  A byte is an \<open>8 word\<close>. A block of memory owned by one object is a list of bytes; \<open>peek\<close>
  reads a run of bytes at an offset, \<open>poke\<close> overwrites one. Memory reached through a bare
  pointer, where the code may look outside the object it was given, is a function from
  addresses to bytes (\<open>memory\<close>).
\<close>

unbundle bit_operations_syntax

section \<open>Machine types\<close>

type_synonym byte = "8 word"
type_synonym u16 = "16 word"
type_synonym u32 = "32 word"
type_synonym u64 = "64 word"
type_synonym memory = "int \<Rightarrow> byte"

named_theorems layout_simps \<open>read-over-write laws of raw memory and of packed nodes\<close>

lemma push_bit_eq_0_iff:
  fixes x :: "'a::len word"
  assumes "k \<le> LENGTH('a)"
  shows "push_bit k x = 0 \<longleftrightarrow> take_bit (LENGTH('a) - k) x = 0"
proof
  assume p: "push_bit k x = 0"
  show "take_bit (LENGTH('a) - k) x = 0"
  proof (rule bit_word_eqI)
    fix n
    have "bit (push_bit k x) (n + k) \<longleftrightarrow> n + k < LENGTH('a) \<and> bit x n"
      by (simp add: bit_push_bit_iff)
    with p show "bit (take_bit (LENGTH('a) - k) x) n = bit 0 n"
      by (auto simp: bit_take_bit_iff)
  qed
next
  assume t: "take_bit (LENGTH('a) - k) x = 0"
  show "push_bit k x = 0"
  proof (rule bit_word_eqI)
    fix n
    assume "n < LENGTH('a)"
    moreover have "\<not> bit (take_bit (LENGTH('a) - k) x) (n - k)" using t by simp
    ultimately show "bit (push_bit k x) n = bit 0 n"
      by (auto simp: bit_push_bit_iff bit_take_bit_iff)
  qed
qed

lemma xor_eq_0_iff: "x XOR y = 0 \<longleftrightarrow> x = (y :: 'a::len word)"
proof
  assume z: "x XOR y = 0"
  show "x = y"
  proof (rule bit_word_eqI)
    fix n
    have "\<not> bit (x XOR y) n" using z by simp
    then show "bit x n = bit y n" by (simp add: bit_xor_iff)
  qed
qed simp

section \<open>Little-endian encoding\<close>

fun le_nat :: "byte list \<Rightarrow> nat" where
  "le_nat [] = 0"
| "le_nat (b # bs) = unat b + 256 * le_nat bs"

fun le_bytes :: "nat \<Rightarrow> nat \<Rightarrow> byte list" where
  "le_bytes 0 x = []"
| "le_bytes (Suc n) x = word_of_nat x # le_bytes n (x div 256)"

lemma length_le_bytes [simp]: "length (le_bytes n x) = n"
  by (induction n arbitrary: x) auto

lemma unat_byte_less [simp]: "unat (b :: byte) < 256"
  using unsigned_less [of b] by simp

lemma le_nat_less: "le_nat bs < 256 ^ length bs"
proof (induction bs)
  case Nil
  then show ?case by simp
next
  case (Cons b bs)
  have "unat b + 256 * le_nat bs < 256 * Suc (le_nat bs)"
    using unat_byte_less [of b] by simp
  also have "\<dots> \<le> 256 * 256 ^ length bs"
    using Cons.IH by (intro mult_le_mono2) simp
  finally show ?case by simp
qed

lemma le_nat_le_bytes: "le_nat (le_bytes n x) = x mod 256 ^ n"
proof (induction n arbitrary: x)
  case 0
  then show ?case by simp
next
  case (Suc n)
  have "unat (word_of_nat x :: byte) = x mod 256"
    by (simp add: unat_of_nat)
  moreover have "x mod (256 * 256 ^ n) = 256 * (x div 256 mod 256 ^ n) + x mod 256"
    by (rule mod_mult2_eq)
  ultimately show ?case
    by (simp add: Suc.IH)
qed

lemma le_bytes_le_nat: "length bs = n \<Longrightarrow> le_bytes n (le_nat bs) = bs"
proof (induction bs arbitrary: n)
  case Nil
  then show ?case by simp
next
  case (Cons b bs)
  then obtain m where n: "n = Suc m" and m: "length bs = m" by auto
  have "word_of_nat (unat b + 256 * le_nat bs) = b"
  proof (rule word_unat_eq_iff [THEN iffD2])
    have "unat (word_of_nat (unat b + 256 * le_nat bs) :: byte) = (unat b + 256 * le_nat bs) mod 256"
      by (simp only: unat_of_nat) simp
    also have "\<dots> = unat b" using unat_byte_less [of b] by simp
    finally show "unat (word_of_nat (unat b + 256 * le_nat bs) :: byte) = unat b" .
  qed
  moreover have "(unat b + 256 * le_nat bs) div 256 = le_nat bs"
    using unat_byte_less [of b] by simp
  ultimately show ?case
    using Cons.IH [OF m] n by simp
qed

lemma le_nat_append: "le_nat (xs @ ys) = le_nat xs + 256 ^ length xs * le_nat ys"
  by (induction xs) (auto simp: algebra_simps)

lemma le_nat_inject:
  "length xs = length ys \<Longrightarrow> le_nat xs = le_nat ys \<longleftrightarrow> xs = ys"
  by (metis le_bytes_le_nat)

lemma le_nat_replicate_0 [simp]: "le_nat (replicate n 0) = 0"
  by (induction n) auto

section \<open>Byte strings in order\<close>

text \<open>
  Byte strings are ordered lexicographically with unsigned bytes, a proper prefix first: the
  order of \<open>HOL-Library.List_Lexorder\<close>, and of \<^verbatim>\<open>memcmp\<close> followed by a comparison of lengths.
  Read as a big-endian number, strings of the same length compare as the numbers do.
\<close>

lemma be_nat_less_iff:
  "length xs = length ys \<Longrightarrow> le_nat (rev xs) < le_nat (rev ys) \<longleftrightarrow> xs < (ys :: byte list)"
proof (induction xs ys rule: list_induct2)
  case Nil
  then show ?case by simp
next
  case (Cons x xs y ys)
  let ?p = "256 ^ length ys :: nat"
  have lx: "le_nat (rev xs) < ?p" using le_nat_less [of "rev xs"] Cons.hyps by simp
  have ly: "le_nat (rev ys) < ?p" using le_nat_less [of "rev ys"] by simp
  consider "x < y" | "x = y" | "y < x" by (rule linorder_cases)
  then show ?case
  proof cases
    case 1
    then have "Suc (unat x) \<le> unat y" by (simp add: word_less_nat_alt Suc_le_eq)
    then have "?p * Suc (unat x) \<le> ?p * unat y" by (rule mult_le_mono2)
    with lx "1" show ?thesis using Cons.hyps by (simp add: le_nat_append)
  next
    case 2
    then show ?thesis using Cons by (simp add: le_nat_append)
  next
    case 3
    then have "Suc (unat y) \<le> unat x" by (simp add: word_less_nat_alt Suc_le_eq)
    then have "?p * Suc (unat y) \<le> ?p * unat x" by (rule mult_le_mono2)
    with ly "3" show ?thesis using Cons.hyps by (auto simp: le_nat_append)
  qed
qed

lemma append_zeros_less:
  "length xs = n \<Longrightarrow> length ys = n \<Longrightarrow> xs @ zs < ys @ zs \<longleftrightarrow> xs < (ys :: byte list)"
  by (induction xs arbitrary: ys n) (auto simp: length_Suc_conv)

section \<open>Blocks of memory\<close>

definition bytes_at :: "memory \<Rightarrow> int \<Rightarrow> nat \<Rightarrow> byte list" where
  "bytes_at m a n = map (\<lambda>i. m (a + int i)) [0..<n]"

lemma length_bytes_at [simp]: "length (bytes_at m a n) = n"
  by (simp add: bytes_at_def)

lemma bytes_at_0 [simp]: "bytes_at m a 0 = []"
  by (simp add: bytes_at_def)

lemma nth_bytes_at [simp]: "i < n \<Longrightarrow> bytes_at m a n ! i = m (a + int i)"
  by (simp add: bytes_at_def)

lemma drop_bytes_at: "drop k (bytes_at m a n) = bytes_at m (a + int k) (n - k)"
  by (rule nth_equalityI) (auto simp: algebra_simps)

lemma take_bytes_at: "take k (bytes_at m a n) = bytes_at m a (min k n)"
  by (rule nth_equalityI) auto

lemma bytes_at_append: "bytes_at m a k @ bytes_at m (a + int k) n = bytes_at m a (k + n)"
  by (rule nth_equalityI) (auto simp: nth_append algebra_simps of_nat_diff)

text \<open>The memory that holds a given string at address 0, and some other byte elsewhere.\<close>

definition mem_of :: "byte \<Rightarrow> byte list \<Rightarrow> memory" where
  "mem_of junk bs = (\<lambda>a. if 0 \<le> a \<and> a < int (length bs) then bs ! nat a else junk)"

lemma bytes_at_mem_of [simp]: "n = length bs \<Longrightarrow> bytes_at (mem_of junk bs) 0 n = bs"
  by (rule nth_equalityI) (auto simp: mem_of_def)

definition peek :: "byte list \<Rightarrow> nat \<Rightarrow> nat \<Rightarrow> byte list" where
  "peek m off n = take n (drop off m)"

definition poke :: "byte list \<Rightarrow> nat \<Rightarrow> byte list \<Rightarrow> byte list" where
  "poke m off bs = take off m @ bs @ drop (off + length bs) m"

lemma length_peek [simp]: "off + n \<le> length m \<Longrightarrow> length (peek m off n) = n"
  by (simp add: peek_def)

lemma length_poke [simp]: "off + length bs \<le> length m \<Longrightarrow> length (poke m off bs) = length m"
  by (simp add: poke_def)

lemma peek_poke_same [layout_simps]:
  "off + length bs \<le> length m \<Longrightarrow> n = length bs \<Longrightarrow> peek (poke m off bs) off n = bs"
  by (simp add: peek_def poke_def)

lemma nth_poke:
  assumes "off + length bs \<le> length m" and "i < length m"
  shows "poke m off bs ! i = (if off \<le> i \<and> i < off + length bs then bs ! (i - off) else m ! i)"
  using assms by (auto simp: poke_def nth_append min_def)

lemma peek_nth: "i < n \<Longrightarrow> off + n \<le> length m \<Longrightarrow> peek m off n ! i = m ! (off + i)"
  by (simp add: peek_def)

lemma peek_poke_other [layout_simps]:
  assumes "off + length bs \<le> length m" and "off' + n \<le> length m"
    and "off' + n \<le> off \<or> off + length bs \<le> off'"
  shows "peek (poke m off bs) off' n = peek m off' n"
  by (rule nth_equalityI) (use assms in \<open>auto simp: peek_nth nth_poke\<close>)

section \<open>Three-way comparison\<close>

text \<open>\<^verbatim>\<open>compiler.hh\<close>, \<^verbatim>\<open>compare(T a, T b)\<close>.\<close>

definition compare :: "'a::linorder \<Rightarrow> 'a \<Rightarrow> int" where
  "compare a b = (if a = b then 0 else if a < b then - 1 else 1)"

lemma compare_eq_0 [simp]: "compare a b = 0 \<longleftrightarrow> a = b"
  by (simp add: compare_def)

lemma compare_less_0 [simp]: "compare a b < 0 \<longleftrightarrow> a < b"
  by (auto simp: compare_def)

lemma compare_greater_0 [simp]: "0 < compare a b \<longleftrightarrow> b < a"
  by (auto simp: compare_def)

end
