(* ===== verification/Circular_Int.thy ===== *)
theory Circular_Int
  imports Prelude
begin

text \<open>
  \<^verbatim>\<open>hybrid_index/circular_int.hh\<close>: a counter that wraps around, ordered by the sign of the
  difference. \<open>circular_int<T>\<close> holds an unsigned value; \<open>'w word\<close> is that value, for any
  width. Epochs of the key-value store (\<^verbatim>\<open>kvepoch_t\<close>) are the 64-bit instance.

  The lemmas say what the order is: \<open>a\<close> is before \<open>b\<close> exactly when \<open>b\<close> is between one and
  half the range steps ahead of \<open>a\<close>.
\<close>

section \<open>Operations\<close>

definition circ_pre_inc :: "'w::len word \<Rightarrow> 'w word" where
  "circ_pre_inc v = v + 1"

text \<open>The postfix forms return the old value, computed from the new one.\<close>

definition circ_post_inc :: "'w::len word \<Rightarrow> 'w word \<times> 'w word" where
  "circ_post_inc v = (let v' = v + 1 in (v' - 1, v'))"

definition circ_pre_dec :: "'w::len word \<Rightarrow> 'w word" where
  "circ_pre_dec v = v - 1"

definition circ_post_dec :: "'w::len word \<Rightarrow> 'w word \<times> 'w word" where
  "circ_post_dec v = (let v' = v - 1 in (v' + 1, v'))"

text \<open>\<open>+=\<close>, \<open>-=\<close>, \<open>+\<close> and \<open>-\<close> take an \<^verbatim>\<open>int\<close> or an \<^verbatim>\<open>unsigned\<close>; both convert to the word.\<close>

definition circ_add :: "'w::len word \<Rightarrow> int \<Rightarrow> 'w word" where
  "circ_add v x = v + word_of_int x"

definition circ_sub :: "'w::len word \<Rightarrow> int \<Rightarrow> 'w word" where
  "circ_sub v x = v - word_of_int x"

text \<open>\<^verbatim>\<open>cmpxchg(&v_, expected, desired)\<close>: the value found, and the value left.\<close>

definition circ_cmpxchg :: "'w::len word \<Rightarrow> 'w word \<Rightarrow> 'w word \<Rightarrow> 'w word \<times> 'w word" where
  "circ_cmpxchg v expected desired = (v, if v = expected then desired else v)"

definition circ_next_nonzero :: "'w::len word \<Rightarrow> 'w word" where
  "circ_next_nonzero x = (let v = x + 1 in v + of_bool (v = 0))"

definition circ_diff :: "'w::len word \<Rightarrow> 'w word \<Rightarrow> int" where
  "circ_diff v x = sint (v - x)"

definition circ_less :: "'w::len word \<Rightarrow> 'w word \<Rightarrow> bool" where
  "circ_less a b \<longleftrightarrow> sint (a - b) < 0"

definition circ_less_equal :: "'w::len word \<Rightarrow> 'w word \<Rightarrow> bool" where
  "circ_less_equal a b \<longleftrightarrow> sint (a - b) \<le> 0"

definition circ_le_op :: "'w::len word \<Rightarrow> 'w word \<Rightarrow> bool" where
  "circ_le_op v x \<longleftrightarrow> \<not> circ_less x v"

definition circ_ge_op :: "'w::len word \<Rightarrow> 'w word \<Rightarrow> bool" where
  "circ_ge_op v x \<longleftrightarrow> \<not> circ_less v x"

section \<open>The circular order\<close>

lemma circ_less_unat:
  "circ_less (a :: 'w::len word) b \<longleftrightarrow> 2 ^ (LENGTH('w) - 1) \<le> unat (a - b)"
proof -
  have "sint (a - b) < 0 \<longleftrightarrow> bit (a - b) (LENGTH('w) - 1)"
    by (simp add: sint_uint bit_uint_iff signed_take_bit_negative_iff)
  also have "\<dots> \<longleftrightarrow> 2 ^ (LENGTH('w) - 1) \<le> unat (a - b)"
  proof -
    have lt: "unat (a - b) < 2 ^ (LENGTH('w) - 1) * 2"
      using unsigned_less [of "a - b"] by (metis One_nat_def Suc_pred len_gt_0 power_Suc2)
    have "bit (a - b) (LENGTH('w) - 1) \<longleftrightarrow> odd (unat (a - b) div 2 ^ (LENGTH('w) - 1))"
      using bit_iff_odd [of "unat (a - b)" "LENGTH('w) - 1"] by (simp add: bit_unsigned_iff)
    also have "\<dots> \<longleftrightarrow> 2 ^ (LENGTH('w) - 1) \<le> unat (a - b)"
    proof (cases "2 ^ (LENGTH('w) - 1) \<le> unat (a - b)")
      case True
      then have "unat (a - b) div 2 ^ (LENGTH('w) - 1) = 1"
        using lt by (simp add: div_nat_eqI)
      with True show ?thesis by simp
    next
      case False
      then show ?thesis by simp
    qed
    finally show ?thesis .
  qed
  finally show ?thesis by (simp add: circ_less_def)
qed

text \<open>
  \<^verbatim>\<open>less(a, b)\<close> holds exactly when \<open>b\<close> is between one and half the range of steps
  ahead of \<open>a\<close>, at every width and across the wrap.
\<close>

theorem circ_less_iff_ahead:
  "circ_less (a :: 'w::len word) b \<longleftrightarrow>
     (\<exists>k. 1 \<le> k \<and> k \<le> 2 ^ (LENGTH('w) - 1) \<and> b = a + word_of_nat k)"
proof -
  define half where "half = (2 :: nat) ^ (LENGTH('w) - 1)"
  have two: "(2 :: nat) ^ LENGTH('w) = 2 * half"
    unfolding half_def by (metis len_gt_0 power_minus_mult mult.commute)
  have pos: "0 < half" by (simp add: half_def)
  have neg: "unat (a - b) = (if a = b then 0 else 2 * half - unat (b - a))"
    using unsigned_less [of a, where ?'a = nat] unsigned_less [of b, where ?'a = nat]
    by (auto simp: unat_sub_if' two word_unat_eq_iff)
  have lt: "unat (b - a) < 2 * half"
    using unsigned_less [of "b - a", where ?'a = nat] by (simp add: two)
  have ne: "a \<noteq> b \<Longrightarrow> 0 < unat (b - a)"
    by (metis eq_iff_diff_eq_0 gr0I unat_eq_zero)
  show ?thesis
  proof
    assume l: "circ_less a b"
    then have h: "half \<le> unat (a - b)" by (simp add: circ_less_unat half_def)
    then have "a \<noteq> b" using pos by auto
    with h neg ne lt have "1 \<le> unat (b - a)" "unat (b - a) \<le> half" by auto
    moreover have "b = a + word_of_nat (unat (b - a))" by simp
    ultimately show "\<exists>k. 1 \<le> k \<and> k \<le> 2 ^ (LENGTH('w) - 1) \<and> b = a + word_of_nat k"
      unfolding half_def by blast
  next
    assume "\<exists>k. 1 \<le> k \<and> k \<le> 2 ^ (LENGTH('w) - 1) \<and> b = a + word_of_nat k"
    then obtain k where k: "1 \<le> k" "k \<le> half" "b = a + word_of_nat k"
      by (auto simp: half_def)
    have "k < 2 ^ LENGTH('w)" using k(2) two pos by linarith
    then have u: "unat (b - a) = k"
      using k(3) by (simp add: unat_of_nat)
    then have "a \<noteq> b" using k(1) by auto
    then have "half \<le> unat (a - b)" using neg u k(2) by simp
    then show "circ_less a b" by (simp add: circ_less_unat half_def)
  qed
qed

text \<open>
  \<^verbatim>\<open>less\<close> orders every two distinct values, in one direction only unless they are
  exactly half the range apart, where each is before the other.
\<close>

theorem circ_order_conflict:
  "(a = b \<or> circ_less (a :: 'w::len word) b \<or> circ_less b a) \<and> \<not> circ_less a a \<and>
   (circ_less a b \<and> circ_less b a \<longleftrightarrow> unat (a - b) = 2 ^ (LENGTH('w) - 1))"
proof -
  define half where "half = (2 :: nat) ^ (LENGTH('w) - 1)"
  have two: "(2 :: nat) ^ LENGTH('w) = 2 * half"
    unfolding half_def by (metis len_gt_0 power_minus_mult mult.commute)
  have pos: "0 < half" by (simp add: half_def)
  have "unat (b - a) = (if a = b then 0 else 2 * half - unat (a - b))"
    using unsigned_less [of a, where ?'a = nat] unsigned_less [of b, where ?'a = nat]
    by (auto simp: unat_sub_if' two word_unat_eq_iff)
  moreover have "unat (a - b) < 2 * half"
    using unsigned_less [of "a - b", where ?'a = nat] by (simp add: two)
  moreover have "a = b \<Longrightarrow> unat (a - b) = 0" by simp
  ultimately show ?thesis
    using pos unfolding circ_less_unat half_def [symmetric] by (auto split: if_splits)
qed

lemma circ_less_irrefl: "\<not> circ_less a a"
  by (simp add: circ_less_def)

lemma circ_less_equal_iff: "circ_less_equal a b \<longleftrightarrow> circ_less a b \<or> a = b"
proof -
  have "sint (a - b) = 0 \<longleftrightarrow> a = b"
    by (metis eq_iff_diff_eq_0 signed_word_eqI sint_0)
  then show ?thesis by (auto simp: circ_less_equal_def circ_less_def)
qed

lemma circ_post_inc_pre: "circ_post_inc v = (v, circ_pre_inc v)"
  by (simp add: circ_post_inc_def circ_pre_inc_def)

lemma circ_post_dec_pre: "circ_post_dec v = (v, circ_pre_dec v)"
  by (simp add: circ_post_dec_def circ_pre_dec_def)

lemma circ_next_nonzero_neq_0: "circ_next_nonzero (v :: 'w::len word) \<noteq> 0"
  by (cases "v + 1 = 0") (simp_all add: circ_next_nonzero_def Let_def)

end
