(* ===== verification/String_Slice.thy ===== *)
theory String_Slice
  imports Prelude
begin

text \<open>
  \<^verbatim>\<open>hybrid_index/string_slice.hh\<close> at the instance the tree uses, \<^verbatim>\<open>string_slice<uint64_t>\<close>:
  up to eight bytes of a string read as one machine word. The configuration is the one of
  \<^verbatim>\<open>config.h\<close>: unaligned access allowed, little-endian host. A string is a pointer into a
  \<open>memory\<close> and a length; the \<^verbatim>\<open>sloppy\<close> operations read outside the string, and the lemmas
  show that what they read there never matters.

  The lemmas show that \<open>make_comparable\<close> orders strings as their zero-padded eight-byte
  prefixes are ordered, that the sloppy variants agree with the plain ones, and that
  \<open>unparse_comparable\<close> gives the bytes back.
\<close>

section \<open>Loads and byte order\<close>

definition u64_of_bytes :: "byte list \<Rightarrow> u64" where
  "u64_of_bytes bs = word_of_nat (le_nat bs)"

definition bytes_of_u64 :: "u64 \<Rightarrow> byte list" where
  "bytes_of_u64 x = le_bytes 8 (unat x)"

text \<open>\<^verbatim>\<open>*reinterpret_cast<const T *>(s)\<close>\<close>

definition load64 :: "memory \<Rightarrow> int \<Rightarrow> u64" where
  "load64 m s = u64_of_bytes (bytes_at m s 8)"

text \<open>\<^verbatim>\<open>net_to_host_order(uint64_t)\<close>, the byte swap of a little-endian host.\<close>

definition net_to_host_order :: "u64 \<Rightarrow> u64" where
  "net_to_host_order x = u64_of_bytes (rev (bytes_of_u64 x))"

definition host_to_net_order :: "u64 \<Rightarrow> u64" where
  "host_to_net_order x = u64_of_bytes (rev (bytes_of_u64 x))"

section \<open>Slices\<close>

definition slice_make :: "memory \<Rightarrow> int \<Rightarrow> int \<Rightarrow> u64" where
  "slice_make m s len =
     (if len \<le> 0 then 0
      else if len \<ge> 8 then load64 m s
      else (let n = nat (min len 8) in u64_of_bytes (bytes_at m s n @ replicate (8 - n) 0)))"

definition make_comparable :: "memory \<Rightarrow> int \<Rightarrow> int \<Rightarrow> u64" where
  "make_comparable m s len = net_to_host_order (slice_make m s len)"

text \<open>
  The sloppy load of a short string starts before it, so that its last byte is the word's
  most significant one, and shifts the bytes in front of it out.
\<close>

definition make_sloppy :: "memory \<Rightarrow> int \<Rightarrow> int \<Rightarrow> u64" where
  "make_sloppy m s len =
     (if len \<le> 0 then 0
      else if len \<ge> 8 then load64 m s
      else drop_bit (nat (8 * (8 - len))) (load64 m (s - (8 - len))))"

definition make_comparable_sloppy :: "memory \<Rightarrow> int \<Rightarrow> int \<Rightarrow> u64" where
  "make_comparable_sloppy m s len = net_to_host_order (make_sloppy m s len)"

text \<open>\<^verbatim>\<open>while (l > 0 && u.s[l - 1] == 0) --l;\<close>\<close>

fun strip_len :: "byte list \<Rightarrow> nat \<Rightarrow> nat" where
  "strip_len u 0 = 0"
| "strip_len u (Suc l) = (if u ! l = 0 then strip_len u l else Suc l)"

text \<open>Both \<^verbatim>\<open>unparse_comparable\<close>: the bytes copied to the buffer; their number is the result.\<close>

definition unparse_comparable :: "nat \<Rightarrow> u64 \<Rightarrow> byte list" where
  "unparse_comparable buflen value =
     (let u = bytes_of_u64 (host_to_net_order value); l = min (strip_len u 8) buflen in take l u)"

definition unparse_comparable_len :: "nat \<Rightarrow> u64 \<Rightarrow> nat \<Rightarrow> byte list" where
  "unparse_comparable_len buflen value len =
     (let u = bytes_of_u64 (host_to_net_order value); l = min (min len 8) buflen in take l u)"

text \<open>The strings compared may lie in different objects, hence two memories.\<close>

definition slice_equals_sloppy :: "memory \<Rightarrow> int \<Rightarrow> memory \<Rightarrow> int \<Rightarrow> int \<Rightarrow> bool" where
  "slice_equals_sloppy ma a mb b len =
     (if len \<le> 8 then
        (let delta = load64 ma a XOR load64 mb b in
         if len \<le> 0 then True else push_bit (nat (8 * (8 - len))) delta = 0)
      else bytes_at ma a (nat len) = bytes_at mb b (nat len))"

section \<open>Words and their bytes\<close>

lemma length_bytes_of_u64 [simp]: "length (bytes_of_u64 x) = 8"
  by (simp add: bytes_of_u64_def)

lemma unat_u64_of_bytes: "length bs \<le> 8 \<Longrightarrow> unat (u64_of_bytes bs) = le_nat bs"
proof -
  assume "length bs \<le> 8"
  then have "(256 :: nat) ^ length bs \<le> 256 ^ 8" by (rule power_increasing) simp
  with le_nat_less [of bs] have "le_nat bs < 2 ^ 64" by simp
  then show ?thesis by (simp add: u64_of_bytes_def unat_of_nat)
qed

lemma u64_of_bytes_of_u64 [simp]: "u64_of_bytes (bytes_of_u64 x) = x"
proof -
  have "unat x < 2 ^ 64" using unsigned_less [of x] by simp
  then show ?thesis
    by (simp add: bytes_of_u64_def u64_of_bytes_def le_nat_le_bytes)
qed

lemma bytes_of_u64_of_bytes: "length bs = 8 \<Longrightarrow> bytes_of_u64 (u64_of_bytes bs) = bs"
  by (simp add: bytes_of_u64_def unat_u64_of_bytes le_bytes_le_nat)

lemma u64_of_bytes_replicate_0 [simp]: "u64_of_bytes (replicate n 0) = 0"
  by (simp add: u64_of_bytes_def)

lemma u64_of_bytes_inject:
  "length xs = 8 \<Longrightarrow> length ys = 8 \<Longrightarrow> u64_of_bytes xs = u64_of_bytes ys \<longleftrightarrow> xs = ys"
  by (metis bytes_of_u64_of_bytes)

lemma net_to_host_of_bytes:
  "length bs = 8 \<Longrightarrow> net_to_host_order (u64_of_bytes bs) = u64_of_bytes (rev bs)"
  by (simp add: net_to_host_order_def bytes_of_u64_of_bytes)

lemma host_to_net_of_bytes:
  "length bs = 8 \<Longrightarrow> host_to_net_order (u64_of_bytes bs) = u64_of_bytes (rev bs)"
  by (simp add: host_to_net_order_def bytes_of_u64_of_bytes)

lemma net_to_host_host_to_net: "net_to_host_order (host_to_net_order x) = x"
  by (simp add: host_to_net_order_def net_to_host_of_bytes)

section \<open>The padded prefix\<close>

text \<open>The abstraction: the first eight bytes of a string, filled up with zero bytes.\<close>

definition pad8 :: "byte list \<Rightarrow> byte list" where
  "pad8 bs = take 8 bs @ replicate (8 - length bs) 0"

lemma length_pad8 [simp]: "length (pad8 bs) = 8"
  by (simp add: pad8_def)

definition slice_of :: "byte list \<Rightarrow> u64" where
  "slice_of bs = u64_of_bytes (rev (pad8 bs))"

lemma slice_make_eq: "slice_make m s len = u64_of_bytes (pad8 (bytes_at m s (nat len)))"
proof -
  consider "len \<le> 0" | "0 < len" "len < 8" | "8 \<le> len" by linarith
  then show ?thesis
    by cases (auto simp: slice_make_def pad8_def take_bytes_at load64_def min_def Let_def)
qed

lemma make_comparable_eq: "make_comparable m s len = slice_of (bytes_at m s (nat len))"
  by (simp add: make_comparable_def slice_make_eq net_to_host_of_bytes slice_of_def)

lemma drop_bit_u64_of_bytes:
  assumes "length bs = 8" and "k \<le> 8"
  shows "drop_bit (8 * k) (u64_of_bytes bs) = u64_of_bytes (drop k bs)"
proof -
  have p: "(2 :: nat) ^ (8 * k) = 256 ^ k" by (simp add: power_mult)
  have "le_nat bs = le_nat (take k bs) + 256 ^ k * le_nat (drop k bs)"
    using le_nat_append [of "take k bs" "drop k bs"] assms by (simp add: min_def)
  moreover have "le_nat (take k bs) < 256 ^ k"
    using le_nat_less [of "take k bs"] assms by (simp add: min_def)
  ultimately have "le_nat bs div 256 ^ k = le_nat (drop k bs)" by simp
  moreover have "unat (drop_bit (8 * k) (u64_of_bytes bs)) = unat (u64_of_bytes bs) div 2 ^ (8 * k)"
    by (metis unat_drop_bit_eq drop_bit_eq_div)
  ultimately have "unat (drop_bit (8 * k) (u64_of_bytes bs)) = unat (u64_of_bytes (drop k bs))"
    using assms by (simp add: p unat_u64_of_bytes)
  then show ?thesis by (simp add: word_unat_eq_iff)
qed

lemma u64_of_bytes_pad: "length bs \<le> 8 \<Longrightarrow> u64_of_bytes (pad8 bs) = u64_of_bytes bs"
  by (simp add: u64_of_bytes_def pad8_def le_nat_append)

lemma make_sloppy_eq: "make_sloppy m s len = slice_make m s len"
proof (cases "0 < len \<and> len < 8")
  case False
  then show ?thesis by (auto simp: make_sloppy_def slice_make_def)
next
  case True
  define k where "k = 8 - nat len"
  have k: "8 - len = int k" "nat (8 * (8 - len)) = 8 * k" "k \<le> 8" "8 - k = nat len" "nat len \<le> 8"
    using True by (auto simp: k_def)
  have "make_sloppy m s len = u64_of_bytes (drop k (bytes_at m (s - int k) 8))"
    using True k by (simp add: make_sloppy_def load64_def drop_bit_u64_of_bytes del: nat_mult_distrib)
  also have "\<dots> = u64_of_bytes (bytes_at m s (nat len))"
    by (simp add: drop_bytes_at k)
  also have "\<dots> = slice_make m s len"
    using u64_of_bytes_pad [of "bytes_at m s (nat len)"] k by (simp add: slice_make_eq)
  finally show ?thesis .
qed

lemma make_comparable_sloppy_eq: "make_comparable_sloppy m s len = slice_of (bytes_at m s (nat len))"
  by (simp add: make_comparable_sloppy_def make_sloppy_eq make_comparable_eq
      flip: make_comparable_def)

lemma slice_of_less_iff: "slice_of xs < slice_of ys \<longleftrightarrow> pad8 xs < pad8 ys"
  by (simp add: slice_of_def word_less_nat_alt unat_u64_of_bytes be_nat_less_iff)

lemma slice_of_eq_iff: "slice_of xs = slice_of ys \<longleftrightarrow> pad8 xs = pad8 ys"
  by (simp add: slice_of_def u64_of_bytes_inject)

lemma bytes_of_slice: "bytes_of_u64 (host_to_net_order (slice_of xs)) = pad8 xs"
  by (simp add: slice_of_def host_to_net_of_bytes bytes_of_u64_of_bytes)

section \<open>Parsing back and equality\<close>

lemma strip_len_le: "strip_len u l \<le> l"
  by (induction l) auto

lemma strip_len_zeros: "strip_len u l \<le> i \<Longrightarrow> i < l \<Longrightarrow> u ! i = 0"
  by (induction l) (auto simp: less_Suc_eq split: if_splits)

lemma strip_len_last: "strip_len u l = Suc j \<Longrightarrow> u ! j \<noteq> 0"
  by (induction l) (auto split: if_splits)

text \<open>Unparsing with a length gives the string's prefix back.\<close>

lemma unparse_comparable_len_slice:
  "unparse_comparable_len buflen (slice_of xs) (length xs) = take (min 8 buflen) xs"
  by (simp add: unparse_comparable_len_def bytes_of_slice pad8_def Let_def min_def)

lemma slice_equals_sloppy_eq:
  "slice_equals_sloppy ma a mb b len \<longleftrightarrow> bytes_at ma a (nat len) = bytes_at mb b (nat len)"
proof (cases "0 < len \<and> len \<le> 8")
  case False
  then show ?thesis by (auto simp: slice_equals_sloppy_def)
next
  case True
  define n where "n = nat len"
  have n: "n \<le> 8" "nat (8 * (8 - len)) = 8 * (8 - n)" "0 < n"
    using True by (auto simp: n_def)
  let ?x = "load64 ma a" and ?y = "load64 mb b"
  have low: "take_bit (8 * n) (load64 m c) = u64_of_bytes (bytes_at m c n)" for m c
  proof -
    have p: "(2 :: nat) ^ (8 * n) = 256 ^ n" by (simp add: power_mult)
    have "bytes_at m c 8 = bytes_at m c n @ bytes_at m (c + int n) (8 - n)"
      using bytes_at_append [of m c n "8 - n"] n by simp
    then have "le_nat (bytes_at m c 8) = le_nat (bytes_at m c n) + 256 ^ n * le_nat (bytes_at m (c + int n) (8 - n))"
      by (simp add: le_nat_append)
    then have "le_nat (bytes_at m c 8) mod 256 ^ n = le_nat (bytes_at m c n)"
      using le_nat_less [of "bytes_at m c n"] by simp
    moreover have "unat (take_bit (8 * n) (load64 m c)) = unat (load64 m c) mod 2 ^ (8 * n)"
      by (metis unsigned_take_bit_eq take_bit_eq_mod)
    ultimately have "unat (take_bit (8 * n) (load64 m c)) = unat (u64_of_bytes (bytes_at m c n))"
      using n by (simp add: p load64_def unat_u64_of_bytes)
    then show ?thesis by (simp add: word_unat_eq_iff)
  qed
  have inj: "u64_of_bytes (bytes_at ma a n) = u64_of_bytes (bytes_at mb b n)
      \<longleftrightarrow> bytes_at ma a n = bytes_at mb b n"
    using n by (metis length_bytes_at le_nat_inject unat_u64_of_bytes)
  have "push_bit (8 * (8 - n)) (?x XOR ?y) = 0 \<longleftrightarrow> take_bit (8 * n) (?x XOR ?y) = 0"
    using push_bit_eq_0_iff [of "8 * (8 - n)" "?x XOR ?y"] n by (simp add: diff_mult_distrib2)
  also have "\<dots> \<longleftrightarrow> take_bit (8 * n) ?x = take_bit (8 * n) ?y"
    by (simp only: take_bit_xor xor_eq_0_iff)
  also have "\<dots> \<longleftrightarrow> bytes_at ma a n = bytes_at mb b n"
    by (simp add: low inj)
  finally show ?thesis
    using True n by (simp add: slice_equals_sloppy_def Let_def flip: n_def)
qed

section \<open>Properties\<close>

text \<open>
  \<^verbatim>\<open>make_comparable\<close> and its sloppy variant give the same word, whatever lies around the
  string in memory, and words compare as the zero-padded eight-byte prefixes of their strings
  compare as byte strings.
\<close>

theorem make_comparable_order:
  "make_comparable_sloppy m s len = make_comparable m s len \<and>
   (make_comparable m s len < make_comparable m' s' len' \<longleftrightarrow>
      pad8 (bytes_at m s (nat len)) < pad8 (bytes_at m' s' (nat len')))"
  by (simp add: make_comparable_sloppy_eq make_comparable_eq slice_of_less_iff)

text \<open>
  the comment on \<^verbatim>\<open>make_comparable\<close> promises that the words compare exactly as the strings
  do; they do not when a string ends in zero bytes or runs past eight bytes: appending either
  leaves the word unchanged while the string grows.
\<close>

theorem make_comparable_not_injective:
  "make_comparable (mem_of 0 [97]) 0 1 = make_comparable (mem_of 0 [97, 0]) 0 2 \<and>
   [97 :: byte] < [97, 0] \<and>
   make_comparable (mem_of 0 [1, 2, 3, 4, 5, 6, 7, 8]) 0 8
     = make_comparable (mem_of 0 [1, 2, 3, 4, 5, 6, 7, 8, 9]) 0 9"
  by (simp add: make_comparable_eq slice_of_eq_iff pad8_def numeral_eq_Suc)

text \<open>
  \<^verbatim>\<open>unparse_comparable\<close> with a length returns the first bytes of the string whose word it is
  given; without one it returns them up to their last nonzero byte.
\<close>

theorem unparse_make_comparable:
  "unparse_comparable_len 8 (make_comparable m s len) (nat len) = take 8 (bytes_at m s (nat len)) \<and>
   (let out = unparse_comparable 8 (make_comparable m s len) in
      out = take (length out) (pad8 (bytes_at m s (nat len))) \<and>
      drop (length out) (pad8 (bytes_at m s (nat len))) = replicate (8 - length out) 0)"
proof -
  let ?p = "pad8 (bytes_at m s (nat len))"
  have l: "strip_len ?p 8 \<le> 8" by (rule strip_len_le)
  have "drop (strip_len ?p 8) ?p = replicate (8 - strip_len ?p 8) 0"
    by (rule nth_equalityI) (use l strip_len_zeros [of ?p 8] in auto)
  with l show ?thesis
    using unparse_comparable_len_slice [of 8 "bytes_at m s (nat len)"]
    by (simp add: make_comparable_eq unparse_comparable_def bytes_of_slice Let_def min_def)
qed

text \<open>
  the word-at-a-time equality test agrees with \<^verbatim>\<open>memcmp\<close> on the two strings, for every
  length and whatever surrounds them.
\<close>

theorem slice_equals_sloppy_memcmp:
  "slice_equals_sloppy ma a mb b len \<longleftrightarrow> bytes_at ma a (nat len) = bytes_at mb b (nat len)"
  by (rule slice_equals_sloppy_eq)

end
