(* ===== verification/Masstree_Key.thy ===== *)
theory Masstree_Key
  imports String_Slice
begin

text \<open>
  \<^verbatim>\<open>hybrid_index/masstree_key.hh\<close>: the key a cursor carries down the layers of a tree. The
  fields are those of \<^verbatim>\<open>Masstree::key\<close>, with the memory its pointers point into.
  \<open>key_string\<close> is the byte string a key stands for in the current layer, \<open>key_ok\<close> that the
  cached slice agrees with it.

  The lemmas show that \<open>key_cmp\<close> is the lexicographic order of byte strings, up to the point
  where both continue in a suffix; that \<open>shift\<close> drops exactly one slice and \<open>unshift_all\<close>
  undoes any number of shifts; and that \<open>unparse\<close> writes the key back.
\<close>

section \<open>The key\<close>

record mkey =
  k_ikey0 :: u64
  k_len :: int
  k_s :: int
  k_first :: int
  k_mem :: memory

definition key_make :: "memory \<Rightarrow> int \<Rightarrow> int \<Rightarrow> mkey" where
  "key_make m s len = \<lparr>k_ikey0 = make_comparable m s len, k_len = len, k_s = s, k_first = s, k_mem = m\<rparr>"

text \<open>\<^verbatim>\<open>ctz\<close>: the number of trailing zero bits, undefined on 0 (and not called there).\<close>

function ctz_from :: "u64 \<Rightarrow> nat \<Rightarrow> nat" where
  "ctz_from x n = (if n < 64 \<and> \<not> bit x n then ctz_from x (Suc n) else n)"
  by pat_completeness auto
termination
  by (relation "measure (\<lambda>(x, n). 64 - n)") auto

declare ctz_from.simps [simp del]

definition key_of_ikey :: "u64 \<Rightarrow> mkey" where
  "key_of_ikey ikey =
     \<lparr>k_ikey0 = ikey, k_len = (if ikey \<noteq> 0 then 8 - int (ctz_from ikey 0) div 8 else 0),
      k_s = 0, k_first = 0, k_mem = (\<lambda>_. 0)\<rparr>"

definition key_of_ikey_len :: "u64 \<Rightarrow> int \<Rightarrow> mkey" where
  "key_of_ikey_len ikey len =
     \<lparr>k_ikey0 = ikey, k_len = min len 8, k_s = 0, k_first = 0, k_mem = (\<lambda>_. 0)\<rparr>"

definition key_of_ikey_suf :: "u64 \<Rightarrow> memory \<Rightarrow> int \<Rightarrow> int \<Rightarrow> mkey" where
  "key_of_ikey_suf ikey m suf_s suf_len =
     \<lparr>k_ikey0 = ikey, k_len = 8 + suf_len, k_s = suf_s - 8, k_first = suf_s - 8, k_mem = m\<rparr>"

definition key_empty :: "mkey \<Rightarrow> bool" where
  "key_empty k \<longleftrightarrow> k_ikey0 k = 0 \<and> k_len k = 0"

definition key_ikeylen :: "mkey \<Rightarrow> int" where
  "key_ikeylen k = min (k_len k) 9"

definition key_has_suffix :: "mkey \<Rightarrow> bool" where
  "key_has_suffix k \<longleftrightarrow> k_len k > 8"

text \<open>The suffix as a pointer and a length.\<close>

definition key_suffix :: "mkey \<Rightarrow> int \<times> int" where
  "key_suffix k = (k_s k + 8, k_len k - 8)"

definition key_suffix_length :: "mkey \<Rightarrow> int" where
  "key_suffix_length k = k_len k - 8"

definition key_shift :: "mkey \<Rightarrow> mkey" where
  "key_shift k =
     (let s = k_s k + 8; len = k_len k - 8
      in k\<lparr>k_s := s, k_len := len, k_ikey0 := make_comparable_sloppy (k_mem k) s len\<rparr>)"

definition key_is_shifted :: "mkey \<Rightarrow> bool" where
  "key_is_shifted k \<longleftrightarrow> k_first k \<noteq> k_s k"

definition key_unshift_all :: "mkey \<Rightarrow> mkey" where
  "key_unshift_all k =
     (if k_s k \<noteq> k_first k then
        (let len = k_len k + (k_s k - k_first k); s = k_first k
         in k\<lparr>k_len := len, k_s := s, k_ikey0 := make_comparable (k_mem k) s len\<rparr>)
      else k)"

section \<open>Comparison\<close>

definition key_cmp :: "mkey \<Rightarrow> u64 \<Rightarrow> int \<Rightarrow> int" where
  "key_cmp k ikey keylenx =
     (let cmp = compare (k_ikey0 k) ikey
      in if cmp = 0 then
           (if k_len k > 8 then of_bool (keylenx \<le> 8) else k_len k - keylenx)
         else cmp)"

definition key_compare_ikey :: "mkey \<Rightarrow> u64 \<Rightarrow> int" where
  "key_compare_ikey k ikey = compare (k_ikey0 k) ikey"

definition key_compare_len :: "mkey \<Rightarrow> int \<Rightarrow> int" where
  "key_compare_len k keylenx =
     (if k_len k > 8 then of_bool (keylenx \<le> 8) else k_len k - keylenx)"

section \<open>Unparsing, and the moves of a scan\<close>

definition key_unparse :: "mkey \<Rightarrow> int \<Rightarrow> byte list" where
  "key_unparse k datalen =
     (let cplen = min (k_len k) datalen
      in unparse_comparable_len (nat cplen) (k_ikey0 k) 8
           @ (if cplen > 8 then bytes_at (k_mem k) (k_s k + 8) (nat (cplen - 8)) else []))"

definition key_prefix_length :: "mkey \<Rightarrow> int" where
  "key_prefix_length k = k_s k - k_first k"

definition key_full_string :: "mkey \<Rightarrow> byte list" where
  "key_full_string k = bytes_at (k_mem k) (k_first k) (nat (k_s k + k_len k - k_first k))"

text \<open>The result is true when the slice wrapped to zero.\<close>

definition key_increment :: "mkey \<Rightarrow> bool \<times> mkey" where
  "key_increment k =
     (if key_has_suffix k then
        (let ikey = k_ikey0 k + 1 in (ikey = 0, k\<lparr>k_ikey0 := ikey, k_len := 1\<rparr>))
      else (False, k\<lparr>k_len := k_len k + 1\<rparr>))"

definition mem_store :: "memory \<Rightarrow> int \<Rightarrow> byte list \<Rightarrow> memory" where
  "mem_store m a bs = (\<lambda>i. if a \<le> i \<and> i < a + int (length bs) then bs ! nat (i - a) else m i)"

definition key_assign_store_ikey :: "mkey \<Rightarrow> u64 \<Rightarrow> mkey" where
  "key_assign_store_ikey k ikey =
     k\<lparr>k_ikey0 := ikey, k_mem := mem_store (k_mem k) (k_s k) (bytes_of_u64 (host_to_net_order ikey))\<rparr>"

definition key_assign_store_suffix :: "mkey \<Rightarrow> byte list \<Rightarrow> int \<times> mkey" where
  "key_assign_store_suffix k suf =
     (8 + int (length suf), k\<lparr>k_mem := mem_store (k_mem k) (k_s k + 8) suf\<rparr>)"

definition key_assign_store_length :: "mkey \<Rightarrow> int \<Rightarrow> mkey" where
  "key_assign_store_length k len = k\<lparr>k_len := len\<rparr>"

definition key_unshift :: "mkey \<Rightarrow> mkey" where
  "key_unshift k =
     (let s = k_s k - 8
      in k\<lparr>k_s := s, k_ikey0 := make_comparable_sloppy (k_mem k) s 8, k_len := 9\<rparr>)"

definition key_shift_clear :: "mkey \<Rightarrow> mkey" where
  "key_shift_clear k = k\<lparr>k_ikey0 := 0, k_len := 0, k_s := k_s k + 8\<rparr>"

definition key_shift_clear_reverse :: "mkey \<Rightarrow> mkey" where
  "key_shift_clear_reverse k = k\<lparr>k_ikey0 := NOT 0, k_len := 9, k_s := k_s k + 8\<rparr>"

section \<open>What a key stands for\<close>

definition key_string :: "mkey \<Rightarrow> byte list" where
  "key_string k = bytes_at (k_mem k) (k_s k) (nat (k_len k))"

definition key_ok :: "mkey \<Rightarrow> bool" where
  "key_ok k \<longleftrightarrow> 0 \<le> k_len k \<and> k_ikey0 k = slice_of (key_string k)"

text \<open>The slot a string takes in a node: its slice, and its length up to 9.\<close>

definition slot_rank :: "byte list \<Rightarrow> nat" where
  "slot_rank s = min (length s) 9"

lemma key_ok_make: "0 \<le> len \<Longrightarrow> key_ok (key_make m s len)"
  by (simp add: key_ok_def key_make_def key_string_def make_comparable_eq)

lemma key_string_make: "key_string (key_make m s len) = bytes_at m s (nat len)"
  by (simp add: key_make_def key_string_def)

lemma key_len_string: "key_ok k \<Longrightarrow> k_len k = int (length (key_string k))"
  by (simp add: key_ok_def key_string_def)

lemma key_string_shift: "key_has_suffix k \<Longrightarrow> key_string (key_shift k) = drop 8 (key_string k)"
  by (simp add: key_string_def key_shift_def Let_def drop_bytes_at key_has_suffix_def nat_diff_distrib)

lemma key_ok_shift: "key_has_suffix k \<Longrightarrow> key_ok (key_shift k)"
  by (simp add: key_ok_def key_string_def key_shift_def Let_def key_has_suffix_def make_comparable_sloppy_eq)

lemma key_suffix_string:
  "bytes_at (k_mem k) (fst (key_suffix k)) (nat (snd (key_suffix k))) = drop 8 (key_string k)"
proof -
  have "nat (k_len k - 8) = nat (k_len k) - 8" by arith
  then show ?thesis by (simp add: key_suffix_def key_string_def drop_bytes_at)
qed

subsection \<open>Padded prefixes against strings\<close>

definition padn :: "nat \<Rightarrow> byte list \<Rightarrow> byte list" where
  "padn n bs = take n bs @ replicate (n - length bs) 0"

lemma pad8_padn: "pad8 bs = padn 8 bs"
  by (simp add: pad8_def padn_def)

lemma padn_Nil: "padn (Suc n) [] = 0 # padn n []"
  by (simp add: padn_def)

lemma padn_Cons: "padn (Suc n) (x # xs) = x # padn n xs"
  by (simp add: padn_def)

lemma padn_0 [simp]: "padn 0 xs = []"
  by (simp add: padn_def)

lemmas padn_simps = padn_Nil padn_Cons

lemma padn_less: "padn n s < padn n t \<Longrightarrow> s < t"
proof (induction n arbitrary: s t)
  case 0
  then show ?case by simp
next
  case (Suc n)
  then show ?case
    by (cases s; cases t) (auto simp: padn_simps dest: Suc.IH)
qed

lemma padn_eq_less:
  "padn n s = padn n t \<Longrightarrow> length s \<le> n \<Longrightarrow> s < t \<longleftrightarrow> length s < length t"
proof (induction n arbitrary: s t)
  case 0
  then show ?case by (cases t) auto
next
  case (Suc n)
  then show ?case
    by (cases s; cases t) (auto simp: padn_simps)
qed

lemma padn_eq_greater:
  "padn n s = padn n t \<Longrightarrow> length s \<le> n \<Longrightarrow> t < s \<longleftrightarrow> length t < length s"
proof (induction n arbitrary: s t)
  case 0
  then show ?case by (cases t) auto
next
  case (Suc n)
  then show ?case
    by (cases s; cases t) (auto simp: padn_simps)
qed

lemma padn_eq_take: "padn n s = padn n t \<Longrightarrow> n \<le> length s \<Longrightarrow> n \<le> length t \<Longrightarrow> take n s = take n t"
  by (simp add: padn_def)

lemma padn_take_eq: "take n s = take n t \<Longrightarrow> padn n s = padn n t"
proof -
  assume t: "take n s = take n t"
  then have "min n (length s) = min n (length t)" by (metis length_take min.commute)
  then have "n - length s = n - length t" by linarith
  with t show ?thesis by (simp add: padn_def)
qed

subsection \<open>Comparison is lexicographic\<close>

text \<open>Two strings fall into the same slot when their slices and ranks agree.\<close>

definition same_slot :: "byte list \<Rightarrow> byte list \<Rightarrow> bool" where
  "same_slot s t \<longleftrightarrow> slice_of s = slice_of t \<and> slot_rank s = slot_rank t"

lemma same_slot_iff:
  "same_slot s t \<longleftrightarrow> s = t \<or> (8 < length s \<and> 8 < length t \<and> take 8 s = take 8 t)"
proof
  assume same: "same_slot s t"
  then have p: "padn 8 s = padn 8 t" and r: "slot_rank s = slot_rank t"
    by (simp_all add: same_slot_def slice_of_eq_iff pad8_padn)
  show "s = t \<or> (8 < length s \<and> 8 < length t \<and> take 8 s = take 8 t)"
  proof (cases "8 < length s")
    case True
    with r have "8 < length t" by (simp add: slot_rank_def)
    with True p show ?thesis using padn_eq_take [of 8 s t] by simp
  next
    case False
    with r have "length s = length t" by (auto simp: slot_rank_def min_def split: if_splits)
    with False p show ?thesis by (simp add: padn_def)
  qed
next
  assume "s = t \<or> (8 < length s \<and> 8 < length t \<and> take 8 s = take 8 t)"
  then show "same_slot s t"
    using padn_take_eq [of 8 s t] by (auto simp: same_slot_def slice_of_eq_iff pad8_padn slot_rank_def)
qed

lemma key_cmp_slot:
  assumes "key_ok k"
  shows "key_cmp k (slice_of t) (int (slot_rank t)) = 0 \<longleftrightarrow> same_slot (key_string k) t"
    and "key_cmp k (slice_of t) (int (slot_rank t)) < 0 \<longleftrightarrow>
           key_string k < t \<and> \<not> same_slot (key_string k) t"
proof -
  let ?s = "key_string k" and ?c = "key_cmp k (slice_of t) (int (slot_rank t))"
  have i: "k_ikey0 k = slice_of ?s" using assms by (simp add: key_ok_def)
  have l: "k_len k = int (length ?s)" using assms by (rule key_len_string)
  have eq: "?c = (if padn 8 ?s = padn 8 t then
        (if 8 < length ?s then of_bool (length t \<le> 8) else int (length ?s) - int (slot_rank t))
      else if padn 8 ?s < padn 8 t then - 1 else 1)"
    by (simp add: key_cmp_def Let_def i l slice_of_eq_iff slice_of_less_iff compare_def pad8_padn slot_rank_def)
  show "?c = 0 \<longleftrightarrow> same_slot ?s t"
    unfolding eq by (auto simp: same_slot_def slice_of_eq_iff pad8_padn slot_rank_def)
  show "?c < 0 \<longleftrightarrow> ?s < t \<and> \<not> same_slot ?s t"
  proof (cases "padn 8 ?s = padn 8 t")
    case False
    then have "\<not> same_slot ?s t" by (simp add: same_slot_def slice_of_eq_iff pad8_padn)
    moreover have "padn 8 ?s < padn 8 t \<longleftrightarrow> ?s < t"
      using False padn_less [of 8 ?s t] padn_less [of 8 t ?s] by (metis less_asym linorder_less_linear)
    ultimately show ?thesis using False unfolding eq by simp
  next
    case True
    show ?thesis
    proof (cases "8 < length ?s")
      case long: True
      have "t < ?s \<or> same_slot ?s t"
        using padn_eq_less [of 8 t ?s] True long
        by (cases "8 < length t") (auto simp: same_slot_def slice_of_eq_iff pad8_padn slot_rank_def)
      with True long show ?thesis unfolding eq by auto
    next
      case False
      with True padn_eq_less [of 8 ?s t] show ?thesis
        unfolding eq by (auto simp: same_slot_def slice_of_eq_iff pad8_padn slot_rank_def)
    qed
  qed
qed

lemma key_cmp_split:
  "key_cmp k ikey keylenx =
     (let cmp = key_compare_ikey k ikey in if cmp = 0 then key_compare_len k keylenx else cmp)"
  by (simp add: key_cmp_def key_compare_ikey_def key_compare_len_def)

section \<open>Properties\<close>

text \<open>
  C34: comparing a key with the slot of a string is comparing byte strings: negative exactly when
  the key is lexicographically smaller, zero exactly when both take the same slot, which for
  strings of at most eight bytes means that they are equal.
\<close>

theorem key_compare_lexicographic:
  assumes "key_ok k"
  shows "(key_cmp k (slice_of t) (int (slot_rank t)) < 0 \<longleftrightarrow>
            key_string k < t \<and> \<not> same_slot (key_string k) t) \<and>
         (key_cmp k (slice_of t) (int (slot_rank t)) = 0 \<longleftrightarrow> same_slot (key_string k) t) \<and>
         (length t \<le> 8 \<longrightarrow> same_slot (key_string k) t \<longleftrightarrow> key_string k = t)"
  using key_cmp_slot [OF assms, of t] by (auto simp: same_slot_iff)

theorem key_compare_lexicographic_witness:
  "key_cmp (key_make (mem_of 0 [97, 98]) 0 2) (slice_of [97, 98, 0]) (int (slot_rank [97, 98, 0])) < 0"
  using key_compare_lexicographic [of "key_make (mem_of 0 [97, 98]) 0 2" "[97, 98, 0]"]
  by (simp add: key_ok_make key_string_make same_slot_iff)

lemma key_shift_pow:
  "k_s ((key_shift ^^ n) k) = k_s k + 8 * int n \<and> k_len ((key_shift ^^ n) k) = k_len k - 8 * int n \<and>
   k_first ((key_shift ^^ n) k) = k_first k \<and> k_mem ((key_shift ^^ n) k) = k_mem k"
  by (induction n) (simp_all add: key_shift_def Let_def)

text \<open>\<^verbatim>\<open>unshift_all\<close> undoes any number of \<^verbatim>\<open>shift\<close> calls on a fresh key.\<close>

theorem key_unshift_all_shift:
  "key_unshift_all ((key_shift ^^ n) (key_make m s len)) = key_make m s len"
proof (cases n)
  case 0
  then show ?thesis by (simp add: key_unshift_all_def key_make_def)
next
  case (Suc j)
  let ?k = "(key_shift ^^ n) (key_make m s len)"
  have "k_s ?k = s + 8 * int n" "k_len ?k = len - 8 * int n" "k_first ?k = s" "k_mem ?k = m"
    using key_shift_pow [of n "key_make m s len"] by (simp_all add: key_make_def)
  with Suc show ?thesis
    by (simp add: key_unshift_all_def Let_def key_make_def)
qed

text \<open>
  descending a layer strips exactly one slice: after \<^verbatim>\<open>shift\<close> the key stands for the
  old key's suffix and its cached slice is right again.
\<close>

theorem key_shift_suffix:
  assumes "key_has_suffix k"
  shows "key_ok (key_shift k) \<and> key_string (key_shift k) = drop 8 (key_string k)"
  using assms by (simp add: key_ok_shift key_string_shift)

theorem key_shift_suffix_witness:
  "key_string (key_shift (key_make (mem_of 0 [1, 2, 3, 4, 5, 6, 7, 8, 9]) 0 9)) = [9]"
proof -
  have "key_has_suffix (key_make (mem_of 0 [1, 2, 3, 4, 5, 6, 7, 8, 9]) 0 9)"
    by (simp add: key_has_suffix_def key_make_def)
  from key_shift_suffix [OF this] show ?thesis by (simp add: key_string_make)
qed

text \<open>a key unparsed into a large enough buffer is the string it was made from.\<close>

theorem key_unparse_roundtrip:
  assumes "key_ok k" and "k_len k \<le> datalen"
  shows "key_unparse k datalen = key_string k"
proof -
  let ?s = "key_string k"
  have l: "k_len k = int (length ?s)" using assms(1) by (rule key_len_string)
  have i: "k_ikey0 k = slice_of ?s" using assms(1) by (simp add: key_ok_def)
  have h: "unparse_comparable_len (length ?s) (k_ikey0 k) 8 = take 8 ?s"
    by (simp add: i l unparse_comparable_len_def bytes_of_slice pad8_def Let_def min_def)
  have "k_len k > 8 \<Longrightarrow> bytes_at (k_mem k) (k_s k + 8) (nat (k_len k - 8)) = drop 8 ?s"
    using key_suffix_string [of k] by (simp add: key_suffix_def)
  then show ?thesis
    using assms(2) l by (auto simp: key_unparse_def Let_def min_def h)
qed

theorem key_unparse_roundtrip_witness:
  "key_unparse (key_make (mem_of 0 [1, 2, 3, 4, 5, 6, 7, 8, 9]) 0 9) 20 = [1, 2, 3, 4, 5, 6, 7, 8, 9]"
  using key_unparse_roundtrip [of "key_make (mem_of 0 [1, 2, 3, 4, 5, 6, 7, 8, 9]) 0 9" 20]
  by (simp add: key_ok_make key_string_make) (simp add: key_make_def)

end
