(* ===== verification/Ksearch.thy ===== *)
theory Ksearch
  imports Prelude
begin

text \<open>
  \<^verbatim>\<open>hybrid_index/ksearch.hh\<close>: the searches over the slots of a node. A node is seen through
  its permutation (the list of slot numbers in key order, \<^verbatim>\<open>perm[i]\<close> is \<open>perm ! i\<close>) and a
  comparator that compares the key searched for with the key of a slot: negative when the key
  searched for is smaller.

  The locale \<open>searchable_node\<close> is the contract between a kind of node and the searches: when
  key and node are fit for each other (\<open>ok\<close>) the comparator's sign falls strictly along the permutation. Under it the
  binary and the linear searches return the same positions, which are the bounds they are
  named after.
\<close>

section \<open>Binary searches\<close>

function key_upper_bound_loop :: "(nat \<Rightarrow> int) \<Rightarrow> nat list \<Rightarrow> nat \<Rightarrow> nat \<Rightarrow> nat" where
  "key_upper_bound_loop cmp perm l r =
     (if l < r then
        (let m = (l + r) div 2; mp = perm ! m; c = cmp mp in
         if c < 0 then key_upper_bound_loop cmp perm l m
         else if c = 0 then m + 1
         else key_upper_bound_loop cmp perm (m + 1) r)
      else l)"
  by pat_completeness auto
termination
  by (relation "measure (\<lambda>(cmp, perm, l, r). r - l)") auto

definition key_upper_bound_by :: "(nat \<Rightarrow> int) \<Rightarrow> nat list \<Rightarrow> nat" where
  "key_upper_bound_by cmp perm = key_upper_bound_loop cmp perm 0 (length perm)"

function key_lower_bound_loop :: "(nat \<Rightarrow> int) \<Rightarrow> nat list \<Rightarrow> nat \<Rightarrow> nat \<Rightarrow> nat" where
  "key_lower_bound_loop cmp perm l r =
     (if l < r then
        (let m = (l + r) div 2; mp = perm ! m; c = cmp mp in
         if c < 0 then key_lower_bound_loop cmp perm l m
         else if c = 0 then m
         else key_lower_bound_loop cmp perm (m + 1) r)
      else l)"
  by pat_completeness auto
termination
  by (relation "measure (\<lambda>(cmp, perm, l, r). r - l)") auto

definition key_lower_bound_by :: "(nat \<Rightarrow> int) \<Rightarrow> nat list \<Rightarrow> nat" where
  "key_lower_bound_by cmp perm = key_lower_bound_loop cmp perm 0 (length perm)"

text \<open>With the matching slot number, or -1, as the reference argument \<^verbatim>\<open>position\<close>.\<close>

function key_lower_bound_with_position_loop ::
  "(nat \<Rightarrow> int) \<Rightarrow> nat list \<Rightarrow> nat \<Rightarrow> nat \<Rightarrow> nat \<times> int" where
  "key_lower_bound_with_position_loop cmp perm l r =
     (if l < r then
        (let m = (l + r) div 2; mp = perm ! m; c = cmp mp in
         if c < 0 then key_lower_bound_with_position_loop cmp perm l m
         else if c = 0 then (m, int mp)
         else key_lower_bound_with_position_loop cmp perm (m + 1) r)
      else (l, - 1))"
  by pat_completeness auto
termination
  by (relation "measure (\<lambda>(cmp, perm, l, r). r - l)") auto

definition key_lower_bound_with_position_by :: "(nat \<Rightarrow> int) \<Rightarrow> nat list \<Rightarrow> nat \<times> int" where
  "key_lower_bound_with_position_by cmp perm =
     key_lower_bound_with_position_loop cmp perm 0 (length perm)"

section \<open>Linear searches\<close>

function key_find_upper_bound_loop :: "(nat \<Rightarrow> int) \<Rightarrow> nat list \<Rightarrow> nat \<Rightarrow> nat \<Rightarrow> nat" where
  "key_find_upper_bound_loop cmp perm l r =
     (if l < r then
        (let lp = perm ! l; c = cmp lp in
         if c < 0 then l else key_find_upper_bound_loop cmp perm (l + 1) r)
      else l)"
  by pat_completeness auto
termination
  by (relation "measure (\<lambda>(cmp, perm, l, r). r - l)") auto

definition key_find_upper_bound_by :: "(nat \<Rightarrow> int) \<Rightarrow> nat list \<Rightarrow> nat" where
  "key_find_upper_bound_by cmp perm = key_find_upper_bound_loop cmp perm 0 (length perm)"

function key_find_lower_bound_loop :: "(nat \<Rightarrow> int) \<Rightarrow> nat list \<Rightarrow> nat \<Rightarrow> nat \<Rightarrow> nat" where
  "key_find_lower_bound_loop cmp perm l r =
     (if l < r then
        (let lp = perm ! l; c = cmp lp in
         if c \<le> 0 then l else key_find_lower_bound_loop cmp perm (l + 1) r)
      else l)"
  by pat_completeness auto
termination
  by (relation "measure (\<lambda>(cmp, perm, l, r). r - l)") auto

definition key_find_lower_bound_by :: "(nat \<Rightarrow> int) \<Rightarrow> nat list \<Rightarrow> nat" where
  "key_find_lower_bound_by cmp perm = key_find_lower_bound_loop cmp perm 0 (length perm)"

function key_find_lower_bound_with_position_loop ::
  "(nat \<Rightarrow> int) \<Rightarrow> nat list \<Rightarrow> nat \<Rightarrow> nat \<Rightarrow> nat \<times> int" where
  "key_find_lower_bound_with_position_loop cmp perm l r =
     (if l < r then
        (let lp = perm ! l; c = cmp lp in
         if c < 0 then (l, - 1)
         else if c = 0 then (l, int lp)
         else key_find_lower_bound_with_position_loop cmp perm (l + 1) r)
      else (l, - 1))"
  by pat_completeness auto
termination
  by (relation "measure (\<lambda>(cmp, perm, l, r). r - l)") auto

definition key_find_lower_bound_with_position_by :: "(nat \<Rightarrow> int) \<Rightarrow> nat list \<Rightarrow> nat \<times> int" where
  "key_find_lower_bound_with_position_by cmp perm =
     key_find_lower_bound_with_position_loop cmp perm 0 (length perm)"

declare key_upper_bound_loop.simps [simp del]
  key_lower_bound_loop.simps [simp del]
  key_lower_bound_with_position_loop.simps [simp del]
  key_find_upper_bound_loop.simps [simp del]
  key_find_lower_bound_loop.simps [simp del]
  key_find_lower_bound_with_position_loop.simps [simp del]

lemma key_upper_bound_loop_stop: "\<not> l < r \<Longrightarrow> key_upper_bound_loop cmp perm l r = l"
  by (subst key_upper_bound_loop.simps) simp

lemma key_lower_bound_loop_stop: "\<not> l < r \<Longrightarrow> key_lower_bound_loop cmp perm l r = l"
  by (subst key_lower_bound_loop.simps) simp

lemma key_lower_bound_with_position_loop_stop:
  "\<not> l < r \<Longrightarrow> key_lower_bound_with_position_loop cmp perm l r = (l, - 1)"
  by (subst key_lower_bound_with_position_loop.simps) simp

section \<open>The bounds\<close>

definition is_lower :: "(nat \<Rightarrow> int) \<Rightarrow> nat list \<Rightarrow> nat \<Rightarrow> bool" where
  "is_lower cmp perm b \<longleftrightarrow> b \<le> length perm \<and> (\<forall>i < b. 0 < cmp (perm ! i)) \<and>
     (\<forall>i. b \<le> i \<longrightarrow> i < length perm \<longrightarrow> cmp (perm ! i) \<le> 0)"

definition is_upper :: "(nat \<Rightarrow> int) \<Rightarrow> nat list \<Rightarrow> nat \<Rightarrow> bool" where
  "is_upper cmp perm b \<longleftrightarrow> b \<le> length perm \<and> (\<forall>i < b. 0 \<le> cmp (perm ! i)) \<and>
     (\<forall>i. b \<le> i \<longrightarrow> i < length perm \<longrightarrow> cmp (perm ! i) < 0)"

text \<open>The slot at the lower bound when it matches, else -1.\<close>

definition match_at :: "(nat \<Rightarrow> int) \<Rightarrow> nat list \<Rightarrow> nat \<Rightarrow> int" where
  "match_at cmp perm b = (if b < length perm \<and> cmp (perm ! b) = 0 then int (perm ! b) else - 1)"

lemma is_lower_unique: "is_lower cmp perm a \<Longrightarrow> is_lower cmp perm b \<Longrightarrow> a = b"
  unfolding is_lower_def by (metis less_le_trans linorder_neqE_nat nat_le_linear not_less)

lemma is_upper_unique: "is_upper cmp perm a \<Longrightarrow> is_upper cmp perm b \<Longrightarrow> a = b"
  unfolding is_upper_def by (metis less_le_trans linorder_neqE_nat nat_le_linear not_less)

section \<open>The contract of a searchable node\<close>

locale searchable_node =
  fixes ok :: "'k \<Rightarrow> 'n \<Rightarrow> bool"
    and perm :: "'n \<Rightarrow> nat list"
    and cmp :: "'k \<Rightarrow> 'n \<Rightarrow> nat \<Rightarrow> int"
  assumes ordered:
    "ok k n \<Longrightarrow> i < j \<Longrightarrow> j < length (perm n) \<Longrightarrow> 0 \<le> cmp k n (perm n ! j) \<Longrightarrow>
       0 < cmp k n (perm n ! i)"
begin

lemma ordered_le:
  "ok k n \<Longrightarrow> i \<le> j \<Longrightarrow> j < length (perm n) \<Longrightarrow> 0 < cmp k n (perm n ! j) \<Longrightarrow>
     0 < cmp k n (perm n ! i)"
  using ordered [of k n i j] by (cases "i = j") auto

lemma ordered_neg:
  "ok k n \<Longrightarrow> i < j \<Longrightarrow> j < length (perm n) \<Longrightarrow> cmp k n (perm n ! i) \<le> 0 \<Longrightarrow>
     cmp k n (perm n ! j) < 0"
  using ordered [of k n i j] by (cases "0 \<le> cmp k n (perm n ! j)") auto

lemma ordered_neg_le:
  "ok k n \<Longrightarrow> i \<le> j \<Longrightarrow> j < length (perm n) \<Longrightarrow> cmp k n (perm n ! i) < 0 \<Longrightarrow>
     cmp k n (perm n ! j) < 0"
  using ordered_neg [of k n i j] by (cases "i = j") auto

lemma lower_loop:
  assumes "ok k n"
  shows "l \<le> r \<Longrightarrow> r \<le> length (perm n) \<Longrightarrow> \<forall>i < l. 0 < cmp k n (perm n ! i) \<Longrightarrow>
     \<forall>i. r \<le> i \<longrightarrow> i < length (perm n) \<longrightarrow> cmp k n (perm n ! i) < 0 \<Longrightarrow>
     is_lower (cmp k n) (perm n) (key_lower_bound_loop (cmp k n) (perm n) l r)"
proof (induction "cmp k n" "perm n" l r rule: key_lower_bound_loop.induct)
  case (1 l r)
  show ?case
  proof (cases "l < r")
    case False
    with "1.prems" show ?thesis
      by (auto simp: key_lower_bound_loop_stop is_lower_def intro: less_imp_le)
  next
    case True
    define m where "m = (l + r) div 2"
    have m: "l \<le> m" "m < r" "m < length (perm n)" using True "1.prems" by (auto simp: m_def)
    consider "cmp k n (perm n ! m) < 0" | "cmp k n (perm n ! m) = 0" | "0 < cmp k n (perm n ! m)"
      by linarith
    then show ?thesis
    proof cases
      case 1
      then have "\<forall>i. m \<le> i \<longrightarrow> i < length (perm n) \<longrightarrow> cmp k n (perm n ! i) < 0"
        using ordered_neg_le [OF assms] by blast
      then show ?thesis
        using "1" True m "1.prems" "1.hyps"(1)
        by (simp add: key_lower_bound_loop.simps [of _ _ l r] Let_def flip: m_def)
    next
      case 2
      have "\<forall>i < m. 0 < cmp k n (perm n ! i)"
        using "2" m ordered [OF assms] by auto
      moreover have "\<forall>i. m \<le> i \<longrightarrow> i < length (perm n) \<longrightarrow> cmp k n (perm n ! i) \<le> 0"
        using "2" ordered_neg [OF assms] by (metis le_less less_imp_le order_refl)
      ultimately show ?thesis
        using "2" True m by (simp add: key_lower_bound_loop.simps [of _ _ l r] Let_def is_lower_def flip: m_def)
    next
      case 3
      then have "\<forall>i < m + 1. 0 < cmp k n (perm n ! i)"
        using ordered_le [OF assms] m by (metis less_Suc_eq_le Suc_eq_plus1)
      moreover have "\<not> cmp k n (perm n ! m) < 0" "cmp k n (perm n ! m) \<noteq> 0"
        using "3" by auto
      ultimately show ?thesis
        using True m "1.prems" "1.hyps"(2)
        by (simp add: key_lower_bound_loop.simps [of _ _ l r] Let_def flip: m_def)
    qed
  qed
qed

lemma lower_bound_spec:
  assumes "ok k n"
  shows "is_lower (cmp k n) (perm n) (key_lower_bound_by (cmp k n) (perm n))"
  using lower_loop [OF assms, of 0 "length (perm n)"] by (simp add: key_lower_bound_by_def)

lemma upper_loop:
  assumes "ok k n"
  shows "l \<le> r \<Longrightarrow> r \<le> length (perm n) \<Longrightarrow> \<forall>i < l. 0 \<le> cmp k n (perm n ! i) \<Longrightarrow>
     \<forall>i. r \<le> i \<longrightarrow> i < length (perm n) \<longrightarrow> cmp k n (perm n ! i) < 0 \<Longrightarrow>
     is_upper (cmp k n) (perm n) (key_upper_bound_loop (cmp k n) (perm n) l r)"
proof (induction "cmp k n" "perm n" l r rule: key_upper_bound_loop.induct)
  case (1 l r)
  show ?case
  proof (cases "l < r")
    case False
    with "1.prems" show ?thesis
      by (auto simp: key_upper_bound_loop_stop is_upper_def)
  next
    case True
    define m where "m = (l + r) div 2"
    have m: "l \<le> m" "m < r" "m < length (perm n)" using True "1.prems" by (auto simp: m_def)
    consider "cmp k n (perm n ! m) < 0" | "cmp k n (perm n ! m) = 0" | "0 < cmp k n (perm n ! m)"
      by linarith
    then show ?thesis
    proof cases
      case 1
      then have "\<forall>i. m \<le> i \<longrightarrow> i < length (perm n) \<longrightarrow> cmp k n (perm n ! i) < 0"
        using ordered_neg_le [OF assms] by blast
      then show ?thesis
        using "1" True m "1.prems" "1.hyps"(1)
        by (simp add: key_upper_bound_loop.simps [of _ _ l r] Let_def flip: m_def)
    next
      case 2
      have "\<forall>i < m + 1. 0 \<le> cmp k n (perm n ! i)"
        using "2" m ordered [OF assms] by (metis less_Suc_eq Suc_eq_plus1 less_imp_le order_refl)
      moreover have "\<forall>i. m + 1 \<le> i \<longrightarrow> i < length (perm n) \<longrightarrow> cmp k n (perm n ! i) < 0"
        using "2" ordered_neg [OF assms] by (metis Suc_eq_plus1 Suc_le_eq order_refl)
      ultimately show ?thesis
        using "2" True m by (simp add: key_upper_bound_loop.simps [of _ _ l r] Let_def is_upper_def flip: m_def)
    next
      case 3
      then have "\<forall>i < m + 1. 0 \<le> cmp k n (perm n ! i)"
        using ordered_le [OF assms] m by (metis less_Suc_eq_le Suc_eq_plus1 less_imp_le)
      then show ?thesis
        using "3" True m "1.prems" "1.hyps"(2)
        by (simp add: key_upper_bound_loop.simps [of _ _ l r] Let_def flip: m_def)
    qed
  qed
qed

lemma upper_bound_spec:
  assumes "ok k n"
  shows "is_upper (cmp k n) (perm n) (key_upper_bound_by (cmp k n) (perm n))"
  using upper_loop [OF assms, of 0 "length (perm n)"] by (simp add: key_upper_bound_by_def)

lemma find_lower_loop:
  assumes "ok k n"
  shows "l \<le> length (perm n) \<Longrightarrow> \<forall>i < l. 0 < cmp k n (perm n ! i) \<Longrightarrow>
     is_lower (cmp k n) (perm n) (key_find_lower_bound_loop (cmp k n) (perm n) l (length (perm n)))"
proof (induction "cmp k n" "perm n" l "length (perm n)" rule: key_find_lower_bound_loop.induct)
  case (1 l)
  show ?case
  proof (cases "l < length (perm n) \<and> 0 < cmp k n (perm n ! l)")
    case True
    then show ?thesis
      using "1.hyps" "1.prems"
      by (simp add: key_find_lower_bound_loop.simps [of _ _ l] Let_def less_Suc_eq)
  next
    case False
    have "\<forall>i. l \<le> i \<longrightarrow> i < length (perm n) \<longrightarrow> cmp k n (perm n ! i) \<le> 0"
      using False ordered_neg [OF assms] by (metis le_less less_imp_le not_less order.strict_trans)
    then show ?thesis
      using False "1.prems" by (auto simp: key_find_lower_bound_loop.simps [of _ _ l] Let_def is_lower_def)
  qed
qed

lemma find_lower_bound_spec:
  assumes "ok k n"
  shows "is_lower (cmp k n) (perm n) (key_find_lower_bound_by (cmp k n) (perm n))"
  using find_lower_loop [OF assms, of 0] by (simp add: key_find_lower_bound_by_def)

lemma find_upper_loop:
  assumes "ok k n"
  shows "l \<le> length (perm n) \<Longrightarrow> \<forall>i < l. 0 \<le> cmp k n (perm n ! i) \<Longrightarrow>
     is_upper (cmp k n) (perm n) (key_find_upper_bound_loop (cmp k n) (perm n) l (length (perm n)))"
proof (induction "cmp k n" "perm n" l "length (perm n)" rule: key_find_upper_bound_loop.induct)
  case (1 l)
  show ?case
  proof (cases "l < length (perm n) \<and> 0 \<le> cmp k n (perm n ! l)")
    case True
    then show ?thesis
      using "1.hyps" "1.prems"
      by (simp add: key_find_upper_bound_loop.simps [of _ _ l] Let_def less_Suc_eq)
  next
    case False
    have "\<forall>i. l \<le> i \<longrightarrow> i < length (perm n) \<longrightarrow> cmp k n (perm n ! i) < 0"
      using False ordered_neg [OF assms] by (metis le_less less_imp_le not_less order.strict_trans)
    then show ?thesis
      using False "1.prems" by (auto simp: key_find_upper_bound_loop.simps [of _ _ l] Let_def is_upper_def)
  qed
qed

lemma find_upper_bound_spec:
  assumes "ok k n"
  shows "is_upper (cmp k n) (perm n) (key_find_upper_bound_by (cmp k n) (perm n))"
  using find_upper_loop [OF assms, of 0] by (simp add: key_find_upper_bound_by_def)

lemma with_position_loop:
  assumes "ok k n"
  shows "l \<le> r \<Longrightarrow> r \<le> length (perm n) \<Longrightarrow>
     \<forall>i. r \<le> i \<longrightarrow> i < length (perm n) \<longrightarrow> cmp k n (perm n ! i) < 0 \<Longrightarrow>
     key_lower_bound_with_position_loop (cmp k n) (perm n) l r =
       (key_lower_bound_loop (cmp k n) (perm n) l r,
        match_at (cmp k n) (perm n) (key_lower_bound_loop (cmp k n) (perm n) l r))"
proof (induction "cmp k n" "perm n" l r rule: key_lower_bound_loop.induct)
  case (1 l r)
  show ?case
  proof (cases "l < r")
    case False
    with "1.prems" show ?thesis
      by (auto simp: key_lower_bound_loop_stop key_lower_bound_with_position_loop_stop match_at_def)
  next
    case True
    define m where "m = (l + r) div 2"
    have m: "l \<le> m" "m < r" "m < length (perm n)" using True "1.prems" by (auto simp: m_def)
    have neg: "cmp k n (perm n ! m) < 0 \<Longrightarrow>
        \<forall>i. m \<le> i \<longrightarrow> i < length (perm n) \<longrightarrow> cmp k n (perm n ! i) < 0"
      using ordered_neg_le [OF assms] by blast
    consider "cmp k n (perm n ! m) < 0" | "cmp k n (perm n ! m) = 0" | "0 < cmp k n (perm n ! m)"
      by linarith
    then show ?thesis
      using True m neg "1.prems" "1.hyps"
      by cases (simp_all add: key_lower_bound_loop.simps [of _ _ l r]
          key_lower_bound_with_position_loop.simps [of _ _ l r] Let_def match_at_def flip: m_def)
  qed
qed

lemma with_position_spec:
  assumes "ok k n" and "is_lower (cmp k n) (perm n) b"
  shows "key_lower_bound_with_position_by (cmp k n) (perm n) = (b, match_at (cmp k n) (perm n) b)"
  using with_position_loop [OF assms(1), of 0 "length (perm n)"]
    is_lower_unique [OF assms(2) lower_bound_spec [OF assms(1)]]
  by (simp add: key_lower_bound_with_position_by_def key_lower_bound_by_def)

lemma find_with_position_loop:
  "key_find_lower_bound_with_position_loop c p l r =
     (let b = key_find_lower_bound_loop c p l r
      in (b, if b < r \<and> c (p ! b) = 0 then int (p ! b) else - 1))"
proof (induction c p l r rule: key_find_lower_bound_loop.induct)
  case (1 c p l r)
  then show ?case
    by (auto simp: key_find_lower_bound_loop.simps [of c p l r]
        key_find_lower_bound_with_position_loop.simps [of c p l r] Let_def)
qed

lemma find_with_position_spec:
  assumes "ok k n" and "is_lower (cmp k n) (perm n) b"
  shows "key_find_lower_bound_with_position_by (cmp k n) (perm n) = (b, match_at (cmp k n) (perm n) b)"
  using find_with_position_loop [of "cmp k n" "perm n" 0 "length (perm n)"]
    is_lower_unique [OF assms(2) find_lower_bound_spec [OF assms(1)]]
  by (simp add: key_find_lower_bound_with_position_by_def key_find_lower_bound_by_def match_at_def Let_def)

text \<open>The linear and the binary searches agree.\<close>

lemma binary_linear:
  assumes "ok k n"
  shows "key_lower_bound_by (cmp k n) (perm n) = key_find_lower_bound_by (cmp k n) (perm n)"
    and "key_upper_bound_by (cmp k n) (perm n) = key_find_upper_bound_by (cmp k n) (perm n)"
    and "key_lower_bound_with_position_by (cmp k n) (perm n) =
         key_find_lower_bound_with_position_by (cmp k n) (perm n)"
  using is_lower_unique [OF lower_bound_spec find_lower_bound_spec, OF assms assms]
    is_upper_unique [OF upper_bound_spec find_upper_bound_spec, OF assms assms]
    with_position_spec [OF assms lower_bound_spec, OF assms]
    find_with_position_spec [OF assms lower_bound_spec, OF assms]
  by simp_all

end

end
