(* ===== verification/Mass_Node.thy ===== *)
theory Mass_Node
  imports Masstree_Key Ksearch
begin

text \<open>
  The nodes of the static stage, \<^verbatim>\<open>massnode\<close>, \<^verbatim>\<open>massnode_multivalue\<close> and
  \<^verbatim>\<open>massnode_dynamicvalue\<close> of \<^verbatim>\<open>hybrid_index/masstree_struct.hh\<close>, and the comparators on
  them of \<^verbatim>\<open>masstree_key.hh\<close>. A node is one allocation: a header, then arrays packed without
  padding: key lengths, slices, leaf values, (values,) suffix offsets, suffixes. The model keeps
  the allocation as a list of bytes, computes the array positions as the code does, and reads
  and writes the elements at their byte offsets. The header fields are record fields; the bytes
  of the header are part of the block (so that offsets are those of the code) but never read.

  A leaf value is a 64-bit union: eight value bytes, a pair of 32-bit offset and length, or a
  pointer to the node of the next layer. Fresh memory has arbitrary content (\<open>raw\<close>).

  The lemmas \<open>..._laws\<close> say that every array element is read back as it was written and that
  writing it leaves all others alone.
\<close>

section \<open>Array elements\<close>

definition rd8 :: "byte list \<Rightarrow> nat \<Rightarrow> byte" where
  "rd8 m a = m ! a"

definition wr8 :: "byte list \<Rightarrow> nat \<Rightarrow> byte \<Rightarrow> byte list" where
  "wr8 m a v = poke m a [v]"

definition rd32 :: "byte list \<Rightarrow> nat \<Rightarrow> nat" where
  "rd32 m a = le_nat (peek m a 4)"

definition wr32 :: "byte list \<Rightarrow> nat \<Rightarrow> nat \<Rightarrow> byte list" where
  "wr32 m a x = poke m a (le_bytes 4 x)"

definition rd64 :: "byte list \<Rightarrow> nat \<Rightarrow> u64" where
  "rd64 m a = u64_of_bytes (peek m a 8)"

definition wr64 :: "byte list \<Rightarrow> nat \<Rightarrow> u64 \<Rightarrow> byte list" where
  "wr64 m a x = poke m a (bytes_of_u64 x)"

text \<open>Subtraction of \<^verbatim>\<open>uint32_t\<close> values.\<close>

definition sub32 :: "nat \<Rightarrow> nat \<Rightarrow> nat" where
  "sub32 a b = (a + 2 ^ 32 - b) mod 2 ^ 32"

lemma rd32_less [simp]: "a + 4 \<le> length m \<Longrightarrow> rd32 m a < 2 ^ 32"
  using le_nat_less [of "peek m a 4"] by (simp add: rd32_def)

lemma sub32_le: "b \<le> a \<Longrightarrow> a < 2 ^ 32 \<Longrightarrow> sub32 a b = a - b"
proof -
  assume "b \<le> a" and "a < 2 ^ 32"
  then have "a + 2 ^ 32 - b = (a - b) + 2 ^ 32" and "a - b < 2 ^ 32" by auto
  then show ?thesis by (simp only: sub32_def mod_add_self2 mod_less)
qed

lemma sub32_rd32: "b \<le> rd32 m a \<Longrightarrow> a + 4 \<le> length m \<Longrightarrow> sub32 (rd32 m a) b = rd32 m a - b"
  by (rule sub32_le) (auto dest: rd32_less)

lemma length_wr [simp]:
  "a + 1 \<le> length m \<Longrightarrow> length (wr8 m a v) = length m"
  "a + 4 \<le> length m \<Longrightarrow> length (wr32 m a x) = length m"
  "a + 8 \<le> length m \<Longrightarrow> length (wr64 m a y) = length m"
  by (simp_all add: wr8_def wr32_def wr64_def)

lemma rd_wr_same [layout_simps]:
  "a + 1 \<le> length m \<Longrightarrow> rd8 (wr8 m a v) a = v"
  "a + 4 \<le> length m \<Longrightarrow> rd32 (wr32 m a x) a = x mod 2 ^ 32"
  "a + 8 \<le> length m \<Longrightarrow> rd64 (wr64 m a y) a = y"
  by (simp_all add: rd8_def wr8_def rd32_def wr32_def rd64_def wr64_def nth_poke peek_poke_same le_nat_le_bytes)

lemma rd_wr8_other [layout_simps]:
  "a + 1 \<le> length m \<Longrightarrow> b < length m \<Longrightarrow> a \<noteq> b \<Longrightarrow> rd8 (wr8 m a v) b = rd8 m b"
  "a + 1 \<le> length m \<Longrightarrow> b + 4 \<le> length m \<Longrightarrow> b + 4 \<le> a \<or> a + 1 \<le> b \<Longrightarrow> rd32 (wr8 m a v) b = rd32 m b"
  "a + 1 \<le> length m \<Longrightarrow> b + 8 \<le> length m \<Longrightarrow> b + 8 \<le> a \<or> a + 1 \<le> b \<Longrightarrow> rd64 (wr8 m a v) b = rd64 m b"
  by (auto simp: rd8_def wr8_def rd32_def rd64_def nth_poke peek_poke_other)

lemma rd_wr32_other [layout_simps]:
  "a + 4 \<le> length m \<Longrightarrow> b < length m \<Longrightarrow> b + 1 \<le> a \<or> a + 4 \<le> b \<Longrightarrow> rd8 (wr32 m a x) b = rd8 m b"
  "a + 4 \<le> length m \<Longrightarrow> b + 4 \<le> length m \<Longrightarrow> b + 4 \<le> a \<or> a + 4 \<le> b \<Longrightarrow> rd32 (wr32 m a x) b = rd32 m b"
  "a + 4 \<le> length m \<Longrightarrow> b + 8 \<le> length m \<Longrightarrow> b + 8 \<le> a \<or> a + 4 \<le> b \<Longrightarrow> rd64 (wr32 m a x) b = rd64 m b"
  by (auto simp: rd8_def rd32_def wr32_def rd64_def nth_poke peek_poke_other)

lemma rd_wr64_other [layout_simps]:
  "a + 8 \<le> length m \<Longrightarrow> b < length m \<Longrightarrow> b + 1 \<le> a \<or> a + 8 \<le> b \<Longrightarrow> rd8 (wr64 m a y) b = rd8 m b"
  "a + 8 \<le> length m \<Longrightarrow> b + 4 \<le> length m \<Longrightarrow> b + 4 \<le> a \<or> a + 8 \<le> b \<Longrightarrow> rd32 (wr64 m a y) b = rd32 m b"
  "a + 8 \<le> length m \<Longrightarrow> b + 8 \<le> length m \<Longrightarrow> b + 8 \<le> a \<or> a + 8 \<le> b \<Longrightarrow> rd64 (wr64 m a y) b = rd64 m b"
  by (auto simp: rd8_def rd32_def wr64_def rd64_def nth_poke peek_poke_other)

lemma rd_wr_elem [layout_simps]:
  "b + 4 * p + 4 \<le> length m \<Longrightarrow> b + 4 * q + 4 \<le> length m \<Longrightarrow> p \<noteq> q \<Longrightarrow>
     rd32 (wr32 m (b + 4 * p) x) (b + 4 * q) = rd32 m (b + 4 * q)"
  "b + 8 * p + 8 \<le> length m \<Longrightarrow> b + 8 * q + 8 \<le> length m \<Longrightarrow> p \<noteq> q \<Longrightarrow>
     rd64 (wr64 m (b + 8 * p) y) (b + 8 * q) = rd64 m (b + 8 * q)"
  by (rule rd_wr32_other rd_wr64_other; linarith)+

lemma bytes_at_mem_of_peek: "a + n \<le> length m \<Longrightarrow> bytes_at (mem_of j m) (int a) n = peek m a n"
  by (rule nth_equalityI) (auto simp: mem_of_def peek_nth nat_add_distrib)

text \<open>The suffix test of all three kinds of node.\<close>

lemma suffix_match:
  assumes "pos + len \<le> length m" and "key_ok k" and "8 \<le> k_len k"
  shows "(if int len \<noteq> snd (key_suffix k) then False
          else slice_equals_sloppy (mem_of j m) (int pos) (k_mem k) (fst (key_suffix k)) (snd (key_suffix k)))
         \<longleftrightarrow> peek m pos len = drop 8 (key_string k)"
proof (cases "int len = snd (key_suffix k)")
  case True
  then have "nat (snd (key_suffix k)) = len" by simp
  then show ?thesis
    using True assms(1) key_suffix_string [of k]
    by (simp add: slice_equals_sloppy_eq bytes_at_mem_of_peek)
next
  case False
  have "length (drop 8 (key_string k)) = nat (snd (key_suffix k))"
    using key_suffix_string [of k] by (metis length_bytes_at)
  then have "length (drop 8 (key_string k)) \<noteq> len"
    using False assms(3) by (auto simp: key_suffix_def)
  then have "peek m pos len \<noteq> drop 8 (key_string k)"
    using assms(1) by (metis length_peek)
  with False show ?thesis by simp
qed

section \<open>Key lengths and leaf values\<close>

text \<open>\<^verbatim>\<open>keylenx\<close>: 0 to 8 for a key that ends in the slot, 9 with a suffix, above 63 for a layer.\<close>

definition keylenx_ikeylen :: "byte \<Rightarrow> byte" where
  "keylenx_ikeylen keylenx = keylenx AND 31"

definition keylenx_is_layer :: "byte \<Rightarrow> bool" where
  "keylenx_is_layer keylenx \<longleftrightarrow> keylenx > 63"

definition keylenx_has_ksuf :: "byte \<Rightarrow> bool" where
  "keylenx_has_ksuf keylenx \<longleftrightarrow> keylenx = 9"

text \<open>The rank of a key length among the slots of one slice; a layer stands where a suffix would.\<close>

definition kl_rank :: "byte \<Rightarrow> nat" where
  "kl_rank kl = (if keylenx_is_layer kl then 9 else unat kl)"

definition kl_ok :: "byte \<Rightarrow> bool" where
  "kl_ok kl \<longleftrightarrow> kl \<le> 9 \<or> keylenx_is_layer kl"

lemma key_cmp_rank:
  assumes "key_ok k" and "kl_ok kl"
  shows "key_cmp k x (uint kl) = 0 \<longleftrightarrow> x = k_ikey0 k \<and> kl_rank kl = slot_rank (key_string k)"
    and "0 \<le> key_cmp k x (uint kl) \<longleftrightarrow>
      x < k_ikey0 k \<or> x = k_ikey0 k \<and> kl_rank kl \<le> slot_rank (key_string k)"
proof -
  let ?l = "length (key_string k)"
  have l: "k_len k = int ?l" by (rule key_len_string [OF assms(1)])
  obtain u where u: "uint kl = int u" "unat kl = u" by (metis uint_nat)
  have kl: "keylenx_is_layer kl \<and> 63 < u \<or> \<not> keylenx_is_layer kl \<and> u \<le> 9"
    using assms(2) u(2) by (auto simp: kl_ok_def keylenx_is_layer_def word_less_nat_alt word_le_nat_alt)
  have len: "key_compare_len k (uint kl) = 0 \<longleftrightarrow> kl_rank kl = slot_rank (key_string k)"
    "0 \<le> key_compare_len k (uint kl) \<longleftrightarrow> kl_rank kl \<le> slot_rank (key_string k)"
    using kl unfolding key_compare_len_def l u kl_rank_def slot_rank_def by (auto split: if_splits)
  show "key_cmp k x (uint kl) = 0 \<longleftrightarrow> x = k_ikey0 k \<and> kl_rank kl = slot_rank (key_string k)"
    and "0 \<le> key_cmp k x (uint kl) \<longleftrightarrow>
      x < k_ikey0 k \<or> x = k_ikey0 k \<and> kl_rank kl \<le> slot_rank (key_string k)"
    using len by (auto simp: key_cmp_split key_compare_ikey_def compare_def Let_def)
qed

text \<open>\<^verbatim>\<open>leafvalue_static\<close>: eight bytes of value, or a layer.\<close>

definition lvs_of_value :: "byte list \<Rightarrow> u64" where
  "lvs_of_value nv = u64_of_bytes (take 8 nv)"

definition lvs_of_layer :: "u64 \<Rightarrow> u64" where
  "lvs_of_layer p = p"

definition lvs_value :: "u64 \<Rightarrow> byte list" where
  "lvs_value x = bytes_of_u64 x"

definition lvs_layer :: "u64 \<Rightarrow> u64" where
  "lvs_layer x = x"

text \<open>\<^verbatim>\<open>leafvalue_static_multivalue\<close>: the header \<^verbatim>\<open>pos_offset\<close>, \<^verbatim>\<open>len\<close>, or a layer.\<close>

definition lvm_make :: "nat \<Rightarrow> nat \<Rightarrow> u64" where
  "lvm_make pos_offset len = u64_of_bytes (le_bytes 4 pos_offset @ le_bytes 4 len)"

definition lvm_value_pos_offset :: "u64 \<Rightarrow> nat" where
  "lvm_value_pos_offset x = le_nat (take 4 (bytes_of_u64 x))"

definition lvm_value_len :: "u64 \<Rightarrow> nat" where
  "lvm_value_len x = le_nat (drop 4 (bytes_of_u64 x))"

lemma lvs_value_of_value: "length nv = 8 \<Longrightarrow> lvs_value (lvs_of_value nv) = nv"
  by (simp add: lvs_value_def lvs_of_value_def bytes_of_u64_of_bytes)

lemma lvm_value_make:
  "lvm_value_pos_offset (lvm_make pos len) = pos mod 2 ^ 32"
  "lvm_value_len (lvm_make pos len) = len mod 2 ^ 32"
  by (simp_all add: lvm_value_pos_offset_def lvm_value_len_def lvm_make_def bytes_of_u64_of_bytes le_nat_le_bytes)

section \<open>\<^verbatim>\<open>massnode\<close>\<close>

record massnode =
  mn_nkeys :: nat
  mn_size :: nat
  mn_hasKsuf :: byte
  mn_mem :: "byte list"

definition sizeof_massnode :: nat where
  "sizeof_massnode = 16"

definition mn_make :: "(nat \<Rightarrow> byte) \<Rightarrow> nat \<Rightarrow> bool \<Rightarrow> nat \<Rightarrow> massnode" where
  "mn_make raw ksufSize has_ksuf nkeys =
     (let sz = (if has_ksuf
                then sizeof_massnode + 1 * nkeys + 8 * nkeys + 8 * nkeys + 4 * (nkeys + 1) + ksufSize
                else sizeof_massnode + 1 * nkeys + 8 * nkeys + 8 * nkeys)
      in \<lparr>mn_nkeys = nkeys mod 2 ^ 32, mn_size = sz mod 2 ^ 32,
          mn_hasKsuf = (if has_ksuf then 1 else 0), mn_mem = map raw [0..<sz]\<rparr>)"

definition mn_resize :: "(nat \<Rightarrow> byte) \<Rightarrow> massnode \<Rightarrow> nat \<Rightarrow> massnode" where
  "mn_resize raw n sz =
     n\<lparr>mn_mem := take sz (mn_mem n) @ map raw [length (mn_mem n)..<sz]\<rparr>"

definition mn_get_keylenx :: "massnode \<Rightarrow> nat" where
  "mn_get_keylenx n = sizeof_massnode"

definition mn_get_ikey0 :: "massnode \<Rightarrow> nat" where
  "mn_get_ikey0 n = sizeof_massnode + 1 * mn_nkeys n"

definition mn_get_lv :: "massnode \<Rightarrow> nat" where
  "mn_get_lv n = sizeof_massnode + 1 * mn_nkeys n + 8 * mn_nkeys n"

definition mn_get_ksuf_pos_offset :: "massnode \<Rightarrow> nat" where
  "mn_get_ksuf_pos_offset n = sizeof_massnode + 1 * mn_nkeys n + 8 * mn_nkeys n + 8 * mn_nkeys n"

definition mn_get_ksuf :: "massnode \<Rightarrow> nat" where
  "mn_get_ksuf n =
     (if mn_hasKsuf n = 1
      then sizeof_massnode + 1 * mn_nkeys n + 8 * mn_nkeys n + 8 * mn_nkeys n + 4 * (mn_nkeys n + 1)
      else sizeof_massnode + 1 * mn_nkeys n + 8 * mn_nkeys n + 8 * mn_nkeys n)"

definition mn_ikeylen :: "massnode \<Rightarrow> nat \<Rightarrow> byte" where
  "mn_ikeylen n p = rd8 (mn_mem n) (mn_get_keylenx n + p)"

definition mn_set_ikeylen :: "massnode \<Rightarrow> nat \<Rightarrow> byte \<Rightarrow> massnode" where
  "mn_set_ikeylen n p keylen = n\<lparr>mn_mem := wr8 (mn_mem n) (mn_get_keylenx n + p) keylen\<rparr>"

definition mn_ikey :: "massnode \<Rightarrow> nat \<Rightarrow> u64" where
  "mn_ikey n p = rd64 (mn_mem n) (mn_get_ikey0 n + 8 * p)"

definition mn_set_ikey :: "massnode \<Rightarrow> nat \<Rightarrow> u64 \<Rightarrow> massnode" where
  "mn_set_ikey n p ikey = n\<lparr>mn_mem := wr64 (mn_mem n) (mn_get_ikey0 n + 8 * p) ikey\<rparr>"

definition mn_lv :: "massnode \<Rightarrow> nat \<Rightarrow> u64" where
  "mn_lv n p = rd64 (mn_mem n) (mn_get_lv n + 8 * p)"

definition mn_set_lv :: "massnode \<Rightarrow> nat \<Rightarrow> u64 \<Rightarrow> massnode" where
  "mn_set_lv n p lv = n\<lparr>mn_mem := wr64 (mn_mem n) (mn_get_lv n + 8 * p) lv\<rparr>"

definition mn_invalidate :: "massnode \<Rightarrow> nat \<Rightarrow> massnode" where
  "mn_invalidate n p = mn_set_ikeylen n p 0"

definition mn_isValid :: "massnode \<Rightarrow> nat \<Rightarrow> bool" where
  "mn_isValid n p \<longleftrightarrow> mn_ikeylen n p \<noteq> 0"

definition mn_ksuf_offset :: "massnode \<Rightarrow> nat \<Rightarrow> nat" where
  "mn_ksuf_offset n p =
     (if mn_hasKsuf n = 1 then rd32 (mn_mem n) (mn_get_ksuf_pos_offset n + 4 * p) else 0)"

definition mn_set_ksuf_offset :: "massnode \<Rightarrow> nat \<Rightarrow> nat \<Rightarrow> massnode" where
  "mn_set_ksuf_offset n p offset =
     (if mn_hasKsuf n = 1
      then n\<lparr>mn_mem := wr32 (mn_mem n) (mn_get_ksuf_pos_offset n + 4 * p) offset\<rparr> else n)"

definition mn_ksuflen :: "massnode \<Rightarrow> nat \<Rightarrow> nat" where
  "mn_ksuflen n p =
     (if mn_hasKsuf n = 1
      then sub32 (rd32 (mn_mem n) (mn_get_ksuf_pos_offset n + 4 * (p + 1)))
                 (rd32 (mn_mem n) (mn_get_ksuf_pos_offset n + 4 * p)) else 0)"

definition mn_ksufpos :: "massnode \<Rightarrow> nat \<Rightarrow> nat" where
  "mn_ksufpos n p =
     (if mn_hasKsuf n = 1
      then mn_get_ksuf n + rd32 (mn_mem n) (mn_get_ksuf_pos_offset n + 4 * p)
      else mn_get_ksuf n)"

definition mn_has_ksuf :: "massnode \<Rightarrow> nat \<Rightarrow> bool" where
  "mn_has_ksuf n p \<longleftrightarrow>
     (if mn_hasKsuf n = 1
      then rd32 (mn_mem n) (mn_get_ksuf_pos_offset n + 4 * p) \<noteq> 0 else False)"

definition mn_ksuf :: "massnode \<Rightarrow> nat \<Rightarrow> byte list" where
  "mn_ksuf n p = peek (mn_mem n) (mn_ksufpos n p) (mn_ksuflen n p)"

definition mn_get_key :: "massnode \<Rightarrow> nat \<Rightarrow> mkey" where
  "mn_get_key n p =
     (let kl = mn_ikeylen n p in
      if \<not> keylenx_has_ksuf kl then key_of_ikey_len (mn_ikey n p) (uint kl)
      else key_of_ikey_suf (mn_ikey n p) (mem_of 0 (mn_mem n)) (int (mn_ksufpos n p)) (int (mn_ksuflen n p)))"

definition mn_equals_sloppy :: "massnode \<Rightarrow> nat \<Rightarrow> mkey \<Rightarrow> bool" where
  "mn_equals_sloppy n p ka =
     (if int (mn_ksuflen n p) \<noteq> snd (key_suffix ka) then False
      else slice_equals_sloppy (mem_of 0 (mn_mem n)) (int (mn_ksufpos n p))
             (k_mem ka) (fst (key_suffix ka)) (snd (key_suffix ka)))"

definition mn_ksuf_equals :: "massnode \<Rightarrow> nat \<Rightarrow> mkey \<Rightarrow> byte \<Rightarrow> bool" where
  "mn_ksuf_equals n p ka keylenx \<longleftrightarrow> \<not> keylenx_has_ksuf keylenx \<or> mn_equals_sloppy n p ka"

definition key_compare_mn :: "mkey \<Rightarrow> massnode \<Rightarrow> nat \<Rightarrow> int" where
  "key_compare_mn a b bp =
     (let cmp = key_compare_ikey a (mn_ikey b bp)
      in if cmp = 0 then key_compare_len a (uint (mn_ikeylen b bp)) else cmp)"

text \<open>The allocation holds the five arrays, and the suffix offsets stay inside it.\<close>

definition mn_block :: "massnode \<Rightarrow> bool" where
  "mn_block n \<longleftrightarrow> mn_get_ksuf n \<le> length (mn_mem n) \<and>
     (\<forall>p < mn_nkeys n. mn_ksuf_offset n p \<le> mn_ksuf_offset n (p + 1) \<and>
        mn_get_ksuf n + mn_ksuf_offset n (p + 1) \<le> length (mn_mem n))"

lemmas mn_offset_defs = mn_get_keylenx_def mn_get_ikey0_def mn_get_lv_def
  mn_get_ksuf_pos_offset_def mn_get_ksuf_def

lemmas mn_getter_defs = mn_ikeylen_def mn_ikey_def mn_lv_def mn_ksuf_offset_def
  mn_ksuflen_def mn_ksufpos_def mn_ksuf_def

lemmas mn_setter_defs = mn_set_ikeylen_def mn_set_ikey_def mn_set_lv_def mn_set_ksuf_offset_def

text \<open>Each array is written without touching the others.\<close>

lemma mn_set_ikeylen_laws:
  assumes "mn_get_ksuf n \<le> length (mn_mem n)" and "p < mn_nkeys n" and "q < mn_nkeys n"
  shows "mn_ikeylen (mn_set_ikeylen n p v) q = (if p = q then v else mn_ikeylen n q)"
    and "mn_ikey (mn_set_ikeylen n p v) q = mn_ikey n q"
    and "mn_lv (mn_set_ikeylen n p v) q = mn_lv n q"
    and "r \<le> mn_nkeys n \<Longrightarrow> mn_ksuf_offset (mn_set_ikeylen n p v) r = mn_ksuf_offset n r"
    and "mn_nkeys (mn_set_ikeylen n p v) = mn_nkeys n"
    and "mn_size (mn_set_ikeylen n p v) = mn_size n"
    and "mn_get_ksuf (mn_set_ikeylen n p v) = mn_get_ksuf n"
    and "length (mn_mem (mn_set_ikeylen n p v)) = length (mn_mem n)"
  using assms
  by (auto simp: mn_getter_defs mn_setter_defs mn_offset_defs layout_simps split: if_splits)

lemma mn_set_ikey_laws:
  assumes "mn_get_ksuf n \<le> length (mn_mem n)" and "p < mn_nkeys n" and "q < mn_nkeys n"
  shows "mn_ikeylen (mn_set_ikey n p x) q = mn_ikeylen n q"
    and "mn_ikey (mn_set_ikey n p x) q = (if p = q then x else mn_ikey n q)"
    and "mn_lv (mn_set_ikey n p x) q = mn_lv n q"
    and "r \<le> mn_nkeys n \<Longrightarrow> mn_ksuf_offset (mn_set_ikey n p x) r = mn_ksuf_offset n r"
    and "mn_nkeys (mn_set_ikey n p x) = mn_nkeys n"
    and "mn_size (mn_set_ikey n p x) = mn_size n"
    and "mn_get_ksuf (mn_set_ikey n p x) = mn_get_ksuf n"
    and "length (mn_mem (mn_set_ikey n p x)) = length (mn_mem n)"
  using assms
  by (auto simp: mn_getter_defs mn_setter_defs mn_offset_defs layout_simps split: if_splits)

lemma mn_set_lv_laws:
  assumes "mn_get_ksuf n \<le> length (mn_mem n)" and "p < mn_nkeys n" and "q < mn_nkeys n"
  shows "mn_ikeylen (mn_set_lv n p x) q = mn_ikeylen n q"
    and "mn_ikey (mn_set_lv n p x) q = mn_ikey n q"
    and "mn_lv (mn_set_lv n p x) q = (if p = q then x else mn_lv n q)"
    and "r \<le> mn_nkeys n \<Longrightarrow> mn_ksuf_offset (mn_set_lv n p x) r = mn_ksuf_offset n r"
    and "mn_nkeys (mn_set_lv n p x) = mn_nkeys n"
    and "mn_size (mn_set_lv n p x) = mn_size n"
    and "mn_get_ksuf (mn_set_lv n p x) = mn_get_ksuf n"
    and "length (mn_mem (mn_set_lv n p x)) = length (mn_mem n)"
  using assms
  by (auto simp: mn_getter_defs mn_setter_defs mn_offset_defs layout_simps split: if_splits)

lemma mn_set_ksuf_offset_laws:
  assumes "mn_get_ksuf n \<le> length (mn_mem n)" and "p \<le> mn_nkeys n" and "q < mn_nkeys n"
  shows "mn_ikeylen (mn_set_ksuf_offset n p z) q = mn_ikeylen n q"
    and "mn_ikey (mn_set_ksuf_offset n p z) q = mn_ikey n q"
    and "mn_lv (mn_set_ksuf_offset n p z) q = mn_lv n q"
    and "r \<le> mn_nkeys n \<Longrightarrow> mn_ksuf_offset (mn_set_ksuf_offset n p z) r = (if p = r then (if mn_hasKsuf n = 1 then z mod 2 ^ 32 else 0) else mn_ksuf_offset n r)"
    and "mn_nkeys (mn_set_ksuf_offset n p z) = mn_nkeys n"
    and "mn_size (mn_set_ksuf_offset n p z) = mn_size n"
    and "mn_get_ksuf (mn_set_ksuf_offset n p z) = mn_get_ksuf n"
    and "length (mn_mem (mn_set_ksuf_offset n p z)) = length (mn_mem n)"
  using assms
  by (auto simp: mn_getter_defs mn_setter_defs mn_offset_defs layout_simps split: if_splits)

lemma mn_ksuf_inside:
  assumes "mn_block n" and "p < mn_nkeys n"
  shows "mn_ksufpos n p + mn_ksuflen n p \<le> length (mn_mem n)"
    and "mn_get_ksuf n \<le> mn_ksufpos n p"
proof -
  have "mn_get_ksuf n + mn_ksuf_offset n (p + 1) \<le> length (mn_mem n)"
    and le: "mn_ksuf_offset n p \<le> mn_ksuf_offset n (p + 1)"
    and len: "mn_get_ksuf n \<le> length (mn_mem n)"
    using assms by (auto simp: mn_block_def)
  moreover have "mn_ksuflen n p = mn_ksuf_offset n (p + 1) - mn_ksuf_offset n p"
    using le len assms(2)
    by (auto simp: sub32_rd32 mn_ksuflen_def mn_ksuf_offset_def mn_offset_defs split: if_splits)
  moreover have "mn_ksufpos n p = mn_get_ksuf n + mn_ksuf_offset n p"
    by (simp add: mn_ksufpos_def mn_ksuf_offset_def)
  ultimately show "mn_ksufpos n p + mn_ksuflen n p \<le> length (mn_mem n)"
    and "mn_get_ksuf n \<le> mn_ksufpos n p" by linarith+
qed

lemma mn_ksuf_equals_iff:
  assumes "mn_block n" and "p < mn_nkeys n" and "key_ok k" and "8 \<le> k_len k"
  shows "mn_equals_sloppy n p k \<longleftrightarrow> mn_ksuf n p = drop 8 (key_string k)"
  unfolding mn_equals_sloppy_def mn_ksuf_def
  by (rule suffix_match) (use mn_ksuf_inside [OF assms(1,2)] assms(3,4) in auto)

lemma mn_ksuf_frame:
  assumes "mn_block n" and "p < mn_nkeys n" and "q < mn_nkeys n"
  shows "mn_ksuf (mn_set_ikeylen n p v) q = mn_ksuf n q"
    and "mn_ksuf (mn_set_lv n p x) q = mn_ksuf n q"
proof -
  have len: "mn_get_ksuf n \<le> length (mn_mem n)" using assms(1) by (simp add: mn_block_def)
  note inside = mn_ksuf_inside [OF assms(1,3)]
  have "mn_ksuflen (mn_set_ikeylen n p v) q = mn_ksuflen n q"
    "mn_ksufpos (mn_set_ikeylen n p v) q = mn_ksufpos n q"
    "mn_ksuflen (mn_set_lv n p x) q = mn_ksuflen n q"
    "mn_ksufpos (mn_set_lv n p x) q = mn_ksufpos n q"
    using len assms(2,3)
    by (auto simp: mn_getter_defs mn_setter_defs mn_offset_defs layout_simps split: if_splits)
  moreover have "peek (mn_mem (mn_set_ikeylen n p v)) (mn_ksufpos n q) (mn_ksuflen n q) =
      peek (mn_mem n) (mn_ksufpos n q) (mn_ksuflen n q)"
    using len assms(2) inside
    by (auto simp: mn_set_ikeylen_def wr8_def mn_offset_defs split: if_splits intro!: peek_poke_other)
  moreover have "peek (mn_mem (mn_set_lv n p x)) (mn_ksufpos n q) (mn_ksuflen n q) =
      peek (mn_mem n) (mn_ksufpos n q) (mn_ksuflen n q)"
    using len assms(2) inside
    by (auto simp: mn_set_lv_def wr64_def mn_offset_defs split: if_splits intro!: peek_poke_other)
  ultimately show "mn_ksuf (mn_set_ikeylen n p v) q = mn_ksuf n q"
    and "mn_ksuf (mn_set_lv n p x) q = mn_ksuf n q"
    by (simp_all add: mn_ksuf_def)
qed

lemma mn_block_set:
  assumes "mn_block n" and "p < mn_nkeys n"
  shows "mn_block (mn_set_ikeylen n p v)" and "mn_block (mn_set_lv n p x)"
proof -
  have len: "mn_get_ksuf n \<le> length (mn_mem n)" using assms(1) by (simp add: mn_block_def)
  note a = mn_set_ikeylen_laws [OF len assms(2) assms(2)] mn_set_lv_laws [OF len assms(2) assms(2)]
  show "mn_block (mn_set_ikeylen n p v)" and "mn_block (mn_set_lv n p x)"
    using assms(1) by (auto simp: mn_block_def a(4-8) a(12-16))
qed

section \<open>\<^verbatim>\<open>massnode_multivalue\<close>\<close>

record massnode_multivalue =
  mv_nkeys :: nat
  mv_size :: nat
  mv_vsize :: nat
  mv_mem :: "byte list"

definition sizeof_massnode_multivalue :: nat where
  "sizeof_massnode_multivalue = 16"

definition mv_make :: "(nat \<Rightarrow> byte) \<Rightarrow> nat \<Rightarrow> nat \<Rightarrow> nat \<Rightarrow> massnode_multivalue" where
  "mv_make raw ksufSize valueSize nkeys =
     (let sz = sizeof_massnode_multivalue + 1 * nkeys + 8 * nkeys + 8 * nkeys + valueSize + 4 * (nkeys + 1) + ksufSize
      in \<lparr>mv_nkeys = nkeys mod 2 ^ 32, mv_size = sz mod 2 ^ 32, mv_vsize = valueSize mod 2 ^ 32,
          mv_mem = map raw [0..<sz]\<rparr>)"

definition mv_resize :: "(nat \<Rightarrow> byte) \<Rightarrow> massnode_multivalue \<Rightarrow> nat \<Rightarrow> massnode_multivalue" where
  "mv_resize raw n sz =
     n\<lparr>mv_mem := take sz (mv_mem n) @ map raw [length (mv_mem n)..<sz]\<rparr>"

definition mv_get_keylenx :: "massnode_multivalue \<Rightarrow> nat" where
  "mv_get_keylenx n = sizeof_massnode_multivalue"

definition mv_get_ikey0 :: "massnode_multivalue \<Rightarrow> nat" where
  "mv_get_ikey0 n = sizeof_massnode_multivalue + 1 * mv_nkeys n"

definition mv_get_lv :: "massnode_multivalue \<Rightarrow> nat" where
  "mv_get_lv n = sizeof_massnode_multivalue + 1 * mv_nkeys n + 8 * mv_nkeys n"

definition mv_get_value :: "massnode_multivalue \<Rightarrow> nat" where
  "mv_get_value n = sizeof_massnode_multivalue + 1 * mv_nkeys n + 8 * mv_nkeys n + 8 * mv_nkeys n"

definition mv_get_ksuf_pos_offset :: "massnode_multivalue \<Rightarrow> nat" where
  "mv_get_ksuf_pos_offset n = sizeof_massnode_multivalue + 1 * mv_nkeys n + 8 * mv_nkeys n + 8 * mv_nkeys n + mv_vsize n"

definition mv_get_ksuf :: "massnode_multivalue \<Rightarrow> nat" where
  "mv_get_ksuf n =
     sizeof_massnode_multivalue + 1 * mv_nkeys n + 8 * mv_nkeys n + 8 * mv_nkeys n + mv_vsize n + 4 * (mv_nkeys n + 1)"

definition mv_ikeylen :: "massnode_multivalue \<Rightarrow> nat \<Rightarrow> byte" where
  "mv_ikeylen n p = rd8 (mv_mem n) (mv_get_keylenx n + p)"

definition mv_set_ikeylen :: "massnode_multivalue \<Rightarrow> nat \<Rightarrow> byte \<Rightarrow> massnode_multivalue" where
  "mv_set_ikeylen n p keylen = n\<lparr>mv_mem := wr8 (mv_mem n) (mv_get_keylenx n + p) keylen\<rparr>"

definition mv_ikey :: "massnode_multivalue \<Rightarrow> nat \<Rightarrow> u64" where
  "mv_ikey n p = rd64 (mv_mem n) (mv_get_ikey0 n + 8 * p)"

definition mv_set_ikey :: "massnode_multivalue \<Rightarrow> nat \<Rightarrow> u64 \<Rightarrow> massnode_multivalue" where
  "mv_set_ikey n p ikey = n\<lparr>mv_mem := wr64 (mv_mem n) (mv_get_ikey0 n + 8 * p) ikey\<rparr>"

definition mv_lv :: "massnode_multivalue \<Rightarrow> nat \<Rightarrow> u64" where
  "mv_lv n p = rd64 (mv_mem n) (mv_get_lv n + 8 * p)"

definition mv_set_lv :: "massnode_multivalue \<Rightarrow> nat \<Rightarrow> u64 \<Rightarrow> massnode_multivalue" where
  "mv_set_lv n p lv = n\<lparr>mv_mem := wr64 (mv_mem n) (mv_get_lv n + 8 * p) lv\<rparr>"

definition mv_valuelen :: "massnode_multivalue \<Rightarrow> nat \<Rightarrow> nat" where
  "mv_valuelen n p = lvm_value_len (mv_lv n p)"

definition mv_valuepos :: "massnode_multivalue \<Rightarrow> nat \<Rightarrow> nat" where
  "mv_valuepos n p = mv_get_value n + lvm_value_pos_offset (mv_lv n p)"

definition mv_value :: "massnode_multivalue \<Rightarrow> nat \<Rightarrow> byte list" where
  "mv_value n p = peek (mv_mem n) (mv_valuepos n p) (mv_valuelen n p)"

definition mv_invalidate :: "massnode_multivalue \<Rightarrow> nat \<Rightarrow> massnode_multivalue" where
  "mv_invalidate n p = mv_set_ikeylen n p 0"

definition mv_isValid :: "massnode_multivalue \<Rightarrow> nat \<Rightarrow> bool" where
  "mv_isValid n p \<longleftrightarrow> mv_ikeylen n p \<noteq> 0"

definition mv_ksuf_offset :: "massnode_multivalue \<Rightarrow> nat \<Rightarrow> nat" where
  "mv_ksuf_offset n p = rd32 (mv_mem n) (mv_get_ksuf_pos_offset n + 4 * p)"

definition mv_set_ksuf_offset :: "massnode_multivalue \<Rightarrow> nat \<Rightarrow> nat \<Rightarrow> massnode_multivalue" where
  "mv_set_ksuf_offset n p offset =
     n\<lparr>mv_mem := wr32 (mv_mem n) (mv_get_ksuf_pos_offset n + 4 * p) offset\<rparr>"

definition mv_ksuflen :: "massnode_multivalue \<Rightarrow> nat \<Rightarrow> nat" where
  "mv_ksuflen n p =
     sub32 (rd32 (mv_mem n) (mv_get_ksuf_pos_offset n + 4 * (p + 1)))
           (rd32 (mv_mem n) (mv_get_ksuf_pos_offset n + 4 * p))"

definition mv_ksufpos :: "massnode_multivalue \<Rightarrow> nat \<Rightarrow> nat" where
  "mv_ksufpos n p = mv_get_ksuf n + rd32 (mv_mem n) (mv_get_ksuf_pos_offset n + 4 * p)"

definition mv_has_ksuf :: "massnode_multivalue \<Rightarrow> nat \<Rightarrow> bool" where
  "mv_has_ksuf n p \<longleftrightarrow> rd32 (mv_mem n) (mv_get_ksuf_pos_offset n + 4 * p) \<noteq> 0"

definition mv_ksuf :: "massnode_multivalue \<Rightarrow> nat \<Rightarrow> byte list" where
  "mv_ksuf n p = peek (mv_mem n) (mv_ksufpos n p) (mv_ksuflen n p)"

definition mv_get_key :: "massnode_multivalue \<Rightarrow> nat \<Rightarrow> mkey" where
  "mv_get_key n p =
     (let kl = mv_ikeylen n p in
      if \<not> keylenx_has_ksuf kl then key_of_ikey_len (mv_ikey n p) (uint kl)
      else key_of_ikey_suf (mv_ikey n p) (mem_of 0 (mv_mem n)) (int (mv_ksufpos n p)) (int (mv_ksuflen n p)))"

definition mv_equals_sloppy :: "massnode_multivalue \<Rightarrow> nat \<Rightarrow> mkey \<Rightarrow> bool" where
  "mv_equals_sloppy n p ka =
     (if int (mv_ksuflen n p) \<noteq> snd (key_suffix ka) then False
      else slice_equals_sloppy (mem_of 0 (mv_mem n)) (int (mv_ksufpos n p))
             (k_mem ka) (fst (key_suffix ka)) (snd (key_suffix ka)))"

definition mv_ksuf_equals :: "massnode_multivalue \<Rightarrow> nat \<Rightarrow> mkey \<Rightarrow> byte \<Rightarrow> bool" where
  "mv_ksuf_equals n p ka keylenx \<longleftrightarrow> \<not> keylenx_has_ksuf keylenx \<or> mv_equals_sloppy n p ka"

text \<open>The result of \<^verbatim>\<open>compare_len\<close> is computed and dropped: the comparison sees the slice only.\<close>

definition key_compare_mv :: "mkey \<Rightarrow> massnode_multivalue \<Rightarrow> nat \<Rightarrow> int" where
  "key_compare_mv a b bp =
     (let cmp = key_compare_ikey a (mv_ikey b bp);
          ignored = (if cmp = 0 then key_compare_len a (uint (mv_ikeylen b bp)) else 0)
      in cmp)"

text \<open>The allocation holds the arrays, and the suffix offsets stay inside it.\<close>

definition mv_block :: "massnode_multivalue \<Rightarrow> bool" where
  "mv_block n \<longleftrightarrow> mv_get_ksuf n \<le> length (mv_mem n) \<and>
     (\<forall>p < mv_nkeys n. mv_ksuf_offset n p \<le> mv_ksuf_offset n (p + 1) \<and>
        mv_get_ksuf n + mv_ksuf_offset n (p + 1) \<le> length (mv_mem n))"

lemmas mv_offset_defs = mv_get_keylenx_def mv_get_ikey0_def mv_get_lv_def mv_get_value_def
  mv_get_ksuf_pos_offset_def mv_get_ksuf_def

lemmas mv_getter_defs = mv_ikeylen_def mv_ikey_def mv_lv_def mv_ksuf_offset_def
  mv_ksuflen_def mv_ksufpos_def mv_ksuf_def

lemmas mv_setter_defs = mv_set_ikeylen_def mv_set_ikey_def mv_set_lv_def mv_set_ksuf_offset_def

text \<open>Each array is written without touching the others.\<close>

lemma mv_set_ikeylen_laws:
  assumes "mv_get_ksuf n \<le> length (mv_mem n)" and "p < mv_nkeys n" and "q < mv_nkeys n"
  shows "mv_ikeylen (mv_set_ikeylen n p v) q = (if p = q then v else mv_ikeylen n q)"
    and "mv_ikey (mv_set_ikeylen n p v) q = mv_ikey n q"
    and "mv_lv (mv_set_ikeylen n p v) q = mv_lv n q"
    and "r \<le> mv_nkeys n \<Longrightarrow> mv_ksuf_offset (mv_set_ikeylen n p v) r = mv_ksuf_offset n r"
    and "mv_nkeys (mv_set_ikeylen n p v) = mv_nkeys n"
    and "mv_size (mv_set_ikeylen n p v) = mv_size n"
    and "mv_get_ksuf (mv_set_ikeylen n p v) = mv_get_ksuf n"
    and "length (mv_mem (mv_set_ikeylen n p v)) = length (mv_mem n)"
  using assms
  by (auto simp: mv_getter_defs mv_setter_defs mv_offset_defs layout_simps)

lemma mv_set_ikey_laws:
  assumes "mv_get_ksuf n \<le> length (mv_mem n)" and "p < mv_nkeys n" and "q < mv_nkeys n"
  shows "mv_ikeylen (mv_set_ikey n p x) q = mv_ikeylen n q"
    and "mv_ikey (mv_set_ikey n p x) q = (if p = q then x else mv_ikey n q)"
    and "mv_lv (mv_set_ikey n p x) q = mv_lv n q"
    and "r \<le> mv_nkeys n \<Longrightarrow> mv_ksuf_offset (mv_set_ikey n p x) r = mv_ksuf_offset n r"
    and "mv_nkeys (mv_set_ikey n p x) = mv_nkeys n"
    and "mv_size (mv_set_ikey n p x) = mv_size n"
    and "mv_get_ksuf (mv_set_ikey n p x) = mv_get_ksuf n"
    and "length (mv_mem (mv_set_ikey n p x)) = length (mv_mem n)"
  using assms
  by (auto simp: mv_getter_defs mv_setter_defs mv_offset_defs layout_simps)

lemma mv_set_lv_laws:
  assumes "mv_get_ksuf n \<le> length (mv_mem n)" and "p < mv_nkeys n" and "q < mv_nkeys n"
  shows "mv_ikeylen (mv_set_lv n p x) q = mv_ikeylen n q"
    and "mv_ikey (mv_set_lv n p x) q = mv_ikey n q"
    and "mv_lv (mv_set_lv n p x) q = (if p = q then x else mv_lv n q)"
    and "r \<le> mv_nkeys n \<Longrightarrow> mv_ksuf_offset (mv_set_lv n p x) r = mv_ksuf_offset n r"
    and "mv_nkeys (mv_set_lv n p x) = mv_nkeys n"
    and "mv_size (mv_set_lv n p x) = mv_size n"
    and "mv_get_ksuf (mv_set_lv n p x) = mv_get_ksuf n"
    and "length (mv_mem (mv_set_lv n p x)) = length (mv_mem n)"
  using assms
  by (auto simp: mv_getter_defs mv_setter_defs mv_offset_defs layout_simps)

lemma mv_set_ksuf_offset_laws:
  assumes "mv_get_ksuf n \<le> length (mv_mem n)" and "p \<le> mv_nkeys n" and "q < mv_nkeys n"
  shows "mv_ikeylen (mv_set_ksuf_offset n p z) q = mv_ikeylen n q"
    and "mv_ikey (mv_set_ksuf_offset n p z) q = mv_ikey n q"
    and "mv_lv (mv_set_ksuf_offset n p z) q = mv_lv n q"
    and "r \<le> mv_nkeys n \<Longrightarrow> mv_ksuf_offset (mv_set_ksuf_offset n p z) r = (if p = r then z mod 2 ^ 32 else mv_ksuf_offset n r)"
    and "mv_nkeys (mv_set_ksuf_offset n p z) = mv_nkeys n"
    and "mv_size (mv_set_ksuf_offset n p z) = mv_size n"
    and "mv_get_ksuf (mv_set_ksuf_offset n p z) = mv_get_ksuf n"
    and "length (mv_mem (mv_set_ksuf_offset n p z)) = length (mv_mem n)"
  using assms
  by (auto simp: mv_getter_defs mv_setter_defs mv_offset_defs layout_simps)

lemma mv_ksuf_inside:
  assumes "mv_block n" and "p < mv_nkeys n"
  shows "mv_ksufpos n p + mv_ksuflen n p \<le> length (mv_mem n)"
    and "mv_get_ksuf n \<le> mv_ksufpos n p"
proof -
  have "mv_get_ksuf n + mv_ksuf_offset n (p + 1) \<le> length (mv_mem n)"
    and le: "mv_ksuf_offset n p \<le> mv_ksuf_offset n (p + 1)"
    and len: "mv_get_ksuf n \<le> length (mv_mem n)"
    using assms by (auto simp: mv_block_def)
  moreover have "mv_ksuflen n p = mv_ksuf_offset n (p + 1) - mv_ksuf_offset n p"
    using le len assms(2)
    by (auto simp: sub32_rd32 mv_ksuflen_def mv_ksuf_offset_def mv_offset_defs)
  moreover have "mv_ksufpos n p = mv_get_ksuf n + mv_ksuf_offset n p"
    by (simp add: mv_ksufpos_def mv_ksuf_offset_def)
  ultimately show "mv_ksufpos n p + mv_ksuflen n p \<le> length (mv_mem n)"
    and "mv_get_ksuf n \<le> mv_ksufpos n p" by linarith+
qed

lemma mv_ksuf_equals_iff:
  assumes "mv_block n" and "p < mv_nkeys n" and "key_ok k" and "8 \<le> k_len k"
  shows "mv_equals_sloppy n p k \<longleftrightarrow> mv_ksuf n p = drop 8 (key_string k)"
  unfolding mv_equals_sloppy_def mv_ksuf_def
  by (rule suffix_match) (use mv_ksuf_inside [OF assms(1,2)] assms(3,4) in auto)

lemma mv_ksuf_frame:
  assumes "mv_block n" and "p < mv_nkeys n" and "q < mv_nkeys n"
  shows "mv_ksuf (mv_set_ikeylen n p v) q = mv_ksuf n q"
    and "mv_ksuf (mv_set_lv n p x) q = mv_ksuf n q"
proof -
  have len: "mv_get_ksuf n \<le> length (mv_mem n)" using assms(1) by (simp add: mv_block_def)
  note inside = mv_ksuf_inside [OF assms(1,3)]
  have "mv_ksuflen (mv_set_ikeylen n p v) q = mv_ksuflen n q"
    "mv_ksufpos (mv_set_ikeylen n p v) q = mv_ksufpos n q"
    "mv_ksuflen (mv_set_lv n p x) q = mv_ksuflen n q"
    "mv_ksufpos (mv_set_lv n p x) q = mv_ksufpos n q"
    using len assms(2,3)
    by (auto simp: mv_getter_defs mv_setter_defs mv_offset_defs layout_simps)
  moreover have "peek (mv_mem (mv_set_ikeylen n p v)) (mv_ksufpos n q) (mv_ksuflen n q) =
      peek (mv_mem n) (mv_ksufpos n q) (mv_ksuflen n q)"
    using len assms(2) inside
    by (auto simp: mv_set_ikeylen_def wr8_def mv_offset_defs intro!: peek_poke_other)
  moreover have "peek (mv_mem (mv_set_lv n p x)) (mv_ksufpos n q) (mv_ksuflen n q) =
      peek (mv_mem n) (mv_ksufpos n q) (mv_ksuflen n q)"
    using len assms(2) inside
    by (auto simp: mv_set_lv_def wr64_def mv_offset_defs intro!: peek_poke_other)
  ultimately show "mv_ksuf (mv_set_ikeylen n p v) q = mv_ksuf n q"
    and "mv_ksuf (mv_set_lv n p x) q = mv_ksuf n q"
    by (simp_all add: mv_ksuf_def)
qed

lemma mv_block_set:
  assumes "mv_block n" and "p < mv_nkeys n"
  shows "mv_block (mv_set_ikeylen n p v)" and "mv_block (mv_set_lv n p x)"
proof -
  have len: "mv_get_ksuf n \<le> length (mv_mem n)" using assms(1) by (simp add: mv_block_def)
  note a = mv_set_ikeylen_laws [OF len assms(2) assms(2)] mv_set_lv_laws [OF len assms(2) assms(2)]
  show "mv_block (mv_set_ikeylen n p v)" and "mv_block (mv_set_lv n p x)"
    using assms(1) by (auto simp: mv_block_def a(4-8) a(12-16))
qed

section \<open>\<^verbatim>\<open>massnode_dynamicvalue\<close>\<close>

record massnode_dynamicvalue =
  md_nkeys :: nat
  md_size :: nat
  md_mem :: "byte list"

definition sizeof_massnode_dynamicvalue :: nat where
  "sizeof_massnode_dynamicvalue = 12"

definition md_make :: "(nat \<Rightarrow> byte) \<Rightarrow> nat \<Rightarrow> nat \<Rightarrow> massnode_dynamicvalue" where
  "md_make raw ksufSize nkeys =
     (let sz = sizeof_massnode_dynamicvalue + 1 * nkeys + 8 * nkeys + 8 * nkeys + 4 * (nkeys + 1) + ksufSize
      in \<lparr>md_nkeys = nkeys mod 2 ^ 32, md_size = sz mod 2 ^ 32, md_mem = map raw [0..<sz]\<rparr>)"

definition md_resize :: "(nat \<Rightarrow> byte) \<Rightarrow> massnode_dynamicvalue \<Rightarrow> nat \<Rightarrow> massnode_dynamicvalue" where
  "md_resize raw n sz =
     n\<lparr>md_mem := take sz (md_mem n) @ map raw [length (md_mem n)..<sz]\<rparr>"

definition md_get_keylenx :: "massnode_dynamicvalue \<Rightarrow> nat" where
  "md_get_keylenx n = sizeof_massnode_dynamicvalue"

definition md_get_ikey0 :: "massnode_dynamicvalue \<Rightarrow> nat" where
  "md_get_ikey0 n = sizeof_massnode_dynamicvalue + 1 * md_nkeys n"

definition md_get_lv :: "massnode_dynamicvalue \<Rightarrow> nat" where
  "md_get_lv n = sizeof_massnode_dynamicvalue + 1 * md_nkeys n + 8 * md_nkeys n"

definition md_get_ksuf_pos_offset :: "massnode_dynamicvalue \<Rightarrow> nat" where
  "md_get_ksuf_pos_offset n = sizeof_massnode_dynamicvalue + 1 * md_nkeys n + 8 * md_nkeys n + 8 * md_nkeys n"

definition md_get_ksuf :: "massnode_dynamicvalue \<Rightarrow> nat" where
  "md_get_ksuf n =
     sizeof_massnode_dynamicvalue + 1 * md_nkeys n + 8 * md_nkeys n + 8 * md_nkeys n + 4 * (md_nkeys n + 1)"

definition md_ikeylen :: "massnode_dynamicvalue \<Rightarrow> nat \<Rightarrow> byte" where
  "md_ikeylen n p = rd8 (md_mem n) (md_get_keylenx n + p)"

definition md_set_ikeylen :: "massnode_dynamicvalue \<Rightarrow> nat \<Rightarrow> byte \<Rightarrow> massnode_dynamicvalue" where
  "md_set_ikeylen n p keylen = n\<lparr>md_mem := wr8 (md_mem n) (md_get_keylenx n + p) keylen\<rparr>"

definition md_ikey :: "massnode_dynamicvalue \<Rightarrow> nat \<Rightarrow> u64" where
  "md_ikey n p = rd64 (md_mem n) (md_get_ikey0 n + 8 * p)"

definition md_set_ikey :: "massnode_dynamicvalue \<Rightarrow> nat \<Rightarrow> u64 \<Rightarrow> massnode_dynamicvalue" where
  "md_set_ikey n p ikey = n\<lparr>md_mem := wr64 (md_mem n) (md_get_ikey0 n + 8 * p) ikey\<rparr>"

definition md_lv :: "massnode_dynamicvalue \<Rightarrow> nat \<Rightarrow> u64" where
  "md_lv n p = rd64 (md_mem n) (md_get_lv n + 8 * p)"

definition md_set_lv :: "massnode_dynamicvalue \<Rightarrow> nat \<Rightarrow> u64 \<Rightarrow> massnode_dynamicvalue" where
  "md_set_lv n p lv = n\<lparr>md_mem := wr64 (md_mem n) (md_get_lv n + 8 * p) lv\<rparr>"

definition md_invalidate :: "massnode_dynamicvalue \<Rightarrow> nat \<Rightarrow> massnode_dynamicvalue" where
  "md_invalidate n p = md_set_ikeylen n p 0"

definition md_isValid :: "massnode_dynamicvalue \<Rightarrow> nat \<Rightarrow> bool" where
  "md_isValid n p \<longleftrightarrow> md_ikeylen n p \<noteq> 0"

definition md_ksuf_offset :: "massnode_dynamicvalue \<Rightarrow> nat \<Rightarrow> nat" where
  "md_ksuf_offset n p = rd32 (md_mem n) (md_get_ksuf_pos_offset n + 4 * p)"

definition md_set_ksuf_offset :: "massnode_dynamicvalue \<Rightarrow> nat \<Rightarrow> nat \<Rightarrow> massnode_dynamicvalue" where
  "md_set_ksuf_offset n p offset =
     n\<lparr>md_mem := wr32 (md_mem n) (md_get_ksuf_pos_offset n + 4 * p) offset\<rparr>"

definition md_ksuflen :: "massnode_dynamicvalue \<Rightarrow> nat \<Rightarrow> nat" where
  "md_ksuflen n p =
     sub32 (rd32 (md_mem n) (md_get_ksuf_pos_offset n + 4 * (p + 1)))
           (rd32 (md_mem n) (md_get_ksuf_pos_offset n + 4 * p))"

definition md_ksufpos :: "massnode_dynamicvalue \<Rightarrow> nat \<Rightarrow> nat" where
  "md_ksufpos n p = md_get_ksuf n + rd32 (md_mem n) (md_get_ksuf_pos_offset n + 4 * p)"

definition md_has_ksuf :: "massnode_dynamicvalue \<Rightarrow> nat \<Rightarrow> bool" where
  "md_has_ksuf n p \<longleftrightarrow> rd32 (md_mem n) (md_get_ksuf_pos_offset n + 4 * p) \<noteq> 0"

definition md_ksuf :: "massnode_dynamicvalue \<Rightarrow> nat \<Rightarrow> byte list" where
  "md_ksuf n p = peek (md_mem n) (md_ksufpos n p) (md_ksuflen n p)"

definition md_get_key :: "massnode_dynamicvalue \<Rightarrow> nat \<Rightarrow> mkey" where
  "md_get_key n p =
     (let kl = md_ikeylen n p in
      if \<not> keylenx_has_ksuf kl then key_of_ikey_len (md_ikey n p) (uint kl)
      else key_of_ikey_suf (md_ikey n p) (mem_of 0 (md_mem n)) (int (md_ksufpos n p)) (int (md_ksuflen n p)))"

definition md_equals_sloppy :: "massnode_dynamicvalue \<Rightarrow> nat \<Rightarrow> mkey \<Rightarrow> bool" where
  "md_equals_sloppy n p ka =
     (if int (md_ksuflen n p) \<noteq> snd (key_suffix ka) then False
      else slice_equals_sloppy (mem_of 0 (md_mem n)) (int (md_ksufpos n p))
             (k_mem ka) (fst (key_suffix ka)) (snd (key_suffix ka)))"

definition md_ksuf_equals :: "massnode_dynamicvalue \<Rightarrow> nat \<Rightarrow> mkey \<Rightarrow> byte \<Rightarrow> bool" where
  "md_ksuf_equals n p ka keylenx \<longleftrightarrow> \<not> keylenx_has_ksuf keylenx \<or> md_equals_sloppy n p ka"

text \<open>The result of \<^verbatim>\<open>compare_len\<close> is computed and dropped: the comparison sees the slice only.\<close>

definition key_compare_md :: "mkey \<Rightarrow> massnode_dynamicvalue \<Rightarrow> nat \<Rightarrow> int" where
  "key_compare_md a b bp =
     (let cmp = key_compare_ikey a (md_ikey b bp);
          ignored = (if cmp = 0 then key_compare_len a (uint (md_ikeylen b bp)) else 0)
      in cmp)"

text \<open>The allocation holds the arrays, and the suffix offsets stay inside it.\<close>

definition md_block :: "massnode_dynamicvalue \<Rightarrow> bool" where
  "md_block n \<longleftrightarrow> md_get_ksuf n \<le> length (md_mem n) \<and>
     (\<forall>p < md_nkeys n. md_ksuf_offset n p \<le> md_ksuf_offset n (p + 1) \<and>
        md_get_ksuf n + md_ksuf_offset n (p + 1) \<le> length (md_mem n))"

lemmas md_offset_defs = md_get_keylenx_def md_get_ikey0_def md_get_lv_def
  md_get_ksuf_pos_offset_def md_get_ksuf_def

lemmas md_getter_defs = md_ikeylen_def md_ikey_def md_lv_def md_ksuf_offset_def
  md_ksuflen_def md_ksufpos_def md_ksuf_def

lemmas md_setter_defs = md_set_ikeylen_def md_set_ikey_def md_set_lv_def md_set_ksuf_offset_def

text \<open>Each array is written without touching the others.\<close>

lemma md_set_ikeylen_laws:
  assumes "md_get_ksuf n \<le> length (md_mem n)" and "p < md_nkeys n" and "q < md_nkeys n"
  shows "md_ikeylen (md_set_ikeylen n p v) q = (if p = q then v else md_ikeylen n q)"
    and "md_ikey (md_set_ikeylen n p v) q = md_ikey n q"
    and "md_lv (md_set_ikeylen n p v) q = md_lv n q"
    and "r \<le> md_nkeys n \<Longrightarrow> md_ksuf_offset (md_set_ikeylen n p v) r = md_ksuf_offset n r"
    and "md_nkeys (md_set_ikeylen n p v) = md_nkeys n"
    and "md_size (md_set_ikeylen n p v) = md_size n"
    and "md_get_ksuf (md_set_ikeylen n p v) = md_get_ksuf n"
    and "length (md_mem (md_set_ikeylen n p v)) = length (md_mem n)"
  using assms
  by (auto simp: md_getter_defs md_setter_defs md_offset_defs layout_simps)

lemma md_set_ikey_laws:
  assumes "md_get_ksuf n \<le> length (md_mem n)" and "p < md_nkeys n" and "q < md_nkeys n"
  shows "md_ikeylen (md_set_ikey n p x) q = md_ikeylen n q"
    and "md_ikey (md_set_ikey n p x) q = (if p = q then x else md_ikey n q)"
    and "md_lv (md_set_ikey n p x) q = md_lv n q"
    and "r \<le> md_nkeys n \<Longrightarrow> md_ksuf_offset (md_set_ikey n p x) r = md_ksuf_offset n r"
    and "md_nkeys (md_set_ikey n p x) = md_nkeys n"
    and "md_size (md_set_ikey n p x) = md_size n"
    and "md_get_ksuf (md_set_ikey n p x) = md_get_ksuf n"
    and "length (md_mem (md_set_ikey n p x)) = length (md_mem n)"
  using assms
  by (auto simp: md_getter_defs md_setter_defs md_offset_defs layout_simps)

lemma md_set_lv_laws:
  assumes "md_get_ksuf n \<le> length (md_mem n)" and "p < md_nkeys n" and "q < md_nkeys n"
  shows "md_ikeylen (md_set_lv n p x) q = md_ikeylen n q"
    and "md_ikey (md_set_lv n p x) q = md_ikey n q"
    and "md_lv (md_set_lv n p x) q = (if p = q then x else md_lv n q)"
    and "r \<le> md_nkeys n \<Longrightarrow> md_ksuf_offset (md_set_lv n p x) r = md_ksuf_offset n r"
    and "md_nkeys (md_set_lv n p x) = md_nkeys n"
    and "md_size (md_set_lv n p x) = md_size n"
    and "md_get_ksuf (md_set_lv n p x) = md_get_ksuf n"
    and "length (md_mem (md_set_lv n p x)) = length (md_mem n)"
  using assms
  by (auto simp: md_getter_defs md_setter_defs md_offset_defs layout_simps)

lemma md_set_ksuf_offset_laws:
  assumes "md_get_ksuf n \<le> length (md_mem n)" and "p \<le> md_nkeys n" and "q < md_nkeys n"
  shows "md_ikeylen (md_set_ksuf_offset n p z) q = md_ikeylen n q"
    and "md_ikey (md_set_ksuf_offset n p z) q = md_ikey n q"
    and "md_lv (md_set_ksuf_offset n p z) q = md_lv n q"
    and "r \<le> md_nkeys n \<Longrightarrow> md_ksuf_offset (md_set_ksuf_offset n p z) r = (if p = r then z mod 2 ^ 32 else md_ksuf_offset n r)"
    and "md_nkeys (md_set_ksuf_offset n p z) = md_nkeys n"
    and "md_size (md_set_ksuf_offset n p z) = md_size n"
    and "md_get_ksuf (md_set_ksuf_offset n p z) = md_get_ksuf n"
    and "length (md_mem (md_set_ksuf_offset n p z)) = length (md_mem n)"
  using assms
  by (auto simp: md_getter_defs md_setter_defs md_offset_defs layout_simps)

lemma md_ksuf_inside:
  assumes "md_block n" and "p < md_nkeys n"
  shows "md_ksufpos n p + md_ksuflen n p \<le> length (md_mem n)"
    and "md_get_ksuf n \<le> md_ksufpos n p"
proof -
  have "md_get_ksuf n + md_ksuf_offset n (p + 1) \<le> length (md_mem n)"
    and le: "md_ksuf_offset n p \<le> md_ksuf_offset n (p + 1)"
    and len: "md_get_ksuf n \<le> length (md_mem n)"
    using assms by (auto simp: md_block_def)
  moreover have "md_ksuflen n p = md_ksuf_offset n (p + 1) - md_ksuf_offset n p"
    using le len assms(2)
    by (auto simp: sub32_rd32 md_ksuflen_def md_ksuf_offset_def md_offset_defs)
  moreover have "md_ksufpos n p = md_get_ksuf n + md_ksuf_offset n p"
    by (simp add: md_ksufpos_def md_ksuf_offset_def)
  ultimately show "md_ksufpos n p + md_ksuflen n p \<le> length (md_mem n)"
    and "md_get_ksuf n \<le> md_ksufpos n p" by linarith+
qed

lemma md_ksuf_equals_iff:
  assumes "md_block n" and "p < md_nkeys n" and "key_ok k" and "8 \<le> k_len k"
  shows "md_equals_sloppy n p k \<longleftrightarrow> md_ksuf n p = drop 8 (key_string k)"
  unfolding md_equals_sloppy_def md_ksuf_def
  by (rule suffix_match) (use md_ksuf_inside [OF assms(1,2)] assms(3,4) in auto)

lemma md_ksuf_frame:
  assumes "md_block n" and "p < md_nkeys n" and "q < md_nkeys n"
  shows "md_ksuf (md_set_ikeylen n p v) q = md_ksuf n q"
    and "md_ksuf (md_set_lv n p x) q = md_ksuf n q"
proof -
  have len: "md_get_ksuf n \<le> length (md_mem n)" using assms(1) by (simp add: md_block_def)
  note inside = md_ksuf_inside [OF assms(1,3)]
  have "md_ksuflen (md_set_ikeylen n p v) q = md_ksuflen n q"
    "md_ksufpos (md_set_ikeylen n p v) q = md_ksufpos n q"
    "md_ksuflen (md_set_lv n p x) q = md_ksuflen n q"
    "md_ksufpos (md_set_lv n p x) q = md_ksufpos n q"
    using len assms(2,3)
    by (auto simp: md_getter_defs md_setter_defs md_offset_defs layout_simps)
  moreover have "peek (md_mem (md_set_ikeylen n p v)) (md_ksufpos n q) (md_ksuflen n q) =
      peek (md_mem n) (md_ksufpos n q) (md_ksuflen n q)"
    using len assms(2) inside
    by (auto simp: md_set_ikeylen_def wr8_def md_offset_defs intro!: peek_poke_other)
  moreover have "peek (md_mem (md_set_lv n p x)) (md_ksufpos n q) (md_ksuflen n q) =
      peek (md_mem n) (md_ksufpos n q) (md_ksuflen n q)"
    using len assms(2) inside
    by (auto simp: md_set_lv_def wr64_def md_offset_defs intro!: peek_poke_other)
  ultimately show "md_ksuf (md_set_ikeylen n p v) q = md_ksuf n q"
    and "md_ksuf (md_set_lv n p x) q = md_ksuf n q"
    by (simp_all add: md_ksuf_def)
qed

lemma md_block_set:
  assumes "md_block n" and "p < md_nkeys n"
  shows "md_block (md_set_ikeylen n p v)" and "md_block (md_set_lv n p x)"
proof -
  have len: "md_get_ksuf n \<le> length (md_mem n)" using assms(1) by (simp add: md_block_def)
  note a = md_set_ikeylen_laws [OF len assms(2) assms(2)] md_set_lv_laws [OF len assms(2) assms(2)]
  show "md_block (md_set_ikeylen n p v)" and "md_block (md_set_lv n p x)"
    using assms(1) by (auto simp: md_block_def a(4-8) a(12-16))
qed

end
