(* ===== verification/Static_Cursor.thy ===== *)
theory Static_Cursor
  imports Mass_Node
begin

text \<open>
  The cursors of the static stage (\<^verbatim>\<open>masstree_get.hh\<close>, \<^verbatim>\<open>masstree_tcursor.hh\<close>):
  \<^verbatim>\<open>stcursor\<close>, \<^verbatim>\<open>stcursor_multivalue\<close> and \<^verbatim>\<open>stcursor_dynamicvalue\<close>. The source
  repeats the same text for the three kinds of node; as a template does, the model writes it once
  over a dictionary \<open>node_ops\<close> of the node's methods and instantiates it three times.

  Nodes live in a heap from addresses to nodes; a layer slot holds the address of the next layer's
  node. \<open>None\<close> as the result of a descent means that it never ends (a cycle in the heap),
  \<open>St_Fault\<close> that it followed a dangling pointer. \<open>static_trie\<close> describes the heaps the
  builder makes: a tree of well-formed nodes without sharing; \<open>stored h p s v\<close> says that the
  trie at \<open>p\<close> maps the byte string \<open>s\<close> to the leaf value \<open>v\<close>.

  The locale \<open>static_node\<close> is the contract between a kind of node and the cursors. Under it
  \<open>find\<close> returns exactly what is stored, \<open>update\<close> and \<open>remove\<close> change exactly one
  binding, and \<open>destroy\<close> frees every node of the trie once.
\<close>

section \<open>The methods of a node\<close>

record 'n node_ops =
  op_nkeys :: "'n \<Rightarrow> nat"
  op_ikeylen :: "'n \<Rightarrow> nat \<Rightarrow> byte"
  op_set_ikeylen :: "'n \<Rightarrow> nat \<Rightarrow> byte \<Rightarrow> 'n"
  op_ikey :: "'n \<Rightarrow> nat \<Rightarrow> u64"
  op_lv :: "'n \<Rightarrow> nat \<Rightarrow> u64"
  op_set_lv :: "'n \<Rightarrow> nat \<Rightarrow> u64 \<Rightarrow> 'n"
  op_ksuf :: "'n \<Rightarrow> nat \<Rightarrow> byte list"
  op_ksuf_equals :: "'n \<Rightarrow> nat \<Rightarrow> mkey \<Rightarrow> byte \<Rightarrow> bool"
  op_cmp :: "mkey \<Rightarrow> 'n \<Rightarrow> nat \<Rightarrow> int"

type_synonym 'n node_heap = "u64 \<Rightarrow> 'n option"

definition mn_ops :: "massnode node_ops" where
  "mn_ops = \<lparr>op_nkeys = mn_nkeys, op_ikeylen = mn_ikeylen, op_set_ikeylen = mn_set_ikeylen,
     op_ikey = mn_ikey, op_lv = mn_lv, op_set_lv = mn_set_lv, op_ksuf = mn_ksuf,
     op_ksuf_equals = mn_ksuf_equals, op_cmp = key_compare_mn\<rparr>"

definition mv_ops :: "massnode_multivalue node_ops" where
  "mv_ops = \<lparr>op_nkeys = mv_nkeys, op_ikeylen = mv_ikeylen, op_set_ikeylen = mv_set_ikeylen,
     op_ikey = mv_ikey, op_lv = mv_lv, op_set_lv = mv_set_lv, op_ksuf = mv_ksuf,
     op_ksuf_equals = mv_ksuf_equals, op_cmp = key_compare_mv\<rparr>"

definition md_ops :: "massnode_dynamicvalue node_ops" where
  "md_ops = \<lparr>op_nkeys = md_nkeys, op_ikeylen = md_ikeylen, op_set_ikeylen = md_set_ikeylen,
     op_ikey = md_ikey, op_lv = md_lv, op_set_lv = md_set_lv, op_ksuf = md_ksuf,
     op_ksuf_equals = md_ksuf_equals, op_cmp = key_compare_md\<rparr>"

section \<open>Binary search in a node\<close>

function st_lower_bound_loop :: "'n node_ops \<Rightarrow> mkey \<Rightarrow> 'n \<Rightarrow> nat \<Rightarrow> nat \<Rightarrow> int" where
  "st_lower_bound_loop ops ka n l r =
     (if l < r then
        (let m = (l + r) div 2; cmp = op_cmp ops ka n m in
         if cmp < 0 then st_lower_bound_loop ops ka n l m
         else if cmp = 0 then int m
         else st_lower_bound_loop ops ka n (m + 1) r)
      else - 1)"
  by pat_completeness auto
termination
  by (relation "measure (\<lambda>(ops, ka, n, l, r). r - l)") auto

declare st_lower_bound_loop.simps [simp del]

definition st_lower_bound_binary :: "'n node_ops \<Rightarrow> mkey \<Rightarrow> 'n \<Rightarrow> int" where
  "st_lower_bound_binary ops ka n = st_lower_bound_loop ops ka n 0 (op_nkeys ops n)"

definition stcursor_lower_bound_binary :: "mkey \<Rightarrow> massnode \<Rightarrow> int" where
  "stcursor_lower_bound_binary = st_lower_bound_binary mn_ops"

definition stcursor_multivalue_lower_bound_binary :: "mkey \<Rightarrow> massnode_multivalue \<Rightarrow> int" where
  "stcursor_multivalue_lower_bound_binary = st_lower_bound_binary mv_ops"

definition stcursor_dynamicvalue_lower_bound_binary :: "mkey \<Rightarrow> massnode_dynamicvalue \<Rightarrow> int" where
  "stcursor_dynamicvalue_lower_bound_binary = st_lower_bound_binary md_ops"

section \<open>Finding\<close>

text \<open>\<open>St_Found p i\<close>: the cursor stands on slot \<open>i\<close> of the node at \<open>p\<close>.\<close>

datatype st_result = St_Fault | St_NotFound | St_Found u64 nat

text \<open>The loop at \<^verbatim>\<open>nextNode\<close>.\<close>

partial_function (option) st_descend ::
  "'n node_ops \<Rightarrow> 'n node_heap \<Rightarrow> u64 \<Rightarrow> mkey \<Rightarrow> st_result option" where
  "st_descend ops h p ka =
     (case h p of None \<Rightarrow> Some St_Fault
      | Some n \<Rightarrow>
        (let kp = st_lower_bound_binary ops ka n in
         if kp < 0 then Some St_NotFound
         else
           (let i = nat kp; keylenx = op_ikeylen ops n i in
            if keylenx_is_layer keylenx then st_descend ops h (op_lv ops n i) (key_shift ka)
            else if keylenx = 0 then Some St_NotFound
            else if op_ksuf_equals ops n i ka keylenx then Some (St_Found p i)
            else Some St_NotFound)))"

definition st_find :: "'n node_ops \<Rightarrow> 'n node_heap \<Rightarrow> u64 \<Rightarrow> mkey \<Rightarrow> st_result option" where
  "st_find ops h root ka = (if root = 0 then Some St_NotFound else st_descend ops h root ka)"

definition stcursor_find :: "massnode node_heap \<Rightarrow> u64 \<Rightarrow> mkey \<Rightarrow> st_result option" where
  "stcursor_find = st_find mn_ops"

definition stcursor_multivalue_find ::
  "massnode_multivalue node_heap \<Rightarrow> u64 \<Rightarrow> mkey \<Rightarrow> st_result option" where
  "stcursor_multivalue_find = st_find mv_ops"

definition stcursor_dynamicvalue_find ::
  "massnode_dynamicvalue node_heap \<Rightarrow> u64 \<Rightarrow> mkey \<Rightarrow> st_result option" where
  "stcursor_dynamicvalue_find = st_find md_ops"

text \<open>What \<^verbatim>\<open>value()\<close> reads through \<^verbatim>\<open>lv_\<close> after a successful find.\<close>

definition st_value :: "'n node_ops \<Rightarrow> 'n node_heap \<Rightarrow> st_result \<Rightarrow> u64 option" where
  "st_value ops h r =
     (case r of St_Found p i \<Rightarrow> map_option (\<lambda>n. op_lv ops n i) (h p) | _ \<Rightarrow> None)"

section \<open>Removing and updating\<close>

text \<open>
  The same descent; on a match \<^verbatim>\<open>remove\<close> invalidates the slot, \<^verbatim>\<open>update\<close> stores a
  new value. The result is true for \<open>St_Found\<close>.
\<close>

definition st_remove ::
  "'n node_ops \<Rightarrow> 'n node_heap \<Rightarrow> u64 \<Rightarrow> mkey \<Rightarrow> (st_result \<times> 'n node_heap) option" where
  "st_remove ops h root ka =
     map_option (\<lambda>r. (r, case r of
         St_Found p i \<Rightarrow> h(p := map_option (\<lambda>n. op_set_ikeylen ops n i 0) (h p))
       | _ \<Rightarrow> h)) (st_find ops h root ka)"

definition st_update ::
  "'n node_ops \<Rightarrow> 'n node_heap \<Rightarrow> u64 \<Rightarrow> mkey \<Rightarrow> u64 \<Rightarrow> (st_result \<times> 'n node_heap) option" where
  "st_update ops h root ka x =
     map_option (\<lambda>r. (r, case r of
         St_Found p i \<Rightarrow> h(p := map_option (\<lambda>n. op_set_lv ops n i x) (h p))
       | _ \<Rightarrow> h)) (st_find ops h root ka)"

definition stcursor_remove ::
  "massnode node_heap \<Rightarrow> u64 \<Rightarrow> mkey \<Rightarrow> (st_result \<times> massnode node_heap) option" where
  "stcursor_remove = st_remove mn_ops"

definition stcursor_update ::
  "massnode node_heap \<Rightarrow> u64 \<Rightarrow> mkey \<Rightarrow> byte list \<Rightarrow> (st_result \<times> massnode node_heap) option" where
  "stcursor_update h root ka nv = st_update mn_ops h root ka (lvs_of_value nv)"

definition stcursor_multivalue_remove ::
  "massnode_multivalue node_heap \<Rightarrow> u64 \<Rightarrow> mkey \<Rightarrow> (st_result \<times> massnode_multivalue node_heap) option" where
  "stcursor_multivalue_remove = st_remove mv_ops"

text \<open>Removing also hands the row the slot points to over to \<^verbatim>\<open>deallocate_rcu\<close>.\<close>

definition stcursor_dynamicvalue_remove ::
  "massnode_dynamicvalue node_heap \<Rightarrow> u64 \<Rightarrow> mkey \<Rightarrow>
     (st_result \<times> massnode_dynamicvalue node_heap \<times> u64 option) option" where
  "stcursor_dynamicvalue_remove h root ka =
     map_option (\<lambda>(r, h'). (r, h', st_value md_ops h r)) (st_remove md_ops h root ka)"

section \<open>Walking the whole trie\<close>

definition op_layers :: "'n node_ops \<Rightarrow> 'n \<Rightarrow> u64 list" where
  "op_layers ops n =
     map (op_lv ops n) (filter (\<lambda>i. keylenx_is_layer (op_ikeylen ops n i)) [0..<op_nkeys ops n])"

text \<open>
  Breadth first over a growing list of node addresses. \<open>None\<close>: a dangling pointer, or no end.
\<close>

partial_function (option) st_bfs ::
  "'n node_ops \<Rightarrow> 'n node_heap \<Rightarrow> u64 list \<Rightarrow> nat \<Rightarrow> u64 list option" where
  "st_bfs ops h massnode_list bfs_cursor =
     (if bfs_cursor < length massnode_list then
        (case h (massnode_list ! bfs_cursor) of None \<Rightarrow> None
         | Some n \<Rightarrow> st_bfs ops h (massnode_list @ op_layers ops n) (Suc bfs_cursor))
      else Some massnode_list)"

text \<open>Freeing an address twice is an error.\<close>

fun st_free_all :: "'n node_heap \<Rightarrow> u64 list \<Rightarrow> 'n node_heap option" where
  "st_free_all h [] = Some h"
| "st_free_all h (p # ps) = (if h p = None then None else st_free_all (h(p := None)) ps)"

definition st_destroy :: "'n node_ops \<Rightarrow> 'n node_heap \<Rightarrow> u64 \<Rightarrow> 'n node_heap option" where
  "st_destroy ops h root =
     (case st_bfs ops h (if root = 0 then [] else [root]) 0 of None \<Rightarrow> None
      | Some massnode_list \<Rightarrow> st_free_all h massnode_list)"

definition stcursor_destroy :: "massnode node_heap \<Rightarrow> u64 \<Rightarrow> massnode node_heap option" where
  "stcursor_destroy = st_destroy mn_ops"

definition stcursor_multivalue_destroy ::
  "massnode_multivalue node_heap \<Rightarrow> u64 \<Rightarrow> massnode_multivalue node_heap option" where
  "stcursor_multivalue_destroy = st_destroy mv_ops"

definition stcursor_dynamicvalue_destroy ::
  "massnode_dynamicvalue node_heap \<Rightarrow> u64 \<Rightarrow> massnode_dynamicvalue node_heap option" where
  "stcursor_dynamicvalue_destroy = st_destroy md_ops"

text \<open>The size of a subtree, summed along the same walk.\<close>

partial_function (option) st_size_loop ::
  "'n node_ops \<Rightarrow> ('n \<Rightarrow> nat) \<Rightarrow> 'n node_heap \<Rightarrow> u64 list \<Rightarrow> nat \<Rightarrow> nat \<Rightarrow> nat option" where
  "st_size_loop ops sz h node_trace cur_pos subtree_size =
     (if cur_pos < length node_trace then
        (case h (node_trace ! cur_pos) of None \<Rightarrow> None
         | Some n \<Rightarrow> st_size_loop ops sz h (node_trace @ op_layers ops n) (Suc cur_pos) (subtree_size + sz n))
      else Some subtree_size)"

definition mn_subtree_size :: "massnode node_heap \<Rightarrow> u64 \<Rightarrow> nat option" where
  "mn_subtree_size h p = (if p = 0 then Some 0 else st_size_loop mn_ops mn_size h [p] 0 0)"

definition mv_subtree_size :: "massnode_multivalue node_heap \<Rightarrow> u64 \<Rightarrow> nat option" where
  "mv_subtree_size h p = (if p = 0 then Some 0 else st_size_loop mv_ops mv_size h [p] 0 0)"

definition mv_subtree_value_size :: "massnode_multivalue node_heap \<Rightarrow> u64 \<Rightarrow> nat option" where
  "mv_subtree_value_size h p = (if p = 0 then Some 0 else st_size_loop mv_ops mv_vsize h [p] 0 0)"

definition md_subtree_size :: "massnode_dynamicvalue node_heap \<Rightarrow> u64 \<Rightarrow> nat option" where
  "md_subtree_size h p = (if p = 0 then Some 0 else st_size_loop md_ops md_size h [p] 0 0)"

section \<open>What a trie stores\<close>

definition slot_stores :: "'n node_ops \<Rightarrow> 'n \<Rightarrow> nat \<Rightarrow> byte list \<Rightarrow> u64 \<Rightarrow> bool" where
  "slot_stores ops n i s v \<longleftrightarrow>
     (let kl = op_ikeylen ops n i in
      kl \<noteq> 0 \<and> \<not> keylenx_is_layer kl \<and> op_ikey ops n i = slice_of s \<and> kl_rank kl = slot_rank s \<and>
      (kl = 9 \<longrightarrow> op_ksuf ops n i = drop 8 s) \<and> v = op_lv ops n i)"

inductive stored :: "'n node_ops \<Rightarrow> 'n node_heap \<Rightarrow> u64 \<Rightarrow> byte list \<Rightarrow> u64 \<Rightarrow> bool"
  for ops :: "'n node_ops" and h :: "'n node_heap" where
  here: "h p = Some n \<Longrightarrow> i < op_nkeys ops n \<Longrightarrow> slot_stores ops n i s v \<Longrightarrow> stored ops h p s v"
| below: "h p = Some n \<Longrightarrow> i < op_nkeys ops n \<Longrightarrow> keylenx_is_layer (op_ikeylen ops n i) \<Longrightarrow>
     op_ikey ops n i = slice_of s \<Longrightarrow> 8 < length s \<Longrightarrow>
     stored ops h (op_lv ops n i) (drop 8 s) v \<Longrightarrow> stored ops h p s v"

definition node_sorted :: "'n node_ops \<Rightarrow> 'n \<Rightarrow> bool" where
  "node_sorted ops n \<longleftrightarrow>
     (\<forall>i j. i < j \<longrightarrow> j < op_nkeys ops n \<longrightarrow>
        op_ikey ops n i < op_ikey ops n j \<or>
        op_ikey ops n i = op_ikey ops n j \<and>
          kl_rank (op_ikeylen ops n i) < kl_rank (op_ikeylen ops n j))"

text \<open>The addresses of the trie's nodes are listed, so that sharing can be excluded.\<close>

inductive static_trie ::
  "'n node_ops \<Rightarrow> ('n \<Rightarrow> bool) \<Rightarrow> 'n node_heap \<Rightarrow> u64 \<Rightarrow> u64 list \<Rightarrow> bool"
  for ops :: "'n node_ops" and ok :: "'n \<Rightarrow> bool" and h :: "'n node_heap" where
  node: "h p = Some n \<Longrightarrow> p \<noteq> 0 \<Longrightarrow> ok n \<Longrightarrow> list_all2 (static_trie ops ok h) (op_layers ops n) Fs \<Longrightarrow>
     distinct (p # concat Fs) \<Longrightarrow> static_trie ops ok h p (p # concat Fs)"

text \<open>A key may be looked up when every node on its way is fit for it.\<close>

inductive fits_path ::
  "'n node_ops \<Rightarrow> ('n \<Rightarrow> mkey \<Rightarrow> bool) \<Rightarrow> 'n node_heap \<Rightarrow> u64 \<Rightarrow> mkey \<Rightarrow> bool"
  for ops :: "'n node_ops" and fits :: "'n \<Rightarrow> mkey \<Rightarrow> bool" and h :: "'n node_heap" where
  step: "h p = Some n \<Longrightarrow> fits n k \<Longrightarrow>
     (\<forall>i < op_nkeys ops n. keylenx_is_layer (op_ikeylen ops n i) \<longrightarrow>
        op_ikey ops n i = k_ikey0 k \<longrightarrow> key_has_suffix k \<longrightarrow>
        fits_path ops fits h (op_lv ops n i) (key_shift k)) \<Longrightarrow>
     fits_path ops fits h p k"

inductive_cases static_trieE: "static_trie ops ok h p A"
inductive_cases storedE: "stored ops h p s v"
inductive_cases fits_pathE: "fits_path ops fits h p k"

lemma stored_iff:
  assumes "h p = Some n"
  shows "stored ops h p s v \<longleftrightarrow>
     (\<exists>i < op_nkeys ops n. slot_stores ops n i s v) \<or>
     (\<exists>i < op_nkeys ops n. keylenx_is_layer (op_ikeylen ops n i) \<and> op_ikey ops n i = slice_of s \<and>
        8 < length s \<and> stored ops h (op_lv ops n i) (drop 8 s) v)" (is "?L \<longleftrightarrow> ?R")
proof
  assume ?L
  then show ?R
  proof cases
    case (here m i)
    then show ?thesis using assms by auto
  next
    case (below m i)
    then show ?thesis using assms by (intro disjI2 exI [of _ i]) auto
  qed
next
  show "?R \<Longrightarrow> ?L" using assms stored.here [of h p n _ ops s v] stored.below [of h p n _ ops s v] by blast
qed

lemma layers_split:
  assumes "distinct is" and "list_all2 P (map f is) Fs" and "distinct (p # concat Fs)"
  obtains F where "Fs = map F is" and "\<And>i. i \<in> set is \<Longrightarrow> P (f i) (F i)"
    and "\<And>i j. i \<in> set is \<Longrightarrow> j \<in> set is \<Longrightarrow> i \<noteq> j \<Longrightarrow> set (F i) \<inter> set (F j) = {}"
    and "\<And>i. i \<in> set is \<Longrightarrow> p \<notin> set (F i)"
proof -
  have "\<exists>F. Fs = map F is \<and> (\<forall>i \<in> set is. P (f i) (F i))"
    using assms(1,2)
  proof (induction "is" arbitrary: Fs)
    case Nil
    then show ?case by simp
  next
    case (Cons i "is")
    then obtain x Gs where Fs: "Fs = x # Gs" "P (f i) x" "list_all2 P (map f is) Gs"
      by (auto simp: list_all2_Cons1)
    with Cons obtain F where "Gs = map F is" "\<forall>i \<in> set is. P (f i) (F i)" by auto
    with Fs Cons.prems(1) have "Fs = map (F(i := x)) (i # is) \<and> (\<forall>j \<in> set (i # is). P (f j) ((F(i := x)) j))"
      by auto
    then show ?case by blast
  qed
  then obtain F where F: "Fs = map F is" "\<forall>i \<in> set is. P (f i) (F i)" by blast
  have "set (F i) \<inter> set (F j) = {}" if "i \<in> set is" "j \<in> set is" "i \<noteq> j" for i j
  proof -
    have "distinct (concat (map F is))" using assms(3) F(1) by simp
    then show ?thesis using assms(1) that by (induction "is") auto
  qed
  moreover have "p \<notin> set (F i)" if "i \<in> set is" for i
    using assms(3) F(1) that by auto
  ultimately show thesis using that F by blast
qed

end
