(* ===== verification/Static_Trie.thy ===== *)
theory Static_Trie
  imports Static_Cursor "HOL-Library.Multiset"
begin

text \<open>
  The contract between a kind of static node and the cursors of \<open>Static_Cursor\<close>, and what the
  cursors guarantee under it. \<open>node_ok\<close> is a node's invariant, \<open>fits n k\<close> that the node's
  comparator tells the key \<open>k\<close> from every slot of \<open>n\<close>. The contract extends that of a
  searchable node, so the binary search is the one proved in \<open>Ksearch\<close>.

  Under it \<open>find\<close> returns exactly what is stored; \<open>update\<close> replaces one binding; \<open>remove\<close>
  deletes one binding, provided the slot is the first of those that share its slice (otherwise
  the invalidated slot breaks the order of the node, see \<open>remove_breaks_order\<close>); and the walk
  over the trie visits each node once.
\<close>

section \<open>The contract\<close>

text \<open>A slot no other slot of the same slice stands before.\<close>

definition first_of_slice :: "'n node_ops \<Rightarrow> 'n \<Rightarrow> nat \<Rightarrow> bool" where
  "first_of_slice ops n i \<longleftrightarrow> i = 0 \<or> op_ikey ops n (i - 1) \<noteq> op_ikey ops n i"

locale static_node =
  fixes ops :: "'n node_ops"
    and node_ok :: "'n \<Rightarrow> bool"
    and fits :: "'n \<Rightarrow> mkey \<Rightarrow> bool"
  assumes sorted: "node_ok n \<Longrightarrow> node_sorted ops n"
    and cmp_less: "node_ok n \<Longrightarrow> key_ok k \<Longrightarrow> fits n k \<Longrightarrow> i < j \<Longrightarrow> j < op_nkeys ops n \<Longrightarrow>
      0 \<le> op_cmp ops k n j \<Longrightarrow> 0 < op_cmp ops k n i"
    and cmp_zero: "node_ok n \<Longrightarrow> key_ok k \<Longrightarrow> fits n k \<Longrightarrow> i < op_nkeys ops n \<Longrightarrow>
      op_cmp ops k n i = 0 \<longleftrightarrow>
        op_ikey ops n i = slice_of (key_string k) \<and> kl_rank (op_ikeylen ops n i) = slot_rank (key_string k)"
    and ksuf_short: "kl \<noteq> 9 \<Longrightarrow> op_ksuf_equals ops n i k kl"
    and ksuf_long: "node_ok n \<Longrightarrow> key_ok k \<Longrightarrow> i < op_nkeys ops n \<Longrightarrow> 8 < k_len k \<Longrightarrow>
      op_ksuf_equals ops n i k 9 \<longleftrightarrow> op_ksuf ops n i = drop 8 (key_string k)"
    and set_lv: "node_ok n \<Longrightarrow> i < op_nkeys ops n \<Longrightarrow> j < op_nkeys ops n \<Longrightarrow>
      op_ikeylen ops (op_set_lv ops n i x) j = op_ikeylen ops n j \<and>
      op_ikey ops (op_set_lv ops n i x) j = op_ikey ops n j \<and>
      op_lv ops (op_set_lv ops n i x) j = (if j = i then x else op_lv ops n j) \<and>
      op_ksuf ops (op_set_lv ops n i x) j = op_ksuf ops n j \<and>
      op_nkeys ops (op_set_lv ops n i x) = op_nkeys ops n"
    and set_ikeylen: "node_ok n \<Longrightarrow> i < op_nkeys ops n \<Longrightarrow> j < op_nkeys ops n \<Longrightarrow>
      op_ikeylen ops (op_set_ikeylen ops n i kl) j = (if j = i then kl else op_ikeylen ops n j) \<and>
      op_ikey ops (op_set_ikeylen ops n i kl) j = op_ikey ops n j \<and>
      op_lv ops (op_set_ikeylen ops n i kl) j = op_lv ops n j \<and>
      op_ksuf ops (op_set_ikeylen ops n i kl) j = op_ksuf ops n j \<and>
      op_nkeys ops (op_set_ikeylen ops n i kl) = op_nkeys ops n"
    and ok_set_lv: "node_ok n \<Longrightarrow> i < op_nkeys ops n \<Longrightarrow> node_ok (op_set_lv ops n i x)"
    and ok_invalidate: "node_ok n \<Longrightarrow> i < op_nkeys ops n \<Longrightarrow>
      first_of_slice ops n i \<Longrightarrow> node_ok (op_set_ikeylen ops n i 0)"

sublocale static_node \<subseteq> nodes: searchable_node
  "\<lambda>k n. node_ok n \<and> key_ok k \<and> fits n k" "\<lambda>n. [0..<op_nkeys ops n]" "op_cmp ops"
  by unfold_locales (use cmp_less in auto)

context static_node
begin

subsection \<open>The search in a node\<close>

lemma lower_bound_loop:
  "r \<le> op_nkeys ops n \<Longrightarrow> st_lower_bound_loop ops k n l r =
     snd (key_lower_bound_with_position_loop (op_cmp ops k n) [0..<op_nkeys ops n] l r)"
proof (induction ops k n l r rule: st_lower_bound_loop.induct)
  case (1 ops k n l r)
  have "(l + r) div 2 < op_nkeys ops n" if "l < r" using that "1.prems" by auto
  with 1 show ?case
    by (subst st_lower_bound_loop.simps, subst key_lower_bound_with_position_loop.simps) (auto simp: Let_def)
qed

text \<open>The search finds the one slot with the key's slice and rank, or none.\<close>

lemma lower_bound_binary:
  assumes "node_ok n" and "key_ok k" and "fits n k"
  shows "st_lower_bound_binary ops k n = - 1 \<and>
           (\<forall>i < op_nkeys ops n. \<not> (op_ikey ops n i = slice_of (key_string k) \<and>
              kl_rank (op_ikeylen ops n i) = slot_rank (key_string k))) \<or>
         (\<exists>i < op_nkeys ops n. st_lower_bound_binary ops k n = int i \<and>
            op_ikey ops n i = slice_of (key_string k) \<and>
            kl_rank (op_ikeylen ops n i) = slot_rank (key_string k))"
proof -
  let ?c = "op_cmp ops k n" and ?p = "[0..<op_nkeys ops n]"
  have ok: "node_ok n \<and> key_ok k \<and> fits n k" using assms by simp
  obtain b where b: "is_lower ?c ?p b" using nodes.lower_bound_spec [OF ok] by blast
  have eq: "st_lower_bound_binary ops k n = match_at ?c ?p b"
    using nodes.with_position_spec [OF ok b]
    by (simp add: st_lower_bound_binary_def lower_bound_loop key_lower_bound_with_position_by_def)
  show ?thesis
  proof (cases "b < op_nkeys ops n \<and> ?c b = 0")
    case True
    then show ?thesis using cmp_zero [OF assms] by (auto simp: eq match_at_def)
  next
    case False
    have "?c i \<noteq> 0" if "i < op_nkeys ops n" for i
    proof (cases rule: linorder_cases [of i b])
      case less
      then have "0 < ?c i" using b that by (auto simp: is_lower_def)
      then show ?thesis by simp
    next
      case equal
      then show ?thesis using False that by auto
    next
      case greater
      moreover have "?c b \<le> 0" using b greater that by (auto simp: is_lower_def)
      ultimately show ?thesis using cmp_less [OF assms greater that] by linarith
    qed
    then show ?thesis using cmp_zero [OF assms] False by (auto simp: eq match_at_def)
  qed
qed

lemma slot_unique:
  assumes "node_ok n" "i < op_nkeys ops n" "j < op_nkeys ops n" "op_ikey ops n i = op_ikey ops n j"
    "kl_rank (op_ikeylen ops n i) = kl_rank (op_ikeylen ops n j)"
  shows "i = j"
  using sorted [OF assms(1)] assms(2-) unfolding node_sorted_def
  by (metis less_irrefl linorder_neqE_nat)

lemma stored_slot:
  assumes "node_ok n" "h p = Some n" "i < op_nkeys ops n" "op_ikey ops n i = slice_of s"
    "kl_rank (op_ikeylen ops n i) = slot_rank s"
  shows "stored ops h p s v \<longleftrightarrow>
     (if keylenx_is_layer (op_ikeylen ops n i) then stored ops h (op_lv ops n i) (drop 8 s) v
      else slot_stores ops n i s v)"
proof -
  have u: "j = i" if "j < op_nkeys ops n" "slot_stores ops n j s w" for j w
    using slot_unique [OF assms(1) that(1) assms(3)] that(2) assms(4,5)
    by (simp add: slot_stores_def Let_def)
  have l: "j = i" if "j < op_nkeys ops n" "keylenx_is_layer (op_ikeylen ops n j)"
      "op_ikey ops n j = slice_of s" "8 < length s" for j
    using slot_unique [OF assms(1) that(1) assms(3)] that(2-) assms(4,5)
    by (simp add: kl_rank_def slot_rank_def)
  have len: "8 < length s" if "keylenx_is_layer (op_ikeylen ops n i)"
    using assms(5) that by (simp add: kl_rank_def slot_rank_def min_def split: if_splits)
  have nl: "\<not> slot_stores ops n i s v" if "keylenx_is_layer (op_ikeylen ops n i)"
    using that by (simp add: slot_stores_def Let_def)
  show ?thesis
  proof (cases "keylenx_is_layer (op_ikeylen ops n i)")
    case True
    then show ?thesis
      unfolding stored_iff [of h p n, OF assms(2)] if_P [OF True]
      using u l len nl assms(3,4) by metis
  next
    case False
    then show ?thesis
      unfolding stored_iff [of h p n, OF assms(2)] if_not_P [OF False]
      using u l assms(3) by metis
  qed
qed

lemma stored_no_slot:
  assumes "node_ok n" "h p = Some n" "\<forall>i < op_nkeys ops n. \<not> (op_ikey ops n i = slice_of s \<and>
     kl_rank (op_ikeylen ops n i) = slot_rank s)"
  shows "\<not> stored ops h p s v"
  unfolding stored_iff [of h p n, OF assms(2)]
  using assms(3) by (auto simp: slot_stores_def Let_def kl_rank_def slot_rank_def min_def split: if_splits)

subsection \<open>Finding\<close>

lemma ksuf_equals_stores:
  assumes "node_ok n" "key_ok k" "i < op_nkeys ops n" "op_ikey ops n i = slice_of (key_string k)"
    "kl_rank (op_ikeylen ops n i) = slot_rank (key_string k)"
    "\<not> keylenx_is_layer (op_ikeylen ops n i)" "op_ikeylen ops n i \<noteq> 0"
  shows "slot_stores ops n i (key_string k) v \<longleftrightarrow>
     op_ksuf_equals ops n i k (op_ikeylen ops n i) \<and> v = op_lv ops n i"
proof (cases "op_ikeylen ops n i = 9")
  case True
  then have "8 < k_len k"
    using assms(5,6) key_len_string [OF assms(2)]
    by (simp add: kl_rank_def slot_rank_def min_def split: if_splits)
  with ksuf_long [OF assms(1-3)] True assms show ?thesis
    by (auto simp: slot_stores_def Let_def)
next
  case False
  with ksuf_short [OF False] assms show ?thesis by (auto simp: slot_stores_def Let_def)
qed

lemma descend_correct:
  assumes "static_trie ops node_ok h p A" and "key_ok k" and "fits_path ops fits h p k"
  shows "st_descend ops h p k = Some St_NotFound \<and> (\<forall>v. \<not> stored ops h p (key_string k) v) \<or>
    (\<exists>q i n. st_descend ops h p k = Some (St_Found q i) \<and> q \<in> set A \<and> h q = Some n \<and>
       i < op_nkeys ops n \<and> (\<forall>v. stored ops h p (key_string k) v \<longleftrightarrow> v = op_lv ops n i))"
  using assms
proof (induction arbitrary: k)
  case (node p n Fs)
  let ?s = "key_string k" and ?kp = "st_lower_bound_binary ops k n"
  have fit: "fits n k" using node.prems(2) node.hyps(1) by (auto elim: fits_pathE)
  note step = st_descend.simps [of ops h p k]
  from lower_bound_binary [OF node.hyps(3) node.prems(1) fit] show ?case
  proof (elim disjE exE conjE)
    assume "?kp = - 1"
      "\<forall>i<op_nkeys ops n. \<not> (op_ikey ops n i = slice_of ?s \<and> kl_rank (op_ikeylen ops n i) = slot_rank ?s)"
    then show ?thesis
      using stored_no_slot [of n h p, OF node.hyps(3,1)] node.hyps(1) by (simp add: step Let_def)
  next
    fix i
    assume i: "i < op_nkeys ops n" and kp: "?kp = int i" and slot: "op_ikey ops n i = slice_of ?s"
      "kl_rank (op_ikeylen ops n i) = slot_rank ?s"
    note st = stored_slot [of n h p i ?s, OF node.hyps(3,1) i slot]
    show ?thesis
    proof (cases "keylenx_is_layer (op_ikeylen ops n i)")
      case False
      show ?thesis
      proof (cases "op_ikeylen ops n i = 0")
        case True
        with False st kp node.hyps(1) show ?thesis
          by (simp add: step Let_def slot_stores_def)
      next
        case nz: False
        note eq = ksuf_equals_stores [OF node.hyps(3) node.prems(1) i slot False nz]
        have "st_descend ops h p k =
            Some (if op_ksuf_equals ops n i k (op_ikeylen ops n i) then St_Found p i else St_NotFound)"
          using False nz kp node.hyps(1) by (simp add: step)
        with False st eq i node.hyps(1) show ?thesis by auto
      qed
    next
      case True
      have len: "8 < length ?s" using slot(2) True by (simp add: kl_rank_def slot_rank_def min_def split: if_splits)
      then have suf: "key_has_suffix k" using key_len_string [OF node.prems(1)] by (simp add: key_has_suffix_def)
      have "op_lv ops n i \<in> set (op_layers ops n)" using i True by (auto simp: op_layers_def)
      then obtain a where a: "a < length (op_layers ops n)" "op_layers ops n ! a = op_lv ops n i"
        by (auto simp: in_set_conv_nth)
      note IH = conjunct2 [OF list_all2_nthD [OF node.IH a(1)], unfolded a(2), rule_format]
      have F: "Fs ! a \<in> set Fs" using a(1) list_all2_lengthD [OF node.IH] by simp
      have "fits_path ops fits h (op_lv ops n i) (key_shift k)"
        using node.prems node.hyps(1) i True slot(1) suf by (auto elim!: fits_pathE simp: key_ok_def)
      note IH [OF key_ok_shift [OF suf] this]
      moreover have "st_descend ops h p k = st_descend ops h (op_lv ops n i) (key_shift k)"
        using True kp node.hyps(1) by (simp add: step)
      ultimately show ?thesis
        using st True F by (auto simp: key_string_shift [OF suf])
    qed
  qed
qed

lemma found_cases:
  assumes "node_ok n" "h p = Some n" "key_ok k" "fits_path ops fits h p k"
    "st_descend ops h p k = Some (St_Found q i)"
  obtains (here) "q = p" "i < op_nkeys ops n" "slot_stores ops n i (key_string k) (op_lv ops n i)"
  | (below) j where "j < op_nkeys ops n" "keylenx_is_layer (op_ikeylen ops n j)"
      "op_ikey ops n j = slice_of (key_string k)" "key_has_suffix k"
      "fits_path ops fits h (op_lv ops n j) (key_shift k)"
      "st_descend ops h (op_lv ops n j) (key_shift k) = Some (St_Found q i)"
proof -
  let ?s = "key_string k" and ?kp = "st_lower_bound_binary ops k n"
  have fit: "fits n k" using assms(2,4) by (auto elim: fits_pathE)
  note step = assms(5) [unfolded st_descend.simps [of ops h p k]]
  from lower_bound_binary [OF assms(1,3) fit] show thesis
  proof (elim disjE exE conjE)
    assume "?kp = - 1"
    with step assms(2) show thesis by (simp add: Let_def)
  next
    fix j
    assume j: "j < op_nkeys ops n" and kp: "?kp = int j" and slot: "op_ikey ops n j = slice_of ?s"
      "kl_rank (op_ikeylen ops n j) = slot_rank ?s"
    show thesis
    proof (cases "keylenx_is_layer (op_ikeylen ops n j)")
      case True
      then have "8 < length ?s" using slot(2) by (simp add: kl_rank_def slot_rank_def min_def split: if_splits)
      then have "key_has_suffix k" using key_len_string [OF assms(3)] by (simp add: key_has_suffix_def)
      moreover from this have "fits_path ops fits h (op_lv ops n j) (key_shift k)"
        using assms(2-4) j True slot(1) by (auto elim!: fits_pathE simp: key_ok_def)
      ultimately show thesis using step assms(2) kp True j slot(1) by (intro below) auto
    next
      case False
      with step kp assms(2) have "op_ikeylen ops n j \<noteq> 0" "op_ksuf_equals ops n j k (op_ikeylen ops n j)"
        "q = p" "i = j" by (auto simp: Let_def split: if_splits)
      then show thesis
        using ksuf_equals_stores [OF assms(1,3) j slot False] j by (intro here) auto
    qed
  qed
qed

text \<open>The value read after a find is the value stored, and there is none otherwise.\<close>

lemma find_correct:
  assumes "static_trie ops node_ok h p A" "key_ok k" "fits_path ops fits h p k"
  shows "\<exists>r. st_find ops h p k = Some r \<and> r \<noteq> St_Fault \<and>
    (\<forall>v. st_value ops h r = Some v \<longleftrightarrow> stored ops h p (key_string k) v)"
proof -
  have "p \<noteq> 0" using assms(1) by (auto elim: static_trieE)
  then show ?thesis
    using descend_correct [OF assms] by (auto simp: st_find_def st_value_def)
qed

lemma stored_functional:
  assumes "static_trie ops node_ok h p A" "key_ok k" "fits_path ops fits h p k"
    "stored ops h p (key_string k) v" "stored ops h p (key_string k) w"
  shows "v = w"
  using descend_correct [OF assms(1-3)] assms(4,5) by auto

lemma fits_all:
  "static_trie ops node_ok h p A \<Longrightarrow> fits_path ops (\<lambda>_ _. True) h p k"
proof (induction arbitrary: k rule: static_trie.induct)
  case (node p n Fs k)
  have "\<forall>i<op_nkeys ops n. keylenx_is_layer (op_ikeylen ops n i) \<longrightarrow> op_ikey ops n i = k_ikey0 k \<longrightarrow>
        key_has_suffix k \<longrightarrow> fits_path ops (\<lambda>_ _. True) h (op_lv ops n i) (key_shift k)"
  proof (intro allI impI)
      fix i
      assume "i < op_nkeys ops n" "keylenx_is_layer (op_ikeylen ops n i)"
      then have "op_lv ops n i \<in> set (op_layers ops n)" by (auto simp: op_layers_def)
      then obtain a where "a < length (op_layers ops n)" "op_layers ops n ! a = op_lv ops n i"
        by (auto simp: in_set_conv_nth)
      then show "fits_path ops (\<lambda>_ _. True) h (op_lv ops n i) (key_shift k)"
        using list_all2_nthD [OF node.IH] by metis
  qed
  with node.hyps(1) show ?case by (intro fits_path.step [of h p n]) auto
qed

subsection \<open>Changing one node\<close>

lemma trie_split:
  assumes "list_all2 P (op_layers ops n) Fs" and "distinct (p # concat Fs)"
  obtains F where "Fs = map F (filter (\<lambda>i. keylenx_is_layer (op_ikeylen ops n i)) [0..<op_nkeys ops n])"
    and "\<And>i. i < op_nkeys ops n \<Longrightarrow> keylenx_is_layer (op_ikeylen ops n i) \<Longrightarrow> P (op_lv ops n i) (F i)"
    and "\<And>i j. i < op_nkeys ops n \<Longrightarrow> keylenx_is_layer (op_ikeylen ops n i) \<Longrightarrow>
      j < op_nkeys ops n \<Longrightarrow> keylenx_is_layer (op_ikeylen ops n j) \<Longrightarrow> i \<noteq> j \<Longrightarrow> set (F i) \<inter> set (F j) = {}"
    and "\<And>i. i < op_nkeys ops n \<Longrightarrow> keylenx_is_layer (op_ikeylen ops n i) \<Longrightarrow> p \<notin> set (F i)"
proof -
  let ?is = "filter (\<lambda>i. keylenx_is_layer (op_ikeylen ops n i)) [0..<op_nkeys ops n]"
  have "distinct ?is" by simp
  from this assms [unfolded op_layers_def] show thesis
  proof (rule layers_split)
    fix F
    assume "Fs = map F ?is" "\<And>i. i \<in> set ?is \<Longrightarrow> P (op_lv ops n i) (F i)"
      "\<And>i j. i \<in> set ?is \<Longrightarrow> j \<in> set ?is \<Longrightarrow> i \<noteq> j \<Longrightarrow> set (F i) \<inter> set (F j) = {}"
      "\<And>i. i \<in> set ?is \<Longrightarrow> p \<notin> set (F i)"
    then show thesis by (intro that [of F]) auto
  qed
qed

lemma static_trie_frame:
  "static_trie ops node_ok h p A \<Longrightarrow> \<forall>q \<in> set A. h' q = h q \<Longrightarrow>
     static_trie ops node_ok h' p A \<and> (\<forall>s v. stored ops h' p s v \<longleftrightarrow> stored ops h p s v)"
proof (induction rule: static_trie.induct)
  case (node p n Fs)
  have h': "h' p = Some n" using node.prems node.hyps(1) by simp
  have IH: "list_all2 (\<lambda>q F. static_trie ops node_ok h' q F \<and>
      (\<forall>s v. stored ops h' q s v \<longleftrightarrow> stored ops h q s v)) (op_layers ops n) Fs"
    unfolding list_all2_conv_all_nth
  proof (intro conjI allI impI)
    show "length (op_layers ops n) = length Fs" using node.IH by (rule list_all2_lengthD)
    fix a
    assume a: "a < length (op_layers ops n)"
    then have "set (Fs ! a) \<subseteq> set (p # concat Fs)"
      using list_all2_lengthD [OF node.IH] by auto
    then show "static_trie ops node_ok h' (op_layers ops n ! a) (Fs ! a)"
      "stored ops h' (op_layers ops n ! a) s v \<longleftrightarrow> stored ops h (op_layers ops n ! a) s v" for s v
      using list_all2_nthD [OF node.IH a] node.prems by blast+
  qed
  have "static_trie ops node_ok h' p (p # concat Fs)"
    using h' node.hyps(2,3) list_all2_mono [OF IH] node.hyps(4)
    by (auto intro: static_trie.node)
  moreover have sub: "stored ops h' (op_lv ops n i) s v \<longleftrightarrow> stored ops h (op_lv ops n i) s v"
    if "i < op_nkeys ops n" "keylenx_is_layer (op_ikeylen ops n i)" for i s v
    by (rule trie_split [OF IH node.hyps(4)]) (use that in blast)
  have "stored ops h' p s v \<longleftrightarrow> stored ops h p s v" for s v
    unfolding stored_iff [of h' p n, OF h'] stored_iff [of h p n, OF node.hyps(1)]
    by (simp add: sub cong: conj_cong)
  ultimately show ?case by blast
qed

lemma trie_dom:
  "static_trie ops node_ok h p A \<Longrightarrow> q \<in> set A \<Longrightarrow> \<exists>n. h q = Some n \<and> node_ok n"
proof (induction rule: static_trie.induct)
  case (node p n Fs)
  show ?case
  proof (cases "q = p")
    case False
    with node.prems obtain F where "F \<in> set Fs" "q \<in> set F" by auto
    then obtain a where "a < length Fs" "q \<in> set (Fs ! a)" by (metis in_set_conv_nth)
    then show ?thesis using list_all2_nthD2 [OF node.IH] by blast
  qed (use node.hyps in auto)
qed

text \<open>
  Replacing the node found by one that differs only in what its slots store for the key, all
  bindings but the key's stay.
\<close>

lemma modify:
  assumes "static_trie ops node_ok h p A" "key_ok k" "fits_path ops fits h p k"
    "st_descend ops h p k = Some (St_Found q i)" and n: "h q = Some n"
    and ok: "node_ok n'" and nk: "op_nkeys ops n' = op_nkeys ops n"
    and lay: "\<And>j. \<not> keylenx_is_layer (op_ikeylen ops n i) \<Longrightarrow> i < op_nkeys ops n \<Longrightarrow> j < op_nkeys ops n \<Longrightarrow>
      keylenx_is_layer (op_ikeylen ops n' j) = keylenx_is_layer (op_ikeylen ops n j) \<and>
      (keylenx_is_layer (op_ikeylen ops n j) \<longrightarrow>
         op_ikey ops n' j = op_ikey ops n j \<and> op_lv ops n' j = op_lv ops n j)"
    and ch: "\<And>r t w. i < op_nkeys ops n \<Longrightarrow> slot_stores ops n i r (op_lv ops n i) \<Longrightarrow>
      (\<exists>j < op_nkeys ops n. slot_stores ops n' j t w) \<longleftrightarrow>
        (if t = r then g w else \<exists>j < op_nkeys ops n. slot_stores ops n j t w)"
  shows "static_trie ops node_ok (h(q \<mapsto> n')) p A \<and>
    (\<forall>t w. stored ops (h(q \<mapsto> n')) p t w \<longleftrightarrow> (if t = key_string k then g w else stored ops h p t w))"
  using assms(1-4)
proof (induction arbitrary: k)
  case (node p m Fs)
  let ?h = "h(q \<mapsto> n')" and ?s = "key_string k"
  have IH1: "list_all2 (static_trie ops node_ok h) (op_layers ops m) Fs"
    by (rule list_all2_mono [OF node.IH]) blast
  have trie: "static_trie ops node_ok h p (p # concat Fs)"
    by (rule static_trie.node [OF node.hyps(1-3) IH1 node.hyps(4)])
  have same: "static_trie ops node_ok ?h r F \<and> (\<forall>s v. stored ops ?h r s v \<longleftrightarrow> stored ops h r s v)"
    if "static_trie ops node_ok h r F" "q \<notin> set F" for r F
    using static_trie_frame [OF that(1), of ?h] that(2) by auto
  from node.hyps(3,1) node.prems show ?case
  proof (cases rule: found_cases)
    case here
    then have m: "m = n" using n node.hyps(1) by simp
    have lay: "keylenx_is_layer (op_ikeylen ops n' j) = keylenx_is_layer (op_ikeylen ops n j) \<and>
        (keylenx_is_layer (op_ikeylen ops n j) \<longrightarrow>
           op_ikey ops n' j = op_ikey ops n j \<and> op_lv ops n' j = op_lv ops n j)"
      if "j < op_nkeys ops n" for j
      using lay [of j] that here(2,3) by (simp add: m slot_stores_def Let_def)
    have hp: "?h p = Some n'" using here(1) by simp
    have "q \<notin> set F" if "F \<in> set Fs" for F using node.hyps(4) here(1) that by auto
    then have IH2: "list_all2 (\<lambda>r F. static_trie ops node_ok ?h r F \<and>
        (\<forall>s v. stored ops ?h r s v \<longleftrightarrow> stored ops h r s v)) (op_layers ops m) Fs"
      by (intro list.rel_mono_strong [OF IH1] same) auto
    have lays: "op_layers ops n' = op_layers ops m"
      using lay by (auto simp: op_layers_def nk m intro!: map_cong filter_cong)
    have "static_trie ops node_ok ?h p (p # concat Fs)"
      using hp node.hyps(2) ok list_all2_mono [OF IH2] node.hyps(4)
      by (auto intro!: static_trie.node simp: lays)
    moreover have sub: "stored ops ?h (op_lv ops m j) t w \<longleftrightarrow> stored ops h (op_lv ops m j) t w"
      if "j < op_nkeys ops m" "keylenx_is_layer (op_ikeylen ops m j)" for j t w
      by (rule trie_split [OF IH2 node.hyps(4)]) (use that in blast)
    have "stored ops ?h p t w \<longleftrightarrow> (if t = ?s then g w else stored ops h p t w)" for t w
    proof (cases "t = ?s")
      case False
      then show ?thesis
        unfolding stored_iff [of ?h p n', OF hp] stored_iff [of h p m, OF node.hyps(1)]
        using ch [OF here(2,3) [unfolded m], of t w] lay sub by (simp add: nk m cong: conj_cong)
    next
      case True
      have "\<not> (j < op_nkeys ops m \<and> keylenx_is_layer (op_ikeylen ops m j) \<and>
          op_ikey ops m j = slice_of ?s \<and> 8 < length ?s)" for j
        using slot_unique [OF node.hyps(3) here(2), of j] here(3)
        by (auto simp: slot_stores_def Let_def kl_rank_def slot_rank_def)
      then show ?thesis
        unfolding stored_iff [of ?h p n', OF hp] True
        using ch [OF here(2,3) [unfolded m], of ?s w] lay by (auto simp: nk m)
    qed
    ultimately show ?thesis by blast
  next
    case (below j)
    let ?k = "key_shift k"
    have str: "key_string ?k = drop 8 ?s" by (rule key_string_shift [OF below(4)])
    have len: "8 < length ?s"
      using key_len_string [OF node.prems(1)] below(4) by (simp add: key_has_suffix_def)
    have rank: "kl_rank (op_ikeylen ops m j) = slot_rank ?s"
      using below(2) len by (simp add: kl_rank_def slot_rank_def)
    obtain F where Fs: "Fs = map F (filter (\<lambda>i. keylenx_is_layer (op_ikeylen ops m i)) [0..<op_nkeys ops m])"
      and F: "\<And>l. l < op_nkeys ops m \<Longrightarrow> keylenx_is_layer (op_ikeylen ops m l) \<Longrightarrow>
        static_trie ops node_ok h (op_lv ops m l) (F l)"
      and IH: "\<And>l k. l < op_nkeys ops m \<Longrightarrow> keylenx_is_layer (op_ikeylen ops m l) \<Longrightarrow> key_ok k \<Longrightarrow>
        fits_path ops fits h (op_lv ops m l) k \<Longrightarrow>
        st_descend ops h (op_lv ops m l) k = Some (St_Found q i) \<Longrightarrow>
        static_trie ops node_ok ?h (op_lv ops m l) (F l) \<and>
        (\<forall>t w. stored ops ?h (op_lv ops m l) t w \<longleftrightarrow>
           (if t = key_string k then g w else stored ops h (op_lv ops m l) t w))"
      and disj: "\<And>l. l < op_nkeys ops m \<Longrightarrow> keylenx_is_layer (op_ikeylen ops m l) \<Longrightarrow> l \<noteq> j \<Longrightarrow>
        set (F l) \<inter> set (F j) = {}"
      and out: "p \<notin> set (F j)"
      by (rule trie_split [OF node.IH node.hyps(4)]) (use below(1,2) in blast)
    note IHj = IH [OF below(1,2) key_ok_shift [OF below(4)] below(5,6), unfolded str]
    have q: "q \<in> set (F j)"
      using descend_correct [OF F [OF below(1,2)] key_ok_shift [OF below(4)] below(5)] below(6) by auto
    with out node.hyps(1) have hp: "?h p = Some m" by auto
    have other: "static_trie ops node_ok ?h (op_lv ops m l) (F l) \<and>
        (\<forall>t w. stored ops ?h (op_lv ops m l) t w \<longleftrightarrow> stored ops h (op_lv ops m l) t w)"
      if "l < op_nkeys ops m" "keylenx_is_layer (op_ikeylen ops m l)" "l \<noteq> j" for l
      using same [OF F [OF that(1,2)]] disj [OF that] q by blast
    have "list_all2 (static_trie ops node_ok ?h) (op_layers ops m) Fs"
      using other IHj by (auto simp: op_layers_def Fs list_all2_map1 list_all2_map2 list_all2_same)
    then have "static_trie ops node_ok ?h p (p # concat Fs)"
      using hp node.hyps(2-4) by (auto intro: static_trie.node)
    moreover have "stored ops ?h p t w \<longleftrightarrow> (if t = ?s then g w else stored ops h p t w)" for t w
    proof (cases "t = ?s")
      case True
      then show ?thesis
        using stored_slot [of m ?h p j ?s, OF node.hyps(3) hp below(1,3) rank] below(2) IHj by simp
    next
      case False
      have "stored ops ?h (op_lv ops m l) (drop 8 t) w \<longleftrightarrow> stored ops h (op_lv ops m l) (drop 8 t) w"
        if "l < op_nkeys ops m" "keylenx_is_layer (op_ikeylen ops m l)" "op_ikey ops m l = slice_of t"
          "8 < length t" for l
      proof (cases "l = j")
        case True
        have "same_slot t ?s"
          using True that(3,4) below(3) len by (simp add: same_slot_def slot_rank_def)
        with False have "take 8 t = take 8 ?s" by (simp add: same_slot_iff)
        with False have "drop 8 t \<noteq> drop 8 ?s" by (metis append_take_drop_id)
        then show ?thesis using IHj True by simp
      qed (use other that in blast)
      with False show ?thesis
        unfolding stored_iff [of ?h p m, OF hp] stored_iff [of h p m, OF node.hyps(1)]
        by (simp cong: conj_cong)
    qed
    ultimately show ?thesis by blast
  qed
qed

lemma slot_stores_inj:
  assumes "slot_stores ops n i r v" and "slot_stores ops n i t w"
  shows "t = r" and "w = v"
proof -
  show "w = v" using assms by (simp add: slot_stores_def Let_def)
  have same: "same_slot t r" using assms by (simp add: slot_stores_def same_slot_def Let_def)
  show "t = r"
  proof (cases "8 < length r")
    case True
    then have "unat (op_ikeylen ops n i) = 9" using assms(1)
      by (auto simp: slot_stores_def Let_def kl_rank_def slot_rank_def)
    then have "op_ikeylen ops n i = 9" by (simp add: word_unat_eq_iff)
    with assms have "drop 8 t = drop 8 r" by (simp add: slot_stores_def Let_def)
    with same show ?thesis by (metis append_take_drop_id same_slot_iff)
  next
    case False
    with same show ?thesis by (auto simp: same_slot_iff)
  qed
qed

lemma slot_stores_unique:
  assumes "node_ok n" "i < op_nkeys ops n" "j < op_nkeys ops n"
    "slot_stores ops n i r v" "slot_stores ops n j r w"
  shows "i = j"
  using slot_unique [OF assms(1-3)] assms(4,5) by (simp add: slot_stores_def Let_def)

subsection \<open>Updating and removing\<close>

lemma update_correct:
  assumes "static_trie ops node_ok h p A" "key_ok k" "fits_path ops fits h p k"
  shows "\<exists>r h'. st_update ops h p k x = Some (r, h') \<and> static_trie ops node_ok h' p A \<and>
    (if \<exists>v. stored ops h p (key_string k) v
     then (\<exists>q i. r = St_Found q i) \<and>
       (\<forall>t w. stored ops h' p t w \<longleftrightarrow> (if t = key_string k then w = x else stored ops h p t w))
     else r = St_NotFound \<and> h' = h)"
proof -
  have p: "p \<noteq> 0" using assms(1) by (auto elim: static_trieE)
  from descend_correct [OF assms] show ?thesis
  proof (elim disjE exE conjE)
    assume "st_descend ops h p k = Some St_NotFound" "\<forall>v. \<not> stored ops h p (key_string k) v"
    then show ?thesis using p assms(1) by (simp add: st_update_def st_find_def)
  next
    fix q i n
    assume d: "st_descend ops h p k = Some (St_Found q i)" and n: "h q = Some n"
      and i: "i < op_nkeys ops n" and q: "q \<in> set A"
      and st: "\<forall>v. stored ops h p (key_string k) v \<longleftrightarrow> v = op_lv ops n i"
    have ok: "node_ok n" using trie_dom [OF assms(1) q] n by auto
    let ?n = "op_set_lv ops n i x"
    have sl: "slot_stores ops ?n j t w \<longleftrightarrow>
        (if j = i then slot_stores ops n i t (op_lv ops n i) \<and> w = x else slot_stores ops n j t w)"
      if "j < op_nkeys ops n" for j t w
      using set_lv [OF ok i that] by (auto simp: slot_stores_def Let_def)
    have "static_trie ops node_ok (h(q \<mapsto> ?n)) p A \<and> (\<forall>t w. stored ops (h(q \<mapsto> ?n)) p t w \<longleftrightarrow>
        (if t = key_string k then w = x else stored ops h p t w))"
    proof (rule modify [OF assms d n])
      show "node_ok ?n" by (rule ok_set_lv [OF ok i])
      show "op_nkeys ops ?n = op_nkeys ops n" using set_lv [OF ok i i] by blast
      show "keylenx_is_layer (op_ikeylen ops ?n j) = keylenx_is_layer (op_ikeylen ops n j) \<and>
          (keylenx_is_layer (op_ikeylen ops n j) \<longrightarrow>
            op_ikey ops ?n j = op_ikey ops n j \<and> op_lv ops ?n j = op_lv ops n j)"
        if "\<not> keylenx_is_layer (op_ikeylen ops n i)" "j < op_nkeys ops n" for j
        using set_lv [OF ok i that(2)] that(1) by auto
      show "(\<exists>j<op_nkeys ops n. slot_stores ops ?n j t w) \<longleftrightarrow>
          (if t = r then w = x else \<exists>j<op_nkeys ops n. slot_stores ops n j t w)"
        if "slot_stores ops n i r (op_lv ops n i)" for r t w
        using that sl i slot_stores_inj [OF that] slot_stores_unique [OF ok i _ that] by metis
    qed
    then show ?thesis using st d n p by (auto simp: st_update_def st_find_def)
  qed
qed

text \<open>Removing needs the slot to be the first of its slice.\<close>

lemma remove_correct:
  assumes "static_trie ops node_ok h p A" "key_ok k" "fits_path ops fits h p k"
    and first: "\<And>q i n. st_find ops h p k = Some (St_Found q i) \<Longrightarrow> h q = Some n \<Longrightarrow> first_of_slice ops n i"
  shows "\<exists>r h'. st_remove ops h p k = Some (r, h') \<and> static_trie ops node_ok h' p A \<and>
    (if \<exists>v. stored ops h p (key_string k) v
     then (\<exists>q i. r = St_Found q i) \<and>
       (\<forall>t w. stored ops h' p t w \<longleftrightarrow> t \<noteq> key_string k \<and> stored ops h p t w)
     else r = St_NotFound \<and> h' = h)"
proof -
  have p: "p \<noteq> 0" using assms(1) by (auto elim: static_trieE)
  from descend_correct [OF assms(1-3)] show ?thesis
  proof (elim disjE exE conjE)
    assume "st_descend ops h p k = Some St_NotFound" "\<forall>v. \<not> stored ops h p (key_string k) v"
    then show ?thesis using p assms(1) by (simp add: st_remove_def st_find_def)
  next
    fix q i n
    assume d: "st_descend ops h p k = Some (St_Found q i)" and n: "h q = Some n"
      and i: "i < op_nkeys ops n" and q: "q \<in> set A"
      and st: "\<forall>v. stored ops h p (key_string k) v \<longleftrightarrow> v = op_lv ops n i"
    have ok: "node_ok n" using trie_dom [OF assms(1) q] n by auto
    have fst: "first_of_slice ops n i" using first [OF _ n] d p by (simp add: st_find_def)
    let ?n = "op_set_ikeylen ops n i 0"
    have sl: "slot_stores ops ?n j t w \<longleftrightarrow> j \<noteq> i \<and> slot_stores ops n j t w"
      if "j < op_nkeys ops n" for j t w
      using set_ikeylen [OF ok i that] by (auto simp: slot_stores_def Let_def)
    have "static_trie ops node_ok (h(q \<mapsto> ?n)) p A \<and> (\<forall>t w. stored ops (h(q \<mapsto> ?n)) p t w \<longleftrightarrow>
        (if t = key_string k then False else stored ops h p t w))"
    proof (rule modify [OF assms(1-3) d n])
      show "node_ok ?n" by (rule ok_invalidate [OF ok i fst])
      show "op_nkeys ops ?n = op_nkeys ops n" using set_ikeylen [OF ok i i] by blast
      show "keylenx_is_layer (op_ikeylen ops ?n j) = keylenx_is_layer (op_ikeylen ops n j) \<and>
          (keylenx_is_layer (op_ikeylen ops n j) \<longrightarrow>
            op_ikey ops ?n j = op_ikey ops n j \<and> op_lv ops ?n j = op_lv ops n j)"
        if "\<not> keylenx_is_layer (op_ikeylen ops n i)" "j < op_nkeys ops n" for j
        using set_ikeylen [OF ok i that(2), of 0] that(1) by (auto simp: keylenx_is_layer_def)
      show "(\<exists>j<op_nkeys ops n. slot_stores ops ?n j t w) \<longleftrightarrow>
          (if t = r then False else \<exists>j<op_nkeys ops n. slot_stores ops n j t w)"
        if "slot_stores ops n i r (op_lv ops n i)" for r t w
        using that sl i slot_stores_inj [OF that] slot_stores_unique [OF ok i _ that] by metis
    qed
    then show ?thesis using st d n p by (auto simp: st_remove_def st_find_def)
  qed
qed

subsection \<open>Walking the trie\<close>

lemma walk_step:
  assumes "c < length L" "list_all2 (static_trie ops node_ok h) (drop c L) Bs"
  obtains n Bs' where "h (L ! c) = Some n"
    "list_all2 (static_trie ops node_ok h) (drop (Suc c) (L @ op_layers ops n)) Bs'"
    "mset (concat Bs) = add_mset (L ! c) (mset (concat Bs'))"
    "length (concat Bs) = Suc (length (concat Bs'))"
proof -
  have "drop c L = L ! c # drop (Suc c) L" using assms(1) by (simp add: Cons_nth_drop_Suc)
  with assms(2) obtain B Cs where B: "Bs = B # Cs" "static_trie ops node_ok h (L ! c) B"
    "list_all2 (static_trie ops node_ok h) (drop (Suc c) L) Cs"
    by (auto simp: list_all2_Cons1)
  from B(2) obtain n Fs where n: "h (L ! c) = Some n" "B = L ! c # concat Fs"
    "list_all2 (static_trie ops node_ok h) (op_layers ops n) Fs"
    by (auto elim: static_trieE)
  show thesis
    by (rule that [of n "Cs @ Fs"])
      (use n B assms(1) in \<open>auto intro: list_all2_appendI\<close>)
qed

lemma bfs_forest:
  "list_all2 (static_trie ops node_ok h) (drop c L) Bs \<Longrightarrow> c \<le> length L \<Longrightarrow>
     \<exists>L'. st_bfs ops h L c = Some L' \<and> mset L' = mset (take c L @ concat Bs)"
proof (induction "length (concat Bs)" arbitrary: c L Bs)
  case 0
  have "\<not> c < length L"
  proof
    assume "c < length L"
    then show False by (rule walk_step [OF _ 0(2)]) (use 0(1) in simp)
  qed
  with 0 show ?case by (simp add: st_bfs.simps [of ops h L "length L"])
next
  case (Suc m)
  show ?case
  proof (cases "c < length L")
    case False
    with Suc.prems Suc.hyps(2) show ?thesis by simp
  next
    case True
    then obtain n Bs' where n: "h (L ! c) = Some n"
      "list_all2 (static_trie ops node_ok h) (drop (Suc c) (L @ op_layers ops n)) Bs'"
      "mset (concat Bs) = add_mset (L ! c) (mset (concat Bs'))"
      "length (concat Bs) = Suc (length (concat Bs'))"
      using walk_step [OF True Suc.prems(1)] by blast
    moreover have "m = length (concat Bs')" using n(4) Suc.hyps(2) by simp
    moreover have "take (Suc c) (L @ op_layers ops n) = take c L @ [L ! c]"
      using True by (simp add: take_Suc_conv_app_nth)
    ultimately show ?thesis
      using Suc.hyps(1) [OF _ n(2)] True by (simp add: st_bfs.simps [of ops h L c])
  qed
qed

lemma size_forest:
  "list_all2 (static_trie ops node_ok h) (drop c L) Bs \<Longrightarrow> c \<le> length L \<Longrightarrow>
     st_size_loop ops sz h L c acc = Some (acc + (\<Sum>q \<in># mset (concat Bs). sz (the (h q))))"
proof (induction "length (concat Bs)" arbitrary: c L Bs acc)
  case 0
  have "\<not> c < length L"
  proof
    assume "c < length L"
    then show False by (rule walk_step [OF _ 0(2)]) (use 0(1) in simp)
  qed
  with 0 show ?case by (simp add: st_size_loop.simps [of ops sz h L "length L"])
next
  case (Suc m)
  show ?case
  proof (cases "c < length L")
    case False
    with Suc.prems Suc.hyps(2) show ?thesis by simp
  next
    case True
    then obtain n Bs' where n: "h (L ! c) = Some n"
      "list_all2 (static_trie ops node_ok h) (drop (Suc c) (L @ op_layers ops n)) Bs'"
      "mset (concat Bs) = add_mset (L ! c) (mset (concat Bs'))"
      "length (concat Bs) = Suc (length (concat Bs'))"
      using walk_step [OF True Suc.prems(1)] by blast
    moreover have "m = length (concat Bs')" using n(4) Suc.hyps(2) by simp
    ultimately show ?thesis
      using Suc.hyps(1) [OF _ n(2)] True by (simp add: st_size_loop.simps [of ops sz h L c])
  qed
qed

lemma free_all:
  "distinct ps \<Longrightarrow> \<forall>q \<in> set ps. h q \<noteq> None \<Longrightarrow>
     st_free_all h ps = Some (\<lambda>q. if q \<in> set ps then None else h q)"
proof (induction ps arbitrary: h)
  case (Cons p ps)
  have "st_free_all (h(p := None)) ps = Some (\<lambda>q. if q \<in> set ps then None else (h(p := None)) q)"
    using Cons.prems by (intro Cons.IH) auto
  with Cons.prems show ?case by (auto simp: fun_eq_iff)
qed simp

lemma destroy_correct:
  assumes "static_trie ops node_ok h p A"
  shows "st_destroy ops h p = Some (\<lambda>q. if q \<in> set A then None else h q)"
proof -
  have p: "p \<noteq> 0" and dist: "distinct A" using assms by (auto elim: static_trieE)
  from bfs_forest [of h 0 "[p]" "[A]"] assms obtain L' where L': "st_bfs ops h [p] 0 = Some L'"
    "mset L' = mset A" by auto
  then have s: "set L' = set A" "distinct L'" using dist by (metis set_mset_mset, metis mset_eq_imp_distinct_iff)
  then have "\<forall>q \<in> set L'. h q \<noteq> None" using trie_dom [OF assms] by auto
  from free_all [OF s(2) this] show ?thesis using p L' s by (simp add: st_destroy_def)
qed

end

end
