(* ===== verification/Node_Layout.thy ===== *)
theory Node_Layout
  imports Mass_Node
begin

text \<open>
  The reference layout of a static node: from a list of slots (key length, slice, leaf value,
  suffix) the block of memory in which the arrays follow each other. Read with the methods of
  the node, the block gives the slots back; it is how concrete nodes are written down, and the
  layout the builder has to reach.
\<close>

type_synonym node_slot = "byte \<times> u64 \<times> u64 \<times> byte list"

fun slot_kl :: "node_slot \<Rightarrow> byte" where
  "slot_kl (kl, ik, lv, suf) = kl"

fun slot_ikey :: "node_slot \<Rightarrow> u64" where
  "slot_ikey (kl, ik, lv, suf) = ik"

fun slot_lv :: "node_slot \<Rightarrow> u64" where
  "slot_lv (kl, ik, lv, suf) = lv"

fun slot_suf :: "node_slot \<Rightarrow> byte list" where
  "slot_suf (kl, ik, lv, suf) = suf"

definition suf_offset :: "node_slot list \<Rightarrow> nat \<Rightarrow> nat" where
  "suf_offset xs i = length (concat (map slot_suf (take i xs)))"

definition packed :: "nat \<Rightarrow> node_slot list \<Rightarrow> byte list \<Rightarrow> byte list" where
  "packed h0 xs vals =
     replicate h0 0 @ map slot_kl xs @ concat (map (bytes_of_u64 \<circ> slot_ikey) xs) @
     concat (map (bytes_of_u64 \<circ> slot_lv) xs) @ vals @
     concat (map (le_bytes 4 \<circ> suf_offset xs) [0..<length xs + 1]) @ concat (map slot_suf xs)"

text \<open>All suffix offsets fit into 32 bits.\<close>

definition slots_fit :: "node_slot list \<Rightarrow> bool" where
  "slots_fit xs \<longleftrightarrow> suf_offset xs (length xs) < 2 ^ 32"

lemma peek_skip: "a = length as + k \<Longrightarrow> peek (as @ m) a n = peek m k n"
  by (simp add: peek_def)

lemma peek_elem:
  "\<forall>x \<in> set xs. length (f x) = w \<Longrightarrow> i < length xs \<Longrightarrow>
     peek (concat (map f xs) @ ys) (w * i) w = f (xs ! i)"
proof (induction xs arbitrary: i)
  case (Cons x xs)
  show ?case
  proof (cases i)
    case 0
    with Cons.prems show ?thesis by (simp add: peek_def)
  next
    case (Suc j)
    with Cons show ?thesis by (simp add: peek_skip [of _ "f x" "w * j"])
  qed
qed simp

lemma peek_suffix:
  "i < length xs \<Longrightarrow> peek (concat (map slot_suf xs)) (suf_offset xs i) (length (slot_suf (xs ! i))) =
     slot_suf (xs ! i)"
proof (induction xs arbitrary: i)
  case (Cons x xs)
  show ?case
  proof (cases i)
    case 0
    then show ?thesis by (simp add: peek_def suf_offset_def)
  next
    case (Suc j)
    then have "suf_offset (x # xs) i = length (slot_suf x) + suf_offset xs j"
      by (simp add: suf_offset_def)
    with Suc Cons show ?thesis by (simp add: peek_skip [of _ "slot_suf x" "suf_offset xs j"])
  qed
qed simp

lemma suf_offset_Suc: "i < length xs \<Longrightarrow> suf_offset xs (Suc i) = suf_offset xs i + length (slot_suf (xs ! i))"
  by (simp add: suf_offset_def take_Suc_conv_app_nth)

lemma suf_offset_le: "suf_offset xs i \<le> suf_offset xs (length xs)"
proof -
  have "concat (map slot_suf xs) =
      concat (map slot_suf (take i xs)) @ concat (map slot_suf (drop i xs))"
    by (metis append_take_drop_id concat_append map_append)
  then show ?thesis by (simp add: suf_offset_def)
qed

lemma length_concat_8 [simp]: "length (concat (map (bytes_of_u64 \<circ> f) xs)) = 8 * length xs"
  by (induction xs) auto

lemma length_concat_4 [simp]: "length (concat (map (le_bytes 4 \<circ> f) xs)) = 4 * length xs"
  by (induction xs) auto

lemma length_packed: "length (packed h0 xs vals) =
    h0 + 1 * length xs + 8 * length xs + 8 * length xs + length vals + 4 * (length xs + 1) + suf_offset xs (length xs)"
  by (simp add: packed_def suf_offset_def del: upt_Suc)

lemma rd_packed:
  assumes "i < length xs"
  shows "rd8 (packed h0 xs vals) (h0 + i) = slot_kl (xs ! i)"
    and "rd64 (packed h0 xs vals) (h0 + 1 * length xs + 8 * i) = slot_ikey (xs ! i)"
    and "rd64 (packed h0 xs vals) (h0 + 1 * length xs + 8 * length xs + 8 * i) = slot_lv (xs ! i)"
proof -
  show "rd8 (packed h0 xs vals) (h0 + i) = slot_kl (xs ! i)"
    using assms by (simp add: rd8_def packed_def nth_append)
  let ?iks = "concat (map (bytes_of_u64 \<circ> slot_ikey) xs)" and ?lvs = "concat (map (bytes_of_u64 \<circ> slot_lv) xs)"
  let ?rest = "vals @ concat (map (le_bytes 4 \<circ> suf_offset xs) [0..<length xs + 1]) @ concat (map slot_suf xs)"
  have "peek (packed h0 xs vals) (h0 + 1 * length xs + 8 * i) 8 = peek (?iks @ ?lvs @ ?rest) (8 * i) 8"
    using peek_skip [of "h0 + 1 * length xs + 8 * i" "replicate h0 0 @ map slot_kl xs" "8 * i"]
    by (simp add: packed_def del: upt_Suc)
  also have "\<dots> = bytes_of_u64 (slot_ikey (xs ! i))"
    using peek_elem [of xs "bytes_of_u64 \<circ> slot_ikey" 8 i] assms by simp
  finally show "rd64 (packed h0 xs vals) (h0 + 1 * length xs + 8 * i) = slot_ikey (xs ! i)"
    by (simp add: rd64_def)
  have "peek (packed h0 xs vals) (h0 + 1 * length xs + 8 * length xs + 8 * i) 8 = peek (?lvs @ ?rest) (8 * i) 8"
    using peek_skip [of "h0 + 1 * length xs + 8 * length xs + 8 * i" "replicate h0 0 @ map slot_kl xs @ ?iks" "8 * i"]
    by (simp add: packed_def del: upt_Suc)
  also have "\<dots> = bytes_of_u64 (slot_lv (xs ! i))"
    using peek_elem [of xs "bytes_of_u64 \<circ> slot_lv" 8 i] assms by simp
  finally show "rd64 (packed h0 xs vals) (h0 + 1 * length xs + 8 * length xs + 8 * i) = slot_lv (xs ! i)"
    by (simp add: rd64_def)
qed

lemma rd_packed_offset:
  assumes "i \<le> length xs" and "slots_fit xs"
  shows "rd32 (packed h0 xs vals) (h0 + 1 * length xs + 8 * length xs + 8 * length xs + length vals + 4 * i) =
    suf_offset xs i"
proof -
  let ?pre = "replicate h0 0 @ map slot_kl xs @ concat (map (bytes_of_u64 \<circ> slot_ikey) xs) @
     concat (map (bytes_of_u64 \<circ> slot_lv) xs) @ vals"
  have "peek (packed h0 xs vals) (h0 + 1 * length xs + 8 * length xs + 8 * length xs + length vals + 4 * i) 4 =
      peek (concat (map (le_bytes 4 \<circ> suf_offset xs) [0..<length xs + 1]) @ concat (map slot_suf xs)) (4 * i) 4"
    using peek_skip [of "h0 + 1 * length xs + 8 * length xs + 8 * length xs + length vals + 4 * i" ?pre "4 * i"]
    by (simp add: packed_def del: upt_Suc)
  also have "\<dots> = le_bytes 4 (suf_offset xs i)"
    using peek_elem [of "[0..<length xs + 1]" "le_bytes 4 \<circ> suf_offset xs" 4 i] assms(1)
    by (simp del: upt_Suc)
  finally show ?thesis
    using suf_offset_le [of xs i] assms(2) by (simp add: rd32_def le_nat_le_bytes slots_fit_def)
qed

lemma peek_packed_suffix:
  assumes "i < length xs"
  shows "peek (packed h0 xs vals)
     (h0 + 1 * length xs + 8 * length xs + 8 * length xs + length vals + 4 * (length xs + 1) + suf_offset xs i)
     (length (slot_suf (xs ! i))) = slot_suf (xs ! i)"
proof -
  let ?pre = "replicate h0 0 @ map slot_kl xs @ concat (map (bytes_of_u64 \<circ> slot_ikey) xs) @
     concat (map (bytes_of_u64 \<circ> slot_lv) xs) @ vals @
     concat (map (le_bytes 4 \<circ> suf_offset xs) [0..<length xs + 1])"
  have "peek (packed h0 xs vals)
     (h0 + 1 * length xs + 8 * length xs + 8 * length xs + length vals + 4 * (length xs + 1) + suf_offset xs i)
     (length (slot_suf (xs ! i))) = peek (concat (map slot_suf xs)) (suf_offset xs i) (length (slot_suf (xs ! i)))"
    using peek_skip [of "h0 + 1 * length xs + 8 * length xs + 8 * length xs + length vals + 4 * (length xs + 1) + suf_offset xs i"
        ?pre "suf_offset xs i"]
    by (simp add: packed_def del: upt_Suc)
  with peek_suffix [OF assms] show ?thesis by simp
qed

section \<open>\<^verbatim>\<open>massnode\<close>\<close>

definition mn_of :: "node_slot list \<Rightarrow> massnode" where
  "mn_of xs = \<lparr>mn_nkeys = length xs, mn_size = length (packed 16 xs []), mn_hasKsuf = 1, mn_mem = packed 16 xs []\<rparr>"

lemma mn_of_nkeys [simp]: "mn_nkeys (mn_of xs) = length xs"
  by (simp add: mn_of_def)

lemma mn_of_get:
  assumes "i < length xs"
  shows "mn_ikeylen (mn_of xs) i = slot_kl (xs ! i)"
    and "mn_ikey (mn_of xs) i = slot_ikey (xs ! i)"
    and "mn_lv (mn_of xs) i = slot_lv (xs ! i)"
  using rd_packed [OF assms, of 16 "[]"]
  by (simp_all add: mn_getter_defs mn_offset_defs sizeof_massnode_def mn_of_def)

lemma mn_of_offset:
  assumes "i \<le> length xs" and "slots_fit xs"
  shows "mn_ksuf_offset (mn_of xs) i = suf_offset xs i"
  using rd_packed_offset [OF assms, of 16 "[]"]
  by (simp add: mn_ksuf_offset_def mn_offset_defs sizeof_massnode_def mn_of_def)

lemma mn_of_ksuf:
  assumes "i < length xs" and "slots_fit xs"
  shows "mn_ksuf (mn_of xs) i = slot_suf (xs ! i)"
proof -
  have o: "mn_ksuf_offset (mn_of xs) i = suf_offset xs i"
    "mn_ksuf_offset (mn_of xs) (i + 1) = suf_offset xs (i + 1)"
    using mn_of_offset [OF _ assms(2)] assms(1) by simp_all
  have lt: "suf_offset xs (i + 1) < 2 ^ 32"
    using suf_offset_le [of xs "i + 1"] assms(2) by (simp add: slots_fit_def)
  have "mn_ksuflen (mn_of xs) i = sub32 (suf_offset xs (i + 1)) (suf_offset xs i)"
    using o by (simp add: mn_ksuflen_def mn_ksuf_offset_def mn_of_def)
  also have "\<dots> = length (slot_suf (xs ! i))"
    using sub32_le [OF _ lt, of "suf_offset xs i"] suf_offset_Suc [OF assms(1)] by simp
  finally have len: "mn_ksuflen (mn_of xs) i = length (slot_suf (xs ! i))" .
  have pos: "mn_ksufpos (mn_of xs) i = mn_get_ksuf (mn_of xs) + suf_offset xs i"
    using o(1) by (simp add: mn_ksufpos_def mn_ksuf_offset_def mn_of_def)
  show ?thesis
    using peek_packed_suffix [OF assms(1), of 16 "[]"]
    unfolding mn_ksuf_def len pos by (simp add: mn_get_ksuf_def sizeof_massnode_def mn_of_def)
qed

lemma mn_of_block: "slots_fit xs \<Longrightarrow> mn_block (mn_of xs)"
  unfolding mn_block_def
proof (intro conjI allI impI)
  have g: "mn_get_ksuf (mn_of xs) + suf_offset xs (length xs) = length (mn_mem (mn_of xs))"
    using length_packed [of 16 xs "[]"] by (simp add: mn_get_ksuf_def sizeof_massnode_def mn_of_def)
  then show "mn_get_ksuf (mn_of xs) \<le> length (mn_mem (mn_of xs))" by linarith
  fix p
  assume fit: "slots_fit xs" and p: "p < mn_nkeys (mn_of xs)"
  show "mn_ksuf_offset (mn_of xs) p \<le> mn_ksuf_offset (mn_of xs) (p + 1)"
    using p suf_offset_Suc [of p xs] by (simp add: mn_of_offset [OF _ fit])
  show "mn_get_ksuf (mn_of xs) + mn_ksuf_offset (mn_of xs) (p + 1) \<le> length (mn_mem (mn_of xs))"
    using p g suf_offset_le [of xs "p + 1"] by (simp add: mn_of_offset [OF _ fit])
qed

section \<open>\<^verbatim>\<open>massnode_multivalue\<close>\<close>

definition mv_of :: "byte list \<Rightarrow> node_slot list \<Rightarrow> massnode_multivalue" where
  "mv_of vals xs = \<lparr>mv_nkeys = length xs, mv_size = length (packed 16 xs vals), mv_vsize = length vals, mv_mem = packed 16 xs vals\<rparr>"

lemma mv_of_nkeys [simp]: "mv_nkeys (mv_of vals xs) = length xs"
  by (simp add: mv_of_def)

lemma mv_of_get:
  assumes "i < length xs"
  shows "mv_ikeylen (mv_of vals xs) i = slot_kl (xs ! i)"
    and "mv_ikey (mv_of vals xs) i = slot_ikey (xs ! i)"
    and "mv_lv (mv_of vals xs) i = slot_lv (xs ! i)"
  using rd_packed [OF assms, of 16 vals]
  by (simp_all add: mv_getter_defs mv_offset_defs sizeof_massnode_multivalue_def mv_of_def)

lemma mv_of_offset:
  assumes "i \<le> length xs" and "slots_fit xs"
  shows "mv_ksuf_offset (mv_of vals xs) i = suf_offset xs i"
  using rd_packed_offset [OF assms, of 16 vals]
  by (simp add: mv_ksuf_offset_def mv_offset_defs sizeof_massnode_multivalue_def mv_of_def)

lemma mv_of_ksuf:
  assumes "i < length xs" and "slots_fit xs"
  shows "mv_ksuf (mv_of vals xs) i = slot_suf (xs ! i)"
proof -
  have o: "mv_ksuf_offset (mv_of vals xs) i = suf_offset xs i"
    "mv_ksuf_offset (mv_of vals xs) (i + 1) = suf_offset xs (i + 1)"
    using mv_of_offset [OF _ assms(2)] assms(1) by simp_all
  have lt: "suf_offset xs (i + 1) < 2 ^ 32"
    using suf_offset_le [of xs "i + 1"] assms(2) by (simp add: slots_fit_def)
  have "mv_ksuflen (mv_of vals xs) i = sub32 (suf_offset xs (i + 1)) (suf_offset xs i)"
    using o by (simp add: mv_ksuflen_def mv_ksuf_offset_def mv_of_def)
  also have "\<dots> = length (slot_suf (xs ! i))"
    using sub32_le [OF _ lt, of "suf_offset xs i"] suf_offset_Suc [OF assms(1)] by simp
  finally have len: "mv_ksuflen (mv_of vals xs) i = length (slot_suf (xs ! i))" .
  have pos: "mv_ksufpos (mv_of vals xs) i = mv_get_ksuf (mv_of vals xs) + suf_offset xs i"
    using o(1) by (simp add: mv_ksufpos_def mv_ksuf_offset_def mv_of_def)
  show ?thesis
    using peek_packed_suffix [OF assms(1), of 16 vals]
    unfolding mv_ksuf_def len pos by (simp add: mv_get_ksuf_def sizeof_massnode_multivalue_def mv_of_def)
qed

lemma mv_of_block: "slots_fit xs \<Longrightarrow> mv_block (mv_of vals xs)"
  unfolding mv_block_def
proof (intro conjI allI impI)
  have g: "mv_get_ksuf (mv_of vals xs) + suf_offset xs (length xs) = length (mv_mem (mv_of vals xs))"
    using length_packed [of 16 xs vals] by (simp add: mv_get_ksuf_def sizeof_massnode_multivalue_def mv_of_def)
  then show "mv_get_ksuf (mv_of vals xs) \<le> length (mv_mem (mv_of vals xs))" by linarith
  fix p
  assume fit: "slots_fit xs" and p: "p < mv_nkeys (mv_of vals xs)"
  show "mv_ksuf_offset (mv_of vals xs) p \<le> mv_ksuf_offset (mv_of vals xs) (p + 1)"
    using p suf_offset_Suc [of p xs] by (simp add: mv_of_offset [OF _ fit])
  show "mv_get_ksuf (mv_of vals xs) + mv_ksuf_offset (mv_of vals xs) (p + 1) \<le> length (mv_mem (mv_of vals xs))"
    using p g suf_offset_le [of xs "p + 1"] by (simp add: mv_of_offset [OF _ fit])
qed

section \<open>\<^verbatim>\<open>massnode_dynamicvalue\<close>\<close>

definition md_of :: "node_slot list \<Rightarrow> massnode_dynamicvalue" where
  "md_of xs = \<lparr>md_nkeys = length xs, md_size = length (packed 12 xs []), md_mem = packed 12 xs []\<rparr>"

lemma md_of_nkeys [simp]: "md_nkeys (md_of xs) = length xs"
  by (simp add: md_of_def)

lemma md_of_get:
  assumes "i < length xs"
  shows "md_ikeylen (md_of xs) i = slot_kl (xs ! i)"
    and "md_ikey (md_of xs) i = slot_ikey (xs ! i)"
    and "md_lv (md_of xs) i = slot_lv (xs ! i)"
  using rd_packed [OF assms, of 12 "[]"]
  by (simp_all add: md_getter_defs md_offset_defs sizeof_massnode_dynamicvalue_def md_of_def)

lemma md_of_offset:
  assumes "i \<le> length xs" and "slots_fit xs"
  shows "md_ksuf_offset (md_of xs) i = suf_offset xs i"
  using rd_packed_offset [OF assms, of 12 "[]"]
  by (simp add: md_ksuf_offset_def md_offset_defs sizeof_massnode_dynamicvalue_def md_of_def)

lemma md_of_ksuf:
  assumes "i < length xs" and "slots_fit xs"
  shows "md_ksuf (md_of xs) i = slot_suf (xs ! i)"
proof -
  have o: "md_ksuf_offset (md_of xs) i = suf_offset xs i"
    "md_ksuf_offset (md_of xs) (i + 1) = suf_offset xs (i + 1)"
    using md_of_offset [OF _ assms(2)] assms(1) by simp_all
  have lt: "suf_offset xs (i + 1) < 2 ^ 32"
    using suf_offset_le [of xs "i + 1"] assms(2) by (simp add: slots_fit_def)
  have "md_ksuflen (md_of xs) i = sub32 (suf_offset xs (i + 1)) (suf_offset xs i)"
    using o by (simp add: md_ksuflen_def md_ksuf_offset_def md_of_def)
  also have "\<dots> = length (slot_suf (xs ! i))"
    using sub32_le [OF _ lt, of "suf_offset xs i"] suf_offset_Suc [OF assms(1)] by simp
  finally have len: "md_ksuflen (md_of xs) i = length (slot_suf (xs ! i))" .
  have pos: "md_ksufpos (md_of xs) i = md_get_ksuf (md_of xs) + suf_offset xs i"
    using o(1) by (simp add: md_ksufpos_def md_ksuf_offset_def md_of_def)
  show ?thesis
    using peek_packed_suffix [OF assms(1), of 12 "[]"]
    unfolding md_ksuf_def len pos by (simp add: md_get_ksuf_def sizeof_massnode_dynamicvalue_def md_of_def)
qed

lemma md_of_block: "slots_fit xs \<Longrightarrow> md_block (md_of xs)"
  unfolding md_block_def
proof (intro conjI allI impI)
  have g: "md_get_ksuf (md_of xs) + suf_offset xs (length xs) = length (md_mem (md_of xs))"
    using length_packed [of 12 xs "[]"] by (simp add: md_get_ksuf_def sizeof_massnode_dynamicvalue_def md_of_def)
  then show "md_get_ksuf (md_of xs) \<le> length (md_mem (md_of xs))" by linarith
  fix p
  assume fit: "slots_fit xs" and p: "p < md_nkeys (md_of xs)"
  show "md_ksuf_offset (md_of xs) p \<le> md_ksuf_offset (md_of xs) (p + 1)"
    using p suf_offset_Suc [of p xs] by (simp add: md_of_offset [OF _ fit])
  show "md_get_ksuf (md_of xs) + md_ksuf_offset (md_of xs) (p + 1) \<le> length (md_mem (md_of xs))"
    using p g suf_offset_le [of xs "p + 1"] by (simp add: md_of_offset [OF _ fit])
qed

end
