(* ===== verification/Static_Stage.thy ===== *)
theory Static_Stage
  imports Static_Trie Node_Layout
begin

text \<open>
  The three kinds of static node fulfil the contract of \<open>Static_Trie\<close>, and what follows for
  their cursors. A \<^verbatim>\<open>massnode\<close> tells every key from every other. The comparators of the
  other two drop the comparison of lengths (an expression statement in the source), so they
  are right only for keys that share their slice with no other slot of a node: \<open>mv_fits\<close>,
  \<open>md_fits\<close>. Concrete nodes show what happens otherwise, and what \<open>remove\<close> does to a slot that
  is not the first of its slice.
\<close>

section \<open>The order the comparators should follow\<close>

lemma sorted_invalidate:
  assumes s: "node_sorted ops n" and i: "i < op_nkeys ops n" and first: "first_of_slice ops n i"
    and nk: "op_nkeys ops n' = op_nkeys ops n"
    and eq: "\<And>j. j < op_nkeys ops n \<Longrightarrow> op_ikey ops n' j = op_ikey ops n j \<and>
      op_ikeylen ops n' j = (if j = i then 0 else op_ikeylen ops n j)"
  shows "node_sorted ops n'"
  unfolding node_sorted_def nk
proof (intro allI impI)
  fix a b
  assume ab: "a < b" "b < op_nkeys ops n"
  have z: "kl_rank 0 = 0" by (simp add: kl_rank_def keylenx_is_layer_def)
  have le: "op_ikey ops n a < op_ikey ops n b" if "b = i"
  proof -
    have "op_ikey ops n (i - 1) < op_ikey ops n i"
      using s [unfolded node_sorted_def, rule_format, of "i - 1" i] first ab that i
      by (auto simp: first_of_slice_def)
    moreover have "op_ikey ops n a \<le> op_ikey ops n (i - 1)"
    proof (cases "a = i - 1")
      case False
      then have "a < i - 1" "i - 1 < op_nkeys ops n" using ab that by auto
      then show ?thesis using s unfolding node_sorted_def by (metis less_imp_le order_refl)
    qed simp
    ultimately show ?thesis using that by auto
  qed
  show "op_ikey ops n' a < op_ikey ops n' b \<or>
      op_ikey ops n' a = op_ikey ops n' b \<and> kl_rank (op_ikeylen ops n' a) < kl_rank (op_ikeylen ops n' b)"
  proof (cases "b = i")
    case False
    have "op_ikey ops n a < op_ikey ops n b \<or> op_ikey ops n a = op_ikey ops n b \<and>
        kl_rank (op_ikeylen ops n a) < kl_rank (op_ikeylen ops n b)"
      using s ab unfolding node_sorted_def by blast
    with False eq [of a] eq [of b] ab z show ?thesis by auto
  qed (use le eq [of a] eq [of b] ab in auto)
qed

lemma sorted_cong:
  assumes "node_sorted ops n" and "op_nkeys ops n' = op_nkeys ops n"
    and "\<And>j. j < op_nkeys ops n \<Longrightarrow> op_ikey ops n' j = op_ikey ops n j \<and>
      op_ikeylen ops n' j = op_ikeylen ops n j"
  shows "node_sorted ops n'"
  using assms unfolding node_sorted_def by (metis less_trans)

section \<open>\<^verbatim>\<open>massnode\<close>\<close>

definition mn_ok :: "massnode \<Rightarrow> bool" where
  "mn_ok n \<longleftrightarrow> mn_block n \<and> node_sorted mn_ops n \<and> (\<forall>i < mn_nkeys n. kl_ok (mn_ikeylen n i))"

lemma mn_ops_simps [simp]:
  "op_nkeys mn_ops = mn_nkeys" "op_ikeylen mn_ops = mn_ikeylen"
  "op_set_ikeylen mn_ops = mn_set_ikeylen" "op_ikey mn_ops = mn_ikey" "op_lv mn_ops = mn_lv"
  "op_set_lv mn_ops = mn_set_lv" "op_ksuf mn_ops = mn_ksuf"
  "op_ksuf_equals mn_ops = mn_ksuf_equals" "op_cmp mn_ops = key_compare_mn"
  by (simp_all add: mn_ops_def)

interpretation mn: static_node mn_ops mn_ok "\<lambda>_ _. True"
proof
  fix n k i j kl x
  have len: "mn_get_ksuf n \<le> length (mn_mem n)" if "mn_ok n" using that by (simp add: mn_ok_def mn_block_def)
  show "node_sorted mn_ops n" if "mn_ok n" using that by (simp add: mn_ok_def)
  have cmp: "key_compare_mn k n i = key_cmp k (mn_ikey n i) (uint (mn_ikeylen n i))" for k n i
    by (simp add: key_compare_mn_def key_cmp_split)
  note rank = key_cmp_rank [of k "mn_ikeylen n _"]
  show "0 < op_cmp mn_ops k n i"
    if "mn_ok n" "key_ok k" "(\<lambda>_ _. True) n k" "i < j" "j < op_nkeys mn_ops n" "0 \<le> op_cmp mn_ops k n j"
  proof -
    have kl: "kl_ok (mn_ikeylen n i)" "kl_ok (mn_ikeylen n j)" using that by (auto simp: mn_ok_def)
    have "mn_ikey n i < mn_ikey n j \<or> mn_ikey n i = mn_ikey n j \<and>
        kl_rank (mn_ikeylen n i) < kl_rank (mn_ikeylen n j)"
      using that(1,4,5) by (auto simp: mn_ok_def node_sorted_def)
    then have "0 \<le> key_compare_mn k n i \<and> key_compare_mn k n i \<noteq> 0"
      using that(6) rank [OF that(2) kl(1)] rank [OF that(2) kl(2)] by (auto simp: cmp)
    then show ?thesis by simp
  qed
  show "op_cmp mn_ops k n i = 0 \<longleftrightarrow> op_ikey mn_ops n i = slice_of (key_string k) \<and>
      kl_rank (op_ikeylen mn_ops n i) = slot_rank (key_string k)"
    if "mn_ok n" "key_ok k" "(\<lambda>_ _. True) n k" "i < op_nkeys mn_ops n"
    using rank(1) [OF that(2), of i] that by (auto simp: cmp mn_ok_def key_ok_def)
  show "op_ksuf_equals mn_ops n i k kl" if "kl \<noteq> 9"
    using that by (simp add: mn_ksuf_equals_def keylenx_has_ksuf_def)
  show "op_ksuf_equals mn_ops n i k 9 \<longleftrightarrow> op_ksuf mn_ops n i = drop 8 (key_string k)"
    if "mn_ok n" "key_ok k" "i < op_nkeys mn_ops n" "8 < k_len k"
    using mn_ksuf_equals_iff [of n i k] that by (simp add: mn_ok_def mn_ksuf_equals_def keylenx_has_ksuf_def)
  show lv: "op_ikeylen mn_ops (op_set_lv mn_ops n i x) j = op_ikeylen mn_ops n j \<and>
      op_ikey mn_ops (op_set_lv mn_ops n i x) j = op_ikey mn_ops n j \<and>
      op_lv mn_ops (op_set_lv mn_ops n i x) j = (if j = i then x else op_lv mn_ops n j) \<and>
      op_ksuf mn_ops (op_set_lv mn_ops n i x) j = op_ksuf mn_ops n j \<and>
      op_nkeys mn_ops (op_set_lv mn_ops n i x) = op_nkeys mn_ops n"
    if "mn_ok n" "i < op_nkeys mn_ops n" "j < op_nkeys mn_ops n" for n i j x
    using mn_set_lv_laws(1-3,5) [of n i j x] mn_ksuf_frame(2) [of n i j x] that
    by (auto simp: mn_ok_def mn_block_def)
  show kl: "op_ikeylen mn_ops (op_set_ikeylen mn_ops n i kl) j = (if j = i then kl else op_ikeylen mn_ops n j) \<and>
      op_ikey mn_ops (op_set_ikeylen mn_ops n i kl) j = op_ikey mn_ops n j \<and>
      op_lv mn_ops (op_set_ikeylen mn_ops n i kl) j = op_lv mn_ops n j \<and>
      op_ksuf mn_ops (op_set_ikeylen mn_ops n i kl) j = op_ksuf mn_ops n j \<and>
      op_nkeys mn_ops (op_set_ikeylen mn_ops n i kl) = op_nkeys mn_ops n"
    if "mn_ok n" "i < op_nkeys mn_ops n" "j < op_nkeys mn_ops n" for n i j kl
    using mn_set_ikeylen_laws(1-3,5) [of n i j kl] mn_ksuf_frame(1) [of n i j kl] that
    by (auto simp: mn_ok_def mn_block_def)
  show "mn_ok (op_set_lv mn_ops n i x)" if "mn_ok n" "i < op_nkeys mn_ops n"
  proof -
    have "node_sorted mn_ops (mn_set_lv n i x)"
      by (rule sorted_cong [of _ n]) (use that lv [OF that] lv [OF that(1,2)] in \<open>auto simp: mn_ok_def\<close>)
    with that lv [OF that that(2)] lv [OF that] mn_block_set(2) [of n i x] show ?thesis
      by (auto simp: mn_ok_def)
  qed
  show "mn_ok (op_set_ikeylen mn_ops n i 0)"
    if "mn_ok n" "i < op_nkeys mn_ops n" "first_of_slice mn_ops n i"
  proof -
    have "node_sorted mn_ops (mn_set_ikeylen n i 0)"
      by (rule sorted_invalidate [of _ n i]) (use that kl [OF that(1,2)] in \<open>auto simp: mn_ok_def\<close>)
    with that kl [OF that(1,2,2), of 0] kl [OF that(1,2), of _ 0] mn_block_set(1) [of n i 0] show ?thesis
      by (auto simp: mn_ok_def kl_ok_def)
  qed
qed

section \<open>\<^verbatim>\<open>massnode_multivalue\<close>\<close>

definition mv_ok :: "massnode_multivalue \<Rightarrow> bool" where
  "mv_ok n \<longleftrightarrow> mv_block n \<and> node_sorted mv_ops n \<and> (\<forall>i < mv_nkeys n. kl_ok (mv_ikeylen n i))"

definition mv_fits :: "massnode_multivalue \<Rightarrow> mkey \<Rightarrow> bool" where
  "mv_fits n k \<longleftrightarrow>
     (\<forall>i < mv_nkeys n. mv_ikey n i = k_ikey0 k \<longrightarrow>
        kl_rank (mv_ikeylen n i) = slot_rank (key_string k))"

lemma mv_ops_simps [simp]:
  "op_nkeys mv_ops = mv_nkeys" "op_ikeylen mv_ops = mv_ikeylen"
  "op_set_ikeylen mv_ops = mv_set_ikeylen" "op_ikey mv_ops = mv_ikey" "op_lv mv_ops = mv_lv"
  "op_set_lv mv_ops = mv_set_lv" "op_ksuf mv_ops = mv_ksuf"
  "op_ksuf_equals mv_ops = mv_ksuf_equals" "op_cmp mv_ops = key_compare_mv"
  by (simp_all add: mv_ops_def)

interpretation mv: static_node mv_ops mv_ok mv_fits
proof
  fix n k i j kl x
  have len: "mv_get_ksuf n \<le> length (mv_mem n)" if "mv_ok n" using that by (simp add: mv_ok_def mv_block_def)
  show "node_sorted mv_ops n" if "mv_ok n" using that by (simp add: mv_ok_def)
  have cmp: "key_compare_mv k n i = compare (k_ikey0 k) (mv_ikey n i)" for k n i
    by (simp add: key_compare_mv_def key_compare_ikey_def)
  show "0 < op_cmp mv_ops k n i"
    if "mv_ok n" "key_ok k" "mv_fits n k" "i < j" "j < op_nkeys mv_ops n" "0 \<le> op_cmp mv_ops k n j"
  proof -
    have lt: "mv_ikey n i < mv_ikey n j \<or> mv_ikey n i = mv_ikey n j \<and>
        kl_rank (mv_ikeylen n i) < kl_rank (mv_ikeylen n j)"
      using that(1,4,5) by (auto simp: mv_ok_def node_sorted_def)
    have fit: "kl_rank (mv_ikeylen n l) = slot_rank (key_string k)" if "l \<le> j" "mv_ikey n l = k_ikey0 k" for l
      using \<open>mv_fits n k\<close> \<open>j < op_nkeys mv_ops n\<close> that by (simp add: mv_fits_def)
    have "mv_ikey n j \<le> k_ikey0 k"
      using that(6) by (simp add: cmp compare_def not_less split: if_splits)
    then have "mv_ikey n i < k_ikey0 k"
      using lt fit [of i] fit [of j] that(4) by fastforce
    then show ?thesis by (auto simp: cmp compare_def)
  qed
  show "op_cmp mv_ops k n i = 0 \<longleftrightarrow> op_ikey mv_ops n i = slice_of (key_string k) \<and>
      kl_rank (op_ikeylen mv_ops n i) = slot_rank (key_string k)"
    if "mv_ok n" "key_ok k" "mv_fits n k" "i < op_nkeys mv_ops n"
    using that by (auto simp: cmp compare_def mv_fits_def key_ok_def)
  show "op_ksuf_equals mv_ops n i k kl" if "kl \<noteq> 9"
    using that by (simp add: mv_ksuf_equals_def keylenx_has_ksuf_def)
  show "op_ksuf_equals mv_ops n i k 9 \<longleftrightarrow> op_ksuf mv_ops n i = drop 8 (key_string k)"
    if "mv_ok n" "key_ok k" "i < op_nkeys mv_ops n" "8 < k_len k"
    using mv_ksuf_equals_iff [of n i k] that by (simp add: mv_ok_def mv_ksuf_equals_def keylenx_has_ksuf_def)
  show lv: "op_ikeylen mv_ops (op_set_lv mv_ops n i x) j = op_ikeylen mv_ops n j \<and>
      op_ikey mv_ops (op_set_lv mv_ops n i x) j = op_ikey mv_ops n j \<and>
      op_lv mv_ops (op_set_lv mv_ops n i x) j = (if j = i then x else op_lv mv_ops n j) \<and>
      op_ksuf mv_ops (op_set_lv mv_ops n i x) j = op_ksuf mv_ops n j \<and>
      op_nkeys mv_ops (op_set_lv mv_ops n i x) = op_nkeys mv_ops n"
    if "mv_ok n" "i < op_nkeys mv_ops n" "j < op_nkeys mv_ops n" for n i j x
    using mv_set_lv_laws(1-3,5) [of n i j x] mv_ksuf_frame(2) [of n i j x] that
    by (auto simp: mv_ok_def mv_block_def)
  show kl: "op_ikeylen mv_ops (op_set_ikeylen mv_ops n i kl) j = (if j = i then kl else op_ikeylen mv_ops n j) \<and>
      op_ikey mv_ops (op_set_ikeylen mv_ops n i kl) j = op_ikey mv_ops n j \<and>
      op_lv mv_ops (op_set_ikeylen mv_ops n i kl) j = op_lv mv_ops n j \<and>
      op_ksuf mv_ops (op_set_ikeylen mv_ops n i kl) j = op_ksuf mv_ops n j \<and>
      op_nkeys mv_ops (op_set_ikeylen mv_ops n i kl) = op_nkeys mv_ops n"
    if "mv_ok n" "i < op_nkeys mv_ops n" "j < op_nkeys mv_ops n" for n i j kl
    using mv_set_ikeylen_laws(1-3,5) [of n i j kl] mv_ksuf_frame(1) [of n i j kl] that
    by (auto simp: mv_ok_def mv_block_def)
  show "mv_ok (op_set_lv mv_ops n i x)" if "mv_ok n" "i < op_nkeys mv_ops n"
  proof -
    have "node_sorted mv_ops (mv_set_lv n i x)"
      by (rule sorted_cong [of _ n]) (use that lv [OF that] lv [OF that(1,2)] in \<open>auto simp: mv_ok_def\<close>)
    with that lv [OF that that(2)] lv [OF that] mv_block_set(2) [of n i x] show ?thesis
      by (auto simp: mv_ok_def)
  qed
  show "mv_ok (op_set_ikeylen mv_ops n i 0)"
    if "mv_ok n" "i < op_nkeys mv_ops n" "first_of_slice mv_ops n i"
  proof -
    have "node_sorted mv_ops (mv_set_ikeylen n i 0)"
      by (rule sorted_invalidate [of _ n i]) (use that kl [OF that(1,2)] in \<open>auto simp: mv_ok_def\<close>)
    with that kl [OF that(1,2,2), of 0] kl [OF that(1,2), of _ 0] mv_block_set(1) [of n i 0] show ?thesis
      by (auto simp: mv_ok_def kl_ok_def)
  qed
qed

section \<open>\<^verbatim>\<open>massnode_dynamicvalue\<close>\<close>

definition md_ok :: "massnode_dynamicvalue \<Rightarrow> bool" where
  "md_ok n \<longleftrightarrow> md_block n \<and> node_sorted md_ops n \<and> (\<forall>i < md_nkeys n. kl_ok (md_ikeylen n i))"

definition md_fits :: "massnode_dynamicvalue \<Rightarrow> mkey \<Rightarrow> bool" where
  "md_fits n k \<longleftrightarrow>
     (\<forall>i < md_nkeys n. md_ikey n i = k_ikey0 k \<longrightarrow>
        kl_rank (md_ikeylen n i) = slot_rank (key_string k))"

lemma md_ops_simps [simp]:
  "op_nkeys md_ops = md_nkeys" "op_ikeylen md_ops = md_ikeylen"
  "op_set_ikeylen md_ops = md_set_ikeylen" "op_ikey md_ops = md_ikey" "op_lv md_ops = md_lv"
  "op_set_lv md_ops = md_set_lv" "op_ksuf md_ops = md_ksuf"
  "op_ksuf_equals md_ops = md_ksuf_equals" "op_cmp md_ops = key_compare_md"
  by (simp_all add: md_ops_def)

interpretation md: static_node md_ops md_ok md_fits
proof
  fix n k i j kl x
  have len: "md_get_ksuf n \<le> length (md_mem n)" if "md_ok n" using that by (simp add: md_ok_def md_block_def)
  show "node_sorted md_ops n" if "md_ok n" using that by (simp add: md_ok_def)
  have cmp: "key_compare_md k n i = compare (k_ikey0 k) (md_ikey n i)" for k n i
    by (simp add: key_compare_md_def key_compare_ikey_def)
  show "0 < op_cmp md_ops k n i"
    if "md_ok n" "key_ok k" "md_fits n k" "i < j" "j < op_nkeys md_ops n" "0 \<le> op_cmp md_ops k n j"
  proof -
    have lt: "md_ikey n i < md_ikey n j \<or> md_ikey n i = md_ikey n j \<and>
        kl_rank (md_ikeylen n i) < kl_rank (md_ikeylen n j)"
      using that(1,4,5) by (auto simp: md_ok_def node_sorted_def)
    have fit: "kl_rank (md_ikeylen n l) = slot_rank (key_string k)" if "l \<le> j" "md_ikey n l = k_ikey0 k" for l
      using \<open>md_fits n k\<close> \<open>j < op_nkeys md_ops n\<close> that by (simp add: md_fits_def)
    have "md_ikey n j \<le> k_ikey0 k"
      using that(6) by (simp add: cmp compare_def not_less split: if_splits)
    then have "md_ikey n i < k_ikey0 k"
      using lt fit [of i] fit [of j] that(4) by fastforce
    then show ?thesis by (auto simp: cmp compare_def)
  qed
  show "op_cmp md_ops k n i = 0 \<longleftrightarrow> op_ikey md_ops n i = slice_of (key_string k) \<and>
      kl_rank (op_ikeylen md_ops n i) = slot_rank (key_string k)"
    if "md_ok n" "key_ok k" "md_fits n k" "i < op_nkeys md_ops n"
    using that by (auto simp: cmp compare_def md_fits_def key_ok_def)
  show "op_ksuf_equals md_ops n i k kl" if "kl \<noteq> 9"
    using that by (simp add: md_ksuf_equals_def keylenx_has_ksuf_def)
  show "op_ksuf_equals md_ops n i k 9 \<longleftrightarrow> op_ksuf md_ops n i = drop 8 (key_string k)"
    if "md_ok n" "key_ok k" "i < op_nkeys md_ops n" "8 < k_len k"
    using md_ksuf_equals_iff [of n i k] that by (simp add: md_ok_def md_ksuf_equals_def keylenx_has_ksuf_def)
  show lv: "op_ikeylen md_ops (op_set_lv md_ops n i x) j = op_ikeylen md_ops n j \<and>
      op_ikey md_ops (op_set_lv md_ops n i x) j = op_ikey md_ops n j \<and>
      op_lv md_ops (op_set_lv md_ops n i x) j = (if j = i then x else op_lv md_ops n j) \<and>
      op_ksuf md_ops (op_set_lv md_ops n i x) j = op_ksuf md_ops n j \<and>
      op_nkeys md_ops (op_set_lv md_ops n i x) = op_nkeys md_ops n"
    if "md_ok n" "i < op_nkeys md_ops n" "j < op_nkeys md_ops n" for n i j x
    using md_set_lv_laws(1-3,5) [of n i j x] md_ksuf_frame(2) [of n i j x] that
    by (auto simp: md_ok_def md_block_def)
  show kl: "op_ikeylen md_ops (op_set_ikeylen md_ops n i kl) j = (if j = i then kl else op_ikeylen md_ops n j) \<and>
      op_ikey md_ops (op_set_ikeylen md_ops n i kl) j = op_ikey md_ops n j \<and>
      op_lv md_ops (op_set_ikeylen md_ops n i kl) j = op_lv md_ops n j \<and>
      op_ksuf md_ops (op_set_ikeylen md_ops n i kl) j = op_ksuf md_ops n j \<and>
      op_nkeys md_ops (op_set_ikeylen md_ops n i kl) = op_nkeys md_ops n"
    if "md_ok n" "i < op_nkeys md_ops n" "j < op_nkeys md_ops n" for n i j kl
    using md_set_ikeylen_laws(1-3,5) [of n i j kl] md_ksuf_frame(1) [of n i j kl] that
    by (auto simp: md_ok_def md_block_def)
  show "md_ok (op_set_lv md_ops n i x)" if "md_ok n" "i < op_nkeys md_ops n"
  proof -
    have "node_sorted md_ops (md_set_lv n i x)"
      by (rule sorted_cong [of _ n]) (use that lv [OF that] lv [OF that(1,2)] in \<open>auto simp: md_ok_def\<close>)
    with that lv [OF that that(2)] lv [OF that] md_block_set(2) [of n i x] show ?thesis
      by (auto simp: md_ok_def)
  qed
  show "md_ok (op_set_ikeylen md_ops n i 0)"
    if "md_ok n" "i < op_nkeys md_ops n" "first_of_slice md_ops n i"
  proof -
    have "node_sorted md_ops (md_set_ikeylen n i 0)"
      by (rule sorted_invalidate [of _ n i]) (use that kl [OF that(1,2)] in \<open>auto simp: md_ok_def\<close>)
    with that kl [OF that(1,2,2), of 0] kl [OF that(1,2), of _ 0] md_block_set(1) [of n i 0] show ?thesis
      by (auto simp: md_ok_def kl_ok_def)
  qed
qed

section \<open>Properties\<close>

text \<open>
  C18: in a well-formed static trie \<^verbatim>\<open>stcursor::find\<close> ends without following a dangling
  pointer, finds a slot exactly when the key is stored, and the value read from it is the one
  stored under that key.
\<close>

theorem stcursor_find_correct:
  assumes "static_trie mn_ops mn_ok h root A" and "key_ok k"
  shows "\<exists>r. stcursor_find h root k = Some r \<and> r \<noteq> St_Fault \<and>
    (\<forall>v. st_value mn_ops h r = Some v \<longleftrightarrow> stored mn_ops h root (key_string k) v)"
  unfolding stcursor_find_def
  by (rule mn.find_correct [OF assms mn.fits_all [OF assms(1)]])

text \<open>
  C19: \<^verbatim>\<open>update\<close> of a stored key replaces the value of that key and of no other; of a key
  that is not stored it changes nothing. The trie stays well-formed.
\<close>

theorem stcursor_update_correct:
  assumes "static_trie mn_ops mn_ok h root A" and "key_ok k"
  shows "\<exists>r h'. stcursor_update h root k nv = Some (r, h') \<and> static_trie mn_ops mn_ok h' root A \<and>
    (if \<exists>v. stored mn_ops h root (key_string k) v
     then (\<exists>q i. r = St_Found q i) \<and>
       (\<forall>t w. stored mn_ops h' root t w \<longleftrightarrow>
          (if t = key_string k then w = lvs_of_value nv else stored mn_ops h root t w))
     else r = St_NotFound \<and> h' = h)"
  unfolding stcursor_update_def
  by (rule mn.update_correct [OF assms mn.fits_all [OF assms(1)]])

text \<open>
  C20: \<^verbatim>\<open>remove\<close> of a stored key deletes that key and no other, and keeps the trie
  well-formed, provided the key's slot is the first among the slots with the same slice. For keys
  of one length up to eight every slot is.
\<close>

theorem stcursor_remove_correct:
  assumes "static_trie mn_ops mn_ok h root A" and "key_ok k"
    and "\<And>q i n. stcursor_find h root k = Some (St_Found q i) \<Longrightarrow> h q = Some n \<Longrightarrow>
      first_of_slice mn_ops n i"
  shows "\<exists>r h'. stcursor_remove h root k = Some (r, h') \<and> static_trie mn_ops mn_ok h' root A \<and>
    (if \<exists>v. stored mn_ops h root (key_string k) v
     then (\<exists>q i. r = St_Found q i) \<and>
       (\<forall>t w. stored mn_ops h' root t w \<longleftrightarrow> t \<noteq> key_string k \<and> stored mn_ops h root t w)
     else r = St_NotFound \<and> h' = h)"
  unfolding stcursor_remove_def
  by (rule mn.remove_correct [OF assms(1,2) mn.fits_all [OF assms(1)]])
    (use assms(3) in \<open>auto simp: stcursor_find_def\<close>)

text \<open>
  C21: \<^verbatim>\<open>stcursor_multivalue::find\<close> is right as well for a key whose slice, in every node on
  its way, occurs only in slots of the key's own length class.
\<close>

theorem stcursor_multivalue_find_correct:
  assumes "static_trie mv_ops mv_ok h root A" and "key_ok k" and "fits_path mv_ops mv_fits h root k"
  shows "\<exists>r. stcursor_multivalue_find h root k = Some r \<and> r \<noteq> St_Fault \<and>
    (\<forall>v. st_value mv_ops h r = Some v \<longleftrightarrow> stored mv_ops h root (key_string k) v)"
  unfolding stcursor_multivalue_find_def by (rule mv.find_correct [OF assms])

text \<open>
  \<^verbatim>\<open>stcursor_dynamicvalue::remove\<close> deletes exactly the key it is given, when the key's
  slice is its own in every node on its way, and hands the row of that key, and no other, to the
  deallocator.
\<close>

theorem stcursor_dynamicvalue_remove_correct:
  assumes "static_trie md_ops md_ok h root A" and "key_ok k" and "fits_path md_ops md_fits h root k"
    and "\<And>q i n. stcursor_dynamicvalue_find h root k = Some (St_Found q i) \<Longrightarrow> h q = Some n \<Longrightarrow>
      first_of_slice md_ops n i"
  shows "\<exists>r h' row. stcursor_dynamicvalue_remove h root k = Some (r, h', row) \<and>
    static_trie md_ops md_ok h' root A \<and> (\<forall>v. row = Some v \<longleftrightarrow> stored md_ops h root (key_string k) v) \<and>
    (\<forall>t w. stored md_ops h' root t w \<longleftrightarrow> t \<noteq> key_string k \<and> stored md_ops h root t w)"
proof -
  obtain r h' where r: "st_remove md_ops h root k = Some (r, h')" "static_trie md_ops md_ok h' root A"
    and e: "if \<exists>v. stored md_ops h root (key_string k) v
     then (\<exists>q i. r = St_Found q i) \<and>
       (\<forall>t w. stored md_ops h' root t w \<longleftrightarrow> t \<noteq> key_string k \<and> stored md_ops h root t w)
     else r = St_NotFound \<and> h' = h"
    using md.remove_correct [OF assms(1-3)] assms(4) by (auto simp: stcursor_dynamicvalue_find_def)
  have "st_find md_ops h root k = Some r" using r(1) by (auto simp: st_remove_def)
  with md.find_correct [OF assms(1-3)]
  have "st_value md_ops h r = Some v \<longleftrightarrow> stored md_ops h root (key_string k) v" for v by auto
  with r e show ?thesis by (auto simp: stcursor_dynamicvalue_remove_def split: if_splits)
qed

text \<open>
  C22: \<^verbatim>\<open>destroy\<close> frees every node of the trie exactly once and nothing else (a second
  free, or one of a dangling pointer, would make the result \<open>None\<close>).
\<close>

theorem stcursor_destroy_correct:
  assumes "static_trie mn_ops mn_ok h root A"
  shows "stcursor_destroy h root = Some (\<lambda>q. if q \<in> set A then None else h q)"
  unfolding stcursor_destroy_def by (rule mn.destroy_correct [OF assms])

text \<open>\<^verbatim>\<open>subtree_size\<close> of a multivalue trie is the sum of the sizes of its nodes, each counted once.\<close>

theorem mv_subtree_size_correct:
  assumes "static_trie mv_ops mv_ok h root A"
  shows "mv_subtree_size h root = Some (\<Sum>q \<in># mset A. mv_size (the (h q))) \<and>
    mv_subtree_value_size h root = Some (\<Sum>q \<in># mset A. mv_vsize (the (h q)))"
proof -
  have "root \<noteq> 0" using assms by (auto elim: static_trieE)
  then show ?thesis
    using mv.size_forest [of h 0 "[root]" "[A]"] assms
    by (simp add: mv_subtree_size_def mv_subtree_value_size_def)
qed

section \<open>Concrete tries\<close>

text \<open>
  A root with the keys \<open>a\<close>, \<open>bbbbbbbbc\<close> (with a suffix) and a layer for \<open>cccccccc\<close>, in which
  \<open>d\<close> is stored.
\<close>

definition sample_root :: "node_slot list" where
  "sample_root = [(1, slice_of [97], 7, []), (9, slice_of [98, 98, 98, 98, 98, 98, 98, 98], 8, [99]),
     (128, slice_of [99, 99, 99, 99, 99, 99, 99, 99], 2, [])]"

definition sample_child :: "node_slot list" where
  "sample_child = [(1, slice_of [100], 9, [])]"

definition sample_heap :: "massnode node_heap" where
  "sample_heap = [1 \<mapsto> mn_of sample_root, 2 \<mapsto> mn_of sample_child]"

definition key_of_bytes :: "byte list \<Rightarrow> mkey" where
  "key_of_bytes bs = key_make (mem_of 0 bs) 0 (int (length bs))"

lemma key_of_bytes [simp]: "key_ok (key_of_bytes bs)" "key_string (key_of_bytes bs) = bs"
  by (simp_all add: key_of_bytes_def key_ok_make key_string_make)

definition slots_sorted :: "node_slot list \<Rightarrow> bool" where
  "slots_sorted xs \<longleftrightarrow> sorted_wrt (\<lambda>x y. slot_ikey x < slot_ikey y \<or>
     slot_ikey x = slot_ikey y \<and> kl_rank (slot_kl x) < kl_rank (slot_kl y)) xs"

lemma mn_ok_of:
  "slots_fit xs \<Longrightarrow> slots_sorted xs \<Longrightarrow> \<forall>x \<in> set xs. kl_ok (slot_kl x) \<Longrightarrow> mn_ok (mn_of xs)"
  by (auto simp: mn_ok_def mn_of_block node_sorted_def mn_of_get slots_sorted_def sorted_wrt_iff_nth_less)

lemma sample_trie: "static_trie mn_ops mn_ok sample_heap 1 [1, 2]"
proof -
  note defs = sample_heap_def sample_root_def sample_child_def
  have child: "static_trie mn_ops mn_ok sample_heap 2 (2 # concat [])"
  proof (rule static_trie.node)
    show "sample_heap 2 = Some (mn_of sample_child)" by (simp add: sample_heap_def)
    show "mn_ok (mn_of sample_child)"
      by (rule mn_ok_of) (auto simp: sample_child_def slots_fit_def suf_offset_def slots_sorted_def kl_ok_def)
    show "list_all2 (static_trie mn_ops mn_ok sample_heap) (op_layers mn_ops (mn_of sample_child)) []"
      by (simp add: op_layers_def sample_child_def mn_of_get keylenx_is_layer_def)
  qed simp_all
  have "static_trie mn_ops mn_ok sample_heap 1 (1 # concat [[2]])"
  proof (rule static_trie.node)
    show "sample_heap 1 = Some (mn_of sample_root)" by (simp add: sample_heap_def)
    show "mn_ok (mn_of sample_root)"
      by (rule mn_ok_of) (auto simp: sample_root_def slots_fit_def suf_offset_def slots_sorted_def kl_ok_def
          keylenx_is_layer_def slice_of_less_iff pad8_def)
    have "op_layers mn_ops (mn_of sample_root) = [2]"
      by (simp add: op_layers_def sample_root_def mn_of_get keylenx_is_layer_def upt_rec)
    with child show "list_all2 (static_trie mn_ops mn_ok sample_heap) (op_layers mn_ops (mn_of sample_root)) [[2]]"
      by simp
  qed simp_all
  then show ?thesis by simp
qed


text \<open>What the sample trie stores, read off its nodes.\<close>

lemma sample_stored:
  "stored mn_ops sample_heap 1 [97] 7"
  "stored mn_ops sample_heap 1 [98, 98, 98, 98, 98, 98, 98, 98, 99] 8"
  "stored mn_ops sample_heap 1 [99, 99, 99, 99, 99, 99, 99, 99, 100] 9"
proof -
  have root: "sample_heap 1 = Some (mn_of sample_root)" and child: "sample_heap 2 = Some (mn_of sample_child)"
    by (simp_all add: sample_heap_def)
  have fit: "slots_fit sample_root" by (simp add: slots_fit_def suf_offset_def sample_root_def)
  note get = mn_of_get mn_of_ksuf [OF _ fit] slot_stores_def Let_def kl_rank_def keylenx_is_layer_def
    slot_rank_def sample_root_def sample_child_def
  show "stored mn_ops sample_heap 1 [97] 7"
    by (rule stored.here [of _ _ "mn_of sample_root" 0]) (use root in \<open>simp_all add: get\<close>)
  show "stored mn_ops sample_heap 1 [98, 98, 98, 98, 98, 98, 98, 98, 99] 8"
    by (rule stored.here [of _ _ "mn_of sample_root" 1])
      (use root mn_of_ksuf [of 1, OF _ fit] in \<open>simp_all add: get slice_of_eq_iff pad8_def\<close>)
  show "stored mn_ops sample_heap 1 [99, 99, 99, 99, 99, 99, 99, 99, 100] 9"
  proof (rule stored.below [of _ _ "mn_of sample_root" 2])
    have "stored mn_ops sample_heap 2 [100] 9"
      by (rule stored.here [of _ _ "mn_of sample_child" 0]) (use child in \<open>simp_all add: get\<close>)
    then show "stored mn_ops sample_heap (op_lv mn_ops (mn_of sample_root) 2)
        (drop 8 [99, 99, 99, 99, 99, 99, 99, 99, 100]) 9"
      by (simp add: get)
  qed (use root in \<open>simp_all add: get slice_of_eq_iff pad8_def\<close>)
qed

text \<open>Evaluation of a search over concrete nodes.\<close>

lemma key_of_bytes_fields [simp]:
  "k_ikey0 (key_of_bytes bs) = slice_of bs" "k_len (key_of_bytes bs) = int (length bs)"
  by (simp_all add: key_of_bytes_def key_make_def make_comparable_eq)

lemmas search_eval = st_descend.simps [of _ "_ :: 'n node_heap" "numeral _"] st_descend.simps [of _ "_ :: 'n node_heap" 1]
  st_lower_bound_binary_def st_lower_bound_loop.simps key_compare_mn_def key_compare_mv_def
  key_compare_ikey_def key_compare_len_def compare_def Let_def keylenx_is_layer_def
  slice_of_eq_iff slice_of_less_iff pad8_def mn_ksuf_equals_def mv_ksuf_equals_def keylenx_has_ksuf_def

lemma sample_find: "stcursor_find sample_heap 1 (key_of_bytes [97]) = Some (St_Found 1 0)"
  by (simp add: stcursor_find_def st_find_def sample_heap_def sample_root_def search_eval mn_of_get)

theorem stcursor_find_correct_witness:
  "\<exists>r. stcursor_find sample_heap 1 (key_of_bytes [99, 99, 99, 99, 99, 99, 99, 99, 100]) = Some r \<and>
     st_value mn_ops sample_heap r = Some 9"
  using stcursor_find_correct [OF sample_trie, of "key_of_bytes [99, 99, 99, 99, 99, 99, 99, 99, 100]"]
    sample_stored(3) by auto

theorem stcursor_update_correct_witness:
  "\<exists>r h'. stcursor_update sample_heap 1 (key_of_bytes [97]) [1, 2, 3, 4, 5, 6, 7, 8] = Some (r, h') \<and>
     stored mn_ops h' 1 [97] (lvs_of_value [1, 2, 3, 4, 5, 6, 7, 8]) \<and>
     stored mn_ops h' 1 [98, 98, 98, 98, 98, 98, 98, 98, 99] 8"
proof -
  have "\<exists>v. stored mn_ops sample_heap 1 [97] v" using sample_stored(1) by blast
  then show ?thesis
    using stcursor_update_correct [OF sample_trie, of "key_of_bytes [97]" "[1, 2, 3, 4, 5, 6, 7, 8]"]
      sample_stored(2) by auto
qed

theorem stcursor_remove_correct_witness:
  "\<exists>r h'. stcursor_remove sample_heap 1 (key_of_bytes [97]) = Some (r, h') \<and>
     (\<forall>v. \<not> stored mn_ops h' 1 [97] v) \<and> stored mn_ops h' 1 [98, 98, 98, 98, 98, 98, 98, 98, 99] 8"
proof -
  have "\<exists>v. stored mn_ops sample_heap 1 [97] v" using sample_stored(1) by blast
  then show ?thesis
    using stcursor_remove_correct [OF sample_trie, of "key_of_bytes [97]"] sample_find
      sample_stored(2) by (auto simp: first_of_slice_def)
qed

theorem stcursor_destroy_correct_witness:
  "\<exists>h. stcursor_destroy sample_heap 1 = Some h \<and> h 1 = None \<and> h 2 = None"
  using stcursor_destroy_correct [OF sample_trie] by simp

text \<open>The same for the two kinds of node with the weaker comparator.\<close>

definition pair_slots :: "node_slot list" where
  "pair_slots = [(1, slice_of [97], 7, []), (9, slice_of [98, 98, 98, 98, 98, 98, 98, 98], 8, [99])]"

definition pair_heap_mv :: "massnode_multivalue node_heap" where
  "pair_heap_mv = [1 \<mapsto> mv_of [] pair_slots]"

definition pair_heap_md :: "massnode_dynamicvalue node_heap" where
  "pair_heap_md = [1 \<mapsto> md_of pair_slots]"

lemma mv_ok_of:
  "slots_fit xs \<Longrightarrow> slots_sorted xs \<Longrightarrow> \<forall>x \<in> set xs. kl_ok (slot_kl x) \<Longrightarrow> mv_ok (mv_of vals xs)"
  by (auto simp: mv_ok_def mv_of_block node_sorted_def mv_of_get slots_sorted_def sorted_wrt_iff_nth_less)

lemma md_ok_of:
  "slots_fit xs \<Longrightarrow> slots_sorted xs \<Longrightarrow> \<forall>x \<in> set xs. kl_ok (slot_kl x) \<Longrightarrow> md_ok (md_of xs)"
  by (auto simp: md_ok_def md_of_block node_sorted_def md_of_get slots_sorted_def sorted_wrt_iff_nth_less)

text \<open>A trie of one node without layers.\<close>

lemma leaf_trie:
  assumes "h p = Some n" "p \<noteq> 0" "ok n" "op_layers ops n = []"
  shows "static_trie ops ok h p [p]"
  using static_trie.node [of h p n ok ops "[]"] assms by simp

lemma leaf_fits:
  assumes "h p = Some n" "fits n k" "op_layers ops n = []"
  shows "fits_path ops fits h p k"
proof (rule fits_path.step [of h p n fits k, OF assms(1,2)], intro allI impI)
  fix i
  assume "i < op_nkeys ops n" "keylenx_is_layer (op_ikeylen ops n i)"
  then have "op_lv ops n i \<in> set (op_layers ops n)" by (auto simp: op_layers_def)
  with assms(3) show "fits_path ops fits h (op_lv ops n i) (key_shift k)" by simp
qed

lemma pair_slots_ok:
  "slots_fit pair_slots" "slots_sorted pair_slots" "\<forall>x \<in> set pair_slots. kl_ok (slot_kl x)"
  by (simp_all add: pair_slots_def slots_fit_def suf_offset_def slots_sorted_def kl_ok_def
      slice_of_less_iff pad8_def)

lemma pair_layers: "op_layers mv_ops (mv_of [] pair_slots) = []" "op_layers md_ops (md_of pair_slots) = []"
  by (simp_all add: op_layers_def pair_slots_def mv_of_get md_of_get keylenx_is_layer_def upt_rec)

lemma pair_trie:
  "static_trie mv_ops mv_ok pair_heap_mv 1 [1]" "static_trie md_ops md_ok pair_heap_md 1 [1]"
  using leaf_trie [of pair_heap_mv 1 _ mv_ok, OF _ _ mv_ok_of [OF pair_slots_ok] pair_layers(1)]
    leaf_trie [of pair_heap_md 1 _ md_ok, OF _ _ md_ok_of [OF pair_slots_ok] pair_layers(2)]
  by (simp_all add: pair_heap_mv_def pair_heap_md_def)

lemma pair_fits:
  "fits_path mv_ops mv_fits pair_heap_mv 1 (key_of_bytes [97])"
  "fits_path md_ops md_fits pair_heap_md 1 (key_of_bytes [97])"
proof -
  have "mv_fits (mv_of [] pair_slots) (key_of_bytes [97])" "md_fits (md_of pair_slots) (key_of_bytes [97])"
    by (simp_all add: mv_fits_def md_fits_def pair_slots_def less_Suc_eq mv_of_get md_of_get kl_rank_def
        keylenx_is_layer_def slot_rank_def slice_of_eq_iff pad8_def)
  then show "fits_path mv_ops mv_fits pair_heap_mv 1 (key_of_bytes [97])"
    "fits_path md_ops md_fits pair_heap_md 1 (key_of_bytes [97])"
    using leaf_fits [of pair_heap_mv 1] leaf_fits [of pair_heap_md 1] pair_layers
    by (simp_all add: pair_heap_mv_def pair_heap_md_def)
qed

lemma pair_stored:
  "stored mv_ops pair_heap_mv 1 [97] 7" "stored md_ops pair_heap_md 1 [97] 7"
proof -
  note get = mv_of_get md_of_get slot_stores_def kl_rank_def keylenx_is_layer_def
    slot_rank_def pair_slots_def pair_heap_mv_def pair_heap_md_def
  show "stored mv_ops pair_heap_mv 1 [97] 7"
    by (rule stored.here [of _ _ "mv_of [] pair_slots" 0]) (simp_all add: get)
  show "stored md_ops pair_heap_md 1 [97] 7"
    by (rule stored.here [of _ _ "md_of pair_slots" 0]) (simp_all add: get)
qed

theorem stcursor_multivalue_find_correct_witness:
  "\<exists>r. stcursor_multivalue_find pair_heap_mv 1 (key_of_bytes [97]) = Some r \<and>
     st_value mv_ops pair_heap_mv r = Some 7"
  using stcursor_multivalue_find_correct [OF pair_trie(1) _ pair_fits(1)] pair_stored(1) by auto

lemma pair_find_md: "stcursor_dynamicvalue_find pair_heap_md 1 (key_of_bytes [97]) = Some (St_Found 1 0)"
  by (simp add: stcursor_dynamicvalue_find_def st_find_def pair_heap_md_def pair_slots_def search_eval
      key_compare_md_def md_ksuf_equals_def md_of_get)

theorem stcursor_dynamicvalue_remove_correct_witness:
  "\<exists>r h'. stcursor_dynamicvalue_remove pair_heap_md 1 (key_of_bytes [97]) = Some (r, h', Some 7) \<and>
     (\<forall>v. \<not> stored md_ops h' 1 [97] v)"
  using stcursor_dynamicvalue_remove_correct [OF pair_trie(2) _ pair_fits(2)] pair_stored(2) pair_find_md
  by (auto simp: first_of_slice_def)

theorem mv_subtree_size_correct_witness:
  "mv_subtree_size pair_heap_mv 1 = Some (mv_size (mv_of [] pair_slots))"
  using mv_subtree_size_correct [OF pair_trie(1)] by (simp add: pair_heap_mv_def)

subsection \<open>Where the cursors go wrong\<close>

lemma slice_zeros: "slice_of [97, 0] = slice_of [97]" "slice_of [97, 0, 0] = slice_of [97]"
  by (simp_all add: slice_of_eq_iff pad8_def numeral_eq_Suc)

definition clash_slots :: "node_slot list" where
  "clash_slots = [(2, slice_of [97, 0], 5, [])]"

text \<open>
  C39: a multivalue trie that stores only the two-byte key \<open>a\<close>, zero byte, reports the
  one-byte key \<open>a\<close> as present: \<^verbatim>\<open>key_compare\<close> drops the comparison of lengths, and no later
  test of \<^verbatim>\<open>find\<close> looks at the length again.
\<close>

theorem stcursor_multivalue_find_clash:
  "static_trie mv_ops mv_ok [1 \<mapsto> mv_of [] clash_slots] 1 [1] \<and>
   (\<forall>v. \<not> stored mv_ops [1 \<mapsto> mv_of [] clash_slots] 1 [97] v) \<and>
   stcursor_multivalue_find [1 \<mapsto> mv_of [] clash_slots] 1 (key_of_bytes [97]) = Some (St_Found 1 0)"
proof (intro conjI allI)
  have ok: "mv_ok (mv_of [] clash_slots)"
    by (rule mv_ok_of) (simp_all add: clash_slots_def slots_fit_def suf_offset_def slots_sorted_def kl_ok_def)
  show "static_trie mv_ops mv_ok [1 \<mapsto> mv_of [] clash_slots] 1 [1]"
    by (rule leaf_trie [of _ _ _ mv_ok, OF _ _ ok])
      (simp_all add: clash_slots_def op_layers_def mv_of_get keylenx_is_layer_def upt_rec)
  show "\<not> stored mv_ops [1 \<mapsto> mv_of [] clash_slots] 1 [97] v" for v
    by (rule mv.stored_no_slot [OF ok])
      (simp_all add: clash_slots_def mv_of_get kl_rank_def slot_rank_def keylenx_is_layer_def)
  show "stcursor_multivalue_find [1 \<mapsto> mv_of [] clash_slots] 1 (key_of_bytes [97]) = Some (St_Found 1 0)"
    by (simp add: stcursor_multivalue_find_def st_find_def clash_slots_def search_eval mv_of_get slice_zeros)
qed

definition chain_slots :: "node_slot list" where
  "chain_slots = [(1, slice_of [97], 5, []), (2, slice_of [97, 0], 6, []), (3, slice_of [97, 0, 0], 7, [])]"

text \<open>
  C40: invalidating a slot by writing the length 0 breaks the order of its node when a slot of the
  same slice stands before it: after removing \<open>a\<close>, zero byte, the key \<open>a\<close>, still in its slot, is
  not found any more.
\<close>

theorem stcursor_remove_breaks_order:
  "\<exists>h'. stcursor_find [1 \<mapsto> mn_of chain_slots] 1 (key_of_bytes [97]) = Some (St_Found 1 0) \<and>
     stcursor_remove [1 \<mapsto> mn_of chain_slots] 1 (key_of_bytes [97, 0]) = Some (St_Found 1 1, h') \<and>
     stored mn_ops h' 1 [97] 5 \<and>
     stcursor_find h' 1 (key_of_bytes [97]) = Some St_NotFound"
proof -
  let ?n = "mn_of chain_slots"
  define m where "m = mn_set_ikeylen ?n 1 0"
  have len: "mn_get_ksuf ?n \<le> length (mn_mem ?n)"
    using mn_of_block [of chain_slots] by (simp add: chain_slots_def slots_fit_def suf_offset_def mn_block_def)
  have nk: "mn_nkeys m = 3"
    using mn_set_ikeylen_laws(5) [OF len, of 1 1] by (simp add: chain_slots_def m_def)
  have kl: "mn_ikeylen m q = (if q = 1 then 0 else slot_kl (chain_slots ! q))"
    and ik: "mn_ikey m q = slot_ikey (chain_slots ! q)"
    and lv: "mn_lv m q = slot_lv (chain_slots ! q)" if "q < 3" for q
    using mn_set_ikeylen_laws(1-3) [OF len, of 1 q] that by (auto simp: chain_slots_def mn_of_get m_def)
  note eval = stcursor_find_def st_find_def chain_slots_def search_eval mn_of_get
  have "stcursor_find [1 \<mapsto> ?n] 1 (key_of_bytes [97]) = Some (St_Found 1 0)"
    by (simp add: eval slice_zeros)
  moreover have "stcursor_remove [1 \<mapsto> ?n] 1 (key_of_bytes [97, 0]) = Some (St_Found 1 1, [1 \<mapsto> m])"
    by (simp add: stcursor_remove_def st_remove_def eval slice_zeros m_def)
  moreover have "stored mn_ops [1 \<mapsto> m] 1 [97] 5"
    by (rule stored.here [of _ _ m 0])
      (simp_all add: nk slot_stores_def kl ik lv kl_rank_def slot_rank_def keylenx_is_layer_def chain_slots_def)
  moreover have "stcursor_find [1 \<mapsto> m] 1 (key_of_bytes [97]) = Some St_NotFound"
    by (simp add: stcursor_find_def st_find_def search_eval nk kl ik chain_slots_def slice_zeros)
  ultimately show ?thesis by blast
qed

end
