(* ===== verification/Kpermuter.thy ===== *)
theory Kpermuter
  imports Prelude "HOL-Library.Multiset"
begin

text \<open>
  \<^verbatim>\<open>hybrid_index/kpermuter.hh\<close>: the permutation of the slots of a leaf, packed into one
  64-bit word: the lowest four bits hold the number of used slots, nibble \<open>i + 1\<close> the slot at
  position \<open>i\<close>. Positions up to \<^verbatim>\<open>size()\<close> are in use, the others are free and allocated from
  the back. The instance with 64-bit values is modelled, for the widths 8 to 15 that use it (the lemmas hold below, too); \<open>w\<close> is the
  template parameter \<^verbatim>\<open>width\<close>.

  The abstraction is the list \<open>kp_elems w x\<close> of all \<open>w\<close> slots with the number \<open>kp_size x\<close>. Each
  operation is shown to be an operation on that list, and to keep it a permutation.
\<close>

section \<open>Operations\<close>

definition kp_initial :: u64 where
  "kp_initial = 0x0123456789ABCDE0"

definition kp_full :: u64 where
  "kp_full = 0xEDCBA98765432100"

definition kp_make_empty :: "nat \<Rightarrow> u64" where
  "kp_make_empty w = (let p = drop_bit (4 * (15 - w)) kp_initial in p AND NOT 15)"

definition kp_make_sorted :: "nat \<Rightarrow> nat \<Rightarrow> u64" where
  "kp_make_sorted w n =
     (let m = (if n = w then 0 else push_bit (4 * n) 16) - 1
      in push_bit (4 * n) (kp_make_empty w) OR (kp_full AND m) OR word_of_nat n)"

definition kp_size :: "u64 \<Rightarrow> nat" where
  "kp_size x = unat (x AND 15)"

definition kp_at :: "u64 \<Rightarrow> nat \<Rightarrow> nat" where
  "kp_at x i = unat (drop_bit (4 * i + 4) x AND 15)"

definition kp_back :: "nat \<Rightarrow> u64 \<Rightarrow> nat" where
  "kp_back w x = kp_at x (w - 1)"

definition kp_value_from :: "u64 \<Rightarrow> nat \<Rightarrow> u64" where
  "kp_value_from x i = drop_bit (4 * (i + 1)) x"

definition kp_set_size :: "u64 \<Rightarrow> nat \<Rightarrow> u64" where
  "kp_set_size x n = (x AND NOT 15) OR word_of_nat n"

text \<open>The slot allocated, and the new permuter.\<close>

definition kp_insert_from_back :: "nat \<Rightarrow> u64 \<Rightarrow> nat \<Rightarrow> nat \<times> u64" where
  "kp_insert_from_back w x i =
     (let value = kp_back w x in
      (value,
       ((x + 1) AND (push_bit (4 * i) 16 - 1))
         OR push_bit (4 * i + 4) (word_of_nat value)
         OR (push_bit 4 x AND NOT (push_bit (4 * i) 256 - 1))))"

definition kp_insert_selected :: "u64 \<Rightarrow> nat \<Rightarrow> nat \<Rightarrow> u64" where
  "kp_insert_selected x di si =
     (let value = kp_at x si; m = push_bit (4 * si) 256 - 1 in
      ((x + 1) AND (push_bit (4 * di) 16 - 1))
        OR push_bit (4 * di + 4) (word_of_nat value)
        OR ((push_bit 4 x AND m) AND NOT (push_bit (4 * di) 256 - 1))
        OR (x AND NOT m))"

definition kp_remove :: "u64 \<Rightarrow> nat \<Rightarrow> u64" where
  "kp_remove x i =
     (if kp_size x = i + 1 then x - 1
      else
        (let rot_amount = 4 * (kp_size x - i - 1);
             rot_mask = push_bit (4 * (i + 1)) (push_bit rot_amount 16 - 1) in
         ((x - 1) AND NOT rot_mask)
           OR (drop_bit 4 (x AND rot_mask) AND rot_mask)
           OR (push_bit rot_amount (x AND rot_mask) AND rot_mask)))"

definition kp_remove_to_back :: "nat \<Rightarrow> u64 \<Rightarrow> nat \<Rightarrow> u64" where
  "kp_remove_to_back w x0 i =
     (let m = NOT (push_bit (4 * i) 16 - 1); x = x0 AND (push_bit (4 * w) 16 - 1) in
      ((x - 1) AND NOT m)
        OR (drop_bit 4 x AND m)
        OR push_bit (4 * (w - i - 1)) (x AND m))"

definition kp_rotate :: "nat \<Rightarrow> u64 \<Rightarrow> nat \<Rightarrow> nat \<Rightarrow> u64" where
  "kp_rotate w x0 i j =
     (let m = (if i = w then 0 else push_bit (4 * i) 16) - 1; x = x0 AND (push_bit (4 * w) 16 - 1) in
      (x AND m)
        OR (drop_bit (4 * (j - i)) x AND NOT m)
        OR push_bit (4 * (w - j)) (x AND NOT m))"

definition kp_exchange :: "u64 \<Rightarrow> nat \<Rightarrow> nat \<Rightarrow> u64" where
  "kp_exchange x i j =
     (let diff = (drop_bit (4 * i) x XOR drop_bit (4 * j) x) AND 240
      in x XOR (push_bit (4 * i) diff OR push_bit (4 * j) diff))"

text \<open>The loop of \<^verbatim>\<open>exchange_values\<close> with \<open>k\<close> rounds to go.\<close>

fun kp_exchange_values_loop :: "nat \<Rightarrow> u64 \<Rightarrow> u64 \<Rightarrow> nat \<Rightarrow> u64 \<Rightarrow> u64 \<Rightarrow> u64" where
  "kp_exchange_values_loop w a b 0 diff p = diff"
| "kp_exchange_values_loop w a b (Suc k) diff p =
     (let v = drop_bit (4 * w) p AND 15;
          diff' = diff XOR (if v = a \<or> v = b then a XOR b else 0)
      in kp_exchange_values_loop w a b k (push_bit 4 diff') (push_bit 4 p))"

definition kp_exchange_values :: "nat \<Rightarrow> u64 \<Rightarrow> nat \<Rightarrow> nat \<Rightarrow> u64" where
  "kp_exchange_values w x a b =
     x XOR kp_exchange_values_loop w (word_of_nat a) (word_of_nat b) w 0 x"

section \<open>Nibbles\<close>

definition nibble :: "u64 \<Rightarrow> nat \<Rightarrow> nat" where
  "nibble x i = unat (drop_bit (4 * i) x AND 15)"

lemma and_15: "x AND 15 = take_bit 4 (x :: u64)"
proof -
  have "(15 :: u64) = mask 4" by (simp add: mask_eq_exp_minus_1)
  then show ?thesis by (simp add: take_bit_eq_mask)
qed

lemma nibble_bits: "nibble x i = take_bit 4 (drop_bit (4 * i) (unat x))"
  by (simp only: nibble_def and_15 unsigned_take_bit_eq unat_drop_bit_eq)

lemma nibble_div: "nibble x i = unat x div 16 ^ i mod 16"
proof -
  have "(2 :: nat) ^ (4 * i) = 16 ^ i" by (simp add: power_mult)
  then show ?thesis by (simp add: nibble_bits take_bit_eq_mod drop_bit_eq_div)
qed

lemma nibble_less [simp]: "nibble x i < 16"
  by (simp add: nibble_div)

lemma nibble_zero [simp]: "nibble 0 i = 0"
  by (simp add: nibble_def)

lemma bit_nibble: "bit (nibble x i) b \<longleftrightarrow> b < 4 \<and> bit x (4 * i + b)"
  by (auto simp: nibble_bits bit_take_bit_iff bit_drop_bit_eq bit_unsigned_iff dest: bit_imp_le_length)

lemma nibble_beyond: "16 \<le> i \<Longrightarrow> nibble x i = 0"
  by (rule bit_eqI) (auto simp: bit_nibble dest: bit_imp_le_length)

lemma nibble_push [simp]:
  "nibble (push_bit (4 * n) x) k = (if k < n \<or> 16 \<le> k then 0 else nibble x (k - n))"
proof (rule bit_eqI)
  fix b
  have "4 * n \<le> 4 * k + b \<longleftrightarrow> n \<le> k" if "b < 4" using that by arith
  moreover have "4 * k + b < 64 \<longleftrightarrow> k < 16" if "b < 4" using that by arith
  moreover have "4 * k + b - 4 * n = 4 * (k - n) + b" if "n \<le> k" using that by arith
  ultimately show "bit (nibble (push_bit (4 * n) x) k) b \<longleftrightarrow>
      bit (if k < n \<or> 16 \<le> k then 0 else nibble x (k - n)) b"
    by (auto simp: bit_nibble bit_push_bit_iff)
qed

lemma nibble_drop [simp]: "nibble (drop_bit (4 * n) x) k = nibble x (k + n)"
  by (rule bit_eqI) (simp add: bit_nibble bit_drop_bit_eq algebra_simps)

lemma nibble_mask [simp]: "nibble (x AND mask (4 * n)) k = (if k < n then nibble x k else 0)"
proof (rule bit_eqI)
  fix b
  have "4 * k + b < 4 * n \<longleftrightarrow> k < n" if "b < 4" using that by arith
  then show "bit (nibble (x AND mask (4 * n)) k) b \<longleftrightarrow> bit (if k < n then nibble x k else 0) b"
    by (auto simp: bit_nibble bit_and_iff bit_mask_iff dest: bit_imp_le_length)
qed

lemma nibble_not_mask [simp]: "nibble (x AND NOT (mask (4 * n))) k = (if k < n then 0 else nibble x k)"
proof (rule bit_eqI)
  fix b
  have "4 * k + b < 4 * n \<longleftrightarrow> k < n" if "b < 4" using that by arith
  then show "bit (nibble (x AND NOT (mask (4 * n))) k) b \<longleftrightarrow> bit (if k < n then 0 else nibble x k) b"
    by (auto simp: bit_nibble bit_and_iff bit_not_iff bit_mask_iff dest: bit_imp_le_length)
qed

lemma nibble_or [simp]: "nibble (x OR y) k = (nibble x k OR nibble y k)"
  by (rule bit_eqI) (auto simp: bit_nibble bit_or_iff)

lemma nibble_xor [simp]: "nibble (x XOR y) k = (nibble x k XOR nibble y k)"
  by (rule bit_eqI) (auto simp: bit_nibble bit_xor_iff)

lemma word_eq_nibbles: "(\<And>k. k < 16 \<Longrightarrow> nibble x k = nibble y k) \<Longrightarrow> x = y"
proof (rule bit_word_eqI)
  fix n
  assume eq: "\<And>k. k < 16 \<Longrightarrow> nibble x k = nibble y k" and "n < LENGTH(64)"
  then have "nibble x (n div 4) = nibble y (n div 4)" by simp
  then have "bit (nibble x (n div 4)) (n mod 4) = bit (nibble y (n div 4)) (n mod 4)" by simp
  then show "bit x n = bit y n" by (simp add: bit_nibble)
qed

lemma nibble_small: "n < 16 \<Longrightarrow> nibble (word_of_nat n) k = (if k = 0 then n else 0)"
proof -
  assume "n < 16"
  then have u: "unat (word_of_nat n :: u64) = n" by (simp add: unat_of_nat)
  show ?thesis
  proof (cases k)
    case (Suc j)
    then have "n < 16 ^ k" using \<open>n < 16\<close> less_le_trans [of n 16 "16 * 16 ^ j"] by simp
    with u Suc show ?thesis by (simp add: nibble_div)
  qed (use u \<open>n < 16\<close> in \<open>simp add: nibble_div\<close>)
qed

lemma div_16_inc: "(n :: nat) mod 16 < 15 \<Longrightarrow> (n + 1) div 16 = n div 16 \<and> (n + 1) mod 16 = n mod 16 + 1"
  by (simp add: div_Suc mod_Suc)

lemma div_16_Suc: "(n :: nat) div 16 ^ Suc j = n div 16 div 16 ^ j"
  by (simp add: div_mult2_eq)

lemma nibble_inc:
  assumes "nibble x 0 < 15"
  shows "nibble (x + 1) k = (if k = 0 then nibble x 0 + 1 else nibble x k)"
proof -
  have "x \<noteq> - 1"
  proof
    assume "x = - 1"
    then have "nibble x 0 = 15" by (simp add: nibble_def)
    with assms show False by simp
  qed
  then have "1 + x \<noteq> 0" by (metis add.commute add_eq_0_iff)
  then have u: "unat (x + 1) = unat x + 1" by (simp add: unatSuc add.commute)
  have m: "unat x mod 16 < 15" using assms by (simp add: nibble_div)
  show ?thesis
  proof (cases k)
    case 0
    then show ?thesis using div_16_inc [OF m] by (simp only: nibble_div u) simp
  next
    case (Suc j)
    then show ?thesis using div_16_inc [OF m] by (simp only: nibble_div u div_16_Suc) simp
  qed
qed

lemma nibble_dec:
  assumes "0 < nibble x 0"
  shows "nibble (x - 1) k = (if k = 0 then nibble x 0 - 1 else nibble x k)"
proof -
  have "x \<noteq> 0" using assms by auto
  then have u: "unat (x - 1) = unat x - 1" by (rule unat_minus_one)
  have "(n - 1) mod 16 < 15" if "0 < n mod 16" for n :: nat
    using that mod_less_divisor [of 16 "n - 1"] by (cases n) (auto simp: mod_Suc split: if_splits)
  then have "nibble (x - 1) 0 < 15" using assms by (simp only: nibble_div u) simp
  from nibble_inc [OF this] show ?thesis by simp
qed

section \<open>The code's masks and shifts as nibbles\<close>

lemma code_masks:
  "push_bit (4 * i) 16 - 1 = (mask (4 * (i + 1)) :: u64)"
  "push_bit (4 * i) 256 - 1 = (mask (4 * (i + 2)) :: u64)"
  by (simp_all add: mask_eq_exp_minus_1 push_bit_eq_mult power_add)

lemma code_minus_1: "(- 1 :: u64) = mask (4 * 16)" "(15 :: u64) = mask (4 * 1)"
  by (simp_all add: mask_eq_exp_minus_1)

lemma kp_size_nibble: "kp_size x = nibble x 0"
  by (simp add: kp_size_def nibble_def)

lemma kp_at_nibble: "kp_at x i = nibble x (i + 1)"
  by (simp add: kp_at_def nibble_def algebra_simps)

lemma nibble_push_code [simp]:
  "nibble (push_bit (4 * n + 4) x) k = (if k < n + 1 \<or> 16 \<le> k then 0 else nibble x (k - (n + 1)))"
  "nibble (push_bit 4 x) k = (if k < 1 \<or> 16 \<le> k then 0 else nibble x (k - 1))"
  "nibble (drop_bit 4 x) k = nibble x (k + 1)"
  using nibble_push [of "n + 1" x k] nibble_push [of 1 x k] nibble_drop [of 1 x k]
  by (simp_all add: algebra_simps)

lemma nibble_mask_code [simp]:
  "nibble (x AND mask (4 + 4 * n)) k = (if k \<le> n then nibble x k else 0)"
  "nibble (x AND mask (8 + 4 * n)) k = (if k \<le> n + 1 then nibble x k else 0)"
  "nibble (x AND NOT (mask (4 + 4 * n))) k = (if k \<le> n then 0 else nibble x k)"
  "nibble (x AND NOT (mask (8 + 4 * n))) k = (if k \<le> n + 1 then 0 else nibble x k)"
  using nibble_mask [of x "n + 1" k] nibble_mask [of x "n + 2" k]
    nibble_not_mask [of x "n + 1" k] nibble_not_mask [of x "n + 2" k]
  by (simp_all add: algebra_simps less_Suc_eq_le)

section \<open>The permutation as a list\<close>

definition kp_elems :: "nat \<Rightarrow> u64 \<Rightarrow> nat list" where
  "kp_elems w x = map (kp_at x) [0..<w]"

lemma length_kp_elems [simp]: "length (kp_elems w x) = w"
  by (simp add: kp_elems_def)

lemma kp_elems_nth [simp]: "i < w \<Longrightarrow> kp_elems w x ! i = nibble x (i + 1)"
  by (simp add: kp_elems_def kp_at_nibble)

lemma kp_elems_eqI:
  "length ys = w \<Longrightarrow> (\<And>i. i < w \<Longrightarrow> nibble x (i + 1) = ys ! i) \<Longrightarrow> kp_elems w x = ys"
  by (rule nth_equalityI) auto

lemma kp_insert_nibbles:
  assumes "i < w" "w \<le> 15" "kp_size x < w"
  shows "nibble (snd (kp_insert_from_back w x i)) k =
    (if 16 \<le> k then 0 else if k = 0 then nibble x 0 + 1 else if k \<le> i then nibble x k
     else if k = i + 1 then nibble x w else nibble x (k - 1))"
proof -
  have b: "kp_back w x = nibble x w" using assms by (simp add: kp_back_def kp_at_nibble)
  have inc: "nibble (x + 1) k = (if k = 0 then nibble x 0 + 1 else nibble x k)"
    using assms by (intro nibble_inc) (simp add: kp_size_nibble)
  consider "16 \<le> k" | "k \<le> i" "k < 16" | "k = i + 1" "k < 16" | "i + 1 < k" "k < 16" by linarith
  then show ?thesis
    by cases (auto simp: kp_insert_from_back_def Let_def code_masks b inc nibble_small nibble_beyond)
qed

lemma kp_insert_elems:
  assumes "i < w" "w \<le> 15" "kp_size x < w"
  shows "fst (kp_insert_from_back w x i) = last (kp_elems w x)"
    and "kp_size (snd (kp_insert_from_back w x i)) = kp_size x + 1"
    and "kp_elems w (snd (kp_insert_from_back w x i)) =
      take i (kp_elems w x) @ [last (kp_elems w x)] @ drop i (butlast (kp_elems w x))"
proof -
  have ne: "kp_elems w x \<noteq> []" using assms(1) by (auto simp: kp_elems_def)
  then have last: "last (kp_elems w x) = nibble x w" using assms by (simp add: last_conv_nth)
  show "fst (kp_insert_from_back w x i) = last (kp_elems w x)"
    unfolding last using assms by (simp add: kp_insert_from_back_def Let_def kp_back_def kp_at_nibble)
  show "kp_size (snd (kp_insert_from_back w x i)) = kp_size x + 1"
    by (simp add: kp_size_nibble kp_insert_nibbles [OF assms])
  show "kp_elems w (snd (kp_insert_from_back w x i)) =
      take i (kp_elems w x) @ [last (kp_elems w x)] @ drop i (butlast (kp_elems w x))"
    by (rule kp_elems_eqI)
      (use assms last in \<open>auto simp: kp_insert_nibbles [OF assms] nth_append nth_butlast\<close>)
qed

lemma kp_insert_selected_nibbles:
  assumes "di \<le> si" "si < w" "w \<le> 15" "kp_size x < w"
  shows "nibble (kp_insert_selected x di si) k =
    (if 16 \<le> k then 0 else if k = 0 then nibble x 0 + 1 else if k \<le> di then nibble x k
     else if k = di + 1 then nibble x (si + 1) else if k \<le> si + 1 then nibble x (k - 1) else nibble x k)"
proof -
  have inc: "nibble (x + 1) k = (if k = 0 then nibble x 0 + 1 else nibble x k)"
    using assms by (intro nibble_inc) (simp add: kp_size_nibble)
  consider "16 \<le> k" | "k \<le> di" "k < 16" | "k = di + 1" "k < 16" | "di + 1 < k" "k \<le> si + 1" "k < 16"
    | "si + 1 < k" "k < 16" by linarith
  then show ?thesis
    using assms(1)
    by cases (auto simp: kp_insert_selected_def Let_def code_masks kp_at_nibble inc nibble_small nibble_beyond)
qed

lemma kp_insert_selected_elems:
  assumes "di \<le> si" "si < w" "w \<le> 15" "kp_size x < w"
  shows "kp_size (kp_insert_selected x di si) = kp_size x + 1"
    and "kp_elems w (kp_insert_selected x di si) =
      take di (kp_elems w x) @ [kp_elems w x ! si] @ drop di (take si (kp_elems w x)) @ drop (si + 1) (kp_elems w x)"
proof -
  show "kp_size (kp_insert_selected x di si) = kp_size x + 1"
    by (simp add: kp_size_nibble kp_insert_selected_nibbles [OF assms])
  show "kp_elems w (kp_insert_selected x di si) =
      take di (kp_elems w x) @ [kp_elems w x ! si] @ drop di (take si (kp_elems w x)) @ drop (si + 1) (kp_elems w x)"
    by (rule kp_elems_eqI)
      (use assms in \<open>auto simp: kp_insert_selected_nibbles [OF assms] nth_append\<close>)
qed

lemma nibble_not_and:
  "nibble (x AND NOT y) k = (if nibble y k = 15 then 0 else if nibble y k = 0 then nibble x k else nibble (x AND NOT y) k)"
proof -
  have "nibble (x AND NOT y) k = 0" if "nibble y k = 15"
  proof (rule bit_eqI)
    fix b
    have "bit (15 :: nat) b \<longleftrightarrow> b < 4"
      using bit_mask_iff [of 4 b, where ?'a = nat] by (simp add: mask_eq_exp_minus_1)
    then have "b < 4 \<longleftrightarrow> b < 4 \<and> bit y (4 * k + b)" using that bit_nibble [of y k b] by simp
    then show "bit (nibble (x AND NOT y) k) b \<longleftrightarrow> bit (0 :: nat) b"
      by (auto simp: bit_nibble bit_and_iff bit_not_iff)
  qed
  moreover have "nibble (x AND NOT y) k = nibble x k" if "nibble y k = 0"
  proof (rule bit_eqI)
    fix b
    have "\<not> (b < 4 \<and> bit y (4 * k + b))" using that bit_nibble [of y k b] by simp
    then show "bit (nibble (x AND NOT y) k) b \<longleftrightarrow> bit (nibble x k) b"
      by (auto simp: bit_nibble bit_and_iff bit_not_iff dest: bit_imp_le_length)
  qed
  ultimately show ?thesis by simp
qed

lemma nibble_and:
  "nibble (x AND y) k = (if nibble y k = 15 then nibble x k else if nibble y k = 0 then 0 else nibble (x AND y) k)"
proof -
  have "nibble (x AND y) k = nibble x k" if "nibble y k = 15"
  proof (rule bit_eqI)
    fix b
    have "bit (15 :: nat) b \<longleftrightarrow> b < 4"
      using bit_mask_iff [of 4 b, where ?'a = nat] by (simp add: mask_eq_exp_minus_1)
    then have "b < 4 \<longleftrightarrow> b < 4 \<and> bit y (4 * k + b)" using that bit_nibble [of y k b] by simp
    then show "bit (nibble (x AND y) k) b \<longleftrightarrow> bit (nibble x k) b"
      by (auto simp: bit_nibble bit_and_iff)
  qed
  moreover have "nibble (x AND y) k = 0" if "nibble y k = 0"
  proof (rule bit_eqI)
    fix b
    have "\<not> (b < 4 \<and> bit y (4 * k + b))" using that bit_nibble [of y k b] by simp
    then show "bit (nibble (x AND y) k) b \<longleftrightarrow> bit (0 :: nat) b"
      by (auto simp: bit_nibble bit_and_iff)
  qed
  ultimately show ?thesis by simp
qed

lemma nibble_mask_word: "nibble (mask (4 * n)) k = (if k < n \<and> k < 16 then 15 else 0)"
proof -
  have "nibble (- 1) k = (if k < 16 then 15 else 0)"
  proof (cases "k < 16")
    case True
    show ?thesis
    proof (rule bit_eqI)
      fix b
      have "bit (15 :: nat) b \<longleftrightarrow> b < 4"
        using bit_mask_iff [of 4 b, where ?'a = nat] by (simp add: mask_eq_exp_minus_1)
      then show "bit (nibble (- 1) k) b \<longleftrightarrow> bit (if k < 16 then 15 else (0 :: nat)) b"
        using True by (auto simp: bit_nibble)
    qed
  qed (simp add: nibble_beyond)
  with nibble_mask [of "- 1" n k] show ?thesis by simp
qed

text \<open>The mask of the positions \<open>a\<close> to \<open>b\<close> that \<^verbatim>\<open>remove\<close> rotates.\<close>

lemma nibble_rot_mask:
  "nibble (push_bit (4 * a) (mask (4 * n))) k = (if a \<le> k \<and> k < a + n \<and> k < 16 then 15 else 0)"
  by (auto simp: nibble_mask_word)

lemma kp_remove_nibbles:
  assumes "i < kp_size x" "kp_size x \<le> w" "w \<le> 15"
  shows "nibble (kp_remove x i) k =
    (if 16 \<le> k then 0 else if k = 0 then nibble x 0 - 1 else if k \<le> i then nibble x k
     else if k < kp_size x then nibble x (k + 1)
     else if k = kp_size x then nibble x (i + 1) else nibble x k)"
proof (cases "kp_size x = i + 1")
  case True
  then show ?thesis
    using assms by (auto simp: kp_remove_def nibble_dec nibble_beyond kp_size_nibble)
next
  case False
  define n where "n = kp_size x"
  have n: "i + 1 < n" "n \<le> 15" "0 < nibble x 0" using False assms by (auto simp: n_def kp_size_nibble)
  have eq: "4 * (n - i - 1) + 4 = 4 * (n - i)" using n by arith
  define m where "m = (push_bit (4 * (i + 1)) (mask (4 * (n - i))) :: u64)"
  define y where "y = x AND m"
  have m: "push_bit (4 * (i + 1)) (push_bit (4 * (n - i - 1)) 16 - 1) = m"
    using n by (simp only: code_masks m_def) (simp add: Suc_diff_Suc)
  have rm: "nibble m k = (if i + 1 \<le> k \<and> k \<le> n \<and> k < 16 then 15 else 0)" for k
    using n nibble_rot_mask [of "i + 1" "n - i" k] by (auto simp: m_def)
  have a: "nibble ((x - 1) AND NOT m) k =
      (if k = 0 then nibble x 0 - 1 else if i + 1 \<le> k \<and> k \<le> n then 0 else nibble x k)" for k
    using n rm [of k] nibble_not_and [of "x - 1" m k] nibble_dec [OF n(3), of k]
    by (auto simp: nibble_beyond)
  have y: "nibble y k = (if i + 1 \<le> k \<and> k \<le> n then nibble x k else 0)" for k
    using n rm [of k] nibble_and [of x m k] by (auto simp: y_def)
  have b: "nibble (drop_bit 4 y AND m) k = (if i + 1 \<le> k \<and> k < n then nibble x (k + 1) else 0)" for k
  proof (cases "i + 1 \<le> k \<and> k \<le> n")
    case True
    then show ?thesis using n rm [of k] nibble_and [of "drop_bit 4 y" m k] y [of "k + 1"] by simp
  next
    case False
    then have "nibble m k = 0" using rm [of k] by auto
    then show ?thesis using False nibble_and [of "drop_bit 4 y" m k] by auto
  qed
  have c: "nibble (push_bit (4 * (n - i - 1)) y AND m) k = (if k = n then nibble x (i + 1) else 0)" for k
    using n rm [of k] nibble_and [of "push_bit (4 * (n - i - 1)) y" m k] y [of "k - (n - i - 1)"]
      nibble_push [of "n - i - 1" y k]
    by auto
  have "kp_remove x i = ((x - 1) AND NOT m) OR (drop_bit 4 y AND m) OR (push_bit (4 * (n - i - 1)) y AND m)"
    using False unfolding kp_remove_def Let_def n_def [symmetric] m y_def by (simp add: n_def)
  then show ?thesis
    using n a [of k] b [of k] c [of k] by (auto simp: nibble_beyond simp flip: n_def)
qed

lemma kp_remove_elems:
  assumes "i < kp_size x" "kp_size x \<le> w" "w \<le> 15"
  shows "kp_size (kp_remove x i) = kp_size x - 1"
    and "kp_elems w (kp_remove x i) = take i (kp_elems w x) @ drop (i + 1) (take (kp_size x) (kp_elems w x)) @
      [kp_elems w x ! i] @ drop (kp_size x) (kp_elems w x)"
proof -
  show "kp_size (kp_remove x i) = kp_size x - 1"
    by (simp add: kp_size_nibble kp_remove_nibbles [OF assms])
  show "kp_elems w (kp_remove x i) = take i (kp_elems w x) @ drop (i + 1) (take (kp_size x) (kp_elems w x)) @
      [kp_elems w x ! i] @ drop (kp_size x) (kp_elems w x)"
    by (rule kp_elems_eqI)
      (use assms in \<open>auto simp: kp_remove_nibbles [OF assms] nth_append nth_Cons' min_def\<close>)
qed

lemma kp_remove_to_back_nibbles:
  assumes "i < kp_size x" "kp_size x \<le> w" "w \<le> 15" "k \<le> w"
  shows "nibble (kp_remove_to_back w x i) k =
    (if k = 0 then nibble x 0 - 1 else if k \<le> i then nibble x k
     else if k < w then nibble x (k + 1) else nibble x (i + 1))"
proof -
  define y where "y = x AND mask (4 * (w + 1))"
  have y: "nibble y k = (if k \<le> w then nibble x k else 0)" for k
    by (auto simp: y_def simp del: mult_Suc_right)
  have dec: "nibble (y - 1) k = (if k = 0 then nibble x 0 - 1 else nibble y k)" for k
    using nibble_dec [of y k] y [of 0] assms(1) by (simp add: kp_size_nibble)
  have iw: "i < w" using assms by simp
  have eq: "kp_remove_to_back w x i =
      ((y - 1) AND mask (4 * (i + 1))) OR (drop_bit 4 y AND NOT (mask (4 * (i + 1)))) OR
      push_bit (4 * (w - i - 1)) (y AND NOT (mask (4 * (i + 1))))"
    by (simp add: kp_remove_to_back_def Let_def code_masks y_def del: mult_Suc_right)
  consider "k \<le> i" | "i < k" "k < w" | "k = w" using assms(4) by linarith
  then show ?thesis
    unfolding eq nibble_or nibble_mask nibble_not_mask nibble_push nibble_push_code dec y
    using assms(3) iw by cases auto
qed

lemma kp_remove_to_back_elems:
  assumes "i < kp_size x" "kp_size x \<le> w" "w \<le> 15"
  shows "kp_size (kp_remove_to_back w x i) = kp_size x - 1"
    and "kp_elems w (kp_remove_to_back w x i) =
      take i (kp_elems w x) @ drop (i + 1) (kp_elems w x) @ [kp_elems w x ! i]"
proof -
  show "kp_size (kp_remove_to_back w x i) = kp_size x - 1"
    by (simp add: kp_size_nibble kp_remove_to_back_nibbles [OF assms])
  show "kp_elems w (kp_remove_to_back w x i) =
      take i (kp_elems w x) @ drop (i + 1) (kp_elems w x) @ [kp_elems w x ! i]"
    by (rule kp_elems_eqI)
      (use assms in \<open>auto simp: kp_remove_to_back_nibbles [OF assms] nth_append nth_Cons' min_def\<close>)
qed

lemma kp_rotate_nibbles:
  assumes "i \<le> j" "j \<le> w" "w \<le> 15" "k \<le> w"
  shows "nibble (kp_rotate w x i j) k =
    (if k \<le> i then nibble x k else if k + (j - i) \<le> w then nibble x (k + (j - i)) else nibble x (k - (w - j)))"
proof -
  define y where "y = x AND mask (4 * (w + 1))"
  have y: "nibble y k = (if k \<le> w then nibble x k else 0)" for k
    by (auto simp: y_def simp del: mult_Suc_right)
  show ?thesis
  proof (cases "i = w")
    case True
    then have ij: "i = j" using assms by simp
    have "kp_rotate w x i j = y"
      using True ij by (simp add: kp_rotate_def Let_def code_masks y_def del: mult_Suc_right)
    then show ?thesis using y [of k] assms True by (simp add: ij)
  next
    case False
    have "kp_rotate w x i j = (y AND mask (4 * (i + 1))) OR (drop_bit (4 * (j - i)) y AND NOT (mask (4 * (i + 1)))) OR
        push_bit (4 * (w - j)) (y AND NOT (mask (4 * (i + 1))))"
      using False by (simp add: kp_rotate_def Let_def code_masks y_def del: mult_Suc_right)
    then have n: "nibble (kp_rotate w x i j) k = ((if k < i + 1 then nibble y k else 0) OR
        (if k < i + 1 then 0 else nibble y (k + (j - i))) OR
        (if k < w - j \<or> 16 \<le> k then 0 else if k - (w - j) < i + 1 then 0 else nibble y (k - (w - j))))"
      by (simp only: nibble_or nibble_mask nibble_not_mask nibble_push nibble_drop)
    consider (low) "k \<le> i" | (mid) "i < k" "k + (j - i) \<le> w" | (high) "i < k" "w < k + (j - i)" by linarith
    then show ?thesis
    proof cases
      case low
      then have "k < w - j \<or> k - (w - j) < i + 1" by arith
      then have c: "(if k < w - j \<or> 16 \<le> k then 0 else if k - (w - j) < i + 1 then 0 else nibble y (k - (w - j))) = 0"
        by auto
      show ?thesis unfolding n c using low assms by (simp add: y)
    next
      case mid
      then have "k < w - j \<or> k - (w - j) < i + 1" using assms by arith
      then have c: "(if k < w - j \<or> 16 \<le> k then 0 else if k - (w - j) < i + 1 then 0 else nibble y (k - (w - j))) = 0"
        by auto
      show ?thesis unfolding n c using mid assms by (simp add: y)
    next
      case high
      then have "\<not> k < w - j" "\<not> k - (w - j) < i + 1" "\<not> 16 \<le> k" "k - (w - j) \<le> w" using assms by arith+
      with high assms show ?thesis unfolding n y by simp
    qed
  qed
qed

text \<open>Rotation goes over all \<open>w\<close> positions from \<open>i\<close> on, the free ones included.\<close>

lemma kp_rotate_elems:
  assumes "i \<le> j" "j \<le> w" "w \<le> 15"
  shows "kp_size (kp_rotate w x i j) = kp_size x"
    and "kp_elems w (kp_rotate w x i j) =
      take i (kp_elems w x) @ drop j (kp_elems w x) @ drop i (take j (kp_elems w x))"
proof -
  show "kp_size (kp_rotate w x i j) = kp_size x"
    by (simp add: kp_size_nibble kp_rotate_nibbles [OF assms])
  show "kp_elems w (kp_rotate w x i j) =
      take i (kp_elems w x) @ drop j (kp_elems w x) @ drop i (take j (kp_elems w x))"
  proof (rule kp_elems_eqI)
    fix k
    assume k: "k < w"
    have n: "nibble (kp_rotate w x i j) (k + 1) =
        (if k < i then nibble x (k + 1) else if k < w - (j - i) then nibble x (k + 1 + (j - i))
         else nibble x (k + 1 - (w - j)))"
      using kp_rotate_nibbles [OF assms, of "k + 1" x] k assms by auto
    show "nibble (kp_rotate w x i j) (k + 1) =
        (take i (kp_elems w x) @ drop j (kp_elems w x) @ drop i (take j (kp_elems w x))) ! k"
      unfolding n using k assms by (auto simp: nth_append min_def add.commute Suc_diff_le)
  qed (use assms in auto)
qed

lemma nibble_and_240: "nibble (y AND 240) k = (if k = 1 then nibble y 1 else 0)"
proof -
  have e: "(240 :: u64) = push_bit (4 * 1) (mask (4 * 1))" by (simp add: mask_eq_exp_minus_1)
  have "nibble 240 k = (if k = 1 then 15 else 0)"
    unfolding e nibble_rot_mask by auto
  with nibble_and [of y "240" k] show ?thesis by auto
qed

lemma kp_exchange_nibbles:
  assumes "i < 15" "j < 15"
  shows "nibble (kp_exchange x i j) k =
    (if k = i + 1 then nibble x (j + 1) else if k = j + 1 then nibble x (i + 1) else nibble x k)"
proof -
  define d where "d = (drop_bit (4 * i) x XOR drop_bit (4 * j) x) AND 240"
  have d: "nibble d k = (if k = 1 then nibble x (i + 1) XOR nibble x (j + 1) else 0)" for k
    by (simp add: d_def nibble_and_240 del: bit_xor_iff)
  have e: "kp_exchange x i j = x XOR (push_bit (4 * i) d OR push_bit (4 * j) d)"
    by (simp add: kp_exchange_def Let_def d_def)
  have cancel: "a XOR (a XOR b) = b" "a XOR (b XOR a) = b" "a XOR a = 0" for a b :: nat
    by (metis xor.assoc xor_self_eq xor.left_neutral, metis xor.assoc xor.commute xor_self_eq xor.left_neutral, simp)
  have self: "a OR a = a" for a :: nat by simp
  consider "k = i + 1" "k = j + 1" | "k = i + 1" "k \<noteq> j + 1" | "k \<noteq> i + 1" "k = j + 1" | "k \<noteq> i + 1" "k \<noteq> j + 1"
    by blast
  then show ?thesis
    unfolding e nibble_xor nibble_or nibble_push d using assms by cases (auto simp: cancel)
qed

lemma kp_exchange_elems:
  assumes "i < w" "j < w" "w \<le> 15"
  shows "kp_size (kp_exchange x i j) = kp_size x"
    and "kp_elems w (kp_exchange x i j) =
      (kp_elems w x)[i := kp_elems w x ! j, j := kp_elems w x ! i]"
proof -
  have ij: "i < 15" "j < 15" using assms by auto
  show "kp_size (kp_exchange x i j) = kp_size x"
    by (simp add: kp_size_nibble kp_exchange_nibbles [OF ij])
  show "kp_elems w (kp_exchange x i j) = (kp_elems w x)[i := kp_elems w x ! j, j := kp_elems w x ! i]"
    by (rule kp_elems_eqI) (use assms in \<open>auto simp: kp_exchange_nibbles [OF ij] nth_list_update\<close>)
qed

text \<open>The loop collects \<open>a XOR b\<close> at the nibbles that hold \<open>a\<close> or \<open>b\<close>.\<close>

definition exchange_diff :: "nat \<Rightarrow> nat \<Rightarrow> u64 \<Rightarrow> nat \<Rightarrow> nat" where
  "exchange_diff a b x k = (if nibble x k = a \<or> nibble x k = b then a XOR b else 0)"

lemma exchange_values_loop:
  assumes "a < 16" "b < 16" "w \<le> 15"
  shows "n \<le> w \<Longrightarrow> \<forall>k. nibble diff k = (if 1 \<le> k \<and> k \<le> w - n then exchange_diff a b x (k + n) else 0) \<Longrightarrow>
    nibble (kp_exchange_values_loop w (word_of_nat a) (word_of_nat b) n diff (push_bit (4 * (w - n)) x)) k =
      (if 1 \<le> k \<and> k \<le> w then exchange_diff a b x k else 0)"
proof (induction n arbitrary: diff)
  case 0
  then show ?case by simp
next
  case (Suc m)
  let ?p = "push_bit (4 * (w - Suc m)) x"
  define v where "v = drop_bit (4 * w) ?p AND 15"
  define d where "d = diff XOR (if v = word_of_nat a \<or> v = word_of_nat b then word_of_nat a XOR word_of_nat b else 0)"
  have "unat v = nibble ?p w" unfolding v_def by (rule nibble_def [symmetric])
  also have "\<dots> = nibble x (Suc m)"
  proof -
    have "w - (w - Suc m) = Suc m" "\<not> w < w - Suc m" using Suc.prems(1) by simp_all
    then show ?thesis using assms(3) by (simp only: nibble_push) simp
  qed
  finally have "unat v = nibble x (Suc m)" .
  then have v: "v = word_of_nat c \<longleftrightarrow> nibble x (Suc m) = c" if "c < 16" for c
    using that by (auto simp: word_unat_eq_iff unat_of_nat)
  have "nibble (if v = word_of_nat a \<or> v = word_of_nat b then word_of_nat a XOR word_of_nat b else 0) k =
      (if k = 0 then exchange_diff a b x (Suc m) else 0)" for k
    using v assms by (auto simp: exchange_diff_def nibble_small)
  then have d: "nibble d k = (if k = 0 then exchange_diff a b x (Suc m) else nibble diff k)" for k
    using Suc.prems(2) by (simp add: d_def)
  have shift: "push_bit 4 ?p = push_bit (4 * (w - m)) x"
    using Suc.prems(1) by (simp add: push_bit_push_bit Suc_diff_Suc flip: mult_Suc_right)
  have "nibble (push_bit 4 d) k = (if 1 \<le> k \<and> k \<le> w - m then exchange_diff a b x (k + m) else 0)" for k
    using Suc.prems assms(3) d [of "k - 1"] by (cases k) auto
  then have "nibble (kp_exchange_values_loop w (word_of_nat a) (word_of_nat b) m (push_bit 4 d) (push_bit (4 * (w - m)) x)) k =
      (if 1 \<le> k \<and> k \<le> w then exchange_diff a b x k else 0)"
    using Suc.prems(1) by (intro Suc.IH) auto
  then show ?case
    by (simp only: kp_exchange_values_loop.simps Let_def v_def [symmetric] d_def [symmetric] shift)
qed

lemma kp_exchange_values_elems:
  assumes "a < 16" "b < 16" "w \<le> 15"
  shows "kp_size (kp_exchange_values w x a b) = kp_size x"
    and "kp_elems w (kp_exchange_values w x a b) =
      map (\<lambda>v. if v = a then b else if v = b then a else v) (kp_elems w x)"
proof -
  have n: "nibble (kp_exchange_values w x a b) k =
      (nibble x k XOR (if 1 \<le> k \<and> k \<le> w then exchange_diff a b x k else 0))" for k
    using exchange_values_loop [OF assms, of w 0 x k] by (simp add: kp_exchange_values_def)
  have cancel: "c XOR (c XOR d) = d" "d XOR (c XOR d) = c" for c d :: nat
    by (metis xor.assoc xor_self_eq xor.left_neutral, metis xor.assoc xor.commute xor_self_eq xor.left_neutral)
  show "kp_size (kp_exchange_values w x a b) = kp_size x" by (simp add: kp_size_nibble n)
  show "kp_elems w (kp_exchange_values w x a b) =
      map (\<lambda>v. if v = a then b else if v = b then a else v) (kp_elems w x)"
    by (rule kp_elems_eqI) (auto simp: n exchange_diff_def cancel)
qed

lemma kp_constants:
  "map (nibble kp_initial) [0..<16] = [0, 14, 13, 12, 11, 10, 9, 8, 7, 6, 5, 4, 3, 2, 1, 0]"
  "map (nibble kp_full) [0..<16] = [0, 0, 1, 2, 3, 4, 5, 6, 7, 8, 9, 10, 11, 12, 13, 14]"
  by code_simp+

lemma kp_initial_nibble: "nibble kp_initial j = 15 - j * of_bool (1 \<le> j) - 15 * of_bool (j = 0)"
proof (cases "j < 16")
  case True
  then have "nibble kp_initial j = map (nibble kp_initial) [0..<16] ! j" by simp
  also have "\<dots> = 15 - j * of_bool (1 \<le> j) - 15 * of_bool (j = 0)"
    using True unfolding kp_constants by (auto simp: less_Suc_eq numeral_eq_Suc)
  finally show ?thesis .
qed (simp add: nibble_beyond)

lemma kp_full_nibble: "j < 16 \<Longrightarrow> nibble kp_full j = j - 1"
proof -
  assume j: "j < 16"
  then have "nibble kp_full j = map (nibble kp_full) [0..<16] ! j" by simp
  also have "\<dots> = j - 1" using j unfolding kp_constants by (auto simp: less_Suc_eq numeral_eq_Suc)
  finally show ?thesis .
qed

lemma kp_make_empty_nibbles:
  assumes "w \<le> 15"
  shows "nibble (kp_make_empty w) k = (if 1 \<le> k \<and> k \<le> w then w - k else 0)"
proof -
  have "kp_make_empty w = drop_bit (4 * (15 - w)) kp_initial AND NOT (mask (4 * 1))"
    by (simp only: kp_make_empty_def Let_def code_minus_1)
  then have "nibble (kp_make_empty w) k = (if k < 1 then 0 else nibble kp_initial (k + (15 - w)))"
    by (simp only: nibble_not_mask nibble_drop)
  then show ?thesis using assms by (auto simp: kp_initial_nibble)
qed

lemma kp_make_sorted_nibbles:
  assumes "n \<le> w" "w \<le> 15" "k \<le> w"
  shows "nibble (kp_make_sorted w n) k = (if k = 0 then n else if k \<le> n then k - 1 else w - (k - n))"
proof -
  have full: "nibble (kp_full AND ((if n = w then 0 else push_bit (4 * n) 16) - 1)) k = (if k \<le> n then k - 1 else 0)"
  proof (cases "n = w")
    case True
    then show ?thesis using assms kp_full_nibble [of k] by simp
  next
    case False
    then have "(if n = w then 0 else push_bit (4 * n) (16 :: u64)) - 1 = mask (4 * (n + 1))"
      by (simp only: code_masks if_False)
    then show ?thesis using assms kp_full_nibble [of k]
      by (simp only: nibble_mask) auto
  qed
  have n: "nibble (word_of_nat n) k = (if k = 0 then n else 0)"
    using assms by (intro nibble_small) simp
  show ?thesis
    unfolding kp_make_sorted_def Let_def nibble_or full n nibble_push kp_make_empty_nibbles [OF assms(2)]
    using assms by auto
qed

lemma kp_make_elems:
  assumes "n \<le> w" "w \<le> 15"
  shows "kp_size (kp_make_empty w) = 0" and "kp_elems w (kp_make_empty w) = rev [0..<w]"
    and "kp_size (kp_make_sorted w n) = n" and "kp_elems w (kp_make_sorted w n) = [0..<n] @ rev [n..<w]"
proof -
  show "kp_size (kp_make_empty w) = 0" "kp_size (kp_make_sorted w n) = n"
    using assms by (simp_all add: kp_size_nibble kp_make_empty_nibbles kp_make_sorted_nibbles)
  show "kp_elems w (kp_make_empty w) = rev [0..<w]"
    by (rule kp_elems_eqI) (use assms in \<open>auto simp: kp_make_empty_nibbles rev_nth\<close>)
  show "kp_elems w (kp_make_sorted w n) = [0..<n] @ rev [n..<w]"
    by (rule kp_elems_eqI) (use assms in \<open>auto simp: kp_make_sorted_nibbles nth_append rev_nth\<close>)
qed

lemma kp_set_size_elems:
  assumes "n < 16" "w \<le> 15"
  shows "kp_size (kp_set_size x n) = n" and "kp_elems w (kp_set_size x n) = kp_elems w x"
proof -
  have nib: "nibble (kp_set_size x n) k = (if k = 0 then n else nibble x k)" for k
    using assms(1) nibble_not_mask [of x 1 k]
    by (cases "k < 16") (auto simp: kp_set_size_def code_minus_1(2) nibble_small nibble_beyond)
  show "kp_size (kp_set_size x n) = n" by (simp add: kp_size_nibble nib)
  show "kp_elems w (kp_set_size x n) = kp_elems w x" by (rule kp_elems_eqI) (simp_all add: nib)
qed

lemma kp_value_from_nibble: "nibble (kp_value_from x i) k = nibble x (k + i + 1)"
  using nibble_drop [of "i + 1" x k] by (simp add: kp_value_from_def ac_simps)

section \<open>The permutation is kept\<close>

text \<open>A well-formed permuter holds every slot once.\<close>

definition kp_ok :: "nat \<Rightarrow> u64 \<Rightarrow> bool" where
  "kp_ok w x \<longleftrightarrow> kp_size x \<le> w \<and> mset (kp_elems w x) = mset [0..<w]"

lemma mset_take_drop: "mset (take i xs) + mset (drop i xs) = mset xs"
  by (metis append_take_drop_id mset_append)

lemma mset_remove_nth: "i < length xs \<Longrightarrow> mset (take i xs) + mset (drop (Suc i) xs) + {#xs ! i#} = mset xs"
  by (subst (4) id_take_nth_drop [of i xs]) simp_all

lemma kp_insert_ok:
  assumes "kp_ok w x" "i < w" "w \<le> 15" "kp_size x < w"
  shows "kp_ok w (snd (kp_insert_from_back w x i))"
proof -
  let ?es = "kp_elems w x"
  have ne: "?es \<noteq> []" using assms(2) by (auto simp: kp_elems_def)
  have "take i ?es = take i (butlast ?es)" using assms(2) by (simp add: take_butlast)
  moreover have "mset ?es = mset (butlast ?es) + {#last ?es#}"
    by (metis append_butlast_last_id ne mset_append mset_single_iff)
  ultimately show ?thesis
    using assms mset_take_drop [of i "butlast ?es"]
    by (simp add: kp_ok_def kp_insert_elems [OF assms(2-4)] ac_simps)
qed

lemma kp_remove_ok:
  assumes "kp_ok w x" "i < kp_size x" "w \<le> 15"
  shows "kp_ok w (kp_remove x i)" and "kp_ok w (kp_remove_to_back w x i)"
proof -
  let ?es = "kp_elems w x" and ?n = "kp_size x"
  have n: "?n \<le> w" using assms(1) by (simp add: kp_ok_def)
  have "mset (take i (take ?n ?es)) + mset (drop (Suc i) (take ?n ?es)) + {#take ?n ?es ! i#} = mset (take ?n ?es)"
    by (rule mset_remove_nth) (use assms(2) n in simp)
  then have "mset (take i ?es) + mset (drop (Suc i) (take ?n ?es)) + {#?es ! i#} + mset (drop ?n ?es) = mset ?es"
    using assms(2) n mset_take_drop [of ?n ?es] by (simp add: min_def)
  then show "kp_ok w (kp_remove x i)"
    using assms n by (simp add: kp_ok_def kp_remove_elems [OF assms(2) n assms(3)] ac_simps)
  show "kp_ok w (kp_remove_to_back w x i)"
    using assms n mset_remove_nth [of i ?es]
    by (simp add: kp_ok_def kp_remove_to_back_elems [OF assms(2) n assms(3)] ac_simps)
qed

lemma kp_rotate_ok:
  assumes "kp_ok w x" "i \<le> j" "j \<le> w" "w \<le> 15"
  shows "kp_ok w (kp_rotate w x i j)"
proof -
  let ?es = "kp_elems w x"
  have "mset (take i ?es) + mset (drop i (take j ?es)) = mset (take j ?es)"
    using mset_take_drop [of i "take j ?es"] assms(2) by (simp add: min_def)
  then show ?thesis
    using assms mset_take_drop [of j ?es]
    by (simp add: kp_ok_def kp_rotate_elems [OF assms(2-4)] ac_simps)
qed

lemma kp_exchange_ok:
  assumes "kp_ok w x" "i < w" "j < w" "w \<le> 15"
  shows "kp_ok w (kp_exchange x i j)"
  using assms mset_swap [of j "kp_elems w x" i]
  by (simp add: kp_ok_def kp_exchange_elems [OF assms(2-4)] list_update_swap)

lemma kp_make_ok:
  assumes "n \<le> w" "w \<le> 15"
  shows "kp_ok w (kp_make_empty w)" and "kp_ok w (kp_make_sorted w n)"
proof -
  have "[0..<w] = [0..<n] @ [n..<w]" using assms(1) by (metis le_add_diff_inverse upt_add_eq_append zero_le)
  then have "mset [0..<w] = mset [0..<n] + mset [n..<w]" by (metis mset_append)
  then show "kp_ok w (kp_make_empty w)" and "kp_ok w (kp_make_sorted w n)"
    using assms by (simp_all add: kp_ok_def kp_make_elems [OF assms])
qed

section \<open>Properties\<close>

text \<open>
  \<^verbatim>\<open>insert_from_back\<close> allocates the slot at the back and puts it at position \<open>i\<close>, shifting
  the later positions up, as its comment lists; it keeps the permutation.
\<close>

theorem kp_insert_from_back_correct:
  assumes "kp_ok w x" "i < w" "w \<le> 15" "kp_size x < w"
  shows "let (v, x') = kp_insert_from_back w x i in
    v = last (kp_elems w x) \<and> kp_size x' = kp_size x + 1 \<and>
    kp_elems w x' = take i (kp_elems w x) @ [v] @ drop i (butlast (kp_elems w x)) \<and> kp_ok w x'"
  using kp_insert_elems [OF assms(2-4)] kp_insert_ok [OF assms]
  by (simp add: Let_def split_beta)

theorem kp_insert_from_back_correct_witness:
  "kp_elems 15 (snd (kp_insert_from_back 15 (kp_make_sorted 15 2) 1)) =
     [0, 2, 1, 14, 13, 12, 11, 10, 9, 8, 7, 6, 5, 4, 3]"
  using kp_insert_from_back_correct [of 15 "kp_make_sorted 15 2" 1] kp_make_ok(2) [of 2 15] kp_make_elems [of 2 15]
  by (simp add: split_beta upt_rec)

text \<open>
  \<^verbatim>\<open>remove\<close> closes the gap at position \<open>i\<close> and keeps the removed slot as the first free
  one, \<^verbatim>\<open>remove_to_back\<close> makes it the last free one; both keep the permutation.
\<close>

theorem kp_remove_correct:
  assumes "kp_ok w x" "i < kp_size x" "w \<le> 15"
  shows "(kp_size (kp_remove x i) = kp_size x - 1 \<and>
      kp_elems w (kp_remove x i) = take i (kp_elems w x) @ drop (i + 1) (take (kp_size x) (kp_elems w x)) @
        [kp_elems w x ! i] @ drop (kp_size x) (kp_elems w x) \<and> kp_ok w (kp_remove x i)) \<and>
    (kp_size (kp_remove_to_back w x i) = kp_size x - 1 \<and>
      kp_elems w (kp_remove_to_back w x i) =
        take i (kp_elems w x) @ drop (i + 1) (kp_elems w x) @ [kp_elems w x ! i] \<and>
      kp_ok w (kp_remove_to_back w x i))"
proof -
  have n: "kp_size x \<le> w" using assms(1) by (simp add: kp_ok_def)
  show ?thesis
    using kp_remove_elems [OF assms(2) n assms(3)] kp_remove_to_back_elems [OF assms(2) n assms(3)]
      kp_remove_ok [OF assms] by simp
qed

theorem kp_remove_correct_witness:
  "kp_elems 8 (kp_remove (kp_make_sorted 8 3) 0) = [1, 2, 0, 7, 6, 5, 4, 3] \<and>
   kp_elems 8 (kp_remove_to_back 8 (kp_make_sorted 8 3) 0) = [1, 2, 7, 6, 5, 4, 3, 0]"
  using kp_remove_correct [of 8 "kp_make_sorted 8 3" 0] kp_make_ok(2) [of 3 8] kp_make_elems [of 3 8]
  by (simp add: upt_rec)

text \<open>
  \<^verbatim>\<open>exchange\<close> swaps two positions and \<^verbatim>\<open>exchange_values\<close> the positions of two
  slots, by masks and a loop over nibbles; neither changes the size.
\<close>

theorem kp_exchange_correct:
  assumes "kp_ok w x" "i < w" "j < w" "a < w" "b < w" "w \<le> 15"
  shows "kp_size (kp_exchange x i j) = kp_size x \<and>
    kp_elems w (kp_exchange x i j) = (kp_elems w x)[i := kp_elems w x ! j, j := kp_elems w x ! i] \<and>
    kp_ok w (kp_exchange x i j) \<and>
    kp_size (kp_exchange_values w x a b) = kp_size x \<and>
    kp_elems w (kp_exchange_values w x a b) =
      map (\<lambda>v. if v = a then b else if v = b then a else v) (kp_elems w x)"
  using kp_exchange_elems [OF assms(2,3,6), of x] kp_exchange_values_elems [of a b w x]
    kp_exchange_ok [OF assms(1-3,6)] assms(4-6) by simp

theorem kp_exchange_correct_witness:
  "kp_elems 8 (kp_exchange (kp_make_sorted 8 8) 1 3) = [0, 3, 2, 1, 4, 5, 6, 7] \<and>
   kp_elems 8 (kp_exchange_values 8 (kp_make_sorted 8 8) 0 4) = [4, 1, 2, 3, 0, 5, 6, 7]"
  using kp_exchange_correct [of 8 "kp_make_sorted 8 8" 1 3 0 4] kp_make_ok(2) [of 8 8] kp_make_elems [of 8 8]
  by (simp add: upt_rec)

text \<open>
  \<^verbatim>\<open>rotate\<close> moves the elements between positions \<open>i\<close> and \<open>j\<close> behind all others, the
  free ones included. Its comment describes a rotation of the used positions alone, which it is
  only when none is free: here position 2 of 3 used ones receives a free slot.
\<close>

theorem kp_rotate_correct:
  assumes "kp_ok w x" "i \<le> j" "j \<le> w" "w \<le> 15"
  shows "kp_size (kp_rotate w x i j) = kp_size x \<and>
    kp_elems w (kp_rotate w x i j) =
      take i (kp_elems w x) @ drop j (kp_elems w x) @ drop i (take j (kp_elems w x)) \<and>
    kp_ok w (kp_rotate w x i j)"
  using kp_rotate_elems [OF assms(2-4), of x] kp_rotate_ok [OF assms] by simp

theorem kp_rotate_correct_witness:
  "kp_size (kp_rotate 15 (kp_make_sorted 15 3) 0 1) = 3 \<and>
   take 3 (kp_elems 15 (kp_rotate 15 (kp_make_sorted 15 3) 0 1)) = [1, 2, 14]"
  using kp_rotate_correct [of 15 "kp_make_sorted 15 3" 0 1] kp_make_ok(2) [of 3 15] kp_make_elems [of 3 15]
  by (simp add: upt_rec)

end
