(* ===== verification/Node_Version.thy ===== *)
theory Node_Version
  imports Prelude
begin

text \<open>
  \<^verbatim>\<open>hybrid_index/nodeversion.hh\<close>: the version word of a node of the dynamic tree. It holds a
  lock bit, two dirty bits, two counters (of inserts and of splits) and four flags; readers take a
  stable snapshot and later compare it with the current word to see whether the node changed. The
  layouts \<^verbatim>\<open>nodeversion32_parameters\<close> and \<^verbatim>\<open>nodeversion64_parameters\<close> are records
  \<open>nv_params\<close>, the methods take the layout as the template does.

  The locale \<open>version_layout\<close> states what the methods need of a layout; both layouts are
  interpretations. \<open>nv_step\<close> lets any number of threads work on one version word: whoever holds
  the lock may mark it and release it. Under it the lock excludes others, dirty bits imply the
  lock, and a snapshot is told from the current word as long as fewer changes happened than the
  split counter can count; the ghost fields of the state count them.
\<close>

section \<open>Layouts\<close>

record 'v nv_params =
  P_lock_bit :: "'v"
  P_inserting_shift :: nat
  P_inserting_bit :: "'v"
  P_splitting_bit :: "'v"
  P_dirty_mask :: "'v"
  P_vinsert_lowbit :: "'v"
  P_vsplit_lowbit :: "'v"
  P_unused1_bit :: "'v"
  P_deleted_bit :: "'v"
  P_root_bit :: "'v"
  P_isleaf_bit :: "'v"
  P_split_unlock_mask :: "'v"
  P_unlock_mask :: "'v"

definition nodeversion32_parameters :: "32 word nv_params" where
  "nodeversion32_parameters =
     \<lparr>P_lock_bit = push_bit 0 1, P_inserting_shift = 1, P_inserting_bit = push_bit 1 1,
      P_splitting_bit = push_bit 2 1, P_dirty_mask = push_bit 1 1 OR push_bit 2 1,
      P_vinsert_lowbit = push_bit 3 1, P_vsplit_lowbit = push_bit 9 1,
      P_unused1_bit = push_bit 28 1, P_deleted_bit = push_bit 29 1, P_root_bit = push_bit 30 1,
      P_isleaf_bit = push_bit 31 1,
      P_split_unlock_mask = NOT (push_bit 30 1 OR push_bit 28 1 OR (push_bit 9 1 - 1)),
      P_unlock_mask = NOT (push_bit 28 1 OR (push_bit 3 1 - 1))\<rparr>"

definition nodeversion64_parameters :: "64 word nv_params" where
  "nodeversion64_parameters =
     \<lparr>P_lock_bit = push_bit 8 1, P_inserting_shift = 9, P_inserting_bit = push_bit 9 1,
      P_splitting_bit = push_bit 10 1, P_dirty_mask = push_bit 9 1 OR push_bit 10 1,
      P_vinsert_lowbit = push_bit 11 1, P_vsplit_lowbit = push_bit 27 1,
      P_unused1_bit = push_bit 60 1, P_deleted_bit = push_bit 61 1, P_root_bit = push_bit 62 1,
      P_isleaf_bit = push_bit 63 1,
      P_split_unlock_mask = NOT (push_bit 62 1 OR push_bit 60 1 OR (push_bit 27 1 - 1)),
      P_unlock_mask = NOT (push_bit 60 1 OR (push_bit 11 1 - 1))\<rparr>"

section \<open>Methods\<close>

definition nv_make :: "'w::len word nv_params \<Rightarrow> bool \<Rightarrow> 'w word" where
  "nv_make P isleaf = (if isleaf then P_isleaf_bit P else 0)"

definition nv_isleaf :: "'w::len word nv_params \<Rightarrow> 'w word \<Rightarrow> bool" where
  "nv_isleaf P v \<longleftrightarrow> v AND P_isleaf_bit P \<noteq> 0"

text \<open>
  The value of \<^verbatim>\<open>v_\<close> changes while \<^verbatim>\<open>stable\<close> spins; the list holds the values it
  reads, and \<open>None\<close> means that they were all dirty.
\<close>

fun nv_stable :: "'w::len word nv_params \<Rightarrow> 'w word list \<Rightarrow> 'w word option" where
  "nv_stable P [] = None"
| "nv_stable P (x # xs) = (if x AND P_dirty_mask P \<noteq> 0 then nv_stable P xs else Some x)"

definition nv_locked :: "'w::len word nv_params \<Rightarrow> 'w word \<Rightarrow> bool" where
  "nv_locked P v \<longleftrightarrow> v AND P_lock_bit P \<noteq> 0"

definition nv_inserting :: "'w::len word nv_params \<Rightarrow> 'w word \<Rightarrow> bool" where
  "nv_inserting P v \<longleftrightarrow> v AND P_inserting_bit P \<noteq> 0"

definition nv_splitting :: "'w::len word nv_params \<Rightarrow> 'w word \<Rightarrow> bool" where
  "nv_splitting P v \<longleftrightarrow> v AND P_splitting_bit P \<noteq> 0"

definition nv_deleted :: "'w::len word nv_params \<Rightarrow> 'w word \<Rightarrow> bool" where
  "nv_deleted P v \<longleftrightarrow> v AND P_deleted_bit P \<noteq> 0"

definition nv_has_changed :: "'w::len word nv_params \<Rightarrow> 'w word \<Rightarrow> 'w word \<Rightarrow> bool" where
  "nv_has_changed P v x \<longleftrightarrow> x XOR v > P_lock_bit P"

definition nv_nonroot :: "'w::len word nv_params \<Rightarrow> 'w word \<Rightarrow> bool" where
  "nv_nonroot P v \<longleftrightarrow> v AND P_root_bit P = 0"

definition nv_has_split :: "'w::len word nv_params \<Rightarrow> 'w word \<Rightarrow> 'w word \<Rightarrow> bool" where
  "nv_has_split P v x \<longleftrightarrow> x XOR v \<ge> P_vsplit_lowbit P"

text \<open>
  One attempt of \<^verbatim>\<open>lock\<close>: the compare-and-swap on \<open>v\<close> with the version expected. The loop
  gets the values that the swaps and the reads after a failed attempt see.
\<close>

definition nv_try_lock :: "'w::len word nv_params \<Rightarrow> 'w word \<Rightarrow> 'w word \<Rightarrow> 'w word option" where
  "nv_try_lock P v expected =
     (if expected AND P_lock_bit P = 0 \<and> v = expected then Some (expected OR P_lock_bit P) else None)"

fun nv_lock :: "'w::len word nv_params \<Rightarrow> 'w word \<Rightarrow> ('w word \<times> 'w word) list \<Rightarrow> 'w word option" where
  "nv_lock P expected [] = None"
| "nv_lock P expected ((v, reread) # env) =
     (case nv_try_lock P v expected of Some x \<Rightarrow> Some x | None \<Rightarrow> nv_lock P reread env)"

definition nv_unlock :: "'w::len word nv_params \<Rightarrow> 'w word \<Rightarrow> 'w word" where
  "nv_unlock P x =
     (if x AND P_splitting_bit P \<noteq> 0
      then (x + P_vsplit_lowbit P) AND P_split_unlock_mask P
      else (x + push_bit 2 (x AND P_inserting_bit P)) AND P_unlock_mask P)"

definition nv_mark_insert :: "'w::len word nv_params \<Rightarrow> 'w word \<Rightarrow> 'w word" where
  "nv_mark_insert P v = v OR P_inserting_bit P"

definition nv_mark_split :: "'w::len word nv_params \<Rightarrow> 'w word \<Rightarrow> 'w word" where
  "nv_mark_split P v = v OR P_splitting_bit P"

definition nv_mark_change :: "'w::len word nv_params \<Rightarrow> 'w word \<Rightarrow> bool \<Rightarrow> 'w word" where
  "nv_mark_change P v is_split = v OR push_bit (P_inserting_shift P) (of_bool is_split + 1)"

definition nv_mark_deleted :: "'w::len word nv_params \<Rightarrow> 'w word \<Rightarrow> 'w word" where
  "nv_mark_deleted P v = v OR (P_deleted_bit P OR P_splitting_bit P)"

definition nv_mark_deleted_tree :: "'w::len word nv_params \<Rightarrow> 'w word \<Rightarrow> 'w word" where
  "nv_mark_deleted_tree P v = v OR P_deleted_bit P"

definition nv_mark_root :: "'w::len word nv_params \<Rightarrow> 'w word \<Rightarrow> 'w word" where
  "nv_mark_root P v = v OR P_root_bit P"

definition nv_mark_nonroot :: "'w::len word nv_params \<Rightarrow> 'w word \<Rightarrow> 'w word" where
  "nv_mark_nonroot P v = v AND NOT (P_root_bit P)"

definition nv_unlocked_version_value :: "'w::len word nv_params \<Rightarrow> 'w word \<Rightarrow> 'w word" where
  "nv_unlocked_version_value P v = v AND P_unlock_mask P"

section \<open>The single-threaded variant\<close>

definition sv_mark_split :: "'w::len word nv_params \<Rightarrow> 'w word \<Rightarrow> 'w word" where
  "sv_mark_split P v = v AND NOT (P_root_bit P)"

definition sv_mark_change :: "'w::len word nv_params \<Rightarrow> 'w word \<Rightarrow> bool \<Rightarrow> 'w word" where
  "sv_mark_change P v is_split = (if is_split then sv_mark_split P v else v)"

definition sv_mark_deleted_tree :: "'w::len word nv_params \<Rightarrow> 'w word \<Rightarrow> 'w word" where
  "sv_mark_deleted_tree P v = v OR P_deleted_bit P"

text \<open>It is never locked, dirty or changed, and locking does nothing.\<close>

definition sv_never :: "'w::len word nv_params \<Rightarrow> 'w word \<Rightarrow> bool" where
  "sv_never P v \<longleftrightarrow> False"

definition sv_same :: "'w::len word nv_params \<Rightarrow> 'w word \<Rightarrow> 'w word" where
  "sv_same P v = v"

section \<open>Threads at one version\<close>

text \<open>
  \<open>nv_owner\<close> is the thread between \<^verbatim>\<open>lock\<close> and \<^verbatim>\<open>unlock\<close>; the two counts are ghosts:
  releases after some mark, and those after a split mark.
\<close>

record 'v nv_state =
  nv_v :: "'v"
  nv_owner :: "nat option"
  nv_changes :: nat
  nv_splits :: nat

inductive nv_step :: "'w::len word nv_params \<Rightarrow> 'w word nv_state \<Rightarrow> 'w word nv_state \<Rightarrow> bool"
  for P :: "'w::len word nv_params" where
  acquire: "nv_try_lock P (nv_v s) e = Some v \<Longrightarrow> nv_step P s (s\<lparr>nv_v := v, nv_owner := Some t\<rparr>)"
| mark: "nv_owner s = Some t \<Longrightarrow>
    v \<in> {nv_mark_insert P (nv_v s), nv_mark_split P (nv_v s), nv_mark_change P (nv_v s) b,
      nv_mark_deleted P (nv_v s), nv_mark_deleted_tree P (nv_v s), nv_mark_root P (nv_v s),
      nv_mark_nonroot P (nv_v s)} \<Longrightarrow> nv_step P s (s\<lparr>nv_v := v\<rparr>)"
| release: "nv_owner s = Some t \<Longrightarrow>
    nv_step P s \<lparr>nv_v = nv_unlock P (nv_v s), nv_owner = None,
      nv_changes = nv_changes s + of_bool (nv_v s AND P_dirty_mask P \<noteq> 0),
      nv_splits = nv_splits s + of_bool (nv_splitting P (nv_v s))\<rparr>"

definition nv_initial :: "'w::len word nv_params \<Rightarrow> bool \<Rightarrow> 'w word nv_state" where
  "nv_initial P leaf = \<lparr>nv_v = nv_make P leaf, nv_owner = None, nv_changes = 0, nv_splits = 0\<rparr>"

section \<open>What a layout must provide\<close>

locale version_layout =
  fixes P :: "'w::len word nv_params" and lk vs u :: nat
  assumes positions: "lk + 3 < vs" "vs < u" "u + 4 = LENGTH('w)"
    and fields: "P_lock_bit P = push_bit lk 1" "P_inserting_shift P = lk + 1"
      "P_inserting_bit P = push_bit (lk + 1) 1" "P_splitting_bit P = push_bit (lk + 2) 1"
      "P_dirty_mask P = P_inserting_bit P OR P_splitting_bit P"
      "P_vsplit_lowbit P = push_bit vs 1" "P_deleted_bit P = push_bit (u + 1) 1"
      "P_root_bit P = push_bit (u + 2) 1" "P_isleaf_bit P = push_bit (u + 3) 1"
    and masks: "P_split_unlock_mask P = NOT (push_bit (u + 2) 1 OR push_bit u 1 OR (push_bit vs 1 - 1))"
      "P_unlock_mask P = NOT (push_bit u 1 OR (push_bit (lk + 3) 1 - 1))"
begin

lemma bit_single: "bit (push_bit k (1 :: 'w word)) n \<longleftrightarrow> n = k \<and> k < LENGTH('w)"
proof -
  have "bit (push_bit k (1 :: 'w word)) n \<longleftrightarrow> n < LENGTH('w) \<and> k \<le> n \<and> n - k = 0"
    by (simp only: bit_push_bit_iff bit_1_iff) (auto dest: bit_imp_le_length)
  then show ?thesis by auto
qed

lemma bit_low: "bit (push_bit k 1 - (1 :: 'w word)) n \<longleftrightarrow> n < k \<and> n < LENGTH('w)"
proof -
  have "push_bit k 1 - 1 = (mask k :: 'w word)" by (simp add: mask_eq_exp_minus_1)
  then show ?thesis by (simp only: bit_mask_iff) auto
qed

lemma bit_fields:
  "bit (P_lock_bit P) n \<longleftrightarrow> n = lk" "bit (P_inserting_bit P) n \<longleftrightarrow> n = lk + 1"
  "bit (P_splitting_bit P) n \<longleftrightarrow> n = lk + 2" "bit (P_dirty_mask P) n \<longleftrightarrow> n = lk + 1 \<or> n = lk + 2"
  "bit (P_vsplit_lowbit P) n \<longleftrightarrow> n = vs" "bit (P_deleted_bit P) n \<longleftrightarrow> n = u + 1"
  "bit (P_root_bit P) n \<longleftrightarrow> n = u + 2" "bit (P_isleaf_bit P) n \<longleftrightarrow> n = u + 3"
  unfolding fields bit_or_iff bit_single using positions by auto

lemma bit_unlock_mask: "bit (P_unlock_mask P) n \<longleftrightarrow> lk + 3 \<le> n \<and> n \<noteq> u \<and> n < LENGTH('w)"
  unfolding masks bit_not_iff bit_or_iff bit_single bit_low using positions
  by (auto simp: possible_bit_word)

lemma bit_split_unlock_mask:
  "bit (P_split_unlock_mask P) n \<longleftrightarrow> vs \<le> n \<and> n \<noteq> u \<and> n \<noteq> u + 2 \<and> n < LENGTH('w)"
  unfolding masks bit_not_iff bit_or_iff bit_single bit_low using positions
  by (auto simp: possible_bit_word)

text \<open>A test of a flag is a test of its bit.\<close>

lemma nonzero_bit: "x \<noteq> 0 \<longleftrightarrow> (\<exists>n. bit x n)" for x :: "'w word"
  by (metis bit_0_eq bit_word_eqI bot_apply bot_bool_def)

lemma and_bit: "v AND push_bit n 1 \<noteq> 0 \<longleftrightarrow> bit v n" for v :: "'w word"
  unfolding nonzero_bit bit_and_iff bit_single by (auto dest: bit_imp_le_length)

lemma tests:
  "nv_locked P v \<longleftrightarrow> bit v lk" "nv_inserting P v \<longleftrightarrow> bit v (lk + 1)"
  "nv_splitting P v \<longleftrightarrow> bit v (lk + 2)" "nv_deleted P v \<longleftrightarrow> bit v (u + 1)"
  "nv_nonroot P v \<longleftrightarrow> \<not> bit v (u + 2)" "nv_isleaf P v \<longleftrightarrow> bit v (u + 3)"
  "v AND P_dirty_mask P \<noteq> 0 \<longleftrightarrow> bit v (lk + 1) \<or> bit v (lk + 2)"
proof -
  show "nv_locked P v \<longleftrightarrow> bit v lk" "nv_inserting P v \<longleftrightarrow> bit v (lk + 1)"
    "nv_splitting P v \<longleftrightarrow> bit v (lk + 2)" "nv_deleted P v \<longleftrightarrow> bit v (u + 1)"
    "nv_nonroot P v \<longleftrightarrow> \<not> bit v (u + 2)" "nv_isleaf P v \<longleftrightarrow> bit v (u + 3)"
    unfolding nv_locked_def nv_inserting_def nv_splitting_def nv_deleted_def nv_nonroot_def nv_isleaf_def
      fields using and_bit [of v] by metis+
  show "v AND P_dirty_mask P \<noteq> 0 \<longleftrightarrow> bit v (lk + 1) \<or> bit v (lk + 2)"
    unfolding nonzero_bit bit_and_iff bit_fields by auto
qed

text \<open>The two counters, read as one number: inserts in the low digits, splits above.\<close>

definition count :: "'w word \<Rightarrow> nat" where
  "count v = unat v div 2 ^ (lk + 3) mod 2 ^ (u - (lk + 3))"

lemma bit_count: "bit (count v) n \<longleftrightarrow> n < u - (lk + 3) \<and> bit v (n + (lk + 3))"
proof -
  have "count v = take_bit (u - (lk + 3)) (drop_bit (lk + 3) (unat v))"
    by (simp add: count_def take_bit_eq_mod drop_bit_eq_div)
  then show ?thesis
    by (auto simp: bit_take_bit_iff bit_drop_bit_eq bit_unsigned_iff ac_simps dest: bit_imp_le_length)
qed

lemma count_cong: "(\<And>n. lk + 3 \<le> n \<Longrightarrow> n < u \<Longrightarrow> bit v n = bit w n) \<Longrightarrow> count v = count w"
  by (rule bit_eqI) (auto simp: bit_count)

lemma count_less: "count v < 2 ^ (u - (lk + 3))"
  by (simp add: count_def)

text \<open>Adding at a counter's lowest bit carries at most into the unused bit.\<close>

lemma add_effect:
  assumes "\<not> bit x u" and "lk + 3 \<le> k" and "k < u"
  shows "count (x + push_bit k 1) = (count x + 2 ^ (k - (lk + 3))) mod 2 ^ (u - (lk + 3))"
    and "u < n \<Longrightarrow> bit (x + push_bit k 1) n \<longleftrightarrow> bit x n"
proof -
  let ?N = "unat x" and ?S = "x + push_bit k 1"
  have nu: "\<not> bit ?N u" using assms(1) by (simp add: bit_unsigned_iff)
  have "take_bit LENGTH('w) (set_bit u ?N) = set_bit u ?N"
    using positions by (intro bit_eqI) (auto simp: bit_take_bit_iff bit_set_bit_iff bit_unsigned_iff dest: bit_imp_le_length)
  then have "set_bit u ?N < 2 ^ LENGTH('w)" by (metis take_bit_nat_less_exp)
  moreover have "set_bit u ?N = ?N + 2 ^ u" using nu by (simp add: set_bit_eq)
  moreover have ku: "(2 :: nat) ^ k < 2 ^ u" using assms(3) by simp
  ultimately have lt: "?N + 2 ^ k < 2 ^ LENGTH('w)" by linarith
  have one: "unat (push_bit k 1 :: 'w word) = 2 ^ k"
  proof -
    have "(2 :: nat) ^ k < 2 ^ LENGTH('w)" using assms(3) positions by simp
    moreover have "(push_bit k 1 :: 'w word) = word_of_nat (2 ^ k)" by simp
    ultimately show ?thesis by (simp only: unat_of_nat mod_less)
  qed
  have S: "unat ?S = ?N + 2 ^ k"
    using lt one by (simp add: unat_word_ariths)
  have "(2 :: nat) ^ k = 2 ^ (k - (lk + 3)) * 2 ^ (lk + 3)"
    using assms(2) by (metis le_add_diff_inverse2 power_add)
  then have "(?N + 2 ^ k) div 2 ^ (lk + 3) = ?N div 2 ^ (lk + 3) + 2 ^ (k - (lk + 3))"
    by simp
  then show "count ?S = (count x + 2 ^ (k - (lk + 3))) mod 2 ^ (u - (lk + 3))"
    unfolding count_def S by (simp add: mod_simps)
  have "?N mod 2 ^ (u + 1) = ?N mod 2 ^ u"
  proof -
    have "take_bit (u + 1) ?N = take_bit u ?N"
      using nu by (intro bit_eqI) (auto simp: bit_take_bit_iff less_Suc_eq)
    then show ?thesis by (simp add: take_bit_eq_mod)
  qed
  moreover have "?N mod 2 ^ u < 2 ^ u" by simp
  moreover have two: "(2 :: nat) ^ (u + 1) = 2 ^ u + 2 ^ u" by simp
  ultimately have small: "?N mod 2 ^ (u + 1) + 2 ^ k < 2 ^ (u + 1)"
    using ku by linarith
  have "(?N + 2 ^ k) div 2 ^ (u + 1) = ?N div 2 ^ (u + 1)"
  proof -
    have "?N + 2 ^ k = (?N mod 2 ^ (u + 1) + 2 ^ k) + (?N div 2 ^ (u + 1)) * 2 ^ (u + 1)"
      using div_mult_mod_eq [of ?N "2 ^ (u + 1)"] by linarith
    then show ?thesis
      using small by (simp only: div_mult_self1 div_less power_not_zero zero_neq_numeral) simp
  qed
  then have d: "drop_bit (u + 1) (unat ?S) = drop_bit (u + 1) ?N"
    unfolding S by (simp only: drop_bit_eq_div)
  assume "u < n"
  then have "bit (unat ?S) n = bit (drop_bit (u + 1) (unat ?S)) (n - (u + 1))"
    "bit ?N n = bit (drop_bit (u + 1) ?N) (n - (u + 1))"
    by (simp_all add: bit_drop_bit_eq)
  then have "bit (unat ?S) n = bit ?N n" by (simp only: d)
  then show "bit ?S n \<longleftrightarrow> bit x n"
    by (auto simp: bit_unsigned_iff dest: bit_imp_le_length)
qed

lemma insert_increment:
  "push_bit 2 (v AND P_inserting_bit P) = (if bit v (lk + 1) then push_bit (lk + 3) 1 else 0)"
proof (cases "bit v (lk + 1)")
  case True
  have "v AND push_bit (lk + 1) 1 = push_bit (lk + 1) 1"
    by (rule bit_word_eqI) (unfold bit_and_iff bit_single, use True in auto)
  moreover have "2 + (lk + 1) = lk + 3" by simp
  ultimately show ?thesis using True by (simp only: fields push_bit_push_bit if_True)
next
  case False
  then have "v AND P_inserting_bit P = 0" using and_bit [of v "lk + 1"] by (simp only: fields) blast
  with False show ?thesis by simp
qed

lemma splitting_test: "v AND P_splitting_bit P \<noteq> 0 \<longleftrightarrow> bit v (lk + 2)"
  using tests(3) by (simp add: nv_splitting_def)

lemma unlock_eq:
  "nv_unlock P v = (if bit v (lk + 2) then (v + push_bit vs 1) AND P_split_unlock_mask P
     else (if bit v (lk + 1) then v + push_bit (lk + 3) 1 else v) AND P_unlock_mask P)"
  unfolding nv_unlock_def splitting_test insert_increment fields(6) by simp

lemma unlock_bits:
  assumes "\<not> bit v u"
  shows "n < lk + 3 \<or> n = u \<Longrightarrow> \<not> bit (nv_unlock P v) n"
    and "u < n \<Longrightarrow> bit (nv_unlock P v) n \<longleftrightarrow> bit v n \<and> \<not> (bit v (lk + 2) \<and> n = u + 2)"
proof -
  show "n < lk + 3 \<or> n = u \<Longrightarrow> \<not> bit (nv_unlock P v) n"
    using positions unfolding unlock_eq
    by (simp split: if_split add: bit_and_iff bit_unlock_mask bit_split_unlock_mask del: push_bit_of_1) linarith
  assume n: "u < n"
  have "bit v n \<Longrightarrow> n < LENGTH('w)" by (rule bit_imp_le_length)
  moreover have "bit (v + push_bit vs 1) n = bit v n" "bit (v + push_bit (lk + 3) 1) n = bit v n"
    using add_effect(2) [OF assms _ _ n, of vs] add_effect(2) [OF assms _ _ n, of "lk + 3"] positions by simp_all
  ultimately show "bit (nv_unlock P v) n \<longleftrightarrow> bit v n \<and> \<not> (bit v (lk + 2) \<and> n = u + 2)"
    using n positions unfolding unlock_eq
    by (auto simp: bit_and_iff bit_unlock_mask bit_split_unlock_mask simp del: push_bit_of_1)
qed

text \<open>The counter moves on by one for an insert, to the next split value for a split.\<close>

lemma unlock_count:
  assumes "\<not> bit v u"
  shows "count (nv_unlock P v) =
    (if bit v (lk + 2)
     then (count v div 2 ^ (vs - (lk + 3)) + 1) * 2 ^ (vs - (lk + 3)) mod 2 ^ (u - (lk + 3))
     else if bit v (lk + 1) then (count v + 1) mod 2 ^ (u - (lk + 3)) else count v)"
proof -
  have keep: "count (x AND P_unlock_mask P) = count x" for x
    by (rule count_cong) (use positions in \<open>auto simp: bit_and_iff bit_unlock_mask\<close>)
  have cut: "count (x AND P_split_unlock_mask P) = count x div 2 ^ (vs - (lk + 3)) * 2 ^ (vs - (lk + 3))" for x
  proof -
    have "count (x AND P_split_unlock_mask P) = push_bit (vs - (lk + 3)) (drop_bit (vs - (lk + 3)) (count x))"
      using positions
      by (intro bit_eqI) (auto simp: bit_count bit_and_iff bit_split_unlock_mask bit_push_bit_iff bit_drop_bit_eq)
    then show ?thesis by (simp add: push_bit_eq_mult drop_bit_eq_div)
  qed
  define m c where "m = vs - (lk + 3)" and "c = u - (lk + 3)"
  have "m < c" using positions by (simp add: m_def c_def)
  then have c: "(2 :: nat) ^ c = 2 ^ m * 2 ^ (c - m)" by (simp flip: power_add)
  have "(K + 2 ^ m) mod 2 ^ c div 2 ^ m * 2 ^ m = (K div 2 ^ m + 1) * 2 ^ m mod 2 ^ c" for K :: nat
  proof -
    have "(K + 2 ^ m) mod 2 ^ c div 2 ^ m = (K + 2 ^ m) div 2 ^ m mod 2 ^ (c - m)"
      unfolding c by (simp add: mod_mult2_eq)
    moreover have "(K + 2 ^ m) div 2 ^ m = K div 2 ^ m + 1" by (simp add: div_add_self2)
    ultimately have "(K + 2 ^ m) mod 2 ^ c div 2 ^ m * 2 ^ m = (K div 2 ^ m + 1) mod 2 ^ (c - m) * 2 ^ m"
      by (simp only:)
    also have "\<dots> = (K div 2 ^ m + 1) * 2 ^ m mod (2 ^ (c - m) * 2 ^ m)"
      by (rule mult_mod_left)
    finally show ?thesis unfolding c by (simp only: mult.commute)
  qed
  note round = this
  have av: "count (v + push_bit vs 1) = (count v + 2 ^ m) mod 2 ^ c"
    unfolding m_def c_def by (rule add_effect(1) [OF assms]) (use positions in auto)
  have ai: "count (v + push_bit (lk + 3) 1) = (count v + 2 ^ (lk + 3 - (lk + 3))) mod 2 ^ c"
    unfolding c_def by (rule add_effect(1) [OF assms]) (use positions in auto)
  show ?thesis
  proof (cases "bit v (lk + 2)")
    case True
    then show ?thesis unfolding unlock_eq if_P [OF True] cut [folded m_def] av round by (simp only: m_def c_def)
  next
    case False
    then show ?thesis unfolding unlock_eq if_not_P [OF False] keep using ai by (simp add: c_def del: push_bit_of_1)
  qed
qed

subsection \<open>Invariants of the threads\<close>

definition nv_inv :: "'w word nv_state \<Rightarrow> bool" where
  "nv_inv s \<longleftrightarrow> (nv_locked P (nv_v s) \<longleftrightarrow> nv_owner s \<noteq> None) \<and>
     (nv_v s AND P_dirty_mask P \<noteq> 0 \<longrightarrow> nv_locked P (nv_v s)) \<and>
     \<not> bit (nv_v s) u \<and> (\<forall>n < lk. \<not> bit (nv_v s) n)"

lemma inv_initial: "nv_inv (nv_initial P leaf)"
  using positions unfolding nv_inv_def tests
  by (auto simp: nv_initial_def nv_make_def bit_fields)

text \<open>What a mark may change: the dirty bits, the deleted and the root flag.\<close>

lemma mark_bits:
  assumes "v' \<in> {nv_mark_insert P v, nv_mark_split P v, nv_mark_change P v b, nv_mark_deleted P v,
      nv_mark_deleted_tree P v, nv_mark_root P v, nv_mark_nonroot P v}"
  shows "n \<noteq> lk + 1 \<Longrightarrow> n \<noteq> lk + 2 \<Longrightarrow> n \<noteq> u + 1 \<Longrightarrow> n \<noteq> u + 2 \<Longrightarrow> bit v' n = bit v n"
proof -
  have ch: "push_bit (P_inserting_shift P) (of_bool b + 1) = (if b then P_splitting_bit P else P_inserting_bit P)"
  proof (cases b)
    case True
    have two: "of_bool b + 1 = (push_bit 1 1 :: 'w word)" using True by simp
    have "lk + 1 + 1 = lk + 2" by simp
    with True show ?thesis unfolding two fields push_bit_push_bit by (simp only: if_True)
  qed (simp add: fields)
  assume n: "n \<noteq> lk + 1" "n \<noteq> lk + 2" "n \<noteq> u + 1" "n \<noteq> u + 2"
  from assms show "bit v' n = bit v n"
    unfolding nv_mark_insert_def nv_mark_split_def nv_mark_change_def nv_mark_deleted_def
      nv_mark_deleted_tree_def nv_mark_root_def nv_mark_nonroot_def ch
    using n by (auto simp: bit_or_iff bit_and_iff bit_not_iff bit_fields dest: bit_imp_le_length split: if_splits)
qed

lemma try_lock_bits:
  assumes "nv_try_lock P v e = Some v'"
  shows "\<not> bit v lk" and "bit v' n \<longleftrightarrow> bit v n \<or> n = lk"
proof -
  have "v' = v OR P_lock_bit P" and "\<not> nv_locked P v"
    using assms by (auto simp: nv_try_lock_def nv_locked_def split: if_splits)
  then show "\<not> bit v lk" and "bit v' n \<longleftrightarrow> bit v n \<or> n = lk"
    by (auto simp: tests bit_or_iff bit_fields)
qed

lemma inv_step:
  assumes "nv_step P s s'" and "nv_inv s"
  shows "nv_inv s'"
  using assms(1)
proof cases
  case (acquire e v t)
  then show ?thesis
    using assms(2) positions unfolding nv_inv_def tests by (auto simp: try_lock_bits)
next
  case (mark t v b)
  then show ?thesis
    using assms(2) positions unfolding nv_inv_def tests by (auto simp: mark_bits [OF mark(3)])
next
  case (release t)
  have "\<not> bit (nv_v s) u" using assms(2) by (simp add: nv_inv_def)
  then show ?thesis
    using release positions unfolding nv_inv_def tests by (auto simp: unlock_bits)
qed

text \<open>The counter tracks the changes: \<open>K\<close> is its value before it is cut to its width.\<close>

definition tracks :: "nat \<Rightarrow> nat \<Rightarrow> nat \<Rightarrow> nat \<Rightarrow> nat \<Rightarrow> bool" where
  "tracks k0 K c d sp \<longleftrightarrow> c = K mod 2 ^ (u - (lk + 3)) \<and> k0 + d \<le> K \<and>
     K div 2 ^ (vs - (lk + 3)) \<le> k0 div 2 ^ (vs - (lk + 3)) + d \<and>
     k0 div 2 ^ (vs - (lk + 3)) + sp \<le> K div 2 ^ (vs - (lk + 3))"

lemma count_step:
  assumes "nv_step P s s'" and "nv_inv s" and "tracks k0 K (count (nv_v s)) d sp"
  shows "\<exists>K'. tracks k0 K' (count (nv_v s')) (d + (nv_changes s' - nv_changes s)) (sp + (nv_splits s' - nv_splits s)) \<and>
    nv_changes s \<le> nv_changes s' \<and> nv_splits s \<le> nv_splits s'"
  using assms(1)
proof cases
  case (acquire e v t)
  have "count v = count (nv_v s)"
    by (rule count_cong) (use acquire positions in \<open>auto simp: try_lock_bits\<close>)
  with acquire assms(3) show ?thesis by (intro exI [of _ K]) simp
next
  case (mark t v b)
  have "count v = count (nv_v s)"
    by (rule count_cong) (use mark_bits [OF mark(3)] positions in auto)
  with mark assms(3) show ?thesis by (intro exI [of _ K]) simp
next
  case (release t)
  define m c v where "m = vs - (lk + 3)" and "c = u - (lk + 3)" and "v = nv_v s"
  have mc: "(2 :: nat) ^ c = 2 ^ (c - m) * 2 ^ m"
    using positions by (simp add: m_def c_def flip: power_add)
  have nu: "\<not> bit v u" using assms(2) by (simp add: nv_inv_def v_def)
  have K: "count v = K mod 2 ^ c" "k0 + d \<le> K" "K div 2 ^ m \<le> k0 div 2 ^ m + d"
    "k0 div 2 ^ m + sp \<le> K div 2 ^ m"
    using assms(3) by (simp_all add: tracks_def m_def c_def v_def)
  note cnt = unlock_count [OF nu, folded m_def c_def]
  consider (split) "bit v (lk + 2)" | (insert) "bit v (lk + 1)" "\<not> bit v (lk + 2)"
    | (clean) "\<not> bit v (lk + 1)" "\<not> bit v (lk + 2)" by blast
  then have "\<exists>K'. tracks k0 K' (count (nv_unlock P v))
      (d + of_bool (bit v (lk + 1) \<or> bit v (lk + 2))) (sp + of_bool (bit v (lk + 2)))"
  proof cases
    case split
    have "K mod 2 ^ c div 2 ^ m = K div 2 ^ m mod 2 ^ (c - m)"
      unfolding mc by (subst mult.commute) (simp add: mod_mult2_eq)
    then have "(K mod 2 ^ c div 2 ^ m + 1) * 2 ^ m mod 2 ^ c = (K div 2 ^ m + 1) * 2 ^ m mod 2 ^ c"
      unfolding mc by (simp only: mult_mod_left [symmetric] mod_add_left_eq)
    moreover have "K < (K div 2 ^ m + 1) * 2 ^ m"
      using dividend_less_div_times [of "2 ^ m" K] by simp
    ultimately show ?thesis
      using split K cnt by (intro exI [of _ "(K div 2 ^ m + 1) * 2 ^ m"]) (simp add: tracks_def flip: m_def c_def)
  next
    case insert
    have "K div 2 ^ m \<le> (K + 1) div 2 ^ m" by (rule div_le_mono) simp
    with K(4) have "k0 div 2 ^ m + sp \<le> (K + 1) div 2 ^ m" by (rule order_trans)
    moreover have "(K + 1) div 2 ^ m \<le> K div 2 ^ m + 1" by (simp add: div_Suc)
    ultimately show ?thesis
      using insert K cnt by (intro exI [of _ "K + 1"]) (simp add: tracks_def mod_simps flip: m_def c_def)
  next
    case clean
    then show ?thesis using K cnt by (intro exI [of _ K]) (simp add: tracks_def flip: m_def c_def)
  qed
  then show ?thesis using release by (simp add: tests v_def)
qed

lemma inv_steps: "(nv_step P)\<^sup>*\<^sup>* s s' \<Longrightarrow> nv_inv s \<Longrightarrow> nv_inv s'"
  by (induction rule: rtranclp_induct) (auto intro: inv_step)

lemma count_steps:
  assumes "(nv_step P)\<^sup>*\<^sup>* s0 s" and "nv_inv s0"
  shows "nv_changes s0 \<le> nv_changes s \<and> nv_splits s0 \<le> nv_splits s \<and>
    (\<exists>K. tracks (count (nv_v s0)) K (count (nv_v s)) (nv_changes s - nv_changes s0) (nv_splits s - nv_splits s0))"
  using assms(1)
proof (induction rule: rtranclp_induct)
  case base
  have "tracks (count (nv_v s0)) (count (nv_v s0)) (count (nv_v s0)) 0 0"
    using count_less [of "nv_v s0"] by (simp add: tracks_def)
  then show ?case by auto
next
  case (step s s')
  then obtain K where K: "tracks (count (nv_v s0)) K (count (nv_v s))
      (nv_changes s - nv_changes s0) (nv_splits s - nv_splits s0)" by auto
  from count_step [OF step.hyps(2) inv_steps [OF step.hyps(1) assms(2)] K] step.IH show ?case by auto
qed

lemma bit_ge: "bit x n \<Longrightarrow> push_bit n 1 \<le> x" for x :: "'w word"
proof -
  assume b: "bit x n"
  have "\<not> unat x < 2 ^ n"
  proof
    assume "unat x < 2 ^ n"
    then have "take_bit n (unat x) = unat x" by (simp add: take_bit_nat_eq_self_iff)
    moreover have "bit (unat x) n" using b by (auto simp: bit_unsigned_iff dest: bit_imp_le_length)
    ultimately show False by (metis bit_take_bit_iff less_irrefl)
  qed
  moreover have "unat (push_bit n 1 :: 'w word) = 2 ^ n"
  proof -
    have "(2 :: nat) ^ n < 2 ^ LENGTH('w)" using bit_imp_le_length [OF b] by simp
    moreover have "(push_bit n 1 :: 'w word) = word_of_nat (2 ^ n)" by simp
    ultimately show ?thesis by (simp only: unat_of_nat mod_less)
  qed
  ultimately show ?thesis by (simp only: word_le_nat_alt not_less)
qed

lemma push_bit_less: "m < n \<Longrightarrow> n < LENGTH('w) \<Longrightarrow> push_bit m 1 < (push_bit n 1 :: 'w word)"
proof -
  assume mn: "m < n" "n < LENGTH('w)"
  have "unat (push_bit k 1 :: 'w word) = 2 ^ k" if "k < LENGTH('w)" for k
  proof -
    have "(2 :: nat) ^ k < 2 ^ LENGTH('w)" using that by simp
    moreover have "(push_bit k 1 :: 'w word) = word_of_nat (2 ^ k)" by simp
    ultimately show ?thesis by (simp only: unat_of_nat mod_less)
  qed
  with mn show ?thesis by (simp only: word_less_nat_alt) simp
qed

lemma has_changed_bit: "lk < n \<Longrightarrow> bit x n \<noteq> bit v n \<Longrightarrow> nv_has_changed P v x"
proof -
  assume n: "lk < n" and d: "bit x n \<noteq> bit v n"
  then have b: "bit (x XOR v) n" by (simp add: bit_xor_iff)
  have "push_bit lk 1 < (push_bit n 1 :: 'w word)"
    using n bit_imp_le_length [OF b] by (rule push_bit_less)
  also have "\<dots> \<le> x XOR v" using b by (rule bit_ge)
  finally show ?thesis by (simp only: nv_has_changed_def fields)
qed

lemma has_split_bit: "vs \<le> n \<Longrightarrow> bit x n \<noteq> bit v n \<Longrightarrow> nv_has_split P v x"
proof -
  assume n: "vs \<le> n" and d: "bit x n \<noteq> bit v n"
  then have b: "bit (x XOR v) n" by (simp add: bit_xor_iff)
  have "push_bit vs 1 \<le> (push_bit n 1 :: 'w word)"
    using n bit_imp_le_length [OF b] push_bit_less [of vs n] by (cases "vs = n") auto
  also have "\<dots> \<le> x XOR v" using b by (rule bit_ge)
  finally show ?thesis by (simp only: nv_has_split_def fields)
qed

text \<open>No change goes unseen while fewer happen than the split counter can tell apart.\<close>

lemma changes_seen:
  assumes "(nv_step P)\<^sup>*\<^sup>* s0 s" "nv_inv s0"
    and "nv_changes s - nv_changes s0 < 2 ^ (u - vs)"
  shows "nv_changes s0 < nv_changes s \<Longrightarrow> nv_has_changed P (nv_v s) (nv_v s0)"
    and "nv_splits s0 < nv_splits s \<Longrightarrow> nv_has_split P (nv_v s) (nv_v s0)"
proof -
  define m c k0 where "m = vs - (lk + 3)" and "c = u - (lk + 3)" and "k0 = count (nv_v s0)"
  define d sp where "d = nv_changes s - nv_changes s0" and "sp = nv_splits s - nv_splits s0"
  have mc: "(2 :: nat) ^ c = 2 ^ (c - m) * 2 ^ m" "c - m = u - vs"
    using positions by (simp_all add: m_def c_def flip: power_add)
  obtain K where K: "count (nv_v s) = K mod 2 ^ c" "k0 + d \<le> K" "K div 2 ^ m \<le> k0 div 2 ^ m + d"
    "k0 div 2 ^ m + sp \<le> K div 2 ^ m"
    using count_steps [OF assms(1,2)] by (auto simp: tracks_def m_def c_def k0_def d_def sp_def)
  have d: "d < 2 ^ (c - m)" using assms(3) mc(2) by (simp add: d_def)
  have k0: "k0 < 2 ^ c" using count_less [of "nv_v s0"] by (simp add: k0_def c_def)
  have hi: "count (nv_v s) div 2 ^ m = K div 2 ^ m mod 2 ^ (c - m)"
    unfolding K(1) mc(1) by (subst mult.commute) (simp add: mod_mult2_eq)
  have k0hi: "k0 div 2 ^ m < 2 ^ (c - m)" using k0 unfolding mc(1) by (simp add: less_mult_imp_div_less)
  {
    assume "nv_changes s0 < nv_changes s"
    then have pos: "0 < d" by (simp add: d_def)
    have "K < (K div 2 ^ m + 1) * 2 ^ m" using dividend_less_div_times [of "2 ^ m" K] by simp
    also have "\<dots> \<le> (k0 div 2 ^ m + 2 ^ (c - m)) * 2 ^ m" using K(3) d by (intro mult_le_mono1) simp
    also have "\<dots> \<le> k0 + 2 ^ c" by (simp add: mc(1) algebra_simps)
    finally have "K < k0 + 2 ^ c" .
    with K(2) pos k0 have "count (nv_v s) \<noteq> k0"
      unfolding K(1) by (cases "K < 2 ^ c") (auto simp: mod_if)
    then obtain n where n: "lk + 3 \<le> n" "bit (nv_v s) n \<noteq> bit (nv_v s0) n"
      using count_cong [of "nv_v s" "nv_v s0"] by (auto simp: k0_def)
    then show "nv_has_changed P (nv_v s) (nv_v s0)"
      using has_changed_bit [of n "nv_v s0" "nv_v s"] by auto
  next
    assume "nv_splits s0 < nv_splits s"
    then have pos: "0 < sp" by (simp add: sp_def)
    have "K div 2 ^ m mod 2 ^ (c - m) \<noteq> k0 div 2 ^ m"
      using K(3,4) pos d k0hi by (cases "K div 2 ^ m < 2 ^ (c - m)") (auto simp: mod_if)
    then have "drop_bit m (count (nv_v s)) \<noteq> drop_bit m (count (nv_v s0))"
      unfolding k0_def using hi by (simp add: drop_bit_eq_div)
    then obtain n where "bit (drop_bit m (count (nv_v s))) n \<noteq> bit (drop_bit m (count (nv_v s0))) n"
      by (metis bit_eqI)
    then have "bit (nv_v s) (m + n + (lk + 3)) \<noteq> bit (nv_v s0) (m + n + (lk + 3))"
      by (auto simp: bit_drop_bit_eq bit_count)
    moreover have "vs \<le> m + n + (lk + 3)" using positions by (simp add: m_def)
    ultimately show "nv_has_split P (nv_v s) (nv_v s0)"
      using has_split_bit [of "m + n + (lk + 3)" "nv_v s0" "nv_v s"] by auto
  }
qed

end

section \<open>The two layouts\<close>

interpretation nv32: version_layout nodeversion32_parameters 0 9 28
  by unfold_locales (simp_all add: nodeversion32_parameters_def)

interpretation nv64: version_layout nodeversion64_parameters 8 27 60
  by unfold_locales (simp_all add: nodeversion64_parameters_def)

section \<open>Properties\<close>

text \<open>
  C26: in every run, with either layout, the lock bit is set exactly while some thread is between
  lock and unlock, dirty bits appear only under the lock, and as long as the lock is held no
  attempt to lock succeeds.
\<close>

theorem nv_mutual_exclusion:
  "((nv_step nodeversion32_parameters)\<^sup>*\<^sup>* (nv_initial nodeversion32_parameters leaf) s \<longrightarrow>
     (nv_locked nodeversion32_parameters (nv_v s) \<longleftrightarrow> nv_owner s \<noteq> None) \<and>
     (nv_v s AND P_dirty_mask nodeversion32_parameters \<noteq> 0 \<longrightarrow> nv_owner s \<noteq> None) \<and>
     (nv_owner s \<noteq> None \<longrightarrow> nv_try_lock nodeversion32_parameters (nv_v s) e = None)) \<and>
   ((nv_step nodeversion64_parameters)\<^sup>*\<^sup>* (nv_initial nodeversion64_parameters leaf) s' \<longrightarrow>
     (nv_locked nodeversion64_parameters (nv_v s') \<longleftrightarrow> nv_owner s' \<noteq> None) \<and>
     (nv_v s' AND P_dirty_mask nodeversion64_parameters \<noteq> 0 \<longrightarrow> nv_owner s' \<noteq> None) \<and>
     (nv_owner s' \<noteq> None \<longrightarrow> nv_try_lock nodeversion64_parameters (nv_v s') e' = None))"
  using nv32.inv_steps [OF _ nv32.inv_initial, of leaf s] nv64.inv_steps [OF _ nv64.inv_initial, of leaf s']
  by (auto simp: nv32.nv_inv_def nv64.nv_inv_def nv_try_lock_def nv_locked_def)

text \<open>A run: lock, mark an insert, unlock.\<close>

lemma sample_run:
  "(nv_step nodeversion32_parameters)\<^sup>*\<^sup>* (nv_initial nodeversion32_parameters False)
     \<lparr>nv_v = 8, nv_owner = None, nv_changes = 1, nv_splits = 0\<rparr>"
proof -
  let ?P = nodeversion32_parameters
  let ?s0 = "nv_initial ?P False" and ?s1 = "\<lparr>nv_v = (1 :: u32), nv_owner = Some 0, nv_changes = 0, nv_splits = 0\<rparr>"
  let ?s2 = "\<lparr>nv_v = (3 :: u32), nv_owner = Some 0, nv_changes = 0, nv_splits = 0\<rparr>"
  let ?s3 = "\<lparr>nv_v = (8 :: u32), nv_owner = None, nv_changes = 1, nv_splits = 0\<rparr>"
  have "nv_try_lock ?P (nv_v ?s0) 0 = Some 1"
    by (simp add: nv_try_lock_def nv_initial_def nv_make_def nodeversion32_parameters_def)
  from nv_step.acquire [OF this, of 0] have 1: "nv_step ?P ?s0 ?s1"
    by (simp add: nv_initial_def)
  have "nv_mark_insert ?P 1 = 3"
    by (simp add: nv_mark_insert_def nodeversion32_parameters_def)
  then have 2: "nv_step ?P ?s1 ?s2"
    using nv_step.mark [of ?s1 0 3 ?P] by simp
  have "nv_unlock ?P 3 = 8" "3 AND P_dirty_mask ?P \<noteq> 0" "\<not> nv_splitting ?P 3"
    by (simp_all add: nv_unlock_def nv_splitting_def nodeversion32_parameters_def push_bit_eq_mult)
  then have 3: "nv_step ?P ?s2 ?s3"
    using nv_step.release [of ?s2 0 ?P] by simp
  from 1 2 3 show ?thesis by (meson rtranclp.rtrancl_into_rtrancl rtranclp.rtrancl_refl)
qed

theorem nv_mutual_exclusion_witness:
  "\<not> nv_locked nodeversion32_parameters 8"
  using nv_mutual_exclusion [THEN conjunct1, THEN mp, OF sample_run] by simp

text \<open>
  C27: a reader that compares its snapshot with the current word sees that the node changed if
  between one and \<open>2 ^ 19 - 1\<close> changes were released since (\<open>2 ^ 33 - 1\<close> with the 64-bit
  layout), however inserts and splits were mixed and although the insert counter overflows into
  the split counter; and it sees that the node split if one of them was a split.
\<close>

theorem nv_changes_seen:
  assumes "(nv_step nodeversion32_parameters)\<^sup>*\<^sup>* (nv_initial nodeversion32_parameters leaf) s0"
    and "(nv_step nodeversion32_parameters)\<^sup>*\<^sup>* s0 s"
    and "nv_changes s0 < nv_changes s" "nv_changes s - nv_changes s0 < 2 ^ 19"
  shows "nv_has_changed nodeversion32_parameters (nv_v s) (nv_v s0) \<and>
    (nv_splits s0 < nv_splits s \<longrightarrow> nv_has_split nodeversion32_parameters (nv_v s) (nv_v s0))"
  using nv32.changes_seen [OF assms(2) nv32.inv_steps [OF assms(1) nv32.inv_initial]] assms(3,4) by simp

theorem nv_changes_seen_witness:
  "nv_has_changed nodeversion32_parameters 8 (nv_v (nv_initial nodeversion32_parameters False))"
  using nv_changes_seen [OF rtranclp.rtrancl_refl sample_run] by (simp add: nv_initial_def)

theorem nv64_changes_seen:
  assumes "(nv_step nodeversion64_parameters)\<^sup>*\<^sup>* (nv_initial nodeversion64_parameters leaf) s0"
    and "(nv_step nodeversion64_parameters)\<^sup>*\<^sup>* s0 s"
    and "nv_changes s0 < nv_changes s" "nv_changes s - nv_changes s0 < 2 ^ 33"
  shows "nv_has_changed nodeversion64_parameters (nv_v s) (nv_v s0) \<and>
    (nv_splits s0 < nv_splits s \<longrightarrow> nv_has_split nodeversion64_parameters (nv_v s) (nv_v s0))"
  using nv64.changes_seen [OF assms(2) nv64.inv_steps [OF assms(1) nv64.inv_initial]] assms(3,4) by simp

text \<open>
  unlocking clears the lock and the dirty bits and keeps the leaf and the deleted flag; it
  clears the root flag exactly for a split node. Counters that overflow never reach a flag.
\<close>

theorem nv_unlock_flags:
  assumes "\<not> bit v 28"
  shows "let v' = nv_unlock nodeversion32_parameters v in
    \<not> nv_locked nodeversion32_parameters v' \<and> v' AND P_dirty_mask nodeversion32_parameters = 0 \<and>
    (nv_isleaf nodeversion32_parameters v' \<longleftrightarrow> nv_isleaf nodeversion32_parameters v) \<and>
    (nv_deleted nodeversion32_parameters v' \<longleftrightarrow> nv_deleted nodeversion32_parameters v) \<and>
    (nv_nonroot nodeversion32_parameters v' \<longleftrightarrow>
       nv_nonroot nodeversion32_parameters v \<or> nv_splitting nodeversion32_parameters v) \<and> \<not> bit v' 28"
  using nv32.unlock_bits [OF assms] nv32.tests(7) [of "nv_unlock nodeversion32_parameters v"]
  by (auto simp: nv32.tests(1-6) Let_def)

theorem nv_unlock_flags_witness:
  "nv_isleaf nodeversion32_parameters (nv_unlock nodeversion32_parameters (nv_make nodeversion32_parameters True + 1))"
proof -
  have "\<not> bit (nv_make nodeversion32_parameters True + 1) 28"
    "nv_isleaf nodeversion32_parameters (nv_make nodeversion32_parameters True + 1)"
    by (simp_all add: nv_make_def nv_isleaf_def nodeversion32_parameters_def)
  with nv_unlock_flags show ?thesis unfolding Let_def by blast
qed

end
