(* ===== verification/String_Bag.thy ===== *)
theory String_Bag
  imports String_Slice
begin

text \<open>
  \<^verbatim>\<open>hybrid_index/stringbag.hh\<close>: the key suffixes of a leaf, in one block of memory. The
  header (bytes used, capacity, and position and length of each string) lies in the same block,
  as the union of the source has it, so that the model is the block of bytes itself; \<open>sz\<close> is
  the size of the offset type, \<open>w\<close> the number of strings.

  \<open>sb_ok\<close> says that the strings lie behind the header, inside what is used, and do not overlap.
  Under it \<^verbatim>\<open>assign\<close> changes the one string, and a bag of \<^verbatim>\<open>safe_size\<close> takes all
  strings it was sized for; the exception, a bag of the maximal capacity filled to the last byte,
  is stated too.
\<close>

section \<open>Operations\<close>

definition rdT :: "nat \<Rightarrow> byte list \<Rightarrow> nat \<Rightarrow> nat" where
  "rdT sz m a = le_nat (peek m a sz)"

definition wrT :: "nat \<Rightarrow> byte list \<Rightarrow> nat \<Rightarrow> nat \<Rightarrow> byte list" where
  "wrT sz m a x = poke m a (le_bytes sz x)"

definition sb_max_size :: "nat \<Rightarrow> nat" where
  "sb_max_size sz = ((256 ^ sz - 1) + 1) mod 2 ^ 32"

definition sb_overhead :: "nat \<Rightarrow> nat \<Rightarrow> nat" where
  "sb_overhead sz w = 2 * sz + w * (2 * sz)"

definition sb_safe_size :: "nat \<Rightarrow> nat \<Rightarrow> nat \<Rightarrow> nat" where
  "sb_safe_size sz w len = sb_overhead sz w + len + 8 - 1"

text \<open>The constructor on fresh memory; \<open>None\<close> when its assertion fails.\<close>

definition sb_make :: "nat \<Rightarrow> nat \<Rightarrow> nat \<Rightarrow> byte list \<Rightarrow> byte list option" where
  "sb_make sz w capacity m =
     (let firstpos = sb_overhead sz w in
      if firstpos \<le> capacity \<and> capacity \<le> sb_max_size sz then
        Some (poke (wrT sz (wrT sz m 0 firstpos) sz (capacity - 1)) (2 * sz) (replicate (w * (2 * sz)) 0))
      else None)"

definition sb_capacity :: "nat \<Rightarrow> byte list \<Rightarrow> nat" where
  "sb_capacity sz m = rdT sz m sz + 1"

definition sb_used_capacity :: "nat \<Rightarrow> byte list \<Rightarrow> nat" where
  "sb_used_capacity sz m = rdT sz m 0"

definition sb_info_at :: "nat \<Rightarrow> nat \<Rightarrow> nat" where
  "sb_info_at sz p = 2 * sz + p * (2 * sz)"

definition sb_pos :: "nat \<Rightarrow> byte list \<Rightarrow> nat \<Rightarrow> nat" where
  "sb_pos sz m p = rdT sz m (sb_info_at sz p)"

definition sb_len :: "nat \<Rightarrow> byte list \<Rightarrow> nat \<Rightarrow> nat" where
  "sb_len sz m p = rdT sz m (sb_info_at sz p + sz)"

definition sb_get :: "nat \<Rightarrow> byte list \<Rightarrow> nat \<Rightarrow> byte list" where
  "sb_get sz m p = peek m (sb_pos sz m p) (sb_len sz m p)"

definition sb_equals :: "nat \<Rightarrow> byte list \<Rightarrow> nat \<Rightarrow> byte list \<Rightarrow> bool" where
  "sb_equals sz m p s \<longleftrightarrow> sb_len sz m p = length s \<and> peek m (sb_pos sz m p) (length s) = s"

text \<open>The string compared with lies in a memory of its own.\<close>

definition sb_equals_sloppy :: "nat \<Rightarrow> byte list \<Rightarrow> nat \<Rightarrow> memory \<Rightarrow> int \<Rightarrow> int \<Rightarrow> bool" where
  "sb_equals_sloppy sz m p mem s len =
     (if int (sb_len sz m p) \<noteq> len then False
      else slice_equals_sloppy mem s (mem_of 0 m) (int (sb_pos sz m p)) len)"

definition sb_compare :: "nat \<Rightarrow> byte list \<Rightarrow> nat \<Rightarrow> byte list \<Rightarrow> int" where
  "sb_compare sz m p s =
     (let minlen = min (length s) (sb_len sz m p);
          cmp = compare (peek m (sb_pos sz m p) minlen) (take minlen s)
      in if cmp \<noteq> 0 then cmp else compare (sb_len sz m p) (length s))"

definition sb_assign :: "nat \<Rightarrow> byte list \<Rightarrow> nat \<Rightarrow> byte list \<Rightarrow> bool \<times> byte list" where
  "sb_assign sz m p s =
     (let mylen = sb_len sz m p; len = length s;
          put = (\<lambda>m pos. wrT sz (wrT sz (poke m pos s) (sb_info_at sz p) pos) (sb_info_at sz p + sz) len)
      in if len \<le> mylen then (True, put m (sb_pos sz m p))
         else if sb_used_capacity sz m + max len 8 \<le> sb_capacity sz m then
           (True, put (wrT sz m 0 (sb_used_capacity sz m + len)) (sb_used_capacity sz m))
         else (False, m))"

section \<open>Well-formed bags\<close>

definition sb_ok :: "nat \<Rightarrow> nat \<Rightarrow> byte list \<Rightarrow> bool" where
  "sb_ok sz w m \<longleftrightarrow>
     length m = sb_capacity sz m \<and> sb_overhead sz w \<le> sb_used_capacity sz m \<and>
     sb_used_capacity sz m \<le> sb_capacity sz m \<and>
     (\<forall>p < w. sb_len sz m p \<noteq> 0 \<longrightarrow> sb_overhead sz w \<le> sb_pos sz m p \<and>
        sb_pos sz m p + sb_len sz m p \<le> sb_used_capacity sz m \<and> sb_pos sz m p + 8 \<le> sb_capacity sz m) \<and>
     (\<forall>p < w. \<forall>q < w. p \<noteq> q \<longrightarrow> sb_len sz m p \<noteq> 0 \<longrightarrow> sb_len sz m q \<noteq> 0 \<longrightarrow>
        sb_pos sz m p + sb_len sz m p \<le> sb_pos sz m q \<or> sb_pos sz m q + sb_len sz m q \<le> sb_pos sz m p)"

lemma ok_string:
  "sb_ok sz w m \<Longrightarrow> p < w \<Longrightarrow> sb_len sz m p \<noteq> 0 \<Longrightarrow>
     sb_overhead sz w \<le> sb_pos sz m p \<and> sb_pos sz m p + sb_len sz m p \<le> sb_used_capacity sz m \<and>
     sb_pos sz m p + 8 \<le> sb_capacity sz m"
  unfolding sb_ok_def by blast

lemma ok_apart:
  "sb_ok sz w m \<Longrightarrow> p < w \<Longrightarrow> q < w \<Longrightarrow> p \<noteq> q \<Longrightarrow> sb_len sz m p \<noteq> 0 \<Longrightarrow> sb_len sz m q \<noteq> 0 \<Longrightarrow>
     sb_pos sz m p + sb_len sz m p \<le> sb_pos sz m q \<or> sb_pos sz m q + sb_len sz m q \<le> sb_pos sz m p"
  unfolding sb_ok_def by blast

lemma ok_sizes:
  "sb_ok sz w m \<Longrightarrow> length m = sb_capacity sz m \<and> sb_overhead sz w \<le> sb_used_capacity sz m \<and>
     sb_used_capacity sz m \<le> sb_capacity sz m"
  unfolding sb_ok_def by blast

lemma rdT_less: "a + sz \<le> length m \<Longrightarrow> rdT sz m a < 256 ^ sz"
  using le_nat_less [of "peek m a sz"] by (simp add: rdT_def)

lemma length_wrT [simp]: "a + sz \<le> length m \<Longrightarrow> length (wrT sz m a x) = length m"
  by (simp add: wrT_def)

lemma rdT_wrT_same: "a + sz \<le> length m \<Longrightarrow> x < 256 ^ sz \<Longrightarrow> rdT sz (wrT sz m a x) a = x"
  by (simp add: rdT_def wrT_def peek_poke_same le_nat_le_bytes)

lemma rdT_wrT_mod: "a + sz \<le> length m \<Longrightarrow> rdT sz (wrT sz m a x) a = x mod 256 ^ sz"
  by (simp add: rdT_def wrT_def peek_poke_same le_nat_le_bytes)

lemma rdT_wrT_other:
  "a + sz \<le> length m \<Longrightarrow> b + sz \<le> length m \<Longrightarrow> b + sz \<le> a \<or> a + sz \<le> b \<Longrightarrow>
     rdT sz (wrT sz m a x) b = rdT sz m b"
  by (simp add: rdT_def wrT_def peek_poke_other)

lemma rdT_poke_other:
  "a + length s \<le> length m \<Longrightarrow> b + sz \<le> length m \<Longrightarrow> b + sz \<le> a \<or> a + length s \<le> b \<Longrightarrow>
     rdT sz (poke m a s) b = rdT sz m b"
  by (simp add: rdT_def peek_poke_other)

lemma peek_wrT_other:
  "a + sz \<le> length m \<Longrightarrow> b + n \<le> length m \<Longrightarrow> b + n \<le> a \<or> a + sz \<le> b \<Longrightarrow>
     peek (wrT sz m a x) b n = peek m b n"
  by (simp add: wrT_def peek_poke_other)

lemma info_bounds: "p < w \<Longrightarrow> sb_info_at sz p + 2 * sz \<le> sb_overhead sz w"
proof -
  assume "p < w"
  then have "(p + 1) * (2 * sz) \<le> w * (2 * sz)" by (intro mult_le_mono1) simp
  then show ?thesis by (simp add: sb_info_at_def sb_overhead_def)
qed

lemma info_apart: "p < q \<Longrightarrow> sb_info_at sz p + 2 * sz \<le> sb_info_at sz q"
proof -
  assume "p < q"
  then have "(p + 1) * (2 * sz) \<le> q * (2 * sz)" by (intro mult_le_mono1) simp
  then show ?thesis by (simp add: sb_info_at_def)
qed

lemma info_lower: "2 * sz \<le> sb_info_at sz p"
  by (simp add: sb_info_at_def)

text \<open>Storing a string and its header entry.\<close>

lemma put_effect:
  assumes "pos + length s \<le> length m" "sb_overhead sz w \<le> pos" "p < w" "x < 256 ^ sz" "length s < 256 ^ sz"
    and m': "m' = wrT sz (wrT sz (poke m pos s) (sb_info_at sz p) x) (sb_info_at sz p + sz) (length s)"
  shows "length m' = length m" and "sb_capacity sz m' = sb_capacity sz m"
    and "sb_used_capacity sz m' = sb_used_capacity sz m"
    and "sb_pos sz m' p = x" and "sb_len sz m' p = length s" and "peek m' pos (length s) = s"
    and "q < w \<Longrightarrow> q \<noteq> p \<Longrightarrow> sb_pos sz m' q = sb_pos sz m q \<and> sb_len sz m' q = sb_len sz m q"
    and "sb_overhead sz w \<le> a \<Longrightarrow> a + n \<le> length m \<Longrightarrow> a + n \<le> pos \<or> pos + length s \<le> a \<Longrightarrow>
      peek m' a n = peek m a n"
proof -
  note b = info_bounds [OF assms(3), of sz] info_lower [of sz p]
  show "length m' = length m" using assms(1,2) b by (simp add: m')
  show "sb_capacity sz m' = sb_capacity sz m" "sb_used_capacity sz m' = sb_used_capacity sz m"
    using assms(1,2) b by (simp_all add: m' sb_capacity_def sb_used_capacity_def rdT_wrT_other rdT_poke_other)
  show "sb_pos sz m' p = x" "sb_len sz m' p = length s"
    using assms(1,2,4,5) b by (simp_all add: m' sb_pos_def sb_len_def rdT_wrT_other rdT_wrT_same)
  show "peek m' pos (length s) = s"
    using assms(1,2) b by (simp add: m' peek_wrT_other peek_poke_same)
  show "sb_pos sz m' q = sb_pos sz m q \<and> sb_len sz m' q = sb_len sz m q" if "q < w" "q \<noteq> p"
  proof -
    have "sb_info_at sz p + 2 * sz \<le> sb_info_at sz q \<or> sb_info_at sz q + 2 * sz \<le> sb_info_at sz p"
      using that(2) info_apart [of p q sz] info_apart [of q p sz] by (cases "p < q") auto
    then show ?thesis
      using assms(1,2) b info_bounds [OF that(1), of sz]
      by (elim disjE) (simp_all add: m' sb_pos_def sb_len_def rdT_wrT_other rdT_poke_other)
  qed
  show "peek m' a n = peek m a n"
    if "sb_overhead sz w \<le> a" "a + n \<le> length m" "a + n \<le> pos \<or> pos + length s \<le> a"
    using assms(1,2) b that by (simp add: m' peek_wrT_other peek_poke_other)
qed

lemma get_cong:
  assumes "sb_ok sz w m" "q < w" "sb_pos sz m' q = sb_pos sz m q" "sb_len sz m' q = sb_len sz m q"
    and "\<And>a n. sb_overhead sz w \<le> a \<Longrightarrow> a + n \<le> length m \<Longrightarrow> a = sb_pos sz m q \<Longrightarrow> n = sb_len sz m q \<Longrightarrow> n \<noteq> 0 \<Longrightarrow>
      peek m' a n = peek m a n"
  shows "sb_get sz m' q = sb_get sz m q"
proof (cases "sb_len sz m q = 0")
  case True
  then show ?thesis using assms(4) by (simp add: sb_get_def peek_def)
next
  case False
  then have "sb_overhead sz w \<le> sb_pos sz m q" "sb_pos sz m q + sb_len sz m q \<le> length m"
    using assms(1,2) by (auto simp: sb_ok_def)
  from assms(5) [OF this refl refl False] show ?thesis using assms(3,4) by (simp add: sb_get_def)
qed

lemma used_less: "sb_ok sz w m \<Longrightarrow> 0 < sz \<Longrightarrow> sb_used_capacity sz m < 256 ^ sz"
  unfolding sb_used_capacity_def by (rule rdT_less) (auto simp: sb_ok_def sb_overhead_def)

lemma capacity_le: "sb_ok sz w m \<Longrightarrow> sb_capacity sz m \<le> 256 ^ sz"
  using rdT_less [of sz sz m] by (auto simp: sb_ok_def sb_overhead_def sb_capacity_def Suc_le_eq)

text \<open>Reusing the space of a longer string.\<close>

lemma assign_shorter:
  assumes ok: "sb_ok sz w m" and p: "p < w" and le: "length s \<le> sb_len sz m p" and sz: "0 < sz"
  shows "\<exists>m'. sb_assign sz m p s = (True, m') \<and> sb_get sz m' p = s \<and> sb_ok sz w m' \<and>
    (\<forall>q < w. q \<noteq> p \<longrightarrow> sb_get sz m' q = sb_get sz m q) \<and> sb_used_capacity sz m' = sb_used_capacity sz m \<and>
    sb_capacity sz m' = sb_capacity sz m \<and> (\<forall>q < w. q \<noteq> p \<longrightarrow> sb_len sz m' q = sb_len sz m q)"
proof -
  let ?pos = "sb_pos sz m p"
  have ib: "sb_info_at sz p + 2 * sz \<le> length m"
    using info_bounds [OF p, of sz] ok by (auto simp: sb_ok_def)
  define a where "a = (if s = [] then sb_overhead sz w else ?pos)"
  define m' where "m' = wrT sz (wrT sz (poke m a s) (sb_info_at sz p) ?pos) (sb_info_at sz p + sz) (length s)"
  have pos: "?pos < 256 ^ sz" and len: "length s < 256 ^ sz"
    using rdT_less [of "sb_info_at sz p" sz m] rdT_less [of "sb_info_at sz p + sz" sz m] ib le
    by (auto simp: sb_pos_def sb_len_def)
  have a: "a + length s \<le> length m" "sb_overhead sz w \<le> a"
    using ok_sizes [OF ok] ok_string [OF ok p] le by (cases "s = []"; force simp: a_def)+
  note eff = put_effect [OF a p pos len m'_def]
  have "poke m ?pos s = poke m a s" by (simp add: a_def poke_def)
  then have "sb_assign sz m p s = (True, m')" using le by (simp add: sb_assign_def Let_def m'_def)
  moreover have "sb_get sz m' p = s"
    using eff(4-6) by (cases "s = []") (auto simp: sb_get_def a_def peek_def)
  moreover have "sb_get sz m' q = sb_get sz m q" if q: "q < w" "q \<noteq> p" for q
  proof (rule get_cong [OF ok q(1)])
    show "sb_pos sz m' q = sb_pos sz m q" "sb_len sz m' q = sb_len sz m q" using eff(7) [OF q] by auto
    fix b n
    assume b: "sb_overhead sz w \<le> b" "b + n \<le> length m" "b = sb_pos sz m q" "n = sb_len sz m q" "n \<noteq> 0"
    show "peek m' b n = peek m b n"
    proof (cases "s = []")
      case True
      with b show ?thesis using eff(8) [of b n] by (auto simp: a_def)
    next
      case False
      then have "sb_len sz m p \<noteq> 0" using le by (cases s) auto
      then have "?pos + sb_len sz m p \<le> b \<or> b + n \<le> ?pos"
        using ok_apart [OF ok p q(1)] q(2) b(3-5) by simp
      with False b le show ?thesis using eff(8) [of b n] by (auto simp: a_def)
    qed
  qed
  moreover have "sb_ok sz w m'"
    unfolding sb_ok_def
  proof (intro conjI allI impI)
    show "length m' = sb_capacity sz m'" "sb_overhead sz w \<le> sb_used_capacity sz m'"
      "sb_used_capacity sz m' \<le> sb_capacity sz m'"
      using ok eff(1-3) by (simp_all add: sb_ok_def)
    fix q
    assume q: "q < w" "sb_len sz m' q \<noteq> 0"
    have same: "sb_pos sz m' x = sb_pos sz m x \<and> sb_len sz m' x \<le> sb_len sz m x" if "x < w" for x
      using eff(4,5) eff(7) [OF that] le by (cases "x = p") auto
    have "sb_len sz m q \<noteq> 0" using q same [OF q(1)] by auto
    note string = ok_string [OF ok q(1) this]
    show "sb_overhead sz w \<le> sb_pos sz m' q" "sb_pos sz m' q + sb_len sz m' q \<le> sb_used_capacity sz m'"
      "sb_pos sz m' q + 8 \<le> sb_capacity sz m'"
      using string same [OF q(1)] eff(2,3) by auto
    fix r
    assume r: "r < w" "q \<noteq> r" "sb_len sz m' r \<noteq> 0"
    then have "sb_len sz m r \<noteq> 0" using same [OF r(1)] by auto
    from ok_apart [OF ok q(1) r(1,2) \<open>sb_len sz m q \<noteq> 0\<close> this] same [OF q(1)] same [OF r(1)]
    show "sb_pos sz m' q + sb_len sz m' q \<le> sb_pos sz m' r \<or> sb_pos sz m' r + sb_len sz m' r \<le> sb_pos sz m' q"
      by linarith
  qed
  ultimately show ?thesis using eff(2,3) eff(7) by blast
qed

text \<open>Allocating space behind what is used.\<close>

lemma assign_longer:
  assumes ok: "sb_ok sz w m" and p: "p < w" and gt: "sb_len sz m p < length s" and sz: "0 < sz"
    and room: "sb_used_capacity sz m + max (length s) 8 \<le> sb_capacity sz m"
    and wrap: "sb_used_capacity sz m + length s < 256 ^ sz"
  shows "\<exists>m'. sb_assign sz m p s = (True, m') \<and> sb_get sz m' p = s \<and> sb_ok sz w m' \<and>
    (\<forall>q < w. q \<noteq> p \<longrightarrow> sb_get sz m' q = sb_get sz m q) \<and>
    sb_used_capacity sz m' = sb_used_capacity sz m + length s \<and>
    sb_capacity sz m' = sb_capacity sz m \<and> (\<forall>q < w. q \<noteq> p \<longrightarrow> sb_len sz m' q = sb_len sz m q)"
proof -
  let ?u = "sb_used_capacity sz m"
  define m1 where "m1 = wrT sz m 0 (?u + length s)"
  define m' where "m' = wrT sz (wrT sz (poke m1 ?u s) (sb_info_at sz p) ?u) (sb_info_at sz p + sz) (length s)"
  have base: "length m = sb_capacity sz m" "sb_overhead sz w \<le> ?u" "?u \<le> sb_capacity sz m" "2 * sz \<le> sb_overhead sz w"
    using ok by (simp_all add: sb_ok_def sb_overhead_def)
  have m1: "length m1 = length m" "sb_used_capacity sz m1 = ?u + length s" "sb_capacity sz m1 = sb_capacity sz m"
    using base wrap by (simp_all add: m1_def sb_used_capacity_def sb_capacity_def rdT_wrT_same rdT_wrT_other)
  have m1q: "sb_pos sz m1 q = sb_pos sz m q \<and> sb_len sz m1 q = sb_len sz m q" if "q < w" for q
    using base info_bounds [OF that, of sz] info_lower [of sz q]
    by (simp add: m1_def sb_pos_def sb_len_def rdT_wrT_other)
  have m1p: "peek m1 a n = peek m a n" if "sb_overhead sz w \<le> a" "a + n \<le> length m" for a n
    using base that by (simp add: m1_def peek_wrT_other)
  have len: "length s < 256 ^ sz" "?u < 256 ^ sz" using wrap by auto
  have fits: "?u + length s \<le> length m1" using room base(1) m1(1) by simp
  note eff = put_effect [OF fits base(2) p len(2) len(1) m'_def]
  have "sb_assign sz m p s = (True, m')"
    using gt room by (simp add: sb_assign_def Let_def m'_def m1_def)
  moreover have "sb_get sz m' p = s" using eff(4-6) by (simp add: sb_get_def)
  moreover have "sb_get sz m' q = sb_get sz m q" if q: "q < w" "q \<noteq> p" for q
  proof (rule get_cong [OF ok q(1)])
    show "sb_pos sz m' q = sb_pos sz m q" "sb_len sz m' q = sb_len sz m q"
      using eff(7) [OF q] m1q [OF q(1)] by auto
    fix b n
    assume b: "sb_overhead sz w \<le> b" "b + n \<le> length m" "b = sb_pos sz m q" "n = sb_len sz m q" "n \<noteq> 0"
    have "b + n \<le> ?u" using ok q b by (auto simp: sb_ok_def)
    then show "peek m' b n = peek m b n"
      using eff(8) [of b n] m1p [of b n] b m1(1) by simp
  qed
  moreover have "sb_ok sz w m'"
    unfolding sb_ok_def
  proof (intro conjI allI impI)
    show "length m' = sb_capacity sz m'" "sb_overhead sz w \<le> sb_used_capacity sz m'"
      "sb_used_capacity sz m' \<le> sb_capacity sz m'"
      using base m1 eff(1-3) room by simp_all
    fix q
    assume q: "q < w" "sb_len sz m' q \<noteq> 0"
    have other: "sb_pos sz m' x = sb_pos sz m x \<and> sb_len sz m' x = sb_len sz m x" if "x < w" "x \<noteq> p" for x
      using eff(7) [OF that] m1q [OF that(1)] by simp
    have old: "sb_len sz m' x \<noteq> 0 \<Longrightarrow> sb_overhead sz w \<le> sb_pos sz m' x \<and>
        sb_pos sz m' x + sb_len sz m' x \<le> ?u \<and> sb_pos sz m' x + 8 \<le> sb_capacity sz m" if "x < w" "x \<noteq> p" for x
      using ok_string [OF ok that(1)] other [OF that] by simp
    have new: "sb_pos sz m' p = ?u \<and> sb_len sz m' p = length s" using eff(4,5) by simp
    show "sb_overhead sz w \<le> sb_pos sz m' q" "sb_pos sz m' q + sb_len sz m' q \<le> sb_used_capacity sz m'"
      "sb_pos sz m' q + 8 \<le> sb_capacity sz m'"
      using old [OF q(1) _ q(2)] new room base(2) m1(2,3) eff(2,3) by (cases "q = p"; simp)+
    fix r
    assume r: "r < w" "q \<noteq> r" "sb_len sz m' r \<noteq> 0"
    show "sb_pos sz m' q + sb_len sz m' q \<le> sb_pos sz m' r \<or> sb_pos sz m' r + sb_len sz m' r \<le> sb_pos sz m' q"
    proof (cases "q = p \<or> r = p")
      case True
      then show ?thesis using old [OF q(1) _ q(2)] old [OF r(1) _ r(3)] new r(2) by auto
    next
      case False
      then show ?thesis
        using ok_apart [OF ok q(1) r(1,2)] other [OF q(1)] other [OF r(1)] q(2) r(3) by simp
    qed
  qed
  moreover have "\<forall>q < w. q \<noteq> p \<longrightarrow> sb_len sz m' q = sb_len sz m q" using eff(7) m1q by simp
  ultimately show ?thesis using eff(2,3) m1(2,3) by auto
qed

lemma make_ok:
  assumes "sb_make sz w capacity m = Some m'" "length m = capacity" "0 < sz" "sb_overhead sz w < 256 ^ sz"
    "capacity \<le> 256 ^ sz"
  shows "sb_ok sz w m'" and "sb_used_capacity sz m' = sb_overhead sz w" and "sb_capacity sz m' = capacity"
    and "p < w \<Longrightarrow> sb_len sz m' p = 0"
proof -
  let ?m1 = "wrT sz (wrT sz m 0 (sb_overhead sz w)) sz (capacity - 1)"
  have cap: "sb_overhead sz w \<le> capacity" "m' = poke ?m1 (2 * sz) (replicate (w * (2 * sz)) 0)"
    using assms(1) by (auto simp: sb_make_def Let_def split: if_splits)
  have o: "sb_overhead sz w = 2 * sz + w * (2 * sz)" by (rule sb_overhead_def)
  have "0 < capacity" using cap(1) assms(3) by (simp add: o)
  with cap o assms(2-5) show u: "sb_used_capacity sz m' = sb_overhead sz w" and c: "sb_capacity sz m' = capacity"
    by (simp_all add: sb_used_capacity_def sb_capacity_def rdT_wrT_same rdT_wrT_other rdT_poke_other)
  have l: "sb_len sz m' p = 0" if "p < w" for p
  proof -
    have "peek m' (sb_info_at sz p + sz) sz = replicate sz 0"
    proof (rule nth_equalityI)
      have b: "sb_info_at sz p + 2 * sz \<le> sb_overhead sz w" "2 * sz \<le> sb_info_at sz p"
        using info_bounds [OF that] info_lower by auto
      have lm: "length m' = capacity" using cap o assms(2) by simp
      show "length (peek m' (sb_info_at sz p + sz) sz) = length (replicate sz (0 :: byte))"
        using b cap(1) lm by simp
      fix i
      assume "i < length (peek m' (sb_info_at sz p + sz) sz)"
      then have i: "i < sz" by (simp add: peek_def)
      then show "peek m' (sb_info_at sz p + sz) sz ! i = replicate sz 0 ! i"
        using b cap o assms(2) lm by (simp add: peek_nth nth_poke)
    qed
    then show ?thesis by (simp add: sb_len_def rdT_def)
  qed
  then show "p < w \<Longrightarrow> sb_len sz m' p = 0" .
  have "length m' = capacity" using cap o assms(2) by simp
  then show "sb_ok sz w m'" using u c l cap(1) by (simp add: sb_ok_def)
qed

text \<open>Comparing prefixes and then lengths is comparing the strings.\<close>

lemma compare_prefix:
  fixes xs ys :: "byte list"
  shows "(let n = min (length ys) (length xs); c = compare (take n xs) (take n ys) in
     if c \<noteq> 0 then c else compare (length xs) (length ys)) = compare xs ys"
proof (induction xs ys rule: list_induct2')
  case (4 x xs y ys)
  then show ?case by (auto simp: compare_def Let_def split: if_splits)
qed (auto simp: compare_def)

lemma sb_get_length: "sb_ok sz w m \<Longrightarrow> p < w \<Longrightarrow> length (sb_get sz m p) = sb_len sz m p"
  by (cases "sb_len sz m p = 0") (auto simp: sb_get_def sb_ok_def peek_def)

section \<open>Comparing\<close>

lemma compare_facts:
  assumes "sb_ok sz w m" "p < w"
  shows "(sb_equals sz m p s \<longleftrightarrow> sb_get sz m p = s) \<and> sb_compare sz m p s = compare (sb_get sz m p) s \<and>
    (0 \<le> len \<longrightarrow> (sb_equals_sloppy sz m p mem a len \<longleftrightarrow> sb_get sz m p = bytes_at mem a (nat len)))"
proof -
  let ?g = "sb_get sz m p"
  note len = sb_get_length [OF assms]
  have "sb_equals sz m p s \<longleftrightarrow> ?g = s" by (metis sb_equals_def len sb_get_def)
  moreover have "peek m (sb_pos sz m p) (min (length s) (sb_len sz m p)) = take (min (length s) (length ?g)) ?g"
    unfolding len by (simp add: sb_get_def peek_def min_def)
  then have "sb_compare sz m p s = compare ?g s"
    using compare_prefix [of s ?g] unfolding sb_compare_def Let_def len by (auto split: if_splits)
  moreover have "sb_equals_sloppy sz m p mem a l \<longleftrightarrow> ?g = bytes_at mem a (nat l)" if "0 \<le> l" for l
  proof (cases "int (sb_len sz m p) = l")
    case True
    have "sb_len sz m p = 0 \<or> sb_pos sz m p + sb_len sz m p \<le> length m"
      using assms by (auto simp: sb_ok_def)
    then have "bytes_at (mem_of 0 m) (int (sb_pos sz m p)) (nat l) = ?g"
    proof
      assume "sb_len sz m p = 0"
      then show ?thesis using True len by (auto simp: bytes_at_def)
    next
      assume "sb_pos sz m p + sb_len sz m p \<le> length m"
      then have "bytes_at (mem_of 0 m) (int (sb_pos sz m p)) (sb_len sz m p) = ?g"
        unfolding sb_get_def by (intro nth_equalityI) (auto simp: mem_of_def peek_nth nat_add_distrib)
      then show ?thesis using True by auto
    qed
    then show ?thesis using True by (auto simp: sb_equals_sloppy_def slice_equals_sloppy_eq)
  next
    case False
    then have "?g \<noteq> bytes_at mem a (nat l)" using len that by (metis length_bytes_at nat_0_le)
    with False show ?thesis by (simp add: sb_equals_sloppy_def)
  qed
  ultimately show ?thesis by blast
qed

section \<open>Properties\<close>

text \<open>
  \<^verbatim>\<open>assign\<close> succeeds exactly when the old string is at least as long or there is room
  for the new one (and for a word-wide read of it); then it changes that string and no other, and
  otherwise it changes nothing. The hypothesis excludes a bag filled to the last addressable byte.
\<close>

theorem sb_assign_correct:
  assumes "sb_ok sz w m" "p < w" "0 < sz" "sb_used_capacity sz m + length s < 256 ^ sz"
  shows "let (success, m') = sb_assign sz m p s in
    (success \<longleftrightarrow> length s \<le> length (sb_get sz m p) \<or>
       sb_used_capacity sz m + max (length s) 8 \<le> sb_capacity sz m) \<and>
    (success \<longrightarrow> sb_get sz m' p = s \<and> (\<forall>q < w. q \<noteq> p \<longrightarrow> sb_get sz m' q = sb_get sz m q) \<and> sb_ok sz w m') \<and>
    (\<not> success \<longrightarrow> m' = m)"
proof -
  note len = sb_get_length [OF assms(1,2)]
  consider "length s \<le> sb_len sz m p"
    | "sb_len sz m p < length s" "sb_used_capacity sz m + max (length s) 8 \<le> sb_capacity sz m"
    | "sb_len sz m p < length s" "\<not> sb_used_capacity sz m + max (length s) 8 \<le> sb_capacity sz m"
    by linarith
  then show ?thesis
  proof cases
    case 1
    then show ?thesis using assign_shorter [OF assms(1,2) 1 assms(3)] len by auto
  next
    case 2
    then show ?thesis using assign_longer [OF assms(1,2) 2(1) assms(3) 2(2) assms(4)] len by auto
  next
    case 3
    then have "sb_assign sz m p s = (False, m)" by (simp add: sb_assign_def Let_def)
    with 3 len show ?thesis by simp
  qed
qed

lemma sample_bag:
  "\<exists>m. sb_make 1 2 256 (replicate 256 0) = Some m \<and> sb_ok 1 2 m \<and> sb_used_capacity 1 m = 6 \<and>
     sb_capacity 1 m = 256 \<and> sb_len 1 m 0 = 0 \<and> sb_len 1 m 1 = 0"
proof -
  obtain m where m: "sb_make 1 2 256 (replicate 256 0) = Some m"
    by (simp add: sb_make_def Let_def sb_overhead_def sb_max_size_def)
  show ?thesis using m make_ok [OF m] by (simp add: sb_overhead_def)
qed

theorem sb_assign_correct_witness:
  "\<exists>m m'. sb_make 1 2 256 (replicate 256 0) = Some m \<and> sb_assign 1 m 0 [1, 2, 3] = (True, m') \<and>
     sb_get 1 m' 0 = [1, 2, 3]"
proof -
  obtain m where m: "sb_make 1 2 256 (replicate 256 0) = Some m" "sb_ok 1 2 m" "sb_used_capacity 1 m = 6"
    "sb_capacity 1 m = 256"
    using sample_bag by blast
  have "let (success, m') = sb_assign 1 m 0 [1, 2, 3] in success \<and> sb_get 1 m' 0 = [1, 2, 3]"
    using sb_assign_correct [OF m(2), of 0 "[1, 2, 3]"] m(3,4) by (auto simp: Let_def)
  with m(1) show ?thesis by (auto simp: Let_def split: prod.splits)
qed

text \<open>Strings assigned one after the other, as when a bag is copied; all have to succeed.\<close>

fun sb_assign_list :: "nat \<Rightarrow> byte list \<Rightarrow> (nat \<times> byte list) list \<Rightarrow> byte list option" where
  "sb_assign_list sz m [] = Some m"
| "sb_assign_list sz m ((p, s) # ps) =
     (let (ok, m') = sb_assign sz m p s in if ok then sb_assign_list sz m' ps else None)"

lemma assign_fresh:
  assumes "sb_ok sz w m" "p < w" "0 < sz" "sb_len sz m p = 0"
    and "sb_used_capacity sz m + length s + 7 \<le> sb_capacity sz m"
  shows "\<exists>m'. sb_assign sz m p s = (True, m') \<and> sb_get sz m' p = s \<and> sb_ok sz w m' \<and>
    (\<forall>q < w. q \<noteq> p \<longrightarrow> sb_get sz m' q = sb_get sz m q) \<and>
    sb_used_capacity sz m' \<le> sb_used_capacity sz m + length s \<and>
    sb_capacity sz m' = sb_capacity sz m \<and> (\<forall>q < w. q \<noteq> p \<longrightarrow> sb_len sz m' q = sb_len sz m q)"
proof (cases "s = []")
  case True
  then have "length s \<le> sb_len sz m p" by simp
  from assign_shorter [OF assms(1,2) this assms(3)] show ?thesis by (metis le_add1)
next
  case False
  then have "sb_len sz m p < length s" "sb_used_capacity sz m + max (length s) 8 \<le> sb_capacity sz m"
    "sb_used_capacity sz m + length s < 256 ^ sz"
    using assms(4,5) capacity_le [OF assms(1)] by (cases s; auto simp: max_def)+
  from assign_longer [OF assms(1,2) this(1) assms(3) this(2,3)] show ?thesis by (metis order_refl)
qed

lemma assign_list_ok:
  "sb_ok sz w m \<Longrightarrow> 0 < sz \<Longrightarrow> distinct (map fst ps) \<Longrightarrow> \<forall>x \<in> set ps. fst x < w \<and> sb_len sz m (fst x) = 0 \<Longrightarrow>
   sb_used_capacity sz m + sum_list (map (length \<circ> snd) ps) + 7 \<le> sb_capacity sz m \<Longrightarrow>
   \<exists>m'. sb_assign_list sz m ps = Some m' \<and> sb_ok sz w m' \<and>
     (\<forall>q < w. q \<notin> fst ` set ps \<longrightarrow> sb_get sz m' q = sb_get sz m q \<and> sb_len sz m' q = sb_len sz m q) \<and>
     (\<forall>x \<in> set ps. sb_get sz m' (fst x) = snd x) \<and> sb_capacity sz m' = sb_capacity sz m \<and>
     sb_used_capacity sz m' \<le> sb_used_capacity sz m + sum_list (map (length \<circ> snd) ps)"
proof (induction ps arbitrary: m)
  case Nil
  then show ?case by simp
next
  case (Cons x ps)
  obtain p s where x: "x = (p, s)" by fastforce
  have p: "p < w" "sb_len sz m p = 0" "sb_used_capacity sz m + length s + 7 \<le> sb_capacity sz m"
    using Cons.prems(4,5) x by simp_all
  obtain m1 where m1: "sb_assign sz m p s = (True, m1)" "sb_get sz m1 p = s" "sb_ok sz w m1"
    "\<forall>q < w. q \<noteq> p \<longrightarrow> sb_get sz m1 q = sb_get sz m q"
    "sb_used_capacity sz m1 \<le> sb_used_capacity sz m + length s" "sb_capacity sz m1 = sb_capacity sz m"
    "\<forall>q < w. q \<noteq> p \<longrightarrow> sb_len sz m1 q = sb_len sz m q"
    using assign_fresh [OF Cons.prems(1) p(1) Cons.prems(2) p(2,3)] by blast
  have ps: "distinct (map fst ps)" "p \<notin> fst ` set ps" using Cons.prems(3) x by auto
  have "\<forall>y \<in> set ps. fst y < w \<and> sb_len sz m1 (fst y) = 0" using Cons.prems(4) ps(2) m1(7) by force
  moreover have "sb_used_capacity sz m1 + sum_list (map (length \<circ> snd) ps) + 7 \<le> sb_capacity sz m1"
    using Cons.prems(5) m1(5,6) x by (simp add: comp_def)
  ultimately obtain m' where m': "sb_assign_list sz m1 ps = Some m'" "sb_ok sz w m'"
    "\<forall>q < w. q \<notin> fst ` set ps \<longrightarrow> sb_get sz m' q = sb_get sz m1 q \<and> sb_len sz m' q = sb_len sz m1 q"
    "\<forall>y \<in> set ps. sb_get sz m' (fst y) = snd y" "sb_capacity sz m' = sb_capacity sz m1"
    "sb_used_capacity sz m' \<le> sb_used_capacity sz m1 + sum_list (map (length \<circ> snd) ps)"
    using Cons.IH [OF m1(3) Cons.prems(2) ps(1)] by blast
  have "sb_get sz m' p = s" using m'(3) ps(2) p(1) m1(2) by simp
  then have "\<forall>y \<in> set (x # ps). sb_get sz m' (fst y) = snd y" using m'(4) x by simp
  moreover have "\<forall>q < w. q \<notin> fst ` set (x # ps) \<longrightarrow> sb_get sz m' q = sb_get sz m q \<and> sb_len sz m' q = sb_len sz m q"
    using m'(3) m1(4,7) x by simp
  moreover have "sb_assign_list sz m (x # ps) = Some m'" using x m1(1) m'(1) by simp
  moreover have "sb_used_capacity sz m' \<le> sb_used_capacity sz m + sum_list (map (length \<circ> snd) (x # ps))"
    using m'(6) m1(5) x by simp
  moreover have "sb_capacity sz m' = sb_capacity sz m" using m'(5) m1(6) by simp
  ultimately show ?case using m'(2) by blast
qed

text \<open>
  C33: a bag of \<^verbatim>\<open>safe_size\<close> for a number of strings of a given total length takes all of
  them, whatever their lengths are, and gives them back.
\<close>

theorem sb_safe_size_suffices:
  assumes "sb_make sz w (sb_safe_size sz w (sum_list (map length ss))) m0 = Some m"
    and "length m0 = sb_safe_size sz w (sum_list (map length ss))" "length ss = w" "0 < sz" "sz \<le> 2"
  shows "\<exists>m'. sb_assign_list sz m (enumerate 0 ss) = Some m' \<and> sb_ok sz w m' \<and>
    (\<forall>i < w. sb_get sz m' i = ss ! i)"
proof -
  let ?c = "sb_safe_size sz w (sum_list (map length ss))"
  have "sz = 1 \<or> sz = 2" using assms(4,5) by auto
  then have max: "sb_max_size sz = 256 ^ sz" by (auto simp: sb_max_size_def)
  have c: "?c \<le> 256 ^ sz" "sb_overhead sz w < ?c"
    using assms(1) max by (auto simp: sb_make_def sb_safe_size_def Let_def split: if_splits)
  note ok = make_ok [OF assms(1,2,4) less_le_trans [OF c(2,1)] c(1)]
  have "map (length \<circ> snd) (enumerate 0 ss) = map length ss"
    by (simp flip: map_map)
  then have "\<exists>m'. sb_assign_list sz m (enumerate 0 ss) = Some m' \<and> sb_ok sz w m' \<and>
     (\<forall>x \<in> set (enumerate 0 ss). sb_get sz m' (fst x) = snd x)"
    using assign_list_ok [OF ok(1) assms(4), of "enumerate 0 ss"] ok(2-4) assms(3)
    by (auto simp: sb_safe_size_def in_set_enumerate_eq)
  then obtain m' where m': "sb_assign_list sz m (enumerate 0 ss) = Some m'" "sb_ok sz w m'"
    "\<forall>x \<in> set (enumerate 0 ss). sb_get sz m' (fst x) = snd x"
    by blast
  have "sb_get sz m' i = ss ! i" if "i < w" for i
    using bspec [OF m'(3), of "(i, ss ! i)"] that assms(3) by (simp add: in_set_enumerate_eq)
  with m'(1,2) show ?thesis by blast
qed

theorem sb_safe_size_suffices_witness:
  "\<exists>m m'. sb_make 1 2 (sb_safe_size 1 2 3) (replicate (sb_safe_size 1 2 3) 0) = Some m \<and>
     sb_assign_list 1 m (enumerate 0 [[1], [2, 3]]) = Some m' \<and> sb_get 1 m' 1 = [2, 3]"
proof -
  obtain m where m: "sb_make 1 2 (sb_safe_size 1 2 3) (replicate (sb_safe_size 1 2 3) 0) = Some m"
    by (simp add: sb_make_def Let_def sb_overhead_def sb_max_size_def sb_safe_size_def)
  have sum: "sum_list (map length [[1 :: byte], [2, 3]]) = 3" by simp
  from m have "\<exists>m'. sb_assign_list 1 m (enumerate 0 [[1], [2, 3]]) = Some m' \<and> sb_ok 1 2 m' \<and>
      (\<forall>i < 2. sb_get 1 m' i = [[1], [2, 3]] ! i)"
    by (intro sb_safe_size_suffices [of 1 2 "[[1], [2, 3]]" "replicate (sb_safe_size 1 2 3) 0" m, unfolded sum]) simp_all
  then obtain m' where "sb_assign_list 1 m (enumerate 0 [[1], [2, 3]]) = Some m'" "sb_get 1 m' 1 = [2, 3]" by force
  with m show ?thesis by blast
qed

text \<open>
  the equality tests and the comparison read the string \<^verbatim>\<open>get\<close> returns; the comparison
  is the lexicographic order.
\<close>

theorem sb_compare_correct:
  assumes "sb_ok sz w m" "p < w"
  shows "(sb_equals sz m p s \<longleftrightarrow> sb_get sz m p = s) \<and> sb_compare sz m p s = compare (sb_get sz m p) s \<and>
    (0 \<le> len \<longrightarrow> (sb_equals_sloppy sz m p mem a len \<longleftrightarrow> sb_get sz m p = bytes_at mem a (nat len)))"
  using assms by (rule compare_facts)

theorem sb_compare_correct_witness:
  "\<exists>m. sb_make 1 2 256 (replicate 256 0) = Some m \<and> sb_equals 1 m 0 []"
proof -
  obtain m where m: "sb_make 1 2 256 (replicate 256 0) = Some m" "sb_ok 1 2 m" "sb_len 1 m 0 = 0"
    using sample_bag by blast
  have "sb_get 1 m 0 = []" using m(3) by (simp add: sb_get_def peek_def)
  with sb_compare_correct [OF m(2), of 0 "[]"] m(1) show ?thesis by auto
qed

text \<open>
  a string that fills a bag of the maximal capacity to its last byte is accepted, but the
  count of used bytes, held in the offset type, wraps to zero: the next string will be written
  over the header.
\<close>

theorem sb_assign_wraps:
  assumes "sb_ok sz w m" "p < w" "0 < sz" "sb_len sz m p < length s" "8 \<le> length s"
    and "sb_used_capacity sz m + length s = 256 ^ sz" "sb_capacity sz m = 256 ^ sz"
  shows "\<exists>m'. sb_assign sz m p s = (True, m') \<and> sb_used_capacity sz m' = 0 \<and> \<not> sb_ok sz w m'"
proof -
  let ?u = "sb_used_capacity sz m"
  let ?m1 = "wrT sz m 0 (?u + length s)"
  let ?m' = "wrT sz (wrT sz (poke ?m1 ?u s) (sb_info_at sz p) ?u) (sb_info_at sz p + sz) (length s)"
  have base: "length m = sb_capacity sz m" "sb_overhead sz w \<le> ?u" "2 * sz \<le> sb_overhead sz w"
    using assms(1) by (simp_all add: sb_ok_def sb_overhead_def)
  have m1: "length ?m1 = length m" "sb_used_capacity sz ?m1 = 0"
    using base ok_sizes [OF assms(1)] rdT_wrT_mod [of 0 sz m "256 ^ sz"] unfolding assms(6)
    by (simp_all add: sb_used_capacity_def)
  have "sb_used_capacity sz ?m' = sb_used_capacity sz ?m1"
  proof (rule put_effect(3) [OF _ base(2) assms(2) _ _ refl])
    show "?u + length s \<le> length ?m1" using base(1) assms(6,7) m1(1) by simp
    show "?u < 256 ^ sz" by (rule used_less [OF assms(1,3)])
    show "length s < 256 ^ sz" using assms(3,6) base(2,3) by simp
  qed
  then have "sb_used_capacity sz ?m' = 0" using m1(2) by simp
  moreover have "\<not> sb_ok sz w ?m'" using calculation assms(3) base(3) by (auto simp: sb_ok_def)
  moreover have "sb_assign sz m p s = (True, ?m')"
    using assms(4-7) by (simp add: sb_assign_def Let_def max_def)
  ultimately show ?thesis by blast
qed

theorem sb_assign_wraps_witness:
  "\<exists>m m'. sb_make 1 2 256 (replicate 256 0) = Some m \<and> sb_assign 1 m 0 (replicate 250 7) = (True, m') \<and>
     sb_used_capacity 1 m' = 0"
proof -
  obtain m where m: "sb_make 1 2 256 (replicate 256 0) = Some m" "sb_ok 1 2 m" "sb_used_capacity 1 m = 6"
    "sb_capacity 1 m = 256" "sb_len 1 m 0 = 0"
    using sample_bag by blast
  then show ?thesis using sb_assign_wraps [OF m(2), of 0 "replicate 250 7"] by auto
qed

end
