(* ===== verification/Bloom_Filter.thy ===== *)
theory Bloom_Filter
  imports Prelude
begin

text \<open>
  The Bloom filter of \<^verbatim>\<open>hybrid_index/mtIndexAPI.hh\<close>, which keeps lookups of absent keys away
  from the dynamic stage (compiled in with \<^verbatim>\<open>USE_BLOOM_FILTER\<close>). A key is the list of its
  bytes, the filter the array of \<^verbatim>\<open>bits / 8\<close> bytes. The hash is computed as the code does,
  in 32-bit words.

  A key inserted is matched from then on, whatever else is inserted; an empty filter matches none.
\<close>

section \<open>Hashing\<close>

definition DecodeFixed32 :: "byte list \<Rightarrow> u32" where
  "DecodeFixed32 data = word_of_nat (le_nat (take 4 data))"

definition hash_m :: u32 where
  "hash_m = 0xc6a4a793"

text \<open>The loop over four bytes at a time, then the remaining bytes.\<close>

fun Hash_loop :: "byte list \<Rightarrow> u32 \<Rightarrow> u32" where
  "Hash_loop (a # b # c # d # data) h =
     (let h = (h + DecodeFixed32 [a, b, c, d]) * hash_m in Hash_loop data (h XOR drop_bit 16 h))"
| "Hash_loop [] h = h"
| "Hash_loop data h =
     (let h = h + (if length data = 3 then push_bit 16 (ucast (data ! 2)) else 0);
          h = h + (if 2 \<le> length data then push_bit 8 (ucast (data ! 1)) else 0);
          h = (h + ucast (data ! 0)) * hash_m
      in h XOR drop_bit 24 h)"

definition Hash :: "byte list \<Rightarrow> u32 \<Rightarrow> u32" where
  "Hash data seed = Hash_loop data (seed XOR (word_of_nat (length data) * hash_m))"

definition BloomHash :: "byte list \<Rightarrow> u32" where
  "BloomHash data = Hash data 0xbc9f1d34"

section \<open>The filter\<close>

text \<open>The number of bits, and the array.\<close>

definition CreateEmptyFilter :: "nat \<Rightarrow> nat \<times> byte list" where
  "CreateEmptyFilter n = (let bits = n * 8; bytes = (bits + 7) div 8 in (bytes * 8, replicate bytes 0))"

definition bloom_delta :: "u32 \<Rightarrow> u32" where
  "bloom_delta h = drop_bit 17 h OR push_bit 15 h"

text \<open>The loops with \<open>k\<close> rounds to go; the code makes \<^verbatim>\<open>K\<close>, two.\<close>

fun InsertToFilter_loop :: "nat \<Rightarrow> nat \<Rightarrow> u32 \<Rightarrow> u32 \<Rightarrow> byte list \<Rightarrow> byte list" where
  "InsertToFilter_loop 0 bits delta h filt = filt"
| "InsertToFilter_loop (Suc k) bits delta h filt =
     (let bitpos = unat h mod bits in
      InsertToFilter_loop k bits delta (h + delta)
        (filt[bitpos div 8 := filt ! (bitpos div 8) OR push_bit (bitpos mod 8) 1]))"

definition InsertToFilter :: "nat \<Rightarrow> byte list \<Rightarrow> byte list \<Rightarrow> byte list" where
  "InsertToFilter bits data filt =
     (let h = BloomHash data in InsertToFilter_loop 2 bits (bloom_delta h) h filt)"

fun KeyMayMatch_loop :: "nat \<Rightarrow> nat \<Rightarrow> u32 \<Rightarrow> u32 \<Rightarrow> byte list \<Rightarrow> bool" where
  "KeyMayMatch_loop 0 bits delta h filt = True"
| "KeyMayMatch_loop (Suc k) bits delta h filt =
     (let bitpos = unat h mod bits in
      if filt ! (bitpos div 8) AND push_bit (bitpos mod 8) 1 = 0 then False
      else KeyMayMatch_loop k bits delta (h + delta) filt)"

definition KeyMayMatch :: "nat \<Rightarrow> byte list \<Rightarrow> byte list \<Rightarrow> bool" where
  "KeyMayMatch bits data filt =
     (let h = BloomHash data in KeyMayMatch_loop 2 bits (bloom_delta h) h filt)"

section \<open>The set of bits\<close>

definition filter_bits :: "byte list \<Rightarrow> nat set" where
  "filter_bits f = {i. i div 8 < length f \<and> bit (f ! (i div 8)) (i mod 8)}"

fun probes :: "nat \<Rightarrow> nat \<Rightarrow> u32 \<Rightarrow> u32 \<Rightarrow> nat set" where
  "probes 0 bits delta h = {}"
| "probes (Suc k) bits delta h = insert (unat h mod bits) (probes k bits delta (h + delta))"

lemma and_bit_zero: "k < 8 \<Longrightarrow> (b :: byte) AND 2 ^ k = 0 \<longleftrightarrow> \<not> bit b k"
  by (subst bit_eq_iff) (auto simp: bit_and_iff bit_exp_iff)

lemma set_bit_bits:
  assumes "p div 8 < length f"
  shows "filter_bits (f[p div 8 := f ! (p div 8) OR 2 ^ (p mod 8)]) = insert p (filter_bits f)"
proof -
  have eq: "i = p" if "i div 8 = p div 8" "i mod 8 = p mod 8" for i
    using that div_mult_mod_eq [of i 8] div_mult_mod_eq [of p 8] by metis
  show ?thesis
    using assms by (auto simp: filter_bits_def nth_list_update bit_or_iff bit_exp_iff split: if_splits)
      (metis eq)
qed

lemma insert_loop:
  "0 < bits \<Longrightarrow> bits \<le> 8 * length f \<Longrightarrow>
   filter_bits (InsertToFilter_loop k bits delta h f) = filter_bits f \<union> probes k bits delta h \<and>
   length (InsertToFilter_loop k bits delta h f) = length f"
proof (induction k arbitrary: h f)
  case (Suc k)
  let ?p = "unat h mod bits"
  have "?p < bits" using Suc.prems by simp
  with Suc.prems have "?p div 8 < length f" by (simp add: div_less_iff_less_mult mult.commute)
  with Suc show ?case by (simp add: Let_def set_bit_bits)
qed simp

lemma match_loop:
  "0 < bits \<Longrightarrow> bits \<le> 8 * length f \<Longrightarrow>
   KeyMayMatch_loop k bits delta h f \<longleftrightarrow> probes k bits delta h \<subseteq> filter_bits f"
proof (induction k arbitrary: h)
  case (Suc k)
  let ?p = "unat h mod bits"
  have "?p < bits" using Suc.prems by simp
  with Suc.prems have "?p div 8 < length f" by (simp add: div_less_iff_less_mult mult.commute)
  then have "?p \<in> filter_bits f \<longleftrightarrow> f ! (?p div 8) AND 2 ^ (?p mod 8) \<noteq> 0"
    by (simp add: filter_bits_def and_bit_zero)
  with Suc show ?case by (simp add: Let_def)
qed simp

lemma insert_all:
  "0 < bits \<Longrightarrow> bits \<le> 8 * length f \<Longrightarrow>
   filter_bits (fold (InsertToFilter bits) xs f) =
     filter_bits f \<union> (\<Union>x \<in> set xs. probes 2 bits (bloom_delta (BloomHash x)) (BloomHash x)) \<and>
   length (fold (InsertToFilter bits) xs f) = length f"
proof (induction xs arbitrary: f)
  case (Cons x xs)
  then show ?case
    using insert_loop [of bits f 2 "bloom_delta (BloomHash x)" "BloomHash x"]
    by (auto simp: InsertToFilter_def Let_def)
qed simp

section \<open>Properties\<close>

text \<open>
  C35: the filter has no false negatives: after any sequence of insertions into a fresh filter every
  inserted key is matched, and what a filter matched it keeps matching. A fresh filter matches
  nothing.
\<close>

theorem bloom_no_false_negatives:
  assumes "0 < n" "CreateEmptyFilter n = (bits, filt)"
  shows "(x \<in> set xs \<longrightarrow> KeyMayMatch bits x (fold (InsertToFilter bits) xs filt)) \<and>
    (KeyMayMatch bits x (fold (InsertToFilter bits) xs filt) \<longrightarrow>
       KeyMayMatch bits x (InsertToFilter bits y (fold (InsertToFilter bits) xs filt))) \<and>
    \<not> KeyMayMatch bits x filt"
proof -
  have b: "0 < bits" "bits \<le> 8 * length filt" and f: "filt = replicate n 0"
    using assms by (auto simp: CreateEmptyFilter_def Let_def)
  have none: "filter_bits filt = {}"
    by (auto simp: filter_bits_def f)
  let ?P = "\<lambda>x. probes 2 bits (bloom_delta (BloomHash x)) (BloomHash x)"
  have match: "KeyMayMatch bits x g \<longleftrightarrow> ?P x \<subseteq> filter_bits g" if "length g = length filt" for g
    using match_loop [of bits g 2] b that by (simp add: KeyMayMatch_def Let_def)
  note all = insert_all [OF b, of xs]
  have ne: "?P x \<noteq> {}" by (simp add: numeral_2_eq_2)
  show ?thesis
    using all insert_all [OF b, of "xs @ [y]"] match [of filt] match [of "fold (InsertToFilter bits) xs filt"]
      match [of "InsertToFilter bits y (fold (InsertToFilter bits) xs filt)"] none ne
    by auto
qed

theorem bloom_no_false_negatives_witness:
  "KeyMayMatch 800 [1, 2, 3] (fold (InsertToFilter 800) [[4], [1, 2, 3]] (replicate 100 0))"
  using bloom_no_false_negatives [of 100 800 "replicate 100 0" "[1, 2, 3]" "[[4], [1, 2, 3]]" "[]"]
  by (simp add: CreateEmptyFilter_def Let_def del: fold.simps)

end
