(* ===== verification/Dyn_Leaf.thy ===== *)
theory Dyn_Leaf
  imports String_Bag Kpermuter Node_Version Node_Layout
begin

text \<open>
  The leaves of the dynamic stage: class \<^verbatim>\<open>leaf\<close> of \<^verbatim>\<open>hybrid_index/masstree_struct.hh\<close> and
  its splitting in \<^verbatim>\<open>masstree_split.hh\<close>, for the parameters of \<^verbatim>\<open>default_table\<close>: 15 slots,
  single-threaded (so that the version word is that of \<^verbatim>\<open>singlethreaded_nodeversion\<close>).

  The arrays of a leaf are lists indexed by slot, the permutation says which slots are in use and
  in which order. Key suffixes are in a bag inside the leaf (\<open>lf_iksuf\<close>, the bytes behind the
  object) or in an allocation of its own (\<open>lf_ksuf\<close>). Fresh memory is arbitrary: \<open>raw\<close> is the
  leaf the uninitialised fields come from, \<open>junk\<close> the content of an allocation. \<open>None\<close> is a
  failed assertion.

  The abstraction of a leaf is \<open>lf_rows\<close>, its used slots in key order as \<open>node_slot\<close>s, the
  same rows the static nodes hold. \<open>lf_ok\<close> is the invariant of a leaf. Under it a row assigned
  to a free slot and inserted into the permutation is inserted into the list of rows, and
  splitting cuts the list, with the new row inserted, in two.
\<close>

section \<open>Data\<close>

abbreviation leaf_width :: nat where
  "leaf_width \<equiv> 15"

datatype modstate = modstate_insert | modstate_remove | modstate_deleted_layer

record leaf =
  lf_version :: u32
  lf_extrasize64 :: int
  lf_modstate :: modstate
  lf_keylenx :: "byte list"
  lf_permutation :: u64
  lf_ikey0 :: "u64 list"
  lf_lv :: "u64 list"
  lf_ksuf :: "byte list option"
  lf_next :: u64
  lf_prev :: u64
  lf_parent :: u64
  lf_node_ts :: u64
  lf_iksuf :: "byte list"

definition sizeof_leaf :: nat where
  "sizeof_leaf = 312"

definition layer_keylenx :: byte where
  "layer_keylenx = 8 + 1 + 128"

section \<open>Construction\<close>

definition iceil :: "nat \<Rightarrow> nat \<Rightarrow> nat" where
  "iceil x y = (let m = x mod y in x + (if m \<noteq> 0 then y - m else 0))"

definition lf_make :: "leaf \<Rightarrow> (nat \<Rightarrow> byte) \<Rightarrow> nat \<Rightarrow> u64 \<Rightarrow> leaf option" where
  "lf_make raw junk ksufsize node_ts =
     (let sz = iceil (sizeof_leaf + min ksufsize 128) 64;
          extrasize64 = int (sz div 64) - int ((sizeof_leaf + 63) div 64);
          l = raw\<lparr>lf_version := nv_make nodeversion32_parameters True, lf_modstate := modstate_insert,
                lf_permutation := kp_make_empty leaf_width, lf_ksuf := None, lf_parent := 0,
                lf_node_ts := node_ts, lf_extrasize64 := extrasize64,
                lf_iksuf := map junk [0..<sz - sizeof_leaf]\<rparr>
      in if extrasize64 > 0
         then map_option (\<lambda>bag. l\<lparr>lf_iksuf := bag\<rparr>) (sb_make 1 leaf_width (sz - sizeof_leaf) (lf_iksuf l))
         else Some l)"

definition lf_make_root :: "leaf \<Rightarrow> (nat \<Rightarrow> byte) \<Rightarrow> nat \<Rightarrow> leaf option \<Rightarrow> leaf option" where
  "lf_make_root raw junk ksufsize parent =
     map_option (\<lambda>n. n\<lparr>lf_next := 0, lf_prev := 0, lf_parent := 0,
         lf_version := nv_mark_root nodeversion32_parameters (lf_version n)\<rparr>)
       (lf_make raw junk ksufsize (case parent of None \<Rightarrow> 0 | Some p \<Rightarrow> lf_node_ts p))"

definition lf_min_allocated_size :: nat where
  "lf_min_allocated_size = (sizeof_leaf + 63) div 64 * 64"

definition lf_allocated_size :: "leaf \<Rightarrow> nat" where
  "lf_allocated_size l =
     (let es = (if lf_extrasize64 l \<ge> 0 then lf_extrasize64 l else - lf_extrasize64 l - 1)
      in (sizeof_leaf + nat es * 64 + 63) div 64 * 64)"

section \<open>Reading\<close>

definition lf_size :: "leaf \<Rightarrow> nat" where
  "lf_size l = kp_size (lf_permutation l)"

definition lf_ikey :: "leaf \<Rightarrow> nat \<Rightarrow> u64" where
  "lf_ikey l p = lf_ikey0 l ! p"

definition lf_ikey_bound :: "leaf \<Rightarrow> u64" where
  "lf_ikey_bound l = lf_ikey0 l ! 0"

definition lf_ikeylen :: "leaf \<Rightarrow> nat \<Rightarrow> byte" where
  "lf_ikeylen l p = keylenx_ikeylen (lf_keylenx l ! p)"

definition lf_is_layer :: "leaf \<Rightarrow> nat \<Rightarrow> bool" where
  "lf_is_layer l p = keylenx_is_layer (lf_keylenx l ! p)"

definition lf_has_ksuf :: "leaf \<Rightarrow> nat \<Rightarrow> bool" where
  "lf_has_ksuf l p = keylenx_has_ksuf (lf_keylenx l ! p)"

definition lf_ksuf_at :: "leaf \<Rightarrow> nat \<Rightarrow> byte list" where
  "lf_ksuf_at l p = (case lf_ksuf l of Some bag \<Rightarrow> sb_get 2 bag p | None \<Rightarrow> sb_get 1 (lf_iksuf l) p)"

definition lf_get_key :: "leaf \<Rightarrow> nat \<Rightarrow> mkey" where
  "lf_get_key l p =
     (let kl = lf_keylenx l ! p in
      if \<not> keylenx_has_ksuf kl then key_of_ikey_len (lf_ikey0 l ! p) (uint kl)
      else key_of_ikey_suf (lf_ikey0 l ! p) (mem_of 0 (lf_ksuf_at l p)) 0 (int (length (lf_ksuf_at l p))))"

definition lf_ksuf_equals :: "leaf \<Rightarrow> nat \<Rightarrow> mkey \<Rightarrow> byte \<Rightarrow> bool" where
  "lf_ksuf_equals l p ka keylenx \<longleftrightarrow>
     \<not> keylenx_has_ksuf keylenx \<or>
     (case lf_ksuf l of
        None \<Rightarrow> sb_equals_sloppy 1 (lf_iksuf l) p (k_mem ka) (fst (key_suffix ka)) (snd (key_suffix ka))
      | Some bag \<Rightarrow> sb_equals_sloppy 2 bag p (k_mem ka) (fst (key_suffix ka)) (snd (key_suffix ka)))"

definition lf_ksuf_compare :: "leaf \<Rightarrow> nat \<Rightarrow> mkey \<Rightarrow> int" where
  "lf_ksuf_compare l p ka =
     (let suffix = bytes_at (k_mem ka) (fst (key_suffix ka)) (nat (snd (key_suffix ka))) in
      if \<not> lf_has_ksuf l p then 0
      else case lf_ksuf l of None \<Rightarrow> sb_compare 1 (lf_iksuf l) p suffix | Some bag \<Rightarrow> sb_compare 2 bag p suffix)"

definition lf_ksuf_used_capacity :: "leaf \<Rightarrow> nat" where
  "lf_ksuf_used_capacity l =
     (case lf_ksuf l of Some bag \<Rightarrow> sb_used_capacity 2 bag
      | None \<Rightarrow> if lf_extrasize64 l > 0 then sb_used_capacity 1 (lf_iksuf l) else 0)"

definition lf_ksuf_capacity :: "leaf \<Rightarrow> nat" where
  "lf_ksuf_capacity l =
     (case lf_ksuf l of Some bag \<Rightarrow> sb_capacity 2 bag
      | None \<Rightarrow> if lf_extrasize64 l > 0 then sb_capacity 1 (lf_iksuf l) else 0)"

definition lf_ksuf_external :: "leaf \<Rightarrow> bool" where
  "lf_ksuf_external l \<longleftrightarrow> lf_ksuf l \<noteq> None"

definition lf_ksuf_storage :: "leaf \<Rightarrow> nat \<Rightarrow> byte list" where
  "lf_ksuf_storage l p =
     (case lf_ksuf l of Some bag \<Rightarrow> sb_get 2 bag p
      | None \<Rightarrow> if lf_extrasize64 l > 0 then sb_get 1 (lf_iksuf l) p else [])"

definition lf_deleted_layer :: "leaf \<Rightarrow> bool" where
  "lf_deleted_layer l \<longleftrightarrow> lf_modstate l = modstate_deleted_layer"

definition key_compare_lf :: "mkey \<Rightarrow> leaf \<Rightarrow> nat \<Rightarrow> int" where
  "key_compare_lf k l p = key_cmp k (lf_ikey0 l ! p) (uint (lf_keylenx l ! p))"

section \<open>Assigning a slot\<close>

fun bit_length :: "nat \<Rightarrow> nat" where
  "bit_length n = (if n = 0 then 0 else Suc (bit_length (n div 2)))"

declare bit_length.simps [simp del]

text \<open>\<^verbatim>\<open>64 - clz(x)\<close> is the number of bits of \<open>x\<close>.\<close>

definition iceil_log2 :: "nat \<Rightarrow> nat" where
  "iceil_log2 x = 2 ^ (bit_length x - (if x AND (x - 1) = 0 then 1 else 0))"

text \<open>The external bag to come: the suffixes of the slots \<open>mps\<close> copied, and \<open>s\<close> at slot \<open>p\<close>.\<close>

definition lf_new_ksuf :: "leaf \<Rightarrow> nat \<Rightarrow> byte list \<Rightarrow> nat list \<Rightarrow> (nat \<Rightarrow> byte) \<Rightarrow> leaf option" where
  "lf_new_ksuf l p s mps junk =
     (let live = List.filter (\<lambda>mp. mp \<noteq> p \<and> lf_has_ksuf l mp) mps;
          csz = sum_list (map (\<lambda>mp. length (lf_ksuf_at l mp)) live);
          sz = iceil_log2 (sb_safe_size 2 leaf_width (csz + length s));
          sz = (case lf_ksuf l of None \<Rightarrow> sz | Some oksuf \<Rightarrow> max sz (sb_capacity 2 oksuf))
      in case sb_make 2 leaf_width sz (map junk [0..<sz]) of None \<Rightarrow> None
         | Some nksuf \<Rightarrow>
           (case sb_assign_list 2 nksuf (map (\<lambda>mp. (mp, lf_ksuf_at l mp)) live @ [(p, s)]) of None \<Rightarrow> None
            | Some nksuf \<Rightarrow> Some (l\<lparr>lf_ksuf := Some nksuf,
                 lf_extrasize64 := (if lf_extrasize64 l \<ge> 0 then - lf_extrasize64 l - 1 else lf_extrasize64 l)\<rparr>)))"

definition lf_assign_ksuf :: "leaf \<Rightarrow> nat \<Rightarrow> byte list \<Rightarrow> bool \<Rightarrow> (nat \<Rightarrow> byte) \<Rightarrow> leaf option" where
  "lf_assign_ksuf l p s initializing junk =
     (let perm = lf_permutation l;
          n = (if initializing then p else kp_size perm);
          mps = map (\<lambda>i. if initializing then i else kp_at perm i) [0..<n];
          ext = (case lf_ksuf l of None \<Rightarrow> (False, []) | Some bag \<Rightarrow> sb_assign 2 bag p s) in
      if fst ext then Some (l\<lparr>lf_ksuf := Some (snd ext)\<rparr>)
      else if lf_extrasize64 l > 0 \<and> fst (sb_assign 1 (lf_iksuf l) p s)
      then Some (l\<lparr>lf_iksuf := snd (sb_assign 1 (lf_iksuf l) p s)\<rparr>)
      else lf_new_ksuf l p s mps junk)"

definition lf_put_key :: "leaf \<Rightarrow> nat \<Rightarrow> u64 \<Rightarrow> byte \<Rightarrow> leaf" where
  "lf_put_key l p ikey keylenx =
     l\<lparr>lf_ikey0 := (lf_ikey0 l)[p := ikey], lf_keylenx := (lf_keylenx l)[p := keylenx]\<rparr>"

definition lf_assign_with :: "bool \<Rightarrow> leaf \<Rightarrow> nat \<Rightarrow> mkey \<Rightarrow> (nat \<Rightarrow> byte) \<Rightarrow> leaf option" where
  "lf_assign_with initializing l p ka junk =
     (let l = l\<lparr>lf_lv := (lf_lv l)[p := 0]\<rparr>;
          suffix = bytes_at (k_mem ka) (fst (key_suffix ka)) (nat (snd (key_suffix ka)))
      in map_option (\<lambda>l. lf_put_key l p (k_ikey0 ka) (word_of_int (key_ikeylen ka)))
           (if key_has_suffix ka then lf_assign_ksuf l p suffix initializing junk else Some l))"

definition lf_assign :: "leaf \<Rightarrow> nat \<Rightarrow> mkey \<Rightarrow> (nat \<Rightarrow> byte) \<Rightarrow> leaf option" where
  "lf_assign = lf_assign_with False"

definition lf_assign_initialize :: "leaf \<Rightarrow> nat \<Rightarrow> mkey \<Rightarrow> (nat \<Rightarrow> byte) \<Rightarrow> leaf option" where
  "lf_assign_initialize = lf_assign_with True"

definition lf_assign_initialize_from :: "leaf \<Rightarrow> nat \<Rightarrow> leaf \<Rightarrow> nat \<Rightarrow> (nat \<Rightarrow> byte) \<Rightarrow> leaf option" where
  "lf_assign_initialize_from l p x xp junk =
     (let l = l\<lparr>lf_lv := (lf_lv l)[p := lf_lv x ! xp]\<rparr>
      in map_option (\<lambda>l. lf_put_key l p (lf_ikey0 x ! xp) (lf_keylenx x ! xp))
           (if lf_has_ksuf x xp then lf_assign_ksuf l p (lf_ksuf_at x xp) True junk else Some l))"

definition lf_assign_initialize_for_layer :: "leaf \<Rightarrow> nat \<Rightarrow> mkey \<Rightarrow> leaf option" where
  "lf_assign_initialize_for_layer l p ka =
     (if key_has_suffix ka then Some (lf_put_key l p (k_ikey0 ka) layer_keylenx) else None)"

text \<open>The last step of an insertion: \<^verbatim>\<open>tcursor::finish_insert\<close>.\<close>

definition lf_finish_insert :: "leaf \<Rightarrow> nat \<Rightarrow> leaf" where
  "lf_finish_insert l ki =
     l\<lparr>lf_permutation := snd (kp_insert_from_back leaf_width (lf_permutation l) ki)\<rparr>"

section \<open>Rounding up to a power of two\<close>

lemma bit_length_upper: "n < 2 ^ bit_length n"
  by (induction n rule: bit_length.induct) (subst bit_length.simps, auto)

lemma bit_length_1: "bit_length 1 = 1"
  by code_simp

lemma bit_length_lower: "n \<noteq> 0 \<Longrightarrow> 0 < bit_length n \<and> 2 ^ (bit_length n - 1) \<le> n"
proof (induction n rule: bit_length.induct)
  case (1 n)
  show ?case
  proof (cases "n div 2 = 0")
    case True
    with 1 have "n = 1" by auto
    then show ?thesis using bit_length_1 by simp
  next
    case False
    with 1 have ih: "0 < bit_length (n div 2)" "2 ^ (bit_length (n div 2) - 1) \<le> n div 2" by auto
    have "(2 :: nat) ^ bit_length (n div 2) = 2 * 2 ^ (bit_length (n div 2) - 1)"
      using ih(1) by (cases "bit_length (n div 2)") auto
    also have "\<dots> \<le> n" using ih(2) by linarith
    finally show ?thesis using "1.prems" by (simp add: bit_length.simps [of n])
  qed
qed

lemma iceil_log2_power:
  assumes "x \<noteq> 0"
  shows "x AND (x - 1) = 0 \<longleftrightarrow> x = 2 ^ (bit_length x - 1)"
proof
  let ?k = "bit_length x - 1"
  assume z: "x AND (x - 1) = 0"
  show "x = 2 ^ ?k"
  proof (rule ccontr)
    assume "x \<noteq> 2 ^ ?k"
    then have lt: "2 ^ ?k < x" using bit_length_lower [OF assms] by auto
    have up: "x < 2 * 2 ^ ?k"
      using bit_length_upper [of x] bit_length_lower [OF assms] by (cases "bit_length x") auto
    have "x div 2 ^ ?k = 1" "(x - 1) div 2 ^ ?k = 1"
      using lt up by (auto intro!: div_nat_eqI)
    then have "bit x ?k" "bit (x - 1) ?k" by (simp_all only: bit_iff_odd odd_one not_False_eq_True)
    then have "bit (x AND (x - 1)) ?k" by (simp add: bit_and_iff)
    with z show False by simp
  qed
next
  assume p: "x = 2 ^ (bit_length x - 1)"
  define k where "k = bit_length x - 1"
  have "(2 :: nat) ^ k AND (2 ^ k - 1) = take_bit k (2 ^ k)"
    by (simp only: take_bit_eq_mask mask_eq_exp_minus_1)
  then show "x AND (x - 1) = 0" using p unfolding k_def [symmetric] by simp
qed

lemma iceil_log2_bounds:
  assumes "x \<noteq> 0"
  shows "x \<le> iceil_log2 x" and "x \<le> 2 ^ k \<Longrightarrow> iceil_log2 x \<le> 2 ^ k"
proof -
  show "x \<le> iceil_log2 x"
    using iceil_log2_power [OF assms] bit_length_upper [of x] by (simp add: iceil_log2_def)
  assume le: "x \<le> 2 ^ k"
  show "iceil_log2 x \<le> 2 ^ k"
  proof (cases "x AND (x - 1) = 0")
    case True
    with iceil_log2_power [OF assms] le show ?thesis by (simp add: iceil_log2_def)
  next
    case False
    then have "2 ^ (bit_length x - 1) < x"
      using iceil_log2_power [OF assms] bit_length_lower [OF assms] by auto
    then have "(2 :: nat) ^ (bit_length x - 1) < 2 ^ k" using le by (rule less_le_trans)
    then have "bit_length x - 1 < k" by (rule power_less_imp_less_exp [rotated]) simp
    then have "bit_length x \<le> k" by simp
    with False show ?thesis by (simp add: iceil_log2_def)
  qed
qed

section \<open>The rows of a leaf\<close>

definition lf_slot :: "leaf \<Rightarrow> nat \<Rightarrow> node_slot" where
  "lf_slot l p = (lf_keylenx l ! p, lf_ikey0 l ! p, lf_lv l ! p, if lf_has_ksuf l p then lf_ksuf_at l p else [])"

definition lf_live :: "leaf \<Rightarrow> nat list" where
  "lf_live l = take (lf_size l) (kp_elems leaf_width (lf_permutation l))"

definition lf_rows :: "leaf \<Rightarrow> node_slot list" where
  "lf_rows l = map (lf_slot l) (lf_live l)"

text \<open>
  The bags. An external one is kept below \<open>2 ^ 15\<close> bytes (its offsets have 16 bits), an internal
  one below 256 by the size of a leaf.
\<close>

definition lf_bags :: "leaf \<Rightarrow> bool" where
  "lf_bags l \<longleftrightarrow>
     (case lf_ksuf l of
        Some bag \<Rightarrow> sb_ok 2 leaf_width bag \<and> sb_capacity 2 bag \<le> 2 ^ 15 \<and> lf_extrasize64 l < 0
      | None \<Rightarrow> 0 \<le> lf_extrasize64 l \<and>
          (0 < lf_extrasize64 l \<longrightarrow> sb_ok 1 leaf_width (lf_iksuf l) \<and> sb_capacity 1 (lf_iksuf l) < 256))"

text \<open>The slots in \<open>Q\<close> are filled.\<close>

definition lf_ready :: "leaf \<Rightarrow> nat set \<Rightarrow> bool" where
  "lf_ready l Q \<longleftrightarrow>
     length (lf_keylenx l) = leaf_width \<and> length (lf_ikey0 l) = leaf_width \<and> length (lf_lv l) = leaf_width \<and>
     lf_bags l \<and> Q \<subseteq> {..<leaf_width} \<and>
     (lf_ksuf l = None \<and> lf_extrasize64 l = 0 \<longrightarrow> (\<forall>q \<in> Q. \<not> lf_has_ksuf l q))"

definition lf_ok :: "leaf \<Rightarrow> bool" where
  "lf_ok l \<longleftrightarrow> kp_ok leaf_width (lf_permutation l) \<and> lf_ready l (set (lf_live l))"

definition rows_suffix_total :: "node_slot list \<Rightarrow> nat" where
  "rows_suffix_total xs = sum_list (map (\<lambda>x. length (slot_suf x)) xs)"

definition key_slot :: "mkey \<Rightarrow> u64 \<Rightarrow> node_slot" where
  "key_slot ka lv = (word_of_int (key_ikeylen ka), k_ikey0 ka, lv, drop 8 (key_string ka))"

lemma assign_effect:
  assumes "sb_ok sz w m" "p < w" "0 < sz" "sb_capacity sz m < 256 ^ sz" "sb_assign sz m p s = (True, m')"
  shows "sb_ok sz w m' \<and> sb_get sz m' p = s \<and> (\<forall>q < w. q \<noteq> p \<longrightarrow> sb_get sz m' q = sb_get sz m q) \<and>
    sb_capacity sz m' = sb_capacity sz m"
proof (cases "length s \<le> sb_len sz m p")
  case True
  from assign_shorter [OF assms(1,2) True assms(3)] assms(5) show ?thesis by auto
next
  case False
  then have gt: "sb_len sz m p < length s" by simp
  have room: "sb_used_capacity sz m + max (length s) 8 \<le> sb_capacity sz m"
    using assms(5) False by (auto simp: sb_assign_def Let_def split: if_splits)
  then have "sb_used_capacity sz m + length s < 256 ^ sz" using assms(4) by simp
  from assign_longer [OF assms(1,2) gt assms(3) room this] assms(5) show ?thesis by auto
qed

section \<open>Assigning suffixes\<close>

lemma lf_slot_suf: "slot_suf (lf_slot l q) = (if lf_has_ksuf l q then lf_ksuf_at l q else [])"
  by (simp add: lf_slot_def)

lemma live_suffixes:
  "sum_list (map (\<lambda>q. length (slot_suf (lf_slot l q))) mps) =
   sum_list (map (\<lambda>q. length (lf_ksuf_at l q)) (List.filter (lf_has_ksuf l) mps))"
  by (induction mps) (auto simp: lf_slot_suf)

lemma new_ksuf_ok:
  assumes "lf_ready l Q" "p < leaf_width" "p \<notin> Q" "distinct mps" "set mps = Q"
    and "71 + sum_list (map (\<lambda>q. length (slot_suf (lf_slot l q))) mps) + length s \<le> 2 ^ 15"
  shows "\<exists>bag e. lf_new_ksuf l p s mps junk = Some (l\<lparr>lf_ksuf := Some bag, lf_extrasize64 := e\<rparr>) \<and> e < 0 \<and>
    sb_ok 2 leaf_width bag \<and> sb_capacity 2 bag \<le> 2 ^ 15 \<and> sb_get 2 bag p = s \<and>
    (\<forall>q \<in> Q. lf_has_ksuf l q \<longrightarrow> sb_get 2 bag q = lf_ksuf_at l q)"
proof -
  define live where "live = List.filter (\<lambda>mp. mp \<noteq> p \<and> lf_has_ksuf l mp) mps"
  have live_eq: "live = List.filter (lf_has_ksuf l) mps"
    unfolding live_def using assms(3,5) by (intro filter_cong) auto
  define csz where "csz = sum_list (map (\<lambda>mp. length (lf_ksuf_at l mp)) live)"
  have csz: "csz = sum_list (map (\<lambda>q. length (slot_suf (lf_slot l q))) mps)"
    by (simp only: csz_def live_eq live_suffixes)
  define need where "need = sb_safe_size 2 leaf_width (csz + length s)"
  have need: "need = 71 + csz + length s" by (simp add: need_def sb_safe_size_def sb_overhead_def)
  define sz where "sz = (case lf_ksuf l of None \<Rightarrow> iceil_log2 need | Some oksuf \<Rightarrow> max (iceil_log2 need) (sb_capacity 2 oksuf))"
  have "need \<le> 2 ^ 15" using assms(6) by (simp only: need csz)
  then have log: "need \<le> iceil_log2 need" "iceil_log2 need \<le> 2 ^ 15"
    using iceil_log2_bounds [of need] need by (auto simp del: power_numeral numeral_power_eq_of_nat_cancel_iff)
  have cap: "need \<le> sz" "sz \<le> 2 ^ 15"
    using log assms(1) by (auto simp: sz_def lf_ready_def lf_bags_def split: option.splits)
  have "sb_overhead 2 leaf_width \<le> sz" using cap(1) need by (simp add: sb_overhead_def)
  then obtain bag0 where bag0: "sb_make 2 leaf_width sz (map junk [0..<sz]) = Some bag0"
    using cap(2) by (simp add: sb_make_def Let_def sb_max_size_def)
  note ok = make_ok [OF bag0 _ _ _ _, of]
  have ok: "sb_ok 2 leaf_width bag0" "sb_used_capacity 2 bag0 = 64" "sb_capacity 2 bag0 = sz"
    "\<And>q. q < leaf_width \<Longrightarrow> sb_len 2 bag0 q = 0"
    using make_ok [OF bag0] cap(2) by (simp_all add: sb_overhead_def)
  define ps where "ps = map (\<lambda>mp. (mp, lf_ksuf_at l mp)) live @ [(p, s)]"
  have dist: "distinct (map fst ps)"
    using assms(3-5) by (auto simp: ps_def live_def comp_def)
  have fresh: "\<forall>x \<in> set ps. fst x < leaf_width \<and> sb_len 2 bag0 (fst x) = 0"
    using assms(1,2,5) ok(4) by (auto simp: ps_def live_def lf_ready_def)
  have sum: "sum_list (map (length \<circ> snd) ps) = csz + length s"
    by (simp add: ps_def csz_def comp_def)
  have room: "sb_used_capacity 2 bag0 + sum_list (map (length \<circ> snd) ps) + 7 \<le> sb_capacity 2 bag0"
    using ok(2,3) cap(1) need sum by simp
  obtain bag where bag: "sb_assign_list 2 bag0 ps = Some bag" "sb_ok 2 leaf_width bag"
    "\<forall>x \<in> set ps. sb_get 2 bag (fst x) = snd x" "sb_capacity 2 bag = sb_capacity 2 bag0"
    using assign_list_ok [OF ok(1) _ dist fresh room] by auto
  define e where "e = (if lf_extrasize64 l \<ge> 0 then - lf_extrasize64 l - 1 else lf_extrasize64 l)"
  have "lf_new_ksuf l p s mps junk = Some (l\<lparr>lf_ksuf := Some bag, lf_extrasize64 := e\<rparr>)"
    using bag0 bag(1) unfolding lf_new_ksuf_def Let_def live_def [symmetric] csz_def [symmetric] need_def [symmetric]
      sz_def [symmetric] ps_def [symmetric] e_def by simp
  moreover have "sb_get 2 bag p = s" using bag(3) by (simp add: ps_def)
  moreover have "sb_get 2 bag q = lf_ksuf_at l q" if "q \<in> Q" "lf_has_ksuf l q" for q
    using bag(3) that assms(3,5) by (auto simp: ps_def live_def)
  ultimately show ?thesis
    using bag(2,4) ok(3) cap(2) by (intro exI [of _ bag] exI [of _ e]) (auto simp: e_def)
qed

text \<open>What \<^verbatim>\<open>assign_ksuf\<close> changes and what it keeps.\<close>

definition suffix_assigned :: "leaf \<Rightarrow> nat set \<Rightarrow> nat \<Rightarrow> byte list \<Rightarrow> leaf \<Rightarrow> bool" where
  "suffix_assigned l Q p s l' \<longleftrightarrow>
     (\<exists>k i e. l' = l\<lparr>lf_ksuf := k, lf_iksuf := i, lf_extrasize64 := e\<rparr>) \<and> lf_bags l' \<and>
     \<not> (lf_ksuf l' = None \<and> lf_extrasize64 l' = 0) \<and> lf_ksuf_at l' p = s \<and>
     (\<forall>q \<in> Q. lf_has_ksuf l q \<longrightarrow> lf_ksuf_at l' q = lf_ksuf_at l q)"

lemma assign_ksuf_ok:
  assumes ready: "lf_ready l Q" and p: "p < leaf_width" "p \<notin> Q"
    and mps: "mps = map (\<lambda>i. if initializing then i else kp_at (lf_permutation l) i)
        [0..<(if initializing then p else kp_size (lf_permutation l))]" "distinct mps" "set mps = Q"
    and room: "71 + sum_list (map (\<lambda>q. length (slot_suf (lf_slot l q))) mps) + length s \<le> 2 ^ 15"
  shows "\<exists>l'. lf_assign_ksuf l p s initializing junk = Some l' \<and> suffix_assigned l Q p s l'"
proof -
  obtain bag e where new: "lf_new_ksuf l p s mps junk = Some (l\<lparr>lf_ksuf := Some bag, lf_extrasize64 := e\<rparr>)"
      "e < 0" "sb_ok 2 leaf_width bag" "sb_capacity 2 bag \<le> 2 ^ 15" "sb_get 2 bag p = s"
      "\<forall>q \<in> Q. lf_has_ksuf l q \<longrightarrow> sb_get 2 bag q = lf_ksuf_at l q"
    using new_ksuf_ok [OF ready p mps(2,3) room, of junk] by blast
  have new_ok: "suffix_assigned l Q p s (l\<lparr>lf_ksuf := Some bag, lf_extrasize64 := e\<rparr>)"
    using new unfolding suffix_assigned_def lf_bags_def lf_ksuf_at_def
    by (auto intro!: exI [of _ "Some bag"] exI [of _ "lf_iksuf l"] exI [of _ e])
  have Q: "\<forall>q \<in> Q. q < leaf_width \<and> q \<noteq> p" using ready p by (auto simp: lf_ready_def)
  show ?thesis
  proof (cases "lf_ksuf l")
    case None
    show ?thesis
    proof (cases "lf_extrasize64 l > 0 \<and> fst (sb_assign 1 (lf_iksuf l) p s)")
      case True
      obtain m' where m': "sb_assign 1 (lf_iksuf l) p s = (True, m')"
        using True by (cases "sb_assign 1 (lf_iksuf l) p s") auto
      have "sb_ok 1 leaf_width (lf_iksuf l)" "sb_capacity 1 (lf_iksuf l) < 256 ^ 1"
        using ready None True by (auto simp: lf_ready_def lf_bags_def)
      note eff = assign_effect [OF this(1) p(1) _ this(2) m']
      have "suffix_assigned l Q p s (l\<lparr>lf_iksuf := m'\<rparr>)"
        unfolding suffix_assigned_def using eff None True Q \<open>sb_capacity 1 (lf_iksuf l) < 256 ^ 1\<close>
        by (auto simp: lf_bags_def lf_ksuf_at_def intro!: exI [of _ None] exI [of _ m'] exI [of _ "lf_extrasize64 l"])
      moreover have "lf_assign_ksuf l p s initializing junk = Some (l\<lparr>lf_iksuf := m'\<rparr>)"
        using None True m' by (simp add: lf_assign_ksuf_def Let_def)
      ultimately show ?thesis by blast
    next
      case False
      then have "lf_assign_ksuf l p s initializing junk = lf_new_ksuf l p s mps junk"
        using None unfolding lf_assign_ksuf_def Let_def mps(1) [symmetric] by auto
      with new(1) new_ok show ?thesis by auto
    qed
  next
    case (Some m)
    have b: "sb_ok 2 leaf_width m" "sb_capacity 2 m \<le> 2 ^ 15" "lf_extrasize64 l < 0"
      using ready Some by (auto simp: lf_ready_def lf_bags_def)
    have lt: "sb_capacity 2 m < 256 ^ 2" using b(2) by simp
    show ?thesis
    proof (cases "fst (sb_assign 2 m p s)")
      case True
      then obtain m' where m': "sb_assign 2 m p s = (True, m')" by (cases "sb_assign 2 m p s") auto
      note eff = assign_effect [OF b(1) p(1) _ lt m']
      have "suffix_assigned l Q p s (l\<lparr>lf_ksuf := Some m'\<rparr>)"
        unfolding suffix_assigned_def using eff Some b Q
        by (auto simp: lf_bags_def lf_ksuf_at_def intro!: exI [of _ "Some m'"] exI [of _ "lf_iksuf l"] exI [of _ "lf_extrasize64 l"])
      moreover have "lf_assign_ksuf l p s initializing junk = Some (l\<lparr>lf_ksuf := Some m'\<rparr>)"
        using Some m' by (simp add: lf_assign_ksuf_def Let_def)
      ultimately show ?thesis by blast
    next
      case False
      then have "lf_assign_ksuf l p s initializing junk = lf_new_ksuf l p s mps junk"
        using Some b(3) unfolding lf_assign_ksuf_def Let_def mps(1) [symmetric] by simp
      with new(1) new_ok show ?thesis by auto
    qed
  qed
qed

section \<open>Writing a slot\<close>

definition lf_same_links :: "leaf \<Rightarrow> leaf \<Rightarrow> bool" where
  "lf_same_links l l' \<longleftrightarrow>
     lf_permutation l' = lf_permutation l \<and> lf_next l' = lf_next l \<and> lf_prev l' = lf_prev l \<and>
     lf_parent l' = lf_parent l \<and> lf_version l' = lf_version l \<and> lf_modstate l' = lf_modstate l \<and>
     lf_node_ts l' = lf_node_ts l"

definition slot_written :: "leaf \<Rightarrow> nat set \<Rightarrow> nat \<Rightarrow> node_slot \<Rightarrow> leaf \<Rightarrow> bool" where
  "slot_written l Q p row l' \<longleftrightarrow>
     lf_ready l' (insert p Q) \<and> lf_slot l' p = row \<and> (\<forall>q \<in> Q. lf_slot l' q = lf_slot l q) \<and> lf_same_links l l'"

text \<open>The list of slots \<^verbatim>\<open>assign_ksuf\<close> looks through.\<close>

definition lf_mps :: "leaf \<Rightarrow> nat \<Rightarrow> bool \<Rightarrow> nat list" where
  "lf_mps l p initializing =
     map (\<lambda>i. if initializing then i else kp_at (lf_permutation l) i)
       [0..<(if initializing then p else kp_size (lf_permutation l))]"

definition suffix_room :: "leaf \<Rightarrow> nat list \<Rightarrow> nat \<Rightarrow> bool" where
  "suffix_room l mps n \<longleftrightarrow> 71 + sum_list (map (\<lambda>q. length (slot_suf (lf_slot l q))) mps) + n \<le> 2 ^ 15"

lemma has_ksuf_lv [simp]: "lf_has_ksuf (l\<lparr>lf_lv := x\<rparr>) q = lf_has_ksuf l q"
  by (simp add: lf_has_ksuf_def)

lemma ksuf_at_lv [simp]: "lf_ksuf_at (l\<lparr>lf_lv := x\<rparr>) q = lf_ksuf_at l q"
  by (simp add: lf_ksuf_at_def split: option.split)

lemma ready_lv: "lf_ready l Q \<Longrightarrow> lf_ready (l\<lparr>lf_lv := (lf_lv l)[p := x]\<rparr>) Q"
  by (cases "lf_ksuf l") (simp_all add: lf_ready_def lf_bags_def)

lemma put_key_simps [simp]:
  "lf_ksuf (lf_put_key l p ik kl) = lf_ksuf l" "lf_iksuf (lf_put_key l p ik kl) = lf_iksuf l"
  "lf_extrasize64 (lf_put_key l p ik kl) = lf_extrasize64 l" "lf_lv (lf_put_key l p ik kl) = lf_lv l"
  "lf_bags (lf_put_key l p ik kl) = lf_bags l" "lf_ksuf_at (lf_put_key l p ik kl) q = lf_ksuf_at l q"
  "lf_same_links l' (lf_put_key l p ik kl) = lf_same_links l' l"
  by (simp_all add: lf_put_key_def lf_bags_def lf_ksuf_at_def lf_same_links_def split: option.split)

lemma put_key_arrays:
  assumes "length (lf_keylenx l) = leaf_width" "length (lf_ikey0 l) = leaf_width" "p < leaf_width"
  shows "lf_keylenx (lf_put_key l p ik kl) ! q = (if q = p then kl else lf_keylenx l ! q)"
    and "lf_ikey0 (lf_put_key l p ik kl) ! q = (if q = p then ik else lf_ikey0 l ! q)"
    and "lf_has_ksuf (lf_put_key l p ik kl) q = (if q = p then kl = 9 else lf_has_ksuf l q)"
    and "length (lf_keylenx (lf_put_key l p ik kl)) = leaf_width"
    and "length (lf_ikey0 (lf_put_key l p ik kl)) = leaf_width"
  using assms by (auto simp: lf_put_key_def lf_has_ksuf_def keylenx_has_ksuf_def)

lemma write_slot:
  assumes ready: "lf_ready l Q" and p: "p < leaf_width" "p \<notin> Q"
    and mps: "distinct (lf_mps l p initializing)" "set (lf_mps l p initializing) = Q"
    and room: "kl = 9 \<Longrightarrow> suffix_room l (lf_mps l p initializing) (length s)"
    and l0: "l0 = l\<lparr>lf_lv := (lf_lv l)[p := x]\<rparr>"
  shows "\<exists>l'. map_option (\<lambda>l. lf_put_key l p ik kl)
      (if kl = 9 then lf_assign_ksuf l0 p s initializing junk else Some l0) = Some l' \<and>
    slot_written l Q p (kl, ik, x, if kl = 9 then s else []) l'"
proof -
  have r0: "lf_ready l0 Q" using ready unfolding l0 by (rule ready_lv)
  have Q: "q < leaf_width \<and> q \<noteq> p" if "q \<in> Q" for q using ready p that by (auto simp: lf_ready_def)
  have lens: "length (lf_keylenx l) = leaf_width" "length (lf_ikey0 l) = leaf_width" "length (lf_lv l) = leaf_width"
    using ready by (simp_all add: lf_ready_def)
  have written: "slot_written l Q p (kl, ik, x, if kl = 9 then s else []) (lf_put_key l1 p ik kl)"
    if c: "\<exists>k i e. l1 = l0\<lparr>lf_ksuf := k, lf_iksuf := i, lf_extrasize64 := e\<rparr>" "lf_bags l1"
      "lf_ksuf l1 = None \<and> lf_extrasize64 l1 = 0 \<longrightarrow> (\<forall>q \<in> insert p Q. \<not> lf_has_ksuf (lf_put_key l1 p ik kl) q)"
      "kl = 9 \<longrightarrow> lf_ksuf_at l1 p = s" "\<forall>q \<in> Q. lf_has_ksuf l q \<longrightarrow> lf_ksuf_at l1 q = lf_ksuf_at l q" for l1
  proof -
    obtain k i e where l1: "l1 = l0\<lparr>lf_ksuf := k, lf_iksuf := i, lf_extrasize64 := e\<rparr>" using c(1) by blast
    have a: "lf_keylenx l1 = lf_keylenx l" "lf_ikey0 l1 = lf_ikey0 l" "lf_lv l1 = (lf_lv l)[p := x]"
      "\<And>q. lf_has_ksuf l1 q = lf_has_ksuf l q" "lf_same_links l l1"
      by (simp_all add: l1 l0 lf_has_ksuf_def lf_same_links_def)
    note arr = put_key_arrays [of l1 p ik kl, unfolded a, OF lens(1,2) p(1)]
    have "lf_ready (lf_put_key l1 p ik kl) (insert p Q)"
      using c(2,3) arr(4,5) lens(3) p(1) Q by (auto simp: lf_ready_def a(3))
    moreover have "lf_slot (lf_put_key l1 p ik kl) p = (kl, ik, x, if kl = 9 then s else [])"
      using c(4) p(1) lens(3) by (simp add: lf_slot_def arr a(3))
    moreover have "lf_slot (lf_put_key l1 p ik kl) q = lf_slot l q" if "q \<in> Q" for q
      using Q [OF that] c(5) that
      by (simp add: lf_slot_def arr a(3))
    ultimately show ?thesis using a(5) by (simp add: slot_written_def)
  qed
  show ?thesis
  proof (cases "kl = 9")
    case True
    have same: "lf_mps l0 p initializing = lf_mps l p initializing" by (simp add: l0 lf_mps_def)
    have sl: "slot_suf (lf_slot l0 q) = slot_suf (lf_slot l q)" for q
      by (simp add: lf_slot_suf l0)
    obtain l1 where l1: "lf_assign_ksuf l0 p s initializing junk = Some l1" "suffix_assigned l0 Q p s l1"
      using assign_ksuf_ok [OF r0 p lf_mps_def [of l0 p initializing], unfolded same sl, OF mps] room [OF True]
      unfolding suffix_room_def by blast
    have "slot_written l Q p (kl, ik, x, if kl = 9 then s else []) (lf_put_key l1 p ik kl)"
    proof (rule written)
      show "\<exists>k i e. l1 = l0\<lparr>lf_ksuf := k, lf_iksuf := i, lf_extrasize64 := e\<rparr>" "lf_bags l1"
        "lf_ksuf l1 = None \<and> lf_extrasize64 l1 = 0 \<longrightarrow> (\<forall>q \<in> insert p Q. \<not> lf_has_ksuf (lf_put_key l1 p ik kl) q)"
        "kl = 9 \<longrightarrow> lf_ksuf_at l1 p = s" "\<forall>q \<in> Q. lf_has_ksuf l q \<longrightarrow> lf_ksuf_at l1 q = lf_ksuf_at l q"
        using l1(2) unfolding suffix_assigned_def by (auto simp: l0)
    qed
    with True l1(1) show ?thesis by auto
  next
    case False
    have "slot_written l Q p (kl, ik, x, if kl = 9 then s else []) (lf_put_key l0 p ik kl)"
    proof (rule written)
      show "\<exists>k i e. l0 = l0\<lparr>lf_ksuf := k, lf_iksuf := i, lf_extrasize64 := e\<rparr>"
        by (intro exI [of _ "lf_ksuf l0"] exI [of _ "lf_iksuf l0"] exI [of _ "lf_extrasize64 l0"]) simp
      show "lf_bags l0" "kl = 9 \<longrightarrow> lf_ksuf_at l0 p = s"
        "\<forall>q \<in> Q. lf_has_ksuf l q \<longrightarrow> lf_ksuf_at l0 q = lf_ksuf_at l q"
        using r0 False by (simp_all add: lf_ready_def l0)
      have "lf_has_ksuf (lf_put_key l0 p ik kl) q \<longleftrightarrow> (if q = p then kl = 9 else lf_has_ksuf l0 q)" for q
        by (rule put_key_arrays) (use r0 p in \<open>simp_all add: lf_ready_def\<close>)
      then show "lf_ksuf l0 = None \<and> lf_extrasize64 l0 = 0 \<longrightarrow> (\<forall>q \<in> insert p Q. \<not> lf_has_ksuf (lf_put_key l0 p ik kl) q)"
        using r0 False by (simp add: lf_ready_def)
    qed
    with False show ?thesis by auto
  qed
qed

section \<open>Inserting a row\<close>

lemma keylenx_of_key:
  assumes "key_ok ka"
  shows "(word_of_int (key_ikeylen ka) :: byte) = 9 \<longleftrightarrow> key_has_suffix ka"
    and "uint (word_of_int (key_ikeylen ka) :: byte) = key_ikeylen ka"
    and "unat (word_of_int (key_ikeylen ka) :: byte) = slot_rank (key_string ka)"
    and "\<not> keylenx_is_layer (word_of_int (key_ikeylen ka))"
proof -
  have r: "0 \<le> key_ikeylen ka" "key_ikeylen ka \<le> 9"
    using assms by (simp_all add: key_ok_def key_ikeylen_def)
  show u: "uint (word_of_int (key_ikeylen ka) :: byte) = key_ikeylen ka"
    using r by (simp add: uint_word_of_int)
  show "(word_of_int (key_ikeylen ka) :: byte) = 9 \<longleftrightarrow> key_has_suffix ka"
    unfolding word_uint_eq_iff u by (auto simp: key_ikeylen_def key_has_suffix_def)
  show "unat (word_of_int (key_ikeylen ka) :: byte) = slot_rank (key_string ka)"
    unfolding unat_eq_nat_uint u using key_len_string [OF assms] by (simp add: key_ikeylen_def slot_rank_def)
  show "\<not> keylenx_is_layer (word_of_int (key_ikeylen ka))"
    unfolding keylenx_is_layer_def word_less_def u using r by simp
qed

lemma assign_with_ok:
  assumes "lf_ready l Q" "p < leaf_width" "p \<notin> Q" "distinct (lf_mps l p initializing)"
    "set (lf_mps l p initializing) = Q" "key_ok ka"
    and "key_has_suffix ka \<Longrightarrow> suffix_room l (lf_mps l p initializing) (length (drop 8 (key_string ka)))"
  shows "\<exists>l'. lf_assign_with initializing l p ka junk = Some l' \<and> slot_written l Q p (key_slot ka 0) l'"
proof -
  let ?kl = "word_of_int (key_ikeylen ka) :: byte"
  have "key_slot ka 0 = (?kl, k_ikey0 ka, 0, if ?kl = 9 then drop 8 (key_string ka) else [])"
    using keylenx_of_key(1) [OF assms(6)] key_len_string [OF assms(6)]
    by (auto simp: key_slot_def key_has_suffix_def)
  moreover have "lf_assign_with initializing l p ka junk =
      map_option (\<lambda>l. lf_put_key l p (k_ikey0 ka) ?kl)
        (if ?kl = 9 then lf_assign_ksuf (l\<lparr>lf_lv := (lf_lv l)[p := 0]\<rparr>) p (drop 8 (key_string ka)) initializing junk
         else Some (l\<lparr>lf_lv := (lf_lv l)[p := 0]\<rparr>))"
    by (simp add: lf_assign_with_def Let_def keylenx_of_key(1) [OF assms(6)] key_suffix_string)
  ultimately show ?thesis
    using write_slot [OF assms(1-5), of ?kl "drop 8 (key_string ka)" _ 0 "k_ikey0 ka" junk] assms(7)
      keylenx_of_key(1) [OF assms(6)] by simp
qed

lemma assign_from_ok:
  assumes "lf_ready l {..<p}" "p < leaf_width"
    and "lf_has_ksuf x xp \<Longrightarrow> suffix_room l [0..<p] (length (lf_ksuf_at x xp))"
  shows "\<exists>l'. lf_assign_initialize_from l p x xp junk = Some l' \<and> slot_written l {..<p} p (lf_slot x xp) l'"
proof -
  have mps: "lf_mps l p True = [0..<p]" by (simp add: lf_mps_def)
  have "lf_slot x xp = (lf_keylenx x ! xp, lf_ikey0 x ! xp, lf_lv x ! xp,
      if lf_keylenx x ! xp = 9 then lf_ksuf_at x xp else [])"
    by (simp add: lf_slot_def lf_has_ksuf_def keylenx_has_ksuf_def)
  then show ?thesis
    using write_slot [of l "{..<p}" p True "lf_keylenx x ! xp" "lf_ksuf_at x xp" _ "lf_lv x ! xp" "lf_ikey0 x ! xp" junk]
      assms
    by (auto simp: mps lf_assign_initialize_from_def Let_def lf_has_ksuf_def keylenx_has_ksuf_def atLeast0LessThan)
qed

lemma lf_live_perm:
  assumes "kp_ok leaf_width (lf_permutation l)"
  shows "lf_mps l p False = lf_live l" and "distinct (lf_live l)" and "set (lf_live l) \<subseteq> {..<leaf_width}"
    and "length (lf_live l) = lf_size l" and "lf_size l \<le> leaf_width"
    and "i < lf_size l \<Longrightarrow> lf_live l ! i = kp_at (lf_permutation l) i"
    and "distinct (kp_elems leaf_width (lf_permutation l))"
    and "set (kp_elems leaf_width (lf_permutation l)) = {..<leaf_width}"
proof -
  let ?es = "kp_elems leaf_width (lf_permutation l)"
  have size: "lf_size l \<le> leaf_width" and ms: "mset ?es = mset [0..<leaf_width]"
    using assms by (simp_all add: kp_ok_def lf_size_def)
  from ms show d: "distinct ?es" by (metis distinct_upt mset_eq_imp_distinct_iff)
  from ms show s: "set ?es = {..<leaf_width}" by (metis atLeast_upt set_mset_mset)
  show "lf_size l \<le> leaf_width" by (rule size)
  show "lf_mps l p False = lf_live l"
    using size by (simp add: lf_mps_def lf_live_def kp_elems_def take_map lf_size_def [symmetric])
  show "distinct (lf_live l)" using d by (simp add: lf_live_def)
  show "set (lf_live l) \<subseteq> {..<leaf_width}" using s set_take_subset [of "lf_size l" ?es] by (simp add: lf_live_def)
  show "length (lf_live l) = lf_size l" using size by (simp add: lf_live_def)
  show "i < lf_size l \<Longrightarrow> lf_live l ! i = kp_at (lf_permutation l) i"
    using size by (simp add: lf_live_def kp_elems_def)
qed

lemma lf_back:
  assumes "kp_ok leaf_width (lf_permutation l)" "lf_size l < leaf_width"
  shows "kp_back leaf_width (lf_permutation l) < leaf_width"
    and "kp_back leaf_width (lf_permutation l) \<notin> set (lf_live l)"
    and "kp_back leaf_width (lf_permutation l) = last (kp_elems leaf_width (lf_permutation l))"
proof -
  let ?es = "kp_elems leaf_width (lf_permutation l)"
  note perm = lf_live_perm [OF assms(1)]
  have ne: "?es \<noteq> []" by (auto simp: kp_elems_def)
  have eq: "kp_back leaf_width (lf_permutation l) = ?es ! 14"
    by (simp add: kp_back_def kp_elems_def del: upt_Suc)
  then show "kp_back leaf_width (lf_permutation l) = last ?es"
    using ne by (simp add: last_conv_nth)
  have "?es ! 14 \<in> set ?es" by (rule nth_mem) simp
  then show "kp_back leaf_width (lf_permutation l) < leaf_width"
    unfolding eq using perm(8) by simp
  show "kp_back leaf_width (lf_permutation l) \<notin> set (lf_live l)"
  proof
    assume "kp_back leaf_width (lf_permutation l) \<in> set (lf_live l)"
    then obtain j where j: "j < lf_size l" "?es ! j = ?es ! 14"
      unfolding eq lf_live_def using assms(2) by (auto simp: in_set_conv_nth)
    moreover have "j < length ?es" "14 < length ?es" "j \<noteq> 14" using j(1) assms(2) by auto
    ultimately show False using perm(7) nth_eq_iff_index_eq by blast
  qed
qed

lemma finish_insert_rows:
  assumes "kp_ok leaf_width (lf_permutation l)" "lf_size l < leaf_width" "ki \<le> lf_size l"
  shows "lf_live (lf_finish_insert l ki) =
      take ki (lf_live l) @ [kp_back leaf_width (lf_permutation l)] @ drop ki (lf_live l)"
    and "kp_ok leaf_width (lf_permutation (lf_finish_insert l ki))"
    and "lf_rows (lf_finish_insert l ki) =
      take ki (lf_rows l) @ [lf_slot l (kp_back leaf_width (lf_permutation l))] @ drop ki (lf_rows l)"
proof -
  let ?es = "kp_elems leaf_width (lf_permutation l)"
  have ki: "ki < leaf_width" "kp_size (lf_permutation l) < leaf_width" using assms(2,3) by (simp_all add: lf_size_def)
  note ins = kp_insert_elems [OF ki(1) _ ki(2)]
  show "kp_ok leaf_width (lf_permutation (lf_finish_insert l ki))"
    using kp_insert_ok [OF assms(1) ki(1) _ ki(2)] by (simp add: lf_finish_insert_def)
  have "take (lf_size l - ki) (drop ki (butlast ?es)) = take (lf_size l - ki) (drop ki ?es)"
    using assms(2,3) by (simp add: take_drop take_butlast)
  then have "take (lf_size l + 1) (take ki ?es @ [last ?es] @ drop ki (butlast ?es)) =
      take ki (take (lf_size l) ?es) @ [last ?es] @ drop ki (take (lf_size l) ?es)"
    using assms(2,3) by (simp add: min_def take_drop Suc_diff_le)
  then show live: "lf_live (lf_finish_insert l ki) =
      take ki (lf_live l) @ [kp_back leaf_width (lf_permutation l)] @ drop ki (lf_live l)"
    using lf_back(3) [OF assms(1,2)] ins(2,3)
    by (simp add: lf_live_def lf_finish_insert_def lf_size_def)
  have slot: "lf_slot (lf_finish_insert l ki) q = lf_slot l q" for q
    by (cases "lf_ksuf l") (simp_all add: lf_slot_def lf_finish_insert_def lf_has_ksuf_def lf_ksuf_at_def)
  show "lf_rows (lf_finish_insert l ki) =
      take ki (lf_rows l) @ [lf_slot l (kp_back leaf_width (lf_permutation l))] @ drop ki (lf_rows l)"
    by (simp add: lf_rows_def live slot take_map drop_map)
qed

section \<open>Searching\<close>

text \<open>\<^verbatim>\<open>unlocked_tcursor::lower_bound_binary\<close> and \<^verbatim>\<open>lower_bound_linear\<close>.\<close>

function ut_lower_bound_loop :: "mkey \<Rightarrow> leaf \<Rightarrow> nat \<Rightarrow> nat \<Rightarrow> int" where
  "ut_lower_bound_loop ka n l r =
     (if l < r then
        (let m = (l + r) div 2; mp = kp_at (lf_permutation n) m; cmp = key_compare_lf ka n mp in
         if cmp < 0 then ut_lower_bound_loop ka n l m
         else if cmp = 0 then int mp
         else ut_lower_bound_loop ka n (m + 1) r)
      else - 1)"
  by pat_completeness auto
termination
  by (relation "measure (\<lambda>(ka, n, l, r). r - l)") auto

declare ut_lower_bound_loop.simps [simp del]

definition ut_lower_bound_binary :: "mkey \<Rightarrow> leaf \<Rightarrow> int" where
  "ut_lower_bound_binary ka n = ut_lower_bound_loop ka n 0 (lf_size n)"

function ut_lower_bound_linear_loop :: "mkey \<Rightarrow> leaf \<Rightarrow> nat \<Rightarrow> nat \<Rightarrow> int" where
  "ut_lower_bound_linear_loop ka n l r =
     (if l < r then
        (let lp = kp_at (lf_permutation n) l; cmp = key_compare_lf ka n lp in
         if cmp < 0 then - 1 else if cmp = 0 then int lp else ut_lower_bound_linear_loop ka n (l + 1) r)
      else - 1)"
  by pat_completeness auto
termination
  by (relation "measure (\<lambda>(ka, n, l, r). r - l)") auto

declare ut_lower_bound_linear_loop.simps [simp del]

definition ut_lower_bound_linear :: "mkey \<Rightarrow> leaf \<Rightarrow> int" where
  "ut_lower_bound_linear ka n = ut_lower_bound_linear_loop ka n 0 (lf_size n)"

text \<open>\<^verbatim>\<open>leaf::bound_type::lower_with_position\<close>: the position \<^verbatim>\<open>ki_\<close> and the slot \<^verbatim>\<open>kp_\<close>.\<close>

definition lf_lower_with_position :: "mkey \<Rightarrow> leaf \<Rightarrow> nat \<times> int" where
  "lf_lower_with_position ka n = key_lower_bound_with_position_by (key_compare_lf ka n) (lf_live n)"

text \<open>The order of the rows: by slice, then by the rank of the key length.\<close>

definition slot_less :: "node_slot \<Rightarrow> node_slot \<Rightarrow> bool" where
  "slot_less a b \<longleftrightarrow> slot_ikey a < slot_ikey b \<or>
     slot_ikey a = slot_ikey b \<and> kl_rank (slot_kl a) < kl_rank (slot_kl b)"

definition rows_ok :: "node_slot list \<Rightarrow> bool" where
  "rows_ok xs \<longleftrightarrow> sorted_wrt slot_less xs \<and> (\<forall>x \<in> set xs. kl_ok (slot_kl x))"

definition key_row_cmp :: "mkey \<Rightarrow> node_slot \<Rightarrow> int" where
  "key_row_cmp k x = key_cmp k (slot_ikey x) (uint (slot_kl x))"

definition lf_sorted :: "leaf \<Rightarrow> bool" where
  "lf_sorted l \<longleftrightarrow> lf_ok l \<and> rows_ok (lf_rows l)"

lemma compare_row: "i < length (lf_live l) \<Longrightarrow> key_compare_lf k l (lf_live l ! i) = key_row_cmp k (lf_rows l ! i)"
  by (simp add: key_compare_lf_def key_row_cmp_def lf_rows_def lf_slot_def)

lemma row_cmp_ordered:
  assumes "rows_ok xs" "key_ok k" "i < j" "j < length xs" "0 \<le> key_row_cmp k (xs ! j)"
  shows "0 < key_row_cmp k (xs ! i)"
proof -
  have "slot_less (xs ! i) (xs ! j)" "kl_ok (slot_kl (xs ! i))" "kl_ok (slot_kl (xs ! j))"
    using assms by (auto simp: rows_ok_def sorted_wrt_iff_nth_less)
  note ri = key_cmp_rank [OF assms(2) this(2), of "slot_ikey (xs ! i)"]
    and rj = key_cmp_rank(2) [OF assms(2) this(3), of "slot_ikey (xs ! j)"]
  have "slot_ikey (xs ! j) < k_ikey0 k \<or>
      slot_ikey (xs ! j) = k_ikey0 k \<and> kl_rank (slot_kl (xs ! j)) \<le> slot_rank (key_string k)"
    using assms(5) rj by (simp add: key_row_cmp_def)
  with \<open>slot_less (xs ! i) (xs ! j)\<close> have "slot_ikey (xs ! i) < k_ikey0 k \<or>
      slot_ikey (xs ! i) = k_ikey0 k \<and> kl_rank (slot_kl (xs ! i)) < slot_rank (key_string k)"
    unfolding slot_less_def by (elim disjE conjE) (auto dest: less_trans)
  then have "0 \<le> key_row_cmp k (xs ! i)" "key_row_cmp k (xs ! i) \<noteq> 0"
    using ri by (auto simp: key_row_cmp_def)
  then show ?thesis by linarith
qed

interpretation leaf_search: searchable_node "\<lambda>k l. lf_sorted l \<and> key_ok k" lf_live key_compare_lf
proof
  fix k l i j
  assume ok: "lf_sorted l \<and> key_ok k" and ij: "i < j" "j < length (lf_live l)"
    and ge: "0 \<le> key_compare_lf k l (lf_live l ! j)"
  have "length (lf_rows l) = length (lf_live l)" by (simp add: lf_rows_def)
  then have "0 < key_row_cmp k (lf_rows l ! i)"
    using row_cmp_ordered [of "lf_rows l" k i j] ok ij ge by (simp add: lf_sorted_def compare_row)
  then show "0 < key_compare_lf k l (lf_live l ! i)" using ij by (simp add: compare_row)
qed

text \<open>The position a key has, or would get, among the rows.\<close>

definition row_position :: "mkey \<Rightarrow> node_slot list \<Rightarrow> nat \<Rightarrow> bool" where
  "row_position k xs b \<longleftrightarrow> b \<le> length xs \<and> (\<forall>i < b. 0 < key_row_cmp k (xs ! i)) \<and>
     (\<forall>i. b \<le> i \<longrightarrow> i < length xs \<longrightarrow> key_row_cmp k (xs ! i) \<le> 0)"

lemma live_nth: "m < lf_size l \<Longrightarrow> lf_live l ! m = kp_at (lf_permutation l) m"
  using nibble_less [of "lf_permutation l" 0]
  by (simp add: lf_live_def lf_size_def kp_size_nibble kp_at_nibble del: upt_Suc nibble_less)

lemma lower_with_position:
  assumes "lf_sorted l" "key_ok k"
  obtains b where "row_position k (lf_rows l) b"
    and "lf_lower_with_position k l =
      (b, if b < lf_size l \<and> key_row_cmp k (lf_rows l ! b) = 0 then int (lf_live l ! b) else - 1)"
    and "ut_lower_bound_binary k l = snd (lf_lower_with_position k l)"
proof -
  have ok: "lf_sorted l \<and> key_ok k" using assms by simp
  have len: "length (lf_rows l) = length (lf_live l)" "length (lf_live l) = lf_size l"
    using assms lf_live_perm(4) by (simp_all add: lf_rows_def lf_sorted_def lf_ok_def)
  let ?b = "key_lower_bound_by (key_compare_lf k l) (lf_live l)"
  have low: "is_lower (key_compare_lf k l) (lf_live l) ?b" by (rule leaf_search.lower_bound_spec [OF ok])
  have "row_position k (lf_rows l) ?b"
    using low len compare_row [of _ l k] unfolding row_position_def is_lower_def by (metis less_le_trans)
  moreover have "lf_lower_with_position k l =
      (?b, if ?b < lf_size l \<and> key_row_cmp k (lf_rows l ! ?b) = 0 then int (lf_live l ! ?b) else - 1)"
    using leaf_search.with_position_spec [OF ok low] len
    by (auto simp: lf_lower_with_position_def match_at_def compare_row)
  moreover have "ut_lower_bound_binary k l = snd (lf_lower_with_position k l)"
  proof -
    have "ut_lower_bound_loop k l a r = snd (key_lower_bound_with_position_loop (key_compare_lf k l) (lf_live l) a r)"
      if "r \<le> lf_size l" for a r
      using that
    proof (induction k l a r rule: ut_lower_bound_loop.induct)
      case (1 k l a r)
      have "(a + r) div 2 < lf_size l" if "a < r" using that "1.prems" by linarith
      with 1 show ?case
        by (subst ut_lower_bound_loop.simps, subst key_lower_bound_with_position_loop.simps)
          (auto simp: Let_def live_nth)
    qed
    then show ?thesis
      using len(2) by (simp add: ut_lower_bound_binary_def lf_lower_with_position_def key_lower_bound_with_position_by_def)
  qed
  ultimately show thesis by (rule that)
qed

lemma linear_loop:
  "r \<le> lf_size l \<Longrightarrow> ut_lower_bound_linear_loop k l a r =
     snd (key_find_lower_bound_with_position_loop (key_compare_lf k l) (lf_live l) a r)"
proof (induction k l a r rule: ut_lower_bound_linear_loop.induct)
  case (1 k l a r)
  have "a < lf_size l" if "a < r" using that "1.prems" by linarith
  with 1 show ?case
    by (subst ut_lower_bound_linear_loop.simps, subst key_find_lower_bound_with_position_loop.simps)
      (auto simp: Let_def live_nth)
qed

lemma linear_search:
  assumes "lf_sorted l" "key_ok k"
  shows "ut_lower_bound_linear k l = snd (lf_lower_with_position k l)"
proof -
  have ok: "lf_sorted l \<and> key_ok k" using assms by simp
  have len: "length (lf_live l) = lf_size l"
    using assms lf_live_perm(4) by (simp add: lf_sorted_def lf_ok_def)
  note low = leaf_search.lower_bound_spec [OF ok]
  show ?thesis
    using linear_loop [of "lf_size l" l k 0] len leaf_search.with_position_spec [OF ok low]
      leaf_search.find_with_position_spec [OF ok low]
    by (simp add: ut_lower_bound_linear_def lf_lower_with_position_def key_find_lower_bound_with_position_by_def)
qed

section \<open>A fresh leaf\<close>

lemma iceil_bounds: "0 < y \<Longrightarrow> x \<le> iceil x y \<and> iceil x y < x + y \<and> iceil x y mod y = 0"
proof -
  assume y: "0 < y"
  have "(x + (y - x mod y)) mod y = 0" if "x mod y \<noteq> 0"
  proof -
    have "x mod y < y" using y by simp
    have "x = y * (x div y) + x mod y" by simp
    then have "x + (y - x mod y) = y * (x div y + 1)"
      using \<open>x mod y < y\<close> by (metis add.assoc le_add_diff_inverse less_imp_le_nat distrib_left mult.right_neutral)
    then show ?thesis by simp
  qed
  then show ?thesis using y by (auto simp: iceil_def Let_def)
qed

lemma leaf_size_cases: "iceil (sizeof_leaf + min n 128) 64 \<in> {320, 384, 448}"
proof -
  have "sizeof_leaf + min n 128 \<le> 440" "312 \<le> sizeof_leaf + min n 128" by (simp_all add: sizeof_leaf_def)
  then obtain q where "iceil (sizeof_leaf + min n 128) 64 = 64 * q" "312 \<le> 64 * q" "64 * q < 504"
    using iceil_bounds [of 64 "sizeof_leaf + min n 128"]
    by (auto simp: mod_eq_0_iff_dvd dvd_def dest: le_trans order_less_le_trans)
  moreover from this(2,3) have "q = 5 \<or> q = 6 \<or> q = 7" by auto
  ultimately show ?thesis by auto
qed

definition raw_leaf_ok :: "leaf \<Rightarrow> bool" where
  "raw_leaf_ok l \<longleftrightarrow> length (lf_keylenx l) = leaf_width \<and> length (lf_ikey0 l) = leaf_width \<and> length (lf_lv l) = leaf_width"

lemma lf_make_ok:
  assumes "raw_leaf_ok raw"
  shows "\<exists>l. lf_make raw junk ksufsize ts = Some l \<and> lf_ready l {} \<and> lf_permutation l = kp_make_empty leaf_width \<and>
    lf_parent l = 0 \<and> lf_node_ts l = ts \<and> lf_modstate l = modstate_insert \<and>
    lf_version l = nv_make nodeversion32_parameters True"
proof -
  define sz where "sz = iceil (sizeof_leaf + min ksufsize 128) 64"
  define e where "e = int (sz div 64) - int ((sizeof_leaf + 63) div 64)"
  define l where "l = raw\<lparr>lf_version := nv_make nodeversion32_parameters True, lf_modstate := modstate_insert,
                lf_permutation := kp_make_empty leaf_width, lf_ksuf := None, lf_parent := 0,
                lf_node_ts := ts, lf_extrasize64 := e, lf_iksuf := map junk [0..<sz - sizeof_leaf]\<rparr>"
  have make: "lf_make raw junk ksufsize ts = (if e > 0
         then map_option (\<lambda>bag. l\<lparr>lf_iksuf := bag\<rparr>) (sb_make 1 leaf_width (sz - sizeof_leaf) (lf_iksuf l)) else Some l)"
    unfolding lf_make_def Let_def sz_def [symmetric] e_def [symmetric] l_def [symmetric] ..
  have "sz = 320 \<or> sz = 384 \<or> sz = 448" using leaf_size_cases [of ksufsize] by (simp add: sz_def)
  then have sz: "e = 0 \<or> e > 0 \<and> 72 \<le> sz - sizeof_leaf \<and> sz - sizeof_leaf \<le> 136"
    by (auto simp: e_def sizeof_leaf_def)
  show ?thesis
  proof (cases "e > 0")
    case False
    then have "lf_ready l {}" using sz assms by (auto simp: lf_ready_def lf_bags_def l_def raw_leaf_ok_def)
    with False make show ?thesis by (auto simp: l_def)
  next
    case True
    then have cap: "72 \<le> sz - sizeof_leaf" "sz - sizeof_leaf \<le> 136" using sz by auto
    have len: "length (lf_iksuf l) = sz - sizeof_leaf" by (simp add: l_def)
    obtain bag where bag: "sb_make 1 leaf_width (sz - sizeof_leaf) (lf_iksuf l) = Some bag"
      using cap by (simp add: sb_make_def Let_def sb_overhead_def sb_max_size_def)
    have "sb_ok 1 leaf_width bag" "sb_capacity 1 bag = sz - sizeof_leaf"
      using make_ok [OF bag len] cap by (simp_all add: sb_overhead_def)
    then have "lf_ready (l\<lparr>lf_iksuf := bag\<rparr>) {}"
      using True cap assms by (auto simp: lf_ready_def lf_bags_def l_def raw_leaf_ok_def)
    with True make bag show ?thesis by (auto simp: l_def)
  qed
qed

lemma empty_leaf_rows:
  assumes "lf_permutation l = kp_make_empty leaf_width"
  shows "lf_rows l = []" and "lf_size l = 0" and "lf_live l = []" and "lf_ready l {} \<Longrightarrow> lf_ok l"
proof -
  show size: "lf_size l = 0" using assms kp_make_elems(1) [of 0 leaf_width] by (simp add: lf_size_def)
  then show live: "lf_live l = []" by (simp add: lf_live_def)
  then show "lf_rows l = []" by (simp add: lf_rows_def)
  show "lf_ok l" if "lf_ready l {}"
    using that assms kp_make_ok(1) [of 0 leaf_width] live by (simp add: lf_ok_def)
qed

lemma room_live: "suffix_room l (lf_live l) n \<longleftrightarrow> 71 + rows_suffix_total (lf_rows l) + n \<le> 2 ^ 15"
  by (simp add: suffix_room_def rows_suffix_total_def lf_rows_def comp_def)

lemma slot_written_rows:
  assumes "slot_written l (set (lf_live l)) p row l'" "lf_ok l"
  shows "lf_live l' = lf_live l" and "lf_rows l' = lf_rows l" and "lf_size l' = lf_size l"
proof -
  have perm: "lf_permutation l' = lf_permutation l" and s: "\<forall>q \<in> set (lf_live l). lf_slot l' q = lf_slot l q"
    using assms(1) by (simp_all add: slot_written_def lf_same_links_def)
  show "lf_size l' = lf_size l" using perm by (simp add: lf_size_def)
  then show live: "lf_live l' = lf_live l" using perm by (simp add: lf_live_def)
  show "lf_rows l' = lf_rows l" using s by (simp add: lf_rows_def live)
qed

lemma insert_leaf:
  assumes "lf_ok l" "lf_size l < leaf_width" "ki \<le> lf_size l" "key_ok ka"
    and "71 + rows_suffix_total (lf_rows l) + length (key_string ka) \<le> 2 ^ 15"
  shows "\<exists>l'. lf_assign l (kp_back leaf_width (lf_permutation l)) ka junk = Some l' \<and>
    lf_rows (lf_finish_insert l' ki) = take ki (lf_rows l) @ [key_slot ka 0] @ drop ki (lf_rows l) \<and>
    lf_ok (lf_finish_insert l' ki)"
proof -
  let ?p = "kp_back leaf_width (lf_permutation l)"
  have ok: "kp_ok leaf_width (lf_permutation l)" "lf_ready l (set (lf_live l))" using assms(1) by (simp_all add: lf_ok_def)
  note perm = lf_live_perm [OF ok(1)]
  note bck = lf_back [OF ok(1) assms(2)]
  have "suffix_room l (lf_mps l ?p False) (length (drop 8 (key_string ka)))"
    using assms(5) by (simp add: perm(1) room_live)
  then obtain l' where l': "lf_assign l ?p ka junk = Some l'" "slot_written l (set (lf_live l)) ?p (key_slot ka 0) l'"
    using assign_with_ok [OF ok(2) bck(1,2), of False ka junk] assms(4) perm(1,2) by (auto simp: lf_assign_def)
  have same: "lf_permutation l' = lf_permutation l" and slot: "lf_slot l' ?p = key_slot ka 0"
    and ready: "lf_ready l' (insert ?p (set (lf_live l)))"
    using l'(2) by (simp_all add: slot_written_def lf_same_links_def)
  note rows = slot_written_rows [OF l'(2) assms(1)]
  have sz: "lf_size l' < leaf_width" "ki \<le> lf_size l'" using assms(2,3) rows(3) by simp_all
  note fin = finish_insert_rows [of l', unfolded same, OF ok(1) sz]
  have "set (lf_live (lf_finish_insert l' ki)) \<subseteq> insert ?p (set (lf_live l))"
    using fin(1) rows(1) by (auto dest: in_set_takeD in_set_dropD)
  with ready have "lf_ready (lf_finish_insert l' ki) (set (lf_live (lf_finish_insert l' ki)))"
    by (cases "lf_ksuf l'") (auto simp: lf_ready_def lf_finish_insert_def lf_bags_def lf_has_ksuf_def subset_iff)
  with fin l'(1) rows(2) slot show ?thesis by (auto simp: lf_ok_def)
qed

lemma leaf_search_spec:
  assumes "lf_sorted l" "key_ok k"
  shows "(ut_lower_bound_binary k l = - 1 \<and> (\<forall>x \<in> set (lf_rows l). key_row_cmp k x \<noteq> 0) \<or>
      (\<exists>i < lf_size l. ut_lower_bound_binary k l = int (lf_live l ! i) \<and> key_row_cmp k (lf_rows l ! i) = 0)) \<and>
    snd (lf_lower_with_position k l) = ut_lower_bound_binary k l \<and>
    ut_lower_bound_linear k l = ut_lower_bound_binary k l \<and>
    row_position k (lf_rows l) (fst (lf_lower_with_position k l))"
proof -
  obtain b where b: "row_position k (lf_rows l) b" "lf_lower_with_position k l =
      (b, if b < lf_size l \<and> key_row_cmp k (lf_rows l ! b) = 0 then int (lf_live l ! b) else - 1)"
      "ut_lower_bound_binary k l = snd (lf_lower_with_position k l)"
    by (rule lower_with_position [OF assms])
  have len: "length (lf_rows l) = lf_size l"
    using assms(1) lf_live_perm(4) by (simp add: lf_rows_def lf_sorted_def lf_ok_def)
  have none: "key_row_cmp k (lf_rows l ! i) \<noteq> 0"
    if "i < lf_size l" "\<not> (b < lf_size l \<and> key_row_cmp k (lf_rows l ! b) = 0)" for i
  proof (cases rule: linorder_cases [of i b])
    case less
    then show ?thesis using b(1) by (auto simp: row_position_def)
  next
    case greater
    then have "key_row_cmp k (lf_rows l ! b) \<le> 0" using b(1) that(1) len by (simp add: row_position_def)
    then show ?thesis
      using row_cmp_ordered [of "lf_rows l" k b i] assms greater that(1) len by (force simp: lf_sorted_def)
  qed (use that in auto)
  have "(\<forall>x \<in> set (lf_rows l). key_row_cmp k x \<noteq> 0) \<or> b < lf_size l \<and> key_row_cmp k (lf_rows l ! b) = 0"
    using none len by (metis in_set_conv_nth)
  with b linear_search [OF assms] show ?thesis by auto
qed


text \<open>The suffix test, on a live slot.\<close>

lemma ksuf_equals_suffix:
  assumes "lf_ready l Q" "p \<in> Q" "lf_keylenx l ! p = 9" "8 < k_len k"
  shows "lf_ksuf_equals l p k 9 \<longleftrightarrow> lf_ksuf_at l p = drop 8 (key_string k)"
proof -
  have p: "p < leaf_width" "lf_has_ksuf l p" and bags: "lf_bags l"
    using assms(1-3) by (auto simp: lf_ready_def lf_has_ksuf_def keylenx_has_ksuf_def)
  have len: "0 \<le> snd (key_suffix k)" using assms(4) by (simp add: key_suffix_def)
  have nine: "keylenx_has_ksuf 9" by (simp add: keylenx_has_ksuf_def)
  show ?thesis
  proof (cases "lf_ksuf l")
    case None
    have "lf_extrasize64 l \<noteq> 0" using None assms(1,2) p(2) by (auto simp: lf_ready_def)
    then have "sb_ok 1 leaf_width (lf_iksuf l)" using bags None by (auto simp: lf_bags_def)
    from compare_facts [OF this p(1)] None len nine show ?thesis
      by (auto simp: lf_ksuf_equals_def lf_ksuf_at_def key_suffix_string)
  next
    case (Some bag)
    then have "sb_ok 2 leaf_width bag" using bags by (simp add: lf_bags_def)
    from compare_facts [OF this p(1)] Some len nine show ?thesis
      by (auto simp: lf_ksuf_equals_def lf_ksuf_at_def key_suffix_string)
  qed
qed

section \<open>Properties\<close>

text \<open>
  A fresh leaf is empty and well-formed for every size asked for; the constructor's assertion
  never fails.
\<close>

theorem lf_make_empty:
  assumes "raw_leaf_ok raw"
  shows "\<exists>l. lf_make raw junk ksufsize ts = Some l \<and> lf_ok l \<and> lf_rows l = []"
  using lf_make_ok [OF assms, of junk ksufsize ts] empty_leaf_rows by blast

definition zero_leaf :: leaf where
  "zero_leaf = \<lparr>lf_version = 0, lf_extrasize64 = 0, lf_modstate = modstate_insert,
     lf_keylenx = replicate leaf_width 0, lf_permutation = 0, lf_ikey0 = replicate leaf_width 0,
     lf_lv = replicate leaf_width 0, lf_ksuf = None, lf_next = 0, lf_prev = 0, lf_parent = 0,
     lf_node_ts = 0, lf_iksuf = []\<rparr>"

lemma zero_leaf_raw: "raw_leaf_ok zero_leaf"
  by (simp add: raw_leaf_ok_def zero_leaf_def)

theorem lf_make_empty_witness: "\<exists>l. lf_make zero_leaf (\<lambda>_. 0) 100 0 = Some l \<and> lf_rows l = []"
  using lf_make_empty [OF zero_leaf_raw, of "\<lambda>_. 0" 100 0] by blast

text \<open>
  the search of a lookup finds the one slot of the leaf that the key's slice and length
  belong to, or none, and agrees with the search of an insertion and with the linear search.
\<close>

theorem leaf_search_correct:
  assumes "lf_sorted l" "key_ok k"
  shows "(ut_lower_bound_binary k l = - 1 \<and> (\<forall>x \<in> set (lf_rows l). key_row_cmp k x \<noteq> 0) \<or>
      (\<exists>i < lf_size l. ut_lower_bound_binary k l = int (lf_live l ! i) \<and> key_row_cmp k (lf_rows l ! i) = 0)) \<and>
    snd (lf_lower_with_position k l) = ut_lower_bound_binary k l \<and>
    ut_lower_bound_linear k l = ut_lower_bound_binary k l \<and>
    row_position k (lf_rows l) (fst (lf_lower_with_position k l))"
  using assms by (rule leaf_search_spec)

text \<open>
  C29: a key assigned to the slot at the back of the permutation and inserted at a position puts
  its row there; no other row changes, wherever the suffixes have to move, and the leaf stays
  well-formed. The suffixes of a leaf must stay below 32 KB.
\<close>

theorem leaf_insert_correct:
  assumes "lf_ok l" "lf_size l < leaf_width" "ki \<le> lf_size l" "key_ok ka"
    and "71 + rows_suffix_total (lf_rows l) + length (key_string ka) \<le> 2 ^ 15"
  shows "\<exists>l'. lf_assign l (kp_back leaf_width (lf_permutation l)) ka junk = Some l' \<and>
    lf_rows (lf_finish_insert l' ki) = take ki (lf_rows l) @ [key_slot ka 0] @ drop ki (lf_rows l) \<and>
    lf_ok (lf_finish_insert l' ki)"
  using assms by (rule insert_leaf)

theorem leaf_insert_correct_witness:
  "\<exists>l l'. lf_make zero_leaf (\<lambda>_. 0) 0 0 = Some l \<and>
     lf_assign l (kp_back leaf_width (lf_permutation l)) (key_make (mem_of 0 [97, 98]) 0 2) (\<lambda>_. 0) = Some l' \<and>
     lf_rows (lf_finish_insert l' 0) = [key_slot (key_make (mem_of 0 [97, 98]) 0 2) 0]"
proof -
  obtain l where l: "lf_make zero_leaf (\<lambda>_. 0) 0 0 = Some l" "lf_ready l {}"
      "lf_permutation l = kp_make_empty leaf_width"
    using lf_make_ok [OF zero_leaf_raw, of "\<lambda>_. 0" 0 0] by blast
  note e = empty_leaf_rows [OF l(3)]
  have "71 + rows_suffix_total (lf_rows l) + length (key_string (key_make (mem_of 0 [97, 98]) 0 2)) \<le> 2 ^ 15"
    by (simp add: e(1) rows_suffix_total_def key_string_make)
  then show ?thesis
    using l(1) leaf_insert_correct [OF e(4) [OF l(2)], of 0 "key_make (mem_of 0 [97, 98]) 0 2" "\<lambda>_. 0"]
    by (auto simp: e(1,2) key_ok_make)
qed

theorem leaf_search_correct_witness:
  "\<exists>l. lf_make zero_leaf (\<lambda>_. 0) 0 0 = Some l \<and> ut_lower_bound_binary (key_make (mem_of 0 [97]) 0 1) l = - 1"
proof -
  obtain l where l: "lf_make zero_leaf (\<lambda>_. 0) 0 0 = Some l" "lf_ready l {}"
      "lf_permutation l = kp_make_empty leaf_width"
    using lf_make_ok [OF zero_leaf_raw, of "\<lambda>_. 0" 0 0] by blast
  note e = empty_leaf_rows [OF l(3)]
  have "lf_sorted l" using e l(2) by (simp add: lf_sorted_def rows_ok_def)
  from leaf_search_correct [OF this, of "key_make (mem_of 0 [97]) 0 1"] l(1) e(2) show ?thesis
    by (auto simp: key_ok_make)
qed

end
