(* ===== verification/Leaf_Split.thy ===== *)
theory Leaf_Split
  imports Dyn_Leaf
begin

text \<open>
  Splitting a full leaf: \<^verbatim>\<open>leaf::split_into\<close> of \<^verbatim>\<open>hybrid_index/masstree_split.hh\<close> and the
  part of \<^verbatim>\<open>tcursor::finish_split\<close> that concerns the two leaves. The new key is inserted on the
  way: it goes to whichever leaf its position falls into.

  The theorem describes the outcome on the rows: with the new row in place they are cut at a
  point where the slice changes, so that the slice alone tells the two leaves apart.
\<close>

section \<open>Operations\<close>

definition ikey_after_insert :: "leaf \<Rightarrow> u64 \<Rightarrow> nat \<Rightarrow> mkey \<Rightarrow> nat \<Rightarrow> u64" where
  "ikey_after_insert l perm i ka ka_i =
     (if i < ka_i then lf_ikey0 l ! kp_at perm i
      else if i = ka_i then k_ikey0 ka
      else lf_ikey0 l ! kp_at perm (i - 1))"

text \<open>The search for a position where the slice changes, outwards from the middle.\<close>

partial_function (option) split_mid_loop ::
  "(nat \<Rightarrow> u64) \<Rightarrow> nat \<Rightarrow> u64 \<Rightarrow> int \<Rightarrow> nat \<Rightarrow> nat option" where
  "split_mid_loop ik width mid_ikey midl midr =
     (if midr \<le> width \<and> mid_ikey \<noteq> ik midr then Some midr
      else if midl \<ge> 0 \<and> mid_ikey \<noteq> ik (nat midl) then Some (nat (midl + 1))
      else split_mid_loop ik width mid_ikey (midl - 1) (midr + 1))"

definition split_mid :: "leaf \<Rightarrow> nat \<Rightarrow> mkey \<Rightarrow> nat option" where
  "split_mid l p ka =
     (let width = lf_size l;
          mid = (if p = 0 \<and> lf_prev l = 0 then 1
                 else if p = width \<and> lf_next l = 0 then width
                 else leaf_width div 2 + 1);
          ik = (\<lambda>i. ikey_after_insert l (lf_permutation l) i ka p);
          mid_ikey = ik mid
      in if mid_ikey = ik (mid - 1)
         then split_mid_loop ik width mid_ikey (int mid - 2) (mid + 1)
         else Some mid)"

text \<open>The loop that fills the right leaf; \<open>pv\<close> holds the slots still to copy.\<close>

fun split_fill :: "leaf \<Rightarrow> nat \<Rightarrow> nat \<Rightarrow> mkey \<Rightarrow> (nat \<Rightarrow> nat \<Rightarrow> byte) \<Rightarrow> nat list \<Rightarrow> u64 \<Rightarrow> leaf \<Rightarrow> leaf option" where
  "split_fill l mid p ka junk [] pv nr = Some nr"
| "split_fill l mid p ka junk (x # xs) pv nr =
     (if x = p then
        (case lf_assign_initialize nr (x - mid) ka (junk x) of None \<Rightarrow> None
         | Some nr \<Rightarrow> split_fill l mid p ka junk xs pv nr)
      else
        (case lf_assign_initialize_from nr (x - mid) l (unat (pv AND 15)) (junk x) of None \<Rightarrow> None
         | Some nr \<Rightarrow> split_fill l mid p ka junk xs (drop_bit 4 pv) nr))"

text \<open>The split type, the filled right leaf and the separator.\<close>

definition lf_split_into :: "leaf \<Rightarrow> leaf \<Rightarrow> nat \<Rightarrow> mkey \<Rightarrow> (nat \<Rightarrow> nat \<Rightarrow> byte) \<Rightarrow> (nat \<times> leaf \<times> u64) option" where
  "lf_split_into l nr p ka junk =
     (case split_mid l p ka of None \<Rightarrow> None
      | Some mid \<Rightarrow>
        (let width = lf_size l; pv = kp_value_from (lf_permutation l) (mid - of_bool (p < mid)) in
         case split_fill l mid p ka junk [mid..<width + 1] pv nr of None \<Rightarrow> None
         | Some nr \<Rightarrow>
           (let permr = kp_make_sorted leaf_width (width + 1 - mid);
                permr = (if p \<ge> mid then kp_remove_to_back leaf_width permr (p - mid) else permr)
            in Some (if p \<ge> mid then 1 + of_bool (mid = width) else 0,
                 nr\<lparr>lf_permutation := permr\<rparr>, lf_ikey0 nr ! 0))))"

text \<open>What is left of the split leaf, given the size of the new one.\<close>

definition lf_split_left :: "leaf \<Rightarrow> nat \<Rightarrow> leaf" where
  "lf_split_left nl nr_size =
     (let width = lf_size nl;
          perml = kp_set_size (lf_permutation nl) (width - nr_size);
          perml = (if width \<noteq> leaf_width then kp_exchange perml (kp_size perml) (leaf_width - 1) else perml)
      in nl\<lparr>lf_version := sv_mark_split nodeversion32_parameters (lf_version nl), lf_permutation := perml\<rparr>)"

text \<open>
  The insertion completed: into the left leaf for split type 0, else into the right one. The
  result is the two leaves and the separator.
\<close>

definition lf_split_insert ::
  "leaf \<Rightarrow> leaf \<Rightarrow> nat \<Rightarrow> mkey \<Rightarrow> (nat \<Rightarrow> nat \<Rightarrow> byte) \<Rightarrow> (leaf \<times> leaf \<times> u64) option" where
  "lf_split_insert l nr ki ka junk =
     (case lf_split_into l nr ki ka junk of None \<Rightarrow> None
      | Some (split_type, nr, split_ikey) \<Rightarrow>
        (let nl = lf_split_left l (lf_size nr) in
         if split_type = 0 then
           map_option (\<lambda>nl. (lf_finish_insert nl ki, nr, split_ikey))
             (lf_assign nl (kp_back leaf_width (lf_permutation nl)) ka (junk 0))
         else Some (nl, lf_finish_insert nr (ki - lf_size nl), split_ikey)))"

section \<open>Where a leaf is cut\<close>

lemma sorted_slots_le:
  assumes "sorted_wrt slot_less xs" "i \<le> j" "j < length xs"
  shows "slot_ikey (xs ! i) \<le> slot_ikey (xs ! j)"
proof (cases "i = j")
  case False
  then have "slot_less (xs ! i) (xs ! j)" using assms by (simp add: sorted_wrt_iff_nth_less)
  then show ?thesis by (auto simp: slot_less_def)
qed simp

lemma same_slice_rank:
  assumes "sorted_wrt slot_less xs" "\<forall>i < length xs. slot_ikey (xs ! i) = x" "i < length xs"
  shows "i \<le> kl_rank (slot_kl (xs ! i))"
  using assms(3)
proof (induction i)
  case (Suc i)
  then have "slot_less (xs ! i) (xs ! Suc i)" using assms(1) by (simp add: sorted_wrt_iff_nth_less)
  moreover have "slot_ikey (xs ! i) = x" "slot_ikey (xs ! Suc i) = x" using assms(2) Suc.prems by auto
  ultimately have "kl_rank (slot_kl (xs ! i)) < kl_rank (slot_kl (xs ! Suc i))" by (simp add: slot_less_def)
  with Suc show ?case by simp
qed simp

lemma kl_rank_le: "kl_ok kl \<Longrightarrow> kl_rank kl \<le> 9"
  by (auto simp: kl_ok_def kl_rank_def word_le_nat_alt)

text \<open>Eleven rows cannot all have the same slice.\<close>

lemma slices_differ:
  assumes "rows_ok xs" "11 \<le> length xs"
  shows "\<exists>i < length xs. slot_ikey (xs ! i) \<noteq> x"
proof (rule ccontr)
  assume "\<not> ?thesis"
  then have "10 \<le> kl_rank (slot_kl (xs ! 10))"
    using same_slice_rank [of xs x 10] assms by (auto simp: rows_ok_def)
  moreover have "kl_rank (slot_kl (xs ! 10)) \<le> 9" using assms by (intro kl_rank_le) (auto simp: rows_ok_def)
  ultimately show False by simp
qed

lemma split_mid_loop_ok:
  "(\<And>i. int i > midl \<Longrightarrow> i < midr \<Longrightarrow> i \<le> width \<Longrightarrow> ik i = x) \<Longrightarrow> midl + 2 \<le> int midr \<Longrightarrow> 1 \<le> midr \<Longrightarrow>
   midl < int width \<Longrightarrow> \<exists>i \<le> width. ik i \<noteq> x \<Longrightarrow>
   \<exists>mid. split_mid_loop ik width x midl midr = Some mid \<and> 1 \<le> mid \<and> mid \<le> width \<and> ik (mid - 1) \<noteq> ik mid"
proof (induction "nat (midl + 1) + (width + 1 - midr)" arbitrary: midl midr rule: less_induct)
  case less
  note step = split_mid_loop.simps [of ik width x midl midr]
  consider "midr \<le> width" "x \<noteq> ik midr"
    | "\<not> (midr \<le> width \<and> x \<noteq> ik midr)" "0 \<le> midl" "x \<noteq> ik (nat midl)"
    | "\<not> (midr \<le> width \<and> x \<noteq> ik midr)" "\<not> (0 \<le> midl \<and> x \<noteq> ik (nat midl))"
    by blast
  then show ?case
  proof cases
    case 1
    then have "ik (midr - 1) = x" using less.prems(1) [of "midr - 1"] less.prems(2,3) by (simp add: of_nat_diff)
    with 1 less.prems(3) step show ?thesis by simp
  next
    case 2
    then have "ik (nat (midl + 1)) = x" using less.prems(1) [of "nat (midl + 1)"] less.prems(2,4) by simp
    moreover have "split_mid_loop ik width x midl midr = Some (nat (midl + 1))" using 2 step by auto
    moreover have "nat (midl + 1) - 1 = nat midl" using 2(2) by simp
    ultimately show ?thesis using 2 less.prems(4) by auto
  next
    case 3
    have eq: "ik i = x" if "int i > midl - 1" "i < midr + 1" "i \<le> width" for i
      using that 3 less.prems(1) [of i] by (cases "i = midr"; cases "int i = midl") auto
    have "0 \<le> midl \<or> midr \<le> width"
    proof (rule ccontr)
      assume "\<not> ?thesis"
      then show False using eq less.prems(5) by force
    qed
    then have "nat (midl - 1 + 1) + (width + 1 - (midr + 1)) < nat (midl + 1) + (width + 1 - midr)" by auto
    moreover have "split_mid_loop ik width x midl midr = split_mid_loop ik width x (midl - 1) (midr + 1)"
      using 3 step by auto
    ultimately show ?thesis
      using less.hyps [of "midl - 1" "midr + 1"] eq less.prems(2-5) by auto
  qed
qed

lemma split_mid_ok:
  assumes xs: "rows_ok xs" "length xs = lf_size l + 1" "leaf_width - 1 \<le> lf_size l" "p \<le> lf_size l"
    and ik: "\<And>i. i \<le> lf_size l \<Longrightarrow> ikey_after_insert l (lf_permutation l) i ka p = slot_ikey (xs ! i)"
    and size: "lf_size l \<le> leaf_width"
  shows "\<exists>mid. split_mid l p ka = Some mid \<and> 1 \<le> mid \<and> mid \<le> lf_size l \<and>
    slot_ikey (xs ! (mid - 1)) \<noteq> slot_ikey (xs ! mid)"
proof -
  define w where "w = lf_size l"
  define f where "f = (\<lambda>i. ikey_after_insert l (lf_permutation l) i ka p)"
  define m where "m = (if p = 0 \<and> lf_prev l = 0 then 1 else if p = w \<and> lf_next l = 0 then w else leaf_width div 2 + 1)"
  have m: "1 \<le> m" "m \<le> w" using xs(3) by (auto simp: m_def w_def)
  have sm: "split_mid l p ka = (if f m = f (m - 1) then split_mid_loop f w (f m) (int m - 2) (m + 1) else Some m)"
    unfolding split_mid_def Let_def w_def f_def m_def by simp
  have "11 \<le> length xs" using xs(2,3) by simp
  then obtain j where j: "j < length xs" "slot_ikey (xs ! j) \<noteq> f m" using slices_differ [OF xs(1), of "f m"] by blast
  then have j': "j \<le> w" "f j \<noteq> f m" using xs(2) ik [of j] by (simp_all add: w_def f_def)
  have "\<exists>mid. split_mid l p ka = Some mid \<and> 1 \<le> mid \<and> mid \<le> w \<and> f (mid - 1) \<noteq> f mid"
  proof (cases "f m = f (m - 1)")
    case True
    have "f j = f m" if "int m - 2 < int j" "j < m + 1" for j
    proof -
      have "j = m \<or> j = m - 1" using that by linarith
      then show ?thesis using True by auto
    qed
    then have "\<exists>mid. split_mid_loop f w (f m) (int m - 2) (m + 1) = Some mid \<and> 1 \<le> mid \<and> mid \<le> w \<and> f (mid - 1) \<noteq> f mid"
    proof (rule split_mid_loop_ok)
      show "\<exists>i \<le> w. f i \<noteq> f m" using j' by blast
    qed (use m in auto)
    with True sm show ?thesis by simp
  next
    case False
    with sm m show ?thesis by auto
  qed
  then obtain mid where mid: "split_mid l p ka = Some mid" "1 \<le> mid" "mid \<le> w" "f (mid - 1) \<noteq> f mid" by blast
  then have "slot_ikey (xs ! (mid - 1)) \<noteq> slot_ikey (xs ! mid)"
    using ik [of mid] ik [of "mid - 1"] by (simp add: w_def f_def)
  with mid show ?thesis by (auto simp: w_def)
qed

section \<open>Filling the right leaf\<close>

lemma lf_mps_init [simp]: "lf_mps l p True = [0..<p]"
  by (simp add: lf_mps_def)

definition insert_row :: "nat \<Rightarrow> node_slot \<Rightarrow> node_slot list \<Rightarrow> node_slot list" where
  "insert_row p x xs = take p xs @ [x] @ drop p xs"

lemma insert_row_nth:
  "p \<le> length xs \<Longrightarrow> i \<le> length xs \<Longrightarrow>
     insert_row p x xs ! i = (if i < p then xs ! i else if i = p then x else xs ! (i - 1))"
  by (auto simp: insert_row_def nth_append nth_Cons' min_def)

lemma length_insert_row [simp]: "p \<le> length xs \<Longrightarrow> length (insert_row p x xs) = length xs + 1"
  by (simp add: insert_row_def)

lemma rows_suffix_append [simp]:
  "rows_suffix_total [] = 0" "rows_suffix_total (x # xs) = length (slot_suf x) + rows_suffix_total xs"
  "rows_suffix_total (xs @ ys) = rows_suffix_total xs + rows_suffix_total ys"
  by (simp_all add: rows_suffix_total_def)

lemma rows_suffix_insert: "rows_suffix_total (insert_row p x xs) = rows_suffix_total xs + length (slot_suf x)"
  using rows_suffix_append(3) [of "take p xs" "drop p xs"] by (simp add: insert_row_def)

lemma rows_suffix_part:
  assumes "i + j < length xs"
  shows "rows_suffix_total (take j (drop i xs)) + length (slot_suf (xs ! (i + j))) \<le> rows_suffix_total xs"
proof -
  have "drop i xs = take j (drop i xs) @ drop j (drop i xs)" by (rule append_take_drop_id [symmetric])
  also have "drop j (drop i xs) = [xs ! (i + j)] @ drop (Suc (i + j)) xs"
    using assms Cons_nth_drop_Suc [of "i + j" xs] by (simp add: add.commute)
  finally have d: "drop i xs = take j (drop i xs) @ [xs ! (i + j)] @ drop (Suc (i + j)) xs" .
  have "rows_suffix_total xs = rows_suffix_total (take i xs) + rows_suffix_total (drop i xs)"
    using rows_suffix_append(3) [of "take i xs" "drop i xs"] by simp
  moreover have "rows_suffix_total (drop i xs) = rows_suffix_total (take j (drop i xs)) +
      (length (slot_suf (xs ! (i + j))) + rows_suffix_total (drop (Suc (i + j)) xs))"
    by (subst d) (simp del: drop_drop)
  ultimately show ?thesis by linarith
qed

lemma split_fill_ok:
  assumes l: "lf_ok l" "p \<le> lf_size l" "key_ok ka" and mid: "mid \<le> lf_size l"
    and xs: "xs = insert_row p (key_slot ka 0) (lf_rows l)"
    and room: "71 + rows_suffix_total xs \<le> 2 ^ 15"
  shows "mid \<le> x0 \<Longrightarrow> x0 \<le> lf_size l + 1 \<Longrightarrow> lf_size l + 1 - mid \<le> leaf_width \<Longrightarrow> lf_ready nr {..<x0 - mid} \<Longrightarrow>
    (\<And>i. i < x0 - mid \<Longrightarrow> lf_slot nr i = xs ! (mid + i)) \<Longrightarrow>
    pv = kp_value_from (lf_permutation l) (x0 - of_bool (p < x0)) \<Longrightarrow>
    \<exists>nr'. split_fill l mid p ka junk [x0..<lf_size l + 1] pv nr = Some nr' \<and>
      lf_ready nr' {..<lf_size l + 1 - mid} \<and>
      (\<forall>i < lf_size l + 1 - mid. lf_slot nr' i = xs ! (mid + i)) \<and> lf_same_links nr nr'"
proof (induction "lf_size l + 1 - x0" arbitrary: x0 nr pv)
  case 0
  then have x0: "x0 = lf_size l + 1" by simp
  have fin: "split_fill l mid p ka junk [x0..<lf_size l + 1] pv nr = Some nr" by (simp add: x0)
  have "lf_same_links nr nr" by (simp add: lf_same_links_def)
  with 0 fin show ?case unfolding x0 by blast
next
  case (Suc d)
  let ?w = "lf_size l" and ?k = "x0 - mid"
  have x0: "x0 \<le> ?w" using Suc.hyps(2) by simp
  then have list: "[x0..<?w + 1] = x0 # [Suc x0..<?w + 1]" by (simp add: upt_conv_Cons)
  have k: "?k < leaf_width" using Suc.prems(1,3) x0 by linarith
  have len: "length (lf_rows l) = ?w" using l(1) lf_live_perm(4) by (simp add: lf_rows_def lf_ok_def)
  have part: "rows_suffix_total (take ?k (drop mid xs)) + length (slot_suf (xs ! x0)) \<le> rows_suffix_total xs"
    using rows_suffix_part [of mid ?k xs] Suc.prems(1) x0 len l(2) by (simp add: xs)
  have "map (\<lambda>q. length (slot_suf (lf_slot nr q))) [0..<?k] = map (\<lambda>x. length (slot_suf x)) (take ?k (drop mid xs))"
    using Suc.prems(1,5) x0 len l(2) by (intro nth_equalityI) (auto simp: xs)
  then have room': "suffix_room nr [0..<?k] (length (slot_suf (xs ! x0)))"
    using part room by (simp add: suffix_room_def rows_suffix_total_def)
  have next_slot: "\<exists>nr1. (if x0 = p then lf_assign_initialize nr ?k ka (junk x0)
       else lf_assign_initialize_from nr ?k l (unat (pv AND 15)) (junk x0)) = Some nr1 \<and>
      slot_written nr {..<?k} ?k (xs ! x0) nr1"
  proof (cases "x0 = p")
    case True
    have row: "xs ! x0 = key_slot ka 0" using True len l(2) by (simp add: xs insert_row_nth)
    have "suffix_room nr (lf_mps nr ?k True) (length (drop 8 (key_string ka)))"
      using room' by (simp add: row key_slot_def)
    then have "\<exists>nr1. lf_assign_with True nr ?k ka (junk x0) = Some nr1 \<and> slot_written nr {..<?k} ?k (xs ! x0) nr1"
      unfolding row by (intro assign_with_ok Suc.prems(4) k l(3)) auto
    with True show ?thesis by (simp add: lf_assign_initialize_def)
  next
    case False
    define i where "i = x0 - of_bool (p < x0)"
    have i: "i < ?w" using False x0 l(2) by (auto simp: i_def)
    have "unat (pv AND 15) = nibble pv 0" by (simp add: nibble_def)
    also have "\<dots> = lf_live l ! i"
      using i by (simp add: Suc.prems(6) i_def [symmetric] kp_value_from_nibble live_nth kp_at_nibble)
    finally have src: "unat (pv AND 15) = lf_live l ! i" .
    have live: "length (lf_live l) = ?w" using lf_live_perm(4) l(1) by (simp add: lf_ok_def)
    have row: "xs ! x0 = lf_slot l (lf_live l ! i)"
    proof (cases "x0 < p")
      case True
      then show ?thesis using len live l(2) x0 by (simp add: xs insert_row_nth i_def lf_rows_def)
    next
      case False
      with \<open>x0 \<noteq> p\<close> have "p < x0" by simp
      then show ?thesis using len live l(2) x0 by (simp add: xs insert_row_nth i_def lf_rows_def)
    qed
    have "suffix_room nr [0..<?k] (length (lf_ksuf_at l (lf_live l ! i)))" if "lf_has_ksuf l (lf_live l ! i)"
      using room' that by (simp add: row lf_slot_suf)
    then show ?thesis
      using False assign_from_ok [OF Suc.prems(4) k, of l "lf_live l ! i" "junk x0"] by (simp add: src row)
  qed
  then obtain nr1 where nr1: "(if x0 = p then lf_assign_initialize nr ?k ka (junk x0)
       else lf_assign_initialize_from nr ?k l (unat (pv AND 15)) (junk x0)) = Some nr1"
      "slot_written nr {..<?k} ?k (xs ! x0) nr1" by blast
  define pv' where "pv' = (if x0 = p then pv else drop_bit 4 pv)"
  have step: "split_fill l mid p ka junk [x0..<?w + 1] pv nr = split_fill l mid p ka junk [Suc x0..<?w + 1] pv' nr1"
    using nr1(1) unfolding list by (auto simp: pv'_def)
  have lt: "{..<Suc x0 - mid} = insert ?k {..<?k}" using Suc.prems(1) by auto
  have pv': "pv' = kp_value_from (lf_permutation l) (Suc x0 - of_bool (p < Suc x0))"
  proof (cases "x0 = p")
    case True
    then show ?thesis using Suc.prems(6) by (simp add: pv'_def)
  next
    case False
    have "drop_bit 4 (kp_value_from (lf_permutation l) j) = kp_value_from (lf_permutation l) (Suc j)" for j
      by (simp add: kp_value_from_def ac_simps)
    moreover have "Suc x0 - of_bool (p < Suc x0) = Suc (x0 - of_bool (p < x0))" using False by auto
    ultimately show ?thesis using False Suc.prems(6) by (simp add: pv'_def)
  qed
  have "\<exists>nr'. split_fill l mid p ka junk [Suc x0..<?w + 1] pv' nr1 = Some nr' \<and>
      lf_ready nr' {..<?w + 1 - mid} \<and> (\<forall>i < ?w + 1 - mid. lf_slot nr' i = xs ! (mid + i)) \<and> lf_same_links nr1 nr'"
  proof (rule Suc.hyps(1))
    show "d = ?w + 1 - Suc x0" "mid \<le> Suc x0" "Suc x0 \<le> ?w + 1" "?w + 1 - mid \<le> leaf_width"
      using Suc.hyps(2) Suc.prems(1,3) x0 by auto
    show "lf_ready nr1 {..<Suc x0 - mid}" using nr1(2) by (simp add: lt slot_written_def)
    show "lf_slot nr1 i = xs ! (mid + i)" if "i < Suc x0 - mid" for i
    proof (cases "i = ?k")
      case True
      then show ?thesis using nr1(2) Suc.prems(1) by (simp add: slot_written_def)
    next
      case False
      then have "i < ?k" using that by linarith
      then show ?thesis using nr1(2) Suc.prems(5) by (simp add: slot_written_def)
    qed
  qed (rule pv')
  moreover have "lf_same_links nr nr' \<longleftrightarrow> lf_same_links nr1 nr'" for nr'
    using nr1(2) by (simp add: slot_written_def lf_same_links_def)
  ultimately show ?case unfolding step by simp
qed

section \<open>The two leaves\<close>

lemma slot_same:
  assumes "lf_keylenx l' = lf_keylenx l" "lf_ikey0 l' = lf_ikey0 l" "lf_lv l' = lf_lv l" "lf_ksuf l' = lf_ksuf l"
    "lf_iksuf l' = lf_iksuf l"
  shows "lf_slot l' q = lf_slot l q"
  using assms by (cases "lf_ksuf l") (simp_all add: lf_slot_def lf_has_ksuf_def lf_ksuf_at_def)

lemma ready_subset:
  assumes "lf_ready l Q" "R \<subseteq> Q" "lf_keylenx l' = lf_keylenx l" "lf_ikey0 l' = lf_ikey0 l" "lf_lv l' = lf_lv l"
    "lf_ksuf l' = lf_ksuf l" "lf_iksuf l' = lf_iksuf l" "lf_extrasize64 l' = lf_extrasize64 l"
  shows "lf_ready l' R"
  using assms by (cases "lf_ksuf l") (auto simp: lf_ready_def lf_bags_def lf_has_ksuf_def)

lemma split_left_ok:
  assumes ok: "lf_ok l" and n: "n \<le> lf_size l"
  shows "lf_ok (lf_split_left l n)" and "lf_rows (lf_split_left l n) = take (lf_size l - n) (lf_rows l)"
    and "lf_size (lf_split_left l n) = lf_size l - n"
proof -
  let ?l = "lf_split_left l n" and ?k = "lf_size l - n" and ?perm = "lf_permutation l"
  define p1 where "p1 = kp_set_size ?perm ?k"
  have kp: "kp_ok leaf_width ?perm" using ok by (simp add: lf_ok_def)
  have w: "lf_size l \<le> leaf_width" using lf_live_perm(5) [OF kp] .
  have p1: "kp_size p1 = ?k" "kp_elems leaf_width p1 = kp_elems leaf_width ?perm"
    using kp_set_size_elems [of ?k leaf_width ?perm] w by (simp_all add: p1_def)
  have kp1: "kp_ok leaf_width p1" using kp p1 w by (simp add: kp_ok_def)
  define p2 where "p2 = (if lf_size l \<noteq> leaf_width then kp_exchange p1 ?k (leaf_width - 1) else p1)"
  have perm: "lf_permutation ?l = p2"
    unfolding lf_split_left_def Let_def p1_def [symmetric] p1(1) p2_def by simp
  have k: "?k < leaf_width" if "lf_size l \<noteq> leaf_width" using that w by linarith
  have kp2: "kp_ok leaf_width p2" using kp1 k by (simp add: p2_def kp_exchange_ok)
  have size2: "kp_size p2 = ?k"
    using k p1(1) kp_exchange_elems(1) [of ?k leaf_width 14 p1] by (simp add: p2_def)
  have take2: "take ?k (kp_elems leaf_width p2) = take ?k (kp_elems leaf_width ?perm)"
    using k n kp_exchange_elems(2) [of ?k leaf_width 14 p1] p1(2) by (auto simp: p2_def)
  show size: "lf_size ?l = ?k" using size2 perm by (simp add: lf_size_def)
  have live: "lf_live ?l = take ?k (lf_live l)"
    using take2 size by (simp add: lf_live_def perm lf_size_def [symmetric] min_def)
  have slot: "lf_slot ?l q = lf_slot l q" for q by (rule slot_same) (simp_all add: lf_split_left_def Let_def)
  show "lf_rows ?l = take ?k (lf_rows l)" by (simp add: lf_rows_def live slot take_map)
  have "lf_ready ?l (set (lf_live ?l))"
  proof (rule ready_subset [of l "set (lf_live l)"])
    show "lf_ready l (set (lf_live l))" using ok by (simp add: lf_ok_def)
    show "set (lf_live ?l) \<subseteq> set (lf_live l)" unfolding live by (rule set_take_subset)
  qed (simp_all add: lf_split_left_def Let_def)
  then show "lf_ok ?l" using kp2 perm by (simp add: lf_ok_def)
qed

lemma sorted_perm_leaf:
  assumes "lf_ready nr {..<n}" "n \<le> leaf_width" "lf_permutation l' = kp_make_sorted leaf_width n"
    "lf_keylenx l' = lf_keylenx nr" "lf_ikey0 l' = lf_ikey0 nr" "lf_lv l' = lf_lv nr"
    "lf_ksuf l' = lf_ksuf nr" "lf_iksuf l' = lf_iksuf nr" "lf_extrasize64 l' = lf_extrasize64 nr"
  shows "lf_ok l'" and "lf_rows l' = map (lf_slot nr) [0..<n]" and "lf_size l' = n"
proof -
  have e: "kp_size (lf_permutation l') = n" "kp_elems leaf_width (lf_permutation l') = [0..<n] @ rev [n..<leaf_width]"
    using kp_make_elems(3,4) [of n leaf_width] assms(2,3) by simp_all
  show "lf_size l' = n" using e by (simp add: lf_size_def)
  then have live: "lf_live l' = [0..<n]" using e(2) by (simp add: lf_live_def)
  have slot: "lf_slot l' q = lf_slot nr q" for q by (rule slot_same) (use assms in simp_all)
  show "lf_rows l' = map (lf_slot nr) [0..<n]" by (simp add: lf_rows_def live slot)
  have "lf_ready l' {..<n}" by (rule ready_subset [OF assms(1) subset_refl assms(4-9)])
  then show "lf_ok l'"
    using kp_make_ok(2) [of n leaf_width] assms(2,3) live by (simp add: lf_ok_def atLeast0LessThan)
qed

text \<open>A right leaf that takes the new key: its slot waits at the back.\<close>

lemma waiting_leaf:
  assumes "lf_ready nr {..<n}" "n \<le> leaf_width" "i < n"
    and l': "l' = nr\<lparr>lf_permutation := kp_remove_to_back leaf_width (kp_make_sorted leaf_width n) i\<rparr>"
  shows "lf_ok (lf_finish_insert l' i)" and "lf_rows (lf_finish_insert l' i) = map (lf_slot nr) [0..<n]"
    and "lf_size l' = n - 1"
proof -
  let ?p0 = "kp_make_sorted leaf_width n"
  define es where "es = [0..<n] @ rev [n..<leaf_width]"
  have e: "kp_size ?p0 = n" "kp_elems leaf_width ?p0 = es"
    using kp_make_elems(3,4) [of n leaf_width] assms(2) by (simp_all add: es_def)
  have i: "i < kp_size ?p0" "kp_size ?p0 \<le> leaf_width" using assms(2,3) e(1) by auto
  note rem = kp_remove_to_back_elems [OF i, unfolded e]
  have lp: "lf_permutation l' = kp_remove_to_back leaf_width ?p0 i" by (simp add: l')
  show size: "lf_size l' = n - 1" using rem(1) by (simp add: lf_size_def lp)
  have kp: "kp_ok leaf_width (lf_permutation l')"
    using kp_remove_ok(2) [OF _ i(1)] kp_make_ok(2) [of n leaf_width] assms(2) by (simp add: lp)
  have len: "length es = leaf_width" using assms(2) by (simp add: es_def)
  have esi: "es ! i = i" using assms(3) by (simp add: es_def nth_append)
  have "take (n - 1) (take i es @ drop (i + 1) es @ [es ! i]) = [0..<i] @ [i + 1..<n]"
    using assms(2,3) by (simp add: es_def drop_append take_append min_def)
  then have live: "lf_live l' = [0..<i] @ [i + 1..<n]"
    using rem(2) size by (simp add: lf_live_def lp)
  have bk: "kp_back leaf_width (lf_permutation l') = i"
  proof -
    have "kp_back leaf_width (lf_permutation l') = last (kp_elems leaf_width (lf_permutation l'))"
      using lf_back(3) [OF kp] size assms(2,3) by simp
    then show ?thesis using rem(2) esi by (simp add: lp)
  qed
  have lt: "lf_size l' < leaf_width" "i \<le> lf_size l'" using size assms(2,3) by auto
  note fin = finish_insert_rows [OF kp lt]
  have "[0..<n] = [0..<i] @ [i] @ [i + 1..<n]"
    using assms(3) by (metis append_Cons append_Nil upt_add_eq_append le_add_diff_inverse less_imp_le_nat upt_conv_Cons zero_le add.commute Suc_eq_plus1)
  then have live2: "lf_live (lf_finish_insert l' i) = [0..<n]"
    using fin(1) by (simp add: live bk)
  have slot: "lf_slot (lf_finish_insert l' i) q = lf_slot nr q" for q
    by (rule slot_same) (simp_all add: lf_finish_insert_def l')
  show "lf_rows (lf_finish_insert l' i) = map (lf_slot nr) [0..<n]" by (simp add: lf_rows_def live2 slot)
  have "lf_ready (lf_finish_insert l' i) {..<n}"
    by (rule ready_subset [OF assms(1)]) (simp_all add: lf_finish_insert_def l')
  then show "lf_ok (lf_finish_insert l' i)" using fin(2) live2 by (simp add: lf_ok_def atLeast0LessThan)
qed

lemma after_insert_row:
  assumes "lf_ok l" "p \<le> lf_size l" "i \<le> lf_size l"
  shows "ikey_after_insert l (lf_permutation l) i ka p = slot_ikey (insert_row p (key_slot ka 0) (lf_rows l) ! i)"
proof -
  have len: "length (lf_rows l) = lf_size l" "length (lf_live l) = lf_size l"
    using assms(1) lf_live_perm(4) by (simp_all add: lf_rows_def lf_ok_def)
  have row: "slot_ikey (lf_rows l ! j) = lf_ikey0 l ! kp_at (lf_permutation l) j" if "j < lf_size l" for j
    using that len by (simp add: lf_rows_def lf_slot_def live_nth)
  show ?thesis
    using assms(2,3) len row [of i] row [of "i - 1"]
    by (auto simp: ikey_after_insert_def insert_row_nth key_slot_def)
qed

section \<open>Properties\<close>

text \<open>
  C28: splitting a leaf that has no room, while inserting a key, gives two well-formed leaves that
  hold the old rows and the new one in order, neither empty, cut where the slice changes: the
  separator is the first slice of the right leaf and lies above all of the left one. The search
  for the cut ends.
\<close>

theorem leaf_split_correct:
  assumes l: "lf_ok l" "leaf_width - 1 \<le> lf_size l" "ki \<le> lf_size l" "key_ok ka" and nr: "lf_ready nr {}"
    and xs: "xs = insert_row ki (key_slot ka 0) (lf_rows l)" "rows_ok xs"
    and room: "71 + rows_suffix_total (lf_rows l) + length (key_string ka) \<le> 2 ^ 15"
  shows "\<exists>nl nr' sep. lf_split_insert l nr ki ka junk = Some (nl, nr', sep) \<and> lf_ok nl \<and> lf_ok nr' \<and>
    lf_rows nl @ lf_rows nr' = xs \<and> lf_rows nl \<noteq> [] \<and> lf_rows nr' \<noteq> [] \<and> slot_ikey (hd (lf_rows nr')) = sep \<and>
    (\<forall>x \<in> set (lf_rows nl). slot_ikey x < sep) \<and> (\<forall>x \<in> set (lf_rows nr'). sep \<le> slot_ikey x)"
proof -
  let ?w = "lf_size l"
  have len: "length (lf_rows l) = ?w" "?w \<le> leaf_width"
    using l(1) lf_live_perm(4,5) by (simp_all add: lf_rows_def lf_ok_def)
  have lxs: "length xs = ?w + 1" using l(3) len by (simp add: xs(1))
  have room': "71 + rows_suffix_total xs \<le> 2 ^ 15"
    using room by (simp add: xs(1) rows_suffix_insert key_slot_def)
  obtain mid where mid: "split_mid l ki ka = Some mid" "1 \<le> mid" "mid \<le> ?w"
      "slot_ikey (xs ! (mid - 1)) \<noteq> slot_ikey (xs ! mid)"
    using split_mid_ok [OF xs(2) lxs l(2,3) _ len(2)] after_insert_row [OF l(1,3)] xs(1) by blast
  define n where "n = ?w + 1 - mid"
  have n: "n \<le> leaf_width" "0 < n" using mid(2,3) len(2) by (auto simp: n_def)
  define pv where "pv = kp_value_from (lf_permutation l) (mid - of_bool (ki < mid))"
  have "\<exists>nr1. split_fill l mid ki ka junk [mid..<?w + 1] pv nr = Some nr1 \<and>
      lf_ready nr1 {..<?w + 1 - mid} \<and> (\<forall>i < ?w + 1 - mid. lf_slot nr1 i = xs ! (mid + i)) \<and> lf_same_links nr nr1"
    using mid(3) n(1) nr by (intro split_fill_ok [OF l(1,3,4) mid(3) xs(1) room']) (auto simp: n_def pv_def)
  then obtain nr1 where nr1: "split_fill l mid ki ka junk [mid..<?w + 1] pv nr = Some nr1" "lf_ready nr1 {..<n}"
      "\<forall>i < n. lf_slot nr1 i = xs ! (mid + i)"
    unfolding n_def by blast
  have right: "map (lf_slot nr1) [0..<n] = drop mid xs"
    using nr1(3) lxs by (intro nth_equalityI) (auto simp: n_def)
  have "slot_ikey (lf_slot nr1 0) = slot_ikey (xs ! mid)" using nr1(3) n(2) by simp
  then have sep: "lf_ikey0 nr1 ! 0 = slot_ikey (xs ! mid)" by (simp add: lf_slot_def)
  have split: "lf_split_into l nr ki ka junk = Some (if ki \<ge> mid then 1 + of_bool (mid = ?w) else 0,
      nr1\<lparr>lf_permutation := if ki \<ge> mid then kp_remove_to_back leaf_width (kp_make_sorted leaf_width n) (ki - mid)
        else kp_make_sorted leaf_width n\<rparr>, slot_ikey (xs ! mid))"
    using mid(1) nr1(1) sep by (simp add: lf_split_into_def Let_def pv_def n_def)
  have "\<exists>nl nr'. lf_split_insert l nr ki ka junk = Some (nl, nr', slot_ikey (xs ! mid)) \<and> lf_ok nl \<and> lf_ok nr' \<and>
      lf_rows nl = take mid xs \<and> lf_rows nr' = drop mid xs"
  proof (cases "mid \<le> ki")
    case True
    define nr2 where "nr2 = nr1\<lparr>lf_permutation := kp_remove_to_back leaf_width (kp_make_sorted leaf_width n) (ki - mid)\<rparr>"
    have "ki - mid < n" using True l(3) mid(3) by (auto simp: n_def)
    note wait = waiting_leaf [OF nr1(2) n(1) this nr2_def]
    have size: "lf_size nr2 = ?w - mid" using wait(3) by (simp add: n_def)
    have nsz: "lf_size nr2 \<le> ?w" using size by simp
    note left = split_left_ok [OF l(1) nsz]
    have "lf_size (lf_split_left l (lf_size nr2)) = mid" using left(3) size mid(3) by simp
    then have "lf_split_insert l nr ki ka junk =
        Some (lf_split_left l (lf_size nr2), lf_finish_insert nr2 (ki - mid), slot_ikey (xs ! mid))"
      using True split by (simp add: lf_split_insert_def nr2_def)
    moreover have "take mid xs = take mid (lf_rows l)"
      using True l(3) len(1) by (simp add: xs(1) insert_row_def min_def)
    moreover have "lf_rows (lf_split_left l (lf_size nr2)) = take mid (lf_rows l)"
      using left(2) size mid(3) by simp
    ultimately show ?thesis using left(1) wait(1,2) right by simp
  next
    case False
    define nr2 where "nr2 = nr1\<lparr>lf_permutation := kp_make_sorted leaf_width n\<rparr>"
    have nr2: "lf_ok nr2" "lf_rows nr2 = drop mid xs" "lf_size nr2 = n"
      using sorted_perm_leaf [OF nr1(2) n(1), of nr2] right by (simp_all add: nr2_def)
    have nsz: "lf_size nr2 \<le> ?w" using nr2(3) mid(2,3) by (simp add: n_def)
    note left = split_left_ok [OF l(1) nsz]
    define nl where "nl = lf_split_left l (lf_size nr2)"
    have nl: "lf_ok nl" "lf_rows nl = take (mid - 1) (lf_rows l)" "lf_size nl = mid - 1"
      using left nr2(3) mid(2,3) by (simp_all add: nl_def n_def)
    have "rows_suffix_total (lf_rows nl) \<le> rows_suffix_total (lf_rows l)"
      using rows_suffix_append(3) [of "take (mid - 1) (lf_rows l)" "drop (mid - 1) (lf_rows l)"] nl(2) by simp
    then have r: "71 + rows_suffix_total (lf_rows nl) + length (key_string ka) \<le> 2 ^ 15" using room by simp
    have lt: "lf_size nl < leaf_width" "ki \<le> lf_size nl" using nl(3) mid(2,3) len(2) False by auto
    obtain nl' where nl': "lf_assign nl (kp_back leaf_width (lf_permutation nl)) ka (junk 0) = Some nl'"
        "lf_rows (lf_finish_insert nl' ki) = take ki (lf_rows nl) @ [key_slot ka 0] @ drop ki (lf_rows nl)"
        "lf_ok (lf_finish_insert nl' ki)"
      using insert_leaf [OF nl(1) lt l(4) r] by blast
    have "take mid xs = take ki (lf_rows nl) @ [key_slot ka 0] @ drop ki (lf_rows nl)"
      using False mid(2,3) len(1) by (auto simp: xs(1) nl(2) insert_row_def min_def take_drop take_Cons' Suc_diff_le)
    moreover have "lf_split_insert l nr ki ka junk = Some (lf_finish_insert nl' ki, nr2, slot_ikey (xs ! mid))"
      using False split nl'(1) by (simp add: lf_split_insert_def nr2_def nl_def)
    ultimately show ?thesis using nl'(2,3) nr2(1,2) by simp
  qed
  then obtain nl nr' where res: "lf_split_insert l nr ki ka junk = Some (nl, nr', slot_ikey (xs ! mid))" "lf_ok nl"
      "lf_ok nr'" "lf_rows nl = take mid xs" "lf_rows nr' = drop mid xs" by blast
  have lt: "slot_ikey (xs ! (mid - 1)) < slot_ikey (xs ! mid)"
    using sorted_slots_le [of xs "mid - 1" mid] xs(2) mid lxs by (force simp: rows_ok_def)
  have low: "slot_ikey x < slot_ikey (xs ! mid)" if x: "x \<in> set (take mid xs)" for x
  proof -
    obtain i where i: "i < mid" "x = xs ! i" "i < length xs" using x by (auto simp: in_set_conv_nth)
    then have "slot_ikey x \<le> slot_ikey (xs ! (mid - 1))"
      using sorted_slots_le [of xs i "mid - 1"] xs(2) mid(3) lxs by (auto simp: rows_ok_def)
    with lt show ?thesis by simp
  qed
  have high: "slot_ikey (xs ! mid) \<le> slot_ikey x" if x: "x \<in> set (drop mid xs)" for x
  proof -
    obtain i where "i < length (drop mid xs)" "x = drop mid xs ! i" using x by (metis in_set_conv_nth)
    then show ?thesis using sorted_slots_le [of xs mid "mid + i"] xs(2) by (auto simp: rows_ok_def)
  qed
  have "take mid xs \<noteq> []" "drop mid xs \<noteq> []" "hd (drop mid xs) = xs ! mid"
    using mid(2,3) lxs by (auto simp: hd_drop_conv_nth)
  with res low high show ?thesis by auto
qed

text \<open>A full leaf for the example: 15 keys of eight bytes.\<close>

definition full_leaf :: leaf where
  "full_leaf = zero_leaf\<lparr>lf_keylenx := replicate leaf_width 8, lf_ikey0 := map (\<lambda>i. word_of_nat (i + 2)) [0..<15],
     lf_permutation := kp_make_sorted leaf_width 15\<rparr>"

lemma full_leaf_rows: "lf_ok full_leaf" "lf_size full_leaf = 15"
    "lf_rows full_leaf = map (\<lambda>i. (8, word_of_nat (i + 2), 0, [])) [0..<15]"
proof -
  have ready: "lf_ready full_leaf {..<15}"
    by (auto simp: lf_ready_def lf_bags_def full_leaf_def zero_leaf_def lf_has_ksuf_def keylenx_has_ksuf_def)
  have perm: "lf_permutation full_leaf = kp_make_sorted leaf_width 15" by (simp add: full_leaf_def)
  note sp = sorted_perm_leaf [OF ready _ perm refl refl refl refl refl refl]
  show "lf_ok full_leaf" "lf_size full_leaf = 15" using sp by simp_all
  have "lf_slot full_leaf i = (8, word_of_nat (i + 2), 0, [])" if "i < 15" for i
    using that nth_map_upt [of i 15 0 "\<lambda>i. word_of_nat (i + 2) :: u64"]
    by (simp add: lf_slot_def full_leaf_def zero_leaf_def lf_has_ksuf_def keylenx_has_ksuf_def
      del: upt_Suc upt_rec_numeral of_nat_add nth_map_upt)
  then show "lf_rows full_leaf = map (\<lambda>i. (8, word_of_nat (i + 2), 0, [])) [0..<15]"
    using sp(2) by (simp del: upt_Suc)
qed

lemma full_leaf_sorted:
  assumes "key_string ka = []" "key_ok ka"
  shows "rows_ok (insert_row 0 (key_slot ka 0) (lf_rows full_leaf))"
proof -
  have ka: "k_ikey0 ka = 0" "k_len ka = 0"
    using assms key_len_string [OF assms(2)]
    by (simp_all add: key_ok_def slice_of_def pad8_def u64_of_bytes_def)
  have kl: "\<not> keylenx_is_layer 8" "(8 :: byte) \<le> 9" by (simp_all add: keylenx_is_layer_def)
  have un: "unat (word_of_nat (i + 2) :: u64) = i + 2" if "i < 15" for i
    using that by (simp only: unat_of_nat) simp
  have lt: "(word_of_nat (i + 2) :: u64) < word_of_nat (j + 2)" if "i < j" "j < 15" for i j
    unfolding word_less_nat_alt using that un [of i] un [of j] by simp
  have pos: "(0 :: u64) < word_of_nat (j + 2)" if "j < 15" for j
    unfolding word_less_nat_alt using that un [of j] by simp
  have "sorted_wrt slot_less (map (\<lambda>i. (8, word_of_nat (i + 2), 0, [])) [0..<15])"
    unfolding sorted_wrt_map
    by (rule sorted_wrt_mono_rel [OF _ sorted_wrt_upt]) (use lt in \<open>auto simp: slot_less_def simp del: of_nat_add\<close>)
  moreover have "\<forall>x \<in> set (map (\<lambda>i. (8, word_of_nat (i + 2), 0, [])) [0..<15]). slot_less (key_slot ka 0) x"
    using pos by (auto simp: slot_less_def key_slot_def ka simp del: of_nat_add)
  ultimately show ?thesis
    using kl by (auto simp: rows_ok_def insert_row_def full_leaf_rows kl_ok_def key_slot_def key_ikeylen_def ka simp del: upt_Suc)
qed

theorem leaf_split_correct_witness:
  "\<exists>nr nl nr' sep. lf_make zero_leaf (\<lambda>_. 0) 0 0 = Some nr \<and>
     lf_split_insert full_leaf nr 0 (key_make (mem_of 0 []) 0 0) (\<lambda>_ _. 0) = Some (nl, nr', sep) \<and>
     length (lf_rows nl @ lf_rows nr') = 16"
proof -
  let ?ka = "key_make (mem_of 0 []) 0 0"
  obtain nr where nr: "lf_make zero_leaf (\<lambda>_. 0) 0 0 = Some nr" "lf_ready nr {}"
    using lf_make_ok [OF zero_leaf_raw, of "\<lambda>_. 0" 0 0] by blast
  have ka: "key_ok ?ka" "key_string ?ka = []" by (simp_all add: key_ok_make key_string_make)
  have tot: "rows_suffix_total (lf_rows full_leaf) = 0"
    by (simp add: full_leaf_rows rows_suffix_total_def comp_def sum_list_triv del: upt_Suc)
  have pre: "leaf_width - 1 \<le> lf_size full_leaf" "0 \<le> lf_size full_leaf"
    "71 + rows_suffix_total (lf_rows full_leaf) + length (key_string ?ka) \<le> 2 ^ 15"
    by (simp_all add: full_leaf_rows(2) tot ka(2))
  have "length (insert_row 0 (key_slot ?ka 0) (lf_rows full_leaf)) = 16"
    by (simp add: full_leaf_rows(3) del: upt_Suc)
  with leaf_split_correct [OF full_leaf_rows(1) pre(1,2) ka(1) nr(2) refl full_leaf_sorted [OF ka(2,1)] pre(3), of "\<lambda>_ _. 0"]
  show ?thesis using nr(1) by metis
qed

end
