(* ===== verification/Internode.thy ===== *)
theory Internode
  imports Masstree_Key Ksearch Node_Version
begin

text \<open>
  The inner nodes of the dynamic stage: class \<^verbatim>\<open>internode\<close> of
  \<^verbatim>\<open>hybrid_index/masstree_struct.hh\<close> and \<^verbatim>\<open>internode::split_into\<close> of
  \<^verbatim>\<open>masstree_split.hh\<close>, with 15 separators and 16 children. The arrays are lists; what lies
  beyond \<^verbatim>\<open>nkeys_\<close> is arbitrary. Setting the parent of a child is an effect on the heap and
  belongs to the caller.

  The abstraction is the list of separators \<open>in_keys\<close> and of children \<open>in_children\<close>. Inserting
  puts a separator and the child to its right in; splitting cuts both lists and passes the
  separator in between up.
\<close>

section \<open>Operations\<close>

abbreviation internode_width :: nat where
  "internode_width \<equiv> 15"

record internode =
  in_version :: u32
  in_nkeys :: nat
  in_ikey0 :: "u64 list"
  in_child :: "u64 list"
  in_parent :: u64

definition in_make :: "internode \<Rightarrow> internode" where
  "in_make raw = raw\<lparr>in_version := nv_make nodeversion32_parameters False, in_nkeys := 0, in_parent := 0\<rparr>"

definition in_size :: "internode \<Rightarrow> nat" where
  "in_size n = in_nkeys n"

definition in_ikey :: "internode \<Rightarrow> nat \<Rightarrow> u64" where
  "in_ikey n p = in_ikey0 n ! p"

definition in_get_key :: "internode \<Rightarrow> nat \<Rightarrow> mkey" where
  "in_get_key n p = key_of_ikey (in_ikey0 n ! p)"

text \<open>\<^verbatim>\<open>memcpy\<close> and \<^verbatim>\<open>memmove\<close> of \<open>n\<close> elements.\<close>

definition blit :: "'a list \<Rightarrow> nat \<Rightarrow> 'a list \<Rightarrow> nat \<Rightarrow> nat \<Rightarrow> 'a list" where
  "blit dst d src s n = take d dst @ take n (drop s src) @ drop (d + n) dst"

definition in_assign :: "internode \<Rightarrow> nat \<Rightarrow> u64 \<Rightarrow> u64 \<Rightarrow> internode" where
  "in_assign n p ikey child = n\<lparr>in_child := (in_child n)[p + 1 := child], in_ikey0 := (in_ikey0 n)[p := ikey]\<rparr>"

definition in_shift_from :: "internode \<Rightarrow> nat \<Rightarrow> internode \<Rightarrow> nat \<Rightarrow> nat \<Rightarrow> internode" where
  "in_shift_from n p x xp k =
     (if k \<noteq> 0 then n\<lparr>in_ikey0 := blit (in_ikey0 n) p (in_ikey0 x) xp k,
         in_child := blit (in_child n) (p + 1) (in_child x) (xp + 1) k\<rparr>
      else n)"

text \<open>The loops over the children, \<open>k\<close> rounds to go.\<close>

fun shift_up_loop :: "nat \<Rightarrow> nat \<Rightarrow> nat \<Rightarrow> u64 list \<Rightarrow> u64 list" where
  "shift_up_loop a b 0 c = c"
| "shift_up_loop a b (Suc k) c = shift_up_loop (a - 1) (b - 1) k (c[a := c ! b])"

fun shift_down_loop :: "nat \<Rightarrow> nat \<Rightarrow> nat \<Rightarrow> u64 list \<Rightarrow> u64 list" where
  "shift_down_loop a b 0 c = c"
| "shift_down_loop a b (Suc k) c = shift_down_loop (a + 1) (b + 1) k (c[a := c ! b])"

definition in_shift_up :: "internode \<Rightarrow> nat \<Rightarrow> nat \<Rightarrow> nat \<Rightarrow> internode" where
  "in_shift_up n p xp k =
     n\<lparr>in_ikey0 := blit (in_ikey0 n) p (in_ikey0 n) xp k, in_child := shift_up_loop (p + k) (xp + k) k (in_child n)\<rparr>"

definition in_shift_down :: "internode \<Rightarrow> nat \<Rightarrow> nat \<Rightarrow> nat \<Rightarrow> internode" where
  "in_shift_down n p xp k =
     n\<lparr>in_ikey0 := blit (in_ikey0 n) p (in_ikey0 n) xp k, in_child := shift_down_loop (p + 1) (xp + 1) k (in_child n)\<rparr>"

text \<open>
  The search among the separators, \<^verbatim>\<open>internode::bound_type::upper\<close>. It compares slices,
  whether it is given a key or a slice.
\<close>

definition in_compare :: "u64 \<Rightarrow> internode \<Rightarrow> nat \<Rightarrow> int" where
  "in_compare a n p = compare a (in_ikey0 n ! p)"

definition in_upper :: "u64 \<Rightarrow> internode \<Rightarrow> nat" where
  "in_upper a n = key_upper_bound_by (in_compare a n) [0..<in_nkeys n]"

text \<open>
  The child inserted right of separator \<open>kp\<close>, as \<^verbatim>\<open>finish_split\<close> does it when the node has room.
\<close>

definition in_insert :: "internode \<Rightarrow> nat \<Rightarrow> u64 \<Rightarrow> u64 \<Rightarrow> internode" where
  "in_insert n kp ikey child =
     (let n = in_assign (in_shift_up n (kp + 1) kp (in_nkeys n - kp)) kp ikey child
      in n\<lparr>in_nkeys := in_nkeys n + 1\<rparr>)"

text \<open>The position left to insert at (none: already in), this node, the new one, the separator.\<close>

definition in_split_into ::
  "internode \<Rightarrow> internode \<Rightarrow> nat \<Rightarrow> u64 \<Rightarrow> u64 \<Rightarrow> nat \<Rightarrow> nat option \<times> internode \<times> internode \<times> u64" where
  "in_split_into n nr p ka v split_type =
     (let w = internode_width;
          mid = (if split_type = 2 then w else (w + 1) div 2);
          nr = nr\<lparr>in_nkeys := w + 1 - (mid + 1)\<rparr>;
          (nr, split_ikey) =
            (if p < mid then
               (in_shift_from (nr\<lparr>in_child := (in_child nr)[0 := in_child n ! mid]\<rparr>) 0 n mid (w - mid), in_ikey0 n ! (mid - 1))
             else if p = mid then
               (in_shift_from (nr\<lparr>in_child := (in_child nr)[0 := v]\<rparr>) 0 n mid (w - mid), ka)
             else
               (let nr = in_shift_from (nr\<lparr>in_child := (in_child nr)[0 := in_child n ! (mid + 1)]\<rparr>) 0 n (mid + 1) (p - (mid + 1));
                    nr = in_assign nr (p - (mid + 1)) ka v
                in (in_shift_from nr (p + 1 - (mid + 1)) n p (w - p), in_ikey0 n ! mid)));
          n = n\<lparr>in_version := sv_mark_split nodeversion32_parameters (in_version n)\<rparr>
      in if p < mid then (Some p, n\<lparr>in_nkeys := mid - 1\<rparr>, nr, split_ikey)
         else (None, n\<lparr>in_nkeys := mid\<rparr>, nr, split_ikey))"

section \<open>Separators and children\<close>

definition in_ok :: "internode \<Rightarrow> bool" where
  "in_ok n \<longleftrightarrow> length (in_ikey0 n) = internode_width \<and> length (in_child n) = internode_width + 1 \<and>
     in_nkeys n \<le> internode_width"

definition in_keys :: "internode \<Rightarrow> u64 list" where
  "in_keys n = take (in_nkeys n) (in_ikey0 n)"

definition in_children :: "internode \<Rightarrow> u64 list" where
  "in_children n = take (in_nkeys n + 1) (in_child n)"

definition insert_at :: "nat \<Rightarrow> 'a \<Rightarrow> 'a list \<Rightarrow> 'a list" where
  "insert_at i x xs = take i xs @ [x] @ drop i xs"

lemma length_insert_at [simp]: "i \<le> length xs \<Longrightarrow> length (insert_at i x xs) = length xs + 1"
  by (simp add: insert_at_def)

lemma insert_at_nth:
  "i \<le> length xs \<Longrightarrow> j \<le> length xs \<Longrightarrow> insert_at i x xs ! j = (if j < i then xs ! j else if j = i then x else xs ! (j - 1))"
  by (auto simp: insert_at_def nth_append nth_Cons' min_def)

lemma length_blit [simp]: "d + n \<le> length dst \<Longrightarrow> s + n \<le> length src \<Longrightarrow> length (blit dst d src s n) = length dst"
  by (simp add: blit_def)

lemma blit_nth:
  "d + n \<le> length dst \<Longrightarrow> s + n \<le> length src \<Longrightarrow> i < length dst \<Longrightarrow>
     blit dst d src s n ! i = (if d \<le> i \<and> i < d + n then src ! (s + (i - d)) else dst ! i)"
proof -
  assume a: "d + n \<le> length dst" "s + n \<le> length src" "i < length dst"
  then have l: "length (take d dst) = d" "length (take n (drop s src)) = n" by auto
  show ?thesis unfolding blit_def nth_append l using a by auto
qed

lemma shift_up_loop:
  "b \<le> a \<Longrightarrow> k \<le> b \<Longrightarrow> a < length c \<Longrightarrow>
     length (shift_up_loop a b k c) = length c \<and>
     (\<forall>i < length c. shift_up_loop a b k c ! i = (if a - k < i \<and> i \<le> a then c ! (i - (a - b)) else c ! i))"
proof (induction k arbitrary: a b c)
  case (Suc k)
  show ?case
  proof (cases "k = 0")
    case True
    then show ?thesis using Suc.prems by (auto simp: nth_list_update)
  next
    case False
    have "length (shift_up_loop (a - 1) (b - 1) k (c[a := c ! b])) = length (c[a := c ! b]) \<and>
       (\<forall>i < length (c[a := c ! b]). shift_up_loop (a - 1) (b - 1) k (c[a := c ! b]) ! i =
          (if a - 1 - k < i \<and> i \<le> a - 1 then (c[a := c ! b]) ! (i - (a - 1 - (b - 1))) else (c[a := c ! b]) ! i))"
      using Suc.prems False by (intro Suc.IH) auto
    moreover have "a - 1 - (b - 1) = a - b" using Suc.prems by auto
    ultimately show ?thesis using Suc.prems by (auto simp: nth_list_update)
  qed
qed simp

lemma shift_down_loop:
  "a \<le> b \<Longrightarrow> b + k \<le> length c \<Longrightarrow>
     length (shift_down_loop a b k c) = length c \<and>
     (\<forall>i < length c. shift_down_loop a b k c ! i = (if a \<le> i \<and> i < a + k then c ! (i + (b - a)) else c ! i))"
proof (induction k arbitrary: a b c)
  case (Suc k)
  have "length (shift_down_loop (a + 1) (b + 1) k (c[a := c ! b])) = length (c[a := c ! b]) \<and>
     (\<forall>i < length (c[a := c ! b]). shift_down_loop (a + 1) (b + 1) k (c[a := c ! b]) ! i =
        (if a + 1 \<le> i \<and> i < a + 1 + k then (c[a := c ! b]) ! (i + (b + 1 - (a + 1))) else (c[a := c ! b]) ! i))"
    using Suc.prems by (intro Suc.IH) auto
  moreover have "b + 1 - (a + 1) = b - a" by simp
  moreover have "c ! b = c ! (i + b - a)" if "\<not> Suc a \<le> i" "a \<le> i" for i
  proof -
    have "i = a" using that by simp
    with Suc.prems(1) show ?thesis by simp
  qed
  ultimately show ?case using Suc.prems by (auto simp: nth_list_update)
qed simp

lemma in_lengths: "in_ok n \<Longrightarrow> length (in_keys n) = in_nkeys n \<and> length (in_children n) = in_nkeys n + 1"
  by (simp add: in_ok_def in_keys_def in_children_def)

lemma insert_node:
  assumes ok: "in_ok n" and kp: "kp \<le> in_nkeys n" "in_nkeys n < internode_width"
  shows "in_ok (in_insert n kp ikey child)" and "in_keys (in_insert n kp ikey child) = insert_at kp ikey (in_keys n)"
    and "in_children (in_insert n kp ikey child) = insert_at (kp + 1) child (in_children n)"
    and "in_parent (in_insert n kp ikey child) = in_parent n" and "in_version (in_insert n kp ikey child) = in_version n"
proof -
  let ?k = "in_nkeys n - kp"
  define c where "c = shift_up_loop (kp + 1 + ?k) (kp + ?k) ?k (in_child n)"
  define b where "b = blit (in_ikey0 n) (kp + 1) (in_ikey0 n) kp ?k"
  have eq: "in_insert n kp ikey child = n\<lparr>in_ikey0 := b[kp := ikey], in_child := c[kp + 1 := child], in_nkeys := in_nkeys n + 1\<rparr>"
    by (simp add: in_insert_def in_assign_def in_shift_up_def Let_def b_def c_def)
  have lens: "length (in_ikey0 n) = internode_width" "length (in_child n) = internode_width + 1" using ok by (simp_all add: in_ok_def)
  have c: "length c = internode_width + 1"
      "\<forall>i < internode_width + 1. c ! i = (if kp + 1 < i \<and> i \<le> in_nkeys n + 1 then in_child n ! (i - 1) else in_child n ! i)"
    using shift_up_loop [of "kp + ?k" "kp + 1 + ?k" ?k "in_child n"] kp lens(2) by (simp_all add: c_def)
  have b: "length b = internode_width"
      "\<forall>i < internode_width. b ! i = (if kp + 1 \<le> i \<and> i < in_nkeys n + 1 then in_ikey0 n ! (i - 1) else in_ikey0 n ! i)"
    using blit_nth [of "kp + 1" ?k "in_ikey0 n" kp "in_ikey0 n"] kp lens(1) by (auto simp: b_def)
  show "in_ok (in_insert n kp ikey child)" using b(1) c(1) kp by (simp add: in_ok_def eq)
  have l: "length (in_keys n) = in_nkeys n" "length (in_children n) = in_nkeys n + 1" using in_lengths [OF ok] by auto
  show "in_keys (in_insert n kp ikey child) = insert_at kp ikey (in_keys n)"
  proof (rule nth_equalityI)
    show "length (in_keys (in_insert n kp ikey child)) = length (insert_at kp ikey (in_keys n))"
      using b(1) kp l by (simp add: in_keys_def eq)
    fix i
    assume "i < length (in_keys (in_insert n kp ikey child))"
    then have i: "i \<le> in_nkeys n" "i < internode_width" using b(1) kp by (simp_all add: in_keys_def eq)
    then show "in_keys (in_insert n kp ikey child) ! i = insert_at kp ikey (in_keys n) ! i"
      using b kp l by (auto simp: insert_at_nth) (auto simp: in_keys_def eq nth_list_update)
  qed
  show "in_children (in_insert n kp ikey child) = insert_at (kp + 1) child (in_children n)"
  proof (rule nth_equalityI)
    show "length (in_children (in_insert n kp ikey child)) = length (insert_at (kp + 1) child (in_children n))"
      using c(1) kp l by (simp add: in_children_def eq)
    fix i
    assume "i < length (in_children (in_insert n kp ikey child))"
    then have i: "i \<le> in_nkeys n + 1" "i < internode_width + 1" using c(1) kp by (simp_all add: in_children_def eq)
    then show "in_children (in_insert n kp ikey child) ! i = insert_at (kp + 1) child (in_children n) ! i"
      using c kp l by (auto simp: insert_at_nth) (auto simp: in_children_def eq nth_list_update)
  qed
  show "in_parent (in_insert n kp ikey child) = in_parent n" "in_version (in_insert n kp ikey child) = in_version n"
    by (simp_all add: eq)
qed

lemma shift_from_effect:
  assumes "in_ok nr" "length (in_ikey0 n) = internode_width" "length (in_child n) = internode_width + 1"
    and "p + k \<le> internode_width" "xp + k \<le> internode_width"
  shows "length (in_ikey0 (in_shift_from nr p n xp k)) = internode_width"
    and "length (in_child (in_shift_from nr p n xp k)) = internode_width + 1"
    and "in_nkeys (in_shift_from nr p n xp k) = in_nkeys nr"
    and "i < internode_width \<Longrightarrow> in_ikey0 (in_shift_from nr p n xp k) ! i =
      (if p \<le> i \<and> i < p + k then in_ikey0 n ! (xp + (i - p)) else in_ikey0 nr ! i)"
    and "i < internode_width + 1 \<Longrightarrow> in_child (in_shift_from nr p n xp k) ! i =
      (if p + 1 \<le> i \<and> i < p + 1 + k then in_child n ! (xp + (i - p)) else in_child nr ! i)"
proof -
  show "i < internode_width + 1 \<Longrightarrow> in_child (in_shift_from nr p n xp k) ! i =
      (if p + 1 \<le> i \<and> i < p + 1 + k then in_child n ! (xp + (i - p)) else in_child nr ! i)"
  proof (cases "p + 1 \<le> i")
    case True
    then have "xp + 1 + (i - (p + 1)) = xp + (i - p)" by linarith
    then show "i < internode_width + 1 \<Longrightarrow> ?thesis" using assms True by (auto simp: in_shift_from_def in_ok_def blit_nth)
  qed (use assms in \<open>auto simp: in_shift_from_def in_ok_def blit_nth\<close>)
qed (use assms in \<open>auto simp: in_shift_from_def in_ok_def blit_nth\<close>)

section \<open>Splitting\<close>

lemma take_insert_at:
  "p < m \<Longrightarrow> m \<le> length xs + 1 \<Longrightarrow> take m (insert_at p x xs) = insert_at p x (take (m - 1) xs)"
  by (cases m) (auto simp: insert_at_def take_Cons' min_def drop_take)

lemma take_insert_at_before: "m \<le> p \<Longrightarrow> p \<le> length xs \<Longrightarrow> take m (insert_at p x xs) = take m xs"
  by (simp add: insert_at_def)

lemma insert_at_after: "p < i \<Longrightarrow> i \<le> length xs \<Longrightarrow> insert_at p x xs ! i = xs ! (i - 1)"
  by (simp add: insert_at_nth)

lemma insert_at_eq: "p \<le> length xs \<Longrightarrow> insert_at p x xs ! p = x"
  by (simp add: insert_at_nth)

lemma in_nodeI:
  assumes "length (in_ikey0 n) = internode_width" "length (in_child n) = internode_width + 1"
    and "in_nkeys n = internode_width - m" "m \<le> internode_width" "length ks = internode_width + 1" "length vs = internode_width + 2"
    and "\<And>i. i < internode_width - m \<Longrightarrow> in_ikey0 n ! i = ks ! (m + 1 + i)"
    and "\<And>i. i \<le> internode_width - m \<Longrightarrow> in_child n ! i = vs ! (m + 1 + i)"
  shows "in_ok n" and "in_keys n = drop (m + 1) ks" and "in_children n = drop (m + 1) vs"
proof -
  show "in_ok n" using assms by (simp add: in_ok_def)
  show "in_keys n = drop (m + 1) ks"
    by (rule nth_equalityI) (use assms in \<open>auto simp: in_keys_def\<close>)
  show "in_children n = drop (m + 1) vs"
    by (rule nth_equalityI) (use assms in \<open>auto simp: in_children_def less_Suc_eq_le\<close>)
qed

definition in_split_mid :: "nat \<Rightarrow> nat" where
  "in_split_mid split_type = (if split_type = 2 then internode_width else (internode_width + 1) div 2)"

lemma split_right:
  assumes ok: "in_ok n" "in_nkeys n = internode_width" "in_ok nr" "p \<le> internode_width"
    and res: "in_split_into n nr p ka v st = (r, n', nr', sep)"
    and mid: "mid = in_split_mid st"
    and ks: "ks = insert_at p ka (in_keys n)" and vs: "vs = insert_at (p + 1) v (in_children n)"
  shows "in_ok nr'" "in_keys nr' = drop (mid + 1) ks" "in_children nr' = drop (mid + 1) vs" "sep = ks ! mid"
proof -
  have m: "1 \<le> mid" "mid \<le> internode_width" by (auto simp: mid in_split_mid_def)
  have lens: "length (in_ikey0 n) = internode_width" "length (in_child n) = internode_width + 1"
    "length (in_ikey0 nr) = internode_width" "length (in_child nr) = internode_width + 1"
    using ok by (simp_all add: in_ok_def)
  have eqs: "in_keys n = in_ikey0 n" "in_children n = in_child n"
    using lens ok(2) by (simp_all add: in_keys_def in_children_def)
  have len: "length ks = internode_width + 1" "length vs = internode_width + 2"
    using lens ok(4) by (simp_all add: ks vs eqs)
  let ?nr0 = "nr\<lparr>in_nkeys := internode_width - mid\<rparr>"
  have mideq: "(if st = 2 then internode_width else (internode_width + 1) div 2) = mid" by (simp add: mid in_split_mid_def)
  note res' = res [unfolded in_split_into_def Let_def mideq]
  consider "p < mid" | "p = mid" | "mid < p" by linarith
  then have "in_ok nr' \<and> in_keys nr' = drop (mid + 1) ks \<and> in_children nr' = drop (mid + 1) vs \<and> sep = ks ! mid"
  proof cases
    case 1
    define x where "x = ?nr0\<lparr>in_child := (in_child nr)[0 := in_child n ! mid]\<rparr>"
    have x: "in_ok x" using lens m by (simp add: x_def in_ok_def)
    have nr: "nr' = in_shift_from x 0 n mid (internode_width - mid)" and sep: "sep = in_ikey0 n ! (mid - 1)"
      using res' 1 by (auto simp: x_def)
    note e = shift_from_effect [OF x lens(1,2), of 0 "internode_width - mid" mid, folded nr]
    have v: "in_child nr' ! i = vs ! (mid + 1 + i)" if "i \<le> internode_width - mid" for i
      using e(5) [of i] that 1 m lens by (cases "i = 0") (auto simp: x_def vs eqs insert_at_after)
    have "in_ok nr' \<and> in_keys nr' = drop (mid + 1) ks \<and> in_children nr' = drop (mid + 1) vs"
      by (intro conjI in_nodeI [of nr' mid ks vs])
        (use e v m len lens 1 in \<open>auto simp: x_def ks eqs insert_at_after\<close>)
    moreover have "sep = ks ! mid" using 1 m lens by (simp add: sep ks eqs insert_at_after)
    ultimately show ?thesis by simp
  next
    case 2
    define x where "x = ?nr0\<lparr>in_child := (in_child nr)[0 := v]\<rparr>"
    have x: "in_ok x" using lens m by (simp add: x_def in_ok_def)
    have nr: "nr' = in_shift_from x 0 n mid (internode_width - mid)" and sep: "sep = ka"
      using res' 2 by (auto simp: x_def)
    note e = shift_from_effect [OF x lens(1,2), of 0 "internode_width - mid" mid, folded nr]
    have v: "in_child nr' ! i = vs ! (mid + 1 + i)" if "i \<le> internode_width - mid" for i
      using e(5) [of i] that 2 m lens by (cases "i = 0") (auto simp: x_def vs eqs insert_at_after insert_at_eq)
    have "in_ok nr' \<and> in_keys nr' = drop (mid + 1) ks \<and> in_children nr' = drop (mid + 1) vs"
      by (intro conjI in_nodeI [of nr' mid ks vs])
        (use e v m len lens 2 in \<open>auto simp: x_def ks eqs insert_at_after\<close>)
    moreover have "sep = ks ! mid" using 2 m lens by (simp add: sep ks eqs insert_at_eq)
    ultimately show ?thesis by simp
  next
    case 3
    define x where "x = ?nr0\<lparr>in_child := (in_child nr)[0 := in_child n ! (mid + 1)]\<rparr>"
    define y where "y = in_shift_from x 0 n (mid + 1) (p - (mid + 1))"
    define z where "z = in_assign y (p - (mid + 1)) ka v"
    have x: "in_ok x" using lens m by (simp add: x_def in_ok_def)
    note e1 = shift_from_effect [OF x lens(1,2), of 0 "p - (mid + 1)" "mid + 1", folded y_def]
    have b1: "0 + (p - (mid + 1)) \<le> internode_width" "mid + 1 + (p - (mid + 1)) \<le> internode_width" using 3 ok(4) by auto
    note e1 = e1 [OF b1]
    have z: "in_ok z" using e1(1-3) m by (simp add: z_def in_assign_def in_ok_def x_def)
    have nr: "nr' = in_shift_from z (p + 1 - (mid + 1)) n p (internode_width - p)" and sep: "sep = in_ikey0 n ! mid"
      using res' 3 by (auto simp: x_def y_def z_def)
    have b2: "p + 1 - (mid + 1) + (internode_width - p) \<le> internode_width" "p + (internode_width - p) \<le> internode_width"
      using 3 ok(4) m by auto
    note e2 = shift_from_effect [OF z lens(1,2) b2, folded nr]
    have k: "in_ikey0 nr' ! i = ks ! (mid + 1 + i)" if i: "i < internode_width - mid" for i
    proof -
      consider "p - mid \<le> i" | "i = p - (mid + 1)" | "i < p - (mid + 1)" using 3 by linarith
      then show ?thesis
      proof cases
        case 1
        then have "in_ikey0 nr' ! i = in_ikey0 n ! (mid + i)" using e2(4) [of i] i m 3 by (simp add: add.commute)
        then show ?thesis using 1 3 i lens by (simp add: ks eqs insert_at_after)
      next
        case 2
        then have "in_ikey0 nr' ! i = in_ikey0 z ! i" using e2(4) [of i] i m 3 by auto
        also have "\<dots> = ka" using 2 i m e1(1) by (simp add: z_def in_assign_def)
        finally have "in_ikey0 nr' ! i = ka" .
        then show ?thesis using 2 3 ok(4) lens by (simp add: ks eqs insert_at_nth)
      next
        case c: 3
        then have "in_ikey0 nr' ! i = in_ikey0 z ! i" using e2(4) [of i] i m 3 by auto
        also have "\<dots> = in_ikey0 y ! i" using c i by (simp add: z_def in_assign_def)
        also have "\<dots> = in_ikey0 n ! (mid + 1 + i)" using e1(4) [of i] c i m by simp
        finally have "in_ikey0 nr' ! i = in_ikey0 n ! (mid + 1 + i)" .
        moreover have "mid + 1 + i < p" using c 3 by linarith
        ultimately show ?thesis using 3 i ok(4) lens by (auto simp: ks eqs insert_at_nth)
      qed
    qed
    have v: "in_child nr' ! i = vs ! (mid + 1 + i)" if i: "i \<le> internode_width - mid" for i
    proof -
      consider "p - mid + 1 \<le> i" | "i = p - mid" | "i < p - mid" using 3 by linarith
      then show ?thesis
      proof cases
        case 1
        then have "in_child nr' ! i = in_child n ! (mid + i)" using e2(5) [of i] i m 3 by (simp add: add.commute)
        then show ?thesis using 1 3 i lens by (simp add: vs eqs insert_at_after)
      next
        case 2
        then have "in_child nr' ! i = in_child z ! i" using e2(5) [of i] i m 3 by auto
        also have "\<dots> = v"
        proof -
          have "p - (mid + 1) + 1 = p - mid" using 3 by linarith
          then show ?thesis using 2 i m e1(2) by (simp add: z_def in_assign_def)
        qed
        finally have "in_child nr' ! i = v" .
        then show ?thesis using 2 3 ok(4) lens by (simp add: vs eqs insert_at_nth)
      next
        case c: 3
        then have "in_child nr' ! i = in_child z ! i" using e2(5) [of i] i m 3 by auto
        also have "\<dots> = in_child y ! i" using c 3 by (simp add: z_def in_assign_def)
        also have "\<dots> = in_child n ! (mid + 1 + i)" using e1(5) [of i] c i m 3 lens by (cases "i = 0") (auto simp: x_def)
        finally show ?thesis using c 3 i ok(4) lens by (auto simp: vs eqs insert_at_nth)
      qed
    qed
    have "in_ok nr' \<and> in_keys nr' = drop (mid + 1) ks \<and> in_children nr' = drop (mid + 1) vs"
      by (intro conjI in_nodeI [of nr' mid ks vs])
        (use e2(1-3) e1(3) k v m len in \<open>auto simp: z_def in_assign_def x_def\<close>)
    moreover have "sep = ks ! mid" using 3 m lens ok(4) by (simp add: sep ks eqs insert_at_nth)
    ultimately show ?thesis by simp
  qed
  then show "in_ok nr'" "in_keys nr' = drop (mid + 1) ks" "in_children nr' = drop (mid + 1) vs" "sep = ks ! mid" by simp_all
qed

lemma in_keys_cut:
  assumes "in_ok n" "k \<le> in_nkeys n"
  shows "in_ok (n\<lparr>in_version := ver, in_nkeys := k\<rparr>)"
    and "in_keys (n\<lparr>in_version := ver, in_nkeys := k\<rparr>) = take k (in_keys n)"
    and "in_children (n\<lparr>in_version := ver, in_nkeys := k\<rparr>) = take (k + 1) (in_children n)"
  using assms by (auto simp: in_ok_def in_keys_def in_children_def min_def)

text \<open>The insertion into the left node, where the split left it to do.\<close>

definition in_split_insert ::
  "internode \<Rightarrow> internode \<Rightarrow> nat \<Rightarrow> u64 \<Rightarrow> u64 \<Rightarrow> nat \<Rightarrow> internode \<times> internode \<times> u64" where
  "in_split_insert n nr kp ka v split_type =
     (case in_split_into n nr kp ka v split_type of
        (Some kp, n, nr, split_ikey) \<Rightarrow> (in_insert n kp ka v, nr, split_ikey)
      | (None, n, nr, split_ikey) \<Rightarrow> (n, nr, split_ikey))"

lemma split_insert_node:
  assumes ok: "in_ok n" "in_nkeys n = internode_width" "in_ok nr" "kp \<le> internode_width"
    and res: "in_split_insert n nr kp ka v st = (nl, nr', sep)"
  shows "in_ok nl" "in_ok nr'"
    and "in_keys nl @ sep # in_keys nr' = insert_at kp ka (in_keys n)"
    and "in_children nl @ in_children nr' = insert_at (kp + 1) v (in_children n)"
    and "in_nkeys nl = in_split_mid st"
    and "in_version nl = sv_mark_split nodeversion32_parameters (in_version n)"
proof -
  define mid where "mid = in_split_mid st"
  have m: "1 \<le> mid" "mid \<le> internode_width" by (auto simp: mid_def in_split_mid_def)
  have mideq: "(if st = 2 then internode_width else (internode_width + 1) div 2) = mid" by (simp add: mid_def in_split_mid_def)
  obtain r n1 nr1 sep1 where sp: "in_split_into n nr kp ka v st = (r, n1, nr1, sep1)" by (metis prod_cases4)
  note right = split_right [OF ok sp mid_def refl refl]
  define ver where "ver = sv_mark_split nodeversion32_parameters (in_version n)"
  define ks where "ks = insert_at kp ka (in_keys n)"
  define vs where "vs = insert_at (kp + 1) v (in_children n)"
  have lens: "length (in_keys n) = internode_width" "length (in_children n) = internode_width + 1"
    using in_lengths [OF ok(1)] ok(2) by simp_all
  have len: "length ks = internode_width + 1" "length vs = internode_width + 2"
    using lens ok(4) by (simp_all add: ks_def vs_def)
  have eqr: "nr' = nr1" "sep = sep1" using res by (auto simp: in_split_insert_def sp split: option.splits)
  have left: "in_ok nl \<and> in_keys nl = take mid ks \<and> in_children nl = take (mid + 1) vs \<and> in_nkeys nl = mid \<and> in_version nl = ver"
  proof (cases "kp < mid")
    case True
    let ?n1 = "n\<lparr>in_version := ver, in_nkeys := mid - 1\<rparr>"
    have n1: "nl = in_insert ?n1 kp ka v"
      using res sp True
      unfolding in_split_insert_def in_split_into_def Let_def mideq ver_def by auto
    note cut = in_keys_cut [OF ok(1), of "mid - 1" ver]
    have b: "mid - 1 \<le> in_nkeys n" "kp \<le> in_nkeys ?n1" "in_nkeys ?n1 < internode_width" using ok(2) m True by auto
    note ins = insert_node [OF cut(1) [OF b(1)] b(2,3), of ka v, folded n1]
    have "in_keys nl = take mid ks"
      using ins(2) cut(2) [OF b(1)] True m lens by (simp add: ks_def take_insert_at)
    moreover have "in_children nl = take (mid + 1) vs"
      using ins(3) cut(3) [OF b(1)] True m lens by (simp add: vs_def take_insert_at)
    moreover have "in_nkeys nl = mid" using m by (simp add: n1 in_insert_def in_assign_def in_shift_up_def Let_def)
    ultimately show ?thesis using ins(1,5) by simp
  next
    case False
    let ?n1 = "n\<lparr>in_version := ver, in_nkeys := mid\<rparr>"
    have n1: "nl = ?n1"
      using res sp False
      unfolding in_split_insert_def in_split_into_def Let_def mideq ver_def by auto
    have b: "mid \<le> in_nkeys n" using ok(2) m by simp
    show ?thesis
      using in_keys_cut [OF ok(1) b, of ver] False ok(4) lens
      by (simp add: n1 ks_def vs_def take_insert_at_before)
  qed
  have "in_keys nl @ sep # in_keys nr' = take mid ks @ ks ! mid # drop (Suc mid) ks"
    using left right(2,4) by (simp add: eqr ks_def)
  also have "\<dots> = ks" using m len by (intro id_take_nth_drop [symmetric]) simp
  finally show "in_keys nl @ sep # in_keys nr' = insert_at kp ka (in_keys n)" by (simp add: ks_def)
  have "in_children nl @ in_children nr' = take (mid + 1) vs @ drop (mid + 1) vs"
    using left right(3) by (simp add: eqr vs_def)
  then show "in_children nl @ in_children nr' = insert_at (kp + 1) v (in_children n)" by (simp add: vs_def)
  show "in_ok nl" "in_ok nr'" "in_nkeys nl = in_split_mid st"
    "in_version nl = sv_mark_split nodeversion32_parameters (in_version n)"
    using left right(1) by (simp_all add: eqr mid_def ver_def)
qed

section \<open>Searching\<close>

definition in_sorted :: "internode \<Rightarrow> bool" where
  "in_sorted n \<longleftrightarrow> in_ok n \<and> sorted_wrt (<) (in_keys n)"

lemma in_keys_nth: "i < in_nkeys n \<Longrightarrow> in_keys n ! i = in_ikey0 n ! i"
  by (simp add: in_keys_def)

interpretation node_search: searchable_node "\<lambda>a n. in_sorted n" "\<lambda>n. [0..<in_nkeys n]" in_compare
proof
  fix a :: u64 and n i j
  assume s: "in_sorted n" and ij: "i < j" "j < length [0..<in_nkeys n]"
    and ge: "0 \<le> in_compare a n ([0..<in_nkeys n] ! j)"
  have "length (in_keys n) = in_nkeys n" using s in_lengths by (simp add: in_sorted_def)
  then have "in_ikey0 n ! i < in_ikey0 n ! j"
    using s ij in_keys_nth [of i n] in_keys_nth [of j n] by (simp add: in_sorted_def sorted_wrt_iff_nth_less) (metis)
  moreover have "in_ikey0 n ! j \<le> a" using ge ij by (auto simp: in_compare_def compare_def split: if_splits)
  ultimately have "in_ikey0 n ! i < a" by simp
  then show "0 < in_compare a n ([0..<in_nkeys n] ! i)" using ij by (auto simp: in_compare_def compare_def)
qed

lemma upper_spec:
  assumes "in_ok n" "sorted_wrt (<) (in_keys n)"
  shows "in_upper a n \<le> in_nkeys n" and "i < in_upper a n \<Longrightarrow> in_keys n ! i \<le> a"
    and "in_upper a n \<le> i \<Longrightarrow> i < in_nkeys n \<Longrightarrow> a < in_keys n ! i"
proof -
  have "is_upper (in_compare a n) [0..<in_nkeys n] (in_upper a n)"
    unfolding in_upper_def by (rule node_search.upper_bound_spec) (simp add: in_sorted_def assms)
  then show "in_upper a n \<le> in_nkeys n" "i < in_upper a n \<Longrightarrow> in_keys n ! i \<le> a"
      "in_upper a n \<le> i \<Longrightarrow> i < in_nkeys n \<Longrightarrow> a < in_keys n ! i"
    by (auto simp: is_upper_def in_compare_def compare_def in_keys_nth not_le split: if_splits)
qed

text \<open>
  The search among the separators of an inner node counts those that are at most the
  slice looked for, so it picks the child whose range the slice falls into.
\<close>

theorem internode_search_correct:
  assumes "in_ok n" "sorted_wrt (<) (in_keys n)"
  shows "in_upper a n = length (takeWhile (\<lambda>x. x \<le> a) (in_keys n))"
proof -
  have len: "length (in_keys n) = in_nkeys n" using assms(1) in_lengths by simp
  note u = upper_spec [OF assms, where a = a]
  have "takeWhile (\<lambda>x. x \<le> a) (in_keys n) = take (in_upper a n) (in_keys n)"
    by (rule takeWhile_eq_take_P_nth) (use u len in \<open>auto simp: not_le\<close>)
  then show ?thesis using u(1) len by simp
qed

definition full_node :: internode where
  "full_node = \<lparr>in_version = 0, in_nkeys = 15, in_ikey0 = map (\<lambda>i. word_of_nat (2 * i)) [0..<15],
     in_child = map (\<lambda>i. word_of_nat (100 + i)) [0..<16], in_parent = 0\<rparr>"

lemma full_node_ok: "in_ok full_node" "sorted_wrt (<) (in_keys full_node)" "in_nkeys full_node = 15"
  by (simp_all add: full_node_def in_ok_def in_keys_def upt_rec)

theorem internode_search_correct_witness: "in_upper 7 full_node = 4"
  using internode_search_correct [OF full_node_ok(1,2), of 7]
  by (simp add: full_node_def in_keys_def upt_rec)

text \<open>
  C30: Inserting into an inner node puts the separator at its position and the child right after
  it; the other separators and children keep their order. A full node is split into two whose
  separators, with the one passed up between them, and whose children are those of the node
  after such an insertion.
\<close>

theorem internode_insert_correct:
  assumes "in_ok n" "in_ok nr" "kp \<le> in_nkeys n"
  shows "if in_nkeys n < internode_width then
      in_ok (in_insert n kp ikey child) \<and>
      in_keys (in_insert n kp ikey child) = insert_at kp ikey (in_keys n) \<and>
      in_children (in_insert n kp ikey child) = insert_at (kp + 1) child (in_children n)
    else (case in_split_insert n nr kp ikey child split_type of (nl, nr', sep) \<Rightarrow>
      in_ok nl \<and> in_ok nr' \<and> in_nkeys nl + in_nkeys nr' = internode_width \<and>
      in_keys nl @ sep # in_keys nr' = insert_at kp ikey (in_keys n) \<and>
      in_children nl @ in_children nr' = insert_at (kp + 1) child (in_children n))"
proof (cases "in_nkeys n < internode_width")
  case True
  then show ?thesis using insert_node [OF assms(1,3)] by simp
next
  case False
  then have full: "in_nkeys n = internode_width" using assms(1) by (simp add: in_ok_def)
  then have kp: "kp \<le> internode_width" using assms(3) by simp
  obtain nl nr' sep where sp: "in_split_insert n nr kp ikey child split_type = (nl, nr', sep)" by (metis prod_cases3)
  note s = split_insert_node [OF assms(1) full assms(2) kp sp]
  have "length (in_keys nl @ sep # in_keys nr') = internode_width + 1"
    using in_lengths [OF assms(1)] assms(3) full by (simp only: s(3)) simp
  then have "in_nkeys nl + in_nkeys nr' = internode_width" using in_lengths [OF s(1)] in_lengths [OF s(2)] by simp
  with s(1-4) full sp show ?thesis by simp
qed

theorem internode_insert_correct_witness:
  "case in_split_insert full_node full_node 4 7 999 0 of (nl, nr, sep) \<Rightarrow>
     in_keys nl @ sep # in_keys nr = insert_at 4 7 (in_keys full_node)"
proof -
  have kp: "(4 :: nat) \<le> in_nkeys full_node" by (simp add: full_node_ok)
  show ?thesis
    using internode_insert_correct [OF full_node_ok(1) full_node_ok(1) kp, of 7 999 0] by (auto simp: full_node_ok(3))
qed

end
