(* ===== verification/Dyn_Heap.thy ===== *)
theory Dyn_Heap
  imports Leaf_Split Internode
begin

text \<open>
  The dynamic stage as a heap of nodes: what \<^verbatim>\<open>node_base\<close> and \<^verbatim>\<open>basic_table\<close> of
  \<^verbatim>\<open>hybrid_index/masstree_struct.hh\<close> do along the pointers of the tree, and the lookup of
  \<^verbatim>\<open>masstree_get.hh\<close>, in the configuration of the repository, where nodes carry a
  single-threaded version: it never changes under a reader, locking does nothing.

  A layer is a B+tree of inner nodes and leaves; a slot of a leaf may hold the root of the layer
  below. When a root splits, the pointers that lead to it are not updated at once: they lead to a
  node of the left spine, and readers climb from there to the root (\<^verbatim>\<open>unsplit_ancestor\<close>). A
  \<open>dtree\<close> is the ghost of a layer and all layers below, \<open>holds\<close> says that a heap contains it,
  \<open>dt_ok\<close> and \<open>dt_root\<close> that it is well-formed, and \<open>dt_stores\<close> what it maps a string to. A
  lookup returns what is stored, from every pointer to the left spine.
\<close>

section \<open>Nodes in a heap\<close>

datatype dnode = Leaf_Node leaf | Inter_Node internode

type_synonym dheap = "u64 \<Rightarrow> dnode option"

definition nd_version :: "dnode \<Rightarrow> u32" where
  "nd_version x = (case x of Leaf_Node l \<Rightarrow> lf_version l | Inter_Node n \<Rightarrow> in_version n)"

text \<open>The flag is set by the constructors and never changed.\<close>

definition nd_isleaf :: "dnode \<Rightarrow> bool" where
  "nd_isleaf x = (case x of Leaf_Node l \<Rightarrow> True | Inter_Node n \<Rightarrow> False)"

definition nd_has_split :: "dnode \<Rightarrow> bool" where
  "nd_has_split x = nv_nonroot nodeversion32_parameters (nd_version x)"

definition nd_size :: "dnode \<Rightarrow> nat" where
  "nd_size x = (case x of Leaf_Node l \<Rightarrow> lf_size l | Inter_Node n \<Rightarrow> in_size n)"

definition nd_parent :: "dnode \<Rightarrow> u64" where
  "nd_parent x = (case x of Leaf_Node l \<Rightarrow> lf_parent l | Inter_Node n \<Rightarrow> in_parent n)"

definition parent_exists :: "u64 \<Rightarrow> bool" where
  "parent_exists p \<longleftrightarrow> p \<noteq> 0"

definition nd_has_parent :: "dnode \<Rightarrow> bool" where
  "nd_has_parent x \<longleftrightarrow> parent_exists (nd_parent x)"

definition nd_set_parent :: "u64 \<Rightarrow> dnode \<Rightarrow> dnode" where
  "nd_set_parent p x =
     (case x of Leaf_Node l \<Rightarrow> Leaf_Node (l\<lparr>lf_parent := p\<rparr>) | Inter_Node n \<Rightarrow> Inter_Node (n\<lparr>in_parent := p\<rparr>))"

text \<open>
  Walks along pointers. \<open>None\<close>: the walk has no end or meets an address that holds no node.
\<close>

partial_function (option) unsplit_ancestor :: "dheap \<Rightarrow> u64 \<Rightarrow> u64 option" where
  "unsplit_ancestor h x =
     (case h x of None \<Rightarrow> None
      | Some n \<Rightarrow> if nd_has_split n \<and> nd_parent n \<noteq> 0 then unsplit_ancestor h (nd_parent n) else Some x)"

partial_function (option) leftmost_loop :: "dheap \<Rightarrow> u64 \<Rightarrow> u64 option" where
  "leftmost_loop h x =
     (case h x of None \<Rightarrow> None
      | Some (Leaf_Node l) \<Rightarrow> Some x
      | Some (Inter_Node n) \<Rightarrow> leftmost_loop h (in_child n ! 0))"

definition leftmost :: "dheap \<Rightarrow> u64 \<Rightarrow> u64 option" where
  "leftmost h x = (case unsplit_ancestor h x of None \<Rightarrow> None | Some x \<Rightarrow> leftmost_loop h x)"

definition lf_safe_next :: "leaf \<Rightarrow> u64" where
  "lf_safe_next l = lf_next l AND NOT 1"

text \<open>The first loop of \<^verbatim>\<open>reach_leaf\<close>: a root that never split.\<close>

partial_function (option) reach_root :: "dheap \<Rightarrow> u64 \<Rightarrow> u64 option" where
  "reach_root h x =
     (case h x of None \<Rightarrow> None
      | Some n \<Rightarrow>
        if nd_has_split n
        then (case unsplit_ancestor h x of None \<Rightarrow> None | Some x \<Rightarrow> reach_root h x)
        else Some x)"

text \<open>The second loop; a null child sends it back to the start.\<close>

partial_function (option) reach_loop :: "dheap \<Rightarrow> u64 \<Rightarrow> u64 \<Rightarrow> u64 \<Rightarrow> u64 option" where
  "reach_loop h ikey root x =
     (case h x of None \<Rightarrow> None
      | Some (Leaf_Node l) \<Rightarrow> Some x
      | Some (Inter_Node n) \<Rightarrow>
        (let child = in_child n ! in_upper ikey n in
         if child = 0
         then (case reach_root h root of None \<Rightarrow> None | Some x \<Rightarrow> reach_loop h ikey root x)
         else if h child = None then None
         else reach_loop h ikey root child))"

definition reach_leaf :: "dheap \<Rightarrow> mkey \<Rightarrow> u64 \<Rightarrow> u64 option" where
  "reach_leaf h ka root =
     (case reach_root h root of None \<Rightarrow> None | Some x \<Rightarrow> reach_loop h (k_ikey0 ka) root x)"

section \<open>Tables and lookup\<close>

record dtable =
  tb_root :: u64
  tb_heap :: dheap

definition tb_fix_root :: "dtable \<Rightarrow> (dtable \<times> u64) option" where
  "tb_fix_root t =
     (case tb_heap t (tb_root t) of None \<Rightarrow> None
      | Some n \<Rightarrow>
        if nd_has_split n
        then map_option (\<lambda>root. (t\<lparr>tb_root := root\<rparr>, root)) (unsplit_ancestor (tb_heap t) (tb_root t))
        else Some (t, tb_root t))"

text \<open>The value found, if any; one round of the loop per layer.\<close>

partial_function (option) find_unlocked :: "dheap \<Rightarrow> u64 \<Rightarrow> mkey \<Rightarrow> u64 option option" where
  "find_unlocked h root ka =
     (case reach_leaf h ka root of None \<Rightarrow> None
      | Some a \<Rightarrow>
        (case h a of
           Some (Leaf_Node n) \<Rightarrow>
             (let kp = ut_lower_bound_binary ka n in
              if kp < 0 then Some None
              else
                (let keylenx = lf_keylenx n ! nat kp; lv = lf_lv n ! nat kp;
                     ksuf_match = lf_ksuf_equals n (nat kp) ka keylenx in
                 if keylenx_is_layer keylenx then find_unlocked h lv (key_shift ka)
                 else Some (if ksuf_match then Some lv else None)))
         | _ \<Rightarrow> None))"

definition tb_get :: "dtable \<Rightarrow> mkey \<Rightarrow> (dtable \<times> u64 option) option" where
  "tb_get t ka =
     (case tb_fix_root t of None \<Rightarrow> None
      | Some (t, root) \<Rightarrow> map_option (\<lambda>r. (t, r)) (find_unlocked (tb_heap t) root ka))"

section \<open>Layers\<close>

text \<open>
  A leaf with the layers below it, one for each of its layer slots in order; an inner node with
  its children.
\<close>

datatype dtree = DL u64 leaf "dtree list" | DN u64 internode "dtree list"

fun dt_addr :: "dtree \<Rightarrow> u64" where
  "dt_addr (DL a l us) = a"
| "dt_addr (DN a n ts) = a"

fun dt_node :: "dtree \<Rightarrow> dnode" where
  "dt_node (DL a l us) = Leaf_Node l"
| "dt_node (DN a n ts) = Inter_Node n"

primrec dt_cells :: "dtree \<Rightarrow> (u64 \<times> dnode) list" where
  "dt_cells (DL a l us) = (a, Leaf_Node l) # concat (map dt_cells us)"
| "dt_cells (DN a n ts) = (a, Inter_Node n) # concat (map dt_cells ts)"

primrec dt_rows :: "dtree \<Rightarrow> node_slot list" where
  "dt_rows (DL a l us) = lf_rows l"
| "dt_rows (DN a n ts) = concat (map dt_rows ts)"

primrec dt_subs :: "dtree \<Rightarrow> dtree list" where
  "dt_subs (DL a l us) = us"
| "dt_subs (DN a n ts) = concat (map dt_subs ts)"

primrec dt_spine :: "dtree \<Rightarrow> (u64 \<times> dnode) list" where
  "dt_spine (DL a l us) = [(a, Leaf_Node l)]"
| "dt_spine (DN a n ts) = (a, Inter_Node n) # (case map dt_spine ts of [] \<Rightarrow> [] | s # _ \<Rightarrow> s)"

definition layer_rows :: "node_slot list \<Rightarrow> node_slot list" where
  "layer_rows rows = List.filter (\<lambda>r. keylenx_is_layer (slot_kl r)) rows"

definition points_into :: "node_slot \<Rightarrow> dtree \<Rightarrow> bool" where
  "points_into r t \<longleftrightarrow> slot_lv r \<in> fst ` set (dt_spine t)"

definition holds :: "dheap \<Rightarrow> dtree \<Rightarrow> bool" where
  "holds h t \<longleftrightarrow> (\<forall>(a, n) \<in> set (dt_cells t). h a = Some n \<and> a \<noteq> 0)"

text \<open>The root has never split and has no parent; all other nodes of the left spine were roots once.\<close>

definition dt_root :: "dtree \<Rightarrow> bool" where
  "dt_root t \<longleftrightarrow> nd_parent (dt_node t) = 0 \<and> \<not> nd_has_split (dt_node t) \<and>
     (\<forall>(a, n) \<in> set (tl (dt_spine t)). nd_has_split n)"

text \<open>The ranges of the children of a node with separators \<open>ks\<close>, given its own.\<close>

definition dt_ranges :: "nat \<Rightarrow> u64 list \<Rightarrow> nat \<Rightarrow> (nat \<times> nat) list" where
  "dt_ranges lo ks hi = zip (lo # map unat ks) (map unat ks @ [hi])"

function dt_ok :: "nat \<Rightarrow> nat \<Rightarrow> dtree \<Rightarrow> bool" where
  "dt_ok lo hi (DL a l us) \<longleftrightarrow>
     lf_sorted l \<and> (\<forall>r \<in> set (lf_rows l). lo \<le> unat (slot_ikey r) \<and> unat (slot_ikey r) < hi) \<and>
     list_all2 points_into (layer_rows (lf_rows l)) us \<and> (\<forall>u \<in> set us. dt_root u \<and> dt_ok 0 (2 ^ 64) u)"
| "dt_ok lo hi (DN a n ts) \<longleftrightarrow>
     in_ok n \<and> in_children n = map dt_addr ts \<and> sorted_wrt (<) (lo # map unat (in_keys n) @ [hi]) \<and>
     (\<forall>t \<in> set ts. nd_parent (dt_node t) = a) \<and>
     (\<forall>x \<in> set (zip (dt_ranges lo (in_keys n) hi) ts). dt_ok (fst (fst x)) (snd (fst x)) (snd x))"
  by pat_completeness auto
termination
  by (relation "measure (\<lambda>(lo, hi, t). size t)")
    (auto simp: less_Suc_eq_le dest!: set_zip_rightD intro!: size_list_estimation')

text \<open>What rows, together with what the layers below store, say about a string.\<close>

definition row_stores :: "node_slot \<Rightarrow> byte list \<Rightarrow> u64 \<Rightarrow> bool" where
  "row_stores r s v \<longleftrightarrow> \<not> keylenx_is_layer (slot_kl r) \<and> slot_ikey r = slice_of s \<and>
     kl_rank (slot_kl r) = slot_rank s \<and> (slot_kl r = 9 \<longrightarrow> slot_suf r = drop 8 s) \<and> v = slot_lv r"

definition row_leads :: "node_slot \<Rightarrow> byte list \<Rightarrow> bool" where
  "row_leads r s \<longleftrightarrow> keylenx_is_layer (slot_kl r) \<and> slot_ikey r = slice_of s \<and> 8 < length s"

definition rows_store :: "node_slot list \<Rightarrow> (byte list \<Rightarrow> u64 \<Rightarrow> bool) list \<Rightarrow> byte list \<Rightarrow> u64 \<Rightarrow> bool" where
  "rows_store rows Ps s v \<longleftrightarrow>
     list_ex (\<lambda>r. row_stores r s v) rows \<or>
     list_ex (\<lambda>(r, P). row_leads r s \<and> P (drop 8 s) v) (zip (layer_rows rows) Ps)"

primrec dt_stores :: "dtree \<Rightarrow> byte list \<Rightarrow> u64 \<Rightarrow> bool" where
  "dt_stores (DL a l us) = rows_store (lf_rows l) (map dt_stores us)"
| "dt_stores (DN a n ts) = (\<lambda>s v. list_ex (\<lambda>P. P s v) (map dt_stores ts))"

section \<open>Ranges\<close>

lemma holds_simps:
  "holds h (DL a l us) \<longleftrightarrow> h a = Some (Leaf_Node l) \<and> a \<noteq> 0 \<and> (\<forall>u \<in> set us. holds h u)"
  "holds h (DN a n ts) \<longleftrightarrow> h a = Some (Inter_Node n) \<and> a \<noteq> 0 \<and> (\<forall>t \<in> set ts. holds h t)"
  by (auto simp: holds_def)

lemma holds_addr: "holds h t \<Longrightarrow> h (dt_addr t) = Some (dt_node t) \<and> dt_addr t \<noteq> 0"
  by (cases t) (simp_all add: holds_simps)

lemma spine_hd: "\<exists>xs. dt_spine t = (dt_addr t, dt_node t) # xs"
  by (cases t) simp_all

lemma spine_cells: "set (dt_spine t) \<subseteq> set (dt_cells t)"
proof (induction t)
  case (DN a n ts)
  then show ?case by (cases ts) auto
qed simp

lemma holds_spine: "holds h t \<Longrightarrow> (a, n) \<in> set (dt_spine t) \<Longrightarrow> h a = Some n \<and> a \<noteq> 0"
  using spine_cells [of t] by (auto simp: holds_def)

lemma keys_sorted: "sorted_wrt (<) (lo # map unat ks @ [hi]) \<Longrightarrow> sorted_wrt (<) (ks :: u64 list)"
proof -
  assume "sorted_wrt (<) (lo # map unat ks @ [hi])"
  then have "sorted_wrt (\<lambda>x y. unat x < unat y) ks" by (simp add: sorted_wrt_append sorted_wrt_map)
  then show ?thesis by (rule sorted_wrt_mono_rel [rotated]) (simp add: word_less_nat_alt)
qed

lemma child_range:
  assumes "dt_ok lo hi (DN a n ts)" "i < length ts"
  shows "(dt_ranges lo (in_keys n) hi ! i, ts ! i) \<in> set (zip (dt_ranges lo (in_keys n) hi) ts)"
    and "dt_ranges lo (in_keys n) hi ! i = ((lo # map unat (in_keys n)) ! i, (map unat (in_keys n) @ [hi]) ! i)"
    and "dt_ok ((lo # map unat (in_keys n)) ! i) ((map unat (in_keys n) @ [hi]) ! i) (ts ! i)"
    and "lo \<le> (lo # map unat (in_keys n)) ! i" "(map unat (in_keys n) @ [hi]) ! i \<le> hi"
proof -
  have ok: "in_ok n" "in_children n = map dt_addr ts" "sorted_wrt (<) (lo # map unat (in_keys n) @ [hi])"
      "\<forall>x \<in> set (zip (dt_ranges lo (in_keys n) hi) ts). dt_ok (fst (fst x)) (snd (fst x)) (snd x)"
    using assms(1) by simp_all
  have len: "length ts = length (in_keys n) + 1" using in_lengths [OF ok(1)] ok(2) by (metis length_map)
  show z: "(dt_ranges lo (in_keys n) hi ! i, ts ! i) \<in> set (zip (dt_ranges lo (in_keys n) hi) ts)"
    unfolding in_set_zip using assms(2) len by (intro exI [of _ i]) (simp add: dt_ranges_def)
  show r: "dt_ranges lo (in_keys n) hi ! i = ((lo # map unat (in_keys n)) ! i, (map unat (in_keys n) @ [hi]) ! i)"
    using assms(2) len by (simp add: dt_ranges_def)
  from bspec [OF ok(4) z] r
  show "dt_ok ((lo # map unat (in_keys n)) ! i) ((map unat (in_keys n) @ [hi]) ! i) (ts ! i)" by simp
  show "lo \<le> (lo # map unat (in_keys n)) ! i" "(map unat (in_keys n) @ [hi]) ! i \<le> hi"
    using ok(3) assms(2) len by (auto simp: nth_Cons' nth_append sorted_wrt_append intro!: less_imp_le)
qed

text \<open>The child a slice leads to, and its range.\<close>

lemma child_of:
  assumes "dt_ok lo hi (DN a n ts)" "lo \<le> unat x" "unat x < hi"
  obtains l' h' where "in_upper x n < length ts" and "in_child n ! in_upper x n = dt_addr (ts ! in_upper x n)"
    and "dt_ok l' h' (ts ! in_upper x n)" "l' \<le> unat x" "unat x < h'" "lo \<le> l'" "h' \<le> hi"
    and "dt_ranges lo (in_keys n) hi ! in_upper x n = (l', h')"
proof -
  let ?u = "in_upper x n" and ?ks = "in_keys n"
  have ok: "in_ok n" "in_children n = map dt_addr ts" "sorted_wrt (<) (lo # map unat ?ks @ [hi])"
      "\<forall>x \<in> set (zip (dt_ranges lo ?ks hi) ts). dt_ok (fst (fst x)) (snd (fst x)) (snd x)"
    using assms(1) by simp_all
  have len: "length ?ks = in_nkeys n" "length ts = in_nkeys n + 1" using in_lengths [OF ok(1)] ok(2) by auto
  have sorted: "sorted_wrt (<) ?ks" by (rule keys_sorted [OF ok(3)])
  note up = upper_spec [OF ok(1) sorted, where a = x]
  have u: "?u < length ts" using up(1) len by simp
  note range = child_range [OF assms(1) u]
  define l' where "l' = (lo # map unat ?ks) ! ?u"
  define h' where "h' = (map unat ?ks @ [hi]) ! ?u"
  have r: "dt_ranges lo ?ks hi ! ?u = (l', h')" and c: "dt_ok l' h' (ts ! ?u)" and bounds: "lo \<le> l'" "h' \<le> hi"
    using range(2-5) by (simp_all add: l'_def h'_def del: dt_ok.simps)
  have le: "?u \<le> length ?ks" using up(1) len by simp
  have lx: "l' \<le> unat x"
  proof (cases ?u)
    case 0
    then show ?thesis using assms(2) by (simp add: l'_def)
  next
    case (Suc j)
    then have "?ks ! j \<le> x" using up(2) by simp
    then show ?thesis using Suc le by (simp add: l'_def word_le_nat_alt)
  qed
  have xh: "unat x < h'"
  proof (cases "?u < in_nkeys n")
    case True
    then have "x < ?ks ! ?u" using up(3) by simp
    then show ?thesis using True len by (simp add: h'_def nth_append word_less_nat_alt)
  next
    case False
    then show ?thesis using up(1) len assms(3) by (simp add: h'_def nth_append)
  qed
  have "take (in_nkeys n + 1) (in_child n) ! ?u = in_child n ! ?u" using up(1) by simp
  then have "in_child n ! ?u = dt_addr (ts ! ?u)" using ok(2) u by (simp add: in_children_def)
  with u c lx xh bounds r show thesis by (intro that) auto
qed

lemma rows_range: "dt_ok lo hi t \<Longrightarrow> r \<in> set (dt_rows t) \<Longrightarrow> lo \<le> unat (slot_ikey r) \<and> unat (slot_ikey r) < hi"
proof (induction lo hi t rule: dt_ok.induct)
  case (2 lo hi a n ts)
  from "2.prems"(2) obtain t where "t \<in> set ts" "r \<in> set (dt_rows t)" by auto
  then obtain i where i: "i < length ts" "r \<in> set (dt_rows (ts ! i))" by (metis in_set_conv_nth)
  note range = child_range [OF "2.prems"(1) i(1)]
  from "2.IH" [OF range(1)] range(2,3) i(2)
  have "(lo # map unat (in_keys n)) ! i \<le> unat (slot_ikey r) \<and> unat (slot_ikey r) < (map unat (in_keys n) @ [hi]) ! i"
    by simp
  with range(4,5) show ?case by linarith
qed simp

section \<open>Climbing to the root\<close>

lemma climb:
  "dt_ok lo hi t \<Longrightarrow> holds h t \<Longrightarrow> \<forall>(a, n) \<in> set (tl (dt_spine t)). nd_has_split n \<Longrightarrow>
   x \<in> fst ` set (dt_spine t) \<Longrightarrow> unsplit_ancestor h x = unsplit_ancestor h (dt_addr t)"
proof (induction lo hi t rule: dt_ok.induct)
  case (2 lo hi a n ts)
  have ok: "in_ok n" "in_children n = map dt_addr ts" "\<forall>t \<in> set ts. nd_parent (dt_node t) = a"
      "\<forall>x \<in> set (zip (dt_ranges lo (in_keys n) hi) ts). dt_ok (fst (fst x)) (snd (fst x)) (snd x)"
    using "2.prems"(1) by simp_all
  have "length ts = in_nkeys n + 1" using in_lengths [OF ok(1)] ok(2) by (metis length_map)
  then obtain t ts' where ts: "ts = t # ts'" by (cases ts) auto
  show ?case
  proof (cases "x = a")
    case False
    with "2.prems"(4) ts have x: "x \<in> fst ` set (dt_spine t)" by auto
    obtain y where y: "(y, t) \<in> set (zip (dt_ranges lo (in_keys n) hi) ts)"
      unfolding ts by (cases "dt_ranges lo (in_keys n) hi") (auto simp: dt_ranges_def)
    then have "dt_ok (fst y) (snd y) t" using ok(4) by auto
    moreover have "holds h t" using "2.prems"(2) by (simp add: holds_simps ts)
    moreover have split: "\<forall>(a, n) \<in> set (dt_spine t). nd_has_split n" using "2.prems"(3) by (simp add: ts)
    then have "\<forall>(a, n) \<in> set (tl (dt_spine t)). nd_has_split n" using spine_hd [of t] by auto
    ultimately have "unsplit_ancestor h x = unsplit_ancestor h (dt_addr t)"
      using "2.IH" [OF y] x by simp
    moreover have "nd_has_split (dt_node t)" using split spine_hd [of t] by auto
    moreover have "nd_parent (dt_node t) = a" "h (dt_addr t) = Some (dt_node t)" "a \<noteq> 0"
      using ok(3) ts holds_addr [OF \<open>holds h t\<close>] "2.prems"(2) by (auto simp: holds_simps)
    ultimately show ?thesis by (simp add: unsplit_ancestor.simps [of h "dt_addr t"])
  qed simp
qed simp

lemma ancestor_root:
  assumes "dt_ok lo hi t" "dt_root t" "holds h t" "x \<in> fst ` set (dt_spine t)"
  shows "unsplit_ancestor h x = Some (dt_addr t)" and "reach_root h x = Some (dt_addr t)"
    and "\<exists>n. h x = Some n \<and> (nd_has_split n \<longleftrightarrow> x \<noteq> dt_addr t)"
proof -
  note root = holds_addr [OF assms(3)]
  have r: "reach_root h (dt_addr t) = Some (dt_addr t)"
    using root assms(2) by (simp add: reach_root.simps [of h "dt_addr t"] dt_root_def)
  have "unsplit_ancestor h x = unsplit_ancestor h (dt_addr t)"
    using climb [OF assms(1,3) _ assms(4)] assms(2) by (simp add: dt_root_def)
  also have "\<dots> = Some (dt_addr t)"
    using root assms(2) by (simp add: unsplit_ancestor.simps [of h "dt_addr t"] dt_root_def)
  finally show u: "unsplit_ancestor h x = Some (dt_addr t)" .
  obtain n where n: "(x, n) \<in> set (dt_spine t)" using assms(4) by auto
  then have hx: "h x = Some n" using holds_spine [OF assms(3)] by blast
  have split: "nd_has_split n \<longleftrightarrow> x \<noteq> dt_addr t"
  proof (cases "x = dt_addr t")
    case True
    with hx root have "n = dt_node t" by simp
    with True assms(2) show ?thesis by (simp add: dt_root_def)
  next
    case False
    with n spine_hd [of t] have "(x, n) \<in> set (tl (dt_spine t))" by auto
    with False assms(2) show ?thesis by (auto simp: dt_root_def)
  qed
  with hx show "\<exists>n. h x = Some n \<and> (nd_has_split n \<longleftrightarrow> x \<noteq> dt_addr t)" by blast
  show "reach_root h x = Some (dt_addr t)"
    using hx split u r by (cases "x = dt_addr t") (simp_all add: reach_root.simps [of h x])
qed

section \<open>Reaching a leaf\<close>

primrec dt_find :: "u64 \<Rightarrow> dtree \<Rightarrow> dtree" where
  "dt_find x (DL a l us) = DL a l us"
| "dt_find x (DN a n ts) = map (dt_find x) ts ! in_upper x n"

lemma reach_loop_ok:
  "dt_ok lo hi t \<Longrightarrow> holds h t \<Longrightarrow> lo \<le> unat x \<Longrightarrow> unat x < hi \<Longrightarrow>
     reach_loop h x root (dt_addr t) = Some (dt_addr (dt_find x t)) \<and>
     (\<exists>a l us lo' hi'. dt_find x t = DL a l us \<and> holds h (dt_find x t) \<and> dt_ok lo' hi' (dt_find x t) \<and>
       lo \<le> lo' \<and> hi' \<le> hi \<and> lo' \<le> unat x \<and> unat x < hi')"
proof (induction t arbitrary: lo hi)
  case (DL a l us)
  then show ?case by (auto simp: holds_simps reach_loop.simps [of h x root a] simp del: dt_ok.simps)
next
  case (DN a n ts)
  obtain l' h' where u: "in_upper x n < length ts" "in_child n ! in_upper x n = dt_addr (ts ! in_upper x n)"
      "dt_ok l' h' (ts ! in_upper x n)" "l' \<le> unat x" "unat x < h'" "lo \<le> l'" "h' \<le> hi"
    by (rule child_of [OF DN.prems(1,3,4)])
  let ?t = "ts ! in_upper x n"
  have t: "?t \<in> set ts" "holds h ?t" using u(1) DN.prems(2) by (simp_all add: holds_simps)
  have "reach_loop h x root a = reach_loop h x root (dt_addr ?t)"
    using holds_addr [OF t(2)] DN.prems(2) u(2)
    by (simp add: reach_loop.simps [of h x root a] holds_simps Let_def)
  moreover have "dt_find x (DN a n ts) = dt_find x ?t" using u(1) by simp
  moreover obtain b l us lo' hi' where b: "reach_loop h x root (dt_addr ?t) = Some (dt_addr (dt_find x ?t))"
      "dt_find x ?t = DL b l us" "holds h (dt_find x ?t)" "dt_ok lo' hi' (dt_find x ?t)" "l' \<le> lo'" "hi' \<le> h'"
      "lo' \<le> unat x" "unat x < hi'"
    using DN.IH [OF t(1) u(3) t(2) u(4,5)] by blast
  moreover have "lo \<le> lo'" "hi' \<le> hi" using b(5,6) u(6,7) by simp_all
  ultimately show ?case by (metis dt_addr.simps(2))
qed

lemma reach_leaf_ok:
  assumes "dt_ok 0 (2 ^ 64) t" "dt_root t" "holds h t" "p \<in> fst ` set (dt_spine t)"
  obtains a l us lo hi where "dt_find (k_ikey0 k) t = DL a l us" "reach_leaf h k p = Some a"
    "holds h (DL a l us)" "dt_ok lo hi (DL a l us)" "lo \<le> unat (k_ikey0 k)" "unat (k_ikey0 k) < hi"
proof -
  have x: "unat (k_ikey0 k) < 2 ^ 64" using unsigned_less [of "k_ikey0 k", where ?'a = nat] by simp
  note reach = reach_loop_ok [OF assms(1,3) le0 x, of p]
  then obtain a l us lo hi where f: "dt_find (k_ikey0 k) t = DL a l us" "holds h (DL a l us)" "dt_ok lo hi (DL a l us)"
      "lo \<le> unat (k_ikey0 k)" "unat (k_ikey0 k) < hi"
    by (auto simp del: dt_ok.simps)
  moreover have "reach_leaf h k p = Some a"
    using reach f(1) ancestor_root(2) [OF assms] by (simp add: reach_leaf_def del: dt_ok.simps)
  ultimately show thesis by (intro that)
qed

section \<open>Lookup\<close>

lemma rows_store_slice:
  assumes "rows_store rows Ps s v"
  shows "\<exists>r \<in> set rows. slot_ikey r = slice_of s"
  using assms unfolding rows_store_def layer_rows_def
  by (auto simp: list_ex_iff row_stores_def row_leads_def dest!: set_zip_leftD)

lemma stores_slice: "dt_stores t s v \<Longrightarrow> \<exists>r \<in> set (dt_rows t). slot_ikey r = slice_of s"
proof (induction t)
  case (DL a l us)
  then show ?case by (simp add: rows_store_slice)
next
  case (DN a n ts)
  then obtain t where "t \<in> set ts" "dt_stores t s v" by (auto simp: list_ex_iff)
  with DN.IH show ?case by fastforce
qed

text \<open>Only the child that the slice leads to stores a string of that slice.\<close>

lemma child_only:
  assumes "dt_ok lo hi (DN a n ts)" "i < length ts" "dt_stores (ts ! i) s v"
  shows "i = in_upper (slice_of s) n"
proof -
  let ?x = "slice_of s" and ?ks = "in_keys n" and ?u = "in_upper (slice_of s) n"
  obtain r where r: "r \<in> set (dt_rows (ts ! i))" "slot_ikey r = ?x" using stores_slice [OF assms(3)] by blast
  have ok: "in_ok n" "in_children n = map dt_addr ts" "sorted_wrt (<) (lo # map unat ?ks @ [hi])"
    using assms(1) by simp_all
  have len: "length ts = length ?ks + 1" "length ?ks = in_nkeys n" using in_lengths [OF ok(1)] ok(2) by (metis length_map, simp)
  from rows_range [OF child_range(3) [OF assms(1,2)] r(1)] r(2)
  have x: "(lo # map unat ?ks) ! i \<le> unat ?x" "unat ?x < (map unat ?ks @ [hi]) ! i" by simp_all
  have sorted: "sorted_wrt (<) ?ks" by (rule keys_sorted [OF ok(3)])
  note up = upper_spec [OF ok(1) sorted, where a = ?x]
  show "i = ?u"
  proof (rule linorder_cases)
    assume "i < ?u"
    then have "?ks ! i \<le> ?x" "i < length ?ks" using up(1,2) len by auto
    then show ?thesis using x(2) by (simp add: nth_append word_le_nat_alt)
  next
    assume gt: "?u < i"
    then obtain j where j: "i = Suc j" by (cases i) auto
    then have "?x < ?ks ! j" "j < length ?ks" using up(3) [of j] gt len assms(2) by auto
    then show ?thesis using x(1) by (simp add: j word_less_nat_alt)
  qed
qed

lemma stores_find:
  "dt_ok lo hi t \<Longrightarrow> lo \<le> unat (slice_of s) \<Longrightarrow> unat (slice_of s) < hi \<Longrightarrow>
     dt_stores t s v \<longleftrightarrow> dt_stores (dt_find (slice_of s) t) s v"
proof (induction t arbitrary: lo hi)
  case (DN a n ts)
  let ?x = "slice_of s" and ?u = "in_upper (slice_of s) n"
  obtain l' h' where u: "?u < length ts" "dt_ok l' h' (ts ! ?u)" "l' \<le> unat ?x" "unat ?x < h'"
    by (rule child_of [OF DN.prems])
  have "dt_stores (DN a n ts) s v \<longleftrightarrow> (\<exists>i < length ts. dt_stores (ts ! i) s v)"
    by (simp add: list_ex_iff) (metis in_set_conv_nth)
  also have "\<dots> \<longleftrightarrow> dt_stores (ts ! ?u) s v" using child_only [OF DN.prems(1)] u(1) by blast
  also have "\<dots> \<longleftrightarrow> dt_stores (dt_find ?x (ts ! ?u)) s v"
    using u by (intro DN.IH) simp_all
  finally show ?case using u(1) by simp
qed simp

text \<open>The rows of one leaf: the one the key belongs to decides.\<close>

lemma row_cmp_rank:
  assumes "rows_ok rows" "r \<in> set rows" "key_ok k"
  shows "key_row_cmp k r = 0 \<longleftrightarrow> slot_ikey r = slice_of (key_string k) \<and> kl_rank (slot_kl r) = slot_rank (key_string k)"
  using assms key_cmp_rank(1) [OF assms(3), of "slot_kl r" "slot_ikey r"]
  by (auto simp: rows_ok_def key_row_cmp_def key_ok_def)

lemma row_unique:
  assumes "rows_ok rows" "key_ok k" "i < length rows" "j < length rows"
    and "key_row_cmp k (rows ! i) = 0" "key_row_cmp k (rows ! j) = 0"
  shows "i = j"
  using row_cmp_ordered [OF assms(1,2), of i j] row_cmp_ordered [OF assms(1,2), of j i] assms(3-6)
  by (cases i j rule: linorder_cases) auto

lemma rows_distinct: "rows_ok rows \<Longrightarrow> distinct rows"
  unfolding rows_ok_def distinct_conv_nth sorted_wrt_iff_nth_less
  by (metis less_irrefl linorder_neqE_nat slot_less_def)

lemma stores_row_cmp:
  assumes "rows_ok rows" "key_ok k" "r \<in> set rows"
  shows "row_stores r (key_string k) v \<Longrightarrow> key_row_cmp k r = 0" and "row_leads r (key_string k) \<Longrightarrow> key_row_cmp k r = 0"
  using row_cmp_rank [OF assms(1,3,2)] by (auto simp: row_stores_def row_leads_def kl_rank_def slot_rank_def)

lemma rows_store_none:
  assumes "rows_ok rows" "key_ok k" "\<forall>r \<in> set rows. key_row_cmp k r \<noteq> 0"
  shows "\<not> rows_store rows Ps (key_string k) v"
  using assms stores_row_cmp [OF assms(1,2)]
  by (auto simp: rows_store_def layer_rows_def list_ex_iff dest!: set_zip_leftD)

lemma rows_store_value:
  assumes "rows_ok rows" "key_ok k" "i < length rows" "key_row_cmp k (rows ! i) = 0" "\<not> keylenx_is_layer (slot_kl (rows ! i))"
  shows "rows_store rows Ps (key_string k) v \<longleftrightarrow> row_stores (rows ! i) (key_string k) v"
proof -
  have eq: "r = rows ! i" if r: "r \<in> set rows" "key_row_cmp k r = 0" for r
    using row_unique [OF assms(1,2,3) _ assms(4)] r by (metis in_set_conv_nth)
  have "\<not> row_leads r (key_string k)" if r: "(r, P) \<in> set (zip (layer_rows rows) Ps)" for r P
  proof
    assume l: "row_leads r (key_string k)"
    have "r \<in> set rows" using set_zip_leftD [OF r] by (simp add: layer_rows_def)
    with eq stores_row_cmp(2) [OF assms(1,2) _ l] have "r = rows ! i" by blast
    with l assms(5) show False by (simp add: row_leads_def)
  qed
  moreover have "r = rows ! i" if r: "r \<in> set rows" "row_stores r (key_string k) v" for r
    using eq stores_row_cmp(1) [OF assms(1,2) r(1,2)] r(1) by blast
  ultimately show ?thesis using assms(3) by (auto simp: rows_store_def list_ex_iff)
qed

lemma rows_store_layer:
  assumes "rows_ok rows" "key_ok k" "i < length rows" "key_row_cmp k (rows ! i) = 0" "keylenx_is_layer (slot_kl (rows ! i))"
    and "list_all2 points_into (layer_rows rows) us"
  obtains u where "u \<in> set us" "points_into (rows ! i) u" "key_has_suffix k"
    "\<And>v. rows_store rows (map dt_stores us) (key_string k) v \<longleftrightarrow> dt_stores u (drop 8 (key_string k)) v"
proof -
  let ?s = "key_string k" and ?r = "rows ! i" and ?ls = "layer_rows rows"
  have eq: "r = ?r" if r: "r \<in> set rows" "key_row_cmp k r = 0" for r
    using row_unique [OF assms(1,2,3) _ assms(4)] r by (metis in_set_conv_nth)
  have "kl_rank (slot_kl ?r) = slot_rank ?s" "slot_ikey ?r = slice_of ?s"
    using row_cmp_rank [OF assms(1) nth_mem [OF assms(3)] assms(2)] assms(4) by auto
  then have "8 < length ?s" using assms(5) by (simp add: kl_rank_def slot_rank_def)
  then have leads: "row_leads ?r ?s" "key_has_suffix k"
    using assms(5) \<open>slot_ikey ?r = slice_of ?s\<close> key_len_string [OF assms(2)]
    by (simp_all add: row_leads_def key_has_suffix_def)
  have "?r \<in> set ?ls" using assms(3,5) by (simp add: layer_rows_def)
  then obtain j where j: "j < length ?ls" "?ls ! j = ?r" by (metis in_set_conv_nth)
  have len: "length us = length ?ls" using assms(6) list_all2_lengthD by force
  have only: "j' = j" if j': "j' < length ?ls" "row_leads (?ls ! j') ?s" for j'
  proof -
    have "?ls ! j' \<in> set ?ls" using j'(1) by simp
    then have "?ls ! j' \<in> set rows" by (simp add: layer_rows_def)
    then have "?ls ! j' = ?ls ! j" using eq stores_row_cmp(2) [OF assms(1,2) _ j'(2)] j(2) by simp
    moreover have "distinct ?ls" using rows_distinct [OF assms(1)] by (simp add: layer_rows_def)
    ultimately show ?thesis using j(1) j'(1) nth_eq_iff_index_eq by blast
  qed
  have "\<not> row_stores r ?s v" if r: "r \<in> set rows" for r v
  proof
    assume st: "row_stores r ?s v"
    with eq stores_row_cmp(1) [OF assms(1,2) r st] r have "r = ?r" by blast
    with st assms(5) show False by (simp add: row_stores_def)
  qed
  then have "rows_store rows (map dt_stores us) ?s v \<longleftrightarrow>
      (\<exists>x \<in> set (zip ?ls (map dt_stores us)). row_leads (fst x) ?s \<and> snd x (drop 8 ?s) v)" for v
    by (simp add: rows_store_def list_ex_iff case_prod_beta)
  moreover have "(\<exists>x \<in> set (zip ?ls (map dt_stores us)). row_leads (fst x) ?s \<and> snd x (drop 8 ?s) v) \<longleftrightarrow> dt_stores (us ! j) (drop 8 ?s) v" for v
  proof
    assume "\<exists>x \<in> set (zip ?ls (map dt_stores us)). row_leads (fst x) ?s \<and> snd x (drop 8 ?s) v"
    then obtain j' where "j' < length ?ls" "row_leads (?ls ! j') ?s" "dt_stores (us ! j') (drop 8 ?s) v"
      using len by (auto simp: in_set_zip)
    with only show "dt_stores (us ! j) (drop 8 ?s) v" by blast
  next
    assume st: "dt_stores (us ! j) (drop 8 ?s) v"
    have "(?ls ! j, dt_stores (us ! j)) \<in> set (zip ?ls (map dt_stores us))"
      unfolding in_set_zip using j(1) len by (intro exI [of _ j]) simp
    with st leads(1) j(2) show "\<exists>x \<in> set (zip ?ls (map dt_stores us)). row_leads (fst x) ?s \<and> snd x (drop 8 ?s) v"
      by force
  qed
  ultimately have "rows_store rows (map dt_stores us) ?s v \<longleftrightarrow> dt_stores (us ! j) (drop 8 ?s) v" for v by blast
  moreover have "points_into ?r (us ! j)" using list_all2_nthD [OF assms(6) j(1)] j(2) by simp
  ultimately show thesis using that [of "us ! j"] leads(2) j(1) len by simp
qed

lemma find_in_leaf:
  assumes "dt_ok lo hi (DL a l us)" "key_ok k" "h a = Some (Leaf_Node l)" "reach_leaf h k p = Some a"
  obtains (found) r where "find_unlocked h p k = Some r" "\<And>v. r = Some v \<longleftrightarrow> dt_stores (DL a l us) (key_string k) v"
  | (layer) u q where "u \<in> set us" "q \<in> fst ` set (dt_spine u)" "key_has_suffix k"
      "find_unlocked h p k = find_unlocked h q (key_shift k)"
      "\<And>v. dt_stores (DL a l us) (key_string k) v \<longleftrightarrow> dt_stores u (drop 8 (key_string k)) v"
proof -
  let ?s = "key_string k" and ?kp = "ut_lower_bound_binary k l" and ?rows = "lf_rows l"
  have l: "lf_sorted l" "list_all2 points_into (layer_rows ?rows) us" using assms(1) by simp_all
  then have rows: "rows_ok ?rows" "lf_ok l" by (simp_all add: lf_sorted_def)
  have ready: "lf_ready l (set (lf_live l))" "length ?rows = lf_size l" "length (lf_live l) = lf_size l"
    using rows(2) lf_live_perm(4) by (simp_all add: lf_ok_def lf_rows_def)
  note find = find_unlocked.simps [of h p k]
  note search = leaf_search_spec [OF l(1) assms(2)]
  show thesis
  proof (cases "?kp < 0")
    case True
    then have "\<forall>r \<in> set ?rows. key_row_cmp k r \<noteq> 0" using search by auto
    then show thesis using rows_store_none [OF rows(1) assms(2)] True assms(3,4) find
      by (intro found [of None]) (simp_all add: Let_def)
  next
    case False
    then obtain i where i: "i < lf_size l" "?kp = int (lf_live l ! i)" "key_row_cmp k (?rows ! i) = 0" using search by auto
    let ?p = "lf_live l ! i"
    have i': "i < length ?rows" "?p \<in> set (lf_live l)" using i(1) ready by simp_all
    have row: "?rows ! i = lf_slot l ?p" using i(1) ready by (simp add: lf_rows_def)
    have kl: "slot_kl (?rows ! i) = lf_keylenx l ! ?p" "slot_lv (?rows ! i) = lf_lv l ! ?p" by (simp_all add: row lf_slot_def)
    show thesis
    proof (cases "keylenx_is_layer (lf_keylenx l ! ?p)")
      case True
      with kl(1) obtain u where u: "u \<in> set us" "points_into (?rows ! i) u" "key_has_suffix k"
          "\<And>v. rows_store ?rows (map dt_stores us) ?s v \<longleftrightarrow> dt_stores u (drop 8 ?s) v"
        using rows_store_layer [OF rows(1) assms(2) i'(1) i(3) _ l(2)] by auto
      show thesis
      proof (rule layer [of u "lf_lv l ! ?p"])
        show "find_unlocked h p k = find_unlocked h (lf_lv l ! ?p) (key_shift k)"
          using True i(2) assms(3,4) by (subst find) (simp add: Let_def)
      qed (use u kl(2) in \<open>simp_all add: points_into_def\<close>)
    next
      case layer: False
      let ?e = "lf_ksuf_equals l ?p k (lf_keylenx l ! ?p)"
      have res: "find_unlocked h p k = Some (if ?e then Some (lf_lv l ! ?p) else None)"
        using layer i(2) assms(3,4) by (subst find) (simp add: Let_def)
      have st: "rows_store ?rows (map dt_stores us) ?s v \<longleftrightarrow> ?e \<and> v = lf_lv l ! ?p" for v
      proof -
        have cmp: "slot_ikey (?rows ! i) = slice_of ?s" "kl_rank (slot_kl (?rows ! i)) = slot_rank ?s"
          using row_cmp_rank [OF rows(1) nth_mem [OF i'(1)] assms(2)] i(3) by auto
        have e: "?e \<longleftrightarrow> (lf_keylenx l ! ?p = 9 \<longrightarrow> slot_suf (?rows ! i) = drop 8 ?s)"
        proof (cases "lf_keylenx l ! ?p = 9")
          case True
          then have "slot_rank ?s = 9" using cmp(2) kl(1) by (simp add: kl_rank_def keylenx_is_layer_def)
          then have "8 < k_len k" using key_len_string [OF assms(2)] by (simp add: slot_rank_def)
          then show ?thesis
            using ksuf_equals_suffix [OF ready(1) i'(2) True] True row
            by (simp add: lf_slot_def lf_has_ksuf_def keylenx_has_ksuf_def)
        next
          case no: False
          then show ?thesis by (simp add: lf_ksuf_equals_def keylenx_has_ksuf_def)
        qed
        have "rows_store ?rows (map dt_stores us) ?s v \<longleftrightarrow> row_stores (?rows ! i) ?s v"
          using layer kl(1) by (intro rows_store_value [OF rows(1) assms(2) i'(1) i(3)]) simp
        also have "\<dots> \<longleftrightarrow> ?e \<and> v = lf_lv l ! ?p"
          using layer cmp e kl by (auto simp: row_stores_def)
        finally show ?thesis .
      qed
      show thesis by (rule found [OF res]) (auto simp: st)
    qed
  qed
qed

lemma find_layer:
  "dt_ok 0 (2 ^ 64) t \<Longrightarrow> dt_root t \<Longrightarrow> holds h t \<Longrightarrow> p \<in> fst ` set (dt_spine t) \<Longrightarrow> key_ok k \<Longrightarrow>
     \<exists>r. find_unlocked h p k = Some r \<and> (\<forall>v. r = Some v \<longleftrightarrow> dt_stores t (key_string k) v)"
proof (induction "length (key_string k)" arbitrary: t p k rule: less_induct)
  case less
  obtain a l us lo hi where f: "dt_find (k_ikey0 k) t = DL a l us" "reach_leaf h k p = Some a"
      "holds h (DL a l us)" "dt_ok lo hi (DL a l us)"
    by (rule reach_leaf_ok [OF less.prems(1-4), of k])
  have slice: "k_ikey0 k = slice_of (key_string k)" using less.prems(5) by (simp add: key_ok_def)
  have "unat (slice_of (key_string k)) < 2 ^ 64"
    using unsigned_less [of "slice_of (key_string k)", where ?'a = nat] by simp
  then have st: "dt_stores t (key_string k) v \<longleftrightarrow> dt_stores (DL a l us) (key_string k) v" for v
    using stores_find [OF less.prems(1) le0, of "key_string k" v] f(1) slice by (simp del: dt_stores.simps)
  have "h a = Some (Leaf_Node l)" using f(3) by (simp add: holds_simps)
  from f(4) less.prems(5) this f(2) show ?case
  proof (cases rule: find_in_leaf)
    case (found r)
    with st show ?thesis by blast
  next
    case (layer u q)
    have "dt_root u" "dt_ok 0 (2 ^ 64) u" "holds h u" using f(3,4) layer(1) by (simp_all add: holds_simps)
    moreover have "length (key_string (key_shift k)) < length (key_string k)"
      using layer(3) key_len_string [OF less.prems(5)]
      by (simp add: key_string_shift key_has_suffix_def)
    ultimately have "\<exists>r. find_unlocked h q (key_shift k) = Some r \<and>
        (\<forall>v. r = Some v \<longleftrightarrow> dt_stores u (key_string (key_shift k)) v)"
      using less.hyps layer(2) key_ok_shift [OF layer(3)] by blast
    with layer(4,5) st key_string_shift [OF layer(3)] show ?thesis by metis
  qed
qed

section \<open>Properties\<close>

text \<open>A table holds a tree when its root pointer leads to the left spine.\<close>

definition tb_holds :: "dtable \<Rightarrow> dtree \<Rightarrow> bool" where
  "tb_holds tb t \<longleftrightarrow> dt_ok 0 (2 ^ 64) t \<and> dt_root t \<and> holds (tb_heap tb) t \<and> tb_root tb \<in> fst ` set (dt_spine t)"

lemma fix_root_ok:
  assumes "tb_holds tb t"
  shows "tb_fix_root tb = Some (tb\<lparr>tb_root := dt_addr t\<rparr>, dt_addr t)"
proof -
  note a = assms [unfolded tb_holds_def]
  obtain n where n: "tb_heap tb (tb_root tb) = Some n" "nd_has_split n \<longleftrightarrow> tb_root tb \<noteq> dt_addr t"
    using ancestor_root(3) a by blast
  moreover have "unsplit_ancestor (tb_heap tb) (tb_root tb) = Some (dt_addr t)" using ancestor_root(1) a by blast
  ultimately show ?thesis by (cases tb) (simp add: tb_fix_root_def)
qed

lemma holds_root: "tb_holds tb t \<Longrightarrow> tb_holds (tb\<lparr>tb_root := dt_addr t\<rparr>) t"
  using spine_hd [of t] by (auto simp: tb_holds_def)

lemma dyn_get_spec:
  assumes "tb_holds tb t" "key_ok k"
  shows "\<exists>r. tb_get tb k = Some (tb\<lparr>tb_root := dt_addr t\<rparr>, r) \<and> tb_holds (tb\<lparr>tb_root := dt_addr t\<rparr>) t \<and>
    (\<forall>v. r = Some v \<longleftrightarrow> dt_stores t (key_string k) v)"
proof -
  note a = assms(1) [unfolded tb_holds_def]
  have "dt_addr t \<in> fst ` set (dt_spine t)" using spine_hd [of t] by auto
  then obtain r where "find_unlocked (tb_heap tb) (dt_addr t) k = Some r" "\<forall>v. r = Some v \<longleftrightarrow> dt_stores t (key_string k) v"
    using find_layer a assms(2) by blast
  with fix_root_ok [OF assms(1)] holds_root [OF assms(1)] show ?thesis by (simp add: tb_get_def)
qed

text \<open>
  C31: A lookup in the dynamic stage ends and returns exactly the value stored for the key, for keys
  of any length and whatever roots have split since the pointers to them were written; the root
  pointer of the table is brought up to date on the way.
\<close>

theorem dyn_get_correct:
  assumes "tb_holds tb t" "key_ok k"
  shows "\<exists>r. tb_get tb k = Some (tb\<lparr>tb_root := dt_addr t\<rparr>, r) \<and> tb_holds (tb\<lparr>tb_root := dt_addr t\<rparr>) t \<and>
    (\<forall>v. r = Some v \<longleftrightarrow> dt_stores t (key_string k) v)"
  by (rule dyn_get_spec [OF assms])

text \<open>A layer of two leaves below a root, the first of which was the root once.\<close>

definition sample_leaf :: "u64 \<Rightarrow> u32 \<Rightarrow> leaf" where
  "sample_leaf x ver = zero_leaf\<lparr>lf_version := ver, lf_permutation := kp_make_sorted leaf_width 1,
     lf_ikey0 := x # replicate 14 0, lf_keylenx := 8 # replicate 14 0, lf_lv := (x + 1) # replicate 14 0,
     lf_parent := 3000\<rparr>"

definition sample_root :: internode where
  "sample_root = \<lparr>in_version = push_bit 30 1, in_nkeys = 1, in_ikey0 = slice_of (replicate 8 66) # replicate 14 0,
     in_child = 1000 # 2000 # replicate 14 0, in_parent = 0\<rparr>"

definition sample_tree :: dtree where
  "sample_tree = DN 3000 sample_root
     [DL 1000 (sample_leaf (slice_of (replicate 8 65)) 0) [], DL 2000 (sample_leaf (slice_of (replicate 8 66)) 0) []]"

definition sample_table :: dtable where
  "sample_table = \<lparr>tb_root = 1000, tb_heap = map_of (dt_cells sample_tree)\<rparr>"

lemma sample_leaf_rows:
  "lf_ok (sample_leaf x ver)" "lf_rows (sample_leaf x ver) = [(8, x, x + 1, [])]"
proof -
  have ready: "lf_ready (sample_leaf x ver) {..<1}"
    by (auto simp: lf_ready_def lf_bags_def sample_leaf_def zero_leaf_def lf_has_ksuf_def keylenx_has_ksuf_def)
  have perm: "lf_permutation (sample_leaf x ver) = kp_make_sorted leaf_width 1" by (simp add: sample_leaf_def)
  note sp = sorted_perm_leaf [OF ready _ perm refl refl refl refl refl refl]
  show "lf_ok (sample_leaf x ver)" using sp by simp
  have "lf_slot (sample_leaf x ver) 0 = (8, x, x + 1, [])"
    by (simp add: lf_slot_def sample_leaf_def zero_leaf_def lf_has_ksuf_def keylenx_has_ksuf_def)
  then show "lf_rows (sample_leaf x ver) = [(8, x, x + 1, [])]" using sp(2) by simp
qed

lemma sample_table_holds: "tb_holds sample_table sample_tree"
proof -
  let ?a = "slice_of (replicate 8 65)" and ?b = "slice_of (replicate 8 66)"
  have kl: "\<not> keylenx_is_layer 8" "kl_ok 8" by (simp_all add: keylenx_is_layer_def kl_ok_def)
  have "pad8 (replicate 8 x) = x # replicate 7 x" for x by (simp add: pad8_def numeral_eq_Suc)
  moreover have "(65 :: byte) < 66" by simp
  ultimately have "pad8 (replicate 8 65) < pad8 (replicate 8 66)" by (simp only: Cons_less_Cons) simp
  then have "?a < ?b" by (simp add: slice_of_less_iff)
  moreover have "unat ?b < 2 ^ 64" using unsigned_less [of ?b, where ?'a = nat] by simp
  ultimately have less: "unat ?a < unat ?b" "unat ?b < 2 ^ 64" "0 < unat ?b"
    by (simp_all add: word_less_nat_alt)
  have ok: "dt_ok lo hi (DL p (sample_leaf x 0) [])" if "lo \<le> unat x" "unat x < hi" for lo hi p x
    using that kl sample_leaf_rows [of x 0] by (simp add: lf_sorted_def rows_ok_def layer_rows_def)
  have keys: "in_keys sample_root = [?b]" "in_children sample_root = [1000, 2000]" "in_ok sample_root"
    by (simp_all add: sample_root_def in_keys_def in_children_def in_ok_def)
  have par: "nd_parent (Leaf_Node (sample_leaf x 0)) = 3000" for x by (simp add: nd_parent_def sample_leaf_def)
  have z: "zip (dt_ranges 0 [?b] (2 ^ 64)) [DL 1000 (sample_leaf ?a 0) [], DL 2000 (sample_leaf ?b 0) []] =
      [((0, unat ?b), DL 1000 (sample_leaf ?a 0) []), ((unat ?b, 2 ^ 64), DL 2000 (sample_leaf ?b 0) [])]"
    by (simp add: dt_ranges_def)
  have "dt_ok 0 (2 ^ 64) sample_tree"
    unfolding sample_tree_def dt_ok.simps(2) keys z
    using keys(3) par ok [of 0 ?a "unat ?b" 1000] ok [of "unat ?b" ?b "2 ^ 64" 2000] less
    by (simp del: dt_ok.simps)
  moreover have "dt_root sample_tree"
    by (simp add: dt_root_def sample_tree_def nd_parent_def nd_has_split_def nd_version_def nv_nonroot_def
        nodeversion32_parameters_def sample_root_def sample_leaf_def zero_leaf_def)
  moreover have "holds (tb_heap sample_table) sample_tree"
    by (simp add: holds_def sample_table_def sample_tree_def)
  moreover have "tb_root sample_table \<in> fst ` set (dt_spine sample_tree)"
    by (simp add: sample_table_def sample_tree_def)
  ultimately show ?thesis by (simp add: tb_holds_def)
qed

theorem dyn_get_correct_witness:
  "tb_get sample_table (key_make (mem_of 0 (replicate 8 66)) 0 8) =
     Some (sample_table\<lparr>tb_root := 3000\<rparr>, Some (slice_of (replicate 8 66) + 1))"
proof -
  let ?k = "key_make (mem_of 0 (replicate 8 66)) 0 8" and ?b = "slice_of (replicate 8 66)"
  have str: "key_ok ?k" "key_string ?k = replicate 8 66" by (simp_all add: key_ok_make key_string_make)
  have "row_stores (8, ?b, ?b + 1, []) (replicate 8 66) (?b + 1)"
    by (simp add: row_stores_def keylenx_is_layer_def kl_rank_def slot_rank_def)
  then have "dt_stores sample_tree (replicate 8 66) (?b + 1)"
    by (simp add: sample_tree_def rows_store_def sample_leaf_rows)
  with dyn_get_correct [OF sample_table_holds str(1)] str(2) show ?thesis by (auto simp: sample_tree_def)
qed

end
