(* ===== verification/Dyn_Insert.thy ===== *)
theory Dyn_Insert
  imports Dyn_Heap
begin

text \<open>
  Insertion into the dynamic stage: the cursor \<^verbatim>\<open>tcursor\<close> of
  \<^verbatim>\<open>hybrid_index/masstree_tcursor.hh\<close> with its steps in \<^verbatim>\<open>masstree_get.hh\<close>,
  \<^verbatim>\<open>masstree_insert.hh\<close> and \<^verbatim>\<open>masstree_split.hh\<close>, and the list of leaves of
  \<^verbatim>\<open>btree_leaflink.hh\<close>, for nodes with a single-threaded version.

  A cursor looks for its key; when the key is absent it makes room for it, which may split the
  leaf and nodes above it up to the root, or put a new layer below a slot whose suffix shares the
  next slice with the key. The value is then stored through the cursor and \<^verbatim>\<open>finish\<close> makes
  the slot visible. Memory comes from a list of free addresses, the contents of fresh blocks are
  parameters (\<open>dpool\<close>). The result \<open>None\<close> means that an assertion failed, that the free list ran
  out or that a loop has no end.
\<close>

section \<open>Memory\<close>

record dpool =
  dp_leaf :: "u64 \<Rightarrow> leaf"
  dp_node :: "u64 \<Rightarrow> internode"
  dp_junk :: "u64 \<Rightarrow> nat \<Rightarrow> nat \<Rightarrow> byte"

record dmem =
  dm_heap :: dheap
  dm_free :: "u64 list"

definition dm_set :: "dmem \<Rightarrow> u64 \<Rightarrow> dnode \<Rightarrow> dmem" where
  "dm_set m a x = m\<lparr>dm_heap := (dm_heap m)(a \<mapsto> x)\<rparr>"

definition dm_leaf :: "dmem \<Rightarrow> u64 \<Rightarrow> leaf option" where
  "dm_leaf m a = (case dm_heap m a of Some (Leaf_Node l) \<Rightarrow> Some l | _ \<Rightarrow> None)"

definition dm_node :: "dmem \<Rightarrow> u64 \<Rightarrow> internode option" where
  "dm_node m a = (case dm_heap m a of Some (Inter_Node n) \<Rightarrow> Some n | _ \<Rightarrow> None)"

definition dm_alloc :: "dmem \<Rightarrow> (u64 \<times> dmem) option" where
  "dm_alloc m = (case dm_free m of [] \<Rightarrow> None | a # as \<Rightarrow> Some (a, m\<lparr>dm_free := as\<rparr>))"

definition dm_set_parent :: "dmem \<Rightarrow> u64 \<Rightarrow> u64 \<Rightarrow> dmem" where
  "dm_set_parent m a p =
     (case dm_heap m a of None \<Rightarrow> m | Some x \<Rightarrow> dm_set m a (nd_set_parent p x))"

section \<open>The list of leaves\<close>

definition link_split :: "dmem \<Rightarrow> u64 \<Rightarrow> u64 \<Rightarrow> dmem option" where
  "link_split m n nr =
     (case (dm_leaf m n, dm_leaf m nr) of
        (Some l, Some r) \<Rightarrow>
          (let m = dm_set m nr (Leaf_Node (r\<lparr>lf_prev := n, lf_next := lf_next l\<rparr>));
               m = dm_set m n (Leaf_Node (l\<lparr>lf_next := nr\<rparr>))
           in if lf_next l = 0 then Some m
              else (case dm_leaf m (lf_next l) of None \<Rightarrow> None
                    | Some x \<Rightarrow> Some (dm_set m (lf_next l) (Leaf_Node (x\<lparr>lf_prev := nr\<rparr>)))))
      | _ \<Rightarrow> None)"

section \<open>The cursor\<close>

record tcursor =
  tc_n :: u64
  tc_ka :: mkey
  tc_ki :: nat
  tc_kp :: int
  tc_root :: u64
  tc_state :: nat
  tc_original_n :: u64
  tc_original_v :: u32
  tc_updated_v :: u32
  tc_new_nodes :: "(u64 \<times> u32) list"

definition tc_make :: "tcursor \<Rightarrow> u64 \<Rightarrow> mkey \<Rightarrow> tcursor" where
  "tc_make raw root ka = raw\<lparr>tc_ka := ka, tc_root := root, tc_new_nodes := []\<rparr>"

definition lf_full_version_value :: "leaf \<Rightarrow> u32" where
  "lf_full_version_value l = push_bit 4 (lf_version l) + word_of_nat (lf_size l)"

definition tc_has_value :: "tcursor \<Rightarrow> bool" where
  "tc_has_value c \<longleftrightarrow> tc_kp c \<ge> 0"

definition tc_value :: "dmem \<Rightarrow> tcursor \<Rightarrow> u64 option" where
  "tc_value m c = map_option (\<lambda>l. lf_lv l ! nat (tc_kp c)) (dm_leaf m (tc_n c))"

definition tc_set_value :: "dmem \<Rightarrow> tcursor \<Rightarrow> u64 \<Rightarrow> dmem option" where
  "tc_set_value m c v =
     map_option (\<lambda>l. dm_set m (tc_n c) (Leaf_Node (l\<lparr>lf_lv := (lf_lv l)[nat (tc_kp c) := v]\<rparr>))) (dm_leaf m (tc_n c))"

definition tc_is_first_layer :: "tcursor \<Rightarrow> bool" where
  "tc_is_first_layer c \<longleftrightarrow> \<not> key_is_shifted (tc_ka c)"

definition tc_reset_retry :: "tcursor \<Rightarrow> tcursor \<times> u64" where
  "tc_reset_retry c = (c\<lparr>tc_ka := key_unshift_all (tc_ka c)\<rparr>, tc_root c)"

text \<open>
  The layer to go on with, 0 when the search ends in this leaf. Without other threads the first
  position found stands and the walk along the leaves is never taken.
\<close>

definition get_leaf_locked :: "dmem \<Rightarrow> tcursor \<Rightarrow> (dmem \<times> tcursor \<times> u64) option" where
  "get_leaf_locked m c =
     (case dm_leaf m (tc_n c) of None \<Rightarrow> None
      | Some n \<Rightarrow>
        (let (ki, kp) = lf_lower_with_position (tc_ka c) n;
             c = c\<lparr>tc_ki := ki, tc_kp := kp\<rparr>;
             i = nat kp; entry = lf_lv n ! i in
         if kp \<ge> 0 \<and> lf_is_layer n i then
           (case dm_heap m entry of None \<Rightarrow> None
            | Some x \<Rightarrow>
              if key_has_suffix (tc_ka c) \<and> \<not> nd_has_split x then Some (m, c\<lparr>tc_ka := key_shift (tc_ka c)\<rparr>, entry)
              else if nd_has_split x then
                (case unsplit_ancestor (dm_heap m) entry of None \<Rightarrow> None
                 | Some root \<Rightarrow> Some (dm_set m (tc_n c) (Leaf_Node (n\<lparr>lf_lv := (lf_lv n)[i := root]\<rparr>)),
                     c\<lparr>tc_ka := key_shift (tc_ka c)\<rparr>, root))
              else Some (m, c\<lparr>tc_ka := key_shift (tc_ka c)\<rparr>, entry))
         else Some (m, c, 0)))"

definition check_leaf_locked :: "dmem \<Rightarrow> tcursor \<Rightarrow> (dmem \<times> tcursor \<times> u64) option" where
  "check_leaf_locked m c =
     (case get_leaf_locked m c of None \<Rightarrow> None
      | Some (m, c, next_root) \<Rightarrow>
        if next_root \<noteq> 0 then Some (m, c, next_root)
        else
          (case dm_leaf m (tc_n c) of None \<Rightarrow> None
           | Some n \<Rightarrow>
             if tc_kp c \<ge> 0 then
               Some (m, if lf_ksuf_equals n (nat (tc_kp c)) (tc_ka c) (lf_keylenx n ! nat (tc_kp c)) then c
                  else c\<lparr>tc_kp := - 1\<rparr>, 0)
             else if tc_ki c = 0 \<and> lf_deleted_layer n then Some (m, tc_reset_retry c)
             else Some (m, c, 0)))"

text \<open>Where the cursor starts in a layer.\<close>

definition tc_reach :: "dmem \<Rightarrow> tcursor \<Rightarrow> u64 \<Rightarrow> tcursor option" where
  "tc_reach m c root =
     (case reach_leaf (dm_heap m) (tc_ka c) root of None \<Rightarrow> None
      | Some n \<Rightarrow> map_option (\<lambda>l. c\<lparr>tc_n := n, tc_original_n := n, tc_original_v := lf_full_version_value l\<rparr>)
           (dm_leaf m n))"

partial_function (option) find_locked_loop :: "dmem \<Rightarrow> tcursor \<Rightarrow> u64 \<Rightarrow> (dmem \<times> tcursor) option" where
  "find_locked_loop m c root =
     (case tc_reach m c root of None \<Rightarrow> None
      | Some c \<Rightarrow>
        (case check_leaf_locked m c of None \<Rightarrow> None
         | Some (m, c, root) \<Rightarrow>
           if root = 0 then Some (m, c\<lparr>tc_state := of_bool (tc_kp c \<ge> 0)\<rparr>) else find_locked_loop m c root))"

definition find_locked :: "dmem \<Rightarrow> tcursor \<Rightarrow> (dmem \<times> tcursor \<times> bool) option" where
  "find_locked m c = map_option (\<lambda>(m, c). (m, c, tc_kp c \<ge> 0)) (find_locked_loop m c (tc_root c))"

section \<open>A new layer\<close>

definition key_compare_key :: "mkey \<Rightarrow> mkey \<Rightarrow> int" where
  "key_compare_key a b = key_cmp a (k_ikey0 b) (k_len b)"

text \<open>
  The twig: one leaf per slice that both keys share. \<open>head\<close> and \<open>tail\<close> are addresses, \<open>n\<close> that of
  the leaf it grows from; the loop returns the keys where they diverge.
\<close>

partial_function (option) twig_loop ::
  "dpool \<Rightarrow> dmem \<Rightarrow> u64 \<Rightarrow> u64 \<Rightarrow> u64 \<Rightarrow> mkey \<Rightarrow> mkey \<Rightarrow> (u64 \<times> u32) list \<Rightarrow>
     (dmem \<times> u64 \<times> u64 \<times> mkey \<times> mkey \<times> (u64 \<times> u32) list) option" where
  "twig_loop P m n head tail oka ka new_nodes =
     (if key_compare_key oka ka \<noteq> 0 then Some (m, head, tail, oka, ka, new_nodes)
      else
        (case (dm_leaf m tail, dm_alloc m) of
           (Some lt, Some (a, m)) \<Rightarrow>
             (case lf_make_root (dp_leaf P a) (dp_junk P a 0) 0 (Some lt) of None \<Rightarrow> None
              | Some nl \<Rightarrow>
                (case lf_assign_initialize_for_layer nl 0 oka of None \<Rightarrow> None
                 | Some nl \<Rightarrow>
                   (let m = (if head \<noteq> n then dm_set m tail (Leaf_Node (lt\<lparr>lf_lv := (lf_lv lt)[0 := a]\<rparr>)) else m);
                        head = (if head \<noteq> n then head else a);
                        nl = nl\<lparr>lf_permutation := kp_make_sorted leaf_width 1\<rparr>;
                        m = dm_set m a (Leaf_Node nl)
                    in twig_loop P m n head a (key_shift oka) (key_shift ka)
                         (new_nodes @ [(a, lf_full_version_value nl)]))))
         | _ \<Rightarrow> None))"

text \<open>The leaf at the end of the twig: both keys, the old one with its value live.\<close>

definition twig_leaf :: "dpool \<Rightarrow> u64 \<Rightarrow> leaf \<Rightarrow> mkey \<Rightarrow> mkey \<Rightarrow> u64 \<Rightarrow> leaf option" where
  "twig_leaf P a tail oka ka old_lv =
     (let kc = key_compare_key oka ka;
          ksufsize = (if key_has_suffix ka \<or> key_has_suffix oka
            then nat (max 0 (key_suffix_length ka) + max 0 (key_suffix_length oka)) * (leaf_width div 2)
              + sb_overhead 1 leaf_width
            else 0)
      in case lf_make_root (dp_leaf P a) (dp_junk P a 0) ksufsize (Some tail) of None \<Rightarrow> None
         | Some nl \<Rightarrow>
           (case lf_assign_initialize nl 0 (if kc < 0 then oka else ka) (dp_junk P a 1) of None \<Rightarrow> None
            | Some nl \<Rightarrow>
              (case lf_assign_initialize nl 1 (if kc < 0 then ka else oka) (dp_junk P a 2) of None \<Rightarrow> None
               | Some nl \<Rightarrow> Some (nl\<lparr>lf_lv := (lf_lv nl)[of_bool (kc > 0) := old_lv],
                   lf_permutation := (if kc < 0 then kp_make_sorted leaf_width 1
                     else kp_remove_to_back leaf_width (kp_make_sorted leaf_width 2) 0)\<rparr>))))"

definition check_leaf_new_layer :: "dpool \<Rightarrow> dmem \<Rightarrow> tcursor \<Rightarrow> (dmem \<times> tcursor) option" where
  "check_leaf_new_layer P m c =
     (case dm_leaf m (tc_n c) of None \<Rightarrow> None
      | Some l \<Rightarrow>
        (let n = tc_n c; kp = nat (tc_kp c); suf = lf_ksuf_at l kp;
             oka = key_make (mem_of 0 suf) 0 (int (length suf)); ka = key_shift (tc_ka c) in
         case twig_loop P m n n n oka ka (tc_new_nodes c) of None \<Rightarrow> None
         | Some (m, head, tail, oka, ka, new_nodes) \<Rightarrow>
           (case (dm_leaf m tail, dm_alloc m) of
              (Some lt, Some (a, m)) \<Rightarrow>
                (case twig_leaf P a lt oka ka (lf_lv l ! kp) of None \<Rightarrow> None
                 | Some nl \<Rightarrow>
                   (let m = dm_set m a (Leaf_Node nl);
                        m = (if tail \<noteq> n then dm_set m tail (Leaf_Node (lt\<lparr>lf_lv := (lf_lv lt)[0 := a]\<rparr>)) else m);
                        l = l\<lparr>lf_lv := (lf_lv l)[kp := if head \<noteq> n then head else a],
                              lf_keylenx := (lf_keylenx l)[kp := layer_keylenx]\<rparr>;
                        m = dm_set m n (Leaf_Node l);
                        ki = of_bool (key_compare_key oka ka < 0)
                    in Some (m, c\<lparr>tc_ka := ka, tc_n := a, tc_ki := ki, tc_kp := int ki,
                         tc_updated_v := lf_full_version_value l, tc_new_nodes := new_nodes\<rparr>)))
            | _ \<Rightarrow> None)))"

section \<open>Splitting up to the root\<close>

definition set_parents :: "dmem \<Rightarrow> u64 list \<Rightarrow> u64 \<Rightarrow> dmem" where
  "set_parents m cs p = fold (\<lambda>c m. dm_set_parent m c p) cs m"

text \<open>
  The upper half of a round of \<^verbatim>\<open>finish_split\<close>: \<open>child\<close> goes right of \<open>n\<close> into the parent. When
  the parent is split for it, the result names the parent, its new sibling and their separator.
\<close>

definition new_root :: "dpool \<Rightarrow> dmem \<Rightarrow> u64 \<Rightarrow> u64 \<Rightarrow> u64 \<Rightarrow> dmem option" where
  "new_root P m n child ikey =
     (case dm_alloc m of None \<Rightarrow> None
      | Some (a, m) \<Rightarrow>
        (let nn = in_make (dp_node P a);
             nn = in_assign (nn\<lparr>in_child := (in_child nn)[0 := n]\<rparr>) 0 ikey child;
             nn = nn\<lparr>in_nkeys := 1, in_parent := 0, in_version := nv_mark_root nodeversion32_parameters (in_version nn)\<rparr>
         in Some (dm_set_parent (dm_set_parent (dm_set m a (Inter_Node nn)) child a) n a)))"

definition insert_in_parent ::
  "dpool \<Rightarrow> dmem \<Rightarrow> u64 \<Rightarrow> u64 \<Rightarrow> u64 \<Rightarrow> nat \<Rightarrow> (dmem \<times> (u64 \<times> u64 \<times> u64) option) option" where
  "insert_in_parent P m n child ikey split_type =
     (case dm_heap m n of None \<Rightarrow> None
      | Some x \<Rightarrow>
        let p = nd_parent x in
        if \<not> parent_exists p then map_option (\<lambda>m. (m, None)) (new_root P m n child ikey)
        else
          (case dm_node m p of None \<Rightarrow> None
           | Some pn \<Rightarrow>
             let kp = in_upper ikey pn in
             if in_size pn < internode_width then
               Some (dm_set_parent (dm_set m p (Inter_Node (in_insert pn kp ikey child))) child p, None)
             else
               (case dm_alloc m of None \<Rightarrow> None
                | Some (a, m) \<Rightarrow>
                  let next_child = (in_make (dp_node P a))\<lparr>in_version :=
                        nv_mark_nonroot nodeversion32_parameters (in_version pn)\<rparr>;
                      (kp', pn, next_child, ikey') = in_split_into pn next_child kp ikey child split_type;
                      m = set_parents (dm_set m a (Inter_Node next_child)) (in_children next_child) a
                  in Some
                    (case kp' of
                       None \<Rightarrow> (dm_set m p (Inter_Node pn), Some (p, a, ikey'))
                     | Some kp \<Rightarrow> (dm_set_parent (dm_set m p (Inter_Node (in_insert pn kp ikey child))) child p,
                         Some (p, a, ikey'))))))"

text \<open>The lower half, for the two leaves.\<close>

definition split_leaves ::
  "dpool \<Rightarrow> dmem \<Rightarrow> tcursor \<Rightarrow> u64 \<Rightarrow> u64 \<Rightarrow> nat \<Rightarrow> (dmem \<times> tcursor) option" where
  "split_leaves P m c n child split_type =
     (case (dm_leaf m n, dm_leaf m child) of
        (Some nl, Some nr) \<Rightarrow>
          let nl = lf_split_left nl (lf_size nr) in
          if split_type = 0 then
            (let kp = kp_back leaf_width (lf_permutation nl) in
             map_option (\<lambda>l. (dm_set m n (Leaf_Node l),
                 c\<lparr>tc_kp := int kp, tc_new_nodes := tc_new_nodes c @ [(child, lf_full_version_value nr)]\<rparr>))
               (lf_assign nl kp (tc_ka c) (dp_junk P n 0)))
          else
            (let ki = tc_ki c - lf_size nl in
             Some (dm_set m n (Leaf_Node nl),
               c\<lparr>tc_n := child, tc_ki := ki, tc_kp := int ki, tc_updated_v := lf_full_version_value nl\<rparr>))
      | _ \<Rightarrow> None)"

partial_function (option) finish_split_loop ::
  "dpool \<Rightarrow> dmem \<Rightarrow> tcursor \<Rightarrow> u64 \<Rightarrow> u64 \<Rightarrow> u64 \<Rightarrow> nat \<Rightarrow> (dmem \<times> tcursor) option" where
  "finish_split_loop P m c n child ikey split_type =
     (case insert_in_parent P m n child ikey split_type of None \<Rightarrow> None
      | Some (m, next) \<Rightarrow>
        (case (if dm_leaf m n = None then Some (m, c) else split_leaves P m c n child split_type) of None \<Rightarrow> None
         | Some (m, c) \<Rightarrow>
           (case next of
              None \<Rightarrow> Some (m, c)
            | Some (p, next_child, ikey) \<Rightarrow> finish_split_loop P m c p next_child ikey split_type)))"

text \<open>The start: perhaps the slot at the back can be exchanged for one that is free to use.\<close>

definition rearrange :: "leaf \<Rightarrow> u64 \<times> nat" where
  "rearrange l =
     (let perm = kp_exchange (lf_permutation l) (lf_size l) (leaf_width - 1)
      in (perm, kp_back leaf_width perm))"

definition finish_split :: "dpool \<Rightarrow> dmem \<Rightarrow> tcursor \<Rightarrow> (dmem \<times> tcursor) option" where
  "finish_split P m c =
     (case dm_leaf m (tc_n c) of None \<Rightarrow> None
      | Some l \<Rightarrow>
        if lf_size l < leaf_width \<and> snd (rearrange l) \<noteq> 0 then
          (case rearrange l of (perm, kp) \<Rightarrow>
             map_option (\<lambda>l. (dm_set m (tc_n c) (Leaf_Node l), c\<lparr>tc_kp := int kp\<rparr>))
               (lf_assign (l\<lparr>lf_permutation := perm\<rparr>) kp (tc_ka c) (dp_junk P (tc_n c) 0)))
        else
          (case dm_alloc m of None \<Rightarrow> None
           | Some (a, m) \<Rightarrow>
             (case lf_make (dp_leaf P a) (dp_junk P a 0) (lf_ksuf_used_capacity l) (lf_node_ts l) of None \<Rightarrow> None
              | Some child \<Rightarrow>
                (case lf_split_into l (child\<lparr>lf_version := lf_version l\<rparr>) (tc_ki c) (tc_ka c) (dp_junk P a) of
                   None \<Rightarrow> None
                 | Some (split_type, child, ikey) \<Rightarrow>
                   (case link_split (dm_set m a (Leaf_Node child)) (tc_n c) a of None \<Rightarrow> None
                    | Some m \<Rightarrow> finish_split_loop P m c (tc_n c) a ikey split_type)))))"

section \<open>Inserting\<close>

datatype insert_step = Next_Root u64 | Insert_Marker | Found_Marker

definition check_leaf_insert :: "dpool \<Rightarrow> dmem \<Rightarrow> tcursor \<Rightarrow> (dmem \<times> tcursor \<times> insert_step) option" where
  "check_leaf_insert P m c =
     (case get_leaf_locked m c of None \<Rightarrow> None
      | Some (m, c, next_root) \<Rightarrow>
        if next_root \<noteq> 0 then Some (m, c, Next_Root next_root)
        else
          (case dm_leaf m (tc_n c) of None \<Rightarrow> None
           | Some n \<Rightarrow>
             if tc_kp c \<ge> 0 then
               (if lf_ksuf_equals n (nat (tc_kp c)) (tc_ka c) (lf_keylenx n ! nat (tc_kp c))
                then Some (m, c, Found_Marker)
                else map_option (\<lambda>(m, c). (m, c, Insert_Marker)) (check_leaf_new_layer P m c))
             else if lf_modstate n = modstate_deleted_layer then
               (let (c, root) = tc_reset_retry c in Some (m, c, Next_Root root))
             else
               (let n = n\<lparr>lf_modstate := modstate_insert\<rparr>;
                    m = dm_set m (tc_n c) (Leaf_Node n);
                    kp = kp_back leaf_width (lf_permutation n);
                    c = (if lf_size n < leaf_width then c\<lparr>tc_kp := int kp\<rparr> else c) in
                if lf_size n < leaf_width \<and> (kp \<noteq> 0 \<or> lf_prev n = 0 \<or> lf_ikey_bound n = k_ikey0 (tc_ka c)) then
                  map_option (\<lambda>n. (dm_set m (tc_n c) (Leaf_Node n), c, Insert_Marker))
                    (lf_assign n kp (tc_ka c) (dp_junk P (tc_n c) 0))
                else map_option (\<lambda>(m, c). (m, c, Insert_Marker)) (finish_split P m c))))"

partial_function (option) find_insert_loop ::
  "dpool \<Rightarrow> dmem \<Rightarrow> tcursor \<Rightarrow> u64 \<Rightarrow> (dmem \<times> tcursor \<times> bool) option" where
  "find_insert_loop P m c root =
     (case tc_reach m c root of None \<Rightarrow> None
      | Some c \<Rightarrow>
        (case check_leaf_insert P m c of None \<Rightarrow> None
         | Some (m, c, Next_Root root) \<Rightarrow> find_insert_loop P m c root
         | Some (m, c, Insert_Marker) \<Rightarrow> Some (m, c\<lparr>tc_state := 2\<rparr>, False)
         | Some (m, c, Found_Marker) \<Rightarrow> Some (m, c\<lparr>tc_state := 3\<rparr>, True)))"

definition find_insert :: "dpool \<Rightarrow> dmem \<Rightarrow> tcursor \<Rightarrow> (dmem \<times> tcursor \<times> bool) option" where
  "find_insert P m c = find_insert_loop P m c (tc_root c)"

definition tc_finish_insert :: "dmem \<Rightarrow> tcursor \<Rightarrow> dmem option" where
  "tc_finish_insert m c =
     (case dm_leaf m (tc_n c) of None \<Rightarrow> None
      | Some n \<Rightarrow>
        if int (kp_back leaf_width (lf_permutation n)) = tc_kp c
        then Some (dm_set m (tc_n c) (Leaf_Node (lf_finish_insert n (tc_ki c)))) else None)"

end
