(* ===== verification/Dyn_Layer.thy ===== *)
theory Dyn_Layer
  imports Dyn_Heap
begin

text \<open>
  A layer seen as one sorted list of rows, with the layers below in the order of its layer slots,
  and the list of all layers in the order a walk with a queue meets them. The leaves of a layer
  form a list through their \<^verbatim>\<open>next_\<close> pointers; it starts at the leaf \<^verbatim>\<open>leftmost\<close> finds.
\<close>

section \<open>The rows of a layer\<close>

lemma layer_rows_append [simp]: "layer_rows (xs @ ys) = layer_rows xs @ layer_rows ys"
  by (simp add: layer_rows_def)

lemma layer_rows_concat: "layer_rows (concat xss) = concat (map layer_rows xss)"
  by (induction xss) (simp_all add: layer_rows_def)

lemma dt_children:
  assumes "dt_ok lo hi (DN a n ts)" "t \<in> set ts"
  obtains l' h' where "dt_ok l' h' t" "lo \<le> l'" "h' \<le> hi"
proof -
  obtain i where i: "i < length ts" "t = ts ! i" using assms(2) by (metis in_set_conv_nth)
  note range = child_range [OF assms(1) i(1)]
  show thesis by (rule that [OF _ range(4,5)]) (use range(3) i(2) in simp)
qed

lemma subs_ok: "dt_ok lo hi t \<Longrightarrow> u \<in> set (dt_subs t) \<Longrightarrow> dt_root u \<and> dt_ok 0 (2 ^ 64) u"
proof (induction t arbitrary: lo hi)
  case (DN a n ts)
  from DN.prems(2) obtain t where t: "t \<in> set ts" "u \<in> set (dt_subs t)" by auto
  obtain l' h' where "dt_ok l' h' t" by (rule dt_children [OF DN.prems(1) t(1)])
  with DN.IH t show ?case by blast
qed simp

lemma holds_subs: "holds h t \<Longrightarrow> u \<in> set (dt_subs t) \<Longrightarrow> holds h u"
  by (induction t) (auto simp: holds_simps)

lemma subs_pointed: "dt_ok lo hi t \<Longrightarrow> list_all2 points_into (layer_rows (dt_rows t)) (dt_subs t)"
proof (induction t arbitrary: lo hi)
  case (DN a n ts)
  have "list_all2 points_into (layer_rows (dt_rows t)) (dt_subs t)" if t: "t \<in> set ts" for t
  proof -
    obtain l' h' where "dt_ok l' h' t" by (rule dt_children [OF DN.prems t])
    with DN.IH t show ?thesis by blast
  qed
  then have "list_all2 points_into (concat (map (layer_rows \<circ> dt_rows) us)) (concat (map dt_subs us))" if "set us \<subseteq> set ts" for us
    using that by (induction us) (auto intro: list_all2_appendI)
  then show ?case by (simp add: layer_rows_concat comp_def)
qed simp

lemma rows_ok_append:
  "rows_ok xs \<Longrightarrow> rows_ok ys \<Longrightarrow> (\<And>x y. x \<in> set xs \<Longrightarrow> y \<in> set ys \<Longrightarrow> slot_ikey x < slot_ikey y) \<Longrightarrow> rows_ok (xs @ ys)"
  by (auto simp: rows_ok_def sorted_wrt_append slot_less_def)

lemma rows_ok_layer: "dt_ok lo hi t \<Longrightarrow> rows_ok (dt_rows t)"
proof (induction t arbitrary: lo hi)
  case (DL a l us)
  then show ?case by (simp add: lf_sorted_def)
next
  case (DN a n ts)
  let ?ks = "map unat (in_keys n)"
  have ok: "in_ok n" "in_children n = map dt_addr ts" "sorted_wrt (<) (lo # ?ks @ [hi])"
    using DN.prems by simp_all
  have len: "length ts = length ?ks + 1" using in_lengths [OF ok(1)] ok(2) by (metis length_map)
  have "rows_ok (concat (map dt_rows (take i ts))) \<and>
      (\<forall>x \<in> set (concat (map dt_rows (take i ts))). unat (slot_ikey x) < (lo # ?ks @ [hi]) ! i \<or> i = 0)"
    if "i \<le> length ts" for i
    using that
  proof (induction i)
    case (Suc i)
    then have i: "i < length ts" by simp
    note range = child_range [OF DN.prems i]
    have up: "(?ks @ [hi]) ! i = (lo # ?ks @ [hi]) ! Suc i" "(lo # ?ks) ! i = (lo # ?ks @ [hi]) ! i"
      using i len by (cases i; simp add: nth_append)+
    have less: "(lo # ?ks @ [hi]) ! i < (lo # ?ks @ [hi]) ! Suc i"
      by (rule sorted_wrt_nth_less [OF ok(3)]) (use i len in simp_all)
    have IH: "rows_ok (concat (map dt_rows (take i ts)))"
        "\<And>x. x \<in> set (concat (map dt_rows (take i ts))) \<Longrightarrow> unat (slot_ikey x) < (lo # ?ks @ [hi]) ! i"
      using Suc by auto
    have new: "rows_ok (dt_rows (ts ! i))" using DN.IH [OF nth_mem [OF i] range(3)] .
    have rng: "(lo # ?ks @ [hi]) ! i \<le> unat (slot_ikey x) \<and> unat (slot_ikey x) < (lo # ?ks @ [hi]) ! Suc i"
      if "x \<in> set (dt_rows (ts ! i))" for x
      using rows_range [OF range(3) that] by (simp only: up)
    have "rows_ok (concat (map dt_rows (take i ts)) @ dt_rows (ts ! i))"
      by (rule rows_ok_append [OF IH(1) new]) (use IH(2) rng in \<open>fastforce simp: word_less_nat_alt\<close>)
    moreover have "unat (slot_ikey x) < (lo # ?ks @ [hi]) ! Suc i"
      if "x \<in> set (concat (map dt_rows (take i ts)) @ dt_rows (ts ! i))" for x
      using that IH(2) [of x] rng [of x] less unfolding set_append Un_iff by (meson less_trans)
    ultimately show ?case using i by (simp add: take_Suc_conv_app_nth)
  qed (simp add: rows_ok_def)
  from this [of "length ts"] show ?case by simp
qed

lemma rows_store_append:
  "length Ps = length (layer_rows xs) \<Longrightarrow>
     rows_store (xs @ ys) (Ps @ Qs) s v \<longleftrightarrow> rows_store xs Ps s v \<or> rows_store ys Qs s v"
  by (auto simp: rows_store_def)

lemma stores_rows: "dt_ok lo hi t \<Longrightarrow> dt_stores t s v \<longleftrightarrow> rows_store (dt_rows t) (map dt_stores (dt_subs t)) s v"
proof (induction t arbitrary: lo hi)
  case (DN a n ts)
  have sub: "length (dt_subs t) = length (layer_rows (dt_rows t))"
      "dt_stores t s v \<longleftrightarrow> rows_store (dt_rows t) (map dt_stores (dt_subs t)) s v" if t: "t \<in> set ts" for t
  proof -
    obtain l' h' where ok: "dt_ok l' h' t" by (rule dt_children [OF DN.prems t])
    show "length (dt_subs t) = length (layer_rows (dt_rows t))" using list_all2_lengthD [OF subs_pointed [OF ok]] by simp
    show "dt_stores t s v \<longleftrightarrow> rows_store (dt_rows t) (map dt_stores (dt_subs t)) s v" by (rule DN.IH [OF t ok])
  qed
  have "list_ex (\<lambda>P. P s v) (map dt_stores us) \<longleftrightarrow>
      rows_store (concat (map dt_rows us)) (map dt_stores (concat (map dt_subs us))) s v" if "set us \<subseteq> set ts" for us
    using that
  proof (induction us)
    case Nil
    then show ?case by (simp add: rows_store_def layer_rows_def)
  next
    case (Cons u us)
    then show ?case using sub [of u] rows_store_append [of "map dt_stores (dt_subs u)" "dt_rows u"] by simp
  qed
  from this [of ts] show ?case by simp
qed simp

lemma layer_row_at:
  "i < length rows \<Longrightarrow> keylenx_is_layer (slot_kl (rows ! i)) \<Longrightarrow>
     length (layer_rows (take i rows)) < length (layer_rows rows) \<and>
     layer_rows rows ! length (layer_rows (take i rows)) = rows ! i"
proof -
  assume i: "i < length rows" "keylenx_is_layer (slot_kl (rows ! i))"
  have "layer_rows rows = layer_rows (take i rows @ rows ! i # drop (Suc i) rows)"
    by (rule arg_cong [OF id_take_nth_drop [OF i(1)]])
  also have "\<dots> = layer_rows (take i rows) @ rows ! i # layer_rows (drop (Suc i) rows)"
    using i(2) by (simp add: layer_rows_def)
  finally show ?thesis by simp
qed

lemma layer_row_index:
  "k < length (layer_rows rows) \<Longrightarrow>
     \<exists>i < length rows. keylenx_is_layer (slot_kl (rows ! i)) \<and> k = length (layer_rows (take i rows))"
proof (induction rows rule: rev_induct)
  case (snoc r rows)
  show ?case
  proof (cases "k < length (layer_rows rows)")
    case True
    with snoc.IH obtain i where "i < length rows" "keylenx_is_layer (slot_kl (rows ! i))"
        "k = length (layer_rows (take i rows))" by blast
    then show ?thesis by (intro exI [of _ i]) (simp add: nth_append)
  next
    case False
    then have "keylenx_is_layer (slot_kl r) \<and> k = length (layer_rows rows)"
      using snoc.prems by (auto simp: layer_rows_def split: if_splits)
    then show ?thesis by (intro exI [of _ "length rows"]) simp
  qed
qed (simp add: layer_rows_def)

lemma rows_store_iff:
  assumes "length Ps = length (layer_rows rows)"
  shows "rows_store rows Ps s v \<longleftrightarrow> (\<exists>r \<in> set rows. row_stores r s v) \<or>
     (\<exists>k < length (layer_rows rows). row_leads (layer_rows rows ! k) s \<and> (Ps ! k) (drop 8 s) v)"
  using assms unfolding rows_store_def list_ex_iff [of _ rows] list_ex_length [of _ "zip (layer_rows rows) Ps"]
  by (simp cong: conj_cong)

section \<open>The list of leaves\<close>

primrec dt_leaves :: "dtree \<Rightarrow> (u64 \<times> leaf) list" where
  "dt_leaves (DL a l us) = [(a, l)]"
| "dt_leaves (DN a n ts) = concat (map dt_leaves ts)"

fun leaf_chain :: "(u64 \<times> leaf) list \<Rightarrow> bool" where
  "leaf_chain [] \<longleftrightarrow> True"
| "leaf_chain [x] \<longleftrightarrow> lf_safe_next (snd x) = 0"
| "leaf_chain (x # y # xs) \<longleftrightarrow> lf_safe_next (snd x) = fst y \<and> leaf_chain (y # xs)"

lemma rows_leaves: "dt_rows t = concat (map (lf_rows \<circ> snd) (dt_leaves t))"
proof (induction t)
  case (DN a n ts)
  then have "concat (map dt_rows us) = concat (map (lf_rows \<circ> snd) (concat (map dt_leaves us)))" if "set us \<subseteq> set ts" for us
    using that by (induction us) auto
  from this [of ts] show ?case by (simp only: dt_rows.simps dt_leaves.simps subset_refl)
qed simp

lemma holds_leaves: "holds h t \<Longrightarrow> (a, l) \<in> set (dt_leaves t) \<Longrightarrow> h a = Some (Leaf_Node l) \<and> a \<noteq> 0"
  by (induction t) (auto simp: holds_simps)

lemma leaves_sorted: "dt_ok lo hi t \<Longrightarrow> (a, l) \<in> set (dt_leaves t) \<Longrightarrow> lf_sorted l"
proof (induction t arbitrary: lo hi)
  case (DN b n ts)
  from DN.prems(2) obtain t where t: "t \<in> set ts" "(a, l) \<in> set (dt_leaves t)" by auto
  obtain l' h' where "dt_ok l' h' t" by (rule dt_children [OF DN.prems(1) t(1)])
  with DN.IH t show ?case by blast
qed simp

lemma leftmost_loop_ok:
  "dt_ok lo hi t \<Longrightarrow> holds h t \<Longrightarrow> \<exists>x xs. dt_leaves t = x # xs \<and> leftmost_loop h (dt_addr t) = Some (fst x)"
proof (induction t arbitrary: lo hi)
  case (DL a l us)
  then show ?case by (simp add: holds_simps leftmost_loop.simps [of h a])
next
  case (DN a n ts)
  have ok: "in_ok n" "in_children n = map dt_addr ts" using DN.prems(1) by simp_all
  note len = in_lengths [OF ok(1)]
  then obtain t ts' where ts: "ts = t # ts'" using ok(2) by (cases ts) auto
  have "t \<in> set ts" by (simp add: ts)
  then obtain l' h' where "dt_ok l' h' t" by (rule dt_children [OF DN.prems(1)])
  moreover have "holds h t" using DN.prems(2) by (simp add: holds_simps ts)
  ultimately obtain x xs where "dt_leaves t = x # xs" "leftmost_loop h (dt_addr t) = Some (fst x)"
    using DN.IH [of t] unfolding ts by (meson list.set_intros(1))
  moreover have "in_child n ! 0 = dt_addr t"
    using ok(2) ts by (cases "in_child n") (simp_all add: in_children_def)
  ultimately show ?case using DN.prems(2) by (simp add: ts holds_simps leftmost_loop.simps [of h a])
qed

lemma leftmost_ok:
  assumes "dt_ok lo hi t" "dt_root t" "holds h t" "p \<in> fst ` set (dt_spine t)"
  shows "\<exists>x xs. dt_leaves t = x # xs \<and> leftmost h p = Some (fst x)"
  using ancestor_root(1) [OF assms] leftmost_loop_ok [OF assms(1,3)] by (simp add: leftmost_def)

section \<open>The order of a walk over the layers\<close>

lemma subs_size: "sum_list (map size (dt_subs t)) < size t"
proof (induction t)
  case (DL a l us)
  have "sum_list (map size us) \<le> size_list size us" by (induction us) auto
  then show ?case by simp
next
  case (DN a n ts)
  then have "sum_list (map size (concat (map dt_subs us))) \<le> size_list size us" if "set us \<subseteq> set ts" for us
    using that by (induction us) fastforce+
  from this [of ts] show ?case by simp
qed

text \<open>
  Each layer with its place in the order and the place of the first layer below it, for a queue
  whose first layer has place \<open>c\<close>.
\<close>

function dt_walk :: "nat \<Rightarrow> dtree list \<Rightarrow> (nat \<times> nat \<times> dtree) list" where
  "dt_walk c [] = []"
| "dt_walk c (u # us) = (c, c + length (u # us), u) # dt_walk (c + 1) (us @ dt_subs u)"
  by pat_completeness auto
termination
  by (relation "measure (\<lambda>(c, us). sum_list (map size us))") (auto simp: subs_size)

lemma dt_walk_places: "map fst (dt_walk c us) = [c..<c + length (dt_walk c us)]"
  by (induction c us rule: dt_walk.induct) (simp_all add: upt_conv_Cons del: upt_Suc)

lemma dt_walk_queue: "length us \<le> length (dt_walk c us)"
  by (induction c us rule: dt_walk.induct) simp_all

lemma dt_walk_at: "(k, d, u) \<in> set (dt_walk c us) \<Longrightarrow> c \<le> k \<and> k - c < length (dt_walk c us) \<and> dt_walk c us ! (k - c) = (k, d, u)"
proof -
  assume "(k, d, u) \<in> set (dt_walk c us)"
  then obtain i where i: "i < length (dt_walk c us)" "dt_walk c us ! i = (k, d, u)" by (metis in_set_conv_nth)
  then have "map fst (dt_walk c us) ! i = k" by simp
  then have "k = c + i" using i(1) by (simp add: dt_walk_places)
  with i show ?thesis by simp
qed

lemma dt_walk_below:
  "(k, d, u) \<in> set (dt_walk c us) \<Longrightarrow> d + length (dt_subs u) \<le> c + length (dt_walk c us)"
proof (induction c us rule: dt_walk.induct)
  case (2 c v us)
  have "length (us @ dt_subs v) \<le> length (dt_walk (c + 1) (us @ dt_subs v))" by (rule dt_walk_queue)
  with 2 show ?case by auto
qed simp

lemma dt_walk_ok:
  "(k, d, x) \<in> set (dt_walk c us) \<Longrightarrow> \<forall>u \<in> set us. dt_ok 0 (2 ^ 64) u \<Longrightarrow> dt_ok 0 (2 ^ 64) x"
proof (induction c us rule: dt_walk.induct)
  case (2 c v us)
  then have "\<forall>u \<in> set (us @ dt_subs v). dt_ok 0 (2 ^ 64) u" using subs_ok [of 0 "2 ^ 64" v] by auto
  with 2 show ?case by auto
qed simp

end
