(* ===== verification/Build_Static.thy ===== *)
theory Build_Static
  imports Dyn_Layer Static_Stage
begin

text \<open>
  Building the static stage from the dynamic one: \<^verbatim>\<open>buildStatic\<close>,
  \<^verbatim>\<open>buildStaticMultivalue\<close>, \<^verbatim>\<open>buildStaticDynamicvalue\<close> and \<^verbatim>\<open>buildStatic_quick\<close> of
  \<^verbatim>\<open>hybrid_index/masstree_get.hh\<close>. Each layer becomes one packed node: its rows are collected
  along the list of leaves, and a node is written slot by slot. A layer slot first gets the number
  its node will have (nodes are made breadth first), in the end all numbers are replaced by
  addresses.

  The source writes the loop three times for the three kinds of node; as for the cursors the model
  writes it once over a dictionary \<open>build_ops\<close>. The locale \<open>node_builder\<close> states what a kind of
  node has to provide; under it the trie that is built is well-formed and stores what the dynamic
  tree stores, except for the empty key, whose slot counts as removed.
\<close>

section \<open>The methods of a node that is being written\<close>

record 'n build_ops =
  bo_ops :: "'n node_ops"
  bo_make :: "(nat \<Rightarrow> byte) \<Rightarrow> nat \<Rightarrow> nat \<Rightarrow> nat \<Rightarrow> 'n"
  bo_set_ikey :: "'n \<Rightarrow> nat \<Rightarrow> u64 \<Rightarrow> 'n"
  bo_set_ksuf_offset :: "'n \<Rightarrow> nat \<Rightarrow> nat \<Rightarrow> 'n"
  bo_put_ksuf :: "'n \<Rightarrow> nat \<Rightarrow> byte list \<Rightarrow> 'n"
  bo_put_value :: "'n \<Rightarrow> nat \<Rightarrow> nat \<Rightarrow> u64 \<Rightarrow> 'n \<times> nat"
  bo_value_len :: "u64 \<Rightarrow> nat"

text \<open>\<open>col0\<close> reads the first column of the row that a leaf value points to.\<close>

definition mn_put_ksuf :: "massnode \<Rightarrow> nat \<Rightarrow> byte list \<Rightarrow> massnode" where
  "mn_put_ksuf n curpos s = n\<lparr>mn_mem := poke (mn_mem n) (mn_get_ksuf n + curpos) s\<rparr>"

definition mn_build_ops :: "(u64 \<Rightarrow> byte list) \<Rightarrow> massnode build_ops" where
  "mn_build_ops col0 = \<lparr>bo_ops = mn_ops, bo_make = (\<lambda>raw ksufSize valueSize nkeys. mn_make raw ksufSize True nkeys),
     bo_set_ikey = mn_set_ikey, bo_set_ksuf_offset = mn_set_ksuf_offset, bo_put_ksuf = mn_put_ksuf,
     bo_put_value = (\<lambda>n i curpos lv. (mn_set_lv n i (lvs_of_value (col0 lv)), curpos)), bo_value_len = (\<lambda>lv. 0)\<rparr>"

definition mv_put_ksuf :: "massnode_multivalue \<Rightarrow> nat \<Rightarrow> byte list \<Rightarrow> massnode_multivalue" where
  "mv_put_ksuf n curpos s = n\<lparr>mv_mem := poke (mv_mem n) (mv_get_ksuf n + curpos) s\<rparr>"

definition mv_put_value ::
  "(u64 \<Rightarrow> byte list) \<Rightarrow> massnode_multivalue \<Rightarrow> nat \<Rightarrow> nat \<Rightarrow> u64 \<Rightarrow> massnode_multivalue \<times> nat" where
  "mv_put_value col0 n i curpos lv =
     (let n = mv_set_lv n i (lvm_make curpos (length (col0 lv)))
      in (n\<lparr>mv_mem := poke (mv_mem n) (mv_get_value n + curpos) (col0 lv)\<rparr>, curpos + length (col0 lv)))"

definition mv_build_ops :: "(u64 \<Rightarrow> byte list) \<Rightarrow> massnode_multivalue build_ops" where
  "mv_build_ops col0 = \<lparr>bo_ops = mv_ops, bo_make = mv_make,
     bo_set_ikey = mv_set_ikey, bo_set_ksuf_offset = mv_set_ksuf_offset, bo_put_ksuf = mv_put_ksuf,
     bo_put_value = mv_put_value col0, bo_value_len = (\<lambda>lv. length (col0 lv))\<rparr>"

definition md_put_ksuf :: "massnode_dynamicvalue \<Rightarrow> nat \<Rightarrow> byte list \<Rightarrow> massnode_dynamicvalue" where
  "md_put_ksuf n curpos s = n\<lparr>md_mem := poke (md_mem n) (md_get_ksuf n + curpos) s\<rparr>"

definition md_build_ops :: "massnode_dynamicvalue build_ops" where
  "md_build_ops = \<lparr>bo_ops = md_ops, bo_make = (\<lambda>raw ksufSize valueSize nkeys. md_make raw ksufSize nkeys),
     bo_set_ikey = md_set_ikey, bo_set_ksuf_offset = md_set_ksuf_offset, bo_put_ksuf = md_put_ksuf,
     bo_put_value = (\<lambda>n i curpos lv. (md_set_lv n i lv, curpos)), bo_value_len = (\<lambda>lv. 0)\<rparr>"

section \<open>The builder\<close>

text \<open>The rows of a layer, along its list of leaves.\<close>

partial_function (option) bs_collect :: "dheap \<Rightarrow> u64 \<Rightarrow> node_slot list \<Rightarrow> node_slot list option" where
  "bs_collect h n rows =
     (case h n of
        Some (Leaf_Node l) \<Rightarrow>
          (let rows = rows @ map (\<lambda>i. lf_slot l (kp_at (lf_permutation l) i)) [0..<lf_size l];
               next = lf_safe_next l
           in if next \<noteq> 0 then bs_collect h next rows else Some rows)
      | _ \<Rightarrow> None)"

text \<open>The loop that turns the rows into a node.\<close>

fun bs_fill :: "'n build_ops \<Rightarrow> nat \<Rightarrow> node_slot list \<Rightarrow> nat \<Rightarrow> nat \<Rightarrow> nat \<Rightarrow> 'n \<Rightarrow> 'n" where
  "bs_fill B i [] massID ksuf_curpos value_curpos n = bo_set_ksuf_offset B n i ksuf_curpos"
| "bs_fill B i (r # rs) massID ksuf_curpos value_curpos n =
     (let n = op_set_ikeylen (bo_ops B) n i (slot_kl r);
          n = bo_set_ikey B n i (slot_ikey r);
          layer = keylenx_is_layer (op_ikeylen (bo_ops B) n i);
          (n, value_curpos) =
            (if layer then (op_set_lv (bo_ops B) n i (word_of_nat massID), value_curpos)
             else bo_put_value B n i value_curpos (slot_lv r));
          massID = (if layer then massID + 1 else massID);
          n = bo_set_ksuf_offset B n i ksuf_curpos;
          n = bo_put_ksuf B n ksuf_curpos (slot_suf r)
      in bs_fill B (i + 1) rs massID (ksuf_curpos + length (slot_suf r)) value_curpos n)"

definition bs_value_size :: "'n build_ops \<Rightarrow> node_slot list \<Rightarrow> nat" where
  "bs_value_size B rows =
     sum_list (map (\<lambda>r. if keylenx_is_layer (slot_kl r) then 0 else bo_value_len B (slot_lv r)) rows)"

definition bs_node :: "'n build_ops \<Rightarrow> (nat \<Rightarrow> byte) \<Rightarrow> nat \<Rightarrow> node_slot list \<Rightarrow> 'n" where
  "bs_node B raw massID rows =
     bs_fill B 0 rows massID 0 0
       (bo_make B raw (sum_list (map (\<lambda>r. length (slot_suf r)) rows)) (bs_value_size B rows) (length rows))"

text \<open>The loop over the layers; \<open>raw k\<close> is what the \<open>k\<close>-th block holds when it is allocated.\<close>

partial_function (option) bs_layers ::
  "'n build_ops \<Rightarrow> (nat \<Rightarrow> nat \<Rightarrow> byte) \<Rightarrow> dheap \<Rightarrow> u64 \<Rightarrow> u64 list \<Rightarrow> nat \<Rightarrow> 'n list \<Rightarrow> 'n list option" where
  "bs_layers B raw h root trienode_list massID massnode_list =
     (case leftmost h root of None \<Rightarrow> None
      | Some n \<Rightarrow>
        (case bs_collect h n [] of None \<Rightarrow> None
         | Some rows \<Rightarrow>
           (let trienode_list = trienode_list @ map slot_lv (layer_rows rows);
                massnode_list = massnode_list @ [bs_node B (raw (length massnode_list)) massID rows];
                massID = massID + length (layer_rows rows)
            in case trienode_list of
                 [] \<Rightarrow> Some massnode_list
               | root # trienode_list \<Rightarrow> bs_layers B raw h root trienode_list massID massnode_list)))"

text \<open>The numbers replaced by addresses; \<open>addr k\<close> is where the \<open>k\<close>-th block is.\<close>

definition bs_link :: "'n node_ops \<Rightarrow> (nat \<Rightarrow> u64) \<Rightarrow> 'n \<Rightarrow> 'n" where
  "bs_link ops addr n =
     fold (\<lambda>j n. if keylenx_is_layer (op_ikeylen ops n j) then op_set_lv ops n j (addr (unat (op_lv ops n j))) else n)
       [0..<op_nkeys ops n] n"

definition bs_heap :: "(nat \<Rightarrow> u64) \<Rightarrow> 'n list \<Rightarrow> 'n node_heap" where
  "bs_heap addr ns = map_of (zip (map addr [0..<length ns]) ns)"

definition bs_build ::
  "'n build_ops \<Rightarrow> (nat \<Rightarrow> nat \<Rightarrow> byte) \<Rightarrow> (nat \<Rightarrow> u64) \<Rightarrow> dheap \<Rightarrow> u64 \<Rightarrow> ('n node_heap \<times> u64) option" where
  "bs_build B raw addr h root =
     map_option (\<lambda>ns. (bs_heap addr (map (bs_link (bo_ops B) addr) ns), addr 0)) (bs_layers B raw h root [] 1 [])"

definition buildStatic ::
  "(u64 \<Rightarrow> byte list) \<Rightarrow> (nat \<Rightarrow> nat \<Rightarrow> byte) \<Rightarrow> (nat \<Rightarrow> u64) \<Rightarrow> dheap \<Rightarrow> u64 \<Rightarrow> (massnode node_heap \<times> u64) option" where
  "buildStatic col0 = bs_build (mn_build_ops col0)"

definition buildStaticMultivalue ::
  "(u64 \<Rightarrow> byte list) \<Rightarrow> (nat \<Rightarrow> nat \<Rightarrow> byte) \<Rightarrow> (nat \<Rightarrow> u64) \<Rightarrow> dheap \<Rightarrow> u64 \<Rightarrow>
     (massnode_multivalue node_heap \<times> u64) option" where
  "buildStaticMultivalue col0 = bs_build (mv_build_ops col0)"

definition buildStaticDynamicvalue ::
  "(nat \<Rightarrow> nat \<Rightarrow> byte) \<Rightarrow> (nat \<Rightarrow> u64) \<Rightarrow> dheap \<Rightarrow> u64 \<Rightarrow> (massnode_dynamicvalue node_heap \<times> u64) option" where
  "buildStaticDynamicvalue = bs_build md_build_ops"

subsection \<open>The quick variant\<close>

text \<open>
  The caller says how many keys a node has and none has a suffix; the rows are written while the
  leaves are walked. A slot beyond \<open>nkeys\<close> lies outside the block (\<open>None\<close>).
\<close>

fun bq_fill :: "(u64 \<Rightarrow> byte list) \<Rightarrow> node_slot list \<Rightarrow> nat \<Rightarrow> nat \<Rightarrow> massnode \<Rightarrow> massnode option" where
  "bq_fill col0 [] cur_pos massID n = Some n"
| "bq_fill col0 (r # rs) cur_pos massID n =
     (if cur_pos \<ge> mn_nkeys n then None
      else
        (let n = mn_set_ikeylen n cur_pos (slot_kl r);
             n = mn_set_ikey n cur_pos (slot_ikey r);
             layer = keylenx_is_layer (mn_ikeylen n cur_pos);
             n = mn_set_lv n cur_pos (if layer then word_of_nat massID else lvs_of_value (col0 (slot_lv r)));
             massID = (if layer then massID + 1 else massID)
         in bq_fill col0 rs (cur_pos + 1) massID n))"

partial_function (option) bq_layers ::
  "(u64 \<Rightarrow> byte list) \<Rightarrow> nat \<Rightarrow> (nat \<Rightarrow> nat \<Rightarrow> byte) \<Rightarrow> dheap \<Rightarrow> u64 \<Rightarrow> u64 list \<Rightarrow> nat \<Rightarrow> massnode list \<Rightarrow>
     massnode list option" where
  "bq_layers col0 nkeys raw h root trienode_list massID massnode_list =
     (case leftmost h root of None \<Rightarrow> None
      | Some n \<Rightarrow>
        (case bs_collect h n [] of None \<Rightarrow> None
         | Some rows \<Rightarrow>
           (case bq_fill col0 rows 0 massID (mn_make (raw (length massnode_list)) 0 False nkeys) of None \<Rightarrow> None
            | Some newNode \<Rightarrow>
              (let trienode_list = trienode_list @ map slot_lv (layer_rows rows);
                   massnode_list = massnode_list @ [newNode];
                   massID = massID + length (layer_rows rows)
               in case trienode_list of
                    [] \<Rightarrow> Some massnode_list
                  | root # trienode_list \<Rightarrow> bq_layers col0 nkeys raw h root trienode_list massID massnode_list))))"

definition buildStatic_quick ::
  "(u64 \<Rightarrow> byte list) \<Rightarrow> nat \<Rightarrow> (nat \<Rightarrow> nat \<Rightarrow> byte) \<Rightarrow> (nat \<Rightarrow> u64) \<Rightarrow> dheap \<Rightarrow> u64 \<Rightarrow>
     (massnode node_heap \<times> u64) option" where
  "buildStatic_quick col0 nkeys raw addr h root =
     map_option (\<lambda>ns. (bs_heap addr (map (bs_link mn_ops addr) ns), addr 0))
       (bq_layers col0 nkeys raw h root [] 1 [])"

section \<open>The walk of the builder\<close>

lemma collect_leaf: "lf_sorted l \<Longrightarrow> map (\<lambda>i. lf_slot l (kp_at (lf_permutation l) i)) [0..<lf_size l] = lf_rows l"
  using lf_live_perm(4,6) [of l] by (auto simp: lf_rows_def lf_sorted_def lf_ok_def intro!: nth_equalityI)

lemma collect_ok:
  "leaf_chain (x # xs) \<Longrightarrow> \<forall>(a, l) \<in> set (x # xs). h a = Some (Leaf_Node l) \<and> a \<noteq> 0 \<and> lf_sorted l \<Longrightarrow>
     bs_collect h (fst x) rows = Some (rows @ concat (map (lf_rows \<circ> snd) (x # xs)))"
proof (induction xs arbitrary: x rows)
  case Nil
  then show ?case
    by (auto simp: bs_collect.simps [of h "fst x"] collect_leaf Let_def case_prod_beta)
next
  case (Cons y xs)
  have "h (fst x) = Some (Leaf_Node (snd x))" "lf_sorted (snd x)" "fst y \<noteq> 0" "lf_safe_next (snd x) = fst y"
    using Cons.prems by auto
  moreover have "bs_collect h (fst y) (rows @ lf_rows (snd x)) =
      Some ((rows @ lf_rows (snd x)) @ concat (map (lf_rows \<circ> snd) (y # xs)))"
    by (rule Cons.IH) (use Cons.prems in auto)
  ultimately show ?case by (simp add: bs_collect.simps [of h "fst x"] collect_leaf Let_def comp_def)
qed

lemma collect_layer:
  assumes "dt_ok 0 (2 ^ 64) u" "dt_root u" "holds h u" "p \<in> fst ` set (dt_spine u)" "leaf_chain (dt_leaves u)"
  shows "\<exists>a. leftmost h p = Some a \<and> bs_collect h a [] = Some (dt_rows u)"
proof -
  obtain x xs where x: "dt_leaves u = x # xs" "leftmost h p = Some (fst x)" using leftmost_ok [OF assms(1-4)] by blast
  have "\<forall>(a, l) \<in> set (x # xs). h a = Some (Leaf_Node l) \<and> a \<noteq> 0 \<and> lf_sorted l"
    using holds_leaves [OF assms(3)] leaves_sorted [OF assms(1)] by (fastforce simp: x(1) [symmetric])
  with collect_ok [of x xs h "[]"] assms(5) x show ?thesis by (simp add: rows_leaves)
qed

definition bs_nodes :: "'n build_ops \<Rightarrow> (nat \<Rightarrow> nat \<Rightarrow> byte) \<Rightarrow> (nat \<times> nat \<times> dtree) list \<Rightarrow> 'n list" where
  "bs_nodes B raw = map (\<lambda>(k, d, u). bs_node B (raw k) d (dt_rows u))"

lemma pointed_layers:
  "list_all2 points_into rs us \<Longrightarrow> list_all2 (\<lambda>p u. p \<in> fst ` set (dt_spine u)) (map slot_lv rs) us"
  by (simp add: list_all2_map1 points_into_def [abs_def])

lemma layers_loop:
  "list_all2 (\<lambda>p u. p \<in> fst ` set (dt_spine u)) ps us \<Longrightarrow> ps = root # rest \<Longrightarrow>
   \<forall>u \<in> set us. dt_ok 0 (2 ^ 64) u \<and> dt_root u \<and> holds h u \<Longrightarrow>
   \<forall>(k, d, u) \<in> set (dt_walk c us). leaf_chain (dt_leaves u) \<Longrightarrow> c = length ns \<Longrightarrow> massID = c + length us \<Longrightarrow>
   bs_layers B raw h root rest massID ns = Some (ns @ bs_nodes B raw (dt_walk c us))"
proof (induction c us arbitrary: ps root rest massID ns rule: dt_walk.induct)
  case (2 c u us)
  have u: "dt_ok 0 (2 ^ 64) u" "dt_root u" "holds h u" "leaf_chain (dt_leaves u)" using "2.prems"(3,4) by auto
  have p: "root \<in> fst ` set (dt_spine u)" "list_all2 (\<lambda>p u. p \<in> fst ` set (dt_spine u)) rest us"
    using "2.prems"(1,2) by auto
  obtain a where a: "leftmost h root = Some a" "bs_collect h a [] = Some (dt_rows u)"
    using collect_layer [OF u(1-3) p(1) u(4)] by blast
  let ?ps = "rest @ map slot_lv (layer_rows (dt_rows u))" and ?us = "us @ dt_subs u"
  let ?n = "bs_node B (raw (length ns)) massID (dt_rows u)"
  have all: "list_all2 (\<lambda>p u. p \<in> fst ` set (dt_spine u)) ?ps ?us"
    by (rule list_all2_appendI [OF p(2) pointed_layers [OF subs_pointed [OF u(1)]]])
  have subs: "\<forall>x \<in> set ?us. dt_ok 0 (2 ^ 64) x \<and> dt_root x \<and> holds h x"
    using "2.prems"(3) subs_ok [OF u(1)] holds_subs [OF u(3)] by auto
  have len: "length (layer_rows (dt_rows u)) = length (dt_subs u)" by (rule list_all2_lengthD [OF subs_pointed [OF u(1)]])
  have now: "bs_node B (raw c) (c + length (u # us)) (dt_rows u) = ?n" using "2.prems"(5,6) by simp
  note step = bs_layers.simps [of B raw h root rest massID ns]
  show ?case
  proof (cases ?ps)
    case Nil
    then have "?us = []" using all by simp
    moreover have "bs_layers B raw h root rest massID ns = Some (ns @ [?n])" using Nil a by (subst step) (simp add: Let_def)
    ultimately show ?thesis using now by (simp add: bs_nodes_def)
  next
    case (Cons r rs)
    have "bs_layers B raw h r rs (massID + length (layer_rows (dt_rows u))) (ns @ [?n]) =
        Some ((ns @ [?n]) @ bs_nodes B raw (dt_walk (c + 1) ?us))"
      by (rule "2.IH" [OF all Cons subs]) (use "2.prems"(4-6) len in auto)
    moreover have "bs_layers B raw h root rest massID ns =
        bs_layers B raw h r rs (massID + length (layer_rows (dt_rows u))) (ns @ [?n])"
      using Cons by (simp add: step a Let_def)
    ultimately show ?thesis using now by (simp add: bs_nodes_def)
  qed
qed simp

section \<open>What is stored, as values\<close>

text \<open>\<open>Q n i\<close>: slot \<open>i\<close> of \<open>n\<close> has the value asked for.\<close>

inductive stored_by :: "'n node_ops \<Rightarrow> ('n \<Rightarrow> nat \<Rightarrow> bool) \<Rightarrow> 'n node_heap \<Rightarrow> u64 \<Rightarrow> byte list \<Rightarrow> bool"
  for ops :: "'n node_ops" and Q :: "'n \<Rightarrow> nat \<Rightarrow> bool" and h :: "'n node_heap" where
  here: "h p = Some n \<Longrightarrow> i < op_nkeys ops n \<Longrightarrow> slot_stores ops n i s (op_lv ops n i) \<Longrightarrow> Q n i \<Longrightarrow> stored_by ops Q h p s"
| below: "h p = Some n \<Longrightarrow> i < op_nkeys ops n \<Longrightarrow> keylenx_is_layer (op_ikeylen ops n i) \<Longrightarrow>
     op_ikey ops n i = slice_of s \<Longrightarrow> 8 < length s \<Longrightarrow>
     stored_by ops Q h (op_lv ops n i) (drop 8 s) \<Longrightarrow> stored_by ops Q h p s"

inductive_cases stored_byE: "stored_by ops Q h p s"

lemma stored_by_iff:
  assumes "h p = Some n"
  shows "stored_by ops Q h p s \<longleftrightarrow>
     (\<exists>i < op_nkeys ops n. slot_stores ops n i s (op_lv ops n i) \<and> Q n i) \<or>
     (\<exists>i < op_nkeys ops n. keylenx_is_layer (op_ikeylen ops n i) \<and> op_ikey ops n i = slice_of s \<and>
        8 < length s \<and> stored_by ops Q h (op_lv ops n i) (drop 8 s))" (is "?L \<longleftrightarrow> ?R")
proof
  assume ?L
  then show ?R
  proof cases
    case (here m i)
    then show ?thesis using assms by auto
  next
    case (below m i)
    then show ?thesis using assms by (intro disjI2 exI [of _ i]) auto
  qed
next
  show "?R \<Longrightarrow> ?L"
    using assms stored_by.here [of h p n _ ops s Q] stored_by.below [of h p n _ ops s Q] by blast
qed

lemma stored_stored_by: "stored ops h p s v \<longleftrightarrow> stored_by ops (\<lambda>n i. op_lv ops n i = v) h p s"
proof
  show "stored ops h p s v \<Longrightarrow> stored_by ops (\<lambda>n i. op_lv ops n i = v) h p s"
    by (induction rule: stored.induct)
      (auto simp: slot_stores_def Let_def intro: stored_by.here stored_by.below)
  show "stored_by ops (\<lambda>n i. op_lv ops n i = v) h p s \<Longrightarrow> stored ops h p s v"
    by (induction rule: stored_by.induct) (auto intro: stored.here stored.below)
qed

lemma stored_by_nonempty: "stored_by ops Q h p s \<Longrightarrow> s \<noteq> []"
  by (induction rule: stored_by.induct)
    (auto simp: slot_stores_def Let_def kl_rank_def slot_rank_def unat_eq_0)

text \<open>Every layer is a list of leaves that fits into one node, and the blocks have distinct addresses.\<close>

definition layer_fits :: "'n build_ops \<Rightarrow> dtree \<Rightarrow> bool" where
  "layer_fits B u \<longleftrightarrow> leaf_chain (dt_leaves u) \<and> slots_fit (dt_rows u) \<and> length (dt_rows u) < 2 ^ 32 \<and>
     bs_value_size B (dt_rows u) < 2 ^ 32"

definition dt_buildable :: "'n build_ops \<Rightarrow> dtree \<Rightarrow> bool" where
  "dt_buildable B t \<longleftrightarrow> list_all (\<lambda>(k, d, u). layer_fits B u) (dt_walk 0 [t])"

definition dt_count :: "dtree \<Rightarrow> nat" where
  "dt_count t = length (dt_walk 0 [t])"

definition addrs_ok :: "(nat \<Rightarrow> u64) \<Rightarrow> nat \<Rightarrow> bool" where
  "addrs_ok addr N \<longleftrightarrow> N < 2 ^ 64 \<and> distinct (map addr [0..<N]) \<and> 0 \<notin> set (map addr [0..<N])"

section \<open>The contract of a kind of node\<close>

text \<open>
  \<open>blk\<close>: the block holds the arrays; \<open>off\<close>: the suffix offsets; \<open>area\<close>: the bytes of the
  suffixes; \<open>reads n i v u\<close>: the value read at slot \<open>i\<close> is that of the leaf value \<open>v\<close>, and what it
  takes of the value area ends at \<open>u\<close>.
\<close>

locale node_builder = static_node ops node_ok fits
  for ops :: "'n node_ops" and node_ok :: "'n \<Rightarrow> bool" and fits :: "'n \<Rightarrow> mkey \<Rightarrow> bool" +
  fixes B :: "'n build_ops" and blk :: "'n \<Rightarrow> bool" and off :: "'n \<Rightarrow> nat \<Rightarrow> nat" and area :: "'n \<Rightarrow> byte list"
    and vroom :: "'n \<Rightarrow> nat" and reads :: "'n \<Rightarrow> nat \<Rightarrow> u64 \<Rightarrow> nat \<Rightarrow> bool"
  assumes ops: "bo_ops B = ops"
    and make: "nk < 2 ^ 32 \<Longrightarrow> vs < 2 ^ 32 \<Longrightarrow> blk (bo_make B raw ks vs nk) \<and> op_nkeys ops (bo_make B raw ks vs nk) = nk \<and>
      length (area (bo_make B raw ks vs nk)) = ks \<and> vs \<le> vroom (bo_make B raw ks vs nk) \<and>
      vroom (bo_make B raw ks vs nk) < 2 ^ 32"
    and ikeylen_law: "blk n \<Longrightarrow> i < op_nkeys ops n \<Longrightarrow>
      (let m = op_set_ikeylen ops n i kl in blk m \<and> op_nkeys ops m = op_nkeys ops n \<and> area m = area n \<and> vroom m = vroom n \<and>
        (\<forall>j < op_nkeys ops n. op_ikeylen ops m j = (if j = i then kl else op_ikeylen ops n j) \<and>
          op_ikey ops m j = op_ikey ops n j \<and> op_lv ops m j = op_lv ops n j \<and> (\<forall>v u. reads n j v u \<longrightarrow> reads m j v u)) \<and>
        (\<forall>j \<le> op_nkeys ops n. off m j = off n j))"
    and ikey_law: "blk n \<Longrightarrow> i < op_nkeys ops n \<Longrightarrow>
      (let m = bo_set_ikey B n i ik in blk m \<and> op_nkeys ops m = op_nkeys ops n \<and> area m = area n \<and> vroom m = vroom n \<and>
        (\<forall>j < op_nkeys ops n. op_ikeylen ops m j = op_ikeylen ops n j \<and>
          op_ikey ops m j = (if j = i then ik else op_ikey ops n j) \<and> op_lv ops m j = op_lv ops n j \<and>
          (\<forall>v u. reads n j v u \<longrightarrow> reads m j v u)) \<and>
        (\<forall>j \<le> op_nkeys ops n. off m j = off n j))"
    and lv_law: "blk n \<Longrightarrow> i < op_nkeys ops n \<Longrightarrow>
      (let m = op_set_lv ops n i x in blk m \<and> op_nkeys ops m = op_nkeys ops n \<and> area m = area n \<and> vroom m = vroom n \<and>
        (\<forall>j < op_nkeys ops n. op_ikeylen ops m j = op_ikeylen ops n j \<and>
          op_ikey ops m j = op_ikey ops n j \<and> op_lv ops m j = (if j = i then x else op_lv ops n j) \<and>
          (j \<noteq> i \<longrightarrow> (\<forall>v u. reads n j v u \<longrightarrow> reads m j v u))) \<and>
        (\<forall>j \<le> op_nkeys ops n. off m j = off n j))"
    and value_law: "blk n \<Longrightarrow> i < op_nkeys ops n \<Longrightarrow> cur + bo_value_len B x \<le> vroom n \<Longrightarrow> vroom n < 2 ^ 32 \<Longrightarrow>
      (case bo_put_value B n i cur x of (m, cur') \<Rightarrow>
        blk m \<and> op_nkeys ops m = op_nkeys ops n \<and> area m = area n \<and> vroom m = vroom n \<and> cur' = cur + bo_value_len B x \<and>
        (\<forall>j < op_nkeys ops n. op_ikeylen ops m j = op_ikeylen ops n j \<and>
          op_ikey ops m j = op_ikey ops n j \<and> (j \<noteq> i \<longrightarrow> op_lv ops m j = op_lv ops n j) \<and>
          (j \<noteq> i \<longrightarrow> (\<forall>v. reads n j v cur \<longrightarrow> reads m j v cur'))) \<and> reads m i x cur' \<and>
        (\<forall>j \<le> op_nkeys ops n. off m j = off n j))"
    and offset_law: "blk n \<Longrightarrow> i \<le> op_nkeys ops n \<Longrightarrow>
      (let m = bo_set_ksuf_offset B n i z in blk m \<and> op_nkeys ops m = op_nkeys ops n \<and> area m = area n \<and> vroom m = vroom n \<and>
        (\<forall>j < op_nkeys ops n. op_ikeylen ops m j = op_ikeylen ops n j \<and>
          op_ikey ops m j = op_ikey ops n j \<and> op_lv ops m j = op_lv ops n j \<and> (\<forall>v u. reads n j v u \<longrightarrow> reads m j v u)) \<and>
        (\<forall>j \<le> op_nkeys ops n. off m j = (if j = i then z mod 2 ^ 32 else off n j)))"
    and ksuf_law: "blk n \<Longrightarrow> cur + length s \<le> length (area n) \<Longrightarrow>
      (let m = bo_put_ksuf B n cur s in blk m \<and> op_nkeys ops m = op_nkeys ops n \<and> area m = poke (area n) cur s \<and> vroom m = vroom n \<and>
        (\<forall>j < op_nkeys ops n. op_ikeylen ops m j = op_ikeylen ops n j \<and>
          op_ikey ops m j = op_ikey ops n j \<and> op_lv ops m j = op_lv ops n j \<and> (\<forall>v u. reads n j v u \<longrightarrow> reads m j v u)) \<and>
        (\<forall>j \<le> op_nkeys ops n. off m j = off n j))"
    and suffix: "blk n \<Longrightarrow> i < op_nkeys ops n \<Longrightarrow> off n i \<le> off n (i + 1) \<Longrightarrow> off n (i + 1) \<le> length (area n) \<Longrightarrow>
      op_ksuf ops n i = peek (area n) (off n i) (off n (i + 1) - off n i)"
    and finished: "blk n \<Longrightarrow> (\<forall>i < op_nkeys ops n. off n i \<le> off n (i + 1) \<and> off n (i + 1) \<le> length (area n)) \<Longrightarrow>
      node_sorted ops n \<Longrightarrow> (\<forall>i < op_nkeys ops n. kl_ok (op_ikeylen ops n i)) \<Longrightarrow> node_ok n"
begin

text \<open>A node that stands for a list of rows, whatever its layer slots hold.\<close>

definition built :: "'n \<Rightarrow> node_slot list \<Rightarrow> bool" where
  "built n rows \<longleftrightarrow> blk n \<and> op_nkeys ops n = length rows \<and> area n = concat (map slot_suf rows) \<and>
     (\<forall>i < length rows. op_ikeylen ops n i = slot_kl (rows ! i) \<and> op_ikey ops n i = slot_ikey (rows ! i) \<and>
        (\<not> keylenx_is_layer (slot_kl (rows ! i)) \<longrightarrow> (\<exists>u. reads n i (slot_lv (rows ! i)) u))) \<and>
     (\<forall>i \<le> length rows. off n i = suf_offset rows i)"

text \<open>The same for the first \<open>i\<close> slots, while the node is being written.\<close>

definition written :: "'n \<Rightarrow> node_slot list \<Rightarrow> nat \<Rightarrow> nat \<Rightarrow> nat \<Rightarrow> bool" where
  "written n rows massID i cur \<longleftrightarrow> blk n \<and> op_nkeys ops n = length rows \<and>
     length (area n) = suf_offset rows (length rows) \<and> take (suf_offset rows i) (area n) = concat (map slot_suf (take i rows)) \<and>
     (\<forall>j < i. op_ikeylen ops n j = slot_kl (rows ! j) \<and> op_ikey ops n j = slot_ikey (rows ! j) \<and> off n j = suf_offset rows j \<and>
        (if keylenx_is_layer (slot_kl (rows ! j)) then op_lv ops n j = word_of_nat (massID + length (layer_rows (take j rows)))
         else reads n j (slot_lv (rows ! j)) cur))"

lemma fill_step:
  assumes w: "written n rows massID i cur" and i: "i < length rows" "r = rows ! i"
    and room: "cur + (if keylenx_is_layer (slot_kl r) then 0 else bo_value_len B (slot_lv r)) \<le> vroom n" "vroom n < 2 ^ 32"
    and fit: "suf_offset rows (length rows) < 2 ^ 32"
    and mass: "m = massID + length (layer_rows (take i rows))"
    and steps: "n1 = op_set_ikeylen ops n i (slot_kl r)" "n2 = bo_set_ikey B n1 i (slot_ikey r)"
      "(n3, cur') = (if keylenx_is_layer (slot_kl r) then (op_set_lv ops n2 i (word_of_nat m), cur)
         else bo_put_value B n2 i cur (slot_lv r))"
      "n4 = bo_set_ksuf_offset B n3 i (suf_offset rows i)" "n5 = bo_put_ksuf B n4 (suf_offset rows i) (slot_suf r)"
  shows "written n5 rows massID (i + 1) cur'" and "vroom n5 = vroom n"
    and "cur' = cur + (if keylenx_is_layer (slot_kl r) then 0 else bo_value_len B (slot_lv r))"
proof -
  let ?N = "length rows" and ?L = "keylenx_is_layer (slot_kl r)"
  have n: "blk n" "op_nkeys ops n = ?N" "length (area n) = suf_offset rows ?N"
    "take (suf_offset rows i) (area n) = concat (map slot_suf (take i rows))" using w by (simp_all add: written_def)
  have old: "op_ikeylen ops n j = slot_kl (rows ! j)" "op_ikey ops n j = slot_ikey (rows ! j)" "off n j = suf_offset rows j"
      "keylenx_is_layer (slot_kl (rows ! j)) \<Longrightarrow> op_lv ops n j = word_of_nat (massID + length (layer_rows (take j rows)))"
      "\<not> keylenx_is_layer (slot_kl (rows ! j)) \<Longrightarrow> reads n j (slot_lv (rows ! j)) cur" if "j < i" for j
    using w that by (auto simp: written_def)
  note l1 = ikeylen_law [OF n(1), of i "slot_kl r", folded steps(1), unfolded Let_def n(2), OF i(1)]
  then have b1: "blk n1" "op_nkeys ops n1 = ?N" "area n1 = area n" "vroom n1 = vroom n" by simp_all
  note l2 = ikey_law [OF b1(1), of i "slot_ikey r", folded steps(2), unfolded Let_def b1(2), OF i(1)]
  then have b2: "blk n2" "op_nkeys ops n2 = ?N" "area n2 = area n" "vroom n2 = vroom n" using b1 by simp_all
  have l3: "blk n3 \<and> op_nkeys ops n3 = ?N \<and> area n3 = area n \<and> vroom n3 = vroom n \<and>
      cur' = cur + (if ?L then 0 else bo_value_len B (slot_lv r)) \<and>
      (\<forall>j < ?N. op_ikeylen ops n3 j = op_ikeylen ops n2 j \<and> op_ikey ops n3 j = op_ikey ops n2 j \<and>
        (j \<noteq> i \<longrightarrow> op_lv ops n3 j = op_lv ops n2 j) \<and> (j \<noteq> i \<longrightarrow> (\<forall>v. reads n2 j v cur \<longrightarrow> reads n3 j v cur'))) \<and>
      (if ?L then op_lv ops n3 i = word_of_nat m else reads n3 i (slot_lv r) cur') \<and>
      (\<forall>j \<le> ?N. off n3 j = off n2 j)"
  proof (cases ?L)
    case True
    then have "n3 = op_set_lv ops n2 i (word_of_nat m)" "cur' = cur" using steps(3) by simp_all
    with lv_law [OF b2(1), of i "word_of_nat m", unfolded Let_def b2(2), OF i(1)] True b2 i(1) show ?thesis by auto
  next
    case False
    then have eq: "bo_put_value B n2 i cur (slot_lv r) = (n3, cur')" using steps(3) by simp
    have "cur + bo_value_len B (slot_lv r) \<le> vroom n2" "vroom n2 < 2 ^ 32" using False room b2(4) by simp_all
    from value_law [OF b2(1) _ this, of i, unfolded eq b2(2), OF i(1)] False b2 show ?thesis by auto
  qed
  then have b3: "blk n3" "op_nkeys ops n3 = ?N" "area n3 = area n" "vroom n3 = vroom n" by simp_all
  have so: "suf_offset rows i + length (slot_suf r) = suf_offset rows (i + 1)" using suf_offset_Suc [OF i(1)] i(2) by simp
  have le: "suf_offset rows (i + 1) \<le> suf_offset rows ?N" by (rule suf_offset_le)
  then have lt: "suf_offset rows i < 2 ^ 32" using so fit by linarith
  note l4 = offset_law [OF b3(1), of i "suf_offset rows i", folded steps(4), unfolded Let_def b3(2), OF less_imp_le [OF i(1)]]
  then have b4: "blk n4" "op_nkeys ops n4 = ?N" "area n4 = area n" "vroom n4 = vroom n" using b3 by simp_all
  have "suf_offset rows i + length (slot_suf r) \<le> length (area n4)" using so le b4(3) n(3) by simp
  note l5 = ksuf_law [OF b4(1) this, folded steps(5), unfolded Let_def b4(2)]
  then have b5: "blk n5" "op_nkeys ops n5 = ?N" "area n5 = poke (area n) (suf_offset rows i) (slot_suf r)" "vroom n5 = vroom n"
    using b4 by simp_all
  show "vroom n5 = vroom n" by (rule b5(4))
  show cur: "cur' = cur + (if ?L then 0 else bo_value_len B (slot_lv r))" using l3 by blast
  have e: "op_ikeylen ops n5 j = (if j = i then slot_kl r else op_ikeylen ops n j)"
      "op_ikey ops n5 j = (if j = i then slot_ikey r else op_ikey ops n j)"
      "j \<noteq> i \<Longrightarrow> op_lv ops n5 j = op_lv ops n j" "j \<noteq> i \<Longrightarrow> reads n j v cur \<Longrightarrow> reads n5 j v cur'"
    if j: "j < ?N" for j v
  proof -
    note at = l1 [THEN conjunct2, THEN conjunct2, THEN conjunct2, THEN conjunct2, THEN conjunct1, rule_format, OF j]
      l2 [THEN conjunct2, THEN conjunct2, THEN conjunct2, THEN conjunct2, THEN conjunct1, rule_format, OF j]
      l4 [THEN conjunct2, THEN conjunct2, THEN conjunct2, THEN conjunct2, THEN conjunct1, rule_format, OF j]
      l5 [THEN conjunct2, THEN conjunct2, THEN conjunct2, THEN conjunct2, THEN conjunct1, rule_format, OF j]
    have l3j: "op_ikeylen ops n3 j = op_ikeylen ops n2 j" "op_ikey ops n3 j = op_ikey ops n2 j"
        "j \<noteq> i \<Longrightarrow> op_lv ops n3 j = op_lv ops n2 j" "j \<noteq> i \<Longrightarrow> reads n2 j v cur \<Longrightarrow> reads n3 j v cur'"
      using l3 j by blast+
    show "op_ikeylen ops n5 j = (if j = i then slot_kl r else op_ikeylen ops n j)" using at l3j(1) by simp
    show "op_ikey ops n5 j = (if j = i then slot_ikey r else op_ikey ops n j)" using at l3j(2) by simp
    show "j \<noteq> i \<Longrightarrow> op_lv ops n5 j = op_lv ops n j" using at l3j(3) by simp
    show "j \<noteq> i \<Longrightarrow> reads n j v cur \<Longrightarrow> reads n5 j v cur'" using at l3j(4) by blast
  qed
  have o: "off n5 j = (if j = i then suf_offset rows i else off n j)" if "j < ?N" for j
    using that lt l1 l2 l3 l4 l5 by auto
  have here: "if ?L then op_lv ops n5 i = word_of_nat m else reads n5 i (slot_lv r) cur'"
    using l3 l4 l5 i(1) by (simp split: if_splits)
  have "j < ?N" if "j < i + 1" for j using that i(1) by simp
  moreover have "take (suf_offset rows (i + 1)) (area n5) = concat (map slot_suf (take (i + 1) rows))"
  proof -
    have "suf_offset rows i \<le> length (area n)" using so le n(3) by simp
    then have "take (suf_offset rows (i + 1)) (area n5) = take (suf_offset rows i) (area n) @ slot_suf r"
      using so by (simp add: b5(3) poke_def)
    then show ?thesis using i n(4) by (simp add: take_Suc_conv_app_nth)
  qed
  moreover have "length (area n5) = suf_offset rows ?N" using so le n(3) b5(3) by simp
  ultimately show "written n5 rows massID (i + 1) cur'"
    unfolding written_def using b5(1,2) e o here old mass i(2)
    by (auto simp: less_Suc_eq split: if_splits)
qed

lemma fill_ok:
  "written n rows massID i cur \<Longrightarrow> i \<le> length rows \<Longrightarrow> rs = drop i rows \<Longrightarrow>
   m = massID + length (layer_rows (take i rows)) \<Longrightarrow> ks = suf_offset rows i \<Longrightarrow>
   cur + bs_value_size B rs \<le> vroom n \<Longrightarrow> vroom n < 2 ^ 32 \<Longrightarrow> slots_fit rows \<Longrightarrow>
   \<exists>cur'. written (bs_fill B i rs m ks cur n) rows massID (length rows) cur' \<and>
     off (bs_fill B i rs m ks cur n) (length rows) = suf_offset rows (length rows)"
proof (induction rs arbitrary: n i m ks cur)
  case Nil
  then have i: "i = length rows" by simp
  have n: "blk n" "op_nkeys ops n = length rows" using Nil.prems(1) by (simp_all add: written_def)
  let ?m = "bo_set_ksuf_offset B n i ks"
  note l = offset_law [OF n(1), of i ks, unfolded Let_def n(2), OF Nil.prems(2)]
  have "off ?m (length rows) = ks mod 2 ^ 32" using l i by simp
  moreover have "ks < 2 ^ 32" using Nil.prems(5,8) i by (simp add: slots_fit_def)
  moreover have "off ?m j = off n j" if "j < length rows" for j using l that i by simp
  then have "written ?m rows massID (length rows) cur" using Nil.prems(1) l i by (simp add: written_def)
  ultimately show ?case using Nil.prems(5) i by auto
next
  case (Cons r rs)
  let ?L = "keylenx_is_layer (slot_kl r)"
  have i: "i < length rows" using Cons.prems(2,3) by (cases "i = length rows") auto
  then have r: "r = rows ! i" and rs: "rs = drop (i + 1) rows"
    using Cons.prems(3) by (simp_all add: Cons_nth_drop_Suc [symmetric])
  have n: "blk n" "op_nkeys ops n = length rows" using Cons.prems(1) by (simp_all add: written_def)
  define n1 where "n1 = op_set_ikeylen ops n i (slot_kl r)"
  define n2 where "n2 = bo_set_ikey B n1 i (slot_ikey r)"
  obtain n3 cur' where n3: "(n3, cur') = (if ?L then (op_set_lv ops n2 i (word_of_nat m), cur)
      else bo_put_value B n2 i cur (slot_lv r))" by (metis surj_pair)
  define n4 where "n4 = bo_set_ksuf_offset B n3 i (suf_offset rows i)"
  define n5 where "n5 = bo_put_ksuf B n4 (suf_offset rows i) (slot_suf r)"
  note l1 = ikeylen_law [OF n(1), of i "slot_kl r", folded n1_def, unfolded Let_def n(2), OF i]
  then have b1: "blk n1" "op_nkeys ops n1 = length rows" by simp_all
  note l2 = ikey_law [OF b1(1), of i "slot_ikey r", folded n2_def, unfolded Let_def b1(2), OF i]
  have kl: "op_ikeylen ops n2 i = slot_kl r" using l1 l2 i by simp
  have vs: "bs_value_size B (r # rs) = (if ?L then 0 else bo_value_len B (slot_lv r)) + bs_value_size B rs"
    by (simp add: bs_value_size_def)
  have room: "cur + (if ?L then 0 else bo_value_len B (slot_lv r)) \<le> vroom n" using Cons.prems(6) vs by simp
  note step = fill_step [OF Cons.prems(1) i r room Cons.prems(7) Cons.prems(8) [unfolded slots_fit_def] Cons.prems(4)
      n1_def n2_def n3 n4_def n5_def]
  have "bs_fill B i (r # rs) m ks cur n =
      bs_fill B (i + 1) rs (if ?L then m + 1 else m) (ks + length (slot_suf r)) cur' n5"
  proof (cases ?L)
    case True
    then have "n3 = op_set_lv ops n2 i (word_of_nat m)" "cur' = cur" using n3 by simp_all
    with True Cons.prems(5) kl show ?thesis
      by (simp add: Let_def ops n1_def [symmetric] n2_def [symmetric] n4_def n5_def)
  next
    case False
    then have "bo_put_value B n2 i cur (slot_lv r) = (n3, cur')" using n3 by simp
    with False Cons.prems(5) kl show ?thesis
      by (simp add: Let_def ops n1_def [symmetric] n2_def [symmetric] n4_def n5_def)
  qed
  moreover have "\<exists>cur''. written (bs_fill B (i + 1) rs (if ?L then m + 1 else m) (ks + length (slot_suf r)) cur' n5) rows massID (length rows) cur'' \<and>
      off (bs_fill B (i + 1) rs (if ?L then m + 1 else m) (ks + length (slot_suf r)) cur' n5) (length rows) = suf_offset rows (length rows)"
  proof (rule Cons.IH [OF step(1) _ rs])
    show "i + 1 \<le> length rows" using i by simp
    show "(if ?L then m + 1 else m) = massID + length (layer_rows (take (i + 1) rows))"
      using Cons.prems(4) i r by (simp add: take_Suc_conv_app_nth layer_rows_def)
    show "ks + length (slot_suf r) = suf_offset rows (i + 1)" using Cons.prems(5) suf_offset_Suc [OF i] r by simp
    show "cur' + bs_value_size B rs \<le> vroom n5" using step(2,3) Cons.prems(6) vs by simp
    show "vroom n5 < 2 ^ 32" using step(2) Cons.prems(7) by simp
  qed (rule Cons.prems(8))
  ultimately show ?case by simp
qed

definition layers_at :: "'n \<Rightarrow> node_slot list \<Rightarrow> (nat \<Rightarrow> u64) \<Rightarrow> bool" where
  "layers_at n rows f \<longleftrightarrow>
     (\<forall>i < length rows. keylenx_is_layer (slot_kl (rows ! i)) \<longrightarrow> op_lv ops n i = f (length (layer_rows (take i rows))))"

lemma node_built:
  assumes "rows_ok rows" "slots_fit rows" "length rows < 2 ^ 32" "bs_value_size B rows < 2 ^ 32"
  shows "built (bs_node B raw massID rows) rows \<and>
    layers_at (bs_node B raw massID rows) rows (\<lambda>k. word_of_nat (massID + k))"
proof -
  let ?ks = "sum_list (map (\<lambda>r. length (slot_suf r)) rows)" and ?vs = "bs_value_size B rows"
  let ?n = "bo_make B raw ?ks ?vs (length rows)"
  have ks: "?ks = suf_offset rows (length rows)" by (simp add: suf_offset_def length_concat comp_def)
  note mk = make [OF assms(3,4), of raw ?ks]
  have "written ?n rows massID 0 0" using mk ks by (simp add: written_def suf_offset_def layer_rows_def)
  from fill_ok [OF this le0 _ _ _ _ _ assms(2), of rows massID 0] mk obtain cur where
    w: "written (bs_node B raw massID rows) rows massID (length rows) cur"
      "off (bs_node B raw massID rows) (length rows) = suf_offset rows (length rows)"
    by (auto simp: bs_node_def suf_offset_def layer_rows_def)
  let ?m = "bs_node B raw massID rows"
  have slots: "op_ikeylen ops ?m i = slot_kl (rows ! i)" "op_ikey ops ?m i = slot_ikey (rows ! i)"
      "off ?m i = suf_offset rows i"
      "keylenx_is_layer (slot_kl (rows ! i)) \<Longrightarrow> op_lv ops ?m i = word_of_nat (massID + length (layer_rows (take i rows)))"
      "\<not> keylenx_is_layer (slot_kl (rows ! i)) \<Longrightarrow> reads ?m i (slot_lv (rows ! i)) cur" if "i < length rows" for i
    using w(1) that by (auto simp: written_def)
  have "length (area ?m) = suf_offset rows (length rows)"
      "take (suf_offset rows (length rows)) (area ?m) = concat (map slot_suf rows)"
    using w(1) by (simp_all add: written_def)
  then have "area ?m = concat (map slot_suf rows)" by (metis take_all order_refl)
  moreover have "blk ?m" "op_nkeys ops ?m = length rows" using w(1) by (simp_all add: written_def)
  ultimately show ?thesis using slots w(2) unfolding built_def layers_at_def le_less by blast
qed

subsection \<open>Linking\<close>

lemma built_set_lv:
  assumes "built n rows" "j < length rows" "keylenx_is_layer (slot_kl (rows ! j))"
  shows "built (op_set_lv ops n j x) rows"
    and "i < length rows \<Longrightarrow> op_lv ops (op_set_lv ops n j x) i = (if i = j then x else op_lv ops n i)"
proof -
  have n: "blk n" "op_nkeys ops n = length rows" "area n = concat (map slot_suf rows)"
      "\<forall>i \<le> length rows. off n i = suf_offset rows i" using assms(1) by (simp_all add: built_def)
  note l = lv_law [OF n(1), of j x, unfolded Let_def n(2), OF assms(2)]
  show "i < length rows \<Longrightarrow> op_lv ops (op_set_lv ops n j x) i = (if i = j then x else op_lv ops n i)" using l by simp
  have "op_ikeylen ops (op_set_lv ops n j x) i = slot_kl (rows ! i) \<and> op_ikey ops (op_set_lv ops n j x) i = slot_ikey (rows ! i) \<and>
      (\<not> keylenx_is_layer (slot_kl (rows ! i)) \<longrightarrow> (\<exists>u. reads (op_set_lv ops n j x) i (slot_lv (rows ! i)) u))"
    if i: "i < length rows" for i
  proof (cases "i = j")
    case True
    then show ?thesis using assms l i by (simp add: built_def)
  next
    case False
    have "op_ikeylen ops n i = slot_kl (rows ! i)" "op_ikey ops n i = slot_ikey (rows ! i)"
        "\<not> keylenx_is_layer (slot_kl (rows ! i)) \<Longrightarrow> \<exists>u. reads n i (slot_lv (rows ! i)) u"
      using assms(1) i by (simp_all add: built_def)
    moreover have "reads n i v u \<Longrightarrow> reads (op_set_lv ops n j x) i v u" for v u using l False i by blast
    ultimately show ?thesis using l i by (simp, blast)
  qed
  then show "built (op_set_lv ops n j x) rows" using l n by (simp add: built_def)
qed

lemma link_ok:
  assumes "built n rows" "layers_at n rows f"
  shows "built (bs_link ops addr n) rows \<and> layers_at (bs_link ops addr n) rows (\<lambda>k. addr (unat (f k)))"
proof -
  let ?step = "\<lambda>j n. if keylenx_is_layer (op_ikeylen ops n j) then op_set_lv ops n j (addr (unat (op_lv ops n j))) else n"
  let ?N = "length rows" and ?lay = "\<lambda>i. keylenx_is_layer (slot_kl (rows ! i))"
  have "built (fold ?step [0..<j] n) rows \<and>
      (\<forall>i < ?N. ?lay i \<longrightarrow> op_lv ops (fold ?step [0..<j] n) i =
        (let x = f (length (layer_rows (take i rows))) in if i < j then addr (unat x) else x))" if "j \<le> ?N" for j
    using that
  proof (induction j)
    case 0
    then show ?case using assms by (simp add: layers_at_def)
  next
    case (Suc j)
    let ?m = "fold ?step [0..<j] n"
    have j: "j < ?N" using Suc.prems by simp
    have b: "built ?m rows" and lv: "\<And>i. i < ?N \<Longrightarrow> ?lay i \<Longrightarrow> op_lv ops ?m i =
        (let x = f (length (layer_rows (take i rows))) in if i < j then addr (unat x) else x)" using Suc by auto
    have kl: "op_ikeylen ops ?m j = slot_kl (rows ! j)" "blk ?m" "op_nkeys ops ?m = ?N" using b j by (simp_all add: built_def)
    show ?case
    proof (cases "?lay j")
      case True
      note set = built_set_lv [OF b j True]
      have "op_lv ops (op_set_lv ops ?m j (addr (unat (op_lv ops ?m j)))) i =
          (let x = f (length (layer_rows (take i rows))) in if i < Suc j then addr (unat x) else x)"
        if i: "i < ?N" "?lay i" for i
        using set(2) [OF i(1)] lv [OF i] lv [OF j True] by (cases "i = j") (auto simp: Let_def less_Suc_eq)
      moreover note set(1)
      ultimately show ?thesis using True kl(1) by simp
    next
      case False
      then have "op_lv ops ?m i = (let x = f (length (layer_rows (take i rows))) in if i < Suc j then addr (unat x) else x)"
        if i: "i < ?N" "?lay i" for i
        using lv [OF i] i(2) by (cases "i = j") (auto simp: Let_def)
      then show ?thesis using False kl(1) b by simp
    qed
  qed
  moreover have "op_nkeys ops n = ?N" using assms(1) by (simp add: built_def)
  ultimately show ?thesis by (simp add: bs_link_def layers_at_def Let_def)
qed

lemma built_layers:
  assumes "built n rows" "layers_at n rows f"
  shows "op_layers ops n = map f [0..<length (layer_rows rows)]"
proof -
  have "map (op_lv ops n) (filter (\<lambda>i. keylenx_is_layer (op_ikeylen ops n i)) [0..<j]) =
      map f [0..<length (layer_rows (take j rows))]" if "j \<le> length rows" for j
    using that
  proof (induction j)
    case (Suc j)
    then show ?case using assms
      by (auto simp: built_def layers_at_def layer_rows_def take_Suc_conv_app_nth)
  qed (simp add: layer_rows_def)
  from this [of "length rows"] show ?thesis using assms(1) by (simp add: built_def op_layers_def)
qed

lemma built_node_ok:
  assumes "built n rows" "rows_ok rows"
  shows "node_ok n"
proof (rule finished)
  have n: "op_nkeys ops n = length rows" "\<And>i. i < length rows \<Longrightarrow> op_ikeylen ops n i = slot_kl (rows ! i) \<and> op_ikey ops n i = slot_ikey (rows ! i)"
    "\<And>i. i \<le> length rows \<Longrightarrow> off n i = suf_offset rows i" "length (area n) = suf_offset rows (length rows)"
    using assms(1) by (auto simp: built_def suf_offset_def)
  show "blk n" using assms(1) by (simp add: built_def)
  show "\<forall>i < op_nkeys ops n. off n i \<le> off n (i + 1) \<and> off n (i + 1) \<le> length (area n)"
    using n(1,3,4) suf_offset_Suc [of _ rows] suf_offset_le [of rows "_ + 1"]
    by (metis Suc_eq_plus1 Suc_leI le_add1 less_imp_le)
  show "node_sorted ops n"
    using n(1,2) assms(2) by (auto simp: node_sorted_def rows_ok_def sorted_wrt_iff_nth_less slot_less_def)
  show "\<forall>i < op_nkeys ops n. kl_ok (op_ikeylen ops n i)" using n(1,2) assms(2) by (simp add: rows_ok_def)
qed

lemma built_suffix:
  assumes "built n rows" "i < length rows"
  shows "op_ksuf ops n i = slot_suf (rows ! i)"
proof -
  have n: "blk n" "op_nkeys ops n = length rows" "area n = concat (map slot_suf rows)"
    "\<And>i. i \<le> length rows \<Longrightarrow> off n i = suf_offset rows i" using assms(1) by (simp_all add: built_def)
  have "off n (i + 1) = off n i + length (slot_suf (rows ! i))" using n(4) suf_offset_Suc [OF assms(2)] assms(2) by simp
  moreover have "off n (i + 1) \<le> length (area n)"
    using n(3,4) suf_offset_le [of rows "i + 1"] assms(2) by (simp add: suf_offset_def)
  ultimately show ?thesis
    using suffix [OF n(1), of i] n(2-4) assms(2) peek_suffix [OF assms(2)] by simp
qed

subsection \<open>The trie that is built\<close>

lemma walk_trie:
  assumes "inj_on addr {..<N}" "\<forall>k < N. addr k \<noteq> 0"
  shows "c + length (dt_walk c us) = N \<Longrightarrow> \<forall>u \<in> set us. dt_ok 0 (2 ^ 64) u \<Longrightarrow>
    \<forall>(k, d, u) \<in> set (dt_walk c us). \<exists>n. hs (addr k) = Some n \<and> built n (dt_rows u) \<and> layers_at n (dt_rows u) (\<lambda>i. addr (d + i)) \<Longrightarrow>
    \<exists>Fs. list_all2 (static_trie ops node_ok hs) (map addr [c..<c + length us]) Fs \<and>
      mset (concat Fs) = mset (map addr [c..<N])"
proof (induction c us rule: dt_walk.induct)
  case (1 c)
  then show ?case by (intro exI [of _ "[]"]) simp
next
  case (2 c u us)
  let ?m = "length us" and ?subs = "dt_subs u" and ?rows = "dt_rows u" and ?d = "c + 1 + length us"
  have u: "dt_ok 0 (2 ^ 64) u" using "2.prems"(2) by simp
  obtain n where n: "hs (addr c) = Some n" "built n ?rows" "layers_at n ?rows (\<lambda>i. addr (?d + i))"
    using "2.prems"(3) by auto
  have "\<forall>x \<in> set (us @ ?subs). dt_ok 0 (2 ^ 64) x" using "2.prems"(2) subs_ok [OF u] by auto
  with 2 obtain Fs where Fs: "list_all2 (static_trie ops node_ok hs) (map addr [c + 1..<c + 1 + length (us @ ?subs)]) Fs"
      "mset (concat Fs) = mset (map addr [c + 1..<N])" by auto
  let ?F = "addr c # concat (drop ?m Fs)"
  have N: "c < N" using "2.prems"(1) by simp
  have "length (layer_rows ?rows) = length ?subs" by (rule list_all2_lengthD [OF subs_pointed [OF u]])
  then have "op_layers ops n = map (\<lambda>i. addr (?d + i)) [0..<length ?subs]" using built_layers [OF n(2,3)] by simp
  also have "\<dots> = map addr (map (\<lambda>i. i + ?d) [0..<length ?subs])" by (simp add: add.commute)
  also have "\<dots> = map addr [?d..<?d + length ?subs]" unfolding map_add_upt by (simp only: add.commute)
  also have "\<dots> = drop ?m (map addr [c + 1..<c + 1 + length (us @ ?subs)])" by (simp add: drop_map add.assoc del: upt_Suc)
  finally have lay: "op_layers ops n = drop ?m (map addr [c + 1..<c + 1 + length (us @ ?subs)])" .
  have below: "list_all2 (static_trie ops node_ok hs) (op_layers ops n) (drop ?m Fs)"
    unfolding lay by (rule list_all2_dropI [OF Fs(1)])
  have ms: "mset (concat (?F # take ?m Fs)) = mset (map addr [c..<N])"
  proof -
    have "mset (concat (?F # take ?m Fs)) = add_mset (addr c) (mset (concat (take ?m Fs @ drop ?m Fs)))"
      by (simp only: concat_append) simp
    also have "\<dots> = mset (map addr [c..<N])" using Fs(2) N by (simp only: append_take_drop_id) (simp add: upt_conv_Cons)
    finally show ?thesis .
  qed
  have "distinct (map addr [c..<N])" using assms(1) by (simp add: distinct_map inj_on_def)
  then have "distinct (concat (?F # take ?m Fs))" by (rule mset_eq_imp_distinct_iff [OF ms, THEN iffD2])
  then have dist: "distinct ?F" by simp
  have "static_trie ops node_ok hs (addr c) ?F"
    by (rule static_trie.node [OF n(1) _ built_node_ok [OF n(2) rows_ok_layer [OF u]] below dist]) (use N assms(2) in simp)
  moreover have "list_all2 (static_trie ops node_ok hs) (map addr [c + 1..<c + 1 + ?m]) (take ?m Fs)"
    using list_all2_takeI [OF Fs(1), of ?m] by (simp add: take_map del: upt_Suc)
  ultimately have "list_all2 (static_trie ops node_ok hs) (map addr [c..<c + length (u # us)]) (?F # take ?m Fs)"
    by (simp add: upt_conv_Cons del: upt_Suc)
  with ms show ?case by blast
qed

subsection \<open>What it stores\<close>

lemma node_stored:
  assumes "hs p = Some n" "built n rows" "layers_at n rows f" "s \<noteq> []" "\<And>n i v u. reads n i v u \<Longrightarrow> Q n i \<longleftrightarrow> R v"
  shows "stored_by ops Q hs p s \<longleftrightarrow> (\<exists>r \<in> set rows. row_stores r s (slot_lv r) \<and> R (slot_lv r)) \<or>
    (\<exists>k < length (layer_rows rows). row_leads (layer_rows rows ! k) s \<and> stored_by ops Q hs (f k) (drop 8 s))"
proof -
  have n: "op_nkeys ops n = length rows" "\<And>i. i < length rows \<Longrightarrow> op_ikeylen ops n i = slot_kl (rows ! i)"
      "\<And>i. i < length rows \<Longrightarrow> op_ikey ops n i = slot_ikey (rows ! i)"
      "\<And>i. i < length rows \<Longrightarrow> \<not> keylenx_is_layer (slot_kl (rows ! i)) \<Longrightarrow> Q n i \<longleftrightarrow> R (slot_lv (rows ! i))"
    using assms(2,5) by (simp_all add: built_def) (metis assms(5))
  have zero: "slot_kl r \<noteq> 0" if "row_stores r s v" for r v
    using that assms(4) by (cases s) (auto simp: row_stores_def kl_rank_def slot_rank_def keylenx_is_layer_def min_def split: if_splits)
  have "slot_stores ops n i s (op_lv ops n i) \<and> Q n i \<longleftrightarrow> row_stores (rows ! i) s (slot_lv (rows ! i)) \<and> R (slot_lv (rows ! i))"
    if "i < length rows" for i
    using zero [of "rows ! i"] n(2-4) [OF that] built_suffix [OF assms(2) that]
    by (auto simp: slot_stores_def row_stores_def Let_def)
  then have here: "(\<exists>i < length rows. slot_stores ops n i s (op_lv ops n i) \<and> Q n i) \<longleftrightarrow>
      (\<exists>r \<in> set rows. row_stores r s (slot_lv r) \<and> R (slot_lv r))"
    by (metis in_set_conv_nth)
  have "(\<exists>i < length rows. keylenx_is_layer (slot_kl (rows ! i)) \<and> slot_ikey (rows ! i) = slice_of s \<and> 8 < length s \<and>
      stored_by ops Q hs (op_lv ops n i) (drop 8 s)) \<longleftrightarrow>
    (\<exists>k < length (layer_rows rows). row_leads (layer_rows rows ! k) s \<and> stored_by ops Q hs (f k) (drop 8 s))" (is "?A \<longleftrightarrow> ?B")
  proof
    assume ?A
    then obtain i where i: "i < length rows" "keylenx_is_layer (slot_kl (rows ! i))" "slot_ikey (rows ! i) = slice_of s"
        "8 < length s" "stored_by ops Q hs (op_lv ops n i) (drop 8 s)" by blast
    note at = layer_row_at [OF i(1,2)]
    have "op_lv ops n i = f (length (layer_rows (take i rows)))" using assms(3) i by (simp add: layers_at_def)
    with i at show ?B by (intro exI [of _ "length (layer_rows (take i rows))"]) (simp add: row_leads_def)
  next
    assume ?B
    then obtain k where k: "k < length (layer_rows rows)" "row_leads (layer_rows rows ! k) s" "stored_by ops Q hs (f k) (drop 8 s)" by blast
    obtain i where i: "i < length rows" "keylenx_is_layer (slot_kl (rows ! i))" "k = length (layer_rows (take i rows))"
      using layer_row_index [OF k(1)] by blast
    have "op_lv ops n i = f k" using assms(3) i by (simp add: layers_at_def)
    with i k layer_row_at [OF i(1,2)] show ?A by (intro exI [of _ i]) (simp add: row_leads_def)
  qed
  then show ?thesis
    unfolding stored_by_iff [of hs p n, OF assms(1)] n(1) here by (simp add: n(2,3) cong: conj_cong)
qed

lemma walk_stored:
  assumes "\<And>n i v u. reads n i v u \<Longrightarrow> Q n i \<longleftrightarrow> R v"
  shows "\<forall>u \<in> set us. dt_ok 0 (2 ^ 64) u \<Longrightarrow>
    \<forall>(k, d, u) \<in> set (dt_walk c us). \<exists>n. hs (addr k) = Some n \<and> built n (dt_rows u) \<and> layers_at n (dt_rows u) (\<lambda>i. addr (d + i)) \<Longrightarrow>
    i < length us \<Longrightarrow> s \<noteq> [] \<Longrightarrow>
    stored_by ops Q hs (addr (c + i)) s \<longleftrightarrow> (\<exists>v. dt_stores (us ! i) s v \<and> R v)"
proof (induction c us arbitrary: i s rule: dt_walk.induct)
  case (2 c u us)
  let ?subs = "dt_subs u" and ?rows = "dt_rows u" and ?d = "c + 1 + length us"
  have u: "dt_ok 0 (2 ^ 64) u" using "2.prems"(1) by simp
  have all: "\<forall>x \<in> set (us @ ?subs). dt_ok 0 (2 ^ 64) x" using "2.prems"(1) subs_ok [OF u] by auto
  have walk: "\<forall>(k, d, u) \<in> set (dt_walk (c + 1) (us @ ?subs)).
      \<exists>n. hs (addr k) = Some n \<and> built n (dt_rows u) \<and> layers_at n (dt_rows u) (\<lambda>i. addr (d + i))"
    using "2.prems"(2) by simp
  note IH = "2.IH" [OF all walk]
  show ?case
  proof (cases i)
    case (Suc j)
    then show ?thesis using IH [of j s] "2.prems"(3,4) by (simp add: nth_append)
  next
    case 0
    obtain n where n: "hs (addr c) = Some n" "built n ?rows" "layers_at n ?rows (\<lambda>i. addr (?d + i))"
      using "2.prems"(2) by auto
    have len: "length ?subs = length (layer_rows ?rows)" using list_all2_lengthD [OF subs_pointed [OF u]] by simp
    have sub: "stored_by ops Q hs (addr (?d + k)) (drop 8 s) \<longleftrightarrow> (\<exists>v. dt_stores (?subs ! k) (drop 8 s) v \<and> R v)"
      if "k < length ?subs" "8 < length s" for k
      using IH [of "length us + k" "drop 8 s"] that by (simp add: nth_append add.assoc)
    have "(\<exists>k < length (layer_rows ?rows). row_leads (layer_rows ?rows ! k) s \<and> stored_by ops Q hs (addr (?d + k)) (drop 8 s)) \<longleftrightarrow>
        (\<exists>k < length (layer_rows ?rows). row_leads (layer_rows ?rows ! k) s \<and> (\<exists>v. dt_stores (?subs ! k) (drop 8 s) v \<and> R v))"
      using sub unfolding len by (auto simp: row_leads_def)
    moreover have "rows_store ?rows (map dt_stores ?subs) s v \<longleftrightarrow> (\<exists>r \<in> set ?rows. row_stores r s v) \<or>
        (\<exists>k < length (layer_rows ?rows). row_leads (layer_rows ?rows ! k) s \<and> dt_stores (?subs ! k) (drop 8 s) v)" for v
      using rows_store_iff [of "map dt_stores ?subs" ?rows] len by (simp cong: conj_cong)
    then have "(\<exists>v. dt_stores u s v \<and> R v) \<longleftrightarrow> (\<exists>r \<in> set ?rows. row_stores r s (slot_lv r) \<and> R (slot_lv r)) \<or>
        (\<exists>k < length (layer_rows ?rows). row_leads (layer_rows ?rows ! k) s \<and> (\<exists>v. dt_stores (?subs ! k) (drop 8 s) v \<and> R v))"
      unfolding stores_rows [OF u] by (fastforce simp: row_stores_def)
    ultimately show ?thesis
      using node_stored [of hs "addr c" n ?rows "\<lambda>i. addr (?d + i)" s Q R, OF n "2.prems"(4) assms] 0 by simp
  qed
qed simp

subsection \<open>The result of the builder\<close>

lemma layers_at_cong:
  assumes "layers_at n rows f" "\<And>k. k < length (layer_rows rows) \<Longrightarrow> f k = g k"
  shows "layers_at n rows g"
  using assms layer_row_at [of _ rows] by (simp add: layers_at_def)

lemma linked_nodes:
  assumes ok: "dt_ok 0 (2 ^ 64) t" and fit: "dt_buildable B t" and addr: "addrs_ok addr (dt_count t)"
    and hs: "hs = bs_heap addr (map (bs_link ops addr) (bs_nodes B raw (dt_walk 0 [t])))" and at: "(k, d, u) \<in> set (dt_walk 0 [t])"
  shows "\<exists>n. hs (addr k) = Some n \<and> built n (dt_rows u) \<and> layers_at n (dt_rows u) (\<lambda>i. addr (d + i))"
proof -
  let ?ns = "map (bs_link ops addr) (bs_nodes B raw (dt_walk 0 [t]))" and ?N = "dt_count t"
  let ?n = "bs_link ops addr (bs_node B (raw k) d (dt_rows u))"
  have k: "k < ?N" "dt_walk 0 [t] ! k = (k, d, u)" using dt_walk_at [OF at] by (simp_all add: dt_count_def)
  have len: "length ?ns = ?N" by (simp add: bs_nodes_def dt_count_def)
  have "?ns ! k = ?n" using k by (simp add: bs_nodes_def dt_count_def del: dt_walk.simps)
  moreover have "map_of (zip (map addr [0..<?N]) ?ns) (map addr [0..<?N] ! k) = Some (?ns ! k)"
    using addr k(1) len by (intro map_of_zip_nth) (simp_all add: addrs_ok_def)
  ultimately have look: "hs (addr k) = Some ?n" using k(1) len by (simp add: hs bs_heap_def)
  have u: "dt_ok 0 (2 ^ 64) u" using dt_walk_ok [OF at] ok by simp
  have fits: "slots_fit (dt_rows u)" "length (dt_rows u) < 2 ^ 32" "bs_value_size B (dt_rows u) < 2 ^ 32"
    using fit at by (auto simp: dt_buildable_def list_all_iff layer_fits_def)
  note nb = node_built [OF rows_ok_layer [OF u] fits, of "raw k" d]
  note ln = link_ok [OF conjunct1 [OF nb] conjunct2 [OF nb], of addr]
  have "layers_at ?n (dt_rows u) (\<lambda>i. addr (d + i))"
  proof (rule layers_at_cong [OF conjunct2 [OF ln]])
    fix i
    assume "i < length (layer_rows (dt_rows u))"
    then have "i < length (dt_subs u)" using list_all2_lengthD [OF subs_pointed [OF u]] by simp
    then have "d + i < 2 ^ 64" using dt_walk_below [OF at] addr by (simp add: addrs_ok_def dt_count_def)
    then have "(d + i) mod 2 ^ LENGTH(64) = d + i" by simp
    then have "unat (word_of_nat (d + i) :: u64) = d + i" by (simp only: unat_of_nat)
    then show "addr (unat (word_of_nat (d + i) :: u64)) = addr (d + i)" by (simp only:)
  qed
  with look ln show ?thesis by blast
qed

lemma build_ok:
  assumes ok: "dt_ok 0 (2 ^ 64) t" "dt_root t" "holds h t" "p \<in> fst ` set (dt_spine t)"
    and fit: "dt_buildable B t" and addr: "addrs_ok addr (dt_count t)"
  shows "\<exists>hs A. bs_build B raw addr h p = Some (hs, addr 0) \<and> static_trie ops node_ok hs (addr 0) A \<and>
    mset A = mset (map addr [0..<dt_count t]) \<and>
    (\<forall>Q R. (\<forall>n i v u. reads n i v u \<longrightarrow> (Q n i \<longleftrightarrow> R v)) \<longrightarrow>
       (\<forall>s. stored_by ops Q hs (addr 0) s \<longleftrightarrow> s \<noteq> [] \<and> (\<exists>v. dt_stores t s v \<and> R v)))"
proof -
  let ?hs = "bs_heap addr (map (bs_link ops addr) (bs_nodes B raw (dt_walk 0 [t])))"
  have "bs_layers B raw h p [] 1 [] = Some ([] @ bs_nodes B raw (dt_walk 0 [t]))"
    by (rule layers_loop [of "[p]"])
      (use ok fit in \<open>auto simp: dt_buildable_def list_all_iff layer_fits_def simp del: dt_walk.simps\<close>)
  then have run: "bs_build B raw addr h p = Some (?hs, addr 0)" by (simp add: bs_build_def ops)
  have nodes: "\<forall>(k, d, u) \<in> set (dt_walk 0 [t]).
      \<exists>n. ?hs (addr k) = Some n \<and> built n (dt_rows u) \<and> layers_at n (dt_rows u) (\<lambda>i. addr (d + i))"
    using linked_nodes [OF ok(1) fit addr refl] by blast
  have all: "\<forall>u \<in> set [t]. dt_ok 0 (2 ^ 64) u" using ok(1) by simp
  have inj: "inj_on addr {..<dt_count t}" "\<forall>k < dt_count t. addr k \<noteq> 0"
    using addr by (auto simp: addrs_ok_def distinct_map atLeast0LessThan simp del: dt_walk.simps)
  obtain Fs where Fs: "list_all2 (static_trie ops node_ok ?hs) (map addr [0..<0 + length [t]]) Fs"
      "mset (concat Fs) = mset (map addr [0..<dt_count t])"
    using walk_trie [OF inj _ all nodes] by (auto simp: dt_count_def simp del: dt_walk.simps)
  then obtain A where "Fs = [A]" "static_trie ops node_ok ?hs (addr 0) A" by (auto simp: list_all2_Cons1)
  moreover have "stored_by ops Q ?hs (addr 0) s \<longleftrightarrow> s \<noteq> [] \<and> (\<exists>v. dt_stores t s v \<and> R v)"
    if agree: "\<forall>n i v u. reads n i v u \<longrightarrow> (Q n i \<longleftrightarrow> R v)" for Q R s
  proof (cases "s = []")
    case True
    then show ?thesis using stored_by_nonempty by blast
  next
    case False
    with walk_stored [OF _ all nodes, of Q R 0 s] agree show ?thesis by simp
  qed
  ultimately show ?thesis using run Fs(2) by auto
qed

end

end
