(* ===== verification/Build_Nodes.thy ===== *)
theory Build_Nodes
  imports Build_Static
begin

text \<open>
  The three kinds of node keep the contract of \<open>node_builder\<close>: every write of the builder changes
  one array element, one value or one suffix and leaves all others alone. Then what the builders
  of \<^verbatim>\<open>hybrid_index/masstree_get.hh\<close> make is a well-formed trie that stores what the dynamic
  tree stores.
\<close>

lemma drop_poke_before: "a + length xs \<le> k \<Longrightarrow> k \<le> length m \<Longrightarrow> drop k (poke m a xs) = drop k m"
  by (simp add: poke_def)

lemma drop_poke_after: "k + a + length xs \<le> length m \<Longrightarrow> drop k (poke m (k + a) xs) = poke (drop k m) a xs"
  by (simp add: poke_def drop_take add.commute add.left_commute)

section \<open>\<^verbatim>\<open>massnode\<close>\<close>

definition mn_blk :: "massnode \<Rightarrow> bool" where
  "mn_blk n \<longleftrightarrow> mn_hasKsuf n = 1 \<and> mn_get_ksuf n \<le> length (mn_mem n)"

definition mn_area :: "massnode \<Rightarrow> byte list" where
  "mn_area n = drop (mn_get_ksuf n) (mn_mem n)"

definition mn_reads :: "(u64 \<Rightarrow> byte list) \<Rightarrow> massnode \<Rightarrow> nat \<Rightarrow> u64 \<Rightarrow> nat \<Rightarrow> bool" where
  "mn_reads col0 n i v u \<longleftrightarrow> mn_lv n i = lvs_of_value (col0 v)"

lemma mn_set_offset_read:
  assumes "mn_get_ksuf n \<le> length (mn_mem n)" "mn_hasKsuf n = 1" "p \<le> mn_nkeys n" "r \<le> mn_nkeys n"
  shows "mn_ksuf_offset (mn_set_ksuf_offset n p z) r = (if r = p then z mod 2 ^ 32 else mn_ksuf_offset n r)"
  using assms by (auto simp: mn_getter_defs mn_setter_defs mn_offset_defs layout_simps split: if_splits)

lemma mn_blk_set:
  assumes "mn_blk n"
  shows "p < mn_nkeys n \<Longrightarrow> mn_blk (mn_set_ikeylen n p v)" and "p < mn_nkeys n \<Longrightarrow> mn_blk (mn_set_ikey n p x)"
    and "p < mn_nkeys n \<Longrightarrow> mn_blk (mn_set_lv n p x)" and "p \<le> mn_nkeys n \<Longrightarrow> mn_blk (mn_set_ksuf_offset n p z)"
  using assms by (auto simp: mn_blk_def mn_setter_defs mn_offset_defs)

lemma mn_area_set:
  assumes "mn_get_ksuf n \<le> length (mn_mem n)"
  shows "p < mn_nkeys n \<Longrightarrow> mn_area (mn_set_ikeylen n p v) = mn_area n"
    and "p < mn_nkeys n \<Longrightarrow> mn_area (mn_set_ikey n p x) = mn_area n"
    and "p < mn_nkeys n \<Longrightarrow> mn_area (mn_set_lv n p x) = mn_area n"
    and "p \<le> mn_nkeys n \<Longrightarrow> mn_area (mn_set_ksuf_offset n p z) = mn_area n"
  using assms
  by (auto simp: mn_area_def mn_setter_defs mn_offset_defs wr8_def wr32_def wr64_def drop_poke_before split: if_splits)

lemma mn_put_ksuf_laws:
  assumes "mn_get_ksuf n \<le> length (mn_mem n)" "cur + length s \<le> length (mn_area n)"
  shows "j < mn_nkeys n \<Longrightarrow> mn_ikeylen (mn_put_ksuf n cur s) j = mn_ikeylen n j"
    and "j < mn_nkeys n \<Longrightarrow> mn_ikey (mn_put_ksuf n cur s) j = mn_ikey n j"
    and "j < mn_nkeys n \<Longrightarrow> mn_lv (mn_put_ksuf n cur s) j = mn_lv n j"
    and "j \<le> mn_nkeys n \<Longrightarrow> mn_ksuf_offset (mn_put_ksuf n cur s) j = mn_ksuf_offset n j"
    and "mn_area (mn_put_ksuf n cur s) = poke (mn_area n) cur s"
    and "mn_blk (mn_put_ksuf n cur s) \<longleftrightarrow> mn_blk n"
    and "mn_nkeys (mn_put_ksuf n cur s) = mn_nkeys n"
proof -
  have len: "mn_get_ksuf n + cur + length s \<le> length (mn_mem n)" using assms by (simp add: mn_area_def)
  note frame = rd8_def rd32_def rd64_def nth_poke peek_poke_other
  show "j < mn_nkeys n \<Longrightarrow> mn_ikeylen (mn_put_ksuf n cur s) j = mn_ikeylen n j"
    using len by (simp add: mn_ikeylen_def mn_put_ksuf_def mn_offset_defs frame split: if_splits)
  show "j < mn_nkeys n \<Longrightarrow> mn_ikey (mn_put_ksuf n cur s) j = mn_ikey n j"
    using len by (simp add: mn_ikey_def mn_put_ksuf_def mn_offset_defs frame split: if_splits)
  show lv: "j < mn_nkeys n \<Longrightarrow> mn_lv (mn_put_ksuf n cur s) j = mn_lv n j"
    using len by (simp add: mn_lv_def mn_put_ksuf_def mn_offset_defs frame split: if_splits)
  show "j \<le> mn_nkeys n \<Longrightarrow> mn_ksuf_offset (mn_put_ksuf n cur s) j = mn_ksuf_offset n j"
    using len by (simp add: mn_ksuf_offset_def mn_put_ksuf_def mn_offset_defs frame split: if_splits)
  have k: "mn_get_ksuf (mn_put_ksuf n cur s) = mn_get_ksuf n" by (simp add: mn_put_ksuf_def mn_offset_defs)
  show "mn_area (mn_put_ksuf n cur s) = poke (mn_area n) cur s"
    using len by (simp add: mn_area_def k) (simp add: mn_put_ksuf_def drop_poke_after)
  show "mn_blk (mn_put_ksuf n cur s) \<longleftrightarrow> mn_blk n"
    using len by (simp add: mn_blk_def k) (simp add: mn_put_ksuf_def add.assoc)
  show "mn_nkeys (mn_put_ksuf n cur s) = mn_nkeys n" by (simp add: mn_put_ksuf_def)
qed

lemma mn_suffix_area:
  assumes "mn_blk n" "i < mn_nkeys n" "mn_ksuf_offset n i \<le> mn_ksuf_offset n (i + 1)" "mn_ksuf_offset n (i + 1) \<le> length (mn_area n)"
  shows "mn_ksuf n i = peek (mn_area n) (mn_ksuf_offset n i) (mn_ksuf_offset n (i + 1) - mn_ksuf_offset n i)"
proof -
  have len: "mn_get_ksuf n \<le> length (mn_mem n)" and h: "mn_hasKsuf n = 1" using assms(1) by (simp_all add: mn_blk_def)
  have "mn_ksuflen n i = mn_ksuf_offset n (i + 1) - mn_ksuf_offset n i"
    using len h assms(2,3) by (simp add: mn_ksuflen_def mn_ksuf_offset_def mn_offset_defs sub32_rd32)
  moreover have "mn_ksufpos n i = mn_get_ksuf n + mn_ksuf_offset n i"
    using h by (simp add: mn_ksufpos_def mn_ksuf_offset_def)
  ultimately show ?thesis by (simp add: mn_ksuf_def mn_area_def peek_def add.commute)
qed

lemma mn_make_laws:
  assumes "nk < 2 ^ 32"
  shows "mn_blk (mn_make raw ks True nk) \<and> mn_nkeys (mn_make raw ks True nk) = nk \<and> length (mn_area (mn_make raw ks True nk)) = ks"
proof -
  have nk: "nk mod 2 ^ 32 = nk" using assms by simp_all
  show ?thesis
    by (simp only: mn_make_def Let_def nk) (simp add: mn_blk_def mn_area_def mn_offset_defs)
qed

lemma mn_hasKsuf_set [simp]:
  "mn_hasKsuf (mn_set_ikeylen n p v) = mn_hasKsuf n" "mn_hasKsuf (mn_set_ikey n p x) = mn_hasKsuf n"
  "mn_hasKsuf (mn_set_lv n p x) = mn_hasKsuf n" "mn_hasKsuf (mn_set_ksuf_offset n p z) = mn_hasKsuf n"
  by (simp_all add: mn_setter_defs)

lemma mn_build_simps [simp]:
  "bo_ops (mn_build_ops col0) = mn_ops" "bo_set_ikey (mn_build_ops col0) = mn_set_ikey"
  "bo_set_ksuf_offset (mn_build_ops col0) = mn_set_ksuf_offset" "bo_put_ksuf (mn_build_ops col0) = mn_put_ksuf"
  "bo_value_len (mn_build_ops col0) = (\<lambda>lv. 0)"
  by (simp_all add: mn_build_ops_def)

interpretation mnb: node_builder mn_ops mn_ok "\<lambda>_ _. True" "mn_build_ops col0" mn_blk mn_ksuf_offset mn_area
  "\<lambda>_. 2 ^ 32 - 1 :: nat" "mn_reads col0"
  for col0
proof
  fix n :: massnode and i j cur z nk vs ks :: nat and kl :: byte and ik x :: u64 and s :: "byte list" and raw :: "nat \<Rightarrow> byte"
  have blk: "mn_get_ksuf n \<le> length (mn_mem n)" if "mn_blk n" using that by (simp add: mn_blk_def)
  show "bo_ops (mn_build_ops col0) = mn_ops" by simp
  show "nk < 2 ^ 32 \<Longrightarrow> vs < 2 ^ 32 \<Longrightarrow> mn_blk (bo_make (mn_build_ops col0) raw ks vs nk) \<and>
      op_nkeys mn_ops (bo_make (mn_build_ops col0) raw ks vs nk) = nk \<and>
      length (mn_area (bo_make (mn_build_ops col0) raw ks vs nk)) = ks \<and>
      vs \<le> (\<lambda>_. 2 ^ 32 - 1 :: nat) (bo_make (mn_build_ops col0) raw ks vs nk) \<and> (\<lambda>_. 2 ^ 32 - 1 :: nat) (bo_make (mn_build_ops col0) raw ks vs nk) < 2 ^ 32"
    using mn_make_laws [of nk raw ks] by (simp add: mn_build_ops_def)

  show "mn_blk n \<Longrightarrow> i < op_nkeys mn_ops n \<Longrightarrow>
      (let m = op_set_ikeylen mn_ops n i kl in mn_blk m \<and> op_nkeys mn_ops m = op_nkeys mn_ops n \<and> mn_area m = mn_area n \<and> (\<lambda>_. 2 ^ 32 - 1 :: nat) m = (\<lambda>_. 2 ^ 32 - 1 :: nat) n \<and>
        (\<forall>j < op_nkeys mn_ops n. op_ikeylen mn_ops m j = (if j = i then kl else op_ikeylen mn_ops n j) \<and>
          op_ikey mn_ops m j = op_ikey mn_ops n j \<and> op_lv mn_ops m j = op_lv mn_ops n j \<and>
          ((\<forall>v u. mn_reads col0 n j v u \<longrightarrow> mn_reads col0 m j v u))) \<and>
        (\<forall>j \<le> op_nkeys mn_ops n. mn_ksuf_offset m j = mn_ksuf_offset n j))"
  proof -
    assume a: "mn_blk n" "i < op_nkeys mn_ops n"
    note l = mn_set_ikeylen_laws [OF blk [OF a(1)] a(2) [unfolded mn_ops_simps]]
    have area: "mn_area (mn_set_ikeylen n i kl) = mn_area n" using mn_area_set(1) [OF blk [OF a(1)]] a(2) by simp
    have nk: "mn_nkeys (mn_set_ikeylen n i kl) = mn_nkeys n" by (simp add: mn_setter_defs)
    have "mn_blk (mn_set_ikeylen n i kl)" using mn_blk_set(1) [OF a(1)] a(2) by simp
    with l area nk a show ?thesis
      unfolding Let_def by (auto simp: mn_reads_def split: if_splits)
  qed

  show "mn_blk n \<Longrightarrow> i < op_nkeys mn_ops n \<Longrightarrow>
      (let m = bo_set_ikey (mn_build_ops col0) n i ik in mn_blk m \<and> op_nkeys mn_ops m = op_nkeys mn_ops n \<and> mn_area m = mn_area n \<and> (\<lambda>_. 2 ^ 32 - 1 :: nat) m = (\<lambda>_. 2 ^ 32 - 1 :: nat) n \<and>
        (\<forall>j < op_nkeys mn_ops n. op_ikeylen mn_ops m j = op_ikeylen mn_ops n j \<and>
          op_ikey mn_ops m j = (if j = i then ik else op_ikey mn_ops n j) \<and> op_lv mn_ops m j = op_lv mn_ops n j \<and>
          ((\<forall>v u. mn_reads col0 n j v u \<longrightarrow> mn_reads col0 m j v u))) \<and>
        (\<forall>j \<le> op_nkeys mn_ops n. mn_ksuf_offset m j = mn_ksuf_offset n j))"
  proof -
    assume a: "mn_blk n" "i < op_nkeys mn_ops n"
    note l = mn_set_ikey_laws [OF blk [OF a(1)] a(2) [unfolded mn_ops_simps]]
    have area: "mn_area (mn_set_ikey n i ik) = mn_area n" using mn_area_set(2) [OF blk [OF a(1)]] a(2) by simp
    have nk: "mn_nkeys (mn_set_ikey n i ik) = mn_nkeys n" by (simp add: mn_setter_defs)
    have "mn_blk (mn_set_ikey n i ik)" using mn_blk_set(2) [OF a(1)] a(2) by simp
    with l area nk a show ?thesis
      unfolding Let_def by (auto simp: mn_reads_def split: if_splits)
  qed

  show "mn_blk n \<Longrightarrow> i < op_nkeys mn_ops n \<Longrightarrow>
      (let m = op_set_lv mn_ops n i x in mn_blk m \<and> op_nkeys mn_ops m = op_nkeys mn_ops n \<and> mn_area m = mn_area n \<and> (\<lambda>_. 2 ^ 32 - 1 :: nat) m = (\<lambda>_. 2 ^ 32 - 1 :: nat) n \<and>
        (\<forall>j < op_nkeys mn_ops n. op_ikeylen mn_ops m j = op_ikeylen mn_ops n j \<and>
          op_ikey mn_ops m j = op_ikey mn_ops n j \<and> op_lv mn_ops m j = (if j = i then x else op_lv mn_ops n j) \<and>
          (j \<noteq> i \<longrightarrow> (\<forall>v u. mn_reads col0 n j v u \<longrightarrow> mn_reads col0 m j v u))) \<and>
        (\<forall>j \<le> op_nkeys mn_ops n. mn_ksuf_offset m j = mn_ksuf_offset n j))"
  proof -
    assume a: "mn_blk n" "i < op_nkeys mn_ops n"
    note l = mn_set_lv_laws [OF blk [OF a(1)] a(2) [unfolded mn_ops_simps]]
    have area: "mn_area (mn_set_lv n i x) = mn_area n" using mn_area_set(3) [OF blk [OF a(1)]] a(2) by simp
    have nk: "mn_nkeys (mn_set_lv n i x) = mn_nkeys n" by (simp add: mn_setter_defs)
    have "mn_blk (mn_set_lv n i x)" using mn_blk_set(3) [OF a(1)] a(2) by simp
    with l area nk a show ?thesis
      unfolding Let_def by (auto simp: mn_reads_def split: if_splits)
  qed

  show "mn_blk n \<Longrightarrow> i \<le> op_nkeys mn_ops n \<Longrightarrow>
      (let m = bo_set_ksuf_offset (mn_build_ops col0) n i z in mn_blk m \<and> op_nkeys mn_ops m = op_nkeys mn_ops n \<and> mn_area m = mn_area n \<and> (\<lambda>_. 2 ^ 32 - 1 :: nat) m = (\<lambda>_. 2 ^ 32 - 1 :: nat) n \<and>
        (\<forall>j < op_nkeys mn_ops n. op_ikeylen mn_ops m j = op_ikeylen mn_ops n j \<and>
          op_ikey mn_ops m j = op_ikey mn_ops n j \<and> op_lv mn_ops m j = op_lv mn_ops n j \<and>
          ((\<forall>v u. mn_reads col0 n j v u \<longrightarrow> mn_reads col0 m j v u))) \<and>
        (\<forall>j \<le> op_nkeys mn_ops n. mn_ksuf_offset m j = (if j = i then z mod 2 ^ 32 else mn_ksuf_offset n j)))"
  proof -
    assume a: "mn_blk n" "i \<le> op_nkeys mn_ops n"
    note l = mn_set_ksuf_offset_laws [OF blk [OF a(1)] a(2) [unfolded mn_ops_simps]]
    have area: "mn_area (mn_set_ksuf_offset n i z) = mn_area n" using mn_area_set(4) [OF blk [OF a(1)]] a(2) by simp
    have nk: "mn_nkeys (mn_set_ksuf_offset n i z) = mn_nkeys n" by (simp add: mn_setter_defs)
    have "mn_blk (mn_set_ksuf_offset n i z)" using mn_blk_set(4) [OF a(1)] a(2) by simp
    with l area nk a mn_set_offset_read [OF blk [OF a(1)] conjunct1 [OF a(1) [unfolded mn_blk_def]] a(2) [unfolded mn_ops_simps]] show ?thesis
      unfolding Let_def by (auto simp: mn_reads_def split: if_splits)
  qed

  show "mn_blk n \<Longrightarrow> i < op_nkeys mn_ops n \<Longrightarrow> cur + bo_value_len (mn_build_ops col0) x \<le> (\<lambda>_. 2 ^ 32 - 1 :: nat) n \<Longrightarrow> (\<lambda>_. 2 ^ 32 - 1 :: nat) n < 2 ^ 32 \<Longrightarrow>
      (case bo_put_value (mn_build_ops col0) n i cur x of (m, cur') \<Rightarrow>
        mn_blk m \<and> op_nkeys mn_ops m = op_nkeys mn_ops n \<and> mn_area m = mn_area n \<and> (\<lambda>_. 2 ^ 32 - 1 :: nat) m = (\<lambda>_. 2 ^ 32 - 1 :: nat) n \<and>
        cur' = cur + bo_value_len (mn_build_ops col0) x \<and>
        (\<forall>j < op_nkeys mn_ops n. op_ikeylen mn_ops m j = op_ikeylen mn_ops n j \<and> op_ikey mn_ops m j = op_ikey mn_ops n j \<and>
          (j \<noteq> i \<longrightarrow> op_lv mn_ops m j = op_lv mn_ops n j) \<and>
          (j \<noteq> i \<longrightarrow> (\<forall>v. mn_reads col0 n j v cur \<longrightarrow> mn_reads col0 m j v cur'))) \<and> mn_reads col0 m i x cur' \<and>
        (\<forall>j \<le> op_nkeys mn_ops n. mn_ksuf_offset m j = mn_ksuf_offset n j))"
  proof -
    assume a: "mn_blk n" "i < op_nkeys mn_ops n" "cur + bo_value_len (mn_build_ops col0) x \<le> (\<lambda>_. 2 ^ 32 - 1 :: nat) n" "(\<lambda>_. 2 ^ 32 - 1 :: nat) n < 2 ^ 32"
    have i: "i < mn_nkeys n" using a(2) by simp
    let ?m = "mn_set_lv n i (lvs_of_value (col0 x))"
    have put: "bo_put_value (mn_build_ops col0) n i cur x = (?m, cur)" by (simp add: mn_build_ops_def)
    note l = mn_set_lv_laws [OF blk [OF a(1)] i]
    have area: "mn_area ?m = mn_area n" using mn_area_set(3) [OF blk [OF a(1)]] i by simp
    have "mn_blk ?m" using a l(7,8) [OF i] by (simp add: mn_blk_def)
    with l area i show ?thesis unfolding put prod.case by (auto simp: mn_reads_def)
  qed

  show "mn_blk n \<Longrightarrow> cur + length s \<le> length (mn_area n) \<Longrightarrow>
      (let m = bo_put_ksuf (mn_build_ops col0) n cur s in mn_blk m \<and> op_nkeys mn_ops m = op_nkeys mn_ops n \<and>
        mn_area m = poke (mn_area n) cur s \<and> (\<lambda>_. 2 ^ 32 - 1 :: nat) m = (\<lambda>_. 2 ^ 32 - 1 :: nat) n \<and>
        (\<forall>j < op_nkeys mn_ops n. op_ikeylen mn_ops m j = op_ikeylen mn_ops n j \<and> op_ikey mn_ops m j = op_ikey mn_ops n j \<and> op_lv mn_ops m j = op_lv mn_ops n j \<and>
          (\<forall>v u. mn_reads col0 n j v u \<longrightarrow> mn_reads col0 m j v u)) \<and>
        (\<forall>j \<le> op_nkeys mn_ops n. mn_ksuf_offset m j = mn_ksuf_offset n j))"
    using mn_put_ksuf_laws [OF blk, of cur s] by (simp add: Let_def mn_reads_def)
  show "mn_blk n \<Longrightarrow> i < op_nkeys mn_ops n \<Longrightarrow> mn_ksuf_offset n i \<le> mn_ksuf_offset n (i + 1) \<Longrightarrow>
      mn_ksuf_offset n (i + 1) \<le> length (mn_area n) \<Longrightarrow>
      op_ksuf mn_ops n i = peek (mn_area n) (mn_ksuf_offset n i) (mn_ksuf_offset n (i + 1) - mn_ksuf_offset n i)"
    using mn_suffix_area by simp
  show "mn_blk n \<Longrightarrow>
      \<forall>i < op_nkeys mn_ops n. mn_ksuf_offset n i \<le> mn_ksuf_offset n (i + 1) \<and> mn_ksuf_offset n (i + 1) \<le> length (mn_area n) \<Longrightarrow>
      node_sorted mn_ops n \<Longrightarrow> \<forall>i < op_nkeys mn_ops n. kl_ok (op_ikeylen mn_ops n i) \<Longrightarrow> mn_ok n"
    by (auto simp: mn_ok_def mn_block_def mn_area_def mn_blk_def le_diff_conv2)
qed

section \<open>\<^verbatim>\<open>massnode_multivalue\<close>\<close>

definition mv_blk :: "massnode_multivalue \<Rightarrow> bool" where
  "mv_blk n \<longleftrightarrow> mv_get_ksuf n \<le> length (mv_mem n)"

definition mv_area :: "massnode_multivalue \<Rightarrow> byte list" where
  "mv_area n = drop (mv_get_ksuf n) (mv_mem n)"

definition mv_reads :: "(u64 \<Rightarrow> byte list) \<Rightarrow> massnode_multivalue \<Rightarrow> nat \<Rightarrow> u64 \<Rightarrow> nat \<Rightarrow> bool" where
  "mv_reads col0 n i v u \<longleftrightarrow> lvm_value_len (mv_lv n i) = length (col0 v) \<and>
     lvm_value_pos_offset (mv_lv n i) + length (col0 v) \<le> u \<and> u \<le> mv_vsize n \<and> mv_value n i = col0 v"

lemma mv_set_offset_read:
  assumes "mv_get_ksuf n \<le> length (mv_mem n)" "p \<le> mv_nkeys n" "r \<le> mv_nkeys n"
  shows "mv_ksuf_offset (mv_set_ksuf_offset n p z) r = (if r = p then z mod 2 ^ 32 else mv_ksuf_offset n r)"
  using assms by (auto simp: mv_getter_defs mv_setter_defs mv_offset_defs layout_simps)

lemma mv_blk_set:
  assumes "mv_blk n"
  shows "p < mv_nkeys n \<Longrightarrow> mv_blk (mv_set_ikeylen n p v)" and "p < mv_nkeys n \<Longrightarrow> mv_blk (mv_set_ikey n p x)"
    and "p < mv_nkeys n \<Longrightarrow> mv_blk (mv_set_lv n p x)" and "p \<le> mv_nkeys n \<Longrightarrow> mv_blk (mv_set_ksuf_offset n p z)"
  using assms by (auto simp: mv_blk_def mv_setter_defs mv_offset_defs)

lemma mv_area_set:
  assumes "mv_get_ksuf n \<le> length (mv_mem n)"
  shows "p < mv_nkeys n \<Longrightarrow> mv_area (mv_set_ikeylen n p v) = mv_area n"
    and "p < mv_nkeys n \<Longrightarrow> mv_area (mv_set_ikey n p x) = mv_area n"
    and "p < mv_nkeys n \<Longrightarrow> mv_area (mv_set_lv n p x) = mv_area n"
    and "p \<le> mv_nkeys n \<Longrightarrow> mv_area (mv_set_ksuf_offset n p z) = mv_area n"
  using assms
  by (auto simp: mv_area_def mv_setter_defs mv_offset_defs wr8_def wr32_def wr64_def drop_poke_before)

lemma mv_value_set:
  assumes "mv_get_ksuf n \<le> length (mv_mem n)" "i < mv_nkeys n" "mv_reads col0 n i v u"
  shows "p < mv_nkeys n \<Longrightarrow> mv_reads col0 (mv_set_ikeylen n p kl) i v u"
    and "p < mv_nkeys n \<Longrightarrow> mv_reads col0 (mv_set_ikey n p ik) i v u"
    and "p < mv_nkeys n \<Longrightarrow> p \<noteq> i \<Longrightarrow> mv_reads col0 (mv_set_lv n p x) i v u"
    and "p \<le> mv_nkeys n \<Longrightarrow> mv_reads col0 (mv_set_ksuf_offset n p z) i v u"
proof -
  have r: "lvm_value_len (mv_lv n i) = length (col0 v)" "lvm_value_pos_offset (mv_lv n i) + length (col0 v) \<le> u"
      "u \<le> mv_vsize n" "peek (mv_mem n) (mv_get_value n + lvm_value_pos_offset (mv_lv n i)) (length (col0 v)) = col0 v"
    using assms(3) by (auto simp: mv_reads_def mv_value_def mv_valuepos_def mv_valuelen_def)
  have in_area: "mv_get_value n + lvm_value_pos_offset (mv_lv n i) + length (col0 v) \<le> mv_get_value n + mv_vsize n" using r(2,3) by linarith
  show "p < mv_nkeys n \<Longrightarrow> mv_reads col0 (mv_set_ikeylen n p kl) i v u"
    using assms(1,2) r in_area mv_set_ikeylen_laws(3) [OF assms(1) _ assms(2), of p kl]
    by (simp add: mv_reads_def mv_value_def mv_valuepos_def mv_valuelen_def mv_set_ikeylen_def mv_offset_defs wr8_def peek_poke_other)
  show "p < mv_nkeys n \<Longrightarrow> mv_reads col0 (mv_set_ikey n p ik) i v u"
    using assms(1,2) r in_area mv_set_ikey_laws(3) [OF assms(1) _ assms(2), of p ik]
    by (simp add: mv_reads_def mv_value_def mv_valuepos_def mv_valuelen_def mv_set_ikey_def mv_offset_defs wr64_def peek_poke_other)
  show "p < mv_nkeys n \<Longrightarrow> p \<noteq> i \<Longrightarrow> mv_reads col0 (mv_set_lv n p x) i v u"
    using assms(1,2) r in_area mv_set_lv_laws(3) [OF assms(1) _ assms(2), of p x]
    by (simp add: mv_reads_def mv_value_def mv_valuepos_def mv_valuelen_def mv_set_lv_def mv_offset_defs wr64_def peek_poke_other)
  show "p \<le> mv_nkeys n \<Longrightarrow> mv_reads col0 (mv_set_ksuf_offset n p z) i v u"
    using assms(1,2) r in_area mv_set_ksuf_offset_laws(3) [OF assms(1) _ assms(2), of p z]
    by (simp add: mv_reads_def mv_value_def mv_valuepos_def mv_valuelen_def mv_set_ksuf_offset_def mv_offset_defs wr32_def peek_poke_other)
qed

lemma mv_put_ksuf_laws:
  assumes "mv_get_ksuf n \<le> length (mv_mem n)" "cur + length s \<le> length (mv_area n)"
  shows "j < mv_nkeys n \<Longrightarrow> mv_ikeylen (mv_put_ksuf n cur s) j = mv_ikeylen n j"
    and "j < mv_nkeys n \<Longrightarrow> mv_ikey (mv_put_ksuf n cur s) j = mv_ikey n j"
    and "j < mv_nkeys n \<Longrightarrow> mv_lv (mv_put_ksuf n cur s) j = mv_lv n j"
    and "j \<le> mv_nkeys n \<Longrightarrow> mv_ksuf_offset (mv_put_ksuf n cur s) j = mv_ksuf_offset n j"
    and "mv_area (mv_put_ksuf n cur s) = poke (mv_area n) cur s"
    and "mv_blk (mv_put_ksuf n cur s) \<longleftrightarrow> mv_blk n"
    and "mv_nkeys (mv_put_ksuf n cur s) = mv_nkeys n"
    and "j < mv_nkeys n \<Longrightarrow> mv_reads col0 n j v u \<Longrightarrow> mv_reads col0 (mv_put_ksuf n cur s) j v u"
proof -
  have len: "mv_get_ksuf n + cur + length s \<le> length (mv_mem n)" using assms by (simp add: mv_area_def)
  note frame = rd8_def rd32_def rd64_def nth_poke peek_poke_other
  show "j < mv_nkeys n \<Longrightarrow> mv_ikeylen (mv_put_ksuf n cur s) j = mv_ikeylen n j"
    using len by (simp add: mv_ikeylen_def mv_put_ksuf_def mv_offset_defs frame)
  show "j < mv_nkeys n \<Longrightarrow> mv_ikey (mv_put_ksuf n cur s) j = mv_ikey n j"
    using len by (simp add: mv_ikey_def mv_put_ksuf_def mv_offset_defs frame)
  show lv: "j < mv_nkeys n \<Longrightarrow> mv_lv (mv_put_ksuf n cur s) j = mv_lv n j"
    using len by (simp add: mv_lv_def mv_put_ksuf_def mv_offset_defs frame)
  show "j \<le> mv_nkeys n \<Longrightarrow> mv_ksuf_offset (mv_put_ksuf n cur s) j = mv_ksuf_offset n j"
    using len by (simp add: mv_ksuf_offset_def mv_put_ksuf_def mv_offset_defs frame)
  have k: "mv_get_ksuf (mv_put_ksuf n cur s) = mv_get_ksuf n" by (simp add: mv_put_ksuf_def mv_offset_defs)
  show "mv_area (mv_put_ksuf n cur s) = poke (mv_area n) cur s"
    using len by (simp add: mv_area_def k) (simp add: mv_put_ksuf_def drop_poke_after)
  show "mv_blk (mv_put_ksuf n cur s) \<longleftrightarrow> mv_blk n"
    using len by (simp add: mv_blk_def k) (simp add: mv_put_ksuf_def add.assoc)
  show "mv_nkeys (mv_put_ksuf n cur s) = mv_nkeys n" by (simp add: mv_put_ksuf_def)
  show "mv_reads col0 (mv_put_ksuf n cur s) j v u" if "j < mv_nkeys n" "mv_reads col0 n j v u"
  proof -
    have "peek (poke (mv_mem n) (mv_get_ksuf n + cur) s) (mv_get_value n + lvm_value_pos_offset (mv_lv n j)) (length (col0 v)) =
        peek (mv_mem n) (mv_get_value n + lvm_value_pos_offset (mv_lv n j)) (length (col0 v))"
      using that(2) len by (intro peek_poke_other) (auto simp: mv_reads_def mv_offset_defs)
    moreover have "mv_get_value (mv_put_ksuf n cur s) = mv_get_value n" "mv_vsize (mv_put_ksuf n cur s) = mv_vsize n"
        "mv_mem (mv_put_ksuf n cur s) = poke (mv_mem n) (mv_get_ksuf n + cur) s"
      by (simp_all add: mv_put_ksuf_def mv_offset_defs)
    ultimately show ?thesis using that lv [OF that(1)]
      by (auto simp: mv_reads_def mv_value_def mv_valuepos_def mv_valuelen_def)
  qed
qed

lemma mv_put_value_laws:
  assumes len: "mv_get_ksuf n \<le> length (mv_mem n)" and i: "i < mv_nkeys n" and room: "cur + length (col0 x) \<le> mv_vsize n"
    and small: "mv_vsize n < 2 ^ 32" and m: "mv_put_value col0 n i cur x = (m, cur')"
  shows "cur' = cur + length (col0 x)" and "mv_blk m" "mv_nkeys m = mv_nkeys n" "mv_area m = mv_area n" "mv_vsize m = mv_vsize n"
    and "j < mv_nkeys n \<Longrightarrow> mv_ikeylen m j = mv_ikeylen n j"
    and "j < mv_nkeys n \<Longrightarrow> mv_ikey m j = mv_ikey n j"
    and "j < mv_nkeys n \<Longrightarrow> j \<noteq> i \<Longrightarrow> mv_lv m j = mv_lv n j"
    and "j \<le> mv_nkeys n \<Longrightarrow> mv_ksuf_offset m j = mv_ksuf_offset n j"
    and "j < mv_nkeys n \<Longrightarrow> j \<noteq> i \<Longrightarrow> mv_reads col0 n j v cur \<Longrightarrow> mv_reads col0 m j v cur'"
    and "mv_reads col0 m i x cur'"
proof -
  let ?n = "mv_set_lv n i (lvm_make cur (length (col0 x)))" and ?s = "col0 x"
  show cur: "cur' = cur + length ?s" using m by (auto simp: mv_put_value_def Let_def)
  have same: "mv_nkeys ?n = mv_nkeys n" "mv_vsize ?n = mv_vsize n" "length (mv_mem ?n) = length (mv_mem n)"
      "mv_get_value ?n = mv_get_value n" "mv_get_ksuf ?n = mv_get_ksuf n"
    using mv_set_lv_laws(5,7,8) [OF len i i] by (simp_all add: mv_set_lv_def mv_offset_defs)
  have meq: "m = ?n\<lparr>mv_mem := poke (mv_mem ?n) (mv_get_value n + cur) ?s\<rparr>"
    using m same by (auto simp: mv_put_value_def Let_def)
  have mem: "mv_mem m = poke (mv_mem ?n) (mv_get_value n + cur) ?s" by (simp add: meq)
  have at: "mv_get_value n + cur + length ?s \<le> mv_get_ksuf_pos_offset n" "mv_get_ksuf_pos_offset n + 4 * (mv_nkeys n + 1) \<le> length (mv_mem n)"
    using room len by (simp_all add: mv_offset_defs)
  show nk: "mv_nkeys m = mv_nkeys n" "mv_vsize m = mv_vsize n" using same by (simp_all add: meq)
  have pos: "mv_get_keylenx m = mv_get_keylenx n" "mv_get_ikey0 m = mv_get_ikey0 n" "mv_get_lv m = mv_get_lv n"
      "mv_get_value m = mv_get_value n" "mv_get_ksuf_pos_offset m = mv_get_ksuf_pos_offset n" "mv_get_ksuf m = mv_get_ksuf n"
    using nk by (simp_all add: mv_offset_defs)
  have lenm: "length (mv_mem m) = length (mv_mem n)" using at same(3) by (simp add: mem)
  then show "mv_blk m" using len pos by (simp add: mv_blk_def)
  show "mv_area m = mv_area n"
  proof -
    have "drop (mv_get_ksuf n) (poke (mv_mem ?n) (mv_get_value n + cur) ?s) = drop (mv_get_ksuf n) (mv_mem ?n)"
      using room len same(3) by (intro drop_poke_before) (simp_all add: mv_offset_defs)
    then show ?thesis using mv_area_set(3) [OF len i, of "lvm_make cur (length ?s)"] same(5) pos by (simp add: mv_area_def mem)
  qed
  have off: "mv_get_keylenx n + mv_nkeys n \<le> mv_get_value n" "mv_get_ikey0 n + 8 * mv_nkeys n \<le> mv_get_value n"
      "mv_get_lv n + 8 * mv_nkeys n \<le> mv_get_value n" by (simp_all add: mv_offset_defs)
  note n1 = mv_set_lv_laws [OF len i]
  note getters = mv_ikeylen_def mv_ikey_def mv_lv_def mv_ksuf_offset_def
  have gpos: "mv_get_keylenx ?n = mv_get_keylenx n" "mv_get_ikey0 ?n = mv_get_ikey0 n" "mv_get_lv ?n = mv_get_lv n"
      "mv_get_ksuf_pos_offset ?n = mv_get_ksuf_pos_offset n"
    using same by (simp_all add: mv_offset_defs)
  show "mv_ikeylen m j = mv_ikeylen n j" if "j < mv_nkeys n"
  proof -
    have "mv_ikeylen m j = mv_ikeylen ?n j"
      using that off at same(3) by (simp add: getters pos gpos mem rd8_def nth_poke)
    then show ?thesis using n1(1) [OF that] by simp
  qed
  show "mv_ikey m j = mv_ikey n j" if "j < mv_nkeys n"
  proof -
    have "mv_ikey m j = mv_ikey ?n j"
      using that off at same(3) by (simp add: getters pos gpos mem rd64_def peek_poke_other)
    then show ?thesis using n1(2) [OF that] by simp
  qed
  have lv: "mv_lv m j = (if j = i then lvm_make cur (length ?s) else mv_lv n j)" if "j < mv_nkeys n" for j
  proof -
    have "mv_lv m j = mv_lv ?n j"
      using that off at same(3) by (simp add: getters pos gpos mem rd64_def peek_poke_other)
    then show ?thesis using n1(3) [OF that] by auto
  qed
  then show "j < mv_nkeys n \<Longrightarrow> j \<noteq> i \<Longrightarrow> mv_lv m j = mv_lv n j" by simp
  show "mv_ksuf_offset m j = mv_ksuf_offset n j" if "j \<le> mv_nkeys n"
  proof -
    have "mv_ksuf_offset m j = mv_ksuf_offset ?n j"
      using that at same(3) by (simp add: getters pos gpos mem rd32_def peek_poke_other)
    then show ?thesis using n1(4) [OF i that] by simp
  qed
  show "mv_reads col0 m j v cur'" if j: "j < mv_nkeys n" "j \<noteq> i" "mv_reads col0 n j v cur"
  proof -
    have r: "mv_reads col0 ?n j v cur" using mv_value_set(3) [OF len j(1,3) i] j(2) by simp
    have lvj: "mv_lv ?n j = mv_lv n j" "mv_lv m j = mv_lv n j" using n1(3) [OF j(1)] lv [OF j(1)] j(2) by auto
    have "peek (poke (mv_mem ?n) (mv_get_value n + cur) ?s) (mv_get_value n + lvm_value_pos_offset (mv_lv n j)) (length (col0 v)) =
        peek (mv_mem ?n) (mv_get_value n + lvm_value_pos_offset (mv_lv n j)) (length (col0 v))"
      using r lvj(1) at same(3) by (intro peek_poke_other) (auto simp: mv_reads_def)
    then show ?thesis using r lvj room cur
      by (auto simp add: mv_reads_def mv_value_def mv_valuepos_def mv_valuelen_def same nk pos mem)
  qed
  have "cur < 2 ^ 32 \<and> length ?s < 2 ^ 32" using room small by linarith
  then have "lvm_value_pos_offset (lvm_make cur (length ?s)) = cur" "lvm_value_len (lvm_make cur (length ?s)) = length ?s"
    by (simp_all add: lvm_value_make)
  moreover have "peek (poke (mv_mem ?n) (mv_get_value n + cur) ?s) (mv_get_value n + cur) (length ?s) = ?s"
    using at same(3) by (intro peek_poke_same) simp_all
  ultimately show "mv_reads col0 m i x cur'"
    using lv [OF i] room cur by (simp add: mv_reads_def mv_value_def mv_valuepos_def mv_valuelen_def nk pos mem)
qed

lemma mv_suffix_area:
  assumes "mv_blk n" "i < mv_nkeys n" "mv_ksuf_offset n i \<le> mv_ksuf_offset n (i + 1)" "mv_ksuf_offset n (i + 1) \<le> length (mv_area n)"
  shows "mv_ksuf n i = peek (mv_area n) (mv_ksuf_offset n i) (mv_ksuf_offset n (i + 1) - mv_ksuf_offset n i)"
proof -
  have len: "mv_get_ksuf n \<le> length (mv_mem n)" using assms(1) by (simp_all add: mv_blk_def)
  have "mv_ksuflen n i = mv_ksuf_offset n (i + 1) - mv_ksuf_offset n i"
    using len assms(2,3) by (simp add: mv_ksuflen_def mv_ksuf_offset_def mv_offset_defs sub32_rd32)
  moreover have "mv_ksufpos n i = mv_get_ksuf n + mv_ksuf_offset n i"
    by (simp add: mv_ksufpos_def mv_ksuf_offset_def)
  ultimately show ?thesis by (simp add: mv_ksuf_def mv_area_def peek_def add.commute)
qed

lemma mv_make_laws:
  assumes "nk < 2 ^ 32" "vs < 2 ^ 32"
  shows "mv_blk (mv_make raw ks vs nk) \<and> mv_nkeys (mv_make raw ks vs nk) = nk \<and> length (mv_area (mv_make raw ks vs nk)) = ks \<and> mv_vsize (mv_make raw ks vs nk) = vs"
proof -
  have nk: "nk mod 2 ^ 32 = nk" "vs mod 2 ^ 32 = vs" using assms by simp_all
  show ?thesis
    by (simp only: mv_make_def Let_def nk) (simp add: mv_blk_def mv_area_def mv_offset_defs)
qed

lemma mv_build_simps [simp]:
  "bo_ops (mv_build_ops col0) = mv_ops" "bo_set_ikey (mv_build_ops col0) = mv_set_ikey"
  "bo_set_ksuf_offset (mv_build_ops col0) = mv_set_ksuf_offset" "bo_put_ksuf (mv_build_ops col0) = mv_put_ksuf"
  "bo_value_len (mv_build_ops col0) = (\<lambda>lv. length (col0 lv))"
  by (simp_all add: mv_build_ops_def)

lemma mv_vsize_set [simp]:
  "mv_vsize (mv_set_ikeylen n p v) = mv_vsize n" "mv_vsize (mv_set_ikey n p x) = mv_vsize n"
  "mv_vsize (mv_set_lv n p x) = mv_vsize n" "mv_vsize (mv_set_ksuf_offset n p z) = mv_vsize n"
  "mv_vsize (mv_put_ksuf n cur s) = mv_vsize n"
  by (simp_all add: mv_setter_defs mv_put_ksuf_def)

interpretation mvb: node_builder mv_ops mv_ok mv_fits "mv_build_ops col0" mv_blk mv_ksuf_offset mv_area
  "mv_vsize" "mv_reads col0"
  for col0
proof
  fix n :: massnode_multivalue and i j cur z nk vs ks :: nat and kl :: byte and ik x :: u64 and s :: "byte list" and raw :: "nat \<Rightarrow> byte"
  have blk: "mv_get_ksuf n \<le> length (mv_mem n)" if "mv_blk n" using that by (simp add: mv_blk_def)
  show "bo_ops (mv_build_ops col0) = mv_ops" by simp
  show "nk < 2 ^ 32 \<Longrightarrow> vs < 2 ^ 32 \<Longrightarrow> mv_blk (bo_make (mv_build_ops col0) raw ks vs nk) \<and>
      op_nkeys mv_ops (bo_make (mv_build_ops col0) raw ks vs nk) = nk \<and>
      length (mv_area (bo_make (mv_build_ops col0) raw ks vs nk)) = ks \<and>
      vs \<le> mv_vsize (bo_make (mv_build_ops col0) raw ks vs nk) \<and> mv_vsize (bo_make (mv_build_ops col0) raw ks vs nk) < 2 ^ 32"
    using mv_make_laws [of nk vs raw ks] by (simp add: mv_build_ops_def)

  show "mv_blk n \<Longrightarrow> i < op_nkeys mv_ops n \<Longrightarrow>
      (let m = op_set_ikeylen mv_ops n i kl in mv_blk m \<and> op_nkeys mv_ops m = op_nkeys mv_ops n \<and> mv_area m = mv_area n \<and> mv_vsize m = mv_vsize n \<and>
        (\<forall>j < op_nkeys mv_ops n. op_ikeylen mv_ops m j = (if j = i then kl else op_ikeylen mv_ops n j) \<and>
          op_ikey mv_ops m j = op_ikey mv_ops n j \<and> op_lv mv_ops m j = op_lv mv_ops n j \<and>
          ((\<forall>v u. mv_reads col0 n j v u \<longrightarrow> mv_reads col0 m j v u))) \<and>
        (\<forall>j \<le> op_nkeys mv_ops n. mv_ksuf_offset m j = mv_ksuf_offset n j))"
  proof -
    assume a: "mv_blk n" "i < op_nkeys mv_ops n"
    note l = mv_set_ikeylen_laws [OF blk [OF a(1)] a(2) [unfolded mv_ops_simps]]
    have area: "mv_area (mv_set_ikeylen n i kl) = mv_area n" using mv_area_set(1) [OF blk [OF a(1)]] a(2) by simp
    have nk: "mv_nkeys (mv_set_ikeylen n i kl) = mv_nkeys n" by (simp add: mv_setter_defs)
    have "mv_blk (mv_set_ikeylen n i kl)" using mv_blk_set(1) [OF a(1)] a(2) by simp
    with l area nk a show ?thesis
      unfolding Let_def by (auto simp:  mv_value_set(1) [OF blk [OF a(1)]])
  qed

  show "mv_blk n \<Longrightarrow> i < op_nkeys mv_ops n \<Longrightarrow>
      (let m = bo_set_ikey (mv_build_ops col0) n i ik in mv_blk m \<and> op_nkeys mv_ops m = op_nkeys mv_ops n \<and> mv_area m = mv_area n \<and> mv_vsize m = mv_vsize n \<and>
        (\<forall>j < op_nkeys mv_ops n. op_ikeylen mv_ops m j = op_ikeylen mv_ops n j \<and>
          op_ikey mv_ops m j = (if j = i then ik else op_ikey mv_ops n j) \<and> op_lv mv_ops m j = op_lv mv_ops n j \<and>
          ((\<forall>v u. mv_reads col0 n j v u \<longrightarrow> mv_reads col0 m j v u))) \<and>
        (\<forall>j \<le> op_nkeys mv_ops n. mv_ksuf_offset m j = mv_ksuf_offset n j))"
  proof -
    assume a: "mv_blk n" "i < op_nkeys mv_ops n"
    note l = mv_set_ikey_laws [OF blk [OF a(1)] a(2) [unfolded mv_ops_simps]]
    have area: "mv_area (mv_set_ikey n i ik) = mv_area n" using mv_area_set(2) [OF blk [OF a(1)]] a(2) by simp
    have nk: "mv_nkeys (mv_set_ikey n i ik) = mv_nkeys n" by (simp add: mv_setter_defs)
    have "mv_blk (mv_set_ikey n i ik)" using mv_blk_set(2) [OF a(1)] a(2) by simp
    with l area nk a show ?thesis
      unfolding Let_def by (auto simp:  mv_value_set(2) [OF blk [OF a(1)]])
  qed

  show "mv_blk n \<Longrightarrow> i < op_nkeys mv_ops n \<Longrightarrow>
      (let m = op_set_lv mv_ops n i x in mv_blk m \<and> op_nkeys mv_ops m = op_nkeys mv_ops n \<and> mv_area m = mv_area n \<and> mv_vsize m = mv_vsize n \<and>
        (\<forall>j < op_nkeys mv_ops n. op_ikeylen mv_ops m j = op_ikeylen mv_ops n j \<and>
          op_ikey mv_ops m j = op_ikey mv_ops n j \<and> op_lv mv_ops m j = (if j = i then x else op_lv mv_ops n j) \<and>
          (j \<noteq> i \<longrightarrow> (\<forall>v u. mv_reads col0 n j v u \<longrightarrow> mv_reads col0 m j v u))) \<and>
        (\<forall>j \<le> op_nkeys mv_ops n. mv_ksuf_offset m j = mv_ksuf_offset n j))"
  proof -
    assume a: "mv_blk n" "i < op_nkeys mv_ops n"
    note l = mv_set_lv_laws [OF blk [OF a(1)] a(2) [unfolded mv_ops_simps]]
    have area: "mv_area (mv_set_lv n i x) = mv_area n" using mv_area_set(3) [OF blk [OF a(1)]] a(2) by simp
    have nk: "mv_nkeys (mv_set_lv n i x) = mv_nkeys n" by (simp add: mv_setter_defs)
    have "mv_blk (mv_set_lv n i x)" using mv_blk_set(3) [OF a(1)] a(2) by simp
    with l area nk a show ?thesis
      unfolding Let_def by (auto simp:  mv_value_set(3) [OF blk [OF a(1)]])
  qed

  show "mv_blk n \<Longrightarrow> i \<le> op_nkeys mv_ops n \<Longrightarrow>
      (let m = bo_set_ksuf_offset (mv_build_ops col0) n i z in mv_blk m \<and> op_nkeys mv_ops m = op_nkeys mv_ops n \<and> mv_area m = mv_area n \<and> mv_vsize m = mv_vsize n \<and>
        (\<forall>j < op_nkeys mv_ops n. op_ikeylen mv_ops m j = op_ikeylen mv_ops n j \<and>
          op_ikey mv_ops m j = op_ikey mv_ops n j \<and> op_lv mv_ops m j = op_lv mv_ops n j \<and>
          ((\<forall>v u. mv_reads col0 n j v u \<longrightarrow> mv_reads col0 m j v u))) \<and>
        (\<forall>j \<le> op_nkeys mv_ops n. mv_ksuf_offset m j = (if j = i then z mod 2 ^ 32 else mv_ksuf_offset n j)))"
  proof -
    assume a: "mv_blk n" "i \<le> op_nkeys mv_ops n"
    note l = mv_set_ksuf_offset_laws [OF blk [OF a(1)] a(2) [unfolded mv_ops_simps]]
    have area: "mv_area (mv_set_ksuf_offset n i z) = mv_area n" using mv_area_set(4) [OF blk [OF a(1)]] a(2) by simp
    have nk: "mv_nkeys (mv_set_ksuf_offset n i z) = mv_nkeys n" by (simp add: mv_setter_defs)
    have "mv_blk (mv_set_ksuf_offset n i z)" using mv_blk_set(4) [OF a(1)] a(2) by simp
    with l area nk a mv_set_offset_read [OF blk [OF a(1)] a(2) [unfolded mv_ops_simps]] show ?thesis
      unfolding Let_def by (auto simp:  mv_value_set(4) [OF blk [OF a(1)]])
  qed

  show "mv_blk n \<Longrightarrow> i < op_nkeys mv_ops n \<Longrightarrow> cur + bo_value_len (mv_build_ops col0) x \<le> mv_vsize n \<Longrightarrow> mv_vsize n < 2 ^ 32 \<Longrightarrow>
      (case bo_put_value (mv_build_ops col0) n i cur x of (m, cur') \<Rightarrow>
        mv_blk m \<and> op_nkeys mv_ops m = op_nkeys mv_ops n \<and> mv_area m = mv_area n \<and> mv_vsize m = mv_vsize n \<and>
        cur' = cur + bo_value_len (mv_build_ops col0) x \<and>
        (\<forall>j < op_nkeys mv_ops n. op_ikeylen mv_ops m j = op_ikeylen mv_ops n j \<and> op_ikey mv_ops m j = op_ikey mv_ops n j \<and>
          (j \<noteq> i \<longrightarrow> op_lv mv_ops m j = op_lv mv_ops n j) \<and>
          (j \<noteq> i \<longrightarrow> (\<forall>v. mv_reads col0 n j v cur \<longrightarrow> mv_reads col0 m j v cur'))) \<and> mv_reads col0 m i x cur' \<and>
        (\<forall>j \<le> op_nkeys mv_ops n. mv_ksuf_offset m j = mv_ksuf_offset n j))"
  proof -
    assume a: "mv_blk n" "i < op_nkeys mv_ops n" "cur + bo_value_len (mv_build_ops col0) x \<le> mv_vsize n" "mv_vsize n < 2 ^ 32"
    obtain m cur' where m: "mv_put_value col0 n i cur x = (m, cur')" by (metis surj_pair)
    have put: "bo_put_value (mv_build_ops col0) n i cur x = (m, cur')" using m by (simp add: mv_build_ops_def)
    have i: "i < mv_nkeys n" "cur + length (col0 x) \<le> mv_vsize n" using a(2,3) by simp_all
    note l = mv_put_value_laws [OF blk [OF a(1)] i a(4) m]
    show ?thesis unfolding put prod.case mv_ops_simps mv_build_simps using l by blast
  qed

  show "mv_blk n \<Longrightarrow> cur + length s \<le> length (mv_area n) \<Longrightarrow>
      (let m = bo_put_ksuf (mv_build_ops col0) n cur s in mv_blk m \<and> op_nkeys mv_ops m = op_nkeys mv_ops n \<and>
        mv_area m = poke (mv_area n) cur s \<and> mv_vsize m = mv_vsize n \<and>
        (\<forall>j < op_nkeys mv_ops n. op_ikeylen mv_ops m j = op_ikeylen mv_ops n j \<and> op_ikey mv_ops m j = op_ikey mv_ops n j \<and> op_lv mv_ops m j = op_lv mv_ops n j \<and>
          (\<forall>v u. mv_reads col0 n j v u \<longrightarrow> mv_reads col0 m j v u)) \<and>
        (\<forall>j \<le> op_nkeys mv_ops n. mv_ksuf_offset m j = mv_ksuf_offset n j))"
    using mv_put_ksuf_laws [OF blk, of cur s] by (simp add: Let_def)
  show "mv_blk n \<Longrightarrow> i < op_nkeys mv_ops n \<Longrightarrow> mv_ksuf_offset n i \<le> mv_ksuf_offset n (i + 1) \<Longrightarrow>
      mv_ksuf_offset n (i + 1) \<le> length (mv_area n) \<Longrightarrow>
      op_ksuf mv_ops n i = peek (mv_area n) (mv_ksuf_offset n i) (mv_ksuf_offset n (i + 1) - mv_ksuf_offset n i)"
    using mv_suffix_area by simp
  show "mv_blk n \<Longrightarrow>
      \<forall>i < op_nkeys mv_ops n. mv_ksuf_offset n i \<le> mv_ksuf_offset n (i + 1) \<and> mv_ksuf_offset n (i + 1) \<le> length (mv_area n) \<Longrightarrow>
      node_sorted mv_ops n \<Longrightarrow> \<forall>i < op_nkeys mv_ops n. kl_ok (op_ikeylen mv_ops n i) \<Longrightarrow> mv_ok n"
    by (auto simp: mv_ok_def mv_block_def mv_area_def mv_blk_def le_diff_conv2)
qed

section \<open>\<^verbatim>\<open>massnode_dynamicvalue\<close>\<close>

definition md_blk :: "massnode_dynamicvalue \<Rightarrow> bool" where
  "md_blk n \<longleftrightarrow> md_get_ksuf n \<le> length (md_mem n)"

definition md_area :: "massnode_dynamicvalue \<Rightarrow> byte list" where
  "md_area n = drop (md_get_ksuf n) (md_mem n)"

definition md_reads :: "massnode_dynamicvalue \<Rightarrow> nat \<Rightarrow> u64 \<Rightarrow> nat \<Rightarrow> bool" where
  "md_reads n i v u \<longleftrightarrow> md_lv n i = v"

lemma md_set_offset_read:
  assumes "md_get_ksuf n \<le> length (md_mem n)" "p \<le> md_nkeys n" "r \<le> md_nkeys n"
  shows "md_ksuf_offset (md_set_ksuf_offset n p z) r = (if r = p then z mod 2 ^ 32 else md_ksuf_offset n r)"
  using assms by (auto simp: md_getter_defs md_setter_defs md_offset_defs layout_simps)

lemma md_blk_set:
  assumes "md_blk n"
  shows "p < md_nkeys n \<Longrightarrow> md_blk (md_set_ikeylen n p v)" and "p < md_nkeys n \<Longrightarrow> md_blk (md_set_ikey n p x)"
    and "p < md_nkeys n \<Longrightarrow> md_blk (md_set_lv n p x)" and "p \<le> md_nkeys n \<Longrightarrow> md_blk (md_set_ksuf_offset n p z)"
  using assms by (auto simp: md_blk_def md_setter_defs md_offset_defs)

lemma md_area_set:
  assumes "md_get_ksuf n \<le> length (md_mem n)"
  shows "p < md_nkeys n \<Longrightarrow> md_area (md_set_ikeylen n p v) = md_area n"
    and "p < md_nkeys n \<Longrightarrow> md_area (md_set_ikey n p x) = md_area n"
    and "p < md_nkeys n \<Longrightarrow> md_area (md_set_lv n p x) = md_area n"
    and "p \<le> md_nkeys n \<Longrightarrow> md_area (md_set_ksuf_offset n p z) = md_area n"
  using assms
  by (auto simp: md_area_def md_setter_defs md_offset_defs wr8_def wr32_def wr64_def drop_poke_before)

lemma md_put_ksuf_laws:
  assumes "md_get_ksuf n \<le> length (md_mem n)" "cur + length s \<le> length (md_area n)"
  shows "j < md_nkeys n \<Longrightarrow> md_ikeylen (md_put_ksuf n cur s) j = md_ikeylen n j"
    and "j < md_nkeys n \<Longrightarrow> md_ikey (md_put_ksuf n cur s) j = md_ikey n j"
    and "j < md_nkeys n \<Longrightarrow> md_lv (md_put_ksuf n cur s) j = md_lv n j"
    and "j \<le> md_nkeys n \<Longrightarrow> md_ksuf_offset (md_put_ksuf n cur s) j = md_ksuf_offset n j"
    and "md_area (md_put_ksuf n cur s) = poke (md_area n) cur s"
    and "md_blk (md_put_ksuf n cur s) \<longleftrightarrow> md_blk n"
    and "md_nkeys (md_put_ksuf n cur s) = md_nkeys n"
proof -
  have len: "md_get_ksuf n + cur + length s \<le> length (md_mem n)" using assms by (simp add: md_area_def)
  note frame = rd8_def rd32_def rd64_def nth_poke peek_poke_other
  show "j < md_nkeys n \<Longrightarrow> md_ikeylen (md_put_ksuf n cur s) j = md_ikeylen n j"
    using len by (simp add: md_ikeylen_def md_put_ksuf_def md_offset_defs frame)
  show "j < md_nkeys n \<Longrightarrow> md_ikey (md_put_ksuf n cur s) j = md_ikey n j"
    using len by (simp add: md_ikey_def md_put_ksuf_def md_offset_defs frame)
  show lv: "j < md_nkeys n \<Longrightarrow> md_lv (md_put_ksuf n cur s) j = md_lv n j"
    using len by (simp add: md_lv_def md_put_ksuf_def md_offset_defs frame)
  show "j \<le> md_nkeys n \<Longrightarrow> md_ksuf_offset (md_put_ksuf n cur s) j = md_ksuf_offset n j"
    using len by (simp add: md_ksuf_offset_def md_put_ksuf_def md_offset_defs frame)
  have k: "md_get_ksuf (md_put_ksuf n cur s) = md_get_ksuf n" by (simp add: md_put_ksuf_def md_offset_defs)
  show "md_area (md_put_ksuf n cur s) = poke (md_area n) cur s"
    using len by (simp add: md_area_def k) (simp add: md_put_ksuf_def drop_poke_after)
  show "md_blk (md_put_ksuf n cur s) \<longleftrightarrow> md_blk n"
    using len by (simp add: md_blk_def k) (simp add: md_put_ksuf_def add.assoc)
  show "md_nkeys (md_put_ksuf n cur s) = md_nkeys n" by (simp add: md_put_ksuf_def)
qed

lemma md_suffix_area:
  assumes "md_blk n" "i < md_nkeys n" "md_ksuf_offset n i \<le> md_ksuf_offset n (i + 1)" "md_ksuf_offset n (i + 1) \<le> length (md_area n)"
  shows "md_ksuf n i = peek (md_area n) (md_ksuf_offset n i) (md_ksuf_offset n (i + 1) - md_ksuf_offset n i)"
proof -
  have len: "md_get_ksuf n \<le> length (md_mem n)" using assms(1) by (simp_all add: md_blk_def)
  have "md_ksuflen n i = md_ksuf_offset n (i + 1) - md_ksuf_offset n i"
    using len assms(2,3) by (simp add: md_ksuflen_def md_ksuf_offset_def md_offset_defs sub32_rd32)
  moreover have "md_ksufpos n i = md_get_ksuf n + md_ksuf_offset n i"
    by (simp add: md_ksufpos_def md_ksuf_offset_def)
  ultimately show ?thesis by (simp add: md_ksuf_def md_area_def peek_def add.commute)
qed

lemma md_make_laws:
  assumes "nk < 2 ^ 32"
  shows "md_blk (md_make raw ks nk) \<and> md_nkeys (md_make raw ks nk) = nk \<and> length (md_area (md_make raw ks nk)) = ks"
proof -
  have nk: "nk mod 2 ^ 32 = nk" using assms by simp_all
  show ?thesis
    by (simp only: md_make_def Let_def nk) (simp add: md_blk_def md_area_def md_offset_defs)
qed

lemma md_build_simps [simp]:
  "bo_ops (md_build_ops) = md_ops" "bo_set_ikey (md_build_ops) = md_set_ikey"
  "bo_set_ksuf_offset (md_build_ops) = md_set_ksuf_offset" "bo_put_ksuf (md_build_ops) = md_put_ksuf"
  "bo_value_len (md_build_ops) = (\<lambda>lv. 0)"
  by (simp_all add: md_build_ops_def)

interpretation mdb: node_builder md_ops md_ok md_fits md_build_ops md_blk md_ksuf_offset md_area
  "\<lambda>_. 2 ^ 32 - 1 :: nat" md_reads
proof
  fix n :: massnode_dynamicvalue and i j cur z nk vs ks :: nat and kl :: byte and ik x :: u64 and s :: "byte list" and raw :: "nat \<Rightarrow> byte"
  have blk: "md_get_ksuf n \<le> length (md_mem n)" if "md_blk n" using that by (simp add: md_blk_def)
  show "bo_ops (md_build_ops) = md_ops" by simp
  show "nk < 2 ^ 32 \<Longrightarrow> vs < 2 ^ 32 \<Longrightarrow> md_blk (bo_make (md_build_ops) raw ks vs nk) \<and>
      op_nkeys md_ops (bo_make (md_build_ops) raw ks vs nk) = nk \<and>
      length (md_area (bo_make (md_build_ops) raw ks vs nk)) = ks \<and>
      vs \<le> (\<lambda>_. 2 ^ 32 - 1 :: nat) (bo_make (md_build_ops) raw ks vs nk) \<and> (\<lambda>_. 2 ^ 32 - 1 :: nat) (bo_make (md_build_ops) raw ks vs nk) < 2 ^ 32"
    using md_make_laws [of nk raw ks] by (simp add: md_build_ops_def)

  show "md_blk n \<Longrightarrow> i < op_nkeys md_ops n \<Longrightarrow>
      (let m = op_set_ikeylen md_ops n i kl in md_blk m \<and> op_nkeys md_ops m = op_nkeys md_ops n \<and> md_area m = md_area n \<and> (\<lambda>_. 2 ^ 32 - 1 :: nat) m = (\<lambda>_. 2 ^ 32 - 1 :: nat) n \<and>
        (\<forall>j < op_nkeys md_ops n. op_ikeylen md_ops m j = (if j = i then kl else op_ikeylen md_ops n j) \<and>
          op_ikey md_ops m j = op_ikey md_ops n j \<and> op_lv md_ops m j = op_lv md_ops n j \<and>
          ((\<forall>v u. md_reads n j v u \<longrightarrow> md_reads m j v u))) \<and>
        (\<forall>j \<le> op_nkeys md_ops n. md_ksuf_offset m j = md_ksuf_offset n j))"
  proof -
    assume a: "md_blk n" "i < op_nkeys md_ops n"
    note l = md_set_ikeylen_laws [OF blk [OF a(1)] a(2) [unfolded md_ops_simps]]
    have area: "md_area (md_set_ikeylen n i kl) = md_area n" using md_area_set(1) [OF blk [OF a(1)]] a(2) by simp
    have nk: "md_nkeys (md_set_ikeylen n i kl) = md_nkeys n" by (simp add: md_setter_defs)
    have "md_blk (md_set_ikeylen n i kl)" using md_blk_set(1) [OF a(1)] a(2) by simp
    with l area nk a show ?thesis
      unfolding Let_def by (auto simp: md_reads_def)
  qed

  show "md_blk n \<Longrightarrow> i < op_nkeys md_ops n \<Longrightarrow>
      (let m = bo_set_ikey (md_build_ops) n i ik in md_blk m \<and> op_nkeys md_ops m = op_nkeys md_ops n \<and> md_area m = md_area n \<and> (\<lambda>_. 2 ^ 32 - 1 :: nat) m = (\<lambda>_. 2 ^ 32 - 1 :: nat) n \<and>
        (\<forall>j < op_nkeys md_ops n. op_ikeylen md_ops m j = op_ikeylen md_ops n j \<and>
          op_ikey md_ops m j = (if j = i then ik else op_ikey md_ops n j) \<and> op_lv md_ops m j = op_lv md_ops n j \<and>
          ((\<forall>v u. md_reads n j v u \<longrightarrow> md_reads m j v u))) \<and>
        (\<forall>j \<le> op_nkeys md_ops n. md_ksuf_offset m j = md_ksuf_offset n j))"
  proof -
    assume a: "md_blk n" "i < op_nkeys md_ops n"
    note l = md_set_ikey_laws [OF blk [OF a(1)] a(2) [unfolded md_ops_simps]]
    have area: "md_area (md_set_ikey n i ik) = md_area n" using md_area_set(2) [OF blk [OF a(1)]] a(2) by simp
    have nk: "md_nkeys (md_set_ikey n i ik) = md_nkeys n" by (simp add: md_setter_defs)
    have "md_blk (md_set_ikey n i ik)" using md_blk_set(2) [OF a(1)] a(2) by simp
    with l area nk a show ?thesis
      unfolding Let_def by (auto simp: md_reads_def)
  qed

  show "md_blk n \<Longrightarrow> i < op_nkeys md_ops n \<Longrightarrow>
      (let m = op_set_lv md_ops n i x in md_blk m \<and> op_nkeys md_ops m = op_nkeys md_ops n \<and> md_area m = md_area n \<and> (\<lambda>_. 2 ^ 32 - 1 :: nat) m = (\<lambda>_. 2 ^ 32 - 1 :: nat) n \<and>
        (\<forall>j < op_nkeys md_ops n. op_ikeylen md_ops m j = op_ikeylen md_ops n j \<and>
          op_ikey md_ops m j = op_ikey md_ops n j \<and> op_lv md_ops m j = (if j = i then x else op_lv md_ops n j) \<and>
          (j \<noteq> i \<longrightarrow> (\<forall>v u. md_reads n j v u \<longrightarrow> md_reads m j v u))) \<and>
        (\<forall>j \<le> op_nkeys md_ops n. md_ksuf_offset m j = md_ksuf_offset n j))"
  proof -
    assume a: "md_blk n" "i < op_nkeys md_ops n"
    note l = md_set_lv_laws [OF blk [OF a(1)] a(2) [unfolded md_ops_simps]]
    have area: "md_area (md_set_lv n i x) = md_area n" using md_area_set(3) [OF blk [OF a(1)]] a(2) by simp
    have nk: "md_nkeys (md_set_lv n i x) = md_nkeys n" by (simp add: md_setter_defs)
    have "md_blk (md_set_lv n i x)" using md_blk_set(3) [OF a(1)] a(2) by simp
    with l area nk a show ?thesis
      unfolding Let_def by (auto simp: md_reads_def)
  qed

  show "md_blk n \<Longrightarrow> i \<le> op_nkeys md_ops n \<Longrightarrow>
      (let m = bo_set_ksuf_offset (md_build_ops) n i z in md_blk m \<and> op_nkeys md_ops m = op_nkeys md_ops n \<and> md_area m = md_area n \<and> (\<lambda>_. 2 ^ 32 - 1 :: nat) m = (\<lambda>_. 2 ^ 32 - 1 :: nat) n \<and>
        (\<forall>j < op_nkeys md_ops n. op_ikeylen md_ops m j = op_ikeylen md_ops n j \<and>
          op_ikey md_ops m j = op_ikey md_ops n j \<and> op_lv md_ops m j = op_lv md_ops n j \<and>
          ((\<forall>v u. md_reads n j v u \<longrightarrow> md_reads m j v u))) \<and>
        (\<forall>j \<le> op_nkeys md_ops n. md_ksuf_offset m j = (if j = i then z mod 2 ^ 32 else md_ksuf_offset n j)))"
  proof -
    assume a: "md_blk n" "i \<le> op_nkeys md_ops n"
    note l = md_set_ksuf_offset_laws [OF blk [OF a(1)] a(2) [unfolded md_ops_simps]]
    have area: "md_area (md_set_ksuf_offset n i z) = md_area n" using md_area_set(4) [OF blk [OF a(1)]] a(2) by simp
    have nk: "md_nkeys (md_set_ksuf_offset n i z) = md_nkeys n" by (simp add: md_setter_defs)
    have "md_blk (md_set_ksuf_offset n i z)" using md_blk_set(4) [OF a(1)] a(2) by simp
    with l area nk a md_set_offset_read [OF blk [OF a(1)] a(2) [unfolded md_ops_simps]] show ?thesis
      unfolding Let_def by (auto simp: md_reads_def)
  qed

  show "md_blk n \<Longrightarrow> i < op_nkeys md_ops n \<Longrightarrow> cur + bo_value_len (md_build_ops) x \<le> (\<lambda>_. 2 ^ 32 - 1 :: nat) n \<Longrightarrow> (\<lambda>_. 2 ^ 32 - 1 :: nat) n < 2 ^ 32 \<Longrightarrow>
      (case bo_put_value (md_build_ops) n i cur x of (m, cur') \<Rightarrow>
        md_blk m \<and> op_nkeys md_ops m = op_nkeys md_ops n \<and> md_area m = md_area n \<and> (\<lambda>_. 2 ^ 32 - 1 :: nat) m = (\<lambda>_. 2 ^ 32 - 1 :: nat) n \<and>
        cur' = cur + bo_value_len (md_build_ops) x \<and>
        (\<forall>j < op_nkeys md_ops n. op_ikeylen md_ops m j = op_ikeylen md_ops n j \<and> op_ikey md_ops m j = op_ikey md_ops n j \<and>
          (j \<noteq> i \<longrightarrow> op_lv md_ops m j = op_lv md_ops n j) \<and>
          (j \<noteq> i \<longrightarrow> (\<forall>v. md_reads n j v cur \<longrightarrow> md_reads m j v cur'))) \<and> md_reads m i x cur' \<and>
        (\<forall>j \<le> op_nkeys md_ops n. md_ksuf_offset m j = md_ksuf_offset n j))"
  proof -
    assume a: "md_blk n" "i < op_nkeys md_ops n" "cur + bo_value_len (md_build_ops) x \<le> (\<lambda>_. 2 ^ 32 - 1 :: nat) n" "(\<lambda>_. 2 ^ 32 - 1 :: nat) n < 2 ^ 32"
    have i: "i < md_nkeys n" using a(2) by simp
    let ?m = "md_set_lv n i (x)"
    have put: "bo_put_value (md_build_ops) n i cur x = (?m, cur)" by (simp add: md_build_ops_def)
    note l = md_set_lv_laws [OF blk [OF a(1)] i]
    have area: "md_area ?m = md_area n" using md_area_set(3) [OF blk [OF a(1)]] i by simp
    have "md_blk ?m" using a l(7,8) [OF i] by (simp add: md_blk_def)
    with l area i show ?thesis unfolding put prod.case by (auto simp: md_reads_def)
  qed

  show "md_blk n \<Longrightarrow> cur + length s \<le> length (md_area n) \<Longrightarrow>
      (let m = bo_put_ksuf (md_build_ops) n cur s in md_blk m \<and> op_nkeys md_ops m = op_nkeys md_ops n \<and>
        md_area m = poke (md_area n) cur s \<and> (\<lambda>_. 2 ^ 32 - 1 :: nat) m = (\<lambda>_. 2 ^ 32 - 1 :: nat) n \<and>
        (\<forall>j < op_nkeys md_ops n. op_ikeylen md_ops m j = op_ikeylen md_ops n j \<and> op_ikey md_ops m j = op_ikey md_ops n j \<and> op_lv md_ops m j = op_lv md_ops n j \<and>
          (\<forall>v u. md_reads n j v u \<longrightarrow> md_reads m j v u)) \<and>
        (\<forall>j \<le> op_nkeys md_ops n. md_ksuf_offset m j = md_ksuf_offset n j))"
    using md_put_ksuf_laws [OF blk, of cur s] by (simp add: Let_def md_reads_def)
  show "md_blk n \<Longrightarrow> i < op_nkeys md_ops n \<Longrightarrow> md_ksuf_offset n i \<le> md_ksuf_offset n (i + 1) \<Longrightarrow>
      md_ksuf_offset n (i + 1) \<le> length (md_area n) \<Longrightarrow>
      op_ksuf md_ops n i = peek (md_area n) (md_ksuf_offset n i) (md_ksuf_offset n (i + 1) - md_ksuf_offset n i)"
    using md_suffix_area by simp
  show "md_blk n \<Longrightarrow>
      \<forall>i < op_nkeys md_ops n. md_ksuf_offset n i \<le> md_ksuf_offset n (i + 1) \<and> md_ksuf_offset n (i + 1) \<le> length (md_area n) \<Longrightarrow>
      node_sorted md_ops n \<Longrightarrow> \<forall>i < op_nkeys md_ops n. kl_ok (op_ikeylen md_ops n i) \<Longrightarrow> md_ok n"
    by (auto simp: md_ok_def md_block_def md_area_def md_blk_def le_diff_conv2)
qed

section \<open>Properties\<close>

lemma holds_parts:
  assumes "tb_holds tb t"
  shows "dt_ok 0 (2 ^ 64) t" "dt_root t" "holds (tb_heap tb) t" "tb_root tb \<in> fst ` set (dt_spine t)"
  using assms by (simp_all add: tb_holds_def)

lemma build_static_spec:
  assumes "tb_holds tb t" "dt_buildable (mn_build_ops col0) t" "addrs_ok addr (dt_count t)"
  shows "\<exists>hs A. buildStatic col0 raw addr (tb_heap tb) (tb_root tb) = Some (hs, addr 0) \<and>
    static_trie mn_ops mn_ok hs (addr 0) A \<and> mset A = mset (map addr [0..<dt_count t]) \<and>
    (\<forall>s w. stored mn_ops hs (addr 0) s w \<longleftrightarrow> s \<noteq> [] \<and> (\<exists>v. dt_stores t s v \<and> w = lvs_of_value (col0 v)))"
proof -
  obtain hs A where b: "buildStatic col0 raw addr (tb_heap tb) (tb_root tb) = Some (hs, addr 0)"
      "static_trie mn_ops mn_ok hs (addr 0) A" "mset A = mset (map addr [0..<dt_count t])"
      "\<forall>Q R. (\<forall>n i v u. mn_reads col0 n i v u \<longrightarrow> (Q n i \<longleftrightarrow> R v)) \<longrightarrow>
        (\<forall>s. stored_by mn_ops Q hs (addr 0) s \<longleftrightarrow> s \<noteq> [] \<and> (\<exists>v. dt_stores t s v \<and> R v))"
    using mnb.build_ok [OF holds_parts [OF assms(1)] assms(2,3), where raw = raw, folded buildStatic_def] by blast
  have "stored mn_ops hs (addr 0) s w \<longleftrightarrow> s \<noteq> [] \<and> (\<exists>v. dt_stores t s v \<and> w = lvs_of_value (col0 v))" for s w
    unfolding stored_stored_by by (rule b(4) [rule_format]) (auto simp: mn_reads_def)
  with b(1-3) show ?thesis by blast
qed

text \<open>
  C6: The static stage built from a dynamic stage of any shape is a well-formed trie, one node per
  layer, and maps every key but the empty one to the first column of the row it had before. The
  builder ends; all blocks it allocated are part of the trie.
\<close>

theorem build_static_correct:
  assumes "tb_holds tb t" "dt_buildable (mn_build_ops col0) t" "addrs_ok addr (dt_count t)"
  shows "\<exists>hs A. buildStatic col0 raw addr (tb_heap tb) (tb_root tb) = Some (hs, addr 0) \<and>
    static_trie mn_ops mn_ok hs (addr 0) A \<and> mset A = mset (map addr [0..<dt_count t]) \<and>
    (\<forall>s w. stored mn_ops hs (addr 0) s w \<longleftrightarrow> s \<noteq> [] \<and> (\<exists>v. dt_stores t s v \<and> w = lvs_of_value (col0 v)))"
  by (rule build_static_spec [OF assms])

text \<open>
  The builder of nodes with a value area copies the whole first column of every row: reading
  the value of the slot that belongs to a key gives the bytes back, whatever their number.
\<close>

theorem build_static_multivalue_correct:
  assumes "tb_holds tb t" "dt_buildable (mv_build_ops col0) t" "addrs_ok addr (dt_count t)"
  shows "\<exists>hs A. buildStaticMultivalue col0 raw addr (tb_heap tb) (tb_root tb) = Some (hs, addr 0) \<and>
    static_trie mv_ops mv_ok hs (addr 0) A \<and>
    (\<forall>s bs. stored_by mv_ops (\<lambda>n i. mv_value n i = bs) hs (addr 0) s \<longleftrightarrow> s \<noteq> [] \<and> (\<exists>v. dt_stores t s v \<and> col0 v = bs))"
proof -
  obtain hs A where b: "buildStaticMultivalue col0 raw addr (tb_heap tb) (tb_root tb) = Some (hs, addr 0)"
      "static_trie mv_ops mv_ok hs (addr 0) A"
      "\<forall>Q R. (\<forall>n i v u. mv_reads col0 n i v u \<longrightarrow> (Q n i \<longleftrightarrow> R v)) \<longrightarrow>
        (\<forall>s. stored_by mv_ops Q hs (addr 0) s \<longleftrightarrow> s \<noteq> [] \<and> (\<exists>v. dt_stores t s v \<and> R v))"
    using mvb.build_ok [OF holds_parts [OF assms(1)] assms(2,3), where raw = raw, folded buildStaticMultivalue_def] by blast
  have "stored_by mv_ops (\<lambda>n i. mv_value n i = bs) hs (addr 0) s \<longleftrightarrow> s \<noteq> [] \<and> (\<exists>v. dt_stores t s v \<and> col0 v = bs)" for s bs
    by (rule b(3) [rule_format]) (auto simp: mv_reads_def)
  with b(1,2) show ?thesis by blast
qed



section \<open>Witnesses\<close>

text \<open>A layer with one slot, which leads to a second layer with one value.\<close>

definition one_leaf :: "byte \<Rightarrow> u64 \<Rightarrow> u64 \<Rightarrow> leaf" where
  "one_leaf kl ik lv = zero_leaf\<lparr>lf_version := push_bit 30 1, lf_permutation := kp_make_sorted leaf_width 1,
     lf_ikey0 := ik # replicate 14 0, lf_keylenx := kl # replicate 14 0, lf_lv := lv # replicate 14 0\<rparr>"

definition two_layers :: dtree where
  "two_layers = DL 1000 (one_leaf 128 (slice_of (replicate 8 65)) 2000) [DL 2000 (one_leaf 1 (slice_of [98]) 7) []]"

definition two_layers_table :: dtable where
  "two_layers_table = \<lparr>tb_root = 1000, tb_heap = map_of (dt_cells two_layers)\<rparr>"

lemma one_leaf_rows:
  assumes "kl \<noteq> 9" "kl_ok kl"
  shows "lf_sorted (one_leaf kl ik lv)" "lf_rows (one_leaf kl ik lv) = [(kl, ik, lv, [])]"
proof -
  have ready: "lf_ready (one_leaf kl ik lv) {..<1}"
    using assms(1) by (auto simp: lf_ready_def lf_bags_def one_leaf_def zero_leaf_def lf_has_ksuf_def keylenx_has_ksuf_def)
  have perm: "lf_permutation (one_leaf kl ik lv) = kp_make_sorted leaf_width 1" by (simp add: one_leaf_def)
  note sp = sorted_perm_leaf [OF ready _ perm refl refl refl refl refl refl]
  have "lf_slot (one_leaf kl ik lv) 0 = (kl, ik, lv, [])"
    using assms(1) by (simp add: lf_slot_def one_leaf_def zero_leaf_def lf_has_ksuf_def keylenx_has_ksuf_def)
  then show rows: "lf_rows (one_leaf kl ik lv) = [(kl, ik, lv, [])]" using sp(2) by simp
  show "lf_sorted (one_leaf kl ik lv)" using sp(1) rows assms(2) by (simp add: lf_sorted_def rows_ok_def)
qed

lemma two_layers_holds: "tb_holds two_layers_table two_layers"
proof -
  have u: "unat (x :: u64) < 2 ^ 64" for x using unsigned_less [of x, where ?'a = nat] by simp
  have kl: "kl_ok 128" "kl_ok 1" "keylenx_is_layer 128" "\<not> keylenx_is_layer 1" by (simp_all add: kl_ok_def keylenx_is_layer_def)
  have root: "dt_root (DL a (one_leaf k x v) us)" for a k x v us
    by (simp add: dt_root_def nd_parent_def nd_has_split_def nd_version_def nv_nonroot_def
        nodeversion32_parameters_def one_leaf_def zero_leaf_def)
  have "dt_ok 0 (2 ^ 64) (DL 2000 (one_leaf 1 (slice_of [98]) 7) [])"
    using one_leaf_rows [of 1] kl u by (simp add: layer_rows_def)
  then have "dt_ok 0 (2 ^ 64) two_layers"
    using one_leaf_rows [of 128] kl u root by (simp add: two_layers_def layer_rows_def points_into_def)
  moreover have "dt_root two_layers" using root by (simp add: two_layers_def)
  moreover have "holds (tb_heap two_layers_table) two_layers" by (simp add: holds_def two_layers_table_def two_layers_def)
  moreover have "tb_root two_layers_table \<in> fst ` set (dt_spine two_layers)" by (simp add: two_layers_table_def two_layers_def)
  ultimately show ?thesis by (simp add: tb_holds_def)
qed

lemma two_layers_buildable:
  assumes "\<And>v. bo_value_len B v < 2 ^ 32"
  shows "dt_buildable B two_layers" and "dt_count two_layers = 2"
proof -
  have kl: "kl_ok 128" "kl_ok 1" "keylenx_is_layer 128" "\<not> keylenx_is_layer 1" by (simp_all add: kl_ok_def keylenx_is_layer_def)
  have next0: "lf_safe_next (one_leaf k x v) = 0" for k x v by (simp add: lf_safe_next_def one_leaf_def zero_leaf_def)
  have rows: "lf_rows (one_leaf 128 x v) = [(128, x, v, [])]" "lf_rows (one_leaf 1 x v) = [(1, x, v, [])]" for x v
    using one_leaf_rows(2) [of 128] one_leaf_rows(2) [of 1] kl by simp_all
  show "dt_buildable B two_layers"
    using assms kl by (simp add: dt_buildable_def two_layers_def layer_fits_def rows next0 slots_fit_def suf_offset_def bs_value_size_def)
  show "dt_count two_layers = 2" by (simp add: dt_count_def two_layers_def)
qed

definition sample_addr :: "nat \<Rightarrow> u64" where
  "sample_addr k = word_of_nat (4096 * (k + 1))"

lemma sample_addrs: "addrs_ok sample_addr 2"
proof -
  have two: "[0..<2] = [0, 1 :: nat]" by (simp add: upt_rec)
  show ?thesis by (simp add: addrs_ok_def two sample_addr_def)
qed

lemma two_layers_stored: "dt_stores two_layers (replicate 8 65 @ [98]) 7"
proof -
  have kl: "kl_ok 128" "kl_ok 1" "keylenx_is_layer 128" "\<not> keylenx_is_layer 1" by (simp_all add: kl_ok_def keylenx_is_layer_def)
  have rows: "lf_rows (one_leaf 128 x v) = [(128, x, v, [])]" "lf_rows (one_leaf 1 x v) = [(1, x, v, [])]" for x v
    using one_leaf_rows(2) [of 128] one_leaf_rows(2) [of 1] kl by simp_all
  have pad: "slice_of (replicate 8 65 @ [98]) = slice_of (replicate 8 65)" by (simp add: slice_of_eq_iff pad8_def)
  show ?thesis
    using kl pad by (simp add: two_layers_def rows rows_store_def layer_rows_def row_leads_def row_stores_def kl_rank_def slot_rank_def)
qed

theorem build_static_correct_witness:
  "\<exists>hs. buildStatic (\<lambda>v. [1, 2, 3, 4, 5, 6, 7, 8]) (\<lambda>_ _. 0) sample_addr (tb_heap two_layers_table) 1000 = Some (hs, sample_addr 0) \<and>
     stored mn_ops hs (sample_addr 0) (replicate 8 65 @ [98]) (lvs_of_value [1, 2, 3, 4, 5, 6, 7, 8])"
  using build_static_correct [OF two_layers_holds two_layers_buildable(1), of "\<lambda>v. [1, 2, 3, 4, 5, 6, 7, 8]" sample_addr "\<lambda>_ _. 0"]
    sample_addrs two_layers_buildable(2) [of md_build_ops] two_layers_stored
  by (auto simp: two_layers_table_def)

theorem build_static_multivalue_correct_witness:
  "\<exists>hs. buildStaticMultivalue (\<lambda>v. [1, 2, 3]) (\<lambda>_ _. 0) sample_addr (tb_heap two_layers_table) 1000 = Some (hs, sample_addr 0) \<and>
     stored_by mv_ops (\<lambda>n i. mv_value n i = [1, 2, 3]) hs (sample_addr 0) (replicate 8 65 @ [98])"
  using build_static_multivalue_correct [OF two_layers_holds two_layers_buildable(1), of "\<lambda>v. [1, 2, 3]" sample_addr "\<lambda>_ _. 0"]
    sample_addrs two_layers_buildable(2) [of md_build_ops] two_layers_stored
  by (auto simp: two_layers_table_def)



end
