(* ===== verification/Merge_Static.thy ===== *)
theory Merge_Static
  imports Static_Stage
begin

text \<open>
  Merging one static trie into another: \<^verbatim>\<open>stcursor_merge\<close> and
  \<^verbatim>\<open>stcursor_merge_dynamicvalue\<close> of \<^verbatim>\<open>hybrid_index/masstree_get.hh\<close> and
  \<^verbatim>\<open>masstree_tcursor.hh\<close>. The trie \<open>m\<close> is the new one, \<open>n\<close> the one that stays. Node by node the
  block of \<open>n\<close> is enlarged, its arrays are moved to the end, and the arrays of both are merged into
  the front of the same block, which is then shrunk. What has to happen below a slot is queued as a
  task: merge two nodes (0), add one item to a node (1), make a node of two items (2).

  Both classes have the same text up to a few statements; the model writes it once over a
  dictionary \<open>merge_ops\<close>. Blocks are lists of bytes and all positions are byte offsets into them,
  as in the source; \<open>int\<close> sizes are natural numbers, so a size from \<open>2 ^ 31\<close> on is \<open>Undefined\<close>.
  So is a read or write outside a block. Addresses of reallocated blocks are a parameter.
\<close>

section \<open>How a step ends\<close>

datatype 'a outcome = Undefined | Returns_False | Goes_On 'a

fun and_then :: "'a outcome \<Rightarrow> ('a \<Rightarrow> 'b outcome) \<Rightarrow> 'b outcome" where
  "and_then Undefined f = Undefined"
| "and_then Returns_False f = Returns_False"
| "and_then (Goes_On x) f = f x"

lemma and_then_cong [fundef_cong]:
  "x = y \<Longrightarrow> (\<And>a. y = Goes_On a \<Longrightarrow> f a = g a) \<Longrightarrow> and_then x f = and_then y g"
  by (cases y) auto

lemma and_then_Goes_On: "and_then x f = Goes_On y \<longleftrightarrow> (\<exists>a. x = Goes_On a \<and> f a = Goes_On y)"
  by (cases x) auto

section \<open>Tasks\<close>

record merge_task =
  task :: nat
  parent_node :: u64
  parent_node_pos :: nat
  task_m :: u64
  task_n :: u64
  ikeylen_m :: byte
  ikeylen_n :: byte
  ikey_m :: u64
  ikey_n :: u64
  lv_m :: u64
  lv_n :: u64
  ksuf_m :: "byte list"
  ksuf_n :: "byte list"

text \<open>
  A suffix is the string of its \<^verbatim>\<open>ksuf_len\<close> bytes. Fields that a task does not set are zero here;
  nothing reads them.
\<close>

definition new_task :: merge_task where
  "new_task = \<lparr>task = 0, parent_node = 0, parent_node_pos = 0, task_m = 0, task_n = 0, ikeylen_m = 0, ikeylen_n = 0,
     ikey_m = 0, ikey_n = 0, lv_m = 0, lv_n = 0, ksuf_m = [], ksuf_n = []\<rparr>"

definition convert_to_ikeylen :: "nat \<Rightarrow> byte" where
  "convert_to_ikeylen len =
     (if len > 8 then 9 else if len = 8 then 8 else if len = 7 then 7 else if len = 6 then 6
      else if len = 5 then 5 else if len = 4 then 4 else if len = 3 then 3 else if len = 2 then 2
      else if len = 1 then 1 else 0)"

text \<open>The key length, slice and suffix of an item in the next layer; its string is at \<open>pos\<close>.\<close>

definition next_layer :: "byte list \<Rightarrow> nat \<Rightarrow> nat \<Rightarrow> byte \<times> u64 \<times> byte list" where
  "next_layer mem pos len =
     (convert_to_ikeylen len,
      make_comparable_sloppy (mem_of 0 mem) (int pos) (int len),
      if len > 8 then peek mem (pos + 8) (len - 8) else [])"

definition task_item_m :: "byte \<times> u64 \<times> byte list \<Rightarrow> u64 \<Rightarrow> merge_task \<Rightarrow> merge_task" where
  "task_item_m item lv tt = tt\<lparr>lv_m := lv, ikeylen_m := fst item, ikey_m := fst (snd item), ksuf_m := snd (snd item)\<rparr>"

definition task_item_n :: "byte \<times> u64 \<times> byte list \<Rightarrow> u64 \<Rightarrow> merge_task \<Rightarrow> merge_task" where
  "task_item_n item lv tt = tt\<lparr>lv_n := lv, ikeylen_n := fst item, ikey_n := fst (snd item), ksuf_n := snd (snd item)\<rparr>"

text \<open>\<^verbatim>\<open>strncmp\<close> of the C library, tested for zero: the comparison ends at a zero byte.\<close>

fun strncmp_0 :: "byte list \<Rightarrow> byte list \<Rightarrow> nat \<Rightarrow> bool" where
  "strncmp_0 (x # xs) (y # ys) n \<longleftrightarrow> n = 0 \<or> x = y \<and> (x = 0 \<or> strncmp_0 xs ys (n - 1))"
| "strncmp_0 xs ys n \<longleftrightarrow> True"

section \<open>The kinds of node\<close>

record 'n merge_ops =
  go_ops :: "'n node_ops"
  go_sizeof :: nat
  go_size :: "'n \<Rightarrow> nat"
  go_mem :: "'n \<Rightarrow> byte list"
  go_has_ksuf :: "'n \<Rightarrow> bool"
  go_resize :: "(nat \<Rightarrow> byte) \<Rightarrow> 'n \<Rightarrow> nat \<Rightarrow> 'n"
  go_make :: "(nat \<Rightarrow> byte) \<Rightarrow> nat \<Rightarrow> nat \<Rightarrow> 'n"
  go_set :: "'n \<Rightarrow> nat \<Rightarrow> nat \<Rightarrow> bool \<Rightarrow> byte list \<Rightarrow> 'n"
  go_set_ikey :: "'n \<Rightarrow> nat \<Rightarrow> u64 \<Rightarrow> 'n"
  go_set_ksuf_offset :: "'n \<Rightarrow> nat \<Rightarrow> nat \<Rightarrow> 'n"
  go_ksufpos :: "'n \<Rightarrow> nat \<Rightarrow> nat"
  go_appends :: bool
  go_replaces :: bool
  go_guards :: bool

text \<open>
  \<open>go_set\<close> sets the fields (\<^verbatim>\<open>set_size\<close>, \<^verbatim>\<open>set_allocated_size\<close>, \<^verbatim>\<open>set_has_ksuf\<close>) of a block that was
  written to. The last three say where the classes differ: whether a node whose slices all
  come after those of \<open>n\<close> is appended at once, whether the same key in both nodes replaces the value
  (or is an error), and whether \<^verbatim>\<open>add_item_to_node\<close> checks that it made a task before it
  changes the parent of the last one.
\<close>

definition mn_merge_ops :: "massnode merge_ops" where
  "mn_merge_ops = \<lparr>go_ops = mn_ops, go_sizeof = sizeof_massnode, go_size = mn_size, go_mem = mn_mem,
     go_has_ksuf = (\<lambda>n. mn_hasKsuf n = 1), go_resize = mn_resize,
     go_make = (\<lambda>raw ksufSize nkeys. mn_make raw ksufSize True nkeys),
     go_set = (\<lambda>n nkeys size has mem.
       n\<lparr>mn_nkeys := nkeys, mn_size := size, mn_hasKsuf := (if has then 1 else 0), mn_mem := mem\<rparr>),
     go_set_ikey = mn_set_ikey, go_set_ksuf_offset = mn_set_ksuf_offset, go_ksufpos = mn_ksufpos,
     go_appends = True, go_replaces = True, go_guards = False\<rparr>"

definition md_merge_ops :: "massnode_dynamicvalue merge_ops" where
  "md_merge_ops = \<lparr>go_ops = md_ops, go_sizeof = sizeof_massnode_dynamicvalue, go_size = md_size, go_mem = md_mem,
     go_has_ksuf = (\<lambda>n. True), go_resize = md_resize, go_make = md_make,
     go_set = (\<lambda>n nkeys size has mem. n\<lparr>md_nkeys := nkeys, md_size := size, md_mem := mem\<rparr>),
     go_set_ikey = md_set_ikey, go_set_ksuf_offset = md_set_ksuf_offset, go_ksufpos = md_ksufpos,
     go_appends = False, go_replaces = False, go_guards = True\<rparr>"

section \<open>Positions\<close>

text \<open>One number for each of the arrays of a node.\<close>

record array_pos =
  at_ikeylen :: nat
  at_ikey :: nat
  at_lv :: nat
  at_ksuf_offset :: nat
  at_ksuf :: nat

definition startpos :: "nat \<Rightarrow> nat \<Rightarrow> array_pos" where
  "startpos sizeof nkeys =
     (let ikeylen_startpos = sizeof;
          ikey_startpos = ikeylen_startpos + 1 * nkeys;
          lv_startpos = ikey_startpos + 8 * nkeys;
          ksuf_offset_startpos = lv_startpos + 8 * nkeys;
          ksuf_startpos = ksuf_offset_startpos + 4 * (nkeys + 1)
      in \<lparr>at_ikeylen = ikeylen_startpos, at_ikey = ikey_startpos, at_lv = lv_startpos,
          at_ksuf_offset = ksuf_offset_startpos, at_ksuf = ksuf_startpos\<rparr>)"

definition array_len :: "nat \<Rightarrow> nat \<Rightarrow> nat \<Rightarrow> array_pos" where
  "array_len sizeof sz nkeys =
     \<lparr>at_ikeylen = 1 * nkeys, at_ikey = 8 * nkeys, at_lv = 8 * nkeys, at_ksuf_offset = 4 * (nkeys + 1),
      at_ksuf = sz - at_ksuf (startpos sizeof nkeys)\<rparr>"

text \<open>Where the arrays of \<open>n\<close> are moved to: the end of the enlarged arrays.\<close>

definition moved_pos :: "array_pos \<Rightarrow> array_pos \<Rightarrow> array_pos \<Rightarrow> array_pos" where
  "moved_pos new_startpos new_len n_len =
     \<lparr>at_ikeylen = at_ikeylen new_startpos + at_ikeylen new_len - at_ikeylen n_len,
      at_ikey = at_ikey new_startpos + at_ikey new_len - at_ikey n_len,
      at_lv = at_lv new_startpos + at_lv new_len - at_lv n_len,
      at_ksuf_offset = at_ksuf_offset new_startpos + at_ksuf_offset new_len - at_ksuf_offset n_len,
      at_ksuf = at_ksuf new_startpos + at_ksuf new_len - at_ksuf n_len\<rparr>"

definition memmove :: "byte list \<Rightarrow> nat \<Rightarrow> nat \<Rightarrow> nat \<Rightarrow> byte list" where
  "memmove mem dst src len = poke mem dst (peek mem src len)"

definition memcpy_from :: "byte list \<Rightarrow> nat \<Rightarrow> byte list \<Rightarrow> nat \<Rightarrow> nat \<Rightarrow> byte list" where
  "memcpy_from mem dst m src len = poke mem dst (peek m src len)"

section \<open>Merging the arrays of two nodes\<close>

text \<open>What stays the same while the arrays are merged.\<close>

record merge_env =
  me_m :: "byte list"
  me_m_nkeys :: nat
  me_n_nkeys :: nat
  me_mp :: array_pos
  me_np :: array_pos
  me_newp :: array_pos
  me_hasKsuf :: bool
  me_replaces :: bool
  me_n :: u64

record merge_state =
  ms_mem :: "byte list"
  m_pos :: nat
  n_pos :: nat
  new_n_pos :: nat
  m_ksuf_pos :: nat
  n_ksuf_pos :: nat
  new_n_ksuf_pos :: nat
  ms_task :: "merge_task list"

text \<open>\<^verbatim>\<open>ksuf_offset[pos + 1] - ksuf_offset[pos]\<close>, for the array that starts at \<open>a\<close>.\<close>

definition offset_diff :: "byte list \<Rightarrow> nat \<Rightarrow> nat \<Rightarrow> nat" where
  "offset_diff mem a pos = sub32 (rd32 mem (a + 4 * (pos + 1))) (rd32 mem (a + 4 * pos))"

definition m_kl :: "merge_env \<Rightarrow> merge_state \<Rightarrow> byte" where
  "m_kl E s = rd8 (me_m E) (at_ikeylen (me_mp E) + m_pos s)"

definition m_ik :: "merge_env \<Rightarrow> merge_state \<Rightarrow> u64" where
  "m_ik E s = rd64 (me_m E) (at_ikey (me_mp E) + 8 * m_pos s)"

definition m_lv :: "merge_env \<Rightarrow> merge_state \<Rightarrow> u64" where
  "m_lv E s = rd64 (me_m E) (at_lv (me_mp E) + 8 * m_pos s)"

definition m_len :: "merge_env \<Rightarrow> merge_state \<Rightarrow> nat" where
  "m_len E s = offset_diff (me_m E) (at_ksuf_offset (me_mp E)) (m_pos s)"

definition n_kl :: "merge_env \<Rightarrow> merge_state \<Rightarrow> byte" where
  "n_kl E s = rd8 (ms_mem s) (at_ikeylen (me_np E) + n_pos s)"

definition n_ik :: "merge_env \<Rightarrow> merge_state \<Rightarrow> u64" where
  "n_ik E s = rd64 (ms_mem s) (at_ikey (me_np E) + 8 * n_pos s)"

definition n_lv :: "merge_env \<Rightarrow> merge_state \<Rightarrow> u64" where
  "n_lv E s = rd64 (ms_mem s) (at_lv (me_np E) + 8 * n_pos s)"

definition n_len :: "merge_env \<Rightarrow> merge_state \<Rightarrow> nat" where
  "n_len E s = offset_diff (ms_mem s) (at_ksuf_offset (me_np E)) (n_pos s)"

text \<open>Assignments to \<^verbatim>\<open>new_n_ikeylen[new_n_pos]\<close> and so on.\<close>

definition put_kl :: "merge_env \<Rightarrow> byte \<Rightarrow> merge_state \<Rightarrow> merge_state" where
  "put_kl E x s = s\<lparr>ms_mem := wr8 (ms_mem s) (at_ikeylen (me_newp E) + new_n_pos s) x\<rparr>"

definition put_ik :: "merge_env \<Rightarrow> u64 \<Rightarrow> merge_state \<Rightarrow> merge_state" where
  "put_ik E x s = s\<lparr>ms_mem := wr64 (ms_mem s) (at_ikey (me_newp E) + 8 * new_n_pos s) x\<rparr>"

definition put_lv :: "merge_env \<Rightarrow> u64 \<Rightarrow> merge_state \<Rightarrow> merge_state" where
  "put_lv E x s = s\<lparr>ms_mem := wr64 (ms_mem s) (at_lv (me_newp E) + 8 * new_n_pos s) x\<rparr>"

definition put_offset :: "merge_env \<Rightarrow> merge_state \<Rightarrow> merge_state" where
  "put_offset E s = s\<lparr>ms_mem := wr32 (ms_mem s) (at_ksuf_offset (me_newp E) + 4 * new_n_pos s)
     (new_n_ksuf_pos s - at_ksuf (me_newp E))\<rparr>"

text \<open>An item of \<open>m\<close>, of \<open>n\<close>, moved to the new arrays.\<close>

definition move_m :: "merge_env \<Rightarrow> merge_state \<Rightarrow> merge_state outcome" where
  "move_m E s =
     (let s = put_kl E (m_kl E s) s;
          s = put_ik E (m_ik E s) s;
          s = put_lv E (m_lv E s) s
      in if me_hasKsuf E then
           (let copy_ksuf_len = m_len E s;
                s = put_offset E s
            in if copy_ksuf_len \<ge> 2 ^ 31 then Returns_False
               else Goes_On (s\<lparr>ms_mem := memcpy_from (ms_mem s) (new_n_ksuf_pos s) (me_m E) (m_ksuf_pos s) copy_ksuf_len,
                 new_n_pos := new_n_pos s + 1, m_pos := m_pos s + 1,
                 new_n_ksuf_pos := new_n_ksuf_pos s + copy_ksuf_len, m_ksuf_pos := m_ksuf_pos s + copy_ksuf_len\<rparr>))
         else Goes_On (s\<lparr>new_n_pos := new_n_pos s + 1, m_pos := m_pos s + 1\<rparr>))"

definition move_n :: "merge_env \<Rightarrow> merge_state \<Rightarrow> merge_state outcome" where
  "move_n E s =
     (let s = put_kl E (n_kl E s) s;
          s = put_ik E (n_ik E s) s;
          s = put_lv E (n_lv E s) s
      in if me_hasKsuf E then
           (let copy_ksuf_len = n_len E s;
                s = put_offset E s
            in if copy_ksuf_len \<ge> 2 ^ 31 then Returns_False
               else Goes_On (s\<lparr>ms_mem := memmove (ms_mem s) (new_n_ksuf_pos s) (n_ksuf_pos s) copy_ksuf_len,
                 new_n_pos := new_n_pos s + 1, n_pos := n_pos s + 1,
                 new_n_ksuf_pos := new_n_ksuf_pos s + copy_ksuf_len, n_ksuf_pos := n_ksuf_pos s + copy_ksuf_len\<rparr>))
         else Goes_On (s\<lparr>new_n_pos := new_n_pos s + 1, n_pos := n_pos s + 1\<rparr>))"

definition skip_n :: "merge_env \<Rightarrow> merge_state \<Rightarrow> merge_state" where
  "skip_n E s = s\<lparr>n_ksuf_pos := (if me_hasKsuf E then n_ksuf_pos s + n_len E s else n_ksuf_pos s), n_pos := n_pos s + 1\<rparr>"

definition push_task :: "merge_env \<Rightarrow> merge_task \<Rightarrow> merge_state \<Rightarrow> merge_state" where
  "push_task E tt s = s\<lparr>ms_task := ms_task s @ [tt\<lparr>parent_node := me_n E, parent_node_pos := new_n_pos s\<rparr>]\<rparr>"

definition advance_both :: "merge_state \<Rightarrow> merge_state" where
  "advance_both s = s\<lparr>new_n_pos := new_n_pos s + 1, m_pos := m_pos s + 1, n_pos := n_pos s + 1\<rparr>"

text \<open>The same slice and key length in both; the leaf value of the slot is set by the task.\<close>

definition both_layers :: "merge_env \<Rightarrow> merge_state \<Rightarrow> merge_state" where
  "both_layers E s =
     (let s = put_kl E (n_kl E s) s;
          s = put_ik E (n_ik E s) s;
          s = put_offset E s;
          tt = new_task\<lparr>task := 0, task_m := m_lv E s, task_n := n_lv E s\<rparr>
      in push_task E tt s)"

definition n_layer :: "merge_env \<Rightarrow> merge_state \<Rightarrow> merge_state" where
  "n_layer E s =
     (let s = put_kl E (n_kl E s) s;
          s = put_ik E (n_ik E s) s;
          s = put_offset E s;
          tt = task_item_m (next_layer (me_m E) (m_ksuf_pos s) (m_len E s)) (m_lv E s)
                 (new_task\<lparr>task := 1, task_n := n_lv E s\<rparr>)
      in (push_task E tt s)\<lparr>m_ksuf_pos := m_ksuf_pos s + m_len E s\<rparr>)"

definition m_layer :: "merge_env \<Rightarrow> merge_state \<Rightarrow> merge_state" where
  "m_layer E s =
     (let s = put_kl E (m_kl E s) s;
          s = put_ik E (m_ik E s) s;
          s = put_offset E s;
          tt = task_item_m (next_layer (ms_mem s) (n_ksuf_pos s) (n_len E s)) (n_lv E s)
                 (new_task\<lparr>task := 1, task_n := m_lv E s\<rparr>)
      in (push_task E tt s)\<lparr>n_ksuf_pos := n_ksuf_pos s + n_len E s\<rparr>)"

definition new_layer :: "merge_env \<Rightarrow> merge_state \<Rightarrow> merge_state" where
  "new_layer E s =
     (let s = put_kl E (n_kl E s + 64) s;
          s = put_ik E (n_ik E s) s;
          s = put_offset E s;
          tt = task_item_n (next_layer (ms_mem s) (n_ksuf_pos s) (n_len E s)) (n_lv E s)
                 (task_item_m (next_layer (me_m E) (m_ksuf_pos s) (m_len E s)) (m_lv E s) (new_task\<lparr>task := 2\<rparr>))
      in (push_task E tt s)\<lparr>m_ksuf_pos := m_ksuf_pos s + m_len E s, n_ksuf_pos := n_ksuf_pos s + n_len E s\<rparr>)"

definition same_slice :: "merge_env \<Rightarrow> merge_state \<Rightarrow> merge_state outcome" where
  "same_slice E s =
     (let layer_m = keylenx_is_layer (m_kl E s);
          layer_n = keylenx_is_layer (n_kl E s)
      in if \<not> me_hasKsuf E then Undefined
         else if layer_m \<and> layer_n then Goes_On (advance_both (both_layers E s))
         else if layer_n then Goes_On (advance_both (n_layer E s))
         else if layer_m then Goes_On (advance_both (m_layer E s))
         else
           (let ksuflen_m = m_len E s;
                ksuflen_n = n_len E s;
                same = (ksuflen_m = ksuflen_n \<and>
                  strncmp_0 (drop (m_ksuf_pos s) (me_m E)) (drop (n_ksuf_pos s) (ms_mem s)) ksuflen_m)
            in if (ksuflen_m = 0 \<and> ksuflen_n = 0 \<or> same) \<and> \<not> me_replaces E then Returns_False
               else if ksuflen_m = 0 \<and> ksuflen_n = 0 then
                 (let s = put_kl E (m_kl E s) s;
                      s = put_ik E (m_ik E s) s;
                      s = put_lv E (m_lv E s) s;
                      s = put_offset E s
                  in Goes_On (advance_both s))
               else if same then
                 (let s = put_kl E (m_kl E s) s;
                      s = put_ik E (m_ik E s) s;
                      s = put_lv E (m_lv E s) s;
                      copy_ksuf_len = ksuflen_m;
                      s = s\<lparr>ms_mem := memcpy_from (ms_mem s) (new_n_ksuf_pos s) (me_m E) (m_ksuf_pos s) copy_ksuf_len\<rparr>;
                      s = put_offset E s
                  in Goes_On (advance_both (s\<lparr>new_n_ksuf_pos := new_n_ksuf_pos s + copy_ksuf_len,
                       m_ksuf_pos := m_ksuf_pos s + copy_ksuf_len, n_ksuf_pos := n_ksuf_pos s + copy_ksuf_len\<rparr>)))
               else Goes_On (advance_both (new_layer E s))))"

definition merge_step :: "merge_env \<Rightarrow> merge_state \<Rightarrow> merge_state outcome" where
  "merge_step E s =
     (if n_kl E s = 0 then Goes_On (skip_n E s)
      else
        (let m_ikey_length = keylenx_ikeylen (m_kl E s);
             n_ikey_length = keylenx_ikeylen (n_kl E s)
         in if m_ik E s < n_ik E s \<or> m_ik E s = n_ik E s \<and> m_ikey_length < n_ikey_length then move_m E s
            else if m_ik E s > n_ik E s \<or> m_ik E s = n_ik E s \<and> m_ikey_length > n_ikey_length then move_n E s
            else same_slice E s))"

lemma put_pos [simp]:
  "m_pos (put_kl E x s) = m_pos s" "n_pos (put_kl E x s) = n_pos s" "new_n_pos (put_kl E x s) = new_n_pos s"
  "m_pos (put_ik E y s) = m_pos s" "n_pos (put_ik E y s) = n_pos s" "new_n_pos (put_ik E y s) = new_n_pos s"
  "m_pos (put_lv E y s) = m_pos s" "n_pos (put_lv E y s) = n_pos s" "new_n_pos (put_lv E y s) = new_n_pos s"
  "m_pos (put_offset E s) = m_pos s" "n_pos (put_offset E s) = n_pos s" "new_n_pos (put_offset E s) = new_n_pos s"
  "m_pos (push_task E t s) = m_pos s" "n_pos (push_task E t s) = n_pos s" "new_n_pos (push_task E t s) = new_n_pos s"
  by (simp_all add: put_kl_def put_ik_def put_lv_def put_offset_def push_task_def)

lemmas merge_step_defs = move_m_def move_n_def skip_n_def advance_both_def both_layers_def n_layer_def m_layer_def
  new_layer_def same_slice_def

lemma merge_step_pos:
  "merge_step E s = Goes_On s' \<Longrightarrow>
     (m_pos s' = m_pos s + 1 \<and> n_pos s' = n_pos s) \<or> (m_pos s' = m_pos s \<and> n_pos s' = n_pos s + 1) \<or>
     (m_pos s' = m_pos s + 1 \<and> n_pos s' = n_pos s + 1)"
  by (auto simp: merge_step_def merge_step_defs Let_def split: if_splits)

function merge_loop :: "merge_env \<Rightarrow> merge_state \<Rightarrow> merge_state outcome" where
  "merge_loop E s =
     (if m_pos s < me_m_nkeys E \<and> n_pos s < me_n_nkeys E then and_then (merge_step E s) (merge_loop E) else Goes_On s)"
  by pat_completeness auto
termination
  by (relation "measure (\<lambda>(E, s). (me_m_nkeys E - m_pos s) + (me_n_nkeys E - n_pos s))")
    (auto dest!: merge_step_pos)

declare merge_loop.simps [simp del]

lemma move_m_pos: "move_m E s = Goes_On s' \<Longrightarrow> m_pos s' = m_pos s + 1 \<and> n_pos s' = n_pos s"
  by (auto simp: move_m_def Let_def split: if_splits)

lemma move_n_pos: "move_n E s = Goes_On s' \<Longrightarrow> m_pos s' = m_pos s \<and> n_pos s' = n_pos s + 1"
  by (auto simp: move_n_def Let_def split: if_splits)

function m_leftovers :: "merge_env \<Rightarrow> merge_state \<Rightarrow> merge_state outcome" where
  "m_leftovers E s = (if m_pos s < me_m_nkeys E then and_then (move_m E s) (m_leftovers E) else Goes_On s)"
  by pat_completeness auto
termination
  by (relation "measure (\<lambda>(E, s). me_m_nkeys E - m_pos s)") (auto dest!: move_m_pos)

function n_leftovers :: "merge_env \<Rightarrow> merge_state \<Rightarrow> merge_state outcome" where
  "n_leftovers E s = (if n_pos s < me_n_nkeys E then and_then (move_n E s) (n_leftovers E) else Goes_On s)"
  by pat_completeness auto
termination
  by (relation "measure (\<lambda>(E, s). me_n_nkeys E - n_pos s)") (auto dest!: move_n_pos)

declare m_leftovers.simps [simp del] n_leftovers.simps [simp del]

text \<open>The arrays of \<open>n\<close> moved to the end of the enlarged block, the last array first.\<close>

definition relocate :: "bool \<Rightarrow> array_pos \<Rightarrow> array_pos \<Rightarrow> array_pos \<Rightarrow> byte list \<Rightarrow> byte list" where
  "relocate hasKsuf dst src len mem =
     (let mem = (if hasKsuf then memmove mem (at_ksuf dst) (at_ksuf src) (at_ksuf len) else mem);
          mem = (if hasKsuf then memmove mem (at_ksuf_offset dst) (at_ksuf_offset src) (at_ksuf_offset len) else mem);
          mem = memmove mem (at_lv dst) (at_lv src) (at_lv len);
          mem = memmove mem (at_ikey dst) (at_ikey src) (at_ikey len)
      in memmove mem (at_ikeylen dst) (at_ikeylen src) (at_ikeylen len))"

definition merge_arrays :: "merge_env \<Rightarrow> byte list \<Rightarrow> merge_state outcome" where
  "merge_arrays E mem =
     and_then (merge_loop E \<lparr>ms_mem = mem, m_pos = 0, n_pos = 0, new_n_pos = 0, m_ksuf_pos = at_ksuf (me_mp E),
         n_ksuf_pos = at_ksuf (me_np E), new_n_ksuf_pos = at_ksuf (me_newp E), ms_task = []\<rparr>)
       (\<lambda>s. and_then (m_leftovers E s)
       (\<lambda>s. and_then (n_leftovers E s)
       (\<lambda>s. Goes_On (if me_hasKsuf E then put_offset E s else s))))"

text \<open>All slices of \<open>n\<close> come before those of \<open>m\<close>: the arrays of \<open>m\<close> are put after those of \<open>n\<close>.\<close>

definition append_arrays ::
  "bool \<Rightarrow> array_pos \<Rightarrow> array_pos \<Rightarrow> array_pos \<Rightarrow> array_pos \<Rightarrow> array_pos \<Rightarrow> nat \<Rightarrow> nat \<Rightarrow> byte list \<Rightarrow> byte list \<Rightarrow> byte list" where
  "append_arrays hasKsuf newp np n_lens mp m_lens m_nkeys n_nkeys m mem =
     (let mem = (if hasKsuf then memmove mem (at_ksuf newp) (at_ksuf np) (at_ksuf n_lens) else mem);
          mem = (if hasKsuf then memmove mem (at_ksuf_offset newp) (at_ksuf_offset np) (at_ksuf_offset n_lens) else mem);
          mem = memmove mem (at_lv newp) (at_lv np) (at_lv n_lens);
          mem = memmove mem (at_ikey newp) (at_ikey np) (at_ikey n_lens);
          m = (if hasKsuf
               then fold (\<lambda>i m. wr32 m (at_ksuf_offset mp + 4 * i)
                      (rd32 m (at_ksuf_offset mp + 4 * i) + rd32 mem (at_ksuf_offset newp + 4 * n_nkeys))) [0..<m_nkeys + 1] m
               else m);
          mem = memcpy_from mem (at_ikeylen newp + at_ikeylen n_lens) m (at_ikeylen mp) (at_ikeylen m_lens);
          mem = memcpy_from mem (at_ikey newp + at_ikey n_lens) m (at_ikey mp) (at_ikey m_lens);
          mem = memcpy_from mem (at_lv newp + at_lv n_lens) m (at_lv mp) (at_lv m_lens)
      in if hasKsuf then
           (let mem = memcpy_from mem (at_ksuf_offset newp + at_ksuf_offset n_lens - 4) m (at_ksuf_offset mp) (at_ksuf_offset m_lens)
            in memcpy_from mem (at_ksuf newp + at_ksuf n_lens) m (at_ksuf mp) (at_ksuf m_lens))
         else mem)"

text \<open>The arrays of a block with \<open>new_nkeys\<close> keys moved to where they belong, the first array first.\<close>

definition new_size :: "nat \<Rightarrow> bool \<Rightarrow> nat \<Rightarrow> nat \<Rightarrow> nat" where
  "new_size sizeof hasKsuf new_nkeys new_ksuf_size =
     (if hasKsuf then sizeof + 1 * new_nkeys + 8 * new_nkeys + 8 * new_nkeys + 4 * (new_nkeys + 1) + new_ksuf_size
      else sizeof + 1 * new_nkeys + 8 * new_nkeys + 8 * new_nkeys)"

definition compact :: "nat \<Rightarrow> bool \<Rightarrow> array_pos \<Rightarrow> nat \<Rightarrow> nat \<Rightarrow> byte list \<Rightarrow> byte list" where
  "compact sizeof hasKsuf newp new_nkeys new_ksuf_size mem =
     (let new_ksuf_offset_size = (if hasKsuf then 4 * (new_nkeys + 1) else 0);
          new_ksuf_size = (if hasKsuf then new_ksuf_size else 0);
          final_ikey = sizeof + 1 * new_nkeys;
          final_lv = sizeof + 1 * new_nkeys + 8 * new_nkeys;
          final_ksuf_offset = sizeof + 1 * new_nkeys + 8 * new_nkeys + 8 * new_nkeys;
          final_ksuf = sizeof + 1 * new_nkeys + 8 * new_nkeys + 8 * new_nkeys + new_ksuf_offset_size;
          mem = memmove mem final_ikey (at_ikey newp) (8 * new_nkeys);
          mem = memmove mem final_lv (at_lv newp) (8 * new_nkeys);
          mem = memmove mem final_ksuf_offset (at_ksuf_offset newp) new_ksuf_offset_size
      in memmove mem final_ksuf (at_ksuf newp) new_ksuf_size)"

section \<open>The heap\<close>

text \<open>
  \<open>al_stay k\<close>: the \<open>k\<close>-th reallocation does not move the block; otherwise it goes to \<open>al_addr k\<close>,
  and the bytes it gains are \<open>al_raw k\<close>. New blocks are at \<open>al_addr k\<close>, too.
\<close>

record merge_alloc =
  al_stay :: "nat \<Rightarrow> bool"
  al_addr :: "nat \<Rightarrow> u64"
  al_raw :: "nat \<Rightarrow> nat \<Rightarrow> byte"

record 'n merge_heap =
  mh_heap :: "'n node_heap"
  mh_root :: u64
  mh_task :: "merge_task list"
  mh_next :: nat

definition realloc :: "merge_alloc \<Rightarrow> nat \<Rightarrow> u64 \<Rightarrow> u64" where
  "realloc A k p = (if al_stay A k then p else al_addr A k)"

text \<open>The node \<open>n\<close> is now at \<open>p\<close>; the parent's slot, or the root, is set to it.\<close>

definition set_parent :: "'n merge_ops \<Rightarrow> merge_task \<Rightarrow> u64 \<Rightarrow> 'n merge_heap \<Rightarrow> 'n merge_heap outcome" where
  "set_parent K t p st =
     (if parent_node t \<noteq> 0 then
        (case mh_heap st (parent_node t) of None \<Rightarrow> Undefined
         | Some q \<Rightarrow> Goes_On (st\<lparr>mh_heap := (mh_heap st)(parent_node t \<mapsto> op_set_lv (go_ops K) q (parent_node_pos t) p)\<rparr>))
      else Goes_On (st\<lparr>mh_root := p\<rparr>))"

definition merge_two_nodes ::
  "'n merge_ops \<Rightarrow> merge_alloc \<Rightarrow> merge_task \<Rightarrow> 'n \<Rightarrow> 'n \<Rightarrow> 'n merge_heap \<Rightarrow> 'n merge_heap outcome" where
  "merge_two_nodes K A t m n st =
     (let sizeof = go_sizeof K;
          m_size = go_size K m;
          n_size = go_size K n;
          m_nkeys = op_nkeys (go_ops K) m;
          n_nkeys = op_nkeys (go_ops K) n;
          new_max_nkeys = m_nkeys + n_nkeys;
          hasKsuf = (go_has_ksuf K m \<or> go_has_ksuf K n);
          new_max_size = (if hasKsuf then m_size + n_size - sizeof - 4 else m_size + n_size - sizeof);
          p = realloc A (mh_next st) (task_n t);
          n' = go_resize K (al_raw A (mh_next st)) n new_max_size;
          newp = startpos sizeof new_max_nkeys;
          np = startpos sizeof n_nkeys;
          mp = startpos sizeof m_nkeys;
          new_lens = array_len sizeof new_max_size new_max_nkeys;
          n_lens = array_len sizeof n_size n_nkeys;
          m_lens = array_len sizeof m_size m_nkeys;
          moved = moved_pos newp new_lens n_lens;
          heap = (mh_heap st)(task_n t := None, task_m t := None)
      in if new_max_size \<ge> 2 ^ 31 \<or> go_has_ksuf K m \<noteq> go_has_ksuf K n \<or> go_appends K \<and> (m_nkeys = 0 \<or> n_nkeys = 0)
         then Undefined
         else if go_appends K \<and> op_ikey (go_ops K) n' (n_nkeys - 1) < rd64 (go_mem K m) (at_ikey mp) then
           (let mem = append_arrays hasKsuf newp np n_lens mp m_lens m_nkeys n_nkeys (go_mem K m) (go_mem K n');
                n' = go_set K n' new_max_nkeys new_max_size hasKsuf mem
            in set_parent K t p (st\<lparr>mh_heap := heap(p \<mapsto> n'), mh_next := mh_next st + 1\<rparr>))
         else
           and_then (merge_arrays \<lparr>me_m = go_mem K m, me_m_nkeys = m_nkeys, me_n_nkeys = n_nkeys, me_mp = mp, me_np = moved,
                me_newp = newp, me_hasKsuf = hasKsuf, me_replaces = go_replaces K, me_n = p\<rparr>
               (relocate hasKsuf moved np n_lens (go_mem K n')))
             (\<lambda>s. let new_nkeys = new_n_pos s;
                      new_ksuf_size = rd32 (ms_mem s) (at_ksuf_offset newp + 4 * new_n_pos s);
                      sz = new_size sizeof hasKsuf new_nkeys new_ksuf_size
                  in if new_nkeys > new_max_nkeys then Returns_False
                     else if new_nkeys < new_max_nkeys then
                       (let mem = compact sizeof hasKsuf newp new_nkeys new_ksuf_size (ms_mem s);
                            n' = go_resize K (al_raw A (mh_next st + 1)) (go_set K n' n_nkeys new_max_size hasKsuf mem) sz;
                            p = realloc A (mh_next st + 1) p;
                            tasks = map (\<lambda>tt. tt\<lparr>parent_node := p\<rparr>) (ms_task s);
                            n' = go_set K n' new_nkeys sz hasKsuf (go_mem K n')
                        in set_parent K t p (st\<lparr>mh_heap := heap(p \<mapsto> n'), mh_task := mh_task st @ tasks, mh_next := mh_next st + 2\<rparr>))
                     else
                       (let n' = go_set K n' new_nkeys sz hasKsuf (ms_mem s)
                        in set_parent K t p (st\<lparr>mh_heap := heap(p \<mapsto> n'), mh_task := mh_task st @ ms_task s,
                             mh_next := mh_next st + 1\<rparr>))))"

definition merge_nodes :: "'n merge_ops \<Rightarrow> merge_alloc \<Rightarrow> merge_task \<Rightarrow> 'n merge_heap \<Rightarrow> 'n merge_heap outcome" where
  "merge_nodes K A t st =
     (if task_m t = 0 then Returns_False
      else if task_n t = 0 then Goes_On (st\<lparr>mh_root := task_m t\<rparr>)
      else
        (case (mh_heap st (task_m t), mh_heap st (task_n t)) of
           (Some m, Some n) \<Rightarrow> merge_two_nodes K A t m n st
         | _ \<Rightarrow> Undefined))"

section \<open>One item added to a node\<close>

text \<open>
  The item is in the task. In the state, \<open>m_pos\<close> is 1 once it was inserted (\<^verbatim>\<open>m_inserted\<close>); the
  loops carry \<^verbatim>\<open>new_nkeys\<close> along.
\<close>

definition add_m :: "merge_task \<Rightarrow> merge_env \<Rightarrow> merge_state \<Rightarrow> merge_state outcome" where
  "add_m t E s =
     (let s = put_kl E (ikeylen_m t) s;
          s = put_ik E (ikey_m t) s;
          s = put_lv E (lv_m t) s;
          copy_ksuf_len = length (ksuf_m t);
          s = put_offset E s
      in if copy_ksuf_len \<ge> 2 ^ 31 then Returns_False
         else Goes_On (s\<lparr>ms_mem := poke (ms_mem s) (new_n_ksuf_pos s) (ksuf_m t), new_n_pos := new_n_pos s + 1, m_pos := 1,
           new_n_ksuf_pos := new_n_ksuf_pos s + copy_ksuf_len\<rparr>))"

definition add_both :: "merge_state \<Rightarrow> merge_state" where
  "add_both s = s\<lparr>new_n_pos := new_n_pos s + 1, m_pos := 1, n_pos := n_pos s + 1\<rparr>"

definition add_n_layer :: "merge_task \<Rightarrow> merge_env \<Rightarrow> merge_state \<Rightarrow> merge_state" where
  "add_n_layer t E s =
     (let s = put_kl E (n_kl E s) s;
          s = put_ik E (n_ik E s) s;
          s = put_offset E s;
          tt = task_item_m (next_layer (ksuf_m t) 0 (length (ksuf_m t))) (lv_m t) (new_task\<lparr>task := 1, task_n := n_lv E s\<rparr>)
      in push_task E tt s)"

definition add_new_layer :: "merge_task \<Rightarrow> merge_env \<Rightarrow> merge_state \<Rightarrow> merge_state" where
  "add_new_layer t E s =
     (let s = put_kl E (n_kl E s + 64) s;
          s = put_ik E (n_ik E s) s;
          s = put_offset E s;
          tt = task_item_n (next_layer (ms_mem s) (n_ksuf_pos s) (n_len E s)) (n_lv E s)
                 (task_item_m (next_layer (ksuf_m t) 0 (length (ksuf_m t))) (lv_m t) (new_task\<lparr>task := 2\<rparr>))
      in (push_task E tt s)\<lparr>n_ksuf_pos := n_ksuf_pos s + n_len E s\<rparr>)"

definition add_same_slice :: "merge_task \<Rightarrow> merge_env \<Rightarrow> merge_state \<Rightarrow> merge_state outcome" where
  "add_same_slice t E s =
     (if keylenx_is_layer (n_kl E s) then Goes_On (add_both (add_n_layer t E s))
      else
        (let ksuflen_m = length (ksuf_m t);
             ksuflen_n = n_len E s;
             same = (ksuflen_m = ksuflen_n \<and> strncmp_0 (ksuf_m t) (drop (n_ksuf_pos s) (ms_mem s)) ksuflen_m)
         in if (ksuflen_m = 0 \<and> ksuflen_n = 0 \<or> same) \<and> \<not> me_replaces E then Returns_False
            else if ksuflen_m = 0 \<and> ksuflen_n = 0 then
              (let s = put_kl E (ikeylen_m t) s;
                   s = put_ik E (ikey_m t) s;
                   s = put_lv E (lv_m t) s;
                   s = put_offset E s
               in Goes_On (add_both s))
            else if same then
              (let s = put_kl E (ikeylen_m t) s;
                   s = put_ik E (ikey_m t) s;
                   s = put_lv E (lv_m t) s;
                   copy_ksuf_len = ksuflen_m;
                   s = s\<lparr>ms_mem := poke (ms_mem s) (new_n_ksuf_pos s) (ksuf_m t)\<rparr>;
                   s = put_offset E s
               in Goes_On (add_both (s\<lparr>new_n_ksuf_pos := new_n_ksuf_pos s + copy_ksuf_len,
                    n_ksuf_pos := n_ksuf_pos s + copy_ksuf_len\<rparr>)))
            else Goes_On (add_both (add_new_layer t E s))))"

definition add_step :: "merge_task \<Rightarrow> merge_env \<Rightarrow> merge_state \<times> nat \<Rightarrow> (merge_state \<times> nat) outcome" where
  "add_step t E sc =
     (let (s, new_nkeys) = sc in
      if n_kl E s = 0 then Goes_On (skip_n E s, new_nkeys - 1)
      else
        (let m_ikey_length = keylenx_ikeylen (ikeylen_m t);
             n_ikey_length = keylenx_ikeylen (n_kl E s)
         in if ikey_m t < n_ik E s \<or> ikey_m t = n_ik E s \<and> m_ikey_length < n_ikey_length
            then and_then (add_m t E s) (\<lambda>s. Goes_On (s, new_nkeys))
            else if ikey_m t > n_ik E s \<or> ikey_m t = n_ik E s \<and> m_ikey_length > n_ikey_length
            then and_then (move_n E s) (\<lambda>s. Goes_On (s, new_nkeys))
            else and_then (add_same_slice t E s) (\<lambda>s. Goes_On (s, new_nkeys - 1))))"

lemma add_step_pos:
  "add_step t E (s, c) = Goes_On (s', c') \<Longrightarrow> m_pos s = 0 \<Longrightarrow>
     (m_pos s' = 1 \<and> n_pos s' = n_pos s) \<or> (m_pos s' = 0 \<and> n_pos s' = n_pos s + 1) \<or> (m_pos s' = 1 \<and> n_pos s' = n_pos s + 1)"
  by (auto simp: add_step_def skip_n_def add_m_def add_same_slice_def add_both_def
      add_n_layer_def add_new_layer_def and_then_Goes_On Let_def
      split: if_splits dest!: move_n_pos)

function add_loop :: "merge_task \<Rightarrow> merge_env \<Rightarrow> merge_state \<times> nat \<Rightarrow> (merge_state \<times> nat) outcome" where
  "add_loop t E sc =
     (if m_pos (fst sc) = 0 \<and> n_pos (fst sc) < me_n_nkeys E then and_then (add_step t E sc) (add_loop t E) else Goes_On sc)"
  by pat_completeness auto
termination
  by (relation "measure (\<lambda>(t, E, s, c). (1 - m_pos s) + (me_n_nkeys E - n_pos s))") (auto dest!: add_step_pos)

declare add_loop.simps [simp del]

definition add_arrays :: "merge_task \<Rightarrow> merge_env \<Rightarrow> byte list \<Rightarrow> (merge_state \<times> nat) outcome" where
  "add_arrays t E mem =
     and_then (add_loop t E (\<lparr>ms_mem = mem, m_pos = 0, n_pos = 0, new_n_pos = 0, m_ksuf_pos = 0,
         n_ksuf_pos = at_ksuf (me_np E), new_n_ksuf_pos = at_ksuf (me_newp E), ms_task = []\<rparr>, me_n_nkeys E + 1))
       (\<lambda>(s, new_nkeys). and_then (if m_pos s = 0 then add_m t E s else Goes_On s)
       (\<lambda>s. and_then (n_leftovers E s)
       (\<lambda>s. Goes_On (put_offset E s, new_nkeys))))"

text \<open>\<open>relink\<close>: \<^verbatim>\<open>task_[task_.size() - 1].parent_node = n_\<close>.\<close>

definition relink :: "u64 \<Rightarrow> merge_task list \<Rightarrow> merge_task list" where
  "relink p ts = ts[length ts - 1 := (last ts)\<lparr>parent_node := p\<rparr>]"

definition add_item ::
  "'n merge_ops \<Rightarrow> merge_alloc \<Rightarrow> merge_task \<Rightarrow> 'n \<Rightarrow> 'n merge_heap \<Rightarrow> 'n merge_heap outcome" where
  "add_item K A t n st =
     (let sizeof = go_sizeof K;
          m_size = 1 + 8 + 8 + 4 + length (ksuf_m t);
          n_size = go_size K n;
          new_max_size = m_size + n_size;
          n_nkeys = op_nkeys (go_ops K) n;
          new_max_nkeys = n_nkeys + 1;
          p = realloc A (mh_next st) (task_n t);
          n' = go_resize K (al_raw A (mh_next st)) n new_max_size;
          newp = startpos sizeof new_max_nkeys;
          np = startpos sizeof n_nkeys;
          new_lens = array_len sizeof new_max_size new_max_nkeys;
          n_lens = array_len sizeof n_size n_nkeys;
          moved = moved_pos newp new_lens n_lens;
          heap = (mh_heap st)(task_n t := None)
      in if new_max_size \<ge> 2 ^ 31 \<or> \<not> go_has_ksuf K n then Undefined
         else
           and_then (add_arrays t \<lparr>me_m = [], me_m_nkeys = 1, me_n_nkeys = n_nkeys, me_mp = startpos 0 1, me_np = moved,
                me_newp = newp, me_hasKsuf = True, me_replaces = go_replaces K, me_n = p\<rparr>
               (relocate True moved np n_lens (go_mem K n')))
             (\<lambda>(s, new_nkeys).
                let new_ksuf_size = rd32 (ms_mem s) (at_ksuf_offset newp + 4 * new_n_pos s);
                    sz = new_size sizeof True new_nkeys new_ksuf_size;
                    tasks = mh_task st @ ms_task s
                in if parent_node t = 0 then Returns_False
                   else if new_nkeys < new_max_nkeys then
                     (let mem = compact sizeof True newp new_nkeys new_ksuf_size (ms_mem s);
                          n' = go_resize K (al_raw A (mh_next st + 1)) (go_set K n' n_nkeys new_max_size True mem) sz;
                          p = realloc A (mh_next st + 1) p;
                          tasks = (if go_guards K \<and> ms_task s = [] then tasks else relink p tasks);
                          n' = go_set K n' new_nkeys sz True (go_mem K n')
                      in set_parent K t p (st\<lparr>mh_heap := heap(p \<mapsto> n'), mh_task := tasks, mh_next := mh_next st + 2\<rparr>))
                   else
                     (let n' = go_set K n' new_nkeys sz True (ms_mem s)
                      in set_parent K t p (st\<lparr>mh_heap := heap(p \<mapsto> n'), mh_task := tasks, mh_next := mh_next st + 1\<rparr>))))"

definition add_item_to_node :: "'n merge_ops \<Rightarrow> merge_alloc \<Rightarrow> merge_task \<Rightarrow> 'n merge_heap \<Rightarrow> 'n merge_heap outcome" where
  "add_item_to_node K A t st =
     (if task_n t = 0 then Returns_False
      else case mh_heap st (task_n t) of None \<Rightarrow> Undefined | Some n \<Rightarrow> add_item K A t n st)"

section \<open>A node made of two items\<close>

text \<open>An item stored in slot \<open>i\<close>, its suffix in front of the offset \<open>e\<close> where it ends.\<close>

definition store_item :: "'n merge_ops \<Rightarrow> 'n \<Rightarrow> nat \<Rightarrow> byte \<Rightarrow> u64 \<Rightarrow> u64 \<Rightarrow> nat \<Rightarrow> 'n" where
  "store_item K n i kl ik lv e =
     (let n = op_set_ikeylen (go_ops K) n i kl;
          n = go_set_ikey K n i ik;
          n = op_set_lv (go_ops K) n i lv
      in go_set_ksuf_offset K n (i + 1) e)"

definition store_suffix :: "'n merge_ops \<Rightarrow> 'n \<Rightarrow> nat \<Rightarrow> byte list \<Rightarrow> 'n" where
  "store_suffix K n i suf =
     go_set K n (op_nkeys (go_ops K) n) (go_size K n) (go_has_ksuf K n) (poke (go_mem K n) (go_ksufpos K n i) suf)"

definition two_items :: "'n merge_ops \<Rightarrow> (nat \<Rightarrow> byte) \<Rightarrow> merge_task \<Rightarrow> 'n" where
  "two_items K raw t =
     (let n = go_make K raw (length (ksuf_m t) + length (ksuf_n t)) 2
      in if ikey_m t < ikey_n t \<or> ikey_m t = ikey_n t \<and> ikeylen_m t < ikeylen_n t then
           (let n = go_set_ksuf_offset K n 0 0;
                n = store_item K n 0 (ikeylen_m t) (ikey_m t) (lv_m t) (length (ksuf_m t));
                n = store_item K n 1 (ikeylen_n t) (ikey_n t) (lv_n t) (length (ksuf_m t) + length (ksuf_n t));
                n = store_suffix K n 0 (ksuf_m t)
            in store_suffix K n 1 (ksuf_n t))
         else
           (let n = go_set_ksuf_offset K n 0 0;
                n = store_item K n 0 (ikeylen_n t) (ikey_n t) (lv_n t) (length (ksuf_n t));
                n = store_item K n 1 (ikeylen_m t) (ikey_m t) (lv_m t) (length (ksuf_n t) + length (ksuf_m t));
                n = store_suffix K n 0 (ksuf_n t)
            in store_suffix K n 1 (ksuf_m t)))"

definition one_layer :: "'n merge_ops \<Rightarrow> (nat \<Rightarrow> byte) \<Rightarrow> merge_task \<Rightarrow> 'n" where
  "one_layer K raw t =
     (let n = go_make K raw 0 1;
          n = op_set_ikeylen (go_ops K) n 0 (ikeylen_n t + 64);
          n = go_set_ikey K n 0 (ikey_n t);
          n = go_set_ksuf_offset K n 0 0
      in go_set_ksuf_offset K n 1 0)"

definition create_node :: "'n merge_ops \<Rightarrow> merge_alloc \<Rightarrow> merge_task \<Rightarrow> 'n merge_heap \<Rightarrow> 'n merge_heap outcome" where
  "create_node K A t st =
     (let p = al_addr A (mh_next st);
          raw = al_raw A (mh_next st);
          (n, tasks) =
            (if ikey_m t = ikey_n t \<and> ikeylen_m t = ikeylen_n t then
               (one_layer K raw t,
                [task_item_n (next_layer (ksuf_n t) 0 (length (ksuf_n t))) (lv_n t)
                   (task_item_m (next_layer (ksuf_m t) 0 (length (ksuf_m t))) (lv_m t)
                     (new_task\<lparr>task := 2, parent_node := p, parent_node_pos := 0\<rparr>))])
             else (two_items K raw t, []))
      in if parent_node t = 0 then Returns_False
         else set_parent K t p (st\<lparr>mh_heap := (mh_heap st)(p \<mapsto> n), mh_task := mh_task st @ tasks, mh_next := mh_next st + 1\<rparr>))"

section \<open>The queue\<close>

partial_function (option) merge_run ::
  "'n merge_ops \<Rightarrow> merge_alloc \<Rightarrow> nat \<Rightarrow> 'n merge_heap \<Rightarrow> 'n merge_heap outcome option" where
  "merge_run K A cur_pos st =
     (if cur_pos < length (mh_task st) then
        (let t = mh_task st ! cur_pos;
             result = (if task t = 0 then merge_nodes K A t st
                       else if task t = 1 then add_item_to_node K A t st
                       else if task t = 2 then create_node K A t st
                       else Returns_False)
         in case result of
              Goes_On st \<Rightarrow> merge_run K A (cur_pos + 1) st
            | Returns_False \<Rightarrow> Some Returns_False
            | Undefined \<Rightarrow> Some Undefined)
      else Some (Goes_On st))"

declare merge_run.simps [code]

definition st_merge ::
  "'n merge_ops \<Rightarrow> merge_alloc \<Rightarrow> 'n node_heap \<Rightarrow> u64 \<Rightarrow> u64 \<Rightarrow> 'n merge_heap outcome option" where
  "st_merge K A h merge_root root =
     (let t = new_task\<lparr>task := 0, parent_node := 0, task_m := merge_root, task_n := root\<rparr>
      in merge_run K A 0 \<lparr>mh_heap = h, mh_root = root, mh_task = [t], mh_next = 0\<rparr>)"

definition stcursor_merge ::
  "merge_alloc \<Rightarrow> massnode node_heap \<Rightarrow> u64 \<Rightarrow> u64 \<Rightarrow> massnode merge_heap outcome option" where
  "stcursor_merge = st_merge mn_merge_ops"

definition stcursor_merge_dynamicvalue ::
  "merge_alloc \<Rightarrow> massnode_dynamicvalue node_heap \<Rightarrow> u64 \<Rightarrow> u64 \<Rightarrow> massnode_dynamicvalue merge_heap outcome option" where
  "stcursor_merge_dynamicvalue = st_merge md_merge_ops"

end
