(* ===== verification/Merge_Block.thy ===== *)
theory Merge_Block
  imports Merge_Static
begin

text \<open>
  The merge of two nodes inside the block of one of them refines a merge of two lists of slots:
  \<open>merge_slots\<close>. The block is read as five arrays (\<open>view\<close>); what was written is a prefix of each
  array, what is still to be read of \<open>n\<close> a suffix, and the prefix never reaches the suffix.
\<close>

section \<open>The merge of two lists of slots\<close>

text \<open>A slot that is kept, or one whose value comes from a task, here without its parent.\<close>

datatype merged = Kept node_slot | Below byte u64 merge_task

fun mg_kl :: "merged \<Rightarrow> byte" where
  "mg_kl (Kept r) = slot_kl r"
| "mg_kl (Below kl ik tt) = kl"

fun mg_ik :: "merged \<Rightarrow> u64" where
  "mg_ik (Kept r) = slot_ikey r"
| "mg_ik (Below kl ik tt) = ik"

fun mg_suf :: "merged \<Rightarrow> byte list" where
  "mg_suf (Kept r) = slot_suf r"
| "mg_suf (Below kl ik tt) = []"

fun mg_lv :: "merged \<Rightarrow> u64 \<Rightarrow> bool" where
  "mg_lv (Kept r) x \<longleftrightarrow> x = slot_lv r"
| "mg_lv (Below kl ik tt) x \<longleftrightarrow> True"

definition next_item :: "byte list \<Rightarrow> byte \<times> u64 \<times> byte list" where
  "next_item suf = (convert_to_ikeylen (length suf), slice_of suf, drop 8 suf)"

definition same_suffix :: "byte list \<Rightarrow> byte list \<Rightarrow> bool" where
  "same_suffix xs ys \<longleftrightarrow> length xs = length ys \<and> strncmp_0 xs ys (length xs)"

definition merge_same :: "bool \<Rightarrow> node_slot \<Rightarrow> node_slot \<Rightarrow> merged outcome" where
  "merge_same replaces m n =
     (if keylenx_is_layer (slot_kl m) \<and> keylenx_is_layer (slot_kl n)
      then Goes_On (Below (slot_kl n) (slot_ikey n) (new_task\<lparr>task := 0, task_m := slot_lv m, task_n := slot_lv n\<rparr>))
      else if keylenx_is_layer (slot_kl n)
      then Goes_On (Below (slot_kl n) (slot_ikey n)
        (task_item_m (next_item (slot_suf m)) (slot_lv m) (new_task\<lparr>task := 1, task_n := slot_lv n\<rparr>)))
      else if keylenx_is_layer (slot_kl m)
      then Goes_On (Below (slot_kl m) (slot_ikey m)
        (task_item_m (next_item (slot_suf n)) (slot_lv n) (new_task\<lparr>task := 1, task_n := slot_lv m\<rparr>)))
      else if same_suffix (slot_suf m) (slot_suf n)
      then (if replaces then Goes_On (Kept m) else Returns_False)
      else Goes_On (Below (slot_kl n + 64) (slot_ikey n)
        (task_item_n (next_item (slot_suf n)) (slot_lv n)
          (task_item_m (next_item (slot_suf m)) (slot_lv m) (new_task\<lparr>task := 2\<rparr>)))))"

definition slot_before :: "node_slot \<Rightarrow> node_slot \<Rightarrow> bool" where
  "slot_before r q \<longleftrightarrow> slot_ikey r < slot_ikey q \<or>
     slot_ikey r = slot_ikey q \<and> keylenx_ikeylen (slot_kl r) < keylenx_ikeylen (slot_kl q)"

definition and_cons :: "merged \<Rightarrow> merged list outcome \<Rightarrow> merged list outcome" where
  "and_cons r x = and_then x (\<lambda>rs. Goes_On (r # rs))"

fun merge_slots :: "bool \<Rightarrow> node_slot list \<Rightarrow> node_slot list \<Rightarrow> merged list outcome" where
  "merge_slots replaces [] ns = Goes_On (map Kept ns)"
| "merge_slots replaces ms [] = Goes_On (map Kept ms)"
| "merge_slots replaces (m # ms) (n # ns) =
     (if slot_kl n = 0 then merge_slots replaces (m # ms) ns
      else if slot_before m n then and_cons (Kept m) (merge_slots replaces ms (n # ns))
      else if slot_before n m then and_cons (Kept n) (merge_slots replaces (m # ms) ns)
      else and_then (merge_same replaces m n) (\<lambda>r. and_cons r (merge_slots replaces ms ns)))"

section \<open>A block as five arrays\<close>

record arrays =
  a_kl :: "byte list"
  a_ik :: "u64 list"
  a_lv :: "u64 list"
  a_off :: "nat list"
  a_suf :: "byte list"

definition view :: "nat \<Rightarrow> nat \<Rightarrow> byte list \<Rightarrow> arrays" where
  "view h K mem =
     \<lparr>a_kl = map (\<lambda>i. rd8 mem (h + i)) [0..<K],
      a_ik = map (\<lambda>i. rd64 mem (h + 1 * K + 8 * i)) [0..<K],
      a_lv = map (\<lambda>i. rd64 mem (h + 1 * K + 8 * K + 8 * i)) [0..<K],
      a_off = map (\<lambda>i. rd32 mem (h + 1 * K + 8 * K + 8 * K + 4 * i)) [0..<K + 1],
      a_suf = drop (h + 1 * K + 8 * K + 8 * K + 4 * (K + 1)) mem\<rparr>"

text \<open>The block holds the arrays; with suffixes, all five.\<close>

definition room :: "nat \<Rightarrow> nat \<Rightarrow> bool \<Rightarrow> byte list \<Rightarrow> bool" where
  "room h K has mem \<longleftrightarrow>
     h + 1 * K + 8 * K + 8 * K + (if has then 4 * (K + 1) else 0) \<le> length mem"

lemma drop_poke:
  "off + length ys \<le> length m \<Longrightarrow> off + length ys \<le> k \<Longrightarrow> drop k (poke m off ys) = drop k m"
  by (rule nth_equalityI) (auto simp: nth_poke)

lemma take_poke: "k \<le> off \<Longrightarrow> k \<le> length m \<Longrightarrow> take k (poke m off ys) = take k m"
  by (simp add: poke_def min_def)

lemma drop_poke_inside:
  "a + length ys + k \<le> length m \<Longrightarrow> drop k (poke m (k + a) ys) = poke (drop k m) a ys"
  by (rule nth_equalityI) (auto simp: nth_poke add.commute add.left_commute)

lemma view_kl:
  assumes "room h K has mem" "p < K"
  shows "a_kl (view h K (wr8 mem (h + p) x)) = (a_kl (view h K mem))[p := x]"
    and "a_ik (view h K (wr8 mem (h + p) x)) = a_ik (view h K mem)"
    and "a_lv (view h K (wr8 mem (h + p) x)) = a_lv (view h K mem)"
    and "has \<Longrightarrow> a_off (view h K (wr8 mem (h + p) x)) = a_off (view h K mem)"
    and "has \<Longrightarrow> a_suf (view h K (wr8 mem (h + p) x)) = a_suf (view h K mem)"
    and "length (wr8 mem (h + p) x) = length mem"
proof -
  have len: "h + 1 * K + 8 * K + 8 * K \<le> length mem" "has \<Longrightarrow> h + 1 * K + 8 * K + 8 * K + 4 * (K + 1) \<le> length mem"
    using assms(1) by (auto simp: room_def split: if_splits)
  show "a_kl (view h K (wr8 mem (h + p) x)) = (a_kl (view h K mem))[p := x]"
    by (rule nth_equalityI) (use len assms(2) in \<open>auto simp: view_def nth_list_update layout_simps\<close>)
  show "a_ik (view h K (wr8 mem (h + p) x)) = a_ik (view h K mem)"
    "a_lv (view h K (wr8 mem (h + p) x)) = a_lv (view h K mem)"
    using len assms(2) by (auto simp: view_def layout_simps)
  show "a_off (view h K (wr8 mem (h + p) x)) = a_off (view h K mem)" if has
    using len(2) [OF that] assms(2) by (auto simp: view_def layout_simps simp del: upt_Suc)
  show "a_suf (view h K (wr8 mem (h + p) x)) = a_suf (view h K mem)" if has
    using len(2) [OF that] assms(2) by (simp add: view_def wr8_def drop_poke)
  show "length (wr8 mem (h + p) x) = length mem" using len assms(2) by simp
qed
lemma view_ik:
  assumes "room h K has mem" "p < K"
  shows "a_kl (view h K (wr64 mem (h + 1 * K + 8 * p) x)) = a_kl (view h K mem)"
    and "a_ik (view h K (wr64 mem (h + 1 * K + 8 * p) x)) = (a_ik (view h K mem))[p := x]"
    and "a_lv (view h K (wr64 mem (h + 1 * K + 8 * p) x)) = a_lv (view h K mem)"
    and "has \<Longrightarrow> a_off (view h K (wr64 mem (h + 1 * K + 8 * p) x)) = a_off (view h K mem)"
    and "has \<Longrightarrow> a_suf (view h K (wr64 mem (h + 1 * K + 8 * p) x)) = a_suf (view h K mem)"
    and "length (wr64 mem (h + 1 * K + 8 * p) x) = length mem"
proof -
  have len: "h + 1 * K + 8 * K + 8 * K \<le> length mem" "has \<Longrightarrow> h + 1 * K + 8 * K + 8 * K + 4 * (K + 1) \<le> length mem"
    using assms(1) by (auto simp: room_def split: if_splits)
  show "a_kl (view h K (wr64 mem (h + 1 * K + 8 * p) x)) = a_kl (view h K mem)"
    "a_lv (view h K (wr64 mem (h + 1 * K + 8 * p) x)) = a_lv (view h K mem)"
    using len assms(2) by (auto simp: view_def layout_simps)
  show "a_ik (view h K (wr64 mem (h + 1 * K + 8 * p) x)) = (a_ik (view h K mem))[p := x]"
    by (rule nth_equalityI) (use len assms(2) in \<open>auto simp: view_def nth_list_update layout_simps\<close>)
  show "a_off (view h K (wr64 mem (h + 1 * K + 8 * p) x)) = a_off (view h K mem)" if has
    using len(2) [OF that] assms(2) by (auto simp: view_def layout_simps simp del: upt_Suc)
  show "a_suf (view h K (wr64 mem (h + 1 * K + 8 * p) x)) = a_suf (view h K mem)" if has
    using len(2) [OF that] assms(2) by (simp add: view_def wr64_def drop_poke)
  show "length (wr64 mem (h + 1 * K + 8 * p) x) = length mem" using len assms(2) by simp
qed

lemma view_lv:
  assumes "room h K has mem" "p < K"
  shows "a_kl (view h K (wr64 mem (h + 1 * K + 8 * K + 8 * p) x)) = a_kl (view h K mem)"
    and "a_ik (view h K (wr64 mem (h + 1 * K + 8 * K + 8 * p) x)) = a_ik (view h K mem)"
    and "a_lv (view h K (wr64 mem (h + 1 * K + 8 * K + 8 * p) x)) = (a_lv (view h K mem))[p := x]"
    and "has \<Longrightarrow> a_off (view h K (wr64 mem (h + 1 * K + 8 * K + 8 * p) x)) = a_off (view h K mem)"
    and "has \<Longrightarrow> a_suf (view h K (wr64 mem (h + 1 * K + 8 * K + 8 * p) x)) = a_suf (view h K mem)"
    and "length (wr64 mem (h + 1 * K + 8 * K + 8 * p) x) = length mem"
proof -
  have len: "h + 1 * K + 8 * K + 8 * K \<le> length mem" "has \<Longrightarrow> h + 1 * K + 8 * K + 8 * K + 4 * (K + 1) \<le> length mem"
    using assms(1) by (auto simp: room_def split: if_splits)
  show "a_kl (view h K (wr64 mem (h + 1 * K + 8 * K + 8 * p) x)) = a_kl (view h K mem)"
    "a_ik (view h K (wr64 mem (h + 1 * K + 8 * K + 8 * p) x)) = a_ik (view h K mem)"
    using len assms(2) by (auto simp: view_def layout_simps)
  show "a_lv (view h K (wr64 mem (h + 1 * K + 8 * K + 8 * p) x)) = (a_lv (view h K mem))[p := x]"
    by (rule nth_equalityI) (use len assms(2) in \<open>auto simp: view_def nth_list_update layout_simps\<close>)
  show "a_off (view h K (wr64 mem (h + 1 * K + 8 * K + 8 * p) x)) = a_off (view h K mem)" if has
    using len(2) [OF that] assms(2) by (auto simp: view_def layout_simps simp del: upt_Suc)
  show "a_suf (view h K (wr64 mem (h + 1 * K + 8 * K + 8 * p) x)) = a_suf (view h K mem)" if has
    using len(2) [OF that] assms(2) by (simp add: view_def wr64_def drop_poke)
  show "length (wr64 mem (h + 1 * K + 8 * K + 8 * p) x) = length mem" using len assms(2) by simp
qed

lemma view_off:
  assumes "room h K True mem" "p \<le> K" "x < 2 ^ 32"
  shows "a_kl (view h K (wr32 mem (h + 1 * K + 8 * K + 8 * K + 4 * p) x)) = a_kl (view h K mem)"
    and "a_ik (view h K (wr32 mem (h + 1 * K + 8 * K + 8 * K + 4 * p) x)) = a_ik (view h K mem)"
    and "a_lv (view h K (wr32 mem (h + 1 * K + 8 * K + 8 * K + 4 * p) x)) = a_lv (view h K mem)"
    and "a_off (view h K (wr32 mem (h + 1 * K + 8 * K + 8 * K + 4 * p) x)) = (a_off (view h K mem))[p := x]"
    and "a_suf (view h K (wr32 mem (h + 1 * K + 8 * K + 8 * K + 4 * p) x)) = a_suf (view h K mem)"
    and "length (wr32 mem (h + 1 * K + 8 * K + 8 * K + 4 * p) x) = length mem"
proof -
  have len: "h + 1 * K + 8 * K + 8 * K + 4 * (K + 1) \<le> length mem"
    using assms(1) by (simp add: room_def)
  show "a_kl (view h K (wr32 mem (h + 1 * K + 8 * K + 8 * K + 4 * p) x)) = a_kl (view h K mem)"
    "a_ik (view h K (wr32 mem (h + 1 * K + 8 * K + 8 * K + 4 * p) x)) = a_ik (view h K mem)"
    "a_lv (view h K (wr32 mem (h + 1 * K + 8 * K + 8 * K + 4 * p) x)) = a_lv (view h K mem)"
    using len assms(2) by (auto simp: view_def layout_simps)
  show "a_off (view h K (wr32 mem (h + 1 * K + 8 * K + 8 * K + 4 * p) x)) = (a_off (view h K mem))[p := x]"
    by (rule nth_equalityI)
      (use len assms(2,3) in \<open>auto simp: view_def nth_list_update layout_simps less_Suc_eq_le simp del: upt_Suc\<close>)
  show "a_suf (view h K (wr32 mem (h + 1 * K + 8 * K + 8 * K + 4 * p) x)) = a_suf (view h K mem)"
    using len assms(2) by (simp add: view_def wr32_def drop_poke)
  show "length (wr32 mem (h + 1 * K + 8 * K + 8 * K + 4 * p) x) = length mem" using len assms(2) by simp
qed

lemma view_suf:
  assumes "room h K True mem" "h + 1 * K + 8 * K + 8 * K + 4 * (K + 1) + a + length ys \<le> length mem"
  shows "a_kl (view h K (poke mem (h + 1 * K + 8 * K + 8 * K + 4 * (K + 1) + a) ys)) = a_kl (view h K mem)"
    and "a_ik (view h K (poke mem (h + 1 * K + 8 * K + 8 * K + 4 * (K + 1) + a) ys)) = a_ik (view h K mem)"
    and "a_lv (view h K (poke mem (h + 1 * K + 8 * K + 8 * K + 4 * (K + 1) + a) ys)) = a_lv (view h K mem)"
    and "a_off (view h K (poke mem (h + 1 * K + 8 * K + 8 * K + 4 * (K + 1) + a) ys)) = a_off (view h K mem)"
    and "a_suf (view h K (poke mem (h + 1 * K + 8 * K + 8 * K + 4 * (K + 1) + a) ys)) = poke (a_suf (view h K mem)) a ys"
    and "length (poke mem (h + 1 * K + 8 * K + 8 * K + 4 * (K + 1) + a) ys) = length mem"
  using assms
  by (auto simp: view_def rd8_def rd32_def rd64_def nth_poke peek_poke_other drop_poke_inside simp del: upt_Suc)

section \<open>Nodes and merge states, read as arrays\<close>

definition sufs :: "node_slot list \<Rightarrow> byte list" where
  "sufs xs = concat (map slot_suf xs)"

lemma suf_offset_sufs: "suf_offset xs i = length (sufs (take i xs))"
  by (simp add: suf_offset_def sufs_def)

text \<open>The slots \<open>xs\<close> are in the arrays that start at \<open>ap\<close>; without suffix arrays no slot has a suffix.\<close>

definition packed_at :: "bool \<Rightarrow> byte list \<Rightarrow> array_pos \<Rightarrow> node_slot list \<Rightarrow> bool" where
  "packed_at has mem ap xs \<longleftrightarrow>
     (\<forall>i < length xs. rd8 mem (at_ikeylen ap + i) = slot_kl (xs ! i) \<and>
        rd64 mem (at_ikey ap + 8 * i) = slot_ikey (xs ! i) \<and> rd64 mem (at_lv ap + 8 * i) = slot_lv (xs ! i)) \<and>
     (if has then (\<forall>i \<le> length xs. rd32 mem (at_ksuf_offset ap + 4 * i) = suf_offset xs i) \<and>
        at_ksuf ap + length (sufs xs) \<le> length mem \<and> peek mem (at_ksuf ap) (length (sufs xs)) = sufs xs
      else sufs xs = [])"

abbreviation KK :: "node_slot list \<Rightarrow> node_slot list \<Rightarrow> nat" where
  "KK M N \<equiv> length M + length N"

definition env_ok :: "nat \<Rightarrow> bool \<Rightarrow> node_slot list \<Rightarrow> node_slot list \<Rightarrow> merge_env \<Rightarrow> bool" where
  "env_ok h has M N E \<longleftrightarrow>
     me_m_nkeys E = length M \<and> me_n_nkeys E = length N \<and> me_hasKsuf E = has \<and>
     me_newp E = startpos h (KK M N) \<and> packed_at has (me_m E) (me_mp E) M \<and>
     at_ikeylen (me_np E) = h + length M \<and>
     at_ikey (me_np E) = h + 1 * KK M N + 8 * length M \<and>
     at_lv (me_np E) = h + 1 * KK M N + 8 * KK M N + 8 * length M \<and>
     at_ksuf_offset (me_np E) = h + 1 * KK M N + 8 * KK M N + 8 * KK M N + 4 * length M \<and>
     (has \<longrightarrow> at_ksuf (me_np E) = h + 1 * KK M N + 8 * KK M N + 8 * KK M N + 4 * (KK M N + 1) + length (sufs M)) \<and>
     length (sufs M) + length (sufs N) < 2 ^ 31"

definition vw :: "nat \<Rightarrow> node_slot list \<Rightarrow> node_slot list \<Rightarrow> merge_state \<Rightarrow> arrays" where
  "vw h M N s = view h (KK M N) (ms_mem s)"

definition room_for :: "nat \<Rightarrow> bool \<Rightarrow> node_slot list \<Rightarrow> node_slot list \<Rightarrow> merge_state \<Rightarrow> bool" where
  "room_for h has M N s \<longleftrightarrow> length (ms_mem s) =
     h + 1 * KK M N + 8 * KK M N + 8 * KK M N +
       (if has then 4 * (KK M N + 1) + length (sufs M) + length (sufs N) else 0)"

lemma room_room: "room_for h has M N s \<Longrightarrow> room h (KK M N) has (ms_mem s)"
  by (simp add: room_for_def room_def)

lemma put_kl_view:
  assumes "env_ok h has M N E" "room_for h has M N s" "new_n_pos s < KK M N"
  shows "a_kl (vw h M N (put_kl E x s)) = (a_kl (vw h M N s))[new_n_pos s := x]"
    and "a_ik (vw h M N (put_kl E x s)) = a_ik (vw h M N s)"
    and "a_lv (vw h M N (put_kl E x s)) = a_lv (vw h M N s)"
    and "has \<Longrightarrow> a_off (vw h M N (put_kl E x s)) = a_off (vw h M N s)"
    and "has \<Longrightarrow> a_suf (vw h M N (put_kl E x s)) = a_suf (vw h M N s)"
    and "room_for h has M N (put_kl E x s)"
proof -
  have "at_ikeylen (me_newp E) = h" using assms(1) by (simp add: env_ok_def startpos_def Let_def)
  then have put: "ms_mem (put_kl E x s) = wr8 (ms_mem s) (h + new_n_pos s) x" by (simp add: put_kl_def)
  note v = view_kl [OF room_room [OF assms(2)] assms(3)]
  show "a_kl (vw h M N (put_kl E x s)) = (a_kl (vw h M N s))[new_n_pos s := x]"
    "a_ik (vw h M N (put_kl E x s)) = a_ik (vw h M N s)"
    "a_lv (vw h M N (put_kl E x s)) = a_lv (vw h M N s)"
    "has \<Longrightarrow> a_off (vw h M N (put_kl E x s)) = a_off (vw h M N s)"
    "has \<Longrightarrow> a_suf (vw h M N (put_kl E x s)) = a_suf (vw h M N s)"
    unfolding vw_def put by (fact v)+
  show "room_for h has M N (put_kl E x s)" using assms(2) unfolding room_for_def put v(6) .
qed

lemma put_ik_view:
  assumes "env_ok h has M N E" "room_for h has M N s" "new_n_pos s < KK M N"
  shows "a_kl (vw h M N (put_ik E x s)) = a_kl (vw h M N s)"
    and "a_ik (vw h M N (put_ik E x s)) = (a_ik (vw h M N s))[new_n_pos s := x]"
    and "a_lv (vw h M N (put_ik E x s)) = a_lv (vw h M N s)"
    and "has \<Longrightarrow> a_off (vw h M N (put_ik E x s)) = a_off (vw h M N s)"
    and "has \<Longrightarrow> a_suf (vw h M N (put_ik E x s)) = a_suf (vw h M N s)"
    and "room_for h has M N (put_ik E x s)"
proof -
  have "at_ikey (me_newp E) = h + 1 * KK M N" using assms(1) by (simp add: env_ok_def startpos_def Let_def)
  then have put: "ms_mem (put_ik E x s) = wr64 (ms_mem s) (h + 1 * KK M N + 8 * new_n_pos s) x"
    by (simp add: put_ik_def)
  note v = view_ik [OF room_room [OF assms(2)] assms(3)]
  show "a_kl (vw h M N (put_ik E x s)) = a_kl (vw h M N s)"
    "a_ik (vw h M N (put_ik E x s)) = (a_ik (vw h M N s))[new_n_pos s := x]"
    "a_lv (vw h M N (put_ik E x s)) = a_lv (vw h M N s)"
    "has \<Longrightarrow> a_off (vw h M N (put_ik E x s)) = a_off (vw h M N s)"
    "has \<Longrightarrow> a_suf (vw h M N (put_ik E x s)) = a_suf (vw h M N s)"
    unfolding vw_def put by (fact v)+
  show "room_for h has M N (put_ik E x s)" using assms(2) unfolding room_for_def put v(6) .
qed

lemma put_lv_view:
  assumes "env_ok h has M N E" "room_for h has M N s" "new_n_pos s < KK M N"
  shows "a_kl (vw h M N (put_lv E x s)) = a_kl (vw h M N s)"
    and "a_ik (vw h M N (put_lv E x s)) = a_ik (vw h M N s)"
    and "a_lv (vw h M N (put_lv E x s)) = (a_lv (vw h M N s))[new_n_pos s := x]"
    and "has \<Longrightarrow> a_off (vw h M N (put_lv E x s)) = a_off (vw h M N s)"
    and "has \<Longrightarrow> a_suf (vw h M N (put_lv E x s)) = a_suf (vw h M N s)"
    and "room_for h has M N (put_lv E x s)"
proof -
  have "at_lv (me_newp E) = h + 1 * KK M N + 8 * KK M N" using assms(1) by (simp add: env_ok_def startpos_def Let_def)
  then have put: "ms_mem (put_lv E x s) = wr64 (ms_mem s) (h + 1 * KK M N + 8 * KK M N + 8 * new_n_pos s) x"
    by (simp add: put_lv_def)
  note v = view_lv [OF room_room [OF assms(2)] assms(3)]
  show "a_kl (vw h M N (put_lv E x s)) = a_kl (vw h M N s)"
    "a_ik (vw h M N (put_lv E x s)) = a_ik (vw h M N s)"
    "a_lv (vw h M N (put_lv E x s)) = (a_lv (vw h M N s))[new_n_pos s := x]"
    "has \<Longrightarrow> a_off (vw h M N (put_lv E x s)) = a_off (vw h M N s)"
    "has \<Longrightarrow> a_suf (vw h M N (put_lv E x s)) = a_suf (vw h M N s)"
    unfolding vw_def put by (fact v)+
  show "room_for h has M N (put_lv E x s)" using assms(2) unfolding room_for_def put v(6) .
qed

lemma put_offset_view:
  assumes "env_ok h True M N E" "room_for h True M N s" "new_n_pos s \<le> KK M N"
    and "new_n_ksuf_pos s - at_ksuf (me_newp E) = x" "x < 2 ^ 32"
  shows "a_kl (vw h M N (put_offset E s)) = a_kl (vw h M N s)"
    and "a_ik (vw h M N (put_offset E s)) = a_ik (vw h M N s)"
    and "a_lv (vw h M N (put_offset E s)) = a_lv (vw h M N s)"
    and "a_off (vw h M N (put_offset E s)) = (a_off (vw h M N s))[new_n_pos s := x]"
    and "a_suf (vw h M N (put_offset E s)) = a_suf (vw h M N s)"
    and "room_for h True M N (put_offset E s)"
proof -
  have "at_ksuf_offset (me_newp E) = h + 1 * KK M N + 8 * KK M N + 8 * KK M N"
    using assms(1) by (simp add: env_ok_def startpos_def Let_def)
  then have put: "ms_mem (put_offset E s) =
      wr32 (ms_mem s) (h + 1 * KK M N + 8 * KK M N + 8 * KK M N + 4 * new_n_pos s) x"
    by (simp add: put_offset_def assms(4))
  note v = view_off [OF room_room [OF assms(2)] assms(3,5)]
  show "a_kl (vw h M N (put_offset E s)) = a_kl (vw h M N s)"
    "a_ik (vw h M N (put_offset E s)) = a_ik (vw h M N s)"
    "a_lv (vw h M N (put_offset E s)) = a_lv (vw h M N s)"
    "a_off (vw h M N (put_offset E s)) = (a_off (vw h M N s))[new_n_pos s := x]"
    "a_suf (vw h M N (put_offset E s)) = a_suf (vw h M N s)"
    unfolding vw_def put by (fact v)+
  show "room_for h True M N (put_offset E s)" using assms(2) unfolding room_for_def put v(6) .
qed

lemma put_suffix_view:
  assumes "env_ok h True M N E" "room_for h True M N s"
    and "new_n_ksuf_pos s = at_ksuf (me_newp E) + a" "a + length ys \<le> length (sufs M) + length (sufs N)"
    and "s' = s\<lparr>ms_mem := poke (ms_mem s) (new_n_ksuf_pos s) ys\<rparr>"
  shows "a_kl (vw h M N s') = a_kl (vw h M N s)"
    and "a_ik (vw h M N s') = a_ik (vw h M N s)"
    and "a_lv (vw h M N s') = a_lv (vw h M N s)"
    and "a_off (vw h M N s') = a_off (vw h M N s)"
    and "a_suf (vw h M N s') = poke (a_suf (vw h M N s)) a ys"
    and "room_for h True M N s'"
proof -
  have at: "at_ksuf (me_newp E) = h + 1 * KK M N + 8 * KK M N + 8 * KK M N + 4 * (KK M N + 1)"
    using assms(1) by (simp add: env_ok_def startpos_def Let_def)
  have put: "ms_mem s' = poke (ms_mem s) (h + 1 * KK M N + 8 * KK M N + 8 * KK M N + 4 * (KK M N + 1) + a) ys"
    by (simp add: assms(3,5) at)
  have "h + 1 * KK M N + 8 * KK M N + 8 * KK M N + 4 * (KK M N + 1) + a + length ys \<le> length (ms_mem s)"
    using assms(2,4) by (simp add: room_for_def)
  note v = view_suf [OF room_room [OF assms(2)] this]
  show "a_kl (vw h M N s') = a_kl (vw h M N s)" "a_ik (vw h M N s') = a_ik (vw h M N s)"
    "a_lv (vw h M N s') = a_lv (vw h M N s)" "a_off (vw h M N s') = a_off (vw h M N s)"
    "a_suf (vw h M N s') = poke (a_suf (vw h M N s)) a ys"
    unfolding vw_def put by (fact v)+
  show "room_for h True M N s'" using assms(2) unfolding room_for_def put v(6) .
qed

lemma vw_update [simp]:
  "vw h M N (s\<lparr>m_pos := a\<rparr>) = vw h M N s" "vw h M N (s\<lparr>n_pos := a\<rparr>) = vw h M N s"
  "vw h M N (s\<lparr>new_n_pos := a\<rparr>) = vw h M N s" "vw h M N (s\<lparr>m_ksuf_pos := a\<rparr>) = vw h M N s"
  "vw h M N (s\<lparr>n_ksuf_pos := a\<rparr>) = vw h M N s" "vw h M N (s\<lparr>new_n_ksuf_pos := a\<rparr>) = vw h M N s"
  "vw h M N (s\<lparr>ms_task := ts\<rparr>) = vw h M N s" "vw h M N (push_task E t s) = vw h M N s"
  by (simp_all add: vw_def push_task_def)

lemma room_update [simp]:
  "room_for h has M N (s\<lparr>m_pos := a\<rparr>) = room_for h has M N s" "room_for h has M N (s\<lparr>n_pos := a\<rparr>) = room_for h has M N s"
  "room_for h has M N (s\<lparr>new_n_pos := a\<rparr>) = room_for h has M N s" "room_for h has M N (s\<lparr>m_ksuf_pos := a\<rparr>) = room_for h has M N s"
  "room_for h has M N (s\<lparr>n_ksuf_pos := a\<rparr>) = room_for h has M N s" "room_for h has M N (s\<lparr>new_n_ksuf_pos := a\<rparr>) = room_for h has M N s"
  "room_for h has M N (s\<lparr>ms_task := ts\<rparr>) = room_for h has M N s" "room_for h has M N (push_task E t s) = room_for h has M N s"
  by (simp_all add: room_for_def push_task_def)

lemma put_fields [simp]:
  "m_ksuf_pos (put_kl E x s) = m_ksuf_pos s" "n_ksuf_pos (put_kl E x s) = n_ksuf_pos s"
  "new_n_ksuf_pos (put_kl E x s) = new_n_ksuf_pos s" "ms_task (put_kl E x s) = ms_task s"
  "m_ksuf_pos (put_ik E y s) = m_ksuf_pos s" "n_ksuf_pos (put_ik E y s) = n_ksuf_pos s"
  "new_n_ksuf_pos (put_ik E y s) = new_n_ksuf_pos s" "ms_task (put_ik E y s) = ms_task s"
  "m_ksuf_pos (put_lv E y s) = m_ksuf_pos s" "n_ksuf_pos (put_lv E y s) = n_ksuf_pos s"
  "new_n_ksuf_pos (put_lv E y s) = new_n_ksuf_pos s" "ms_task (put_lv E y s) = ms_task s"
  "m_ksuf_pos (put_offset E s) = m_ksuf_pos s" "n_ksuf_pos (put_offset E s) = n_ksuf_pos s"
  "new_n_ksuf_pos (put_offset E s) = new_n_ksuf_pos s" "ms_task (put_offset E s) = ms_task s"
  "m_ksuf_pos (push_task E t s) = m_ksuf_pos s" "n_ksuf_pos (push_task E t s) = n_ksuf_pos s"
  "new_n_ksuf_pos (push_task E t s) = new_n_ksuf_pos s"
  "m_kl E (put_kl E' x s) = m_kl E s" "m_kl E (put_ik E' y s) = m_kl E s" "m_kl E (put_lv E' y s) = m_kl E s"
  "m_ik E (put_kl E' x s) = m_ik E s" "m_ik E (put_ik E' y s) = m_ik E s" "m_ik E (put_lv E' y s) = m_ik E s"
  "m_lv E (put_kl E' x s) = m_lv E s" "m_lv E (put_ik E' y s) = m_lv E s" "m_lv E (put_lv E' y s) = m_lv E s"
  "m_lv E (put_offset E' s) = m_lv E s"
  "m_len E (put_kl E' x s) = m_len E s" "m_len E (put_ik E' y s) = m_len E s" "m_len E (put_lv E' y s) = m_len E s"
  "m_len E (put_offset E' s) = m_len E s"
  by (simp_all add: put_kl_def put_ik_def put_lv_def put_offset_def push_task_def m_kl_def m_ik_def m_lv_def m_len_def)

lemma vw_length [simp]:
  "length (a_kl (vw h M N s)) = KK M N" "length (a_ik (vw h M N s)) = KK M N" "length (a_lv (vw h M N s)) = KK M N"
  "length (a_off (vw h M N s)) = KK M N + 1"
  by (simp_all add: vw_def view_def)

lemma vw_length_suf:
  "room_for h True M N s \<Longrightarrow> length (a_suf (vw h M N s)) = length (sufs M) + length (sufs N)"
  by (simp add: vw_def view_def room_for_def)

section \<open>What was written, and what is still to be read\<close>

definition mg_sufs :: "merged list \<Rightarrow> byte list" where
  "mg_sufs R = concat (map mg_suf R)"

definition mg_offs :: "merged list \<Rightarrow> nat list" where
  "mg_offs R = map (\<lambda>i. length (mg_sufs (take i R))) [0..<length R]"

lemma mg_sufs_snoc [simp]: "mg_sufs (R @ [r]) = mg_sufs R @ mg_suf r"
  by (simp add: mg_sufs_def)

lemma mg_offs_snoc: "mg_offs (R @ [r]) = mg_offs R @ [length (mg_sufs R)]"
  by (simp add: mg_offs_def)

lemma length_mg_offs [simp]: "length (mg_offs R) = length R"
  by (simp add: mg_offs_def)

definition new_part :: "bool \<Rightarrow> merged list \<Rightarrow> arrays \<Rightarrow> bool" where
  "new_part has R v \<longleftrightarrow>
     take (length R) (a_kl v) = map mg_kl R \<and> take (length R) (a_ik v) = map mg_ik R \<and>
     list_all2 mg_lv R (take (length R) (a_lv v)) \<and>
     (if has then take (length R) (a_off v) = mg_offs R \<and> take (length (mg_sufs R)) (a_suf v) = mg_sufs R
      else mg_sufs R = [])"

definition n_part :: "bool \<Rightarrow> node_slot list \<Rightarrow> node_slot list \<Rightarrow> nat \<Rightarrow> arrays \<Rightarrow> bool" where
  "n_part has M N j v \<longleftrightarrow>
     drop (length M + j) (a_kl v) = map slot_kl (drop j N) \<and> drop (length M + j) (a_ik v) = map slot_ikey (drop j N) \<and>
     drop (length M + j) (a_lv v) = map slot_lv (drop j N) \<and>
     (if has then drop (length M + j) (a_off v) = map (suf_offset N) [j..<length N + 1] \<and>
        drop (length (sufs M) + suf_offset N j) (a_suf v) = sufs (drop j N)
      else sufs N = [])"

lemma suf_offset_mono: "i \<le> j \<Longrightarrow> suf_offset xs i \<le> suf_offset xs j"
proof -
  assume "i \<le> j"
  then have "take j xs = take i xs @ take (j - i) (drop i xs)" by (metis le_add_diff_inverse take_add)
  then show ?thesis by (simp add: suf_offset_def)
qed

lemma suf_offset_drop: "i \<le> j \<Longrightarrow> suf_offset xs j - suf_offset xs i = length (sufs (take (j - i) (drop i xs)))"
proof -
  assume "i \<le> j"
  then have "take j xs = take i xs @ take (j - i) (drop i xs)" by (metis le_add_diff_inverse take_add)
  then show ?thesis by (simp add: suf_offset_def sufs_def)
qed

lemma sufs_split: "sufs xs = sufs (take i xs) @ sufs (drop i xs)"
  unfolding sufs_def by (metis append_take_drop_id concat_append map_append)

lemma drop_sufs: "drop (suf_offset xs i) (sufs xs) = sufs (drop i xs)"
proof -
  have "drop (suf_offset xs i) (sufs xs) = drop (suf_offset xs i) (sufs (take i xs) @ sufs (drop i xs))"
    by (simp only: sufs_split [of xs i, symmetric])
  then show ?thesis by (simp add: suf_offset_sufs)
qed

lemma take_sufs: "i < length xs \<Longrightarrow> take (length (slot_suf (xs ! i))) (sufs (drop i xs)) = slot_suf (xs ! i)"
  by (simp add: sufs_def Cons_nth_drop_Suc [symmetric])

lemma suf_offset_all: "suf_offset xs (length xs) = length (sufs xs)"
  by (simp add: suf_offset_sufs)

lemma n_part_mono:
  assumes "n_part has M N j v" "j \<le> k" "k \<le> length N"
  shows "n_part has M N k v"
proof -
  have d: "drop (length M + k) xs = drop (k - j) (drop (length M + j) xs)" for xs :: "'x list"
    using assms(2) by (simp add: add.commute)
  have k: "k = j + (k - j)" using assms(2) by simp
  have kl: "drop (length M + k) (a_kl v) = map slot_kl (drop k N)"
    "drop (length M + k) (a_ik v) = map slot_ikey (drop k N)"
    "drop (length M + k) (a_lv v) = map slot_lv (drop k N)"
    using assms(1) assms(2) unfolding d n_part_def by (simp_all add: drop_map)
  have off: "drop (length M + k) (a_off v) = map (suf_offset N) [k..<length N + 1]" if has
    using assms(1) assms(2) that unfolding d n_part_def by (simp add: drop_map del: upt_Suc)
  have "drop (length (sufs M) + suf_offset N k) (a_suf v) = sufs (drop k N)" if has
  proof -
    have s: "drop (length (sufs M) + suf_offset N j) (a_suf v) = sufs (drop j N)"
      using assms(1) that by (simp add: n_part_def)
    have "suf_offset N j \<le> suf_offset N k" by (rule suf_offset_mono [OF assms(2)])
    then have "drop (length (sufs M) + suf_offset N k) (a_suf v) =
        drop (suf_offset N k - suf_offset N j) (drop (length (sufs M) + suf_offset N j) (a_suf v))"
      by (simp add: add.commute)
    also have "\<dots> = drop (suf_offset N k - suf_offset N j) (sufs (drop j N))" by (simp only: s)
    also have "\<dots> = drop (suf_offset N k - suf_offset N j) (drop (suf_offset N j) (sufs N))" by (simp only: drop_sufs)
    also have "\<dots> = drop (suf_offset N k) (sufs N)"
      unfolding drop_drop using \<open>suf_offset N j \<le> suf_offset N k\<close> by simp
    also have "\<dots> = sufs (drop k N)" by (rule drop_sufs)
    finally show ?thesis .
  qed
  with kl off assms(1) show ?thesis by (simp add: n_part_def)
qed

lemma n_part_frame:
  assumes "n_part has M N j v" "p < length M + j"
    and "a_kl v' = (a_kl v)[p := x]" "a_ik v' = (a_ik v)[p := y]" "a_lv v' = (a_lv v)[p := z]"
    and "has \<Longrightarrow> a_off v' = (a_off v)[p := w]" "has \<Longrightarrow> a_suf v' = poke (a_suf v) a ys"
    and "has \<Longrightarrow> a + length ys \<le> length (sufs M) + suf_offset N j"
    and "has \<Longrightarrow> length (sufs M) + suf_offset N j \<le> length (a_suf v)"
  shows "n_part has M N j v'"
  using assms(1,2) assms(6-9) by (auto simp: n_part_def assms(3-5) drop_update_cancel drop_poke)

lemma take_poke_end: "length xs + length ys \<le> length m \<Longrightarrow> take (length xs) m = xs \<Longrightarrow>
   take (length xs + length ys) (poke m (length xs) ys) = xs @ ys"
  by (simp add: poke_def)

lemma new_part_snoc:
  assumes "new_part has R v" "length R < length (a_kl v)" "length (a_ik v) = length (a_kl v)"
    "length (a_lv v) = length (a_kl v)" "length (a_off v) = length (a_kl v) + 1"
    and "a_kl v' = (a_kl v)[length R := mg_kl r]" "a_ik v' = (a_ik v)[length R := mg_ik r]"
    and "a_lv v' = (a_lv v)[length R := z]" "mg_lv r z"
    and "has \<Longrightarrow> a_off v' = (a_off v)[length R := length (mg_sufs R)]"
    and "has \<Longrightarrow> a_suf v' = poke (a_suf v) (length (mg_sufs R)) (mg_suf r)"
    and "has \<Longrightarrow> length (mg_sufs R) + length (mg_suf r) \<le> length (a_suf v)"
    and "\<not> has \<Longrightarrow> mg_suf r = []"
  shows "new_part has (R @ [r]) v'"
proof -
  have t: "take (Suc (length R)) (xs[length R := x]) = take (length R) xs @ [x]" if "length R < length xs"
    for xs :: "'x list" and x
    using that by (simp add: take_Suc_conv_app_nth)
  have "list_all2 mg_lv (R @ [r]) (take (length R) (a_lv v) @ [z])"
    using assms(1,9) by (auto simp: new_part_def list_all2_append intro!: list_all2_appendI)
  moreover have "take (length (mg_sufs R) + length (mg_suf r)) (a_suf v') = mg_sufs R @ mg_suf r" if has
    using assms(1) that take_poke_end [OF assms(12) [OF that]] by (simp add: new_part_def assms(11))
  ultimately show ?thesis
    using assms(1-5,10,13) by (auto simp: new_part_def assms(6-8) t mg_offs_snoc)
qed

section \<open>Reading\<close>

lemma n_reads:
  assumes "env_ok h has M N E" "n_part has M N j (vw h M N s)" "n_pos s = j" "j < length N"
  shows "n_kl E s = slot_kl (N ! j)" and "n_ik E s = slot_ikey (N ! j)" and "n_lv E s = slot_lv (N ! j)"
    and "has \<Longrightarrow> n_len E s = length (slot_suf (N ! j))"
proof -
  let ?v = "vw h M N s"
  have first: "xs ! a = f (N ! j)" if "drop a xs = map f (drop j N)" "a < length xs" for a f and xs :: "'x list"
  proof -
    have "xs ! a = drop a xs ! 0" using that(2) by simp
    then show ?thesis using that(1) assms(4) by simp
  qed
  have E: "at_ikeylen (me_np E) = h + length M" "at_ikey (me_np E) = h + 1 * KK M N + 8 * length M"
     "at_lv (me_np E) = h + 1 * KK M N + 8 * KK M N + 8 * length M"
     "at_ksuf_offset (me_np E) = h + 1 * KK M N + 8 * KK M N + 8 * KK M N + 4 * length M"
    using assms(1) by (simp_all add: env_ok_def)
  have "n_kl E s = a_kl ?v ! (length M + j)" "n_ik E s = a_ik ?v ! (length M + j)" "n_lv E s = a_lv ?v ! (length M + j)"
    using assms(3,4) by (simp_all add: n_kl_def n_ik_def n_lv_def vw_def view_def E add.assoc algebra_simps)
  then show "n_kl E s = slot_kl (N ! j)" "n_ik E s = slot_ikey (N ! j)" "n_lv E s = slot_lv (N ! j)"
    using assms(2,4) by (simp_all add: n_part_def first)
  assume has: has
  have off: "drop (length M + j) (a_off ?v) = map (suf_offset N) [j..<length N + 1]"
    using assms(2) has by (simp add: n_part_def)
  have o: "a_off ?v ! (length M + j + d) = suf_offset N (j + d)" if "d \<le> 1" for d
  proof -
    have "a_off ?v ! (length M + j + d) = drop (length M + j) (a_off ?v) ! d" using assms(4) that by simp
    also have "\<dots> = suf_offset N (j + d)" unfolding off using assms(4) that by (simp del: upt_Suc)
    finally show ?thesis .
  qed
  have r: "rd32 (ms_mem s) (at_ksuf_offset (me_np E) + 4 * (n_pos s + d)) = a_off ?v ! (length M + j + d)" if "d \<le> 1" for d
    using assms(3,4) that
    by (simp add: vw_def view_def E nth_append algebra_simps del: upt_Suc)
  have "n_len E s = sub32 (suf_offset N (j + 1)) (suf_offset N j)"
    using r [of 0] r [of 1] o [of 0] o [of 1] by (simp add: n_len_def offset_diff_def)
  moreover have "suf_offset N (j + 1) < 2 ^ 32"
    using suf_offset_mono [of "j + 1" "length N" N] assms(1,4) by (simp add: env_ok_def suf_offset_all)
  ultimately show "n_len E s = length (slot_suf (N ! j))"
    using suf_offset_Suc [OF assms(4)] sub32_le [of "suf_offset N j" "suf_offset N (j + 1)"] by simp
qed

lemma m_reads:
  assumes "env_ok h has M N E" "m_pos s = i" "i < length M"
  shows "m_kl E s = slot_kl (M ! i)" and "m_ik E s = slot_ikey (M ! i)" and "m_lv E s = slot_lv (M ! i)"
    and "has \<Longrightarrow> m_len E s = length (slot_suf (M ! i))"
    and "has \<Longrightarrow> m_ksuf_pos s = at_ksuf (me_mp E) + suf_offset M i \<Longrightarrow>
      peek (me_m E) (m_ksuf_pos s) (length (slot_suf (M ! i))) = slot_suf (M ! i) \<and>
      m_ksuf_pos s + length (slot_suf (M ! i)) \<le> length (me_m E)"
proof -
  have m: "packed_at has (me_m E) (me_mp E) M" using assms(1) by (simp add: env_ok_def)
  show "m_kl E s = slot_kl (M ! i)" "m_ik E s = slot_ikey (M ! i)" "m_lv E s = slot_lv (M ! i)"
    using m assms(2,3) by (simp_all add: packed_at_def m_kl_def m_ik_def m_lv_def)
  assume has: has
  have o: "rd32 (me_m E) (at_ksuf_offset (me_mp E) + 4 * (m_pos s + d)) = suf_offset M (i + d)" if "d \<le> 1" for d
  proof -
    have "\<forall>k \<le> length M. rd32 (me_m E) (at_ksuf_offset (me_mp E) + 4 * k) = suf_offset M k"
      using m has by (simp add: packed_at_def)
    moreover have "i + d \<le> length M" using assms(3) that by simp
    ultimately show ?thesis unfolding assms(2) by blast
  qed
  have le: "suf_offset M (i + 1) \<le> length (sufs M)"
    using suf_offset_mono [of "i + 1" "length M" M] assms(3) by (simp add: suf_offset_all)
  then have "suf_offset M (i + 1) < 2 ^ 32" using assms(1) by (simp add: env_ok_def)
  then show "m_len E s = length (slot_suf (M ! i))"
    using o [of 0] o [of 1] suf_offset_Suc [OF assms(3)] sub32_le [of "suf_offset M i" "suf_offset M (i + 1)"]
    by (simp add: m_len_def offset_diff_def)
  assume pos: "m_ksuf_pos s = at_ksuf (me_mp E) + suf_offset M i"
  have all: "at_ksuf (me_mp E) + length (sufs M) \<le> length (me_m E)"
    "peek (me_m E) (at_ksuf (me_mp E)) (length (sufs M)) = sufs M"
    using m has by (simp_all add: packed_at_def)
  have "peek (me_m E) (m_ksuf_pos s) (length (slot_suf (M ! i))) =
      peek (peek (me_m E) (at_ksuf (me_mp E)) (length (sufs M))) (suf_offset M i) (length (slot_suf (M ! i)))"
    using le suf_offset_Suc [OF assms(3)] by (simp add: peek_def pos drop_take min_def add.commute)
  also have "\<dots> = slot_suf (M ! i)"
    unfolding all(2) using take_sufs [OF assms(3)] by (simp add: peek_def drop_sufs)
  finally show "peek (me_m E) (m_ksuf_pos s) (length (slot_suf (M ! i))) = slot_suf (M ! i) \<and>
      m_ksuf_pos s + length (slot_suf (M ! i)) \<le> length (me_m E)"
    using le suf_offset_Suc [OF assms(3)] all(1) pos by simp
qed

lemma n_suffix:
  assumes "env_ok h True M N E" "n_part True M N j (vw h M N s)" "room_for h True M N s" "j < length N"
    and "n_ksuf_pos s = at_ksuf (me_np E) + suf_offset N j"
  shows "peek (ms_mem s) (n_ksuf_pos s) (length (slot_suf (N ! j))) = slot_suf (N ! j)"
    and "n_ksuf_pos s + length (slot_suf (N ! j)) \<le> length (ms_mem s)"
proof -
  have at: "at_ksuf (me_np E) = h + 1 * KK M N + 8 * KK M N + 8 * KK M N + 4 * (KK M N + 1) + length (sufs M)"
    using assms(1) by (simp add: env_ok_def)
  have "drop (length (sufs M) + suf_offset N j) (a_suf (vw h M N s)) = sufs (drop j N)"
    using assms(2) by (simp add: n_part_def)
  then have "drop (n_ksuf_pos s) (ms_mem s) = sufs (drop j N)"
    by (simp add: assms(5) at vw_def view_def algebra_simps)
  then show "peek (ms_mem s) (n_ksuf_pos s) (length (slot_suf (N ! j))) = slot_suf (N ! j)"
    using take_sufs [OF assms(4)] by (simp add: peek_def)
  have "suf_offset N (j + 1) \<le> length (sufs N)"
    using suf_offset_mono [of "j + 1" "length N" N] assms(4) by (simp add: suf_offset_all)
  then show "n_ksuf_pos s + length (slot_suf (N ! j)) \<le> length (ms_mem s)"
    using suf_offset_Suc [OF assms(4)] assms(3) by (simp add: assms(5) at room_for_def)
qed

lemma next_layer_item: "pos + len \<le> length mem \<Longrightarrow> peek mem pos len = suf \<Longrightarrow> next_layer mem pos len = next_item suf"
proof -
  assume b: "pos + len \<le> length mem" and p: "peek mem pos len = suf"
  have "length suf = len" using b p by auto
  moreover have "drop 8 suf = (if 8 < len then peek mem (pos + 8) (len - 8) else [])"
    using p \<open>length suf = len\<close> by (auto simp: peek_def drop_take add.commute)
  ultimately show ?thesis
    using bytes_at_mem_of_peek [OF b, of 0] p by (simp add: next_layer_def next_item_def make_comparable_sloppy_eq)
qed

lemma strncmp_0_take: "strncmp_0 xs ys n = strncmp_0 (take n xs) (take n ys) n"
  by (induction xs ys n rule: strncmp_0.induct) (auto simp: take_Cons')

lemma n_view:
  assumes "env_ok h has M N E" "n_pos s < length N"
  shows "n_kl E s = a_kl (vw h M N s) ! (length M + n_pos s)"
    and "n_ik E s = a_ik (vw h M N s) ! (length M + n_pos s)"
    and "n_lv E s = a_lv (vw h M N s) ! (length M + n_pos s)"
    and "n_len E s = sub32 (a_off (vw h M N s) ! (length M + n_pos s + 1)) (a_off (vw h M N s) ! (length M + n_pos s))"
proof -
  have E: "at_ikeylen (me_np E) = h + length M" "at_ikey (me_np E) = h + 1 * KK M N + 8 * length M"
     "at_lv (me_np E) = h + 1 * KK M N + 8 * KK M N + 8 * length M"
     "at_ksuf_offset (me_np E) = h + 1 * KK M N + 8 * KK M N + 8 * KK M N + 4 * length M"
    using assms(1) by (simp_all add: env_ok_def)
  show "n_kl E s = a_kl (vw h M N s) ! (length M + n_pos s)"
    "n_ik E s = a_ik (vw h M N s) ! (length M + n_pos s)"
    "n_lv E s = a_lv (vw h M N s) ! (length M + n_pos s)"
    using assms(2) by (simp_all add: n_kl_def n_ik_def n_lv_def vw_def view_def E algebra_simps)
  show "n_len E s = sub32 (a_off (vw h M N s) ! (length M + n_pos s + 1)) (a_off (vw h M N s) ! (length M + n_pos s))"
    using assms(2) by (simp add: n_len_def offset_diff_def vw_def view_def E nth_append algebra_simps del: upt_Suc)
qed

lemma n_stable:
  assumes "env_ok h has M N E" "room_for h has M N s" "new_n_pos s < KK M N" "n_pos s < length N"
  shows "n_ik E (put_kl E x s) = n_ik E s" and "n_lv E (put_kl E x s) = n_lv E s" and "n_lv E (put_ik E y s) = n_lv E s"
    and "has \<Longrightarrow> n_len E (put_kl E x s) = n_len E s" and "has \<Longrightarrow> n_len E (put_ik E y s) = n_len E s"
    and "has \<Longrightarrow> n_len E (put_lv E y s) = n_len E s"
proof -
  have k: "n_pos (put_kl E x s) < length N" "n_pos (put_ik E y s) < length N" "n_pos (put_lv E y s) < length N"
    using assms(4) by simp_all
  show "n_ik E (put_kl E x s) = n_ik E s" "n_lv E (put_kl E x s) = n_lv E s" "n_lv E (put_ik E y s) = n_lv E s"
    by (simp_all only: n_view [OF assms(1,4)] n_view [OF assms(1) k(1)] n_view [OF assms(1) k(2)]
      put_kl_view [OF assms(1-3)] put_ik_view [OF assms(1-3)] put_pos)
  show "n_len E (put_kl E x s) = n_len E s" "n_len E (put_ik E y s) = n_len E s" "n_len E (put_lv E y s) = n_len E s" if has
    by (simp_all only: n_view [OF assms(1,4)] n_view [OF assms(1) k(1)] n_view [OF assms(1) k(2)] n_view [OF assms(1) k(3)]
      put_kl_view [OF assms(1-3)] put_ik_view [OF assms(1-3)] put_lv_view [OF assms(1-3)] put_pos that)
qed

lemma n_stable_offset:
  assumes "env_ok h True M N E" "room_for h True M N s" "n_pos s < length N" "new_n_pos s < length M + n_pos s"
    and "new_n_ksuf_pos s - at_ksuf (me_newp E) = x" "x < 2 ^ 32"
  shows "n_lv E (put_offset E s) = n_lv E s" and "n_len E (put_offset E s) = n_len E s"
proof -
  have k: "n_pos (put_offset E s) < length N" "new_n_pos s \<le> KK M N" using assms(3,4) by simp_all
  show "n_lv E (put_offset E s) = n_lv E s" "n_len E (put_offset E s) = n_len E s"
    using assms(4) by (simp_all add: n_view [OF assms(1,3)] n_view [OF assms(1) k(1)]
      put_offset_view [OF assms(1,2) k(2) assms(5,6)])
qed

section \<open>The invariant of the loops\<close>

fun mg_task :: "u64 \<Rightarrow> nat \<Rightarrow> merged \<Rightarrow> merge_task list" where
  "mg_task a i (Kept r) = []"
| "mg_task a i (Below kl ik tt) = [tt\<lparr>parent_node := a, parent_node_pos := i\<rparr>]"

definition mg_tasks :: "u64 \<Rightarrow> merged list \<Rightarrow> merge_task list" where
  "mg_tasks a R = concat (map (\<lambda>i. mg_task a i (R ! i)) [0..<length R])"

lemma mg_tasks_snoc: "mg_tasks a (R @ [r]) = mg_tasks a R @ mg_task a (length R) r"
proof -
  have e: "[0..<length (R @ [r])] = [0..<length R] @ [length R]" by simp
  have t: "map (\<lambda>i. mg_task a i ((R @ [r]) ! i)) [0..<length R] = map (\<lambda>i. mg_task a i (R ! i)) [0..<length R]"
    by (simp add: nth_append)
  show ?thesis unfolding mg_tasks_def e map_append concat_append t by simp
qed

definition merge_inv ::
  "nat \<Rightarrow> bool \<Rightarrow> node_slot list \<Rightarrow> node_slot list \<Rightarrow> merge_env \<Rightarrow> merge_state \<Rightarrow> merged list \<Rightarrow> bool" where
  "merge_inv h has M N E s R \<longleftrightarrow>
     room_for h has M N s \<and> m_pos s \<le> length M \<and> n_pos s \<le> length N \<and> new_n_pos s = length R \<and>
     length R \<le> m_pos s + n_pos s \<and> new_part has R (vw h M N s) \<and> n_part has M N (n_pos s) (vw h M N s) \<and>
     ms_task s = mg_tasks (me_n E) R \<and>
     (has \<longrightarrow> m_ksuf_pos s = at_ksuf (me_mp E) + suf_offset M (m_pos s) \<and>
        n_ksuf_pos s = at_ksuf (me_np E) + suf_offset N (n_pos s) \<and>
        new_n_ksuf_pos s = at_ksuf (me_newp E) + length (mg_sufs R) \<and>
        length (mg_sufs R) \<le> suf_offset M (m_pos s) + suf_offset N (n_pos s))"

text \<open>One more slot is written, and the read positions advance.\<close>

lemma merge_inv_snoc:
  assumes inv: "merge_inv h has M N E s R" and env: "env_ok h has M N E"
    and pos: "m_pos s \<le> m_pos s'" "m_pos s' \<le> length M" "n_pos s \<le> n_pos s'" "n_pos s' \<le> length N"
      "m_pos s + n_pos s < m_pos s' + n_pos s'" "new_n_pos s' = length R + 1"
    and v: "room_for h has M N s'" "a_kl (vw h M N s') = (a_kl (vw h M N s))[length R := mg_kl r]"
      "a_ik (vw h M N s') = (a_ik (vw h M N s))[length R := mg_ik r]"
      "a_lv (vw h M N s') = (a_lv (vw h M N s))[length R := z]" "mg_lv r z"
      "has \<Longrightarrow> a_off (vw h M N s') = (a_off (vw h M N s))[length R := length (mg_sufs R)]"
      "has \<Longrightarrow> a_suf (vw h M N s') = poke (a_suf (vw h M N s)) (length (mg_sufs R)) (mg_suf r)"
      "\<not> has \<Longrightarrow> mg_suf r = []"
    and t: "ms_task s' = ms_task s @ mg_task (me_n E) (length R) r"
    and k: "has \<Longrightarrow> m_ksuf_pos s' = at_ksuf (me_mp E) + suf_offset M (m_pos s')"
      "has \<Longrightarrow> n_ksuf_pos s' = at_ksuf (me_np E) + suf_offset N (n_pos s')"
      "has \<Longrightarrow> new_n_ksuf_pos s' = new_n_ksuf_pos s + length (mg_suf r)"
      "has \<Longrightarrow> length (mg_suf r) + suf_offset M (m_pos s) + suf_offset N (n_pos s) \<le> suf_offset M (m_pos s') + suf_offset N (n_pos s')"
  shows "merge_inv h has M N E s' (R @ [r])"
proof -
  have i: "room_for h has M N s" "length R \<le> m_pos s + n_pos s" "new_part has R (vw h M N s)"
    "n_part has M N (n_pos s) (vw h M N s)" "ms_task s = mg_tasks (me_n E) R"
    using inv by (simp_all add: merge_inv_def)
  have suf: "new_n_ksuf_pos s = at_ksuf (me_newp E) + length (mg_sufs R)"
    "length (mg_sufs R) \<le> suf_offset M (m_pos s) + suf_offset N (n_pos s)"
    "length (a_suf (vw h M N s)) = length (sufs M) + length (sufs N)" if has
    using inv i(1) vw_length_suf [of h M N s] that by (simp_all add: merge_inv_def)
  have top: "suf_offset M (m_pos s') \<le> length (sufs M)" "suf_offset N (n_pos s') \<le> length (sufs N)"
    using suf_offset_mono [OF pos(2), of M] suf_offset_mono [OF pos(4), of N] by (simp_all add: suf_offset_all)
  have p: "length R < length M + n_pos s'" "length R < KK M N" using i(2) pos by linarith+
  have lens: "length R < length (a_kl (vw h M N s))" "length (a_ik (vw h M N s)) = length (a_kl (vw h M N s))"
    "length (a_lv (vw h M N s)) = length (a_kl (vw h M N s))" "length (a_off (vw h M N s)) = length (a_kl (vw h M N s)) + 1"
    using p(2) by simp_all
  have b1: "length (mg_sufs R) + length (mg_suf r) \<le> length (a_suf (vw h M N s))" if has
    using suf(2,3) [OF that] k(4) [OF that] top by linarith
  have b2: "length (mg_sufs R) + length (mg_suf r) \<le> length (sufs M) + suf_offset N (n_pos s')" if has
    using suf(2) [OF that] k(4) [OF that] top by linarith
  have b3: "length (sufs M) + suf_offset N (n_pos s') \<le> length (a_suf (vw h M N s))" if has
    using suf(3) [OF that] top by simp
  have "new_part has (R @ [r]) (vw h M N s')"
    by (rule new_part_snoc [OF i(3) lens v(2-4,5,6,7) b1 v(8)])
  moreover have "n_part has M N (n_pos s') (vw h M N s')"
    by (rule n_part_frame [OF n_part_mono [OF i(4) pos(3,4)] p(1) v(2-4,6,7) b2 b3])
  moreover have "ms_task s' = mg_tasks (me_n E) (R @ [r])" using t i(5) by (simp add: mg_tasks_snoc)
  ultimately show ?thesis
    using pos v(1) k suf i(2) by (auto simp: merge_inv_def)
qed

section \<open>The steps\<close>

lemma put_slot_view:
  assumes "env_ok h has M N E" "room_for h has M N s" "new_n_pos s < KK M N" "s2 = put_ik E y (put_kl E x s)"
  shows "a_kl (vw h M N s2) = (a_kl (vw h M N s))[new_n_pos s := x]"
    and "a_ik (vw h M N s2) = (a_ik (vw h M N s))[new_n_pos s := y]"
    and "a_lv (vw h M N s2) = a_lv (vw h M N s)"
    and "has \<Longrightarrow> a_off (vw h M N s2) = a_off (vw h M N s)"
    and "has \<Longrightarrow> a_suf (vw h M N s2) = a_suf (vw h M N s)"
    and "room_for h has M N s2"
proof -
  note k = put_kl_view [OF assms(1-3), of x]
  have p: "new_n_pos (put_kl E x s) < KK M N" using assms(3) by simp
  note i = put_ik_view [OF assms(1) k(6) p, of y]
  show "a_kl (vw h M N s2) = (a_kl (vw h M N s))[new_n_pos s := x]"
    "a_ik (vw h M N s2) = (a_ik (vw h M N s))[new_n_pos s := y]"
    "a_lv (vw h M N s2) = a_lv (vw h M N s)"
    "has \<Longrightarrow> a_off (vw h M N s2) = a_off (vw h M N s)"
    "has \<Longrightarrow> a_suf (vw h M N s2) = a_suf (vw h M N s)"
    "room_for h has M N s2"
    unfolding assms(4) by (simp_all add: i k)
qed

lemma put_slot_lv_view:
  assumes "env_ok h has M N E" "room_for h has M N s" "new_n_pos s < KK M N"
    and "s3 = put_lv E z (put_ik E y (put_kl E x s))"
  shows "a_kl (vw h M N s3) = (a_kl (vw h M N s))[new_n_pos s := x]"
    and "a_ik (vw h M N s3) = (a_ik (vw h M N s))[new_n_pos s := y]"
    and "a_lv (vw h M N s3) = (a_lv (vw h M N s))[new_n_pos s := z]"
    and "has \<Longrightarrow> a_off (vw h M N s3) = a_off (vw h M N s)"
    and "has \<Longrightarrow> a_suf (vw h M N s3) = a_suf (vw h M N s)"
    and "room_for h has M N s3"
proof -
  note k = put_slot_view [OF assms(1-3) refl, of y x]
  have p: "new_n_pos (put_ik E y (put_kl E x s)) < KK M N" using assms(3) by simp
  note i = put_lv_view [OF assms(1) k(6) p, of z]
  show "a_kl (vw h M N s3) = (a_kl (vw h M N s))[new_n_pos s := x]"
    "a_ik (vw h M N s3) = (a_ik (vw h M N s))[new_n_pos s := y]"
    "a_lv (vw h M N s3) = (a_lv (vw h M N s))[new_n_pos s := z]"
    "has \<Longrightarrow> a_off (vw h M N s3) = a_off (vw h M N s)"
    "has \<Longrightarrow> a_suf (vw h M N s3) = a_suf (vw h M N s)"
    "room_for h has M N s3"
    unfolding assms(4) by (simp_all add: i k)
qed

lemma inv_facts:
  assumes "merge_inv h has M N E s R" "env_ok h has M N E" "m_pos s + n_pos s < KK M N"
  shows "room_for h has M N s" and "new_n_pos s = length R" and "new_n_pos s < KK M N"
    and "has \<Longrightarrow> new_n_ksuf_pos s - at_ksuf (me_newp E) = length (mg_sufs R)"
    and "has \<Longrightarrow> new_n_ksuf_pos s = at_ksuf (me_newp E) + length (mg_sufs R)"
    and "length (mg_sufs R) < 2 ^ 31" and "length (mg_sufs R) < 2 ^ 32"
    and "has \<Longrightarrow> length (mg_sufs R) \<le> suf_offset M (m_pos s) + suf_offset N (n_pos s)"
    and "n_part has M N (n_pos s) (vw h M N s)"
proof -
  show r: "room_for h has M N s" "new_n_pos s = length R" "new_n_pos s < KK M N"
    "n_part has M N (n_pos s) (vw h M N s)"
    using assms(1,3) by (auto simp: merge_inv_def)
  show "new_n_ksuf_pos s - at_ksuf (me_newp E) = length (mg_sufs R)" "new_n_ksuf_pos s = at_ksuf (me_newp E) + length (mg_sufs R)"
    "length (mg_sufs R) \<le> suf_offset M (m_pos s) + suf_offset N (n_pos s)" if has
    using assms(1) that by (simp_all add: merge_inv_def)
  show "length (mg_sufs R) < 2 ^ 31"
  proof (cases has)
    case True
    have "suf_offset M (m_pos s) \<le> length (sufs M)" "suf_offset N (n_pos s) \<le> length (sufs N)"
      using assms(1) suf_offset_mono [of "m_pos s" "length M" M] suf_offset_mono [of "n_pos s" "length N" N]
      by (simp_all add: merge_inv_def suf_offset_all)
    moreover have "length (mg_sufs R) \<le> suf_offset M (m_pos s) + suf_offset N (n_pos s)"
      using assms(1) True by (simp add: merge_inv_def)
    ultimately show ?thesis using assms(2) by (simp add: env_ok_def)
  next
    case False
    then show ?thesis using assms(1) by (simp add: merge_inv_def new_part_def)
  qed
  then show "length (mg_sufs R) < 2 ^ 32" by simp
qed

lemma slot_suf_short:
  assumes "env_ok h has M N E"
  shows "i < length M \<Longrightarrow> length (slot_suf (M ! i)) < 2 ^ 31" and "i < length N \<Longrightarrow> length (slot_suf (N ! i)) < 2 ^ 31"
proof -
  have "length (slot_suf (xs ! i)) \<le> length (sufs xs)" if "i < length xs" for xs
    using suf_offset_Suc [OF that] suf_offset_mono [of "Suc i" "length xs" xs] that by (simp add: suf_offset_all)
  note s = this
  show "i < length M \<Longrightarrow> length (slot_suf (M ! i)) < 2 ^ 31" "i < length N \<Longrightarrow> length (slot_suf (N ! i)) < 2 ^ 31"
    using s [of M] s [of N] assms by (auto simp: env_ok_def)
qed

lemma move_m_ok:
  assumes inv: "merge_inv h has M N E s R" and env: "env_ok h has M N E" and m: "m_pos s < length M"
  shows "\<exists>s'. move_m E s = Goes_On s' \<and> merge_inv h has M N E s' (R @ [Kept (M ! m_pos s)]) \<and>
    m_pos s' = m_pos s + 1 \<and> n_pos s' = n_pos s"
proof -
  let ?r = "M ! m_pos s"
  have np: "n_pos s \<le> length N" and task: "ms_task s = mg_tasks (me_n E) R" using inv by (simp_all add: merge_inv_def)
  have lt: "m_pos s + n_pos s < KK M N" using m np by simp
  note f = inv_facts [OF inv env lt]
  note rd = m_reads [OF env refl m]
  let ?s3 = "put_lv E (slot_lv ?r) (put_ik E (slot_ikey ?r) (put_kl E (slot_kl ?r) s))"
  note v = put_slot_lv_view [OF env f(1,3) refl, of "slot_lv ?r" "slot_ikey ?r" "slot_kl ?r"]
  show ?thesis
  proof (cases has)
    case False
    have hk: "\<not> me_hasKsuf E" using env False by (simp add: env_ok_def)
    let ?s' = "?s3\<lparr>new_n_pos := new_n_pos ?s3 + 1, m_pos := m_pos ?s3 + 1\<rparr>"
    have "move_m E s = Goes_On ?s'" using hk rd(1-3) by (simp add: move_m_def Let_def)
    moreover have "slot_suf ?r = []"
      using env False m by (auto simp: env_ok_def packed_at_def sufs_def)
    then have "merge_inv h has M N E ?s' (R @ [Kept ?r])"
      by (intro merge_inv_snoc [OF inv env, where z = "slot_lv ?r"]) (use m np f v False in auto)
    ultimately show ?thesis by (intro exI [of _ ?s']) simp
  next
    case True
    have hk: "me_hasKsuf E" using env True by (simp add: env_ok_def)
    have mk: "m_ksuf_pos s = at_ksuf (me_mp E) + suf_offset M (m_pos s)" using inv True by (simp add: merge_inv_def)
    note sf = rd(5) [OF True mk]
    let ?s4 = "put_offset E ?s3" and ?len = "length (slot_suf ?r)"
    let ?s5 = "?s4\<lparr>ms_mem := poke (ms_mem ?s4) (new_n_ksuf_pos ?s4) (slot_suf ?r)\<rparr>"
    let ?s' = "?s5\<lparr>new_n_pos := new_n_pos s + 1, m_pos := m_pos s + 1,
      new_n_ksuf_pos := new_n_ksuf_pos s + ?len, m_ksuf_pos := m_ksuf_pos s + ?len\<rparr>"
    have "move_m E s = Goes_On ?s'"
      using hk rd(1-4) True sf slot_suf_short(1) [OF env m] by (simp add: move_m_def Let_def memcpy_from_def)
    moreover have "merge_inv h has M N E ?s' (R @ [Kept ?r])"
    proof -
      have e: "env_ok h True M N E" "room_for h True M N ?s3" using env v(6) True by simp_all
      have o: "new_n_pos ?s3 \<le> KK M N" "new_n_ksuf_pos ?s3 - at_ksuf (me_newp E) = length (mg_sufs R)"
        using f(3,4) True by simp_all
      note v4 = put_offset_view [OF e o f(7)]
      have le: "length (mg_sufs R) + ?len \<le> length (sufs M) + length (sufs N)"
        using f(8) [OF True] suf_offset_Suc [OF m] suf_offset_mono [of "m_pos s + 1" "length M" M] m
          suf_offset_mono [OF np, of N] by (simp add: suf_offset_all)
      have at: "new_n_ksuf_pos ?s4 = at_ksuf (me_newp E) + length (mg_sufs R)" using f(5) True by simp
      note v5 = put_suffix_view [OF e(1) v4(6) at le refl]
      show ?thesis
        by (rule merge_inv_snoc [OF inv env, where z = "slot_lv ?r"])
          (use m np f v v4 v5 True suf_offset_Suc [OF m] mk inv [unfolded merge_inv_def] in auto)
    qed
    ultimately show ?thesis by (intro exI [of _ ?s']) simp
  qed
qed

text \<open>The order of the first three writes: what is read of \<open>n\<close> meanwhile is what was there before.\<close>

lemma n_puts:
  assumes env: "env_ok h has M N E" and f: "room_for h has M N s" "new_n_pos s < KK M N"
    and n: "n_pos s < length N" and part: "n_part has M N (n_pos s) (vw h M N s)"
  shows "n_kl E s = slot_kl (N ! n_pos s)" and "n_ik E (put_kl E x s) = slot_ikey (N ! n_pos s)"
    and "n_lv E (put_ik E y (put_kl E x s)) = slot_lv (N ! n_pos s)"
    and "has \<Longrightarrow> n_len E (put_lv E z (put_ik E y (put_kl E x s))) = length (slot_suf (N ! n_pos s))"
    and "has \<Longrightarrow> n_len E (put_ik E y (put_kl E x s)) = length (slot_suf (N ! n_pos s))"
proof -
  note rd = n_reads [OF env part refl n]
  note k1 = put_kl_view(6) [OF env f, of x]
  have p1: "new_n_pos (put_kl E x s) < KK M N" "n_pos (put_kl E x s) < length N" using f(2) n by simp_all
  note k2 = put_ik_view(6) [OF env k1 p1(1), of y]
  have p2: "new_n_pos (put_ik E y (put_kl E x s)) < KK M N" "n_pos (put_ik E y (put_kl E x s)) < length N"
    using f(2) n by simp_all
  note st = n_stable [OF env f n] n_stable [OF env k1 p1] n_stable [OF env k2 p2]
  show "n_kl E s = slot_kl (N ! n_pos s)" "n_ik E (put_kl E x s) = slot_ikey (N ! n_pos s)"
    "n_lv E (put_ik E y (put_kl E x s)) = slot_lv (N ! n_pos s)"
    "has \<Longrightarrow> n_len E (put_lv E z (put_ik E y (put_kl E x s))) = length (slot_suf (N ! n_pos s))"
    "has \<Longrightarrow> n_len E (put_ik E y (put_kl E x s)) = length (slot_suf (N ! n_pos s))"
    using rd by (simp_all add: st)
qed

lemma move_n_ok:
  assumes inv: "merge_inv h has M N E s R" and env: "env_ok h has M N E" and n: "n_pos s < length N"
  shows "\<exists>s'. move_n E s = Goes_On s' \<and> merge_inv h has M N E s' (R @ [Kept (N ! n_pos s)]) \<and>
    m_pos s' = m_pos s \<and> n_pos s' = n_pos s + 1"
proof -
  let ?r = "N ! n_pos s"
  have mp: "m_pos s \<le> length M" and task: "ms_task s = mg_tasks (me_n E) R" using inv by (simp_all add: merge_inv_def)
  have lt: "m_pos s + n_pos s < KK M N" using n mp by simp
  note f = inv_facts [OF inv env lt]
  note rd = n_puts [OF env f(1,3) n f(9)]
  let ?s3 = "put_lv E (slot_lv ?r) (put_ik E (slot_ikey ?r) (put_kl E (slot_kl ?r) s))"
  note v = put_slot_lv_view [OF env f(1,3) refl, of "slot_lv ?r" "slot_ikey ?r" "slot_kl ?r"]
  show ?thesis
  proof (cases has)
    case False
    have hk: "\<not> me_hasKsuf E" using env False by (simp add: env_ok_def)
    let ?s' = "?s3\<lparr>new_n_pos := new_n_pos ?s3 + 1, n_pos := n_pos ?s3 + 1\<rparr>"
    have "move_n E s = Goes_On ?s'" using hk rd(1-3) by (simp add: move_n_def Let_def)
    moreover have "slot_suf ?r = []"
      using f(9) False n by (auto simp: n_part_def sufs_def)
    then have "merge_inv h has M N E ?s' (R @ [Kept ?r])"
      by (intro merge_inv_snoc [OF inv env, where z = "slot_lv ?r"]) (use n mp f v False in auto)
    ultimately show ?thesis by (intro exI [of _ ?s']) simp
  next
    case True
    have hk: "me_hasKsuf E" using env True by (simp add: env_ok_def)
    have nk: "n_ksuf_pos s = at_ksuf (me_np E) + suf_offset N (n_pos s)" using inv True by (simp add: merge_inv_def)
    let ?s4 = "put_offset E ?s3" and ?len = "length (slot_suf ?r)"
    let ?s5 = "?s4\<lparr>ms_mem := poke (ms_mem ?s4) (new_n_ksuf_pos ?s4) (slot_suf ?r)\<rparr>"
    let ?s' = "?s5\<lparr>new_n_pos := new_n_pos s + 1, n_pos := n_pos s + 1,
      new_n_ksuf_pos := new_n_ksuf_pos s + ?len, n_ksuf_pos := n_ksuf_pos s + ?len\<rparr>"
    have e: "env_ok h True M N E" "room_for h True M N ?s3" using env v(6) True by simp_all
    have o: "new_n_pos ?s3 \<le> KK M N" "new_n_ksuf_pos ?s3 - at_ksuf (me_newp E) = length (mg_sufs R)"
      using f(3,4) True by simp_all
    note v4 = put_offset_view [OF e o f(7)]
    have "drop (n_ksuf_pos s) (ms_mem ?s4) = drop (n_ksuf_pos s) (ms_mem s)"
    proof -
      have at: "at_ksuf (me_np E) = h + 1 * KK M N + 8 * KK M N + 8 * KK M N + 4 * (KK M N + 1) + length (sufs M)"
        using e(1) by (simp add: env_ok_def)
      have same: "a_suf (vw h M N ?s4) = a_suf (vw h M N s)" using v4(5) v(5) [OF True] by simp
      have d: "drop (n_ksuf_pos s) (ms_mem x) = drop (length (sufs M) + suf_offset N (n_pos s)) (a_suf (vw h M N x))" for x
        by (simp add: nk at vw_def view_def algebra_simps)
      show ?thesis unfolding d same ..
    qed
    moreover have "peek (ms_mem s) (n_ksuf_pos s) ?len = slot_suf ?r"
      using n_suffix(1) [OF e(1) _ _ n nk] f(1,9) True by simp
    ultimately have pk: "peek (ms_mem ?s4) (n_ksuf_pos s) ?len = slot_suf ?r" by (simp add: peek_def)
    have "move_n E s = Goes_On ?s'"
      using hk rd(1-4) True pk slot_suf_short(2) [OF env n] by (simp add: move_n_def Let_def memmove_def)
    moreover have "merge_inv h has M N E ?s' (R @ [Kept ?r])"
    proof -
      have le: "length (mg_sufs R) + ?len \<le> length (sufs M) + length (sufs N)"
        using f(8) [OF True] suf_offset_Suc [OF n] suf_offset_mono [of "n_pos s + 1" "length N" N] n
          suf_offset_mono [OF mp, of M] by (simp add: suf_offset_all)
      have at: "new_n_ksuf_pos ?s4 = at_ksuf (me_newp E) + length (mg_sufs R)" using f(5) True by simp
      note v5 = put_suffix_view [OF e(1) v4(6) at le refl]
      show ?thesis
        by (rule merge_inv_snoc [OF inv env, where z = "slot_lv ?r"])
          (use n mp f v v4 v5 True suf_offset_Suc [OF n] nk inv [unfolded merge_inv_def] in auto)
    qed
    ultimately show ?thesis by (intro exI [of _ ?s']) simp
  qed
qed

lemma skip_n_ok:
  assumes inv: "merge_inv h has M N E s R" and env: "env_ok h has M N E" and n: "n_pos s < length N"
  shows "merge_inv h has M N E (skip_n E s) R \<and> m_pos (skip_n E s) = m_pos s \<and> n_pos (skip_n E s) = n_pos s + 1"
proof -
  have part: "n_part has M N (n_pos s) (vw h M N s)" using inv by (simp add: merge_inv_def)
  have "n_part has M N (n_pos s + 1) (vw h M N s)" by (rule n_part_mono [OF part]) (use n in simp_all)
  moreover have "me_hasKsuf E = has" using env by (simp add: env_ok_def)
  moreover have "n_len E s = length (slot_suf (N ! n_pos s))" if has using n_reads(4) [OF env part refl n that] .
  ultimately show ?thesis
    using inv n suf_offset_Suc [OF n] by (auto simp: merge_inv_def skip_n_def)
qed

text \<open>A slot whose value a task will set. Layer slots have no suffix.\<close>

definition layers_bare :: "node_slot list \<Rightarrow> bool" where
  "layers_bare xs \<longleftrightarrow> (\<forall>r \<in> set xs. keylenx_is_layer (slot_kl r) \<longrightarrow> slot_suf r = [])"

lemma below_ok:
  assumes inv: "merge_inv h True M N E s R" and env: "env_ok h True M N E"
    and m: "m_pos s < length M" and n: "n_pos s < length N"
    and s': "ms_mem s' = ms_mem (put_offset E (put_ik E y (put_kl E x s)))" "m_pos s' = m_pos s + 1"
      "n_pos s' = n_pos s + 1" "new_n_pos s' = new_n_pos s + 1" "new_n_ksuf_pos s' = new_n_ksuf_pos s"
      "m_ksuf_pos s' = m_ksuf_pos s + length (slot_suf (M ! m_pos s))"
      "n_ksuf_pos s' = n_ksuf_pos s + length (slot_suf (N ! n_pos s))"
      "ms_task s' = ms_task s @ [tt\<lparr>parent_node := me_n E, parent_node_pos := new_n_pos s\<rparr>]"
  shows "merge_inv h True M N E s' (R @ [Below x y tt])"
proof -
  have lt: "m_pos s + n_pos s < KK M N" using n m by simp
  note f = inv_facts [OF inv env lt]
  note v = put_slot_view [OF env f(1,3) refl, of y x]
  have o: "new_n_pos (put_ik E y (put_kl E x s)) \<le> KK M N"
    "new_n_ksuf_pos (put_ik E y (put_kl E x s)) - at_ksuf (me_newp E) = length (mg_sufs R)"
    using f(3,4) by simp_all
  note v4 = put_offset_view [OF env v(6) o f(7)]
  have vw: "vw h M N s' = vw h M N (put_offset E (put_ik E y (put_kl E x s)))" using s'(1) by (simp add: vw_def)
  have room: "room_for h True M N s'" using v4(6) s'(1) by (simp add: room_for_def)
  have z: "(a_lv (vw h M N s))[length R := a_lv (vw h M N s) ! length R] = a_lv (vw h M N s)" by simp
  have pk: "poke ys (length xs) [] = ys" if "length xs \<le> length ys" for xs ys :: "byte list"
    using that by (simp add: poke_def)
  have le: "length (mg_sufs R) \<le> length (a_suf (vw h M N s))"
    using f(8) suf_offset_mono [of "m_pos s" "length M" M] suf_offset_mono [of "n_pos s" "length N" N] m n
      vw_length_suf [OF f(1)] by (simp add: suf_offset_all)
  show ?thesis
    by (rule merge_inv_snoc [OF inv env, where z = "a_lv (vw h M N s) ! length R"])
      (use m n f v v4 s' room pk [OF le] suf_offset_Suc [OF m] suf_offset_Suc [OF n] inv [unfolded merge_inv_def]
        in \<open>auto simp: vw z\<close>)
qed

text \<open>What is read of \<open>n\<close> after the three writes of such a slot.\<close>

lemma below_reads:
  assumes inv: "merge_inv h True M N E s R" and env: "env_ok h True M N E"
    and m: "m_pos s < length M" and n: "n_pos s < length N" and s3: "s3 = put_offset E (put_ik E y (put_kl E x s))"
  shows "n_kl E s = slot_kl (N ! n_pos s)" and "n_ik E (put_kl E x s) = slot_ikey (N ! n_pos s)"
    and "n_lv E s3 = slot_lv (N ! n_pos s)" and "n_len E s3 = length (slot_suf (N ! n_pos s))"
    and "next_layer (ms_mem s3) (n_ksuf_pos s) (length (slot_suf (N ! n_pos s))) = next_item (slot_suf (N ! n_pos s))"
proof -
  have lt: "m_pos s + n_pos s < KK M N" using n m by simp
  note f = inv_facts [OF inv env lt]
  note rd = n_puts [OF env f(1,3) n f(9)]
  note v = put_slot_view [OF env f(1,3) refl, of y x]
  have p: "new_n_pos (put_ik E y (put_kl E x s)) < length M + n_pos (put_ik E y (put_kl E x s))"
    using inv m by (simp add: merge_inv_def)
  have n2: "n_pos (put_ik E y (put_kl E x s)) < length N"
    and o: "new_n_pos (put_ik E y (put_kl E x s)) \<le> KK M N"
      "new_n_ksuf_pos (put_ik E y (put_kl E x s)) - at_ksuf (me_newp E) = length (mg_sufs R)"
    using n f(3,4) by simp_all
  note v4 = put_offset_view [OF env v(6) o f(7)]
  note st = n_stable_offset [OF env v(6) n2 p o(2) f(7)]
  show "n_kl E s = slot_kl (N ! n_pos s)" "n_ik E (put_kl E x s) = slot_ikey (N ! n_pos s)" by (fact rd)+
  show "n_lv E s3 = slot_lv (N ! n_pos s)" "n_len E s3 = length (slot_suf (N ! n_pos s))"
    using rd(3,5) by (simp_all add: st s3)
  have nk: "n_ksuf_pos s = at_ksuf (me_np E) + suf_offset N (n_pos s)" using inv by (simp add: merge_inv_def)
  have part: "n_part True M N (n_pos s) (vw h M N s3)"
    using f(9) p by (auto simp: n_part_def s3 v4 v drop_update_cancel)
  have "n_ksuf_pos s3 = at_ksuf (me_np E) + suf_offset N (n_pos s)" using nk by (simp add: s3)
  note ns = n_suffix [OF env part _ n this]
  show "next_layer (ms_mem s3) (n_ksuf_pos s) (length (slot_suf (N ! n_pos s))) = next_item (slot_suf (N ! n_pos s))"
    by (rule next_layer_item) (use ns v4(6) s3 in simp_all)
qed

lemma both_pos [simp]:
  "m_pos (advance_both s) = m_pos s + 1" "n_pos (advance_both s) = n_pos s + 1" "new_n_pos (advance_both s) = new_n_pos s + 1"
  "ms_mem (advance_both s) = ms_mem s" "m_ksuf_pos (advance_both s) = m_ksuf_pos s" "n_ksuf_pos (advance_both s) = n_ksuf_pos s"
  "new_n_ksuf_pos (advance_both s) = new_n_ksuf_pos s" "ms_task (advance_both s) = ms_task s"
  "ms_mem (push_task E t s) = ms_mem s"
  "ms_task (push_task E t s) = ms_task s @ [t\<lparr>parent_node := me_n E, parent_node_pos := new_n_pos s\<rparr>]"
  by (simp_all add: advance_both_def push_task_def)

lemma same_slice_below_ok:
  assumes inv: "merge_inv h True M N E s R" and env: "env_ok h True M N E"
    and m: "m_pos s < length M" and n: "n_pos s < length N" and bare: "layers_bare M" "layers_bare N"
    and b: "merge_same (me_replaces E) (M ! m_pos s) (N ! n_pos s) = Goes_On r" "r \<noteq> Kept (M ! m_pos s)"
  shows "\<exists>s'. same_slice E s = Goes_On s' \<and> merge_inv h True M N E s' (R @ [r]) \<and>
    m_pos s' = m_pos s + 1 \<and> n_pos s' = n_pos s + 1"
proof -
  let ?m = "M ! m_pos s" and ?n = "N ! n_pos s"
  have hk: "me_hasKsuf E" using env by (simp add: env_ok_def)
  have mk: "m_ksuf_pos s = at_ksuf (me_mp E) + suf_offset M (m_pos s)" using inv by (simp add: merge_inv_def)
  note mr = m_reads [OF env refl m]
  note mi = next_layer_item [OF mr(5) [OF TrueI mk, THEN conjunct2] mr(5) [OF TrueI mk, THEN conjunct1]]
  note nr = below_reads [OF inv env m n refl]
  note ok = below_ok [OF inv env m n]
  have part: "n_part True M N (n_pos s) (vw h M N s)" and room: "room_for h True M N s"
    and nk: "n_ksuf_pos s = at_ksuf (me_np E) + suf_offset N (n_pos s)" using inv by (simp_all add: merge_inv_def)
  have nlen: "n_len E s = length (slot_suf ?n)" using n_reads(4) [OF env part refl n] by simp
  have bm: "slot_suf ?m = []" if "keylenx_is_layer (slot_kl ?m)" using that bare(1) m by (auto simp: layers_bare_def)
  have bn: "slot_suf ?n = []" if "keylenx_is_layer (slot_kl ?n)" using that bare(2) n by (auto simp: layers_bare_def)
  consider (both) "keylenx_is_layer (slot_kl ?m)" "keylenx_is_layer (slot_kl ?n)"
    | (nl) "\<not> keylenx_is_layer (slot_kl ?m)" "keylenx_is_layer (slot_kl ?n)"
    | (ml) "keylenx_is_layer (slot_kl ?m)" "\<not> keylenx_is_layer (slot_kl ?n)"
    | (new) "\<not> keylenx_is_layer (slot_kl ?m)" "\<not> keylenx_is_layer (slot_kl ?n)" "\<not> same_suffix (slot_suf ?m) (slot_suf ?n)"
    using b by (auto simp: merge_same_def split: if_splits)
  then show ?thesis
  proof cases
    case both
    have r: "r = Below (slot_kl ?n) (slot_ikey ?n) (new_task\<lparr>task := 0, task_m := slot_lv ?m, task_n := slot_lv ?n\<rparr>)"
      using b(1) both by (simp add: merge_same_def)
    have "same_slice E s = Goes_On (advance_both (both_layers E s))"
      using both hk mr nr(1) by (simp add: same_slice_def)
    moreover have "merge_inv h True M N E (advance_both (both_layers E s)) (R @ [r])"
      unfolding r
      by (rule ok) (simp_all add: both_layers_def Let_def nr mr bm [OF both(1)] bn [OF both(2)])
    ultimately show ?thesis by (intro exI [of _ "advance_both (both_layers E s)"]) (simp add: both_layers_def Let_def)
  next
    case nl
    have r: "r = Below (slot_kl ?n) (slot_ikey ?n)
        (task_item_m (next_item (slot_suf ?m)) (slot_lv ?m) (new_task\<lparr>task := 1, task_n := slot_lv ?n\<rparr>))"
      using b(1) nl by (simp add: merge_same_def)
    have "same_slice E s = Goes_On (advance_both (n_layer E s))"
      using nl hk mr nr(1) by (simp add: same_slice_def)
    moreover have "merge_inv h True M N E (advance_both (n_layer E s)) (R @ [r])"
      unfolding r
      by (rule ok) (simp_all add: n_layer_def Let_def nr mr mi bn [OF nl(2)])
    ultimately show ?thesis by (intro exI [of _ "advance_both (n_layer E s)"]) (simp add: n_layer_def Let_def)
  next
    case ml
    have r: "r = Below (slot_kl ?m) (slot_ikey ?m)
        (task_item_m (next_item (slot_suf ?n)) (slot_lv ?n) (new_task\<lparr>task := 1, task_n := slot_lv ?m\<rparr>))"
      using b(1) ml by (simp add: merge_same_def)
    have "same_slice E s = Goes_On (advance_both (m_layer E s))"
      using ml hk mr nr(1) by (simp add: same_slice_def)
    moreover have "merge_inv h True M N E (advance_both (m_layer E s)) (R @ [r])"
      unfolding r
      by (rule ok) (simp_all add: m_layer_def Let_def nr mr bm [OF ml(1)])
    ultimately show ?thesis by (intro exI [of _ "advance_both (m_layer E s)"]) (simp add: m_layer_def Let_def)
  next
    case new
    have r: "r = Below (slot_kl ?n + 64) (slot_ikey ?n) (task_item_n (next_item (slot_suf ?n)) (slot_lv ?n)
        (task_item_m (next_item (slot_suf ?m)) (slot_lv ?m) (new_task\<lparr>task := 2\<rparr>)))"
      using b(1) new by (simp add: merge_same_def)
    have sfx: "strncmp_0 (drop (m_ksuf_pos s) (me_m E)) (drop (n_ksuf_pos s) (ms_mem s)) (length (slot_suf ?m)) \<longleftrightarrow>
        strncmp_0 (slot_suf ?m) (slot_suf ?n) (length (slot_suf ?m))" if "length (slot_suf ?m) = length (slot_suf ?n)"
      using strncmp_0_take [of "drop (m_ksuf_pos s) (me_m E)"] mr(5) [OF TrueI mk] n_suffix(1) [OF env part room n nk] that
      by (simp add: peek_def)
    have "same_slice E s = Goes_On (advance_both (new_layer E s))"
      using new hk mr nr(1) nlen sfx by (auto simp: same_slice_def same_suffix_def Let_def)
    moreover have "merge_inv h True M N E (advance_both (new_layer E s)) (R @ [r])"
      unfolding r
      by (rule ok) (simp_all add: new_layer_def Let_def nr mr mi)
    ultimately show ?thesis by (intro exI [of _ "advance_both (new_layer E s)"]) (simp add: new_layer_def Let_def)
  qed
qed

lemma same_slice_kept_ok:
  assumes inv: "merge_inv h True M N E s R" and env: "env_ok h True M N E"
    and m: "m_pos s < length M" and n: "n_pos s < length N"
    and nl: "\<not> keylenx_is_layer (slot_kl (M ! m_pos s))" "\<not> keylenx_is_layer (slot_kl (N ! n_pos s))"
    and same: "same_suffix (slot_suf (M ! m_pos s)) (slot_suf (N ! n_pos s))"
  shows "\<not> me_replaces E \<Longrightarrow> same_slice E s = Returns_False"
    and "me_replaces E \<Longrightarrow> \<exists>s'. same_slice E s = Goes_On s' \<and> merge_inv h True M N E s' (R @ [Kept (M ! m_pos s)]) \<and>
      m_pos s' = m_pos s + 1 \<and> n_pos s' = n_pos s + 1"
proof -
  let ?m = "M ! m_pos s" and ?n = "N ! n_pos s"
  have hk: "me_hasKsuf E" using env by (simp add: env_ok_def)
  have mk: "m_ksuf_pos s = at_ksuf (me_mp E) + suf_offset M (m_pos s)" using inv by (simp add: merge_inv_def)
  note mr = m_reads [OF env refl m]
  have lt: "m_pos s + n_pos s < KK M N" using n m by simp
  note f = inv_facts [OF inv env lt]
  have nk: "n_ksuf_pos s = at_ksuf (me_np E) + suf_offset N (n_pos s)" using inv by (simp add: merge_inv_def)
  note nr = n_reads [OF env f(9) refl n]
  have sfx: "strncmp_0 (drop (m_ksuf_pos s) (me_m E)) (drop (n_ksuf_pos s) (ms_mem s)) (length (slot_suf ?m))"
    using strncmp_0_take [of "drop (m_ksuf_pos s) (me_m E)"] mr(5) [OF TrueI mk] n_suffix(1) [OF env f(9,1) n nk] same
    by (auto simp: peek_def same_suffix_def)
  have len: "length (slot_suf ?m) = length (slot_suf ?n)" using same by (simp add: same_suffix_def)
  show "same_slice E s = Returns_False" if "\<not> me_replaces E"
    using that nl hk mr nr(1,4) sfx len by (simp add: same_slice_def)
  assume rep: "me_replaces E"
  let ?s3 = "put_lv E (slot_lv ?m) (put_ik E (slot_ikey ?m) (put_kl E (slot_kl ?m) s))"
  note v = put_slot_lv_view [OF env f(1,3) refl, of "slot_lv ?m" "slot_ikey ?m" "slot_kl ?m"]
  let ?len = "length (slot_suf ?m)"
  have le: "length (mg_sufs R) + ?len \<le> length (sufs M) + length (sufs N)"
    using f(8) suf_offset_Suc [OF m] suf_offset_mono [of "m_pos s + 1" "length M" M] m n
      suf_offset_mono [of "n_pos s" "length N" N] by (simp add: suf_offset_all)
  show "\<exists>s'. same_slice E s = Goes_On s' \<and> merge_inv h True M N E s' (R @ [Kept ?m]) \<and>
      m_pos s' = m_pos s + 1 \<and> n_pos s' = n_pos s + 1"
  proof (cases "?len = 0")
    case True
    have o: "new_n_pos ?s3 \<le> KK M N" "new_n_ksuf_pos ?s3 - at_ksuf (me_newp E) = length (mg_sufs R)"
      using f(3,4) by simp_all
    note v4 = put_offset_view [OF env v(6) o f(7)]
    let ?s' = "advance_both (put_offset E ?s3)"
    have "same_slice E s = Goes_On ?s'"
      using rep True nl hk mr nr(1,4) len by (simp add: same_slice_def Let_def)
    moreover have "merge_inv h True M N E ?s' (R @ [Kept ?m])"
    proof -
      have pk: "poke ys (length xs) [] = ys" if "length xs \<le> length ys" for xs ys :: "byte list"
        using that by (simp add: poke_def)
      have vw: "vw h M N ?s' = vw h M N (put_offset E ?s3)" "room_for h True M N ?s' = room_for h True M N (put_offset E ?s3)"
        by (simp_all add: vw_def room_for_def)
      have "length (mg_sufs R) \<le> length (a_suf (vw h M N s))" using le vw_length_suf [OF f(1)] by simp
      then show ?thesis
        by (intro merge_inv_snoc [OF inv env, where z = "slot_lv ?m"])
          (use m n f v v4 True len pk suf_offset_Suc [OF m] suf_offset_Suc [OF n] inv [unfolded merge_inv_def]
            in \<open>auto simp: vw\<close>)
    qed
    ultimately show ?thesis by (intro exI [of _ ?s']) simp
  next
    case False
    have e3: "new_n_ksuf_pos ?s3 = at_ksuf (me_newp E) + length (mg_sufs R)" using f(5) by simp
    define s4 where "s4 = ?s3\<lparr>ms_mem := poke (ms_mem ?s3) (new_n_ksuf_pos ?s3) (slot_suf ?m)\<rparr>"
    note v4 = put_suffix_view [OF env v(6) e3 le s4_def]
    have k: "new_n_pos s4 = new_n_pos s" "m_pos s4 = m_pos s" "n_pos s4 = n_pos s" "new_n_ksuf_pos s4 = new_n_ksuf_pos s"
      "m_ksuf_pos s4 = m_ksuf_pos s" "n_ksuf_pos s4 = n_ksuf_pos s" "ms_task s4 = ms_task s"
      by (simp_all add: s4_def)
    have o: "new_n_pos s4 \<le> KK M N" "new_n_ksuf_pos s4 - at_ksuf (me_newp E) = length (mg_sufs R)"
      using f(3,4) by (simp_all add: k)
    note v5 = put_offset_view [OF env v4(6) o f(7)]
    let ?s5 = "put_offset E s4"
    let ?s' = "advance_both (?s5\<lparr>new_n_ksuf_pos := new_n_ksuf_pos ?s5 + ?len,
      m_ksuf_pos := m_ksuf_pos ?s5 + ?len, n_ksuf_pos := n_ksuf_pos ?s5 + ?len\<rparr>)"
    have "peek (me_m E) (m_ksuf_pos s) ?len = slot_suf ?m" using mr(5) [OF TrueI mk] by simp
    then have "same_slice E s = Goes_On ?s'"
      using rep False nl hk mr(1-4) nr(1,4) sfx len by (simp add: same_slice_def Let_def memcpy_from_def s4_def)
    moreover have "merge_inv h True M N E ?s' (R @ [Kept ?m])"
    proof -
      have vw: "vw h M N (advance_both x) = vw h M N x" "room_for h True M N (advance_both x) = room_for h True M N x" for x
        by (simp_all add: vw_def room_for_def)
      show ?thesis
        by (rule merge_inv_snoc [OF inv env, where z = "slot_lv ?m"])
          (use m n f v v4 v5 k len suf_offset_Suc [OF m] suf_offset_Suc [OF n] inv [unfolded merge_inv_def]
            in \<open>auto simp: vw\<close>)
    qed
    ultimately show ?thesis by (intro exI [of _ ?s']) (simp add: k)
  qed
qed

section \<open>The loops\<close>

text \<open>Without suffix arrays, a slice and length in both nodes has no defined outcome.\<close>

definition slots_disjoint :: "node_slot list \<Rightarrow> node_slot list \<Rightarrow> bool" where
  "slots_disjoint M N \<longleftrightarrow> (\<forall>m \<in> set M. \<forall>n \<in> set N. slot_kl n \<noteq> 0 \<longrightarrow> slot_before m n \<or> slot_before n m)"

definition lift_merge :: "merged list \<Rightarrow> merged list outcome \<Rightarrow> merged list outcome" where
  "lift_merge R x = and_then x (\<lambda>rs. Goes_On (R @ rs))"

text \<open>The loop ends in the state \<open>y\<close>, where one of the nodes is used up, and the reference ends with \<open>x\<close>.\<close>

definition loop_ends ::
  "nat \<Rightarrow> bool \<Rightarrow> node_slot list \<Rightarrow> node_slot list \<Rightarrow> merge_env \<Rightarrow> merge_state outcome \<Rightarrow> merged list outcome \<Rightarrow> bool" where
  "loop_ends h has M N E y x \<longleftrightarrow>
     (\<exists>s R. y = Goes_On s \<and> merge_inv h has M N E s R \<and> (m_pos s = length M \<or> n_pos s = length N) \<and>
        x = Goes_On (R @ map Kept (drop (m_pos s) M) @ map Kept (drop (n_pos s) N))) \<or>
     y = Returns_False \<and> x = Returns_False"

lemma merge_slots_Cons:
  "i < length M \<Longrightarrow> j < length N \<Longrightarrow> merge_slots rep (drop i M) (drop j N) =
     (if slot_kl (N ! j) = 0 then merge_slots rep (drop i M) (drop (j + 1) N)
      else if slot_before (M ! i) (N ! j) then and_cons (Kept (M ! i)) (merge_slots rep (drop (i + 1) M) (drop j N))
      else if slot_before (N ! j) (M ! i) then and_cons (Kept (N ! j)) (merge_slots rep (drop i M) (drop (j + 1) N))
      else and_then (merge_same rep (M ! i) (N ! j)) (\<lambda>r. and_cons r (merge_slots rep (drop (i + 1) M) (drop (j + 1) N))))"
  using Cons_nth_drop_Suc [of i M] Cons_nth_drop_Suc [of j N]
    merge_slots.simps(3) [of rep "M ! i" "drop (Suc i) M" "N ! j" "drop (Suc j) N"] by simp

lemma merge_slots_end: "merge_slots rep ms [] = Goes_On (map Kept ms)" "merge_slots rep [] ns = Goes_On (map Kept ns)"
  by (cases ms; simp)+

lemma lift_and_cons: "lift_merge R (and_cons r x) = lift_merge (R @ [r]) x"
  by (cases x) (auto simp: and_cons_def lift_merge_def)

lemma merge_loop_ok:
  "merge_inv h has M N E s R \<Longrightarrow> env_ok h has M N E \<Longrightarrow> layers_bare M \<Longrightarrow> layers_bare N \<Longrightarrow> has \<or> slots_disjoint M N \<Longrightarrow>
     loop_ends h has M N E (merge_loop E s)
       (lift_merge R (merge_slots (me_replaces E) (drop (m_pos s) M) (drop (n_pos s) N)))"
proof (induction E s arbitrary: R rule: merge_loop.induct)
  case (1 E s)
  let ?rep = "me_replaces E" and ?m = "M ! m_pos s" and ?n = "N ! n_pos s"
  note inv = "1.prems"(1) and env = "1.prems"(2)
  have len: "me_m_nkeys E = length M" "me_n_nkeys E = length N" "me_hasKsuf E = has" using env by (simp_all add: env_ok_def)
  show ?case
  proof (cases "m_pos s < length M \<and> n_pos s < length N")
    case False
    then have "m_pos s = length M \<or> n_pos s = length N" using inv by (auto simp: merge_inv_def)
    moreover have "merge_loop E s = Goes_On s" using False len by (subst merge_loop.simps) auto
    ultimately show ?thesis
      using inv unfolding loop_ends_def by (intro disjI1 exI [of _ s] exI [of _ R]) (auto simp: lift_merge_def merge_slots_end)
  next
    case True
    then have m: "m_pos s < length M" and n: "n_pos s < length N" by simp_all
    have loop: "merge_loop E s = and_then (merge_step E s) (merge_loop E)" using True len by (simp add: merge_loop.simps)
    note IH = "1.IH" [unfolded len, OF True _ _ "1.prems"(2-5)]
    have part: "n_part has M N (n_pos s) (vw h M N s)" using inv by (simp add: merge_inv_def)
    note nr = n_reads(1,2) [OF env part refl n] and mr = m_reads(1,2) [OF env refl m]
    note ref = merge_slots_Cons [OF m n, of ?rep]
    have nxt: "loop_ends h has M N E (merge_loop E s) (lift_merge (R @ [r]) (merge_slots ?rep (drop (m_pos s') M) (drop (n_pos s') N)))"
      if "merge_step E s = Goes_On s'" "merge_inv h has M N E s' (R @ [r])" for s' r
      using IH [OF that] that(1) loop by simp
    have step: "merge_step E s = (if slot_kl ?n = 0 then Goes_On (skip_n E s) else if slot_before ?m ?n then move_m E s
        else if slot_before ?n ?m then move_n E s else same_slice E s)"
      by (auto simp: merge_step_def Let_def nr mr slot_before_def)
    consider (skip) "slot_kl ?n = 0" | (m) "slot_kl ?n \<noteq> 0" "slot_before ?m ?n"
      | (n) "slot_kl ?n \<noteq> 0" "\<not> slot_before ?m ?n" "slot_before ?n ?m"
      | (same) "slot_kl ?n \<noteq> 0" "\<not> slot_before ?m ?n" "\<not> slot_before ?n ?m" by blast
    then show ?thesis
    proof cases
      case skip
      note sk = skip_n_ok [OF inv env n]
      show ?thesis using IH [of "skip_n E s" R] sk skip step loop ref by simp
    next
      case m
      obtain s' where "move_m E s = Goes_On s'" "merge_inv h has M N E s' (R @ [Kept ?m])" "m_pos s' = m_pos s + 1" "n_pos s' = n_pos s"
        using move_m_ok [OF inv env \<open>m_pos s < length M\<close>] by blast
      with nxt [of s' "Kept ?m"] m step ref show ?thesis by (simp add: lift_and_cons)
    next
      case n
      obtain s' where "move_n E s = Goes_On s'" "merge_inv h has M N E s' (R @ [Kept ?n])" "m_pos s' = m_pos s" "n_pos s' = n_pos s + 1"
        using move_n_ok [OF inv env \<open>n_pos s < length N\<close>] by blast
      with nxt [of s' "Kept ?n"] n step ref show ?thesis by (simp add: lift_and_cons)
    next
      case same
      have has: has
        using "1.prems"(5) same nth_mem [OF m] nth_mem [OF n] unfolding slots_disjoint_def by blast
      note invT = inv [unfolded eqTrueI [OF has]] and envT = env [unfolded eqTrueI [OF has]]
      have st: "merge_step E s = same_slice E s" using same step by simp
      show ?thesis
      proof (cases "merge_same ?rep ?m ?n")
        case Undefined
        then show ?thesis by (auto simp: merge_same_def split: if_splits)
      next
        case Returns_False
        then have "\<not> keylenx_is_layer (slot_kl ?m)" "\<not> keylenx_is_layer (slot_kl ?n)" "same_suffix (slot_suf ?m) (slot_suf ?n)" "\<not> ?rep"
          by (auto simp: merge_same_def split: if_splits)
        then have "merge_step E s = Returns_False"
          using st same_slice_kept_ok(1) [OF invT envT \<open>m_pos s < length M\<close> \<open>n_pos s < length N\<close>] by simp
        then show ?thesis using Returns_False same loop ref by (simp add: loop_ends_def lift_merge_def)
      next
        case (Goes_On r)
        have "\<exists>s'. same_slice E s = Goes_On s' \<and> merge_inv h True M N E s' (R @ [r]) \<and> m_pos s' = m_pos s + 1 \<and> n_pos s' = n_pos s + 1"
        proof (cases "r = Kept ?m")
          case True
          then have "\<not> keylenx_is_layer (slot_kl ?m)" "\<not> keylenx_is_layer (slot_kl ?n)" "same_suffix (slot_suf ?m) (slot_suf ?n)" "?rep"
            using Goes_On by (auto simp: merge_same_def split: if_splits)
          then show ?thesis
            using same_slice_kept_ok(2) [OF invT envT \<open>m_pos s < length M\<close> \<open>n_pos s < length N\<close>] True by simp
        next
          case False
          show ?thesis
            by (rule same_slice_below_ok [OF invT envT \<open>m_pos s < length M\<close> \<open>n_pos s < length N\<close> "1.prems"(3,4) Goes_On False])
        qed
        then obtain s' where "same_slice E s = Goes_On s'" "merge_inv h True M N E s' (R @ [r])" "m_pos s' = m_pos s + 1" "n_pos s' = n_pos s + 1"
          by blast
        with nxt [of s' r] has st same Goes_On ref show ?thesis by (simp add: lift_and_cons)
      qed
    qed
  qed
qed

lemma m_leftovers_ok:
  "merge_inv h has M N E s R \<Longrightarrow> env_ok h has M N E \<Longrightarrow>
     \<exists>s'. m_leftovers E s = Goes_On s' \<and> merge_inv h has M N E s' (R @ map Kept (drop (m_pos s) M)) \<and>
       m_pos s' = length M \<and> n_pos s' = n_pos s"
proof (induction E s arbitrary: R rule: m_leftovers.induct)
  case (1 E s)
  have len: "me_m_nkeys E = length M" using "1.prems"(2) by (simp add: env_ok_def)
  show ?case
  proof (cases "m_pos s < length M")
    case False
    then have "m_pos s = length M" using "1.prems"(1) by (simp add: merge_inv_def)
    then show ?thesis using "1.prems"(1) len by (simp add: m_leftovers.simps)
  next
    case True
    obtain s' where s': "move_m E s = Goes_On s'" "merge_inv h has M N E s' (R @ [Kept (M ! m_pos s)])"
        "m_pos s' = m_pos s + 1" "n_pos s' = n_pos s"
      using move_m_ok [OF "1.prems" True] by blast
    have "m_leftovers E s = m_leftovers E s'" using True len s'(1) by (simp add: m_leftovers.simps [of E s])
    moreover have "map Kept (drop (m_pos s) M) = Kept (M ! m_pos s) # map Kept (drop (m_pos s') M)"
      using Cons_nth_drop_Suc [OF True] s'(3) by (metis Suc_eq_plus1 list.simps(9))
    ultimately show ?thesis
      using "1.IH" [unfolded len, OF True s'(1,2) "1.prems"(2)] s'(4) by simp
  qed
qed

lemma n_leftovers_ok:
  "merge_inv h has M N E s R \<Longrightarrow> env_ok h has M N E \<Longrightarrow>
     \<exists>s'. n_leftovers E s = Goes_On s' \<and> merge_inv h has M N E s' (R @ map Kept (drop (n_pos s) N)) \<and>
       n_pos s' = length N \<and> m_pos s' = m_pos s"
proof (induction E s arbitrary: R rule: n_leftovers.induct)
  case (1 E s)
  have len: "me_n_nkeys E = length N" using "1.prems"(2) by (simp add: env_ok_def)
  show ?case
  proof (cases "n_pos s < length N")
    case False
    then have "n_pos s = length N" using "1.prems"(1) by (simp add: merge_inv_def)
    then show ?thesis using "1.prems"(1) len by (simp add: n_leftovers.simps)
  next
    case True
    obtain s' where s': "move_n E s = Goes_On s'" "merge_inv h has M N E s' (R @ [Kept (N ! n_pos s)])"
        "m_pos s' = m_pos s" "n_pos s' = n_pos s + 1"
      using move_n_ok [OF "1.prems" True] by blast
    have "n_leftovers E s = n_leftovers E s'" using True len s'(1) by (simp add: n_leftovers.simps [of E s])
    moreover have "map Kept (drop (n_pos s) N) = Kept (N ! n_pos s) # map Kept (drop (n_pos s') N)"
      using Cons_nth_drop_Suc [OF True] s'(4) by (metis Suc_eq_plus1 list.simps(9))
    ultimately show ?thesis
      using "1.IH" [unfolded len, OF True s'(1,2) "1.prems"(2)] s'(3) by simp
  qed
qed

end
