(* ===== verification/Merge_Layout.thy ===== *)
theory Merge_Layout
  imports Merge_Block
begin

text \<open>
  Where the arrays are before, while and after two nodes are merged. A region is a run of bytes with
  a known content; \<^verbatim>\<open>memmove\<close> carries it to another place. The arrays of \<open>n\<close> are moved up last array
  first, the merged arrays down first array first, so no move destroys what is still to be moved.
\<close>

section \<open>Regions\<close>

definition region :: "byte list \<Rightarrow> nat \<Rightarrow> byte list \<Rightarrow> bool" where
  "region mem a bs \<longleftrightarrow> a + length bs \<le> length mem \<and> peek mem a (length bs) = bs"

definition u64s :: "u64 list \<Rightarrow> byte list" where
  "u64s ws = concat (map bytes_of_u64 ws)"

definition u32s :: "nat list \<Rightarrow> byte list" where
  "u32s ws = concat (map (le_bytes 4) ws)"

lemma length_u64s [simp]: "length (u64s ws) = 8 * length ws"
  by (induction ws) (simp_all add: u64s_def)

lemma length_u32s [simp]: "length (u32s ws) = 4 * length ws"
  by (induction ws) (simp_all add: u32s_def)

lemma region_append: "region mem a (xs @ ys) \<longleftrightarrow> region mem a xs \<and> region mem (a + length xs) ys"
proof
  assume r: "region mem a (xs @ ys)"
  have "peek mem a (length xs) = take (length xs) (peek mem a (length (xs @ ys)))" by (simp add: peek_def min_def)
  moreover have "peek mem (a + length xs) (length ys) = drop (length xs) (peek mem a (length (xs @ ys)))"
    by (simp add: peek_def drop_take add.commute)
  ultimately show "region mem a xs \<and> region mem (a + length xs) ys" using r by (simp add: region_def)
next
  assume r: "region mem a xs \<and> region mem (a + length xs) ys"
  have "peek mem a (length (xs @ ys)) = peek mem a (length xs) @ peek mem (a + length xs) (length ys)"
    by (simp add: peek_def take_add add.commute)
  then show "region mem a (xs @ ys)" using r by (simp add: region_def)
qed

lemma region_bytes: "region mem a bs \<longleftrightarrow> a + length bs \<le> length mem \<and> (\<forall>i < length bs. rd8 mem (a + i) = bs ! i)"
  by (auto simp: region_def rd8_def peek_nth intro!: nth_equalityI) (metis peek_nth)

lemma region_u64s: "region mem a (u64s ws) \<longleftrightarrow> a + 8 * length ws \<le> length mem \<and> (\<forall>i < length ws. rd64 mem (a + 8 * i) = ws ! i)"
proof (induction ws arbitrary: a)
  case Nil
  then show ?case by (simp add: u64s_def region_def peek_def)
next
  case (Cons w ws)
  have "region mem a (bytes_of_u64 w) \<longleftrightarrow> a + 8 \<le> length mem \<and> rd64 mem a = w"
    by (auto simp: region_def rd64_def) (metis bytes_of_u64_of_bytes length_peek)
  moreover have "u64s (w # ws) = bytes_of_u64 w @ u64s ws" by (simp add: u64s_def)
  ultimately show ?case
    using Cons.IH [of "a + 8"] by (auto simp: region_append nth_Cons' algebra_simps less_Suc_eq_0_disj)
qed

lemma region_u32s:
  "\<forall>w \<in> set ws. w < 2 ^ 32 \<Longrightarrow>
     region mem a (u32s ws) \<longleftrightarrow> a + 4 * length ws \<le> length mem \<and> (\<forall>i < length ws. rd32 mem (a + 4 * i) = ws ! i)"
proof (induction ws arbitrary: a)
  case Nil
  then show ?case by (simp add: u32s_def region_def peek_def)
next
  case (Cons w ws)
  have "region mem a (le_bytes 4 w) \<longleftrightarrow> a + 4 \<le> length mem \<and> rd32 mem a = w"
    using Cons.prems by (auto simp: region_def rd32_def le_nat_le_bytes) (metis le_bytes_le_nat length_peek)
  moreover have "u32s (w # ws) = le_bytes 4 w @ u32s ws" by (simp add: u32s_def)
  ultimately show ?case
    using Cons.IH [of "a + 4"] Cons.prems by (auto simp: region_append nth_Cons' algebra_simps less_Suc_eq_0_disj)
qed

lemma region_poke_other:
  "region mem a bs \<Longrightarrow> off + length ys \<le> length mem \<Longrightarrow> a + length bs \<le> off \<or> off + length ys \<le> a \<Longrightarrow>
     region (poke mem off ys) a bs"
  by (auto simp: region_def peek_poke_other)

lemma region_poke_here: "off + length ys \<le> length mem \<Longrightarrow> region (poke mem off ys) off ys"
  by (simp add: region_def peek_poke_same)

lemma region_memmove:
  "region mem src bs \<Longrightarrow> len = length bs \<Longrightarrow> dst + len \<le> length mem \<Longrightarrow> region (memmove mem dst src len) dst bs"
  by (simp add: memmove_def region_poke_here region_def [of mem src])

lemma region_memmove_other:
  "region mem a bs \<Longrightarrow> src + len \<le> length mem \<Longrightarrow> dst + len \<le> length mem \<Longrightarrow> a + length bs \<le> dst \<or> dst + len \<le> a \<Longrightarrow>
     region (memmove mem dst src len) a bs"
  by (simp add: memmove_def region_poke_other)

lemma length_memmove [simp]:
  "src + len \<le> length mem \<Longrightarrow> dst + len \<le> length mem \<Longrightarrow> length (memmove mem dst src len) = length mem"
  by (simp add: memmove_def)

lemma region_memcpy:
  "region m src bs \<Longrightarrow> len = length bs \<Longrightarrow> dst + len \<le> length mem \<Longrightarrow> region (memcpy_from mem dst m src len) dst bs"
  by (simp add: memcpy_from_def region_poke_here region_def [of m src])

lemma region_memcpy_other:
  "region mem a bs \<Longrightarrow> src + len \<le> length m \<Longrightarrow> dst + len \<le> length mem \<Longrightarrow> a + length bs \<le> dst \<or> dst + len \<le> a \<Longrightarrow>
     region (memcpy_from mem dst m src len) a bs"
  by (simp add: memcpy_from_def region_poke_other)

lemma length_memcpy [simp]:
  "src + len \<le> length m \<Longrightarrow> dst + len \<le> length mem \<Longrightarrow> length (memcpy_from mem dst m src len) = length mem"
  by (simp add: memcpy_from_def)

lemma region_take: "region mem a bs \<Longrightarrow> a + length bs \<le> k \<Longrightarrow> region (take k mem) a bs"
  by (auto simp: region_def peek_def drop_take min_def)

lemma region_append_right: "region mem a bs \<Longrightarrow> region (mem @ xs) a bs"
  by (simp add: region_def peek_def)

section \<open>Packed arrays\<close>

text \<open>The five arrays with their contents.\<close>

definition arrays_at :: "bool \<Rightarrow> byte list \<Rightarrow> array_pos \<Rightarrow> byte list \<Rightarrow> u64 list \<Rightarrow> u64 list \<Rightarrow> nat list \<Rightarrow> byte list \<Rightarrow> bool" where
  "arrays_at has mem ap kls iks lvs offs sfs \<longleftrightarrow>
     region mem (at_ikeylen ap) kls \<and> region mem (at_ikey ap) (u64s iks) \<and> region mem (at_lv ap) (u64s lvs) \<and>
     (has \<longrightarrow> region mem (at_ksuf_offset ap) (u32s offs) \<and> region mem (at_ksuf ap) sfs)"

lemma startpos_simps [simp]:
  "at_ikeylen (startpos h k) = h" "at_ikey (startpos h k) = h + 1 * k" "at_lv (startpos h k) = h + 1 * k + 8 * k"
  "at_ksuf_offset (startpos h k) = h + 1 * k + 8 * k + 8 * k"
  "at_ksuf (startpos h k) = h + 1 * k + 8 * k + 8 * k + 4 * (k + 1)"
  by (simp_all add: startpos_def Let_def)

lemma compact_ok:
  assumes "arrays_at has mem (startpos h K) kls iks lvs offs sfs" "k \<le> K" "length kls = k" "length iks = k" "length lvs = k"
    "length offs = k + 1" "length sfs = S"
  shows "arrays_at has (compact h has (startpos h K) k S mem) (startpos h k) kls iks lvs offs sfs"
    and "length (compact h has (startpos h K) k S mem) = length mem"
proof -
  let ?m1 = "memmove mem (h + 1 * k) (h + 1 * K) (8 * k)"
  let ?m2 = "memmove ?m1 (h + 1 * k + 8 * k) (h + 1 * K + 8 * K) (8 * k)"
  let ?m3 = "memmove ?m2 (h + 1 * k + 8 * k + 8 * k) (h + 1 * K + 8 * K + 8 * K) (4 * (k + 1))"
  let ?m4 = "memmove ?m3 (h + 1 * k + 8 * k + 8 * k + 4 * (k + 1)) (h + 1 * K + 8 * K + 8 * K + 4 * (K + 1)) S"
  have r: "region mem h kls" "region mem (h + 1 * K) (u64s iks)" "region mem (h + 1 * K + 8 * K) (u64s lvs)"
    using assms(1) by (simp_all add: arrays_at_def)
  have rs: "region mem (h + 1 * K + 8 * K + 8 * K) (u32s offs)" "region mem (h + 1 * K + 8 * K + 8 * K + 4 * (K + 1)) sfs" if has
    using assms(1) that by (simp_all add: arrays_at_def)
  have b: "h + 1 * K + 8 * K + 8 * k \<le> length mem"
    using r(3) assms(5) by (simp add: region_def)
  have bs: "h + 1 * K + 8 * K + 8 * K + 4 * (K + 1) + S \<le> length mem" if has using rs(2) [OF that] assms(7) by (simp add: region_def)
  have l1: "length ?m1 = length mem" using b assms(2) by simp
  have l2: "length ?m2 = length mem" using b assms(2) l1 by simp
  have a1: "region ?m1 h kls" "region ?m1 (h + 1 * k) (u64s iks)" "region ?m1 (h + 1 * K + 8 * K) (u64s lvs)"
    using r b assms(2-5) by (auto intro!: region_memmove_other region_memmove)
  have s1: "region ?m1 (h + 1 * K + 8 * K + 8 * K) (u32s offs)" "region ?m1 (h + 1 * K + 8 * K + 8 * K + 4 * (K + 1)) sfs" if has
    using rs [OF that] b assms(2-5) by (auto intro!: region_memmove_other)
  have a2: "region ?m2 h kls" "region ?m2 (h + 1 * k) (u64s iks)" "region ?m2 (h + 1 * k + 8 * k) (u64s lvs)"
    using a1 b assms(2-5) l1 by (auto intro!: region_memmove_other region_memmove)
  have s2: "region ?m2 (h + 1 * K + 8 * K + 8 * K) (u32s offs)" "region ?m2 (h + 1 * K + 8 * K + 8 * K + 4 * (K + 1)) sfs" if has
    using s1 [OF that] b assms(2-5) l1 by (auto intro!: region_memmove_other)
  show "arrays_at has (compact h has (startpos h K) k S mem) (startpos h k) kls iks lvs offs sfs"
    "length (compact h has (startpos h K) k S mem) = length mem"
  proof (atomize (full), cases has)
    case False
    have z: "memmove x y z 0 = x" if "y \<le> length x" for x y z using that by (simp add: memmove_def poke_def peek_def)
    have "compact h has (startpos h K) k S mem = ?m2"
      using False z [of "h + 1 * k + 8 * k + 8 * k" ?m2] b assms(2) l2 by (simp add: compact_def Let_def)
    with a2 l2 False show "arrays_at has (compact h has (startpos h K) k S mem) (startpos h k) kls iks lvs offs sfs \<and>
      length (compact h has (startpos h K) k S mem) = length mem" by (simp add: arrays_at_def)
  next
    case True
    note bs = bs [OF True]
    have l3: "length ?m3 = length mem" using bs assms(2) l2 by simp
    have l4: "length ?m4 = length mem" using bs assms(2) l3 by simp
    have a3: "region ?m3 h kls" "region ?m3 (h + 1 * k) (u64s iks)" "region ?m3 (h + 1 * k + 8 * k) (u64s lvs)"
      using a2 bs assms(2-5) l2 by (auto intro!: region_memmove_other)
    have s3: "region ?m3 (h + 1 * k + 8 * k + 8 * k) (u32s offs)" "region ?m3 (h + 1 * K + 8 * K + 8 * K + 4 * (K + 1)) sfs"
      using s2 [OF True] bs assms(2-7) l2 by (auto intro!: region_memmove_other region_memmove)
    have a4: "region ?m4 h kls" "region ?m4 (h + 1 * k) (u64s iks)" "region ?m4 (h + 1 * k + 8 * k) (u64s lvs)"
      using a3 bs assms(2-5) l3 by (auto intro!: region_memmove_other)
    have s4: "region ?m4 (h + 1 * k + 8 * k + 8 * k) (u32s offs)" "region ?m4 (h + 1 * k + 8 * k + 8 * k + 4 * (k + 1)) sfs"
      using s3 bs assms(2-7) l3 by (auto intro!: region_memmove_other region_memmove)
    have "compact h has (startpos h K) k S mem = ?m4" using True by (simp add: compact_def Let_def)
    with a4 s4 l4 show "arrays_at has (compact h has (startpos h K) k S mem) (startpos h k) kls iks lvs offs sfs \<and>
      length (compact h has (startpos h K) k S mem) = length mem" by (simp add: arrays_at_def)
  qed
qed

text \<open>Slots, given their parts.\<close>

definition offs :: "node_slot list \<Rightarrow> nat list" where
  "offs xs = map (suf_offset xs) [0..<length xs + 1]"

lemma length_offs [simp]: "length (offs xs) = length xs + 1"
  by (simp add: offs_def)

definition slots_at :: "bool \<Rightarrow> byte list \<Rightarrow> array_pos \<Rightarrow> node_slot list \<Rightarrow> bool" where
  "slots_at has mem ap xs \<longleftrightarrow>
     arrays_at has mem ap (map slot_kl xs) (map slot_ikey xs) (map slot_lv xs) (offs xs) (sufs xs)"

lemma offs_small: "length (sufs xs) < 2 ^ 31 \<Longrightarrow> \<forall>w \<in> set (offs xs). w < 2 ^ 32"
proof
  fix w
  assume "length (sufs xs) < 2 ^ 31" "w \<in> set (offs xs)"
  then obtain i where "w = suf_offset xs i" "i \<le> length xs" by (auto simp: offs_def simp del: upt_Suc)
  moreover have "suf_offset xs i \<le> length (sufs xs)" using suf_offset_le [of xs i] by (simp add: suf_offset_all)
  ultimately show "w < 2 ^ 32" using \<open>length (sufs xs) < 2 ^ 31\<close> by simp
qed

lemma slots_at_packed:
  assumes "slots_at has mem ap xs" "length (sufs xs) < 2 ^ 31" "\<not> has \<Longrightarrow> sufs xs = []"
  shows "packed_at has mem ap xs"
proof -
  have r: "region mem (at_ikeylen ap) (map slot_kl xs)" "region mem (at_ikey ap) (u64s (map slot_ikey xs))"
    "region mem (at_lv ap) (u64s (map slot_lv xs))"
    "has \<Longrightarrow> region mem (at_ksuf_offset ap) (u32s (offs xs))" "has \<Longrightarrow> region mem (at_ksuf ap) (sufs xs)"
    using assms(1) by (auto simp: slots_at_def arrays_at_def)
  have o: "rd32 mem (at_ksuf_offset ap + 4 * i) = suf_offset xs i" if has "i \<le> length xs" for i
  proof -
    have "rd32 mem (at_ksuf_offset ap + 4 * i) = offs xs ! i"
      using r(4) [OF that(1)] region_u32s [OF offs_small [OF assms(2)]] that(2) by simp
    also have "\<dots> = suf_offset xs i" using that(2) by (simp add: offs_def del: upt_Suc)
    finally show ?thesis .
  qed
  have "\<forall>i < length xs. rd8 mem (at_ikeylen ap + i) = slot_kl (xs ! i) \<and>
      rd64 mem (at_ikey ap + 8 * i) = slot_ikey (xs ! i) \<and> rd64 mem (at_lv ap + 8 * i) = slot_lv (xs ! i)"
    using r(1) [unfolded region_bytes] r(2,3) [unfolded region_u64s] by simp
  moreover have "at_ksuf ap + length (sufs xs) \<le> length mem \<and> peek mem (at_ksuf ap) (length (sufs xs)) = sufs xs" if has
    using r(5) [OF that] by (simp add: region_def)
  ultimately show ?thesis using o assms(3) by (simp add: packed_at_def)
qed

text \<open>The arrays of \<open>n\<close> moved out of the way.\<close>

lemma relocate_ok:
  assumes at: "slots_at has mem (startpos h k) xs" and k: "k = length xs" and mono: "k \<le> K" "length (sufs xs) \<le> S"
    and dst: "dst = \<lparr>at_ikeylen = h + (K - k), at_ikey = h + 1 * K + 8 * (K - k), at_lv = h + 1 * K + 8 * K + 8 * (K - k),
       at_ksuf_offset = h + 1 * K + 8 * K + 8 * K + 4 * (K - k),
       at_ksuf = h + 1 * K + 8 * K + 8 * K + 4 * (K + 1) + (S - length (sufs xs))\<rparr>"
    and len: "at_ikeylen len = k" "at_ikey len = 8 * k" "at_lv len = 8 * k" "at_ksuf_offset len = 4 * (k + 1)"
      "has \<Longrightarrow> at_ksuf len = length (sufs xs)"
    and room: "length mem = h + 1 * K + 8 * K + 8 * K + (if has then 4 * (K + 1) + S else 0)"
  shows "slots_at has (relocate has dst (startpos h k) len mem) dst xs"
    and "length (relocate has dst (startpos h k) len mem) = length mem"
proof -
  let ?kl = "map slot_kl xs" and ?ik = "u64s (map slot_ikey xs)" and ?lv = "u64s (map slot_lv xs)"
  define m1 where "m1 = (if has then memmove mem (at_ksuf dst) (at_ksuf (startpos h k)) (at_ksuf len) else mem)"
  define m2 where "m2 = (if has then memmove m1 (at_ksuf_offset dst) (at_ksuf_offset (startpos h k)) (at_ksuf_offset len) else m1)"
  define m3 where "m3 = memmove m2 (at_lv dst) (at_lv (startpos h k)) (at_lv len)"
  define m4 where "m4 = memmove m3 (at_ikey dst) (at_ikey (startpos h k)) (at_ikey len)"
  define m5 where "m5 = memmove m4 (at_ikeylen dst) (at_ikeylen (startpos h k)) (at_ikeylen len)"
  have r: "region mem h ?kl" "region mem (h + 1 * k) ?ik" "region mem (h + 1 * k + 8 * k) ?lv"
    using at by (simp_all add: slots_at_def arrays_at_def)
  have rs: "region mem (h + 1 * k + 8 * k + 8 * k) (u32s (offs xs))" "region mem (h + 1 * k + 8 * k + 8 * k + 4 * (k + 1)) (sufs xs)" if has
    using at that by (simp_all add: slots_at_def arrays_at_def)
  have a1: "region m1 h ?kl" "region m1 (h + 1 * k) ?ik" "region m1 (h + 1 * k + 8 * k) ?lv" "length m1 = length mem"
    using r room mono k len by (auto simp: m1_def dst intro!: region_memmove_other)
  have s1: "region m1 (h + 1 * k + 8 * k + 8 * k) (u32s (offs xs))" "region m1 (at_ksuf dst) (sufs xs)" if has
    using rs [OF that] room mono k len that by (auto simp: m1_def dst intro!: region_memmove_other region_memmove)
  have a2: "region m2 h ?kl" "region m2 (h + 1 * k) ?ik" "region m2 (h + 1 * k + 8 * k) ?lv" "length m2 = length mem"
    using a1 room mono k len by (auto simp: m2_def dst intro!: region_memmove_other)
  have s2: "region m2 (at_ksuf_offset dst) (u32s (offs xs))" "region m2 (at_ksuf dst) (sufs xs)" if has
    using s1 [OF that] a1(4) room mono k len that by (auto simp: m2_def dst intro!: region_memmove_other region_memmove)
  have a3: "region m3 h ?kl" "region m3 (h + 1 * k) ?ik" "region m3 (at_lv dst) ?lv" "length m3 = length mem"
    using a2 room mono k len by (auto simp: m3_def dst intro!: region_memmove_other region_memmove)
  have s3: "region m3 (at_ksuf_offset dst) (u32s (offs xs))" "region m3 (at_ksuf dst) (sufs xs)" if has
    using s2 [OF that] a2(4) room mono k len that by (auto simp: m3_def dst intro!: region_memmove_other)
  have a4: "region m4 h ?kl" "region m4 (at_ikey dst) ?ik" "region m4 (at_lv dst) ?lv" "length m4 = length mem"
    using a3 room mono k len by (auto simp: m4_def dst intro!: region_memmove_other region_memmove)
  have s4: "region m4 (at_ksuf_offset dst) (u32s (offs xs))" "region m4 (at_ksuf dst) (sufs xs)" if has
    using s3 [OF that] a3(4) room mono k len that by (auto simp: m4_def dst intro!: region_memmove_other)
  have a5: "region m5 (at_ikeylen dst) ?kl" "region m5 (at_ikey dst) ?ik" "region m5 (at_lv dst) ?lv" "length m5 = length mem"
    using a4 room mono k len by (auto simp: m5_def dst intro!: region_memmove_other region_memmove)
  have s5: "region m5 (at_ksuf_offset dst) (u32s (offs xs))" "region m5 (at_ksuf dst) (sufs xs)" if has
    using s4 [OF that] a4(4) room mono k len that by (auto simp: m5_def dst intro!: region_memmove_other)
  have "relocate has dst (startpos h k) len mem = m5" by (simp add: relocate_def Let_def m1_def m2_def m3_def m4_def m5_def)
  with a5 s5 show "slots_at has (relocate has dst (startpos h k) len mem) dst xs"
    "length (relocate has dst (startpos h k) len mem) = length mem"
    by (simp_all add: slots_at_def arrays_at_def)
qed

section \<open>Appending\<close>

lemma add_offsets:
  assumes "a + 4 * length ws \<le> length m" "\<forall>i < length ws. rd32 m (a + 4 * i) = ws ! i" "\<forall>w \<in> set ws. w + c < 2 ^ 32" "k \<le> length ws"
    and F: "F = (\<lambda>i m. wr32 m (a + 4 * i) (rd32 m (a + 4 * i) + c))"
  shows "length (fold F [0..<k] m) = length m \<and>
    (\<forall>i < length ws. rd32 (fold F [0..<k] m) (a + 4 * i) = (if i < k then ws ! i + c else ws ! i)) \<and>
    (\<forall>b bs. region m b bs \<longrightarrow> b + length bs \<le> a \<or> a + 4 * length ws \<le> b \<longrightarrow> region (fold F [0..<k] m) b bs)"
  using assms(4)
proof (induction k)
  case 0
  then show ?case using assms(2) by simp
next
  case (Suc k)
  let ?m = "fold F [0..<k] m"
  have IH: "length ?m = length m" "\<And>i. i < length ws \<Longrightarrow> rd32 ?m (a + 4 * i) = (if i < k then ws ! i + c else ws ! i)"
    "\<And>b bs. region m b bs \<Longrightarrow> b + length bs \<le> a \<or> a + 4 * length ws \<le> b \<Longrightarrow> region ?m b bs"
    using Suc by auto
  have k: "k < length ws" using Suc.prems by simp
  have step: "fold F [0..<Suc k] m = wr32 ?m (a + 4 * k) (ws ! k + c)" using IH(2) [OF k] by (simp add: F)
  have inr: "a + 4 * k + 4 \<le> length ?m" using k assms(1) IH(1) by linarith
  have small: "ws ! k + c < 2 ^ 32" using assms(3) k by simp
  have "rd32 (wr32 ?m (a + 4 * k) (ws ! k + c)) (a + 4 * i) = (if i < Suc k then ws ! i + c else ws ! i)" if "i < length ws" for i
  proof (cases "i = k")
    case True
    then show ?thesis using rd_wr_same(2) [OF inr, of "ws ! k + c"] small by simp
  next
    case False
    have "a + 4 * i + 4 \<le> length ?m" using that assms(1) IH(1) by linarith
    then show ?thesis using rd_wr_elem(1) [OF inr, of i "ws ! k + c"] False IH(2) [OF that] by simp
  qed
  moreover have "region (wr32 ?m (a + 4 * k) (ws ! k + c)) b bs"
    if "region m b bs" "b + length bs \<le> a \<or> a + 4 * length ws \<le> b" for b bs
    unfolding wr32_def by (rule region_poke_other [OF IH(3) [OF that]]) (use inr k that(2) in auto)
  moreover have "length (wr32 ?m (a + 4 * k) (ws ! k + c)) = length m" using inr IH(1) by simp
  ultimately show ?case unfolding step by blast
qed

lemma offs_append: "offs (N @ M) = butlast (offs N) @ map (\<lambda>x. x + length (sufs N)) (offs M)"
proof -
  have "[0..<length (N @ M) + 1] = [0..<length N] @ map (\<lambda>i. i + length N) [0..<length M + 1]"
    using upt_add_eq_append [of 0 "length N" "length M + 1"] map_add_upt [of "length N" "length M + 1"]
    by (simp del: upt_Suc add: ac_simps)
  moreover have "suf_offset (N @ M) i = suf_offset N i" if "i < length N" for i using that by (simp add: suf_offset_def)
  moreover have "suf_offset (N @ M) (i + length N) = suf_offset M i + length (sufs N)" for i
    by (simp add: suf_offset_def sufs_def)
  moreover have "butlast (offs N) = map (suf_offset N) [0..<length N]" by (simp add: offs_def)
  ultimately show ?thesis by (simp add: offs_def comp_def del: upt_Suc)
qed

lemma sufs_append [simp]: "sufs (xs @ ys) = sufs xs @ sufs ys"
  by (simp add: sufs_def)

lemma append_ok:
  assumes N: "slots_at has mem (startpos h n) N" "n = length N" and M: "slots_at has m (startpos h k) M" "k = length M"
    and small: "length (sufs M) + length (sufs N) < 2 ^ 31"
    and nl: "at_ikeylen nl = n" "at_ikey nl = 8 * n" "at_lv nl = 8 * n" "at_ksuf_offset nl = 4 * (n + 1)" "has \<Longrightarrow> at_ksuf nl = length (sufs N)"
    and ml: "at_ikeylen ml = k" "at_ikey ml = 8 * k" "at_lv ml = 8 * k" "at_ksuf_offset ml = 4 * (k + 1)" "has \<Longrightarrow> at_ksuf ml = length (sufs M)"
    and room: "length mem = h + 1 * K + 8 * K + 8 * K + (if has then 4 * (K + 1) + (length (sufs M) + length (sufs N)) else 0)" "K = n + k"
  shows "slots_at has (append_arrays has (startpos h K) (startpos h n) nl (startpos h k) ml k n m mem) (startpos h K) (N @ M) \<and>
    length (append_arrays has (startpos h K) (startpos h n) nl (startpos h k) ml k n m mem) = length mem"
proof -
  let ?kl = "map slot_kl N" and ?ik = "u64s (map slot_ikey N)" and ?lv = "u64s (map slot_lv N)"
  let ?S = "length (sufs N)"
  have r: "region mem h ?kl" "region mem (h + 1 * n) ?ik" "region mem (h + 1 * n + 8 * n) ?lv"
    using N by (simp_all add: slots_at_def arrays_at_def)
  have rs: "region mem (h + 1 * n + 8 * n + 8 * n) (u32s (offs N))" "region mem (h + 1 * n + 8 * n + 8 * n + 4 * (n + 1)) (sufs N)" if has
    using N that by (simp_all add: slots_at_def arrays_at_def)
  define m1 where "m1 = (if has then memmove mem (h + 1 * K + 8 * K + 8 * K + 4 * (K + 1)) (h + 1 * n + 8 * n + 8 * n + 4 * (n + 1)) (at_ksuf nl) else mem)"
  define m2 where "m2 = (if has then memmove m1 (h + 1 * K + 8 * K + 8 * K) (h + 1 * n + 8 * n + 8 * n) (4 * (n + 1)) else m1)"
  define m3 where "m3 = memmove m2 (h + 1 * K + 8 * K) (h + 1 * n + 8 * n) (8 * n)"
  define m4 where "m4 = memmove m3 (h + 1 * K) (h + 1 * n) (8 * n)"
  note lens = N(2) M(2) nl ml room
  have a1: "region m1 h ?kl" "region m1 (h + 1 * n) ?ik" "region m1 (h + 1 * n + 8 * n) ?lv" "length m1 = length mem"
    using r lens by (auto simp: m1_def intro!: region_memmove_other)
  have s1: "region m1 (h + 1 * n + 8 * n + 8 * n) (u32s (offs N))" "region m1 (h + 1 * K + 8 * K + 8 * K + 4 * (K + 1)) (sufs N)" if has
    using rs [OF that] lens that by (auto simp: m1_def intro!: region_memmove_other region_memmove)
  have a2: "region m2 h ?kl" "region m2 (h + 1 * n) ?ik" "region m2 (h + 1 * n + 8 * n) ?lv" "length m2 = length mem"
    using a1 lens by (auto simp: m2_def intro!: region_memmove_other)
  have s2: "region m2 (h + 1 * K + 8 * K + 8 * K) (u32s (offs N))" "region m2 (h + 1 * K + 8 * K + 8 * K + 4 * (K + 1)) (sufs N)" if has
    using s1 [OF that] a1(4) lens that by (auto simp: m2_def intro!: region_memmove_other region_memmove)
  have a3: "region m3 h ?kl" "region m3 (h + 1 * n) ?ik" "region m3 (h + 1 * K + 8 * K) ?lv" "length m3 = length mem"
    using a2 lens by (auto simp: m3_def intro!: region_memmove_other region_memmove)
  have s3: "region m3 (h + 1 * K + 8 * K + 8 * K) (u32s (offs N))" "region m3 (h + 1 * K + 8 * K + 8 * K + 4 * (K + 1)) (sufs N)" if has
    using s2 [OF that] a2(4) lens that by (auto simp: m3_def intro!: region_memmove_other)
  have a4: "region m4 h ?kl" "region m4 (h + 1 * K) ?ik" "region m4 (h + 1 * K + 8 * K) ?lv" "length m4 = length mem"
    using a3 lens by (auto simp: m4_def intro!: region_memmove_other region_memmove)
  have s4: "region m4 (h + 1 * K + 8 * K + 8 * K) (u32s (offs N))" "region m4 (h + 1 * K + 8 * K + 8 * K + 4 * (K + 1)) (sufs N)" if has
    using s3 [OF that] a3(4) lens that by (auto simp: m4_def intro!: region_memmove_other)
  let ?c = "rd32 m4 (h + 1 * K + 8 * K + 8 * K + 4 * n)"
  let ?F = "\<lambda>i m. wr32 m (h + 1 * k + 8 * k + 8 * k + 4 * i) (rd32 m (h + 1 * k + 8 * k + 8 * k + 4 * i) + ?c)"
  define m' where "m' = (if has then fold ?F [0..<k + 1] m else m)"
  let ?offs = "map (\<lambda>x. x + ?S) (offs M)"
  have q: "region m h (map slot_kl M)" "region m (h + 1 * k) (u64s (map slot_ikey M))" "region m (h + 1 * k + 8 * k) (u64s (map slot_lv M))"
    using M by (simp_all add: slots_at_def arrays_at_def)
  have q': "region m' h (map slot_kl M) \<and> region m' (h + 1 * k) (u64s (map slot_ikey M)) \<and> region m' (h + 1 * k + 8 * k) (u64s (map slot_lv M)) \<and>
    (has \<longrightarrow> region m' (h + 1 * k + 8 * k + 8 * k) (u32s ?offs) \<and> region m' (h + 1 * k + 8 * k + 8 * k + 4 * (k + 1)) (sufs M))"
  proof (cases has)
    case True
    have c: "?c = ?S"
    proof -
      have "rd32 m4 (h + 1 * K + 8 * K + 8 * K + 4 * n) = offs N ! n"
        using s4(1) [OF True] region_u32s [OF offs_small] small lens(1) by simp
      then show ?thesis by (simp add: offs_def lens(1) suf_offset_all nth_append)
    qed
    have qs: "region m (h + 1 * k + 8 * k + 8 * k) (u32s (offs M))" "region m (h + 1 * k + 8 * k + 8 * k + 4 * (k + 1)) (sufs M)"
      using M True by (simp_all add: slots_at_def arrays_at_def)
    have ro: "h + 1 * k + 8 * k + 8 * k + 4 * length (offs M) \<le> length m"
      "\<forall>i < length (offs M). rd32 m (h + 1 * k + 8 * k + 8 * k + 4 * i) = offs M ! i"
      using qs(1) region_u32s [OF offs_small [of M]] small by simp_all
    have le: "w \<le> length (sufs M)" if "w \<in> set (offs M)" for w
      using that suf_offset_le [of M] by (auto simp: offs_def suf_offset_all simp del: upt_Suc)
    have lt: "\<forall>w \<in> set (offs M). w + ?c < 2 ^ 32" using le small unfolding c by fastforce
    have K: "k + 1 \<le> length (offs M)" using lens(2) by simp
    note fo = add_offsets [OF ro lt K refl]
    have eq: "m' = fold ?F [0..<k + 1] m" using True by (simp add: m'_def)
    have f: "length m' = length m" "\<forall>i < length (offs M). rd32 m' (h + 1 * k + 8 * k + 8 * k + 4 * i) = offs M ! i + ?S"
      "\<And>b bs. region m b bs \<Longrightarrow> b + length bs \<le> h + 1 * k + 8 * k + 8 * k \<or> h + 1 * k + 8 * k + 8 * k + 4 * length (offs M) \<le> b \<Longrightarrow>
         region m' b bs"
    proof -
      show "length m' = length m" using fo unfolding eq by (rule conjunct1)
      show "\<forall>i < length (offs M). rd32 m' (h + 1 * k + 8 * k + 8 * k + 4 * i) = offs M ! i + ?S"
      proof (intro allI impI)
        fix i assume i: "i < length (offs M)"
        then have "i < k + 1" using lens(2) by simp
        with fo [THEN conjunct2, THEN conjunct1, rule_format, OF i]
        show "rd32 m' (h + 1 * k + 8 * k + 8 * k + 4 * i) = offs M ! i + ?S" unfolding eq c by (simp only: if_True)
      qed
      show "\<And>b bs. region m b bs \<Longrightarrow> b + length bs \<le> h + 1 * k + 8 * k + 8 * k \<or> h + 1 * k + 8 * k + 8 * k + 4 * length (offs M) \<le> b \<Longrightarrow>
         region m' b bs" using fo unfolding eq by blast
    qed
    have "\<forall>w \<in> set ?offs. w < 2 ^ 32" using lt c by auto
    then have "region m' (h + 1 * k + 8 * k + 8 * k) (u32s ?offs)"
      using f(1,2) ro(1) by (subst region_u32s) auto
    moreover have "region m' (h + 1 * k + 8 * k + 8 * k + 4 * (k + 1)) (sufs M)" by (rule f(3) [OF qs(2)]) (simp add: lens(2))
    moreover have "region m' h (map slot_kl M)" by (rule f(3) [OF q(1)]) (simp add: lens(2))
    moreover have "region m' (h + 1 * k) (u64s (map slot_ikey M))" by (rule f(3) [OF q(2)]) (simp add: lens(2))
    moreover have "region m' (h + 1 * k + 8 * k) (u64s (map slot_lv M))" by (rule f(3) [OF q(3)]) (simp add: lens(2))
    ultimately show ?thesis by blast
  qed (use q in \<open>simp add: m'_def\<close>)
  then have p: "region m' h (map slot_kl M)" "region m' (h + 1 * k) (u64s (map slot_ikey M))" "region m' (h + 1 * k + 8 * k) (u64s (map slot_lv M))"
    "has \<Longrightarrow> region m' (h + 1 * k + 8 * k + 8 * k) (u32s ?offs)" "has \<Longrightarrow> region m' (h + 1 * k + 8 * k + 8 * k + 4 * (k + 1)) (sufs M)"
    by simp_all
  have pb: "h + 1 * k + 8 * k + 8 * k \<le> length m'" using p(3) lens(2) by (simp add: region_def)
  have pbs: "h + 1 * k + 8 * k + 8 * k + 4 * (k + 1) + length (sufs M) \<le> length m'" if has
    using p(5) [OF that] by (simp add: region_def)
  define m5 where "m5 = memcpy_from m4 (h + n) m' h k"
  define m6 where "m6 = memcpy_from m5 (h + 1 * K + 8 * n) m' (h + 1 * k) (8 * k)"
  define m7 where "m7 = memcpy_from m6 (h + 1 * K + 8 * K + 8 * n) m' (h + 1 * k + 8 * k) (8 * k)"
  have o: "u32s (offs N) = u32s (butlast (offs N)) @ u32s [?S]"
  proof -
    have "offs N = butlast (offs N) @ [?S]" by (simp add: offs_def suf_offset_all)
    then show ?thesis by (metis concat_append map_append u32s_def)
  qed
  have t4: "region m4 (h + 1 * K + 8 * K + 8 * K) (u32s (butlast (offs N)))" if has
    using s4(1) [OF that] by (simp add: o region_append)
  have a5: "region m5 h (?kl @ map slot_kl M)" "region m5 (h + 1 * K) ?ik" "region m5 (h + 1 * K + 8 * K) ?lv" "length m5 = length mem"
    using a4 lens p(1) pb by (auto simp: m5_def region_append intro!: region_memcpy_other region_memcpy)
  have s5: "region m5 (h + 1 * K + 8 * K + 8 * K) (u32s (butlast (offs N)))" "region m5 (h + 1 * K + 8 * K + 8 * K + 4 * (K + 1)) (sufs N)" if has
    using t4 [OF that] s4(2) [OF that] a4(4) lens pb by (auto simp: m5_def intro!: region_memcpy_other)
  have a6: "region m6 h (?kl @ map slot_kl M)" "region m6 (h + 1 * K) (?ik @ u64s (map slot_ikey M))" "region m6 (h + 1 * K + 8 * K) ?lv"
    "length m6 = length mem"
    using a5 lens p(2) pb by (auto simp: m6_def region_append intro!: region_memcpy_other region_memcpy)
  have s6: "region m6 (h + 1 * K + 8 * K + 8 * K) (u32s (butlast (offs N)))" "region m6 (h + 1 * K + 8 * K + 8 * K + 4 * (K + 1)) (sufs N)" if has
    using s5 [OF that] a5(4) lens pb by (auto simp: m6_def intro!: region_memcpy_other)
  have a7: "region m7 h (?kl @ map slot_kl M)" "region m7 (h + 1 * K) (?ik @ u64s (map slot_ikey M))"
    "region m7 (h + 1 * K + 8 * K) (?lv @ u64s (map slot_lv M))" "length m7 = length mem"
    using a6 lens p(3) pb by (auto simp: m7_def region_append intro!: region_memcpy_other region_memcpy)
  have s7: "region m7 (h + 1 * K + 8 * K + 8 * K) (u32s (butlast (offs N)))" "region m7 (h + 1 * K + 8 * K + 8 * K + 4 * (K + 1)) (sufs N)" if has
    using s6 [OF that] a6(4) lens pb by (auto simp: m7_def intro!: region_memcpy_other)
  have app: "append_arrays has (startpos h K) (startpos h n) nl (startpos h k) ml k n m mem =
      (if has then memcpy_from (memcpy_from m7 (h + 1 * K + 8 * K + 8 * K + 4 * (n + 1) - 4) m' (h + 1 * k + 8 * k + 8 * k) (4 * (k + 1)))
         (h + 1 * K + 8 * K + 8 * K + 4 * (K + 1) + at_ksuf nl) m' (h + 1 * k + 8 * k + 8 * k + 4 * (k + 1)) (at_ksuf ml)
       else m7)"
    unfolding append_arrays_def Let_def m7_def m6_def m5_def m'_def m4_def m3_def m2_def m1_def startpos_simps nl(1-4) ml(1-4) by (rule refl)
  have u: "u64s (xs @ ys) = u64s xs @ u64s ys" for xs ys by (simp add: u64s_def)
  show ?thesis
  proof (cases has)
    case False
    then show ?thesis using a7 app by (simp add: slots_at_def arrays_at_def u)
  next
    case True
    note s7 = s7 [OF True] and p45 = p(4,5) [OF True] and pbs = pbs [OF True] and l5 = nl(5) [OF True] ml(5) [OF True]
    define m8 where "m8 = memcpy_from m7 (h + 1 * K + 8 * K + 8 * K + 4 * n) m' (h + 1 * k + 8 * k + 8 * k) (4 * (k + 1))"
    define m9 where "m9 = memcpy_from m8 (h + 1 * K + 8 * K + 8 * K + 4 * (K + 1) + ?S) m' (h + 1 * k + 8 * k + 8 * k + 4 * (k + 1)) (length (sufs M))"
    have a8: "region m8 h (?kl @ map slot_kl M)" "region m8 (h + 1 * K) (?ik @ u64s (map slot_ikey M))"
      "region m8 (h + 1 * K + 8 * K) (?lv @ u64s (map slot_lv M))" "length m8 = length mem"
      "region m8 (h + 1 * K + 8 * K + 8 * K) (u32s (butlast (offs N)) @ u32s ?offs)" "region m8 (h + 1 * K + 8 * K + 8 * K + 4 * (K + 1)) (sufs N)"
      using a7 s7 lens True p45(1) pbs by (auto simp: m8_def region_append intro!: region_memcpy_other region_memcpy)
    have a9: "region m9 h (?kl @ map slot_kl M)" "region m9 (h + 1 * K) (?ik @ u64s (map slot_ikey M))"
      "region m9 (h + 1 * K + 8 * K) (?lv @ u64s (map slot_lv M))" "length m9 = length mem"
      "region m9 (h + 1 * K + 8 * K + 8 * K) (u32s (butlast (offs N)) @ u32s ?offs)"
      "region m9 (h + 1 * K + 8 * K + 8 * K + 4 * (K + 1)) (sufs N @ sufs M)"
      using a8 lens True p45(2) pbs by (auto simp: m9_def region_append intro!: region_memcpy_other region_memcpy)
    have "append_arrays has (startpos h K) (startpos h n) nl (startpos h k) ml k n m mem = m9"
      unfolding app m9_def m8_def using True l5 by (simp add: ac_simps)
    moreover have "u32s (offs (N @ M)) = u32s (butlast (offs N)) @ u32s ?offs" by (simp add: offs_append u32s_def)
    ultimately show ?thesis using a9 by (simp add: slots_at_def arrays_at_def u)
  qed
qed

end
