(* ===== verification/Merge_Node.thy ===== *)
theory Merge_Node
  imports Merge_Layout
begin

text \<open>
  Merging two nodes, and adding an item to a node, as a step from slots to slots: the block that
  results holds the merged slots, packed without gaps. The locale \<open>merge_node\<close> states what a
  kind of node has to provide.
\<close>

section \<open>The merged arrays\<close>

definition mg_row :: "merged \<Rightarrow> u64 \<Rightarrow> node_slot" where
  "mg_row r lv = (mg_kl r, mg_ik r, lv, mg_suf r)"

definition mg_rows :: "merged list \<Rightarrow> u64 list \<Rightarrow> node_slot list" where
  "mg_rows R lvs = map2 mg_row R lvs"

lemma mg_rows_simps:
  assumes "length lvs = length R"
  shows "length (mg_rows R lvs) = length R" and "map slot_kl (mg_rows R lvs) = map mg_kl R"
    and "map slot_ikey (mg_rows R lvs) = map mg_ik R" and "map slot_lv (mg_rows R lvs) = lvs"
    and "sufs (take i (mg_rows R lvs)) = mg_sufs (take i R)"
    and "sufs (mg_rows R lvs) = mg_sufs R"
    and "offs (mg_rows R lvs) = mg_offs R @ [length (mg_sufs R)]"
proof -
  show l: "length (mg_rows R lvs) = length R" using assms by (simp add: mg_rows_def)
  show "map slot_kl (mg_rows R lvs) = map mg_kl R" "map slot_ikey (mg_rows R lvs) = map mg_ik R" "map slot_lv (mg_rows R lvs) = lvs"
    using assms by (auto simp: mg_rows_def mg_row_def intro!: nth_equalityI)
  have m: "map slot_suf (mg_rows R lvs) = map mg_suf R" using assms by (auto simp: mg_rows_def mg_row_def intro!: nth_equalityI)
  show "sufs (take i (mg_rows R lvs)) = mg_sufs (take i R)" for i
    by (simp add: sufs_def mg_sufs_def take_map [symmetric] m)
  note t = this
  show s: "sufs (mg_rows R lvs) = mg_sufs R" by (simp add: sufs_def mg_sufs_def m)
  have "suf_offset (mg_rows R lvs) i = length (mg_sufs (take i R))" for i by (simp add: suf_offset_sufs t)
  then show "offs (mg_rows R lvs) = mg_offs R @ [length (mg_sufs R)]" by (simp add: offs_def mg_offs_def l)
qed

lemma region_of_view:
  assumes "room h K has mem" "k \<le> K"
  shows "take k (a_kl (view h K mem)) = xs \<Longrightarrow> region mem h xs"
    and "take k (a_ik (view h K mem)) = ys \<Longrightarrow> region mem (h + 1 * K) (u64s ys)"
    and "take k (a_lv (view h K mem)) = zs \<Longrightarrow> region mem (h + 1 * K + 8 * K) (u64s zs)"
    and "has \<Longrightarrow> take (k + 1) (a_off (view h K mem)) = os \<Longrightarrow> region mem (h + 1 * K + 8 * K + 8 * K) (u32s os)"
    and "has \<Longrightarrow> a \<le> length (a_suf (view h K mem)) \<Longrightarrow> take a (a_suf (view h K mem)) = bs \<Longrightarrow>
      region mem (h + 1 * K + 8 * K + 8 * K + 4 * (K + 1)) bs"
proof -
  have b: "h + 1 * K + 8 * K + 8 * K \<le> length mem" "has \<Longrightarrow> h + 1 * K + 8 * K + 8 * K + 4 * (K + 1) \<le> length mem"
    using assms(1) by (auto simp: room_def split: if_splits)
  show "region mem h xs" if "take k (a_kl (view h K mem)) = xs"
    using b(1) assms(2) that by (auto simp: region_bytes view_def)
  show "region mem (h + 1 * K) (u64s ys)" if "take k (a_ik (view h K mem)) = ys"
    using b(1) assms(2) that by (auto simp: region_u64s view_def)
  show "region mem (h + 1 * K + 8 * K) (u64s zs)" if "take k (a_lv (view h K mem)) = zs"
    using b(1) assms(2) that by (auto simp: region_u64s view_def)
  show "region mem (h + 1 * K + 8 * K + 8 * K) (u32s os)" if has "take (k + 1) (a_off (view h K mem)) = os"
  proof -
    have os: "os = map (\<lambda>i. rd32 mem (h + 1 * K + 8 * K + 8 * K + 4 * i)) [0..<k + 1]"
      using that(2) assms(2) by (simp add: view_def take_map del: upt_Suc)
    have "\<forall>w \<in> set os. w < 2 ^ 32"
    proof
      fix w assume "w \<in> set os"
      then obtain i where "i < k + 1" "w = rd32 mem (h + 1 * K + 8 * K + 8 * K + 4 * i)" by (auto simp: os simp del: upt_Suc)
      then show "w < 2 ^ 32"
        using b(2) [OF that(1)] assms(2) rd32_less [of "h + 1 * K + 8 * K + 8 * K + 4 * i" mem] by simp
    qed
    then show ?thesis using b(2) [OF that(1)] assms(2) by (subst region_u32s) (auto simp: os simp del: upt_Suc)
  qed
  show "region mem (h + 1 * K + 8 * K + 8 * K + 4 * (K + 1)) bs"
    if has "a \<le> length (a_suf (view h K mem))" "take a (a_suf (view h K mem)) = bs"
    using b(2) [OF that(1)] that(2,3) by (auto simp: region_def view_def peek_def min_def)
qed

text \<open>What the loops leave in the block.\<close>

definition merged_state ::
  "nat \<Rightarrow> bool \<Rightarrow> node_slot list \<Rightarrow> node_slot list \<Rightarrow> merge_env \<Rightarrow> merge_state \<Rightarrow> merged list \<Rightarrow> u64 list \<Rightarrow> bool" where
  "merged_state h has M N E s R lvs \<longleftrightarrow>
     room_for h has M N s \<and> new_n_pos s = length R \<and> length R \<le> KK M N \<and> list_all2 mg_lv R lvs \<and>
     ms_task s = mg_tasks (me_n E) R \<and> length (mg_sufs R) \<le> length (sufs M) + length (sufs N) \<and> (\<not> has \<longrightarrow> mg_sufs R = []) \<and>
     arrays_at has (ms_mem s) (startpos h (KK M N)) (map mg_kl R) (map mg_ik R) lvs (mg_offs R @ [length (mg_sufs R)]) (mg_sufs R)"

lemma merged_final:
  assumes inv: "merge_inv h has M N E s R" and env: "env_ok h has M N E"
    and s': "s' = (if has then put_offset E s else s)"
  shows "\<exists>lvs. merged_state h has M N E s' R lvs"
proof -
  let ?K = "KK M N" and ?lvs = "take (length R) (a_lv (vw h M N s))"
  have room: "room_for h has M N s" and new: "new_n_pos s = length R" and np: "new_part has R (vw h M N s)"
    and task: "ms_task s = mg_tasks (me_n E) R" and pos: "m_pos s \<le> length M" "n_pos s \<le> length N" "length R \<le> m_pos s + n_pos s"
    using inv by (simp_all add: merge_inv_def)
  have le: "length R \<le> ?K" using pos by simp
  have suf: "length (mg_sufs R) \<le> length (sufs M) + length (sufs N)"
  proof (cases has)
    case True
    have "length (mg_sufs R) \<le> suf_offset M (m_pos s) + suf_offset N (n_pos s)" using inv True by (simp add: merge_inv_def)
    then show ?thesis using suf_offset_mono [OF pos(1), of M] suf_offset_mono [OF pos(2), of N] by (simp add: suf_offset_all)
  next
    case False
    then show ?thesis using np by (simp add: new_part_def)
  qed
  have lv: "list_all2 mg_lv R ?lvs" using np by (simp add: new_part_def)
  show ?thesis
  proof (cases has)
    case False
    have v: "take (length R) (a_kl (view h ?K (ms_mem s))) = map mg_kl R" "take (length R) (a_ik (view h ?K (ms_mem s))) = map mg_ik R"
      "take (length R) (a_lv (view h ?K (ms_mem s))) = ?lvs"
      using np by (simp_all add: new_part_def vw_def)
    note rg = region_of_view [OF room_room [OF room] le]
    have "merged_state h has M N E s' R ?lvs"
      using False room new le lv task suf np rg(1) [OF v(1)] rg(2) [OF v(2)] rg(3) [OF v(3)]
      by (simp add: merged_state_def arrays_at_def s' new_part_def)
    then show ?thesis ..
  next
    case True
    note roomT = room [unfolded eqTrueI [OF True]] and envT = env [unfolded eqTrueI [OF True]]
    have o: "new_n_pos s \<le> ?K" "new_n_ksuf_pos s - at_ksuf (me_newp E) = length (mg_sufs R)" "length (mg_sufs R) < 2 ^ 32"
      using new le inv True suf env by (simp_all add: merge_inv_def env_ok_def)
    note v = put_offset_view [OF envT roomT o]
    have n: "take (length R) (a_kl (vw h M N s)) = map mg_kl R" "take (length R) (a_ik (vw h M N s)) = map mg_ik R"
      "take (length R) (a_off (vw h M N s)) = mg_offs R" "take (length (mg_sufs R)) (a_suf (vw h M N s)) = mg_sufs R"
      using np True by (simp_all add: new_part_def)
    have off: "take (length R + 1) ((a_off (vw h M N s))[length R := length (mg_sufs R)]) = mg_offs R @ [length (mg_sufs R)]"
      using le n(3) by (simp add: take_Suc_conv_app_nth)
    let ?s = "put_offset E s"
    have w: "take (length R) (a_kl (view h ?K (ms_mem ?s))) = map mg_kl R" "take (length R) (a_ik (view h ?K (ms_mem ?s))) = map mg_ik R"
      "take (length R) (a_lv (view h ?K (ms_mem ?s))) = ?lvs"
      "take (length R + 1) (a_off (view h ?K (ms_mem ?s))) = mg_offs R @ [length (mg_sufs R)]"
      "take (length (mg_sufs R)) (a_suf (view h ?K (ms_mem ?s))) = mg_sufs R"
      "length (mg_sufs R) \<le> length (a_suf (view h ?K (ms_mem ?s)))"
      using n v off new suf vw_length_suf [OF roomT] by (simp_all add: vw_def)
    note rg = region_of_view [OF room_room [OF v(6)] le]
    have "merged_state h has M N E s' R ?lvs"
      using True v(6) new le lv task suf rg(1) [OF w(1)] rg(2) [OF w(2)] rg(3) [OF w(3)] rg(4) [OF TrueI w(4)] rg(5) [OF TrueI w(6,5)]
      by (simp add: merged_state_def arrays_at_def s')
    then show ?thesis ..
  qed
qed

definition merge_start :: "merge_env \<Rightarrow> byte list \<Rightarrow> merge_state" where
  "merge_start E mem = \<lparr>ms_mem = mem, m_pos = 0, n_pos = 0, new_n_pos = 0, m_ksuf_pos = at_ksuf (me_mp E),
     n_ksuf_pos = at_ksuf (me_np E), new_n_ksuf_pos = at_ksuf (me_newp E), ms_task = []\<rparr>"

text \<open>The state before the loops: the slots of \<open>n\<close> are at the end of the enlarged arrays.\<close>

lemma merge_start_inv:
  assumes env: "env_ok h has M N E" and at: "slots_at has mem (me_np E) N" and noks: "\<not> has \<Longrightarrow> sufs N = []"
    and room: "length mem = h + 1 * KK M N + 8 * KK M N + 8 * KK M N +
       (if has then 4 * (KK M N + 1) + length (sufs M) + length (sufs N) else 0)"
    and s: "ms_mem s = mem" "m_pos s = 0" "n_pos s = 0" "new_n_pos s = 0" "ms_task s = []" "m_ksuf_pos s = at_ksuf (me_mp E)"
      "n_ksuf_pos s = at_ksuf (me_np E)" "new_n_ksuf_pos s = at_ksuf (me_newp E)"
  shows "merge_inv h has M N E s []"
proof -
  let ?K = "KK M N" and ?v = "view h (KK M N) mem"
  have E: "at_ikeylen (me_np E) = h + length M" "at_ikey (me_np E) = h + 1 * ?K + 8 * length M"
     "at_lv (me_np E) = h + 1 * ?K + 8 * ?K + 8 * length M"
     "at_ksuf_offset (me_np E) = h + 1 * ?K + 8 * ?K + 8 * ?K + 4 * length M"
     "has \<Longrightarrow> at_ksuf (me_np E) = h + 1 * ?K + 8 * ?K + 8 * ?K + 4 * (?K + 1) + length (sufs M)"
    using env by (auto simp: env_ok_def)
  have small: "length (sufs N) < 2 ^ 31" using env by (simp add: env_ok_def)
  have r: "region mem (h + length M) (map slot_kl N)" "region mem (h + 1 * ?K + 8 * length M) (u64s (map slot_ikey N))"
    "region mem (h + 1 * ?K + 8 * ?K + 8 * length M) (u64s (map slot_lv N))"
    "has \<Longrightarrow> region mem (h + 1 * ?K + 8 * ?K + 8 * ?K + 4 * length M) (u32s (offs N))"
    "has \<Longrightarrow> region mem (h + 1 * ?K + 8 * ?K + 8 * ?K + 4 * (?K + 1) + length (sufs M)) (sufs N)"
    using at E by (auto simp: slots_at_def arrays_at_def)
  have "drop (length M) (a_kl ?v) = map slot_kl N"
    by (rule nth_equalityI) (use r(1) in \<open>auto simp: view_def region_bytes add.assoc\<close>)
  moreover have "drop (length M) (a_ik ?v) = map slot_ikey N"
    by (rule nth_equalityI) (use r(2) in \<open>auto simp: view_def region_u64s algebra_simps\<close>)
  moreover have "drop (length M) (a_lv ?v) = map slot_lv N"
    by (rule nth_equalityI) (use r(3) in \<open>auto simp: view_def region_u64s algebra_simps\<close>)
  moreover have "drop (length M) (a_off ?v) = map (suf_offset N) [0..<length N + 1]" if has
  proof -
    have "rd32 mem (h + 1 * ?K + 8 * ?K + 8 * ?K + 4 * length M + 4 * i) = offs N ! i" if "i < length N + 1" for i
      using r(4) [OF \<open>has\<close>] region_u32s [OF offs_small [OF small]] that by simp
    then have "drop (length M) (a_off ?v) = offs N"
      by (intro nth_equalityI) (auto simp: view_def algebra_simps simp del: upt_Suc)
    then show ?thesis by (simp add: offs_def)
  qed
  moreover have "drop (length (sufs M)) (a_suf ?v) = sufs N" if has
    using r(5) [OF that] room that by (simp add: view_def region_def peek_def algebra_simps)
  ultimately have "n_part has M N 0 (vw h M N s)"
    using noks by (simp add: n_part_def vw_def s suf_offset_def del: upt_Suc)
  then show ?thesis
    using room by (simp add: merge_inv_def room_for_def s new_part_def mg_sufs_def mg_offs_def mg_tasks_def suf_offset_def)
qed

lemma merge_arrays_ok:
  assumes env: "env_ok h has M N E" and at: "slots_at has mem (me_np E) N" and noks: "\<not> has \<Longrightarrow> sufs N = []"
    and room: "length mem = h + 1 * KK M N + 8 * KK M N + 8 * KK M N +
       (if has then 4 * (KK M N + 1) + length (sufs M) + length (sufs N) else 0)"
    and bare: "layers_bare M" "layers_bare N" and dis: "has \<or> slots_disjoint M N"
  shows "(\<exists>s R lvs. merge_arrays E mem = Goes_On s \<and> merge_slots (me_replaces E) M N = Goes_On R \<and> merged_state h has M N E s R lvs) \<or>
    merge_arrays E mem = Returns_False \<and> merge_slots (me_replaces E) M N = Returns_False"
proof -
  let ?s = "merge_start E mem"
  have inv: "merge_inv h has M N E ?s []"
    by (rule merge_start_inv [OF env at noks room]) (simp_all add: merge_start_def)
  have hk: "me_hasKsuf E = has" using env by (simp add: env_ok_def)
  have pos: "m_pos ?s = 0" "n_pos ?s = 0" by (simp_all add: merge_start_def)
  have lift: "lift_merge [] x = x" for x by (cases x) (simp_all add: lift_merge_def)
  have all: "merge_arrays E mem = and_then (merge_loop E ?s) (\<lambda>s. and_then (m_leftovers E s)
       (\<lambda>s. and_then (n_leftovers E s) (\<lambda>s. Goes_On (if has then put_offset E s else s))))"
    by (simp add: merge_arrays_def merge_start_def hk)
  from merge_loop_ok [OF inv env bare dis] consider
      "merge_loop E ?s = Returns_False" "merge_slots (me_replaces E) M N = Returns_False"
    | s R where "merge_loop E ?s = Goes_On s" "merge_inv h has M N E s R"
      "merge_slots (me_replaces E) M N = Goes_On (R @ map Kept (drop (m_pos s) M) @ map Kept (drop (n_pos s) N))"
    unfolding loop_ends_def pos lift drop_0 by blast
  then show ?thesis
  proof cases
    case 1
    then show ?thesis by (simp add: all)
  next
    case s: 2
    obtain s1 where s1: "m_leftovers E s = Goes_On s1" "merge_inv h has M N E s1 (R @ map Kept (drop (m_pos s) M))" "n_pos s1 = n_pos s"
      using m_leftovers_ok [OF s(2) env] by blast
    obtain s2 where s2: "n_leftovers E s1 = Goes_On s2"
        "merge_inv h has M N E s2 (R @ map Kept (drop (m_pos s) M) @ map Kept (drop (n_pos s) N))"
      using n_leftovers_ok [OF s1(2) env] s1(3) by auto
    obtain lvs where "merged_state h has M N E (if has then put_offset E s2 else s2)
        (R @ map Kept (drop (m_pos s) M) @ map Kept (drop (n_pos s) N)) lvs"
      using merged_final [OF s2(2) env refl] by blast
    moreover have "merge_arrays E mem = Goes_On (if has then put_offset E s2 else s2)" using s(1) s1(1) s2(1) by (simp add: all)
    ultimately show ?thesis using s(3) by blast
  qed
qed

end
