(* ===== verification/Merge_Two.thy ===== *)
theory Merge_Two
  imports Merge_Node
begin

text \<open>
  The step that merges two nodes, from slots to slots. \<open>node_slots K n xs\<close>: the node \<open>n\<close> holds the
  slots \<open>xs\<close>, packed as \<open>startpos\<close> says. The locale \<open>merge_node\<close> is the contract between a kind
  of node and the merge; \<^verbatim>\<open>massnode\<close> and \<^verbatim>\<open>massnode_dynamicvalue\<close> fulfil it.
\<close>

section \<open>Nodes as slots\<close>

definition node_slots :: "'n merge_ops \<Rightarrow> 'n \<Rightarrow> node_slot list \<Rightarrow> bool" where
  "node_slots K n xs \<longleftrightarrow>
     op_nkeys (go_ops K) n = length xs \<and> go_size K n = length (go_mem K n) \<and>
     length (go_mem K n) = go_sizeof K + 1 * length xs + 8 * length xs + 8 * length xs +
       (if go_has_ksuf K n then 4 * (length xs + 1) + length (sufs xs) else 0) \<and>
     (\<not> go_has_ksuf K n \<longrightarrow> sufs xs = []) \<and> length (sufs xs) < 2 ^ 31 \<and>
     slots_at (go_has_ksuf K n) (go_mem K n) (startpos (go_sizeof K) (length xs)) xs"

fun with_lv :: "u64 \<Rightarrow> node_slot \<Rightarrow> node_slot" where
  "with_lv x (kl, ik, lv, suf) = (kl, ik, x, suf)"

lemma with_lv_simps [simp]:
  "slot_kl (with_lv x r) = slot_kl r" "slot_ikey (with_lv x r) = slot_ikey r" "slot_lv (with_lv x r) = x"
  "slot_suf (with_lv x r) = slot_suf r"
  by (cases r; simp)+

lemma sufs_cong: "map slot_suf xs = map slot_suf ys \<Longrightarrow> sufs xs = sufs ys \<and> offs xs = offs ys"
proof -
  assume m: "map slot_suf xs = map slot_suf ys"
  then have l: "length xs = length ys" by (metis length_map)
  have "suf_offset xs i = suf_offset ys i" for i using m by (simp add: suf_offset_def take_map [symmetric])
  then show ?thesis using m l by (simp add: sufs_def offs_def)
qed

lemma map_with_lv:
  assumes "i < length xs"
  shows "map slot_kl (xs[i := with_lv x (xs ! i)]) = map slot_kl xs"
    and "map slot_ikey (xs[i := with_lv x (xs ! i)]) = map slot_ikey xs"
    and "map slot_suf (xs[i := with_lv x (xs ! i)]) = map slot_suf xs"
    and "map slot_lv (xs[i := with_lv x (xs ! i)]) = (map slot_lv xs)[i := x]"
  using assms by (auto simp: nth_list_update intro!: nth_equalityI)

lemma slots_at_set_lv:
  assumes "slots_at has mem (startpos h (length xs)) xs" "i < length xs"
    and "h + 1 * length xs + 8 * length xs + 8 * length xs \<le> length mem"
  shows "slots_at has (wr64 mem (h + 1 * length xs + 8 * length xs + 8 * i) x) (startpos h (length xs)) (xs[i := with_lv x (xs ! i)])"
proof -
  let ?k = "length xs" and ?xs = "xs[i := with_lv x (xs ! i)]"
  let ?a = "h + 1 * ?k + 8 * ?k"
  define m where "m = wr64 mem (?a + 8 * i) x"
  have b: "?a + 8 * i + length (bytes_of_u64 x) \<le> length mem" using assms(2,3) by simp
  note other = region_poke_other [OF _ b, folded wr64_def, folded m_def]
  have r: "region mem h (map slot_kl xs)" "region mem (h + 1 * ?k) (u64s (map slot_ikey xs))" "region mem ?a (u64s (map slot_lv xs))"
    "has \<Longrightarrow> region mem (?a + 8 * ?k) (u32s (offs xs))" "has \<Longrightarrow> region mem (?a + 8 * ?k + 4 * (?k + 1)) (sufs xs)"
    using assms(1) by (simp_all add: slots_at_def arrays_at_def)
  have "region m h (map slot_kl xs)" "region m (h + 1 * ?k) (u64s (map slot_ikey xs))"
    using other [OF r(1)] other [OF r(2)] by simp_all
  moreover have "has \<Longrightarrow> region m (?a + 8 * ?k) (u32s (offs xs))" "has \<Longrightarrow> region m (?a + 8 * ?k + 4 * (?k + 1)) (sufs xs)"
    using other [OF r(4)] other [OF r(5)] assms(2) by simp_all
  moreover have "region m ?a (u64s ((map slot_lv xs)[i := x]))"
    using r(3) assms(2,3) by (auto simp: region_u64s m_def nth_list_update layout_simps)
  moreover have "sufs ?xs = sufs xs" "offs ?xs = offs xs" using sufs_cong [OF map_with_lv(3) [OF assms(2)]] by simp_all
  ultimately show ?thesis
    unfolding slots_at_def arrays_at_def m_def [symmetric] map_with_lv [OF assms(2)] length_list_update startpos_simps by simp
qed

text \<open>The block of a node cut to the size of what it holds.\<close>

lemma slots_at_rows:
  assumes "arrays_at has mem (startpos h (length R)) (map mg_kl R) (map mg_ik R) lvs (mg_offs R @ [length (mg_sufs R)]) (mg_sufs R)"
    and "length lvs = length R"
  shows "slots_at has mem (startpos h (length R)) (mg_rows R lvs)"
  using assms(1) by (simp add: slots_at_def mg_rows_simps [OF assms(2)])

lemma slots_at_take:
  assumes "slots_at has mem (startpos h (length xs)) xs"
    and "h + 1 * length xs + 8 * length xs + 8 * length xs + (if has then 4 * (length xs + 1) + length (sufs xs) else 0) \<le> k"
  shows "slots_at has (take k mem) (startpos h (length xs)) xs"
  using assms by (auto simp: slots_at_def arrays_at_def split: if_splits intro!: region_take)

lemma slots_at_append_right: "slots_at has mem ap xs \<Longrightarrow> slots_at has (mem @ ys) ap xs"
  by (simp add: slots_at_def arrays_at_def region_append_right)

lemma merge_slots_full:
  "merge_slots rep M N = Goes_On R \<Longrightarrow> length R \<le> KK M N \<and> (length R = KK M N \<longrightarrow> length (mg_sufs R) = length (sufs M) + length (sufs N))"
proof (induction rep M N arbitrary: R rule: merge_slots.induct)
  case (3 rep m ms n ns)
  have c: "length R' \<le> KK xs ys \<Longrightarrow> length (x # R') \<le> Suc (KK xs ys)" for R' xs ys and x :: merged by simp
  show ?case
    using 3 by (fastforce simp: and_cons_def and_then_Goes_On mg_sufs_def sufs_def split: if_splits)
qed (auto simp: mg_sufs_def sufs_def comp_def)

text \<open>The slots of the merged node: those of \<open>m\<close> after those of \<open>n\<close>, or interleaved.\<close>

definition merge_rows :: "'n merge_ops \<Rightarrow> node_slot list \<Rightarrow> node_slot list \<Rightarrow> merged list outcome" where
  "merge_rows K M N =
     (if go_appends K \<and> slot_ikey (last N) < slot_ikey (hd M) then Goes_On (map Kept (N @ M))
      else merge_slots (go_replaces K) M N)"

text \<open>
  What a task does: the nodes in \<open>F\<close> are gone, and a node with the slots \<open>R\<close> is at \<open>q\<close>, the address of
  one of them or a fresh one. The values of the slots below which there is something to do are arbitrary.
\<close>

definition made_at :: "'n merge_ops \<Rightarrow> merge_alloc \<Rightarrow> u64 set \<Rightarrow> bool \<Rightarrow> merged list \<Rightarrow> 'n merge_heap \<Rightarrow> u64 \<Rightarrow> 'n merge_heap \<Rightarrow> bool" where
  "made_at K A F has R st q st' \<longleftrightarrow>
     (\<exists>n lvs. node_slots K n (mg_rows R lvs) \<and> list_all2 mg_lv R lvs \<and> go_has_ksuf K n = has \<and>
        mh_heap st' = (\<lambda>a. if a \<in> F then None else mh_heap st a)(q \<mapsto> n)) \<and>
     (q \<in> F \<or> (\<exists>i. mh_next st \<le> i \<and> i < mh_next st' \<and> q = al_addr A i)) \<and> mh_next st < mh_next st' \<and> mh_next st' \<le> mh_next st + 2 \<and>
     mh_task st' = mh_task st @ mg_tasks q R \<and> mh_root st' = mh_root st"

lemma made_atI:
  "node_slots K n xs \<Longrightarrow> xs = mg_rows R lvs \<Longrightarrow> list_all2 mg_lv R lvs \<Longrightarrow> go_has_ksuf K n = has \<Longrightarrow>
     heap = (\<lambda>a. if a \<in> F then None else mh_heap st a)(q \<mapsto> n) \<Longrightarrow> mh_heap st' = heap \<Longrightarrow>
     q \<in> F \<or> (\<exists>i. mh_next st \<le> i \<and> i < mh_next st' \<and> q = al_addr A i) \<Longrightarrow>
     mh_next st < mh_next st' \<and> mh_next st' \<le> mh_next st + 2 \<Longrightarrow>
     mh_task st' = mh_task st @ mg_tasks q R \<Longrightarrow> mh_root st' = mh_root st \<Longrightarrow> made_at K A F has R st q st'"
  unfolding made_at_def by blast

locale merge_node = static_node "go_ops K" node_ok fits
  for K :: "'n merge_ops" and node_ok :: "'n \<Rightarrow> bool" and fits :: "'n \<Rightarrow> mkey \<Rightarrow> bool" +
  assumes ikeylen_at: "op_ikeylen (go_ops K) n i = rd8 (go_mem K n) (at_ikeylen (startpos (go_sizeof K) (op_nkeys (go_ops K) n)) + i)"
    and ikey_at: "op_ikey (go_ops K) n i = rd64 (go_mem K n) (at_ikey (startpos (go_sizeof K) (op_nkeys (go_ops K) n)) + 8 * i)"
    and lv_at: "op_lv (go_ops K) n i = rd64 (go_mem K n) (at_lv (startpos (go_sizeof K) (op_nkeys (go_ops K) n)) + 8 * i)"
    and ksuf_at: "op_ksuf (go_ops K) n i =
      (if go_has_ksuf K n
       then peek (go_mem K n)
         (at_ksuf (startpos (go_sizeof K) (op_nkeys (go_ops K) n)) +
           rd32 (go_mem K n) (at_ksuf_offset (startpos (go_sizeof K) (op_nkeys (go_ops K) n)) + 4 * i))
         (offset_diff (go_mem K n) (at_ksuf_offset (startpos (go_sizeof K) (op_nkeys (go_ops K) n))) i)
       else [])"
    and set_lv_at: "go_mem K (op_set_lv (go_ops K) n i x) =
        wr64 (go_mem K n) (at_lv (startpos (go_sizeof K) (op_nkeys (go_ops K) n)) + 8 * i) x \<and>
      op_nkeys (go_ops K) (op_set_lv (go_ops K) n i x) = op_nkeys (go_ops K) n \<and>
      go_size K (op_set_lv (go_ops K) n i x) = go_size K n \<and> go_has_ksuf K (op_set_lv (go_ops K) n i x) = go_has_ksuf K n"
    and set_at: "has = go_has_ksuf K n \<Longrightarrow> go_mem K (go_set K n k sz has mem) = mem \<and> op_nkeys (go_ops K) (go_set K n k sz has mem) = k \<and>
      go_size K (go_set K n k sz has mem) = sz \<and> go_has_ksuf K (go_set K n k sz has mem) = has"
    and resize_at: "go_mem K (go_resize K raw n sz) = take sz (go_mem K n) @ map raw [length (go_mem K n)..<sz] \<and>
      op_nkeys (go_ops K) (go_resize K raw n sz) = op_nkeys (go_ops K) n \<and> go_has_ksuf K (go_resize K raw n sz) = go_has_ksuf K n"
    and ok_slots: "node_slots K n xs \<Longrightarrow> node_sorted (go_ops K) n \<Longrightarrow>
      (\<forall>i < length xs. kl_ok (op_ikeylen (go_ops K) n i)) \<Longrightarrow> node_ok n"
begin

lemma slots_read:
  assumes "node_slots K n xs" "i < length xs"
  shows "op_ikeylen (go_ops K) n i = slot_kl (xs ! i)" "op_ikey (go_ops K) n i = slot_ikey (xs ! i)"
    "op_lv (go_ops K) n i = slot_lv (xs ! i)" "op_ksuf (go_ops K) n i = slot_suf (xs ! i)"
proof -
  let ?has = "go_has_ksuf K n" and ?mem = "go_mem K n" and ?sp = "startpos (go_sizeof K) (length xs)"
  have nk: "op_nkeys (go_ops K) n = length xs" and small: "length (sufs xs) < 2 ^ 31" using assms(1) by (simp_all add: node_slots_def)
  have at: "packed_at ?has ?mem ?sp xs"
    by (rule slots_at_packed) (use assms(1) in \<open>simp_all add: node_slots_def\<close>)
  show "op_ikeylen (go_ops K) n i = slot_kl (xs ! i)" "op_ikey (go_ops K) n i = slot_ikey (xs ! i)"
    "op_lv (go_ops K) n i = slot_lv (xs ! i)"
    using at assms(2) by (simp_all add: packed_at_def ikeylen_at ikey_at lv_at nk)
  show "op_ksuf (go_ops K) n i = slot_suf (xs ! i)"
  proof (cases ?has)
    case True
    have o: "rd32 ?mem (at_ksuf_offset ?sp + 4 * j) = suf_offset xs j" if "j \<le> length xs" for j
      using at True that by (simp add: packed_at_def)
    have p: "at_ksuf ?sp + length (sufs xs) \<le> length ?mem" "peek ?mem (at_ksuf ?sp) (length (sufs xs)) = sufs xs"
      using at True by (simp_all add: packed_at_def)
    have le: "suf_offset xs (i + 1) \<le> length (sufs xs)" using suf_offset_le [of xs "i + 1"] by (simp add: suf_offset_all)
    then have d: "offset_diff ?mem (at_ksuf_offset ?sp) i = length (slot_suf (xs ! i))"
      using assms(2) small o [of i] o [of "i + 1"] suf_offset_Suc [OF assms(2)]
      by (simp add: offset_diff_def sub32_le)
    have "peek ?mem (at_ksuf ?sp + suf_offset xs i) (length (slot_suf (xs ! i))) =
        take (length (slot_suf (xs ! i))) (drop (suf_offset xs i) (peek ?mem (at_ksuf ?sp) (length (sufs xs))))"
      using le suf_offset_Suc [OF assms(2)] by (simp add: peek_def drop_take min_def add.commute)
    also have "\<dots> = slot_suf (xs ! i)" unfolding p(2) by (simp add: drop_sufs take_sufs assms(2))
    finally show ?thesis using True d o [of i] assms(2) by (simp add: ksuf_at nk)
  next
    case False
    then have "sufs xs = []" using assms(1) by (simp add: node_slots_def)
    then have "slot_suf (xs ! i) = []" using assms(2) by (simp add: sufs_def)
    then show ?thesis using False by (simp add: ksuf_at)
  qed
qed

lemma slots_set_lv:
  assumes "node_slots K n xs" "i < length xs"
  shows "node_slots K (op_set_lv (go_ops K) n i x) (xs[i := with_lv x (xs ! i)])"
proof -
  let ?sp = "startpos (go_sizeof K) (length xs)" and ?ys = "xs[i := with_lv x (xs ! i)]"
  let ?m = "wr64 (go_mem K n) (at_lv ?sp + 8 * i) x"
  have s: "sufs ?ys = sufs xs" using sufs_cong [OF map_with_lv(3) [OF assms(2)]] by simp
  have nk: "op_nkeys (go_ops K) n = length xs" using assms(1) by (simp add: node_slots_def)
  have b: "go_sizeof K + 1 * length xs + 8 * length xs + 8 * length xs \<le> length (go_mem K n)"
    using assms(1) by (simp add: node_slots_def)
  have at: "slots_at (go_has_ksuf K n) (go_mem K n) ?sp xs" using assms(1) by (simp add: node_slots_def)
  have l: "length ?m = length (go_mem K n)" using b assms(2) by simp
  show ?thesis
    using slots_at_set_lv [OF at assms(2) b, of x] set_lv_at [of n i x] l s assms(1) nk
    unfolding node_slots_def by simp
qed

lemma resized_slots:
  assumes "node_slots K n xs" "length (go_mem K n) \<le> sz"
  shows "length (go_mem K (go_resize K raw n sz)) = sz"
    and "slots_at (go_has_ksuf K n) (go_mem K (go_resize K raw n sz)) (startpos (go_sizeof K) (length xs)) xs"
    and "i < length xs \<Longrightarrow> op_ikey (go_ops K) (go_resize K raw n sz) i = slot_ikey (xs ! i)"
proof -
  let ?m = "go_mem K (go_resize K raw n sz)"
  show "length ?m = sz" using assms(2) resize_at [of raw n sz] by simp
  have at: "slots_at (go_has_ksuf K n) (go_mem K n) (startpos (go_sizeof K) (length xs)) xs"
    using assms(1) by (simp add: node_slots_def)
  then show s: "slots_at (go_has_ksuf K n) ?m (startpos (go_sizeof K) (length xs)) xs"
    using assms(2) resize_at [of raw n sz] by (simp add: slots_at_append_right)
  show "op_ikey (go_ops K) (go_resize K raw n sz) i = slot_ikey (xs ! i)" if "i < length xs"
  proof -
    have nk: "op_nkeys (go_ops K) n = length xs" using assms(1) by (simp add: node_slots_def)
    have "region ?m (at_ikey (startpos (go_sizeof K) (length xs))) (u64s (map slot_ikey xs))"
      using s by (simp add: slots_at_def arrays_at_def)
    then show ?thesis using that resize_at [of raw n sz] nk by (simp add: ikey_at region_u64s)
  qed
qed

lemma slots_nkeys: "node_slots K n xs \<Longrightarrow> op_nkeys (go_ops K) n = length xs"
  by (simp add: node_slots_def)

end

section \<open>Merging two nodes\<close>

text \<open>Where the arrays of \<open>n\<close> are moved to, and the environment of the loops.\<close>

definition moved_at :: "nat \<Rightarrow> bool \<Rightarrow> node_slot list \<Rightarrow> node_slot list \<Rightarrow> array_pos" where
  "moved_at h has M N =
     \<lparr>at_ikeylen = h + length M, at_ikey = h + 1 * KK M N + 8 * length M,
      at_lv = h + 1 * KK M N + 8 * KK M N + 8 * length M,
      at_ksuf_offset = h + 1 * KK M N + 8 * KK M N + 8 * KK M N + 4 * length M,
      at_ksuf = (if has then h + 1 * KK M N + 8 * KK M N + 8 * KK M N + 4 * (KK M N + 1) + length (sufs M)
        else h + 1 * KK M N + 8 * KK M N + 8 * KK M N + 4 * (KK M N + 1))\<rparr>"

definition merge_env_of :: "'n merge_ops \<Rightarrow> 'n \<Rightarrow> node_slot list \<Rightarrow> node_slot list \<Rightarrow> bool \<Rightarrow> u64 \<Rightarrow> merge_env" where
  "merge_env_of K m M N has p =
     \<lparr>me_m = go_mem K m, me_m_nkeys = length M, me_n_nkeys = length N, me_mp = startpos (go_sizeof K) (length M),
      me_np = moved_at (go_sizeof K) has M N, me_newp = startpos (go_sizeof K) (KK M N), me_hasKsuf = has,
      me_replaces = go_replaces K, me_n = p\<rparr>"

definition merged_size :: "nat \<Rightarrow> bool \<Rightarrow> node_slot list \<Rightarrow> node_slot list \<Rightarrow> nat" where
  "merged_size h has M N = h + 1 * KK M N + 8 * KK M N + 8 * KK M N +
     (if has then 4 * (KK M N + 1) + length (sufs M) + length (sufs N) else 0)"

context merge_node
begin

lemma set_again:
  "has = go_has_ksuf K n \<Longrightarrow> node_slots K (go_set K (go_resize K raw (go_set K n k sz has mem) sz') k' sz' has mem') xs \<longleftrightarrow>
     k' = length xs \<and> sz' = length mem' \<and>
     length mem' = go_sizeof K + 1 * length xs + 8 * length xs + 8 * length xs + (if has then 4 * (length xs + 1) + length (sufs xs) else 0) \<and>
     (\<not> has \<longrightarrow> sufs xs = []) \<and> length (sufs xs) < 2 ^ 31 \<and> slots_at has mem' (startpos (go_sizeof K) (length xs)) xs"
  using set_at [of has n k sz mem] resize_at [of raw "go_set K n k sz has mem" sz']
    set_at [of has "go_resize K raw (go_set K n k sz has mem) sz'" k' sz' mem']
  by (auto simp: node_slots_def)

lemma set_once:
  "has = go_has_ksuf K n \<Longrightarrow> node_slots K (go_set K n k' sz' has mem') xs \<longleftrightarrow>
     k' = length xs \<and> sz' = length mem' \<and>
     length mem' = go_sizeof K + 1 * length xs + 8 * length xs + 8 * length xs + (if has then 4 * (length xs + 1) + length (sufs xs) else 0) \<and>
     (\<not> has \<longrightarrow> sufs xs = []) \<and> length (sufs xs) < 2 ^ 31 \<and> slots_at has mem' (startpos (go_sizeof K) (length xs)) xs"
  using set_at [of has n k' sz' mem'] by (auto simp: node_slots_def)

lemma node_sizes:
  assumes "node_slots K m M" "node_slots K n N" "go_has_ksuf K m = has" "go_has_ksuf K n = has"
  shows "(if has then go_size K m + go_size K n - go_sizeof K - 4 else go_size K m + go_size K n - go_sizeof K) =
      merged_size (go_sizeof K) has M N"
  using assms by (auto simp: node_slots_def merged_size_def)

lemma moved_sizes:
  assumes "node_slots K n N" "go_has_ksuf K n = has" "\<not> has \<longrightarrow> sufs M = []"
  shows "length (go_mem K n) \<le> merged_size (go_sizeof K) has M N"
    and "moved_pos (startpos (go_sizeof K) (KK M N)) (array_len (go_sizeof K) (merged_size (go_sizeof K) has M N) (KK M N))
        (array_len (go_sizeof K) (go_size K n) (length N)) = moved_at (go_sizeof K) has M N"
  using assms by (auto simp: node_slots_def merged_size_def moved_pos_def array_len_def moved_at_def)

lemma merge_env_ok:
  assumes m: "node_slots K m M" and "go_has_ksuf K m = has" and "length (sufs M) + length (sufs N) < 2 ^ 31"
  shows "env_ok (go_sizeof K) has M N (merge_env_of K m M N has p)"
proof -
  have "packed_at has (go_mem K m) (startpos (go_sizeof K) (length M)) M"
    by (rule slots_at_packed) (use assms in \<open>auto simp: node_slots_def\<close>)
  then show ?thesis using assms(3) by (simp add: env_ok_def merge_env_of_def moved_at_def)
qed

lemma moved_ok:
  fixes raw :: "nat \<Rightarrow> byte"
  assumes n: "node_slots K n N" and has: "go_has_ksuf K n = has" and noM: "\<not> has \<longrightarrow> sufs M = []"
  defines "mem \<equiv> relocate has (moved_at (go_sizeof K) has M N) (startpos (go_sizeof K) (length N))
     (array_len (go_sizeof K) (go_size K n) (length N)) (go_mem K (go_resize K raw n (merged_size (go_sizeof K) has M N)))"
  shows "slots_at has mem (moved_at (go_sizeof K) has M N) N" and "length mem = merged_size (go_sizeof K) has M N"
proof -
  note z = moved_sizes [OF n has noM]
  note r = resized_slots [OF n z(1), where raw = raw]
  have at: "slots_at has (go_mem K (go_resize K raw n (merged_size (go_sizeof K) has M N))) (startpos (go_sizeof K) (length N)) N"
    using r(2) has by simp
  have a: "has \<Longrightarrow> at_ksuf (array_len (go_sizeof K) (go_size K n) (length N)) = length (sufs N)"
    using n has by (simp add: array_len_def node_slots_def)
  have sz: "length (go_mem K (go_resize K raw n (merged_size (go_sizeof K) has M N))) =
      go_sizeof K + 1 * KK M N + 8 * KK M N + 8 * KK M N + (if has then 4 * (KK M N + 1) + (length (sufs M) + length (sufs N)) else 0)"
    unfolding r(1) by (simp add: merged_size_def)
  have d: "moved_at (go_sizeof K) has M N = \<lparr>at_ikeylen = go_sizeof K + (KK M N - length N), at_ikey = go_sizeof K + 1 * KK M N + 8 * (KK M N - length N),
      at_lv = go_sizeof K + 1 * KK M N + 8 * KK M N + 8 * (KK M N - length N),
      at_ksuf_offset = go_sizeof K + 1 * KK M N + 8 * KK M N + 8 * KK M N + 4 * (KK M N - length N),
      at_ksuf = go_sizeof K + 1 * KK M N + 8 * KK M N + 8 * KK M N + 4 * (KK M N + 1) + ((length (sufs M) + length (sufs N)) - length (sufs N))\<rparr>"
    using noM by (simp add: moved_at_def)
  note ok = relocate_ok [OF at refl _ _ d _ _ _ _ a sz]
  show "slots_at has mem (moved_at (go_sizeof K) has M N) N" unfolding mem_def by (rule ok) (simp_all add: array_len_def)
  have "length mem = length (go_mem K (go_resize K raw n (merged_size (go_sizeof K) has M N)))"
    unfolding mem_def by (rule ok) (simp_all add: array_len_def)
  then show "length mem = merged_size (go_sizeof K) has M N" by (simp add: r(1))
qed

lemma merge_two_nodes_unfold:
  fixes A :: merge_alloc and t :: merge_task and st :: "'n merge_heap"
  assumes m: "node_slots K m M" and n: "node_slots K n N" and has: "go_has_ksuf K m = has" "go_has_ksuf K n = has"
    and small: "merged_size (go_sizeof K) has M N < 2 ^ 31" and app: "go_appends K \<longrightarrow> M \<noteq> [] \<and> N \<noteq> []"
  defines "h \<equiv> go_sizeof K" and "S \<equiv> merged_size (go_sizeof K) has M N" and "p \<equiv> realloc A (mh_next st) (task_n t)"
  defines "n1 \<equiv> go_resize K (al_raw A (mh_next st)) n S"
  defines "E \<equiv> merge_env_of K m M N has p" and "heap \<equiv> (mh_heap st)(task_n t := None, task_m t := None)"
  shows "merge_two_nodes K A t m n st =
     (if go_appends K \<and> slot_ikey (last N) < slot_ikey (hd M) then
        set_parent K t p (st\<lparr>mh_heap := heap(p \<mapsto> go_set K n1 (KK M N) S has
          (append_arrays has (startpos h (KK M N)) (startpos h (length N)) (array_len h (go_size K n) (length N))
            (startpos h (length M)) (array_len h (go_size K m) (length M)) (length M) (length N) (go_mem K m) (go_mem K n1))),
          mh_next := mh_next st + 1\<rparr>)
      else
        and_then (merge_arrays E (relocate has (moved_at h has M N) (startpos h (length N)) (array_len h (go_size K n) (length N)) (go_mem K n1)))
          (\<lambda>s. let k = new_n_pos s; suf = rd32 (ms_mem s) (at_ksuf_offset (startpos h (KK M N)) + 4 * k); sz = new_size h has k suf
           in if k > KK M N then Returns_False
              else if k < KK M N then
                (let n' = go_resize K (al_raw A (mh_next st + 1)) (go_set K n1 (length N) S has
                       (compact h has (startpos h (KK M N)) k suf (ms_mem s))) sz;
                     p' = realloc A (mh_next st + 1) p;
                     n'' = go_set K n' k sz has (go_mem K n')
                 in set_parent K t p' (st\<lparr>mh_heap := heap(p' \<mapsto> n''),
                      mh_task := mh_task st @ map (\<lambda>tt. tt\<lparr>parent_node := p'\<rparr>) (ms_task s), mh_next := mh_next st + 2\<rparr>))
              else set_parent K t p (st\<lparr>mh_heap := heap(p \<mapsto> go_set K n1 k sz has (ms_mem s)),
                     mh_task := mh_task st @ ms_task s, mh_next := mh_next st + 1\<rparr>)))"
proof -
  have nk: "op_nkeys (go_ops K) m = length M" "op_nkeys (go_ops K) n = length N" using m n by (simp_all add: node_slots_def)
  have noM: "\<not> has \<longrightarrow> sufs M = []" using m has(1) by (simp add: node_slots_def)
  note z = node_sizes [OF m n has] moved_sizes [OF n has(2) noM]
  have hh: "(has \<or> has) = has" "(has \<noteq> has) = False" by simp_all
  have E: "\<lparr>me_m = go_mem K m, me_m_nkeys = length M, me_n_nkeys = length N, me_mp = startpos (go_sizeof K) (length M),
      me_np = moved_at (go_sizeof K) has M N, me_newp = startpos (go_sizeof K) (KK M N), me_hasKsuf = has,
      me_replaces = go_replaces K, me_n = p\<rparr> = merge_env_of K m M N has p"
    by (simp add: merge_env_of_def)
  have c: "(go_appends K \<and> op_ikey (go_ops K) (go_resize K (al_raw A (mh_next st)) n (merged_size (go_sizeof K) has M N)) (length N - 1)
        < rd64 (go_mem K m) (at_ikey (startpos (go_sizeof K) (length M)))) =
      (go_appends K \<and> slot_ikey (last N) < slot_ikey (hd M))"
  proof (rule conj_cong [OF refl])
    assume "go_appends K"
    then have ne: "M \<noteq> []" "N \<noteq> []" using app by auto
    have "rd64 (go_mem K m) (at_ikey (startpos (go_sizeof K) (length M))) = slot_ikey (hd M)"
      using slots_read(2) [OF m, of 0] ne(1) by (simp add: ikey_at nk hd_conv_nth)
    moreover have "op_ikey (go_ops K) (go_resize K (al_raw A (mh_next st)) n (merged_size (go_sizeof K) has M N)) (length N - 1) = slot_ikey (last N)"
      using resized_slots(3) [OF n z(2), of "length N - 1"] ne(2) by (simp add: last_conv_nth)
    ultimately show "(op_ikey (go_ops K) (go_resize K (al_raw A (mh_next st)) n (merged_size (go_sizeof K) has M N)) (length N - 1)
        < rd64 (go_mem K m) (at_ikey (startpos (go_sizeof K) (length M)))) = (slot_ikey (last N) < slot_ikey (hd M))" by (simp only:)
  qed
  have f: "(2 ^ 31 \<le> merged_size (go_sizeof K) has M N \<or> False \<or> go_appends K \<and> (length M = 0 \<or> length N = 0)) = False"
    using small app by auto
  show ?thesis
    by (simp only: merge_two_nodes_def Let_def nk has hh z(1) z(3) E c f if_False
        h_def S_def p_def [symmetric] n1_def E_def heap_def)
qed

lemma mg_rows_Kept: "mg_rows (map Kept xs) (map slot_lv xs) = xs"
  by (induction xs) (auto simp: mg_rows_def mg_row_def)

lemma mg_tasks_Kept: "mg_tasks q (map Kept xs) = []"
proof -
  have "mg_task q i (map Kept xs ! i) = []" if "i < length xs" for i using that by simp
  then show ?thesis by (simp add: mg_tasks_def)
qed

lemma mg_tasks_moved: "map (\<lambda>tt. tt\<lparr>parent_node := q\<rparr>) (mg_tasks p R) = mg_tasks q R"
proof -
  have "map (\<lambda>tt. tt\<lparr>parent_node := q\<rparr>) (mg_task p i r) = mg_task q i r" for i r by (cases r) simp_all
  then show ?thesis by (simp add: mg_tasks_def map_concat comp_def)
qed

lemma realloc_at: "realloc A k p = p \<or> realloc A k p = al_addr A k"
  by (simp add: realloc_def)

text \<open>The block after the loops, cut to size.\<close>

lemma merged_node:
  assumes s: "merged_state h has M N E s R lvs" and len: "length (ms_mem s) = merged_size h has M N"
    and small: "length (sufs M) + length (sufs N) < 2 ^ 31" and k: "k = length R" and suf: "suf = rd32 (ms_mem s) (at_ksuf_offset (startpos h (KK M N)) + 4 * k)"
  shows "has \<Longrightarrow> suf = length (mg_sufs R)"
    and "length (compact h has (startpos h (KK M N)) k suf (ms_mem s)) = merged_size h has M N"
    and "new_size h has k suf \<le> merged_size h has M N"
    and "slots_at has (take (new_size h has k suf) (compact h has (startpos h (KK M N)) k suf (ms_mem s))) (startpos h k) (mg_rows R lvs)"
proof -
  have at: "arrays_at has (ms_mem s) (startpos h (KK M N)) (map mg_kl R) (map mg_ik R) lvs (mg_offs R @ [length (mg_sufs R)]) (mg_sufs R)"
    and le: "length R \<le> KK M N" "length (mg_sufs R) \<le> length (sufs M) + length (sufs N)" and lv: "length lvs = length R"
    using s by (auto simp: merged_state_def list_all2_lengthD)
  have o: "\<forall>w \<in> set (mg_offs R @ [length (mg_sufs R)]). w < 2 ^ 32"
  proof
    fix w
    assume "w \<in> set (mg_offs R @ [length (mg_sufs R)])"
    then obtain i where w: "w = length (mg_sufs (take i R)) \<or> w = length (mg_sufs R)" by (auto simp: mg_offs_def)
    have "length (mg_sufs (take i R)) \<le> length (mg_sufs R)"
      by (metis append_take_drop_id concat_append length_append le_add1 map_append mg_sufs_def)
    then have "w \<le> length (mg_sufs R)" using w by auto
    then show "w < 2 ^ 32" using le(2) small by simp
  qed
  show sf: "suf = length (mg_sufs R)" if has
  proof -
    have r: "region (ms_mem s) (at_ksuf_offset (startpos h (KK M N))) (u32s (mg_offs R @ [length (mg_sufs R)]))"
      using at that by (simp add: arrays_at_def)
    have "rd32 (ms_mem s) (at_ksuf_offset (startpos h (KK M N)) + 4 * k) = (mg_offs R @ [length (mg_sufs R)]) ! k"
      using r [unfolded region_u32s [OF o]] k by simp
    also have "\<dots> = length (mg_sufs R)" using k by (simp add: nth_append)
    finally show ?thesis using suf by simp
  qed
  have suf0: "compact h has (startpos h (KK M N)) k suf (ms_mem s) = compact h has (startpos h (KK M N)) k (length (mg_sufs R)) (ms_mem s)"
    using sf by (cases has) (simp_all add: compact_def)
  have ln: "length (map mg_kl R) = k" "length (map mg_ik R) = k" "length lvs = k" "length (mg_offs R @ [length (mg_sufs R)]) = k + 1"
    using k lv by simp_all
  have kK: "k \<le> KK M N" using le(1) k by simp
  note c = compact_ok [OF at kK ln refl, folded suf0]
  show "length (compact h has (startpos h (KK M N)) k suf (ms_mem s)) = merged_size h has M N" using c(2) len by simp
  show "new_size h has k suf \<le> merged_size h has M N" using sf le(2) kK by (cases has) (simp_all add: new_size_def merged_size_def)
  have sl: "slots_at has (compact h has (startpos h (KK M N)) k suf (ms_mem s)) (startpos h k) (mg_rows R lvs)"
    using slots_at_rows [of has _ h R lvs] c(1) k lv by simp
  show "slots_at has (take (new_size h has k suf) (compact h has (startpos h (KK M N)) k suf (ms_mem s))) (startpos h k) (mg_rows R lvs)"
    using slots_at_take [of has _ h "mg_rows R lvs" "new_size h has k suf"] sl mg_rows_simps(1,6) [OF lv] sf k
    by (cases has) (simp_all add: new_size_def)
qed

lemma appended_ok:
  fixes p :: u64 and raw :: "nat \<Rightarrow> byte"
  assumes m: "node_slots K m M" and n: "node_slots K n N" and has: "go_has_ksuf K m = has" "go_has_ksuf K n = has"
    and small: "merged_size (go_sizeof K) has M N < 2 ^ 31" and sf: "length (sufs M) + length (sufs N) < 2 ^ 31"
  defines "h \<equiv> go_sizeof K" and "S \<equiv> merged_size (go_sizeof K) has M N"
  defines "n1 \<equiv> go_resize K raw n S"
  defines "n' \<equiv> go_set K n1 (KK M N) S has
     (append_arrays has (startpos h (KK M N)) (startpos h (length N)) (array_len h (go_size K n) (length N))
       (startpos h (length M)) (array_len h (go_size K m) (length M)) (length M) (length N) (go_mem K m) (go_mem K n1))"
  shows "node_slots K n' (N @ M)" and "go_has_ksuf K n' = has"
proof -
  have noM: "\<not> has \<longrightarrow> sufs M = []" using m has(1) by (simp add: node_slots_def)
  note r = resized_slots [OF n moved_sizes(1) [OF n has(2) noM], where raw = raw]
  have h1: "has = go_has_ksuf K n1" using resize_at [of raw n S] has(2) by (simp add: n1_def)
  have atn: "slots_at has (go_mem K n1) (startpos h (length N)) N" using r(2) has(2) by (simp add: n1_def S_def h_def)
  have atm: "slots_at has (go_mem K m) (startpos h (length M)) M" using m has(1) by (simp add: node_slots_def h_def)
  have len: "length (go_mem K n1) = S" using r(1) by (simp add: n1_def S_def)
  have an: "has \<Longrightarrow> at_ksuf (array_len h (go_size K n) (length N)) = length (sufs N)"
    and am: "has \<Longrightarrow> at_ksuf (array_len h (go_size K m) (length M)) = length (sufs M)"
    using m n has by (simp_all add: array_len_def node_slots_def h_def)
  have room: "length (go_mem K n1) = h + 1 * KK M N + 8 * KK M N + 8 * KK M N + (if has then 4 * (KK M N + 1) + (length (sufs M) + length (sufs N)) else 0)"
    unfolding len S_def merged_size_def h_def by simp
  have "slots_at has (append_arrays has (startpos h (KK M N)) (startpos h (length N)) (array_len h (go_size K n) (length N))
       (startpos h (length M)) (array_len h (go_size K m) (length M)) (length M) (length N) (go_mem K m) (go_mem K n1)) (startpos h (KK M N)) (N @ M) \<and>
     length (append_arrays has (startpos h (KK M N)) (startpos h (length N)) (array_len h (go_size K n) (length N))
       (startpos h (length M)) (array_len h (go_size K m) (length M)) (length M) (length N) (go_mem K m) (go_mem K n1)) = length (go_mem K n1)"
    by (rule append_ok [OF atn refl atm refl sf _ _ _ _ an _ _ _ _ am room]) (simp_all add: array_len_def)
  then show "node_slots K n' (N @ M)"
    unfolding n'_def set_once [OF h1] using len m n has sf
    by (auto simp: S_def merged_size_def h_def node_slots_def add.commute)
  show "go_has_ksuf K n' = has" using set_at [OF h1] by (simp add: n'_def)
qed

text \<open>The merged node, in the enlarged block or in one cut to size.\<close>

lemma finished_node:
  fixes st :: "'n merge_heap" and raw :: "nat \<Rightarrow> byte" and nk S :: nat
  assumes s: "merged_state (go_sizeof K) has M N E s R lvs" and E: "me_n E = realloc A (mh_next st) p0"
    and h1: "has = go_has_ksuf K n1" and sf: "length (sufs M) + length (sufs N) < 2 ^ 31"
    and full: "length R = KK M N \<longrightarrow> length (mg_sufs R) = length (sufs M) + length (sufs N)" and F: "p0 \<in> F"
  defines "h \<equiv> go_sizeof K" and "suf \<equiv> rd32 (ms_mem s) (at_ksuf_offset (startpos (go_sizeof K) (KK M N)) + 4 * length R)"
  defines "sz \<equiv> new_size h has (length R) suf" and "p \<equiv> realloc A (mh_next st) p0"
  defines "r \<equiv> go_resize K raw (go_set K n1 nk S has (compact h has (startpos h (KK M N)) (length R) suf (ms_mem s))) sz"
  defines "q \<equiv> realloc A (mh_next st + 1) p" and "heap \<equiv> (\<lambda>a. if a \<in> F then None else mh_heap st a)"
  shows "length R \<le> KK M N" and "new_n_pos s = length R" and "ms_task s = mg_tasks p R"
    and "made_at K A F has R st q (st\<lparr>mh_heap := heap(q \<mapsto> go_set K r (length R) sz has (go_mem K r)),
       mh_task := mh_task st @ mg_tasks q R, mh_next := mh_next st + 2\<rparr>)"
    and "length R = KK M N \<Longrightarrow> made_at K A F has R st p (st\<lparr>mh_heap := heap(p \<mapsto> go_set K n1 (length R) sz has (ms_mem s)),
       mh_task := mh_task st @ mg_tasks p R, mh_next := mh_next st + 1\<rparr>)"
proof -
  let ?S = "merged_size h has M N" and ?c = "compact h has (startpos h (KK M N)) (length R) suf (ms_mem s)"
  have k: "new_n_pos s = length R" "length R \<le> KK M N" "ms_task s = mg_tasks p R" "list_all2 mg_lv R lvs"
    "length (mg_sufs R) \<le> length (sufs M) + length (sufs N)" "\<not> has \<longrightarrow> mg_sufs R = []" "room_for h has M N s"
    "arrays_at has (ms_mem s) (startpos h (KK M N)) (map mg_kl R) (map mg_ik R) lvs (mg_offs R @ [length (mg_sufs R)]) (mg_sufs R)"
    using s E by (simp_all add: merged_state_def h_def p_def)
  have len: "length (ms_mem s) = ?S" using k(7) by (simp add: room_for_def merged_size_def)
  have lvs: "length lvs = length R" using k(4) by (simp add: list_all2_lengthD)
  note rs = mg_rows_simps(1,6) [OF lvs]
  note mn = merged_node [OF s [folded h_def] len sf refl meta_eq_to_obj_eq [OF suf_def [folded h_def]], folded sz_def]
  have szeq: "sz = h + 1 * length R + 8 * length R + 8 * length R + (if has then 4 * (length R + 1) + length (mg_sufs R) else 0)"
    using mn(1) by (simp add: sz_def new_size_def)
  have sfR: "length (mg_sufs R) < 2 ^ 31" using k(5) sf by simp
  show "length R \<le> KK M N" "new_n_pos s = length R" "ms_task s = mg_tasks p R" by (fact k)+
  have mem: "go_mem K r = take sz ?c"
    using resize_at [of raw "go_set K n1 nk S has ?c" sz] set_at [OF h1, of nk S ?c] mn(2,3) by (simp add: r_def)
  have n': "node_slots K (go_set K r (length R) sz has (go_mem K r)) (mg_rows R lvs)"
  proof (subst r_def, unfold set_again [OF h1], intro conjI)
    show "slots_at has (go_mem K r) (startpos (go_sizeof K) (length (mg_rows R lvs))) (mg_rows R lvs)"
      unfolding mem rs h_def [symmetric] by (rule mn(4))
    show "length R = length (mg_rows R lvs)" "length (sufs (mg_rows R lvs)) < 2 ^ 31" using sfR by (simp_all add: rs)
    have l: "length (go_mem K r) = sz" unfolding mem using mn(2,3) by simp
    show "sz = length (go_mem K r)" by (rule l [symmetric])
    show "length (go_mem K r) = go_sizeof K + 1 * length (mg_rows R lvs) + 8 * length (mg_rows R lvs) +
       8 * length (mg_rows R lvs) + (if has then 4 * (length (mg_rows R lvs) + 1) + length (sufs (mg_rows R lvs)) else 0)"
      unfolding l rs h_def [symmetric] by (rule szeq)
    show "\<not> has \<longrightarrow> sufs (mg_rows R lvs) = []" using k(6) by (simp add: rs)
  qed
  have hs: "go_has_ksuf K (go_set K r (length R) sz has (go_mem K r)) = has"
    using set_at [of has r "length R" sz] resize_at [of raw "go_set K n1 nk S has ?c" sz] set_at [OF h1, of nk S ?c]
    by (simp add: r_def)
  have "q = p \<or> q = al_addr A (mh_next st + 1)" "p = p0 \<or> p = al_addr A (mh_next st)"
    unfolding q_def p_def by (rule realloc_at)+
  then have "q \<in> F \<or> (\<exists>i\<ge>mh_next st. i < mh_next st + 2 \<and> q = al_addr A i)" using F by fastforce
  then show "made_at K A F has R st q (st\<lparr>mh_heap := heap(q \<mapsto> go_set K r (length R) sz has (go_mem K r)),
       mh_task := mh_task st @ mg_tasks q R, mh_next := mh_next st + 2\<rparr>)"
    by (intro made_atI [OF n' refl k(4) hs]) (simp_all add: heap_def)
  show "made_at K A F has R st p (st\<lparr>mh_heap := heap(p \<mapsto> go_set K n1 (length R) sz has (ms_mem s)),
       mh_task := mh_task st @ mg_tasks p R, mh_next := mh_next st + 1\<rparr>)" if R: "length R = KK M N"
  proof -
    have sz: "sz = ?S" using szeq full R by (simp add: merged_size_def)
    have n': "node_slots K (go_set K n1 (length R) sz has (ms_mem s)) (mg_rows R lvs)"
      unfolding set_once [OF h1] using slots_at_rows [of has "ms_mem s" h R lvs] k(6,8) lvs R szeq len sfR sz
      by (simp add: rs h_def)
    have "go_has_ksuf K (go_set K n1 (length R) sz has (ms_mem s)) = has" using set_at [OF h1] by simp
    then show ?thesis
      by (intro made_atI [OF n' refl k(4)]) (use realloc_at [of A "mh_next st" p0] F in \<open>auto simp: heap_def p_def\<close>)
  qed
qed

lemma merge_two_nodes_ok:
  assumes m: "node_slots K m M" and n: "node_slots K n N" and has: "go_has_ksuf K m = has" "go_has_ksuf K n = has"
    and small: "merged_size (go_sizeof K) has M N < 2 ^ 31" and app: "go_appends K \<longrightarrow> M \<noteq> [] \<and> N \<noteq> []"
    and bare: "layers_bare M" "layers_bare N" and dis: "has \<or> slots_disjoint M N"
  shows "merge_rows K M N = Returns_False \<and> merge_two_nodes K A t m n st = Returns_False \<or>
    (\<exists>R q st'. merge_rows K M N = Goes_On R \<and> made_at K A {task_n t, task_m t} has R st q st' \<and>
       merge_two_nodes K A t m n st = set_parent K t q st')"
proof -
  let ?h = "go_sizeof K" and ?S = "merged_size (go_sizeof K) has M N" and ?p = "realloc A (mh_next st) (task_n t)"
  let ?n1 = "go_resize K (al_raw A (mh_next st)) n ?S" and ?E = "merge_env_of K m M N has ?p" and ?F = "{task_n t, task_m t}"
  have heap: "(mh_heap st)(task_n t := None, task_m t := None) = (\<lambda>a. if a \<in> ?F then None else mh_heap st a)" by auto
  note eq = merge_two_nodes_unfold [OF m n has small app, where A = A and t = t and st = st, unfolded heap]
  have sf: "length (sufs M) + length (sufs N) < 2 ^ 31"
    using small m n has by (cases has) (auto simp: merged_size_def node_slots_def)
  have h1: "has = go_has_ksuf K ?n1" using resize_at [of "al_raw A (mh_next st)" n ?S] has(2) by simp
  show ?thesis
  proof (cases "go_appends K \<and> slot_ikey (last N) < slot_ikey (hd M)")
    case True
    note ap = appended_ok [OF m n has small sf, where raw = "al_raw A (mh_next st)"]
    have lv: "list_all2 mg_lv (map Kept xs) (map slot_lv xs)" for xs by (simp add: list_all2_conv_all_nth)
    let ?n' = "go_set K ?n1 (KK M N) ?S has
      (append_arrays has (startpos ?h (KK M N)) (startpos ?h (length N)) (array_len ?h (go_size K n) (length N))
       (startpos ?h (length M)) (array_len ?h (go_size K m) (length M)) (length M) (length N) (go_mem K m) (go_mem K ?n1))"
    let ?st = "st\<lparr>mh_heap := (\<lambda>a. if a \<in> ?F then None else mh_heap st a)(?p \<mapsto> ?n'), mh_next := mh_next st + 1\<rparr>"
    have "made_at K A ?F has (map Kept (N @ M)) st ?p ?st"
      by (rule made_atI [OF ap(1) mg_rows_Kept [symmetric] lv ap(2) refl])
        (use realloc_at [of A "mh_next st" "task_n t"] mg_tasks_Kept [of ?p "N @ M"] in auto)
    moreover have "merge_two_nodes K A t m n st = set_parent K t ?p ?st" using True by (simp only: eq if_True simp_thms)
    moreover have "merge_rows K M N = Goes_On (map Kept (N @ M))" using True by (simp add: merge_rows_def)
    ultimately show ?thesis by blast
  next
    case False
    let ?mem = "relocate has (moved_at ?h has M N) (startpos ?h (length N)) (array_len ?h (go_size K n) (length N)) (go_mem K ?n1)"
    have noM: "\<not> has \<longrightarrow> sufs M = []" using m has(1) by (simp add: node_slots_def)
    note mv = moved_ok [OF n has(2) noM, where raw = "al_raw A (mh_next st)"]
    have noks: "\<not> has \<Longrightarrow> sufs N = []" using n has(2) by (simp add: node_slots_def)
    have E: "me_replaces ?E = go_replaces K" "me_n ?E = ?p" "me_np ?E = moved_at ?h has M N" by (simp_all add: merge_env_of_def)
    have at: "slots_at has ?mem (me_np ?E) N" using mv(1) by (simp only: E(3))
    have rows: "merge_rows K M N = merge_slots (go_replaces K) M N" unfolding merge_rows_def if_not_P [OF False] ..
    note eq = eq [unfolded if_not_P [OF False]]
    from merge_arrays_ok [OF merge_env_ok [OF m has(1) sf] at noks trans [OF mv(2) merged_size_def] bare dis, unfolded E(1)]
    consider "merge_arrays ?E ?mem = Returns_False" "merge_slots (go_replaces K) M N = Returns_False"
      | s R lvs where "merge_arrays ?E ?mem = Goes_On s" "merge_slots (go_replaces K) M N = Goes_On R" "merged_state ?h has M N ?E s R lvs"
      by blast
    then show ?thesis
    proof cases
      case 1
      then show ?thesis by (simp add: eq rows)
    next
      case 2
      have full: "length R = KK M N \<longrightarrow> length (mg_sufs R) = length (sufs M) + length (sufs N)" using merge_slots_full [OF 2(2)] by simp
      note f = finished_node [OF 2(3) E(2) h1 sf full insertI1 [of "task_n t" "{task_m t}"]]
      show ?thesis
      proof (cases "length R < KK M N")
        case True
        then have c: "(length R > KK M N) = False" "(length R < KK M N) = True" by simp_all
        show ?thesis unfolding rows 2(2)
          by (rule disjI2, intro exI conjI, rule refl, rule f(4) [where nk = "length N" and S = ?S and raw = "al_raw A (mh_next st + 1)"])
            (simp only: eq 2(1) and_then.simps Let_def f(2,3) c if_False if_True mg_tasks_moved)
      next
        case False
        then have c: "(length R > KK M N) = False" "(length R < KK M N) = False" and R: "length R = KK M N" using f(1) by auto
        show ?thesis unfolding rows 2(2)
          by (rule disjI2, intro exI conjI, rule refl, rule f(5), rule R)
            (simp only: eq 2(1) and_then.simps Let_def f(2,3) c if_False)
      qed
    qed
  qed
qed

end

section \<open>The two kinds of node\<close>

lemma mn_merge_simps [simp]:
  "go_ops mn_merge_ops = mn_ops" "go_sizeof mn_merge_ops = sizeof_massnode" "go_size mn_merge_ops = mn_size"
  "go_mem mn_merge_ops = mn_mem" "go_has_ksuf mn_merge_ops n \<longleftrightarrow> mn_hasKsuf n = 1" "go_resize mn_merge_ops = mn_resize"
  "go_set mn_merge_ops n nk sz has mem =
     n\<lparr>mn_nkeys := nk, mn_size := sz, mn_hasKsuf := (if has then 1 else 0), mn_mem := mem\<rparr>"
  "go_appends mn_merge_ops" "go_replaces mn_merge_ops" "\<not> go_guards mn_merge_ops"
  by (simp_all add: mn_merge_ops_def)

lemma md_merge_simps [simp]:
  "go_ops md_merge_ops = md_ops" "go_sizeof md_merge_ops = sizeof_massnode_dynamicvalue" "go_size md_merge_ops = md_size"
  "go_mem md_merge_ops = md_mem" "go_has_ksuf md_merge_ops n" "go_resize md_merge_ops = md_resize"
  "go_set md_merge_ops n nk sz has mem = n\<lparr>md_nkeys := nk, md_size := sz, md_mem := mem\<rparr>"
  "\<not> go_appends md_merge_ops" "\<not> go_replaces md_merge_ops" "go_guards md_merge_ops"
  by (simp_all add: md_merge_ops_def)

lemma slots_offsets:
  assumes "slots_at True mem (startpos h (length xs)) xs" "length (sufs xs) < 2 ^ 31"
  shows "i \<le> length xs \<Longrightarrow> rd32 mem (h + 1 * length xs + 8 * length xs + 8 * length xs + 4 * i) = suf_offset xs i"
    and "h + 1 * length xs + 8 * length xs + 8 * length xs + 4 * (length xs + 1) + length (sufs xs) \<le> length mem"
    and "suf_offset xs i \<le> length (sufs xs)" and "suf_offset xs i \<le> suf_offset xs (i + 1)"
proof -
  have "packed_at True mem (startpos h (length xs)) xs" by (rule slots_at_packed) (use assms in auto)
  then show "i \<le> length xs \<Longrightarrow> rd32 mem (h + 1 * length xs + 8 * length xs + 8 * length xs + 4 * i) = suf_offset xs i"
    "h + 1 * length xs + 8 * length xs + 8 * length xs + 4 * (length xs + 1) + length (sufs xs) \<le> length mem"
    by (simp_all add: packed_at_def)
  show "suf_offset xs i \<le> length (sufs xs)" using suf_offset_le [of xs i] by (simp add: suf_offset_all)
  show "suf_offset xs i \<le> suf_offset xs (i + 1)" by (rule suf_offset_mono) simp
qed

lemma mn_slots_block:
  assumes "node_slots mn_merge_ops n xs"
  shows "mn_block n"
proof (cases "mn_hasKsuf n = 1")
  case True
  have nk: "mn_nkeys n = length xs" using assms by (simp add: node_slots_def)
  have at: "slots_at True (mn_mem n) (startpos sizeof_massnode (length xs)) xs" and "length (sufs xs) < 2 ^ 31"
    using assms True by (simp_all add: node_slots_def)
  note o = slots_offsets [OF this]
  have off: "mn_ksuf_offset n i = suf_offset xs i" if "i \<le> length xs" for i
    using o(1) [OF that] True by (simp add: mn_ksuf_offset_def mn_offset_defs nk)
  have g: "mn_get_ksuf n + length (sufs xs) \<le> length (mn_mem n)" using o(2) True by (simp add: mn_offset_defs nk)
  show ?thesis
    unfolding mn_block_def nk
  proof (intro conjI allI impI)
    show "mn_get_ksuf n \<le> length (mn_mem n)" using g by simp
    fix p assume p: "p < length xs"
    show "mn_ksuf_offset n p \<le> mn_ksuf_offset n (p + 1)" using off [of p] off [of "p + 1"] o(4) [of p] p by simp
    show "mn_get_ksuf n + mn_ksuf_offset n (p + 1) \<le> length (mn_mem n)" using off [of "p + 1"] o(3) [of "p + 1"] g p by simp
  qed
next
  case False
  then show ?thesis using assms by (simp add: mn_block_def mn_ksuf_offset_def mn_get_ksuf_def node_slots_def)
qed

lemma md_slots_block:
  assumes "node_slots md_merge_ops n xs"
  shows "md_block n"
proof -
  have nk: "md_nkeys n = length xs" using assms by (simp add: node_slots_def)
  have at: "slots_at True (md_mem n) (startpos sizeof_massnode_dynamicvalue (length xs)) xs" and "length (sufs xs) < 2 ^ 31"
    using assms by (simp_all add: node_slots_def)
  note o = slots_offsets [OF this]
  have off: "md_ksuf_offset n i = suf_offset xs i" if "i \<le> length xs" for i
    using o(1) [OF that] by (simp add: md_ksuf_offset_def md_offset_defs nk)
  have g: "md_get_ksuf n + length (sufs xs) \<le> length (md_mem n)" using o(2) by (simp add: md_offset_defs nk)
  show ?thesis
    unfolding md_block_def nk
  proof (intro conjI allI impI)
    show "md_get_ksuf n \<le> length (md_mem n)" using g by simp
    fix p assume p: "p < length xs"
    show "md_ksuf_offset n p \<le> md_ksuf_offset n (p + 1)" using off [of p] off [of "p + 1"] o(4) [of p] p by simp
    show "md_get_ksuf n + md_ksuf_offset n (p + 1) \<le> length (md_mem n)" using off [of "p + 1"] o(3) [of "p + 1"] g p by simp
  qed
qed

lemma mn_ops_mem:
  "mn_ikeylen n i = rd8 (mn_mem n) (at_ikeylen (startpos sizeof_massnode (mn_nkeys n)) + i)"
  "mn_ikey n i = rd64 (mn_mem n) (at_ikey (startpos sizeof_massnode (mn_nkeys n)) + 8 * i)"
  "mn_lv n i = rd64 (mn_mem n) (at_lv (startpos sizeof_massnode (mn_nkeys n)) + 8 * i)"
  by (simp_all add: mn_getter_defs mn_offset_defs)

lemma md_ops_mem:
  "md_ikeylen n i = rd8 (md_mem n) (at_ikeylen (startpos sizeof_massnode_dynamicvalue (md_nkeys n)) + i)"
  "md_ikey n i = rd64 (md_mem n) (at_ikey (startpos sizeof_massnode_dynamicvalue (md_nkeys n)) + 8 * i)"
  "md_lv n i = rd64 (md_mem n) (at_lv (startpos sizeof_massnode_dynamicvalue (md_nkeys n)) + 8 * i)"
  by (simp_all add: md_getter_defs md_offset_defs)

interpretation mnm: merge_node mn_merge_ops mn_ok "\<lambda>_ _. True"
proof (intro merge_node.intro merge_node_axioms.intro)
  show "static_node (go_ops mn_merge_ops) mn_ok (\<lambda>_ _. True)" using mn.static_node_axioms by simp
  show "mn_ok n" if "node_slots mn_merge_ops n xs" "node_sorted (go_ops mn_merge_ops) n"
    "\<forall>i < length xs. kl_ok (op_ikeylen (go_ops mn_merge_ops) n i)" for n xs
    using that mn_slots_block [OF that(1)] by (simp add: mn_ok_def node_slots_def)
qed (auto simp: mn_ops_mem mn_ksuf_def mn_ksuflen_def mn_ksufpos_def mn_offset_defs offset_diff_def peek_def
    mn_set_lv_def mn_resize_def)

interpretation mdm: merge_node md_merge_ops md_ok md_fits
proof (intro merge_node.intro merge_node_axioms.intro)
  show "static_node (go_ops md_merge_ops) md_ok md_fits" using md.static_node_axioms by simp
  show "md_ok n" if "node_slots md_merge_ops n xs" "node_sorted (go_ops md_merge_ops) n"
    "\<forall>i < length xs. kl_ok (op_ikeylen (go_ops md_merge_ops) n i)" for n xs
    using that md_slots_block [OF that(1)] by (simp add: md_ok_def node_slots_def)
qed (auto simp: md_ops_mem md_ksuf_def md_ksuflen_def md_ksufpos_def md_offset_defs offset_diff_def
    md_set_lv_def md_resize_def)

end
