(* ===== verification/Merge_Item.thy ===== *)
theory Merge_Item
  imports Merge_Two
begin

text \<open>
  The two other tasks, from slots to slots. Adding an item to a node is the merge with a node of one
  slot: the loops of \<^verbatim>\<open>add_item_to_node\<close> are simulated by those of \<^verbatim>\<open>merge_nodes\<close> on an
  artificial block that holds just the item. A node made of two items is written slot by slot.
\<close>

section \<open>An item as a node of one slot\<close>

definition item_slot :: "merge_task \<Rightarrow> node_slot" where
  "item_slot t = (ikeylen_m t, ikey_m t, lv_m t, ksuf_m t)"

lemma item_slot_simps [simp]:
  "slot_kl (item_slot t) = ikeylen_m t" "slot_ikey (item_slot t) = ikey_m t" "slot_lv (item_slot t) = lv_m t"
  "slot_suf (item_slot t) = ksuf_m t"
  by (simp_all add: item_slot_def)

text \<open>The state and the environment of the merge that stand for those of the addition.\<close>

definition item_env :: "merge_task \<Rightarrow> merge_env \<Rightarrow> merge_env" where
  "item_env t E = E\<lparr>me_m := packed 0 [item_slot t] []\<rparr>"

definition item_at :: nat where
  "item_at = at_ksuf (startpos 0 1)"

definition item_state :: "merge_task \<Rightarrow> merge_state \<Rightarrow> merge_state" where
  "item_state t s = s\<lparr>m_ksuf_pos := item_at + (if m_pos s = 0 then 0 else length (ksuf_m t))\<rparr>"

lemma map_outcome_if: "map_outcome f (if b then x else y) = (if b then map_outcome f x else map_outcome f y)"
  by simp

text \<open>The environment of an addition.\<close>

definition add_env :: "merge_task \<Rightarrow> merge_env \<Rightarrow> bool" where
  "add_env t E \<longleftrightarrow> me_m_nkeys E = 1 \<and> me_mp E = startpos 0 1 \<and> me_hasKsuf E \<and> length (ksuf_m t) < 2 ^ 31 \<and>
     \<not> keylenx_is_layer (ikeylen_m t)"

lemma item_packed: "length (ksuf_m t) < 2 ^ 31 \<Longrightarrow> packed_at True (packed 0 [item_slot t] []) (startpos 0 1) [item_slot t]"
proof -
  assume l: "length (ksuf_m t) < 2 ^ 31"
  let ?x = "[item_slot t]"
  have fit: "slots_fit ?x" using l by (simp add: slots_fit_def suf_offset_def)
  have o: "rd32 (packed 0 ?x []) (17 + 4 * i) = suf_offset ?x i" if "i \<le> 1" for i
    using rd_packed_offset [of i ?x 0 "[]"] fit that by simp
  have p: "peek (packed 0 ?x []) (17 + 8) (length (ksuf_m t)) = ksuf_m t"
    using peek_packed_suffix [of 0 ?x 0 "[]"] by (simp add: suf_offset_def)
  show ?thesis
    using rd_packed [of 0 ?x 0 "[]"] o p length_packed [of 0 ?x "[]"]
    by (auto simp: packed_at_def sufs_def suf_offset_def less_Suc_eq)
qed

lemma item_reads:
  assumes "add_env t E" "m_pos s = 0"
  shows "m_kl (item_env t E) s = ikeylen_m t" "m_ik (item_env t E) s = ikey_m t" "m_lv (item_env t E) s = lv_m t"
    "m_len (item_env t E) s = length (ksuf_m t)"
proof -
  have E: "me_mp E = startpos 0 1" "length (ksuf_m t) < 2 ^ 31" using assms(1) by (simp_all add: add_env_def)
  note p = item_packed [OF E(2), unfolded packed_at_def]
  have o: "\<forall>i \<le> length [item_slot t]. rd32 (packed 0 [item_slot t] []) (at_ksuf_offset (startpos 0 1) + 4 * i) = suf_offset [item_slot t] i"
    using p by simp
  note o = o [rule_format, of 0] o [rule_format, of 1]
  show "m_kl (item_env t E) s = ikeylen_m t" "m_ik (item_env t E) s = ikey_m t" "m_lv (item_env t E) s = lv_m t"
    using p by (simp_all add: m_kl_def m_ik_def m_lv_def item_env_def E(1) assms(2))
  show "m_len (item_env t E) s = length (ksuf_m t)"
    using o E(2) by (simp add: m_len_def offset_diff_def item_env_def E(1) assms(2) sub32_le suf_offset_def)
qed

lemma item_peek:
  assumes "add_env t E"
  shows "peek (me_m (item_env t E)) item_at (length (ksuf_m t)) = ksuf_m t"
    and "item_at + length (ksuf_m t) \<le> length (me_m (item_env t E))"
proof -
  have "length (ksuf_m t) < 2 ^ 31" using assms by (simp add: add_env_def)
  note p = item_packed [OF this, unfolded packed_at_def]
  show "peek (me_m (item_env t E)) item_at (length (ksuf_m t)) = ksuf_m t"
    "item_at + length (ksuf_m t) \<le> length (me_m (item_env t E))"
    using p by (simp_all add: item_env_def sufs_def item_at_def)
qed

lemma item_env_simps [simp]:
  "me_m_nkeys (item_env t E) = me_m_nkeys E" "me_n_nkeys (item_env t E) = me_n_nkeys E" "me_mp (item_env t E) = me_mp E"
  "me_np (item_env t E) = me_np E" "me_newp (item_env t E) = me_newp E" "me_hasKsuf (item_env t E) = me_hasKsuf E"
  "me_replaces (item_env t E) = me_replaces E" "me_n (item_env t E) = me_n E"
  by (simp_all add: item_env_def)

lemma item_state_simps [simp]:
  "ms_mem (item_state t s) = ms_mem s" "m_pos (item_state t s) = m_pos s" "n_pos (item_state t s) = n_pos s"
  "new_n_pos (item_state t s) = new_n_pos s" "n_ksuf_pos (item_state t s) = n_ksuf_pos s"
  "new_n_ksuf_pos (item_state t s) = new_n_ksuf_pos s" "ms_task (item_state t s) = ms_task s"
  by (simp_all add: item_state_def)

lemma item_n_reads [simp]:
  "n_kl (item_env t E) (item_state t s) = n_kl E s" "n_ik (item_env t E) (item_state t s) = n_ik E s"
  "n_lv (item_env t E) (item_state t s) = n_lv E s" "n_len (item_env t E) (item_state t s) = n_len E s"
  by (simp_all add: n_kl_def n_ik_def n_lv_def n_len_def)

text \<open>What two states with the same fields are.\<close>

lemma state_eqI:
  "ms_mem s = ms_mem s' \<Longrightarrow> m_pos s = m_pos s' \<Longrightarrow> n_pos s = n_pos s' \<Longrightarrow> new_n_pos s = new_n_pos s' \<Longrightarrow>
     m_ksuf_pos s = m_ksuf_pos s' \<Longrightarrow> n_ksuf_pos s = n_ksuf_pos s' \<Longrightarrow> new_n_ksuf_pos s = new_n_ksuf_pos s' \<Longrightarrow>
     ms_task s = ms_task s' \<Longrightarrow> s = (s' :: merge_state)"
  by (cases s; cases s') simp

lemma item_move_n: "move_n (item_env t E) (item_state t s) = map_outcome (item_state t) (move_n E s)"
  by (auto simp: move_n_def Let_def put_kl_def put_ik_def put_lv_def put_offset_def item_state_def
      n_kl_def n_ik_def n_lv_def n_len_def map_outcome_if intro!: state_eqI)

lemma item_skip_n: "skip_n (item_env t E) (item_state t s) = item_state t (skip_n E s)"
  by (auto simp: skip_n_def item_state_def n_len_def intro!: state_eqI)

lemma item_state_0: "m_pos s = 0 \<Longrightarrow> m_ksuf_pos (item_state t s) = item_at"
  by (simp add: item_state_def)

lemma item_puts [simp]:
  "put_kl (item_env t E) x (item_state t s) = item_state t (put_kl E x s)"
  "put_ik (item_env t E) y (item_state t s) = item_state t (put_ik E y s)"
  "put_lv (item_env t E) y (item_state t s) = item_state t (put_lv E y s)"
  "put_offset (item_env t E) (item_state t s) = item_state t (put_offset E s)"
  "push_task (item_env t E) tt (item_state t s) = item_state t (push_task E tt s)"
  by (simp_all add: put_kl_def put_ik_def put_lv_def put_offset_def push_task_def item_state_def)

lemma item_add_m:
  assumes E: "add_env t E" and s: "m_pos s = 0"
  shows "move_m (item_env t E) (item_state t s) = map_outcome (item_state t) (add_m t E s)"
proof -
  have r: "m_kl (item_env t E) (item_state t s') = ikeylen_m t" "m_ik (item_env t E) (item_state t s') = ikey_m t"
    "m_lv (item_env t E) (item_state t s') = lv_m t" "m_len (item_env t E) (item_state t s') = length (ksuf_m t)"
    if "m_pos s' = 0" for s'
    using item_reads(1-4) [OF E, of "item_state t s'"] that by simp_all
  have k: "me_hasKsuf E" using E by (simp add: add_env_def)
  show ?thesis
    using s by (simp add: move_m_def add_m_def Let_def r k map_outcome_if item_state_0 memcpy_from_def item_peek(1) [OF E])
      (auto simp: item_state_def intro!: state_eqI)
qed

lemma strncmp_0_same:
  "take n xs = take n xs' \<Longrightarrow> strncmp_0 xs ys n = strncmp_0 xs' ys n"
  by (metis strncmp_0_take)

lemma item_next:
  assumes E: "add_env t E"
  shows "next_layer (me_m (item_env t E)) item_at (length (ksuf_m t)) = next_layer (ksuf_m t) 0 (length (ksuf_m t))"
    and "strncmp_0 (drop item_at (me_m (item_env t E))) ys (length (ksuf_m t)) = strncmp_0 (ksuf_m t) ys (length (ksuf_m t))"
proof -
  note pk = item_peek [OF E]
  show "next_layer (me_m (item_env t E)) item_at (length (ksuf_m t)) = next_layer (ksuf_m t) 0 (length (ksuf_m t))"
    using next_layer_item [OF pk(2,1)] next_layer_item [of 0 "length (ksuf_m t)" "ksuf_m t" "ksuf_m t"] by (simp add: peek_def)
  show "strncmp_0 (drop item_at (me_m (item_env t E))) ys (length (ksuf_m t)) = strncmp_0 (ksuf_m t) ys (length (ksuf_m t))"
    by (rule strncmp_0_same) (use pk(1) in \<open>simp add: peek_def\<close>)
qed

lemma item_state_reads:
  assumes "add_env t E" "m_pos s = 0"
  shows "m_kl (item_env t E) (item_state t s) = ikeylen_m t" "m_ik (item_env t E) (item_state t s) = ikey_m t"
    "m_lv (item_env t E) (item_state t s) = lv_m t" "m_len (item_env t E) (item_state t s) = length (ksuf_m t)"
  using item_reads(1-4) [OF assms(1), of "item_state t s"] assms(2) by simp_all

lemma item_n_layer:
  assumes E: "add_env t E" and s: "m_pos s = 0"
  shows "advance_both (n_layer (item_env t E) (item_state t s)) = item_state t (add_both (add_n_layer t E s))"
  using s by (simp add: n_layer_def add_n_layer_def Let_def item_state_reads [OF E] item_state_0 item_next [OF E])
    (auto simp: advance_both_def add_both_def item_state_def intro!: state_eqI)

lemma item_new_layer:
  assumes E: "add_env t E" and s: "m_pos s = 0"
  shows "advance_both (new_layer (item_env t E) (item_state t s)) = item_state t (add_both (add_new_layer t E s))"
  using s by (simp add: new_layer_def add_new_layer_def Let_def item_state_reads [OF E] item_state_0 item_next [OF E])
    (auto simp: advance_both_def add_both_def item_state_def intro!: state_eqI)

lemma item_same_slice:
  assumes E: "add_env t E" and s: "m_pos s = 0"
  shows "same_slice (item_env t E) (item_state t s) = map_outcome (item_state t) (add_same_slice t E s)"
proof -
  have k: "me_hasKsuf E" "\<not> keylenx_is_layer (ikeylen_m t)" using E by (simp_all add: add_env_def)
  show ?thesis
  proof (cases "keylenx_is_layer (n_kl E s)")
    case True
    then show ?thesis
      using k by (simp add: same_slice_def add_same_slice_def item_state_reads [OF E s] item_n_layer [OF E s] Let_def)
  next
    case False
    define x where "x = put_lv E (lv_m t) (put_ik E (ikey_m t) (put_kl E (ikeylen_m t) s))"
    let ?x' = "x\<lparr>ms_mem := poke (ms_mem x) (new_n_ksuf_pos x) (ksuf_m t)\<rparr>"
    have x: "m_pos x = 0" "m_pos ?x' = 0" using s by (simp_all add: x_def)
    have put: "put_lv (item_env t E) (lv_m t) (put_ik (item_env t E) (ikey_m t) (put_kl (item_env t E) (ikeylen_m t) (item_state t s))) = item_state t x"
      by (simp add: x_def)
    have upd: "(item_state t x)\<lparr>ms_mem := memcpy_from (ms_mem (item_state t x)) (new_n_ksuf_pos (item_state t x)) (me_m (item_env t E))
        (m_ksuf_pos (item_state t x)) (length (ksuf_m t))\<rparr> = item_state t ?x'"
      by (simp add: memcpy_from_def item_state_0 [OF x(1)] item_peek(1) [OF E]) (simp add: item_state_def)
    have fin1: "advance_both (item_state t y) = item_state t (add_both y)" if "m_pos y = 0" "ksuf_m t = []" for y
      using that by (simp add: advance_both_def add_both_def item_state_def)
    have fin2: "advance_both ((item_state t y)\<lparr>new_n_ksuf_pos := new_n_ksuf_pos (item_state t y) + l,
          m_ksuf_pos := m_ksuf_pos (item_state t y) + length (ksuf_m t), n_ksuf_pos := n_ksuf_pos (item_state t y) + l\<rparr>) =
        item_state t (add_both (y\<lparr>new_n_ksuf_pos := new_n_ksuf_pos y + l, n_ksuf_pos := n_ksuf_pos y + l\<rparr>))"
      if "m_pos y = 0" for y l
      using that by (auto simp: advance_both_def add_both_def item_state_def intro!: state_eqI)
    have m: "m_pos (put_offset E ?x') = 0" "m_pos (put_offset E x) = 0" using x by simp_all
    define none where "none \<longleftrightarrow> length (ksuf_m t) = 0 \<and> n_len E s = 0"
    define same where "same \<longleftrightarrow> length (ksuf_m t) = n_len E s \<and>
      strncmp_0 (ksuf_m t) (drop (n_ksuf_pos s) (ms_mem s)) (length (ksuf_m t))"
    have n: "none \<Longrightarrow> ksuf_m t = []" by (simp add: none_def)
    show ?thesis
      unfolding same_slice_def add_same_slice_def Let_def item_state_reads [OF E s] item_state_0 [OF s] item_next [OF E]
        item_n_reads item_env_simps(6,7) item_state_simps(1,5) none_def [symmetric] same_def [symmetric]
      using False k n
      by (simp add: item_state_reads [OF E s] put upd fin1 [OF m(2)] fin2 [OF m(1)] item_new_layer [OF E s] x_def [symmetric] map_outcome_if
          del: item_puts(1-3) item_state_simps)
  qed
qed

lemma item_step:
  assumes E: "add_env t E" and s: "m_pos s = 0"
  shows "merge_step (item_env t E) (item_state t s) = map_outcome (\<lambda>(s, c). item_state t s) (add_step t E (s, c))"
proof -
  have m: "map_outcome (\<lambda>(s, c). item_state t s) (and_then x (\<lambda>s. Goes_On (s, c'))) = map_outcome (item_state t) x" for x and c' :: nat
    by (cases x) simp_all
  show ?thesis
    by (simp add: merge_step_def add_step_def Let_def item_state_reads [OF E s] item_skip_n item_add_m [OF E s] item_move_n
        item_same_slice [OF E s] m)
qed

lemma item_loop:
  "add_env t E \<Longrightarrow> m_pos s \<le> 1 \<Longrightarrow>
     merge_loop (item_env t E) (item_state t s) = map_outcome (\<lambda>(s, c). item_state t s) (add_loop t E (s, c))"
proof (induction t E "(s, c)" arbitrary: s c rule: add_loop.induct)
  case (1 t E s c)
  have one: "me_m_nkeys E = 1" using "1.prems"(1) by (simp add: add_env_def)
  show ?case
  proof (cases "m_pos s = 0 \<and> n_pos s < me_n_nkeys E")
    case False
    then have "merge_loop (item_env t E) (item_state t s) = Goes_On (item_state t s)" "add_loop t E (s, c) = Goes_On (s, c)"
      using one by (auto simp: merge_loop.simps [of "item_env t E"] add_loop.simps [of t E])
    then show ?thesis by simp
  next
    case True
    have l: "merge_loop (item_env t E) (item_state t s) = and_then (merge_step (item_env t E) (item_state t s)) (merge_loop (item_env t E))"
      "add_loop t E (s, c) = and_then (add_step t E (s, c)) (add_loop t E)"
      using True one by (simp_all add: merge_loop.simps [of "item_env t E"] add_loop.simps [of t E])
    note st = item_step [OF "1.prems"(1) conjunct1 [OF True], of c]
    show ?thesis
    proof (cases "add_step t E (s, c)")
      case (Goes_On y)
      obtain s' c' where y: "y = (s', c')" by (cases y)
      have p: "m_pos s' \<le> 1" using add_step_pos [of t E s c s' c'] Goes_On y True by auto
      have "merge_loop (item_env t E) (item_state t s') = map_outcome (\<lambda>(s, c). item_state t s) (add_loop t E (s', c'))"
        by (rule "1.hyps" [OF _ _ "1.prems"(1) p]) (use True Goes_On y in simp_all)
      then show ?thesis using st by (simp add: l Goes_On y)
    qed (use st l in simp_all)
  qed
qed

lemma item_n_leftovers: "n_leftovers (item_env t E) (item_state t s) = map_outcome (item_state t) (n_leftovers E s)"
proof (induction E s rule: n_leftovers.induct)
  case (1 E s)
  show ?case
  proof (cases "n_pos s < me_n_nkeys E")
    case True
    then have l: "n_leftovers (item_env t E) (item_state t s) = and_then (move_n (item_env t E) (item_state t s)) (n_leftovers (item_env t E))"
      "n_leftovers E s = and_then (move_n E s) (n_leftovers E)"
      by (simp_all add: n_leftovers.simps [of "item_env t E"] n_leftovers.simps [of E])
    show ?thesis using 1 [OF True] unfolding l item_move_n by (cases "move_n E s") auto
  qed (simp add: n_leftovers.simps [of "item_env t E"] n_leftovers.simps [of E])
qed

lemma item_m_leftovers:
  assumes E: "add_env t E" and s: "m_pos s \<le> 1"
  shows "m_leftovers (item_env t E) (item_state t s) = map_outcome (item_state t) (if m_pos s = 0 then add_m t E s else Goes_On s)"
proof (cases "m_pos s = 0")
  case True
  have one: "me_m_nkeys E = 1" using E by (simp add: add_env_def)
  have "m_leftovers (item_env t E) x = Goes_On x" if "m_pos x = 1" for x
    using that one by (simp add: m_leftovers.simps)
  moreover have "m_pos s' = 1" if "add_m t E s = Goes_On s'" for s'
    using that by (auto simp: add_m_def Let_def split: if_splits)
  moreover have "m_leftovers (item_env t E) (item_state t s) = and_then (move_m (item_env t E) (item_state t s)) (m_leftovers (item_env t E))"
    using True one by (simp add: m_leftovers.simps [of "item_env t E" "item_state t s"])
  ultimately show ?thesis using True by (cases "add_m t E s") (simp_all add: item_add_m [OF E True])
next
  case False
  then show ?thesis using s E by (simp add: m_leftovers.simps add_env_def)
qed

text \<open>How far the loops get, and the count of keys they carry along.\<close>

definition add_count :: "merge_env \<Rightarrow> merge_state \<times> nat \<Rightarrow> bool" where
  "add_count E sc \<longleftrightarrow> m_pos (fst sc) \<le> 1 \<and> n_pos (fst sc) \<le> me_n_nkeys E \<and>
     snd sc = new_n_pos (fst sc) + (1 - m_pos (fst sc)) + (me_n_nkeys E - n_pos (fst sc))"

lemma new_pos_simps:
  "add_m t E s = Goes_On s' \<Longrightarrow> m_pos s' = 1 \<and> n_pos s' = n_pos s \<and> new_n_pos s' = new_n_pos s + 1"
  "move_n E s = Goes_On s' \<Longrightarrow> m_pos s' = m_pos s \<and> n_pos s' = n_pos s + 1 \<and> new_n_pos s' = new_n_pos s + 1"
  "add_same_slice t E s = Goes_On s' \<Longrightarrow> m_pos s' = 1 \<and> n_pos s' = n_pos s + 1 \<and> new_n_pos s' = new_n_pos s + 1"
  by (auto simp: add_m_def move_n_def add_same_slice_def add_both_def add_n_layer_def add_new_layer_def Let_def split: if_splits)

lemma add_step_count:
  assumes "add_step t E (s, c) = Goes_On y" "add_count E (s, c)" "m_pos s = 0" "n_pos s < me_n_nkeys E"
  shows "add_count E y"
  using assms
  by (auto simp: add_step_def and_then_Goes_On Let_def add_count_def skip_n_def split: if_splits dest!: new_pos_simps)

lemma add_loop_count: "add_loop t E sc = Goes_On y \<Longrightarrow> add_count E sc \<Longrightarrow> add_count E y \<and> (m_pos (fst y) = 1 \<or> n_pos (fst y) = me_n_nkeys E)"
proof (induction t E sc rule: add_loop.induct)
  case (1 t E sc)
  show ?case
  proof (cases "m_pos (fst sc) = 0 \<and> n_pos (fst sc) < me_n_nkeys E")
    case True
    then obtain z where z: "add_step t E sc = Goes_On z" "add_loop t E z = Goes_On y"
      using "1.prems"(1) by (auto simp: add_loop.simps [of t E sc] and_then_Goes_On)
    have "add_count E z" using add_step_count [of t E "fst sc" "snd sc" z] z(1) "1.prems"(2) True by simp
    then show ?thesis using "1.IH" [OF True z(1) z(2)] by simp
  next
    case False
    then show ?thesis using "1.prems" by (auto simp: add_loop.simps [of t E sc] add_count_def)
  qed
qed

lemma n_leftovers_count:
  "n_leftovers E s = Goes_On s' \<Longrightarrow> n_pos s \<le> me_n_nkeys E \<Longrightarrow> new_n_pos s' = new_n_pos s + (me_n_nkeys E - n_pos s)"
proof (induction E s rule: n_leftovers.induct)
  case (1 E s)
  show ?case
  proof (cases "n_pos s < me_n_nkeys E")
    case True
    then obtain z where z: "move_n E s = Goes_On z" "n_leftovers E z = Goes_On s'"
      using "1.prems"(1) by (auto simp: n_leftovers.simps [of E s] and_then_Goes_On)
    then show ?thesis using "1.IH" [OF True _ z(2)] new_pos_simps(2) [OF z(1)] True by auto
  qed (use "1.prems" in \<open>auto simp: n_leftovers.simps [of E s]\<close>)
qed

lemma item_arrays:
  assumes E: "add_env t E"
  shows "merge_arrays (item_env t E) mem = map_outcome (\<lambda>(s, c). item_state t s) (add_arrays t E mem)"
    and "add_arrays t E mem = Goes_On (s, c) \<Longrightarrow> c = new_n_pos s"
proof -
  define s0 where "s0 = \<lparr>ms_mem = mem, m_pos = 0, n_pos = 0, new_n_pos = 0, m_ksuf_pos = 0,
         n_ksuf_pos = at_ksuf (me_np E), new_n_ksuf_pos = at_ksuf (me_newp E), ms_task = []\<rparr>"
  define c0 where "c0 = me_n_nkeys E + 1"
  have e: "me_mp E = startpos 0 1" "me_hasKsuf E" using E by (simp_all add: add_env_def)
  have ma: "merge_arrays (item_env t E) mem = and_then (merge_loop (item_env t E) (item_state t s0))
       (\<lambda>s. and_then (m_leftovers (item_env t E) s) (\<lambda>s. and_then (n_leftovers (item_env t E) s) (\<lambda>s. Goes_On (put_offset (item_env t E) s))))"
    using e by (simp add: merge_arrays_def s0_def item_state_def item_at_def)
  have aa: "add_arrays t E mem = and_then (add_loop t E (s0, c0))
       (\<lambda>(s, new_nkeys). and_then (if m_pos s = 0 then add_m t E s else Goes_On s)
       (\<lambda>s. and_then (n_leftovers E s) (\<lambda>s. Goes_On (put_offset E s, new_nkeys))))"
    by (simp add: add_arrays_def s0_def c0_def)
  have l: "merge_loop (item_env t E) (item_state t s0) = map_outcome (\<lambda>(s, c). item_state t s) (add_loop t E (s0, c0))"
    by (rule item_loop [OF E]) (simp add: s0_def)
  have c0: "add_count E (s0, c0)" by (simp add: add_count_def s0_def c0_def)
  show "merge_arrays (item_env t E) mem = map_outcome (\<lambda>(s, c). item_state t s) (add_arrays t E mem)"
  proof (cases "add_loop t E (s0, c0)")
    case (Goes_On y)
    obtain s c where y: "y = (s, c)" by (cases y)
    have "m_pos s \<le> 1" using add_loop_count [OF Goes_On c0] by (simp add: y add_count_def)
    note ml = item_m_leftovers [OF E this]
    define x where "x = (if m_pos s = 0 then add_m t E s else Goes_On s)"
    have "and_then (map_outcome (item_state t) x) (\<lambda>s. and_then (n_leftovers (item_env t E) s) (\<lambda>s. Goes_On (put_offset (item_env t E) s))) =
        map_outcome (\<lambda>(s, c). item_state t s) (and_then x (\<lambda>s. and_then (n_leftovers E s) (\<lambda>s. Goes_On (put_offset E s, c))))"
    proof (cases x)
      case (Goes_On z)
      then show ?thesis by (cases "n_leftovers E z") (simp_all add: item_n_leftovers)
    qed simp_all
    then show ?thesis by (simp add: ma aa l Goes_On y ml x_def)
  qed (simp_all add: ma aa l)
  assume "add_arrays t E mem = Goes_On (s, c)"
  then obtain s1 s2 s3 where st: "add_loop t E (s0, c0) = Goes_On (s1, c)" "(if m_pos s1 = 0 then add_m t E s1 else Goes_On s1) = Goes_On s2"
    "n_leftovers E s2 = Goes_On s3" "s = put_offset E s3"
    by (auto simp: aa and_then_Goes_On)
  note ct = add_loop_count [OF st(1) c0, unfolded add_count_def fst_conv snd_conv]
  have s2: "new_n_pos s2 = new_n_pos s1 + (1 - m_pos s1)" "n_pos s2 = n_pos s1"
    using st(2) ct by (auto split: if_splits dest: new_pos_simps(1))
  have "new_n_pos s3 = new_n_pos s2 + (me_n_nkeys E - n_pos s2)"
    by (rule n_leftovers_count [OF st(3)]) (use ct s2 in simp)
  then show "c = new_n_pos s" using ct s2 st(4) by simp
qed

section \<open>Adding an item\<close>

lemma relink_tasks: "length ys = 1 \<Longrightarrow> relink p (xs @ ys) = xs @ map (\<lambda>tt. tt\<lparr>parent_node := p\<rparr>) ys"
  by (cases ys) (auto simp: relink_def list_update_append)

fun below :: "merged \<Rightarrow> nat" where
  "below (Kept r) = 0"
| "below (Below kl ik tt) = 1"

lemma length_mg_tasks: "length (mg_tasks p R) = sum_list (map below R)"
proof (induction R rule: rev_induct)
  case (snoc r R)
  then show ?case by (cases r) (simp_all add: mg_tasks_snoc)
qed (simp add: mg_tasks_def)

lemma merge_same_below: "merge_same rep m n = Goes_On r \<Longrightarrow> below r \<le> 1"
  by (cases r) simp_all

lemma merge_slots_below: "merge_slots rep M N = Goes_On R \<Longrightarrow> sum_list (map below R) \<le> length M"
proof (induction rep M N arbitrary: R rule: merge_slots.induct)
  case (3 rep m ms n ns)
  then show ?case
    by (fastforce simp: and_cons_def and_then_Goes_On split: if_splits dest: merge_same_below)
qed (auto simp: comp_def)

lemma item_tasks: "merge_slots rep [r] N = Goes_On R \<Longrightarrow> length (mg_tasks p R) \<le> 1"
  using merge_slots_below [of rep "[r]" N R] by (simp add: length_mg_tasks)

text \<open>The environment of the loops that add the item of \<open>t\<close>.\<close>

definition add_env_of :: "'n merge_ops \<Rightarrow> merge_task \<Rightarrow> node_slot list \<Rightarrow> u64 \<Rightarrow> merge_env" where
  "add_env_of K t N p =
     \<lparr>me_m = [], me_m_nkeys = 1, me_n_nkeys = length N, me_mp = startpos 0 1,
      me_np = moved_at (go_sizeof K) True [item_slot t] N, me_newp = startpos (go_sizeof K) (KK [item_slot t] N),
      me_hasKsuf = True, me_replaces = go_replaces K, me_n = p\<rparr>"

lemma add_env_of_ok:
  assumes "length (ksuf_m t) + length (sufs N) < 2 ^ 31" and "\<not> keylenx_is_layer (ikeylen_m t)"
  shows "add_env t (add_env_of K t N p)" and "env_ok (go_sizeof K) True [item_slot t] N (item_env t (add_env_of K t N p))"
proof -
  show "add_env t (add_env_of K t N p)" using assms by (simp add: add_env_def add_env_of_def)
  have "packed_at True (packed 0 [item_slot t] []) (startpos 0 1) [item_slot t]" by (rule item_packed) (use assms(1) in simp)
  then show "env_ok (go_sizeof K) True [item_slot t] N (item_env t (add_env_of K t N p))"
    using assms(1) by (simp add: env_ok_def item_env_def add_env_of_def moved_at_def) (simp add: sufs_def)
qed

text \<open>
  Without the guard a task that was queued before would be given a new parent when this step has
  queued none but changed the size of the block.
\<close>

definition relinks :: "'n merge_ops \<Rightarrow> node_slot list \<Rightarrow> merged list \<Rightarrow> bool" where
  "relinks K N R \<longleftrightarrow> \<not> go_guards K \<and> length R \<le> length N \<and> sum_list (map below R) = 0"

context merge_node
begin

lemma add_item_unfold:
  fixes A :: merge_alloc and t :: merge_task and st :: "'n merge_heap"
  assumes n: "node_slots K n N" and has: "go_has_ksuf K n"
    and small: "merged_size (go_sizeof K) True [item_slot t] N < 2 ^ 31" and par: "parent_node t \<noteq> 0"
  defines "h \<equiv> go_sizeof K" and "M \<equiv> [item_slot t]" and "S \<equiv> merged_size (go_sizeof K) True [item_slot t] N"
  defines "p \<equiv> realloc A (mh_next st) (task_n t)"
  defines "n1 \<equiv> go_resize K (al_raw A (mh_next st)) n S"
  defines "E \<equiv> add_env_of K t N p" and "heap \<equiv> (mh_heap st)(task_n t := None)"
  shows "add_item K A t n st =
     and_then (add_arrays t E (relocate True (moved_at h True M N) (startpos h (length N)) (array_len h (go_size K n) (length N)) (go_mem K n1)))
       (\<lambda>(s, k). let suf = rd32 (ms_mem s) (at_ksuf_offset (startpos h (KK M N)) + 4 * new_n_pos s); sz = new_size h True k suf;
             tasks = mh_task st @ ms_task s
        in if k < KK M N then
             (let n' = go_resize K (al_raw A (mh_next st + 1)) (go_set K n1 (length N) S True
                    (compact h True (startpos h (KK M N)) k suf (ms_mem s))) sz;
                  p' = realloc A (mh_next st + 1) p;
                  n'' = go_set K n' k sz True (go_mem K n')
              in set_parent K t p' (st\<lparr>mh_heap := heap(p' \<mapsto> n''),
                   mh_task := (if go_guards K \<and> ms_task s = [] then tasks else relink p' tasks), mh_next := mh_next st + 2\<rparr>))
           else set_parent K t p (st\<lparr>mh_heap := heap(p \<mapsto> go_set K n1 k sz True (ms_mem s)),
                  mh_task := tasks, mh_next := mh_next st + 1\<rparr>))"
proof -
  have nk: "op_nkeys (go_ops K) n = length N" using n by (simp add: node_slots_def)
  have kk: "length N + 1 = KK [item_slot t] N" by simp
  have z: "1 + 8 + 8 + 4 + length (ksuf_m t) + go_size K n = merged_size (go_sizeof K) True [item_slot t] N"
    using n has by (simp add: node_slots_def merged_size_def) (simp add: sufs_def)
  note mz = moved_sizes [OF n, of True "[item_slot t]"]
  have hh: "(True \<longrightarrow> x) = x" "(\<not> True \<longrightarrow> x) = True" "(y = True) = y" for x y by simp_all
  have E: "\<lparr>me_m = [], me_m_nkeys = 1, me_n_nkeys = length N, me_mp = startpos 0 1,
      me_np = moved_at (go_sizeof K) True [item_slot t] N, me_newp = startpos (go_sizeof K) (KK [item_slot t] N), me_hasKsuf = True,
      me_replaces = go_replaces K, me_n = p\<rparr> = add_env_of K t N p"
    by (simp add: add_env_of_def)
  have f: "(2 ^ 31 \<le> merged_size (go_sizeof K) True [item_slot t] N \<or> \<not> go_has_ksuf K n) = False" "(parent_node t = 0) = False"
    using small has par by auto
  have m: "moved_pos (startpos (go_sizeof K) (KK [item_slot t] N)) (array_len (go_sizeof K) (merged_size (go_sizeof K) True [item_slot t] N) (KK [item_slot t] N))
        (array_len (go_sizeof K) (go_size K n) (length N)) = moved_at (go_sizeof K) True [item_slot t] N"
    by (rule mz(2)) (use has in simp_all)
  show ?thesis
    by (simp only: add_item_def Let_def nk kk z m E f if_False h_def S_def M_def p_def [symmetric] n1_def E_def heap_def)
qed

lemma add_item_general:
  assumes n: "node_slots K n N" and has: "go_has_ksuf K n" and bare: "layers_bare N"
    and small: "merged_size (go_sizeof K) True [item_slot t] N < 2 ^ 31" and par: "parent_node t \<noteq> 0"
    and item: "\<not> keylenx_is_layer (ikeylen_m t)"
  shows "merge_slots (go_replaces K) [item_slot t] N = Returns_False \<and> add_item K A t n st = Returns_False \<or>
    (\<exists>R q st'. merge_slots (go_replaces K) [item_slot t] N = Goes_On R \<and> made_at K A {task_n t} True R st q st' \<and>
       add_item K A t n st = set_parent K t q (if relinks K N R then st'\<lparr>mh_task := relink q (mh_task st)\<rparr> else st'))"
proof -
  let ?h = "go_sizeof K" and ?M = "[item_slot t]" and ?S = "merged_size (go_sizeof K) True [item_slot t] N"
  let ?p = "realloc A (mh_next st) (task_n t)" and ?F = "{task_n t}"
  let ?n1 = "go_resize K (al_raw A (mh_next st)) n ?S" and ?E = "add_env_of K t N (realloc A (mh_next st) (task_n t))"
  let ?mem = "relocate True (moved_at ?h True ?M N) (startpos ?h (length N)) (array_len ?h (go_size K n) (length N)) (go_mem K ?n1)"
  have heap: "(mh_heap st)(task_n t := None) = (\<lambda>a. if a \<in> ?F then None else mh_heap st a)" by auto
  note eq = add_item_unfold [OF n has small par, where A = A and st = st, unfolded heap]
  have sf: "length (ksuf_m t) + length (sufs N) < 2 ^ 31" using small by (simp add: merged_size_def) (simp add: sufs_def)
  then have sf': "length (sufs ?M) + length (sufs N) < 2 ^ 31" by (simp add: sufs_def)
  note ae = add_env_of_ok [OF sf item, of K ?p]
  have h1: "True = go_has_ksuf K ?n1" using resize_at [of "al_raw A (mh_next st)" n ?S] has by simp
  have E: "me_replaces (item_env t ?E) = go_replaces K" "me_n (item_env t ?E) = ?p" "me_np (item_env t ?E) = moved_at ?h True ?M N"
    by (simp_all add: add_env_of_def)
  have hasT: "go_has_ksuf K n = True" and noM: "\<not> True \<longrightarrow> sufs ?M = []" using has by simp_all
  note mv = moved_ok [OF n hasT noM, where raw = "al_raw A (mh_next st)"]
  have at: "slots_at True ?mem (me_np (item_env t ?E)) N" using mv(1) by (simp only: E(3))
  have len: "length ?mem = ?h + 1 * KK ?M N + 8 * KK ?M N + 8 * KK ?M N + (if True then 4 * (KK ?M N + 1) + length (sufs ?M) + length (sufs N) else 0)"
    by (rule trans [OF mv(2)]) (simp only: merged_size_def)
  have bareM: "layers_bare ?M" using item by (simp add: layers_bare_def)
  have none: "\<not> True \<Longrightarrow> sufs N = []" by simp
  note ma = merge_arrays_ok [OF ae(2) at none len bareM bare disjI1 [OF TrueI], unfolded E(1) item_arrays(1) [OF ae(1)]]
  show ?thesis
  proof (cases "add_arrays t ?E ?mem")
    case Undefined
    then show ?thesis using ma by simp
  next
    case Returns_False
    then show ?thesis using ma by (simp add: eq)
  next
    case (Goes_On y)
    obtain s c where y: "y = (s, c)" by (cases y)
    have c: "c = new_n_pos s" using item_arrays(2) [OF ae(1)] Goes_On y by simp
    from ma Goes_On y obtain R lvs where R: "merge_slots (go_replaces K) ?M N = Goes_On R"
      and st: "merged_state ?h True ?M N (item_env t ?E) (item_state t s) R lvs" by auto
    have full: "length R = KK ?M N \<longrightarrow> length (mg_sufs R) = length (sufs ?M) + length (sufs N)" using merge_slots_full [OF R] by simp
    note f = finished_node [OF st E(2) h1 sf' full insertI1 [of "task_n t" "{}"], unfolded item_state_simps]
    have g: "add_arrays t ?E ?mem = Goes_On (s, new_n_pos s)" using Goes_On y c by simp
    have le: "length (mg_tasks x R) \<le> 1" for x by (rule item_tasks [OF R])
    show ?thesis
    proof (cases "length R < KK ?M N")
      case True
      have c: "(length R < KK ?M N) = True" using True by simp
      have tasks: "(if go_guards K \<and> mg_tasks ?p R = [] then mh_task st @ mg_tasks ?p R else relink q (mh_task st @ mg_tasks ?p R)) =
          (if relinks K N R then relink q (mh_task st) else mh_task st @ mg_tasks q R)" for q
      proof (cases "sum_list (map below R) = 1")
        case True
        then have l: "length (mg_tasks ?p R) = 1" by (simp add: length_mg_tasks)
        then have "mg_tasks ?p R \<noteq> []" by auto
        moreover have "\<not> relinks K N R" using True by (simp add: relinks_def)
        ultimately show ?thesis by (simp add: relink_tasks [OF l] mg_tasks_moved)
      next
        case False
        have s0: "sum_list (map below R) = 0" using False le unfolding length_mg_tasks by linarith
        then have "mg_tasks x R = []" for x using length_mg_tasks [of x R] by (metis length_0_conv)
        moreover have "relinks K N R \<longleftrightarrow> \<not> go_guards K" using s0 True by (simp only: relinks_def) simp
        ultimately show ?thesis by simp
      qed
      have upd: "(st\<lparr>mh_heap := g, mh_task := a, mh_next := k\<rparr>)\<lparr>mh_task := b\<rparr> = st\<lparr>mh_heap := g, mh_task := b, mh_next := k\<rparr>" for g a b k
        by simp
      have ifs: "(if b then st\<lparr>mh_heap := g, mh_task := x, mh_next := k\<rparr> else st\<lparr>mh_heap := g, mh_task := y, mh_next := k\<rparr>) =
          st\<lparr>mh_heap := g, mh_task := if b then x else y, mh_next := k\<rparr>" for b g x y k
        by simp
      show ?thesis unfolding R
        by (rule disjI2, intro exI conjI, rule refl, rule f(4) [where nk = "length N" and S = ?S and raw = "al_raw A (mh_next st + 1)"])
          (simp only: eq g and_then.simps Let_def f(2,3) c if_True tasks split_conv upd ifs)
    next
      case False
      then have c: "(length R < KK ?M N) = False" and k: "length R = KK ?M N" using f(1) by auto
      have nr: "relinks K N R = False" using k by (simp add: relinks_def)
      show ?thesis unfolding R
        by (rule disjI2, intro exI conjI, rule refl, rule f(5), rule k)
          (simp only: eq g and_then.simps Let_def f(2,3) c nr if_False split_conv)
    qed
  qed
qed

text \<open>
  Without the guard a task that was queued before is given a new parent when this step has queued none
  but changed the size of the block. Where that does not happen, the step does what it is for.
\<close>

lemma add_item_ok:
  assumes n: "node_slots K n N" and has: "go_has_ksuf K n" and bare: "layers_bare N"
    and small: "merged_size (go_sizeof K) True [item_slot t] N < 2 ^ 31" and par: "parent_node t \<noteq> 0"
    and item: "\<not> keylenx_is_layer (ikeylen_m t)"
    and safe: "\<And>R. merge_slots (go_replaces K) [item_slot t] N = Goes_On R \<Longrightarrow> \<not> relinks K N R"
  shows "merge_slots (go_replaces K) [item_slot t] N = Returns_False \<and> add_item K A t n st = Returns_False \<or>
    (\<exists>R q st'. merge_slots (go_replaces K) [item_slot t] N = Goes_On R \<and> made_at K A {task_n t} True R st q st' \<and>
       add_item K A t n st = set_parent K t q st')"
proof -
  have s: "(if relinks K N R then x else y) = y" if "merge_slots (go_replaces K) [item_slot t] N = Goes_On R" for R and x y :: "'n merge_heap"
    using safe [OF that] by simp
  show ?thesis using add_item_general [OF n has bare small par item, of A st] s by (elim disjE exE conjE) auto
qed

end

end
