(* ===== verification/Merge_Create.thy ===== *)
theory Merge_Create
  imports Merge_Item
begin

text \<open>
  The third task: a node made of two items, or, when they share slice and key length, of one slot
  with a layer below. \<open>merge_maker\<close> adds what the merge needs of new nodes to the contract
  \<open>merge_node\<close>.
\<close>

locale merge_maker = merge_node K node_ok fits
  for K :: "'n merge_ops" and node_ok :: "'n \<Rightarrow> bool" and fits :: "'n \<Rightarrow> mkey \<Rightarrow> bool" +
  assumes make_at: "go_sizeof K + 1 * nk + 8 * nk + 8 * nk + 4 * (nk + 1) + ks < 2 ^ 31 \<Longrightarrow>
      length (go_mem K (go_make K raw ks nk)) = go_sizeof K + 1 * nk + 8 * nk + 8 * nk + 4 * (nk + 1) + ks \<and>
      op_nkeys (go_ops K) (go_make K raw ks nk) = nk \<and> go_size K (go_make K raw ks nk) = length (go_mem K (go_make K raw ks nk)) \<and>
      go_has_ksuf K (go_make K raw ks nk)"
    and set_kl_at: "go_mem K (op_set_ikeylen (go_ops K) n i kl) = wr8 (go_mem K n) (go_sizeof K + i) kl \<and>
      op_nkeys (go_ops K) (op_set_ikeylen (go_ops K) n i kl) = op_nkeys (go_ops K) n \<and>
      go_size K (op_set_ikeylen (go_ops K) n i kl) = go_size K n \<and>
      go_has_ksuf K (op_set_ikeylen (go_ops K) n i kl) = go_has_ksuf K n"
    and set_ik_at: "go_mem K (go_set_ikey K n i ik) = wr64 (go_mem K n) (at_ikey (startpos (go_sizeof K) (op_nkeys (go_ops K) n)) + 8 * i) ik \<and>
      op_nkeys (go_ops K) (go_set_ikey K n i ik) = op_nkeys (go_ops K) n \<and>
      go_size K (go_set_ikey K n i ik) = go_size K n \<and> go_has_ksuf K (go_set_ikey K n i ik) = go_has_ksuf K n"
    and set_off_at: "go_has_ksuf K n \<Longrightarrow>
      go_mem K (go_set_ksuf_offset K n i e) = wr32 (go_mem K n) (at_ksuf_offset (startpos (go_sizeof K) (op_nkeys (go_ops K) n)) + 4 * i) e \<and>
      op_nkeys (go_ops K) (go_set_ksuf_offset K n i e) = op_nkeys (go_ops K) n \<and>
      go_size K (go_set_ksuf_offset K n i e) = go_size K n \<and> go_has_ksuf K (go_set_ksuf_offset K n i e)"
    and ksufpos_at: "go_has_ksuf K n \<Longrightarrow> go_ksufpos K n i = at_ksuf (startpos (go_sizeof K) (op_nkeys (go_ops K) n)) +
      rd32 (go_mem K n) (at_ksuf_offset (startpos (go_sizeof K) (op_nkeys (go_ops K) n)) + 4 * i)"
begin

text \<open>A node with suffix arrays and \<open>k\<close> keys, seen as the arrays of its block.\<close>

definition seen_as :: "'n \<Rightarrow> nat \<Rightarrow> nat \<Rightarrow> arrays \<Rightarrow> bool" where
  "seen_as n k S v \<longleftrightarrow> op_nkeys (go_ops K) n = k \<and> go_has_ksuf K n \<and> go_size K n = length (go_mem K n) \<and>
     length (go_mem K n) = go_sizeof K + 1 * k + 8 * k + 8 * k + 4 * (k + 1) + S \<and> view (go_sizeof K) k (go_mem K n) = v"

lemma seen_room: "seen_as n k S v \<Longrightarrow> room (go_sizeof K) k True (go_mem K n)"
  by (simp add: seen_as_def room_def)

lemma seen_lens:
  assumes "seen_as n k S v"
  shows "length (a_kl v) = k" "length (a_ik v) = k" "length (a_lv v) = k" "length (a_off v) = k + 1" "length (a_suf v) = S"
  using assms by (auto simp: seen_as_def view_def simp del: upt_Suc)

lemma view_eqI:
  "a_kl v = a_kl w \<Longrightarrow> a_ik v = a_ik w \<Longrightarrow> a_lv v = a_lv w \<Longrightarrow> a_off v = a_off w \<Longrightarrow> a_suf v = a_suf w \<Longrightarrow> v = (w :: arrays)"
  by (cases v; cases w) simp

lemma seen_kl:
  assumes n: "seen_as n k S v" and i: "i < k"
  shows "seen_as (op_set_ikeylen (go_ops K) n i kl) k S (v\<lparr>a_kl := (a_kl v)[i := kl]\<rparr>)"
  using view_kl [OF seen_room [OF n] i, of kl] n set_kl_at [of n i kl]
  by (auto simp: seen_as_def intro!: view_eqI)

lemma seen_ik:
  assumes n: "seen_as n k S v" and i: "i < k"
  shows "seen_as (go_set_ikey K n i x) k S (v\<lparr>a_ik := (a_ik v)[i := x]\<rparr>)"
  using view_ik [OF seen_room [OF n] i, of x] n set_ik_at [of n i x]
  by (auto simp: seen_as_def intro!: view_eqI)

lemma seen_lv:
  assumes n: "seen_as n k S v" and i: "i < k"
  shows "seen_as (op_set_lv (go_ops K) n i x) k S (v\<lparr>a_lv := (a_lv v)[i := x]\<rparr>)"
  using view_lv [OF seen_room [OF n] i, of x] n set_lv_at [of n i x]
  by (auto simp: seen_as_def intro!: view_eqI)

lemma seen_off:
  assumes n: "seen_as n k S v" and i: "i \<le> k" "x < 2 ^ 32"
  shows "seen_as (go_set_ksuf_offset K n i x) k S (v\<lparr>a_off := (a_off v)[i := x]\<rparr>)"
  using view_off [OF seen_room [OF n] i] n set_off_at [of n i x]
  by (auto simp: seen_as_def intro!: view_eqI)

lemma seen_suffix:
  assumes n: "seen_as n k S v" and i: "i \<le> k" "a_off v ! i + length suf \<le> S"
  shows "seen_as (store_suffix K n i suf) k S (v\<lparr>a_suf := poke (a_suf v) (a_off v ! i) suf\<rparr>)"
proof -
  have nk: "op_nkeys (go_ops K) n = k" and has: "go_has_ksuf K n"
    and len: "length (go_mem K n) = go_sizeof K + 1 * k + 8 * k + 8 * k + 4 * (k + 1) + S"
    using n by (simp_all add: seen_as_def)
  have o: "rd32 (go_mem K n) (at_ksuf_offset (startpos (go_sizeof K) k) + 4 * i) = a_off v ! i"
    using n i(1) by (auto simp: seen_as_def view_def simp del: upt_Suc)
  have p: "go_ksufpos K n i = go_sizeof K + 1 * k + 8 * k + 8 * k + 4 * (k + 1) + a_off v ! i"
    using ksufpos_at [OF has, of i] o by (simp add: nk)
  have b: "go_sizeof K + 1 * k + 8 * k + 8 * k + 4 * (k + 1) + a_off v ! i + length suf \<le> length (go_mem K n)"
    using len i(2) by simp
  note vs = view_suf [OF seen_room [OF n] b]
  have m: "go_mem K (store_suffix K n i suf) = poke (go_mem K n) (go_sizeof K + 1 * k + 8 * k + 8 * k + 4 * (k + 1) + a_off v ! i) suf \<and>
      op_nkeys (go_ops K) (store_suffix K n i suf) = k \<and> go_size K (store_suffix K n i suf) = go_size K n \<and> go_has_ksuf K (store_suffix K n i suf)"
    using set_at [OF refl, of n k "go_size K n" "poke (go_mem K n) (go_ksufpos K n i) suf"] has
    unfolding store_suffix_def nk p by simp
  have "v = view (go_sizeof K) k (go_mem K n)" using n by (simp add: seen_as_def)
  then show ?thesis using m vs n by (auto simp: seen_as_def intro!: view_eqI)
qed

lemma seen_item:
  assumes n: "seen_as n k S v" and i: "i < k" "e < 2 ^ 32"
  shows "seen_as (store_item K n i kl ik lv e) k S
    (v\<lparr>a_kl := (a_kl v)[i := kl], a_ik := (a_ik v)[i := ik], a_lv := (a_lv v)[i := lv], a_off := (a_off v)[i + 1 := e]\<rparr>)"
proof -
  have j: "i + 1 \<le> k" using i by simp
  note a = seen_kl [OF n i(1), of kl]
  note b = seen_ik [OF a i(1), of ik]
  note c = seen_lv [OF b i(1), of lv]
  note d = seen_off [OF c j i(2)]
  show ?thesis unfolding store_item_def Let_def using d by simp
qed

lemma seen_make:
  assumes "go_sizeof K + 1 * nk + 8 * nk + 8 * nk + 4 * (nk + 1) + ks < 2 ^ 31"
  shows "seen_as (go_make K raw ks nk) nk ks (view (go_sizeof K) nk (go_mem K (go_make K raw ks nk)))"
  using make_at [OF assms, of raw] by (simp add: seen_as_def)

text \<open>Arrays that are the parts of a list of slots.\<close>

lemma seen_slots:
  assumes n: "seen_as n k S v" and xs: "k = length xs" "S = length (sufs xs)" "length (sufs xs) < 2 ^ 31"
    and v: "a_kl v = map slot_kl xs" "a_ik v = map slot_ikey xs" "a_lv v = map slot_lv xs" "a_off v = offs xs" "a_suf v = sufs xs"
  shows "node_slots K n xs"
proof -
  let ?mem = "go_mem K n"
  have vw: "view (go_sizeof K) k ?mem = v" and len: "length ?mem = go_sizeof K + 1 * k + 8 * k + 8 * k + 4 * (k + 1) + S"
    using n by (simp_all add: seen_as_def)
  note l = seen_lens [OF n]
  note rg = region_of_view [OF seen_room [OF n] order_refl, unfolded vw]
  have "slots_at True ?mem (startpos (go_sizeof K) (length xs)) xs"
    unfolding slots_at_def arrays_at_def
    using rg(1) [of "map slot_kl xs"] rg(2) [of "map slot_ikey xs"] rg(3) [of "map slot_lv xs"] rg(4) [OF TrueI, of "offs xs"]
      rg(5) [OF TrueI, of "length (sufs xs)" "sufs xs"] xs v
    by simp
  then show ?thesis using n xs by (simp add: node_slots_def seen_as_def)
qed

text \<open>Two items in a new node.\<close>

lemma two_written:
  assumes sz: "go_sizeof K + 1 * 2 + 8 * 2 + 8 * 2 + 4 * (2 + 1) + (length sx + length sy) < 2 ^ 31"
    and ks: "ks = length sx + length sy"
  shows "node_slots K (store_suffix K (store_suffix K (store_item K (store_item K (go_set_ksuf_offset K (go_make K raw ks 2) 0 0)
       0 kx ix vx (length sx)) 1 ky iy vy (length sx + length sy)) 0 sx) 1 sy) [(kx, ix, vx, sx), (ky, iy, vy, sy)]"
    (is "node_slots K ?n ?xs")
    and "go_has_ksuf K (store_suffix K (store_suffix K (store_item K (store_item K (go_set_ksuf_offset K (go_make K raw ks 2) 0 0)
       0 kx ix vx (length sx)) 1 ky iy vy (length sx + length sy)) 0 sx) 1 sy)"
proof -
  let ?S = "length sx + length sy" and ?new = "go_make K raw ks 2"
  obtain v where v: "seen_as ?new 2 ?S v" using seen_make [OF sz, where raw = raw] ks by auto
  note l = seen_lens [OF v]
  have z: "(0 :: nat) \<le> 2" "(0 :: nat) < 2" "(1 :: nat) < 2" "(0 :: nat) < 2 ^ 32" "length sx < 2 ^ 32" "?S < 2 ^ 32" "(1 :: nat) \<le> 2"
    using sz by auto
  define v1 where "v1 = v\<lparr>a_off := (a_off v)[0 := 0]\<rparr>"
  define v2 where "v2 = v1\<lparr>a_kl := (a_kl v1)[0 := kx], a_ik := (a_ik v1)[0 := ix], a_lv := (a_lv v1)[0 := vx], a_off := (a_off v1)[0 + 1 := length sx]\<rparr>"
  define v3 where "v3 = v2\<lparr>a_kl := (a_kl v2)[1 := ky], a_ik := (a_ik v2)[1 := iy], a_lv := (a_lv v2)[1 := vy], a_off := (a_off v2)[1 + 1 := ?S]\<rparr>"
  define v4 where "v4 = v3\<lparr>a_suf := poke (a_suf v3) (a_off v3 ! 0) sx\<rparr>"
  define v5 where "v5 = v4\<lparr>a_suf := poke (a_suf v4) (a_off v4 ! 1) sy\<rparr>"
  note s1 = seen_off [OF v z(1,4), folded v1_def]
  note s2 = seen_item [OF s1 z(2,5), where kl = kx and ik = ix and lv = vx, folded v2_def]
  note s3 = seen_item [OF s2 z(3,6), where kl = ky and ik = iy and lv = vy, folded v3_def]
  have o: "a_off v3 ! 0 = 0" "a_off v4 ! 1 = length sx" "a_off v3 = [0, length sx, ?S]"
    using l(4) by (auto simp: v4_def v3_def v2_def v1_def numeral_eq_Suc length_Suc_conv)
  have s4: "seen_as (store_suffix K (store_item K (store_item K (go_set_ksuf_offset K ?new 0 0) 0 kx ix vx (length sx)) 1 ky iy vy ?S) 0 sx) 2 ?S v4"
    unfolding v4_def by (rule seen_suffix [OF s3 z(1)]) (simp add: o)
  have s5: "seen_as ?n 2 ?S v5"
    unfolding v5_def by (rule seen_suffix [OF s4 z(7)]) (use o in simp)
  have two: "xs[0 := a, 1 := b] = [a, b]" if "length xs = 2" for xs :: "'x list" and a b
    using that by (auto simp: numeral_eq_Suc length_Suc_conv)
  show "go_has_ksuf K ?n" using s5 by (simp add: seen_as_def)
  show "node_slots K ?n ?xs"
  proof (rule seen_slots [OF s5])
    show "2 = length ?xs" "?S = length (sufs ?xs)" "length (sufs ?xs) < 2 ^ 31" using sz by (simp_all add: sufs_def)
    show "a_kl v5 = map slot_kl ?xs" "a_ik v5 = map slot_ikey ?xs" "a_lv v5 = map slot_lv ?xs"
      using two l by (simp_all add: v5_def v4_def v3_def v2_def v1_def)
    show "a_off v5 = offs ?xs" using o(3) by (simp add: v5_def v4_def offs_def suf_offset_def)
    have "a_suf v5 = poke (poke (a_suf v) 0 sx) (length sx) sy" using o by (simp add: v5_def v4_def) (simp add: v3_def v2_def v1_def)
    also have "\<dots> = sx @ sy" using l(5) by (simp add: poke_def)
    finally show "a_suf v5 = sufs ?xs" by (simp add: sufs_def)
  qed
qed

lemma layer_written:
  assumes sz: "go_sizeof K + 1 * 1 + 8 * 1 + 8 * 1 + 4 * (1 + 1) + 0 < 2 ^ 31"
  shows "\<exists>x. node_slots K (one_layer K raw t) [(ikeylen_n t + 64, ikey_n t, x, [])] \<and> go_has_ksuf K (one_layer K raw t)"
proof -
  let ?n0 = "go_make K raw 0 1"
  obtain v where v: "seen_as ?n0 1 0 v" using seen_make [OF sz, where raw = raw] by auto
  note l = seen_lens [OF v]
  have z: "(0 :: nat) < 1" "(0 :: nat) \<le> 1" "(1 :: nat) \<le> 1" "(0 :: nat) < 2 ^ 32" by simp_all
  note s1 = seen_kl [OF v z(1), of "ikeylen_n t + 64"]
  note s2 = seen_ik [OF s1 z(1), of "ikey_n t"]
  note s3 = seen_off [OF s2 z(2,4)]
  note s4 = seen_off [OF s3 z(3,4)]
  have one: "xs[0 := a] = [a]" if "length xs = 1" for xs :: "'x list" and a
    using that by (cases xs) auto
  have o: "(a_off v)[0 := 0, 1 := 0] = [0, 0]" using l(4) by (auto simp: nth_list_update less_Suc_eq intro!: nth_equalityI)
  have e: "a_lv v = [hd (a_lv v)]" using l(3) by (cases "a_lv v") auto
  have "node_slots K (one_layer K raw t) [(ikeylen_n t + 64, ikey_n t, hd (a_lv v), [])]"
    unfolding one_layer_def Let_def
    by (rule seen_slots [OF s4]) (use one l o e in \<open>simp_all add: sufs_def offs_def suf_offset_def\<close>)
  moreover have "go_has_ksuf K (one_layer K raw t)" using s4 by (simp add: one_layer_def Let_def seen_as_def)
  ultimately show ?thesis by blast
qed

end

text \<open>The slots of the new node.\<close>

definition create_rows :: "merge_task \<Rightarrow> merged list" where
  "create_rows t =
     (let m = (ikeylen_m t, ikey_m t, lv_m t, ksuf_m t); n = (ikeylen_n t, ikey_n t, lv_n t, ksuf_n t) in
      if ikey_m t = ikey_n t \<and> ikeylen_m t = ikeylen_n t then
        [Below (ikeylen_n t + 64) (ikey_n t)
          (task_item_n (next_item (ksuf_n t)) (lv_n t) (task_item_m (next_item (ksuf_m t)) (lv_m t) (new_task\<lparr>task := 2\<rparr>)))]
      else if ikey_m t < ikey_n t \<or> ikey_m t = ikey_n t \<and> ikeylen_m t < ikeylen_n t then [Kept m, Kept n] else [Kept n, Kept m])"

lemma next_layer_whole: "next_layer xs 0 (length xs) = next_item xs"
  using next_layer_item [of 0 "length xs" xs xs] by (simp add: peek_def)

context merge_maker
begin

lemma create_node_ok:
  assumes par: "parent_node t \<noteq> 0"
    and small: "go_sizeof K + 1 * 2 + 8 * 2 + 8 * 2 + 4 * (2 + 1) + (length (ksuf_m t) + length (ksuf_n t)) < 2 ^ 31"
  shows "\<exists>q st'. made_at K A {} True (create_rows t) st q st' \<and> create_node K A t st = set_parent K t q st'"
proof -
  let ?p = "al_addr A (mh_next st)" and ?raw = "al_raw A (mh_next st)"
  have q: "?p \<in> {} \<or> (\<exists>i\<ge>mh_next st. i < mh_next st + 1 \<and> ?p = al_addr A i)" by auto
  have hasI: "node_slots K n xs \<Longrightarrow> go_has_ksuf K n \<Longrightarrow> go_has_ksuf K n = True" for n xs by simp
  show ?thesis
  proof (cases "ikey_m t = ikey_n t \<and> ikeylen_m t = ikeylen_n t")
    case True
    define R where "R = create_rows t"
    define tt where "tt = task_item_n (next_item (ksuf_n t)) (lv_n t) (task_item_m (next_item (ksuf_m t)) (lv_m t) (new_task\<lparr>task := 2\<rparr>))"
    have R: "R = [Below (ikeylen_n t + 64) (ikey_n t) tt]" using True by (simp add: R_def create_rows_def tt_def Let_def)
    obtain x where x: "node_slots K (one_layer K ?raw t) [(ikeylen_n t + 64, ikey_n t, x, [])]"
      and has: "go_has_ksuf K (one_layer K ?raw t) = True"
      using layer_written [of ?raw t] small by auto
    let ?st = "st\<lparr>mh_heap := (mh_heap st)(?p \<mapsto> one_layer K ?raw t), mh_task := mh_task st @ mg_tasks ?p R, mh_next := mh_next st + 1\<rparr>"
    have tasks: "mg_tasks ?p R = [task_item_n (next_layer (ksuf_n t) 0 (length (ksuf_n t))) (lv_n t)
                   (task_item_m (next_layer (ksuf_m t) 0 (length (ksuf_m t))) (lv_m t)
                     (new_task\<lparr>task := 2, parent_node := ?p, parent_node_pos := 0\<rparr>))]"
      by (simp add: R tt_def mg_tasks_def next_layer_whole task_item_n_def task_item_m_def)
    have "made_at K A {} True R st ?p ?st"
      by (rule made_atI [OF x _ _ has _ refl, of _ "[x]"]) (use q in \<open>simp_all add: R mg_rows_def mg_row_def\<close>)
    moreover have "create_node K A t st = set_parent K t ?p ?st"
      using True par by (simp add: create_node_def Let_def tasks)
    ultimately show ?thesis unfolding R_def by blast
  next
    case False
    let ?first = "ikey_m t < ikey_n t \<or> ikey_m t = ikey_n t \<and> ikeylen_m t < ikeylen_n t"
    define xs where "xs = (let m = (ikeylen_m t, ikey_m t, lv_m t, ksuf_m t); n = (ikeylen_n t, ikey_n t, lv_n t, ksuf_n t) in
      if ?first then [m, n] else [n, m])"
    have R: "create_rows t = map Kept xs" using False by (auto simp: create_rows_def xs_def Let_def)
    have n: "node_slots K (two_items K ?raw t) xs" "go_has_ksuf K (two_items K ?raw t) = True"
    proof (atomize (full), cases ?first)
      case True
      then show "node_slots K (two_items K ?raw t) xs \<and> go_has_ksuf K (two_items K ?raw t) = True"
        using two_written [where sx = "ksuf_m t" and sy = "ksuf_n t", OF small refl] by (simp add: two_items_def Let_def xs_def)
    next
      case F: False
      have sm: "go_sizeof K + 1 * 2 + 8 * 2 + 8 * 2 + 4 * (2 + 1) + (length (ksuf_n t) + length (ksuf_m t)) < 2 ^ 31" using small by simp
      show "node_slots K (two_items K ?raw t) xs \<and> go_has_ksuf K (two_items K ?raw t) = True"
        using two_written [where sx = "ksuf_n t" and sy = "ksuf_m t", OF sm add.commute, where raw = ?raw]
        unfolding two_items_def Let_def xs_def if_not_P [OF F] by simp
    qed
    have lv: "list_all2 mg_lv (map Kept xs) (map slot_lv xs)" by (simp add: list_all2_conv_all_nth)
    let ?st = "st\<lparr>mh_heap := (mh_heap st)(?p \<mapsto> two_items K ?raw t), mh_next := mh_next st + 1\<rparr>"
    have "made_at K A {} True (create_rows t) st ?p ?st" unfolding R
      by (rule made_atI [OF n(1) mg_rows_Kept [symmetric] lv n(2) _ refl]) (use q in \<open>simp_all add: mg_tasks_Kept\<close>)
    moreover have "create_node K A t st = set_parent K t ?p ?st"
      using False par by (auto simp: create_node_def Let_def)
    ultimately show ?thesis by blast
  qed
qed

end

section \<open>The two kinds of node\<close>

interpretation mnk: merge_maker mn_merge_ops mn_ok "\<lambda>_ _. True"
proof (intro merge_maker.intro merge_maker_axioms.intro)
  show "merge_node mn_merge_ops mn_ok (\<lambda>_ _. True)" by (rule mnm.merge_node_axioms)
qed (auto simp: mn_merge_ops_def mn_ops_def mn_make_def mn_set_ikeylen_def mn_set_ikey_def mn_set_ksuf_offset_def mn_ksufpos_def
    mn_offset_defs Let_def simp del: upt_Suc)

interpretation mdk: merge_maker md_merge_ops md_ok md_fits
proof (intro merge_maker.intro merge_maker_axioms.intro)
  show "merge_node md_merge_ops md_ok md_fits" by (rule mdm.merge_node_axioms)
qed (auto simp: md_merge_ops_def md_ops_def md_make_def md_set_ikeylen_def md_set_ikey_def md_set_ksuf_offset_def md_ksufpos_def
    md_offset_defs Let_def simp del: upt_Suc)

end
