(* ===== verification/Merge_Rows.thy ===== *)
theory Merge_Rows
  imports Merge_Create
begin

text \<open>
  What the lists of slots mean. A slot that is not a layer stores one string, a layer slot all strings
  of the trie below with its slice in front. The merge of two lists of slots stores what both store,
  provided no string is in both; what it leaves to tasks is in tries no one else holds. All that is
  needed of the tries below is in a record \<open>below_view\<close>: whether there is a trie at an address, what it
  stores, which addresses it occupies, and a weight that bounds sizes and decreases with each task.
\<close>

text \<open>Slots are tuples; facts about all slots are left as they are.\<close>

declare split_paired_All [simp del] split_paired_Ex [simp del]

section \<open>Strings as slots\<close>

text \<open>\<^verbatim>\<open>strncmp\<close> compares suffixes up to a zero byte; a suffix is fit if it has none.\<close>

definition fit_string :: "byte list \<Rightarrow> bool" where
  "fit_string s \<longleftrightarrow> s \<noteq> [] \<and> 0 \<notin> set (drop 8 s)"

lemma convert_to_ikeylen_unat: "unat (convert_to_ikeylen n) = min n 9"
  by (auto simp: convert_to_ikeylen_def)

lemma next_item_inj: "next_item s = next_item t \<Longrightarrow> s = t"
proof -
  assume e: "next_item s = next_item t"
  then have "unat (convert_to_ikeylen (length s)) = unat (convert_to_ikeylen (length t))" by (simp add: next_item_def)
  then have r: "same_slot s t" using e by (simp add: same_slot_def next_item_def slot_rank_def convert_to_ikeylen_unat)
  have d: "drop 8 s = drop 8 t" using e by (simp add: next_item_def)
  show ?thesis
  proof (cases "8 < length s \<and> 8 < length t \<and> take 8 s = take 8 t")
    case True
    with d show ?thesis by (metis append_take_drop_id)
  next
    case False
    then show ?thesis using r by (auto simp: same_slot_iff)
  qed
qed

lemma next_item_kl:
  "next_item s = (kl, ik, suf) \<Longrightarrow> \<not> keylenx_is_layer kl \<and> keylenx_ikeylen kl = kl \<and> unat kl = min (length s) 9 \<and>
     (kl = 0 \<longleftrightarrow> s = []) \<and> (kl = 9 \<longleftrightarrow> 8 < length s) \<and> (suf = [] \<longleftrightarrow> length s \<le> 8)"
proof -
  assume e: "next_item s = (kl, ik, suf)"
  have kl: "kl = convert_to_ikeylen (length s)" "suf = drop 8 s" using e by (simp_all add: next_item_def)
  then have u: "unat kl = min (length s) 9" by (simp add: convert_to_ikeylen_unat)
  have "kl = 0 \<longleftrightarrow> unat kl = 0" "kl = 9 \<longleftrightarrow> unat kl = 9" by (simp_all add: word_unat_eq_iff)
  moreover have "\<not> keylenx_is_layer kl" using u by (simp add: keylenx_is_layer_def word_less_nat_alt)
  moreover have "keylenx_ikeylen kl = kl" by (simp add: kl(1) convert_to_ikeylen_def keylenx_ikeylen_def)
  ultimately show ?thesis using u kl(2) by (auto simp: min_def split: if_splits)
qed

lemma next_item_parts: "fst (snd (next_item s)) = slice_of s" "snd (snd (next_item s)) = drop 8 s"
  by (simp_all add: next_item_def)

fun slot_item :: "node_slot \<Rightarrow> byte \<times> u64 \<times> byte list" where
  "slot_item (kl, ik, lv, suf) = (kl, ik, suf)"

lemma slot_item_eq: "slot_item r = (slot_kl r, slot_ikey r, slot_suf r)"
  by (cases r) simp

definition good_slot :: "node_slot \<Rightarrow> bool" where
  "good_slot r \<longleftrightarrow>
     (if keylenx_is_layer (slot_kl r) then keylenx_ikeylen (slot_kl r) = 9 \<and> slot_suf r = []
      else \<exists>s. fit_string s \<and> slot_item r = next_item s)"

definition good_slots :: "node_slot list \<Rightarrow> bool" where
  "good_slots xs \<longleftrightarrow> (\<forall>r \<in> set xs. good_slot r) \<and> sorted_wrt slot_before xs"

lemma good_slot_cases:
  assumes "good_slot r"
  obtains (layer) "keylenx_is_layer (slot_kl r)" "keylenx_ikeylen (slot_kl r) = 9" "slot_suf r = []"
  | (plain) s where "\<not> keylenx_is_layer (slot_kl r)" "fit_string s" "slot_item r = next_item s"
  using assms by (auto simp: good_slot_def split: if_splits)

lemma plain_slot_facts:
  assumes "fit_string s" "slot_item r = next_item s"
  shows "\<not> keylenx_is_layer (slot_kl r)" "slot_kl r \<noteq> 0" "keylenx_ikeylen (slot_kl r) = slot_kl r" "slot_ikey r = slice_of s"
    "slot_suf r = drop 8 s" "unat (slot_kl r) = min (length s) 9" "slot_kl r = 9 \<longleftrightarrow> 8 < length s" "slot_kl r = convert_to_ikeylen (length s)"
  using next_item_kl [of s "slot_kl r" "slot_ikey r" "slot_suf r"] assms
  by (auto simp: slot_item_eq fit_string_def next_item_def)

lemma good_slot_nonzero: "good_slot r \<Longrightarrow> slot_kl r \<noteq> 0"
  by (erule good_slot_cases) (auto simp: keylenx_is_layer_def dest: plain_slot_facts(2))

lemma good_slots_bare: "good_slots xs \<Longrightarrow> layers_bare xs"
  by (auto simp: good_slots_def layers_bare_def good_slot_def)

lemma fit_drop: "fit_string s \<Longrightarrow> 8 < length s \<Longrightarrow> fit_string (drop 8 s)"
  using set_drop_subset_set_drop [of 8 16 s] by (auto simp: fit_string_def)

lemma strncmp_0_eq: "0 \<notin> set xs \<Longrightarrow> length xs = length ys \<Longrightarrow> n = length xs \<Longrightarrow> strncmp_0 xs ys n \<longleftrightarrow> xs = ys"
proof (induction xs arbitrary: ys n)
  case (Cons x xs)
  then show ?case by (cases ys) auto
qed simp

lemma same_suffix_eq: "0 \<notin> set xs \<Longrightarrow> same_suffix xs ys \<longleftrightarrow> xs = ys"
  by (auto simp: same_suffix_def strncmp_0_eq)

text \<open>Two strings of one slice and length share the first eight bytes.\<close>

lemma same_position:
  assumes "fit_string s" "slot_item r = next_item s" "fit_string t" "slot_item q = next_item t"
    and "\<not> slot_before r q" "\<not> slot_before q r"
  shows "same_slot s t"
proof -
  note r = plain_slot_facts [OF assms(1,2)] and q = plain_slot_facts [OF assms(3,4)]
  have "slice_of s = slice_of t" "slot_kl r = slot_kl q"
    using assms(5,6) r(3,4) q(3,4) by (auto simp: slot_before_def)
  then show ?thesis using r(6) q(6) by (simp add: same_slot_def slot_rank_def)
qed

section \<open>What slots and tasks store, own and weigh\<close>

record below_view =
  bv_trie :: "u64 \<Rightarrow> bool"
  bv_has :: "u64 \<Rightarrow> byte list \<Rightarrow> u64 \<Rightarrow> bool"
  bv_own :: "u64 \<Rightarrow> u64 set"
  bv_wt :: "u64 \<Rightarrow> nat"
  bv_unit :: nat

text \<open>\<open>bv_unit\<close> is the weight of a slot or an item besides its suffix.\<close>

definition item_m :: "merge_task \<Rightarrow> byte \<times> u64 \<times> byte list" where
  "item_m t = (ikeylen_m t, ikey_m t, ksuf_m t)"

definition item_n :: "merge_task \<Rightarrow> byte \<times> u64 \<times> byte list" where
  "item_n t = (ikeylen_n t, ikey_n t, ksuf_n t)"

definition row_has :: "below_view \<Rightarrow> node_slot \<Rightarrow> byte list \<Rightarrow> u64 \<Rightarrow> bool" where
  "row_has V r s v \<longleftrightarrow>
     (if keylenx_is_layer (slot_kl r) then slot_ikey r = slice_of s \<and> 8 < length s \<and> bv_has V (slot_lv r) (drop 8 s) v
      else slot_item r = next_item s \<and> v = slot_lv r)"

definition row_own :: "below_view \<Rightarrow> node_slot \<Rightarrow> u64 set" where
  "row_own V r = (if keylenx_is_layer (slot_kl r) then bv_own V (slot_lv r) else {})"

definition row_wt :: "below_view \<Rightarrow> node_slot \<Rightarrow> nat" where
  "row_wt V r = bv_unit V + length (slot_suf r) + (if keylenx_is_layer (slot_kl r) then bv_wt V (slot_lv r) else 0)"

definition row_fit :: "below_view \<Rightarrow> node_slot \<Rightarrow> bool" where
  "row_fit V r \<longleftrightarrow> good_slot r \<and> (keylenx_is_layer (slot_kl r) \<longrightarrow> bv_trie V (slot_lv r))"

definition task_has :: "below_view \<Rightarrow> merge_task \<Rightarrow> byte list \<Rightarrow> u64 \<Rightarrow> bool" where
  "task_has V t s v \<longleftrightarrow>
     (if task t = 0 then bv_has V (task_m t) s v \<or> bv_has V (task_n t) s v
      else if task t = 1 then item_m t = next_item s \<and> v = lv_m t \<or> bv_has V (task_n t) s v
      else item_m t = next_item s \<and> v = lv_m t \<or> item_n t = next_item s \<and> v = lv_n t)"

definition task_own :: "below_view \<Rightarrow> merge_task \<Rightarrow> u64 set" where
  "task_own V t =
     (if task t = 0 then bv_own V (task_m t) \<union> bv_own V (task_n t) else if task t = 1 then bv_own V (task_n t) else {})"

definition task_wt :: "below_view \<Rightarrow> merge_task \<Rightarrow> nat" where
  "task_wt V t =
     (if task t = 0 then bv_wt V (task_m t) + bv_wt V (task_n t)
      else if task t = 1 then bv_unit V + length (ksuf_m t) + bv_wt V (task_n t)
      else (bv_unit V + length (ksuf_m t)) + (bv_unit V + length (ksuf_n t)))"

text \<open>A task that can be carried out: no string twice, no address twice.\<close>

definition task_fit :: "below_view \<Rightarrow> merge_task \<Rightarrow> bool" where
  "task_fit V t \<longleftrightarrow>
     (if task t = 0 then bv_trie V (task_m t) \<and> bv_trie V (task_n t) \<and> bv_own V (task_m t) \<inter> bv_own V (task_n t) = {} \<and>
        (\<forall>s v w. s \<noteq> [] \<longrightarrow> \<not> (bv_has V (task_m t) s v \<and> bv_has V (task_n t) s w))
      else if task t = 1 then bv_trie V (task_n t) \<and>
        (\<exists>s. fit_string s \<and> item_m t = next_item s \<and> (\<forall>v. \<not> bv_has V (task_n t) s v))
      else task t = 2 \<and> (\<exists>s s'. fit_string s \<and> fit_string s' \<and> s \<noteq> s' \<and> item_m t = next_item s \<and> item_n t = next_item s'))"

fun mg_has :: "below_view \<Rightarrow> merged \<Rightarrow> byte list \<Rightarrow> u64 \<Rightarrow> bool" where
  "mg_has V (Kept r) s v \<longleftrightarrow> row_has V r s v"
| "mg_has V (Below kl ik tt) s v \<longleftrightarrow> ik = slice_of s \<and> 8 < length s \<and> task_has V tt (drop 8 s) v"

fun mg_own :: "below_view \<Rightarrow> merged \<Rightarrow> u64 set" where
  "mg_own V (Kept r) = row_own V r"
| "mg_own V (Below kl ik tt) = task_own V tt"

fun mg_wt :: "below_view \<Rightarrow> merged \<Rightarrow> nat" where
  "mg_wt V (Kept r) = 0"
| "mg_wt V (Below kl ik tt) = task_wt V tt"

fun mg_fit :: "below_view \<Rightarrow> merged \<Rightarrow> bool" where
  "mg_fit V (Kept r) \<longleftrightarrow> row_fit V r"
| "mg_fit V (Below kl ik tt) \<longleftrightarrow> keylenx_is_layer kl \<and> keylenx_ikeylen kl = 9 \<and> task_fit V tt"

definition mg_before :: "merged \<Rightarrow> merged \<Rightarrow> bool" where
  "mg_before x y \<longleftrightarrow> mg_ik x < mg_ik y \<or> mg_ik x = mg_ik y \<and> keylenx_ikeylen (mg_kl x) < keylenx_ikeylen (mg_kl y)"

lemma mg_before_Kept: "mg_before (Kept r) (Kept q) \<longleftrightarrow> slot_before r q"
  by (simp add: mg_before_def slot_before_def)

lemma slot_before_trans: "slot_before a b \<Longrightarrow> slot_before b c \<Longrightarrow> slot_before a c"
  by (auto simp: slot_before_def)

definition rows_fit :: "below_view \<Rightarrow> node_slot list \<Rightarrow> bool" where
  "rows_fit V xs \<longleftrightarrow> (\<forall>r \<in> set xs. row_fit V r) \<and> sorted_wrt slot_before xs \<and>
     sorted_wrt (\<lambda>r q. row_own V r \<inter> row_own V q = {}) xs"

definition rows_apart :: "below_view \<Rightarrow> node_slot list \<Rightarrow> node_slot list \<Rightarrow> bool" where
  "rows_apart V M N \<longleftrightarrow> (\<forall>m \<in> set M. \<forall>n \<in> set N. row_own V m \<inter> row_own V n = {} \<and>
     (\<forall>s v w. \<not> (row_has V m s v \<and> row_has V n s w)))"

text \<open>The result of a merge: in order, fit, and with what the two lists store, own and weigh at most.\<close>

definition merges_to :: "below_view \<Rightarrow> node_slot list \<Rightarrow> node_slot list \<Rightarrow> merged list \<Rightarrow> bool" where
  "merges_to V M N R \<longleftrightarrow> (\<forall>x \<in> set R. mg_fit V x) \<and> sorted_wrt mg_before R \<and>
     sorted_wrt (\<lambda>x y. mg_own V x \<inter> mg_own V y = {}) R \<and>
     (\<forall>x \<in> set R. \<exists>r \<in> set M \<union> set N. mg_ik x = slot_ikey r \<and> keylenx_ikeylen (mg_kl x) = keylenx_ikeylen (slot_kl r)) \<and>
     (\<forall>x \<in> set R. mg_own V x \<subseteq> (\<Union>r \<in> set M \<union> set N. row_own V r)) \<and>
     (\<forall>s v. (\<exists>x \<in> set R. mg_has V x s v) \<longleftrightarrow> (\<exists>r \<in> set M \<union> set N. row_has V r s v)) \<and>
     sum_list (map (mg_wt V) R) \<le> sum_list (map (row_wt V) M) + sum_list (map (row_wt V) N) \<and>
     length R + sum_list (map below R) = length M + length N"

lemma merges_toD:
  assumes "merges_to V M N R"
  shows "\<forall>x \<in> set R. mg_fit V x" "sorted_wrt mg_before R" "sorted_wrt (\<lambda>x y. mg_own V x \<inter> mg_own V y = {}) R"
    "\<forall>x \<in> set R. \<exists>r \<in> set M \<union> set N. mg_ik x = slot_ikey r \<and> keylenx_ikeylen (mg_kl x) = keylenx_ikeylen (slot_kl r)"
    "\<forall>x \<in> set R. mg_own V x \<subseteq> (\<Union>r \<in> set M \<union> set N. row_own V r)"
    "\<forall>s v. (\<exists>x \<in> set R. mg_has V x s v) \<longleftrightarrow> (\<exists>r \<in> set M \<union> set N. row_has V r s v)"
    "sum_list (map (mg_wt V) R) \<le> sum_list (map (row_wt V) M) + sum_list (map (row_wt V) N)"
    "length R + sum_list (map below R) = length M + length N"
  using assms unfolding merges_to_def by - (elim conjE, assumption)+

lemma merges_to_Kept:
  assumes "rows_fit V xs"
  shows "merges_to V xs [] (map Kept xs)" and "merges_to V [] xs (map Kept xs)"
  using assms
  by (auto simp: merges_to_def rows_fit_def sorted_wrt_map mg_before_Kept comp_def intro!: bexI)

section \<open>Two slots of one slice and length\<close>

lemma slice_prefix: "\<exists>p. length p = 8 \<and> slice_of (p @ s) = ik"
proof (intro exI conjI)
  show "length (rev (bytes_of_u64 ik)) = 8" by simp
  then have "pad8 (rev (bytes_of_u64 ik) @ s) = rev (bytes_of_u64 ik)" by (simp add: pad8_def)
  then show "slice_of (rev (bytes_of_u64 ik) @ s) = ik" by (simp add: slice_of_def)
qed

lemma task_item_simps [simp]:
  "task (task_item_m i v t) = task t" "task (task_item_n i v t) = task t"
  "task_m (task_item_m i v t) = task_m t" "task_m (task_item_n i v t) = task_m t"
  "task_n (task_item_m i v t) = task_n t" "task_n (task_item_n i v t) = task_n t"
  "item_m (task_item_m i v t) = i" "item_m (task_item_n i v t) = item_m t"
  "item_n (task_item_n i v t) = i" "item_n (task_item_m i v t) = item_n t"
  "lv_m (task_item_m i v t) = v" "lv_m (task_item_n i v t) = lv_m t"
  "lv_n (task_item_n i v t) = v" "lv_n (task_item_m i v t) = lv_n t"
  "ksuf_m (task_item_m i v t) = snd (snd i)" "ksuf_m (task_item_n i v t) = ksuf_m t"
  "ksuf_n (task_item_n i v t) = snd (snd i)" "ksuf_n (task_item_m i v t) = ksuf_n t"
  by (simp_all add: task_item_m_def task_item_n_def item_m_def item_n_def)

text \<open>A long string is found again from its slice and the rest.\<close>

lemma long_item:
  assumes "8 < length t" "8 < length s" "slice_of t = slice_of s"
  shows "next_item t = next_item s \<longleftrightarrow> next_item (drop 8 t) = next_item (drop 8 s)"
proof -
  have iff: "next_item a = next_item b \<longleftrightarrow> a = b" for a b using next_item_inj by blast
  have "same_slot t s" using assms by (simp add: same_slot_def slot_rank_def)
  then have "t = s \<or> take 8 t = take 8 s" by (auto simp: same_slot_iff)
  then show ?thesis unfolding iff by (metis append_take_drop_id)
qed

lemma plain_has_long:
  assumes "fit_string t" "slot_item r = next_item t" "8 < length t"
  shows "row_has V r s v \<longleftrightarrow> slot_ikey r = slice_of s \<and> 8 < length s \<and> next_item (slot_suf r) = next_item (drop 8 s) \<and> v = slot_lv r"
proof -
  note f = plain_slot_facts [OF assms(1,2)]
  have "next_item t = next_item s \<longleftrightarrow> slice_of t = slice_of s \<and> 8 < length s \<and> next_item (drop 8 t) = next_item (drop 8 s)"
    using long_item [OF assms(3), of s] next_item_inj [of t s] assms(3) by auto
  then show ?thesis using f assms by (auto simp: row_has_def)
qed

lemma layer_has:
  "keylenx_is_layer (slot_kl r) \<Longrightarrow> row_has V r s v \<longleftrightarrow> slot_ikey r = slice_of s \<and> 8 < length s \<and> bv_has V (slot_lv r) (drop 8 s) v"
  by (simp add: row_has_def)

definition same_ok :: "below_view \<Rightarrow> node_slot \<Rightarrow> node_slot \<Rightarrow> merged \<Rightarrow> bool" where
  "same_ok V m n x \<longleftrightarrow> mg_fit V x \<and> below x = 1 \<and> mg_ik x = slot_ikey n \<and> keylenx_ikeylen (mg_kl x) = keylenx_ikeylen (slot_kl n) \<and>
     mg_own V x \<subseteq> row_own V m \<union> row_own V n \<and> (\<forall>s v. mg_has V x s v \<longleftrightarrow> row_has V m s v \<or> row_has V n s v) \<and>
     mg_wt V x \<le> row_wt V m + row_wt V n"

lemma same_both_layers:
  assumes fit: "row_fit V m" "row_fit V n" and ik: "slot_ikey m = slot_ikey n"
    and apart: "row_own V m \<inter> row_own V n = {}" "\<And>s v w. \<not> (row_has V m s v \<and> row_has V n s w)"
    and l: "keylenx_is_layer (slot_kl m)" "keylenx_is_layer (slot_kl n)"
  shows "same_ok V m n (Below (slot_kl n) (slot_ikey n) (new_task\<lparr>task := 0, task_m := slot_lv m, task_n := slot_lv n\<rparr>))"
proof -
  have k: "keylenx_ikeylen (slot_kl n) = 9" using fit(2) l(2) by (simp add: row_fit_def good_slot_def)
  have d: "\<not> (bv_has V (slot_lv m) s v \<and> bv_has V (slot_lv n) s w)" if ne: "s \<noteq> []" for s v w
  proof -
    obtain p where p: "length p = 8" "slice_of (p @ s) = slot_ikey n" using slice_prefix by blast
    show ?thesis using apart(2) [of "p @ s" v w] ne p ik by (simp add: layer_has [OF l(1)] layer_has [OF l(2)])
  qed
  show ?thesis
    using fit l k apart(1) d
    by (auto simp: same_ok_def task_fit_def task_own_def task_has_def task_wt_def row_own_def row_wt_def row_fit_def
        layer_has [OF l(1)] layer_has [OF l(2)] ik)
qed

text \<open>A string at a layer: \<open>m\<close> is the string, \<open>n\<close> the layer, or the other way round.\<close>

lemma same_into_layer:
  assumes fit: "row_fit V m" "row_fit V n" and ik: "slot_ikey m = slot_ikey n" "keylenx_ikeylen (slot_kl m) = keylenx_ikeylen (slot_kl n)"
    and apart: "\<And>s v w. \<not> (row_has V m s v \<and> row_has V n s w)"
    and l: "\<not> keylenx_is_layer (slot_kl m)" "keylenx_is_layer (slot_kl n)"
  defines "x \<equiv> Below (slot_kl n) (slot_ikey n) (task_item_m (next_item (slot_suf m)) (slot_lv m) (new_task\<lparr>task := 1, task_n := slot_lv n\<rparr>))"
  shows "same_ok V m n x"
proof -
  have k: "keylenx_ikeylen (slot_kl n) = 9" using fit(2) l(2) by (simp add: row_fit_def good_slot_def)
  obtain t where t: "fit_string t" "slot_item m = next_item t" using fit(1) l(1) by (auto simp: row_fit_def good_slot_def)
  note f = plain_slot_facts [OF t]
  have long: "8 < length t" using f(3,7) ik(2) k by simp
  note mh = plain_has_long [OF t long]
  have no: "\<not> bv_has V (slot_lv n) (slot_suf m) v" for v
    using apart [of t "slot_lv m" v] t l long f(4,5) ik(1) by (simp add: layer_has [OF l(2)]) (simp add: row_has_def)
  have "fit_string (slot_suf m)" using fit_drop [OF t(1) long] f(5) by simp
  then have "mg_fit V x" using fit(2) l(2) k no by (auto simp: x_def task_fit_def row_fit_def)
  then show ?thesis
    using l by (auto simp: same_ok_def x_def task_own_def row_own_def task_has_def mh layer_has [OF l(2)] ik next_item_parts task_wt_def row_wt_def)
qed

lemma same_out_of_layer:
  assumes fit: "row_fit V m" "row_fit V n" and ik: "slot_ikey m = slot_ikey n" "keylenx_ikeylen (slot_kl m) = keylenx_ikeylen (slot_kl n)"
    and apart: "\<And>s v w. \<not> (row_has V m s v \<and> row_has V n s w)"
    and l: "keylenx_is_layer (slot_kl m)" "\<not> keylenx_is_layer (slot_kl n)"
  defines "x \<equiv> Below (slot_kl m) (slot_ikey m) (task_item_m (next_item (slot_suf n)) (slot_lv n) (new_task\<lparr>task := 1, task_n := slot_lv m\<rparr>))"
  shows "same_ok V m n x"
proof -
  have "same_ok V n m x" unfolding x_def
    by (rule same_into_layer) (use fit ik apart l in auto)
  then show ?thesis using ik unfolding same_ok_def by (auto simp: add.commute)
qed

lemma same_new_layer:
  assumes fit: "row_fit V m" "row_fit V n" and ik: "slot_ikey m = slot_ikey n" "keylenx_ikeylen (slot_kl m) = keylenx_ikeylen (slot_kl n)"
    and apart: "\<And>s v w. \<not> (row_has V m s v \<and> row_has V n s w)"
    and l: "\<not> keylenx_is_layer (slot_kl m)" "\<not> keylenx_is_layer (slot_kl n)"
  defines "x \<equiv> Below (slot_kl n + 64) (slot_ikey n) (task_item_n (next_item (slot_suf n)) (slot_lv n)
     (task_item_m (next_item (slot_suf m)) (slot_lv m) (new_task\<lparr>task := 2\<rparr>)))"
  shows "slot_suf m \<noteq> slot_suf n" and "0 \<notin> set (slot_suf m)" and "same_ok V m n x"
proof -
  obtain t u where t: "fit_string t" "slot_item m = next_item t" and u: "fit_string u" "slot_item n = next_item u"
    using fit l by (auto simp: row_fit_def good_slot_def)
  note f = plain_slot_facts [OF t] and g = plain_slot_facts [OF u]
  have "same_slot t u" using same_position [OF t u] ik by (auto simp: slot_before_def)
  moreover have ne: "t \<noteq> u" using apart [of t "slot_lv m" "slot_lv n"] t u l by (auto simp: row_has_def)
  ultimately have long: "8 < length t" "8 < length u" "take 8 t = take 8 u" by (auto simp: same_slot_iff)
  have d: "drop 8 t \<noteq> drop 8 u" using ne long(3) by (metis append_take_drop_id)
  then show "slot_suf m \<noteq> slot_suf n" "0 \<notin> set (slot_suf m)" using f(5) g(5) t(1) by (simp_all add: fit_string_def)
  have kl: "slot_kl n = 9" using g(7) long(2) by simp
  have "fit_string (slot_suf m)" "fit_string (slot_suf n)" using fit_drop [OF t(1) long(1)] fit_drop [OF u(1) long(2)] f(5) g(5) by simp_all
  then have "mg_fit V x" using d f(5) g(5) kl
    by (auto simp: x_def task_fit_def keylenx_is_layer_def keylenx_ikeylen_def)
  then show "same_ok V m n x"
    using l kl plain_has_long [OF t long(1)] plain_has_long [OF u long(2)]
    by (auto simp: same_ok_def x_def task_own_def task_has_def ik next_item_parts task_wt_def row_wt_def keylenx_ikeylen_def)
qed

lemma merge_same_ok:
  assumes fit: "row_fit V m" "row_fit V n" and "\<not> slot_before m n" "\<not> slot_before n m"
    and apart: "row_own V m \<inter> row_own V n = {}" "\<And>s v w. \<not> (row_has V m s v \<and> row_has V n s w)"
  shows "\<exists>x. merge_same rep m n = Goes_On x \<and> same_ok V m n x"
proof -
  have ik: "slot_ikey m = slot_ikey n" "keylenx_ikeylen (slot_kl m) = keylenx_ikeylen (slot_kl n)"
    using assms(3,4) by (auto simp: slot_before_def)
  show ?thesis
  proof (cases "keylenx_is_layer (slot_kl m)")
    case m: True
    show ?thesis
    proof (cases "keylenx_is_layer (slot_kl n)")
      case True
      then show ?thesis using m same_both_layers [OF fit ik(1) apart m True] by (simp add: merge_same_def)
    next
      case False
      then show ?thesis using m same_out_of_layer [OF fit ik apart(2) m False] by (simp add: merge_same_def)
    qed
  next
    case m: False
    show ?thesis
    proof (cases "keylenx_is_layer (slot_kl n)")
      case True
      then show ?thesis using m same_into_layer [OF fit ik apart(2) m True] by (simp add: merge_same_def)
    next
      case False
      note s = same_new_layer [OF fit ik apart(2) m False]
      then have "\<not> same_suffix (slot_suf m) (slot_suf n)" by (simp add: same_suffix_eq)
      then show ?thesis using m False s(3) by (simp add: merge_same_def)
    qed
  qed
qed

section \<open>The merge of two lists\<close>

lemma merges_to_cons:
  assumes R: "merges_to V M' N' R" and fit: "mg_fit V x"
    and first: "\<forall>r \<in> set M' \<union> set N'. mg_before x (Kept r) \<and> mg_own V x \<inter> row_own V r = {}"
    and sets: "set M \<union> set N = set X \<union> (set M' \<union> set N')"
    and pos: "\<exists>r \<in> set X. mg_ik x = slot_ikey r \<and> keylenx_ikeylen (mg_kl x) = keylenx_ikeylen (slot_kl r)"
    and own: "mg_own V x \<subseteq> (\<Union>r \<in> set X. row_own V r)" and has: "\<forall>s v. mg_has V x s v \<longleftrightarrow> (\<exists>r \<in> set X. row_has V r s v)"
    and wt: "mg_wt V x + (sum_list (map (row_wt V) M') + sum_list (map (row_wt V) N')) \<le> sum_list (map (row_wt V) M) + sum_list (map (row_wt V) N)"
    and len: "1 + below x + (length M' + length N') = length M + length N"
  shows "merges_to V M N (x # R)"
proof -
  note r = merges_toD [OF R]
  have before: "mg_before x y" if y: "y \<in> set R" for y
  proof -
    obtain q where q: "q \<in> set M' \<union> set N'" "mg_ik y = slot_ikey q" "keylenx_ikeylen (mg_kl y) = keylenx_ikeylen (slot_kl q)"
      using bspec [OF r(4) y] by (elim bexE conjE)
    have "mg_before x (Kept q)" using bspec [OF first q(1)] by (rule conjunct1)
    then show ?thesis using q(2,3) by (simp add: mg_before_def)
  qed
  have apart: "mg_own V x \<inter> mg_own V y = {}" if "y \<in> set R" for y
  proof -
    have "mg_own V y \<subseteq> (\<Union>r \<in> set M' \<union> set N'. row_own V r)" using r(5) that by blast
    then show ?thesis using first by blast
  qed
  show ?thesis
    unfolding merges_to_def
  proof (intro conjI)
    show "\<forall>y \<in> set (x # R). mg_fit V y" using fit r(1) by simp
    show "sorted_wrt mg_before (x # R)" using before r(2) by simp
    show "sorted_wrt (\<lambda>x y. mg_own V x \<inter> mg_own V y = {}) (x # R)" using apart r(3) by simp
    show "\<forall>y \<in> set (x # R). \<exists>r \<in> set M \<union> set N. mg_ik y = slot_ikey r \<and> keylenx_ikeylen (mg_kl y) = keylenx_ikeylen (slot_kl r)"
      using pos r(4) unfolding sets by (simp, blast)
    have "mg_own V y \<subseteq> (\<Union>r \<in> set M' \<union> set N'. row_own V r)" if "y \<in> set R" for y using r(5) that by blast
    then show "\<forall>y \<in> set (x # R). mg_own V y \<subseteq> (\<Union>r \<in> set M \<union> set N. row_own V r)"
      using own unfolding sets by (simp, blast)
    have "(\<exists>y \<in> set R. mg_has V y s v) \<longleftrightarrow> (\<exists>r \<in> set M' \<union> set N'. row_has V r s v)" for s v using r(6) by blast
    then show "\<forall>s v. (\<exists>y \<in> set (x # R). mg_has V y s v) \<longleftrightarrow> (\<exists>r \<in> set M \<union> set N. row_has V r s v)"
      using has unfolding sets by (simp, blast)
    show "sum_list (map (mg_wt V) (x # R)) \<le> sum_list (map (row_wt V) M) + sum_list (map (row_wt V) N)" using wt r(7) by simp
    show "length (x # R) + sum_list (map below (x # R)) = length M + length N" using len r(8) by simp
  qed
qed

lemma rows_fit_Cons: "rows_fit V (r # xs) \<longleftrightarrow> row_fit V r \<and> rows_fit V xs \<and>
    (\<forall>q \<in> set xs. slot_before r q \<and> row_own V r \<inter> row_own V q = {})"
  by (auto simp: rows_fit_def)

lemma rows_apart_sub: "rows_apart V M N \<Longrightarrow> set M' \<subseteq> set M \<Longrightarrow> set N' \<subseteq> set N \<Longrightarrow> rows_apart V M' N'"
  unfolding rows_apart_def by blast

lemma merge_slots_merges:
  "rows_fit V M \<Longrightarrow> rows_fit V N \<Longrightarrow> rows_apart V M N \<Longrightarrow> \<exists>R. merge_slots rep M N = Goes_On R \<and> merges_to V M N R"
proof (induction rep M N rule: merge_slots.induct)
  case (1 rep ns)
  then show ?case using merges_to_Kept(2) [of V ns] by simp
next
  case (2 rep m ms)
  then show ?case using merges_to_Kept(1) [of V "m # ms"] by simp
next
  case (3 rep m ms n ns)
  note m = "3.prems"(1) [unfolded rows_fit_Cons] and n = "3.prems"(2) [unfolded rows_fit_Cons]
  have a: "rows_apart V (m # ms) (n # ns)" by (rule "3.prems"(3))
  have ap: "row_own V m' \<inter> row_own V n' = {}" if "m' \<in> set (m # ms)" "n' \<in> set (n # ns)" for m' n'
    using a that unfolding rows_apart_def by blast
  have nz: "slot_kl n \<noteq> 0" using n good_slot_nonzero [of n] by (simp add: row_fit_def)
  have Kept: "mg_before (Kept r) (Kept q) \<longleftrightarrow> slot_before r q" for r q by (rule mg_before_Kept)
  show ?case
  proof (cases "slot_before m n")
    case True
    obtain R where R: "merge_slots rep ms (n # ns) = Goes_On R" "merges_to V ms (n # ns) R"
      using "3.IH"(2) [OF nz True _ "3.prems"(2)] m rows_apart_sub [OF a, of ms "n # ns"] by auto
    have "merges_to V (m # ms) (n # ns) (Kept m # R)"
    proof (rule merges_to_cons [OF R(2), where X = "[m]"])
      have "slot_before m q" if "q \<in> set ns" for q using n that slot_before_trans [OF True] by blast
      then show "\<forall>r \<in> set ms \<union> set (n # ns). mg_before (Kept m) (Kept r) \<and> mg_own V (Kept m) \<inter> row_own V r = {}"
        using m True ap unfolding Kept by (simp, blast)
    qed (use m in simp_all)
    then show ?thesis using R(1) nz True by (simp add: and_cons_def)
  next
    case mn: False
    show ?thesis
    proof (cases "slot_before n m")
      case True
      obtain R where R: "merge_slots rep (m # ms) ns = Goes_On R" "merges_to V (m # ms) ns R"
        using "3.IH"(3) [OF nz mn True "3.prems"(1)] n rows_apart_sub [OF a, of "m # ms" ns] by auto
      have "merges_to V (m # ms) (n # ns) (Kept n # R)"
      proof (rule merges_to_cons [OF R(2), where X = "[n]"])
        have "slot_before n q" if "q \<in> set ms" for q using m that slot_before_trans [OF True] by blast
        moreover have "row_own V n \<inter> row_own V q = {}" if "q \<in> set (m # ms)" for q using ap [OF that, of n] by (simp add: Int_commute)
        ultimately show "\<forall>r \<in> set (m # ms) \<union> set ns. mg_before (Kept n) (Kept r) \<and> mg_own V (Kept n) \<inter> row_own V r = {}"
          using n True unfolding Kept by (simp, blast)
      qed (use n in \<open>simp_all add: ac_simps, blast\<close>)
      then show ?thesis using R(1) nz mn True by (simp add: and_cons_def)
    next
      case nm: False
      have as: "\<And>s v w. \<not> (row_has V m s v \<and> row_has V n s w)" using a list.set_intros(1) [of m ms] list.set_intros(1) [of n ns] unfolding rows_apart_def by blast
      have f: "row_fit V m" "row_fit V n" "row_own V m \<inter> row_own V n = {}" using m n ap by simp_all
      obtain x where x: "merge_same rep m n = Goes_On x" "same_ok V m n x"
        using merge_same_ok [OF f(1,2) mn nm f(3) as, of rep] by blast
      obtain R where R: "merge_slots rep ms ns = Goes_On R" "merges_to V ms ns R"
        using "3.IH"(4) [OF nz mn nm x(1)] m n rows_apart_sub [OF a, of ms ns] by auto
      note sx = x(2) [unfolded same_ok_def]
      have p: "slot_ikey m = slot_ikey n" "keylenx_ikeylen (slot_kl m) = keylenx_ikeylen (slot_kl n)"
        using mn nm by (auto simp: slot_before_def)
      have bf: "mg_before x (Kept r)" if "slot_before m r \<or> slot_before n r" for r
        using that sx p by (auto simp: mg_before_def slot_before_def)
      have ow: "mg_own V x \<inter> row_own V r = {}" if "row_own V m \<inter> row_own V r = {}" "row_own V n \<inter> row_own V r = {}" for r
        using that sx by blast
      have "merges_to V (m # ms) (n # ns) (x # R)"
      proof (rule merges_to_cons [OF R(2), where X = "[m, n]"])
        show "\<forall>r \<in> set ms \<union> set ns. mg_before x (Kept r) \<and> mg_own V x \<inter> row_own V r = {}"
        proof (rule ballI, rule conjI)
          fix r assume r: "r \<in> set ms \<union> set ns"
          then show "mg_before x (Kept r)" using m n bf by blast
          show "mg_own V x \<inter> row_own V r = {}"
          proof (cases "r \<in> set ms")
            case True
            have "row_own V m \<inter> row_own V r = {}" using m True by blast
            moreover have "row_own V n \<inter> row_own V r = {}" using ap [of r n] True by (simp add: Int_commute)
            ultimately show ?thesis by (rule ow)
          next
            case False
            then have "r \<in> set ns" using r by blast
            then have "row_own V m \<inter> row_own V r = {}" "row_own V n \<inter> row_own V r = {}" using n ap [of m r] by auto
            then show ?thesis by (rule ow)
          qed
        qed
        show "mg_wt V x + (sum_list (map (row_wt V) ms) + sum_list (map (row_wt V) ns)) \<le>
            sum_list (map (row_wt V) (m # ms)) + sum_list (map (row_wt V) (n # ns))" using sx by simp
      qed (use sx in auto)
      then show ?thesis using R(1) x(1) nz mn nm by (simp add: and_cons_def)
    qed
  qed
qed

text \<open>The same for the arrays put after each other, and for a node of two items.\<close>

lemma append_merges:
  assumes fit: "rows_fit V M" "rows_fit V N" and apart: "rows_apart V M N" and ne: "M \<noteq> []" "N \<noteq> []"
    and less: "slot_ikey (last N) < slot_ikey (hd M)"
  shows "merges_to V M N (map Kept (N @ M))"
proof -
  have le: "slot_ikey a \<le> slot_ikey b" if "slot_before a b" for a b using that by (auto simp: slot_before_def)
  have N: "slot_ikey n \<le> slot_ikey (last N)" if n: "n \<in> set N" for n
  proof (cases "n = last N")
    case False
    then have "n \<in> set (butlast N)" using n ne(2) by (metis append_butlast_last_id Un_iff set_append empty_iff insert_iff list.set)
    moreover have "sorted_wrt slot_before (butlast N @ [last N])" using fit(2) ne(2) by (simp add: rows_fit_def)
    ultimately show ?thesis by (intro le) (simp add: sorted_wrt_append)
  qed simp
  have M: "slot_ikey (hd M) \<le> slot_ikey m" if m: "m \<in> set M" for m
  proof (cases "m = hd M")
    case False
    then have "m \<in> set (tl M)" using m ne(1) by (cases M) auto
    moreover have "sorted_wrt slot_before (hd M # tl M)" using fit(1) ne(1) by (simp add: rows_fit_def)
    ultimately show ?thesis by (intro le) simp
  qed simp
  have b: "slot_before n m" if "n \<in> set N" "m \<in> set M" for m n
    using order_less_le_trans [OF order_le_less_trans [OF N [OF that(1)] less] M [OF that(2)]] by (simp add: slot_before_def)
  have o: "row_own V n \<inter> row_own V m = {}" if "n \<in> set N" "m \<in> set M" for m n
    using apart that unfolding rows_apart_def by blast
  have "rows_fit V (N @ M)"
    using fit b o by (auto simp: rows_fit_def sorted_wrt_append)
  then have "merges_to V (N @ M) [] (map Kept (N @ M))" by (rule merges_to_Kept(1))
  then show ?thesis by (simp add: merges_to_def Un_commute add.commute)
qed

text \<open>What a task is turned into: the slots of the new node.\<close>

definition turns_into :: "below_view \<Rightarrow> merge_task \<Rightarrow> merged list \<Rightarrow> bool" where
  "turns_into V t R \<longleftrightarrow> R \<noteq> [] \<and> (\<forall>x \<in> set R. mg_fit V x) \<and> sorted_wrt mg_before R \<and>
     sorted_wrt (\<lambda>x y. mg_own V x \<inter> mg_own V y = {}) R \<and>
     (\<forall>s v. (\<exists>x \<in> set R. mg_has V x s v) \<longleftrightarrow> task_has V t s v) \<and>
     sum_list (map (mg_wt V) R) < task_wt V t"

lemma next_item_iff: "next_item s = next_item t \<longleftrightarrow> s = t"
  using next_item_inj by blast

lemma create_turns:
  assumes fit: "task_fit V t" and two: "task t = 2" and unit: "0 < bv_unit V"
  shows "turns_into V t (create_rows t)"
proof -
  obtain s u where su: "fit_string s" "fit_string u" "s \<noteq> u" "item_m t = next_item s" "item_n t = next_item u"
    using fit two by (auto simp: task_fit_def)
  define m where "m = (ikeylen_m t, ikey_m t, lv_m t, ksuf_m t)"
  define n where "n = (ikeylen_n t, ikey_n t, lv_n t, ksuf_n t)"
  have mn: "slot_item m = next_item s" "slot_item n = next_item u" using su by (simp_all add: m_def n_def item_m_def item_n_def)
  note f = plain_slot_facts [OF su(1) mn(1)] and g = plain_slot_facts [OF su(2) mn(2)]
  have fit: "row_fit V m" "row_fit V n" using f g su mn by (auto simp: row_fit_def good_slot_def)
  have has: "row_has V m x v \<longleftrightarrow> item_m t = next_item x \<and> v = lv_m t" "row_has V n x v \<longleftrightarrow> item_n t = next_item x \<and> v = lv_n t" for x v
    using f g by (auto simp: row_has_def m_def n_def item_m_def item_n_def)
  have own: "row_own V m = {}" "row_own V n = {}" using f g by (simp_all add: row_own_def)
  have apart: "\<not> (row_has V m x v \<and> row_has V n x w)" for x v w
    using su unfolding has by (auto simp: next_item_iff)
  have wt: "task_wt V t = row_wt V m + row_wt V n"
    using two f g by (simp add: task_wt_def row_wt_def) (simp add: m_def n_def)
  have th: "task_has V t x v \<longleftrightarrow> row_has V m x v \<or> row_has V n x v" for x v using two by (simp add: task_has_def has)
  have ik: "slot_ikey m = ikey_m t" "slot_kl m = ikeylen_m t" "slot_ikey n = ikey_n t" "slot_kl n = ikeylen_n t" "slot_suf m = ksuf_m t" "slot_suf n = ksuf_n t"
    "slot_lv m = lv_m t" "slot_lv n = lv_n t"
    by (simp_all add: m_def n_def)
  show ?thesis
  proof (cases "ikey_m t = ikey_n t \<and> ikeylen_m t = ikeylen_n t")
    case True
    then have p: "slot_ikey m = slot_ikey n" "keylenx_ikeylen (slot_kl m) = keylenx_ikeylen (slot_kl n)" using ik by simp_all
    note sn = same_new_layer [OF fit p apart f(1) g(1)]
    define x where "x = Below (slot_kl n + 64) (slot_ikey n)
       (task_item_n (next_item (slot_suf n)) (slot_lv n) (task_item_m (next_item (slot_suf m)) (slot_lv m) (new_task\<lparr>task := 2\<rparr>)))"
    have so: "same_ok V m n x" unfolding x_def by (rule sn(3))
    have R: "create_rows t = [x]" using True by (simp add: create_rows_def x_def ik)
    have "length (drop 8 (slot_suf m)) < length (slot_suf m) \<or> length (drop 8 (slot_suf n)) < length (slot_suf n)"
      using sn(1) by (cases "slot_suf m"; cases "slot_suf n") auto
    then have "mg_wt V x < task_wt V t"
      unfolding wt by (auto simp: x_def task_wt_def row_wt_def next_item_parts)
    then show ?thesis using so by (simp add: turns_into_def R same_ok_def th)
  next
    case False
    have w: "0 < task_wt V t" using unit by (simp add: wt row_wt_def)
    have pos: "slot_before m n \<or> slot_before n m"
      using False f(3) g(3) ik by (auto simp: slot_before_def)
    define R where "R = (if slot_before m n then [m, n] else [n, m])"
    have R: "create_rows t = map Kept R"
      using False f(3) g(3) by (auto simp: create_rows_def R_def slot_before_def ik m_def [symmetric] n_def [symmetric])
    have "set R = {m, n}" "R \<noteq> []" by (auto simp: R_def)
    moreover have "sorted_wrt slot_before R" "sorted_wrt (\<lambda>r q. row_own V r \<inter> row_own V q = {}) R"
      using pos own by (auto simp: R_def)
    ultimately show ?thesis
      using fit w by (simp add: turns_into_def R th sorted_wrt_map mg_before_Kept comp_def)
  qed
qed

end
