(* ===== verification/Merge_Trie.thy ===== *)
theory Merge_Trie
  imports Merge_Rows
begin

text \<open>
  The tries the merge works on, in a heap of nodes: every node holds good slots and has suffix arrays,
  and no node is reached twice. The three tasks keep this: each turns the nodes of its task into one node
  whose open slots are further, lighter tasks.
\<close>

section \<open>Tries\<close>

inductive reach :: "'n merge_ops \<Rightarrow> 'n node_heap \<Rightarrow> u64 \<Rightarrow> u64 \<Rightarrow> bool" for K :: "'n merge_ops" and h :: "'n node_heap" where
  reach_here: "h p = Some n \<Longrightarrow> reach K h p p"
| reach_below: "h p = Some n \<Longrightarrow> node_slots K n xs \<Longrightarrow> r \<in> set xs \<Longrightarrow> keylenx_is_layer (slot_kl r) \<Longrightarrow>
     reach K h (slot_lv r) q \<Longrightarrow> reach K h p q"

definition own :: "'n merge_ops \<Rightarrow> 'n node_heap \<Rightarrow> u64 \<Rightarrow> u64 set" where
  "own K h p = {q. reach K h p q}"

text \<open>The weight of a node bounds its size and that of every node it can become part of.\<close>

definition unit_wt :: "'n merge_ops \<Rightarrow> nat" where
  "unit_wt K = go_sizeof K + 23"

definition node_wt :: "'n merge_ops \<Rightarrow> 'n \<Rightarrow> nat" where
  "node_wt K n = go_size K n + unit_wt K * op_nkeys (go_ops K) n"

definition trie_wt :: "'n merge_ops \<Rightarrow> 'n node_heap \<Rightarrow> u64 \<Rightarrow> nat" where
  "trie_wt K h p = (\<Sum>q \<in> own K h p. node_wt K (the (h q)))"

definition layers_own :: "'n merge_ops \<Rightarrow> 'n node_heap \<Rightarrow> node_slot \<Rightarrow> u64 set" where
  "layers_own K h r = (if keylenx_is_layer (slot_kl r) then own K h (slot_lv r) else {})"

inductive mtrie :: "'n merge_ops \<Rightarrow> 'n node_heap \<Rightarrow> u64 \<Rightarrow> bool" for K :: "'n merge_ops" and h :: "'n node_heap" where
  mtrie_node: "h p = Some n \<Longrightarrow> p \<noteq> 0 \<Longrightarrow> node_slots K n xs \<Longrightarrow> go_has_ksuf K n \<Longrightarrow> xs \<noteq> [] \<Longrightarrow> good_slots xs \<Longrightarrow>
     (\<forall>r \<in> set xs. keylenx_is_layer (slot_kl r) \<longrightarrow> mtrie K h (slot_lv r)) \<Longrightarrow>
     sorted_wrt (\<lambda>r q. layers_own K h r \<inter> layers_own K h q = {}) xs \<Longrightarrow>
     (\<forall>r \<in> set xs. p \<notin> layers_own K h r) \<Longrightarrow> mtrie K h p"

definition trie_view :: "'n merge_ops \<Rightarrow> 'n node_heap \<Rightarrow> below_view" where
  "trie_view K h = \<lparr>bv_trie = mtrie K h, bv_has = stored (go_ops K) h, bv_own = own K h, bv_wt = trie_wt K h, bv_unit = unit_wt K\<rparr>"

lemma trie_view_simps [simp]:
  "bv_trie (trie_view K h) = mtrie K h" "bv_has (trie_view K h) = stored (go_ops K) h" "bv_own (trie_view K h) = own K h"
  "bv_wt (trie_view K h) = trie_wt K h" "bv_unit (trie_view K h) = unit_wt K"
  by (simp_all add: trie_view_def)

lemma row_own_view: "row_own (trie_view K h) r = layers_own K h r"
  by (simp add: row_own_def layers_own_def)

lemma own_dom: "q \<in> own K h p \<Longrightarrow> h q \<noteq> None"
proof -
  assume "q \<in> own K h p"
  then have "reach K h p q" by (simp add: own_def)
  then show ?thesis by induction auto
qed

lemma own_self: "h p = Some n \<Longrightarrow> p \<in> own K h p"
  by (simp add: own_def reach_here)

lemma sum_over_slots:
  fixes f :: "u64 \<Rightarrow> nat"
  assumes "sorted_wrt (\<lambda>r q. F r \<inter> F q = {}) xs" "\<And>r. r \<in> set xs \<Longrightarrow> finite (F r)"
  shows "(\<Sum>q \<in> (\<Union>r \<in> set xs. F r). f q) = sum_list (map (\<lambda>r. \<Sum>q \<in> F r. f q) xs)"
  using assms
proof (induction xs)
  case (Cons r xs)
  have "F r \<inter> (\<Union>r \<in> set xs. F r) = {}" using Cons.prems(1) by auto
  then have "(\<Sum>q \<in> F r \<union> (\<Union>r \<in> set xs. F r). f q) = (\<Sum>q \<in> F r. f q) + (\<Sum>q \<in> (\<Union>r \<in> set xs. F r). f q)"
    using Cons.prems(2) by (intro sum.union_disjoint) auto
  then show ?case using Cons by simp
qed simp

context merge_node
begin

lemma slots_unique: "node_slots K n xs \<Longrightarrow> node_slots K n ys \<Longrightarrow> xs = ys"
proof (rule nth_equalityI)
  assume x: "node_slots K n xs" and y: "node_slots K n ys"
  then show l: "length xs = length ys" by (simp add: node_slots_def)
  fix i assume "i < length xs"
  then show "xs ! i = ys ! i"
    using slots_read [OF x, of i] slots_read [OF y, of i] l by (cases "xs ! i"; cases "ys ! i") simp
qed

lemma own_unfold:
  assumes "h p = Some n" "node_slots K n xs"
  shows "own K h p = insert p (\<Union>r \<in> set xs. layers_own K h r)"
proof (intro set_eqI iffI)
  fix q assume "q \<in> own K h p"
  then have "reach K h p q" by (simp add: own_def)
  then show "q \<in> insert p (\<Union>r \<in> set xs. layers_own K h r)"
  proof cases
    case (reach_below n' ys r)
    have "ys = xs" using slots_unique reach_below(1,2) assms by simp
    then show ?thesis using reach_below by (auto simp: layers_own_def own_def)
  qed simp
next
  fix q assume "q \<in> insert p (\<Union>r \<in> set xs. layers_own K h r)"
  then show "q \<in> own K h p"
    using assms by (auto simp: own_def layers_own_def split: if_splits intro: reach_here reach_below)
qed

lemma mtrieE:
  assumes "mtrie K h p"
  obtains n xs where "h p = Some n" "p \<noteq> 0" "node_slots K n xs" "go_has_ksuf K n" "xs \<noteq> []" "good_slots xs"
    "\<forall>r \<in> set xs. keylenx_is_layer (slot_kl r) \<longrightarrow> mtrie K h (slot_lv r)"
    "sorted_wrt (\<lambda>r q. layers_own K h r \<inter> layers_own K h q = {}) xs" "\<forall>r \<in> set xs. p \<notin> layers_own K h r"
    "own K h p = insert p (\<Union>r \<in> set xs. layers_own K h r)"
  using assms
proof (cases rule: mtrie.cases)
  case (mtrie_node n xs)
  note h = mtrie_node(1) and n = mtrie_node(3)
  show ?thesis by (rule that [OF mtrie_node own_unfold [where h = h, OF h n]])
qed

lemma plain_stores:
  assumes n: "node_slots K n xs" "i < length xs" and t: "fit_string t" "slot_item (xs ! i) = next_item t"
  shows "slot_stores (go_ops K) n i s v \<longleftrightarrow> slot_item (xs ! i) = next_item s \<and> v = slot_lv (xs ! i)"
proof -
  note f = plain_slot_facts [OF t]
  note rd = slots_read [OF n]
  have st: "slot_stores (go_ops K) n i s v \<longleftrightarrow>
      slice_of t = slice_of s \<and> min (length t) 9 = min (length s) 9 \<and> (8 < length t \<longrightarrow> drop 8 t = drop 8 s) \<and> v = slot_lv (xs ! i)"
    using f by (auto simp: slot_stores_def Let_def rd kl_rank_def slot_rank_def)
  have "slice_of t = slice_of s \<and> min (length t) 9 = min (length s) 9 \<and> (8 < length t \<longrightarrow> drop 8 t = drop 8 s) \<longleftrightarrow> t = s"
  proof
    assume a: "slice_of t = slice_of s \<and> min (length t) 9 = min (length s) 9 \<and> (8 < length t \<longrightarrow> drop 8 t = drop 8 s)"
    then have "t = s \<or> 8 < length t \<and> take 8 t = take 8 s" using same_slot_iff [of t s] by (auto simp: same_slot_def slot_rank_def)
    then show "t = s" using a by (metis append_take_drop_id)
  qed simp
  then show ?thesis unfolding st t(2) next_item_iff by blast
qed

lemma stored_rows:
  assumes h: "h p = Some n" and n: "node_slots K n xs" and good: "good_slots xs"
  shows "stored (go_ops K) h p s v \<longleftrightarrow> (\<exists>r \<in> set xs. row_has (trie_view K h) r s v)"
proof -
  have nk: "op_nkeys (go_ops K) n = length xs" using n by (simp add: node_slots_def)
  have one: "(slot_stores (go_ops K) n i s v \<or> keylenx_is_layer (op_ikeylen (go_ops K) n i) \<and> op_ikey (go_ops K) n i = slice_of s \<and>
        8 < length s \<and> stored (go_ops K) h (op_lv (go_ops K) n i) (drop 8 s) v) \<longleftrightarrow> row_has (trie_view K h) (xs ! i) s v"
    if i: "i < length xs" for i
  proof -
    note rd = slots_read [OF n i]
    have "good_slot (xs ! i)" using good i by (simp add: good_slots_def)
    then show ?thesis
    proof (cases rule: good_slot_cases)
      case layer
      then show ?thesis by (simp add: row_has_def rd slot_stores_def Let_def)
    next
      case (plain t)
      then show ?thesis using plain_stores [OF n i plain(2,3)] by (simp add: row_has_def rd)
    qed
  qed
  have "stored (go_ops K) h p s v \<longleftrightarrow> (\<exists>i < length xs. row_has (trie_view K h) (xs ! i) s v)"
    unfolding stored_iff [of h p n, OF h] nk using one by blast
  also have "\<dots> \<longleftrightarrow> (\<exists>r \<in> set xs. row_has (trie_view K h) r s v)" by (metis in_set_conv_nth)
  finally show ?thesis .
qed

lemma mtrie_finite: "mtrie K h p \<Longrightarrow> finite (own K h p)"
proof (induction rule: mtrie.induct)
  case (mtrie_node p n xs)
  have "finite (layers_own K h r)" if "r \<in> set xs" for r using mtrie_node.IH that by (auto simp: layers_own_def)
  then show ?case unfolding own_unfold [where h = h, OF mtrie_node(1,3)] by auto
qed

lemma mtrie_own: "mtrie K h p \<Longrightarrow> q \<in> own K h p \<Longrightarrow> mtrie K h q"
proof (induction rule: mtrie.induct)
  case (mtrie_node p n xs)
  note hyp = mtrie_node.hyps and IH = mtrie_node.IH
  have p: "mtrie K h p"
    by (rule mtrie.mtrie_node [where h = h, OF hyp(1-6)]) (use hyp(7,8) IH in blast)+
  show ?case
  proof (cases "q = p")
    case False
    then obtain r where r: "r \<in> set xs" "q \<in> layers_own K h r"
      using mtrie_node.prems unfolding own_unfold [where h = h, OF hyp(1,3)] by blast
    then have "keylenx_is_layer (slot_kl r)" "q \<in> own K h (slot_lv r)" by (auto simp: layers_own_def split: if_splits)
    then show ?thesis using IH r(1) by blast
  qed (use p in simp)
qed

lemma mtrie_nonzero: "mtrie K h p \<Longrightarrow> q \<in> own K h p \<Longrightarrow> q \<noteq> 0"
  using mtrie_own mtrie.cases by metis

text \<open>The weight of a trie covers that of its slots.\<close>

lemma trie_wt_rows:
  assumes p: "mtrie K h p" and h: "h p = Some n" and n: "node_slots K n xs"
  shows "go_size K n + sum_list (map (row_wt (trie_view K h)) xs) \<le> trie_wt K h p + length (sufs xs)"
proof -
  obtain n' xs' where o: "h p = Some n'" "node_slots K n' xs'" "\<forall>r \<in> set xs'. keylenx_is_layer (slot_kl r) \<longrightarrow> mtrie K h (slot_lv r)"
    "sorted_wrt (\<lambda>r q. layers_own K h r \<inter> layers_own K h q = {}) xs'" "\<forall>r \<in> set xs'. p \<notin> layers_own K h r"
    "own K h p = insert p (\<Union>r \<in> set xs'. layers_own K h r)"
    by (rule mtrieE [OF p])
  have "xs' = xs" using slots_unique o(1,2) h n by simp
  note o = o [unfolded this]
  have fin: "finite (layers_own K h r)" if "r \<in> set xs" for r
    using that o(3) mtrie_finite by (simp add: layers_own_def)
  let ?f = "\<lambda>q. node_wt K (the (h q))"
  have "trie_wt K h p = ?f p + sum ?f (\<Union>r \<in> set xs. layers_own K h r)"
    unfolding trie_wt_def o(6) using o(5) fin by (subst sum.insert) auto
  also have "sum ?f (\<Union>r \<in> set xs. layers_own K h r) = sum_list (map (\<lambda>r. sum ?f (layers_own K h r)) xs)"
    by (rule sum_over_slots [OF o(4) fin])
  also have "map (\<lambda>r. sum ?f (layers_own K h r)) xs =
      map (\<lambda>r. if keylenx_is_layer (slot_kl r) then trie_wt K h (slot_lv r) else 0) xs"
    by (simp add: trie_wt_def layers_own_def)
  finally have w: "trie_wt K h p = go_size K n + unit_wt K * length xs +
      sum_list (map (\<lambda>r. if keylenx_is_layer (slot_kl r) then trie_wt K h (slot_lv r) else 0) xs)"
    using h slots_nkeys [OF n] by (simp add: node_wt_def)
  have "sum_list (map (row_wt (trie_view K h)) xs) = unit_wt K * length xs + length (sufs xs) +
      sum_list (map (\<lambda>r. if keylenx_is_layer (slot_kl r) then trie_wt K h (slot_lv r) else 0) xs)"
    by (induction xs) (simp_all add: row_wt_def sufs_def)
  then show ?thesis using w by simp
qed

lemma mtrie_rows:
  assumes p: "mtrie K h p" and h: "h p = Some n" and n: "node_slots K n xs"
  shows "rows_fit (trie_view K h) xs" and "xs \<noteq> []" and "go_has_ksuf K n" and "good_slots xs"
    and "own K h p = insert p (\<Union>r \<in> set xs. row_own (trie_view K h) r)" and "\<forall>r \<in> set xs. p \<notin> row_own (trie_view K h) r"
proof -
  obtain n' xs' where o: "h p = Some n'" "node_slots K n' xs'" "go_has_ksuf K n'" "xs' \<noteq> []" "good_slots xs'"
    "\<forall>r \<in> set xs'. keylenx_is_layer (slot_kl r) \<longrightarrow> mtrie K h (slot_lv r)"
    "sorted_wrt (\<lambda>r q. layers_own K h r \<inter> layers_own K h q = {}) xs'" "\<forall>r \<in> set xs'. p \<notin> layers_own K h r"
    "own K h p = insert p (\<Union>r \<in> set xs'. layers_own K h r)"
    by (rule mtrieE [OF p])
  have "xs' = xs" "n' = n" using slots_unique o(1,2) h n by simp_all
  note o = o [unfolded this]
  show "rows_fit (trie_view K h) xs" using o(5-7) unfolding rows_fit_def row_own_view row_fit_def good_slots_def by simp
  show "xs \<noteq> []" "go_has_ksuf K n" "good_slots xs" by (rule o)+
  show "own K h p = insert p (\<Union>r \<in> set xs. row_own (trie_view K h) r)" "\<forall>r \<in> set xs. p \<notin> row_own (trie_view K h) r"
    using o(8,9) by (simp_all add: row_own_view)
qed

lemma mtrie_slots:
  assumes "mtrie K h p"
  obtains n xs where "h p = Some n" "p \<noteq> 0" "node_slots K n xs"
  using assms by (rule mtrieE)

lemma trie_wt_less:
  assumes p: "mtrie K h p" and h: "h p = Some n" and n: "node_slots K n xs"
  shows "sum_list (map (row_wt (trie_view K h)) xs) < trie_wt K h p" "go_size K n \<le> trie_wt K h p"
proof -
  note w = trie_wt_rows [OF p h n]
  have "go_size K n = go_sizeof K + 1 * length xs + 8 * length xs + 8 * length xs + (4 * (length xs + 1) + length (sufs xs))"
    using n mtrie_rows(3) [OF p h n] by (simp add: node_slots_def)
  then show "sum_list (map (row_wt (trie_view K h)) xs) < trie_wt K h p" using w by simp
  have "length (sufs xs) \<le> sum_list (map (row_wt (trie_view K h)) xs)"
    by (induction xs) (simp_all add: row_wt_def sufs_def)
  then show "go_size K n \<le> trie_wt K h p" using w by linarith
qed

text \<open>A trie depends on the nodes it owns only.\<close>

lemma mtrie_frame:
  "mtrie K h p \<Longrightarrow> (\<forall>q \<in> own K h p. h' q = h q) \<Longrightarrow>
     mtrie K h' p \<and> own K h' p = own K h p \<and> (\<forall>s v. stored (go_ops K) h' p s v \<longleftrightarrow> stored (go_ops K) h p s v)"
proof (induction rule: mtrie.induct)
  case (mtrie_node p n xs)
  note hyp = mtrie_node.hyps(1-6) and dis = mtrie_node.hyps(7,8) and same = mtrie_node.prems
  have o: "own K h p = insert p (\<Union>r \<in> set xs. layers_own K h r)" by (rule own_unfold [where h = h, OF hyp(1,3)])
  have below: "mtrie K h' (slot_lv r) \<and> own K h' (slot_lv r) = own K h (slot_lv r) \<and>
      (\<forall>s v. stored (go_ops K) h' (slot_lv r) s v \<longleftrightarrow> stored (go_ops K) h (slot_lv r) s v)"
    if r: "r \<in> set xs" "keylenx_is_layer (slot_kl r)" for r
  proof -
    have "own K h (slot_lv r) \<subseteq> own K h p" using o r by (auto simp: layers_own_def)
    then show ?thesis using mtrie_node.IH r same by blast
  qed
  have h': "h' p = Some n" using same hyp(1) o by simp
  have lo: "layers_own K h' r = layers_own K h r" if "r \<in> set xs" for r using below [OF that] by (simp add: layers_own_def)
  have "sorted_wrt (\<lambda>r q. layers_own K h' r \<inter> layers_own K h' q = {}) xs"
    using dis(1) lo by (rule_tac sorted_wrt_mono_rel [rotated]) auto
  then have "mtrie K h' p"
    using below dis(2) lo by (intro mtrie.mtrie_node [where h = h', OF h' hyp(2-6)]) auto
  moreover have "own K h' p = own K h p" unfolding o own_unfold [where h = h', OF h' hyp(3)] using lo by simp
  moreover have "row_has (trie_view K h') r s v \<longleftrightarrow> row_has (trie_view K h) r s v" if "r \<in> set xs" for r s v
    using below [OF that] by (simp add: row_has_def)
  then have "stored (go_ops K) h' p s v \<longleftrightarrow> stored (go_ops K) h p s v" for s v
    unfolding stored_rows [where h = h', OF h' hyp(3,6)] stored_rows [where h = h, OF hyp(1,3,6)] by blast
  ultimately show ?case by blast
qed

end

end
