(* ===== verification/Merge_Queue.thy ===== *)
theory Merge_Queue
  imports Merge_Trie
begin

text \<open>
  The queue of tasks. A task turns the nodes of its tries into one node whose open slots are lighter
  tasks in tries of their own, so the loop ends, and the slot or the root a task belongs to holds in the
  end a trie that stores what the task stands for. The tries of the tasks that wait are as they were in
  the beginning, so all of them are seen in the first heap.
\<close>

section \<open>One task\<close>

definition task_result :: "'n merge_ops \<Rightarrow> merge_alloc \<Rightarrow> merge_task \<Rightarrow> 'n merge_heap \<Rightarrow> 'n merge_heap outcome" where
  "task_result K A t st =
     (if task t = 0 then merge_nodes K A t st else if task t = 1 then add_item_to_node K A t st
      else if task t = 2 then create_node K A t st else Returns_False)"

definition done_as ::
  "'n merge_ops \<Rightarrow> merge_alloc \<Rightarrow> below_view \<Rightarrow> merge_task \<Rightarrow> 'n merge_heap \<Rightarrow> merged list \<Rightarrow> u64 set \<Rightarrow> u64 \<Rightarrow> 'n merge_heap \<Rightarrow> bool" where
  "done_as K A V t st R F q st' \<longleftrightarrow>
     turns_into V t R \<and> made_at K A F True R st q st' \<and> task_result K A t st = set_parent K t q st' \<and>
     F \<subseteq> task_own V t \<and> (\<forall>x \<in> set R. mg_own V x \<subseteq> task_own V t - F)"

lemma good_row_string: "good_slot r \<Longrightarrow> row_has V r s v \<Longrightarrow> s \<noteq> []"
  by (erule good_slot_cases) (auto simp: row_has_def fit_string_def dest: next_item_inj)

lemma merges_turn:
  assumes m: "merges_to V M N R" and ne: "M \<noteq> [] \<or> N \<noteq> []"
    and has: "\<And>s v. task_has V t s v \<longleftrightarrow> (\<exists>r \<in> set M \<union> set N. row_has V r s v)"
    and wt: "sum_list (map (row_wt V) M) + sum_list (map (row_wt V) N) < task_wt V t"
  shows "turns_into V t R"
proof -
  note d = merges_toD [OF m]
  have "R \<noteq> []" using d(8) ne by auto
  moreover have "sum_list (map (mg_wt V) R) < task_wt V t" using d(7) wt by linarith
  moreover have "\<forall>s v. (\<exists>x \<in> set R. mg_has V x s v) \<longleftrightarrow> task_has V t s v" unfolding has using d(6) by blast
  ultimately show ?thesis unfolding turns_into_def using d(1-3) by blast
qed

context merge_maker
begin

lemma task_0:
  fixes h :: "'n node_heap"
  defines "V \<equiv> trie_view K h"
  assumes fit: "task_fit V t" and wt: "task_wt V t < 2 ^ 31" and t: "task t = 0" and same: "\<forall>a \<in> task_own V t. mh_heap st a = h a"
  shows "\<exists>R F q st'. done_as K A V t st R F q st'"
proof -
  have fits: "mtrie K h (task_m t)" "mtrie K h (task_n t)" "own K h (task_m t) \<inter> own K h (task_n t) = {}"
      "\<And>s v w. s \<noteq> [] \<Longrightarrow> \<not> (stored (go_ops K) h (task_m t) s v \<and> stored (go_ops K) h (task_n t) s w)"
    using fit t by (auto simp: task_fit_def V_def)
  obtain m M where m: "h (task_m t) = Some m" "task_m t \<noteq> 0" "node_slots K m M" by (rule mtrie_slots [OF fits(1)])
  obtain n N where n: "h (task_n t) = Some n" "task_n t \<noteq> 0" "node_slots K n N" by (rule mtrie_slots [OF fits(2)])
  note rm = mtrie_rows [OF fits(1) m(1,3), folded V_def] and rn = mtrie_rows [OF fits(2) n(1,3), folded V_def]
  note wm = trie_wt_less [OF fits(1) m(1,3), folded V_def] and wn = trie_wt_less [OF fits(2) n(1,3), folded V_def]
  have tw: "task_wt V t = trie_wt K h (task_m t) + trie_wt K h (task_n t)" using t by (simp add: task_wt_def V_def)
  have ow: "task_own V t = own K h (task_m t) \<union> own K h (task_n t)" using t by (simp add: task_own_def V_def)
  have st: "mh_heap st (task_m t) = Some m" "mh_heap st (task_n t) = Some n"
    using same m(1) n(1) unfolding ow rm(5) rn(5) by simp_all
  have sm: "stored (go_ops K) h (task_m t) s v \<longleftrightarrow> (\<exists>r \<in> set M. row_has V r s v)" for s v
    unfolding V_def by (rule stored_rows [where h = h, OF m(1,3) rm(4)])
  have sn: "stored (go_ops K) h (task_n t) s v \<longleftrightarrow> (\<exists>r \<in> set N. row_has V r s v)" for s v
    unfolding V_def by (rule stored_rows [where h = h, OF n(1,3) rn(4)])
  have apart: "rows_apart V M N"
    unfolding rows_apart_def
  proof (intro ballI conjI allI)
    fix r q assume r: "r \<in> set M" and q: "q \<in> set N"
    show "row_own V r \<inter> row_own V q = {}" using fits(3) r q unfolding rm(5) rn(5) by blast
    fix s v w
    have "good_slot r" using rm(4) r by (simp add: good_slots_def)
    then show "\<not> (row_has V r s v \<and> row_has V q s w)" using fits(4) [of s v w] sm sn r q good_row_string by blast
  qed
  have merged: "\<exists>R. merge_rows K M N = Goes_On R \<and> merges_to V M N R"
  proof (cases "go_appends K \<and> slot_ikey (last N) < slot_ikey (hd M)")
    case True
    then show ?thesis using append_merges [OF rm(1) rn(1) apart rm(2) rn(2)] by (simp add: merge_rows_def)
  next
    case False
    then show ?thesis using merge_slots_merges [OF rm(1) rn(1) apart, of "go_replaces K"] unfolding merge_rows_def by (simp only: if_False)
  qed
  then obtain R where R: "merge_rows K M N = Goes_On R" "merges_to V M N R" by blast
  have "merged_size (go_sizeof K) True M N \<le> go_size K m + go_size K n"
    using m(3) n(3) rm(3) rn(3) by (simp add: node_slots_def merged_size_def)
  then have small: "merged_size (go_sizeof K) True M N < 2 ^ 31" using wm(2) wn(2) wt unfolding tw by linarith
  have "\<exists>R' q st'. merge_rows K M N = Goes_On R' \<and> made_at K A {task_n t, task_m t} True R' st q st' \<and>
      merge_two_nodes K A t m n st = set_parent K t q st'"
    using merge_two_nodes_ok [OF m(3) n(3) _ _ small _ good_slots_bare [OF rm(4)] good_slots_bare [OF rn(4)], of A t st] rm(2,3) rn(2,3) R(1) by simp
  then obtain q st' where q: "made_at K A {task_n t, task_m t} True R st q st'" "merge_two_nodes K A t m n st = set_parent K t q st'"
    using R(1) by auto
  have "turns_into V t R"
  proof (rule merges_turn [OF R(2)])
    show "task_has V t s v \<longleftrightarrow> (\<exists>r \<in> set M \<union> set N. row_has V r s v)" for s v
      using t sm [of s v] sn [of s v] unfolding task_has_def bex_Un by (simp add: V_def)
  qed (use rm(2) wm(1) wn(1) tw in auto)
  moreover have "task_result K A t st = set_parent K t q st'" using t m(2) n(2) st q(2) by (simp add: task_result_def merge_nodes_def)
  moreover have "mg_own V x \<subseteq> task_own V t - {task_n t, task_m t}" if "x \<in> set R" for x
  proof -
    have "mg_own V x \<subseteq> (\<Union>r \<in> set M \<union> set N. row_own V r)" using merges_toD(5) [OF R(2)] that by blast
    moreover have "task_m t \<notin> own K h (task_n t)" "task_n t \<notin> own K h (task_m t)" using fits(3) rm(5) rn(5) by blast+
    ultimately show ?thesis using rm(5,6) rn(5,6) ow by blast
  qed
  ultimately have "done_as K A V t st R {task_n t, task_m t} q st'"
    using q(1) ow rm(5) rn(5) unfolding done_as_def by blast
  then show ?thesis by blast
qed

lemma task_1:
  fixes h :: "'n node_heap"
  defines "V \<equiv> trie_view K h"
  assumes fit: "task_fit V t" and wt: "task_wt V t < 2 ^ 31" and t: "task t = 1" and par: "parent_node t \<noteq> 0"
    and same: "\<forall>a \<in> task_own V t. mh_heap st a = h a"
  shows "\<exists>R F q st'. done_as K A V t st R F q st'"
proof -
  obtain z where z: "mtrie K h (task_n t)" "fit_string z" "item_m t = next_item z" "\<And>v. \<not> stored (go_ops K) h (task_n t) z v"
    using fit t by (auto simp: task_fit_def V_def)
  obtain n N where n: "h (task_n t) = Some n" "task_n t \<noteq> 0" "node_slots K n N" by (rule mtrie_slots [OF z(1)])
  note rn = mtrie_rows [OF z(1) n(1,3), folded V_def] and wn = trie_wt_less [OF z(1) n(1,3), folded V_def]
  have tw: "task_wt V t = unit_wt K + length (ksuf_m t) + trie_wt K h (task_n t)" using t by (simp add: task_wt_def V_def)
  have ow: "task_own V t = own K h (task_n t)" using t by (simp add: task_own_def V_def)
  have st: "mh_heap st (task_n t) = Some n" using same n(1) unfolding ow rn(5) by simp
  have sn: "stored (go_ops K) h (task_n t) s v \<longleftrightarrow> (\<exists>r \<in> set N. row_has V r s v)" for s v
    unfolding V_def by (rule stored_rows [where h = h, OF n(1,3) rn(4)])
  have it: "slot_item (item_slot t) = next_item z" using z(3) by (simp add: item_slot_def item_m_def)
  note f = plain_slot_facts [OF z(2) it]
  have rf: "row_fit V (item_slot t)" using f z(2) it by (auto simp: row_fit_def good_slot_def)
  have ro: "row_own V (item_slot t) = {}" using f by (simp add: row_own_def)
  have rh: "row_has V (item_slot t) s v \<longleftrightarrow> item_m t = next_item s \<and> v = lv_m t" for s v
    using f it by (auto simp: row_has_def item_slot_def item_m_def)
  have rw: "row_wt V (item_slot t) = unit_wt K + length (ksuf_m t)" using f by (simp add: row_wt_def V_def item_slot_def)
  have M: "rows_fit V [item_slot t]" using rf by (simp add: rows_fit_def)
  have apart: "rows_apart V [item_slot t] N"
    using ro z(3,4) sn unfolding rows_apart_def by (simp add: rh next_item_iff)
  obtain R where R: "merge_slots (go_replaces K) [item_slot t] N = Goes_On R" "merges_to V [item_slot t] N R"
    using merge_slots_merges [OF M rn(1) apart] by blast
  have safe: "\<not> relinks K N R'" if R': "merge_slots (go_replaces K) [item_slot t] N = Goes_On R'" for R'
  proof -
    have e: "R' = R" using R' R(1) by simp
    have "length R + sum_list (map below R) = 1 + length N" using merges_toD(8) [OF R(2)] by simp
    moreover have "sum_list (map below R) \<le> 1" using merge_slots_below [OF R(1)] by simp
    ultimately have "\<not> (length R \<le> length N \<and> sum_list (map below R) = 0)" by linarith
    then show ?thesis unfolding relinks_def e by blast
  qed
  have "merged_size (go_sizeof K) True [item_slot t] N \<le> go_size K n + 21 + length (ksuf_m t)"
    using n(3) rn(3) by (simp add: node_slots_def merged_size_def sufs_def item_slot_def)
  then have small: "merged_size (go_sizeof K) True [item_slot t] N < 2 ^ 31" using wn(2) wt unfolding tw unit_wt_def by linarith
  have item: "\<not> keylenx_is_layer (ikeylen_m t)" using f(1) by (simp add: item_slot_def)
  have "\<exists>R' q st'. merge_slots (go_replaces K) [item_slot t] N = Goes_On R' \<and> made_at K A {task_n t} True R' st q st' \<and>
      add_item K A t n st = set_parent K t q st'"
    using add_item_ok [OF n(3) rn(3) good_slots_bare [OF rn(4)] small par item safe, of A st] R(1) by simp
  then obtain q st' where q: "made_at K A {task_n t} True R st q st'" "add_item K A t n st = set_parent K t q st'"
    using R(1) by auto
  have "turns_into V t R"
  proof (rule merges_turn [OF R(2)])
    show "task_has V t s v \<longleftrightarrow> (\<exists>r \<in> set [item_slot t] \<union> set N. row_has V r s v)" for s v
      using t sn [of s v] rh [of s v] unfolding task_has_def bex_Un by (simp add: V_def)
  qed (use rn(2) wn(1) tw rw in auto)
  moreover have "task_result K A t st = set_parent K t q st'" using t n(2) st q(2) by (simp add: task_result_def add_item_to_node_def)
  moreover have "mg_own V x \<subseteq> task_own V t - {task_n t}" if "x \<in> set R" for x
  proof -
    have "mg_own V x \<subseteq> (\<Union>r \<in> set [item_slot t] \<union> set N. row_own V r)" using merges_toD(5) [OF R(2)] that by blast
    then have "mg_own V x \<subseteq> (\<Union>r \<in> set N. row_own V r)" using ro by simp
    then show ?thesis using rn(5,6) ow by blast
  qed
  ultimately have "done_as K A V t st R {task_n t} q st'" using q(1) ow rn(5) unfolding done_as_def by blast
  then show ?thesis by blast
qed

lemma task_2:
  fixes h :: "'n node_heap"
  defines "V \<equiv> trie_view K h"
  assumes fit: "task_fit V t" and wt: "task_wt V t < 2 ^ 31" and t: "task t = 2" and par: "parent_node t \<noteq> 0"
  shows "\<exists>R F q st'. done_as K A V t st R F q st'"
proof -
  have u: "0 < bv_unit V" by (simp add: V_def unit_wt_def)
  have "go_sizeof K + 1 * 2 + 8 * 2 + 8 * 2 + 4 * (2 + 1) + (length (ksuf_m t) + length (ksuf_n t)) < 2 ^ 31"
    using wt t by (simp add: task_wt_def V_def unit_wt_def)
  then obtain q st' where q: "made_at K A {} True (create_rows t) st q st'" "create_node K A t st = set_parent K t q st'"
    using create_node_ok [OF par] by blast
  have tr: "turns_into V t (create_rows t)" by (rule create_turns [OF fit t u])
  obtain s s' where s: "item_m t = next_item s" "item_n t = next_item s'" using fit t by (auto simp: task_fit_def)
  have nl: "\<not> keylenx_is_layer (ikeylen_m t)" "\<not> keylenx_is_layer (ikeylen_n t)"
    using next_item_kl [OF s(1) [unfolded item_m_def, symmetric]] next_item_kl [OF s(2) [unfolded item_n_def, symmetric]] by blast+
  have "\<forall>x \<in> set (create_rows t). mg_own V x = {}"
    by (simp add: create_rows_def Let_def row_own_def task_own_def nl)
  then have "done_as K A V t st (create_rows t) {} q st'"
    using tr q t by (simp add: done_as_def task_result_def)
  then show ?thesis by blast
qed

lemma task_done:
  fixes h :: "'n node_heap"
  assumes "task_fit (trie_view K h) t" "task_wt (trie_view K h) t < 2 ^ 31" "task t = 0 \<or> parent_node t \<noteq> 0"
    and "\<forall>a \<in> task_own (trie_view K h) t. mh_heap st a = h a"
  shows "\<exists>R F q st'. done_as K A (trie_view K h) t st R F q st'"
proof -
  have "task t = 0 \<or> task t = 1 \<or> task t = 2" using assms(1) by (auto simp: task_fit_def split: if_splits)
  then show ?thesis using task_0 [OF assms(1,2) _ assms(4)] task_1 [OF assms(1,2) _ _ assms(4)] task_2 [OF assms(1,2)] assms(3) by fastforce
qed

end

section \<open>The tasks that wait\<close>

definition place :: "merge_task \<Rightarrow> u64 \<times> nat" where
  "place t = (parent_node t, parent_node_pos t)"

text \<open>
  Fresh blocks: as many as a merge below the size bound can ask for have addresses that are new, and
  these stay in use.
\<close>

definition alloc_max :: nat where
  "alloc_max = 2 ^ 32"

definition fresh_alloc :: "merge_alloc \<Rightarrow> 'n node_heap \<Rightarrow> bool" where
  "fresh_alloc A h \<longleftrightarrow> inj_on (al_addr A) {..<alloc_max} \<and> (\<forall>k < alloc_max. al_addr A k \<noteq> 0 \<and> h (al_addr A k) = None)"

definition news :: "merge_alloc \<Rightarrow> nat \<Rightarrow> nat \<Rightarrow> u64 set" where
  "news A i j = {al_addr A k | k. i \<le> k \<and> k < j \<and> k < alloc_max}"

definition waits :: "'n merge_ops \<Rightarrow> merge_alloc \<Rightarrow> 'n node_heap \<Rightarrow> 'n merge_heap \<Rightarrow> merge_task list \<Rightarrow> merge_task \<Rightarrow> bool" where
  "waits K A h st ts t \<longleftrightarrow>
     task_fit (trie_view K h) t \<and> task_wt (trie_view K h) t < 2 ^ 31 \<and> parent_node t \<noteq> 0 \<and>
     (\<exists>n xs. mh_heap st (parent_node t) = Some n \<and> node_slots K n xs \<and> parent_node_pos t < length xs) \<and>
     (\<forall>u \<in> set ts. parent_node t \<notin> task_own (trie_view K h) u) \<and> (parent_node t \<notin> news A (mh_next st) alloc_max) \<and>
     (\<forall>a \<in> task_own (trie_view K h) t. mh_heap st a = h a)"

definition queue_ok :: "'n merge_ops \<Rightarrow> merge_alloc \<Rightarrow> 'n node_heap \<Rightarrow> 'n merge_heap \<Rightarrow> merge_task list \<Rightarrow> bool" where
  "queue_ok K A h st ts \<longleftrightarrow> (\<forall>t \<in> set ts. waits K A h st ts t) \<and> distinct (map place ts) \<and>
     mh_next st + 2 * sum_list (map (task_wt (trie_view K h)) ts) \<le> alloc_max \<and>
     (\<forall>t \<in> set ts. \<forall>u \<in> set ts. place t \<noteq> place u \<longrightarrow> task_own (trie_view K h) t \<inter> task_own (trie_view K h) u = {})"

text \<open>The slots of the node at \<open>p\<close> when the places in \<open>ts\<close> have got their addresses.\<close>

definition filled :: "(u64 \<times> nat \<Rightarrow> u64) \<Rightarrow> merge_task list \<Rightarrow> u64 \<Rightarrow> node_slot list \<Rightarrow> node_slot list" where
  "filled at ts p xs = map (\<lambda>i. if (p, i) \<in> place ` set ts then with_lv (at (p, i)) (xs ! i) else xs ! i) [0..<length xs]"

text \<open>What a task has become.\<close>

definition became :: "'n merge_ops \<Rightarrow> 'n node_heap \<Rightarrow> merge_task \<Rightarrow> 'n node_heap \<Rightarrow> u64 \<Rightarrow> u64 set \<Rightarrow> bool" where
  "became K h t h' q W \<longleftrightarrow>
     mtrie K h' q \<and> (\<forall>s v. stored (go_ops K) h' q s v \<longleftrightarrow> task_has (trie_view K h) t s v) \<and>
     own K h' q \<subseteq> task_own (trie_view K h) t \<union> W"

definition queue_done ::
  "'n merge_ops \<Rightarrow> merge_alloc \<Rightarrow> 'n node_heap \<Rightarrow> 'n merge_heap \<Rightarrow> merge_task list \<Rightarrow> 'n merge_heap \<Rightarrow> (u64 \<times> nat \<Rightarrow> u64) \<Rightarrow> bool" where
  "queue_done K A h st ts st' at \<longleftrightarrow>
     mh_next st \<le> mh_next st' \<and> mh_root st' = mh_root st \<and>
     (\<forall>t \<in> set ts. became K h t (mh_heap st') (at (place t)) (news A (mh_next st) (mh_next st'))) \<and>
     (\<forall>t \<in> set ts. \<forall>u \<in> set ts. place t \<noteq> place u \<longrightarrow>
        own K (mh_heap st') (at (place t)) \<inter> own K (mh_heap st') (at (place u)) = {}) \<and>
     (\<forall>p n xs. (\<forall>t \<in> set ts. p \<notin> task_own (trie_view K h) t) \<longrightarrow> (p \<notin> news A (mh_next st) alloc_max) \<longrightarrow>
        mh_heap st p = Some n \<longrightarrow> node_slots K n xs \<longrightarrow>
        (\<exists>n'. mh_heap st' p = Some n' \<and> node_slots K n' (filled at ts p xs) \<and> go_has_ksuf K n' = go_has_ksuf K n)) \<and>
     (\<forall>p. (\<forall>t \<in> set ts. p \<notin> task_own (trie_view K h) t) \<longrightarrow> (p \<notin> news A (mh_next st) alloc_max) \<longrightarrow>
        p \<notin> parent_node ` set ts \<longrightarrow> mh_heap st' p = mh_heap st p)"

lemma mg_tasks_set:
  "u \<in> set (mg_tasks q R) \<longleftrightarrow> (\<exists>i < length R. \<exists>kl ik tt. R ! i = Below kl ik tt \<and> u = tt\<lparr>parent_node := q, parent_node_pos := i\<rparr>)"
  (is "?l \<longleftrightarrow> ?r")
proof -
  have "set (mg_task q i x) = (case x of Kept r \<Rightarrow> {} | Below kl ik tt \<Rightarrow> {tt\<lparr>parent_node := q, parent_node_pos := i\<rparr>})" for i x
    by (cases x) simp_all
  then have "?l \<longleftrightarrow> (\<exists>i < length R. u \<in> (case R ! i of Kept r \<Rightarrow> {} | Below kl ik tt \<Rightarrow> {tt\<lparr>parent_node := q, parent_node_pos := i\<rparr>}))"
    by (auto simp: mg_tasks_def)
  also have "\<dots> \<longleftrightarrow> ?r" by (rule ex_cong1, rule conj_cong, rule refl) (auto split: merged.splits)
  finally show ?thesis .
qed

lemma moved_task [simp]:
  "task_fit V (tt\<lparr>parent_node := q, parent_node_pos := i\<rparr>) = task_fit V tt"
  "task_wt V (tt\<lparr>parent_node := q, parent_node_pos := i\<rparr>) = task_wt V tt"
  "task_own V (tt\<lparr>parent_node := q, parent_node_pos := i\<rparr>) = task_own V tt"
  "task_has V (tt\<lparr>parent_node := q, parent_node_pos := i\<rparr>) s v = task_has V tt s v"
  "place (tt\<lparr>parent_node := q, parent_node_pos := i\<rparr>) = (q, i)"
  by (simp_all add: place_def task_fit_def task_wt_def task_own_def task_has_def item_m_def item_n_def)

lemma mg_tasks_places: "distinct (map place (mg_tasks q R))"
proof (induction R rule: rev_induct)
  case (snoc x R)
  have "place u \<noteq> (q, length R)" if "u \<in> set (mg_tasks q R)" for u
    using that by (auto simp: mg_tasks_set)
  then have "(q, length R) \<notin> place ` set (mg_tasks q R)" by (metis imageE)
  then show ?case using snoc unfolding mg_tasks_snoc by (cases x) simp_all
qed (simp add: mg_tasks_def)

lemma mg_tasks_wt: "sum_list (map (task_wt V) (mg_tasks q R)) = sum_list (map (mg_wt V) R)"
proof (induction R rule: rev_induct)
  case (snoc x R)
  then show ?case by (cases x) (simp_all add: mg_tasks_snoc)
qed (simp add: mg_tasks_def)

section \<open>The step and what comes of it\<close>

definition stepped ::
  "'n merge_ops \<Rightarrow> merge_alloc \<Rightarrow> u64 \<Rightarrow> 'n merge_heap \<Rightarrow> u64 set \<Rightarrow> merged list \<Rightarrow> u64 \<Rightarrow> 'n merge_heap \<Rightarrow> bool" where
  "stepped K A par st F R q st2 \<longleftrightarrow>
     (\<exists>n lvs. node_slots K n (mg_rows R lvs) \<and> list_all2 mg_lv R lvs \<and> go_has_ksuf K n \<and> mh_heap st2 q = Some n) \<and>
     (q \<in> F \<or> q \<in> news A (mh_next st) (mh_next st2)) \<and> q \<noteq> par \<and> mh_next st < mh_next st2 \<and> mh_next st2 \<le> mh_next st + 2 \<and>
     mh_task st2 = mh_task st @ mg_tasks q R \<and> (\<forall>a. a \<notin> F \<longrightarrow> a \<noteq> q \<longrightarrow> a \<noteq> par \<longrightarrow> mh_heap st2 a = mh_heap st a)"

text \<open>The task \<open>t\<close> was done while \<open>ts\<close> wait.\<close>

definition turned ::
  "'n merge_ops \<Rightarrow> merge_alloc \<Rightarrow> 'n node_heap \<Rightarrow> merge_task \<Rightarrow> merge_task list \<Rightarrow> u64 \<Rightarrow> 'n merge_heap \<Rightarrow> u64 set \<Rightarrow>
     merged list \<Rightarrow> u64 \<Rightarrow> 'n merge_heap \<Rightarrow> bool" where
  "turned K A h t ts par st F R q st2 \<longleftrightarrow>
     stepped K A par st F R q st2 \<and> turns_into (trie_view K h) t R \<and> task_fit (trie_view K h) t \<and>
     F \<subseteq> task_own (trie_view K h) t \<and> (\<forall>x \<in> set R. mg_own (trie_view K h) x \<subseteq> task_own (trie_view K h) t - F) \<and>
     (\<forall>a \<in> task_own (trie_view K h) t. mh_heap st a = h a) \<and> par \<notin> task_own (trie_view K h) t \<and> fresh_alloc A h \<and>
     (\<forall>u \<in> set ts. task_own (trie_view K h) t \<inter> task_own (trie_view K h) u = {} \<and> parent_node u \<notin> task_own (trie_view K h) t \<and>
        (parent_node u \<notin> news A (mh_next st) alloc_max))"

text \<open>The slots of the new node in the end.\<close>

fun final_row :: "(u64 \<times> nat \<Rightarrow> u64) \<Rightarrow> u64 \<Rightarrow> nat \<Rightarrow> merged \<Rightarrow> node_slot" where
  "final_row at q i (Kept r) = r"
| "final_row at q i (Below kl ik tt) = (kl, ik, at (q, i), [])"

definition final_rows :: "(u64 \<times> nat \<Rightarrow> u64) \<Rightarrow> u64 \<Rightarrow> merged list \<Rightarrow> node_slot list" where
  "final_rows at q R = map (\<lambda>i. final_row at q i (R ! i)) [0..<length R]"

lemma final_rows_simps [simp]:
  "length (final_rows at q R) = length R" "i < length R \<Longrightarrow> final_rows at q R ! i = final_row at q i (R ! i)"
  by (simp_all add: final_rows_def)

lemma final_row_pos [simp]: "slot_kl (final_row at q i x) = mg_kl x" "slot_ikey (final_row at q i x) = mg_ik x"
  by (cases x; simp)+

lemma all_final_rows: "(\<forall>r \<in> set (final_rows at q R). P r) \<longleftrightarrow> (\<forall>i < length R. P (final_row at q i (R ! i)))"
  by (auto simp: final_rows_def)

lemma below_place: "i < length R \<Longrightarrow> (q, i) \<in> place ` set (mg_tasks q R) \<longleftrightarrow> (\<exists>kl ik tt. R ! i = Below kl ik tt)"
  by (force simp: mg_tasks_set image_iff)

lemma filled_rows:
  assumes "\<forall>u \<in> set ts. parent_node u \<noteq> q" "list_all2 mg_lv R lvs"
  shows "filled at (ts @ mg_tasks q R) q (mg_rows R lvs) = final_rows at q R"
proof (rule nth_equalityI)
  have l: "length (mg_rows R lvs) = length R" using list_all2_lengthD [OF assms(2)] by (simp add: mg_rows_def)
  then show "length (filled at (ts @ mg_tasks q R) q (mg_rows R lvs)) = length (final_rows at q R)" by (simp add: filled_def)
  fix i assume "i < length (filled at (ts @ mg_tasks q R) q (mg_rows R lvs))"
  then have i: "i < length R" by (simp add: filled_def l)
  have n: "(q, i) \<notin> place ` set ts" using assms(1) by (auto simp: place_def)
  have lv: "mg_lv (R ! i) (lvs ! i)" by (rule list_all2_nthD [OF assms(2) i])
  have r: "mg_rows R lvs ! i = mg_row (R ! i) (lvs ! i)" using i list_all2_lengthD [OF assms(2)] by (simp add: mg_rows_def)
  have "filled at (ts @ mg_tasks q R) q (mg_rows R lvs) ! i =
      (if (q, i) \<in> place ` set (mg_tasks q R) then with_lv (at (q, i)) (mg_rows R lvs ! i) else mg_rows R lvs ! i)"
    using i n unfolding filled_def l by (simp add: image_Un)
  then show "filled at (ts @ mg_tasks q R) q (mg_rows R lvs) ! i = final_rows at q R ! i"
    using lv by (cases "R ! i") (auto simp: below_place [OF i] i r mg_row_def split: prod.splits)
qed

lemma task_own_dom: "a \<in> task_own (trie_view K h) t \<Longrightarrow> h a \<noteq> None"
  using own_dom [of a K h] by (auto simp: task_own_def split: if_splits)

lemma news_new: "fresh_alloc A h \<Longrightarrow> a \<in> news A i j \<Longrightarrow> h a = None"
  by (auto simp: fresh_alloc_def news_def)

lemma news_mono: "i' \<le> i \<Longrightarrow> j \<le> j' \<Longrightarrow> news A i j \<subseteq> news A i' j'"
  by (auto simp: news_def)

lemma fresh_inj: "fresh_alloc A h \<Longrightarrow> i < alloc_max \<Longrightarrow> j < alloc_max \<Longrightarrow> al_addr A i = al_addr A j \<longleftrightarrow> i = j"
  by (auto simp: fresh_alloc_def inj_on_def)

lemma news_apart: "fresh_alloc A h \<Longrightarrow> j \<le> i' \<Longrightarrow> news A i j \<inter> news A i' j' = {}"
  by (auto simp: news_def fresh_inj)

lemma newsI: "i \<le> k \<Longrightarrow> k < j \<Longrightarrow> j \<le> alloc_max \<Longrightarrow> al_addr A k \<in> news A i j"
  by (auto simp: news_def)

context merge_maker
begin

lemma turned_apart:
  assumes "turned K A h t ts par st F R q st2" "i < length R" "j < length R" "i \<noteq> j"
  shows "mg_own (trie_view K h) (R ! i) \<inter> mg_own (trie_view K h) (R ! j) = {}"
proof -
  have s: "sorted_wrt (\<lambda>x y. mg_own (trie_view K h) x \<inter> mg_own (trie_view K h) y = {}) R"
    using assms(1) by (simp add: turned_def turns_into_def)
  show ?thesis
    using sorted_wrt_nth_less [OF s, of i j] sorted_wrt_nth_less [OF s, of j i] assms(2-4) by (cases "i < j") auto
qed

lemma turned_q:
  assumes "turned K A h t ts par st F R q st2"
  shows "q \<noteq> par" "q \<in> task_own (trie_view K h) t \<union> news A (mh_next st) (mh_next st2)"
    and "\<forall>x \<in> set R. q \<notin> mg_own (trie_view K h) x" "\<forall>u \<in> set ts. parent_node u \<noteq> q" "\<forall>u \<in> set ts. q \<notin> task_own (trie_view K h) u"
    and "q \<notin> news A (mh_next st2) alloc_max"
proof -
  let ?V = "trie_view K h"
  have s: "stepped K A par st F R q st2" and F: "F \<subseteq> task_own ?V t" and own: "\<forall>x \<in> set R. mg_own ?V x \<subseteq> task_own ?V t - F"
    and al: "fresh_alloc A h" and others: "\<forall>u \<in> set ts. task_own ?V t \<inter> task_own ?V u = {} \<and> parent_node u \<notin> task_own ?V t \<and>
        (parent_node u \<notin> news A (mh_next st) alloc_max)"
    using assms by (simp_all add: turned_def)
  have q: "q \<in> F \<or> q \<in> news A (mh_next st) (mh_next st2)" "q \<noteq> par" using s by (simp_all add: stepped_def)
  have d: "a \<in> task_own ?V u \<Longrightarrow> h a \<noteq> None" for a u by (rule task_own_dom)
  have n: "a \<in> news A (mh_next st) (mh_next st2) \<Longrightarrow> h a = None" for a by (rule news_new [OF al])
  show "q \<noteq> par" by (rule q(2))
  show "q \<in> task_own ?V t \<union> news A (mh_next st) (mh_next st2)" using q F by blast
  show "\<forall>x \<in> set R. q \<notin> mg_own ?V x" using q own d n by blast
  show "\<forall>u \<in> set ts. q \<notin> task_own ?V u" using q F others d n by blast
  show "\<forall>u \<in> set ts. parent_node u \<noteq> q" using q F others news_mono [OF order_refl, of "mh_next st2" alloc_max] by (auto simp: news_def)
  have "news A (mh_next st) (mh_next st2) \<inter> news A (mh_next st2) alloc_max = {}" by (rule news_apart [OF al order_refl])
  then show "q \<notin> news A (mh_next st2) alloc_max" using q F d news_new [OF al, of q "mh_next st2" alloc_max] by blast
qed

text \<open>The tries that are kept are as they were.\<close>

lemma turned_kept:
  assumes t: "turned K A h t ts par st F R q st2" and d: "queue_done K A h st2 (ts @ mg_tasks q R) st' at"
    and i: "i < length R" "R ! i = Kept r" and a: "a \<in> row_own (trie_view K h) r"
  shows "mh_heap st' a = h a"
proof -
  let ?V = "trie_view K h"
  have s: "stepped K A par st F R q st2" and own: "\<forall>x \<in> set R. mg_own ?V x \<subseteq> task_own ?V t - F"
    and same: "\<forall>a \<in> task_own ?V t. mh_heap st a = h a" and par: "par \<notin> task_own ?V t" and al: "fresh_alloc A h"
    and others: "\<forall>u \<in> set ts. task_own ?V t \<inter> task_own ?V u = {} \<and> parent_node u \<notin> task_own ?V t"
    using t by (auto simp: turned_def)
  note q = turned_q [OF t]
  have aR: "a \<in> mg_own ?V (R ! i)" using i a by simp
  have at: "a \<in> task_own ?V t" "a \<notin> F" using aR own i(1) nth_mem by blast+
  have aq: "a \<noteq> q" using q(3) aR i(1) nth_mem by blast
  have "mh_heap st2 a = h a" using s at aq par same unfolding stepped_def by metis
  moreover have "a \<notin> task_own ?V u" if u: "u \<in> set (ts @ mg_tasks q R)" for u
  proof (cases "u \<in> set ts")
    case False
    then obtain j kl ik tt where j: "j < length R" "R ! j = Below kl ik tt" "u = tt\<lparr>parent_node := q, parent_node_pos := j\<rparr>"
      using u by (auto simp: mg_tasks_set)
    have "i \<noteq> j" using i j by auto
    then have "mg_own ?V (R ! i) \<inter> mg_own ?V (R ! j) = {}" by (rule turned_apart [OF t i(1) j(1)])
    then show ?thesis using aR j(2,3) by auto
  qed (use others at in blast)
  moreover have "a \<notin> news A k alloc_max" for k using task_own_dom [OF at(1)] by (auto dest: news_new [OF al])
  moreover have "a \<notin> parent_node ` set (ts @ mg_tasks q R)"
    using others at(1) aq by (auto simp: mg_tasks_set)
  ultimately show ?thesis using d unfolding queue_done_def by metis
qed

text \<open>The slots of the new node, one by one.\<close>

lemma final_slot:
  assumes t: "turned K A h t ts par st F R q st2" and d: "queue_done K A h st2 (ts @ mg_tasks q R) st' at" and i: "i < length R"
  defines "y \<equiv> final_row at q i (R ! i)" and "V' \<equiv> trie_view K (mh_heap st')"
  shows "good_slot y" and "keylenx_is_layer (slot_kl y) \<Longrightarrow> mtrie K (mh_heap st') (slot_lv y)"
    and "row_own V' y \<subseteq> mg_own (trie_view K h) (R ! i) \<union> news A (mh_next st2) (mh_next st')"
    and "row_has V' y s v \<longleftrightarrow> mg_has (trie_view K h) (R ! i) s v"
    and "\<exists>r. R ! i = Kept r \<Longrightarrow> row_own V' y \<subseteq> mg_own (trie_view K h) (R ! i)"
proof -
  let ?V = "trie_view K h"
  have fit: "mg_fit ?V (R ! i)" using t i nth_mem [OF i] by (auto simp: turned_def turns_into_def)
  have "good_slot y \<and> (keylenx_is_layer (slot_kl y) \<longrightarrow> mtrie K (mh_heap st') (slot_lv y)) \<and>
      row_own V' y \<subseteq> mg_own ?V (R ! i) \<union> news A (mh_next st2) (mh_next st') \<and>
      (\<forall>s v. row_has V' y s v \<longleftrightarrow> mg_has ?V (R ! i) s v) \<and> ((\<exists>r. R ! i = Kept r) \<longrightarrow> row_own V' y \<subseteq> mg_own ?V (R ! i))"
  proof (cases "R ! i")
    case (Kept r')
    then have y: "y = r'" and f: "row_fit ?V r'" using fit by (simp_all add: y_def)
    show ?thesis
    proof (cases "keylenx_is_layer (slot_kl r')")
      case True
      then have m: "mtrie K h (slot_lv r')" using f by (simp add: row_fit_def)
      have "mh_heap st' a = h a" if "a \<in> own K h (slot_lv r')" for a
        using turned_kept [OF t d i Kept, of a] that True by (simp add: row_own_def)
      then have fr: "mtrie K (mh_heap st') (slot_lv r')" "own K (mh_heap st') (slot_lv r') = own K h (slot_lv r')"
        "\<And>s v. stored (go_ops K) (mh_heap st') (slot_lv r') s v \<longleftrightarrow> stored (go_ops K) h (slot_lv r') s v"
        using mtrie_frame [OF m, of "mh_heap st'"] by blast+
      show ?thesis using f fr True by (simp add: y Kept row_fit_def row_own_def V'_def row_has_def)
    next
      case False
      then show ?thesis using f by (simp add: y Kept row_fit_def row_own_def V'_def row_has_def)
    qed
  next
    case (Below kl ik tt)
    define u where "u = tt\<lparr>parent_node := q, parent_node_pos := i\<rparr>"
    have u: "u \<in> set (ts @ mg_tasks q R)" using Below i by (auto simp: mg_tasks_set u_def)
    then have "became K h u (mh_heap st') (at (place u)) (news A (mh_next st2) (mh_next st'))"
      using d by (simp add: queue_done_def)
    then have b: "mtrie K (mh_heap st') (at (q, i))" "\<And>s v. stored (go_ops K) (mh_heap st') (at (q, i)) s v \<longleftrightarrow> task_has ?V tt s v"
      "own K (mh_heap st') (at (q, i)) \<subseteq> task_own ?V tt \<union> news A (mh_next st2) (mh_next st')"
      by (simp_all add: became_def u_def)
    show ?thesis using fit b by (simp add: y_def Below good_slot_def row_own_def V'_def row_has_def)
  qed
  then show "good_slot y" "keylenx_is_layer (slot_kl y) \<Longrightarrow> mtrie K (mh_heap st') (slot_lv y)"
    "row_own V' y \<subseteq> mg_own (trie_view K h) (R ! i) \<union> news A (mh_next st2) (mh_next st')"
    "row_has V' y s v \<longleftrightarrow> mg_has (trie_view K h) (R ! i) s v"
    "\<exists>r. R ! i = Kept r \<Longrightarrow> row_own V' y \<subseteq> mg_own (trie_view K h) (R ! i)"
    by blast+
qed

lemma final_apart:
  assumes t: "turned K A h t ts par st F R q st2" and d: "queue_done K A h st2 (ts @ mg_tasks q R) st' at"
    and i: "i < length R" and j: "j < length R" and ij: "i \<noteq> j"
  defines "V' \<equiv> trie_view K (mh_heap st')"
  shows "row_own V' (final_row at q i (R ! i)) \<inter> row_own V' (final_row at q j (R ! j)) = {}"
proof -
  let ?V = "trie_view K h" and ?W = "news A (mh_next st2) (mh_next st')"
  have al: "fresh_alloc A h" and own: "\<forall>x \<in> set R. mg_own ?V x \<subseteq> task_own ?V t" using t by (auto simp: turned_def)
  note a = turned_apart [OF t i j ij]
  have old: "a \<notin> ?W" if "a \<in> mg_own ?V (R ! k)" "k < length R" for a k
  proof -
    have "a \<in> task_own ?V t" using own that nth_mem [OF that(2)] by blast
    then have "h a \<noteq> None" by (rule task_own_dom)
    then show ?thesis by (auto dest: news_new [OF al])
  qed
  note si = final_slot [OF t d i, folded V'_def] and sj = final_slot [OF t d j, folded V'_def]
  show ?thesis
  proof (cases "R ! i")
    case Kept
    then show ?thesis using si(5) sj(3) a old i by blast
  next
    case bi: (Below kl ik tt)
    show ?thesis
    proof (cases "R ! j")
      case Kept
      then show ?thesis using sj(5) si(3) a old j by blast
    next
      case bj: (Below kl' ik' tt')
      have u: "tt\<lparr>parent_node := q, parent_node_pos := i\<rparr> \<in> set (ts @ mg_tasks q R)" "tt'\<lparr>parent_node := q, parent_node_pos := j\<rparr> \<in> set (ts @ mg_tasks q R)"
        using bi bj i j by (auto simp: mg_tasks_set)
      have "\<forall>t \<in> set (ts @ mg_tasks q R). \<forall>u \<in> set (ts @ mg_tasks q R). place t \<noteq> place u \<longrightarrow>
          own K (mh_heap st') (at (place t)) \<inter> own K (mh_heap st') (at (place u)) = {}"
        using d unfolding queue_done_def by blast
      from bspec [OF bspec [OF this u(1)] u(2)]
      have "own K (mh_heap st') (at (q, i)) \<inter> own K (mh_heap st') (at (q, j)) = {}" using ij by simp
      then show ?thesis by (simp add: bi bj row_own_def V'_def)
    qed
  qed
qed

lemma turned_nonzero:
  assumes t: "turned K A h t ts par st F R q st2"
  shows "q \<noteq> 0"
proof -
  have "q \<in> task_own (trie_view K h) t \<or> q \<in> news A (mh_next st) (mh_next st2)" using turned_q(2) [OF t] by blast
  moreover have "task_fit (trie_view K h) t" "fresh_alloc A h" using t by (simp_all add: turned_def)
  ultimately show ?thesis using mtrie_nonzero by (auto simp: task_own_def task_fit_def news_def fresh_alloc_def split: if_splits)
qed

lemma turned_below:
  assumes "turned K A h t ts par st F R q st2" "u \<in> set (mg_tasks q R)"
  shows "task_fit (trie_view K h) u" "task_wt (trie_view K h) u < task_wt (trie_view K h) t"
    and "task_own (trie_view K h) u \<subseteq> task_own (trie_view K h) t - F" "parent_node u = q" "parent_node_pos u < length R"
    "q \<notin> task_own (trie_view K h) u"
proof -
  let ?V = "trie_view K h"
  have turns: "turns_into ?V t R" and own: "\<forall>x \<in> set R. mg_own ?V x \<subseteq> task_own ?V t - F" using assms(1) by (auto simp: turned_def)
  obtain i kl ik tt where i: "i < length R" "R ! i = Below kl ik tt" "u = tt\<lparr>parent_node := q, parent_node_pos := i\<rparr>"
    using assms(2) by (auto simp: mg_tasks_set)
  have x: "R ! i \<in> set R" by (rule nth_mem [OF i(1)])
  have "mg_fit ?V (R ! i)" using turns x by (auto simp: turns_into_def)
  then show "task_fit ?V u" by (simp add: i(2,3))
  have "mg_wt ?V (R ! i) \<le> sum_list (map (mg_wt ?V) R)" using x by (intro member_le_sum_list) simp_all
  then show "task_wt ?V u < task_wt ?V t" using turns by (simp add: turns_into_def i(2,3))
  have "mg_own ?V (R ! i) \<subseteq> task_own ?V t - F" using own x by blast
  then show "task_own ?V u \<subseteq> task_own ?V t - F" by (simp add: i(2,3))
  show "parent_node u = q" "parent_node_pos u < length R" using i by simp_all
  show "q \<notin> task_own ?V u" using turned_q(3) [OF assms(1)] x by (auto simp: i(2,3) dest!: bspec)
qed

text \<open>The new node in the end.\<close>

lemma task_became:
  assumes t: "turned K A h t ts par st F R q st2" and d: "queue_done K A h st2 (ts @ mg_tasks q R) st' at"
  shows "became K h t (mh_heap st') q (news A (mh_next st) (mh_next st'))"
    and "\<forall>u \<in> set ts. own K (mh_heap st') q \<inter> own K (mh_heap st') (at (place u)) = {}"
proof -
  let ?V = "trie_view K h" and ?W = "news A (mh_next st2) (mh_next st')" and ?V' = "trie_view K (mh_heap st')"
  have s: "stepped K A par st F R q st2" and own: "\<forall>x \<in> set R. mg_own ?V x \<subseteq> task_own ?V t - F" and al: "fresh_alloc A h"
    and others: "\<forall>u \<in> set ts. task_own ?V t \<inter> task_own ?V u = {}" and turns: "turns_into ?V t R"
    using t by (auto simp: turned_def)
  note q = turned_q [OF t]
  obtain n lvs where n: "node_slots K n (mg_rows R lvs)" "list_all2 mg_lv R lvs" "go_has_ksuf K n" "mh_heap st2 q = Some n"
    using s unfolding stepped_def by blast
  have le: "mh_next st \<le> mh_next st2" "mh_next st2 \<le> mh_next st'" using s d by (simp_all add: stepped_def queue_done_def)
  have notq: "q \<notin> task_own ?V u" if "u \<in> set (ts @ mg_tasks q R)" for u
    using that q(3,5) by (auto simp: mg_tasks_set) (metis mg_own.simps(2) nth_mem)
  have "\<exists>n'. mh_heap st' q = Some n' \<and> node_slots K n' (filled at (ts @ mg_tasks q R) q (mg_rows R lvs)) \<and> go_has_ksuf K n' = go_has_ksuf K n"
    using d notq q(6) n(1,4) unfolding queue_done_def by blast
  then obtain n' where n': "mh_heap st' q = Some n'" "node_slots K n' (final_rows at q R)" "go_has_ksuf K n'"
    unfolding filled_rows [OF q(4) n(2)] using n(3) by blast
  note sl = final_slot [OF t d] and ap = final_apart [OF t d]
  have sorted: "sorted_wrt slot_before (final_rows at q R)"
    using turns unfolding turns_into_def sorted_wrt_iff_nth_less mg_before_def slot_before_def by simp
  have good: "good_slots (final_rows at q R)" unfolding good_slots_def all_final_rows using sl(1) sorted by blast
  have W: "a \<in> task_own ?V u \<Longrightarrow> a \<notin> ?W" for a u
    using task_own_dom [of a K h u] by (auto dest: news_new [OF al])
  have qW: "q \<notin> ?W" using q(6) by (auto simp: news_def)
  have rowq: "\<forall>r \<in> set (final_rows at q R). q \<notin> layers_own K (mh_heap st') r"
    unfolding all_final_rows
  proof (intro allI impI)
    fix i assume i: "i < length R"
    have "q \<notin> mg_own ?V (R ! i)" using q(3) nth_mem [OF i] by blast
    then show "q \<notin> layers_own K (mh_heap st') (final_row at q i (R ! i))" using sl(3) [OF i] qW unfolding row_own_view by blast
  qed
  have dis: "sorted_wrt (\<lambda>r q. layers_own K (mh_heap st') r \<inter> layers_own K (mh_heap st') q = {}) (final_rows at q R)"
    unfolding sorted_wrt_iff_nth_less using ap unfolding row_own_view by simp
  have ne: "final_rows at q R \<noteq> []" using turns by (auto simp: turns_into_def final_rows_def)
  have q0: "q \<noteq> 0" by (rule turned_nonzero [OF t])
  have trie: "mtrie K (mh_heap st') q"
    by (rule mtrie.mtrie_node [where h = "mh_heap st'", OF n'(1) q0 n'(2,3) ne good _ dis rowq]) (unfold all_final_rows, use sl(2) in blast)
  have ow: "own K (mh_heap st') q = insert q (\<Union>r \<in> set (final_rows at q R). row_own ?V' r)"
    unfolding own_unfold [where h = "mh_heap st'", OF n'(1,2)] row_own_view ..
  have rows: "\<forall>r \<in> set (final_rows at q R). row_own ?V' r \<subseteq> task_own ?V t \<union> ?W"
    unfolding all_final_rows
  proof (intro allI impI)
    fix i assume i: "i < length R"
    have "mg_own ?V (R ! i) \<subseteq> task_own ?V t" using own nth_mem [OF i] by blast
    then show "row_own ?V' (final_row at q i (R ! i)) \<subseteq> task_own ?V t \<union> ?W" using sl(3) [OF i] by blast
  qed
  have mono: "news A (mh_next st) (mh_next st2) \<subseteq> news A (mh_next st) (mh_next st')" "?W \<subseteq> news A (mh_next st) (mh_next st')"
    using le by (auto simp: news_def)
  have st: "stored (go_ops K) (mh_heap st') q s v \<longleftrightarrow> task_has ?V t s v" for s v
  proof -
    have "stored (go_ops K) (mh_heap st') q s v \<longleftrightarrow> (\<exists>r \<in> set (final_rows at q R). row_has ?V' r s v)"
      by (rule stored_rows [where h = "mh_heap st'", OF n'(1,2) good])
    also have "\<dots> \<longleftrightarrow> (\<exists>i < length R. row_has ?V' (final_row at q i (R ! i)) s v)" by (auto simp: final_rows_def)
    also have "\<dots> \<longleftrightarrow> (\<exists>i < length R. mg_has ?V (R ! i) s v)" using sl(4) by (intro ex_cong1 conj_cong) auto
    also have "\<dots> \<longleftrightarrow> (\<exists>x \<in> set R. mg_has ?V x s v)" by (metis in_set_conv_nth)
    also have "\<dots> \<longleftrightarrow> task_has ?V t s v" using turns by (simp add: turns_into_def)
    finally show ?thesis .
  qed
  show "became K h t (mh_heap st') q (news A (mh_next st) (mh_next st'))"
    unfolding became_def
  proof (intro conjI)
    show "own K (mh_heap st') q \<subseteq> task_own ?V t \<union> news A (mh_next st) (mh_next st')"
      unfolding ow using rows q(2) mono by blast
  qed (use trie st in simp_all)
  show "\<forall>u \<in> set ts. own K (mh_heap st') q \<inter> own K (mh_heap st') (at (place u)) = {}"
  proof
    fix u assume u: "u \<in> set ts"
    have uo: "own K (mh_heap st') (at (place u)) \<subseteq> task_own ?V u \<union> ?W"
      using d u by (simp add: queue_done_def became_def)
    have "q \<notin> own K (mh_heap st') (at (place u))" using uo qW q(5) u by blast
    moreover have "\<forall>r \<in> set (final_rows at q R). row_own ?V' r \<inter> own K (mh_heap st') (at (place u)) = {}"
      unfolding all_final_rows
    proof (intro allI impI)
      fix i assume i: "i < length R"
      show "row_own ?V' (final_row at q i (R ! i)) \<inter> own K (mh_heap st') (at (place u)) = {}"
      proof (cases "R ! i")
        case (Kept r)
        have "mg_own ?V (R ! i) \<subseteq> task_own ?V t" using own nth_mem [OF i] by blast
        then have "row_own ?V' (final_row at q i (R ! i)) \<subseteq> task_own ?V t" using sl(5) [OF i] Kept by blast
        then show ?thesis using uo W others u by blast
      next
        case (Below kl ik tt)
        let ?w = "tt\<lparr>parent_node := q, parent_node_pos := i\<rparr>"
        have w: "?w \<in> set (ts @ mg_tasks q R)" "u \<in> set (ts @ mg_tasks q R)" using Below i u by (auto simp: mg_tasks_set)
        have "place ?w \<noteq> place u" using q(4) u by (auto simp: place_def)
        then have "own K (mh_heap st') (at (place ?w)) \<inter> own K (mh_heap st') (at (place u)) = {}"
          using d w unfolding queue_done_def by blast
        then show ?thesis by (simp add: Below row_own_def)
      qed
    qed
    ultimately show "own K (mh_heap st') q \<inter> own K (mh_heap st') (at (place u)) = {}" unfolding ow by blast
  qed
qed

text \<open>What waits after the step is in order, too.\<close>

lemma turned_queue:
  assumes t: "turned K A h t ts par st F R q st2" and ok: "queue_ok K A h st ts" and wt: "task_wt (trie_view K h) t < 2 ^ 31"
    and room: "mh_next st + 2 * sum_list (map (task_wt (trie_view K h)) (t # ts)) \<le> alloc_max"
    and par: "\<And>u. u \<in> set ts \<Longrightarrow> par \<notin> task_own (trie_view K h) u"
    and slots: "\<And>u n xs. u \<in> set ts \<Longrightarrow> mh_heap st par = Some n \<Longrightarrow> node_slots K n xs \<Longrightarrow>
      \<exists>n' xs'. mh_heap st2 par = Some n' \<and> node_slots K n' xs' \<and> length xs' = length xs"
  shows "queue_ok K A h st2 (ts @ mg_tasks q R)"
proof -
  let ?V = "trie_view K h" and ?us = "ts @ mg_tasks q R"
  have s: "stepped K A par st F R q st2" and F: "F \<subseteq> task_own ?V t" and same: "\<forall>a \<in> task_own ?V t. mh_heap st a = h a"
    and notpar: "par \<notin> task_own ?V t"
    and others: "\<forall>u \<in> set ts. task_own ?V t \<inter> task_own ?V u = {} \<and> parent_node u \<notin> task_own ?V t \<and>
        (parent_node u \<notin> news A (mh_next st) alloc_max)"
    using t by (auto simp: turned_def)
  note q = turned_q [OF t] and tb = turned_below [OF t]
  have keep: "mh_heap st2 a = mh_heap st a" if "a \<notin> F" "a \<noteq> q" "a \<noteq> par" for a using s that by (simp add: stepped_def)
  have le: "mh_next st \<le> mh_next st2" using s by (simp add: stepped_def)
  have new: "waits K A h st2 ?us u" if u: "u \<in> set (mg_tasks q R)" for u
  proof -
    obtain n lvs where n: "node_slots K n (mg_rows R lvs)" "list_all2 mg_lv R lvs" "mh_heap st2 q = Some n"
      using s unfolding stepped_def by blast
    have l: "length (mg_rows R lvs) = length R" using list_all2_lengthD [OF n(2)] by (simp add: mg_rows_def)
    have "mh_heap st2 a = h a" if a: "a \<in> task_own ?V u" for a
    proof -
      have "a \<in> task_own ?V t" "a \<notin> F" using a tb(3) [OF u] by blast+
      then show ?thesis using keep [of a] same notpar a tb(6) [OF u] by auto
    qed
    moreover have "q \<notin> task_own ?V w" if "w \<in> set ?us" for w using that q(5) tb(6) by auto
    ultimately show ?thesis
      unfolding waits_def tb(4) [OF u] using tb(1,2,5) [OF u] wt turned_nonzero [OF t] n l q(6) by auto
  qed
  have old: "waits K A h st2 ?us u" if u: "u \<in> set ts" for u
  proof -
    have w: "waits K A h st ts u" using ok u by (simp add: queue_ok_def)
    have p: "parent_node u \<notin> F" "parent_node u \<noteq> q" using others u F q(4) by blast+
    have "\<exists>n xs. mh_heap st2 (parent_node u) = Some n \<and> node_slots K n xs \<and> parent_node_pos u < length xs"
    proof (cases "parent_node u = par")
      case True
      then show ?thesis using w slots [OF u] unfolding waits_def by metis
    next
      case False
      then show ?thesis using w keep [OF p] unfolding waits_def by metis
    qed
    moreover have "mh_heap st2 a = h a" if a: "a \<in> task_own ?V u" for a
    proof -
      have "a \<notin> F" "a \<noteq> q" "a \<noteq> par" using a u others F q(5) par by blast+
      then show ?thesis using keep w a unfolding waits_def by metis
    qed
    moreover have "parent_node u \<notin> task_own ?V x" if "x \<in> set ?us" for x
    proof (cases "x \<in> set ts")
      case False
      then have "task_own ?V x \<subseteq> task_own ?V t" using that tb(3) by auto
      then show ?thesis using others u by blast
    qed (use w in \<open>simp add: waits_def\<close>)
    moreover have "parent_node u \<notin> news A (mh_next st2) alloc_max"
      using w news_mono [OF le order_refl] unfolding waits_def by blast
    ultimately show ?thesis using w unfolding waits_def by auto
  qed
  have dis: "task_own ?V u \<inter> task_own ?V w = {}" if uw: "u \<in> set ?us" "w \<in> set ?us" "place u \<noteq> place w" for u w
  proof -
    have mixed: "task_own ?V u \<inter> task_own ?V w = {}" if "u \<in> set ts" "w \<in> set (mg_tasks q R)" for u w
      using others that tb(3) by blast
    have below: "task_own ?V u \<inter> task_own ?V w = {}" if b: "u \<in> set (mg_tasks q R)" "w \<in> set (mg_tasks q R)" "place u \<noteq> place w" for u w
    proof -
      obtain i kl ik tt where i: "i < length R" "R ! i = Below kl ik tt" "u = tt\<lparr>parent_node := q, parent_node_pos := i\<rparr>"
        using b(1) by (auto simp: mg_tasks_set)
      obtain j kl' ik' tt' where j: "j < length R" "R ! j = Below kl' ik' tt'" "w = tt'\<lparr>parent_node := q, parent_node_pos := j\<rparr>"
        using b(2) by (auto simp: mg_tasks_set)
      have "i \<noteq> j" using b(3) i(3) j(3) by auto
      then show ?thesis using turned_apart [OF t i(1) j(1)] by (simp add: i j)
    qed
    have tsts: "u \<in> set ts \<Longrightarrow> w \<in> set ts \<Longrightarrow> ?thesis" using ok uw(3) by (simp add: queue_ok_def)
    show ?thesis using uw mixed [of u w] mixed [of w u] below tsts by (auto simp: Int_commute)
  qed
  have "distinct (map place ?us)"
  proof -
    have "place ` set ts \<inter> place ` set (mg_tasks q R) = {}" using q(4) tb(4) by (auto simp: place_def)
    then show ?thesis using ok mg_tasks_places [of q R] by (simp add: queue_ok_def)
  qed
  moreover have "\<forall>u \<in> set ?us. waits K A h st2 ?us u" using new old by auto
  moreover have "sum_list (map (mg_wt ?V) R) < task_wt ?V t" "mh_next st2 \<le> mh_next st + 2"
    using t by (simp_all add: turned_def turns_into_def stepped_def)
  then have "mh_next st2 + 2 * sum_list (map (task_wt ?V) ?us) \<le> alloc_max" using room by (simp add: mg_tasks_wt)
  ultimately show ?thesis unfolding queue_ok_def using dis by blast
qed

text \<open>A task with a parent sets the slot it came from.\<close>

lemma task_stepped:
  assumes ok: "queue_ok K A h st (t # ts)" and al: "fresh_alloc A h" and d: "done_as K A (trie_view K h) t st R F q st1"
  shows "\<exists>st2. set_parent K t q st1 = Goes_On st2 \<and> turned K A h t ts (parent_node t) st F R q st2 \<and> mh_root st2 = mh_root st \<and>
     (\<forall>n xs. mh_heap st (parent_node t) = Some n \<longrightarrow> node_slots K n xs \<longrightarrow>
        (\<exists>n'. mh_heap st2 (parent_node t) = Some n' \<and>
           node_slots K n' (xs[parent_node_pos t := with_lv q (xs ! parent_node_pos t)]) \<and> go_has_ksuf K n' = go_has_ksuf K n))"
proof -
  let ?V = "trie_view K h" and ?p = "parent_node t" and ?i = "parent_node_pos t"
  have w: "waits K A h st (t # ts) t" using ok by (simp add: queue_ok_def)
  have m: "made_at K A F True R st q st1" and turns: "turns_into ?V t R" and F: "F \<subseteq> task_own ?V t"
    and own: "\<forall>x \<in> set R. mg_own ?V x \<subseteq> task_own ?V t - F" using d by (auto simp: done_as_def)
  obtain n lvs where n: "node_slots K n (mg_rows R lvs)" "list_all2 mg_lv R lvs" "go_has_ksuf K n"
      "mh_heap st1 = (\<lambda>a. if a \<in> F then None else mh_heap st a)(q \<mapsto> n)"
    using m unfolding made_at_def by auto
  have "sum_list (map (mg_wt ?V) R) < task_wt ?V t" using turns by (simp add: turns_into_def)
  moreover have "mh_next st + 2 * sum_list (map (task_wt ?V) (t # ts)) \<le> alloc_max" using ok by (simp add: queue_ok_def)
  moreover have nx: "mh_next st < mh_next st1" "mh_next st1 \<le> mh_next st + 2" using m by (auto simp: made_at_def)
  ultimately have max: "mh_next st1 \<le> alloc_max" by simp
  have q: "q \<in> F \<or> q \<in> news A (mh_next st) (mh_next st1)"
    and tk: "mh_task st1 = mh_task st @ mg_tasks q R" and rt: "mh_root st1 = mh_root st"
    using m newsI [OF _ _ max, of "mh_next st" _ A] by (auto simp: made_at_def)
  have par: "?p \<notin> task_own ?V t" "?p \<notin> news A (mh_next st) alloc_max" "?p \<noteq> 0" using w by (simp_all add: waits_def)
  obtain np xs where np: "mh_heap st ?p = Some np" "node_slots K np xs" "?i < length xs" using w unfolding waits_def by blast
  have qp: "q \<noteq> ?p" using q par F by (auto simp: news_def)
  have hp: "mh_heap st1 ?p = Some np" using np(1) n(4) qp par(1) F by auto
  define st2 where "st2 = st1\<lparr>mh_heap := (mh_heap st1)(?p \<mapsto> op_set_lv (go_ops K) np ?i q)\<rparr>"
  have set: "set_parent K t q st1 = Goes_On st2" using hp par(3) by (simp add: set_parent_def st2_def)
  have heap: "mh_heap st2 a = mh_heap st a" if "a \<notin> F" "a \<noteq> q" "a \<noteq> ?p" for a using that by (simp add: st2_def n(4))
  have "stepped K A ?p st F R q st2"
    unfolding stepped_def using n q nx tk qp heap by (auto simp: st2_def)
  moreover have "task_own ?V t \<inter> task_own ?V u = {} \<and> parent_node u \<notin> task_own ?V t \<and> (parent_node u \<notin> news A (mh_next st) alloc_max)"
    if u: "u \<in> set ts" for u
  proof -
    have "place t \<noteq> place u" using ok u by (auto simp: queue_ok_def)
    then show ?thesis using ok u by (simp add: queue_ok_def waits_def)
  qed
  ultimately have "turned K A h t ts ?p st F R q st2"
    unfolding turned_def using turns F own par(1) al w by (simp add: waits_def)
  moreover have "\<exists>n'. mh_heap st2 ?p = Some n' \<and> node_slots K n' (ys[?i := with_lv q (ys ! ?i)]) \<and> go_has_ksuf K n' = go_has_ksuf K m"
    if "mh_heap st ?p = Some m" "node_slots K m ys" for m ys
  proof -
    have e: "m = np" "ys = xs" using that np slots_unique by simp_all
    have "go_has_ksuf K (op_set_lv (go_ops K) np ?i q) = go_has_ksuf K np" using set_lv_at [of np ?i q] by blast
    then show ?thesis using slots_set_lv [OF np(2,3), of q] by (simp add: st2_def e)
  qed
  ultimately show ?thesis using set rt by (intro exI [of _ st2]) (simp add: st2_def)
qed

lemma filled_step:
  assumes "p \<noteq> q" "place t \<notin> place ` set ts" "parent_node_pos t < length xs \<or> p \<noteq> parent_node t"
  shows "filled (at(place t := q)) (t # ts) p xs =
    filled at (ts @ mg_tasks q R) p (if p = parent_node t then xs[parent_node_pos t := with_lv q (xs ! parent_node_pos t)] else xs)"
    (is "_ = filled at _ p ?xs")
proof (rule nth_equalityI)
  show l: "length (filled (at(place t := q)) (t # ts) p xs) = length (filled at (ts @ mg_tasks q R) p ?xs)" by (simp add: filled_def)
  fix i assume "i < length (filled (at(place t := q)) (t # ts) p xs)"
  then have i: "i < length xs" by (simp add: filled_def)
  have m: "(p, i) \<in> place ` set (ts @ mg_tasks q R) \<longleftrightarrow> (p, i) \<in> place ` set ts"
    using assms(1) by (auto simp: mg_tasks_set)
  have r: "filled at (ts @ mg_tasks q R) p ?xs ! i = (if (p, i) \<in> place ` set ts then with_lv (at (p, i)) (?xs ! i) else ?xs ! i)"
    unfolding m [symmetric] using i by (simp add: filled_def)
  have l: "filled (at(place t := q)) (t # ts) p xs ! i =
      (if (p, i) \<in> place ` set (t # ts) then with_lv ((at(place t := q)) (p, i)) (xs ! i) else xs ! i)"
    using i by (simp add: filled_def del: fun_upd_apply)
  show "filled (at(place t := q)) (t # ts) p xs ! i = filled at (ts @ mg_tasks q R) p ?xs ! i"
  proof (cases "place t = (p, i)")
    case True
    then show ?thesis unfolding l r using assms(2) i by (auto simp: place_def)
  next
    case False
    then have "?xs ! i = xs ! i" using i by (auto simp: place_def nth_list_update)
    then show ?thesis unfolding l r using False by auto
  qed
qed

lemma queue_done_step:
  assumes ok: "queue_ok K A h st (t # ts)" and t: "turned K A h t ts (parent_node t) st F R q st2"
    and root: "mh_root st2 = mh_root st"
    and slots: "\<And>n xs. mh_heap st (parent_node t) = Some n \<Longrightarrow> node_slots K n xs \<Longrightarrow>
      \<exists>n'. mh_heap st2 (parent_node t) = Some n' \<and>
         node_slots K n' (xs[parent_node_pos t := with_lv q (xs ! parent_node_pos t)]) \<and> go_has_ksuf K n' = go_has_ksuf K n"
    and d: "queue_done K A h st2 (ts @ mg_tasks q R) st' at"
  shows "queue_done K A h st (t # ts) st' (at(place t := q))"
proof -
  let ?V = "trie_view K h" and ?at = "at(place t := q)" and ?W = "news A (mh_next st) (mh_next st')"
  have s: "stepped K A (parent_node t) st F R q st2" and F: "F \<subseteq> task_own ?V t" and al: "fresh_alloc A h" using t by (simp_all add: turned_def)
  have le: "mh_next st \<le> mh_next st2" "mh_next st2 \<le> mh_next st'" using s d by (simp_all add: stepped_def queue_done_def)
  have np: "place t \<notin> place ` set ts" using ok by (simp add: queue_ok_def)
  note tb = task_became [OF t d] and q = turned_q [OF t]
  have at: "?at (place u) = at (place u)" if "u \<in> set ts" for u using np that by (metis fun_upd_other imageI)
  have b: "became K h u (mh_heap st') (?at (place u)) ?W" if "u \<in> set (t # ts)" for u
  proof (cases "u \<in> set ts")
    case True
    then have "became K h u (mh_heap st') (at (place u)) (news A (mh_next st2) (mh_next st'))" using d by (simp add: queue_done_def)
    then show ?thesis using news_mono [OF le(1) order_refl, of A "mh_next st'"] unfolding at [OF True] became_def by blast
  next
    case False
    then show ?thesis using that tb(1) by simp
  qed
  have dis: "own K (mh_heap st') (?at (place u)) \<inter> own K (mh_heap st') (?at (place w)) = {}"
    if uw: "u \<in> set (t # ts)" "w \<in> set (t # ts)" "place u \<noteq> place w" for u w
  proof -
    have both: "\<forall>u \<in> set ts. \<forall>w \<in> set ts. place u \<noteq> place w \<longrightarrow> own K (mh_heap st') (at (place u)) \<inter> own K (mh_heap st') (at (place w)) = {}"
      using d by (simp add: queue_done_def)
    have qt: "?at (place t) = q" by simp
    show ?thesis
    proof (cases "u \<in> set ts")
      case u: True
      show ?thesis
      proof (cases "w \<in> set ts")
        case True
        then show ?thesis using both u uw(3) unfolding at [OF u] at [OF True] by blast
      next
        case False
        then have "w = t" using uw(2) by simp
        then show ?thesis using tb(2) u by (simp only: at [OF u] qt Int_commute)
      qed
    next
      case False
      then have u: "u = t" using uw(1) by simp
      then have "w \<in> set ts" using uw(2,3) by auto
      then show ?thesis using tb(2) by (simp only: u at qt)
    qed
  qed
  have out: "p \<notin> F" "p \<noteq> q" "\<forall>u \<in> set (ts @ mg_tasks q R). p \<notin> task_own ?V u" "p \<notin> news A (mh_next st2) alloc_max"
    if p: "\<forall>u \<in> set (t # ts). p \<notin> task_own ?V u" "p \<notin> news A (mh_next st) alloc_max" for p
  proof -
    show "p \<notin> F" using p(1) F by auto
    show "p \<noteq> q" using p s F by (auto simp: stepped_def news_def)
    show "\<forall>u \<in> set (ts @ mg_tasks q R). p \<notin> task_own ?V u" using p(1) turned_below(3) [OF t] by auto
    show "p \<notin> news A (mh_next st2) alloc_max" using p(2) news_mono [OF le(1) order_refl] by blast
  qed
  have d4: "\<And>p n xs. \<forall>u \<in> set (ts @ mg_tasks q R). p \<notin> task_own ?V u \<Longrightarrow> p \<notin> news A (mh_next st2) alloc_max \<Longrightarrow>
        mh_heap st2 p = Some n \<Longrightarrow> node_slots K n xs \<Longrightarrow>
        \<exists>n'. mh_heap st' p = Some n' \<and> node_slots K n' (filled at (ts @ mg_tasks q R) p xs) \<and> go_has_ksuf K n' = go_has_ksuf K n"
    and d5: "\<And>p. \<forall>u \<in> set (ts @ mg_tasks q R). p \<notin> task_own ?V u \<Longrightarrow> p \<notin> news A (mh_next st2) alloc_max \<Longrightarrow>
        p \<notin> parent_node ` set (ts @ mg_tasks q R) \<Longrightarrow> mh_heap st' p = mh_heap st2 p"
    using d unfolding queue_done_def by blast+
  have pl: "parent_node_pos t < length xs" if "mh_heap st (parent_node t) = Some n" "node_slots K n xs" for n xs
    using ok that slots_unique by (auto simp: queue_ok_def waits_def)
  have sl: "\<exists>n'. mh_heap st' p = Some n' \<and> node_slots K n' (filled ?at (t # ts) p xs) \<and> go_has_ksuf K n' = go_has_ksuf K n"
    if p: "\<forall>u \<in> set (t # ts). p \<notin> task_own ?V u" "p \<notin> news A (mh_next st) alloc_max" and n: "mh_heap st p = Some n" "node_slots K n xs" for p n xs
  proof -
    note o = out [OF p]
    let ?xs = "if p = parent_node t then xs[parent_node_pos t := with_lv q (xs ! parent_node_pos t)] else xs"
    have "\<exists>n1. mh_heap st2 p = Some n1 \<and> node_slots K n1 ?xs \<and> go_has_ksuf K n1 = go_has_ksuf K n"
    proof (cases "p = parent_node t")
      case True
      then show ?thesis using slots [of n xs] n by simp
    next
      case False
      then show ?thesis using s o(1,2) n by (simp add: stepped_def)
    qed
    then obtain n1 where n1: "mh_heap st2 p = Some n1" "node_slots K n1 ?xs" "go_has_ksuf K n1 = go_has_ksuf K n" by blast
    have e: "filled ?at (t # ts) p xs = filled at (ts @ mg_tasks q R) p ?xs"
      by (rule filled_step [OF o(2) np]) (use pl n in blast)
    show ?thesis unfolding e using d4 [OF o(3,4) n1(1,2)] n1(3) by simp
  qed
  have same: "mh_heap st' p = mh_heap st p"
    if p: "\<forall>u \<in> set (t # ts). p \<notin> task_own ?V u" "p \<notin> news A (mh_next st) alloc_max" "p \<notin> parent_node ` set (t # ts)" for p
  proof -
    note o = out [OF p(1,2)]
    have "mh_heap st' p = mh_heap st2 p" by (rule d5 [OF o(3,4)]) (use p(3) o(2) turned_below(4) [OF t] in auto)
    also have "\<dots> = mh_heap st p" using s o(1,2) p(3) by (simp add: stepped_def)
    finally show ?thesis .
  qed
  show ?thesis
    unfolding queue_done_def
  proof (intro conjI)
    show "mh_next st \<le> mh_next st'" using le by simp
    show "mh_root st' = mh_root st" using d root by (simp add: queue_done_def)
  qed (use b dis sl same in \<open>blast+\<close>)
qed

text \<open>All that waits gets done.\<close>

lemma merge_run_step:
  "cur < length (mh_task st) \<Longrightarrow> task_result K A (mh_task st ! cur) st = Goes_On st2 \<Longrightarrow> merge_run K A cur st = merge_run K A (cur + 1) st2"
  by (subst merge_run.simps) (simp add: task_result_def Let_def)

lemma merge_queue:
  assumes "fresh_alloc A h" "queue_ok K A h st (drop cur (mh_task st))"
  shows "\<exists>st' at. merge_run K A cur st = Some (Goes_On st') \<and> queue_done K A h st (drop cur (mh_task st)) st' at"
  using assms
proof (induction "sum_list (map (task_wt (trie_view K h)) (drop cur (mh_task st)))" arbitrary: cur st rule: less_induct)
  case less
  note al = less.prems(1) and ok = less.prems(2)
  show ?case
  proof (cases "drop cur (mh_task st)")
    case Nil
    then have "merge_run K A cur st = Some (Goes_On st)" by (subst merge_run.simps) simp
    moreover have "queue_done K A h st [] st at" for at
      by (auto simp: queue_done_def filled_def map_nth)
    ultimately show ?thesis unfolding Nil by blast
  next
    case (Cons t ts)
    then have cur: "cur < length (mh_task st)" "mh_task st ! cur = t" "drop (cur + 1) (mh_task st) = ts"
      by (metis drop_all not_le list.distinct(1), metis nth_via_drop, metis drop_Suc tl_drop list.sel(3) Suc_eq_plus1)
    note ok' = ok [unfolded Cons]
    have w: "waits K A h st (t # ts) t" and okts: "queue_ok K A h st ts" using ok' by (auto simp: queue_ok_def waits_def)
    obtain R F q st1 where d: "done_as K A (trie_view K h) t st R F q st1"
      using task_done [of h t st A] w by (auto simp: waits_def)
    obtain st2 where s: "set_parent K t q st1 = Goes_On st2" "turned K A h t ts (parent_node t) st F R q st2" "mh_root st2 = mh_root st"
        "\<And>n xs. mh_heap st (parent_node t) = Some n \<Longrightarrow> node_slots K n xs \<Longrightarrow>
          \<exists>n'. mh_heap st2 (parent_node t) = Some n' \<and>
           node_slots K n' (xs[parent_node_pos t := with_lv q (xs ! parent_node_pos t)]) \<and> go_has_ksuf K n' = go_has_ksuf K n"
      using task_stepped [OF ok' al d] by blast
    have tk: "mh_task st2 = mh_task st @ mg_tasks q R" using s(2) by (simp add: turned_def stepped_def)
    have dr: "drop (cur + 1) (mh_task st2) = ts @ mg_tasks q R" using cur(1,3) by (simp add: tk)
    have ok2: "queue_ok K A h st2 (drop (cur + 1) (mh_task st2))"
      unfolding dr
    proof (rule turned_queue [OF s(2) okts])
      show "task_wt (trie_view K h) t < 2 ^ 31" using w by (simp add: waits_def)
      show "mh_next st + 2 * sum_list (map (task_wt (trie_view K h)) (t # ts)) \<le> alloc_max" using ok' by (simp add: queue_ok_def)
      show "parent_node t \<notin> task_own (trie_view K h) u" if "u \<in> set ts" for u using w that by (simp add: waits_def)
      show "\<exists>n' xs'. mh_heap st2 (parent_node t) = Some n' \<and> node_slots K n' xs' \<and> length xs' = length xs"
        if "mh_heap st (parent_node t) = Some n" "node_slots K n xs" for n xs
        using s(4) [OF that] by (metis length_list_update)
    qed
    have "sum_list (map (mg_wt (trie_view K h)) R) < task_wt (trie_view K h) t" using d by (simp add: done_as_def turns_into_def)
    then have "sum_list (map (task_wt (trie_view K h)) (drop (cur + 1) (mh_task st2))) < sum_list (map (task_wt (trie_view K h)) (drop cur (mh_task st)))"
      unfolding dr Cons by (simp add: mg_tasks_wt)
    from less.hyps [OF this al ok2] obtain st' at where r: "merge_run K A (cur + 1) st2 = Some (Goes_On st')"
      "queue_done K A h st2 (ts @ mg_tasks q R) st' at" unfolding dr by blast
    have "merge_run K A cur st = Some (Goes_On st')"
      using merge_run_step [OF cur(1), of A st2] d s(1) r(1) by (simp add: cur(2) done_as_def)
    then show ?thesis unfolding Cons using queue_done_step [OF ok' s(2,3,4) r(2)] by blast
  qed
qed

end

end
