(* ===== verification/Merge_Whole.thy ===== *)
theory Merge_Whole
  imports Merge_Queue
begin

text \<open>
  The merge as a whole, for both kinds of node: two tries that share neither nodes nor strings become
  one trie that stores what they stored, and the search in it finds what a search in either found.
\<close>

section \<open>The first task\<close>

context merge_maker
begin

lemma st_merge_spec:
  assumes m: "mtrie K h p" and n: "mtrie K h r" and apart: "own K h p \<inter> own K h r = {}"
    and once: "\<forall>s v w. \<not> (stored (go_ops K) h p s v \<and> stored (go_ops K) h r s w)"
    and wt: "trie_wt K h p + trie_wt K h r < 2 ^ 31" and al: "fresh_alloc A h"
  shows "\<exists>st'. st_merge K A h p r = Some (Goes_On st') \<and> mtrie K (mh_heap st') (mh_root st') \<and>
     (\<forall>s v. stored (go_ops K) (mh_heap st') (mh_root st') s v \<longleftrightarrow> stored (go_ops K) h p s v \<or> stored (go_ops K) h r s v) \<and>
     own K (mh_heap st') (mh_root st') \<subseteq> own K h p \<union> own K h r \<union> news A 0 alloc_max \<and>
     (\<forall>a. a \<notin> own K h p \<longrightarrow> a \<notin> own K h r \<longrightarrow> a \<notin> news A 0 alloc_max \<longrightarrow> mh_heap st' a = h a)"
proof -
  let ?V = "trie_view K h"
  define t where "t = new_task\<lparr>task := 0, parent_node := 0, task_m := p, task_n := r\<rparr>"
  define st where "st = \<lparr>mh_heap = h, mh_root = r, mh_task = [t], mh_next = 0\<rparr>"
  have tt: "task t = 0" "parent_node t = 0" "task_m t = p" "task_n t = r" by (simp_all add: t_def)
  have fit: "task_fit ?V t" using m n apart once by (auto simp: task_fit_def tt)
  have tw: "task_wt ?V t < 2 ^ 31" using wt by (simp add: task_wt_def tt)
  have to: "task_own ?V t = own K h p \<union> own K h r" by (simp add: task_own_def tt)
  have th: "task_has ?V t s v \<longleftrightarrow> stored (go_ops K) h p s v \<or> stored (go_ops K) h r s v" for s v
    by (simp add: task_has_def tt)
  have same: "\<forall>a \<in> task_own ?V t. mh_heap st a = h a" by (simp add: st_def)
  obtain R F q st1 where d: "done_as K A ?V t st R F q st1" using task_done [OF fit tw _ same] tt(1) by blast
  define st2 where "st2 = st1\<lparr>mh_root := q\<rparr>"
  have set: "set_parent K t q st1 = Goes_On st2" by (simp add: set_parent_def tt st2_def)
  have made: "made_at K A F True R st q st1" and turns: "turns_into ?V t R" and F: "F \<subseteq> task_own ?V t"
    and own: "\<forall>x \<in> set R. mg_own ?V x \<subseteq> task_own ?V t - F" using d by (auto simp: done_as_def)
  have nz: "0 \<notin> task_own ?V t" unfolding to using mtrie_nonzero [OF m] mtrie_nonzero [OF n] by auto
  have "sum_list (map (mg_wt ?V) R) < task_wt ?V t" using turns by (simp add: turns_into_def)
  have room: "mh_next st + 2 * sum_list (map (task_wt ?V) [t]) \<le> alloc_max" using tw by (simp add: st_def alloc_max_def)
  have "mh_next st1 \<le> 2" using made by (simp add: made_at_def st_def)
  then have max: "mh_next st1 \<le> alloc_max" by (simp add: alloc_max_def)
  have "stepped K A 0 st F R q st2"
    using made F nz al newsI [OF _ _ max, of "mh_next st" _ A] unfolding stepped_def made_at_def
    by (auto simp: st2_def st_def fresh_alloc_def alloc_max_def)
  then have turned: "turned K A h t [] 0 st F R q st2"
    unfolding turned_def using turns fit F own same nz al by simp
  have ok: "queue_ok K A h st2 ([] @ mg_tasks q R)"
    by (rule turned_queue [OF turned _ tw room]) (simp_all add: queue_ok_def st_def)
  have tk: "drop 1 (mh_task st2) = [] @ mg_tasks q R" using turned by (simp add: turned_def stepped_def st_def)
  obtain st' at where r: "merge_run K A 1 st2 = Some (Goes_On st')" "queue_done K A h st2 ([] @ mg_tasks q R) st' at"
    using merge_queue [OF al ok [folded tk]] unfolding tk by blast
  have run: "st_merge K A h p r = Some (Goes_On st')"
  proof -
    have "merge_run K A 0 st = merge_run K A (0 + 1) st2"
      by (rule merge_run_step) (use d set in \<open>simp_all add: st_def done_as_def\<close>)
    then show ?thesis using r(1) by (simp add: st_merge_def t_def st_def)
  qed
  have root: "mh_root st' = q" using r(2) by (simp add: queue_done_def st2_def)
  note b = task_became(1) [OF turned r(2), unfolded became_def]
  have out: "mh_heap st' a = h a" if a: "a \<notin> own K h p" "a \<notin> own K h r" "a \<notin> news A 0 alloc_max" for a
  proof -
    have ta: "a \<notin> task_own ?V t" using a to by simp
    have cap: "news A i j \<subseteq> news A 0 alloc_max" for i j by (auto simp: news_def)
    have q: "a \<noteq> q" "a \<notin> F" using turned_q(2) [OF turned] ta a(3) F cap by blast+
    have new: "a \<notin> news A (mh_next st2) alloc_max" using a(3) cap by blast
    have "a \<notin> task_own ?V u" if "u \<in> set ([] @ mg_tasks q R)" for u using turned_below(3) [OF turned, of u] that ta by auto
    moreover have "a \<notin> parent_node ` set ([] @ mg_tasks q R)" using turned_below(4) [OF turned] q(1) by auto
    ultimately have "mh_heap st' a = mh_heap st2 a" using r(2) new unfolding queue_done_def by blast
    moreover have "mh_heap st1 a = (if a = q then mh_heap st1 q else if a \<in> F then None else mh_heap st a)"
      using made by (auto simp: made_at_def)
    ultimately show ?thesis using q by (simp add: st2_def st_def)
  qed
  have "own K (mh_heap st') q \<subseteq> own K h p \<union> own K h r \<union> news A 0 alloc_max"
    using b unfolding to news_def by auto
  then show ?thesis using b th out by (intro exI [of _ st'] conjI allI impI run) (simp_all add: root)
qed

text \<open>A trie of slots is a trie of the static stage.\<close>

lemma slots_layers:
  assumes "node_slots K n xs"
  shows "op_layers (go_ops K) n = map slot_lv (filter (\<lambda>r. keylenx_is_layer (slot_kl r)) xs)"
proof -
  have "filter (\<lambda>r. keylenx_is_layer (slot_kl r)) xs = map ((!) xs) (filter (\<lambda>i. keylenx_is_layer (slot_kl (xs ! i))) [0..<length xs])"
    by (metis (no_types, lifting) filter_map comp_def map_nth filter_cong)
  moreover have "filter (\<lambda>i. keylenx_is_layer (op_ikeylen (go_ops K) n i)) [0..<length xs] =
      filter (\<lambda>i. keylenx_is_layer (slot_kl (xs ! i))) [0..<length xs]"
    by (rule filter_cong [OF refl]) (simp add: slots_read [OF assms])
  ultimately show ?thesis
    unfolding op_layers_def slots_nkeys [OF assms] by (simp add: slots_read [OF assms])
qed

lemma good_slots_ok:
  assumes n: "node_slots K n xs" and good: "good_slots xs"
  shows "node_ok n"
proof (rule ok_slots [OF n])
  have rank: "kl_ok (slot_kl r) \<and> kl_rank (slot_kl r) = unat (keylenx_ikeylen (slot_kl r))" if "r \<in> set xs" for r
  proof -
    have "good_slot r" using good that by (simp add: good_slots_def)
    then show ?thesis
    proof (cases rule: good_slot_cases)
      case layer
      then show ?thesis by (simp add: kl_ok_def kl_rank_def)
    next
      case (plain s)
      note f = plain_slot_facts [OF plain(2,3)]
      have "unat (slot_kl r) \<le> unat (9 :: byte)" using f(6) by simp
      then show ?thesis using f(1,3) by (simp add: kl_ok_def kl_rank_def word_le_nat_alt)
    qed
  qed
  then show "\<forall>i < length xs. kl_ok (op_ikeylen (go_ops K) n i)" by (simp add: slots_read [OF n])
  show "node_sorted (go_ops K) n"
    unfolding node_sorted_def slots_nkeys [OF n]
  proof (intro allI impI)
    fix i j assume ij: "i < j" "j < length xs"
    have "slot_before (xs ! i) (xs ! j)"
      using good sorted_wrt_nth_less [OF _ ij(1,2)] by (auto simp: good_slots_def)
    then show "op_ikey (go_ops K) n i < op_ikey (go_ops K) n j \<or>
        op_ikey (go_ops K) n i = op_ikey (go_ops K) n j \<and>
          kl_rank (op_ikeylen (go_ops K) n i) < kl_rank (op_ikeylen (go_ops K) n j)"
      using ij rank [of "xs ! i"] rank [of "xs ! j"]
      by (simp add: slot_before_def slots_read [OF n] word_less_nat_alt)
  qed
qed

lemma distinct_concat_wrt: "sorted_wrt (\<lambda>A B. set A \<inter> set B = {}) Fs \<Longrightarrow> \<forall>A \<in> set Fs. distinct A \<Longrightarrow> distinct (concat Fs)"
  by (induction Fs) auto

lemma mtrie_static: "mtrie K h p \<Longrightarrow> \<exists>A. static_trie (go_ops K) node_ok h p A \<and> set A = own K h p"
proof (induction rule: mtrie.induct)
  case (mtrie_node p n xs)
  note hyp = mtrie_node.hyps
  define L where "L = filter (\<lambda>r. keylenx_is_layer (slot_kl r)) xs"
  have "\<forall>r \<in> set L. \<exists>A. static_trie (go_ops K) node_ok h (slot_lv r) A \<and> set A = own K h (slot_lv r)"
    using mtrie_node.IH by (simp add: L_def)
  then obtain G where G: "\<forall>r \<in> set L. static_trie (go_ops K) node_ok h (slot_lv r) (G r) \<and> set (G r) = own K h (slot_lv r)"
    by metis
  have lo: "layers_own K h r = set (G r)" if "r \<in> set L" for r using G that by (simp add: layers_own_def L_def)
  have dist: "distinct (concat (map G L))"
  proof (rule distinct_concat_wrt)
    have "sorted_wrt (\<lambda>r q. layers_own K h r \<inter> layers_own K h q = {}) L" unfolding L_def by (rule sorted_wrt_filter [OF hyp(7)])
    then show "sorted_wrt (\<lambda>A B. set A \<inter> set B = {}) (map G L)"
      unfolding sorted_wrt_map by (rule sorted_wrt_mono_rel [rotated]) (simp add: lo)
    have "distinct A" if "static_trie (go_ops K) node_ok h r A" for r A using that by (rule static_trieE) simp
    then show "\<forall>A \<in> set (map G L). distinct A" using G unfolding set_map by blast
  qed
  have un: "(\<Union>r \<in> set xs. layers_own K h r) = set (concat (map G L))"
  proof -
    have "(\<Union>r \<in> set xs. layers_own K h r) = (\<Union>r \<in> set L. layers_own K h r)" by (auto simp: L_def layers_own_def split: if_splits)
    also have "\<dots> = (\<Union>r \<in> set L. set (G r))" using lo by simp
    finally show ?thesis by simp
  qed
  have "p \<notin> set (concat (map G L))" unfolding un [symmetric] using hyp(8) by blast
  then have "static_trie (go_ops K) node_ok h p (p # concat (map G L))"
    using G dist by (intro static_trie.node [where h = h and ok = node_ok, OF hyp(1,2) good_slots_ok [OF hyp(3,6)]])
      (auto simp: slots_layers [OF hyp(3)] L_def [symmetric] list_all2_conv_all_nth)
  moreover have "set (p # concat (map G L)) = own K h p" unfolding own_unfold [where h = h, OF hyp(1,3)] un by simp
  ultimately show ?case by blast
qed

end

section \<open>The two merges\<close>

lemma stcursor_merge_spec:
  assumes "mtrie mn_merge_ops h p" "mtrie mn_merge_ops h r" "own mn_merge_ops h p \<inter> own mn_merge_ops h r = {}"
    and "\<forall>s v w. \<not> (stored mn_ops h p s v \<and> stored mn_ops h r s w)"
    and "trie_wt mn_merge_ops h p + trie_wt mn_merge_ops h r < 2 ^ 31" "fresh_alloc A h"
  shows "\<exists>st'. stcursor_merge A h p r = Some (Goes_On st') \<and> mtrie mn_merge_ops (mh_heap st') (mh_root st') \<and>
     (\<forall>s v. stored mn_ops (mh_heap st') (mh_root st') s v \<longleftrightarrow> stored mn_ops h p s v \<or> stored mn_ops h r s v) \<and>
     own mn_merge_ops (mh_heap st') (mh_root st') \<subseteq> own mn_merge_ops h p \<union> own mn_merge_ops h r \<union> news A 0 alloc_max \<and>
     (\<forall>a. a \<notin> own mn_merge_ops h p \<longrightarrow> a \<notin> own mn_merge_ops h r \<longrightarrow> a \<notin> news A 0 alloc_max \<longrightarrow> mh_heap st' a = h a)"
  using mnk.st_merge_spec [OF assms(1-3) _ assms(5,6)] assms(4) by (simp add: stcursor_merge_def)


text \<open>
  the merge touches no node besides those of the two tries and fresh blocks, and the merged trie
  consists of such nodes only.
\<close>

theorem stcursor_merge_frame:
  assumes "mtrie mn_merge_ops h p" "mtrie mn_merge_ops h r" "own mn_merge_ops h p \<inter> own mn_merge_ops h r = {}"
    and "\<forall>s v w. \<not> (stored mn_ops h p s v \<and> stored mn_ops h r s w)"
    and "trie_wt mn_merge_ops h p + trie_wt mn_merge_ops h r < 2 ^ 31" "fresh_alloc A h"
  shows "\<exists>st'. stcursor_merge A h p r = Some (Goes_On st') \<and>
     own mn_merge_ops (mh_heap st') (mh_root st') \<subseteq> own mn_merge_ops h p \<union> own mn_merge_ops h r \<union> news A 0 alloc_max \<and>
     (\<forall>a. a \<notin> own mn_merge_ops h p \<longrightarrow> a \<notin> own mn_merge_ops h r \<longrightarrow> a \<notin> news A 0 alloc_max \<longrightarrow> mh_heap st' a = h a)"
  using stcursor_merge_spec [OF assms] by blast



section \<open>Two concrete tries\<close>

text \<open>
  The new trie holds \<open>a\<close> and, in a layer below eight bytes \<open>c\<close>, the rest \<open>x\<close>; the old one \<open>b\<close> and
  the string of eight \<open>c\<close> and \<open>y\<close>.
\<close>

definition eight_c :: "byte list" where
  "eight_c = [99, 99, 99, 99, 99, 99, 99, 99]"

definition new_slots :: "node_slot list" where
  "new_slots = [(1, slice_of [97], 5, []), (137, slice_of eight_c, 3, [])]"

definition layer_slots :: "node_slot list" where
  "layer_slots = [(1, slice_of [120], 6, [])]"

definition old_slots :: "node_slot list" where
  "old_slots = [(1, slice_of [98], 7, []), (9, slice_of eight_c, 8, [121])]"

definition two_tries :: "(node_slot list \<Rightarrow> 'n) \<Rightarrow> 'n node_heap" where
  "two_tries mkn = [1 \<mapsto> mkn new_slots, 2 \<mapsto> mkn old_slots, 3 \<mapsto> mkn layer_slots]"

definition sample_alloc :: merge_alloc where
  "sample_alloc = \<lparr>al_stay = (\<lambda>k. False), al_addr = (\<lambda>k. 64 + of_nat k), al_raw = (\<lambda>k i. 0)\<rparr>"

lemma string_slot: "fit_string s \<Longrightarrow> (kl, ik, suf) = next_item s \<Longrightarrow> good_slot (kl, ik, v, suf)"
  using next_item_kl [of s kl ik suf] by (auto simp: good_slot_def)

lemma sample_good: "good_slots new_slots" "good_slots layer_slots" "good_slots old_slots"
proof -
  have b: "good_slot (1, slice_of [x], v, [])" for x v
    by (rule string_slot [of "[x]"]) (simp_all add: fit_string_def next_item_def convert_to_ikeylen_def)
  have c: "good_slot (9, slice_of eight_c, v, [y])" if "y \<noteq> 0" for v y
    by (rule string_slot [of "eight_c @ [y]"]) (use that in \<open>simp_all add: fit_string_def next_item_def convert_to_ikeylen_def eight_c_def slice_of_eq_iff pad8_def\<close>)
  have l: "good_slot (137, slice_of eight_c, v, [])" for v
    by (simp add: good_slot_def keylenx_is_layer_def keylenx_ikeylen_def)
  show "good_slots new_slots" "good_slots layer_slots" "good_slots old_slots"
    using b c l by (simp_all add: good_slots_def new_slots_def layer_slots_def old_slots_def slot_before_def slice_of_less_iff pad8_def eight_c_def)
qed

lemma packed_slots: "length (sufs xs) < 2 ^ 31 \<Longrightarrow> slots_at True (packed h xs []) (startpos h (length xs)) xs"
proof -
  have r: "region (as @ bs @ cs) a bs" if "a = length as" for as bs cs a using that by (simp add: region_def peek_def)
  let ?a = "replicate h (0 :: byte)" and ?b = "map slot_kl xs" and ?c = "u64s (map slot_ikey xs)" and ?d = "u64s (map slot_lv xs)"
    and ?e = "u32s (offs xs)" and ?f = "sufs xs"
  have p: "packed h xs [] = ?a @ ?b @ ?c @ ?d @ ?e @ ?f"
    by (simp add: packed_def u64s_def u32s_def offs_def sufs_def comp_def del: upt_Suc)
  show ?thesis
    unfolding slots_at_def arrays_at_def p
    using r [of h ?a ?b "?c @ ?d @ ?e @ ?f"] r [of "h + 1 * length xs" "?a @ ?b" ?c "?d @ ?e @ ?f"]
      r [of "h + 1 * length xs + 8 * length xs" "?a @ ?b @ ?c" ?d "?e @ ?f"]
      r [of "h + 1 * length xs + 8 * length xs + 8 * length xs" "?a @ ?b @ ?c @ ?d" ?e ?f]
      r [of "h + 1 * length xs + 8 * length xs + 8 * length xs + 4 * (length xs + 1)" "?a @ ?b @ ?c @ ?d @ ?e" ?f "[]"]
    by simp
qed

lemma packed_nodes:
  assumes "length (sufs xs) < 2 ^ 31"
  shows "node_slots mn_merge_ops (mn_of xs) xs" "node_slots md_merge_ops (md_of xs) xs"
  using packed_slots [OF assms, of 16] packed_slots [OF assms, of 12] assms length_packed [of 16 xs "[]"] length_packed [of 12 xs "[]"]
  by (simp_all add: node_slots_def mn_of_def md_of_def sizeof_massnode_def sizeof_massnode_dynamicvalue_def sufs_def suf_offset_def)

context merge_maker
begin

lemma sample_tries:
  fixes mkn :: "node_slot list \<Rightarrow> 'n"
  assumes mk: "\<And>xs. length (sufs xs) < 2 ^ 31 \<Longrightarrow> node_slots K (mkn xs) xs" "\<And>xs. go_has_ksuf K (mkn xs)" and sz: "go_sizeof K \<le> 16"
  shows "mtrie K (two_tries mkn) 1" "mtrie K (two_tries mkn) 2" "own K (two_tries mkn) 1 = {1, 3}" "own K (two_tries mkn) 2 = {2}"
    and "trie_wt K (two_tries mkn) 1 + trie_wt K (two_tries mkn) 2 < 2 ^ 31"
    and "stored (go_ops K) (two_tries mkn) 1 s v \<longleftrightarrow> s = [97] \<and> v = 5 \<or> s = eight_c @ [120] \<and> v = 6"
    and "stored (go_ops K) (two_tries mkn) 2 s v \<longleftrightarrow> s = [98] \<and> v = 7 \<or> s = eight_c @ [121] \<and> v = 8"
proof -
  let ?h = "two_tries mkn"
  have h: "?h 1 = Some (mkn new_slots)" "?h 2 = Some (mkn old_slots)" "?h 3 = Some (mkn layer_slots)" by (simp_all add: two_tries_def)
  have l: "length (sufs new_slots) = 0" "length (sufs old_slots) = 1" "length (sufs layer_slots) = 0"
    by (simp_all add: sufs_def new_slots_def old_slots_def layer_slots_def)
  have ns: "node_slots K (mkn new_slots) new_slots" "node_slots K (mkn old_slots) old_slots" "node_slots K (mkn layer_slots) layer_slots"
    by (rule mk(1), simp add: l)+
  note own = own_unfold [where h = ?h, OF h(1) ns(1)] own_unfold [where h = ?h, OF h(2) ns(2)] own_unfold [where h = ?h, OF h(3) ns(3)]
  have lay: "keylenx_is_layer 137" "\<not> keylenx_is_layer 1" "\<not> keylenx_is_layer 9" by (simp_all add: keylenx_is_layer_def)
  have o3: "own K ?h 3 = {3}" using own(3) by (simp add: layer_slots_def layers_own_def lay)
  show o1: "own K ?h 1 = {1, 3}" using own(1) o3 by (simp add: new_slots_def layers_own_def lay)
  show o2: "own K ?h 2 = {2}" using own(2) by (simp add: old_slots_def layers_own_def lay)
  note I = mtrie.mtrie_node [where h = ?h and K = K]
  have t3: "mtrie K ?h 3"
    by (rule I [OF h(3) _ ns(3) mk(2) _ sample_good(2)]) (simp_all add: layer_slots_def layers_own_def lay)
  show t1: "mtrie K ?h 1"
    by (rule I [OF h(1) _ ns(1) mk(2) _ sample_good(1)]) (use t3 o3 in \<open>simp_all add: new_slots_def layers_own_def lay\<close>)
  show t2: "mtrie K ?h 2"
    by (rule I [OF h(2) _ ns(2) mk(2) _ sample_good(3)]) (simp_all add: old_slots_def layers_own_def lay)
  have s: "go_size K (mkn xs) = go_sizeof K + 17 * length xs + (4 * (length xs + 1) + length (sufs xs))" if "length (sufs xs) < 2 ^ 31" for xs
    using mk(1) [OF that] mk(2) [of xs] by (simp add: node_slots_def)
  show "trie_wt K ?h 1 + trie_wt K ?h 2 < 2 ^ 31"
    using sz s [of new_slots] s [of old_slots] s [of layer_slots] l slots_nkeys [OF ns(1)] slots_nkeys [OF ns(2)] slots_nkeys [OF ns(3)]
    by (simp add: trie_wt_def o1 o2 h node_wt_def unit_wt_def) (simp add: new_slots_def old_slots_def layer_slots_def)
  note st = stored_rows [where h = ?h, OF h(1) ns(1) sample_good(1)] stored_rows [where h = ?h, OF h(2) ns(2) sample_good(3)]
    stored_rows [where h = ?h, OF h(3) ns(3) sample_good(2)]
  have one: "(1, slice_of [x], []) = next_item s \<longleftrightarrow> s = [x]" for x s
    using next_item_iff [of "[x]" s] by (auto simp: next_item_def convert_to_ikeylen_def)
  have ct: "slice_of (eight_c @ [y]) = slice_of eight_c" "length (eight_c @ [y]) = 9" "drop 8 (eight_c @ [y]) = [y]" for y
    by (simp_all add: slice_of_eq_iff pad8_def eight_c_def)
  have nine: "(9, slice_of eight_c, [y]) = next_item s \<longleftrightarrow> s = eight_c @ [y]" for y s
    using next_item_iff [of "eight_c @ [y]" s] ct [of y] by (auto simp: next_item_def convert_to_ikeylen_def)
  have st3: "stored (go_ops K) ?h 3 s v \<longleftrightarrow> s = [120] \<and> v = 6" for s v
    unfolding st(3) by (simp add: layer_slots_def row_has_def lay one)
  have long: "slice_of eight_c = slice_of s \<and> 8 < length s \<and> drop 8 s = [x] \<longleftrightarrow> s = eight_c @ [x]" for s x
  proof
    assume a: "slice_of eight_c = slice_of s \<and> 8 < length s \<and> drop 8 s = [x]"
    have "next_item (eight_c @ [x]) = next_item s \<longleftrightarrow> next_item (drop 8 (eight_c @ [x])) = next_item (drop 8 s)"
      by (rule long_item) (use a ct [of x] in simp_all)
    then show "s = eight_c @ [x]" using a ct [of x] by (simp add: next_item_iff)
  qed (use ct [of x] in simp)
  show "stored (go_ops K) ?h 1 s v \<longleftrightarrow> s = [97] \<and> v = 5 \<or> s = eight_c @ [120] \<and> v = 6"
    unfolding st(1) using long [of s 120] by (auto simp: new_slots_def row_has_def lay one st3)
  show "stored (go_ops K) ?h 2 s v \<longleftrightarrow> s = [98] \<and> v = 7 \<or> s = eight_c @ [121] \<and> v = 8"
    unfolding st(2) by (auto simp: old_slots_def row_has_def lay one nine)
qed

end

lemma sample_fresh: "fresh_alloc sample_alloc (two_tries mkn)"
proof -
  have u: "unat (64 + of_nat k :: u64) = 64 + k" if "k < alloc_max" for k
  proof -
    have "(64 + of_nat k :: u64) = of_nat (64 + k)" by simp
    then show ?thesis using that unfolding alloc_max_def
      by (simp only: unsigned_of_nat) (simp add: take_bit_nat_eq_self)
  qed
  have "inj_on (\<lambda>k. 64 + of_nat k :: u64) {..<alloc_max}"
    by (rule inj_onI) (metis u lessThan_iff add_left_cancel)
  moreover have "(64 + of_nat k :: u64) \<notin> {0, 1, 2, 3}" if "k < alloc_max" for k
  proof
    assume "(64 + of_nat k :: u64) \<in> {0, 1, 2, 3}"
    then have "unat (64 + of_nat k :: u64) \<in> unat ` {0, 1, 2, 3 :: u64}" by (rule imageI)
    then show False unfolding u [OF that] by simp
  qed
  ultimately show ?thesis by (simp add: fresh_alloc_def sample_alloc_def two_tries_def)
qed

lemma mn_of_has: "go_has_ksuf mn_merge_ops (mn_of xs)"
  by (simp add: mn_merge_ops_def mn_of_def)

lemma md_of_has: "go_has_ksuf md_merge_ops (md_of xs)"
  by (simp add: md_merge_ops_def)

lemma merge_sizeof: "go_sizeof mn_merge_ops \<le> 16" "go_sizeof md_merge_ops \<le> 16"
  by (simp_all add: sizeof_massnode_def sizeof_massnode_dynamicvalue_def)

lemma mn_sample:
  "mtrie mn_merge_ops (two_tries mn_of) 1" "mtrie mn_merge_ops (two_tries mn_of) 2"
  "own mn_merge_ops (two_tries mn_of) 1 = {1, 3}" "own mn_merge_ops (two_tries mn_of) 2 = {2}"
  "trie_wt mn_merge_ops (two_tries mn_of) 1 + trie_wt mn_merge_ops (two_tries mn_of) 2 < 2 ^ 31"
  "stored mn_ops (two_tries mn_of) 1 s v \<longleftrightarrow> s = [97] \<and> v = 5 \<or> s = eight_c @ [120] \<and> v = 6"
  "stored mn_ops (two_tries mn_of) 2 s v \<longleftrightarrow> s = [98] \<and> v = 7 \<or> s = eight_c @ [121] \<and> v = 8"
  by (rule mnk.sample_tries [OF _ mn_of_has merge_sizeof(1), unfolded mn_merge_simps(1)], rule packed_nodes(1), assumption)+

lemma md_sample:
  "mtrie md_merge_ops (two_tries md_of) 1" "mtrie md_merge_ops (two_tries md_of) 2"
  "own md_merge_ops (two_tries md_of) 1 = {1, 3}" "own md_merge_ops (two_tries md_of) 2 = {2}"
  "trie_wt md_merge_ops (two_tries md_of) 1 + trie_wt md_merge_ops (two_tries md_of) 2 < 2 ^ 31"
  "stored md_ops (two_tries md_of) 1 s v \<longleftrightarrow> s = [97] \<and> v = 5 \<or> s = eight_c @ [120] \<and> v = 6"
  "stored md_ops (two_tries md_of) 2 s v \<longleftrightarrow> s = [98] \<and> v = 7 \<or> s = eight_c @ [121] \<and> v = 8"
  by (rule mdk.sample_tries [OF _ md_of_has merge_sizeof(2), unfolded md_merge_simps(1)], rule packed_nodes(2), assumption)+

lemma sample_apart:
  "own mn_merge_ops (two_tries mn_of) 1 \<inter> own mn_merge_ops (two_tries mn_of) 2 = {}"
  "\<forall>s v w. \<not> (stored mn_ops (two_tries mn_of) 1 s v \<and> stored mn_ops (two_tries mn_of) 2 s w)"
  "own md_merge_ops (two_tries md_of) 1 \<inter> own md_merge_ops (two_tries md_of) 2 = {}"
  "\<forall>s v w. \<not> (stored md_ops (two_tries md_of) 1 s v \<and> stored md_ops (two_tries md_of) 2 s w)"
  unfolding mn_sample(3,4,6,7) md_sample(3,4,6,7) by (auto simp: eight_c_def)


theorem stcursor_merge_frame_witness:
  "\<exists>st'. stcursor_merge sample_alloc (two_tries mn_of) 1 2 = Some (Goes_On st') \<and>
     own mn_merge_ops (mh_heap st') (mh_root st') \<subseteq> {1, 2, 3} \<union> news sample_alloc 0 alloc_max"
  using stcursor_merge_frame [OF mn_sample(1,2) sample_apart(1,2) mn_sample(5) sample_fresh]
  unfolding mn_sample(3,4,6,7) by (auto simp: eight_c_def)



end
