(* ===== verification/Built_Trie.thy ===== *)
theory Built_Trie
  imports Build_Nodes Merge_Whole
begin

text \<open>
  From the builder to the merge. A node that \<^verbatim>\<open>buildStatic\<close> wrote is packed the way the merge
  expects its nodes, and the trie it built is a trie the merge works on, provided that no layer is empty,
  no key is empty and no suffix has a zero byte (\<open>dt_mergeable\<close>). The locale \<open>mergeable_builder\<close> joins
  the contracts of a kind of node with the builder and with the merge.
\<close>

declare split_paired_All [simp del] split_paired_Ex [simp del]

section \<open>Nodes\<close>

lemma sorted_wrt_disjoint_filter:
  "\<forall>r. \<not> P r \<longrightarrow> F r = {} \<Longrightarrow> sorted_wrt (\<lambda>r q. F r \<inter> F q = {}) (filter P xs) \<Longrightarrow> sorted_wrt (\<lambda>r q. F r \<inter> F q = {}) xs"
  by (induction xs) (auto split: if_splits)

context merge_node
begin

lemma read_slots:
  assumes nk: "op_nkeys (go_ops K) n = length xs" and has: "go_has_ksuf K n" and sz: "go_size K n = length (go_mem K n)"
    and small: "length (sufs xs) < 2 ^ 31"
    and rd: "\<forall>i < length xs. op_ikeylen (go_ops K) n i = slot_kl (xs ! i) \<and> op_ikey (go_ops K) n i = slot_ikey (xs ! i) \<and>
      op_lv (go_ops K) n i = slot_lv (xs ! i)"
    and off: "\<forall>i \<le> length xs. rd32 (go_mem K n) (at_ksuf_offset (startpos (go_sizeof K) (length xs)) + 4 * i) = suf_offset xs i"
    and room: "at_ksuf (startpos (go_sizeof K) (length xs)) \<le> length (go_mem K n)"
    and area: "drop (at_ksuf (startpos (go_sizeof K) (length xs))) (go_mem K n) = sufs xs"
  shows "node_slots K n xs"
proof -
  let ?m = "go_mem K n" and ?h = "go_sizeof K" and ?k = "length xs"
  have len: "length ?m = ?h + 1 * ?k + 8 * ?k + 8 * ?k + (4 * (?k + 1) + length (sufs xs))"
    using arg_cong [OF area, of length] room by simp
  have r: "region ?m ?h (map slot_kl xs)" using rd len by (simp add: region_bytes ikeylen_at nk)
  have r8: "region ?m (?h + 1 * ?k) (u64s (map slot_ikey xs))" "region ?m (?h + 1 * ?k + 8 * ?k) (u64s (map slot_lv xs))"
    using rd len unfolding region_u64s by (simp_all add: ikey_at lv_at nk)
  have o: "region ?m (?h + 1 * ?k + 8 * ?k + 8 * ?k) (u32s (offs xs))"
    using off len by (subst region_u32s [OF offs_small [OF small]]) (simp add: offs_def del: upt_Suc)
  have s: "region ?m (?h + 1 * ?k + 8 * ?k + 8 * ?k + 4 * (?k + 1)) (sufs xs)"
    using area len by (simp add: region_def peek_def)
  show ?thesis
    using r r8 o s len small sz nk has by (simp add: node_slots_def slots_at_def arrays_at_def)
qed

end

context merge_maker
begin

text \<open>A trie of the static stage whose nodes are packed.\<close>

definition merge_ready :: "'n node_heap \<Rightarrow> u64 \<Rightarrow> bool" where
  "merge_ready h q \<longleftrightarrow> (\<exists>n xs. h q = Some n \<and> node_slots K n xs \<and> go_has_ksuf K n \<and> xs \<noteq> [] \<and> good_slots xs)"

lemma distinct_concat_sorted: "distinct (concat Fs) \<Longrightarrow> sorted_wrt (\<lambda>A B. set A \<inter> set B = {}) Fs"
  by (induction Fs) auto

lemma static_mtrie:
  "static_trie (go_ops K) ok h p A \<Longrightarrow> \<forall>q \<in> set A. merge_ready h q \<Longrightarrow> mtrie K h p \<and> own K h p = set A"
proof (induction rule: static_trie.induct)
  case (node p n Fs)
  obtain xs where xs: "node_slots K n xs" "go_has_ksuf K n" "xs \<noteq> []" "good_slots xs"
    using node.prems node.hyps(1) by (auto simp: merge_ready_def)
  let ?L = "filter (\<lambda>r. keylenx_is_layer (slot_kl r)) xs"
  have lay: "list_all2 (\<lambda>r F. mtrie K h (slot_lv r) \<and> own K h (slot_lv r) = set F) ?L Fs"
    using node.IH node.prems unfolding slots_layers [OF xs(1)] list_all2_map1
    by (fastforce simp: list_all2_conv_all_nth)
  have own: "layers_own K h (?L ! i) = set (Fs ! i)" "mtrie K h (slot_lv (?L ! i))" if "i < length ?L" for i
  proof -
    have "?L ! i \<in> set ?L" by (rule nth_mem [OF that])
    then show "layers_own K h (?L ! i) = set (Fs ! i)" "mtrie K h (slot_lv (?L ! i))"
      using list_all2_nthD [OF lay that] by (simp_all add: layers_own_def)
  qed
  have len: "length Fs = length ?L" using list_all2_lengthD [OF lay] by simp
  have down: "mtrie K h (slot_lv r)" if "r \<in> set xs" "keylenx_is_layer (slot_kl r)" for r
  proof -
    have "r \<in> set ?L" using that by simp
    then show ?thesis using own(2) by (metis in_set_conv_nth)
  qed
  have "sorted_wrt (\<lambda>A B. set A \<inter> set B = {}) Fs" using node.hyps(4) by (intro distinct_concat_sorted) simp
  then have "sorted_wrt (\<lambda>r q. layers_own K h r \<inter> layers_own K h q = {}) ?L"
    by (simp add: sorted_wrt_iff_nth_less len own(1))
  then have dis: "sorted_wrt (\<lambda>r q. layers_own K h r \<inter> layers_own K h q = {}) xs"
    by (rule sorted_wrt_disjoint_filter [rotated]) (simp add: layers_own_def)
  have un: "(\<Union>r \<in> set xs. layers_own K h r) = set (concat Fs)"
  proof -
    have "(\<Union>r \<in> set xs. layers_own K h r) = (\<Union>r \<in> set ?L. layers_own K h r)" by (auto simp: layers_own_def split: if_splits)
    also have "\<dots> = (\<Union>F \<in> set Fs. set F)"
      unfolding set_conv_nth [of ?L] set_conv_nth [of Fs] len using own(1) by auto
    finally show ?thesis by simp
  qed
  have "p \<notin> (\<Union>r \<in> set xs. layers_own K h r)" unfolding un using node.hyps(4) by simp
  then have out: "\<forall>r \<in> set xs. p \<notin> layers_own K h r" by blast
  have "mtrie K h p"
    by (rule mtrie.mtrie_node [where h = h, OF node.hyps(1,2) xs _ dis out]) (use down in blast)
  moreover have "own K h p = set (p # concat Fs)" unfolding own_unfold [where h = h, OF node.hyps(1) xs(1)] un by simp
  ultimately show ?case by blast
qed

end

section \<open>What the builder leaves\<close>

text \<open>The slots of a node that stands for \<open>rows\<close>, with the values it has.\<close>

definition own_lvs :: "('n \<Rightarrow> nat \<Rightarrow> u64) \<Rightarrow> 'n \<Rightarrow> node_slot list \<Rightarrow> node_slot list" where
  "own_lvs lv n rows = map (\<lambda>i. with_lv (lv n i) (rows ! i)) [0..<length rows]"

lemma own_lvs_simps [simp]: "length (own_lvs lv n rows) = length rows"
  "i < length rows \<Longrightarrow> own_lvs lv n rows ! i = with_lv (lv n i) (rows ! i)"
  by (simp_all add: own_lvs_def)

lemma own_lvs_sufs: "sufs (own_lvs lv n rows) = sufs rows" "suf_offset (own_lvs lv n rows) i = suf_offset rows i"
proof -
  have m: "map slot_suf (own_lvs lv n rows) = map slot_suf rows" by (rule nth_equalityI) simp_all
  show "sufs (own_lvs lv n rows) = sufs rows" using sufs_cong [OF m] by simp
  show "suf_offset (own_lvs lv n rows) i = suf_offset rows i" using m by (simp add: suf_offset_def take_map [symmetric])
qed

lemma good_slot_with_lv [simp]: "good_slot (with_lv x r) = good_slot r"
  by (simp add: good_slot_def slot_item_eq)

lemma good_slot_rank: "good_slot r \<Longrightarrow> kl_rank (slot_kl r) = unat (keylenx_ikeylen (slot_kl r))"
  by (erule good_slot_cases) (auto simp: kl_rank_def dest: plain_slot_facts)

lemma good_own_lvs:
  assumes "rows_ok rows" "\<forall>r \<in> set rows. good_slot r"
  shows "good_slots (own_lvs lv n rows)"
proof -
  have "slot_before (own_lvs lv n rows ! i) (own_lvs lv n rows ! j)" if "i < j" "j < length rows" for i j
  proof -
    have "slot_less (rows ! i) (rows ! j)" using assms(1) that by (auto simp: rows_ok_def sorted_wrt_iff_nth_less)
    then show ?thesis
      using that assms(2) good_slot_rank [of "rows ! i"] good_slot_rank [of "rows ! j"]
      by (auto simp: slot_less_def slot_before_def word_less_nat_alt)
  qed
  then have "sorted_wrt slot_before (own_lvs lv n rows)" by (simp add: sorted_wrt_iff_nth_less)
  moreover have "\<forall>r \<in> set (own_lvs lv n rows). good_slot r" using assms(2) by (auto simp: own_lvs_def)
  ultimately show ?thesis by (simp add: good_slots_def)
qed

text \<open>What a layer weighs when it has become a node.\<close>

definition rows_wt :: "'n merge_ops \<Rightarrow> node_slot list \<Rightarrow> nat" where
  "rows_wt K rows = go_sizeof K + 21 * length rows + 4 + length (sufs rows) + unit_wt K * length rows"

definition dt_mergeable :: "dtree \<Rightarrow> bool" where
  "dt_mergeable t \<longleftrightarrow> list_all (\<lambda>(k, d, u). dt_rows u \<noteq> [] \<and> list_all good_slot (dt_rows u)) (dt_walk 0 [t])"

definition dt_wt :: "'n merge_ops \<Rightarrow> dtree \<Rightarrow> nat" where
  "dt_wt K t = sum_list (map (\<lambda>(k, d, u). rows_wt K (dt_rows u)) (dt_walk 0 [t]))"

locale mergeable_builder = node_builder "go_ops K" node_ok fits B blk off area vroom reads + merge_maker K node_ok fits
  for K :: "'n merge_ops" and node_ok :: "'n \<Rightarrow> bool" and fits :: "'n \<Rightarrow> mkey \<Rightarrow> bool" and B :: "'n build_ops"
    and blk :: "'n \<Rightarrow> bool" and off :: "'n \<Rightarrow> nat \<Rightarrow> nat" and area :: "'n \<Rightarrow> byte list" and vroom :: "'n \<Rightarrow> nat"
    and reads :: "'n \<Rightarrow> nat \<Rightarrow> u64 \<Rightarrow> nat \<Rightarrow> bool" +
  assumes blk_at: "blk n \<Longrightarrow> go_has_ksuf K n \<and> at_ksuf (startpos (go_sizeof K) (op_nkeys (go_ops K) n)) \<le> length (go_mem K n)"
    and area_at: "blk n \<Longrightarrow> area n = drop (at_ksuf (startpos (go_sizeof K) (op_nkeys (go_ops K) n))) (go_mem K n)"
    and off_at: "blk n \<Longrightarrow> off n i = rd32 (go_mem K n) (at_ksuf_offset (startpos (go_sizeof K) (op_nkeys (go_ops K) n)) + 4 * i)"
    and size_keeps: "go_size K (op_set_ikeylen (go_ops K) n i kl) = go_size K n" "go_size K (bo_set_ikey B n i ik) = go_size K n"
      "go_size K (bo_set_ksuf_offset B n i z) = go_size K n" "go_size K (bo_put_ksuf B n cur s) = go_size K n"
      "go_size K (fst (bo_put_value B n i cur x)) = go_size K n"
    and size_make: "nk < 2 ^ 32 \<Longrightarrow> length (go_mem K (bo_make B raw ks vs nk)) < 2 ^ 32 \<Longrightarrow>
      go_size K (bo_make B raw ks vs nk) = length (go_mem K (bo_make B raw ks vs nk))"
begin

lemma fill_size: "go_size K (bs_fill B i rs massID ks vs n) = go_size K n"
proof (induction rs arbitrary: i massID ks vs n)
  case (Cons r rs)
  have keep: "(m, c) = (if L then (op_set_lv (go_ops K) n' i x, c') else bo_put_value B n' i c'' y) \<Longrightarrow> go_size K m = go_size K n'"
    for m n' c c' c'' L x y using set_lv_at [of n' i x] size_keeps(5) [of n' i c'' y] by (auto split: if_splits dest: sym)
  show ?case
    by (simp add: Let_def ops Cons.IH size_keeps split: prod.split) (metis keep ops size_keeps(1,2))
qed (simp add: size_keeps)


lemma link_size: "go_size K (bs_link (go_ops K) addr n) = go_size K n"
proof -
  have "go_size K (fold (\<lambda>j n. if keylenx_is_layer (op_ikeylen (go_ops K) n j)
      then op_set_lv (go_ops K) n j (addr (unat (op_lv (go_ops K) n j))) else n) js n) = go_size K n" for js
    by (induction js arbitrary: n) (simp_all add: set_lv_at)
  then show ?thesis by (simp add: bs_link_def)
qed

lemma built_slots:
  assumes rows: "rows_ok rows" "slots_fit rows" "length rows < 2 ^ 32" "bs_value_size B rows < 2 ^ 32"
    and wt: "rows_wt K rows < 2 ^ 31"
  shows "let n = bs_link (go_ops K) addr (bs_node B raw d rows) in
     node_slots K n (own_lvs (op_lv (go_ops K)) n rows) \<and> go_has_ksuf K n \<and> go_size K n + unit_wt K * length rows = rows_wt K rows"
proof -
  define n where "n = bs_link (go_ops K) addr (bs_node B raw d rows)"
  let ?ks = "sum_list (map (\<lambda>r. length (slot_suf r)) rows)" and ?vs = "bs_value_size B rows"
  let ?make = "bo_make B raw ?ks ?vs (length rows)"
  note nb = node_built [OF rows, of raw d]
  have b: "built n rows" unfolding n_def by (rule conjunct1 [OF link_ok [OF conjunct1 [OF nb] conjunct2 [OF nb]]])
  have n: "blk n" "op_nkeys (go_ops K) n = length rows" "area n = sufs rows"
    "\<forall>i \<le> length rows. off n i = suf_offset rows i"
    "\<forall>i < length rows. op_ikeylen (go_ops K) n i = slot_kl (rows ! i) \<and> op_ikey (go_ops K) n i = slot_ikey (rows ! i)"
    using b by (auto simp: built_def sufs_def)
  note mk = make [OF rows(3,4), of raw ?ks]
  have ks: "?ks = length (sufs rows)" by (simp add: sufs_def length_concat comp_def)
  have len: "length (go_mem K m) = go_sizeof K + 21 * length rows + 4 + length (area m)"
    if "blk m" "op_nkeys (go_ops K) m = length rows" for m
    using blk_at [OF that(1)] that(2) arg_cong [OF area_at [OF that(1)], of length] by simp
  have lm: "length (go_mem K ?make) = length (go_mem K n)" using len [of n] len [of ?make] mk n ks by simp
  have ln: "length (go_mem K n) = go_sizeof K + 21 * length rows + 4 + length (sufs rows)" using len [of n] n by simp
  have size: "go_size K n = length (go_mem K n)"
    using size_make [OF rows(3), of raw ?ks ?vs] lm ln wt by (simp add: n_def link_size bs_node_def fill_size rows_wt_def)
  have has: "go_has_ksuf K n" using blk_at [OF n(1)] by simp
  have "node_slots K n (own_lvs (op_lv (go_ops K)) n rows)"
    by (rule read_slots) (use n has size wt blk_at [OF n(1)] area_at [OF n(1)] off_at [OF n(1)] in \<open>simp_all add: own_lvs_sufs rows_wt_def\<close>)
  then show ?thesis using has size ln by (simp add: n_def [symmetric] rows_wt_def Let_def)
qed


lemma built_nodes:
  assumes ok: "dt_ok 0 (2 ^ 64) t" and fit: "dt_buildable B t" and good: "dt_mergeable t" and wt: "dt_wt K t < 2 ^ 31"
    and addr: "addrs_ok addr (dt_count t)"
    and hs: "hs = bs_heap addr (map (bs_link (go_ops K) addr) (bs_nodes B raw (dt_walk 0 [t])))" and k: "k < dt_count t"
  shows "\<exists>n xs. hs (addr k) = Some n \<and> node_slots K n xs \<and> go_has_ksuf K n \<and> xs \<noteq> [] \<and> good_slots xs \<and>
    node_wt K n = rows_wt K (dt_rows (snd (snd (dt_walk 0 [t] ! k))))"
proof -
  let ?ns = "map (bs_link (go_ops K) addr) (bs_nodes B raw (dt_walk 0 [t]))" and ?N = "dt_count t"
  obtain d u where w: "dt_walk 0 [t] ! k = (k, d, u)"
    using k arg_cong [OF dt_walk_places [of 0 "[t]"], of "\<lambda>xs. xs ! k"] unfolding dt_count_def
    by (cases "dt_walk 0 [t] ! k") (simp del: dt_walk.simps)
  have at: "(k, d, u) \<in> set (dt_walk 0 [t])" using k w nth_mem [of k "dt_walk 0 [t]"] by (simp add: dt_count_def del: dt_walk.simps)
  let ?n = "bs_link (go_ops K) addr (bs_node B (raw k) d (dt_rows u))"
  have len: "length ?ns = ?N" by (simp add: bs_nodes_def dt_count_def)
  have "?ns ! k = ?n" using k w by (simp add: bs_nodes_def dt_count_def del: dt_walk.simps)
  moreover have "map_of (zip (map addr [0..<?N]) ?ns) (map addr [0..<?N] ! k) = Some (?ns ! k)"
    using addr k len by (intro map_of_zip_nth) (simp_all add: addrs_ok_def)
  ultimately have look: "hs (addr k) = Some ?n" using k len by (simp add: hs bs_heap_def)
  have u: "dt_ok 0 (2 ^ 64) u" using dt_walk_ok [OF at] ok by simp
  have fits: "slots_fit (dt_rows u)" "length (dt_rows u) < 2 ^ 32" "bs_value_size B (dt_rows u) < 2 ^ 32"
    using fit at by (auto simp: dt_buildable_def list_all_iff layer_fits_def)
  have g: "dt_rows u \<noteq> []" "\<forall>r \<in> set (dt_rows u). good_slot r"
    using good at by (auto simp: dt_mergeable_def list_all_iff)
  have "rows_wt K (dt_rows u) \<in> set (map (\<lambda>(k, d, u). rows_wt K (dt_rows u)) (dt_walk 0 [t]))"
    using at by (force simp del: dt_walk.simps)
  then have "rows_wt K (dt_rows u) \<le> dt_wt K t" unfolding dt_wt_def by (rule member_le_sum_list) simp_all
  then have small: "rows_wt K (dt_rows u) < 2 ^ 31" using wt by simp
  note bs = built_slots [OF rows_ok_layer [OF u] fits small, of addr "raw k" d, unfolded Let_def]
  have nk: "op_nkeys (go_ops K) ?n = length (dt_rows u)" using slots_nkeys [OF conjunct1 [OF bs]] by simp
  have "own_lvs (op_lv (go_ops K)) ?n (dt_rows u) \<noteq> []" using g(1) by (metis length_0_conv own_lvs_simps(1))
  then show ?thesis
    using look bs good_own_lvs [OF rows_ok_layer [OF u] g(2), of "op_lv (go_ops K)" ?n] nk w
    by (intro exI [of _ ?n] exI [of _ "own_lvs (op_lv (go_ops K)) ?n (dt_rows u)"]) (simp add: node_wt_def del: dt_walk.simps)
qed

lemma build_mtrie:
  assumes ok: "dt_ok 0 (2 ^ 64) t" "dt_root t" "holds h t" "p \<in> fst ` set (dt_spine t)"
    and fit: "dt_buildable B t" and good: "dt_mergeable t" and wt: "dt_wt K t < 2 ^ 31" and addr: "addrs_ok addr (dt_count t)"
  shows "\<exists>hs. bs_build B raw addr h p = Some (hs, addr 0) \<and> mtrie K hs (addr 0) \<and> own K hs (addr 0) = addr ` {..<dt_count t} \<and>
    dom hs = addr ` {..<dt_count t} \<and> trie_wt K hs (addr 0) = dt_wt K t \<and>
    (\<forall>Q R. (\<forall>n i v u. reads n i v u \<longrightarrow> (Q n i \<longleftrightarrow> R v)) \<longrightarrow>
       (\<forall>s. stored_by (go_ops K) Q hs (addr 0) s \<longleftrightarrow> s \<noteq> [] \<and> (\<exists>v. dt_stores t s v \<and> R v)))"
proof -
  let ?ns = "map (bs_link (go_ops K) addr) (bs_nodes B raw (dt_walk 0 [t]))"
  define hs where "hs = bs_heap addr ?ns"
  have "bs_layers B raw h p [] 1 [] = Some ([] @ bs_nodes B raw (dt_walk 0 [t]))"
    by (rule layers_loop [of "[p]"])
      (use ok fit in \<open>auto simp: dt_buildable_def list_all_iff layer_fits_def simp del: dt_walk.simps\<close>)
  then have run: "bs_build B raw addr h p = Some (hs, addr 0)" by (simp add: bs_build_def ops hs_def)
  obtain A where A: "static_trie (go_ops K) node_ok hs (addr 0) A" "mset A = mset (map addr [0..<dt_count t])"
    and st: "\<forall>Q R. (\<forall>n i v u. reads n i v u \<longrightarrow> (Q n i \<longleftrightarrow> R v)) \<longrightarrow>
       (\<forall>s. stored_by (go_ops K) Q hs (addr 0) s \<longleftrightarrow> s \<noteq> [] \<and> (\<exists>v. dt_stores t s v \<and> R v))"
    using build_ok [OF ok fit addr, of raw] unfolding run by auto
  have setA: "set A = addr ` {..<dt_count t}" using arg_cong [OF A(2), of set_mset] by (simp add: lessThan_atLeast0)
  note nodes = built_nodes [OF ok(1) fit good wt addr hs_def]
  have "\<forall>q \<in> set A. merge_ready hs q" unfolding setA merge_ready_def using nodes by blast
  note mt = static_mtrie [OF A(1) this]
  have len: "length ?ns = dt_count t" by (simp add: bs_nodes_def dt_count_def)
  have dom: "dom hs = addr ` {..<dt_count t}"
    by (simp add: hs_def bs_heap_def len [simplified length_map] dom_map_of_zip lessThan_atLeast0 del: dt_walk.simps)
  have inj: "inj_on addr {..<dt_count t}" using addr by (auto simp: addrs_ok_def distinct_map lessThan_atLeast0)
  have "trie_wt K hs (addr 0) = (\<Sum>k < dt_count t. node_wt K (the (hs (addr k))))"
    unfolding trie_wt_def using mt setA by (simp add: sum.reindex [OF inj])
  also have "\<dots> = (\<Sum>k < dt_count t. rows_wt K (dt_rows (snd (snd (dt_walk 0 [t] ! k)))))"
  proof (rule sum.cong [OF refl])
    fix k assume "k \<in> {..<dt_count t}"
    then obtain n where "hs (addr k) = Some n" "node_wt K n = rows_wt K (dt_rows (snd (snd (dt_walk 0 [t] ! k))))"
      using nodes [of k] unfolding lessThan_iff by blast
    then show "node_wt K (the (hs (addr k))) = rows_wt K (dt_rows (snd (snd (dt_walk 0 [t] ! k))))" by (simp only: option.sel)
  qed
  also have "\<dots> = dt_wt K t"
    unfolding dt_wt_def sum_list_sum_nth dt_count_def by (simp add: lessThan_atLeast0 case_prod_beta del: dt_walk.simps)
  finally have wt: "trie_wt K hs (addr 0) = dt_wt K t" .
  show ?thesis by (intro exI [of _ hs] conjI run dom wt st) (use mt setA in simp_all)
qed

end

section \<open>\<^verbatim>\<open>massnode\<close> and \<^verbatim>\<open>massnode_dynamicvalue\<close>\<close>

interpretation mnx: mergeable_builder mn_merge_ops mn_ok "\<lambda>_ _. True" "mn_build_ops col0" mn_blk mn_ksuf_offset mn_area
  "\<lambda>_. 2 ^ 32 - 1 :: nat" "mn_reads col0"
  for col0
proof (intro mergeable_builder.intro mergeable_builder_axioms.intro)
  show "node_builder (go_ops mn_merge_ops) mn_ok (\<lambda>_ _. True) (mn_build_ops col0) mn_blk mn_ksuf_offset mn_area
      (\<lambda>_. 2 ^ 32 - 1) (mn_reads col0)"
    unfolding mn_merge_simps by (rule mnb.node_builder_axioms)
  show "merge_maker mn_merge_ops mn_ok (\<lambda>_ _. True)" by (rule mnk.merge_maker_axioms)
qed (auto simp: mn_build_ops_def mn_blk_def mn_area_def mn_offset_defs mn_setter_defs mn_put_ksuf_def mn_ksuf_offset_def mn_make_def Let_def)

interpretation mdx: mergeable_builder md_merge_ops md_ok md_fits md_build_ops md_blk md_ksuf_offset md_area
  "\<lambda>_. 2 ^ 32 - 1 :: nat" md_reads
proof (intro mergeable_builder.intro mergeable_builder_axioms.intro)
  show "node_builder (go_ops md_merge_ops) md_ok md_fits md_build_ops md_blk md_ksuf_offset md_area (\<lambda>_. 2 ^ 32 - 1) md_reads"
    unfolding md_merge_simps by (rule mdb.node_builder_axioms)
  show "merge_maker md_merge_ops md_ok md_fits" by (rule mdk.merge_maker_axioms)
qed (auto simp: md_build_ops_def md_blk_def md_area_def md_offset_defs md_setter_defs md_put_ksuf_def md_ksuf_offset_def md_make_def Let_def)

end
