(* ===== verification/Value_List.thy ===== *)
theory Value_List
  imports Prelude
begin

text \<open>
  The values of a key in the index with several values per key, \<^verbatim>\<open>hybrid_index/mtIndexAPI.hh\<close>:
  one string, the values of a common length one after the other, the newest first. The operations
  look for a value with one loop over two positions, and build the new string with \<^verbatim>\<open>memcpy\<close>.
  The loop finds the first of the blocks that is the value, and only a whole block.
\<close>

section \<open>The loop\<close>

text \<open>
  \<open>i\<close>: the block, \<open>j\<close>: how much of it agrees. The quotient is that of \<^verbatim>\<open>int\<close>; a value of length 0
  divides by zero in the source, so the callers pass none.
\<close>

function find_value_loop :: "byte list \<Rightarrow> byte list \<Rightarrow> nat \<Rightarrow> nat \<Rightarrow> nat" where
  "find_value_loop get_value v i j =
     (if i < length get_value div length v \<and> j < length v then
        (if get_value ! (i * length v + j) \<noteq> v ! j then find_value_loop get_value v (i + 1) 0
         else find_value_loop get_value v i (j + 1))
      else i)"
  by pat_completeness auto
termination
  by (relation "measures [\<lambda>(g, v, i, j). length g div length v - i, \<lambda>(g, v, i, j). length v - j]") auto

declare find_value_loop.simps [simp del]

text \<open>The block where \<open>v\<close> is; \<open>None\<close> when the source returns false.\<close>

definition find_value :: "byte list \<Rightarrow> byte list \<Rightarrow> nat option" where
  "find_value get_value v =
     (let i = find_value_loop get_value v 0 0 in if i = length get_value div length v then None else Some i)"

section \<open>The new strings\<close>

definition values_add :: "byte list \<Rightarrow> byte list \<Rightarrow> byte list" where
  "values_add v get_value = v @ get_value"

definition values_remove :: "byte list \<Rightarrow> byte list \<Rightarrow> nat \<Rightarrow> byte list" where
  "values_remove get_value v i =
     (let found_pos = i * length v
      in take found_pos get_value @ take (length get_value - found_pos - length v) (drop (found_pos + length v) get_value))"

text \<open>
  \<^verbatim>\<open>replace\<close> divides by the length of the new value; the copy stays in the string when both have one length.
\<close>

definition values_replace :: "byte list \<Rightarrow> byte list \<Rightarrow> nat \<Rightarrow> byte list" where
  "values_replace get_value v i = poke get_value (i * length v) v"

text \<open>
  \<^verbatim>\<open>replace_first1\<close>: the block has the length of the old string; a longer value is written beyond it (\<open>None\<close>).
\<close>

definition values_replace_first :: "byte list \<Rightarrow> byte list \<Rightarrow> byte list option" where
  "values_replace_first get_value v =
     (if length v \<le> length get_value then Some (v @ drop (length v) get_value) else None)"

section \<open>Blocks\<close>

definition block :: "nat \<Rightarrow> byte list \<Rightarrow> nat \<Rightarrow> byte list" where
  "block m g i = take m (drop (i * m) g)"

definition blocks :: "nat \<Rightarrow> byte list \<Rightarrow> byte list list" where
  "blocks m g = map (block m g) [0..<length g div m]"

lemma block_inside: "i < length g div m \<Longrightarrow> i * m + m \<le> length g"
proof -
  assume "i < length g div m"
  then have "(i + 1) * m \<le> length g div m * m" by (intro mult_le_mono1) simp
  also have "\<dots> \<le> length g" by (simp add: div_times_less_eq_dividend)
  finally show ?thesis by simp
qed

lemma block_length: "i < length g div m \<Longrightarrow> length (block m g i) = m"
  using block_inside [of i g m] by (simp add: block_def)

lemma block_nth: "i < length g div m \<Longrightarrow> j < m \<Longrightarrow> block m g i ! j = g ! (i * m + j)"
  using block_inside [of i g m] by (simp add: block_def)

lemma find_value_loop_spec:
  assumes "j \<le> length v" "i \<le> length g div length v"
    and "i < length g div length v \<longrightarrow> take j (block (length v) g i) = take j v" "i = length g div length v \<longrightarrow> j = 0"
  shows "let k = find_value_loop g v i j in
     i \<le> k \<and> k \<le> length g div length v \<and> (\<forall>l. i \<le> l \<and> l < k \<longrightarrow> block (length v) g l \<noteq> v) \<and>
     (k < length g div length v \<longrightarrow> block (length v) g k = v)"
  using assms
proof (induction g v i j rule: find_value_loop.induct)
  case (1 g v i j)
  let ?m = "length v" and ?n = "length g div length v"
  note IH = "1.IH" and a = "1.prems"
  show ?case
  proof (cases "i < ?n \<and> j < ?m")
    case False
    then have "i = ?n \<or> j = ?m" using a by auto
    then have "i < ?n \<longrightarrow> block ?m g i = v" using a block_length [of i g ?m] by auto
    moreover have "find_value_loop g v i j = i" by (subst find_value_loop.simps) (rule if_not_P [OF False])
    ultimately show ?thesis using a(2) by auto
  next
    case True
    have at: "block ?m g i ! j = g ! (i * ?m + j)" by (rule block_nth) (use True in simp_all)
    show ?thesis
    proof (cases "g ! (i * ?m + j) = v ! j")
      case same: True
      have "take (j + 1) (block ?m g i) = take (j + 1) v"
        using a(3) True at same block_length [of i g ?m] by (simp add: take_Suc_conv_app_nth)
      then have "let k = find_value_loop g v i (j + 1) in i \<le> k \<and> k \<le> ?n \<and> (\<forall>l. i \<le> l \<and> l < k \<longrightarrow> block ?m g l \<noteq> v) \<and>
          (k < ?n \<longrightarrow> block ?m g k = v)"
        by (intro IH(2)) (use True same in auto)
      then show ?thesis using True same by (subst find_value_loop.simps) simp
    next
      case differ: False
      have "block ?m g i \<noteq> v" using at differ by auto
      moreover have "let k = find_value_loop g v (i + 1) 0 in i + 1 \<le> k \<and> k \<le> ?n \<and>
          (\<forall>l. i + 1 \<le> l \<and> l < k \<longrightarrow> block ?m g l \<noteq> v) \<and> (k < ?n \<longrightarrow> block ?m g k = v)"
        by (intro IH(1)) (use True differ in auto)
      moreover have "find_value_loop g v i j = find_value_loop g v (i + 1) 0"
        by (subst find_value_loop.simps) (use True differ in simp)
      ultimately show ?thesis unfolding Let_def by (metis Suc_eq_plus1 Suc_leD le_antisym not_less_eq_eq)
    qed
  qed
qed

lemma find_value_spec:
  "(find_value g v = None \<longleftrightarrow> v \<notin> set (blocks (length v) g)) \<and>
   (find_value g v = Some i \<longrightarrow> i < length g div length v \<and> block (length v) g i = v \<and> (\<forall>l < i. block (length v) g l \<noteq> v))"
proof -
  define k where "k = find_value_loop g v 0 0"
  have k: "k \<le> length g div length v" "\<forall>l < k. block (length v) g l \<noteq> v"
    "k < length g div length v \<longrightarrow> block (length v) g k = v"
    using find_value_loop_spec [of 0 v 0 g] by (simp_all add: k_def Let_def)
  have f: "find_value g v = (if k = length g div length v then None else Some k)" by (simp add: find_value_def k_def Let_def)
  have "v \<in> set (blocks (length v) g) \<longleftrightarrow> (\<exists>l < length g div length v. block (length v) g l = v)"
    unfolding blocks_def set_map by force
  then have "k = length g div length v \<longleftrightarrow> v \<notin> set (blocks (length v) g)" using k by (metis le_neq_implies_less)
  then show ?thesis using k f by (auto split: if_splits)
qed

section \<open>The operations on lists of values\<close>

lemma blocks_append:
  assumes "length v = m" "0 < m"
  shows "blocks m (v @ g) = v # blocks m g"
proof (rule nth_equalityI)
  have n: "length (v @ g) div m = Suc (length g div m)" using assms div_add_self1 [of m "length g"] by simp
  show "length (blocks m (v @ g)) = length (v # blocks m g)" unfolding blocks_def length_map length_upt n by simp
  fix i assume "i < length (blocks m (v @ g))"
  then have i: "i < Suc (length g div m)" unfolding blocks_def length_map length_upt n by simp
  then have "blocks m (v @ g) ! i = block m (v @ g) i" unfolding blocks_def n by (simp del: upt_Suc)
  also have "\<dots> = (v # blocks m g) ! i" using i assms by (cases i) (simp_all add: block_def blocks_def)
  finally show "blocks m (v @ g) ! i = (v # blocks m g) ! i" .
qed

lemma blocks_concat: "0 < m \<Longrightarrow> \<forall>v \<in> set vs. length v = m \<Longrightarrow> blocks m (concat vs) = vs"
proof (induction vs)
  case Nil
  then show ?case by (simp add: blocks_def)
next
  case (Cons v vs)
  then show ?case using blocks_append [of v m "concat vs"] by simp
qed

lemma take_drop_concat:
  "\<forall>v \<in> set vs. length v = m \<Longrightarrow> i \<le> length vs \<Longrightarrow>
     take (i * m) (concat vs) = concat (take i vs) \<and> drop (i * m) (concat vs) = concat (drop i vs)"
proof (induction vs arbitrary: i)
  case (Cons v vs)
  then show ?case by (cases i) (simp_all add: add.commute)
qed simp

text \<open>
  C32: the loop of the multi-value index finds the first of the values of a key that equals the value
  asked for, and none exactly when it is not among them; adding a value puts it in front, removing one
  takes out that block, replacing one changes that block, all others stay as they are.
\<close>

theorem values_operations_correct:
  assumes m: "0 < m" "length v = m" "\<forall>x \<in> set vs. length x = m"
  shows "(find_value (concat vs) v = None \<longleftrightarrow> v \<notin> set vs) \<and> blocks m (values_add v (concat vs)) = v # vs \<and>
     (\<forall>i. find_value (concat vs) v = Some i \<longrightarrow> i < length vs \<and> vs ! i = v \<and> v \<notin> set (take i vs) \<and>
        blocks m (values_remove (concat vs) v i) = take i vs @ drop (i + 1) vs) \<and>
     (\<forall>i w. i < length vs \<longrightarrow> length w = m \<longrightarrow> blocks m (values_replace (concat vs) w i) = vs[i := w])"
proof (intro conjI allI impI)
  have b: "blocks m (concat vs) = vs" by (rule blocks_concat [OF m(1,3)])
  then have n: "length (concat vs) div m = length vs" by (metis blocks_def diff_zero length_map length_upt)
  have blk: "block m (concat vs) i = vs ! i" if "i < length vs" for i
    using arg_cong [OF b, of "\<lambda>xs. xs ! i"] that n by (simp add: blocks_def)
  note spec = find_value_spec [of "concat vs" v, unfolded m(2) b n]
  show "find_value (concat vs) v = None \<longleftrightarrow> v \<notin> set vs" using spec by blast
  show "blocks m (values_add v (concat vs)) = v # vs" using blocks_append [OF m(2,1)] b by (simp add: values_add_def)
  { fix i assume "find_value (concat vs) v = Some i"
    then have i: "i < length vs" "vs ! i = v" "\<forall>l < i. vs ! l \<noteq> v" using spec blk by (metis, metis, metis less_trans)
    show "i < length vs" "vs ! i = v" by (rule i)+
    show "v \<notin> set (take i vs)" using i by (auto simp: in_set_conv_nth)
    have td: "take (i * m) (concat vs) = concat (take i vs)" "drop (i * m + m) (concat vs) = concat (drop (i + 1) vs)"
      using take_drop_concat [OF m(3), of i] take_drop_concat [OF m(3), of "i + 1"] i(1) by (simp_all add: add.commute)
    have "values_remove (concat vs) v i = concat (take i vs @ drop (i + 1) vs)"
      using td m(2) by (simp add: values_remove_def Let_def)
    then show "blocks m (values_remove (concat vs) v i) = take i vs @ drop (i + 1) vs"
      using m(3) by (simp only:) (intro blocks_concat [OF m(1)], auto dest: in_set_takeD in_set_dropD) }
  { fix i and w :: "byte list" assume i: "i < length vs" "length w = m"
    have td: "take (i * m) (concat vs) = concat (take i vs)" "drop (i * m + m) (concat vs) = concat (drop (i + 1) vs)"
      using take_drop_concat [OF m(3), of i] take_drop_concat [OF m(3), of "i + 1"] i(1) by (simp_all add: add.commute)
    have "values_replace (concat vs) w i = concat (take i vs @ w # drop (i + 1) vs)"
      using td i(2) by (simp add: values_replace_def poke_def)
    also have "take i vs @ w # drop (i + 1) vs = vs[i := w]" using i(1) by (simp add: upd_conv_take_nth_drop)
    finally show "blocks m (values_replace (concat vs) w i) = vs[i := w]"
      using m(3) i(2) by (simp only:) (intro blocks_concat [OF m(1)], auto dest!: set_update_subset_insert [THEN subsetD]) }
qed

theorem values_operations_correct_witness:
  "find_value (concat [[1, 2], [3, 4]]) [3, 4] = Some 1 \<and>
     blocks 2 (values_remove (concat [[1, 2], [3, 4]]) [3, 4] 1) = [[1, 2 :: byte]]"
proof -
  have f: "find_value (concat [[1, 2], [3, 4]]) [3, 4] = Some 1" by code_simp
  then show ?thesis using values_operations_correct [of 2 "[3, 4]" "[[1, 2], [3, 4]]"] by simp
qed

end
