(* ===== verification/Mt_Index.thy ===== *)
theory Mt_Index
  imports Built_Trie Dyn_Insert Value_List
begin

text \<open>
  The index itself, \<^verbatim>\<open>mt_index\<close> of \<^verbatim>\<open>hybrid_index/mtIndexAPI.hh\<close> with the calls it makes through
  \<^verbatim>\<open>query\<close> of \<^verbatim>\<open>kvrow.hh\<close>: a dynamic stage that takes the insertions, a static stage, two
  counters, and the merge that turns the one into the other. One record serves the index with unique
  keys, whose static nodes are \<^verbatim>\<open>massnode\<close>, and the one with several values per key
  (\<^verbatim>\<open>SECONDARY_INDEX_TYPE\<close> 1), whose static nodes are \<^verbatim>\<open>massnode_dynamicvalue\<close>.

  The bloom filter is off (\<^verbatim>\<open>USE_BLOOM_FILTER\<close> 0), merging is on. Rows are a map from addresses to their
  first column; what the allocator does during a call is a parameter of the call (\<open>mt_env\<close>). Results:
  \<open>None\<close> stands for a failed assertion, a loop without end or a dangling pointer; \<open>Some Undefined\<close> for undefined
  behaviour; \<open>Some Returns_False\<close> for a merge that stopped half-way, whose remains are not described.
\<close>

section \<open>State\<close>

definition MERGE_THRESHOLD :: int where "MERGE_THRESHOLD = 100"
definition MERGE_RATIO :: int where "MERGE_RATIO = 10"
definition VALUE_LEN :: nat where "VALUE_LEN = 8"

record mt_env =
  en_pool :: dpool
  en_cursor :: tcursor
  en_row :: u64
  en_raw :: "nat \<Rightarrow> nat \<Rightarrow> byte"
  en_addr :: "nat \<Rightarrow> u64"
  en_alloc :: merge_alloc

record 'n mt_index =
  ix_table :: dtable
  ix_free :: "u64 list"
  ix_rows :: "u64 \<Rightarrow> byte list"
  ix_static :: "'n node_heap"
  ix_static_root :: u64
  ix_ic :: int
  ix_sic :: int
  ix_key_size :: int

text \<open>A counter is an \<^verbatim>\<open>int\<close>; beyond its range addition is undefined.\<close>

definition int_fits :: "int \<Rightarrow> bool" where
  "int_fits n \<longleftrightarrow> - (2 ^ 31) \<le> n \<and> n < 2 ^ 31"

definition if_fits :: "int \<Rightarrow> 'a outcome option \<Rightarrow> 'a outcome option" where
  "if_fits n x = (if int_fits n then x else Some Undefined)"

definition tb_initialize :: "dpool \<Rightarrow> u64 list \<Rightarrow> (dtable \<times> u64 list) option" where
  "tb_initialize P free =
     (case free of [] \<Rightarrow> None
      | a # free \<Rightarrow>
        map_option (\<lambda>l. (\<lparr>tb_root = a, tb_heap = [a \<mapsto> Leaf_Node l]\<rparr>, free)) (lf_make_root (dp_leaf P a) (dp_junk P a 0) 0 None))"

definition mt_setup :: "mt_env \<Rightarrow> u64 list \<Rightarrow> int \<Rightarrow> 'n mt_index option" where
  "mt_setup E free keysize =
     map_option (\<lambda>(t, free). \<lparr>ix_table = t, ix_free = free, ix_rows = (\<lambda>_. []), ix_static = Map.empty, ix_static_root = 0,
         ix_ic = 0, ix_sic = 0, ix_key_size = keysize\<rparr>) (tb_initialize (en_pool E) free)"

definition mt_reset :: "mt_env \<Rightarrow> 'n mt_index \<Rightarrow> 'n mt_index option" where
  "mt_reset E ix =
     map_option (\<lambda>(t, free). ix\<lparr>ix_table := t, ix_free := free, ix_ic := 0\<rparr>) (tb_initialize (en_pool E) (ix_free ix))"

section \<open>Looking up\<close>

text \<open>The pointer to the row in the dynamic stage; setting up the cursor may move the root pointer up.\<close>

definition dynamic_find :: "'n mt_index \<Rightarrow> mkey \<Rightarrow> ('n mt_index \<times> u64 option) option" where
  "dynamic_find ix key = map_option (\<lambda>(t, r). (ix\<lparr>ix_table := t\<rparr>, r)) (tb_get (ix_table ix) key)"

definition dynamic_get :: "'n mt_index \<Rightarrow> mkey \<Rightarrow> ('n mt_index \<times> byte list option) option" where
  "dynamic_get ix key =
     (if ix_ic ix = 0 then Some (ix, None)
      else map_option (\<lambda>(ix, r). (ix, map_option (ix_rows ix) r)) (dynamic_find ix key))"

definition static_get :: "massnode mt_index \<Rightarrow> mkey \<Rightarrow> byte list option option" where
  "static_get ix key =
     (if ix_sic ix = 0 then Some None
      else map_option (\<lambda>r. map_option lvs_value (st_value mn_ops (ix_static ix) r))
        (stcursor_find (ix_static ix) (ix_static_root ix) key))"

definition mt_get :: "massnode mt_index \<Rightarrow> mkey \<Rightarrow> (massnode mt_index \<times> byte list option) option" where
  "mt_get ix key =
     (case dynamic_get ix key of None \<Rightarrow> None
      | Some (ix, None) \<Rightarrow> map_option (Pair ix) (static_get ix key)
      | Some (ix, Some v) \<Rightarrow> Some (ix, Some v))"

definition static_get_nuv1 :: "massnode_dynamicvalue mt_index \<Rightarrow> mkey \<Rightarrow> byte list option option" where
  "static_get_nuv1 ix key =
     (if ix_sic ix = 0 then Some None
      else map_option (\<lambda>r. map_option (ix_rows ix) (st_value md_ops (ix_static ix) r))
        (stcursor_dynamicvalue_find (ix_static ix) (ix_static_root ix) key))"

text \<open>The two strings that \<^verbatim>\<open>get_nuv\<close> fills, one of them empty.\<close>

definition get_nuv ::
  "massnode_dynamicvalue mt_index \<Rightarrow> mkey \<Rightarrow> (massnode_dynamicvalue mt_index \<times> (byte list \<times> byte list) option) option" where
  "get_nuv ix key =
     (case dynamic_get ix key of None \<Rightarrow> None
      | Some (ix, None) \<Rightarrow> map_option (\<lambda>v. (ix, map_option (\<lambda>v. ([], v)) v)) (static_get_nuv1 ix key)
      | Some (ix, Some v) \<Rightarrow> Some (ix, Some (v, [])))"

definition dynamic_exist :: "'n mt_index \<Rightarrow> mkey \<Rightarrow> ('n mt_index \<times> bool) option" where
  "dynamic_exist ix key =
     (if ix_ic ix = 0 then Some (ix, False) else map_option (\<lambda>(ix, r). (ix, r \<noteq> None)) (dynamic_find ix key))"

definition static_exist :: "massnode mt_index \<Rightarrow> mkey \<Rightarrow> bool option" where
  "static_exist ix key =
     (if ix_sic ix = 0 then Some False
      else map_option (\<lambda>r. st_value mn_ops (ix_static ix) r \<noteq> None) (stcursor_find (ix_static ix) (ix_static_root ix) key))"

definition mt_exist :: "massnode mt_index \<Rightarrow> mkey \<Rightarrow> (massnode mt_index \<times> bool) option" where
  "mt_exist ix key =
     (case (if ix_ic ix \<noteq> 0 then map_option (\<lambda>(ix, r). (ix, r \<noteq> None)) (dynamic_find ix key) else Some (ix, False)) of
        None \<Rightarrow> None
      | Some (ix, found) \<Rightarrow>
        if \<not> found
        then map_option (\<lambda>r. (ix, st_value mn_ops (ix_static ix) r \<noteq> None))
          (stcursor_find (ix_static ix) (ix_static_root ix) key)
        else Some (ix, True))"

section \<open>The merge\<close>

text \<open>
  The static stage built from the dynamic one, at the fresh root \<open>merge_root\<close>, merged into the static
  stage; then the dynamic stage is made anew.
\<close>

definition run_merge :: "'n merge_ops \<Rightarrow> mt_env \<Rightarrow> 'n node_heap \<Rightarrow> u64 \<Rightarrow> 'n mt_index \<Rightarrow> 'n mt_index outcome option" where
  "run_merge K E built merge_root ix =
     (case st_merge K (en_alloc E) (ix_static ix ++ built) merge_root (ix_static_root ix) of
        None \<Rightarrow> None
      | Some Undefined \<Rightarrow> Some Undefined
      | Some Returns_False \<Rightarrow> Some Returns_False
      | Some (Goes_On st) \<Rightarrow> Some (Goes_On (ix\<lparr>ix_static := mh_heap st, ix_static_root := mh_root st\<rparr>)))"

definition merge_end :: "mt_env \<Rightarrow> 'n mt_index outcome option \<Rightarrow> ('n mt_index \<times> bool) outcome option" where
  "merge_end E r =
     (case r of
        None \<Rightarrow> None
      | Some Undefined \<Rightarrow> Some Undefined
      | Some Returns_False \<Rightarrow> Some Returns_False
      | Some (Goes_On ix) \<Rightarrow>
        if_fits (ix_sic ix + ix_ic ix)
          (map_option (\<lambda>ix. Goes_On (ix, True)) (mt_reset E (ix\<lparr>ix_sic := ix_sic ix + ix_ic ix\<rparr>))))"

definition merge_uv :: "mt_env \<Rightarrow> massnode mt_index \<Rightarrow> (massnode mt_index \<times> bool) outcome option" where
  "merge_uv E ix =
     (case (if ix_key_size ix \<le> 8
            then buildStatic_quick (ix_rows ix) (nat (ix_ic ix)) (en_raw E) (en_addr E) (tb_heap (ix_table ix)) (tb_root (ix_table ix))
            else buildStatic (ix_rows ix) (en_raw E) (en_addr E) (tb_heap (ix_table ix)) (tb_root (ix_table ix))) of
        None \<Rightarrow> None
      | Some (built, merge_root) \<Rightarrow> merge_end E (run_merge mn_merge_ops E built merge_root ix))"

definition merge_nuv ::
  "mt_env \<Rightarrow> massnode_dynamicvalue mt_index \<Rightarrow> (massnode_dynamicvalue mt_index \<times> bool) outcome option" where
  "merge_nuv E ix =
     (case buildStaticDynamicvalue (en_raw E) (en_addr E) (tb_heap (ix_table ix)) (tb_root (ix_table ix)) of
        None \<Rightarrow> None
      | Some (built, merge_root) \<Rightarrow> merge_end E (run_merge md_merge_ops E built merge_root ix))"

text \<open>The condition under which an insertion merges.\<close>

definition merge_due :: "int \<Rightarrow> int \<Rightarrow> bool" where
  "merge_due ic sic \<longleftrightarrow> ic * MERGE_RATIO \<ge> sic \<and> ic \<ge> MERGE_THRESHOLD"

section \<open>Inserting\<close>

text \<open>\<^verbatim>\<open>find_insert\<close> on the dynamic stage, then a value at the cursor, then \<^verbatim>\<open>finish\<close>.\<close>

definition dm_of :: "'n mt_index \<Rightarrow> dmem" where
  "dm_of ix = \<lparr>dm_heap = tb_heap (ix_table ix), dm_free = ix_free ix\<rparr>"

definition with_dm :: "'n mt_index \<Rightarrow> dmem \<Rightarrow> 'n mt_index" where
  "with_dm ix m = ix\<lparr>ix_table := (ix_table ix)\<lparr>tb_heap := dm_heap m\<rparr>, ix_free := dm_free m\<rparr>"

definition cursor_insert :: "mt_env \<Rightarrow> 'n mt_index \<Rightarrow> mkey \<Rightarrow> ('n mt_index \<times> tcursor \<times> bool) option" where
  "cursor_insert E ix key =
     (case tb_fix_root (ix_table ix) of None \<Rightarrow> None
      | Some (t, root) \<Rightarrow>
        map_option (\<lambda>(m, c, found). (with_dm (ix\<lparr>ix_table := t\<rparr>) m, c, found))
          (find_insert (en_pool E) (dm_of (ix\<lparr>ix_table := t\<rparr>)) (tc_make (en_cursor E) root key)))"

definition cursor_value :: "'n mt_index \<Rightarrow> tcursor \<Rightarrow> byte list option" where
  "cursor_value ix c = map_option (ix_rows ix) (tc_value (dm_of ix) c)"

text \<open>\<^verbatim>\<open>lp_mt_l.value() = row_type::create1(...)\<close>, then \<^verbatim>\<open>finish(1)\<close>, which ends an insertion only.\<close>

definition cursor_store :: "mt_env \<Rightarrow> 'n mt_index \<Rightarrow> tcursor \<Rightarrow> bool \<Rightarrow> byte list \<Rightarrow> 'n mt_index option" where
  "cursor_store E ix c found v =
     (case tc_set_value (dm_of ix) c (en_row E) of None \<Rightarrow> None
      | Some m \<Rightarrow>
        map_option (\<lambda>m. (with_dm ix m)\<lparr>ix_rows := (ix_rows ix)(en_row E := v)\<rparr>)
          (if found then Some m else tc_finish_insert m c))"

definition put_uv :: "mt_env \<Rightarrow> massnode mt_index \<Rightarrow> mkey \<Rightarrow> byte list \<Rightarrow> (massnode mt_index \<times> bool) outcome option" where
  "put_uv E ix key v =
     (case cursor_insert E ix key of None \<Rightarrow> None
      | Some (ix, c, found) \<Rightarrow>
        if found then Some (Goes_On (ix, False))
        else
          (case cursor_store E ix c False v of None \<Rightarrow> None
           | Some ix \<Rightarrow>
             let ix = ix\<lparr>ix_ic := ix_ic ix + 1\<rparr> in
             if_fits (ix_ic ix)
               (if merge_due (ix_ic ix) (ix_sic ix) then merge_uv E ix else Some (Goes_On (ix, True)))))"

definition mt_put :: "mt_env \<Rightarrow> 'n mt_index \<Rightarrow> mkey \<Rightarrow> byte list \<Rightarrow> 'n mt_index outcome option" where
  "mt_put E ix key v =
     (case cursor_insert E ix key of None \<Rightarrow> None
      | Some (ix, c, found) \<Rightarrow>
        (case cursor_store E ix c found v of None \<Rightarrow> None
         | Some ix \<Rightarrow>
           let ix = ix\<lparr>ix_ic := ix_ic ix + int (length v div VALUE_LEN)\<rparr> in if_fits (ix_ic ix) (Some (Goes_On ix))))"

text \<open>
  \<^verbatim>\<open>put_nuv1\<close> sets its first cursor up before it looks at the counter, so the root pointer moves in any case.
\<close>

definition dynamic_probe :: "'n mt_index \<Rightarrow> mkey \<Rightarrow> ('n mt_index \<times> bool) option" where
  "dynamic_probe ix key =
     (case tb_fix_root (ix_table ix) of None \<Rightarrow> None
      | Some (t, root) \<Rightarrow>
        if ix_ic ix = 0 then Some (ix\<lparr>ix_table := t\<rparr>, False)
        else map_option (\<lambda>r. (ix\<lparr>ix_table := t\<rparr>, r \<noteq> None)) (find_unlocked (tb_heap t) root key))"

text \<open>The new row takes the place of the one in the static stage.\<close>

definition static_store :: "mt_env \<Rightarrow> massnode_dynamicvalue mt_index \<Rightarrow> st_result \<Rightarrow> byte list \<Rightarrow> massnode_dynamicvalue mt_index" where
  "static_store E ix r v =
     (case r of
        St_Found p i \<Rightarrow> ix\<lparr>ix_static := (ix_static ix)(p := map_option (\<lambda>n. op_set_lv md_ops n i (en_row E)) (ix_static ix p)),
          ix_rows := (ix_rows ix)(en_row E := v)\<rparr>
      | _ \<Rightarrow> ix)"

definition put_nuv1_dynamic :: "mt_env \<Rightarrow> massnode_dynamicvalue mt_index \<Rightarrow> mkey \<Rightarrow> byte list \<Rightarrow>
    (massnode_dynamicvalue mt_index \<times> bool) outcome option" where
  "put_nuv1_dynamic E ix key v =
     (case cursor_insert E ix key of None \<Rightarrow> None
      | Some (ix, c, found) \<Rightarrow>
        (case (if found then map_option (values_add v) (cursor_value ix c) else Some v) of None \<Rightarrow> None
         | Some new \<Rightarrow>
           (case cursor_store E ix c found new of None \<Rightarrow> None
            | Some ix \<Rightarrow>
              let ix = ix\<lparr>ix_ic := ix_ic ix + int (length v div VALUE_LEN)\<rparr> in
              if_fits (ix_ic ix)
                (if merge_due (ix_ic ix) (ix_sic ix) then merge_nuv E ix else Some (Goes_On (ix, True))))))"

definition put_nuv1 :: "mt_env \<Rightarrow> massnode_dynamicvalue mt_index \<Rightarrow> mkey \<Rightarrow> byte list \<Rightarrow>
    (massnode_dynamicvalue mt_index \<times> bool) outcome option" where
  "put_nuv1 E ix key v =
     (case dynamic_probe ix key of None \<Rightarrow> None
      | Some (ix, found) \<Rightarrow>
        (case (if \<not> found \<and> ix_sic ix \<noteq> 0 then stcursor_dynamicvalue_find (ix_static ix) (ix_static_root ix) key
               else Some St_NotFound) of
           None \<Rightarrow> None
         | Some r \<Rightarrow>
           (case st_value md_ops (ix_static ix) r of
              Some old \<Rightarrow>
                let ix = (static_store E ix r (values_add v (ix_rows ix old)))\<lparr>ix_sic := ix_sic ix + int (length v div VALUE_LEN)\<rparr>
                in if_fits (ix_sic ix) (Some (Goes_On (ix, True)))
            | None \<Rightarrow> put_nuv1_dynamic E ix key v)))"

section \<open>Changing the static stage\<close>

definition static_update_uv :: "massnode mt_index \<Rightarrow> mkey \<Rightarrow> byte list \<Rightarrow> (massnode mt_index \<times> bool) option" where
  "static_update_uv ix key v =
     map_option (\<lambda>(r, h). (ix\<lparr>ix_static := h\<rparr>, st_value mn_ops h r \<noteq> None))
       (stcursor_update (ix_static ix) (ix_static_root ix) key v)"

definition update_uv :: "mt_env \<Rightarrow> massnode mt_index \<Rightarrow> mkey \<Rightarrow> byte list \<Rightarrow> (massnode mt_index \<times> bool) outcome option" where
  "update_uv E ix key v =
     (case dynamic_get ix key of None \<Rightarrow> None
      | Some (ix, Some w) \<Rightarrow>
        map_option (\<lambda>r. and_then r (\<lambda>ix. Goes_On (ix, True))) (mt_put E ix key (take VALUE_LEN v))
      | Some (ix, None) \<Rightarrow> map_option Goes_On (static_update_uv ix key v))"

definition static_remove :: "massnode mt_index \<Rightarrow> mkey \<Rightarrow> (massnode mt_index \<times> bool) option" where
  "static_remove ix key =
     (if ix_sic ix = 0 then Some (ix, False)
      else map_option (\<lambda>(r, h). case r of St_Found p i \<Rightarrow> (ix\<lparr>ix_static := h, ix_sic := ix_sic ix - 1\<rparr>, True) | _ \<Rightarrow> (ix, False))
        (stcursor_remove (ix_static ix) (ix_static_root ix) key))"

text \<open>Removing a key of the multi-value index, and removing one of its values.\<close>

definition static_remove_key_nuv1 ::
  "massnode_dynamicvalue mt_index \<Rightarrow> mkey \<Rightarrow> (massnode_dynamicvalue mt_index \<times> bool) option" where
  "static_remove_key_nuv1 ix key =
     (if ix_sic ix = 0 then Some (ix, False)
      else map_option (\<lambda>(r, h, row). case r of St_Found p i \<Rightarrow> (ix\<lparr>ix_static := h, ix_sic := ix_sic ix - 1\<rparr>, True) | _ \<Rightarrow> (ix, False))
        (stcursor_dynamicvalue_remove (ix_static ix) (ix_static_root ix) key))"

definition static_remove_nuv1 ::
  "mt_env \<Rightarrow> massnode_dynamicvalue mt_index \<Rightarrow> mkey \<Rightarrow> byte list \<Rightarrow> (massnode_dynamicvalue mt_index \<times> bool) option" where
  "static_remove_nuv1 E ix key v =
     (if ix_sic ix = 0 then Some (ix, False)
      else
        (case stcursor_dynamicvalue_find (ix_static ix) (ix_static_root ix) key of None \<Rightarrow> None
         | Some r \<Rightarrow>
           (case st_value md_ops (ix_static ix) r of None \<Rightarrow> Some (ix, False)
            | Some row \<Rightarrow>
              let get_value = ix_rows ix row in
              (case find_value get_value v of None \<Rightarrow> Some (ix, False)
               | Some i \<Rightarrow>
                 if length get_value > length v then
                   Some ((static_store E ix r (values_remove get_value v i))\<lparr>ix_sic := ix_sic ix - int (length v div VALUE_LEN)\<rparr>, True)
                 else if length get_value = length v then
                   static_remove_key_nuv1 (ix\<lparr>ix_sic := ix_sic ix - int (length v div VALUE_LEN)\<rparr>) key
                 else Some (ix, False)))))"

end
