(* ===== verification/Mt_Merge.thy ===== *)
theory Mt_Merge
  imports Mt_Index
begin

text \<open>
  What the index promises: a lookup finds what the dynamic stage or else the static stage stores, and a merge
  moves every key from the dynamic to the static stage without changing what any lookup returns.
\<close>

declare split_paired_All [simp del] split_paired_Ex [simp del]

section \<open>Build and merge\<close>

context mergeable_builder
begin

lemma run_merge_empty:
  assumes "p \<noteq> 0"
  shows "\<exists>st'. st_merge K A h p 0 = Some (Goes_On st') \<and> mh_heap st' = h \<and> mh_root st' = p"
proof -
  let ?t = "new_task\<lparr>task := 0, parent_node := 0, task_m := p, task_n := 0\<rparr>"
  let ?st = "\<lparr>mh_heap = h, mh_root = 0, mh_task = [?t], mh_next = 0\<rparr>"
  have "merge_nodes K A ?t ?st = Goes_On (?st\<lparr>mh_root := p\<rparr>)" using assms by (simp add: merge_nodes_def)
  then have "merge_run K A 0 ?st = merge_run K A (0 + 1) (?st\<lparr>mh_root := p\<rparr>)" by (subst merge_run.simps) simp
  also have "\<dots> = Some (Goes_On (?st\<lparr>mh_root := p\<rparr>))" by (subst merge_run.simps) simp
  finally show ?thesis by (simp add: st_merge_def)
qed

lemma build_and_merge:
  assumes ok: "dt_ok 0 (2 ^ 64) t" "dt_root t" "holds h t" "p \<in> fst ` set (dt_spine t)"
    and fit: "dt_buildable B t" and good: "dt_mergeable t" and addr: "addrs_ok addr (dt_count t)"
    and static: "S 0 = None" "r \<noteq> 0 \<longrightarrow> mtrie K S r" and new: "addr ` {..<dt_count t} \<inter> dom S = {}"
    and apart: "\<forall>s v w. \<not> (s \<noteq> [] \<and> dt_stores t s v \<and> stored (go_ops K) S r s w)"
    and wt: "dt_wt K t + (if r = 0 then 0 else trie_wt K S r) < 2 ^ 31"
    and al: "fresh_alloc A S" "\<forall>k < alloc_max. al_addr A k \<notin> addr ` {..<dt_count t}"
  shows "\<exists>hs st'. bs_build B raw addr h p = Some (hs, addr 0) \<and> st_merge K A (S ++ hs) (addr 0) r = Some (Goes_On st') \<and>
    mtrie K (mh_heap st') (mh_root st') \<and> mh_heap st' 0 = None \<and>
    (\<forall>s v. stored (go_ops K) (mh_heap st') (mh_root st') s v \<longleftrightarrow> stored (go_ops K) hs (addr 0) s v \<or> stored (go_ops K) S r s v) \<and>
    (\<forall>Q R. (\<forall>n i v u. reads n i v u \<longrightarrow> (Q n i \<longleftrightarrow> R v)) \<longrightarrow>
       (\<forall>s. stored_by (go_ops K) Q hs (addr 0) s \<longleftrightarrow> s \<noteq> [] \<and> (\<exists>v. dt_stores t s v \<and> R v)))"
proof -
  have "dt_wt K t < 2 ^ 31" using wt by simp
  from build_mtrie [OF ok fit good this addr, of raw] obtain hs where
    b: "bs_build B raw addr h p = Some (hs, addr 0)" "mtrie K hs (addr 0)" "own K hs (addr 0) = addr ` {..<dt_count t}"
      "dom hs = addr ` {..<dt_count t}" "trie_wt K hs (addr 0) = dt_wt K t"
    and st: "\<forall>Q R. (\<forall>n i v u. reads n i v u \<longrightarrow> (Q n i \<longleftrightarrow> R v)) \<longrightarrow>
       (\<forall>s. stored_by (go_ops K) Q hs (addr 0) s \<longleftrightarrow> s \<noteq> [] \<and> (\<exists>v. dt_stores t s v \<and> R v))"
    by (elim exE conjE) (rule that)
  let ?H = "S ++ hs"
  have count: "0 < dt_count t" by (simp add: dt_count_def)
  have nz: "addr k \<noteq> 0" if "k < dt_count t" for k using addr that by (auto simp: addrs_ok_def)
  have "0 \<notin> dom hs" unfolding b(4) using nz by (metis imageE lessThan_iff)
  then have h0: "?H 0 = None" using static(1) by (simp add: domIff map_add_None)
  have left: "?H q = hs q" if "q \<in> own K hs (addr 0)" for q using own_dom [OF that] by (auto simp: map_add_def)
  note L = mtrie_frame [where h = hs and h' = ?H, OF b(2) ballI [OF left]]
  have m: "mtrie K ?H (addr 0)" and mo: "own K ?H (addr 0) = addr ` {..<dt_count t}"
    and ms: "\<And>s v. stored (go_ops K) ?H (addr 0) s v \<longleftrightarrow> stored (go_ops K) hs (addr 0) s v"
    using L b(3) by simp_all
  have mw: "trie_wt K ?H (addr 0) = dt_wt K t"
    unfolding b(5) [symmetric] trie_wt_def mo b(3) by (rule sum.cong [OF refl]) (use left b(3) in simp)
  have some: "\<exists>v. dt_stores t s v" "s \<noteq> []" if "stored (go_ops K) hs (addr 0) s w" for s w
  proof -
    have "stored_by (go_ops K) (\<lambda>_ _. True) hs (addr 0) s"
      using that unfolding stored_stored_by by (induction rule: stored_by.induct) (auto intro: stored_by.intros)
    then show "\<exists>v. dt_stores t s v" "s \<noteq> []" using st [rule_format, of "\<lambda>_ _. True" "\<lambda>_. True" s] by auto
  qed
  show ?thesis
  proof (cases "r = 0")
    case True
    obtain st' where s: "st_merge K A ?H (addr 0) r = Some (Goes_On st')" "mh_heap st' = ?H" "mh_root st' = addr 0"
      using run_merge_empty [OF nz [OF count], of A ?H] True by blast
    have no: "\<not> stored (go_ops K) S r s v" for s v using static(1) True by (auto elim: stored.cases)
    show ?thesis by (intro exI [of _ hs] exI [of _ st'] conjI b(1) s(1) st) (use s m h0 ms no in simp_all)
  next
    case False
    note tr = mp [OF static(2) False]
    have right: "?H q = S q" if "q \<in> own K S r" for q
    proof -
      have "q \<notin> dom hs" using own_dom [OF that] new b(4) by blast
      then show ?thesis by (simp add: map_add_dom_app_simps)
    qed
    note R = mtrie_frame [where h = S and h' = ?H, OF tr ballI [OF right]]
    have n: "mtrie K ?H r" and no: "own K ?H r = own K S r" and ns: "\<And>s v. stored (go_ops K) ?H r s v \<longleftrightarrow> stored (go_ops K) S r s v"
      using R by simp_all
    have nw: "trie_wt K ?H r = trie_wt K S r" unfolding trie_wt_def no by (rule sum.cong [OF refl]) (use right in simp)
    have dis: "own K ?H (addr 0) \<inter> own K ?H r = {}"
      unfolding mo no using new own_dom [of _ K S r] by blast
    have once: "\<forall>s v w. \<not> (stored (go_ops K) ?H (addr 0) s v \<and> stored (go_ops K) ?H r s w)"
      unfolding ms ns using apart some by blast
    have wt': "trie_wt K ?H (addr 0) + trie_wt K ?H r < 2 ^ 31" using wt False by (simp add: mw nw)
    have al': "fresh_alloc A ?H"
    proof -
      have "hs (al_addr A k) = None" if "k < alloc_max" for k using al(2) that b(4) by (metis domIff)
      then show ?thesis using al(1) by (simp add: fresh_alloc_def map_add_None)
    qed
    obtain st' where s: "st_merge K A ?H (addr 0) r = Some (Goes_On st')" "mtrie K (mh_heap st') (mh_root st')"
      "\<forall>s v. stored (go_ops K) (mh_heap st') (mh_root st') s v \<longleftrightarrow> stored (go_ops K) ?H (addr 0) s v \<or> stored (go_ops K) ?H r s v"
      "\<forall>a. a \<notin> own K ?H (addr 0) \<longrightarrow> a \<notin> own K ?H r \<longrightarrow> a \<notin> news A 0 alloc_max \<longrightarrow> mh_heap st' a = ?H a"
      using st_merge_spec [OF m n dis once wt' al'] by blast
    have "0 \<notin> news A 0 alloc_max" using al(1) by (auto simp: fresh_alloc_def news_def)
    then have "mh_heap st' 0 = None" using s(4) mtrie_nonzero [OF m] mtrie_nonzero [OF n] h0 by metis
    then show ?thesis using b(1) s(1-3) st unfolding ms ns by blast
  qed
qed

end

section \<open>The stages\<close>

text \<open>
  \<open>t\<close> is the tree of the dynamic stage. A counter that is zero says that its stage is empty, which is what the
  lookups conclude from it.
\<close>

definition stages_ok :: "'n merge_ops \<Rightarrow> 'n mt_index \<Rightarrow> dtree \<Rightarrow> bool" where
  "stages_ok K ix t \<longleftrightarrow> tb_holds (ix_table ix) t \<and> ix_static ix 0 = None \<and>
     (ix_static_root ix \<noteq> 0 \<longrightarrow> mtrie K (ix_static ix) (ix_static_root ix)) \<and> 0 \<le> ix_ic ix \<and> 0 \<le> ix_sic ix \<and>
     (ix_ic ix = 0 \<longrightarrow> (\<forall>s v. \<not> dt_stores t s v)) \<and>
     (ix_sic ix = 0 \<longrightarrow> (\<forall>s v. \<not> stored (go_ops K) (ix_static ix) (ix_static_root ix) s v))"

text \<open>No key is in both stages.\<close>

definition stages_apart :: "'n merge_ops \<Rightarrow> 'n mt_index \<Rightarrow> dtree \<Rightarrow> bool" where
  "stages_apart K ix t \<longleftrightarrow>
     (\<forall>s v w. \<not> (s \<noteq> [] \<and> dt_stores t s v \<and> stored (go_ops K) (ix_static ix) (ix_static_root ix) s w))"

text \<open>What a merge needs of the allocator, and that no size overflows.\<close>

definition merge_fits :: "'n build_ops \<Rightarrow> 'n merge_ops \<Rightarrow> mt_env \<Rightarrow> 'n mt_index \<Rightarrow> dtree \<Rightarrow> bool" where
  "merge_fits B K E ix t \<longleftrightarrow> dt_buildable B t \<and> dt_mergeable t \<and> addrs_ok (en_addr E) (dt_count t) \<and>
     en_addr E ` {..<dt_count t} \<inter> dom (ix_static ix) = {} \<and>
     dt_wt K t + (if ix_static_root ix = 0 then 0 else trie_wt K (ix_static ix) (ix_static_root ix)) < 2 ^ 31 \<and>
     fresh_alloc (en_alloc E) (ix_static ix) \<and> (\<forall>k < alloc_max. al_addr (en_alloc E) k \<notin> en_addr E ` {..<dt_count t}) \<and>
     int_fits (ix_sic ix + ix_ic ix) \<and> ix_free ix \<noteq> [] \<and> hd (ix_free ix) \<noteq> 0 \<and> raw_leaf_ok (dp_leaf (en_pool E) (hd (ix_free ix)))"

lemma initialize_ok:
  assumes "free \<noteq> []" "hd free \<noteq> 0" "raw_leaf_ok (dp_leaf P (hd free))"
  shows "\<exists>tb t. tb_initialize P free = Some (tb, tl free) \<and> tb_holds tb t \<and> (\<forall>s v. \<not> dt_stores t s v)"
proof -
  obtain a as where f: "free = a # as" using assms(1) by (cases free) auto
  obtain l where l: "lf_make (dp_leaf P a) (dp_junk P a 0) 0 0 = Some l" "lf_ready l {}" "lf_permutation l = kp_make_empty leaf_width"
      "lf_version l = nv_make nodeversion32_parameters True"
    using lf_make_ok [of "dp_leaf P a" "dp_junk P a 0" 0 0] assms(3) by (auto simp: f)
  define m where "m = l\<lparr>lf_next := 0, lf_prev := 0, lf_parent := 0, lf_version := nv_mark_root nodeversion32_parameters (lf_version l)\<rparr>"
  have root: "lf_make_root (dp_leaf P a) (dp_junk P a 0) 0 None = Some m" using l(1) by (simp add: lf_make_root_def m_def)
  have ready: "lf_ready m {}" using l(2) by (simp add: lf_ready_def lf_bags_def lf_has_ksuf_def m_def split: option.splits)
  have perm: "lf_permutation m = kp_make_empty leaf_width" using l(3) by (simp add: m_def)
  note empty = empty_leaf_rows [OF perm]
  have sorted: "lf_sorted m" using empty(1) empty(4) [OF ready] by (simp add: lf_sorted_def rows_ok_def)
  have "\<not> nv_nonroot nodeversion32_parameters (nv_mark_root nodeversion32_parameters (nv_make nodeversion32_parameters True))"
    by (simp add: nv_nonroot_def nv_mark_root_def nv_make_def nodeversion32_parameters_def)
  then have "dt_root (DL a m [])" using l(4) by (simp add: dt_root_def nd_parent_def nd_has_split_def nd_version_def m_def)
  moreover have "dt_ok 0 (2 ^ 64) (DL a m [])" using sorted empty(1) by (simp add: layer_rows_def)
  ultimately have "tb_holds \<lparr>tb_root = a, tb_heap = [a \<mapsto> Leaf_Node m]\<rparr> (DL a m [])"
    using assms(2) by (simp add: tb_holds_def holds_simps f)
  moreover have "\<not> dt_stores (DL a m []) s v" for s v using empty(1) by (simp add: rows_store_def layer_rows_def)
  ultimately show ?thesis using root by (intro exI conjI) (auto simp: tb_initialize_def f)
qed

lemma dynamic_find_ok:
  assumes "stages_ok K ix t" "key_ok k"
  shows "\<exists>tb r. dynamic_find ix k = Some (ix\<lparr>ix_table := tb\<rparr>, r) \<and> stages_ok K (ix\<lparr>ix_table := tb\<rparr>) t \<and>
    (\<forall>v. r = Some v \<longleftrightarrow> dt_stores t (key_string k) v)"
proof -
  have "tb_holds (ix_table ix) t" using assms(1) by (simp add: stages_ok_def)
  from dyn_get_spec [OF this assms(2)] obtain r where
    "tb_get (ix_table ix) k = Some ((ix_table ix)\<lparr>tb_root := dt_addr t\<rparr>, r)" "tb_holds ((ix_table ix)\<lparr>tb_root := dt_addr t\<rparr>) t"
    "\<forall>v. r = Some v \<longleftrightarrow> dt_stores t (key_string k) v" by blast
  then show ?thesis using assms(1) by (auto simp: dynamic_find_def stages_ok_def)
qed

lemma dynamic_get_ok:
  assumes "stages_ok K ix t" "key_ok k"
  shows "\<exists>tb r. dynamic_get ix k = Some (ix\<lparr>ix_table := tb\<rparr>, map_option (ix_rows ix) r) \<and> stages_ok K (ix\<lparr>ix_table := tb\<rparr>) t \<and>
    (\<forall>v. r = Some v \<longleftrightarrow> dt_stores t (key_string k) v)"
proof (cases "ix_ic ix = 0")
  case True
  then show ?thesis using assms(1)
    by (intro exI [of _ "ix_table ix"] exI [of _ None]) (auto simp: dynamic_get_def stages_ok_def)
next
  case False
  obtain tb r where "dynamic_find ix k = Some (ix\<lparr>ix_table := tb\<rparr>, r)" "stages_ok K (ix\<lparr>ix_table := tb\<rparr>) t"
    "\<forall>v. r = Some v \<longleftrightarrow> dt_stores t (key_string k) v" using dynamic_find_ok [OF assms] by blast
  then show ?thesis using False by (intro exI [of _ tb] exI [of _ r]) (simp add: dynamic_get_def)
qed

lemma run_merge_ok:
  assumes "st_merge K (en_alloc E) (ix_static ix ++ built) p (ix_static_root ix) = Some (Goes_On st')"
    and "mtrie K (mh_heap st') (mh_root st')" "mh_heap st' 0 = None"
    and "stages_ok K ix t" "\<forall>s v. stored (go_ops K) (mh_heap st') (mh_root st') s v \<longrightarrow>
      (\<exists>u. dt_stores t s u) \<or> stored (go_ops K) (ix_static ix) (ix_static_root ix) s v" "merge_fits B K E ix t"
  shows "\<exists>ix' t'. merge_end E (run_merge K E built p ix) = Some (Goes_On (ix', True)) \<and> stages_ok K ix' t' \<and>
    ix_ic ix' = 0 \<and> ix_sic ix' = ix_sic ix + ix_ic ix \<and> ix_static ix' = mh_heap st' \<and> ix_static_root ix' = mh_root st' \<and>
    ix_rows ix' = ix_rows ix \<and> ix_key_size ix' = ix_key_size ix \<and> (\<forall>s v. \<not> dt_stores t' s v)"
proof -
  note f = assms(6) [unfolded merge_fits_def]
  obtain tb t' where i: "tb_initialize (en_pool E) (ix_free ix) = Some (tb, tl (ix_free ix))" "tb_holds tb t'" "\<forall>s v. \<not> dt_stores t' s v"
    using initialize_ok [of "ix_free ix" "en_pool E"] f by blast
  let ?ix = "ix\<lparr>ix_static := mh_heap st', ix_static_root := mh_root st', ix_sic := ix_sic ix + ix_ic ix, ix_table := tb,
      ix_free := tl (ix_free ix), ix_ic := 0\<rparr>"
  have r: "merge_end E (run_merge K E built p ix) = Some (Goes_On (?ix, True))"
    using assms(1) f i(1) by (simp add: run_merge_def merge_end_def if_fits_def mt_reset_def)
  have c: "0 \<le> ix_ic ix" "0 \<le> ix_sic ix" using assms(4) by (simp_all add: stages_ok_def)
  have "\<not> stored (go_ops K) (mh_heap st') (mh_root st') s v" if "ix_sic ix + ix_ic ix = 0" for s v
  proof -
    have "ix_ic ix = 0" "ix_sic ix = 0" using that c by simp_all
    then show ?thesis using assms(4,5) by (auto simp: stages_ok_def)
  qed
  then have "stages_ok K ?ix t'" using i(2,3) assms(2,3) c by (simp add: stages_ok_def)
  then show ?thesis using r i(3) by (intro exI [of _ ?ix] exI [of _ t']) simp
qed

text \<open>No key of the dynamic stage is empty when all its slots can be merged.\<close>

lemma no_empty_key: "\<forall>r \<in> set (dt_rows t). good_slot r \<Longrightarrow> \<not> dt_stores t [] v"
proof (induction t)
  case (DL a l us)
  have "\<not> row_stores r [] v" if "r \<in> set (lf_rows l)" for r
  proof -
    have "good_slot r" using DL.prems that by simp
    then show ?thesis
      by (cases rule: good_slot_cases) (auto simp: row_stores_def kl_rank_def slot_rank_def unat_eq_0 dest: plain_slot_facts)
  qed
  moreover have "\<not> row_leads r []" for r by (simp add: row_leads_def)
  ultimately show ?case by (auto simp: rows_store_def list_ex_iff)
next
  case (DN a n ts)
  then show ?case by (auto simp: list_ex_iff)
qed

lemma mergeable_no_empty_key: "dt_mergeable t \<Longrightarrow> \<not> dt_stores t [] v"
  by (rule no_empty_key) (simp add: dt_mergeable_def list_all_iff)

section \<open>The merge of the two stages\<close>

context mergeable_builder
begin

lemma stages_merge:
  assumes conv: "\<forall>n i v u. reads n i v u \<longrightarrow> op_lv (go_ops K) n i = conv v"
    and ok: "stages_ok K ix t" and apart: "stages_apart K ix t" and fit: "merge_fits B K E ix t"
  shows "\<exists>hs ix' t'. bs_build B (en_raw E) (en_addr E) (tb_heap (ix_table ix)) (tb_root (ix_table ix)) = Some (hs, en_addr E 0) \<and>
    merge_end E (run_merge K E hs (en_addr E 0) ix) = Some (Goes_On (ix', True)) \<and> stages_ok K ix' t' \<and>
    ix_ic ix' = 0 \<and> ix_sic ix' = ix_sic ix + ix_ic ix \<and> ix_rows ix' = ix_rows ix \<and> (\<forall>s v. \<not> dt_stores t' s v) \<and>
    (\<forall>s w. stored (go_ops K) (ix_static ix') (ix_static_root ix') s w \<longleftrightarrow>
      (\<exists>v. dt_stores t s v \<and> w = conv v) \<or> stored (go_ops K) (ix_static ix) (ix_static_root ix) s w)"
proof -
  note f = fit [unfolded merge_fits_def]
  let ?S = "ix_static ix" and ?r = "ix_static_root ix" and ?tb = "ix_table ix"
  have tb: "tb_holds ?tb t" "?S 0 = None" "?r \<noteq> 0 \<longrightarrow> mtrie K ?S ?r" using ok by (simp_all add: stages_ok_def)
  have d: "\<forall>s v w. \<not> (s \<noteq> [] \<and> dt_stores t s v \<and> stored (go_ops K) ?S ?r s w)" using apart by (simp add: stages_apart_def)
  have e: "dt_buildable B t" "dt_mergeable t" "addrs_ok (en_addr E) (dt_count t)"
    "en_addr E ` {..<dt_count t} \<inter> dom ?S = {}" "dt_wt K t + (if ?r = 0 then 0 else trie_wt K ?S ?r) < 2 ^ 31"
    "fresh_alloc (en_alloc E) ?S" "\<forall>k < alloc_max. al_addr (en_alloc E) k \<notin> en_addr E ` {..<dt_count t}"
    using f by simp_all
  note bm = build_and_merge [where t = t and h = "tb_heap ?tb" and p = "tb_root ?tb" and S = ?S and r = ?r
      and addr = "en_addr E" and raw = "en_raw E" and A = "en_alloc E",
      OF holds_parts [OF tb(1)] e(1-3) tb(2,3) e(4) d e(5-7)]
  obtain hs st' where m: "bs_build B (en_raw E) (en_addr E) (tb_heap ?tb) (tb_root ?tb) = Some (hs, en_addr E 0)"
    "st_merge K (en_alloc E) (?S ++ hs) (en_addr E 0) ?r = Some (Goes_On st')"
    "mtrie K (mh_heap st') (mh_root st')" "mh_heap st' 0 = None"
    and st: "\<forall>s v. stored (go_ops K) (mh_heap st') (mh_root st') s v \<longleftrightarrow>
       stored (go_ops K) hs (en_addr E 0) s v \<or> stored (go_ops K) ?S ?r s v"
    and sb: "\<forall>Q R. (\<forall>n i v u. reads n i v u \<longrightarrow> (Q n i \<longleftrightarrow> R v)) \<longrightarrow>
       (\<forall>s. stored_by (go_ops K) Q hs (en_addr E 0) s \<longleftrightarrow> s \<noteq> [] \<and> (\<exists>v. dt_stores t s v \<and> R v))"
    using bm by (elim exE conjE) (rule that)
  have new: "stored (go_ops K) hs (en_addr E 0) s w \<longleftrightarrow> (\<exists>v. dt_stores t s v \<and> w = conv v)" for s w
  proof -
    have "stored (go_ops K) hs (en_addr E 0) s w \<longleftrightarrow> s \<noteq> [] \<and> (\<exists>v. dt_stores t s v \<and> w = conv v)"
      unfolding stored_stored_by by (rule sb [rule_format]) (use conv in auto)
    then show ?thesis using mergeable_no_empty_key [OF e(2)] by auto
  qed
  have came: "\<forall>s v. stored (go_ops K) (mh_heap st') (mh_root st') s v \<longrightarrow> (\<exists>u. dt_stores t s u) \<or> stored (go_ops K) ?S ?r s v"
    using st new by blast
  obtain ix' t' where r: "merge_end E (run_merge K E hs (en_addr E 0) ix) = Some (Goes_On (ix', True))"
    "stages_ok K ix' t'" "ix_ic ix' = 0" "ix_sic ix' = ix_sic ix + ix_ic ix" "ix_static ix' = mh_heap st'"
    "ix_static_root ix' = mh_root st'" "ix_rows ix' = ix_rows ix" "\<forall>s v. \<not> dt_stores t' s v"
    using run_merge_ok [OF m(2-4) ok came fit] by blast
  show ?thesis
    by (intro exI [of _ hs] exI [of _ ix'] exI [of _ t'] conjI m(1) r(1-4,7,8)) (use st new r(5,6) in simp)
qed

end

section \<open>The index with unique keys\<close>

lemma static_find_ok:
  assumes "stages_ok mn_merge_ops ix t" "key_ok k"
  shows "\<exists>r. stcursor_find (ix_static ix) (ix_static_root ix) k = Some r \<and>
    (\<forall>w. st_value mn_ops (ix_static ix) r = Some w \<longleftrightarrow> stored mn_ops (ix_static ix) (ix_static_root ix) (key_string k) w)"
proof (cases "ix_static_root ix = 0")
  case True
  then have "\<not> stored mn_ops (ix_static ix) (ix_static_root ix) s w" for s w
    using assms(1) by (auto simp: stages_ok_def elim: stored.cases)
  then show ?thesis using True by (simp add: stcursor_find_def st_find_def st_value_def)
next
  case False
  then have "mtrie mn_merge_ops (ix_static ix) (ix_static_root ix)" using assms(1) by (simp add: stages_ok_def)
  then obtain A where A: "static_trie mn_ops mn_ok (ix_static ix) (ix_static_root ix) A" using mnk.mtrie_static by fastforce
  show ?thesis unfolding stcursor_find_def using mn.find_correct [OF A assms(2) mn.fits_all [OF A]] by blast
qed

text \<open>What the index stores: the row in the dynamic stage, or else the value in the static stage.\<close>

definition index_has :: "massnode mt_index \<Rightarrow> dtree \<Rightarrow> byte list \<Rightarrow> byte list \<Rightarrow> bool" where
  "index_has ix t s b \<longleftrightarrow> (\<exists>r. dt_stores t s r \<and> b = ix_rows ix r) \<or>
     (\<forall>r. \<not> dt_stores t s r) \<and> (\<exists>w. stored mn_ops (ix_static ix) (ix_static_root ix) s w \<and> b = lvs_value w)"

lemma static_get_ok:
  assumes "stages_ok mn_merge_ops ix t" "key_ok k"
  shows "\<exists>v. static_get ix k = Some v \<and>
    (\<forall>b. v = Some b \<longleftrightarrow> (\<exists>w. stored mn_ops (ix_static ix) (ix_static_root ix) (key_string k) w \<and> b = lvs_value w))"
proof (cases "ix_sic ix = 0")
  case True
  then show ?thesis using assms(1) by (simp add: static_get_def stages_ok_def)
next
  case False
  obtain r where "stcursor_find (ix_static ix) (ix_static_root ix) k = Some r"
    "\<forall>w. st_value mn_ops (ix_static ix) r = Some w \<longleftrightarrow> stored mn_ops (ix_static ix) (ix_static_root ix) (key_string k) w"
    using static_find_ok [OF assms] by blast
  then show ?thesis using False by (intro exI [of _ "map_option lvs_value (st_value mn_ops (ix_static ix) r)"])
      (auto simp: static_get_def)
qed

lemma mt_get_spec:
  assumes "stages_ok mn_merge_ops ix t" "key_ok k"
  shows "\<exists>tb v. mt_get ix k = Some (ix\<lparr>ix_table := tb\<rparr>, v) \<and> stages_ok mn_merge_ops (ix\<lparr>ix_table := tb\<rparr>) t \<and>
    (\<forall>b. v = Some b \<longleftrightarrow> index_has ix t (key_string k) b)"
proof -
  obtain tb r where d: "dynamic_get ix k = Some (ix\<lparr>ix_table := tb\<rparr>, map_option (ix_rows ix) r)"
    "stages_ok mn_merge_ops (ix\<lparr>ix_table := tb\<rparr>) t" "\<And>v. r = Some v \<longleftrightarrow> dt_stores t (key_string k) v"
    using dynamic_get_ok [OF assms] by blast
  show ?thesis
  proof (cases r)
    case None
    obtain v where v: "static_get (ix\<lparr>ix_table := tb\<rparr>) k = Some v"
      "\<And>b. v = Some b \<longleftrightarrow> (\<exists>w. stored mn_ops (ix_static ix) (ix_static_root ix) (key_string k) w \<and> b = lvs_value w)"
      using static_get_ok [OF d(2) assms(2)] by auto
    have "\<not> dt_stores t (key_string k) u" for u using d(3) None by auto
    then show ?thesis using None d(1,2) v by (intro exI [of _ tb] exI [of _ v]) (auto simp: mt_get_def index_has_def)
  next
    case (Some u)
    have "v = u" if "dt_stores t (key_string k) v" for v using d(3) [of v] that Some by simp
    moreover have "dt_stores t (key_string k) u" using d(3) Some by blast
    ultimately have "index_has ix t (key_string k) b \<longleftrightarrow> b = ix_rows ix u" for b unfolding index_has_def by blast
    then show ?thesis using Some d(1,2)
      by (intro exI [of _ tb] exI [of _ "Some (ix_rows ix u)"]) (simp add: mt_get_def eq_commute)
  qed
qed

text \<open>Values have eight bytes, all of which the static stage keeps.\<close>

definition values_fit :: "'n mt_index \<Rightarrow> dtree \<Rightarrow> bool" where
  "values_fit ix t \<longleftrightarrow> (\<forall>s r. dt_stores t s r \<longrightarrow> length (ix_rows ix r) = VALUE_LEN)"

lemma merge_uv_spec:
  assumes ok: "stages_ok mn_merge_ops ix t" and apart: "stages_apart mn_merge_ops ix t" and vals: "values_fit ix t"
    and fit: "merge_fits (mn_build_ops (ix_rows ix)) mn_merge_ops E ix t" and long: "8 < ix_key_size ix"
  shows "\<exists>ix' t'. merge_uv E ix = Some (Goes_On (ix', True)) \<and> stages_ok mn_merge_ops ix' t' \<and> ix_ic ix' = 0 \<and>
    ix_sic ix' = ix_sic ix + ix_ic ix \<and> (\<forall>s v. \<not> dt_stores t' s v) \<and> (\<forall>s b. index_has ix' t' s b \<longleftrightarrow> index_has ix t s b)"
proof -
  have conv: "\<forall>n i v u. mn_reads (ix_rows ix) n i v u \<longrightarrow> op_lv (go_ops mn_merge_ops) n i = lvs_of_value (ix_rows ix v)"
    by (simp add: mn_reads_def)
  obtain hs ix' t' where m: "buildStatic (ix_rows ix) (en_raw E) (en_addr E) (tb_heap (ix_table ix)) (tb_root (ix_table ix)) =
      Some (hs, en_addr E 0)" "merge_end E (run_merge mn_merge_ops E hs (en_addr E 0) ix) = Some (Goes_On (ix', True))"
    and r: "stages_ok mn_merge_ops ix' t'" "ix_ic ix' = 0" "ix_sic ix' = ix_sic ix + ix_ic ix" "\<forall>s v. \<not> dt_stores t' s v"
    and st: "\<And>s w. stored mn_ops (ix_static ix') (ix_static_root ix') s w \<longleftrightarrow>
      (\<exists>v. dt_stores t s v \<and> w = lvs_of_value (ix_rows ix v)) \<or> stored mn_ops (ix_static ix) (ix_static_root ix) s w"
    using mnx.stages_merge [where ?col0.0 = "ix_rows ix", OF conv ok apart fit] unfolding buildStatic_def mn_merge_simps(1) by blast
  have run: "merge_uv E ix = Some (Goes_On (ix', True))" using m long by (simp add: merge_uv_def)
  have row: "lvs_value (lvs_of_value (ix_rows ix v)) = ix_rows ix v" if "dt_stores t s v" for s v
    using vals that by (auto simp: values_fit_def VALUE_LEN_def intro: lvs_value_of_value)
  have "index_has ix' t' s b \<longleftrightarrow> index_has ix t s b" for s b
  proof (cases "\<exists>v. dt_stores t s v")
    case True
    have "\<not> stored mn_ops (ix_static ix) (ix_static_root ix) s w" for w
    proof (cases "s = []")
      case False
      then show ?thesis using apart True by (auto simp: stages_apart_def)
    qed (use stored_by_nonempty [of mn_ops _ _ _ "[]"] in \<open>auto simp: stored_stored_by\<close>)
    then show ?thesis using True r(4) row by (auto simp: index_has_def st)
  next
    case False
    then show ?thesis using r(4) by (auto simp: index_has_def st)
  qed
  then show ?thesis using run r by blast
qed

text \<open>Equal contents, equal answers.\<close>

lemma mt_get_same:
  assumes "stages_ok mn_merge_ops ix t" "stages_ok mn_merge_ops ix' t'" "\<forall>s b. index_has ix' t' s b \<longleftrightarrow> index_has ix t s b" "key_ok k"
  shows "\<exists>v. map_option snd (mt_get ix k) = Some v \<and> map_option snd (mt_get ix' k) = Some v"
proof -
  obtain v where v: "map_option snd (mt_get ix k) = Some v" "\<forall>b. v = Some b \<longleftrightarrow> index_has ix t (key_string k) b"
    using mt_get_spec [OF assms(1,4)] by force
  obtain v' where v': "map_option snd (mt_get ix' k) = Some v'" "\<forall>b. v' = Some b \<longleftrightarrow> index_has ix' t' (key_string k) b"
    using mt_get_spec [OF assms(2,4)] by force
  have "v = v'" using v(2) v'(2) assms(3) by (metis not_Some_eq)
  then show ?thesis using v(1) v'(1) by blast
qed

end
