(* ===== verification/Mt_Correct.thy ===== *)
theory Mt_Correct
  imports Mt_Merge
begin

text \<open>
  The properties of the index: what a lookup returns, that a merge of the stages ends and changes no answer,
  in the index with unique keys and in the one with several values per key.
\<close>

declare split_paired_All [simp del] split_paired_Ex [simp del]

section \<open>Several values per key\<close>

text \<open>The string of values: the row of the dynamic stage, or else the row the static stage points to.\<close>

definition nuv_has :: "massnode_dynamicvalue mt_index \<Rightarrow> dtree \<Rightarrow> byte list \<Rightarrow> byte list \<Rightarrow> bool" where
  "nuv_has ix t s b \<longleftrightarrow> (\<exists>r. dt_stores t s r \<and> b = ix_rows ix r) \<or>
     (\<forall>r. \<not> dt_stores t s r) \<and> (\<exists>r. stored md_ops (ix_static ix) (ix_static_root ix) s r \<and> b = ix_rows ix r)"

definition nuv_findable :: "massnode_dynamicvalue mt_index \<Rightarrow> mkey \<Rightarrow> bool" where
  "nuv_findable ix k \<longleftrightarrow> fits_path md_ops md_fits (ix_static ix) (ix_static_root ix) k"

lemma merge_nuv_spec:
  assumes ok: "stages_ok md_merge_ops ix t" and apart: "stages_apart md_merge_ops ix t"
    and fit: "merge_fits md_build_ops md_merge_ops E ix t"
  shows "\<exists>ix' t'. merge_nuv E ix = Some (Goes_On (ix', True)) \<and> stages_ok md_merge_ops ix' t' \<and> ix_ic ix' = 0 \<and>
    ix_sic ix' = ix_sic ix + ix_ic ix \<and> (\<forall>s v. \<not> dt_stores t' s v) \<and> (\<forall>s b. nuv_has ix' t' s b \<longleftrightarrow> nuv_has ix t s b)"
proof -
  have conv: "\<forall>n i v u. md_reads n i v u \<longrightarrow> op_lv (go_ops md_merge_ops) n i = v"
    by (simp add: md_reads_def)
  obtain hs ix' t' where m: "buildStaticDynamicvalue (en_raw E) (en_addr E) (tb_heap (ix_table ix)) (tb_root (ix_table ix)) =
      Some (hs, en_addr E 0)" "merge_end E (run_merge md_merge_ops E hs (en_addr E 0) ix) = Some (Goes_On (ix', True))"
    and r: "stages_ok md_merge_ops ix' t'" "ix_ic ix' = 0" "ix_sic ix' = ix_sic ix + ix_ic ix" "ix_rows ix' = ix_rows ix"
      "\<forall>s v. \<not> dt_stores t' s v"
    and st: "\<And>s w. stored md_ops (ix_static ix') (ix_static_root ix') s w \<longleftrightarrow>
      (\<exists>v. dt_stores t s v \<and> w = v) \<or> stored md_ops (ix_static ix) (ix_static_root ix) s w"
    using mdx.stages_merge [OF conv ok apart fit] unfolding buildStaticDynamicvalue_def md_merge_simps(1) by blast
  have run: "merge_nuv E ix = Some (Goes_On (ix', True))" using m by (simp add: merge_nuv_def)
  have "nuv_has ix' t' s b \<longleftrightarrow> nuv_has ix t s b" for s b
  proof (cases "\<exists>v. dt_stores t s v")
    case True
    have "\<not> stored md_ops (ix_static ix) (ix_static_root ix) s w" for w
    proof (cases "s = []")
      case False
      then show ?thesis using apart True by (auto simp: stages_apart_def)
    qed (use stored_by_nonempty [of md_ops _ _ _ "[]"] in \<open>auto simp: stored_stored_by\<close>)
    then show ?thesis using True r(4,5) by (auto simp: nuv_has_def st)
  next
    case False
    then show ?thesis using r(4,5) by (auto simp: nuv_has_def st)
  qed
  then show ?thesis using run r by blast
qed

lemma static_get_nuv1_ok:
  assumes "stages_ok md_merge_ops ix t" "key_ok k" "nuv_findable ix k"
  shows "\<exists>v. static_get_nuv1 ix k = Some v \<and>
    (\<forall>b. v = Some b \<longleftrightarrow> (\<exists>r. stored md_ops (ix_static ix) (ix_static_root ix) (key_string k) r \<and> b = ix_rows ix r))"
proof (cases "ix_sic ix = 0")
  case True
  then show ?thesis using assms(1) by (simp add: static_get_nuv1_def stages_ok_def)
next
  case sic: False
  have "\<exists>r. stcursor_dynamicvalue_find (ix_static ix) (ix_static_root ix) k = Some r \<and>
    (\<forall>w. st_value md_ops (ix_static ix) r = Some w \<longleftrightarrow> stored md_ops (ix_static ix) (ix_static_root ix) (key_string k) w)"
  proof (cases "ix_static_root ix = 0")
    case True
    then have "\<not> stored md_ops (ix_static ix) (ix_static_root ix) s w" for s w
      using assms(1) by (auto simp: stages_ok_def elim: stored.cases)
    then show ?thesis using True by (simp add: stcursor_dynamicvalue_find_def st_find_def st_value_def)
  next
    case False
    then have "mtrie md_merge_ops (ix_static ix) (ix_static_root ix)" using assms(1) by (simp add: stages_ok_def)
    then obtain A where A: "static_trie md_ops md_ok (ix_static ix) (ix_static_root ix) A" using mdk.mtrie_static by fastforce
    show ?thesis unfolding stcursor_dynamicvalue_find_def
      using md.find_correct [OF A assms(2) assms(3) [unfolded nuv_findable_def]] by blast
  qed
  then obtain r where "stcursor_dynamicvalue_find (ix_static ix) (ix_static_root ix) k = Some r"
    "\<forall>w. st_value md_ops (ix_static ix) r = Some w \<longleftrightarrow> stored md_ops (ix_static ix) (ix_static_root ix) (key_string k) w" by blast
  then show ?thesis using sic by (intro exI [of _ "map_option (ix_rows ix) (st_value md_ops (ix_static ix) r)"])
      (auto simp: static_get_nuv1_def)
qed

lemma get_nuv_spec:
  assumes "stages_ok md_merge_ops ix t" "key_ok k" "nuv_findable ix k"
  shows "\<exists>tb v. get_nuv ix k = Some (ix\<lparr>ix_table := tb\<rparr>, v) \<and>
    (\<forall>b. map_option (\<lambda>(x, y). x @ y) v = Some b \<longleftrightarrow> nuv_has ix t (key_string k) b)"
proof -
  obtain tb r where d: "dynamic_get ix k = Some (ix\<lparr>ix_table := tb\<rparr>, map_option (ix_rows ix) r)"
    "stages_ok md_merge_ops (ix\<lparr>ix_table := tb\<rparr>) t" "\<And>v. r = Some v \<longleftrightarrow> dt_stores t (key_string k) v"
    using dynamic_get_ok [OF assms(1,2)] by blast
  show ?thesis
  proof (cases r)
    case None
    have "nuv_findable (ix\<lparr>ix_table := tb\<rparr>) k" using assms(3) by (simp add: nuv_findable_def)
    then obtain v where v: "static_get_nuv1 (ix\<lparr>ix_table := tb\<rparr>) k = Some v"
      "\<And>b. v = Some b \<longleftrightarrow> (\<exists>r. stored md_ops (ix_static ix) (ix_static_root ix) (key_string k) r \<and> b = ix_rows ix r)"
      using static_get_nuv1_ok [OF d(2) assms(2)] by auto
    have "\<not> dt_stores t (key_string k) u" for u using d(3) None by auto
    then have "nuv_has ix t (key_string k) b \<longleftrightarrow> v = Some b" for b using v(2) by (simp add: nuv_has_def)
    moreover have "map_option (\<lambda>(x, y). x @ y) (map_option (\<lambda>v. ([], v)) v) = v" by (cases v) simp_all
    ultimately show ?thesis using None d(1) v(1)
      by (intro exI [of _ tb] exI [of _ "map_option (\<lambda>v. ([], v)) v"]) (simp add: get_nuv_def)
  next
    case (Some u)
    have "v = u" if "dt_stores t (key_string k) v" for v using d(3) [of v] that Some by simp
    moreover have "dt_stores t (key_string k) u" using d(3) Some by blast
    ultimately have "nuv_has ix t (key_string k) b \<longleftrightarrow> b = ix_rows ix u" for b unfolding nuv_has_def by blast
    then show ?thesis using Some d(1)
      by (intro exI [of _ tb] exI [of _ "Some (ix_rows ix u, [])"]) (simp add: get_nuv_def eq_commute)
  qed
qed

section \<open>Properties\<close>






text \<open>
  C25: the index that \<^verbatim>\<open>setup\<close> makes is well-formed, both stages are empty, no key is in both,
  and every lookup finds nothing.
\<close>

theorem mt_setup_well_formed:
  assumes "free \<noteq> []" "hd free \<noteq> 0" "raw_leaf_ok (dp_leaf (en_pool E) (hd free))"
  shows "\<exists>ix t. mt_setup E free keysize = Some ix \<and> stages_ok mn_merge_ops ix t \<and> stages_apart mn_merge_ops ix t \<and>
    values_fit ix t \<and> ix_ic ix = 0 \<and> ix_sic ix = 0 \<and> (\<forall>k. key_ok k \<longrightarrow> map_option snd (mt_get ix k) = Some None)"
proof -
  obtain tb t where i: "tb_initialize (en_pool E) free = Some (tb, tl free)" "tb_holds tb t" "\<forall>s v. \<not> dt_stores t s v"
    using initialize_ok [OF assms] by blast
  let ?ix = "\<lparr>ix_table = tb, ix_free = tl free, ix_rows = (\<lambda>_. []), ix_static = Map.empty, ix_static_root = 0, ix_ic = 0,
    ix_sic = 0, ix_key_size = keysize\<rparr> :: massnode mt_index"
  have none: "\<not> stored mn_ops Map.empty p s w" for p s w by (auto elim: stored.cases)
  have ok: "stages_ok mn_merge_ops ?ix t" using i(2,3) none by (simp add: stages_ok_def)
  have "map_option snd (mt_get ?ix k) = Some None" if "key_ok k" for k
    by (simp add: mt_get_def dynamic_get_def static_get_def)
  then show ?thesis using i ok
    by (intro exI [of _ ?ix] exI [of _ t]) (simp add: mt_setup_def stages_apart_def values_fit_def)
qed

section \<open>A concrete index\<close>

text \<open>
  The key \<open>a\<close> in a dynamic stage of one leaf; \<open>b\<close> and the string of eight \<open>c\<close> and \<open>y\<close> in the static stage.
\<close>

definition sample_stage :: dtree where
  "sample_stage = DL 2000 (one_leaf 1 (slice_of [97]) 7) []"

definition sample_rows :: "u64 \<Rightarrow> byte list" where
  "sample_rows r = [1, 2, 3, 4, 5, 6, 7, 8]"

definition sample_index :: "(node_slot list \<Rightarrow> 'n) \<Rightarrow> 'n mt_index" where
  "sample_index mkn = \<lparr>ix_table = \<lparr>tb_root = 2000, tb_heap = map_of (dt_cells sample_stage)\<rparr>, ix_free = [5000], ix_rows = sample_rows,
     ix_static = two_tries mkn, ix_static_root = 2, ix_ic = 1, ix_sic = 2, ix_key_size = 16\<rparr>"

definition sample_env :: mt_env where
  "sample_env = \<lparr>en_pool = \<lparr>dp_leaf = (\<lambda>_. zero_leaf), dp_node = (\<lambda>_. Dyn_Heap.sample_root), dp_junk = (\<lambda>_ _ _. 0)\<rparr>,
     en_cursor = \<lparr>tc_n = 0, tc_ka = key_of_bytes [], tc_ki = 0, tc_kp = 0, tc_root = 0, tc_state = 0, tc_original_n = 0,
       tc_original_v = 0, tc_updated_v = 0, tc_new_nodes = []\<rparr>,
     en_row = 9000, en_raw = (\<lambda>_ _. 0), en_addr = (\<lambda>_. 2 ^ 40), en_alloc = sample_alloc\<rparr>"

lemma sample_stage_rows: "dt_rows sample_stage = [(1, slice_of [97], 7, [])]" "lf_rows (one_leaf 1 x v) = [(1, x, v, [])]"
  using one_leaf_rows(2) [of 1] by (simp_all add: sample_stage_def kl_ok_def)

lemma sample_stores: "dt_stores sample_stage s v \<longleftrightarrow> s = [97] \<and> v = 7"
proof -
  have "slice_of [97] = slice_of s \<and> min (length s) 9 = 1 \<longleftrightarrow> s = [97]"
  proof
    assume a: "slice_of [97] = slice_of s \<and> min (length s) 9 = 1"
    then obtain x where "s = [x]" by (cases s) (auto simp: min_def split: if_splits)
    then show "s = [97]" using a by (simp add: slice_of_eq_iff pad8_def)
  qed simp
  moreover have "dt_stores sample_stage s v \<longleftrightarrow> (slice_of [97] = slice_of s \<and> min (length s) 9 = 1) \<and> v = 7"
    by (auto simp: sample_stage_def sample_stage_rows(2) rows_store_def layer_rows_def keylenx_is_layer_def row_stores_def
        kl_rank_def slot_rank_def)
  ultimately show ?thesis by blast
qed

lemma sample_stage_holds: "tb_holds \<lparr>tb_root = 2000, tb_heap = map_of (dt_cells sample_stage)\<rparr> sample_stage"
proof -
  have u: "unat (x :: u64) < 2 ^ 64" for x using unsigned_less [of x, where ?'a = nat] by simp
  have "dt_root sample_stage"
    by (simp add: dt_root_def nd_parent_def nd_has_split_def nd_version_def nv_nonroot_def
        nodeversion32_parameters_def one_leaf_def zero_leaf_def sample_stage_def)
  moreover have "dt_ok 0 (2 ^ 64) sample_stage"
    using one_leaf_rows [of 1] u by (simp add: sample_stage_def layer_rows_def kl_ok_def keylenx_is_layer_def)
  ultimately show ?thesis by (simp add: tb_holds_def holds_def sample_stage_def)
qed

lemma sample_stages_ok:
  assumes "mtrie K (two_tries mkn) 2"
  shows "stages_ok K (sample_index mkn) sample_stage"
  using assms sample_stage_holds by (simp add: stages_ok_def sample_index_def two_tries_def)

context merge_maker
begin

lemma sample_fits:
  assumes "\<And>v. bo_value_len B v < 2 ^ 32" "own K (two_tries mkn) 2 = {2}" "go_sizeof K \<le> 16"
    and mk: "node_slots K (mkn old_slots) old_slots" "go_has_ksuf K (mkn old_slots)"
  shows "merge_fits B K sample_env (sample_index mkn) sample_stage"
proof -
  have count: "dt_count sample_stage = 1" by (simp add: dt_count_def sample_stage_def)
  have next0: "lf_safe_next (one_leaf k x v) = 0" for k x v by (simp add: lf_safe_next_def one_leaf_def zero_leaf_def)
  have build: "dt_buildable B sample_stage"
    using assms(1) by (simp add: dt_buildable_def sample_stage_def layer_fits_def sample_stage_rows(2) next0 slots_fit_def suf_offset_def
        bs_value_size_def)
  have "good_slot (1, slice_of [97], 7, [])"
    by (rule string_slot [of "[97]"]) (simp_all add: fit_string_def next_item_def convert_to_ikeylen_def)
  then have good: "dt_mergeable sample_stage" by (simp add: dt_mergeable_def sample_stage_def sample_stage_rows(2))
  have wt: "dt_wt K sample_stage \<le> 100"
    using assms(3) by (simp add: dt_wt_def rows_wt_def unit_wt_def sufs_def sample_stage_def sample_stage_rows(2))
  have old: "trie_wt K (two_tries mkn) 2 \<le> 1000"
    using assms(2,3) mk slots_nkeys [OF mk(1)]
    by (simp add: trie_wt_def two_tries_def node_wt_def unit_wt_def node_slots_def) (simp add: old_slots_def sufs_def)
  have "al_addr sample_alloc k \<noteq> 2 ^ 40" if "k < alloc_max" for k
  proof
    assume a: "al_addr sample_alloc k = 2 ^ 40"
    have "unat (64 + of_nat k :: u64) = 64 + k"
    proof -
      have "(64 + of_nat k :: u64) = of_nat (64 + k)" by simp
      then show ?thesis using that unfolding alloc_max_def
        by (simp only: unsigned_of_nat) (simp add: take_bit_nat_eq_self)
    qed
    then show False using arg_cong [OF a, of unat] that by (simp add: sample_alloc_def alloc_max_def)
  qed
  then show ?thesis
    using build good wt old sample_fresh [of mkn] zero_leaf_raw
    by (auto simp: merge_fits_def count sample_index_def sample_env_def addrs_ok_def two_tries_def int_fits_def)
qed

end

lemma sample_mn:
  "stages_ok mn_merge_ops (sample_index mn_of) sample_stage" "stages_apart mn_merge_ops (sample_index mn_of) sample_stage"
  "values_fit (sample_index mn_of) sample_stage" "8 < ix_key_size (sample_index mn_of)"
  "merge_fits (mn_build_ops (ix_rows (sample_index mn_of))) mn_merge_ops sample_env (sample_index mn_of) sample_stage"
  "index_has (sample_index mn_of) sample_stage [97] [1, 2, 3, 4, 5, 6, 7, 8]"
  "index_has (sample_index mn_of) sample_stage [98] (lvs_value 7)"
proof -
  have l: "length (sufs old_slots) < 2 ^ 31" by (simp add: sufs_def old_slots_def)
  show "stages_ok mn_merge_ops (sample_index mn_of) sample_stage" by (rule sample_stages_ok [OF mn_sample(2)])
  show "stages_apart mn_merge_ops (sample_index mn_of) sample_stage"
    by (auto simp: stages_apart_def sample_stores sample_index_def mn_sample(7) eight_c_def)
  show "values_fit (sample_index mn_of) sample_stage" by (simp add: values_fit_def sample_index_def sample_rows_def VALUE_LEN_def)
  show "8 < ix_key_size (sample_index mn_of)" by (simp add: sample_index_def)
  show "merge_fits (mn_build_ops (ix_rows (sample_index mn_of))) mn_merge_ops sample_env (sample_index mn_of) sample_stage"
    by (rule mnk.sample_fits [OF _ mn_sample(4) merge_sizeof(1) packed_nodes(1) [OF l] mn_of_has]) (simp add: mn_build_ops_def)
  show "index_has (sample_index mn_of) sample_stage [97] [1, 2, 3, 4, 5, 6, 7, 8]"
    by (simp add: index_has_def sample_stores sample_index_def sample_rows_def)
  show "index_has (sample_index mn_of) sample_stage [98] (lvs_value 7)"
    by (auto simp: index_has_def sample_stores sample_index_def mn_sample(7))
qed

lemma sample_md:
  "stages_ok md_merge_ops (sample_index md_of) sample_stage" "stages_apart md_merge_ops (sample_index md_of) sample_stage"
  "merge_fits md_build_ops md_merge_ops sample_env (sample_index md_of) sample_stage"
  "nuv_has (sample_index md_of) sample_stage [97] [1, 2, 3, 4, 5, 6, 7, 8]"
  "nuv_has (sample_index md_of) sample_stage [98] [1, 2, 3, 4, 5, 6, 7, 8]"
proof -
  have l: "length (sufs old_slots) < 2 ^ 31" by (simp add: sufs_def old_slots_def)
  show "stages_ok md_merge_ops (sample_index md_of) sample_stage" by (rule sample_stages_ok [OF md_sample(2)])
  show "stages_apart md_merge_ops (sample_index md_of) sample_stage"
    by (auto simp: stages_apart_def sample_stores sample_index_def md_sample(7) eight_c_def)
  show "merge_fits md_build_ops md_merge_ops sample_env (sample_index md_of) sample_stage"
    by (rule mdk.sample_fits [OF _ md_sample(4) merge_sizeof(2) packed_nodes(2) [OF l] md_of_has]) (simp add: md_build_ops_def)
  show "nuv_has (sample_index md_of) sample_stage [97] [1, 2, 3, 4, 5, 6, 7, 8]"
    by (simp add: nuv_has_def sample_stores sample_index_def sample_rows_def)
  show "nuv_has (sample_index md_of) sample_stage [98] [1, 2, 3, 4, 5, 6, 7, 8]"
    by (auto simp: nuv_has_def sample_stores sample_index_def sample_rows_def md_sample(7))
qed

section \<open>Witnesses\<close>

theorem mt_setup_well_formed_witness:
  "\<exists>ix. mt_setup sample_env [5000] 16 = Some ix \<and> map_option snd (mt_get ix (key_of_bytes [97])) = Some None"
  using mt_setup_well_formed [of "[5000]" sample_env 16] zero_leaf_raw by (fastforce simp: sample_env_def)





lemma sample_fits_path: "fits_path md_ops md_fits (two_tries md_of) 2 (key_of_bytes [98])"
proof -
  have "op_layers md_ops (md_of old_slots) = []"
    by (simp add: op_layers_def old_slots_def md_of_get keylenx_is_layer_def upt_rec)
  moreover have "md_fits (md_of old_slots) (key_of_bytes [98])"
    by (simp add: md_fits_def old_slots_def less_Suc_eq md_of_get kl_rank_def keylenx_is_layer_def slot_rank_def slice_of_eq_iff
        pad8_def eight_c_def)
  ultimately show ?thesis using leaf_fits [of "two_tries md_of" 2] by (simp add: two_tries_def)
qed


section \<open>Where the counters go wrong\<close>

text \<open>
  C36: removing the only value of a key from the static stage of the multi-value index takes it off the counter
  twice, once as a value and once as a key: with two keys of one value each, removing one makes the counter 0,
  and since lookups do not search a stage whose counter is 0, the other key, still stored, is not found any more.
\<close>

theorem static_remove_nuv1_counts_twice:
  "ix_sic (sample_index md_of) = 2 \<and>
   (\<exists>ix'. static_remove_nuv1 sample_env (sample_index md_of) (key_of_bytes [98]) [1, 2, 3, 4, 5, 6, 7, 8] = Some (ix', True) \<and>
     ix_sic ix' = 0 \<and> stored md_ops (ix_static (sample_index md_of)) 2 (eight_c @ [121]) 8 \<and>
     stored md_ops (ix_static ix') (ix_static_root ix') (eight_c @ [121]) 8 \<and>
     (\<forall>k. static_get_nuv1 ix' k = Some None))"
proof -
  let ?h = "two_tries md_of" and ?k = "key_of_bytes [98]" and ?v = "[1, 2, 3, 4, 5, 6, 7, 8] :: byte list"
  have find: "stcursor_dynamicvalue_find ?h 2 ?k = Some (St_Found 2 0)"
    by (simp add: stcursor_dynamicvalue_find_def st_find_def two_tries_def old_slots_def search_eval
        key_compare_md_def md_ksuf_equals_def md_of_get slice_of_eq_iff slice_of_less_iff pad8_def eight_c_def)
  obtain A where A: "static_trie md_ops md_ok ?h 2 A" using mdk.mtrie_static [OF md_sample(2)] by fastforce
  have found: "\<exists>v. stored md_ops ?h 2 (key_string ?k) v" by (simp add: md_sample(7))
  obtain r h' where r: "st_remove md_ops ?h 2 ?k = Some (r, h')"
    "\<forall>t w. stored md_ops h' 2 t w \<longleftrightarrow> t \<noteq> [98] \<and> stored md_ops ?h 2 t w"
    using md.remove_correct [OF A _ sample_fits_path] find found
    by (auto simp: stcursor_dynamicvalue_find_def first_of_slice_def)
  have r': "r = St_Found 2 0" using r(1) find by (simp add: st_remove_def stcursor_dynamicvalue_find_def)
  have val: "st_value md_ops ?h (St_Found 2 0) = Some 7"
    by (simp add: st_value_def two_tries_def old_slots_def md_of_get)
  have here: "find_value ?v ?v = Some 0" by code_simp
  have left: "stored md_ops ?h 2 (eight_c @ [121]) 8" "stored md_ops h' 2 (eight_c @ [121]) 8"
    using r(2) by (simp_all add: md_sample(7) eight_c_def)
  have rem: "stcursor_dynamicvalue_remove ?h 2 ?k = Some (St_Found 2 0, h', Some 7)"
    using r(1) r' val by (simp add: stcursor_dynamicvalue_remove_def)
  let ?ix = "(sample_index md_of)\<lparr>ix_static := h', ix_sic := 0\<rparr>"
  have "static_remove_nuv1 sample_env (sample_index md_of) ?k ?v = Some (?ix, True)"
    using find val here rem
    by (simp add: static_remove_nuv1_def static_remove_key_nuv1_def sample_index_def sample_rows_def VALUE_LEN_def Let_def)
  then show ?thesis using left
    by (intro conjI exI [of _ ?ix]) (simp_all add: sample_index_def static_get_nuv1_def)
qed

end
