(* ===== verification/Dyn_Put.thy ===== *)
theory Dyn_Put
  imports Dyn_Insert
begin

text \<open>
  What an insertion into the dynamic stage does when the leaf that the key leads to holds the key already or has
  room for it: the table holds a tree that maps the key to the new value and every other string as before.
\<close>

declare split_paired_All [simp del] split_paired_Ex [simp del]

section \<open>One leaf\<close>

text \<open>The leaf after \<^verbatim>\<open>assign\<close>, the store through the cursor and \<^verbatim>\<open>finish_insert\<close>.\<close>

definition lf_inserted :: "leaf \<Rightarrow> nat \<Rightarrow> u64 \<Rightarrow> leaf" where
  "lf_inserted l ki v =
     lf_finish_insert (l\<lparr>lf_lv := (lf_lv l)[kp_back leaf_width (lf_permutation l) := v]\<rparr>) ki"

lemma key_slot_rank:
  assumes "key_ok k"
  shows "kl_rank (slot_kl (key_slot k v)) = slot_rank (key_string k)" "slot_ikey (key_slot k v) = slice_of (key_string k)"
    "kl_ok (slot_kl (key_slot k v))" "\<not> keylenx_is_layer (slot_kl (key_slot k v))"
proof -
  have kl: "slot_kl (key_slot k v) = word_of_int (key_ikeylen k)" by (simp add: key_slot_def)
  note kk = keylenx_of_key(3,4) [OF assms]
  show l: "\<not> keylenx_is_layer (slot_kl (key_slot k v))" unfolding kl by (rule kk(2))
  show "kl_rank (slot_kl (key_slot k v)) = slot_rank (key_string k)" using kk by (simp add: kl kl_rank_def)
  have "unat (slot_kl (key_slot k v)) \<le> 9" using kk(1) by (simp add: kl slot_rank_def)
  then show "kl_ok (slot_kl (key_slot k v))" by (simp add: kl_ok_def word_le_nat_alt)
  show "slot_ikey (key_slot k v) = slice_of (key_string k)" using assms by (simp add: key_slot_def key_ok_def)
qed

lemma row_cmp_order:
  assumes "key_ok k" "kl_ok (slot_kl r)"
  shows "0 < key_row_cmp k r \<longleftrightarrow> slot_less r (key_slot k v)" "key_row_cmp k r < 0 \<longleftrightarrow> slot_less (key_slot k v) r"
proof -
  note ks = key_slot_rank [OF assms(1), of v]
  have k: "k_ikey0 k = slice_of (key_string k)" using assms(1) by (simp add: key_ok_def)
  let ?c = "key_row_cmp k r" and ?x = "slot_ikey r" and ?y = "slice_of (key_string k)"
  note c = key_cmp_rank [OF assms, of ?x, folded key_row_cmp_def, unfolded k]
  have "0 < ?c \<longleftrightarrow> 0 \<le> ?c \<and> ?c \<noteq> 0" by linarith
  also have "\<dots> \<longleftrightarrow> ?x < ?y \<or> ?x = ?y \<and> kl_rank (slot_kl r) < slot_rank (key_string k)"
    unfolding c by (cases "?x = ?y") (auto simp: le_less)
  finally show "0 < ?c \<longleftrightarrow> slot_less r (key_slot k v)" unfolding slot_less_def ks(1,2) .
  have "?c < 0 \<longleftrightarrow> \<not> 0 \<le> ?c" by linarith
  also have "\<dots> \<longleftrightarrow> ?y < ?x \<or> ?y = ?x \<and> slot_rank (key_string k) < kl_rank (slot_kl r)"
    unfolding c by (cases "?x = ?y") (auto simp: not_less)
  finally show "?c < 0 \<longleftrightarrow> slot_less (key_slot k v) r" unfolding slot_less_def ks(1,2) .
qed

text \<open>A key that is in no row gets one of its own, in order.\<close>

lemma insert_row_ok:
  assumes "rows_ok rows" "key_ok k" "row_position k rows b" "\<forall>r \<in> set rows. key_row_cmp k r \<noteq> 0"
  shows "rows_ok (take b rows @ key_slot k v # drop b rows)"
proof -
  note p = assms(3) [unfolded row_position_def]
  have kl: "kl_ok (slot_kl r)" if "r \<in> set rows" for r using assms(1) that by (simp add: rows_ok_def)
  have "slot_less r (key_slot k v)" if r: "r \<in> set (take b rows)" for r
  proof -
    obtain i where "i < b" "i < length rows" "r = rows ! i" using r by (auto simp: in_set_conv_nth)
    then show ?thesis using p row_cmp_order(1) [OF assms(2) kl] by simp
  qed
  moreover have "slot_less (key_slot k v) r" if r: "r \<in> set (drop b rows)" for r
  proof -
    obtain i where "i < length rows - b" "r = drop b rows ! i" using r by (auto simp: in_set_conv_nth)
    then have "key_row_cmp k r \<le> 0" "r \<in> set rows" using p by simp_all
    then have "key_row_cmp k r < 0" using assms(4) by (simp add: order_le_neq_trans)
    then show ?thesis using row_cmp_order(2) [OF assms(2) kl [OF \<open>r \<in> set rows\<close>]] by blast
  qed
  moreover have "sorted_wrt slot_less (take b rows @ drop b rows)" using assms(1) by (simp add: rows_ok_def)
  ultimately show ?thesis
    using key_slot_rank(3) [OF assms(2), of v] kl unfolding rows_ok_def sorted_wrt_append
    by (auto dest: in_set_takeD in_set_dropD)
qed

lemma put_leaf:
  assumes "lf_sorted l" "key_ok k" "lf_size l < leaf_width" "\<forall>r \<in> set (lf_rows l). key_row_cmp k r \<noteq> 0"
    and "71 + rows_suffix_total (lf_rows l) + length (key_string k) \<le> 2 ^ 15" "row_position k (lf_rows l) b"
  shows "\<exists>m. lf_assign l (kp_back leaf_width (lf_permutation l)) k junk = Some m \<and> lf_same_links l m \<and>
    lf_rows (lf_inserted m b v) = take b (lf_rows l) @ key_slot k v # drop b (lf_rows l) \<and> lf_sorted (lf_inserted m b v)"
proof -
  let ?p = "kp_back leaf_width (lf_permutation l)"
  have lok: "lf_ok l" and rok: "rows_ok (lf_rows l)" using assms(1) by (simp_all add: lf_sorted_def)
  have ok: "kp_ok leaf_width (lf_permutation l)" "lf_ready l (set (lf_live l))" using lok by (simp_all add: lf_ok_def)
  note perm = lf_live_perm [OF ok(1)]
  note bck = lf_back [OF ok(1) assms(3)]
  have "suffix_room l (lf_mps l ?p False) (length (drop 8 (key_string k)))"
    using assms(5) by (simp add: perm(1) room_live)
  then obtain m where m: "lf_assign l ?p k junk = Some m" "slot_written l (set (lf_live l)) ?p (key_slot k 0) m"
    using assign_with_ok [OF ok(2) bck(1,2), of False k junk] assms(2) perm(1,2) by (auto simp: lf_assign_def)
  have same: "lf_same_links l m" and slot: "lf_slot m ?p = key_slot k 0" and ready: "lf_ready m (insert ?p (set (lf_live l)))"
    using m(2) by (simp_all add: slot_written_def)
  have mp: "lf_permutation m = lf_permutation l" using same by (simp add: lf_same_links_def)
  define m' where "m' = m\<lparr>lf_lv := (lf_lv m)[?p := v]\<rparr>"
  have plen: "?p < length (lf_lv m)" using ready bck(1) by (simp add: lf_ready_def)
  have slots: "lf_slot m' q = (if q = ?p then key_slot k v else lf_slot m q)" for q
    using slot plen by (auto simp: lf_slot_def m'_def key_slot_def)
  have ready': "lf_ready m' (insert ?p (set (lf_live l)))" unfolding m'_def by (rule ready_lv [OF ready])
  have perm': "lf_permutation m' = lf_permutation l" by (simp add: m'_def mp)
  have live': "lf_live m' = lf_live l" by (simp add: lf_live_def lf_size_def perm')
  have rows': "lf_rows m' = lf_rows l"
    using slots bck(2) m(2) by (auto simp: lf_rows_def live' slot_written_def)
  have b: "b \<le> lf_size l" using assms(6) perm(4) by (simp add: row_position_def lf_rows_def)
  have sz: "lf_size m' < leaf_width" "b \<le> lf_size m'" using assms(3) b by (simp_all add: lf_size_def perm')
  note fin = finish_insert_rows [of m', unfolded perm', OF ok(1) sz, unfolded rows' live']
  have ins: "lf_inserted m b v = lf_finish_insert m' b" by (simp add: lf_inserted_def m'_def mp)
  have rows: "lf_rows (lf_inserted m b v) = take b (lf_rows l) @ key_slot k v # drop b (lf_rows l)"
    using fin(3) slots by (simp add: ins)
  have "set (lf_live (lf_inserted m b v)) \<subseteq> insert ?p (set (lf_live l))"
    using fin(1) by (auto simp: ins dest: in_set_takeD in_set_dropD)
  with ready' have "lf_ready (lf_inserted m b v) (set (lf_live (lf_inserted m b v)))"
    by (cases "lf_ksuf m'") (auto simp: ins lf_ready_def lf_finish_insert_def lf_bags_def lf_has_ksuf_def subset_iff)
  then have "lf_ok (lf_inserted m b v)" using fin(2) by (simp add: lf_ok_def ins)
  then have "lf_sorted (lf_inserted m b v)"
    using insert_row_ok [OF rok assms(2,6,4)] rows by (simp add: lf_sorted_def)
  then show ?thesis using m(1) same rows by blast
qed

section \<open>What the rows store\<close>

lemma row_string_unique:
  assumes "row_stores r x w" "row_stores r y w'"
  shows "x = y"
proof -
  have "same_slot x y" using assms by (simp add: row_stores_def same_slot_def)
  then show ?thesis
  proof (cases "x = y")
    case False
    then have t: "8 < length x" "take 8 x = take 8 y" using \<open>same_slot x y\<close> by (auto simp: same_slot_iff)
    have "unat (slot_kl r) = 9" using assms(1) t(1) by (auto simp: row_stores_def kl_rank_def slot_rank_def split: if_splits)
    then have "slot_kl r = 9" by (simp add: word_unat_eq_iff)
    then have "drop 8 x = drop 8 y" using assms by (simp add: row_stores_def)
    then show ?thesis using t(2) by (metis append_take_drop_id)
  qed simp
qed

lemma key_slot_stores:
  assumes "key_ok k"
  shows "row_stores (key_slot k v) x w \<longleftrightarrow> x = key_string k \<and> w = v"
proof -
  note ks = key_slot_rank [OF assms, of v]
  have own: "row_stores (key_slot k v) (key_string k) v" using ks by (simp add: row_stores_def) (simp add: key_slot_def)
  have "w = v" if "row_stores (key_slot k v) x w" using that by (simp add: row_stores_def key_slot_def)
  then show ?thesis using own row_string_unique [OF own] by blast
qed

lemma store_inserted:
  assumes "rows_ok rows" "key_ok k" "\<forall>r \<in> set rows. key_row_cmp k r \<noteq> 0"
  shows "layer_rows (take b rows @ key_slot k v # drop b rows) = layer_rows rows"
    and "rows_store (take b rows @ key_slot k v # drop b rows) Ps x w \<longleftrightarrow>
      (if x = key_string k then w = v else rows_store rows Ps x w)"
proof -
  have app: "take b rows @ drop b rows = rows" by simp
  have "layer_rows (take b rows @ key_slot k v # drop b rows) = layer_rows (take b rows) @ layer_rows (drop b rows)"
    using key_slot_rank(4) [OF assms(2)] by (simp add: layer_rows_def)
  also have "\<dots> = layer_rows (take b rows @ drop b rows)" unfolding layer_rows_def filter_append ..
  finally show lay: "layer_rows (take b rows @ key_slot k v # drop b rows) = layer_rows rows" unfolding app .
  have "list_ex (\<lambda>r. row_stores r x w) (take b rows @ key_slot k v # drop b rows) \<longleftrightarrow>
      row_stores (key_slot k v) x w \<or> list_ex (\<lambda>r. row_stores r x w) (take b rows @ drop b rows)"
    unfolding list_ex_iff set_append list.set by blast
  note ex = this [unfolded app key_slot_stores [OF assms(2)]]
  show "rows_store (take b rows @ key_slot k v # drop b rows) Ps x w \<longleftrightarrow>
      (if x = key_string k then w = v else rows_store rows Ps x w)"
  proof (cases "x = key_string k")
    case True
    have "\<not> rows_store rows Ps (key_string k) w" by (rule rows_store_none [OF assms])
    then show ?thesis using True unfolding rows_store_def lay ex by simp
  next
    case False
    then show ?thesis unfolding rows_store_def lay ex by simp
  qed
qed

text \<open>A row with another value.\<close>

definition row_set_lv :: "u64 \<Rightarrow> node_slot \<Rightarrow> node_slot" where
  "row_set_lv v r = (slot_kl r, slot_ikey r, v, slot_suf r)"

lemma row_set_lv_simps [simp]:
  "slot_kl (row_set_lv v r) = slot_kl r" "slot_ikey (row_set_lv v r) = slot_ikey r" "slot_lv (row_set_lv v r) = v"
  "slot_suf (row_set_lv v r) = slot_suf r" "row_stores (row_set_lv v r) x w \<longleftrightarrow> row_stores r x (slot_lv r) \<and> w = v"
  "row_leads (row_set_lv v r) x = row_leads r x"
  by (simp_all add: row_set_lv_def row_stores_def row_leads_def conj_comms)

lemma store_replaced:
  assumes "rows_ok rows" "key_ok k" "i < length rows" "row_stores (rows ! i) (key_string k) u"
  shows "layer_rows (rows[i := row_set_lv v (rows ! i)]) = layer_rows rows" "rows_ok (rows[i := row_set_lv v (rows ! i)])"
    and "rows_store (rows[i := row_set_lv v (rows ! i)]) Ps x w \<longleftrightarrow>
      (if x = key_string k then w = v else rows_store rows Ps x w)"
proof -
  let ?r = "rows ! i" and ?rows = "rows[i := row_set_lv v (rows ! i)]"
  have split: "rows = take i rows @ ?r # drop (Suc i) rows" "?rows = take i rows @ row_set_lv v ?r # drop (Suc i) rows"
    using assms(3) by (simp_all add: id_take_nth_drop [symmetric] upd_conv_take_nth_drop)
  have nl: "\<not> keylenx_is_layer (slot_kl ?r)" using assms(4) by (simp add: row_stores_def)
  show lay: "layer_rows ?rows = layer_rows rows"
    using arg_cong [OF split(1), of layer_rows] arg_cong [OF split(2), of layer_rows] nl by (simp add: layer_rows_def)
  have less: "slot_less (?rows ! a) (?rows ! c) \<longleftrightarrow> slot_less (rows ! a) (rows ! c)" if "a < length rows" "c < length rows" for a c
    using that assms(3) by (simp add: nth_list_update slot_less_def)
  show "rows_ok ?rows"
    using assms(1,3) less by (auto simp: rows_ok_def sorted_wrt_iff_nth_less dest!: set_update_subset_insert [THEN subsetD])
  have cmp: "key_row_cmp k ?r = 0" by (rule stores_row_cmp(1) [OF assms(1,2) nth_mem [OF assms(3)] assms(4)])
  have ex: "list_ex P rows \<longleftrightarrow> list_ex P (take i rows) \<or> P ?r \<or> list_ex P (drop (Suc i) rows)"
    "list_ex P ?rows \<longleftrightarrow> list_ex P (take i rows) \<or> P (row_set_lv v ?r) \<or> list_ex P (drop (Suc i) rows)" for P
    by (subst split(1), simp) (subst split(2), simp)
  show "rows_store ?rows Ps x w \<longleftrightarrow> (if x = key_string k then w = v else rows_store rows Ps x w)"
  proof (cases "x = key_string k")
    case False
    have "\<not> row_stores ?r x z" for z using row_string_unique [OF assms(4)] False by blast
    then show ?thesis using False by (simp add: rows_store_def lay ex)
  next
    case True
    have ok: "rows_ok ?rows" by fact
    have "row_stores ?r (key_string k) (slot_lv ?r)" using assms(4) by (simp add: row_stores_def)
    then show ?thesis
      using rows_store_value [OF ok assms(2), of i Ps w] True assms(3) cmp nl by (simp add: key_row_cmp_def)
  qed
qed

section \<open>Where a string leads\<close>

text \<open>
  The leaf in which the walk for a string ends, through inner nodes and layers whose pointers are up to date; the
  string that is left there.
\<close>

inductive dt_leads :: "dtree \<Rightarrow> byte list \<Rightarrow> u64 \<Rightarrow> leaf \<Rightarrow> dtree list \<Rightarrow> byte list \<Rightarrow> bool" where
  leaf: "\<forall>r \<in> set (lf_rows l). \<not> row_leads r s \<Longrightarrow> dt_leads (DL a l us) s a l us s"
| layer: "j < length us \<Longrightarrow> length us = length (layer_rows (lf_rows l)) \<Longrightarrow> row_leads (layer_rows (lf_rows l) ! j) s \<Longrightarrow>
    slot_lv (layer_rows (lf_rows l) ! j) = dt_addr (us ! j) \<Longrightarrow>
    dt_leads (us ! j) (drop 8 s) b m ws x \<Longrightarrow> dt_leads (DL a l us) s b m ws x"
| inner: "in_upper (slice_of s) n < length ts \<Longrightarrow> dt_leads (ts ! in_upper (slice_of s) n) s b m ws x \<Longrightarrow>
    dt_leads (DN a n ts) s b m ws x"

inductive_cases dt_leads_leafE: "dt_leads (DL a l us) s b m ws x"
inductive_cases dt_leads_innerE: "dt_leads (DN a n ts) s b m ws x"

lemma leads_leaf_cases:
  assumes "dt_leads (DL a l us) s b m ws x"
  obtains (here) "b = a" "m = l" "ws = us" "x = s" "\<forall>r \<in> set (lf_rows l). \<not> row_leads r s"
  | (below) j where "j < length us" "length us = length (layer_rows (lf_rows l))" "row_leads (layer_rows (lf_rows l) ! j) s"
      "slot_lv (layer_rows (lf_rows l) ! j) = dt_addr (us ! j)" "dt_leads (us ! j) (drop 8 s) b m ws x"
  using assms by (rule dt_leads_leafE) auto

text \<open>The tree with another leaf at an address.\<close>

primrec dt_replace :: "u64 \<Rightarrow> leaf \<Rightarrow> dtree \<Rightarrow> dtree" where
  "dt_replace a l' (DL b l us) = DL b (if b = a then l' else l) (map (dt_replace a l') us)"
| "dt_replace a l' (DN b n ts) = DN b n (map (dt_replace a l') ts)"

definition dt_addrs :: "dtree \<Rightarrow> u64 list" where
  "dt_addrs t = map fst (dt_cells t)"

lemma dt_addrs_simps [simp]:
  "dt_addrs (DL a l us) = a # concat (map dt_addrs us)" "dt_addrs (DN a n ts) = a # concat (map dt_addrs ts)"
  by (simp_all add: dt_addrs_def [abs_def] map_concat comp_def)

lemma replace_other: "a \<notin> set (dt_addrs t) \<Longrightarrow> dt_replace a l t = t"
  by (induction t) (auto intro!: map_idI)

lemma leads_addr: "dt_leads t s b m ws x \<Longrightarrow> b \<in> set (dt_addrs t)"
proof (induction rule: dt_leads.induct)
  case (layer j us l s b m ws x a)
  then have "us ! j \<in> set us" by simp
  then show ?case using layer.IH by auto
next
  case (inner s n ts b m ws x a)
  then have "ts ! in_upper (slice_of s) n \<in> set ts" by simp
  then show ?case using inner.IH by auto
qed simp

text \<open>Distinct addresses: the leaf is below one child only.\<close>

lemma concat_apart:
  assumes "distinct (concat xss)" "i < length xss" "j < length xss" "i \<noteq> j"
  shows "set (xss ! i) \<inter> set (xss ! j) = {}"
proof -
  have less: "set (xss ! i) \<inter> set (xss ! j) = {}" if "i < j" "j < length xss" for i j
  proof -
    have "concat xss = concat (take j xss) @ concat (drop j xss)"
      by (metis append_take_drop_id concat_append)
    then have "set (concat (take j xss)) \<inter> set (concat (drop j xss)) = {}" using assms(1) by simp
    moreover have "xss ! i \<in> set (take j xss)" using that by (auto simp: in_set_conv_nth)
    moreover have "xss ! j \<in> set (drop j xss)" using that by (simp add: Cons_nth_drop_Suc [symmetric])
    ultimately show ?thesis by fastforce
  qed
  show ?thesis
  proof (cases i j rule: linorder_cases)
    case greater
    then show ?thesis using less [of j i] assms(2) by blast
  qed (use less assms in auto)
qed

lemma replace_child:
  assumes "distinct (concat (map dt_addrs ts))" "j < length ts" "b \<in> set (dt_addrs (ts ! j))"
  shows "map (dt_replace b l) ts = ts[j := dt_replace b l (ts ! j)]"
proof (rule nth_equalityI)
  fix i assume "i < length (map (dt_replace b l) ts)"
  then have i: "i < length ts" by simp
  show "map (dt_replace b l) ts ! i = ts[j := dt_replace b l (ts ! j)] ! i"
  proof (cases "i = j")
    case False
    have "set (dt_addrs (ts ! i)) \<inter> set (dt_addrs (ts ! j)) = {}"
      using concat_apart [OF assms(1), of i j] assms(2) i False by simp
    then have "b \<notin> set (dt_addrs (ts ! i))" using assms(3) by blast
    then show ?thesis using i False replace_other by simp
  qed (use i in simp)
qed simp

section \<open>Another leaf in the tree\<close>

text \<open>What the walks read of the nodes of a left spine.\<close>

definition spine_view :: "dtree \<Rightarrow> (u64 \<times> u64 \<times> bool) list" where
  "spine_view t = map (\<lambda>(a, n). (a, nd_parent n, nd_has_split n)) (dt_spine t)"

definition lf_keeps :: "leaf \<Rightarrow> leaf \<Rightarrow> bool" where
  "lf_keeps l l' \<longleftrightarrow> lf_version l' = lf_version l \<and> lf_parent l' = lf_parent l"

lemma keeps_view: "lf_keeps l l' \<Longrightarrow> nd_parent (Leaf_Node l') = nd_parent (Leaf_Node l) \<and> nd_has_split (Leaf_Node l') = nd_has_split (Leaf_Node l)"
  by (simp add: lf_keeps_def nd_parent_def nd_has_split_def nd_version_def)

lemma view_Cons: "\<exists>xs. spine_view t = (dt_addr t, nd_parent (dt_node t), nd_has_split (dt_node t)) # xs"
  using spine_hd [of t] by (auto simp: spine_view_def)

lemma view_same:
  assumes "spine_view u = spine_view t"
  shows "dt_addr u = dt_addr t" "nd_parent (dt_node u) = nd_parent (dt_node t)" "dt_root u = dt_root t" "points_into r u = points_into r t"
proof -
  have root: "dt_root t \<longleftrightarrow> nd_parent (dt_node t) = 0 \<and> \<not> nd_has_split (dt_node t) \<and> (\<forall>(a, p, sp) \<in> set (tl (spine_view t)). sp)" for t
    by (auto simp: dt_root_def spine_view_def map_tl [symmetric])
  show a: "dt_addr u = dt_addr t" "nd_parent (dt_node u) = nd_parent (dt_node t)"
    using assms view_Cons [of u] view_Cons [of t] by auto
  have "nd_has_split (dt_node u) = nd_has_split (dt_node t)" using assms view_Cons [of u] view_Cons [of t] by auto
  then show "dt_root u = dt_root t" unfolding root assms a(2) by simp
  have "fst ` set (dt_spine t) = fst ` set (spine_view t)" for t by (force simp: spine_view_def)
  then show "points_into r u = points_into r t" by (simp add: points_into_def assms)
qed

lemma replace_leaf:
  assumes "distinct (dt_addrs (DL a l us))"
  shows "dt_replace a l' (DL a l us) = DL a l' us"
  using assms by (auto intro!: map_idI replace_other)

text \<open>The subtree the walk goes on with is the only one that changes.\<close>

lemma replace_below:
  assumes "distinct (dt_addrs (DL a l us))" "j < length us" "dt_leads (us ! j) s b m ws x"
  shows "dt_replace b l' (DL a l us) = DL a l (us[j := dt_replace b l' (us ! j)])" "distinct (dt_addrs (us ! j))"
proof -
  have b: "b \<in> set (dt_addrs (us ! j))" by (rule leads_addr [OF assms(3)])
  have "us ! j \<in> set us" using assms(2) by simp
  then have "a \<noteq> b" using assms(1) b by auto
  moreover have "distinct (concat (map dt_addrs us))" using assms(1) by simp
  ultimately show "dt_replace b l' (DL a l us) = DL a l (us[j := dt_replace b l' (us ! j)])"
    using replace_child [OF _ assms(2) b] by simp
  show "distinct (dt_addrs (us ! j))" using assms(1) \<open>us ! j \<in> set us\<close> by (simp add: distinct_concat_iff)
qed

lemma replace_inner:
  assumes "distinct (dt_addrs (DN a n ts))" "j < length ts" "dt_leads (ts ! j) s b m ws x"
  shows "dt_replace b l' (DN a n ts) = DN a n (ts[j := dt_replace b l' (ts ! j)])" "distinct (dt_addrs (ts ! j))"
proof -
  have b: "b \<in> set (dt_addrs (ts ! j))" by (rule leads_addr [OF assms(3)])
  have d: "distinct (concat (map dt_addrs ts))" using assms(1) by simp
  show "dt_replace b l' (DN a n ts) = DN a n (ts[j := dt_replace b l' (ts ! j)])"
    using replace_child [OF d assms(2) b] by simp
  show "distinct (dt_addrs (ts ! j))" using d assms(2) by (simp add: distinct_concat_iff)
qed

lemma view_list_update:
  assumes "spine_view (f (ts ! j)) = spine_view (ts ! j)" "j < length ts" "i < length ts"
  shows "spine_view (ts[j := f (ts ! j)] ! i) = spine_view (ts ! i)"
  using assms by (cases "i = j") simp_all

lemma replace_view:
  "dt_leads t s b m ws x \<Longrightarrow> distinct (dt_addrs t) \<Longrightarrow> lf_keeps m l' \<Longrightarrow> spine_view (dt_replace b l' t) = spine_view t"
proof (induction rule: dt_leads.induct)
  case (leaf l s a us)
  then show ?case using keeps_view [of l l'] by (simp add: replace_leaf spine_view_def del: dt_replace.simps)
next
  case (layer j us l s b m ws x a)
  then show ?case using replace_below(1) [OF layer.prems(1) layer.hyps(1,5), of l'] by (simp add: spine_view_def del: dt_replace.simps)
next
  case (inner s n ts b m ws x a)
  let ?j = "in_upper (slice_of s) n"
  note r = replace_inner(1) [OF inner.prems(1) inner.hyps(1,2), of l'] replace_inner(2) [OF inner.prems(1) inner.hyps(1,2)]
  obtain t ts' where ts: "ts = t # ts'" using inner.hyps(1) by (cases ts) auto
  have v: "spine_view (ts[?j := dt_replace b l' (ts ! ?j)] ! 0) = spine_view (ts ! 0)"
    by (rule view_list_update) (use inner.IH r(2) inner.prems(2) inner.hyps(1) ts in auto)
  have sp: "spine_view (DN a n us) = (a, nd_parent (Inter_Node n), nd_has_split (Inter_Node n)) # spine_view (us ! 0)"
    if "us \<noteq> []" for us using that by (cases us) (simp_all add: spine_view_def)
  have "ts[?j := dt_replace b l' (ts ! ?j)] \<noteq> []"
    using inner.hyps(1) by (metis length_list_update less_nat_zero_code list.size(3))
  then show ?case unfolding r(1) using sp v ts by simp
qed

lemma replace_holds:
  "holds h t \<Longrightarrow> h b = Some (Leaf_Node m) \<Longrightarrow> holds (h(b \<mapsto> Leaf_Node l')) (dt_replace b l' t)"
proof (induction t)
  case (DN a n ts)
  then have "a \<noteq> b" by (auto simp: holds_simps)
  then show ?case using DN by (auto simp: holds_simps)
qed (auto simp: holds_simps)

text \<open>What must hold of the new leaf.\<close>

definition leaf_fits :: "u64 \<Rightarrow> leaf \<Rightarrow> leaf \<Rightarrow> dtree list \<Rightarrow> byte list \<Rightarrow> bool" where
  "leaf_fits b m l' ws x \<longleftrightarrow> (\<forall>lo hi. dt_ok lo hi (DL b m ws) \<longrightarrow> lo \<le> unat (slice_of x) \<longrightarrow> unat (slice_of x) < hi \<longrightarrow>
     dt_ok lo hi (DL b l' ws))"

lemma slice_bound: "unat (slice_of s) < 2 ^ 64"
  using unsigned_less [of "slice_of s", where ?'a = nat] by simp

lemma replace_ok:
  "dt_leads t s b m ws x \<Longrightarrow> distinct (dt_addrs t) \<Longrightarrow> lf_keeps m l' \<Longrightarrow> leaf_fits b m l' ws x \<Longrightarrow> dt_ok lo hi t \<Longrightarrow>
     lo \<le> unat (slice_of s) \<Longrightarrow> unat (slice_of s) < hi \<Longrightarrow> dt_ok lo hi (dt_replace b l' t)"
proof (induction arbitrary: lo hi rule: dt_leads.induct)
  case (leaf l s a us)
  then show ?case unfolding replace_leaf [OF leaf.prems(1)] leaf_fits_def by blast
next
  case (layer j us l s b m ws x a)
  note r = replace_below(1) [OF layer.prems(1) layer.hyps(1,5), of l'] replace_below(2) [OF layer.prems(1) layer.hyps(1,5)]
  let ?u = "dt_replace b l' (us ! j)"
  note v = view_same [OF replace_view [OF layer.hyps(5) r(2) layer.prems(2)]]
  have uj: "us ! j \<in> set us" using layer.hyps(1) by simp
  have "dt_root (us ! j)" "dt_ok 0 (2 ^ 64) (us ! j)" using layer.prems(4) uj by simp_all
  then have u: "dt_root ?u" "dt_ok 0 (2 ^ 64) ?u"
    using v(3) layer.IH [OF r(2) layer.prems(2,3) _ le0 slice_bound] by simp_all
  have "points_into r (us[j := ?u] ! i) = points_into r (us ! i)" if "i < length us" for r i
    using that v(4) [of r] by (cases "i = j") simp_all
  then have "list_all2 points_into (layer_rows (lf_rows l)) (us[j := ?u])"
    using layer.prems(4) by (simp add: list_all2_conv_all_nth)
  moreover have "\<forall>u \<in> set (us[j := ?u]). dt_root u \<and> dt_ok 0 (2 ^ 64) u"
    using layer.prems(4) u by (auto dest!: set_update_subset_insert [THEN subsetD])
  ultimately show ?case unfolding r(1) using layer.prems(4) by simp
next
  case (inner s n ts b m ws x a)
  let ?j = "in_upper (slice_of s) n" and ?u = "dt_replace b l' (ts ! in_upper (slice_of s) n)"
  note r = replace_inner(1) [OF inner.prems(1) inner.hyps(1,2), of l'] replace_inner(2) [OF inner.prems(1) inner.hyps(1,2)]
  note v = view_same [OF replace_view [OF inner.hyps(2) r(2) inner.prems(2)]]
  obtain lo' hi' where c: "dt_ok lo' hi' (ts ! ?j)" "lo' \<le> unat (slice_of s)" "unat (slice_of s) < hi'"
    "dt_ranges lo (in_keys n) hi ! ?j = (lo', hi')"
    by (rule child_of [OF inner.prems(4-6)])
  have u: "dt_ok lo' hi' ?u" by (rule inner.IH [OF r(2) inner.prems(2,3) c(1-3)])
  have addr: "map dt_addr (ts[?j := ?u]) = map dt_addr ts"
    using v(1) inner.hyps(1) by (simp add: map_update list_update_same_conv)
  have par: "\<forall>t \<in> set (ts[?j := ?u]). nd_parent (dt_node t) = a"
    using inner.prems(4) v(2) inner.hyps(1) by (auto dest!: set_update_subset_insert [THEN subsetD])
  have "\<forall>x \<in> set (zip (dt_ranges lo (in_keys n) hi) (ts[?j := ?u])). dt_ok (fst (fst x)) (snd (fst x)) (snd x)"
  proof
    fix x assume "x \<in> set (zip (dt_ranges lo (in_keys n) hi) (ts[?j := ?u]))"
    then obtain i where i: "x = (dt_ranges lo (in_keys n) hi ! i, ts[?j := ?u] ! i)" "i < length ts"
      "i < length (dt_ranges lo (in_keys n) hi)" by (auto simp: set_zip)
    show "dt_ok (fst (fst x)) (snd (fst x)) (snd x)"
    proof (cases "i = ?j")
      case True
      then show ?thesis using i(1) c(4) u inner.hyps(1) by simp
    next
      case False
      have "(dt_ranges lo (in_keys n) hi ! i, ts ! i) \<in> set (zip (dt_ranges lo (in_keys n) hi) ts)"
        using i(2,3) by (auto simp: in_set_zip)
      then show ?thesis using False i(1) inner.prems(4) by force
    qed
  qed
  then show ?case unfolding r(1) using inner.prems(4) addr par by simp
qed

text \<open>The new tree stores the string of the walk with the new value, and all others as before.\<close>

lemma rows_same:
  assumes "rows_ok rows" "q \<in> set rows" "r \<in> set rows" "slot_ikey q = slot_ikey r" "kl_rank (slot_kl q) = kl_rank (slot_kl r)"
  shows "q = r"
proof -
  obtain i j where i: "i < length rows" "q = rows ! i" "j < length rows" "r = rows ! j"
    using assms(2,3) by (metis in_set_conv_nth)
  have ord: "slot_less (rows ! a) (rows ! c)" if "a < c" "c < length rows" for a c
    using assms(1) that by (simp add: rows_ok_def sorted_wrt_iff_nth_less)
  show ?thesis
  proof (cases i j rule: linorder_cases)
    case less
    then show ?thesis using ord [of i j] i assms(4,5)
      by (simp add: slot_less_def)
  next
    case greater
    then show ?thesis using ord [of j i] i assms(4,5) by (simp add: slot_less_def)
  qed (use i in simp)
qed

lemma leads_layer_only:
  assumes "rows_ok rows" "j < length (layer_rows rows)" "row_leads (layer_rows rows ! j) s" "8 < length y"
    and "i < length (layer_rows rows)" "row_leads (layer_rows rows ! i) y" "slice_of y = slice_of s"
  shows "i = j"
proof -
  let ?L = "layer_rows rows"
  have sorted: "sorted_wrt slot_less ?L" using assms(1) sorted_wrt_filter by (fastforce simp: rows_ok_def layer_rows_def)
  have less: "slot_less (?L ! a) (?L ! c)" if "a < c" "c < length ?L" for a c
    using sorted that by (simp add: sorted_wrt_iff_nth_less)
  have "slot_ikey (?L ! i) = slot_ikey (?L ! j)" "kl_rank (slot_kl (?L ! i)) = kl_rank (slot_kl (?L ! j))"
    using assms(3,6,7) by (simp_all add: row_leads_def kl_rank_def)
  then show ?thesis using less [of i j] less [of j i] assms(2,5) by (cases i j rule: linorder_cases) (auto simp: slot_less_def)
qed

lemma rows_store_nth:
  assumes "length Ps = length (layer_rows rows)"
  shows "rows_store rows Ps y w \<longleftrightarrow> (\<exists>r \<in> set rows. row_stores r y w) \<or>
    (\<exists>i < length Ps. row_leads (layer_rows rows ! i) y \<and> (Ps ! i) (drop 8 y) w)"
proof -
  have "list_ex (\<lambda>(r, P). row_leads r y \<and> P (drop 8 y) w) (zip (layer_rows rows) Ps) \<longleftrightarrow>
      (\<exists>i < length Ps. row_leads (layer_rows rows ! i) y \<and> (Ps ! i) (drop 8 y) w)"
    unfolding list_ex_iff set_zip using assms by force
  then show ?thesis by (simp add: rows_store_def list_ex_iff)
qed

text \<open>A string that a layer slot leads is stored below it or nowhere.\<close>

lemma layer_stores:
  assumes "rows_ok rows" "length Ps = length (layer_rows rows)" "j < length (layer_rows rows)" "row_leads (layer_rows rows ! j) y"
  shows "rows_store rows Ps y w \<longleftrightarrow> (Ps ! j) (drop 8 y) w"
proof -
  let ?L = "layer_rows rows"
  have lead: "8 < length y" "slot_ikey (?L ! j) = slice_of y" "keylenx_is_layer (slot_kl (?L ! j))"
    using assms(4) by (simp_all add: row_leads_def)
  have one: "i = j" if "i < length ?L" "row_leads (?L ! i) y" for i
    by (rule leads_layer_only [OF assms(1,3,4) lead(1) that refl])
  have no: "\<not> row_stores q y w" if q: "q \<in> set rows" for q
  proof
    assume st: "row_stores q y w"
    have lj: "?L ! j \<in> set rows" using nth_mem [OF assms(3)] by (simp add: layer_rows_def)
    have same: "slot_ikey q = slot_ikey (?L ! j)" "kl_rank (slot_kl q) = kl_rank (slot_kl (?L ! j))"
      using st lead by (auto simp: row_stores_def kl_rank_def slot_rank_def)
    have "q = ?L ! j" by (rule rows_same [OF assms(1) q lj same])
    then show False using st lead(3) by (simp add: row_stores_def)
  qed
  show ?thesis unfolding rows_store_nth [OF assms(2)]
  proof
    assume "(\<exists>r \<in> set rows. row_stores r y w) \<or> (\<exists>i < length Ps. row_leads (?L ! i) y \<and> (Ps ! i) (drop 8 y) w)"
    then obtain i where "i < length Ps" "row_leads (?L ! i) y" "(Ps ! i) (drop 8 y) w" using no by metis
    then show "(Ps ! j) (drop 8 y) w" using one [of i] assms(2) by simp
  next
    assume "(Ps ! j) (drop 8 y) w"
    then show "(\<exists>r \<in> set rows. row_stores r y w) \<or> (\<exists>i < length Ps. row_leads (?L ! i) y \<and> (Ps ! i) (drop 8 y) w)"
      using assms(2-4) by (intro disjI2 exI [of _ j] conjI) simp_all
  qed
qed

lemma inner_stores:
  assumes "dt_ok lo hi (DN a n ts)" "in_upper (slice_of s) n < length ts"
  shows "dt_stores (DN a n ts) s w \<longleftrightarrow> dt_stores (ts ! in_upper (slice_of s) n) s w"
proof -
  have "dt_stores (DN a n ts) s w \<longleftrightarrow> (\<exists>i < length ts. dt_stores (ts ! i) s w)"
    by (simp add: list_ex_iff) (metis in_set_conv_nth)
  then show ?thesis using child_only [OF assms(1)] assms(2) by blast
qed

lemma leads_stores:
  "dt_leads t s b m ws x \<Longrightarrow> dt_ok lo hi t \<Longrightarrow> dt_stores t s w \<longleftrightarrow> rows_store (lf_rows m) (map dt_stores ws) x w"
proof (induction arbitrary: lo hi rule: dt_leads.induct)
  case (layer j us l s b m ws x a)
  have "rows_ok (lf_rows l)" "dt_ok 0 (2 ^ 64) (us ! j)" using layer.prems layer.hyps(1) by (simp_all add: lf_sorted_def)
  then show ?case using layer_stores [of "lf_rows l" "map dt_stores us" j s w] layer.hyps(1-3) layer.IH by simp
next
  case (inner s n ts b m ws x a)
  obtain lo' hi' where "dt_ok lo' hi' (ts ! in_upper (slice_of s) n)" using child_range(3) [OF inner.prems inner.hyps(1)] by blast
  then show ?case unfolding inner_stores [OF inner.prems inner.hyps(1)] by (rule inner.IH)
qed simp

lemma replace_stores:
  "dt_leads t s b m ws x \<Longrightarrow> distinct (dt_addrs t) \<Longrightarrow> dt_ok lo hi t \<Longrightarrow>
     (\<forall>y w. rows_store (lf_rows l') (map dt_stores ws) y w \<longleftrightarrow>
        (if y = x then Q w else rows_store (lf_rows m) (map dt_stores ws) y w)) \<Longrightarrow>
     dt_stores (dt_replace b l' t) y w \<longleftrightarrow> (if y = s then Q w else dt_stores t y w)"
proof (induction arbitrary: lo hi y rule: dt_leads.induct)
  case (leaf l s a us)
  then show ?case by (simp add: replace_leaf del: dt_replace.simps)
next
  case (layer j us l s b m ws x a)
  note r = replace_below(1) [OF layer.prems(1) layer.hyps(1,5), of l'] replace_below(2) [OF layer.prems(1) layer.hyps(1,5)]
  let ?u = "dt_replace b l' (us ! j)" and ?L = "layer_rows (lf_rows l)"
  have ok: "rows_ok (lf_rows l)" "dt_ok 0 (2 ^ 64) (us ! j)" using layer.prems(2) layer.hyps(1) by (simp_all add: lf_sorted_def)
  note IH = layer.IH [OF r(2) ok(2) layer.prems(3)]
  have jL: "j < length ?L" using layer.hyps(1,2) by simp
  show ?case
  proof (cases "row_leads (?L ! j) y")
    case True
    have d: "drop 8 y = drop 8 s \<longleftrightarrow> y = s"
    proof
      assume e: "drop 8 y = drop 8 s"
      have "take 8 y = take 8 s" using True layer.hyps(3) by (simp add: row_leads_def slice_of_eq_iff pad8_def)
      then show "y = s" using e by (metis append_take_drop_id)
    qed simp
    have "dt_stores (DL a l vs) y w \<longleftrightarrow> dt_stores (vs ! j) (drop 8 y) w" if "length vs = length us" for vs
      using layer_stores [OF ok(1) _ jL True, of "map dt_stores vs" w] that layer.hyps(1,2) by simp
    from this [of "us[j := ?u]"] this [of us] show ?thesis unfolding r(1) using layer.hyps(1) IH d by simp
  next
    case False
    then have "y \<noteq> s" using layer.hyps(3) by blast
    moreover have "row_leads (?L ! i) y \<and> (map dt_stores (us[j := ?u]) ! i) (drop 8 y) w \<longleftrightarrow>
        row_leads (?L ! i) y \<and> (map dt_stores us ! i) (drop 8 y) w" if "i < length us" for i
      using False that by (cases "i = j") simp_all
    ultimately show ?thesis unfolding r(1) dt_stores.simps
      using rows_store_nth [of "map dt_stores (us[j := ?u])" "lf_rows l" y w] rows_store_nth [of "map dt_stores us" "lf_rows l" y w]
        layer.hyps(2) by (simp del: nth_map cong: conj_cong)
  qed
next
  case (inner s n ts b m ws x a)
  let ?j = "in_upper (slice_of s) n" and ?u = "dt_replace b l' (ts ! in_upper (slice_of s) n)"
  note r = replace_inner(1) [OF inner.prems(1) inner.hyps(1,2), of l'] replace_inner(2) [OF inner.prems(1) inner.hyps(1,2)]
  have c: "\<exists>lo' hi'. dt_ok lo' hi' (ts ! ?j)" using child_range(3) [OF inner.prems(2) inner.hyps(1)] by blast
  then have IH: "dt_stores ?u y w \<longleftrightarrow> (if y = s then Q w else dt_stores (ts ! ?j) y w)" for y
    using inner.IH [OF r(2) _ inner.prems(3)] by blast
  have store: "dt_stores (DN a n vs) y w \<longleftrightarrow> (\<exists>i < length vs. dt_stores (vs ! i) y w)" for vs y
    by (simp add: list_ex_iff) (metis in_set_conv_nth)
  have "dt_stores (ts[?j := ?u] ! i) y w \<longleftrightarrow> (if i = ?j then dt_stores ?u y w else dt_stores (ts ! i) y w)" for i
    using inner.hyps(1) by (cases "i = ?j") simp_all
  then have "(\<exists>i < length ts. dt_stores (ts[?j := ?u] ! i) y w) \<longleftrightarrow> dt_stores ?u y w \<or> (\<exists>i < length ts. i \<noteq> ?j \<and> dt_stores (ts ! i) y w)"
    using inner.hyps(1) by (metis (full_types))
  then have new: "dt_stores (dt_replace b l' (DN a n ts)) y w \<longleftrightarrow> dt_stores ?u y w \<or> (\<exists>i < length ts. i \<noteq> ?j \<and> dt_stores (ts ! i) y w)"
    unfolding r(1) store length_list_update .
  have old: "dt_stores (DN a n ts) y w \<longleftrightarrow> dt_stores (ts ! ?j) y w \<or> (\<exists>i < length ts. i \<noteq> ?j \<and> dt_stores (ts ! i) y w)"
    unfolding store using inner.hyps(1) by blast
  show ?case
  proof (cases "y = s")
    case True
    then have "\<not> (\<exists>i < length ts. i \<noteq> ?j \<and> dt_stores (ts ! i) y w)" using child_only [OF inner.prems(2)] by blast
    then show ?thesis unfolding new using IH [of y] True by auto
  next
    case False
    then show ?thesis unfolding new old using IH [of y] by simp
  qed
qed

section \<open>The walk of the cursor\<close>

lemma leads_find:
  "dt_leads t s b m ws x \<Longrightarrow> \<exists>a l us. dt_find (slice_of s) t = DL a l us \<and> dt_leads (DL a l us) s b m ws x"
proof (induction t)
  case (DL a l us)
  then show ?case by simp
next
  case (DN a n ts)
  let ?j = "in_upper (slice_of s) n"
  from DN.prems have j: "?j < length ts" "dt_leads (ts ! ?j) s b m ws x" by (auto elim: dt_leads_innerE)
  then show ?case using DN.IH [of "ts ! ?j"] by simp
qed

lemma ksuf_of_row:
  assumes "lf_ready l (set (lf_live l))" "rows_ok (lf_rows l)" "key_ok k" "i < lf_size l" "length (lf_live l) = lf_size l"
    and "key_row_cmp k (lf_rows l ! i) = 0" "\<not> keylenx_is_layer (lf_keylenx l ! (lf_live l ! i))"
  shows "lf_ksuf_equals l (lf_live l ! i) k (lf_keylenx l ! (lf_live l ! i)) \<longleftrightarrow>
    (lf_keylenx l ! (lf_live l ! i) = 9 \<longrightarrow> slot_suf (lf_rows l ! i) = drop 8 (key_string k))"
proof (cases "lf_keylenx l ! (lf_live l ! i) = 9")
  case True
  have i: "i < length (lf_rows l)" "lf_rows l ! i = lf_slot l (lf_live l ! i)" using assms(4,5) by (simp_all add: lf_rows_def)
  have "kl_rank (slot_kl (lf_rows l ! i)) = slot_rank (key_string k)"
    using row_cmp_rank [OF assms(2) nth_mem [OF i(1)] assms(3)] assms(6) by blast
  then have "slot_rank (key_string k) = 9" using True i(2) by (simp add: lf_slot_def kl_rank_def keylenx_is_layer_def)
  then have "8 < k_len k" using key_len_string [OF assms(3)] by (simp add: slot_rank_def)
  then show ?thesis
    using ksuf_equals_suffix [OF assms(1) _ True] assms(4,5) True i(2)
    by (simp add: lf_slot_def lf_has_ksuf_def keylenx_has_ksuf_def)
next
  case False
  then show ?thesis by (simp add: lf_ksuf_equals_def keylenx_has_ksuf_def)
qed

text \<open>What the search of an insertion finds in a leaf.\<close>

lemma lower_cases:
  assumes "lf_sorted l" "key_ok k"
  obtains (none) ki where "lf_lower_with_position k l = (ki, - 1)" "row_position k (lf_rows l) ki" "\<forall>r \<in> set (lf_rows l). key_row_cmp k r \<noteq> 0"
  | (row) ki i where "lf_lower_with_position k l = (ki, int (lf_live l ! i))" "i < lf_size l" "key_row_cmp k (lf_rows l ! i) = 0"
      "lf_rows l ! i = lf_slot l (lf_live l ! i)"
proof -
  note sp = leaf_search_spec [OF assms]
  obtain ki kp where L: "lf_lower_with_position k l = (ki, kp)" by (cases "lf_lower_with_position k l")
  have len: "length (lf_live l) = lf_size l" using assms(1) lf_live_perm(4) by (simp add: lf_sorted_def lf_ok_def)
  show thesis
  proof (cases "kp = - 1 \<and> (\<forall>r \<in> set (lf_rows l). key_row_cmp k r \<noteq> 0)")
    case True
    then show thesis using none [of ki] sp L by simp
  next
    case False
    then obtain i where "i < lf_size l" "kp = int (lf_live l ! i)" "key_row_cmp k (lf_rows l ! i) = 0" using sp L by auto
    then show thesis using row [of ki i] L len by (simp add: lf_rows_def)
  qed
qed

lemma leads_row:
  assumes "lf_sorted l" "key_ok k" "j < length (layer_rows (lf_rows l))" "row_leads (layer_rows (lf_rows l) ! j) (key_string k)"
  obtains ki i where "lf_lower_with_position k l = (ki, int (lf_live l ! i))" "lf_is_layer l (lf_live l ! i)"
    "lf_lv l ! (lf_live l ! i) = slot_lv (layer_rows (lf_rows l) ! j)" "key_has_suffix k"
proof -
  let ?r = "layer_rows (lf_rows l) ! j"
  have rows: "rows_ok (lf_rows l)" using assms(1) by (simp add: lf_sorted_def)
  have r: "?r \<in> set (lf_rows l)" using nth_mem [OF assms(3)] by (simp add: layer_rows_def)
  have cmp: "key_row_cmp k ?r = 0" by (rule stores_row_cmp(2) [OF rows assms(2) r assms(4)])
  have suf: "key_has_suffix k" using assms(4) key_len_string [OF assms(2)] by (simp add: row_leads_def key_has_suffix_def)
  show thesis
    using assms(1,2)
  proof (cases rule: lower_cases)
    case (none ki)
    then show thesis using r cmp by blast
  next
    case (row ki i)
    obtain i' where i': "i' < length (lf_rows l)" "lf_rows l ! i' = ?r" using r by (metis in_set_conv_nth)
    have "length (lf_rows l) = lf_size l" using assms(1) lf_live_perm(4) by (simp add: lf_rows_def lf_sorted_def lf_ok_def)
    then have "i = i'" using row_unique [OF rows assms(2), of i i'] row i' cmp by simp
    then have "lf_slot l (lf_live l ! i) = ?r" using row(4) i'(2) by simp
    from arg_cong [OF this, of slot_lv] arg_cong [OF this, of slot_kl]
    have "slot_lv ?r = lf_lv l ! (lf_live l ! i)" "slot_kl ?r = lf_keylenx l ! (lf_live l ! i)" by (simp_all add: lf_slot_def)
    then show thesis using that [OF row(1)] assms(4) suf by (simp add: row_leads_def lf_is_layer_def)
  qed
qed

text \<open>
  From the root of a layer to the leaf where the walk ends, for any loop that reaches a leaf and goes on below a
  layer slot: the loop ends up in that leaf.
\<close>

lemma cursor_walk:
  assumes loop: "\<And>c root. F c root = (case tc_reach m c root of None \<Rightarrow> None | Some c \<Rightarrow> G c)"
    and down: "\<And>c c' root. get_leaf_locked m c = Some (m, c', root) \<Longrightarrow> root \<noteq> 0 \<Longrightarrow> G c = F c' root"
    and inv: "\<And>k. key_ok k \<Longrightarrow> key_has_suffix k \<Longrightarrow> I k \<Longrightarrow> I (key_shift k)"
    and "dt_leads t s b l ws x" "dt_ok 0 (2 ^ 64) t" "dt_root t" "holds (dm_heap m) t" "key_ok (tc_ka c)" "key_string (tc_ka c) = s" "I (tc_ka c)"
  shows "\<exists>c'. key_ok (tc_ka c') \<and> key_string (tc_ka c') = x \<and> I (tc_ka c') \<and> tc_n c' = b \<and> tc_root c' = tc_root c \<and>
    F c (dt_addr t) = G c' \<and> dm_heap m b = Some (Leaf_Node l) \<and>
    (\<exists>lo hi. dt_ok lo hi (DL b l ws) \<and> lo \<le> unat (slice_of x) \<and> unat (slice_of x) < hi) \<and> (\<forall>r \<in> set (lf_rows l). \<not> row_leads r x)"
  using assms(4-)
proof (induction "length s" arbitrary: s t c rule: less_induct)
  case less
  have slice: "k_ikey0 (tc_ka c) = slice_of s" using less.prems(5,6) by (simp add: key_ok_def)
  have root: "dt_addr t \<in> fst ` set (dt_spine t)" using spine_hd [of t] by auto
  obtain a l0 us lo hi where f: "dt_find (slice_of s) t = DL a l0 us" "reach_leaf (dm_heap m) (tc_ka c) (dt_addr t) = Some a"
      "holds (dm_heap m) (DL a l0 us)" "dt_ok lo hi (DL a l0 us)" "lo \<le> unat (slice_of s)" "unat (slice_of s) < hi"
    by (rule reach_leaf_ok [OF less.prems(2-4) root, of "tc_ka c", unfolded slice])
  have h: "dm_heap m a = Some (Leaf_Node l0)" "\<forall>u \<in> set us. holds (dm_heap m) u" using f(3) by (simp_all add: holds_simps)
  have leads: "dt_leads (DL a l0 us) s b l ws x" using leads_find [OF less.prems(1)] f(1) by auto
  let ?c = "c\<lparr>tc_n := a, tc_original_n := a, tc_original_v := lf_full_version_value l0\<rparr>"
  have step: "F c (dt_addr t) = G ?c"
    by (subst loop) (simp add: tc_reach_def f(2) dm_leaf_def h(1))
  from leads show ?case
  proof (cases rule: leads_leaf_cases)
    case here
    show ?thesis by (rule exI [of _ ?c]) (use here less.prems step h(1) f(4-6) in \<open>auto simp del: dt_ok.simps\<close>)
  next
    case layer: (below j)
    have l0: "lf_sorted l0" using f(4) by simp
    have jl: "j < length (layer_rows (lf_rows l0))" using layer(1,2) by simp
    obtain ki i where r: "lf_lower_with_position (tc_ka c) l0 = (ki, int (lf_live l0 ! i))" "lf_is_layer l0 (lf_live l0 ! i)"
        "lf_lv l0 ! (lf_live l0 ! i) = slot_lv (layer_rows (lf_rows l0) ! j)" "key_has_suffix (tc_ka c)"
      by (rule leads_row [OF l0 less.prems(5) jl]) (use layer(3) less.prems(6) in simp)
    let ?u = "us ! j"
    have u: "?u \<in> set us" using layer(1) by simp
    have uok: "dt_root ?u" "dt_ok 0 (2 ^ 64) ?u" "holds (dm_heap m) ?u" using f(4) u h(2) by simp_all
    note ua = holds_addr [OF uok(3)]
    let ?c2 = "?c\<lparr>tc_ki := ki, tc_kp := int (lf_live l0 ! i), tc_ka := key_shift (tc_ka c)\<rparr>"
    have "get_leaf_locked m ?c = Some (m, ?c2, dt_addr ?u)"
      using r layer(4) ua uok(1) by (simp add: get_leaf_locked_def dm_leaf_def h(1) dt_root_def)
    then have "G ?c = F ?c2 (dt_addr ?u)" using ua by (intro down) simp_all
    moreover have short: "length (drop 8 s) < length s" using layer(3) by (auto simp: row_leads_def)
    have "key_ok (tc_ka ?c2)" "key_string (tc_ka ?c2) = drop 8 s" "I (tc_ka ?c2)"
      using key_ok_shift [OF r(4)] key_string_shift [OF r(4)] less.prems(5-7) inv [OF _ r(4)] by simp_all
    note IH = less.hyps [OF short layer(5) uok(2,1,3) this]
    ultimately show ?thesis using step by simp
  qed
qed

definition insert_in_leaf :: "dpool \<Rightarrow> dmem \<Rightarrow> tcursor \<Rightarrow> (dmem \<times> tcursor \<times> bool) option" where
  "insert_in_leaf P m c =
     (case check_leaf_insert P m c of None \<Rightarrow> None
      | Some (m, c, Next_Root root) \<Rightarrow> find_insert_loop P m c root
      | Some (m, c, Insert_Marker) \<Rightarrow> Some (m, c\<lparr>tc_state := 2\<rparr>, False)
      | Some (m, c, Found_Marker) \<Rightarrow> Some (m, c\<lparr>tc_state := 3\<rparr>, True))"

lemma insert_walk:
  assumes "dt_leads t s b l ws x" "dt_ok 0 (2 ^ 64) t" "dt_root t" "holds (dm_heap m) t" "key_ok (tc_ka c)" "key_string (tc_ka c) = s"
  shows "\<exists>c'. key_ok (tc_ka c') \<and> key_string (tc_ka c') = x \<and> tc_n c' = b \<and> tc_root c' = tc_root c \<and>
    find_insert_loop P m c (dt_addr t) = insert_in_leaf P m c' \<and> dm_heap m b = Some (Leaf_Node l) \<and>
    (\<exists>lo hi. dt_ok lo hi (DL b l ws) \<and> lo \<le> unat (slice_of x) \<and> unat (slice_of x) < hi) \<and> (\<forall>r \<in> set (lf_rows l). \<not> row_leads r x)"
proof -
  note walk = cursor_walk [where F = "find_insert_loop P m" and G = "insert_in_leaf P m" and m = m and I = "\<lambda>_. True", OF _ _ _ assms]
  have "find_insert_loop P m c root = (case tc_reach m c root of None \<Rightarrow> None | Some c \<Rightarrow> insert_in_leaf P m c)" for c root
    unfolding insert_in_leaf_def by (rule find_insert_loop.simps)
  moreover have "insert_in_leaf P m c = find_insert_loop P m c' root" if "get_leaf_locked m c = Some (m, c', root)" "root \<noteq> 0" for c c' root
    using that by (simp add: insert_in_leaf_def check_leaf_insert_def)
  ultimately show ?thesis using walk by simp
qed

section \<open>In the leaf\<close>

text \<open>The leaf has the string already, or it can take it without a split or a new layer.\<close>

definition leaf_has :: "leaf \<Rightarrow> byte list \<Rightarrow> bool" where
  "leaf_has l x \<longleftrightarrow> list_ex (\<lambda>r. row_stores r x (slot_lv r)) (lf_rows l)"

definition leaf_takes :: "leaf \<Rightarrow> byte list \<Rightarrow> bool" where
  "leaf_takes l x \<longleftrightarrow> leaf_has l x \<or>
     list_all (\<lambda>r. \<not> (slot_ikey r = slice_of x \<and> kl_rank (slot_kl r) = slot_rank x)) (lf_rows l) \<and>
     lf_modstate l \<noteq> modstate_deleted_layer \<and> lf_size l < leaf_width \<and>
     (kp_back leaf_width (lf_permutation l) \<noteq> 0 \<or> lf_prev l = 0 \<or> lf_ikey_bound l = slice_of x) \<and>
     71 + rows_suffix_total (lf_rows l) + length x \<le> 2 ^ 15"

text \<open>What becomes of the leaf.\<close>

definition leaf_put :: "u64 \<Rightarrow> leaf \<Rightarrow> dtree list \<Rightarrow> byte list \<Rightarrow> u64 \<Rightarrow> leaf \<Rightarrow> bool" where
  "leaf_put b l ws x v l' \<longleftrightarrow> lf_keeps l l' \<and> leaf_fits b l l' ws x \<and>
     (\<forall>y w. rows_store (lf_rows l') (map dt_stores ws) y w \<longleftrightarrow>
        (if y = x then w = v else rows_store (lf_rows l) (map dt_stores ws) y w))"

lemma set_lv_rows:
  assumes "lf_sorted l" "i < lf_size l"
  shows "lf_rows (l\<lparr>lf_lv := (lf_lv l)[lf_live l ! i := v]\<rparr>) = (lf_rows l)[i := row_set_lv v (lf_rows l ! i)]"
    and "lf_ok (l\<lparr>lf_lv := (lf_lv l)[lf_live l ! i := v]\<rparr>)"
proof -
  let ?p = "lf_live l ! i" and ?l = "l\<lparr>lf_lv := (lf_lv l)[lf_live l ! i := v]\<rparr>"
  have ok: "kp_ok leaf_width (lf_permutation l)" "lf_ready l (set (lf_live l))"
    using assms(1) by (simp_all add: lf_sorted_def lf_ok_def)
  note perm = lf_live_perm [OF ok(1)]
  have "?p \<in> set (lf_live l)" using perm(4) assms(2) by simp
  then have p: "?p < length (lf_lv l)" using perm(3) ok(2) unfolding lf_ready_def by auto
  have live: "lf_live ?l = lf_live l" by (simp add: lf_live_def lf_size_def)
  have slot: "lf_slot ?l q = (if q = ?p then row_set_lv v (lf_slot l q) else lf_slot l q)" for q
    using p by (auto simp: lf_slot_def row_set_lv_def)
  show "lf_rows ?l = (lf_rows l)[i := row_set_lv v (lf_rows l ! i)]"
  proof (rule nth_equalityI)
    fix j assume "j < length (lf_rows ?l)"
    then have j: "j < lf_size l" by (simp add: lf_rows_def live perm(4))
    have new: "lf_rows ?l ! j = (if lf_live l ! j = ?p then row_set_lv v (lf_rows l ! j) else lf_rows l ! j)"
      unfolding lf_rows_def live using j perm(4) slot [of "lf_live l ! j"] by simp
    have "lf_live l ! j = ?p \<longleftrightarrow> j = i" using perm(2,4) j assms(2) by (simp add: nth_eq_iff_index_eq)
    then show "lf_rows ?l ! j = (lf_rows l)[i := row_set_lv v (lf_rows l ! i)] ! j"
      using new j assms(2) perm(4) by (simp add: nth_list_update lf_rows_def [of l])
  qed (simp add: lf_rows_def live)
  have "lf_permutation ?l = lf_permutation l" by simp
  then show "lf_ok ?l" using ok(1) ready_lv [OF ok(2), of ?p v] by (simp add: lf_ok_def live)
qed

lemma leaf_fitsI:
  assumes "lf_sorted l'" "layer_rows (lf_rows l') = layer_rows (lf_rows l)"
    and "slot_ikey ` set (lf_rows l') \<subseteq> insert (slice_of x) (slot_ikey ` set (lf_rows l))"
  shows "leaf_fits b l l' ws x"
  unfolding leaf_fits_def
proof (intro allI impI)
  fix lo hi
  assume a: "dt_ok lo hi (DL b l ws)" "lo \<le> unat (slice_of x)" "unat (slice_of x) < hi"
  have "lo \<le> unat (slot_ikey r) \<and> unat (slot_ikey r) < hi" if r: "r \<in> set (lf_rows l')" for r
  proof -
    have "slot_ikey r \<in> insert (slice_of x) (slot_ikey ` set (lf_rows l))" using assms(3) r by blast
    then show ?thesis using a by auto
  qed
  then show "dt_ok lo hi (DL b l' ws)" using a(1) assms(1,2) by simp
qed

lemma put_found:
  assumes "lf_sorted l" "key_ok k" "i < lf_size l" "row_stores (lf_rows l ! i) (key_string k) u"
  shows "leaf_put b l ws (key_string k) v (l\<lparr>lf_lv := (lf_lv l)[lf_live l ! i := v]\<rparr>)"
proof -
  let ?l = "l\<lparr>lf_lv := (lf_lv l)[lf_live l ! i := v]\<rparr>"
  have len: "i < length (lf_rows l)" using assms(1,3) lf_live_perm(4) by (simp add: lf_rows_def lf_sorted_def lf_ok_def)
  have rok: "rows_ok (lf_rows l)" using assms(1) by (simp add: lf_sorted_def)
  note rows = set_lv_rows [OF assms(1,3), of v]
  note st = store_replaced [OF rok assms(2) len assms(4), of v]
  have "lf_sorted ?l" using rows st(2) by (simp add: lf_sorted_def)
  moreover have "slot_ikey ` set (lf_rows ?l) \<subseteq> slot_ikey ` set (lf_rows l)"
    unfolding rows(1) using len by (auto dest!: set_update_subset_insert [THEN subsetD])
  ultimately have "leaf_fits b l ?l ws (key_string k)"
    by (intro leaf_fitsI) (use st(1) rows(1) in auto)
  then show ?thesis using store_replaced(3) [OF rok assms(2) len assms(4)] unfolding leaf_put_def rows(1)
    by (simp add: lf_keeps_def)
qed

lemma put_new:
  assumes "lf_sorted l" "key_ok k" "lf_size l < leaf_width" "\<forall>r \<in> set (lf_rows l). key_row_cmp k r \<noteq> 0"
    and "71 + rows_suffix_total (lf_rows l) + length (key_string k) \<le> 2 ^ 15" "row_position k (lf_rows l) ki"
  shows "\<exists>q. lf_assign (l\<lparr>lf_modstate := modstate_insert\<rparr>) (kp_back leaf_width (lf_permutation l)) k junk = Some q \<and>
    lf_permutation q = lf_permutation l \<and> leaf_put b l ws (key_string k) v (lf_inserted q ki v)"
proof -
  let ?l = "l\<lparr>lf_modstate := modstate_insert\<rparr>"
  have same: "lf_size ?l = lf_size l" "lf_live ?l = lf_live l" "lf_slot ?l p = lf_slot l p" "lf_bags ?l = lf_bags l" for p
    by (simp_all add: lf_size_def lf_live_def lf_slot_def lf_has_ksuf_def lf_ksuf_at_def lf_bags_def split: option.split)
  have rows: "lf_rows ?l = lf_rows l" by (simp add: lf_rows_def same)
  have "lf_ready ?l Q = lf_ready l Q" for Q by (simp add: lf_ready_def same lf_has_ksuf_def)
  then have "lf_sorted ?l" using assms(1) by (simp add: lf_sorted_def lf_ok_def rows same)
  from put_leaf [OF this assms(2), unfolded rows same, OF assms(3-6), of junk v]
  obtain q where q: "lf_assign ?l (kp_back leaf_width (lf_permutation l)) k junk = Some q" "lf_same_links ?l q"
    "lf_rows (lf_inserted q ki v) = take ki (lf_rows l) @ key_slot k v # drop ki (lf_rows l)" "lf_sorted (lf_inserted q ki v)"
    by auto
  have rok: "rows_ok (lf_rows l)" using assms(1) by (simp add: lf_sorted_def)
  note st = store_inserted [OF rok assms(2,4)]
  have "slot_ikey ` set (lf_rows (lf_inserted q ki v)) \<subseteq> insert (slice_of (key_string k)) (slot_ikey ` set (lf_rows l))"
    unfolding q(3) using key_slot_rank(2) [OF assms(2), of v] by (auto dest: in_set_takeD in_set_dropD)
  then have fits: "leaf_fits b l (lf_inserted q ki v) ws (key_string k)"
    by (intro leaf_fitsI [OF q(4)]) (simp_all only: q(3) st(1))
  have keeps: "lf_keeps l (lf_inserted q ki v)"
    using q(2) by (simp add: lf_keeps_def lf_same_links_def lf_inserted_def lf_finish_insert_def)
  have "leaf_put b l ws (key_string k) v (lf_inserted q ki v)"
    unfolding leaf_put_def q(3) st(2) using fits keeps by simp
  moreover have "lf_permutation q = lf_permutation l" using q(2) by (simp add: lf_same_links_def)
  ultimately show ?thesis using q(1) by blast
qed

section \<open>The insertion\<close>

text \<open>The store through the cursor and the end of an insertion.\<close>

definition dm_store :: "dmem \<Rightarrow> tcursor \<Rightarrow> bool \<Rightarrow> u64 \<Rightarrow> dmem option" where
  "dm_store m c found v =
     (case tc_set_value m c v of None \<Rightarrow> None
      | Some m \<Rightarrow> if found then Some m else tc_finish_insert m c)"

lemma leaf_hasE:
  assumes "leaf_has l x"
  obtains i where "i < length (lf_rows l)" "row_stores (lf_rows l ! i) x (slot_lv (lf_rows l ! i))"
proof -
  obtain r where "r \<in> set (lf_rows l)" "row_stores r x (slot_lv r)" using assms unfolding leaf_has_def list_ex_iff by blast
  then show thesis using that by (metis in_set_conv_nth)
qed

lemma insert_in_leaf_ok:
  assumes l: "dm_heap m (tc_n c) = Some (Leaf_Node l)" "lf_sorted l" and k: "key_ok (tc_ka c)" "key_string (tc_ka c) = x"
    and none: "\<forall>r \<in> set (lf_rows l). \<not> row_leads r x" and takes: "leaf_takes l x"
  shows "\<exists>m1 c1 m2 l'. insert_in_leaf P m c = Some (m1, c1, leaf_has l x) \<and> dm_store m1 c1 (leaf_has l x) v = Some m2 \<and>
    dm_heap m2 = (dm_heap m)(tc_n c \<mapsto> Leaf_Node l') \<and> dm_free m2 = dm_free m \<and> leaf_put (tc_n c) l ws x v l' \<and>
    (leaf_has l x \<longrightarrow> m1 = m \<and> (\<exists>u. list_ex (\<lambda>r. row_stores r x u) (lf_rows l) \<and> tc_value m1 c1 = Some u))"
proof -
  let ?k = "tc_ka c" and ?b = "tc_n c"
  have rok: "rows_ok (lf_rows l)" using l(2) by (simp add: lf_sorted_def)
  have ok: "kp_ok leaf_width (lf_permutation l)" "lf_ready l (set (lf_live l))" using l(2) by (simp_all add: lf_sorted_def lf_ok_def)
  note perm = lf_live_perm [OF ok(1)]
  have len: "length (lf_rows l) = lf_size l" by (simp add: lf_rows_def perm(4))
  show ?thesis
  proof (cases "leaf_has l x")
    case True
    obtain i where i: "i < length (lf_rows l)" "row_stores (lf_rows l ! i) x (slot_lv (lf_rows l ! i))" by (rule leaf_hasE [OF True])
    have cmp: "key_row_cmp ?k (lf_rows l ! i) = 0" by (rule stores_row_cmp(1) [OF rok k(1) nth_mem [OF i(1)]]) (use i(2) k(2) in simp)
    obtain ki where L: "lf_lower_with_position ?k l = (ki, int (lf_live l ! i))" "lf_rows l ! i = lf_slot l (lf_live l ! i)"
      using l(2) k(1)
    proof (cases rule: lower_cases)
      case (none ki)
      then show thesis using nth_mem [OF i(1)] cmp by simp
    next
      case (row ki j)
      then have "j = i" using row_unique [OF rok k(1), of j i] i(1) cmp len by simp
      then show thesis using row that by simp
    qed
    let ?p = "lf_live l ! i"
    have kl: "slot_kl (lf_rows l ! i) = lf_keylenx l ! ?p" unfolding L(2) by (simp add: lf_slot_def)
    have nl: "\<not> keylenx_is_layer (lf_keylenx l ! ?p)" using i(2) kl by (simp add: row_stores_def)
    have eq: "lf_ksuf_equals l ?p ?k (lf_keylenx l ! ?p)"
      using ksuf_of_row [OF ok(2) rok k(1) _ perm(4) cmp nl] i len kl k(2) by (simp add: row_stores_def)
    let ?c = "c\<lparr>tc_ki := ki, tc_kp := int ?p, tc_state := 3\<rparr>" and ?l = "l\<lparr>lf_lv := (lf_lv l)[?p := v]\<rparr>"
    have "get_leaf_locked m c = Some (m, c\<lparr>tc_ki := ki, tc_kp := int ?p\<rparr>, 0)"
      using L(1) nl by (simp add: get_leaf_locked_def dm_leaf_def l(1) lf_is_layer_def)
    then have "insert_in_leaf P m c = Some (m, ?c, True)"
      using eq by (simp add: insert_in_leaf_def check_leaf_insert_def dm_leaf_def l(1))
    moreover have "dm_store m ?c True v = Some (dm_set m ?b (Leaf_Node ?l))"
      by (simp add: dm_store_def tc_set_value_def dm_leaf_def l(1))
    moreover have "leaf_put ?b l ws x v ?l"
      using put_found [OF l(2) k(1), of i _ ?b ws v] i len k(2) by simp
    moreover have "list_ex (\<lambda>r. row_stores r x (slot_lv (lf_rows l ! i))) (lf_rows l)"
      using i unfolding list_ex_iff by (intro bexI [of _ "lf_rows l ! i"]) simp_all
    moreover have "tc_value m ?c = Some (slot_lv (lf_rows l ! i))"
      unfolding L(2) by (simp add: tc_value_def dm_leaf_def l(1) lf_slot_def)
    ultimately show ?thesis using True
      by (intro exI [of _ m] exI [of _ ?c] exI [of _ "dm_set m ?b (Leaf_Node ?l)"] exI [of _ ?l]) (simp add: dm_set_def)
  next
    case False
    then have t: "\<forall>r \<in> set (lf_rows l). \<not> (slot_ikey r = slice_of x \<and> kl_rank (slot_kl r) = slot_rank x)"
      "lf_modstate l \<noteq> modstate_deleted_layer" "lf_size l < leaf_width"
      "kp_back leaf_width (lf_permutation l) \<noteq> 0 \<or> lf_prev l = 0 \<or> lf_ikey_bound l = slice_of x"
      "71 + rows_suffix_total (lf_rows l) + length x \<le> 2 ^ 15"
      using takes unfolding leaf_takes_def list_all_iff by blast+
    have no: "\<forall>r \<in> set (lf_rows l). key_row_cmp ?k r \<noteq> 0"
      using t(1) row_cmp_rank [OF rok _ k(1)] k(2) by blast
    obtain ki where L: "lf_lower_with_position ?k l = (ki, - 1)" "row_position ?k (lf_rows l) ki"
      using l(2) k(1)
    proof (cases rule: lower_cases)
      case (none ki)
      then show thesis by (intro that)
    next
      case (row ki j)
      have "lf_rows l ! j \<in> set (lf_rows l)" using row(2) len by simp
      then show thesis using no row(3) by simp
    qed
    let ?p = "kp_back leaf_width (lf_permutation l)" and ?n = "l\<lparr>lf_modstate := modstate_insert\<rparr>"
    obtain q where q: "lf_assign ?n ?p ?k (dp_junk P ?b 0) = Some q" "lf_permutation q = lf_permutation l"
      "leaf_put ?b l ws x v (lf_inserted q ki v)"
      using put_new [OF l(2) k(1) t(3) no _ L(2), of "dp_junk P ?b 0" ?b ws v] t(5) k(2) by auto
    have slice: "k_ikey0 ?k = slice_of x" using k by (simp add: key_ok_def)
    let ?c = "c\<lparr>tc_ki := ki, tc_kp := int ?p, tc_state := 2\<rparr>"
    let ?m1 = "dm_set (dm_set m ?b (Leaf_Node ?n)) ?b (Leaf_Node q)"
    let ?q = "q\<lparr>lf_lv := (lf_lv q)[?p := v]\<rparr>"
    have "get_leaf_locked m c = Some (m, c\<lparr>tc_ki := ki, tc_kp := - 1\<rparr>, 0)"
      using L(1) by (simp add: get_leaf_locked_def dm_leaf_def l(1))
    moreover have "lf_size ?n = lf_size l" "lf_prev ?n = lf_prev l" "lf_ikey_bound ?n = lf_ikey_bound l" "lf_permutation ?n = lf_permutation l"
      by (simp_all add: lf_size_def lf_ikey_bound_def)
    ultimately have "insert_in_leaf P m c = Some (?m1, ?c, False)"
      using t(2-4) q(1) slice by (simp add: insert_in_leaf_def check_leaf_insert_def dm_leaf_def l(1) Let_def)
    moreover have "dm_store ?m1 ?c False v =
        Some (dm_set (dm_set ?m1 ?b (Leaf_Node ?q)) ?b (Leaf_Node (lf_inserted q ki v)))"
      using q(2) by (simp add: dm_store_def tc_set_value_def tc_finish_insert_def dm_leaf_def dm_set_def lf_inserted_def)
    ultimately have run: "insert_in_leaf P m c = Some (?m1, ?c, leaf_has l x)"
      "dm_store ?m1 ?c (leaf_has l x) v = Some (dm_set (dm_set ?m1 ?b (Leaf_Node ?q)) ?b (Leaf_Node (lf_inserted q ki v)))"
      using False by simp_all
    show ?thesis
      by (rule exI [of _ ?m1], rule exI [of _ ?c], rule exI [of _ "dm_set (dm_set ?m1 ?b (Leaf_Node ?q)) ?b (Leaf_Node (lf_inserted q ki v))"],
          rule exI [of _ "lf_inserted q ki v"], intro conjI run q(3)) (simp_all add: dm_set_def False)
  qed
qed

text \<open>The tree that a table holds after the insertion.\<close>

definition dt_takes :: "dtree \<Rightarrow> byte list \<Rightarrow> bool" where
  "dt_takes t s \<longleftrightarrow> (\<exists>b l ws x. dt_leads t s b l ws x \<and> leaf_takes l x)"

lemma dm_put:
  assumes t: "dt_ok 0 (2 ^ 64) t" "dt_root t" "holds (dm_heap m) t" "distinct (dt_addrs t)" and k: "key_ok (tc_ka c)" "key_string (tc_ka c) = s"
    and takes: "dt_takes t s"
  shows "\<exists>m1 c1 m2 t'. find_insert_loop P m c (dt_addr t) = Some (m1, c1, \<exists>u. dt_stores t s u) \<and>
    dm_store m1 c1 (\<exists>u. dt_stores t s u) v = Some m2 \<and> dt_ok 0 (2 ^ 64) t' \<and> dt_root t' \<and> holds (dm_heap m2) t' \<and>
    dt_addr t' = dt_addr t \<and> distinct (dt_addrs t') \<and> dm_free m2 = dm_free m \<and>
    ((\<exists>u. dt_stores t s u) \<longrightarrow> m1 = m \<and> (\<exists>u. dt_stores t s u \<and> tc_value m1 c1 = Some u)) \<and>
    (\<forall>y w. dt_stores t' y w \<longleftrightarrow> (if y = s then w = v else dt_stores t y w))"
proof -
  obtain b l ws x where w: "dt_leads t s b l ws x" "leaf_takes l x" using takes unfolding dt_takes_def by blast
  obtain c' where c: "key_ok (tc_ka c')" "key_string (tc_ka c') = x" "tc_n c' = b"
    "find_insert_loop P m c (dt_addr t) = insert_in_leaf P m c'" "dm_heap m b = Some (Leaf_Node l)"
    "\<exists>lo hi. dt_ok lo hi (DL b l ws) \<and> lo \<le> unat (slice_of x) \<and> unat (slice_of x) < hi" "\<forall>r \<in> set (lf_rows l). \<not> row_leads r x"
    using insert_walk [OF w(1) t(1-3) k] by blast
  have l: "lf_sorted l" using c(6) by auto
  obtain m1 c1 m2 l' where i: "insert_in_leaf P m c' = Some (m1, c1, leaf_has l x)" "dm_store m1 c1 (leaf_has l x) v = Some m2"
    "dm_heap m2 = (dm_heap m)(b \<mapsto> Leaf_Node l')" "dm_free m2 = dm_free m" "leaf_put b l ws x v l'"
    "leaf_has l x \<longrightarrow> m1 = m \<and> (\<exists>u. list_ex (\<lambda>r. row_stores r x u) (lf_rows l) \<and> tc_value m1 c1 = Some u)"
    using insert_in_leaf_ok [OF _ l c(1,2,7) w(2), of m P v ws] c(3,5) by auto
  have p: "lf_keeps l l'" "leaf_fits b l l' ws x" "\<forall>y w. rows_store (lf_rows l') (map dt_stores ws) y w \<longleftrightarrow>
      (if y = x then w = v else rows_store (lf_rows l) (map dt_stores ws) y w)"
    using i(5) unfolding leaf_put_def by blast+
  let ?t = "dt_replace b l' t"
  note v = view_same [OF replace_view [OF w(1) t(4) p(1)]]
  have "dt_ok 0 (2 ^ 64) ?t" by (rule replace_ok [OF w(1) t(4) p(1,2) t(1) le0 slice_bound])
  moreover have "dt_root ?t" "dt_addr ?t = dt_addr t" using v t(2) by simp_all
  moreover have "holds (dm_heap m2) ?t" unfolding i(3) by (rule replace_holds [OF t(3) c(5)])
  moreover have "dt_addrs (dt_replace b l' t) = dt_addrs t" for t
    by (induction t) (simp_all add: comp_def cong: map_cong)
  ultimately have tree: "dt_ok 0 (2 ^ 64) ?t" "dt_root ?t" "holds (dm_heap m2) ?t" "dt_addr ?t = dt_addr t" "distinct (dt_addrs ?t)"
    using t(4) by simp_all
  have stores: "\<forall>y w. dt_stores ?t y w \<longleftrightarrow> (if y = s then w = v else dt_stores t y w)"
    using replace_stores [OF w(1) t(4,1) p(3)] by blast
  have st: "dt_stores t s u \<longleftrightarrow> list_ex (\<lambda>r. row_stores r x u) (lf_rows l)" for u
    using leads_stores [OF w(1) t(1), of u] c(7)
    by (auto simp: rows_store_def list_ex_iff layer_rows_def dest!: set_zip_leftD)
  have has: "leaf_has l x \<longleftrightarrow> (\<exists>u. dt_stores t s u)"
    unfolding st by (auto simp: leaf_has_def list_ex_iff row_stores_def)
  note run = i(1,2,6) [unfolded has, folded st]
  show ?thesis
    by (rule exI [of _ m1], rule exI [of _ c1], rule exI [of _ m2], rule exI [of _ ?t], intro conjI tree stores i(4) run(3))
      (use c(4) run(1,2) in simp_all)
qed

end
