(* ===== verification/Mt_Put.thy ===== *)
theory Mt_Put
  imports Mt_Correct Dyn_Put
begin

text \<open>
  Insertions into the index: what a lookup returns afterwards, and how many of them it takes until the stages are
  merged.
\<close>

declare split_paired_All [simp del] split_paired_Ex [simp del]

section \<open>The insertion into the dynamic stage\<close>

definition dynamic_ok :: "'n merge_ops \<Rightarrow> 'n mt_index \<Rightarrow> dtree \<Rightarrow> bool" where
  "dynamic_ok K ix t \<longleftrightarrow> stages_ok K ix t \<and> distinct (dt_addrs t)"

lemma cursor_store_dm:
  "cursor_store E ix c found v =
     map_option (\<lambda>m. (with_dm ix m)\<lparr>ix_rows := (ix_rows ix)(en_row E := v)\<rparr>) (dm_store (dm_of ix) c found (en_row E))"
  by (simp add: cursor_store_def dm_store_def split: option.split)

lemma with_dm_simps [simp]:
  "dm_of (with_dm ix m) = m" "ix_rows (with_dm ix m) = ix_rows ix" "ix_ic (with_dm ix m) = ix_ic ix" "ix_sic (with_dm ix m) = ix_sic ix"
  by (cases m, simp_all add: dm_of_def with_dm_def)

lemma insert_cursor:
  assumes "dynamic_ok K ix t" "key_ok k" "dt_takes t (key_string k)"
  shows "\<exists>ix1 c ix2 t'. cursor_insert E ix k = Some (ix1, c, \<exists>u. dt_stores t (key_string k) u) \<and>
    cursor_store E ix1 c (\<exists>u. dt_stores t (key_string k) u) v = Some ix2 \<and>
    (\<exists>tb free. ix1 = ix\<lparr>ix_table := tb, ix_free := free\<rparr> \<and> ((\<exists>u. dt_stores t (key_string k) u) \<longrightarrow> tb_holds tb t)) \<and>
    (\<exists>tb free. ix2 = ix\<lparr>ix_table := tb, ix_free := free, ix_rows := (ix_rows ix)(en_row E := v)\<rparr> \<and> tb_holds tb t') \<and>
    distinct (dt_addrs t') \<and> (\<forall>s w. dt_stores t' s w \<longleftrightarrow> (if s = key_string k then w = en_row E else dt_stores t s w)) \<and>
    ((\<exists>u. dt_stores t (key_string k) u) \<longrightarrow> (\<exists>u. dt_stores t (key_string k) u \<and> cursor_value ix1 c = Some (ix_rows ix u)))"
proof -
  have tb: "tb_holds (ix_table ix) t" and d: "distinct (dt_addrs t)" using assms(1) by (simp_all add: dynamic_ok_def stages_ok_def)
  note t = tb [unfolded tb_holds_def]
  let ?tb = "(ix_table ix)\<lparr>tb_root := dt_addr t\<rparr>" and ?f = "\<exists>u. dt_stores t (key_string k) u"
  let ?m = "dm_of (ix\<lparr>ix_table := ?tb\<rparr>)" and ?c = "tc_make (en_cursor E) (dt_addr t) k"
  have c: "tc_ka ?c = k" "tc_root ?c = dt_addr t" by (simp_all add: tc_make_def)
  have h: "dm_heap ?m = tb_heap (ix_table ix)" by (simp add: dm_of_def)
  obtain m1 c1 m2 t' where p: "find_insert_loop (en_pool E) ?m ?c (dt_addr t) = Some (m1, c1, ?f)"
    "dm_store m1 c1 ?f (en_row E) = Some m2" "dt_ok 0 (2 ^ 64) t'" "dt_root t'" "holds (dm_heap m2) t'" "dt_addr t' = dt_addr t"
    "distinct (dt_addrs t')" "?f \<longrightarrow> m1 = ?m \<and> (\<exists>u. dt_stores t (key_string k) u \<and> tc_value m1 c1 = Some u)"
    "\<forall>s w. dt_stores t' s w \<longleftrightarrow> (if s = key_string k then w = en_row E else dt_stores t s w)"
    using dm_put [of t ?m ?c "key_string k" "en_pool E" "en_row E", unfolded h c] t d assms(2,3) by blast
  let ?ix1 = "with_dm (ix\<lparr>ix_table := ?tb\<rparr>) m1"
  let ?ix2 = "(with_dm ?ix1 m2)\<lparr>ix_rows := (ix_rows ix)(en_row E := v)\<rparr>"
  have "cursor_insert E ix k = Some (?ix1, c1, ?f)"
    using p(1) c by (simp add: cursor_insert_def fix_root_ok [OF tb] find_insert_def)
  moreover have "cursor_store E ?ix1 c1 ?f v = Some ?ix2"
    using p(2) by (simp add: cursor_store_dm)
  moreover have "\<exists>tb free. ?ix1 = ix\<lparr>ix_table := tb, ix_free := free\<rparr> \<and> (?f \<longrightarrow> tb_holds tb t)"
    using p(8) holds_root [OF tb]
    by (intro exI [of _ "?tb\<lparr>tb_heap := dm_heap m1\<rparr>"] exI [of _ "dm_free m1"]) (auto simp: with_dm_def dm_of_def)
  moreover have "tb_holds (?tb\<lparr>tb_heap := dm_heap m2\<rparr>) t'"
    using p(3-6) spine_hd [of t'] by (auto simp: tb_holds_def)
  then have "\<exists>tb free. ?ix2 = ix\<lparr>ix_table := tb, ix_free := free, ix_rows := (ix_rows ix)(en_row E := v)\<rparr> \<and> tb_holds tb t'"
    by (intro exI [of _ "?tb\<lparr>tb_heap := dm_heap m2\<rparr>"] exI [of _ "dm_free m2"]) (simp add: with_dm_def)
  moreover have "?f \<longrightarrow> (\<exists>u. dt_stores t (key_string k) u \<and> cursor_value ?ix1 c1 = Some (ix_rows ix u))"
  proof
    assume ?f
    then obtain u where "dt_stores t (key_string k) u" "tc_value m1 c1 = Some u" using p(8) by blast
    then show "\<exists>u. dt_stores t (key_string k) u \<and> cursor_value ?ix1 c1 = Some (ix_rows ix u)"
      by (intro exI [of _ u]) (simp add: cursor_value_def)
  qed
  ultimately show ?thesis using p(7,9) by blast
qed

text \<open>
  A successful \<^verbatim>\<open>put_uv\<close> up to the merge: the index that it merges or returns.
\<close>

definition index_put :: "massnode mt_index \<Rightarrow> dtree \<Rightarrow> byte list \<Rightarrow> byte list \<Rightarrow> massnode mt_index \<Rightarrow> dtree \<Rightarrow> bool" where
  "index_put ix t s v ix' t' \<longleftrightarrow> dynamic_ok mn_merge_ops ix' t' \<and>
     ix_static ix' = ix_static ix \<and> ix_static_root ix' = ix_static_root ix \<and> ix_key_size ix' = ix_key_size ix \<and>
     (\<forall>y c. index_has ix' t' y c \<longleftrightarrow> (if y = s then c = v else index_has ix t y c))"

lemma store_index:
  assumes "dynamic_ok mn_merge_ops ix t" "\<forall>s. \<not> dt_stores t s row" "0 < n" "distinct (dt_addrs t')"
    and "ix' = ix\<lparr>ix_table := tb, ix_free := free, ix_rows := (ix_rows ix)(row := v)\<rparr>" "tb_holds tb t'"
    and "\<forall>y w. dt_stores t' y w \<longleftrightarrow> (if y = s then w = row else dt_stores t y w)"
  shows "index_put ix t s v (ix'\<lparr>ix_ic := ix_ic ix + n\<rparr>) t'"
proof -
  have ok: "stages_ok mn_merge_ops ix t" using assms(1) by (simp add: dynamic_ok_def)
  let ?ix = "ix'\<lparr>ix_ic := ix_ic ix + n\<rparr>"
  have "stages_ok mn_merge_ops ?ix t'" using ok assms(3,5,6) by (simp add: stages_ok_def)
  moreover have "index_has ?ix t' y c \<longleftrightarrow> (if y = s then c = v else index_has ix t y c)" for y c
  proof (cases "y = s")
    case True
    then show ?thesis using assms(5,7) by (simp add: index_has_def)
  next
    case False
    have rows: "dt_stores t y r \<and> c = ix_rows ?ix r \<longleftrightarrow> dt_stores t y r \<and> c = ix_rows ix r" for r
      using assms(2,5) by (cases "r = row") simp_all
    have same: "dt_stores t' y r \<longleftrightarrow> dt_stores t y r" for r using False assms(7) by simp
    show ?thesis unfolding index_has_def same rows using False assms(5) by simp
  qed
  ultimately show ?thesis using assms(4,5) by (simp add: index_put_def dynamic_ok_def)
qed

lemma put_uv_spec:
  assumes "dynamic_ok mn_merge_ops ix t" "key_ok k" "dt_takes t (key_string k)" "\<forall>s. \<not> dt_stores t s (en_row E)" "int_fits (ix_ic ix + 1)"
  shows "\<exists>ix' t'. (if \<exists>u. dt_stores t (key_string k) u then
      put_uv E ix k v = Some (Goes_On (ix', False)) \<and> dynamic_ok mn_merge_ops ix' t \<and> ix_ic ix' = ix_ic ix \<and> ix_sic ix' = ix_sic ix \<and>
      (\<forall>y c. index_has ix' t y c \<longleftrightarrow> index_has ix t y c)
    else put_uv E ix k v = (if merge_due (ix_ic ix + 1) (ix_sic ix) then merge_uv E ix' else Some (Goes_On (ix', True))) \<and>
      index_put ix t (key_string k) v ix' t' \<and> ix_ic ix' = ix_ic ix + 1 \<and> ix_sic ix' = ix_sic ix)"
proof -
  let ?f = "\<exists>u. dt_stores t (key_string k) u"
  obtain ix1 c ix2 t' where p: "cursor_insert E ix k = Some (ix1, c, ?f)" "cursor_store E ix1 c ?f v = Some ix2"
    "\<exists>tb free. ix1 = ix\<lparr>ix_table := tb, ix_free := free\<rparr> \<and> (?f \<longrightarrow> tb_holds tb t)"
    "\<exists>tb free. ix2 = ix\<lparr>ix_table := tb, ix_free := free, ix_rows := (ix_rows ix)(en_row E := v)\<rparr> \<and> tb_holds tb t'"
    "distinct (dt_addrs t')" "\<forall>s w. dt_stores t' s w \<longleftrightarrow> (if s = key_string k then w = en_row E else dt_stores t s w)"
    using insert_cursor [OF assms(1-3), of E v] by (elim exE conjE) (rule that, assumption+, auto)
  show ?thesis
  proof (cases ?f)
    case True
    obtain tb free where ix1: "ix1 = ix\<lparr>ix_table := tb, ix_free := free\<rparr>" "tb_holds tb t" using p(3) True by blast
    have "put_uv E ix k v = Some (Goes_On (ix1, False))" using p(1) True by (simp add: put_uv_def)
    moreover have "dynamic_ok mn_merge_ops ix1 t" using assms(1) ix1 by (simp add: dynamic_ok_def stages_ok_def)
    moreover have "index_has ix1 t y c \<longleftrightarrow> index_has ix t y c" for y c using ix1 by (simp add: index_has_def)
    ultimately show ?thesis using True ix1(1) by (intro exI [of _ ix1]) simp
  next
    case False
    obtain tb free where ix2: "ix2 = ix\<lparr>ix_table := tb, ix_free := free, ix_rows := (ix_rows ix)(en_row E := v)\<rparr>" "tb_holds tb t'"
      using p(4) by blast
    have f: "?f = False" using False by blast
    note q = p(1,2) [unfolded f]
    have c: "ix_ic ix2 = ix_ic ix" "ix_sic ix2 = ix_sic ix" using ix2(1) by simp_all
    let ?ix = "ix2\<lparr>ix_ic := ix_ic ix + 1\<rparr>"
    have "put_uv E ix k v = (if merge_due (ix_ic ix + 1) (ix_sic ix) then merge_uv E ?ix else Some (Goes_On (?ix, True)))"
      using q assms(5) c by (simp add: put_uv_def if_fits_def)
    moreover have "index_put ix t (key_string k) v ?ix t'"
      by (rule store_index [OF assms(1,4) _ p(5) ix2(1,2) p(6)]) simp
    ultimately show ?thesis using False c by (intro exI [of _ ?ix] exI [of _ t']) simp
  qed
qed

text \<open>\<^verbatim>\<open>put\<close> counts the values in the string it is given, whether or not the key is new.\<close>

lemma mt_put_spec:
  assumes "dynamic_ok K ix t" "key_ok k" "dt_takes t (key_string k)" "int_fits (ix_ic ix + int (length v div VALUE_LEN))"
  shows "\<exists>ix2 t' tb free. mt_put E ix k v = Some (Goes_On (ix2\<lparr>ix_ic := ix_ic ix + int (length v div VALUE_LEN)\<rparr>)) \<and>
    ix2 = ix\<lparr>ix_table := tb, ix_free := free, ix_rows := (ix_rows ix)(en_row E := v)\<rparr> \<and> tb_holds tb t' \<and> distinct (dt_addrs t') \<and>
    (\<forall>s w. dt_stores t' s w \<longleftrightarrow> (if s = key_string k then w = en_row E else dt_stores t s w))"
proof -
  let ?f = "\<exists>u. dt_stores t (key_string k) u" and ?n = "int (length v div VALUE_LEN)"
  obtain ix1 c ix2 t' where p: "cursor_insert E ix k = Some (ix1, c, ?f)" "cursor_store E ix1 c ?f v = Some ix2"
    "\<exists>tb free. ix2 = ix\<lparr>ix_table := tb, ix_free := free, ix_rows := (ix_rows ix)(en_row E := v)\<rparr> \<and> tb_holds tb t'"
    "distinct (dt_addrs t')" "\<forall>s w. dt_stores t' s w \<longleftrightarrow> (if s = key_string k then w = en_row E else dt_stores t s w)"
    using insert_cursor [OF assms(1-3), of E v] by (elim exE conjE) (rule that, assumption+, auto)
  obtain tb free where ix2: "ix2 = ix\<lparr>ix_table := tb, ix_free := free, ix_rows := (ix_rows ix)(en_row E := v)\<rparr>" "tb_holds tb t'"
    using p(3) by blast
  have c: "ix_ic ix2 = ix_ic ix" using ix2(1) by simp
  have "mt_put E ix k v = Some (Goes_On (ix2\<lparr>ix_ic := ix_ic ix + ?n\<rparr>))"
    using p(1,2) assms(4) c by (simp add: mt_put_def if_fits_def)
  then show ?thesis using ix2 p(4,5) by blast
qed

section \<open>The counters\<close>

lemma merge_end_counters:
  assumes "merge_end E r = Some (Goes_On (ix', b))" "r = run_merge K E hs p ix"
  shows "b \<and> ix_ic ix' = 0 \<and> ix_sic ix' = ix_sic ix + ix_ic ix"
  using assms
  by (auto simp: merge_end_def run_merge_def if_fits_def mt_reset_def split: option.splits outcome.splits if_splits)

lemma merge_uv_counters:
  assumes "merge_uv E ix = Some (Goes_On (ix', b))"
  shows "b \<and> ix_ic ix' = 0 \<and> ix_sic ix' = ix_sic ix + ix_ic ix"
proof -
  obtain hs p where "merge_end E (run_merge mn_merge_ops E hs p ix) = Some (Goes_On (ix', b))"
    using assms by (auto simp: merge_uv_def split: option.splits)
  then show ?thesis using merge_end_counters by blast
qed

lemma cursor_insert_counters:
  "cursor_insert E ix k = Some (ix', c, f) \<Longrightarrow> ix_ic ix' = ix_ic ix \<and> ix_sic ix' = ix_sic ix"
  by (auto simp: cursor_insert_def split: option.splits prod.splits)

lemma cursor_store_counters:
  "cursor_store E ix c f v = Some ix' \<Longrightarrow> ix_ic ix' = ix_ic ix \<and> ix_sic ix' = ix_sic ix"
  by (auto simp: cursor_store_dm)

lemma put_uv_counters:
  assumes "put_uv E ix k v = Some (Goes_On (ix', True))"
  shows "\<not> merge_due (ix_ic ix + 1) (ix_sic ix) \<and> ix_ic ix' = ix_ic ix + 1 \<and> ix_sic ix' = ix_sic ix \<or>
    merge_due (ix_ic ix + 1) (ix_sic ix) \<and> ix_ic ix' = 0 \<and> ix_sic ix' = ix_sic ix + ix_ic ix + 1"
proof -
  obtain ix1 c f where i: "cursor_insert E ix k = Some (ix1, c, f)" using assms by (auto simp: put_uv_def split: option.splits)
  have nf: "\<not> f" using assms i by (auto simp: put_uv_def)
  obtain ix2 where s: "cursor_store E ix1 c False v = Some ix2" using assms i nf by (auto simp: put_uv_def split: option.splits)
  have c: "ix_ic ix2 = ix_ic ix" "ix_sic ix2 = ix_sic ix"
    using cursor_insert_counters [OF i] cursor_store_counters [OF s] by simp_all
  have r: "(if merge_due (ix_ic ix + 1) (ix_sic ix) then merge_uv E (ix2\<lparr>ix_ic := ix_ic ix + 1\<rparr>)
      else Some (Goes_On (ix2\<lparr>ix_ic := ix_ic ix + 1\<rparr>, True))) = Some (Goes_On (ix', True))"
    using assms i nf s c by (simp add: put_uv_def if_fits_def Let_def split: if_splits)
  show ?thesis
  proof (cases "merge_due (ix_ic ix + 1) (ix_sic ix)")
    case True
    then have "merge_uv E (ix2\<lparr>ix_ic := ix_ic ix + 1\<rparr>) = Some (Goes_On (ix', True))" using r by simp
    then show ?thesis using merge_uv_counters True c by fastforce
  next
    case False
    then show ?thesis using r c by auto
  qed
qed

text \<open>Successful insertions one after the other.\<close>

inductive puts :: "massnode mt_index \<Rightarrow> nat \<Rightarrow> massnode mt_index \<Rightarrow> bool" where
  none: "puts ix 0 ix"
| more: "puts ix n ix1 \<Longrightarrow> put_uv E ix1 k v = Some (Goes_On (ix2, True)) \<Longrightarrow> puts ix (Suc n) ix2"

lemma puts_spec:
  "puts ix n ix' \<Longrightarrow> 0 \<le> ix_ic ix \<Longrightarrow> ix_ic ix' + ix_sic ix' = ix_ic ix + ix_sic ix + int n \<and> 0 \<le> ix_ic ix' \<and>
     ix_sic ix \<le> ix_sic ix' \<and> (0 < n \<longrightarrow> \<not> merge_due (ix_ic ix') (ix_sic ix'))"
proof (induction rule: puts.induct)
  case (more ix n ix1 E k v ix2)
  have "\<not> merge_due 0 x" for x by (simp add: merge_due_def MERGE_THRESHOLD_def)
  then show ?case using more.IH [OF more.prems] put_uv_counters [OF more.hyps(2)] by auto
qed simp

section \<open>Properties\<close>


text \<open>
  \<^verbatim>\<open>put_uv\<close> of a key that the dynamic stage holds returns false and changes no answer.
\<close>

theorem put_uv_refuses:
  assumes "dynamic_ok mn_merge_ops ix t" "key_ok k" "dt_takes t (key_string k)" "\<forall>s. \<not> dt_stores t s (en_row E)"
    and "int_fits (ix_ic ix + 1)" "dt_stores t (key_string k) u"
  shows "\<exists>ix'. put_uv E ix k v = Some (Goes_On (ix', False)) \<and> dynamic_ok mn_merge_ops ix' t \<and> ix_ic ix' = ix_ic ix \<and>
    ix_sic ix' = ix_sic ix \<and> (\<forall>s b. index_has ix' t s b \<longleftrightarrow> index_has ix t s b)"
proof -
  have f: "\<exists>u. dt_stores t (key_string k) u" using assms(6) by blast
  from put_uv_spec [OF assms(1-5), of v] show ?thesis unfolding if_P [OF f] by blast
qed


text \<open>
  C37: a value shorter than eight bytes does not count: put into an empty index it is stored in the dynamic stage,
  but the counter stays 0 and a lookup of the key finds nothing.
\<close>

theorem mt_put_short_value_lost:
  assumes "dynamic_ok mn_merge_ops ix t" "key_ok k" "dt_takes t (key_string k)" "ix_ic ix = 0" "ix_sic ix = 0" "length v < VALUE_LEN"
  shows "\<exists>ix' t'. mt_put E ix k v = Some (Goes_On ix') \<and> tb_holds (ix_table ix') t' \<and> dt_stores t' (key_string k) (en_row E) \<and>
    ix_rows ix' (en_row E) = v \<and> mt_get ix' k = Some (ix', None)"
proof -
  have n: "int (length v div VALUE_LEN) = 0" using assms(6) by simp
  have fits: "int_fits (ix_ic ix + int (length v div VALUE_LEN))" by (simp only: n assms(4)) (simp add: int_fits_def)
  obtain ix2 t' tb free where p: "mt_put E ix k v = Some (Goes_On (ix2\<lparr>ix_ic := ix_ic ix + int (length v div VALUE_LEN)\<rparr>))"
    "ix2 = ix\<lparr>ix_table := tb, ix_free := free, ix_rows := (ix_rows ix)(en_row E := v)\<rparr>" "tb_holds tb t'"
    "\<forall>s w. dt_stores t' s w \<longleftrightarrow> (if s = key_string k then w = en_row E else dt_stores t s w)"
    using mt_put_spec [OF assms(1-3) fits] by blast
  let ?ix = "ix2\<lparr>ix_ic := 0\<rparr>"
  have "mt_put E ix k v = Some (Goes_On ?ix)" using p(1) n assms(4) by simp
  moreover have "mt_get ?ix k = Some (?ix, None)" using p(2) assms(5) by (simp add: mt_get_def dynamic_get_def static_get_def)
  ultimately show ?thesis using p(2-4) by (intro exI [of _ ?ix] exI [of _ t']) simp
qed

text \<open>
  C16: no insertion is lost to the counters: after \<open>n\<close> successful \<^verbatim>\<open>put_uv\<close> the two counters have
  grown by \<open>n\<close> together, and the dynamic stage is below the size at which it is merged.
\<close>

theorem puts_counters:
  assumes "puts ix n ix'" "0 \<le> ix_ic ix"
  shows "ix_ic ix' + ix_sic ix' = ix_ic ix + ix_sic ix + int n \<and> ix_sic ix \<le> ix_sic ix' \<and>
    (0 < n \<longrightarrow> ix_ic ix' < max MERGE_THRESHOLD ((ix_sic ix' + 9) div MERGE_RATIO))"
proof -
  note s = puts_spec [OF assms]
  have "ic < max MERGE_THRESHOLD ((sic + 9) div MERGE_RATIO)" if "\<not> merge_due ic sic" for ic sic
    using that by (auto simp: merge_due_def MERGE_THRESHOLD_def MERGE_RATIO_def)
  then show ?thesis using s by blast
qed


section \<open>Witnesses\<close>

lemma sample_leads:
  assumes "s \<noteq> []" "length s \<le> 8" "s = [97] \<or> slice_of s \<noteq> slice_of [97]"
  shows "dt_takes sample_stage s"
proof -
  let ?l = "one_leaf 1 (slice_of [97]) 7"
  have rows: "lf_rows ?l = [(1, slice_of [97], 7, [])]" by (rule sample_stage_rows(2))
  have "length (lf_rows ?l) = lf_size ?l"
    using one_leaf_rows(1) [of 1] lf_live_perm(4) by (simp add: lf_rows_def lf_sorted_def lf_ok_def kl_ok_def)
  then have l: "lf_size ?l = 1" "lf_modstate ?l = modstate_insert" "lf_prev ?l = 0"
    by (simp_all add: rows) (simp_all add: one_leaf_def zero_leaf_def)
  have "dt_leads sample_stage s 2000 ?l [] s"
    unfolding sample_stage_def by (rule dt_leads.leaf) (simp add: rows row_leads_def keylenx_is_layer_def)
  moreover have "leaf_takes ?l s"
    using assms by (auto simp: leaf_takes_def leaf_has_def rows l row_stores_def keylenx_is_layer_def kl_rank_def slot_rank_def
        rows_suffix_total_def)
  ultimately show ?thesis unfolding dt_takes_def by blast
qed

lemma sample_dynamic: "dynamic_ok mn_merge_ops (sample_index mn_of) sample_stage"
  using sample_mn(1) by (simp add: dynamic_ok_def sample_stage_def)

lemma sample_new: "\<not> dt_stores sample_stage s (en_row sample_env)" "slice_of [98] \<noteq> slice_of [97]"
  by (simp_all add: sample_stores sample_env_def slice_of_eq_iff pad8_def)

lemma sample_counts: "ix_ic (sample_index mkn) = 1" "ix_sic (sample_index mkn) = 2"
  by (simp_all add: sample_index_def)

lemma sample_put:
  "\<exists>ix'. put_uv sample_env (sample_index mn_of) (key_of_bytes [98]) v = Some (Goes_On (ix', True)) \<and> ix_ic ix' = 2 \<and> ix_sic ix' = 2"
  using put_uv_spec [OF sample_dynamic, of "key_of_bytes [98]" sample_env v] sample_leads [of "[98]"] sample_new
  by (auto simp: sample_stores sample_counts int_fits_def merge_due_def MERGE_THRESHOLD_def)


theorem put_uv_refuses_witness:
  "\<exists>ix'. put_uv sample_env (sample_index mn_of) (key_of_bytes [97]) [5] = Some (Goes_On (ix', False)) \<and>
     index_has ix' sample_stage [97] [1, 2, 3, 4, 5, 6, 7, 8]"
  using put_uv_refuses [OF sample_dynamic, of "key_of_bytes [97]" sample_env 7 "[5]"] sample_leads [of "[97]"] sample_new sample_mn(6)
  by (auto simp: sample_stores sample_counts int_fits_def)


text \<open>An index with nothing in it.\<close>

definition empty_leaf :: leaf where
  "empty_leaf = zero_leaf\<lparr>lf_version := push_bit 30 1, lf_permutation := kp_make_empty leaf_width\<rparr>"

definition empty_stage :: dtree where
  "empty_stage = DL 2000 empty_leaf []"

definition empty_index :: "massnode mt_index" where
  "empty_index = \<lparr>ix_table = \<lparr>tb_root = 2000, tb_heap = map_of (dt_cells empty_stage)\<rparr>, ix_free = [5000], ix_rows = sample_rows,
     ix_static = Map.empty, ix_static_root = 0, ix_ic = 0, ix_sic = 0, ix_key_size = 16\<rparr>"

lemma empty_index_ok:
  "dynamic_ok mn_merge_ops empty_index empty_stage" "length s < 1000 \<Longrightarrow> dt_takes empty_stage s"
proof -
  have perm: "lf_permutation empty_leaf = kp_make_empty leaf_width" by (simp add: empty_leaf_def)
  note e = empty_leaf_rows [OF perm]
  have "lf_ready empty_leaf {}" by (simp add: lf_ready_def lf_bags_def lf_has_ksuf_def empty_leaf_def zero_leaf_def)
  then have "lf_sorted empty_leaf" using e(1,4) by (simp add: lf_sorted_def rows_ok_def)
  moreover have "dt_root empty_stage"
    by (simp add: dt_root_def nd_parent_def nd_has_split_def nd_version_def nv_nonroot_def
        nodeversion32_parameters_def empty_leaf_def zero_leaf_def empty_stage_def)
  ultimately have "tb_holds (ix_table empty_index) empty_stage"
    using e(1) by (simp add: tb_holds_def holds_def empty_stage_def empty_index_def layer_rows_def)
  moreover have "\<not> dt_stores empty_stage x v" for x v using e(1) by (simp add: empty_stage_def rows_store_def layer_rows_def)
  moreover have "\<not> stored mn_ops Map.empty p x w" for p x w by (auto elim: stored.cases)
  ultimately show "dynamic_ok mn_merge_ops empty_index empty_stage"
    by (simp add: dynamic_ok_def stages_ok_def empty_index_def) (simp add: empty_stage_def)
  assume "length s < 1000"
  then have "leaf_takes empty_leaf s"
    using e(1,2) by (simp add: leaf_takes_def rows_suffix_total_def) (simp add: empty_leaf_def zero_leaf_def)
  moreover have "dt_leads empty_stage s 2000 empty_leaf [] s"
    unfolding empty_stage_def by (rule dt_leads.leaf) (simp add: e(1))
  ultimately show "dt_takes empty_stage s" unfolding dt_takes_def by blast
qed

theorem mt_put_short_value_lost_witness:
  "\<exists>ix' t'. mt_put sample_env empty_index (key_of_bytes [97]) [1, 2, 3, 4] = Some (Goes_On ix') \<and>
     tb_holds (ix_table ix') t' \<and> dt_stores t' [97] (en_row sample_env) \<and> mt_get ix' (key_of_bytes [97]) = Some (ix', None)"
proof -
  have "\<exists>ix' t'. mt_put sample_env empty_index (key_of_bytes [97]) [1, 2, 3, 4] = Some (Goes_On ix') \<and> tb_holds (ix_table ix') t' \<and>
     dt_stores t' (key_string (key_of_bytes [97])) (en_row sample_env) \<and> ix_rows ix' (en_row sample_env) = [1, 2, 3, 4] \<and>
     mt_get ix' (key_of_bytes [97]) = Some (ix', None)"
    by (rule mt_put_short_value_lost [OF empty_index_ok(1)]) (use empty_index_ok(2) in \<open>simp_all add: empty_index_def VALUE_LEN_def\<close>)
  then show ?thesis by auto
qed

theorem puts_counters_witness:
  "\<exists>ix'. puts (sample_index mn_of) 1 ix' \<and> ix_ic ix' + ix_sic ix' = 4"
proof -
  obtain ix' where p: "puts (sample_index mn_of) 1 ix'" using sample_put [of "[5]"] puts.more [OF puts.none] by fastforce
  then show ?thesis using puts_counters [OF p] by (auto simp: sample_counts)
qed


section \<open>The other stage\<close>

text \<open>
  C38: \<^verbatim>\<open>put_uv\<close> does not look into the static stage: it accepts a key that is stored there, and then
  both stages hold the key, which the merge of the stages relies on never to happen.
\<close>

theorem put_uv_accepts_static_key:
  "stages_apart mn_merge_ops (sample_index mn_of) sample_stage \<and> stored mn_ops (ix_static (sample_index mn_of)) 2 [98] 7 \<and>
   (\<exists>ix' t'. put_uv sample_env (sample_index mn_of) (key_of_bytes [98]) [5] = Some (Goes_On (ix', True)) \<and>
     dynamic_ok mn_merge_ops ix' t' \<and> \<not> stages_apart mn_merge_ops ix' t')"
proof -
  obtain ix' t' where p: "put_uv sample_env (sample_index mn_of) (key_of_bytes [98]) [5] = Some (Goes_On (ix', True))"
    "index_put (sample_index mn_of) sample_stage [98] [5] ix' t'"
    using put_uv_spec [OF sample_dynamic, of "key_of_bytes [98]" sample_env "[5]"] sample_leads [of "[98]"] sample_new
    by (auto simp: sample_stores sample_counts int_fits_def merge_due_def MERGE_THRESHOLD_def)
  have "index_has ix' t' [98] [5]" and s: "ix_static ix' = two_tries mn_of" "ix_static_root ix' = 2" and d: "dynamic_ok mn_merge_ops ix' t'"
    using p(2) by (simp_all add: index_put_def sample_index_def)
  moreover have "[5] \<noteq> lvs_value w" for w
  proof
    assume "[5] = lvs_value w"
    then have "length [5 :: byte] = 8" by (simp only: lvs_value_def length_bytes_of_u64)
    then show False by simp
  qed
  ultimately obtain r where "dt_stores t' [98] r" unfolding index_has_def by blast
  moreover have st: "stored mn_ops (two_tries mn_of) 2 [98] 7" by (simp add: mn_sample(7))
  ultimately have "\<not> stages_apart mn_merge_ops ix' t'" unfolding stages_apart_def mn_merge_simps(1) s by blast
  then show ?thesis using p(1) d st sample_mn(2) by (auto simp: sample_index_def)
qed

end
