(* ===== verification/Dyn_Remove.thy ===== *)
theory Dyn_Remove
  imports Dyn_Put Circular_Int
begin

text \<open>
  Removal from the dynamic stage, \<^verbatim>\<open>hybrid_index/masstree_remove.hh\<close>: the slot leaves the permutation; a
  leaf that has become empty leaves the tree, with the inner nodes above it that have no other child, unless it is
  the first leaf of its layer. A layer below that has become empty is taken out later, by a callback that
  \<^verbatim>\<open>remove_leaf\<close> and \<^verbatim>\<open>collapse\<close> register; the callbacks registered are a list of pairs of the
  root pointer and the string that leads to the layer.

  The theorem says what a removal does when no leaf has to leave the tree: the tree stores what it stored but the
  key.
\<close>

declare split_paired_All [simp del] split_paired_Ex [simp del]

section \<open>Memory and the list of leaves\<close>

text \<open>\<^verbatim>\<open>deallocate\<close> takes a node away at once, \<^verbatim>\<open>deallocate_rcu\<close> when nobody reads it any more.\<close>

definition dm_drop :: "dmem \<Rightarrow> u64 \<Rightarrow> dmem" where
  "dm_drop m a = m\<lparr>dm_heap := (dm_heap m)(a := None)\<rparr>"

definition unlink :: "dmem \<Rightarrow> u64 \<Rightarrow> dmem option" where
  "unlink m n =
     (case dm_leaf m n of None \<Rightarrow> None
      | Some l \<Rightarrow>
        (case (if lf_next l = 0 then Some m
               else map_option (\<lambda>x. dm_set m (lf_next l) (Leaf_Node (x\<lparr>lf_prev := lf_prev l\<rparr>))) (dm_leaf m (lf_next l))) of
           None \<Rightarrow> None
         | Some m \<Rightarrow> map_option (\<lambda>x. dm_set m (lf_prev l) (Leaf_Node (x\<lparr>lf_next := lf_next l\<rparr>))) (dm_leaf m (lf_prev l))))"

text \<open>The timestamp of the leaf before is raised to that of the leaf.\<close>

definition raise_ts :: "leaf \<Rightarrow> leaf \<Rightarrow> leaf" where
  "raise_ts l prev = (if circ_less (lf_node_ts prev) (lf_node_ts l) then prev\<lparr>lf_node_ts := lf_node_ts l\<rparr> else prev)"

section \<open>Inner nodes\<close>

text \<open>\<^verbatim>\<open>collapse\<close>: a node with a single child is replaced by it, as long as its parent has no other child either.\<close>

partial_function (option) collapse_loop :: "dmem \<Rightarrow> u64 \<Rightarrow> u64 \<Rightarrow> (dmem \<times> bool) option" where
  "collapse_loop m p ikey =
     (case dm_node m p of None \<Rightarrow> None
      | Some pn \<Rightarrow>
        if \<not> parent_exists (in_parent pn) then Some (m, True)
        else
          (case dm_node m (in_parent pn) of None \<Rightarrow> None
           | Some gn \<Rightarrow>
             (let gp = in_parent pn; kp = in_upper ikey gn; child = in_child pn ! 0 in
              if in_child gn ! kp \<noteq> p \<or> dm_heap m child = None then None
              else
                (let m = dm_set_parent (dm_set m gp (Inter_Node (gn\<lparr>in_child := (in_child gn)[kp := child]\<rparr>))) child gp in
                 if in_size gn \<noteq> 0 then Some (m, False) else collapse_loop m gp ikey))))"

type_synonym gc_list = "(u64 \<times> byte list) list"

definition gc_make :: "u64 \<Rightarrow> byte list \<Rightarrow> gc_list \<Rightarrow> gc_list" where
  "gc_make root prefix gc = gc @ [(root, prefix)]"

definition collapse :: "dmem \<Rightarrow> gc_list \<Rightarrow> u64 \<Rightarrow> u64 \<Rightarrow> u64 \<Rightarrow> byte list \<Rightarrow> (dmem \<times> gc_list) option" where
  "collapse m gc p ikey root prefix =
     map_option (\<lambda>(m, top). (m, if top \<and> prefix \<noteq> [] then gc_make root prefix gc else gc)) (collapse_loop m p ikey)"

text \<open>
  One inner node above the leaf: its separator at \<open>kp - 1\<close> goes, or becomes that of the first child left. The
  second result: whether the walk ends here.
\<close>

definition remove_from_node :: "internode \<Rightarrow> nat \<Rightarrow> u64 option \<Rightarrow> internode \<times> bool" where
  "remove_from_node p kp reshape =
     (if kp > 0 then
        (let p = (case reshape of
             None \<Rightarrow> (in_shift_down p (kp - 1) kp (in_nkeys p - kp))\<lparr>in_nkeys := in_nkeys p - 1\<rparr>
           | Some ikey \<Rightarrow> p\<lparr>in_ikey0 := (in_ikey0 p)[kp - 1 := ikey]\<rparr>)
         in (p, kp > 1 \<or> in_child p ! 0 \<noteq> 0))
      else (p, False))"

partial_function (option) remove_leaf_loop ::
  "dmem \<Rightarrow> gc_list \<Rightarrow> u64 \<Rightarrow> u64 \<Rightarrow> u64 option \<Rightarrow> u64 \<Rightarrow> byte list \<Rightarrow> (dmem \<times> gc_list) option" where
  "remove_leaf_loop m gc n ikey reshape root prefix =
     (case dm_heap m n of None \<Rightarrow> None
      | Some x \<Rightarrow>
        (case dm_node m (nd_parent x) of None \<Rightarrow> None
         | Some pn \<Rightarrow>
           (let p = nd_parent x; kp = in_upper ikey pn in
            if kp > 0 \<and> in_ikey0 pn ! (kp - 1) \<noteq> ikey then None
            else
              (let (pn, ends) = remove_from_node pn kp reshape; m = dm_set m p (Inter_Node pn) in
               if ends then (if in_size pn = 0 then collapse m gc p ikey root prefix else Some (m, gc))
               else if reshape = None \<and> in_size pn \<noteq> 0 then
                 remove_leaf_loop (dm_set m p (Inter_Node (pn\<lparr>in_child := (in_child pn)[0 := 0]\<rparr>))) gc p ikey
                   (Some (in_ikey0 pn ! 0)) root prefix
               else remove_leaf_loop m gc p ikey reshape root prefix))))"

definition remove_leaf :: "dmem \<Rightarrow> gc_list \<Rightarrow> u64 \<Rightarrow> u64 \<Rightarrow> byte list \<Rightarrow> (dmem \<times> gc_list \<times> bool) option" where
  "remove_leaf m gc n root prefix =
     (case dm_leaf m n of None \<Rightarrow> None
      | Some l \<Rightarrow>
        if lf_prev l = 0 then Some (m, if lf_next l = 0 \<and> prefix \<noteq> [] then gc_make root prefix gc else gc, False)
        else
          (case dm_leaf m (lf_prev l) of None \<Rightarrow> None
           | Some prev \<Rightarrow>
             (case unlink (dm_set m (lf_prev l) (Leaf_Node (raise_ts l prev))) n of None \<Rightarrow> None
              | Some m \<Rightarrow>
                map_option (\<lambda>(m, gc). (dm_drop m n, gc, True))
                  (remove_leaf_loop m gc n (lf_ikey_bound l) None root prefix))))"

section \<open>The end of a removal\<close>

definition key_prefix_string :: "mkey \<Rightarrow> byte list" where
  "key_prefix_string k = bytes_at (k_mem k) (k_first k) (nat (k_s k - k_first k))"

definition lf_finish_remove :: "leaf \<Rightarrow> nat \<Rightarrow> leaf" where
  "lf_finish_remove l ki =
     l\<lparr>lf_modstate := (if lf_modstate l = modstate_insert then modstate_remove else lf_modstate l),
       lf_permutation := kp_remove (lf_permutation l) ki\<rparr>"

definition finish_remove :: "dmem \<Rightarrow> gc_list \<Rightarrow> tcursor \<Rightarrow> (dmem \<times> gc_list \<times> bool) option" where
  "finish_remove m gc c =
     (case dm_leaf m (tc_n c) of None \<Rightarrow> None
      | Some l \<Rightarrow>
        (let l = lf_finish_remove l (tc_ki c); m = dm_set m (tc_n c) (Leaf_Node l) in
         if kp_size (lf_permutation l) \<noteq> 0 then Some (m, gc, False)
         else remove_leaf m gc (tc_n c) (tc_root c) (key_prefix_string (tc_ka c))))"

text \<open>
  \<^verbatim>\<open>query::run_remove\<close>; \<open>ts\<close> is the timestamp it assigns, which raises that of the leaf (\<^verbatim>\<open>apply_remove\<close>).
\<close>

definition apply_remove :: "u64 \<Rightarrow> leaf \<Rightarrow> leaf" where
  "apply_remove ts l = (if circ_less_equal (lf_node_ts l) ts then l\<lparr>lf_node_ts := ts + 2\<rparr> else l)"

definition run_remove :: "u64 \<Rightarrow> dmem \<Rightarrow> gc_list \<Rightarrow> tcursor \<Rightarrow> (dmem \<times> gc_list \<times> bool) option" where
  "run_remove ts m gc c =
     (case find_locked m c of None \<Rightarrow> None
      | Some (m, c, found) \<Rightarrow>
        if \<not> found then Some (m, gc, False)
        else
          (case dm_leaf m (tc_n c) of None \<Rightarrow> None
           | Some l \<Rightarrow>
             map_option (\<lambda>(m, gc, r). (m, gc, True))
               (finish_remove (dm_set m (tc_n c) (Leaf_Node (apply_remove ts l))) gc c)))"

section \<open>Empty layers\<close>

text \<open>
  The first loop of \<^verbatim>\<open>gc_layer\<close>: inner nodes without separators between the slot and the layer below.
  The result names the leaf that is left; none when the layer is in use.
\<close>

partial_function (option) gc_internodes :: "dmem \<Rightarrow> u64 \<Rightarrow> nat \<Rightarrow> (dmem \<times> u64 option) option" where
  "gc_internodes m n kp =
     (case dm_leaf m n of None \<Rightarrow> None
      | Some l \<Rightarrow>
        (case dm_heap m (lf_lv l ! kp) of None \<Rightarrow> None
         | Some x \<Rightarrow>
           (case (if nd_has_split x then unsplit_ancestor (dm_heap m) (lf_lv l ! kp) else Some (lf_lv l ! kp)) of None \<Rightarrow> None
            | Some layer \<Rightarrow>
              (let l = l\<lparr>lf_lv := (lf_lv l)[kp := layer]\<rparr>; m = dm_set m n (Leaf_Node l) in
               case dm_heap m layer of None \<Rightarrow> None
               | Some (Leaf_Node _) \<Rightarrow> Some (m, Some layer)
               | Some (Inter_Node i) \<Rightarrow>
                 if in_size i > 0 \<and> \<not> nd_has_split (Inter_Node i) then Some (m, None)
                 else
                   (let i = (if nd_has_split (Inter_Node i) \<and> \<not> parent_exists (in_parent i)
                       then i\<lparr>in_version := nv_mark_root nodeversion32_parameters (in_version i)\<rparr> else i) in
                    if in_size i > 0 \<or> nd_has_split (Inter_Node i) then Some (dm_set m layer (Inter_Node i), None)
                    else if dm_heap m (in_child i ! 0) = None then None
                    else
                      (let child = in_child i ! 0;
                           m = dm_set_parent m child 0;
                           m = dm_set m n (Leaf_Node (l\<lparr>lf_lv := (lf_lv l)[kp := child]\<rparr>))
                       in gc_internodes (dm_drop m layer) n kp))))))"

definition gc_leaf :: "dmem \<Rightarrow> u64 \<Rightarrow> u64 \<Rightarrow> (dmem \<times> bool) option" where
  "gc_leaf m n a =
     (case (dm_leaf m n, dm_leaf m a) of
        (Some l, Some lf) \<Rightarrow>
          if lf_size lf > 0 \<and> \<not> nd_has_split (Leaf_Node lf) then Some (m, False)
          else
            (let lf = (if nd_has_split (Leaf_Node lf) \<and> \<not> parent_exists (lf_parent lf)
                then lf\<lparr>lf_version := nv_mark_root nodeversion32_parameters (lf_version lf)\<rparr> else lf) in
             if lf_size lf > 0 \<or> nd_has_split (Leaf_Node lf) then Some (dm_set m a (Leaf_Node lf), False)
             else if lf_prev lf \<noteq> 0 \<or> lf_next lf \<noteq> 0 \<or> lf_deleted_layer lf then None
             else Some (dm_drop (dm_set m n (Leaf_Node (raise_ts lf l))) a, True))
      | _ \<Rightarrow> None)"

definition gc_layer :: "dmem \<Rightarrow> tcursor \<Rightarrow> (dmem \<times> tcursor \<times> bool) option" where
  "gc_layer m c =
     (case find_locked m c of None \<Rightarrow> None
      | Some (m, c, found) \<Rightarrow>
        (case dm_leaf m (tc_n c) of None \<Rightarrow> None
         | Some l \<Rightarrow>
           if lf_deleted_layer l then None
           else if key_has_suffix (tc_ka c) then Some (m, c, False)
           else
             (let ki = tc_ki c + of_bool (tc_has_value c); c = c\<lparr>tc_ki := ki\<rparr> in
              if ki \<ge> lf_size l then Some (m, c, False)
              else
                (let kp = kp_at (lf_permutation l) ki; c = c\<lparr>tc_kp := int kp\<rparr> in
                 if lf_ikey0 l ! kp \<noteq> k_ikey0 (tc_ka c) \<or> \<not> lf_is_layer l kp then Some (m, c, False)
                 else
                   (case gc_internodes m (tc_n c) kp of None \<Rightarrow> None
                    | Some (m, None) \<Rightarrow> Some (m, c, False)
                    | Some (m, Some a) \<Rightarrow> map_option (\<lambda>(m, r). (m, c, r)) (gc_leaf m (tc_n c) a))))))"

text \<open>The callback.\<close>

definition gc_callback :: "dmem \<Rightarrow> gc_list \<Rightarrow> tcursor \<Rightarrow> u64 \<times> byte list \<Rightarrow> (dmem \<times> gc_list) option" where
  "gc_callback m gc raw entry =
     (case unsplit_ancestor (dm_heap m) (fst entry) of None \<Rightarrow> None
      | Some root \<Rightarrow>
        (case gc_layer m (tc_make raw root (key_make (mem_of 0 (snd entry)) 0 (int (length (snd entry))))) of None \<Rightarrow> None
         | Some (m, c, do_remove) \<Rightarrow>
           if do_remove then map_option (\<lambda>(m, gc, r). (m, gc)) (finish_remove m gc c) else Some (m, gc)))"

text \<open>
  Freeing memory runs callbacks from the front of the list; those that they register come to its end. How many are due
  depends on the epochs of the threads, so the number is an argument. Version words of the repository's configuration
  ignore \<^verbatim>\<open>mark_deleted\<close>, so the callback's test of the flag fails only while the whole tree is destroyed.
\<close>

primrec run_callbacks :: "dmem \<Rightarrow> gc_list \<Rightarrow> tcursor \<Rightarrow> gc_list \<Rightarrow> (dmem \<times> gc_list) option" where
  "run_callbacks m gc raw [] = Some (m, gc)"
| "run_callbacks m gc raw (e # es) =
     (case gc_callback m gc raw e of None \<Rightarrow> None | Some (m, gc) \<Rightarrow> run_callbacks m gc raw es)"

definition clean_rcu :: "nat \<Rightarrow> tcursor \<Rightarrow> dmem \<Rightarrow> gc_list \<Rightarrow> (dmem \<times> gc_list) option" where
  "clean_rcu due raw m gc = run_callbacks m (drop due gc) raw (take due gc)"

declare collapse_loop.simps [code] remove_leaf_loop.simps [code] gc_internodes.simps [code]

section \<open>A leaf without one of its rows\<close>

lemma rows_ok_remove:
  assumes "rows_ok rows" "i < length rows"
  shows "rows_ok (take i rows @ drop (i + 1) rows)"
proof -
  have "rows = take i rows @ rows ! i # drop (i + 1) rows" using assms(2) by (simp add: id_take_nth_drop [symmetric])
  then have "sorted_wrt slot_less (take i rows @ rows ! i # drop (i + 1) rows)" using assms(1) by (simp add: rows_ok_def)
  then show ?thesis using assms(1) unfolding rows_ok_def sorted_wrt_append by (auto dest: in_set_takeD in_set_dropD)
qed

lemma remove_rows:
  assumes "lf_sorted l" "ki < lf_size l"
  shows "lf_rows (lf_finish_remove l ki) = take ki (lf_rows l) @ drop (ki + 1) (lf_rows l)"
    and "lf_sorted (lf_finish_remove l ki)" "lf_size (lf_finish_remove l ki) = lf_size l - 1"
proof -
  let ?l = "lf_finish_remove l ki" and ?es = "kp_elems leaf_width (lf_permutation l)"
  have ok: "kp_ok leaf_width (lf_permutation l)" "lf_ready l (set (lf_live l))" and rok: "rows_ok (lf_rows l)"
    using assms(1) by (simp_all add: lf_sorted_def lf_ok_def)
  have n: "ki < kp_size (lf_permutation l)" "kp_size (lf_permutation l) \<le> leaf_width"
    using assms(2) ok(1) by (simp_all add: lf_size_def kp_ok_def)
  have el: "kp_size (kp_remove (lf_permutation l) ki) = kp_size (lf_permutation l) - 1"
    "kp_elems leaf_width (kp_remove (lf_permutation l) ki) = take ki ?es @ drop (ki + 1) (take (kp_size (lf_permutation l)) ?es) @
       [?es ! ki] @ drop (kp_size (lf_permutation l)) ?es"
    using kp_remove_elems [OF n] by simp_all
  show size: "lf_size ?l = lf_size l - 1" by (simp add: lf_finish_remove_def lf_size_def el(1))
  let ?A = "take ki ?es @ drop (ki + 1) (take (kp_size (lf_permutation l)) ?es)"
  have len: "length ?A = kp_size (lf_permutation l) - 1" using n by simp
  have "take (kp_size (lf_permutation l) - 1) (?A @ xs) = ?A" for xs using len by (metis append_eq_conv_conj)
  then have "lf_live ?l = ?A" using el by (simp add: lf_live_def lf_finish_remove_def lf_size_def)
  then have live: "lf_live ?l = take ki (lf_live l) @ drop (ki + 1) (lf_live l)"
    using n by (simp add: lf_live_def lf_size_def min_def)
  have slot: "lf_slot ?l q = lf_slot l q" for q
    by (cases "lf_ksuf l") (simp_all add: lf_slot_def lf_finish_remove_def lf_has_ksuf_def lf_ksuf_at_def)
  show rows: "lf_rows ?l = take ki (lf_rows l) @ drop (ki + 1) (lf_rows l)"
    by (simp add: lf_rows_def live slot take_map drop_map)
  have sub: "set (lf_live ?l) \<subseteq> set (lf_live l)" unfolding live by (auto dest: in_set_takeD in_set_dropD)
  have "lf_ready ?l (set (lf_live ?l))"
    using ok(2) sub by (cases "lf_ksuf l") (auto simp: lf_ready_def lf_finish_remove_def lf_bags_def lf_has_ksuf_def subset_iff)
  moreover have "kp_ok leaf_width (lf_permutation ?l)"
    using kp_remove_ok(1) [OF ok(1) n(1)] by (simp add: lf_finish_remove_def)
  moreover have "rows_ok (lf_rows ?l)"
    unfolding rows by (rule rows_ok_remove [OF rok]) (use assms(2) lf_live_perm(4) [OF ok(1)] in \<open>simp add: lf_rows_def\<close>)
  ultimately show "lf_sorted ?l" by (simp add: lf_sorted_def lf_ok_def)
qed

lemma store_removed:
  assumes "rows_ok rows" "key_ok k" "i < length rows" "row_stores (rows ! i) (key_string k) u"
  shows "layer_rows (take i rows @ drop (i + 1) rows) = layer_rows rows"
    and "rows_store (take i rows @ drop (i + 1) rows) Ps y w \<longleftrightarrow> y \<noteq> key_string k \<and> rows_store rows Ps y w"
proof -
  let ?r = "rows ! i" and ?rows = "take i rows @ drop (i + 1) rows"
  have split: "rows = take i rows @ ?r # drop (i + 1) rows" using assms(3) by (simp add: id_take_nth_drop [symmetric])
  have nl: "\<not> keylenx_is_layer (slot_kl ?r)" using assms(4) by (simp add: row_stores_def)
  show lay: "layer_rows ?rows = layer_rows rows"
    using arg_cong [OF split, of layer_rows] nl by (simp add: layer_rows_def)
  have ex: "list_ex P rows \<longleftrightarrow> list_ex P ?rows \<or> P ?r" for P by (subst split) auto
  have cmp: "key_row_cmp k ?r = 0" by (rule stores_row_cmp(1) [OF assms(1,2) nth_mem [OF assms(3)] assms(4)])
  show "rows_store ?rows Ps y w \<longleftrightarrow> y \<noteq> key_string k \<and> rows_store rows Ps y w"
  proof (cases "y = key_string k")
    case False
    have "\<not> row_stores ?r y w" using row_string_unique [OF assms(4)] False by blast
    then show ?thesis using False unfolding rows_store_def lay ex by simp
  next
    case True
    have no: "key_row_cmp k r \<noteq> 0" if r: "r \<in> set ?rows" for r
    proof -
      from r consider "r \<in> set (take i rows)" | "r \<in> set (drop (i + 1) rows)" by auto
      then obtain j where j: "j < length rows" "j \<noteq> i" "r = rows ! j"
      proof cases
        case 1
        then obtain q where "q < i" "r = rows ! q" by (auto simp: in_set_conv_nth)
        then show thesis using assms(3) by (intro that [of q]) simp_all
      next
        case 2
        then obtain q where "q < length rows - (i + 1)" "r = rows ! (i + 1 + q)" by (auto simp: in_set_conv_nth)
        then show thesis by (intro that [of "i + 1 + q"]) simp_all
      qed
      then show ?thesis using row_unique [OF assms(1,2) j(1) assms(3) _ cmp] by auto
    qed
    have "rows_ok ?rows" by (rule rows_ok_remove [OF assms(1,3)])
    then show ?thesis using rows_store_none [OF _ assms(2), of ?rows Ps w] no True by auto
  qed
qed

section \<open>The walk of a removal\<close>

definition locked_in_leaf :: "dmem \<Rightarrow> tcursor \<Rightarrow> (dmem \<times> tcursor) option" where
  "locked_in_leaf m c =
     (case check_leaf_locked m c of None \<Rightarrow> None
      | Some (m, c, root) \<Rightarrow> if root = 0 then Some (m, c\<lparr>tc_state := of_bool (tc_kp c \<ge> 0)\<rparr>) else find_locked_loop m c root)"

definition key_path :: "byte list \<Rightarrow> mkey \<Rightarrow> bool" where
  "key_path s k \<longleftrightarrow> k_first k \<le> k_s k \<and> key_prefix_string k @ key_string k = s"

lemma key_path_shift:
  assumes "key_ok k" "key_has_suffix k" "key_path s k"
  shows "key_path s (key_shift k)"
proof -
  have n: "8 < k_len k" "k_first k \<le> k_s k" using assms(2,3) by (simp_all add: key_has_suffix_def key_path_def)
  have len: "nat (k_s k + 8 - k_first k) = nat (k_s k - k_first k) + 8" using n(2) by linarith
  have "key_prefix_string (key_shift k) = key_prefix_string k @ take 8 (key_string k)"
  proof (rule nth_equalityI)
    show "length (key_prefix_string (key_shift k)) = length (key_prefix_string k @ take 8 (key_string k))"
      using n len by (simp add: key_prefix_string_def key_shift_def Let_def key_string_def)
    fix i assume "i < length (key_prefix_string (key_shift k))"
    then have i: "i < nat (k_s k - k_first k) + 8" using len by (simp add: key_prefix_string_def key_shift_def Let_def)
    show "key_prefix_string (key_shift k) ! i = (key_prefix_string k @ take 8 (key_string k)) ! i"
      using i n len by (auto simp: key_prefix_string_def key_shift_def Let_def key_string_def nth_append add.commute)
  qed
  then show ?thesis using assms(3) key_string_shift [OF assms(2)] by (simp add: key_path_def) (simp add: key_shift_def Let_def)
qed

lemma remove_walk:
  assumes "dt_leads t s b l ws x" "dt_ok 0 (2 ^ 64) t" "dt_root t" "holds (dm_heap m) t" "key_ok (tc_ka c)" "key_string (tc_ka c) = s"
    and "key_path s (tc_ka c)"
  shows "\<exists>c'. key_ok (tc_ka c') \<and> key_string (tc_ka c') = x \<and> key_path s (tc_ka c') \<and> tc_n c' = b \<and> tc_root c' = tc_root c \<and>
    find_locked_loop m c (dt_addr t) = locked_in_leaf m c' \<and> dm_heap m b = Some (Leaf_Node l) \<and>
    (\<exists>lo hi. dt_ok lo hi (DL b l ws) \<and> lo \<le> unat (slice_of x) \<and> unat (slice_of x) < hi) \<and> (\<forall>r \<in> set (lf_rows l). \<not> row_leads r x)"
proof -
  note walk = cursor_walk [where F = "find_locked_loop m" and G = "locked_in_leaf m" and m = m and I = "key_path s", OF _ _ _ assms]
  have "find_locked_loop m c root = (case tc_reach m c root of None \<Rightarrow> None | Some c \<Rightarrow> locked_in_leaf m c)" for c root
    unfolding locked_in_leaf_def by (rule find_locked_loop.simps)
  moreover have "locked_in_leaf m c = find_locked_loop m c' root" if "get_leaf_locked m c = Some (m, c', root)" "root \<noteq> 0" for c c' root
    using that by (simp add: locked_in_leaf_def check_leaf_locked_def)
  ultimately show ?thesis using walk key_path_shift by simp
qed

lemma locked_in_leaf_ok:
  assumes l: "dm_heap m (tc_n c) = Some (Leaf_Node l)" "lf_sorted l" and k: "key_ok (tc_ka c)" "key_string (tc_ka c) = x"
    and none: "\<forall>r \<in> set (lf_rows l). \<not> row_leads r x" and alive: "\<not> lf_deleted_layer l"
  obtains (has) c1 u where "leaf_has l x" "locked_in_leaf m c = Some (m, c1)" "tc_kp c1 \<ge> 0" "tc_ki c1 < lf_size l"
      "row_stores (lf_rows l ! tc_ki c1) x u" "tc_n c1 = tc_n c" "tc_root c1 = tc_root c" "tc_ka c1 = tc_ka c"
  | (lacks) c1 where "\<not> leaf_has l x" "locked_in_leaf m c = Some (m, c1)" "tc_kp c1 < 0"
proof -
  let ?k = "tc_ka c" and ?b = "tc_n c"
  have rok: "rows_ok (lf_rows l)" using l(2) by (simp add: lf_sorted_def)
  have ok: "kp_ok leaf_width (lf_permutation l)" "lf_ready l (set (lf_live l))" using l(2) by (simp_all add: lf_sorted_def lf_ok_def)
  note perm = lf_live_perm [OF ok(1)]
  have len: "length (lf_rows l) = lf_size l" by (simp add: lf_rows_def perm(4))
  obtain i where L: "lf_lower_with_position ?k l =
      (i, if i < lf_size l \<and> key_row_cmp ?k (lf_rows l ! i) = 0 then int (lf_live l ! i) else - 1)"
    using lower_with_position [OF l(2) k(1)] leaf_search_spec [OF l(2) k(1)] by metis
  have only: "\<forall>r \<in> set (lf_rows l). key_row_cmp ?k r = 0 \<longrightarrow> i < lf_size l \<and> key_row_cmp ?k (lf_rows l ! i) = 0 \<and> r = lf_rows l ! i"
  proof (intro ballI impI)
    fix r assume r: "r \<in> set (lf_rows l)" "key_row_cmp ?k r = 0"
    from leaf_search_spec [OF l(2) k(1)] r L have i: "i < lf_size l \<and> key_row_cmp ?k (lf_rows l ! i) = 0" by (auto split: if_splits)
    obtain j where j: "j < length (lf_rows l)" "r = lf_rows l ! j" using r(1) by (metis in_set_conv_nth)
    then have "j = i" using row_unique [OF rok k(1), of j i] r(2) i len by simp
    then show "i < lf_size l \<and> key_row_cmp ?k (lf_rows l ! i) = 0 \<and> r = lf_rows l ! i" using i j(2) by simp
  qed
  show thesis
  proof (cases "i < lf_size l \<and> key_row_cmp ?k (lf_rows l ! i) = 0")
    case False
    then have no: "\<forall>r \<in> set (lf_rows l). key_row_cmp ?k r \<noteq> 0" using only by blast
    have "\<not> leaf_has l x"
      unfolding leaf_has_def list_ex_iff using no stores_row_cmp(1) [OF rok k(1)] k(2) by metis
    moreover have "locked_in_leaf m c = Some (m, c\<lparr>tc_ki := i, tc_kp := - 1, tc_state := 0\<rparr>)"
      using False L alive by (auto simp: locked_in_leaf_def check_leaf_locked_def get_leaf_locked_def dm_leaf_def l(1))
    ultimately show thesis by (rule lacks) simp
  next
    case True
    let ?p = "lf_live l ! i"
    have row: "lf_rows l ! i = lf_slot l ?p" using True perm(4) by (simp add: lf_rows_def)
    have kl: "slot_kl (lf_rows l ! i) = lf_keylenx l ! ?p" unfolding row by (simp add: lf_slot_def)
    have mem: "lf_rows l ! i \<in> set (lf_rows l)" using True len by simp
    have rank: "slot_ikey (lf_rows l ! i) = slice_of x" "kl_rank (slot_kl (lf_rows l ! i)) = slot_rank x"
      using row_cmp_rank [OF rok mem k(1)] True k(2) by simp_all
    have nl: "\<not> keylenx_is_layer (lf_keylenx l ! ?p)"
    proof
      assume "keylenx_is_layer (lf_keylenx l ! ?p)"
      then have "row_leads (lf_rows l ! i) x" using rank kl by (auto simp: row_leads_def kl_rank_def slot_rank_def split: if_splits)
      then show False using none mem by blast
    qed
    have L': "lf_lower_with_position ?k l = (i, int ?p)" using L True by simp
    note suf = ksuf_of_row [OF ok(2) rok k(1) conjunct1 [OF True] perm(4) conjunct2 [OF True] nl]
    let ?e = "lf_ksuf_equals l ?p ?k (lf_keylenx l ! ?p)"
    let ?c = "c\<lparr>tc_ki := i, tc_kp := (if ?e then int ?p else - 1), tc_state := of_bool ?e\<rparr>"
    have run: "locked_in_leaf m c = Some (m, ?c)"
      using nl by (simp add: locked_in_leaf_def check_leaf_locked_def get_leaf_locked_def dm_leaf_def l(1) L' lf_is_layer_def)
    have st: "row_stores (lf_rows l ! i) x u \<longleftrightarrow> ?e \<and> u = slot_lv (lf_rows l ! i)" for u
      using nl rank suf kl k(2) by (auto simp: row_stores_def)
    have "leaf_has l x \<longleftrightarrow> ?e"
    proof
      assume "leaf_has l x"
      then obtain r where r: "r \<in> set (lf_rows l)" "row_stores r x (slot_lv r)" unfolding leaf_has_def list_ex_iff by blast
      then have "key_row_cmp ?k r = 0" using stores_row_cmp(1) [OF rok k(1)] k(2) by metis
      then show ?e using only r st by blast
    next
      assume ?e
      then show "leaf_has l x" unfolding leaf_has_def list_ex_iff using st mem by blast
    qed
    then show thesis using has [OF _ run, of "slot_lv (lf_rows l ! i)"] lacks [OF _ run] st True by (cases ?e) simp_all
  qed
qed

section \<open>The removal\<close>

text \<open>The leaf the string leads to need not leave the tree when its last row goes.\<close>

definition dt_removes :: "dtree \<Rightarrow> byte list \<Rightarrow> bool" where
  "dt_removes t s \<longleftrightarrow> (\<exists>b l ws x. dt_leads t s b l ws x \<and> \<not> lf_deleted_layer l \<and>
     (leaf_has l x \<longrightarrow> 1 < lf_size l \<or> lf_prev l = 0))"

text \<open>The callbacks afterwards: at most one more, for the layer that the string leads to.\<close>

definition gc_grown :: "gc_list \<Rightarrow> gc_list \<Rightarrow> u64 \<Rightarrow> byte list \<Rightarrow> bool" where
  "gc_grown gc gc' root s \<longleftrightarrow> gc' = gc \<or> (\<exists>p x. p @ x = s \<and> p \<noteq> [] \<and> gc' = gc @ [(root, p)])"

lemma apply_remove_same:
  "lf_rows (apply_remove ts l) = lf_rows l" "lf_sorted (apply_remove ts l) = lf_sorted l" "lf_size (apply_remove ts l) = lf_size l"
  "lf_prev (apply_remove ts l) = lf_prev l" "lf_next (apply_remove ts l) = lf_next l" "lf_keeps l (apply_remove ts l)"
proof -
  let ?l = "l\<lparr>lf_node_ts := ts + 2\<rparr>"
  have same: "lf_size ?l = lf_size l" "lf_live ?l = lf_live l" "lf_slot ?l p = lf_slot l p" "lf_bags ?l = lf_bags l" for p
    by (simp_all add: lf_size_def lf_live_def lf_slot_def lf_has_ksuf_def lf_ksuf_at_def lf_bags_def split: option.split)
  have rows: "lf_rows ?l = lf_rows l" by (simp add: lf_rows_def same)
  have "lf_ready ?l Q = lf_ready l Q" for Q by (simp add: lf_ready_def same lf_has_ksuf_def)
  then have "lf_sorted ?l = lf_sorted l" by (simp add: lf_sorted_def lf_ok_def rows same)
  then show "lf_rows (apply_remove ts l) = lf_rows l" "lf_sorted (apply_remove ts l) = lf_sorted l" "lf_size (apply_remove ts l) = lf_size l"
    "lf_prev (apply_remove ts l) = lf_prev l" "lf_next (apply_remove ts l) = lf_next l" "lf_keeps l (apply_remove ts l)"
    using rows same by (simp_all add: apply_remove_def lf_keeps_def)
qed

lemma finish_remove_ok:
  assumes l: "dm_heap m (tc_n c) = Some (Leaf_Node l)" "lf_sorted l" "tc_ki c < lf_size l" "1 < lf_size l \<or> lf_prev l = 0"
    and path: "key_path s (tc_ka c)"
  shows "\<exists>gc'. finish_remove m gc c = Some (dm_set m (tc_n c) (Leaf_Node (lf_finish_remove l (tc_ki c))), gc', False) \<and>
    gc_grown gc gc' (tc_root c) s"
proof -
  let ?l = "lf_finish_remove l (tc_ki c)"
  have size: "kp_size (lf_permutation ?l) = lf_size l - 1" using remove_rows(3) [OF l(2,3)] by (simp add: lf_size_def)
  show ?thesis
  proof (cases "lf_size l = 1")
    case False
    then show ?thesis using l(1,3) size by (simp add: finish_remove_def dm_leaf_def gc_grown_def)
  next
    case True
    then have prev: "lf_prev ?l = 0" using l(4) by (simp add: lf_finish_remove_def)
    let ?gc = "if lf_next ?l = 0 \<and> key_prefix_string (tc_ka c) \<noteq> [] then gc_make (tc_root c) (key_prefix_string (tc_ka c)) gc else gc"
    have "finish_remove m gc c = Some (dm_set m (tc_n c) (Leaf_Node ?l), ?gc, False)"
      using l(1) True size prev by (simp add: finish_remove_def remove_leaf_def dm_leaf_def dm_set_def Let_def)
    moreover have "gc_grown gc ?gc (tc_root c) s" using path by (auto simp: gc_grown_def gc_make_def key_path_def)
    ultimately show ?thesis by blast
  qed
qed

lemma dm_remove:
  assumes t: "dt_ok 0 (2 ^ 64) t" "dt_root t" "holds (dm_heap m) t" "distinct (dt_addrs t)" and k: "key_ok (tc_ka c)" "key_string (tc_ka c) = s"
    and c: "tc_root c = dt_addr t" "key_path s (tc_ka c)" and removes: "dt_removes t s"
  shows "\<exists>m' gc' t'. run_remove ts m gc c = Some (m', gc', \<exists>u. dt_stores t s u) \<and> dt_ok 0 (2 ^ 64) t' \<and> dt_root t' \<and>
    holds (dm_heap m') t' \<and> dt_addr t' = dt_addr t \<and> distinct (dt_addrs t') \<and> dm_free m' = dm_free m \<and> gc_grown gc gc' (dt_addr t) s \<and>
    (\<forall>y w. dt_stores t' y w \<longleftrightarrow> y \<noteq> s \<and> dt_stores t y w)"
proof -
  obtain b l ws x where w: "dt_leads t s b l ws x" "\<not> lf_deleted_layer l" "leaf_has l x \<longrightarrow> 1 < lf_size l \<or> lf_prev l = 0"
    using removes unfolding dt_removes_def by blast
  obtain c' where c': "key_ok (tc_ka c')" "key_string (tc_ka c') = x" "key_path s (tc_ka c')" "tc_n c' = b" "tc_root c' = tc_root c"
    "find_locked_loop m c (dt_addr t) = locked_in_leaf m c'" "dm_heap m b = Some (Leaf_Node l)"
    "\<exists>lo hi. dt_ok lo hi (DL b l ws) \<and> lo \<le> unat (slice_of x) \<and> unat (slice_of x) < hi" "\<forall>r \<in> set (lf_rows l). \<not> row_leads r x"
    using remove_walk [OF w(1) t(1-3) k c(2)] by blast
  have l: "lf_sorted l" using c'(8) by auto
  have rok: "rows_ok (lf_rows l)" using l by (simp add: lf_sorted_def)
  have stored: "leaf_has l x \<longleftrightarrow> (\<exists>u. dt_stores t s u)"
  proof -
    have "dt_stores t s u \<longleftrightarrow> (\<exists>r \<in> set (lf_rows l). row_stores r x u)" for u
      using leads_stores [OF w(1) t(1), of u] c'(9)
      by (auto simp: rows_store_def list_ex_iff layer_rows_def dest!: set_zip_leftD)
    then show ?thesis by (auto simp: leaf_has_def list_ex_iff row_stores_def)
  qed
  have hb: "dm_heap m (tc_n c') = Some (Leaf_Node l)" using c'(4,7) by simp
  from hb l c'(1,2,9) w(2) show ?thesis
  proof (cases rule: locked_in_leaf_ok)
    case (lacks c1)
    have "run_remove ts m gc c = Some (m, gc, False)"
      using lacks c'(6) c(1) by (simp add: run_remove_def find_locked_def)
    then show ?thesis using t stored lacks(1)
      by (intro exI [of _ m] exI [of _ gc] exI [of _ t]) (auto simp: gc_grown_def)
  next
    case (has c1 u)
    let ?a = "apply_remove ts l" and ?i = "tc_ki c1"
    let ?l = "lf_finish_remove ?a ?i" and ?m = "dm_set m b (Leaf_Node (apply_remove ts l))"
    note a = apply_remove_same [where ts = ts and l = l]
    have hm: "dm_heap ?m (tc_n c1) = Some (Leaf_Node ?a)" using has(6) c'(4) by (simp add: dm_set_def)
    have as: "lf_sorted ?a" "?i < lf_size ?a" "1 < lf_size ?a \<or> lf_prev ?a = 0" using a l has(1,4) w(3) by simp_all
    have path: "key_path s (tc_ka c1)" using has(8) c'(3) by simp
    obtain gc' where f: "finish_remove ?m gc c1 = Some (dm_set ?m (tc_n c1) (Leaf_Node ?l), gc', False)" "gc_grown gc gc' (dt_addr t) s"
      using finish_remove_ok [OF hm as path, of gc] has(7) c'(5) c(1) by auto
    let ?m' = "dm_set ?m b (Leaf_Node ?l)"
    have run: "run_remove ts m gc c = Some (?m', gc', True)"
      using has(2,3,6) f(1) c'(4,6,7) c(1) by (simp add: run_remove_def find_locked_def dm_leaf_def)
    have rows: "lf_rows ?l = take ?i (lf_rows l) @ drop (?i + 1) (lf_rows l)" "lf_sorted ?l"
      using remove_rows(1,2) [OF as(1,2)] a(1) by simp_all
    have len: "?i < length (lf_rows l)" using has(4) l lf_live_perm(4) by (simp add: lf_rows_def lf_sorted_def lf_ok_def)
    have key: "row_stores (lf_rows l ! ?i) (key_string (tc_ka c')) u" using has(5) c'(2) by simp
    note st = store_removed [OF rok c'(1) len key, unfolded c'(2)]
    have keeps: "lf_keeps l ?l" using a(6) by (simp add: lf_keeps_def lf_finish_remove_def)
    have "slot_ikey ` set (lf_rows ?l) \<subseteq> slot_ikey ` set (lf_rows l)"
      unfolding rows(1) by (auto dest: in_set_takeD in_set_dropD)
    then have fits: "leaf_fits b l ?l ws x" by (intro leaf_fitsI [OF rows(2)]) (use rows(1) st(1) in auto)
    let ?t = "dt_replace b ?l t"
    note v = view_same [OF replace_view [OF w(1) t(4) keeps]]
    have "dt_ok 0 (2 ^ 64) ?t" by (rule replace_ok [OF w(1) t(4) keeps fits t(1) le0 slice_bound])
    moreover have "dt_root ?t" "dt_addr ?t = dt_addr t" using v t(2) by simp_all
    moreover have "holds (dm_heap ?m') ?t"
      using replace_holds [OF t(3) c'(7), of ?l] by (simp add: dm_set_def)
    moreover have "dt_addrs (dt_replace b ?l t) = dt_addrs t" for t
      by (induction t) (simp_all add: comp_def cong: map_cong)
    moreover have "\<forall>y w. rows_store (lf_rows ?l) (map dt_stores ws) y w \<longleftrightarrow>
        (if y = x then False else rows_store (lf_rows l) (map dt_stores ws) y w)"
      unfolding rows(1) st(2) by simp
    then have "\<forall>y w. dt_stores ?t y w \<longleftrightarrow> (if y = s then False else dt_stores t y w)"
      using replace_stores [OF w(1) t(4,1), where Q = "\<lambda>_. False"] by blast
    ultimately show ?thesis using run f(2) t(4) has(1) stored
      by (intro exI [of _ ?m'] exI [of _ gc'] exI [of _ ?t]) (simp add: dm_set_def)
  qed
qed

end
