(* ===== verification/Mt_Change.thy ===== *)
theory Mt_Change
  imports Mt_Put Dyn_Remove
begin

text \<open>
  The other operations of \<^verbatim>\<open>mt_index\<close> (\<^verbatim>\<open>hybrid_index/mtIndexAPI.hh\<close>) that change it: removing a key or one
  of its values, and replacing a value, in whichever stage holds the key.

  A removal from the dynamic stage hands on the list of callbacks (\<open>gc_list\<close>) and gets a timestamp \<open>ts\<close> and the number
  \<open>due\<close> of callbacks that run first: none unless much memory waits for being freed.
\<close>

section \<open>Removing\<close>

definition dynamic_remove ::
  "mt_env \<Rightarrow> u64 \<Rightarrow> nat \<Rightarrow> gc_list \<Rightarrow> 'n mt_index \<Rightarrow> mkey \<Rightarrow> ('n mt_index \<times> gc_list \<times> bool) option" where
  "dynamic_remove E ts due gc ix key =
     (if ix_ic ix = 0 then Some (ix, gc, False)
      else
        (case clean_rcu due (en_cursor E) (dm_of ix) gc of None \<Rightarrow> None
         | Some (m, gc) \<Rightarrow>
           (let ix = with_dm ix m in
            case tb_fix_root (ix_table ix) of None \<Rightarrow> None
            | Some (t, root) \<Rightarrow>
              map_option (\<lambda>(m, gc, removed). ((with_dm (ix\<lparr>ix_table := t\<rparr>) m)\<lparr>ix_ic := ix_ic ix - of_bool removed\<rparr>, gc, removed))
                (run_remove ts (dm_of (ix\<lparr>ix_table := t\<rparr>)) gc (tc_make (en_cursor E) root key)))))"

definition mt_remove ::
  "mt_env \<Rightarrow> u64 \<Rightarrow> nat \<Rightarrow> gc_list \<Rightarrow> massnode mt_index \<Rightarrow> mkey \<Rightarrow> (massnode mt_index \<times> gc_list \<times> bool) option" where
  "mt_remove E ts due gc ix key =
     (case dynamic_remove E ts due gc ix key of None \<Rightarrow> None
      | Some (ix, gc, True) \<Rightarrow> Some (ix, gc, True)
      | Some (ix, gc, False) \<Rightarrow> map_option (\<lambda>(ix, removed). (ix, gc, removed)) (static_remove ix key))"

definition dynamic_remove_nuv ::
  "mt_env \<Rightarrow> u64 \<Rightarrow> nat \<Rightarrow> gc_list \<Rightarrow> 'n mt_index \<Rightarrow> mkey \<Rightarrow> byte list \<Rightarrow> ('n mt_index \<times> gc_list \<times> bool) outcome option" where
  "dynamic_remove_nuv E ts due gc ix key v =
     (if ix_ic ix = 0 then Some (Goes_On (ix, gc, False))
      else
        (case dynamic_get ix key of None \<Rightarrow> None
         | Some (ix, None) \<Rightarrow> Some (Goes_On (ix, gc, False))
         | Some (ix, Some get_value) \<Rightarrow>
           (case find_value get_value v of None \<Rightarrow> Some (Goes_On (ix, gc, False))
            | Some i \<Rightarrow>
              if length get_value = length v then map_option Goes_On (dynamic_remove E ts due gc ix key)
              else
                (let put_back_value = values_remove get_value v i in
                 map_option (\<lambda>r. and_then r (\<lambda>ix. Goes_On
                     (ix\<lparr>ix_ic := ix_ic ix - 1 - int (length put_back_value div VALUE_LEN)\<rparr>, gc, True)))
                   (mt_put E ix key put_back_value)))))"

definition remove_nuv :: "mt_env \<Rightarrow> u64 \<Rightarrow> nat \<Rightarrow> gc_list \<Rightarrow> massnode_dynamicvalue mt_index \<Rightarrow> mkey \<Rightarrow> byte list \<Rightarrow>
    (massnode_dynamicvalue mt_index \<times> gc_list \<times> bool) outcome option" where
  "remove_nuv E ts due gc ix key v =
     (case dynamic_remove_nuv E ts due gc ix key v of None \<Rightarrow> None
      | Some (Goes_On (ix, gc, False)) \<Rightarrow>
        map_option (\<lambda>(ix, removed). Goes_On (ix, gc, removed)) (static_remove_nuv1 E ix key v)
      | Some r \<Rightarrow> Some r)"

section \<open>Existence of a key with values\<close>

definition exist_nuv :: "massnode_dynamicvalue mt_index \<Rightarrow> mkey \<Rightarrow> (massnode_dynamicvalue mt_index \<times> bool) option" where
  "exist_nuv ix key =
     (case dynamic_probe ix key of None \<Rightarrow> None
      | Some (ix, found) \<Rightarrow>
        if \<not> found
        then map_option (\<lambda>r. (ix, st_value md_ops (ix_static ix) r \<noteq> None))
          (stcursor_dynamicvalue_find (ix_static ix) (ix_static_root ix) key)
        else Some (ix, True))"

section \<open>Replacing\<close>

text \<open>
  \<^verbatim>\<open>dynamic_replace\<close> looks the key up with \<^verbatim>\<open>find_insert\<close>; when it is not there, or the old
  value is not among its values, it returns without \<^verbatim>\<open>finish\<close>, so what \<^verbatim>\<open>find_insert\<close> prepared stays.
\<close>

definition dynamic_replace ::
  "mt_env \<Rightarrow> 'n mt_index \<Rightarrow> mkey \<Rightarrow> byte list \<Rightarrow> byte list \<Rightarrow> ('n mt_index \<times> bool) option" where
  "dynamic_replace E ix key v old =
     (if ix_ic ix = 0 \<or> length v \<noteq> length old then Some (ix, False)
      else
        (case cursor_insert E ix key of None \<Rightarrow> None
         | Some (ix, c, False) \<Rightarrow> Some (ix, False)
         | Some (ix, c, True) \<Rightarrow>
           (case cursor_value ix c of None \<Rightarrow> None
            | Some get_value \<Rightarrow>
              (case find_value get_value old of None \<Rightarrow> Some (ix, False)
               | Some i \<Rightarrow> map_option (\<lambda>ix. (ix, True)) (cursor_store E ix c True (values_replace get_value v i))))))"

definition static_replace1 :: "mt_env \<Rightarrow> massnode_dynamicvalue mt_index \<Rightarrow> mkey \<Rightarrow> byte list \<Rightarrow> byte list \<Rightarrow>
    (massnode_dynamicvalue mt_index \<times> bool) option" where
  "static_replace1 E ix key v old =
     (if ix_sic ix = 0 \<or> length v \<noteq> length old then Some (ix, False)
      else
        (case stcursor_dynamicvalue_find (ix_static ix) (ix_static_root ix) key of None \<Rightarrow> None
         | Some r \<Rightarrow>
           (case st_value md_ops (ix_static ix) r of None \<Rightarrow> Some (ix, False)
            | Some row \<Rightarrow>
              (case find_value (ix_rows ix row) old of None \<Rightarrow> Some (ix, False)
               | Some i \<Rightarrow> Some (static_store E ix r (values_replace (ix_rows ix row) v i), True)))))"

definition mt_replace :: "mt_env \<Rightarrow> massnode_dynamicvalue mt_index \<Rightarrow> mkey \<Rightarrow> byte list \<Rightarrow> byte list \<Rightarrow>
    (massnode_dynamicvalue mt_index \<times> bool) option" where
  "mt_replace E ix key v old =
     (case dynamic_replace E ix key v old of None \<Rightarrow> None
      | Some (ix, True) \<Rightarrow> Some (ix, True)
      | Some (ix, False) \<Rightarrow> static_replace1 E ix key v old)"

text \<open>The first value of a key; a value longer than all values of the key together is written beyond the block.\<close>

definition replace_first1 :: "mt_env \<Rightarrow> massnode_dynamicvalue mt_index \<Rightarrow> mkey \<Rightarrow> byte list \<Rightarrow>
    (massnode_dynamicvalue mt_index \<times> bool) outcome option" where
  "replace_first1 E ix key v =
     (case dynamic_probe ix key of None \<Rightarrow> None
      | Some (ix, found) \<Rightarrow>
        (case (if \<not> found \<and> ix_sic ix \<noteq> 0 then stcursor_dynamicvalue_find (ix_static ix) (ix_static_root ix) key
               else Some St_NotFound) of
           None \<Rightarrow> None
         | Some r \<Rightarrow>
           (case st_value md_ops (ix_static ix) r of
              Some row \<Rightarrow>
                (case values_replace_first (ix_rows ix row) v of
                   None \<Rightarrow> Some Undefined
                 | Some new \<Rightarrow> Some (Goes_On (static_store E ix r new, True)))
            | None \<Rightarrow>
              (case cursor_insert E ix key of None \<Rightarrow> None
               | Some (ix, c, False) \<Rightarrow> Some (Goes_On (ix, False))
               | Some (ix, c, True) \<Rightarrow>
                 (case cursor_value ix c of None \<Rightarrow> None
                  | Some get_value \<Rightarrow>
                    (case values_replace_first get_value v of
                       None \<Rightarrow> Some Undefined
                     | Some new \<Rightarrow> map_option (\<lambda>ix. Goes_On (ix, True)) (cursor_store E ix c True new)))))))"

section \<open>Removing a key of the unique index\<close>

text \<open>What a lookup returns, from what it finds in the stages.\<close>

lemma get_of_stages:
  assumes d: "tb_holds (ix_table ix) t" "ix_ic ix = 0 \<longrightarrow> (\<forall>s v. \<not> dt_stores t s v)" "key_ok k"
    and s: "\<exists>v. static_get ix k = Some v \<and>
      (\<forall>b. v = Some b \<longleftrightarrow> (\<exists>w. stored mn_ops (ix_static ix) (ix_static_root ix) (key_string k) w \<and> b = lvs_value w))"
  shows "\<exists>v. map_option snd (mt_get ix k) = Some v \<and> (\<forall>b. v = Some b \<longleftrightarrow> index_has ix t (key_string k) b)"
proof -
  have static: "static_get (ix\<lparr>ix_table := tb\<rparr>) k = static_get ix k" for tb by (simp add: static_get_def)
  obtain v where v: "static_get ix k = Some v"
    "\<forall>b. v = Some b \<longleftrightarrow> (\<exists>w. stored mn_ops (ix_static ix) (ix_static_root ix) (key_string k) w \<and> b = lvs_value w)" using s by blast
  show ?thesis
  proof (cases "ix_ic ix = 0")
    case True
    then show ?thesis using d(2) v by (intro exI [of _ v]) (simp add: mt_get_def dynamic_get_def index_has_def)
  next
    case False
    obtain r where r: "tb_get (ix_table ix) k = Some ((ix_table ix)\<lparr>tb_root := dt_addr t\<rparr>, r)" "\<forall>v. r = Some v \<longleftrightarrow> dt_stores t (key_string k) v"
      using dyn_get_spec [OF d(1,3)] by blast
    show ?thesis
    proof (cases r)
      case None
      then show ?thesis using False r v by (intro exI [of _ v]) (simp add: mt_get_def dynamic_get_def dynamic_find_def static index_has_def)
    next
      case (Some u)
      then have "\<forall>v. dt_stores t (key_string k) v \<longleftrightarrow> v = u" using r(2) by (metis option.inject)
      then show ?thesis using False r(1) Some
        by (intro exI [of _ "Some (ix_rows ix u)"]) (auto simp: mt_get_def dynamic_get_def dynamic_find_def index_has_def)
    qed
  qed
qed

lemma clean_rcu_none: "clean_rcu 0 raw m gc = Some (m, gc)"
  by (simp add: clean_rcu_def)

lemma with_dm_same: "with_dm ix (dm_of ix) = ix"
  by (simp add: with_dm_def dm_of_def)

lemma dynamic_remove_spec:
  assumes d: "tb_holds (ix_table ix) t" "distinct (dt_addrs t)" "ix_ic ix = 0 \<longrightarrow> (\<forall>s v. \<not> dt_stores t s v)"
    and k: "key_ok k" "k_first k = k_s k" and removes: "dt_removes t (key_string k)"
  shows "\<exists>ix' gc' t'. dynamic_remove E ts 0 gc ix k = Some (ix', gc', \<exists>u. dt_stores t (key_string k) u) \<and>
    (\<exists>tb free. ix' = ix\<lparr>ix_table := tb, ix_free := free, ix_ic := ix_ic ix - of_bool (\<exists>u. dt_stores t (key_string k) u)\<rparr> \<and> tb_holds tb t') \<and>
    distinct (dt_addrs t') \<and> gc_grown gc gc' (dt_addr t) (key_string k) \<and>
    (\<forall>y w. dt_stores t' y w \<longleftrightarrow> y \<noteq> key_string k \<and> dt_stores t y w)"
proof (cases "ix_ic ix = 0")
  case True
  then show ?thesis using d
    by (intro exI [of _ ix] exI [of _ gc] exI [of _ t])
      (auto simp: dynamic_remove_def gc_grown_def intro!: exI [of _ "ix_table ix"] exI [of _ "ix_free ix"])
next
  case False
  note t = d(1) [unfolded tb_holds_def]
  let ?s = "key_string k" and ?tb = "(ix_table ix)\<lparr>tb_root := dt_addr t\<rparr>" and ?f = "\<exists>u. dt_stores t (key_string k) u"
  let ?m = "dm_of (ix\<lparr>ix_table := ?tb\<rparr>)" and ?c = "tc_make (en_cursor E) (dt_addr t) k"
  have c: "tc_ka ?c = k" "tc_root ?c = dt_addr t" by (simp_all add: tc_make_def)
  have h: "dm_heap ?m = tb_heap (ix_table ix)" by (simp add: dm_of_def)
  have path: "key_path ?s k" using k(2) by (simp add: key_path_def key_prefix_string_def)
  obtain m' gc' t' where p: "run_remove ts ?m gc ?c = Some (m', gc', ?f)" "dt_ok 0 (2 ^ 64) t'" "dt_root t'" "holds (dm_heap m') t'"
    "dt_addr t' = dt_addr t" "distinct (dt_addrs t')" "gc_grown gc gc' (dt_addr t) ?s"
    "\<forall>y w. dt_stores t' y w \<longleftrightarrow> y \<noteq> ?s \<and> dt_stores t y w"
    using dm_remove [of t ?m ?c ?s ts gc, unfolded h c] t d(2) k(1) path removes by blast
  let ?ix = "(with_dm (ix\<lparr>ix_table := ?tb\<rparr>) m')\<lparr>ix_ic := ix_ic ix - of_bool ?f\<rparr>"
  have "dynamic_remove E ts 0 gc ix k = Some (?ix, gc', ?f)"
    using False p(1) by (simp add: dynamic_remove_def clean_rcu_none with_dm_same fix_root_ok [OF d(1)])
  moreover have "tb_holds (?tb\<lparr>tb_heap := dm_heap m'\<rparr>) t'" using p(2-5) spine_hd [of t'] by (auto simp: tb_holds_def)
  then have "\<exists>tb free. ?ix = ix\<lparr>ix_table := tb, ix_free := free, ix_ic := ix_ic ix - of_bool ?f\<rparr> \<and> tb_holds tb t'"
    by (intro exI [of _ "?tb\<lparr>tb_heap := dm_heap m'\<rparr>"] exI [of _ "dm_free m'"]) (simp add: with_dm_def)
  ultimately show ?thesis using p(6-8) by blast
qed

text \<open>The static stage can be searched and its counter hides no key.\<close>

definition static_ok :: "'n node_ops \<Rightarrow> ('n \<Rightarrow> bool) \<Rightarrow> 'n mt_index \<Rightarrow> bool" where
  "static_ok ops ok ix \<longleftrightarrow> (ix_static_root ix \<noteq> 0 \<longrightarrow> (\<exists>A. static_trie ops ok (ix_static ix) (ix_static_root ix) A)) \<and>
     (ix_static_root ix = 0 \<longrightarrow> ix_static ix 0 = None) \<and>
     (ix_sic ix = 0 \<longrightarrow> (\<forall>s v. \<not> stored ops (ix_static ix) (ix_static_root ix) s v))"

lemma stages_static_ok:
  "stages_ok mn_merge_ops ix t \<Longrightarrow> static_ok mn_ops mn_ok ix" "stages_ok md_merge_ops ix' t' \<Longrightarrow> static_ok md_ops md_ok ix'"
  using mnk.mtrie_static mdk.mtrie_static unfolding stages_ok_def static_ok_def by fastforce+

lemma static_ok_get:
  assumes "static_ok mn_ops mn_ok ix" "key_ok k"
  shows "\<exists>v. static_get ix k = Some v \<and>
    (\<forall>b. v = Some b \<longleftrightarrow> (\<exists>w. stored mn_ops (ix_static ix) (ix_static_root ix) (key_string k) w \<and> b = lvs_value w))"
proof (cases "ix_sic ix = 0 \<or> ix_static_root ix = 0")
  case True
  have "\<not> stored mn_ops (ix_static ix) (ix_static_root ix) s w" for s w
    using assms(1) True by (auto simp: static_ok_def elim: stored.cases)
  then show ?thesis using True
    by (intro exI [of _ None]) (auto simp: static_get_def stcursor_find_def st_find_def st_value_def)
next
  case False
  then obtain A where A: "static_trie mn_ops mn_ok (ix_static ix) (ix_static_root ix) A" using assms(1) by (auto simp: static_ok_def)
  obtain r where "stcursor_find (ix_static ix) (ix_static_root ix) k = Some r"
    "\<forall>w. st_value mn_ops (ix_static ix) r = Some w \<longleftrightarrow> stored mn_ops (ix_static ix) (ix_static_root ix) (key_string k) w"
    using mn.find_correct [OF A assms(2) mn.fits_all [OF A]] unfolding stcursor_find_def by blast
  then show ?thesis using False
    by (intro exI [of _ "map_option lvs_value (st_value mn_ops (ix_static ix) r)"]) (auto simp: static_get_def)
qed

text \<open>The key's slot is the first of its slice in its node; for keys of one length up to eight every slot is.\<close>

definition static_first :: "massnode mt_index \<Rightarrow> mkey \<Rightarrow> bool" where
  "static_first ix k \<longleftrightarrow> (\<forall>q i n. stcursor_find (ix_static ix) (ix_static_root ix) k = Some (St_Found q i) \<longrightarrow>
     ix_static ix q = Some n \<longrightarrow> first_of_slice mn_ops n i)"

lemma static_remove_spec:
  assumes "static_ok mn_ops mn_ok ix" "key_ok k" "static_first ix k"
    and last: "ix_sic ix = 1 \<longrightarrow> (\<forall>s w. stored mn_ops (ix_static ix) (ix_static_root ix) s w \<longrightarrow> s = key_string k)"
  shows "\<exists>ix'. static_remove ix k = Some (ix', \<exists>w. stored mn_ops (ix_static ix) (ix_static_root ix) (key_string k) w) \<and>
    (\<exists>h n. ix' = ix\<lparr>ix_static := h, ix_sic := n\<rparr>) \<and> static_ok mn_ops mn_ok ix' \<and>
    (\<forall>s w. stored mn_ops (ix_static ix') (ix_static_root ix') s w \<longleftrightarrow>
      s \<noteq> key_string k \<and> stored mn_ops (ix_static ix) (ix_static_root ix) s w)"
proof (cases "ix_sic ix = 0 \<or> ix_static_root ix = 0")
  case True
  have none: "\<not> stored mn_ops (ix_static ix) (ix_static_root ix) s w" for s w
    using assms(1) True by (auto simp: static_ok_def elim: stored.cases)
  then have "static_remove ix k = Some (ix, False)"
    using True by (auto simp: static_remove_def stcursor_remove_def st_remove_def st_find_def)
  then show ?thesis using none assms(1)
    by (intro exI [of _ ix]) (auto intro!: exI [of _ "ix_static ix"] exI [of _ "ix_sic ix"])
next
  case False
  let ?h = "ix_static ix" and ?p = "ix_static_root ix" and ?s = "key_string k"
  obtain A where A: "static_trie mn_ops mn_ok ?h ?p A" using assms(1) False by (auto simp: static_ok_def)
  obtain r h' where r: "stcursor_remove ?h ?p k = Some (r, h')" "static_trie mn_ops mn_ok h' ?p A"
    "if \<exists>v. stored mn_ops ?h ?p ?s v then (\<exists>q i. r = St_Found q i) \<and>
       (\<forall>t w. stored mn_ops h' ?p t w \<longleftrightarrow> t \<noteq> ?s \<and> stored mn_ops ?h ?p t w) else r = St_NotFound \<and> h' = ?h"
    using mn.remove_correct [OF A assms(2) mn.fits_all [OF A]] assms(3)
    unfolding static_first_def stcursor_find_def stcursor_remove_def by blast
  show ?thesis
  proof (cases "\<exists>v. stored mn_ops ?h ?p ?s v")
    case True
    let ?ix = "ix\<lparr>ix_static := h', ix_sic := ix_sic ix - 1\<rparr>"
    have st: "\<forall>t w. stored mn_ops h' ?p t w \<longleftrightarrow> t \<noteq> ?s \<and> stored mn_ops ?h ?p t w" using r(3) True by simp
    have "static_remove ix k = Some (?ix, True)" using False True r(1,3) by (auto simp: static_remove_def)
    moreover have "static_ok mn_ops mn_ok ?ix" using False r(2) st last by (auto simp: static_ok_def)
    ultimately show ?thesis using True st by (intro exI [of _ ?ix]) auto
  next
    case no: False
    then have "static_remove ix k = Some (ix\<lparr>ix_static := ?h\<rparr>, False)" using False r(1,3) by (auto simp: static_remove_def)
    then show ?thesis using no assms(1)
      by (intro exI [of _ ix]) (auto intro!: exI [of _ "ix_static ix"] exI [of _ "ix_sic ix"])
  qed
qed

lemma remove_dynamic_spec:
  assumes ok: "dynamic_ok mn_merge_ops ix t" "stages_apart mn_merge_ops ix t" and k: "key_ok k" "k_first k = k_s k"
    and removes: "dt_removes t (key_string k)" and first: "static_first ix k"
    and last: "ix_ic ix = 1 \<longrightarrow> (\<forall>s v. dt_stores t s v \<longrightarrow> s = key_string k)"
      "ix_sic ix = 1 \<longrightarrow> (\<forall>s w. stored mn_ops (ix_static ix) (ix_static_root ix) s w \<longrightarrow> s = key_string k)"
  shows "\<exists>ix' gc' t'. mt_remove E ts 0 gc ix k = Some (ix', gc', \<exists>b. index_has ix t (key_string k) b) \<and>
    gc_grown gc gc' (dt_addr t) (key_string k) \<and> tb_holds (ix_table ix') t' \<and> distinct (dt_addrs t') \<and> static_ok mn_ops mn_ok ix' \<and>
    (ix_ic ix' = 0 \<longrightarrow> (\<forall>s v. \<not> dt_stores t' s v)) \<and>
    (\<forall>s b. index_has ix' t' s b \<longleftrightarrow> s \<noteq> key_string k \<and> index_has ix t s b)"
proof -
  let ?s = "key_string k" and ?f = "\<exists>u. dt_stores t (key_string k) u"
  have so: "stages_ok mn_merge_ops ix t" and d: "distinct (dt_addrs t)" using ok(1) by (simp_all add: dynamic_ok_def)
  have tb: "tb_holds (ix_table ix) t" "ix_ic ix = 0 \<longrightarrow> (\<forall>s v. \<not> dt_stores t s v)" using so by (simp_all add: stages_ok_def)
  have st: "static_ok mn_ops mn_ok ix" by (rule stages_static_ok(1) [OF so])
  obtain ix1 gc' t' tb' free where r: "dynamic_remove E ts 0 gc ix k = Some (ix1, gc', ?f)"
    "ix1 = ix\<lparr>ix_table := tb', ix_free := free, ix_ic := ix_ic ix - of_bool ?f\<rparr>" "tb_holds tb' t'"
    "distinct (dt_addrs t')" "gc_grown gc gc' (dt_addr t) ?s" "\<And>y w. dt_stores t' y w \<longleftrightarrow> y \<noteq> ?s \<and> dt_stores t y w"
    using dynamic_remove_spec [OF tb(1) d tb(2) k removes, of E ts gc] by blast
  have ic: "ix_ic ix1 = 0 \<longrightarrow> (\<forall>s v. \<not> dt_stores t' s v)"
  proof
    assume z: "ix_ic ix1 = 0"
    show "\<forall>s v. \<not> dt_stores t' s v"
    proof (cases ?f)
      case True
      then have "ix_ic ix = 1" using z r(2) by simp
      then show ?thesis using last(1) r(6) by blast
    next
      case False
      then have "ix_ic ix = 0" using z r(2) by simp
      then show ?thesis using tb(2) r(6) by blast
    qed
  qed
  have st1: "static_ok mn_ops mn_ok ix1" "static_first ix1 k" using st first r(2) by (simp_all add: static_ok_def static_first_def)
  show ?thesis
  proof (cases ?f)
    case True
    have no: "\<not> stored mn_ops (ix_static ix) (ix_static_root ix) ?s w" for w
    proof (cases "?s = []")
      case False
      then show ?thesis using ok(2) True by (auto simp: stages_apart_def)
    qed (use stored_by_nonempty [of mn_ops _ _ _ "[]"] in \<open>auto simp: stored_stored_by\<close>)
    have "index_has ix1 t' s b \<longleftrightarrow> s \<noteq> ?s \<and> index_has ix t s b" for s b
      using r(2,6) no by (cases "s = ?s") (simp_all add: index_has_def)
    moreover have "\<exists>b. index_has ix t ?s b" using True by (auto simp: index_has_def)
    moreover have "mt_remove E ts 0 gc ix k = Some (ix1, gc', True)" using r(1) True by (simp add: mt_remove_def)
    ultimately show ?thesis using r(2-5) ic st1(1) by (intro exI [of _ ix1] exI [of _ gc'] exI [of _ t']) simp
  next
    case False
    have last1: "ix_sic ix1 = 1 \<longrightarrow> (\<forall>s w. stored mn_ops (ix_static ix1) (ix_static_root ix1) s w \<longrightarrow> s = ?s)"
      using last(2) r(2) by simp
    obtain ix2 h n where q: "static_remove ix1 k = Some (ix2, \<exists>w. stored mn_ops (ix_static ix1) (ix_static_root ix1) ?s w)"
      "ix2 = ix1\<lparr>ix_static := h, ix_sic := n\<rparr>" "static_ok mn_ops mn_ok ix2"
      "\<And>s w. stored mn_ops (ix_static ix2) (ix_static_root ix2) s w \<longleftrightarrow>
         s \<noteq> ?s \<and> stored mn_ops (ix_static ix1) (ix_static_root ix1) s w"
      using static_remove_spec [OF st1(1) k(1) st1(2) last1] by blast
    have same: "stored mn_ops (ix_static ix1) (ix_static_root ix1) s w \<longleftrightarrow> stored mn_ops (ix_static ix) (ix_static_root ix) s w" for s w
      using r(2) by simp
    have rows: "ix_rows ix2 = ix_rows ix" using q(2) r(2) by simp
    have dt: "dt_stores t' y w \<longleftrightarrow> dt_stores t y w" for y w using r(6) False by auto
    have "index_has ix2 t' s b \<longleftrightarrow> s \<noteq> ?s \<and> index_has ix t s b" for s b
      unfolding index_has_def dt q(4) same rows using False by auto
    moreover have "(\<exists>b. index_has ix t ?s b) \<longleftrightarrow> (\<exists>w. stored mn_ops (ix_static ix1) (ix_static_root ix1) ?s w)"
      using False same by (auto simp: index_has_def)
    then have "mt_remove E ts 0 gc ix k = Some (ix2, gc', \<exists>b. index_has ix t ?s b)"
      using r(1) q(1) False by (simp add: mt_remove_def)
    moreover have "tb_holds (ix_table ix2) t'" "ix_ic ix2 = 0 \<longrightarrow> (\<forall>s v. \<not> dt_stores t' s v)" using q(2) r(2,3) ic by simp_all
    ultimately show ?thesis using r(4,5) q(3) by (intro exI [of _ ix2] exI [of _ gc'] exI [of _ t']) simp
  qed
qed

section \<open>Properties\<close>


section \<open>Witnesses\<close>

lemma static_first_absent:
  assumes "static_ok mn_ops mn_ok ix" "key_ok k" "\<forall>w. \<not> stored mn_ops (ix_static ix) (ix_static_root ix) (key_string k) w"
  shows "static_first ix k"
  unfolding static_first_def
proof (intro allI impI)
  fix q i n assume f: "stcursor_find (ix_static ix) (ix_static_root ix) k = Some (St_Found q i)" "ix_static ix q = Some n"
  then have "ix_static_root ix \<noteq> 0" by (auto simp: stcursor_find_def st_find_def)
  then obtain A where A: "static_trie mn_ops mn_ok (ix_static ix) (ix_static_root ix) A" using assms(1) by (auto simp: static_ok_def)
  have "st_value mn_ops (ix_static ix) (St_Found q i) = None"
    using mn.find_correct [OF A assms(2) mn.fits_all [OF A]] f(1) assms(3) unfolding stcursor_find_def
    by (metis not_None_eq option.inject)
  then show "first_of_slice mn_ops n i" using f(2) by (simp add: st_value_def)
qed

lemma sample_removes: "dt_removes sample_stage [97]"
proof -
  let ?l = "one_leaf 1 (slice_of [97]) 7"
  have "dt_leads sample_stage [97] 2000 ?l [] [97]"
    unfolding sample_stage_def by (rule dt_leads.leaf) (simp add: sample_stage_rows(2) row_leads_def keylenx_is_layer_def)
  moreover have "\<not> lf_deleted_layer ?l" "lf_prev ?l = 0" by (simp_all add: lf_deleted_layer_def one_leaf_def zero_leaf_def)
  ultimately show ?thesis unfolding dt_removes_def by blast
qed


end
