(* ===== verification/Mt_Values.thy ===== *)
theory Mt_Values
  imports Mt_Change
begin

text \<open>
  What an insertion does in the index with several values per key: the value goes in front of those the key has, in the
  stage that holds the key; a new key goes to the dynamic stage.
\<close>

declare split_paired_All [simp del] split_paired_Ex [simp del]

section \<open>The steps\<close>

lemma dynamic_probe_ok:
  assumes "tb_holds (ix_table ix) t" "ix_ic ix = 0 \<longrightarrow> (\<forall>s v. \<not> dt_stores t s v)" "key_ok k"
  shows "dynamic_probe ix k =
    Some (ix\<lparr>ix_table := (ix_table ix)\<lparr>tb_root := dt_addr t\<rparr>\<rparr>, \<exists>u. dt_stores t (key_string k) u)"
proof (cases "ix_ic ix = 0")
  case True
  then show ?thesis using assms(2) by (simp add: dynamic_probe_def fix_root_ok [OF assms(1)])
next
  case False
  obtain r where r: "tb_get (ix_table ix) k = Some ((ix_table ix)\<lparr>tb_root := dt_addr t\<rparr>, r)" "\<forall>v. r = Some v \<longleftrightarrow> dt_stores t (key_string k) v"
    using dyn_get_spec [OF assms(1,3)] by blast
  have "find_unlocked (tb_heap (ix_table ix)) (dt_addr t) k = Some r"
    using r(1) by (simp add: tb_get_def fix_root_ok [OF assms(1)])
  moreover have "r \<noteq> None \<longleftrightarrow> (\<exists>u. dt_stores t (key_string k) u)" using r(2) by (metis not_None_eq)
  ultimately show ?thesis using False by (simp add: dynamic_probe_def fix_root_ok [OF assms(1)])
qed

lemma static_find_nuv:
  assumes "static_ok md_ops md_ok ix" "key_ok k" "nuv_findable ix k" "ix_sic ix \<noteq> 0"
  obtains (absent) r where "stcursor_dynamicvalue_find (ix_static ix) (ix_static_root ix) k = Some r" "st_value md_ops (ix_static ix) r = None"
      "\<forall>w. \<not> stored md_ops (ix_static ix) (ix_static_root ix) (key_string k) w"
  | (present) r w where "stcursor_dynamicvalue_find (ix_static ix) (ix_static_root ix) k = Some r" "st_value md_ops (ix_static ix) r = Some w"
      "\<forall>u. stored md_ops (ix_static ix) (ix_static_root ix) (key_string k) u \<longleftrightarrow> u = w"
      "\<And>E v. \<exists>h. static_store E ix r v = ix\<lparr>ix_static := h, ix_rows := (ix_rows ix)(en_row E := v)\<rparr> \<and>
        (\<exists>A. static_trie md_ops md_ok h (ix_static_root ix) A) \<and>
        (\<forall>y u. stored md_ops h (ix_static_root ix) y u \<longleftrightarrow>
           (if y = key_string k then u = en_row E else stored md_ops (ix_static ix) (ix_static_root ix) y u))"
proof (cases "ix_static_root ix = 0")
  case True
  then have "stcursor_dynamicvalue_find (ix_static ix) (ix_static_root ix) k = Some St_NotFound"
    "\<forall>w. \<not> stored md_ops (ix_static ix) (ix_static_root ix) (key_string k) w"
    using assms(1) by (auto simp: stcursor_dynamicvalue_find_def st_find_def static_ok_def elim: stored.cases)
  then show thesis by (intro absent [of St_NotFound]) (simp_all add: st_value_def)
next
  case False
  let ?h = "ix_static ix" and ?p = "ix_static_root ix" and ?s = "key_string k"
  obtain A where A: "static_trie md_ops md_ok ?h ?p A" using assms(1) False by (auto simp: static_ok_def)
  note fits = assms(3) [unfolded nuv_findable_def]
  obtain r where r: "st_find md_ops ?h ?p k = Some r" "\<forall>w. st_value md_ops ?h r = Some w \<longleftrightarrow> stored md_ops ?h ?p ?s w"
    using md.find_correct [OF A assms(2) fits] by blast
  have find: "stcursor_dynamicvalue_find ?h ?p k = Some r" using r(1) by (simp add: stcursor_dynamicvalue_find_def)
  show thesis
  proof (cases "st_value md_ops ?h r")
    case None
    then show thesis using find r(2) by (intro absent) simp_all
  next
    case (Some w)
    have only: "\<forall>u. stored md_ops ?h ?p ?s u \<longleftrightarrow> u = w" using r(2) Some by (metis option.inject)
    have "\<exists>h. static_store E ix r v = ix\<lparr>ix_static := h, ix_rows := (ix_rows ix)(en_row E := v)\<rparr> \<and>
        (\<exists>A. static_trie md_ops md_ok h ?p A) \<and>
        (\<forall>y u. stored md_ops h ?p y u \<longleftrightarrow> (if y = ?s then u = en_row E else stored md_ops ?h ?p y u))" for E v
    proof -
      obtain r' h' where u: "st_update md_ops ?h ?p k (en_row E) = Some (r', h')" "static_trie md_ops md_ok h' ?p A"
        "if \<exists>v. stored md_ops ?h ?p ?s v then (\<exists>q i. r' = St_Found q i) \<and>
           (\<forall>t w. stored md_ops h' ?p t w \<longleftrightarrow> (if t = ?s then w = en_row E else stored md_ops ?h ?p t w))
         else r' = St_NotFound \<and> h' = ?h"
        using md.update_correct [OF A assms(2) fits] by blast
      have "r' = r" using u(1) r(1) by (auto simp: st_update_def)
      moreover have ex: "\<exists>v. stored md_ops ?h ?p ?s v" using only by blast
      ultimately obtain q i where "r = St_Found q i" using u(3) by auto
      then have "static_store E ix r v = ix\<lparr>ix_static := h', ix_rows := (ix_rows ix)(en_row E := v)\<rparr>"
        using u(1) r(1) by (auto simp: st_update_def static_store_def)
      then show ?thesis using u(2,3) ex by auto
    qed
    then show thesis using find Some only by (intro present)
  qed
qed

section \<open>A new string for a key\<close>

text \<open>The index after the string of values of the key \<open>s\<close> has become \<open>new\<close>.\<close>

definition nuv_written :: "massnode_dynamicvalue mt_index \<Rightarrow> dtree \<Rightarrow> byte list \<Rightarrow> byte list \<Rightarrow>
    massnode_dynamicvalue mt_index \<Rightarrow> dtree \<Rightarrow> bool" where
  "nuv_written ix t s new ix' t' \<longleftrightarrow> tb_holds (ix_table ix') t' \<and> distinct (dt_addrs t') \<and> static_ok md_ops md_ok ix' \<and>
     (\<forall>b. nuv_has ix' t' s b \<longleftrightarrow> b = new) \<and> (\<forall>y b. y \<noteq> s \<longrightarrow> (nuv_has ix' t' y b \<longleftrightarrow> nuv_has ix t y b))"

definition row_fresh :: "massnode_dynamicvalue mt_index \<Rightarrow> dtree \<Rightarrow> u64 \<Rightarrow> bool" where
  "row_fresh ix t row \<longleftrightarrow> (\<forall>y. \<not> dt_stores t y row) \<and> (\<forall>y. \<not> stored md_ops (ix_static ix) (ix_static_root ix) y row)"

text \<open>The counter of the dynamic stage does not matter.\<close>

lemma written_counter: "nuv_written ix t s new ix' t' \<Longrightarrow> nuv_written ix t s new (ix'\<lparr>ix_ic := n\<rparr>) t'"
  by (simp add: nuv_written_def static_ok_def nuv_has_def)

text \<open>In the dynamic stage the row at the cursor is written, whether new or old.\<close>

lemma written_dynamic:
  assumes "static_ok md_ops md_ok ix" "distinct (dt_addrs t')" "row_fresh ix t row"
    and ix': "ix' = ix\<lparr>ix_table := tb, ix_free := free, ix_rows := (ix_rows ix)(row := new)\<rparr>" "tb_holds tb t'"
    and st: "\<forall>y w. dt_stores t' y w \<longleftrightarrow> (if y = s then w = row else dt_stores t y w)"
  shows "nuv_written ix t s new ix' t'"
proof -
  have "nuv_has ix' t' s b \<longleftrightarrow> b = new" for b using st ix'(1) by (simp add: nuv_has_def)
  moreover have "nuv_has ix' t' y b \<longleftrightarrow> nuv_has ix t y b" if "y \<noteq> s" for y b
  proof -
    have same: "dt_stores t' y r \<longleftrightarrow> dt_stores t y r" for r using st that by simp
    have rows: "dt_stores t y r \<and> b = ix_rows ix' r \<longleftrightarrow> dt_stores t y r \<and> b = ix_rows ix r"
      "stored md_ops (ix_static ix') (ix_static_root ix') y r \<and> b = ix_rows ix' r \<longleftrightarrow>
       stored md_ops (ix_static ix) (ix_static_root ix) y r \<and> b = ix_rows ix r" for r
      using assms(3) ix'(1) by (cases "r = row"; simp add: row_fresh_def)+
    show ?thesis unfolding nuv_has_def same rows ..
  qed
  moreover have "static_ok md_ops md_ok ix'" using assms(1) ix'(1) by (simp add: static_ok_def)
  ultimately show ?thesis using assms(2) ix' by (simp add: nuv_written_def)
qed

text \<open>In the static stage the slot gets the new row.\<close>

lemma written_static:
  assumes "tb_holds (ix_table ix) t" "distinct (dt_addrs t)" "row_fresh ix t (en_row E)" "\<not> (\<exists>u. dt_stores t s u)"
    and w: "static_ok md_ops md_ok ix" "stored md_ops (ix_static ix) (ix_static_root ix) s w"
    and store: "\<exists>h. static_store E ix r new = ix\<lparr>ix_static := h, ix_rows := (ix_rows ix)(en_row E := new)\<rparr> \<and>
        (\<exists>A. static_trie md_ops md_ok h (ix_static_root ix) A) \<and>
        (\<forall>y u. stored md_ops h (ix_static_root ix) y u \<longleftrightarrow>
           (if y = s then u = en_row E else stored md_ops (ix_static ix) (ix_static_root ix) y u))"
    and n: "n \<noteq> 0"
  shows "nuv_written ix t s new ((static_store E ix r new)\<lparr>ix_sic := n\<rparr>) t" "ix_ic (static_store E ix r new) = ix_ic ix"
    "ix_sic (static_store E ix r new) = ix_sic ix"
proof -
  let ?p = "ix_static_root ix"
  obtain h A where h: "static_store E ix r new = ix\<lparr>ix_static := h, ix_rows := (ix_rows ix)(en_row E := new)\<rparr>"
    "static_trie md_ops md_ok h ?p A"
    "\<And>y u. stored md_ops h ?p y u \<longleftrightarrow> (if y = s then u = en_row E else stored md_ops (ix_static ix) ?p y u)"
    using store by auto
  let ?ix = "ix\<lparr>ix_static := h, ix_rows := (ix_rows ix)(en_row E := new), ix_sic := n\<rparr>"
  have p0: "?p \<noteq> 0" using w by (auto simp: static_ok_def elim: stored.cases)
  have new: "nuv_has ?ix t s b \<longleftrightarrow> b = new" for b using assms(4) h(3) by (auto simp: nuv_has_def)
  have other: "nuv_has ?ix t y b \<longleftrightarrow> nuv_has ix t y b" if "y \<noteq> s" for y b
  proof -
    have rows: "dt_stores t y r \<and> b = ix_rows ?ix r \<longleftrightarrow> dt_stores t y r \<and> b = ix_rows ix r"
      "stored md_ops (ix_static ?ix) (ix_static_root ?ix) y r \<and> b = ix_rows ?ix r \<longleftrightarrow>
       stored md_ops (ix_static ix) ?p y r \<and> b = ix_rows ix r" for r
      using assms(3) h(3) that by (cases "r = en_row E"; simp add: row_fresh_def)+
    show ?thesis unfolding nuv_has_def rows ..
  qed
  have "static_ok md_ops md_ok ?ix" using p0 h(2) n by (auto simp: static_ok_def)
  then have "nuv_written ix t s new ?ix t" using assms(1,2) new other by (simp add: nuv_written_def)
  then show "nuv_written ix t s new ((static_store E ix r new)\<lparr>ix_sic := n\<rparr>) t" "ix_ic (static_store E ix r new) = ix_ic ix"
    "ix_sic (static_store E ix r new) = ix_sic ix" by (simp_all add: h(1))
qed

lemma stores_one:
  assumes "tb_holds tb t" "key_ok k" "dt_stores t (key_string k) u" "dt_stores t (key_string k) v"
  shows "u = v"
proof -
  obtain r where "\<forall>v. r = Some v \<longleftrightarrow> dt_stores t (key_string k) v" using dyn_get_spec [OF assms(1,2)] by blast
  then have "r = Some u" "r = Some v" using assms(3,4) by simp_all
  then show ?thesis by simp
qed

lemma nuv_has_dynamic:
  assumes "tb_holds tb t" "key_ok k" "dt_stores t (key_string k) u"
  shows "nuv_has ix t (key_string k) b \<longleftrightarrow> b = ix_rows ix u"
proof -
  have "dt_stores t (key_string k) v \<longleftrightarrow> v = u" for v using assms(3) stores_one [OF assms(1,2)] by blast
  then show ?thesis unfolding nuv_has_def by simp
qed

lemma nuv_has_one:
  assumes "stages_ok md_merge_ops ix t" "key_ok k" "nuv_findable ix k" "nuv_has ix t (key_string k) b" "nuv_has ix t (key_string k) c"
  shows "b = c"
proof -
  have tb: "tb_holds (ix_table ix) t" using assms(1) by (simp add: stages_ok_def)
  obtain v where "\<forall>b. v = Some b \<longleftrightarrow> (\<exists>r. stored md_ops (ix_static ix) (ix_static_root ix) (key_string k) r \<and> b = ix_rows ix r)"
    using static_get_nuv1_ok [OF assms(1-3)] by blast
  then have st: "x = y" if "\<exists>r. stored md_ops (ix_static ix) (ix_static_root ix) (key_string k) r \<and> x = ix_rows ix r"
      "\<exists>r. stored md_ops (ix_static ix) (ix_static_root ix) (key_string k) r \<and> y = ix_rows ix r" for x y
    using that by (metis option.inject)
  show ?thesis
  proof (cases "\<exists>u. dt_stores t (key_string k) u")
    case True
    then show ?thesis using assms(4,5) nuv_has_dynamic [OF tb assms(2)] by metis
  next
    case False
    then show ?thesis using assms(4,5) st by (metis nuv_has_def)
  qed
qed

text \<open>The index with the root pointer brought up to date.\<close>

definition ix_fixed :: "'n mt_index \<Rightarrow> dtree \<Rightarrow> 'n mt_index" where
  "ix_fixed ix t = ix\<lparr>ix_table := (ix_table ix)\<lparr>tb_root := dt_addr t\<rparr>\<rparr>"

lemma fixed_simps [simp]:
  "ix_rows (ix_fixed ix t) = ix_rows ix" "ix_static (ix_fixed ix t) = ix_static ix" "ix_static_root (ix_fixed ix t) = ix_static_root ix"
  "ix_ic (ix_fixed ix t) = ix_ic ix" "ix_sic (ix_fixed ix t) = ix_sic ix" "nuv_has (ix_fixed ix t) t' s b = nuv_has ix t' s b"
  "static_ok md_ops md_ok (ix_fixed jx t) = static_ok md_ops md_ok jx" "nuv_findable (ix_fixed jx t) k = nuv_findable jx k"
  "row_fresh (ix_fixed jx t) t' row = row_fresh jx t' row" "nuv_written (ix_fixed jx t) t' s new ix' t'' = nuv_written jx t' s new ix' t''"
  by (simp_all add: ix_fixed_def nuv_has_def static_ok_def nuv_findable_def row_fresh_def nuv_written_def)

lemma fixed_ok: "dynamic_ok K ix t \<Longrightarrow> dynamic_ok K (ix_fixed ix t) t"
  using holds_root by (auto simp: dynamic_ok_def stages_ok_def ix_fixed_def)

section \<open>Putting a value in front\<close>

lemma insert_new:
  assumes "dynamic_ok K ix t" "key_ok k" "dt_takes t (key_string k)"
  defines "f \<equiv> \<exists>u. dt_stores t (key_string k) u"
  obtains ix1 c u where "cursor_insert E ix k = Some (ix1, c, f)" "f \<longrightarrow> dt_stores t (key_string k) u \<and> cursor_value ix1 c = Some (ix_rows ix u)"
    "\<And>new. \<exists>t' tb free. cursor_store E ix1 c f new = Some (ix\<lparr>ix_table := tb, ix_free := free, ix_rows := (ix_rows ix)(en_row E := new)\<rparr>) \<and>
       tb_holds tb t' \<and> distinct (dt_addrs t') \<and> (\<forall>s w. dt_stores t' s w \<longleftrightarrow> (if s = key_string k then w = en_row E else dt_stores t s w))"
proof -
  obtain ix1 c where i: "cursor_insert E ix k = Some (ix1, c, f)"
    "f \<longrightarrow> (\<exists>u. dt_stores t (key_string k) u \<and> cursor_value ix1 c = Some (ix_rows ix u))"
    using insert_cursor [OF assms(1-3), of E "[]", folded f_def] by (elim exE conjE) (rule that, assumption+)
  then obtain u where u: "f \<longrightarrow> dt_stores t (key_string k) u \<and> cursor_value ix1 c = Some (ix_rows ix u)" by blast
  have "\<exists>t' tb free. cursor_store E ix1 c f new = Some (ix\<lparr>ix_table := tb, ix_free := free, ix_rows := (ix_rows ix)(en_row E := new)\<rparr>) \<and>
       tb_holds tb t' \<and> distinct (dt_addrs t') \<and> (\<forall>s w. dt_stores t' s w \<longleftrightarrow> (if s = key_string k then w = en_row E else dt_stores t s w))" for new
  proof -
    obtain jx d ix2 t' tb free where p: "cursor_insert E ix k = Some (jx, d, f)" "cursor_store E jx d f new = Some ix2"
      "ix2 = ix\<lparr>ix_table := tb, ix_free := free, ix_rows := (ix_rows ix)(en_row E := new)\<rparr>" "tb_holds tb t'" "distinct (dt_addrs t')"
      "\<forall>s w. dt_stores t' s w \<longleftrightarrow> (if s = key_string k then w = en_row E else dt_stores t s w)"
      using insert_cursor [OF assms(1-3), of E new, folded f_def] by (elim exE conjE) (rule that, assumption+)
    have "cursor_store E ix1 c f new = Some ix2" using p(1,2) i(1) by simp
    then show ?thesis unfolding p(3) using p(4-6) by (intro exI [of _ t'] exI [of _ tb] exI [of _ free] conjI)
  qed
  then show thesis by (rule that [OF i(1) u])
qed

lemma put_nuv1_dynamic_spec:
  assumes ok: "dynamic_ok md_merge_ops ix t" and k: "key_ok k" "dt_takes t (key_string k)" and fresh: "row_fresh ix t (en_row E)"
    and n: "int_fits (ix_ic ix + int (length v div VALUE_LEN))" "\<not> merge_due (ix_ic ix + int (length v div VALUE_LEN)) (ix_sic ix)"
  shows "\<exists>ix' t' u. put_nuv1_dynamic E ix k v = Some (Goes_On (ix', True)) \<and>
    (if \<exists>u. dt_stores t (key_string k) u then dt_stores t (key_string k) u \<and> nuv_written ix t (key_string k) (v @ ix_rows ix u) ix' t'
     else nuv_written ix t (key_string k) v ix' t') \<and>
    ix_ic ix' = ix_ic ix + int (length v div VALUE_LEN) \<and> ix_sic ix' = ix_sic ix"
proof -
  let ?n = "int (length v div VALUE_LEN)"
  define f where "f \<longleftrightarrow> (\<exists>u. dt_stores t (key_string k) u)"
  obtain ix1 c u where i: "cursor_insert E ix k = Some (ix1, c, f)" "f \<longrightarrow> dt_stores t (key_string k) u \<and> cursor_value ix1 c = Some (ix_rows ix u)"
    "\<And>new. \<exists>t' tb free. cursor_store E ix1 c f new = Some (ix\<lparr>ix_table := tb, ix_free := free, ix_rows := (ix_rows ix)(en_row E := new)\<rparr>) \<and>
       tb_holds tb t' \<and> distinct (dt_addrs t') \<and> (\<forall>s w. dt_stores t' s w \<longleftrightarrow> (if s = key_string k then w = en_row E else dt_stores t s w))"
    using insert_new [OF ok k, of E, folded f_def] by metis
  let ?new = "if f then v @ ix_rows ix u else v"
  obtain t' tb free where st: "cursor_store E ix1 c f ?new = Some (ix\<lparr>ix_table := tb, ix_free := free, ix_rows := (ix_rows ix)(en_row E := ?new)\<rparr>)"
    "tb_holds tb t'" "distinct (dt_addrs t')" "\<forall>s w. dt_stores t' s w \<longleftrightarrow> (if s = key_string k then w = en_row E else dt_stores t s w)"
    using i(3) by blast
  let ?ix = "ix\<lparr>ix_table := tb, ix_free := free, ix_rows := (ix_rows ix)(en_row E := ?new)\<rparr>"
  have val: "(if f then map_option (values_add v) (cursor_value ix1 c) else Some v) = Some ?new"
    using i(2) by (simp add: values_add_def)
  have "put_nuv1_dynamic E ix k v = Some (Goes_On (?ix\<lparr>ix_ic := ix_ic ix + ?n\<rparr>, True))"
    using i(1) val st(1) n by (simp add: put_nuv1_dynamic_def if_fits_def)
  moreover have "static_ok md_ops md_ok ix" using ok by (auto simp: dynamic_ok_def intro: stages_static_ok(2))
  then have "nuv_written ix t (key_string k) ?new ?ix t'"
    using written_dynamic [OF _ st(3) fresh refl st(2,4)] by blast
  then have "nuv_written ix t (key_string k) ?new (?ix\<lparr>ix_ic := ix_ic ix + ?n\<rparr>) t'" by (rule written_counter)
  moreover have "f \<longrightarrow> dt_stores t (key_string k) u" using i(2) by blast
  ultimately show ?thesis unfolding f_def [symmetric] by (intro exI [of _ "?ix\<lparr>ix_ic := ix_ic ix + ?n\<rparr>"] exI [of _ t'] exI [of _ u]) (cases f, simp_all)
qed

text \<open>What the key had before.\<close>

definition nuv_prepended :: "massnode_dynamicvalue mt_index \<Rightarrow> dtree \<Rightarrow> byte list \<Rightarrow> byte list \<Rightarrow> byte list \<Rightarrow> bool" where
  "nuv_prepended ix t s v new \<longleftrightarrow> (\<exists>b. nuv_has ix t s b \<and> new = v @ b) \<or> (\<forall>b. \<not> nuv_has ix t s b) \<and> new = v"

lemma put_nuv1_spec:
  assumes ok: "dynamic_ok md_merge_ops ix t" and k: "key_ok k" "nuv_findable ix k" "dt_takes t (key_string k)"
    and fresh: "row_fresh ix t (en_row E)"
    and n: "int_fits (ix_ic ix + int (length v div VALUE_LEN))" "int_fits (ix_sic ix + int (length v div VALUE_LEN))"
      "\<not> merge_due (ix_ic ix + int (length v div VALUE_LEN)) (ix_sic ix)" "0 \<le> ix_sic ix"
  shows "\<exists>ix' t' new. put_nuv1 E ix k v = Some (Goes_On (ix', True)) \<and> nuv_written ix t (key_string k) new ix' t' \<and>
    nuv_prepended ix t (key_string k) v new \<and> ix_ic ix' + ix_sic ix' = ix_ic ix + ix_sic ix + int (length v div VALUE_LEN)"
proof -
  let ?s = "key_string k" and ?f = "\<exists>u. dt_stores t (key_string k) u" and ?n = "int (length v div VALUE_LEN)" and ?ix = "ix_fixed ix t"
  have so: "stages_ok md_merge_ops ix t" and d: "distinct (dt_addrs t)" using ok by (simp_all add: dynamic_ok_def)
  have tb: "tb_holds (ix_table ix) t" "ix_ic ix = 0 \<longrightarrow> (\<forall>s v. \<not> dt_stores t s v)" using so by (simp_all add: stages_ok_def)
  have st: "static_ok md_ops md_ok ix" by (rule stages_static_ok(2) [OF so])
  have probe: "dynamic_probe ix k = Some (?ix, ?f)" using dynamic_probe_ok [OF tb k(1)] by (simp add: ix_fixed_def)
  note F = fixed_ok [OF ok]
  obtain ix' t' u where dyn: "put_nuv1_dynamic E ?ix k v = Some (Goes_On (ix', True))"
    "if ?f then dt_stores t ?s u \<and> nuv_written ix t ?s (v @ ix_rows ix u) ix' t' else nuv_written ix t ?s v ix' t'"
    "ix_ic ix' = ix_ic ix + ?n" "ix_sic ix' = ix_sic ix"
    using put_nuv1_dynamic_spec [OF F k(1,3), of E v] fresh n(1,3) by (simp only: fixed_simps) blast
  show ?thesis
  proof (cases ?f)
    case True
    then have u: "dt_stores t ?s u" "nuv_written ix t ?s (v @ ix_rows ix u) ix' t'" using dyn(2) by simp_all
    have "nuv_prepended ix t ?s v (v @ ix_rows ix u)" using u(1) unfolding nuv_prepended_def nuv_has_def by blast
    moreover have "put_nuv1 E ix k v = Some (Goes_On (ix', True))" using dyn(1) True by (simp add: put_nuv1_def probe st_value_def)
    ultimately show ?thesis using u(2) dyn(3,4) by (intro exI [of _ ix'] exI [of _ t'] exI [of _ "v @ ix_rows ix u"]) simp
  next
    case False
    have f: "?f = False" using False by blast
    have w: "nuv_written ix t ?s v ix' t'" using dyn(2) unfolding f by simp
    have has: "nuv_has ix t ?s b \<longleftrightarrow> (\<exists>r. stored md_ops (ix_static ix) (ix_static_root ix) ?s r \<and> b = ix_rows ix r)" for b
      using False by (simp add: nuv_has_def)
    have new: ?thesis if "put_nuv1 E ix k v = put_nuv1_dynamic E ?ix k v" "\<forall>r. \<not> stored md_ops (ix_static ix) (ix_static_root ix) ?s r"
    proof -
      have "nuv_prepended ix t ?s v v" using that(2) by (simp add: nuv_prepended_def has)
      then show ?thesis using that(1) dyn(1,3,4) w by (intro exI [of _ ix'] exI [of _ t'] exI [of _ v]) simp
    qed
    show ?thesis
    proof (cases "ix_sic ix = 0")
      case True
      then have "\<forall>r. \<not> stored md_ops (ix_static ix) (ix_static_root ix) ?s r" using st by (simp add: static_ok_def)
      then show ?thesis using True by (intro new) (simp_all add: put_nuv1_def probe f st_value_def)
    next
      case sic: False
      show ?thesis
      proof (rule static_find_nuv [OF st k(1,2) sic], goal_cases absent present)
        case (absent r)
        then show ?thesis using sic by (intro new) (simp_all add: put_nuv1_def probe f)
      next
        case (present r w)
        let ?new = "v @ ix_rows ix w"
        have store: "static_store E ?ix r ?new = (static_store E ix r ?new)\<lparr>ix_table := ix_table ?ix\<rparr>"
          by (cases r) (simp_all add: ix_fixed_def static_store_def)
        have stw: "stored md_ops (ix_static ?ix) (ix_static_root ?ix) ?s w" using present(3) by simp
        have "\<exists>h. static_store E ?ix r ?new = ?ix\<lparr>ix_static := h, ix_rows := (ix_rows ?ix)(en_row E := ?new)\<rparr> \<and>
            (\<exists>A. static_trie md_ops md_ok h (ix_static_root ?ix) A) \<and>
            (\<forall>y u. stored md_ops h (ix_static_root ?ix) y u \<longleftrightarrow>
              (if y = ?s then u = en_row E else stored md_ops (ix_static ?ix) (ix_static_root ?ix) y u))"
          using present(4) [of E ?new] unfolding store by (elim exE conjE) (rule exI, intro conjI, auto simp: ix_fixed_def)
        note upd = this
        have ne: "ix_sic ix + ?n \<noteq> 0" using sic n(4) by simp
        have H: "tb_holds (ix_table ?ix) t" "row_fresh ?ix t (en_row E)" "static_ok md_ops md_ok ?ix"
          using F st fresh by (simp_all add: dynamic_ok_def stages_ok_def)
        note W = written_static [OF H(1) d H(2) False H(3) stw upd ne]
        let ?fin = "(static_store E ?ix r ?new)\<lparr>ix_sic := ix_sic ix + ?n\<rparr>"
        have "put_nuv1 E ix k v = Some (Goes_On (?fin, True))"
          using sic n(2) W(3) present(1,2) by (simp add: put_nuv1_def probe f values_add_def if_fits_def)
        moreover have "nuv_prepended ix t ?s v ?new" using present(3) unfolding nuv_prepended_def has by blast
        ultimately show ?thesis using W by (intro exI [of _ ?fin] exI [of _ t] exI [of _ ?new]) simp
      qed
    qed
  qed
qed

section \<open>Replacing a value\<close>

lemma dynamic_replace_spec:
  assumes ok: "dynamic_ok md_merge_ops ix t" and k: "key_ok k" "dt_takes t (key_string k)" and fresh: "row_fresh ix t (en_row E)"
    and v: "length v = length old" "dt_stores t (key_string k) u" "find_value (ix_rows ix u) old = Some i" and ic: "ix_ic ix \<noteq> 0"
  shows "\<exists>ix' t'. dynamic_replace E ix k v old = Some (ix', True) \<and>
    nuv_written ix t (key_string k) (values_replace (ix_rows ix u) v i) ix' t' \<and> ix_ic ix' = ix_ic ix \<and> ix_sic ix' = ix_sic ix"
proof -
  let ?s = "key_string k" and ?new = "values_replace (ix_rows ix u) v i"
  have f: "(\<exists>u. dt_stores t ?s u) = True" using v(2) by blast
  have tb: "tb_holds (ix_table ix) t" using ok by (simp add: dynamic_ok_def stages_ok_def)
  obtain ix1 c u' where c: "cursor_insert E ix k = Some (ix1, c, True)" "dt_stores t ?s u'" "cursor_value ix1 c = Some (ix_rows ix u')"
    "\<And>new. \<exists>t' tb free. cursor_store E ix1 c True new = Some (ix\<lparr>ix_table := tb, ix_free := free, ix_rows := (ix_rows ix)(en_row E := new)\<rparr>) \<and>
       tb_holds tb t' \<and> distinct (dt_addrs t') \<and> (\<forall>s w. dt_stores t' s w \<longleftrightarrow> (if s = ?s then w = en_row E else dt_stores t s w))"
    using insert_new [OF ok k, of E, unfolded f] by metis
  have "u' = u" by (rule stores_one [OF tb k(1) c(2) v(2)])
  obtain t' tb free where st: "cursor_store E ix1 c True ?new = Some (ix\<lparr>ix_table := tb, ix_free := free, ix_rows := (ix_rows ix)(en_row E := ?new)\<rparr>)"
    "tb_holds tb t'" "distinct (dt_addrs t')" "\<forall>s w. dt_stores t' s w \<longleftrightarrow> (if s = ?s then w = en_row E else dt_stores t s w)"
    using c(4) by blast
  let ?ix = "ix\<lparr>ix_table := tb, ix_free := free, ix_rows := (ix_rows ix)(en_row E := ?new)\<rparr>"
  have "dynamic_replace E ix k v old = Some (?ix, True)" using ic v c(1,3) st(1) \<open>u' = u\<close> by (simp add: dynamic_replace_def)
  moreover have "static_ok md_ops md_ok ix" using ok by (auto simp: dynamic_ok_def intro: stages_static_ok(2))
  then have "nuv_written ix t ?s ?new ?ix t'" using written_dynamic [OF _ st(3) fresh refl st(2,4)] by blast
  ultimately show ?thesis by (intro exI [of _ ?ix] exI [of _ t']) simp
qed

lemma static_replace1_spec:
  assumes ok: "dynamic_ok md_merge_ops ix t" and k: "key_ok k" "nuv_findable ix k" and fresh: "row_fresh ix t (en_row E)"
    and v: "length v = length old" "stored md_ops (ix_static ix) (ix_static_root ix) (key_string k) w"
      "find_value (ix_rows ix w) old = Some i" and no: "\<not> (\<exists>u. dt_stores t (key_string k) u)"
  shows "\<exists>ix'. static_replace1 E ix k v old = Some (ix', True) \<and>
    nuv_written ix t (key_string k) (values_replace (ix_rows ix w) v i) ix' t \<and> ix_ic ix' = ix_ic ix \<and> ix_sic ix' = ix_sic ix"
proof -
  let ?s = "key_string k" and ?new = "values_replace (ix_rows ix w) v i"
  have so: "stages_ok md_merge_ops ix t" and d: "distinct (dt_addrs t)" using ok by (simp_all add: dynamic_ok_def)
  have tb: "tb_holds (ix_table ix) t" using so by (simp add: stages_ok_def)
  have st: "static_ok md_ops md_ok ix" by (rule stages_static_ok(2) [OF so])
  have sic: "ix_sic ix \<noteq> 0" using st v(2) by (auto simp: static_ok_def)
  show ?thesis
  proof (rule static_find_nuv [OF st k sic], goal_cases absent present)
    case (absent r)
    then show ?thesis using v(2) by blast
  next
    case (present r u)
    then have "u = w" using v(2) by simp
    note W = written_static [OF tb d fresh no st v(2) present(4) sic, of ?new]
    have same: "(static_store E ix r ?new)\<lparr>ix_sic := ix_sic ix\<rparr> = static_store E ix r ?new"
      using W(3) by (cases "static_store E ix r ?new") simp
    have "static_replace1 E ix k v old = Some (static_store E ix r ?new, True)"
      using sic v(1,3) present(1,2) \<open>u = w\<close> by (simp add: static_replace1_def)
    then show ?thesis using W unfolding same by blast
  qed
qed

section \<open>Removing one of several values\<close>

lemma static_remove_value_spec:
  assumes ok: "dynamic_ok md_merge_ops ix t" and k: "key_ok k" "nuv_findable ix k" and fresh: "row_fresh ix t (en_row E)"
    and v: "stored md_ops (ix_static ix) (ix_static_root ix) (key_string k) w" "find_value (ix_rows ix w) v = Some i"
      "length v < length (ix_rows ix w)" and no: "\<not> (\<exists>u. dt_stores t (key_string k) u)"
    and n: "ix_sic ix \<noteq> int (length v div VALUE_LEN)"
  shows "\<exists>ix'. static_remove_nuv1 E ix k v = Some (ix', True) \<and>
    nuv_written ix t (key_string k) (values_remove (ix_rows ix w) v i) ix' t"
proof -
  let ?s = "key_string k" and ?new = "values_remove (ix_rows ix w) v i"
  have so: "stages_ok md_merge_ops ix t" and d: "distinct (dt_addrs t)" using ok by (simp_all add: dynamic_ok_def)
  have tb: "tb_holds (ix_table ix) t" using so by (simp add: stages_ok_def)
  have st: "static_ok md_ops md_ok ix" by (rule stages_static_ok(2) [OF so])
  have sic: "ix_sic ix \<noteq> 0" using st v(1) by (auto simp: static_ok_def)
  show ?thesis
  proof (rule static_find_nuv [OF st k sic], goal_cases absent present)
    case (absent r)
    then show ?thesis using v(1) by blast
  next
    case (present r u)
    then have "u = w" using v(1) by simp
    have ne: "ix_sic ix - int (length v div VALUE_LEN) \<noteq> 0" using n by simp
    note W = written_static [OF tb d fresh no st v(1) present(4) ne, of ?new]
    have "static_remove_nuv1 E ix k v =
        Some ((static_store E ix r ?new)\<lparr>ix_sic := ix_sic ix - int (length v div VALUE_LEN)\<rparr>, True)"
      using sic v(2,3) present(1,2) \<open>u = w\<close> by (simp add: static_remove_nuv1_def)
    then show ?thesis using W(1) by blast
  qed
qed

lemma dynamic_get_fixed:
  assumes "dynamic_ok K ix t" "key_ok k" "ix_ic ix \<noteq> 0"
  shows "\<exists>r. dynamic_get ix k = Some (ix_fixed ix t, r) \<and>
    (if \<exists>u. dt_stores t (key_string k) u then \<exists>u. dt_stores t (key_string k) u \<and> r = Some (ix_rows ix u) else r = None)"
proof -
  have tb: "tb_holds (ix_table ix) t" using assms(1) by (simp add: dynamic_ok_def stages_ok_def)
  obtain r where r: "tb_get (ix_table ix) k = Some ((ix_table ix)\<lparr>tb_root := dt_addr t\<rparr>, r)" "\<forall>v. r = Some v \<longleftrightarrow> dt_stores t (key_string k) v"
    using dyn_get_spec [OF tb assms(2)] by blast
  then show ?thesis using assms(3) by (cases r) (auto simp: dynamic_get_def dynamic_find_def ix_fixed_def)
qed

lemma dynamic_remove_value_spec:
  assumes ok: "dynamic_ok md_merge_ops ix t" and k: "key_ok k" "dt_takes t (key_string k)" and fresh: "row_fresh ix t (en_row E)"
    and v: "dt_stores t (key_string k) u" "find_value (ix_rows ix u) v = Some i" "length v < length (ix_rows ix u)"
    and ic: "ix_ic ix \<noteq> 0" "int_fits (ix_ic ix + int (length (values_remove (ix_rows ix u) v i) div VALUE_LEN))"
  shows "\<exists>ix' t'. dynamic_remove_nuv E ts due gc ix k v = Some (Goes_On (ix', gc, True)) \<and>
    nuv_written ix t (key_string k) (values_remove (ix_rows ix u) v i) ix' t' \<and> ix_ic ix' = ix_ic ix - 1"
proof -
  let ?s = "key_string k" and ?new = "values_remove (ix_rows ix u) v i" and ?ix = "ix_fixed ix t"
  have f: "(\<exists>u. dt_stores t ?s u) = True" using v(1) by blast
  have tb: "tb_holds (ix_table ix) t" using ok by (simp add: dynamic_ok_def stages_ok_def)
  obtain u' where g: "dynamic_get ix k = Some (?ix, Some (ix_rows ix u'))" "dt_stores t ?s u'"
    using dynamic_get_fixed [OF ok k(1) ic(1)] unfolding f by auto
  have "u' = u" by (rule stores_one [OF tb k(1) g(2) v(1)])
  have fits: "int_fits (ix_ic ?ix + int (length ?new div VALUE_LEN))" using ic(2) by simp
  obtain ix2 t' tb' free where p: "mt_put E ?ix k ?new = Some (Goes_On (ix2\<lparr>ix_ic := ix_ic ?ix + int (length ?new div VALUE_LEN)\<rparr>))"
    "ix2 = ?ix\<lparr>ix_table := tb', ix_free := free, ix_rows := (ix_rows ?ix)(en_row E := ?new)\<rparr>" "tb_holds tb' t'" "distinct (dt_addrs t')"
    "\<forall>s w. dt_stores t' s w \<longleftrightarrow> (if s = ?s then w = en_row E else dt_stores t s w)"
    using mt_put_spec [OF fixed_ok [OF ok] k fits] by blast
  have "dynamic_remove_nuv E ts due gc ix k v = Some (Goes_On (ix2\<lparr>ix_ic := ix_ic ix - 1\<rparr>, gc, True))"
    using g(1) p(1) v(2,3) ic(1) \<open>u' = u\<close> by (simp add: dynamic_remove_nuv_def Let_def)
  moreover have "static_ok md_ops md_ok ?ix" using ok by (auto simp: dynamic_ok_def intro: stages_static_ok(2))
  then have "nuv_written ?ix t ?s ?new ix2 t'"
    using written_dynamic [OF _ p(4) _ p(2,3,5)] fresh by simp
  then have "nuv_written ix t ?s ?new (ix2\<lparr>ix_ic := ix_ic ix - 1\<rparr>) t'" using written_counter by simp
  ultimately show ?thesis by (intro exI [of _ "ix2\<lparr>ix_ic := ix_ic ix - 1\<rparr>"] exI [of _ t']) simp
qed

lemma remove_value_spec:
  assumes ok: "dynamic_ok md_merge_ops ix t" and k: "key_ok k" "nuv_findable ix k" "dt_takes t (key_string k)"
    and fresh: "row_fresh ix t (en_row E)"
    and v: "nuv_has ix t (key_string k) cur" "find_value cur v = Some i" "length v < length cur"
    and n: "int_fits (ix_ic ix + int (length (values_remove cur v i) div VALUE_LEN))" "ix_sic ix \<noteq> int (length v div VALUE_LEN)"
  shows "\<exists>ix' t'. remove_nuv E ts due gc ix k v = Some (Goes_On (ix', gc, True)) \<and>
    nuv_written ix t (key_string k) (values_remove cur v i) ix' t'"
proof (cases "\<exists>u. dt_stores t (key_string k) u")
  case True
  then obtain u where u: "dt_stores t (key_string k) u" by blast
  have tb: "tb_holds (ix_table ix) t" "ix_ic ix = 0 \<longrightarrow> (\<forall>s v. \<not> dt_stores t s v)" using ok by (simp_all add: dynamic_ok_def stages_ok_def)
  have cur: "cur = ix_rows ix u" using v(1) nuv_has_dynamic [OF tb(1) k(1) u] by simp
  have ic: "ix_ic ix \<noteq> 0" using tb(2) u by blast
  obtain ix' t' where "dynamic_remove_nuv E ts due gc ix k v = Some (Goes_On (ix', gc, True))"
    "nuv_written ix t (key_string k) (values_remove cur v i) ix' t'"
    using dynamic_remove_value_spec [OF ok k(1,3) fresh u _ _ ic, of v i ts due gc] v(2,3) n(1) unfolding cur by blast
  then show ?thesis by (intro exI [of _ ix'] exI [of _ t']) (simp add: remove_nuv_def)
next
  case no: False
  then obtain w where w: "stored md_ops (ix_static ix) (ix_static_root ix) (key_string k) w" "cur = ix_rows ix w"
    using v(1) by (auto simp: nuv_has_def)
  have st: "\<exists>ix'. static_remove_nuv1 E jx k v = Some (ix', True) \<and> nuv_written ix t (key_string k) (values_remove cur v i) ix' t"
    if "jx = ix \<or> jx = ix_fixed ix t" for jx
    using that static_remove_value_spec [OF ok k(1,2) fresh w(1) _ _ no n(2)]
      static_remove_value_spec [OF fixed_ok [OF ok] k(1), of E w v i] fresh k(2) w no n(2) v(2,3) by auto
  have "\<exists>jx. dynamic_remove_nuv E ts due gc ix k v = Some (Goes_On (jx, gc, False)) \<and> (jx = ix \<or> jx = ix_fixed ix t)"
  proof (cases "ix_ic ix = 0")
    case True
    then show ?thesis by (simp add: dynamic_remove_nuv_def)
  next
    case False
    then have "dynamic_get ix k = Some (ix_fixed ix t, None)" using dynamic_get_fixed [OF ok k(1) False] no by auto
    then show ?thesis using False by (simp add: dynamic_remove_nuv_def)
  qed
  then obtain jx where jx: "dynamic_remove_nuv E ts due gc ix k v = Some (Goes_On (jx, gc, False))" "jx = ix \<or> jx = ix_fixed ix t" by blast
  obtain ix' where "static_remove_nuv1 E jx k v = Some (ix', True)" "nuv_written ix t (key_string k) (values_remove cur v i) ix' t"
    using st [OF jx(2)] by blast
  then show ?thesis using jx(1) by (intro exI [of _ ix'] exI [of _ t]) (simp add: remove_nuv_def)
qed

section \<open>Properties\<close>




section \<open>Witnesses\<close>

lemma sample_fresh_row: "row_fresh (sample_index md_of) sample_stage (en_row sample_env)"
  by (auto simp: row_fresh_def sample_stores sample_env_def sample_index_def md_sample(7))

lemma sample_dynamic_md: "dynamic_ok md_merge_ops (sample_index md_of) sample_stage"
  using sample_md(1) by (simp add: dynamic_ok_def sample_stage_def)


lemma sample_fits_97: "nuv_findable (sample_index md_of) (key_of_bytes [97])"
proof -
  have "op_layers md_ops (md_of old_slots) = []"
    by (simp add: op_layers_def old_slots_def md_of_get keylenx_is_layer_def upt_rec)
  moreover have "md_fits (md_of old_slots) (key_of_bytes [97])"
    by (simp add: md_fits_def old_slots_def less_Suc_eq md_of_get kl_rank_def keylenx_is_layer_def slot_rank_def slice_of_eq_iff
        pad8_def eight_c_def)
  ultimately show ?thesis using leaf_fits [of "two_tries md_of" 2] by (simp add: nuv_findable_def sample_index_def two_tries_def)
qed



end
