(* ===== verification/Spec2Isabelle.thy ===== *)
theory Spec2Isabelle
  imports Circular_Int Static_Stage Kpermuter Node_Version String_Bag Bloom_Filter Dyn_Insert Build_Nodes Merge_Whole Mt_Values
begin

text \<open>
  A verification library for the hybrid index of this repository, \<^verbatim>\<open>src/hybrid_index\<close>: an ordered index
  (\<^verbatim>\<open>mt_index\<close> of \<^verbatim>\<open>mtIndexAPI.hh\<close>) in two stages. Insertions go to the dynamic stage, a Masstree:
  a trie over slices of eight bytes whose every layer is a B+ tree of leaves and internodes. The static stage is the
  same trie with one compact block of memory per layer. When the dynamic stage has grown to a tenth of the static one
  (and to at least 100 entries), a static trie is built from it, that trie is merged into the static stage, and the
  dynamic stage starts empty. A lookup asks the dynamic stage first.

  \<^bold>\<open>Ground.\<close> \<open>Prelude\<close> names the machine types (words of 8, 16, 32 and 64 bits, addresses as words, byte
  strings as lists) and holds the memory operations \<open>peek\<close> and \<open>poke\<close> and the lemmas on lists, words and
  little-endian reading that all parts share. \<open>String_Slice\<close> (\<^verbatim>\<open>string_slice.hh\<close>) is the packing of eight
  bytes into a word whose order is that of the bytes, \<open>Masstree_Key\<close> (\<^verbatim>\<open>masstree_key.hh\<close>) the key a cursor
  carries from layer to layer with the two comparisons, \<open>Ksearch\<close> (\<^verbatim>\<open>ksearch.hh\<close>) the searches in a node,
  \<open>Circular_Int\<close> (\<^verbatim>\<open>circular_int.hh\<close>) counters that wrap, \<open>Bloom_Filter\<close> the filter of
  \<^verbatim>\<open>mtIndexAPI.hh\<close>.

  \<^bold>\<open>Dynamic stage.\<close> \<open>Kpermuter\<close> (\<^verbatim>\<open>kpermuter.hh\<close>), \<open>Node_Version\<close> (\<^verbatim>\<open>nodeversion.hh\<close>, as
  interleavings of readers and writers) and \<open>String_Bag\<close> (\<^verbatim>\<open>stringbag.hh\<close>) are the parts of a leaf;
  \<open>Dyn_Leaf\<close> and \<open>Leaf_Split\<close> are class \<^verbatim>\<open>leaf\<close>, \<open>Internode\<close> is class \<^verbatim>\<open>internode\<close>
  (\<^verbatim>\<open>masstree_struct.hh\<close>, \<^verbatim>\<open>masstree_insert.hh\<close>, \<^verbatim>\<open>masstree_split.hh\<close>). \<open>Dyn_Heap\<close> puts
  nodes into a heap, a partial map from addresses to leaves and internodes, and models \<^verbatim>\<open>reach_leaf\<close>,
  \<^verbatim>\<open>find_unlocked\<close> and the root pointer; its specification is a tree \<open>dtree\<close>, the relation
  \<open>dt_stores\<close> between strings and values, and \<open>tb_holds\<close>: the table holds the tree. \<open>Dyn_Layer\<close> lists the
  rows and the layers of a tree in order. \<open>Dyn_Insert\<close> is \<^verbatim>\<open>tcursor\<close>: \<^verbatim>\<open>find_insert\<close> with splits and new
  layers, the value, \<^verbatim>\<open>finish_insert\<close>. \<open>Dyn_Put\<close> proves what it does for keys that are present and for
  leaves that have room. \<open>Dyn_Remove\<close> is \<^verbatim>\<open>masstree_remove.hh\<close>: \<^verbatim>\<open>finish_remove\<close>,
  \<^verbatim>\<open>remove_leaf\<close> and \<^verbatim>\<open>collapse\<close> for leaves that have become empty, \<^verbatim>\<open>gc_layer\<close> and its callback for
  layers that have, with the theorem on removals that leave every leaf in its tree.

  \<^bold>\<open>Static stage.\<close> \<open>Mass_Node\<close> has the getters and setters of \<^verbatim>\<open>massnode\<close>,
  \<^verbatim>\<open>massnode_multivalue\<close> and \<^verbatim>\<open>massnode_dynamicvalue\<close> over their raw block; \<open>Node_Layout\<close> is the
  reference layout of such a block. \<open>Static_Cursor\<close> models find, update, remove, destroy and subtree_size once, over a
  dictionary \<open>node_ops\<close> of the operations of a node. \<open>Static_Trie\<close> states the contract of that dictionary as a
  locale and proves the cursors correct in it: \<open>stored\<close> relates the strings and values of a trie.
  \<open>Static_Stage\<close> interprets the locale for the three kinds of node and draws the conclusions for the code.

  \<^bold>\<open>Building.\<close> \<open>Build_Static\<close> models \<^verbatim>\<open>buildStatic\<close>, \<^verbatim>\<open>buildStaticMultivalue\<close>,
  \<^verbatim>\<open>buildStaticDynamicvalue\<close> and \<^verbatim>\<open>buildStatic_quick\<close>: the list of layers, the two passes over the rows of a
  layer (sizes, then contents). \<open>Build_Nodes\<close> interprets the contract of the writer (\<open>node_builder\<close>) for
  the three kinds and proves that the trie stores exactly what the dynamic stage stores.

  \<^bold>\<open>Merging.\<close> \<open>Merge_Static\<close> models \<^verbatim>\<open>stcursor_merge\<close> and \<^verbatim>\<open>stcursor_merge_dynamicvalue\<close>: the three
  kinds of task, merge two nodes, add an item to a node, make a node of two items; the merge in the block of a node
  whose arrays were moved up; the queue. \<open>Merge_Block\<close>, \<open>Merge_Layout\<close>, \<open>Merge_Node\<close>, \<open>Merge_Two\<close>,
  \<open>Merge_Item\<close> and \<open>Merge_Create\<close> refine each task to a function on lists of slots (positions, regions of memory,
  the contract of the node as locales \<open>merge_node\<close> and \<open>merge_maker\<close> with interpretations for both kinds).
  \<open>Merge_Rows\<close> says what lists of slots store, \<open>Merge_Trie\<close> lifts the tasks to tries in a heap,
  \<open>Merge_Queue\<close> does the induction over the queue, \<open>Merge_Whole\<close> draws the conclusions. \<open>Built_Trie\<close>
  connects builder and merge: what was built has the form the merge asks for.

  \<^bold>\<open>Index.\<close> \<open>Value_List\<close> is the string of values of a key in the index with several values per key.
  \<open>Mt_Index\<close> models the operations of \<^verbatim>\<open>mt_index\<close> on one record of table, rows, static heap and the counters
  \<^verbatim>\<open>ic\<close> and \<^verbatim>\<open>sic\<close>. \<open>Mt_Merge\<close> has its invariant \<open>stages_ok\<close> (both stages well-formed, counters 0
  exactly as far as lookups rely on it), \<open>index_has\<close> (what the index stores) and the step of a merge;
  \<open>Mt_Correct\<close> and \<open>Mt_Put\<close> the theorems on lookups, merges and insertions. \<open>Mt_Change\<close> models removal
  and replacement across the stages and proves the removal of a key; \<open>Mt_Values\<close> proves what \<^verbatim>\<open>put_nuv1\<close>,
  \<^verbatim>\<open>replace\<close> and \<^verbatim>\<open>remove_nuv\<close> make of the values of a key, over one relation (\<open>nuv_written\<close>: the string
  of one key is new, all others are as before).

  \<^bold>\<open>Conventions.\<close> A result \<open>None\<close> is a failed assertion, a dangling pointer or, for functions defined with
  \<open>partial_function\<close>, a loop without end; that the code returns is therefore part of every theorem of the form
  \<open>f x = Some y\<close>. Walks on pointers are such functions, since a cyclic heap would keep them busy; loops with a bound are
  total. In the merge \<open>outcome\<close> tells apart undefined behaviour and the two ways a step ends. Machine
  integers keep their width; where the code computes in \<^verbatim>\<open>int\<close> the model does so exactly and the theorems bound the sizes (a
  trie weighs less than \<open>2 ^ 31\<close>, the counters are tested by \<open>int_fits\<close>). No fuel is used.

  \<^bold>\<open>Parameters.\<close> What is not code of the repository is an argument: addresses and the contents of
  fresh blocks (\<open>dpool\<close>, \<open>merge_alloc\<close>, \<open>mt_env\<close>), the first column of a row. The theorems ask of the allocator that
  addresses are new and not null, and of contents only what \<^verbatim>\<open>new\<close> guarantees. The machine is little-endian with eight-byte
  pointers; node versions are those of the configuration without concurrency, except in \<open>Node_Version\<close>, which
  models the concurrent variant too.

  \<^bold>\<open>Not modelled.\<close> \<^verbatim>\<open>stcursor_merge_multivalue\<close>, which only \<^verbatim>\<open>SECONDARY_INDEX_TYPE\<close> 0 uses (the file sets 1), and
  the operations of the index for that setting; scans; statistics and printing; destroying a whole dynamic stage. That an
  insertion which splits a leaf or makes a new layer keeps the tree is proved for the leaf and for the internode, not for the
  whole tree; the removal of an empty leaf or layer is modelled without a theorem. Which callbacks are due depends on the epochs
  of the threads, so their number is an argument. Memory that is freed is simply not read again, so freeing has no counterpart. The server, its protocol and log, the
  support libraries, the vendored B+ tree and the benchmark drivers are outside the library.
\<close>

end
